(* ===== verification/Prelude.thy ===== *)
theory Prelude
  imports Main "HOL-Library.Word" "HOL-Library.Multiset" "HOL-Library.Monad_Syntax"
begin

text \<open>
  Shared vocabulary of the development: the C integer types as words, memory cells that are
  read and written by index with a bounds check (None stands for the undefined behaviour of an
  access outside the object), and the list and word lemmas that several components use.
\<close>

unbundle bit_operations_syntax

type_synonym u8 = "8 word"
type_synonym u16 = "16 word"
type_synonym u32 = "32 word"
type_synonym u64 = "64 word"
type_synonym addr = nat

section \<open>Checked memory access\<close>

definition rd :: "'a list \<Rightarrow> nat \<Rightarrow> 'a option" where
  "rd xs i = (if i < length xs then Some (xs ! i) else None)"

definition wr :: "'a list \<Rightarrow> nat \<Rightarrow> 'a \<Rightarrow> 'a list option" where
  "wr xs i v = (if i < length xs then Some (xs[i := v]) else None)"

text \<open>A block copy of \<open>src\<close> to offset \<open>i\<close>, as \<open>memcpy\<close> does inside one object.\<close>

definition blit :: "'a list \<Rightarrow> nat \<Rightarrow> 'a list \<Rightarrow> 'a list option" where
  "blit xs i src =
     (if i + length src \<le> length xs
      then Some (take i xs @ src @ drop (i + length src) xs) else None)"

lemma rd_Some_iff [simp]: "rd xs i = Some v \<longleftrightarrow> i < length xs \<and> xs ! i = v"
  by (auto simp: rd_def)

lemma wr_Some_iff [simp]: "wr xs i v = Some ys \<longleftrightarrow> i < length xs \<and> ys = xs[i := v]"
  by (auto simp: wr_def)

lemma blit_Some_iff:
  "blit xs i src = Some ys \<longleftrightarrow>
     i + length src \<le> length xs \<and> ys = take i xs @ src @ drop (i + length src) xs"
  by (auto simp: blit_def)

lemma length_blit: "blit xs i src = Some ys \<Longrightarrow> length ys = length xs"
  by (auto simp: blit_Some_iff)

section \<open>Lists\<close>

lemma successively_frame:
  assumes "successively P xs"
    and "\<And>a b. a \<in> set (butlast xs) \<Longrightarrow> b \<in> set (tl xs) \<Longrightarrow> P a b \<Longrightarrow> Q a b"
  shows "successively Q xs"
  using assms
proof (induction xs rule: induct_list012)
  case (3 x y zs)
  then have "successively Q (y # zs)"
    by (metis (no_types, lifting) butlast.simps(2) list.distinct(1) list.sel(3)
        list.set_intros(2) successively.simps(3))
  with 3 show ?case by simp
qed auto

section \<open>Words\<close>

lemma unat_small: "n < 2 ^ LENGTH('a) \<Longrightarrow> unat (word_of_nat n :: 'a::len word) = n"
  by (simp add: unat_of_nat take_bit_nat_eq_self_iff)

section \<open>Little-endian bytes\<close>

text \<open>The bytes of an unsigned integer as a copy of its memory gives them.\<close>

primrec le_bytes :: "nat \<Rightarrow> 'a::len word \<Rightarrow> u8 list" where
  "le_bytes 0 w = []"
| "le_bytes (Suc n) w = ucast w # le_bytes n (drop_bit 8 w)"

abbreviation le16 :: "u16 \<Rightarrow> u8 list" where "le16 \<equiv> le_bytes 2"
abbreviation le32 :: "u32 \<Rightarrow> u8 list" where "le32 \<equiv> le_bytes 4"
abbreviation le64 :: "u64 \<Rightarrow> u8 list" where "le64 \<equiv> le_bytes 8"

fun of_le :: "u8 list \<Rightarrow> 'a::len word" where
  "of_le [] = 0"
| "of_le (b # bs) = ucast b OR push_bit 8 (of_le bs)"

lemma bit_of_le:
  "bit (of_le bs :: 'a::len word) n \<longleftrightarrow>
     n < LENGTH('a) \<and> n div 8 < length bs \<and> bit (bs ! (n div 8)) (n mod 8)"
proof (induction bs arbitrary: n)
  case Nil
  then show ?case by simp
next
  case (Cons b bs)
  show ?case
  proof (cases "n < 8")
    case True
    then show ?thesis by (auto simp: bit_or_iff bit_push_bit_iff bit_ucast_iff dest: bit_imp_le_length)
  next
    case False
    then have "n div 8 = Suc ((n - 8) div 8)" "n mod 8 = (n - 8) mod 8"
      by (simp_all add: le_div_geq le_mod_geq)
    with False show ?thesis
      by (auto simp: bit_or_iff bit_push_bit_iff bit_ucast_iff Cons.IH dest: bit_imp_le_length)
  qed
qed

lemma length_le_bytes [simp]: "length (le_bytes n w) = n"
  by (induction n arbitrary: w) simp_all

lemma of_le_le_bytes: "of_le (le_bytes n w) = take_bit (8 * n) w"
proof (induction n arbitrary: w)
  case 0
  then show ?case by simp
next
  case (Suc n)
  have "ucast (ucast w :: u8) OR push_bit 8 (take_bit (8 * n) (drop_bit 8 w)) = take_bit (8 + 8 * n) w"
    by (rule bit_word_eqI) (auto simp: bit_simps dest: bit_imp_le_length)
  with Suc show ?case by simp
qed

lemma of_le_le [simp]:
  "of_le (le16 a) = a" "of_le (le32 b) = b" "of_le (le64 c) = c"
  by (simp_all add: of_le_le_bytes take_bit_word_eq_self)

end
