(* ===== verification/ListH.thy ===== *)
theory ListH
  imports Prelude
begin

text \<open>
  The intrusive doubly linked lists of \<open>quickjs/list.h\<close>. A heap of link nodes is a pair of
  functions on addresses (address 0 is NULL); a list is a head node and the nodes that follow
  it in a circle. \<open>dlist h head xs\<close> says that the nodes after \<open>head\<close> are exactly \<open>xs\<close>;
  each operation of the header is shown to implement the list operation it stands for.
\<close>

section \<open>The operations\<close>

record links =
  prev_of :: "addr \<Rightarrow> addr"
  next_of :: "addr \<Rightarrow> addr"

definition init_list_head :: "addr \<Rightarrow> links \<Rightarrow> links" where
  "init_list_head head h =
     h\<lparr>prev_of := (prev_of h)(head := head), next_of := (next_of h)(head := head)\<rparr>"

definition list_add_between :: "addr \<Rightarrow> addr \<Rightarrow> addr \<Rightarrow> links \<Rightarrow> links" where
  "list_add_between el prv nxt h =
     (let h1 = h\<lparr>next_of := (next_of h)(prv := el)\<rparr>;
          h2 = h1\<lparr>prev_of := (prev_of h1)(el := prv)\<rparr>;
          h3 = h2\<lparr>next_of := (next_of h2)(el := nxt)\<rparr>
      in h3\<lparr>prev_of := (prev_of h3)(nxt := el)\<rparr>)"

definition list_add :: "addr \<Rightarrow> addr \<Rightarrow> links \<Rightarrow> links" where
  "list_add el head h = list_add_between el head (next_of h head) h"

definition list_add_tail :: "addr \<Rightarrow> addr \<Rightarrow> links \<Rightarrow> links" where
  "list_add_tail el head h = list_add_between el (prev_of h head) head h"

definition list_del :: "addr \<Rightarrow> links \<Rightarrow> links" where
  "list_del el h =
     (let prv = prev_of h el; nxt = next_of h el;
          h1 = h\<lparr>next_of := (next_of h)(prv := nxt)\<rparr>;
          h2 = h1\<lparr>prev_of := (prev_of h1)(nxt := prv)\<rparr>;
          h3 = h2\<lparr>prev_of := (prev_of h2)(el := 0)\<rparr>
      in h3\<lparr>next_of := (next_of h3)(el := 0)\<rparr>)"

definition list_empty :: "addr \<Rightarrow> links \<Rightarrow> bool" where
  "list_empty el h \<longleftrightarrow> next_of h el = el"

text \<open>
  The \<open>list_for_each\<close> and \<open>list_for_each_prev\<close> macros: the nodes a loop over the list
  visits, in order. A circle that does not come back to the head runs for ever, so the walk
  takes fuel and gives None when it runs out.
\<close>

fun list_walk :: "nat \<Rightarrow> (addr \<Rightarrow> addr) \<Rightarrow> addr \<Rightarrow> addr \<Rightarrow> addr list option" where
  "list_walk 0 step head el = None"
| "list_walk (Suc n) step head el =
     (if el = head then Some [] else map_option ((#) el) (list_walk n step head (step el)))"

definition list_for_each :: "nat \<Rightarrow> links \<Rightarrow> addr \<Rightarrow> addr list option" where
  "list_for_each n h head = list_walk n (next_of h) head (next_of h head)"

definition list_for_each_prev :: "nat \<Rightarrow> links \<Rightarrow> addr \<Rightarrow> addr list option" where
  "list_for_each_prev n h head = list_walk n (prev_of h) head (prev_of h head)"

section \<open>The abstraction\<close>

definition linked :: "links \<Rightarrow> addr \<Rightarrow> addr \<Rightarrow> bool" where
  "linked h a b \<longleftrightarrow> next_of h a = b \<and> prev_of h b = a"

definition dlist :: "links \<Rightarrow> addr \<Rightarrow> addr list \<Rightarrow> bool" where
  "dlist h head xs \<longleftrightarrow>
     distinct (head # xs) \<and> 0 \<notin> set (head # xs) \<and> successively (linked h) (head # xs @ [head])"

lemma dlist_init: "head \<noteq> 0 \<Longrightarrow> dlist (init_list_head head h) head []"
  by (simp add: dlist_def init_list_head_def linked_def)

lemma dlist_next: "dlist h head xs \<Longrightarrow> next_of h head = hd (xs @ [head])"
  by (cases xs) (auto simp: dlist_def linked_def)

lemma dlist_prev: "dlist h head xs \<Longrightarrow> prev_of h head = last (head # xs)"
proof -
  assume "dlist h head xs"
  then have "successively (linked h) ((head # xs) @ [head])" by (simp add: dlist_def)
  then show ?thesis unfolding successively_append_iff by (auto simp: linked_def)
qed

lemma dlist_empty_iff: "dlist h head xs \<Longrightarrow> list_empty head h \<longleftrightarrow> xs = []"
  by (cases xs) (auto simp: list_empty_def dlist_def linked_def)

lemma next_of_add_between [simp]:
  "next_of (list_add_between el p n h) = (next_of h)(p := el, el := n)"
  by (simp add: list_add_between_def Let_def)

lemma prev_of_add_between [simp]:
  "prev_of (list_add_between el p n h) = (prev_of h)(el := p, n := el)"
  by (simp add: list_add_between_def Let_def)

lemma dlist_add_between:
  assumes d: "dlist h head (xs @ ys)" and new: "el \<noteq> 0" "el \<noteq> head" "el \<notin> set (xs @ ys)"
    and p: "p = last (head # xs)" and n: "n = hd (ys @ [head])"
  shows "dlist (list_add_between el p n h) head (xs @ el # ys)"
proof -
  let ?h = "list_add_between el p n h"
  have dist: "distinct (head # xs @ ys)" and chain: "successively (linked h) ((head # xs) @ (ys @ [head]))"
    using d by (auto simp: dlist_def)
  have left: "successively (linked h) (head # xs)" and right: "successively (linked h) (ys @ [head])"
    using chain unfolding successively_append_iff by simp_all
  have bl: "p \<notin> set (butlast (head # xs))"
    using dist p by (metis append.assoc append_Cons append_butlast_last_id distinct_append
        list.distinct(1) list.set_intros(1) not_distinct_conv_prefix)
  have tlr: "n \<notin> set (tl (ys @ [head]))"
    using dist n by (cases ys) auto
  have left': "successively (linked ?h) (head # xs)"
  proof (rule successively_frame [OF left])
    fix a b assume a: "a \<in> set (butlast (head # xs))" and b: "b \<in> set (tl (head # xs))"
      and l: "linked h a b"
    have "a \<noteq> p" using a bl by auto
    moreover have "a \<in> set (head # xs)" using a by (meson in_set_butlastD)
    then have "a \<noteq> el" using new by auto
    moreover have "b \<noteq> el" using b new by auto
    moreover have "n \<in> set ys \<or> n = head" using n by (cases ys) auto
    then have "b \<noteq> n" using b dist by auto
    ultimately show "linked ?h a b" using l by (auto simp: linked_def)
  qed
  have right': "successively (linked ?h) (ys @ [head])"
  proof (rule successively_frame [OF right])
    fix a b assume a: "a \<in> set (butlast (ys @ [head]))" and b: "b \<in> set (tl (ys @ [head]))"
      and l: "linked h a b"
    have ay: "a \<in> set ys" using a by simp
    have "p \<in> set (head # xs)" using p by (metis last_in_set list.distinct(1))
    then have "a \<noteq> p" using ay dist by auto
    moreover have "b \<in> set ys \<or> b = head" using b by (cases ys) auto
    then have "a \<noteq> el" "b \<noteq> el" using ay new by auto
    moreover have "b \<noteq> n" using b tlr by auto
    ultimately show "linked ?h a b" using l by (auto simp: linked_def)
  qed
  have "p \<noteq> el" using p new by (metis Un_iff last_in_set list.distinct(1) set_ConsD set_append)
  moreover have "n \<noteq> el" using n new by (cases ys) auto
  ultimately have "linked ?h p el" "linked ?h el n" by (auto simp: linked_def)
  with left' right' p n have "successively (linked ?h) ((head # xs) @ [el] @ (ys @ [head]))"
    unfolding successively_append_iff [of _ "head # xs"] successively_append_iff [of _ "[el]"] by simp
  then show ?thesis using d new by (auto simp: dlist_def)
qed

lemma dlist_add:
  assumes "dlist h head xs" and "el \<noteq> 0" "el \<notin> set (head # xs)"
  shows "dlist (list_add el head h) head (el # xs)"
  using dlist_add_between [of h head "[]" xs el head "next_of h head"] assms
  by (auto simp: list_add_def dlist_next)

lemma dlist_add_tail:
  assumes "dlist h head xs" and "el \<noteq> 0" "el \<notin> set (head # xs)"
  shows "dlist (list_add_tail el head h) head (xs @ [el])"
  using dlist_add_between [of h head xs "[]" el "prev_of h head" head] assms
  by (auto simp: list_add_tail_def dlist_prev)

lemma next_of_del [simp]:
  "next_of (list_del el h) = (next_of h)(prev_of h el := next_of h el, el := 0)"
  by (simp add: list_del_def Let_def)

lemma prev_of_del [simp]:
  "prev_of (list_del el h) = (prev_of h)(next_of h el := prev_of h el, el := 0)"
  by (simp add: list_del_def Let_def)

lemma dlist_del_split:
  assumes d: "dlist h head (xs @ el # ys)"
  shows "dlist (list_del el h) head (xs @ ys)"
proof -
  let ?h = "list_del el h" and ?p = "last (head # xs)" and ?n = "hd (ys @ [head])"
  have dist: "distinct (head # xs @ el # ys)" using d by (simp add: dlist_def)
  have chain: "successively (linked h) ((head # xs) @ [el] @ (ys @ [head]))"
    using d by (simp add: dlist_def)
  have left: "successively (linked h) (head # xs)" and right: "successively (linked h) (ys @ [head])"
    and "linked h ?p el" "linked h el ?n"
    using chain unfolding successively_append_iff [of _ "head # xs"] successively_append_iff [of _ "[el]"]
    by simp_all
  then have pe: "prev_of h el = ?p" and ne: "next_of h el = ?n" by (auto simp: linked_def)
  have pm: "?p \<in> set (head # xs)" by (metis last_in_set list.distinct(1))
  have nm: "?n = head \<or> ?n \<in> set ys" by (cases ys) auto
  have bl: "?p \<notin> set (butlast (head # xs))"
    using dist by (metis append_butlast_last_id append_Cons distinct_append list.distinct(1)
        list.set_intros(1) not_distinct_conv_prefix)
  have tlr: "?n \<notin> set (tl (ys @ [head]))"
    using dist by (cases ys) auto
  have left': "successively (linked ?h) (head # xs)"
  proof (rule successively_frame [OF left])
    fix a b assume a: "a \<in> set (butlast (head # xs))" and b: "b \<in> set (tl (head # xs))"
      and l: "linked h a b"
    have "a \<noteq> ?p" using a bl by metis
    moreover have "a \<in> set (head # xs)" using a by (meson in_set_butlastD)
    then have "a \<noteq> el" using dist by auto
    moreover have "b \<noteq> el" "b \<noteq> ?n" using b dist nm by auto
    ultimately show "linked ?h a b" using l pe ne unfolding linked_def by simp
  qed
  have right': "successively (linked ?h) (ys @ [head])"
  proof (rule successively_frame [OF right])
    fix a b assume a: "a \<in> set (butlast (ys @ [head]))" and b: "b \<in> set (tl (ys @ [head]))"
      and l: "linked h a b"
    have ay: "a \<in> set ys" using a by simp
    then have "a \<noteq> ?p" "a \<noteq> el" using pm dist by auto
    moreover have "b \<in> set ys \<or> b = head" using b by (cases ys) auto
    then have "b \<noteq> el" using dist by auto
    moreover have "b \<noteq> ?n" using b tlr by metis
    ultimately show "linked ?h a b" using l pe ne unfolding linked_def by simp
  qed
  have "?p \<noteq> el" "?n \<noteq> el" using pm nm dist by auto
  then have "linked ?h ?p ?n" using pe ne unfolding linked_def by simp
  with left' right' have "successively (linked ?h) ((head # xs) @ (ys @ [head]))"
    unfolding successively_append_iff [of _ "head # xs"] by simp
  then show ?thesis using d by (auto simp: dlist_def)
qed

lemma dlist_del:
  assumes "dlist h head xs" and "el \<in> set xs"
  shows "dlist (list_del el h) head (remove1 el xs)"
proof -
  obtain ys zs where xs: "xs = ys @ el # zs" and "el \<notin> set ys"
    using split_list_first [OF assms(2)] by blast
  then have "remove1 el xs = ys @ zs" by (simp add: remove1_append)
  then show ?thesis using dlist_del_split assms(1) xs by simp
qed

lemma list_walk_chain:
  "successively (\<lambda>a b. step a = b) (xs @ [head]) \<Longrightarrow> head \<notin> set xs \<Longrightarrow> length xs < n \<Longrightarrow>
     list_walk n step head (hd (xs @ [head])) = Some xs"
proof (induction xs arbitrary: n)
  case Nil
  then show ?case by (cases n) auto
next
  case (Cons x xs)
  then obtain m where n: "n = Suc m" "length xs < m" by (cases n) auto
  have "step x = hd (xs @ [head])" and "successively (\<lambda>a b. step a = b) (xs @ [head])"
    using Cons.prems(1) by (cases xs; auto)+
  with Cons.IH [of m] Cons.prems(2) n show ?case by auto
qed

text \<open>A loop over a well-formed list ends and visits exactly its nodes, in order.\<close>

lemma list_for_each_dlist:
  assumes "dlist h head xs" and "length xs < n"
  shows "list_for_each n h head = Some xs"
proof -
  have "successively (linked h) ([head] @ (xs @ [head]))" using assms(1) by (simp add: dlist_def)
  then have "successively (linked h) (xs @ [head])" unfolding successively_append_iff by simp
  then have "successively (\<lambda>a b. next_of h a = b) (xs @ [head])"
    by (rule successively_frame) (simp add: linked_def)
  then show ?thesis
    using assms list_walk_chain [of "next_of h" xs head n]
    by (auto simp: list_for_each_def dlist_next dlist_def)
qed

lemma dlist_unique: "dlist h head xs \<Longrightarrow> dlist h head ys \<Longrightarrow> xs = ys"
  using list_for_each_dlist [of h head xs "Suc (length xs + length ys)"] list_for_each_dlist [of h head ys "Suc (length xs + length ys)"]
  by simp

lemma list_for_each_prev_dlist:
  assumes "dlist h head xs" and "length xs < n"
  shows "list_for_each_prev n h head = Some (rev xs)"
proof -
  have "successively (linked h) ((head # xs) @ [head])" using assms(1) by (simp add: dlist_def)
  then have "successively (linked h) (head # xs)" unfolding successively_append_iff by simp
  then have "successively (\<lambda>a b. prev_of h b = a) (head # xs)"
    by (rule successively_frame) (simp add: linked_def)
  then have "successively (\<lambda>a b. prev_of h a = b) (rev (head # xs))"
    using successively_rev [of "\<lambda>a b. prev_of h a = b" "head # xs"] by simp
  then show ?thesis
    using assms list_walk_chain [of "prev_of h" "rev xs" head n] dlist_prev [OF assms(1)]
    by (auto simp: list_for_each_prev_def dlist_def hd_append hd_rev)
qed

section \<open>The contract its clients use\<close>

text \<open>
  A queue of nodes as the engine uses it: append at the tail, look at the first node, unlink
  it. \<open>rep q xs\<close> relates a concrete queue to the abstract sequence.
\<close>

locale node_queue =
  fixes rep :: "'q \<Rightarrow> addr list \<Rightarrow> bool"
    and enq :: "addr \<Rightarrow> 'q \<Rightarrow> 'q"
    and first :: "'q \<Rightarrow> addr"
    and unlink :: "addr \<Rightarrow> 'q \<Rightarrow> 'q"
    and is_empty :: "'q \<Rightarrow> bool"
    and fresh :: "addr \<Rightarrow> addr list \<Rightarrow> bool"
  assumes rep_enq: "rep q xs \<Longrightarrow> fresh a xs \<Longrightarrow> rep (enq a q) (xs @ [a])"
    and rep_first: "rep q (a # xs) \<Longrightarrow> first q = a"
    and rep_unlink: "rep q (a # xs) \<Longrightarrow> rep (unlink a q) xs"
    and rep_empty: "rep q xs \<Longrightarrow> is_empty q \<longleftrightarrow> xs = []"
begin

lemma deq_enq:
  assumes "rep q (a # xs)" and "fresh b (a # xs)"
  shows "first (enq b q) = a \<and> rep (unlink a (enq b q)) (xs @ [b])"
  using rep_enq [OF assms] rep_first rep_unlink by force

lemma enq_not_empty: "rep q xs \<Longrightarrow> fresh a xs \<Longrightarrow> \<not> is_empty (enq a q)"
  using rep_enq rep_empty by blast

end

interpretation head_queue: node_queue
  "\<lambda>h xs. dlist h head xs" "\<lambda>a. list_add_tail a head" "\<lambda>h. next_of h head" list_del
  "list_empty head" "\<lambda>a xs. a \<noteq> 0 \<and> a \<notin> set (head # xs)" for head
proof unfold_locales
  show "dlist (list_add_tail a head q) head (xs @ [a])"
    if "dlist q head xs" "a \<noteq> 0 \<and> a \<notin> set (head # xs)" for q xs a
    using that dlist_add_tail by blast
  show "next_of q head = a" if "dlist q head (a # xs)" for q a xs
    using dlist_next [OF that] by simp
  show "dlist (list_del a q) head xs" if "dlist q head (a # xs)" for q a xs
    using dlist_del_split [of q head "[]" a xs] that by simp
  show "list_empty head q = (xs = [])" if "dlist q head xs" for q xs
    using dlist_empty_iff that by blast
qed

end
