(* ===== verification/Engine.thy ===== *)
theory Engine
  imports ListH
begin

text \<open>
  The parts of the QuickJS engine (\<open>quickjs/quickjs.h\<close>, \<open>quickjs/quickjs.c\<close>) that the
  bridge drives directly: tagged values and their reference counts, the pending exception, the
  class table, opaque pointers, the job queue and the interrupt poll. A heap block is its
  address; \<open>rc\<close> is its reference count and \<open>released\<close> lists the blocks handed to the
  finalisation path when the count reached zero. \<open>JS_FreeValue\<close> runs no finalizer: where one changes the
  state of a component, the component has a definition that does (\<open>free_host_object\<close> for host functions).
\<close>

section \<open>Values\<close>

datatype jsval =
    JS_BigInt addr | JS_Symbol addr | JS_String addr | JS_StringRope addr
  | JS_Module addr | JS_FunctionBytecode addr | JS_Object addr
  | JS_Int u32 | JS_Bool bool | JS_Null | JS_Undefined | JS_Uninitialized
  | JS_CatchOffset u32 | JS_Exception | JS_ShortBigInt u64 | JS_Float64 u64

fun js_tag :: "jsval \<Rightarrow> int" where
  "js_tag (JS_BigInt _) = -9"
| "js_tag (JS_Symbol _) = -8"
| "js_tag (JS_String _) = -7"
| "js_tag (JS_StringRope _) = -6"
| "js_tag (JS_Module _) = -3"
| "js_tag (JS_FunctionBytecode _) = -2"
| "js_tag (JS_Object _) = -1"
| "js_tag (JS_Int _) = 0"
| "js_tag (JS_Bool _) = 1"
| "js_tag JS_Null = 2"
| "js_tag JS_Undefined = 3"
| "js_tag JS_Uninitialized = 4"
| "js_tag (JS_CatchOffset _) = 5"
| "js_tag JS_Exception = 6"
| "js_tag (JS_ShortBigInt _) = 7"
| "js_tag (JS_Float64 _) = 8"

text \<open>The pointer payload; only values with a reference count carry one.\<close>

fun js_ptr :: "jsval \<Rightarrow> addr" where
  "js_ptr (JS_BigInt p) = p"
| "js_ptr (JS_Symbol p) = p"
| "js_ptr (JS_String p) = p"
| "js_ptr (JS_StringRope p) = p"
| "js_ptr (JS_Module p) = p"
| "js_ptr (JS_FunctionBytecode p) = p"
| "js_ptr (JS_Object p) = p"
| "js_ptr _ = 0"

text \<open>The macro compares the tag with the first tag as unsigned numbers.\<close>

definition JS_VALUE_HAS_REF_COUNT :: "jsval \<Rightarrow> bool" where
  "JS_VALUE_HAS_REF_COUNT v \<longleftrightarrow> (word_of_int (js_tag v) :: u32) \<ge> word_of_int (-9)"

definition JS_IsException :: "jsval \<Rightarrow> bool" where
  "JS_IsException v \<longleftrightarrow> js_tag v = 6"

definition JS_IsUninitialized :: "jsval \<Rightarrow> bool" where
  "JS_IsUninitialized v \<longleftrightarrow> js_tag v = 4"

lemma has_ref_count_iff: "JS_VALUE_HAS_REF_COUNT v \<longleftrightarrow> js_tag v < 0"
  by (cases v)
    (simp_all add: JS_VALUE_HAS_REF_COUNT_def word_le_def unsigned_minus_1_eq_mask mask_eq_exp_minus_1)

lemma JS_IsException_iff [simp]: "JS_IsException v \<longleftrightarrow> v = JS_Exception"
  by (cases v) (simp_all add: JS_IsException_def)

lemma JS_IsUninitialized_iff [simp]: "JS_IsUninitialized v \<longleftrightarrow> v = JS_Uninitialized"
  by (cases v) (simp_all add: JS_IsUninitialized_def)

section \<open>The runtime\<close>

text \<open>Pointers to C functions and host data are numbers, 0 for NULL.\<close>

type_synonym cptr = nat

record js_class =
  class_id :: nat
  class_name :: string
  finalizer :: cptr
  gc_mark :: cptr
  call :: cptr
  exotic :: cptr

record js_object =
  obj_class_id :: nat
  opaque :: cptr

record js_job =
  realm :: addr
  job_func :: cptr
  job_argv :: "jsval list"

text \<open>
  \<open>context_list\<close> is the sequence of contexts on the runtime's list; the counters and the
  prototype tables are fields of the contexts. \<open>interrupt_opaque\<close> is what the handler's
  opaque pointer points at, of a type the host chooses.
\<close>

record 'o js_runtime =
  rc :: "addr \<Rightarrow> int"
  released :: "addr list"
  objects :: "addr \<Rightarrow> js_object"
  current_exception :: jsval
  current_exception_is_uncatchable :: bool
  interrupt_handler :: cptr
  interrupt_opaque :: 'o
  context_list :: "addr list"
  interrupt_counter :: "addr \<Rightarrow> int"
  class_proto :: "addr \<Rightarrow> jsval list"
  class_array :: "js_class list"
  links_of :: links
  job_list :: addr
  job_at :: "addr \<Rightarrow> js_job"
  module_normalize_func :: cptr
  module_loader_has_attr :: bool
  module_loader_func :: cptr
  module_check_attrs :: cptr
  module_loader_opaque :: cptr
  rejection_tracker :: cptr
  rejection_tracker_opaque :: cptr

section \<open>Reference counts\<close>

definition JS_FreeValue :: "jsval \<Rightarrow> 'o js_runtime \<Rightarrow> 'o js_runtime" where
  "JS_FreeValue v rt =
     (if JS_VALUE_HAS_REF_COUNT v
      then let p = js_ptr v; n = rc rt p - 1; rt1 = rt\<lparr>rc := (rc rt)(p := n)\<rparr>
           in if n \<le> 0 then rt1\<lparr>released := p # released rt1\<rparr> else rt1
      else rt)"

definition JS_DupValue :: "jsval \<Rightarrow> 'o js_runtime \<Rightarrow> jsval \<times> 'o js_runtime" where
  "JS_DupValue v rt =
     (if JS_VALUE_HAS_REF_COUNT v
      then (v, rt\<lparr>rc := (rc rt)(js_ptr v := rc rt (js_ptr v) + 1)\<rparr>)
      else (v, rt))"

fun free_values :: "jsval list \<Rightarrow> 'o js_runtime \<Rightarrow> 'o js_runtime" where
  "free_values [] rt = rt"
| "free_values (v # vs) rt = free_values vs (JS_FreeValue v rt)"

fun dup_values :: "jsval list \<Rightarrow> 'o js_runtime \<Rightarrow> 'o js_runtime" where
  "dup_values [] rt = rt"
| "dup_values (v # vs) rt = dup_values vs (snd (JS_DupValue v rt))"

text \<open>A context is counted like a value; at zero its members are released and it is freed.\<close>

definition JS_DupContext :: "addr \<Rightarrow> 'o js_runtime \<Rightarrow> 'o js_runtime" where
  "JS_DupContext ctx rt = rt\<lparr>rc := (rc rt)(ctx := rc rt ctx + 1)\<rparr>"

lemma fst_JS_DupValue [simp]: "fst (JS_DupValue v rt) = v"
  by (simp add: JS_DupValue_def)

lemma free_dup:
  "0 < rc rt (js_ptr v) \<Longrightarrow> JS_FreeValue v (snd (JS_DupValue v rt)) = rt"
  by (simp add: JS_FreeValue_def JS_DupValue_def Let_def)

section \<open>The pending exception\<close>

definition JS_Throw :: "jsval \<Rightarrow> 'o js_runtime \<Rightarrow> jsval \<times> 'o js_runtime" where
  "JS_Throw obj rt =
     (let rt1 = JS_FreeValue (current_exception rt) rt
      in (JS_Exception, rt1\<lparr>current_exception := obj, current_exception_is_uncatchable := False\<rparr>))"

definition JS_GetException :: "'o js_runtime \<Rightarrow> jsval \<times> 'o js_runtime" where
  "JS_GetException rt = (current_exception rt, rt\<lparr>current_exception := JS_Uninitialized\<rparr>)"

definition JS_HasException :: "'o js_runtime \<Rightarrow> bool" where
  "JS_HasException rt \<longleftrightarrow> \<not> JS_IsUninitialized (current_exception rt)"

definition JS_SetUncatchableException :: "bool \<Rightarrow> 'o js_runtime \<Rightarrow> 'o js_runtime" where
  "JS_SetUncatchableException flag rt = rt\<lparr>current_exception_is_uncatchable := flag\<rparr>"

text \<open>\<open>err\<close> is the error object the engine allocated for the message.\<close>

definition JS_ThrowInterrupted :: "jsval \<Rightarrow> 'o js_runtime \<Rightarrow> 'o js_runtime" where
  "JS_ThrowInterrupted err rt = JS_SetUncatchableException True (snd (JS_Throw err rt))"

lemma JS_FreeValue_frame [simp]:
  "current_exception (JS_FreeValue v rt) = current_exception rt"
  "current_exception_is_uncatchable (JS_FreeValue v rt) = current_exception_is_uncatchable rt"
  "interrupt_handler (JS_FreeValue v rt) = interrupt_handler rt"
  "interrupt_opaque (JS_FreeValue v rt) = interrupt_opaque rt"
  "context_list (JS_FreeValue v rt) = context_list rt"
  "interrupt_counter (JS_FreeValue v rt) = interrupt_counter rt"
  "class_array (JS_FreeValue v rt) = class_array rt"
  "class_proto (JS_FreeValue v rt) = class_proto rt"
  "objects (JS_FreeValue v rt) = objects rt"
  "links_of (JS_FreeValue v rt) = links_of rt"
  "job_list (JS_FreeValue v rt) = job_list rt"
  "job_at (JS_FreeValue v rt) = job_at rt"
  by (simp_all add: JS_FreeValue_def Let_def)

lemma JS_DupValue_frame [simp]:
  "current_exception (snd (JS_DupValue v rt)) = current_exception rt"
  "released (snd (JS_DupValue v rt)) = released rt"
  "interrupt_handler (snd (JS_DupValue v rt)) = interrupt_handler rt"
  "interrupt_opaque (snd (JS_DupValue v rt)) = interrupt_opaque rt"
  "context_list (snd (JS_DupValue v rt)) = context_list rt"
  "interrupt_counter (snd (JS_DupValue v rt)) = interrupt_counter rt"
  "class_array (snd (JS_DupValue v rt)) = class_array rt"
  "links_of (snd (JS_DupValue v rt)) = links_of rt"
  "job_list (snd (JS_DupValue v rt)) = job_list rt"
  "job_at (snd (JS_DupValue v rt)) = job_at rt"
  by (simp_all add: JS_DupValue_def)

lemma free_values_frame [simp]:
  "links_of (free_values vs rt) = links_of rt"
  "job_list (free_values vs rt) = job_list rt"
  "job_at (free_values vs rt) = job_at rt"
  "interrupt_handler (free_values vs rt) = interrupt_handler rt"
  "interrupt_opaque (free_values vs rt) = interrupt_opaque rt"
  "context_list (free_values vs rt) = context_list rt"
  "interrupt_counter (free_values vs rt) = interrupt_counter rt"
  "current_exception (free_values vs rt) = current_exception rt"
  by (induction vs arbitrary: rt) simp_all

lemma dup_values_frame [simp]:
  "links_of (dup_values vs rt) = links_of rt"
  "job_list (dup_values vs rt) = job_list rt"
  "job_at (dup_values vs rt) = job_at rt"
  "released (dup_values vs rt) = released rt"
  "interrupt_handler (dup_values vs rt) = interrupt_handler rt"
  "interrupt_opaque (dup_values vs rt) = interrupt_opaque rt"
  "context_list (dup_values vs rt) = context_list rt"
  "interrupt_counter (dup_values vs rt) = interrupt_counter rt"
  "current_exception (dup_values vs rt) = current_exception rt"
  by (induction vs arbitrary: rt) simp_all

section \<open>Host callbacks\<close>

definition JS_SetModuleLoaderFunc :: "cptr \<Rightarrow> cptr \<Rightarrow> cptr \<Rightarrow> 'o js_runtime \<Rightarrow> 'o js_runtime" where
  "JS_SetModuleLoaderFunc norm_fn loader_fn opq rt =
     rt\<lparr>module_normalize_func := norm_fn, module_loader_has_attr := False, module_loader_func := loader_fn,
        module_check_attrs := 0, module_loader_opaque := opq\<rparr>"

definition JS_SetModuleLoaderFunc2 :: "cptr \<Rightarrow> cptr \<Rightarrow> cptr \<Rightarrow> cptr \<Rightarrow> 'o js_runtime \<Rightarrow> 'o js_runtime" where
  "JS_SetModuleLoaderFunc2 norm_fn loader_fn check_attrs opq rt =
     rt\<lparr>module_normalize_func := norm_fn, module_loader_has_attr := True, module_loader_func := loader_fn,
        module_check_attrs := check_attrs, module_loader_opaque := opq\<rparr>"

definition JS_SetHostPromiseRejectionTracker :: "cptr \<Rightarrow> cptr \<Rightarrow> 'o js_runtime \<Rightarrow> 'o js_runtime" where
  "JS_SetHostPromiseRejectionTracker cb opq rt =
     rt\<lparr>rejection_tracker := cb, rejection_tracker_opaque := opq\<rparr>"

section \<open>Interrupt polling\<close>

definition JS_INTERRUPT_COUNTER_INIT :: int where
  "JS_INTERRUPT_COUNTER_INIT = 10000"

definition JS_SetInterruptHandler :: "cptr \<Rightarrow> 'o \<Rightarrow> 'o js_runtime \<Rightarrow> 'o js_runtime" where
  "JS_SetInterruptHandler cb opq rt = rt\<lparr>interrupt_handler := cb, interrupt_opaque := opq\<rparr>"

text \<open>
  \<open>invoke cb rt\<close> is the call of the host function at address \<open>cb\<close> with the runtime and its
  opaque pointer; \<open>err\<close> is the error object made for a thrown interrupt.
\<close>

definition js_poll_interrupts_slow ::
    "(cptr \<Rightarrow> 'o js_runtime \<Rightarrow> bool \<times> 'o js_runtime) \<Rightarrow> jsval \<Rightarrow> addr \<Rightarrow> 'o js_runtime \<Rightarrow> int \<times> 'o js_runtime" where
  "js_poll_interrupts_slow invoke err ctx rt =
     (let rt1 = rt\<lparr>interrupt_counter := (interrupt_counter rt)(ctx := JS_INTERRUPT_COUNTER_INIT)\<rparr>
      in if interrupt_handler rt1 \<noteq> 0
         then let (stop, rt2) = invoke (interrupt_handler rt1) rt1
              in if stop then (-1, JS_ThrowInterrupted err rt2) else (0, rt2)
         else (0, rt1))"

definition js_poll_interrupts ::
    "(cptr \<Rightarrow> 'o js_runtime \<Rightarrow> bool \<times> 'o js_runtime) \<Rightarrow> jsval \<Rightarrow> addr \<Rightarrow> 'o js_runtime \<Rightarrow> int \<times> 'o js_runtime" where
  "js_poll_interrupts invoke err ctx rt =
     (let rt1 = rt\<lparr>interrupt_counter := (interrupt_counter rt)(ctx := interrupt_counter rt ctx - 1)\<rparr>
      in if interrupt_counter rt1 ctx \<le> 0 then js_poll_interrupts_slow invoke err ctx rt1 else (0, rt1))"

end
