(* ===== verification/ClassTable.thy ===== *)
theory ClassTable
  imports Engine
begin

text \<open>
  Class ids, the class table and opaque pointers (\<open>JS_NewClassID\<close>, \<open>JS_GetClassID\<close>,
  \<open>JS_IsRegisteredClass\<close>, \<open>JS_NewClass1\<close>, \<open>JS_SetOpaque\<close>, \<open>JS_GetOpaque\<close>,
  \<open>JS_GetAnyOpaque\<close> of \<open>quickjs/quickjs.c\<close>). A class id is an index into
  \<open>class_array\<close>, entry 0 of whose \<open>class_id\<close> field means a free slot; every context keeps a
  prototype table at least as long as the class table.
\<close>

section \<open>Class ids\<close>

definition JS_CLASS_INIT_COUNT :: nat where
  "JS_CLASS_INIT_COUNT = 63"

text \<open>The caller's cell and the global counter, before and after.\<close>

definition JS_NewClassID :: "u32 \<Rightarrow> u32 \<Rightarrow> u32 \<times> u32 \<times> u32" where
  "JS_NewClassID pclass_id js_class_id_alloc =
     (if pclass_id = 0
      then (js_class_id_alloc, js_class_id_alloc, js_class_id_alloc + 1)
      else (pclass_id, pclass_id, js_class_id_alloc))"

definition JS_GetClassID :: "jsval \<Rightarrow> 'o js_runtime \<Rightarrow> nat" where
  "JS_GetClassID v rt = (case v of JS_Object p \<Rightarrow> obj_class_id (objects rt p) | _ \<Rightarrow> 0)"

definition JS_IsRegisteredClass :: "nat \<Rightarrow> 'o js_runtime \<Rightarrow> bool" where
  "JS_IsRegisteredClass cid rt \<longleftrightarrow>
     cid < length (class_array rt) \<and> class_id (class_array rt ! cid) \<noteq> 0"

section \<open>Registration\<close>

definition free_class :: js_class where
  "free_class = \<lparr>class_id = 0, class_name = '''', finalizer = 0, gc_mark = 0, call = 0, exotic = 0\<rparr>"

definition new_class_size :: "nat \<Rightarrow> nat \<Rightarrow> nat" where
  "new_class_size class_count cid =
     max JS_CLASS_INIT_COUNT (max (cid + 1) (class_count * 3 div 2))"

text \<open>
  Growing the prototype table of every context, in list order; \<open>ok ctx\<close> tells whether the
  allocator grants the new table of \<open>ctx\<close>. The first refusal stops the loop and leaves the
  contexts before it with their new tables.
\<close>

fun grow_class_protos ::
    "(addr \<Rightarrow> bool) \<Rightarrow> nat \<Rightarrow> nat \<Rightarrow> addr list \<Rightarrow> (addr \<Rightarrow> jsval list) \<Rightarrow> bool \<times> (addr \<Rightarrow> jsval list)" where
  "grow_class_protos ok class_count new_size [] tabs = (True, tabs)"
| "grow_class_protos ok class_count new_size (ctx # ctxs) tabs =
     (if ok ctx
      then grow_class_protos ok class_count new_size ctxs
             (tabs(ctx := take class_count (tabs ctx) @ replicate (new_size - class_count) JS_Null))
      else (False, tabs))"

text \<open>
  \<open>class_def\<close> carries the definition's fields; its \<open>class_id\<close> is ignored, as in the code.
  \<open>array_ok\<close> is the allocator's answer for the class table itself.
\<close>

definition JS_NewClass1 ::
    "(addr \<Rightarrow> bool) \<Rightarrow> bool \<Rightarrow> nat \<Rightarrow> js_class \<Rightarrow> string \<Rightarrow> 'o js_runtime \<Rightarrow> int \<times> 'o js_runtime" where
  "JS_NewClass1 ok array_ok cid class_def name rt =
     (if cid \<ge> 2 ^ 16 then (-1, rt)
      else if cid < length (class_array rt) \<and> class_id (class_array rt ! cid) \<noteq> 0 then (-1, rt)
      else
        let fill = (\<lambda>r. (0, r\<lparr>class_array := (class_array r)[cid := class_def\<lparr>class_id := cid, class_name := name\<rparr>]\<rparr>))
        in if cid \<ge> length (class_array rt)
           then let class_count = length (class_array rt);
                    new_size = new_class_size class_count cid;
                    (grown, tabs) = grow_class_protos ok class_count new_size (context_list rt) (class_proto rt);
                    rt1 = rt\<lparr>class_proto := tabs\<rparr>
                in if \<not> grown then (-1, rt1)
                   else if \<not> array_ok then (-1, rt1)
                   else fill (rt1\<lparr>class_array := class_array rt1 @ replicate (new_size - class_count) free_class\<rparr>)
           else fill rt)"

text \<open>
  The name is interned first: \<open>atom_ok\<close> tells whether the atom exists or could be made.
\<close>

definition JS_NewClass ::
    "bool \<Rightarrow> (addr \<Rightarrow> bool) \<Rightarrow> bool \<Rightarrow> nat \<Rightarrow> js_class \<Rightarrow> 'o js_runtime \<Rightarrow> int \<times> 'o js_runtime" where
  "JS_NewClass atom_ok ok array_ok cid class_def rt =
     (if \<not> atom_ok then (-1, rt)
      else JS_NewClass1 ok array_ok cid class_def (class_name class_def) rt)"

section \<open>Opaque pointers\<close>

definition JS_SetOpaque :: "jsval \<Rightarrow> cptr \<Rightarrow> 'o js_runtime \<Rightarrow> 'o js_runtime" where
  "JS_SetOpaque v opq rt =
     (case v of
        JS_Object p \<Rightarrow> rt\<lparr>objects := (objects rt)(p := (objects rt p)\<lparr>opaque := opq\<rparr>)\<rparr>
      | _ \<Rightarrow> rt)"

definition JS_GetOpaque :: "jsval \<Rightarrow> nat \<Rightarrow> 'o js_runtime \<Rightarrow> cptr" where
  "JS_GetOpaque v cid rt =
     (case v of
        JS_Object p \<Rightarrow> if obj_class_id (objects rt p) \<noteq> cid then 0 else opaque (objects rt p)
      | _ \<Rightarrow> 0)"

definition JS_GetAnyOpaque :: "jsval \<Rightarrow> 'o js_runtime \<Rightarrow> cptr \<times> nat" where
  "JS_GetAnyOpaque v rt =
     (case v of
        JS_Object p \<Rightarrow> (opaque (objects rt p), obj_class_id (objects rt p))
      | _ \<Rightarrow> (0, 0))"

lemma JS_GetOpaque_SetOpaque:
  "JS_GetOpaque (JS_Object p) cid (JS_SetOpaque (JS_Object q) opq rt) =
     (if p = q then (if obj_class_id (objects rt p) = cid then opq else 0)
      else JS_GetOpaque (JS_Object p) cid rt)"
  by (simp add: JS_GetOpaque_def JS_SetOpaque_def)

section \<open>Well-formedness\<close>

text \<open>
  A slot is free or holds the class of its own index, index 0 is never used, and the prototype
  table of every context covers the class table.
\<close>

definition class_table_ok :: "'o js_runtime \<Rightarrow> bool" where
  "class_table_ok rt \<longleftrightarrow>
     (\<forall>i < length (class_array rt). class_id (class_array rt ! i) = 0 \<or> class_id (class_array rt ! i) = i)
     \<and> length (class_array rt) \<le> 2 ^ 16 * 2
     \<and> (\<forall>ctx \<in> set (context_list rt). length (class_array rt) \<le> length (class_proto rt ctx))"

lemma new_class_size_bounds:
  "cid < new_class_size n cid" "n \<le> cid \<Longrightarrow> n < new_class_size n cid"
  "cid < 2 ^ 16 \<Longrightarrow> n \<le> cid \<Longrightarrow> new_class_size n cid \<le> 2 ^ 16 * 2"
  by (auto simp: new_class_size_def JS_CLASS_INIT_COUNT_def)

lemma grow_class_protos_other:
  "x \<notin> set ctxs \<Longrightarrow> snd (grow_class_protos ok n m ctxs tabs) x = tabs x"
  by (induction ctxs arbitrary: tabs) auto

lemma grow_class_protos_length:
  assumes "\<And>x. x \<in> S \<Longrightarrow> n \<le> length (tabs x)" and "n \<le> m" and "x \<in> S"
  shows "n \<le> length (snd (grow_class_protos ok n m ctxs tabs) x)"
  using assms
proof (induction ctxs arbitrary: tabs)
  case Nil
  then show ?case by simp
next
  case (Cons c ctxs)
  have "n \<le> length (snd (grow_class_protos ok n m ctxs
          (tabs(c := take n (tabs c) @ replicate (m - n) JS_Null))) x)"
  proof (rule Cons.IH)
    fix y assume "y \<in> S"
    then have "n \<le> length (tabs y)" by (rule Cons.prems(1))
    with \<open>n \<le> m\<close> show "n \<le> length ((tabs(c := take n (tabs c) @ replicate (m - n) JS_Null)) y)"
      by auto
  qed (use Cons.prems in auto)
  then show ?case using Cons.prems by auto
qed

lemma grow_class_protos_all:
  assumes "fst (grow_class_protos ok n m ctxs tabs)" and "n \<le> m"
    and "\<And>x. x \<in> set ctxs \<Longrightarrow> n \<le> length (tabs x)" and "x \<in> set ctxs"
  shows "length (snd (grow_class_protos ok n m ctxs tabs) x) = m"
  using assms
proof (induction ctxs arbitrary: tabs)
  case Nil
  then show ?case by simp
next
  case (Cons c ctxs)
  let ?tabs = "tabs(c := take n (tabs c) @ replicate (m - n) JS_Null)"
  have g: "fst (grow_class_protos ok n m ctxs ?tabs)" and "ok c"
    using Cons.prems(1) by (auto split: if_splits)
  show ?case
  proof (cases "x \<in> set ctxs")
    case True
    have "length (snd (grow_class_protos ok n m ctxs ?tabs) x) = m"
      by (rule Cons.IH [OF g]) (use Cons.prems True in auto)
    then show ?thesis using \<open>ok c\<close> by simp
  next
    case False
    then have "x = c" using Cons.prems by simp
    then show ?thesis using \<open>ok c\<close> False Cons.prems by (simp add: grow_class_protos_other)
  qed
qed

lemma JS_NewClass1_error:
  assumes "fst (JS_NewClass1 ok array_ok cid d name rt) = -1"
  shows "class_array (snd (JS_NewClass1 ok array_ok cid d name rt)) = class_array rt"
  using assms by (auto simp: JS_NewClass1_def Let_def split: prod.splits if_splits)

lemma JS_NewClass1_codes:
  "fst (JS_NewClass1 ok array_ok cid d name rt) \<in> {0, -1}"
  by (auto simp: JS_NewClass1_def Let_def split: prod.splits if_splits)

lemma JS_NewClass1_context_list [simp]:
  "context_list (snd (JS_NewClass1 ok array_ok cid d name rt)) = context_list rt"
  by (auto simp: JS_NewClass1_def Let_def split: prod.splits if_splits)

lemma JS_NewClass_frame [simp]:
  "interrupt_handler (snd (JS_NewClass atom_ok ok array_ok cid d rt)) = interrupt_handler rt"
  "interrupt_opaque (snd (JS_NewClass atom_ok ok array_ok cid d rt)) = interrupt_opaque rt"
  "objects (snd (JS_NewClass atom_ok ok array_ok cid d rt)) = objects rt"
  by (auto simp: JS_NewClass_def JS_NewClass1_def Let_def split: prod.splits if_splits)

lemma JS_NewClass1_success:
  assumes "fst (JS_NewClass1 ok array_ok cid d name rt) = 0"
  shows "\<not> JS_IsRegisteredClass cid rt" "cid < 2 ^ 16"
    "cid < length (class_array (snd (JS_NewClass1 ok array_ok cid d name rt)))"
    "class_array (snd (JS_NewClass1 ok array_ok cid d name rt)) ! cid = d\<lparr>class_id := cid, class_name := name\<rparr>"
    "i < length (class_array rt) \<Longrightarrow> i \<noteq> cid \<Longrightarrow>
       class_array (snd (JS_NewClass1 ok array_ok cid d name rt)) ! i = class_array rt ! i"
    "length (class_array rt) \<le> i \<Longrightarrow> i \<noteq> cid \<Longrightarrow>
       i < length (class_array (snd (JS_NewClass1 ok array_ok cid d name rt))) \<Longrightarrow>
       class_array (snd (JS_NewClass1 ok array_ok cid d name rt)) ! i = free_class"
  using assms new_class_size_bounds(1) [of cid "length (class_array rt)"]
  by (auto simp: JS_NewClass1_def JS_IsRegisteredClass_def Let_def nth_append
      split: prod.splits if_splits)

lemma JS_NewClass1_length:
  "length (class_array (snd (JS_NewClass1 ok array_ok cid d name rt))) =
     (if fst (JS_NewClass1 ok array_ok cid d name rt) = 0 \<and> length (class_array rt) \<le> cid
      then new_class_size (length (class_array rt)) cid else length (class_array rt))"
  using new_class_size_bounds(2) [of "length (class_array rt)" cid]
  by (auto simp: JS_NewClass1_def Let_def split: prod.splits if_splits)

lemma JS_NewClass1_protos:
  assumes "class_table_ok rt" and x: "x \<in> set (context_list rt)"
  shows "length (class_array (snd (JS_NewClass1 ok array_ok cid d name rt)))
           \<le> length (class_proto (snd (JS_NewClass1 ok array_ok cid d name rt)) x)"
proof -
  let ?n = "length (class_array rt)"
  let ?m = "new_class_size ?n cid"
  let ?g = "grow_class_protos ok ?n ?m (context_list rt) (class_proto rt)"
  have L: "\<And>y. y \<in> set (context_list rt) \<Longrightarrow> ?n \<le> length (class_proto rt y)"
    using assms by (simp add: class_table_ok_def)
  show ?thesis
  proof (cases "?n \<le> cid \<and> cid < 2 ^ 16")
    case False
    then show ?thesis using L [OF x]
      by (auto simp: JS_NewClass1_def Let_def split: prod.splits)
  next
    case True
    then have nm: "?n \<le> ?m" using new_class_size_bounds(2) [of ?n cid] by simp
    have all: "fst ?g \<Longrightarrow> length (snd ?g x) = ?m"
      using grow_class_protos_all [of ok ?n ?m "context_list rt" "class_proto rt" x] L nm x by blast
    have len: "?n \<le> length (snd ?g x)"
      using grow_class_protos_length [of "set (context_list rt)" ?n "class_proto rt" ?m x] L nm x by blast
    show ?thesis using True all len nm
      by (auto simp: JS_NewClass1_def Let_def split: prod.splits)
  qed
qed

lemma JS_NewClass1_preserves:
  assumes "class_table_ok rt"
  shows "class_table_ok (snd (JS_NewClass1 ok array_ok cid d name rt))"
proof -
  let ?r = "JS_NewClass1 ok array_ok cid d name rt"
  have slots: "class_id (class_array (snd ?r) ! i) = 0 \<or> class_id (class_array (snd ?r) ! i) = i"
    if i: "i < length (class_array (snd ?r))" for i
  proof (cases "fst ?r = 0")
    case False
    then have "fst ?r = -1" using JS_NewClass1_codes [of ok array_ok cid d name rt] by auto
    then have "class_array (snd ?r) = class_array rt" by (rule JS_NewClass1_error)
    then show ?thesis using assms i by (auto simp: class_table_ok_def)
  next
    case True
    note s = JS_NewClass1_success [OF True]
    show ?thesis
      using assms i s(4) s(5) [of i] s(6) [of i]
      by (cases "i = cid"; cases "i < length (class_array rt)")
        (auto simp: class_table_ok_def free_class_def)
  qed
  have "length (class_array (snd ?r)) \<le> 2 ^ 16 * 2"
    using assms new_class_size_bounds(3) [of cid "length (class_array rt)"]
      JS_NewClass1_success(2) [of ok array_ok cid d name rt]
    unfolding JS_NewClass1_length class_table_ok_def by auto
  then show ?thesis using slots JS_NewClass1_protos [OF assms] by (auto simp: class_table_ok_def)
qed

end
