(* ===== verification/Deadline.thy ===== *)
theory Deadline
  imports ClassTable Complex_Main
begin

text \<open>
  The time limit of the bridge (\<open>src/native/quickjs_bridge.c\<close>): the host state behind the
  interrupt handler, the deadline in force, the scopes that lower it and restore it, and the
  per-context default timeout. A time is a double; \<open>Ms q\<close> is a finite one with value \<open>q\<close>.
  The addition of two finite doubles rounds: the rounding is the parameter \<open>rnd\<close>. A
  reading of the monotonic clock (\<open>qjs_bun_now_ms\<close>) is an argument \<open>now\<close>.
\<close>

section \<open>Doubles as times\<close>

datatype ms = NaN | MInf | Ms rat | PInf

fun ms_less :: "ms \<Rightarrow> ms \<Rightarrow> bool" where
  "ms_less NaN _ = False"
| "ms_less _ NaN = False"
| "ms_less MInf b = (b \<noteq> MInf)"
| "ms_less (Ms a) MInf = False"
| "ms_less (Ms a) (Ms b) = (a < b)"
| "ms_less (Ms a) PInf = True"
| "ms_less PInf b = False"

fun ms_ge :: "ms \<Rightarrow> ms \<Rightarrow> bool" where
  "ms_ge NaN _ = False"
| "ms_ge _ NaN = False"
| "ms_ge a b = (\<not> ms_less a b)"

fun ms_add :: "(rat \<Rightarrow> ms) \<Rightarrow> ms \<Rightarrow> ms \<Rightarrow> ms" where
  "ms_add rnd NaN _ = NaN"
| "ms_add rnd _ NaN = NaN"
| "ms_add rnd MInf b = (if b = PInf then NaN else MInf)"
| "ms_add rnd PInf b = (if b = MInf then NaN else PInf)"
| "ms_add rnd (Ms a) MInf = MInf"
| "ms_add rnd (Ms a) PInf = PInf"
| "ms_add rnd (Ms a) (Ms b) = rnd (a + b)"

lemma ms_less_irrefl [simp]: "\<not> ms_less a a"
  by (cases a) auto

lemma ms_less_trans: "ms_less a b \<Longrightarrow> ms_less b c \<Longrightarrow> ms_less a c"
  by (cases a; cases b; cases c) auto

lemma ms_less_PInf: "a \<noteq> NaN \<Longrightarrow> \<not> ms_less PInf a"
  by (cases a) auto

lemma ms_ge_iff: "a \<noteq> NaN \<Longrightarrow> b \<noteq> NaN \<Longrightarrow> ms_ge a b \<longleftrightarrow> \<not> ms_less a b"
  by (cases a; cases b) auto

lemma ms_ge_trans_less: "ms_ge a b \<Longrightarrow> \<not> ms_less b c \<Longrightarrow> c \<noteq> NaN \<Longrightarrow> ms_ge a c"
  by (cases a; cases b; cases c) auto

lemma ms_ge_not_less: "ms_ge a b \<Longrightarrow> \<not> ms_less a b"
  by (cases a; cases b) auto

section \<open>The host state\<close>

record qjsbun_context =
  bctx :: addr
  timeout_ms :: ms

text \<open>
  The finalizer table of the host: not allocated yet, allocated with these entries, or an
  address whose block was freed.
\<close>

datatype 'a table_ptr = TNull | Table "'a list" | Dangling

record qjsbun_runtime =
  deadline_ms :: ms
  contexts :: "qjsbun_context list"
  finalizers :: "cptr table_ptr"
  finalizer_count :: u32
  module_loader :: cptr
  module_normalizer :: cptr

type_synonym brt = "qjsbun_runtime js_runtime"

record qjsbun_scope =
  has_state :: bool
  saved_ms :: ms
  own_ms :: ms

text \<open>The address of the interrupt handler.\<close>

definition BUN_INTERRUPT :: cptr where
  "BUN_INTERRUPT = 1"

definition qjs_bun_state :: "brt \<Rightarrow> qjsbun_runtime option" where
  "qjs_bun_state rt =
     (if interrupt_handler rt = BUN_INTERRUPT then Some (interrupt_opaque rt) else None)"

definition put_state :: "qjsbun_runtime \<Rightarrow> brt \<Rightarrow> brt" where
  "put_state st rt = rt\<lparr>interrupt_opaque := st\<rparr>"

definition set_deadline :: "ms \<Rightarrow> brt \<Rightarrow> brt" where
  "set_deadline d rt = put_state ((interrupt_opaque rt)\<lparr>deadline_ms := d\<rparr>) rt"

abbreviation deadline :: "brt \<Rightarrow> ms" where
  "deadline rt \<equiv> deadline_ms (interrupt_opaque rt)"

lemma deadline_set [simp]: "deadline (set_deadline d rt) = d"
  by (simp add: set_deadline_def put_state_def)

lemma set_deadline_frame [simp]:
  "interrupt_handler (set_deadline d rt) = interrupt_handler rt"
  "context_list (set_deadline d rt) = context_list rt"
  "interrupt_counter (set_deadline d rt) = interrupt_counter rt"
  "contexts (interrupt_opaque (set_deadline d rt)) = contexts (interrupt_opaque rt)"
  "finalizers (interrupt_opaque (set_deadline d rt)) = finalizers (interrupt_opaque rt)"
  "finalizer_count (interrupt_opaque (set_deadline d rt)) = finalizer_count (interrupt_opaque rt)"
  by (simp_all add: set_deadline_def put_state_def)

section \<open>The interrupt handler\<close>

definition qjs_bun_interrupt :: "ms \<Rightarrow> brt \<Rightarrow> bool \<times> brt" where
  "qjs_bun_interrupt now rt =
     (if ms_less now (deadline rt) then (False, rt)
      else (True, rt\<lparr>interrupt_counter :=
              (\<lambda>c. if c \<in> set (context_list rt) then 2 else interrupt_counter rt c)\<rparr>))"

text \<open>How the engine reaches it: the only host handler of the bridge is this one.\<close>

definition call_handler :: "ms \<Rightarrow> cptr \<Rightarrow> brt \<Rightarrow> bool \<times> brt" where
  "call_handler now cb rt = (if cb = BUN_INTERRUPT then qjs_bun_interrupt now rt else (False, rt))"

section \<open>The default timeout of a context\<close>

text \<open>The walk over the linked entries: the first entry of the context and the others.\<close>

fun unlink_entry :: "addr \<Rightarrow> qjsbun_context list \<Rightarrow> (qjsbun_context \<times> qjsbun_context list) option" where
  "unlink_entry ctx [] = None"
| "unlink_entry ctx (e # es) =
     (if bctx e = ctx then Some (e, es)
      else map_option (\<lambda>(f, fs). (f, e # fs)) (unlink_entry ctx es))"

definition qjs_bun_timeout :: "addr \<Rightarrow> brt \<Rightarrow> ms \<times> brt" where
  "qjs_bun_timeout ctx rt =
     (case qjs_bun_state rt of
        None \<Rightarrow> (PInf, rt)
      | Some st \<Rightarrow>
          (case unlink_entry ctx (contexts st) of
             None \<Rightarrow> (PInf, rt)
           | Some (entry, rest) \<Rightarrow> (timeout_ms entry, put_state (st\<lparr>contexts := entry # rest\<rparr>) rt)))"

lemma unlink_entry_None: "unlink_entry ctx es = None \<longleftrightarrow> ctx \<notin> bctx ` set es"
  by (induction es) auto

lemma unlink_entry_Some:
  "unlink_entry ctx es = Some (e, rest) \<Longrightarrow> bctx e = ctx \<and> mset es = add_mset e (mset rest)"
  by (induction es arbitrary: rest) (auto split: if_splits)

lemma unlink_entry_map_of:
  "unlink_entry ctx es = Some (e, rest) \<Longrightarrow>
     map_of (map (\<lambda>c. (bctx c, timeout_ms c)) es) ctx = Some (timeout_ms e)"
  by (induction es arbitrary: rest) (auto split: if_splits)

lemma unlink_entry_map_of_other:
  "unlink_entry ctx es = Some (e, rest) \<Longrightarrow> c \<noteq> ctx \<Longrightarrow>
     map_of (map (\<lambda>c. (bctx c, timeout_ms c)) (e # rest)) c =
     map_of (map (\<lambda>c. (bctx c, timeout_ms c)) es) c"
proof (induction es arbitrary: rest)
  case Nil
  then show ?case by simp
next
  case (Cons f es)
  show ?case
  proof (cases "bctx f = ctx")
    case True
    with Cons.prems show ?thesis by auto
  next
    case False
    with Cons.prems obtain fs where "unlink_entry ctx es = Some (e, fs)" "rest = f # fs" by auto
    with Cons.IH [of fs] Cons.prems unlink_entry_Some show ?thesis by fastforce
  qed
qed

section \<open>Scopes\<close>

definition qjs_bun_enter :: "(rat \<Rightarrow> ms) \<Rightarrow> ms \<Rightarrow> ms \<Rightarrow> brt \<Rightarrow> qjsbun_scope \<times> brt" where
  "qjs_bun_enter rnd now timeout rt =
     (case qjs_bun_state rt of
        None \<Rightarrow> (\<lparr>has_state = False, saved_ms = Ms 0, own_ms = Ms 0\<rparr>, rt)
      | Some st \<Rightarrow>
          let saved = deadline_ms st; own = ms_add rnd now timeout
          in (\<lparr>has_state = True, saved_ms = saved, own_ms = own\<rparr>,
              if ms_less own saved then set_deadline own rt else rt))"

text \<open>
  The functions of the engine the bridge calls to report a timeout. Each takes and returns the
  whole runtime.
\<close>

record error_ops =
  JS_NewError :: "brt \<Rightarrow> jsval \<times> brt"
  JS_NewString :: "string \<Rightarrow> brt \<Rightarrow> jsval \<times> brt"
  JS_DefinePropertyValue :: "jsval \<Rightarrow> string \<Rightarrow> jsval \<Rightarrow> brt \<Rightarrow> brt"

definition qjs_bun_timeout_error :: "error_ops \<Rightarrow> brt \<Rightarrow> jsval \<times> brt" where
  "qjs_bun_timeout_error ops rt =
     (let (error, rt1) = JS_NewError ops rt
      in if \<not> JS_IsException error
         then let (s1, rt2) = JS_NewString ops ''TimeoutError'' rt1;
                  rt3 = JS_DefinePropertyValue ops error ''name'' s1 rt2;
                  (s2, rt4) = JS_NewString ops ''QuickJS execution timed out'' rt3
              in (error, JS_DefinePropertyValue ops error ''message'' s2 rt4)
         else (error, rt1))"

definition qjs_bun_throw_timeout :: "error_ops \<Rightarrow> brt \<Rightarrow> brt" where
  "qjs_bun_throw_timeout ops rt =
     (let (error, rt1) = qjs_bun_timeout_error ops rt
      in if JS_IsException error then rt1
         else let (old, rt2) = JS_GetException rt1 in snd (JS_Throw error (JS_FreeValue old rt2)))"

definition qjs_bun_leave :: "error_ops \<Rightarrow> ms \<Rightarrow> qjsbun_scope \<Rightarrow> bool \<Rightarrow> brt \<Rightarrow> int \<times> brt" where
  "qjs_bun_leave ops now scope failed rt =
     (if \<not> has_state scope then (0, rt)
      else let rt1 = set_deadline (saved_ms scope) rt
           in if \<not> failed \<or> ms_less now (own_ms scope) then (0, rt1)
              else (1, qjs_bun_throw_timeout ops rt1))"

text \<open>The exported pair: the host keeps the two times in an array of two doubles.\<close>

definition qjs_bun_enter_scope :: "(rat \<Rightarrow> ms) \<Rightarrow> ms \<Rightarrow> ms \<Rightarrow> brt \<Rightarrow> ms list \<times> brt" where
  "qjs_bun_enter_scope rnd now timeout rt =
     (let (entered, rt1) = qjs_bun_enter rnd now timeout rt in ([saved_ms entered, own_ms entered], rt1))"

definition qjs_bun_leave_scope :: "ms \<Rightarrow> ms list \<Rightarrow> brt \<Rightarrow> int \<times> brt" where
  "qjs_bun_leave_scope now scope rt =
     (case qjs_bun_state rt of
        None \<Rightarrow> (0, rt)
      | Some st \<Rightarrow> (if ms_ge now (scope ! 1) then 1 else 0, set_deadline (scope ! 0) rt))"

text \<open>The macros around every exported operation that can run guest code.\<close>

definition guest_out ::
    "(rat \<Rightarrow> ms) \<Rightarrow> error_ops \<Rightarrow> ms \<Rightarrow> ms \<Rightarrow> addr \<Rightarrow> (brt \<Rightarrow> jsval \<times> brt) \<Rightarrow> brt \<Rightarrow> jsval \<times> brt" where
  "guest_out rnd ops now0 now1 ctx expr rt =
     (let (t, rt1) = qjs_bun_timeout ctx rt;
          (scope, rt2) = qjs_bun_enter rnd now0 t rt1;
          (out, rt3) = expr rt2
      in (out, snd (qjs_bun_leave ops now1 scope (JS_IsException out) rt3)))"

definition guest_ret ::
    "(rat \<Rightarrow> ms) \<Rightarrow> error_ops \<Rightarrow> ms \<Rightarrow> ms \<Rightarrow> addr \<Rightarrow> (brt \<Rightarrow> int \<times> brt) \<Rightarrow> brt \<Rightarrow> int \<times> brt" where
  "guest_ret rnd ops now0 now1 ctx expr rt =
     (let (t, rt1) = qjs_bun_timeout ctx rt;
          (scope, rt2) = qjs_bun_enter rnd now0 t rt1;
          (ret, rt3) = expr rt2
      in (ret, snd (qjs_bun_leave ops now1 scope (ret < 0) rt3)))"

end
