(* ===== verification/TimeLimit.thy ===== *)
theory TimeLimit
  imports Deadline "HOL-Library.Countable"
begin

text \<open>
  What the deadline and the interrupt poll guarantee together. A guest is abstracted to what
  matters for the limit: the polls its interpreter loop makes, and the calls back into the
  bridge, each with a timeout of its own, whose failure the caller may swallow. \<open>run_body\<close>
  drives the modelled functions of the bridge and of the engine over such a guest and records
  the deadline every poll was made under.
\<close>

section \<open>The reporting functions keep the limit\<close>

text \<open>
  The contract of the error-reporting operations: they allocate and throw, which may collect
  garbage, and leave the interrupt handler and the host state alone.
\<close>

definition same_limit :: "brt \<Rightarrow> brt \<Rightarrow> bool" where
  "same_limit rt rt' \<longleftrightarrow>
     interrupt_handler rt' = interrupt_handler rt \<and> interrupt_opaque rt' = interrupt_opaque rt"

lemma same_limit_refl [simp]: "same_limit rt rt"
  by (simp add: same_limit_def)

lemma same_limit_trans: "same_limit a b \<Longrightarrow> same_limit b c \<Longrightarrow> same_limit a c"
  by (simp add: same_limit_def)

lemma same_limit_free [simp]: "same_limit rt (JS_FreeValue v rt)"
  by (simp add: same_limit_def)

lemma same_limit_throw [simp]: "same_limit rt (snd (JS_Throw v rt))"
  by (simp add: same_limit_def JS_Throw_def Let_def)

lemma same_limit_get_exception [simp]: "same_limit rt (snd (JS_GetException rt))"
  by (simp add: same_limit_def JS_GetException_def)

locale error_reporting =
  fixes ops :: error_ops
  assumes new_error: "same_limit rt (snd (JS_NewError ops rt))"
    and new_string: "same_limit rt (snd (JS_NewString ops s rt))"
    and define_property: "same_limit rt (JS_DefinePropertyValue ops v p w rt)"
begin

lemma timeout_error_same: "same_limit rt (snd (qjs_bun_timeout_error ops rt))"
proof -
  obtain error rt1 where 1: "JS_NewError ops rt = (error, rt1)" by fastforce
  obtain s1 rt2 where 2: "JS_NewString ops ''TimeoutError'' rt1 = (s1, rt2)" by fastforce
  let ?rt3 = "JS_DefinePropertyValue ops error ''name'' s1 rt2"
  obtain s2 rt4 where 4: "JS_NewString ops ''QuickJS execution timed out'' ?rt3 = (s2, rt4)" by fastforce
  have "same_limit rt rt1" "same_limit rt1 rt2" "same_limit rt2 ?rt3" "same_limit ?rt3 rt4"
    using new_error [of rt] new_string [of rt1 "''TimeoutError''"] define_property
      new_string [of ?rt3 "''QuickJS execution timed out''"] 1 2 4 by auto
  moreover have "same_limit rt4 (JS_DefinePropertyValue ops error ''message'' s2 rt4)"
    by (rule define_property)
  ultimately show ?thesis
    by (simp add: qjs_bun_timeout_error_def 1 2 4 Let_def same_limit_def)
qed

lemma throw_timeout_same: "same_limit rt (qjs_bun_throw_timeout ops rt)"
proof -
  obtain error rt1 where e: "qjs_bun_timeout_error ops rt = (error, rt1)" by fastforce
  have 1: "same_limit rt rt1" using timeout_error_same [of rt] e by simp
  obtain old rt2 where g: "JS_GetException rt1 = (old, rt2)" by fastforce
  have 2: "same_limit rt1 rt2" using same_limit_get_exception [of rt1] g by simp
  have 3: "same_limit rt2 (snd (JS_Throw error (JS_FreeValue old rt2)))"
    using same_limit_trans same_limit_free same_limit_throw by blast
  show ?thesis
    using 1 same_limit_trans [OF 1 same_limit_trans [OF 2 3]]
    by (simp add: qjs_bun_throw_timeout_def e g Let_def)
qed

lemma leave_deadline:
  "deadline (snd (qjs_bun_leave ops now scope failed rt)) =
     (if has_state scope then saved_ms scope else deadline rt)"
  using throw_timeout_same [of "set_deadline (saved_ms scope) rt"]
  by (simp add: qjs_bun_leave_def Let_def same_limit_def)

lemma leave_handler:
  "interrupt_handler (snd (qjs_bun_leave ops now scope failed rt)) = interrupt_handler rt"
  using throw_timeout_same [of "set_deadline (saved_ms scope) rt"]
  by (simp add: qjs_bun_leave_def Let_def same_limit_def)

end

text \<open>
  The engine's own operations, over the objects of the model: an error is a fresh object of
  class \<open>JS_CLASS_ERROR\<close>, a string a fresh block, and defining a property consumes the value.
\<close>

definition engine_error_ops :: "addr \<Rightarrow> addr \<Rightarrow> error_ops" where
  "engine_error_ops obj str =
     \<lparr>JS_NewError = (\<lambda>rt. (JS_Object obj,
        rt\<lparr>objects := (objects rt)(obj := \<lparr>obj_class_id = 3, opaque = 0\<rparr>), rc := (rc rt)(obj := 1)\<rparr>)),
      JS_NewString = (\<lambda>s rt. (JS_String str, rt\<lparr>rc := (rc rt)(str := 1)\<rparr>)),
      JS_DefinePropertyValue = (\<lambda>v p w rt. JS_FreeValue w rt)\<rparr>"

interpretation engine_errors: error_reporting "engine_error_ops obj str" for obj str
  by unfold_locales (simp_all add: engine_error_ops_def same_limit_def)

section \<open>The error that is reported\<close>

text \<open>
  What an error object says: \<open>str_text objs v\<close> is the text of the string \<open>v\<close>, \<open>own_text objs e p\<close> the text of the own
  property \<open>p\<close> of the object \<open>e\<close>, both read off the blocks. Any of the three operations may fail: a new error or a
  new string is then the exception value, and a property that cannot be defined stays as it was.
\<close>

type_synonym text_fn = "(addr \<Rightarrow> js_object) \<Rightarrow> jsval \<Rightarrow> string option"
type_synonym prop_fn = "(addr \<Rightarrow> js_object) \<Rightarrow> jsval \<Rightarrow> string \<Rightarrow> string option"

locale error_values = error_reporting +
  fixes str_text :: text_fn and own_text :: prop_fn
  assumes new_error_props: "JS_NewError ops rt = (e, rt1) \<Longrightarrow> e \<noteq> JS_Exception \<Longrightarrow> own_text (objects rt1) e p = None"
    and new_string_text: "JS_NewString ops s rt = (v, rt1) \<Longrightarrow> str_text (objects rt1) v = (if v = JS_Exception then None else Some s)"
    and new_string_props: "e = fst (JS_NewError ops r) \<Longrightarrow> own_text (objects (snd (JS_NewString ops s rt))) e p = own_text (objects rt) e p"
    and define_same: "own_text (objects (JS_DefinePropertyValue ops e p w rt)) e p \<in> {own_text (objects rt) e p, str_text (objects rt) w}"
    and define_other: "q \<noteq> p \<Longrightarrow> own_text (objects (JS_DefinePropertyValue ops e p w rt)) e q = own_text (objects rt) e q"

text \<open>No string and no definition fails.\<close>

definition memory_suffices :: "error_ops \<Rightarrow> text_fn \<Rightarrow> prop_fn \<Rightarrow> bool" where
  "memory_suffices ops str_text own_text \<longleftrightarrow> (\<forall>s rt. fst (JS_NewString ops s rt) \<noteq> JS_Exception)
     \<and> (\<forall>r p w rt. own_text (objects (JS_DefinePropertyValue ops (fst (JS_NewError ops r)) p w rt)) (fst (JS_NewError ops r)) p = str_text (objects rt) w)"

text \<open>
  The report of a timeout in the state \<open>rt\<close>: when no error object can be made, what the attempt left stands;
  otherwise the pending exception is that object, which guest and host can catch, and it has the name and the
  message of a timeout, or lacks one that could not be allocated.
\<close>

definition timeout_reported :: "error_ops \<Rightarrow> text_fn \<Rightarrow> prop_fn \<Rightarrow> brt \<Rightarrow> brt \<Rightarrow> bool" where
  "timeout_reported ops str_text own_text rt rt' \<longleftrightarrow>
     (let (e, tried) = JS_NewError ops rt; name = own_text (objects rt') e ''name''; message = own_text (objects rt') e ''message'' in
      if e = JS_Exception then rt' = tried
      else current_exception rt' = e \<and> \<not> current_exception_is_uncatchable rt'
        \<and> name \<in> {None, Some ''TimeoutError''} \<and> message \<in> {None, Some ''QuickJS execution timed out''}
        \<and> (memory_suffices ops str_text own_text \<longrightarrow> name = Some ''TimeoutError'' \<and> message = Some ''QuickJS execution timed out''))"

context error_values
begin

lemma throw_timeout_reports: "timeout_reported ops str_text own_text rt (qjs_bun_throw_timeout ops rt)"
proof -
  obtain e rt1 where 1: "JS_NewError ops rt = (e, rt1)" by fastforce
  show ?thesis
  proof (cases "e = JS_Exception")
    case True
    then show ?thesis using 1 by (simp add: timeout_reported_def qjs_bun_throw_timeout_def qjs_bun_timeout_error_def)
  next
    case False
    have e: "e = fst (JS_NewError ops rt)" using 1 by simp
    let ?N = "''TimeoutError''" and ?M = "''QuickJS execution timed out''"
    obtain s1 rt2 where 2: "JS_NewString ops ?N rt1 = (s1, rt2)" by fastforce
    define rt3 where "rt3 = JS_DefinePropertyValue ops e ''name'' s1 rt2"
    obtain s2 rt4 where 4: "JS_NewString ops ?M rt3 = (s2, rt4)" by fastforce
    define rt5 where "rt5 = JS_DefinePropertyValue ops e ''message'' s2 rt4"
    let ?final = "snd (JS_Throw e (JS_FreeValue (fst (JS_GetException rt5)) (snd (JS_GetException rt5))))"
    have r: "qjs_bun_throw_timeout ops rt = ?final"
      using 1 2 4 False
      by (simp add: qjs_bun_throw_timeout_def qjs_bun_timeout_error_def rt3_def rt5_def prod.case_eq_if)
    have o: "objects ?final = objects rt5" "current_exception ?final = e" "\<not> current_exception_is_uncatchable ?final"
      by (simp_all add: JS_Throw_def JS_GetException_def Let_def)
    have p1: "own_text (objects rt1) e p = None" for p using new_error_props [OF 1 False] .
    have p2: "own_text (objects rt2) e p = None" for p using new_string_props [OF e, of ?N rt1 p] 2 p1 by simp
    have n3: "own_text (objects rt3) e ''name'' \<in> {None, str_text (objects rt2) s1}"
      using define_same [of e "''name''" s1 rt2] p2 unfolding rt3_def by simp
    have m3: "own_text (objects rt3) e ''message'' = None"
      using define_other [of "''message''" "''name''" e s1 rt2] p2 unfolding rt3_def by simp
    have p4: "own_text (objects rt4) e p = own_text (objects rt3) e p" for p using new_string_props [OF e, of ?M rt3 p] 4 by simp
    have n5: "own_text (objects rt5) e ''name'' = own_text (objects rt3) e ''name''"
      using define_other [of "''name''" "''message''" e s2 rt4] p4 unfolding rt5_def by simp
    have m5: "own_text (objects rt5) e ''message'' \<in> {None, str_text (objects rt4) s2}"
      using define_same [of e "''message''" s2 rt4] p4 m3 unfolding rt5_def by simp
    have t: "str_text (objects rt2) s1 = (if s1 = JS_Exception then None else Some ?N)" "str_text (objects rt4) s2 = (if s2 = JS_Exception then None else Some ?M)"
      using new_string_text [OF 2] new_string_text [OF 4] .
    have "own_text (objects rt5) e ''name'' = Some ?N" "own_text (objects rt5) e ''message'' = Some ?M" if "memory_suffices ops str_text own_text"
    proof -
      have "s1 \<noteq> JS_Exception" "s2 \<noteq> JS_Exception" using that 2 4 unfolding memory_suffices_def by (metis fst_conv)+
      moreover have "own_text (objects rt3) e ''name'' = str_text (objects rt2) s1" "own_text (objects rt5) e ''message'' = str_text (objects rt4) s2"
        using that e unfolding memory_suffices_def rt3_def rt5_def by blast+
      ultimately show "own_text (objects rt5) e ''name'' = Some ?N" "own_text (objects rt5) e ''message'' = Some ?M" using t n5 by simp_all
    qed
    then show ?thesis
      using 1 False n3 n5 m5 t o by (auto simp: timeout_reported_def r split: if_splits)
  qed
qed

end

text \<open>
  Operations that meet the contract: an error keeps the list of its properties in its block, a string its text;
  \<open>ok\<close> says whether an error object can be made.
\<close>

definition described_error_ops :: "bool \<Rightarrow> addr \<Rightarrow> error_ops" where
  "described_error_ops ok obj =
     \<lparr>JS_NewError = (\<lambda>rt. if ok then (JS_Object obj,
        rt\<lparr>objects := (objects rt)(obj := \<lparr>obj_class_id = 3, opaque = to_nat ([] :: (string \<times> string) list)\<rparr>)\<rparr>) else (JS_Exception, rt)),
      JS_NewString = (\<lambda>s rt. (JS_String (Suc obj), rt\<lparr>objects := (objects rt)(Suc obj := \<lparr>obj_class_id = 0, opaque = to_nat s\<rparr>)\<rparr>)),
      JS_DefinePropertyValue = (\<lambda>v p w rt. case w of
        JS_String a \<Rightarrow> if v = JS_Object obj then rt\<lparr>objects := (objects rt)(obj := (objects rt obj)
          \<lparr>opaque := to_nat ((p, from_nat (opaque (objects rt a)) :: string) # from_nat (opaque (objects rt obj)))\<rparr>)\<rparr> else rt
      | _ \<Rightarrow> rt)\<rparr>"

definition described_text :: text_fn where
  "described_text objs v = (case v of JS_String a \<Rightarrow> Some (from_nat (opaque (objs a))) | _ \<Rightarrow> None)"

definition described_own :: "addr \<Rightarrow> prop_fn" where
  "described_own obj objs e p = (if e = JS_Object obj then map_of (from_nat (opaque (objs obj)) :: (string \<times> string) list) p else None)"

lemma described_define:
  "own_text_after = described_own obj (objects (JS_DefinePropertyValue (described_error_ops ok obj) e p w rt)) e q \<Longrightarrow>
     own_text_after = (if q = p \<and> e = JS_Object obj \<and> (\<exists>a. w = JS_String a) then described_text (objects rt) w else described_own obj (objects rt) e q)"
  by (cases w) (auto simp: described_error_ops_def described_own_def described_text_def)

interpretation described_errors: error_values "described_error_ops ok obj" described_text "described_own obj" for ok obj
proof
  show "same_limit rt (snd (JS_NewError (described_error_ops ok obj) rt))"
    "same_limit rt (snd (JS_NewString (described_error_ops ok obj) s rt))"
    "same_limit rt (JS_DefinePropertyValue (described_error_ops ok obj) v p w rt)" for rt s v p w
    by (auto simp: described_error_ops_def same_limit_def split: jsval.splits)
  show "described_own obj (objects rt1) e p = None"
    if "JS_NewError (described_error_ops ok obj) rt = (e, rt1)" "e \<noteq> JS_Exception" for rt e rt1 p
    using that by (auto simp: described_error_ops_def described_own_def split: if_splits)
  show "described_text (objects rt1) v = (if v = JS_Exception then None else Some s)"
    if "JS_NewString (described_error_ops ok obj) s rt = (v, rt1)" for s rt v rt1
    using that by (auto simp: described_error_ops_def described_text_def)
  show "described_own obj (objects (snd (JS_NewString (described_error_ops ok obj) s rt))) e p = described_own obj (objects rt) e p" for e s rt p
    by (simp add: described_error_ops_def described_own_def)
  show "described_own obj (objects (JS_DefinePropertyValue (described_error_ops ok obj) e p w rt)) e p
      \<in> {described_own obj (objects rt) e p, described_text (objects rt) w}" for e p w rt
    using described_define [OF refl, of obj ok e p w rt p] by auto
  show "described_own obj (objects (JS_DefinePropertyValue (described_error_ops ok obj) e p w rt)) e q = described_own obj (objects rt) e q"
    if "q \<noteq> p" for e p q w rt
    using described_define [OF refl, of obj ok e p w rt q] that by simp
qed

section \<open>Entering and leaving\<close>

lemma enter_deadline:
  "qjs_bun_enter rnd now t rt = (scope, rt1) \<Longrightarrow>
     has_state scope = (interrupt_handler rt = BUN_INTERRUPT) \<and> interrupt_handler rt1 = interrupt_handler rt
     \<and> context_list rt1 = context_list rt \<and> interrupt_counter rt1 = interrupt_counter rt
     \<and> (has_state scope \<longrightarrow> saved_ms scope = deadline rt \<and> own_ms scope = ms_add rnd now t
          \<and> deadline rt1 = (if ms_less (own_ms scope) (deadline rt) then own_ms scope else deadline rt))
     \<and> (\<not> has_state scope \<longrightarrow> rt1 = rt)"
  by (auto simp: qjs_bun_enter_def qjs_bun_state_def Let_def split: if_splits)

lemma enter_not_later:
  "qjs_bun_enter rnd now t rt = (scope, rt1) \<Longrightarrow> \<not> ms_less (deadline rt) (deadline rt1)"
  using enter_deadline [of rnd now t rt scope rt1] ms_less_trans ms_less_irrefl
  by (metis (full_types))

lemma enter_not_NaN:
  assumes "qjs_bun_enter rnd now t rt = (scope, rt1)" and "deadline rt \<noteq> NaN"
  shows "deadline rt1 \<noteq> NaN"
proof (cases "has_state scope \<and> ms_less (own_ms scope) (deadline rt)")
  case True
  then have "own_ms scope \<noteq> NaN" by auto
  then show ?thesis using enter_deadline [OF assms(1)] True by simp
next
  case False
  then show ?thesis using enter_deadline [OF assms(1)] assms(2) by auto
qed

lemma ms_less_chain: "\<not> ms_less b d \<Longrightarrow> \<not> ms_less a b \<Longrightarrow> b \<noteq> NaN \<Longrightarrow> \<not> ms_less a d"
  by (cases a; cases b; cases d) auto

section \<open>Polls\<close>

lemma call_handler_frame:
  "call_handler now cb rt = (stop, rt1) \<Longrightarrow>
     interrupt_handler rt1 = interrupt_handler rt \<and> interrupt_opaque rt1 = interrupt_opaque rt
     \<and> context_list rt1 = context_list rt"
  by (auto simp: call_handler_def qjs_bun_interrupt_def split: if_splits)

lemma poll_frame:
  "js_poll_interrupts (call_handler now) err ctx rt = (r, rt1) \<Longrightarrow>
     interrupt_handler rt1 = interrupt_handler rt \<and> interrupt_opaque rt1 = interrupt_opaque rt
     \<and> context_list rt1 = context_list rt"
  by (auto simp: js_poll_interrupts_def js_poll_interrupts_slow_def JS_ThrowInterrupted_def
      JS_SetUncatchableException_def JS_Throw_def Let_def
      dest: call_handler_frame split: if_splits prod.splits)

lemma poll_counts:
  assumes "interrupt_counter rt ctx > 1"
  shows "js_poll_interrupts (call_handler now) err ctx rt =
           (0, rt\<lparr>interrupt_counter := (interrupt_counter rt)(ctx := interrupt_counter rt ctx - 1)\<rparr>)"
  using assms by (simp add: js_poll_interrupts_def Let_def)

text \<open>Once the counter is down and the deadline has passed, the poll interrupts the guest.\<close>

lemma poll_stops:
  assumes h: "interrupt_handler rt = BUN_INTERRUPT" and c: "interrupt_counter rt ctx \<le> 1"
    and late: "\<not> ms_less now (deadline rt)"
  shows "fst (js_poll_interrupts (call_handler now) err ctx rt) = -1"
    "current_exception_is_uncatchable (snd (js_poll_interrupts (call_handler now) err ctx rt))"
    "current_exception (snd (js_poll_interrupts (call_handler now) err ctx rt)) = err"
    "\<And>c. c \<in> set (context_list rt) \<Longrightarrow>
       interrupt_counter (snd (js_poll_interrupts (call_handler now) err ctx rt)) c = 2"
  using assms
  by (auto simp: js_poll_interrupts_def js_poll_interrupts_slow_def call_handler_def BUN_INTERRUPT_def
      qjs_bun_interrupt_def JS_ThrowInterrupted_def JS_SetUncatchableException_def JS_Throw_def Let_def
      split: prod.splits)

text \<open>The number of polls made before the first one that interrupts, out of at most \<open>n\<close>.\<close>

fun polls_before_stop ::
    "(nat \<Rightarrow> ms) \<Rightarrow> jsval \<Rightarrow> addr \<Rightarrow> nat \<Rightarrow> nat \<Rightarrow> brt \<Rightarrow> (nat \<times> brt) option" where
  "polls_before_stop clock err ctx k 0 rt = None"
| "polls_before_stop clock err ctx k (Suc n) rt =
     (let (r, rt1) = js_poll_interrupts (call_handler (clock k)) err ctx rt
      in if r < 0 then Some (k, rt1) else polls_before_stop clock err ctx (Suc k) n rt1)"

lemma polls_before_stop_late:
  assumes "interrupt_handler rt = BUN_INTERRUPT" and "\<And>i. \<not> ms_less (clock i) (deadline rt)"
    and "nat (interrupt_counter rt ctx) \<le> m" "0 < m" "m \<le> n"
  shows "\<exists>rt1. polls_before_stop clock err ctx k n rt =
           Some (k + nat (interrupt_counter rt ctx - 1), rt1)
         \<and> (\<forall>c \<in> set (context_list rt). interrupt_counter rt1 c = 2)
         \<and> current_exception_is_uncatchable rt1"
  using assms
proof (induction m arbitrary: k n rt)
  case 0
  then show ?case by simp
next
  case (Suc m)
  then obtain n' where n: "n = Suc n'" by (cases n) auto
  show ?case
  proof (cases "interrupt_counter rt ctx \<le> 1")
    case True
    note s = poll_stops [where err = err, OF Suc.prems(1) True Suc.prems(2) [of k]]
    from s True n show ?thesis by (auto simp: Let_def split: prod.splits)
  next
    case False
    let ?rt = "rt\<lparr>interrupt_counter := (interrupt_counter rt)(ctx := interrupt_counter rt ctx - 1)\<rparr>"
    have p: "js_poll_interrupts (call_handler (clock k)) err ctx rt = (0, ?rt)"
      using False by (intro poll_counts) simp
    have "\<exists>rt1. polls_before_stop clock err ctx (Suc k) n' ?rt =
           Some (Suc k + nat (interrupt_counter ?rt ctx - 1), rt1)
         \<and> (\<forall>c \<in> set (context_list ?rt). interrupt_counter rt1 c = 2)
         \<and> current_exception_is_uncatchable rt1"
      by (rule Suc.IH) (use Suc.prems False n in auto)
    moreover have "Suc k + nat (interrupt_counter ?rt ctx - 1) = k + nat (interrupt_counter rt ctx - 1)"
      using False by simp
    ultimately show ?thesis using n p by auto
  qed
qed

lemma polls_before_stop_frame:
  "polls_before_stop clock err ctx k n rt = Some (j, rt1) \<Longrightarrow>
     interrupt_handler rt1 = interrupt_handler rt \<and> interrupt_opaque rt1 = interrupt_opaque rt
     \<and> context_list rt1 = context_list rt"
  by (induction n arbitrary: k rt) (auto simp: Let_def dest: poll_frame split: prod.splits if_splits)

section \<open>Nested guests\<close>

datatype guest = Poll addr | Nested ms bool "guest list"

fun run_body ::
    "(rat \<Rightarrow> ms) \<Rightarrow> error_ops \<Rightarrow> (nat \<Rightarrow> ms) \<Rightarrow> jsval \<Rightarrow> guest list \<Rightarrow> nat \<Rightarrow> brt \<Rightarrow>
     bool \<times> nat \<times> brt \<times> ms list" where
  "run_body rnd ops clock err [] k rt = (False, k, rt, [])"
| "run_body rnd ops clock err (Poll ctx # gs) k rt =
     (let (r, rt1) = js_poll_interrupts (call_handler (clock k)) err ctx rt
      in if r < 0 then (True, Suc k, rt1, [deadline rt])
         else let (failed, k2, rt2, seen) = run_body rnd ops clock err gs (Suc k) rt1
              in (failed, k2, rt2, deadline rt # seen))"
| "run_body rnd ops clock err (Nested t swallow body # gs) k rt =
     (let (scope, rt1) = qjs_bun_enter rnd (clock k) t rt;
          (failed, k2, rt2, seen) = run_body rnd ops clock err body (Suc k) rt1;
          (timed_out, rt3) = qjs_bun_leave ops (clock k2) scope failed rt2
      in if failed \<and> \<not> swallow then (True, Suc k2, rt3, seen)
         else let (failed', k4, rt4, seen') = run_body rnd ops clock err gs (Suc k2) rt3
              in (failed', k4, rt4, seen @ seen'))"

text \<open>The number of polls written in a guest; its recursion gives the induction over guests.\<close>

fun poll_count :: "guest list \<Rightarrow> nat" where
  "poll_count [] = 0"
| "poll_count (Poll ctx # gs) = Suc (poll_count gs)"
| "poll_count (Nested t swallow body # gs) = poll_count body + poll_count gs"

context error_reporting
begin

text \<open>
  Whatever a guest does, the deadline afterwards is the one before, and no poll at any depth is
  made under a later one.
\<close>

lemma run_body_deadline:
  assumes "run_body rnd ops clock err gs k rt = (failed, k', rt', seen)"
  shows "deadline rt' = deadline rt \<and> interrupt_handler rt' = interrupt_handler rt
         \<and> (deadline rt \<noteq> NaN \<longrightarrow> (\<forall>d \<in> set seen. \<not> ms_less (deadline rt) d))"
  using assms
proof (induction gs arbitrary: k rt failed k' rt' seen rule: poll_count.induct)
  case 1
  then show ?case by simp
next
  case (2 ctx gs)
  obtain r rt1 where p: "js_poll_interrupts (call_handler (clock k)) err ctx rt = (r, rt1)" by fastforce
  note f = poll_frame [OF p]
  show ?case
  proof (cases "r < 0")
    case True
    with "2.prems" p f show ?thesis by auto
  next
    case False
    obtain a b c d where q: "run_body rnd ops clock err gs (Suc k) rt1 = (a, b, c, d)"
      by (metis prod_cases4)
    from "2.IH" [OF q] "2.prems" p q False f show ?thesis by auto
  qed
next
  case (3 t swallow body gs)
  obtain scope rt1 where e: "qjs_bun_enter rnd (clock k) t rt = (scope, rt1)" by fastforce
  obtain fl k2 rt2 sn where b: "run_body rnd ops clock err body (Suc k) rt1 = (fl, k2, rt2, sn)"
    by (metis prod_cases4)
  obtain res rt3 where l: "qjs_bun_leave ops (clock k2) scope fl rt2 = (res, rt3)" by fastforce
  obtain f4 k4 rt4 sn4 where g: "run_body rnd ops clock err gs (Suc k2) rt3 = (f4, k4, rt4, sn4)"
    by (metis prod_cases4)
  note en = enter_deadline [OF e]
  note inner = "3.IH"(1) [OF b]
  have d3: "deadline rt3 = deadline rt" and h3: "interrupt_handler rt3 = interrupt_handler rt"
    using leave_deadline [of "clock k2" scope fl rt2] leave_handler [of "clock k2" scope fl rt2] l en inner
    by auto
  have seen_in: "\<not> ms_less (deadline rt) d" if "deadline rt \<noteq> NaN" "d \<in> set sn" for d
    using inner that enter_not_NaN [OF e that(1)] enter_not_later [OF e] ms_less_chain by blast
  note rest = "3.IH"(2) [OF g]
  show ?case
    using "3.prems" e b l g d3 h3 seen_in rest by (auto simp: Let_def split: if_splits)
qed

end

end
