(* ===== verification/JobQueue.thy ===== *)
theory JobQueue
  imports Engine
begin

text \<open>
  The runtime's job queue (\<open>JS_EnqueueJob2\<close>, \<open>JS_EnqueueJob\<close>, \<open>JS_IsJobPending\<close>,
  \<open>JS_ExecutePendingJob\<close> of \<open>quickjs/quickjs.c\<close>): entries linked into \<open>rt->job_list\<close>,
  each holding a counted reference to its realm and to its arguments. The lemmas rest on the
  contract \<open>node_queue\<close> that \<open>list.h\<close> provides.
\<close>

section \<open>The operations\<close>

text \<open>\<open>e\<close> is the address the allocator returned for the entry, 0 when it failed.\<close>

definition JS_EnqueueJob2 :: "addr \<Rightarrow> addr \<Rightarrow> cptr \<Rightarrow> jsval list \<Rightarrow> 'o js_runtime \<Rightarrow> int \<times> 'o js_runtime" where
  "JS_EnqueueJob2 e ctx func args rt =
     (if e = 0 then (-1, rt)
      else let rt1 = JS_DupContext ctx rt;
               rt2 = dup_values args rt1;
               rt3 = rt2\<lparr>job_at := (job_at rt2)(e := \<lparr>realm = ctx, job_func = func, job_argv = args\<rparr>)\<rparr>
           in (0, rt3\<lparr>links_of := list_add_tail e (job_list rt3) (links_of rt3)\<rparr>))"

text \<open>
  \<open>oom\<close> is the engine's out-of-memory report, which \<open>js_malloc\<close> makes and
  \<open>js_malloc_rt\<close> (used when no exception is wanted) does not.
\<close>

definition JS_EnqueueJob ::
    "('o js_runtime \<Rightarrow> 'o js_runtime) \<Rightarrow> addr \<Rightarrow> addr \<Rightarrow> cptr \<Rightarrow> jsval list \<Rightarrow> 'o js_runtime \<Rightarrow> int \<times> 'o js_runtime" where
  "JS_EnqueueJob oom e ctx func args rt =
     JS_EnqueueJob2 e ctx func args (if e = 0 then oom rt else rt)"

definition JS_IsJobPending :: "'o js_runtime \<Rightarrow> bool" where
  "JS_IsJobPending rt \<longleftrightarrow> \<not> list_empty (job_list rt) (links_of rt)"

text \<open>
  \<open>run func ctx args rt\<close> is the call of the job function; it may change the whole runtime.
  \<open>free_ctx\<close> is the release of the realm (\<open>JS_FreeContext\<close>). The result is the
  return code, the context stored through \<open>pctx\<close> (0 for NULL) and the runtime after it.
\<close>

definition JS_ExecutePendingJob ::
    "(cptr \<Rightarrow> addr \<Rightarrow> jsval list \<Rightarrow> 'o js_runtime \<Rightarrow> jsval \<times> 'o js_runtime) \<Rightarrow>
     (addr \<Rightarrow> 'o js_runtime \<Rightarrow> 'o js_runtime) \<Rightarrow> 'o js_runtime \<Rightarrow> int \<times> addr \<times> 'o js_runtime" where
  "JS_ExecutePendingJob run free_ctx rt =
     (if list_empty (job_list rt) (links_of rt) then (0, 0, rt)
      else let e = next_of (links_of rt) (job_list rt);
               rt1 = rt\<lparr>links_of := list_del e (links_of rt)\<rparr>;
               ctx = realm (job_at rt1 e);
               (res, rt2) = run (job_func (job_at rt1 e)) ctx (job_argv (job_at rt1 e)) rt1;
               rt3 = free_values (job_argv (job_at rt2 e)) rt2;
               ret = (if JS_IsException res then -1 else 1);
               rt4 = JS_FreeValue res rt3;
               pctx = (if rc rt4 ctx > 1 then ctx else 0)
           in (ret, pctx, free_ctx ctx rt4))"

section \<open>The queue it implements\<close>

text \<open>\<open>queued rt es\<close>: the entries \<open>es\<close> wait in this order.\<close>

definition queued :: "'o js_runtime \<Rightarrow> addr list \<Rightarrow> bool" where
  "queued rt es \<longleftrightarrow> dlist (links_of rt) (job_list rt) es"

lemma queued_pending: "queued rt es \<Longrightarrow> JS_IsJobPending rt \<longleftrightarrow> es \<noteq> []"
  unfolding queued_def JS_IsJobPending_def
  using head_queue.rep_empty by blast

lemma JS_DupContext_frame [simp]:
  "links_of (JS_DupContext ctx rt) = links_of rt"
  "job_list (JS_DupContext ctx rt) = job_list rt"
  "job_at (JS_DupContext ctx rt) = job_at rt"
  by (simp_all add: JS_DupContext_def)

lemma JS_EnqueueJob2_queued:
  assumes "queued rt es" and "e \<noteq> 0" "e \<notin> set (job_list rt # es)"
  shows "queued (snd (JS_EnqueueJob2 e ctx func args rt)) (es @ [e])"
proof -
  have "dlist (list_add_tail e (job_list rt) (links_of rt)) (job_list rt) (es @ [e])"
    using head_queue.rep_enq [of "links_of rt" "job_list rt" es e] assms by (simp add: queued_def)
  then show ?thesis using assms(2) by (simp add: JS_EnqueueJob2_def queued_def Let_def)
qed

lemma JS_EnqueueJob2_job_at:
  assumes "e \<noteq> 0"
  shows "job_at (snd (JS_EnqueueJob2 e ctx func args rt)) =
           (job_at rt)(e := \<lparr>realm = ctx, job_func = func, job_argv = args\<rparr>)"
  using assms by (simp add: JS_EnqueueJob2_def Let_def)

lemma JS_ExecutePendingJob_empty:
  "queued rt [] \<Longrightarrow> JS_ExecutePendingJob run free_ctx rt = (0, 0, rt)"
  unfolding queued_def JS_ExecutePendingJob_def
  using head_queue.rep_empty by auto

text \<open>The job function of the oldest entry runs, on that entry's realm and arguments, after it
  left the queue; the rest of the queue waits behind it in the same order.\<close>

lemma JS_ExecutePendingJob_head:
  assumes q: "queued rt (e # es)"
    and run: "run (job_func (job_at rt e)) (realm (job_at rt e)) (job_argv (job_at rt e))
                (rt\<lparr>links_of := list_del e (links_of rt)\<rparr>) = (res, rt2)"
  shows "queued (rt\<lparr>links_of := list_del e (links_of rt)\<rparr>) es"
    and "JS_ExecutePendingJob run free_ctx rt =
           (let rt4 = JS_FreeValue res (free_values (job_argv (job_at rt2 e)) rt2);
                ctx = realm (job_at rt e)
            in (if res = JS_Exception then -1 else 1, if rc rt4 ctx > 1 then ctx else 0, free_ctx ctx rt4))"
proof -
  have d: "dlist (links_of rt) (job_list rt) (e # es)" using q by (simp add: queued_def)
  have ne: "\<not> list_empty (job_list rt) (links_of rt)"
    using head_queue.rep_empty [OF d] by simp
  have nx: "next_of (links_of rt) (job_list rt) = e"
    using head_queue.rep_first [OF d] .
  show "queued (rt\<lparr>links_of := list_del e (links_of rt)\<rparr>) es"
    using head_queue.rep_unlink [OF d] by (simp add: queued_def)
  show "JS_ExecutePendingJob run free_ctx rt =
           (let rt4 = JS_FreeValue res (free_values (job_argv (job_at rt2 e)) rt2);
                ctx = realm (job_at rt e)
            in (if res = JS_Exception then -1 else 1, if rc rt4 ctx > 1 then ctx else 0, free_ctx ctx rt4))"
    using ne nx run by (simp add: JS_ExecutePendingJob_def Let_def)
qed

lemma job_list_enqueue [simp]: "job_list (snd (JS_EnqueueJob2 e ctx func args rt)) = job_list rt"
  by (simp add: JS_EnqueueJob2_def Let_def)

section \<open>The history of a queue\<close>

text \<open>
  The state of the host carries what was enqueued and the calls of job functions that were made. \<open>logged run\<close> writes
  the call it makes down, \<open>enqueue_logged\<close> the job it adds.
\<close>

type_synonym job_call = "cptr \<times> addr \<times> jsval list"

record job_history =
  enqueued :: "job_call list"
  ran :: "job_call list"

type_synonym jrt = "job_history js_runtime"

definition logged :: "(cptr \<Rightarrow> addr \<Rightarrow> jsval list \<Rightarrow> jrt \<Rightarrow> jsval \<times> jrt) \<Rightarrow> cptr \<Rightarrow> addr \<Rightarrow> jsval list \<Rightarrow> jrt \<Rightarrow> jsval \<times> jrt" where
  "logged run f c vs rt = run f c vs (rt\<lparr>interrupt_opaque := (interrupt_opaque rt)\<lparr>ran := ran (interrupt_opaque rt) @ [(f, c, vs)]\<rparr>\<rparr>)"

definition enqueue_logged :: "addr \<Rightarrow> addr \<Rightarrow> cptr \<Rightarrow> jsval list \<Rightarrow> jrt \<Rightarrow> jrt" where
  "enqueue_logged e ctx func args rt =
     (let (r, rt1) = JS_EnqueueJob2 e ctx func args rt in
      if r < 0 then rt1
      else rt1\<lparr>interrupt_opaque := (interrupt_opaque rt1)\<lparr>enqueued := enqueued (interrupt_opaque rt1) @ [(func, ctx, args)]\<rparr>\<rparr>)"

text \<open>
  What jobs, and the host between them, may do to the queue: enqueue jobs in entries that are not in use, run
  pending jobs, also in the middle of a job, and change anything else.
\<close>

inductive job_effects :: "jrt \<Rightarrow> jrt \<Rightarrow> bool" where
  effects_nothing: "job_effects rt rt"
| effects_other: "job_effects rt rt1 \<Longrightarrow> links_of rt2 = links_of rt1 \<Longrightarrow> job_list rt2 = job_list rt1 \<Longrightarrow> job_at rt2 = job_at rt1 \<Longrightarrow>
    interrupt_opaque rt2 = interrupt_opaque rt1 \<Longrightarrow> job_effects rt rt2"
| effects_enqueue: "job_effects rt rt1 \<Longrightarrow> (\<And>es. queued rt1 es \<Longrightarrow> e \<notin> set (job_list rt1 # es)) \<Longrightarrow>
    job_effects rt (enqueue_logged e ctx func args rt1)"
| effects_poll: "job_effects rt rt1 \<Longrightarrow> (\<And>f c vs r. job_effects r (snd (run f c vs r))) \<Longrightarrow> (\<And>c r. job_effects r (free_ctx c r)) \<Longrightarrow>
    job_effects rt (snd (snd (JS_ExecutePendingJob (logged run) free_ctx rt1)))"

definition job_of :: "jrt \<Rightarrow> addr \<Rightarrow> job_call" where
  "job_of rt e = (job_func (job_at rt e), realm (job_at rt e), job_argv (job_at rt e))"

text \<open>First in, first out: what was enqueued is what ran, in that order, and then what waits.\<close>

definition fifo :: "jrt \<Rightarrow> addr list \<Rightarrow> bool" where
  "fifo rt es \<longleftrightarrow> queued rt es \<and> enqueued (interrupt_opaque rt) = ran (interrupt_opaque rt) @ map (job_of rt) es"

definition extends :: "jrt \<Rightarrow> jrt \<Rightarrow> bool" where
  "extends rt rt' \<longleftrightarrow> (\<exists>new more. enqueued (interrupt_opaque rt') = enqueued (interrupt_opaque rt) @ new
     \<and> ran (interrupt_opaque rt') = ran (interrupt_opaque rt) @ more)"

lemma extends_refl [simp]: "extends rt rt"
  by (simp add: extends_def)

lemma extends_trans: "extends a b \<Longrightarrow> extends b c \<Longrightarrow> extends a c"
  by (fastforce simp: extends_def)

lemma fifo_same:
  assumes "fifo rt es" "links_of rt' = links_of rt" "job_list rt' = job_list rt" "job_at rt' = job_at rt" "interrupt_opaque rt' = interrupt_opaque rt"
  shows "fifo rt' es" "extends rt rt'"
  using assms by (simp_all add: fifo_def queued_def job_of_def [abs_def] extends_def)

lemma enqueue_fifo:
  assumes "fifo rt es" and "e \<notin> set (job_list rt # es)"
  shows "\<exists>es'. fifo (enqueue_logged e ctx func args rt) es' \<and> extends rt (enqueue_logged e ctx func args rt)"
proof (cases "e = 0")
  case True
  then have "enqueue_logged e ctx func args rt = rt" by (simp add: enqueue_logged_def JS_EnqueueJob2_def)
  then show ?thesis using assms(1) by auto
next
  case False
  let ?rt = "snd (JS_EnqueueJob2 e ctx func args rt)"
  have q: "queued ?rt (es @ [e])" using JS_EnqueueJob2_queued [OF _ False assms(2)] assms(1) by (simp add: fifo_def)
  have ja: "job_at ?rt = (job_at rt)(e := \<lparr>realm = ctx, job_func = func, job_argv = args\<rparr>)" by (rule JS_EnqueueJob2_job_at [OF False])
  have o: "interrupt_opaque ?rt = interrupt_opaque rt" using False by (simp add: JS_EnqueueJob2_def JS_DupContext_def Let_def)
  have l: "enqueue_logged e ctx func args rt = ?rt\<lparr>interrupt_opaque := (interrupt_opaque rt)\<lparr>enqueued := enqueued (interrupt_opaque rt) @ [(func, ctx, args)]\<rparr>\<rparr>"
    using False o by (simp add: enqueue_logged_def prod.case_eq_if JS_EnqueueJob2_def Let_def)
  have "map (job_of (enqueue_logged e ctx func args rt)) (es @ [e]) = map (job_of rt) es @ [(func, ctx, args)]"
    using assms(2) by (simp add: l job_of_def ja)
  then show ?thesis using q o assms(1) by (intro exI [of _ "es @ [e]"]) (simp add: fifo_def queued_def l extends_def)
qed

text \<open>Running the oldest job makes exactly its call.\<close>

lemma poll_fifo:
  assumes q: "fifo rt es" and run: "\<And>f c vs r es. fifo r es \<Longrightarrow> \<exists>es'. fifo (snd (run f c vs r)) es' \<and> extends r (snd (run f c vs r))"
    and fc: "\<And>c r es. fifo r es \<Longrightarrow> \<exists>es'. fifo (free_ctx c r) es' \<and> extends r (free_ctx c r)"
  shows "\<exists>es'. fifo (snd (snd (JS_ExecutePendingJob (logged run) free_ctx rt))) es' \<and> extends rt (snd (snd (JS_ExecutePendingJob (logged run) free_ctx rt)))
    \<and> (es = [] \<or> length (ran (interrupt_opaque rt)) < length (ran (interrupt_opaque (snd (snd (JS_ExecutePendingJob (logged run) free_ctx rt))))))"
proof (cases es)
  case Nil
  then show ?thesis using q JS_ExecutePendingJob_empty [of rt "logged run" free_ctx] by (auto simp: fifo_def)
next
  case (Cons e es1)
  have qu: "queued rt (e # es1)" using q Cons by (simp add: fifo_def)
  let ?r0 = "rt\<lparr>links_of := list_del e (links_of rt)\<rparr>" and ?h = "interrupt_opaque rt" and ?j = "job_at rt e"
  let ?r1 = "?r0\<lparr>interrupt_opaque := ?h\<lparr>ran := ran ?h @ [(job_func ?j, realm ?j, job_argv ?j)]\<rparr>\<rparr>"
  obtain res rt2 where r: "run (job_func ?j) (realm ?j) (job_argv ?j) ?r1 = (res, rt2)" by fastforce
  then have l: "logged run (job_func ?j) (realm ?j) (job_argv ?j) ?r0 = (res, rt2)" by (simp add: logged_def)
  note h = JS_ExecutePendingJob_head(1) [where run = "logged run", OF qu l]
    JS_ExecutePendingJob_head(2) [where run = "logged run" and free_ctx = free_ctx, OF qu l]
  have "fifo ?r1 es1" using q Cons h(1) by (simp add: fifo_def queued_def job_of_def [abs_def])
  then obtain es2 where 2: "fifo rt2 es2" "extends ?r1 rt2" using run [of ?r1 es1 "job_func ?j" "realm ?j" "job_argv ?j"] r by auto
  let ?r4 = "JS_FreeValue res (free_values (job_argv (job_at rt2 e)) rt2)"
  have 4: "fifo ?r4 es2" "extends rt2 ?r4" by (rule fifo_same [OF 2(1)], simp_all)+
  obtain es5 where 5: "fifo (free_ctx (realm ?j) ?r4) es5" "extends ?r4 (free_ctx (realm ?j) ?r4)" using fc [OF 4(1)] by blast
  have e: "extends ?r1 (free_ctx (realm ?j) ?r4)" using extends_trans [OF 2(2) extends_trans [OF 4(2) 5(2)]] .
  have "snd (snd (JS_ExecutePendingJob (logged run) free_ctx rt)) = free_ctx (realm ?j) ?r4" using h(2) by (simp add: Let_def)
  then show ?thesis using 5(1) e by (auto simp: extends_def)
qed

lemma effects_fifo:
  "job_effects rt rt' \<Longrightarrow> fifo rt es \<Longrightarrow> \<exists>es'. fifo rt' es' \<and> extends rt rt'"
proof (induction arbitrary: es rule: job_effects.induct)
  case (effects_nothing rt)
  then show ?case by auto
next
  case (effects_other rt rt1 rt2)
  then show ?case using fifo_same [of rt1 _ rt2] extends_trans by blast
next
  case (effects_enqueue rt rt1 e ctx func args)
  obtain es1 where 1: "fifo rt1 es1" "extends rt rt1" using effects_enqueue.IH effects_enqueue.prems by blast
  then have "e \<notin> set (job_list rt1 # es1)" using effects_enqueue.hyps(2) [of es1] by (simp add: fifo_def)
  then show ?case using enqueue_fifo [OF 1(1)] extends_trans [OF 1(2)] by blast
next
  case (effects_poll rt rt1 run free_ctx)
  obtain es1 where 1: "fifo rt1 es1" "extends rt rt1" using effects_poll.IH(1) effects_poll.prems by blast
  then show ?case using poll_fifo [OF 1(1), of run free_ctx] effects_poll.IH(2,3) extends_trans [OF 1(2)] by blast
qed

text \<open>Polling the queue \<open>n\<close> times.\<close>

fun polls ::
    "nat \<Rightarrow> (cptr \<Rightarrow> addr \<Rightarrow> jsval list \<Rightarrow> jrt \<Rightarrow> jsval \<times> jrt) \<Rightarrow> (addr \<Rightarrow> jrt \<Rightarrow> jrt) \<Rightarrow> jrt \<Rightarrow> jrt" where
  "polls 0 run free_ctx rt = rt"
| "polls (Suc n) run free_ctx rt = polls n run free_ctx (snd (snd (JS_ExecutePendingJob (logged run) free_ctx rt)))"

lemma polls_fifo:
  assumes "fifo rt es" and "\<And>f c vs r. job_effects r (snd (run f c vs r))" and "\<And>c r. job_effects r (free_ctx c r)"
  shows "\<exists>es'. fifo (polls n run free_ctx rt) es' \<and> extends rt (polls n run free_ctx rt)
    \<and> (es' = [] \<or> length (ran (interrupt_opaque rt)) + n \<le> length (ran (interrupt_opaque (polls n run free_ctx rt))))"
  using assms(1)
proof (induction n arbitrary: rt es)
  case 0
  then show ?case by auto
next
  case (Suc n)
  let ?rt1 = "snd (snd (JS_ExecutePendingJob (logged run) free_ctx rt))"
  obtain es1 where 1: "fifo ?rt1 es1" "extends rt ?rt1" "es = [] \<or> length (ran (interrupt_opaque rt)) < length (ran (interrupt_opaque ?rt1))"
    using poll_fifo [OF Suc.prems, of run free_ctx] effects_fifo [OF assms(2)] effects_fifo [OF assms(3)] by blast
  obtain es2 where 2: "fifo (polls n run free_ctx ?rt1) es2" "extends ?rt1 (polls n run free_ctx ?rt1)"
    "es2 = [] \<or> length (ran (interrupt_opaque ?rt1)) + n \<le> length (ran (interrupt_opaque (polls n run free_ctx ?rt1)))"
    using Suc.IH [OF 1(1)] by blast
  show ?case
  proof (cases "es = []")
    case True
    then have "?rt1 = rt" using JS_ExecutePendingJob_empty [of rt "logged run" free_ctx] Suc.prems by (simp add: fifo_def)
    moreover have "polls n run free_ctx rt = rt" if "fifo rt []" for rt
      using that by (induction n) (simp_all add: fifo_def JS_ExecutePendingJob_empty)
    ultimately show ?thesis using Suc.prems True by auto
  next
    case False
    then show ?thesis using 1 2 extends_trans [OF 1(2) 2(2)] by (intro exI [of _ es2]) auto
  qed
qed

end
