(* ===== verification/Bridge.thy ===== *)
theory Bridge
  imports TimeLimit JobQueue
begin

text \<open>
  The life of the bridge's own state (\<open>src/native/quickjs_bridge.c\<close>): runtimes and
  contexts, the finalizer table, the module and promise callbacks, pending jobs, and the host
  functions and array buffers whose slots the guest owns. Memory the bridge takes from the C
  library or from the engine is granted or refused by a boolean argument.
\<close>

section \<open>Finalizers of host classes\<close>

text \<open>
  Reading an entry of the finalizer table through its pointer; None is an access outside the
  block, or through a pointer to a freed block.
\<close>

definition finalizer_at :: "cptr table_ptr \<Rightarrow> nat \<Rightarrow> cptr option" where
  "finalizer_at tab i = (case tab of Table fs \<Rightarrow> rd fs i | _ \<Rightarrow> None)"

text \<open>\<open>Some (Some (f, p))\<close>: the finalizer \<open>f\<close> is called with the opaque pointer \<open>p\<close>.\<close>

definition qjs_bun_class_finalize :: "jsval \<Rightarrow> brt \<Rightarrow> (cptr \<times> cptr) option option" where
  "qjs_bun_class_finalize v rt =
     (case qjs_bun_state rt of
        None \<Rightarrow> Some None
      | Some st \<Rightarrow>
          let cid = JS_GetClassID v rt
          in if cid < unat (finalizer_count st)
             then (case finalizer_at (finalizers st) cid of
                     None \<Rightarrow> None
                   | Some f \<Rightarrow> Some (if f \<noteq> 0 then Some (f, JS_GetOpaque v cid rt) else None))
             else Some None)"

text \<open>
  \<open>realloc(p, n)\<close> of the table: a request for no bytes frees the block and returns NULL when
  there is one, and returns an empty block when there is none (the behaviour of glibc);
  otherwise \<open>ok\<close> says whether the larger block is granted.
\<close>

definition realloc_table :: "bool \<Rightarrow> nat \<Rightarrow> cptr table_ptr \<Rightarrow> cptr table_ptr \<times> cptr list option" where
  "realloc_table ok n tab =
     (case tab of
        Table fs \<Rightarrow>
          if n = 0 then (Dangling, None)
          else if ok then (Dangling, Some (take n fs)) else (Table fs, None)
      | TNull \<Rightarrow> (TNull, if ok then Some [] else None)
      | Dangling \<Rightarrow> (Dangling, None))"

text \<open>The growth of the table: the new block keeps the old entries and is zeroed behind them.\<close>

definition grow_finalizers :: "bool \<Rightarrow> u32 \<Rightarrow> qjsbun_runtime \<Rightarrow> int \<times> qjsbun_runtime" where
  "grow_finalizers ok cid st =
     (let cnt = cid + 1
      in case realloc_table ok (unat cnt) (finalizers st) of
           (old, None) \<Rightarrow> (-1, st\<lparr>finalizers := old\<rparr>)
         | (old, Some block) \<Rightarrow>
             (0, st\<lparr>finalizers := Table (block @ replicate (unat (cnt - finalizer_count st)) 0),
                   finalizer_count := cnt\<rparr>))"

text \<open>
  The registration. \<open>new_class\<close> is the engine's \<open>JS_NewClass\<close> on this id; the result None
  is a write outside the table.
\<close>

definition qjs_bun_new_class ::
    "bool \<Rightarrow> (nat \<Rightarrow> js_class \<Rightarrow> brt \<Rightarrow> int \<times> brt) \<Rightarrow> u32 \<Rightarrow> string \<Rightarrow> cptr \<Rightarrow> cptr \<Rightarrow> brt \<Rightarrow> (int \<times> brt) option" where
  "qjs_bun_new_class ok new_class cid name fin class_finalize_addr rt =
     (let def = \<lparr>class_id = 0, class_name = name,
                 finalizer = (if fin \<noteq> 0 then class_finalize_addr else 0),
                 gc_mark = 0, call = 0, exotic = 0\<rparr>
      in case (if fin \<noteq> 0 then qjs_bun_state rt else None) of
           None \<Rightarrow> Some (new_class (unat cid) def rt)
         | Some st \<Rightarrow>
             (case (if cid \<ge> finalizer_count st then grow_finalizers ok cid st else (0, st)) of
                (code, st1) \<Rightarrow>
                  if code < 0 then Some (-1, put_state st1 rt)
                  else (case finalizers st1 of
                          Table fs \<Rightarrow>
                            (case wr fs (unat cid) fin of
                               None \<Rightarrow> None
                             | Some fs' \<Rightarrow>
                                 Some (new_class (unat cid) def (put_state (st1\<lparr>finalizers := Table fs'\<rparr>) rt)))
                        | _ \<Rightarrow> None)))"

text \<open>The table is allocated with exactly \<open>finalizer_count\<close> entries, or not needed yet.\<close>

definition finalizers_ok :: "qjsbun_runtime \<Rightarrow> bool" where
  "finalizers_ok st \<longleftrightarrow>
     (case finalizers st of
        TNull \<Rightarrow> finalizer_count st = 0
      | Table fs \<Rightarrow> length fs = unat (finalizer_count st)
      | Dangling \<Rightarrow> False)"

lemma finalizer_at_ok:
  "finalizers_ok st \<Longrightarrow> i < unat (finalizer_count st) \<Longrightarrow> finalizer_at (finalizers st) i \<noteq> None"
  by (auto simp: finalizers_ok_def finalizer_at_def rd_def split: table_ptr.splits)

lemma unat_Suc_u32: "x \<noteq> - 1 \<Longrightarrow> unat (x + 1 :: u32) = Suc (unat x)"
  by (metis add.commute add_eq_0_iff2 unatSuc)

lemma grow_finalizers_ok:
  assumes "finalizers_ok st" and "cid \<noteq> -1" and "finalizer_count st \<le> cid"
    and "grow_finalizers ok cid st = (0, st1)"
  shows "\<exists>fs. finalizers st1 = Table fs \<and> length fs = unat (finalizer_count st1)
         \<and> unat cid < length fs
         \<and> (\<forall>i < unat (finalizer_count st). finalizer_at (finalizers st) i = Some (fs ! i))
         \<and> (\<forall>i < length fs. unat (finalizer_count st) \<le> i \<longrightarrow> fs ! i = 0)"
proof -
  have c: "unat (cid + 1) = Suc (unat cid)" using assms(2) by (rule unat_Suc_u32)
  have le: "unat (finalizer_count st) \<le> unat cid" using assms(3) by (simp add: word_le_nat_alt)
  have le1: "finalizer_count st \<le> cid + 1" using c le by (simp add: word_le_nat_alt)
  have d: "unat (cid + 1 - finalizer_count st) = Suc (unat cid) - unat (finalizer_count st)"
    using unat_sub [OF le1] c by simp
  show ?thesis
    using assms(1,4) c d le
    by (auto simp: grow_finalizers_def realloc_table_def finalizers_ok_def Let_def finalizer_at_def
        rd_def nth_append nth_Cons min_def split: table_ptr.splits if_splits nat.splits)
qed

section \<open>Runtimes and contexts\<close>

text \<open>
  \<open>created\<close> is what \<open>JS_NewRuntime\<close> returned. The static class id is allocated by the first
  runtime and kept in \<open>host_class_id\<close>, next to the engine's counter. The result is the
  runtime (None for NULL), the two counters, and the number of runtimes freed on the way.
\<close>

definition BUN_HOST_FINALIZER :: cptr where
  "BUN_HOST_FINALIZER = 2"

definition BUN_HOST_CALL :: cptr where
  "BUN_HOST_CALL = 3"

definition BUN_CLASS_FINALIZE :: cptr where
  "BUN_CLASS_FINALIZE = 4"

definition fresh_state :: qjsbun_runtime where
  "fresh_state = \<lparr>deadline_ms = PInf, contexts = [], finalizers = TNull, finalizer_count = 0,
                  module_loader = 0, module_normalizer = 0\<rparr>"

definition qjs_bun_new_runtime ::
    "brt option \<Rightarrow> bool \<Rightarrow> (nat \<Rightarrow> js_class \<Rightarrow> brt \<Rightarrow> int \<times> brt) \<Rightarrow> u32 \<Rightarrow> u32 \<Rightarrow>
     brt option \<times> u32 \<times> u32 \<times> nat" where
  "qjs_bun_new_runtime created malloc_ok new_class host_class_id class_id_alloc =
     (case created of
        None \<Rightarrow> (None, host_class_id, class_id_alloc, 0)
      | Some rt \<Rightarrow>
          if \<not> malloc_ok then (None, host_class_id, class_id_alloc, 1)
          else
            let (_, host_class_id1, class_id_alloc1) =
                  (if host_class_id = 0 then JS_NewClassID host_class_id class_id_alloc
                   else (host_class_id, host_class_id, class_id_alloc));
                (code, rt1) = new_class (unat host_class_id1)
                  \<lparr>class_id = 0, class_name = ''HostFunction'', finalizer = BUN_HOST_FINALIZER,
                   gc_mark = 0, call = BUN_HOST_CALL, exotic = 0\<rparr> rt
            in if code < 0 then (None, host_class_id1, class_id_alloc1, 1)
               else (Some (JS_SetInterruptHandler BUN_INTERRUPT fresh_state rt1),
                     host_class_id1, class_id_alloc1, 0))"

text \<open>The blocks of the C library the bridge frees when a runtime is disposed, in order.\<close>

datatype host_block = Entry qjsbun_context | FinalizerTable "cptr table_ptr" | StateBlock

definition qjs_bun_free_runtime :: "(brt \<Rightarrow> brt) \<Rightarrow> brt \<Rightarrow> host_block list \<times> brt" where
  "qjs_bun_free_runtime free_rt rt =
     (let state = qjs_bun_state rt;
          rt1 = JS_SetModuleLoaderFunc 0 0 0 rt;
          rt2 = JS_SetHostPromiseRejectionTracker 0 0 rt1;
          rt3 = free_rt rt2
      in case state of
           None \<Rightarrow> ([], rt3)
         | Some _ \<Rightarrow>
             let st = interrupt_opaque rt3
             in (map Entry (contexts st) @ [FinalizerTable (finalizers st), StateBlock],
                 put_state (st\<lparr>contexts := []\<rparr>) rt3))"

text \<open>
  \<open>create raw rt\<close> is \<open>JS_NewContextRaw\<close> or \<open>JS_NewContext\<close> (address 0 on failure),
  \<open>hide\<close> the removal of the \<open>Atomics\<close> global and \<open>free_ctx\<close> \<open>JS_FreeContext\<close>.
\<close>

definition qjs_bun_new_context ::
    "(bool \<Rightarrow> brt \<Rightarrow> addr \<times> brt) \<Rightarrow> (addr \<Rightarrow> brt \<Rightarrow> brt) \<Rightarrow> (addr \<Rightarrow> brt \<Rightarrow> brt) \<Rightarrow> bool \<Rightarrow>
     bool \<Rightarrow> ms \<Rightarrow> brt \<Rightarrow> addr \<times> brt" where
  "qjs_bun_new_context create hide free_ctx malloc_ok raw timeout rt =
     (let (ctx, rt1) = create raw rt
      in if ctx = 0 then (0, rt1)
         else let rt2 = (if \<not> raw then hide ctx rt1 else rt1)
              in case qjs_bun_state rt2 of
                   None \<Rightarrow> (ctx, rt2)
                 | Some st \<Rightarrow>
                     if \<not> malloc_ok then (0, free_ctx ctx rt2)
                     else (ctx, put_state (st\<lparr>contexts := \<lparr>bctx = ctx, timeout_ms = timeout\<rparr> # contexts st\<rparr>) rt2))"

definition qjs_bun_free_context :: "(addr \<Rightarrow> brt \<Rightarrow> brt) \<Rightarrow> addr \<Rightarrow> brt \<Rightarrow> qjsbun_context option \<times> brt" where
  "qjs_bun_free_context free_ctx ctx rt =
     (case qjs_bun_state rt of
        None \<Rightarrow> (None, free_ctx ctx rt)
      | Some st \<Rightarrow>
          (case unlink_entry ctx (contexts st) of
             None \<Rightarrow> (None, free_ctx ctx rt)
           | Some (entry, rest) \<Rightarrow> (Some entry, free_ctx ctx (put_state (st\<lparr>contexts := rest\<rparr>) rt))))"

text \<open>Distinct contexts have one entry each.\<close>

definition registry_ok :: "brt \<Rightarrow> bool" where
  "registry_ok rt \<longleftrightarrow> distinct (map bctx (contexts (interrupt_opaque rt)))"

text \<open>The timeout the bridge would use for a context, read off the entries without moving them.\<close>

definition timeout_of :: "brt \<Rightarrow> addr \<Rightarrow> ms option" where
  "timeout_of rt = map_of (map (\<lambda>c. (bctx c, timeout_ms c)) (contexts (interrupt_opaque rt)))"

lemma timeout_of_None: "timeout_of rt c = None \<longleftrightarrow> c \<notin> bctx ` set (contexts (interrupt_opaque rt))"
  by (force simp: timeout_of_def map_of_eq_None_iff)

lemma fst_qjs_bun_timeout:
  assumes "interrupt_handler rt = BUN_INTERRUPT" and "qjs_bun_timeout ctx rt = (t, rt')"
  shows "t = (case timeout_of rt ctx of Some t0 \<Rightarrow> t0 | None \<Rightarrow> PInf)"
proof (cases "unlink_entry ctx (contexts (interrupt_opaque rt))")
  case None
  then have "timeout_of rt ctx = None" by (simp add: timeout_of_None unlink_entry_None)
  with None assms show ?thesis by (auto simp: qjs_bun_timeout_def qjs_bun_state_def)
next
  case (Some er)
  obtain e rest where "er = (e, rest)" by fastforce
  with Some assms unlink_entry_map_of [of ctx "contexts (interrupt_opaque rt)" e rest] show ?thesis
    by (auto simp: qjs_bun_timeout_def qjs_bun_state_def timeout_of_def)
qed

section \<open>Module and promise callbacks\<close>

definition BUN_LOADER_TRAMPOLINE :: cptr where
  "BUN_LOADER_TRAMPOLINE = 5"

definition BUN_NORMALIZER_TRAMPOLINE :: cptr where
  "BUN_NORMALIZER_TRAMPOLINE = 6"

definition BUN_REJECTION_TRAMPOLINE :: cptr where
  "BUN_REJECTION_TRAMPOLINE = 7"

text \<open>The address of the host state, the loader's opaque pointer.\<close>

definition BUN_STATE :: cptr where
  "BUN_STATE = 9"

definition qjs_bun_set_module_loader :: "cptr \<Rightarrow> cptr \<Rightarrow> brt \<Rightarrow> brt" where
  "qjs_bun_set_module_loader loader normalizer rt =
     (case qjs_bun_state rt of
        None \<Rightarrow> rt
      | Some st \<Rightarrow>
          JS_SetModuleLoaderFunc2
            (if normalizer \<noteq> 0 then BUN_NORMALIZER_TRAMPOLINE else 0)
            (if loader \<noteq> 0 then BUN_LOADER_TRAMPOLINE else 0) 0 BUN_STATE
            (put_state (st\<lparr>module_loader := loader, module_normalizer := normalizer\<rparr>) rt))"

text \<open>
  The calls the trampolines make: \<open>host f args\<close> is the call of the host function at \<open>f\<close>.
\<close>

definition qjs_bun_module_loader_trampoline ::
    "(cptr \<Rightarrow> addr \<Rightarrow> string \<Rightarrow> jsval \<Rightarrow> addr) \<Rightarrow> qjsbun_runtime \<Rightarrow> addr \<Rightarrow> string \<Rightarrow> jsval \<Rightarrow> addr" where
  "qjs_bun_module_loader_trampoline host st ctx name attributes = host (module_loader st) ctx name attributes"

definition qjs_bun_module_normalizer_trampoline ::
    "(cptr \<Rightarrow> addr \<Rightarrow> string \<Rightarrow> string \<Rightarrow> addr) \<Rightarrow> qjsbun_runtime \<Rightarrow> addr \<Rightarrow> string \<Rightarrow> string \<Rightarrow> addr" where
  "qjs_bun_module_normalizer_trampoline host st ctx base name = host (module_normalizer st) ctx base name"

definition qjs_bun_set_promise_rejection_tracker :: "cptr \<Rightarrow> brt \<Rightarrow> brt" where
  "qjs_bun_set_promise_rejection_tracker tracker rt =
     JS_SetHostPromiseRejectionTracker (if tracker \<noteq> 0 then BUN_REJECTION_TRAMPOLINE else 0) tracker rt"

text \<open>The tracker's address is the opaque pointer itself.\<close>

definition qjs_bun_promise_rejection_trampoline ::
    "(cptr \<Rightarrow> addr \<Rightarrow> jsval \<Rightarrow> jsval \<Rightarrow> bool \<Rightarrow> 'r) \<Rightarrow> cptr \<Rightarrow> addr \<Rightarrow> jsval \<Rightarrow> jsval \<Rightarrow> bool \<Rightarrow> 'r" where
  "qjs_bun_promise_rejection_trampoline host opq ctx promise reason is_handled =
     host opq ctx promise reason is_handled"

section \<open>Pending jobs\<close>

definition qjs_bun_execute_pending_job ::
    "(rat \<Rightarrow> ms) \<Rightarrow> error_ops \<Rightarrow> (cptr \<Rightarrow> addr \<Rightarrow> jsval list \<Rightarrow> brt \<Rightarrow> jsval \<times> brt) \<Rightarrow>
     (addr \<Rightarrow> brt \<Rightarrow> brt) \<Rightarrow> ms \<Rightarrow> ms \<Rightarrow> ms \<Rightarrow> brt \<Rightarrow> int \<times> addr \<times> brt" where
  "qjs_bun_execute_pending_job rnd ops run free_ctx now0 now1 timeout rt =
     (let (scope, rt1) = qjs_bun_enter rnd now0 timeout rt;
          (ret, pctx, rt2) = JS_ExecutePendingJob run free_ctx rt1
      in if has_state scope
         then let rt3 = set_deadline (saved_ms scope) rt2
              in if ret < 0 \<and> pctx \<noteq> 0 \<and> ms_ge now1 (own_ms scope)
                 then (ret, pctx, qjs_bun_throw_timeout ops rt3) else (ret, pctx, rt3)
         else (ret, pctx, rt2))"

text \<open>The job the bridge enqueues calls its first argument with the others.\<close>

definition qjs_bun_job :: "(jsval \<Rightarrow> jsval \<Rightarrow> jsval list \<Rightarrow> brt \<Rightarrow> jsval \<times> brt) \<Rightarrow> jsval list \<Rightarrow> brt \<Rightarrow> (jsval \<times> brt) option" where
  "qjs_bun_job js_call argv rt =
     (case argv of [] \<Rightarrow> None | f # args \<Rightarrow> Some (js_call f JS_Undefined args rt))"

definition BUN_JOB :: cptr where
  "BUN_JOB = 8"

definition qjs_bun_enqueue_job ::
    "(brt \<Rightarrow> brt) \<Rightarrow> addr \<Rightarrow> addr \<Rightarrow> jsval list \<Rightarrow> brt \<Rightarrow> int \<times> brt" where
  "qjs_bun_enqueue_job oom e ctx argv rt = JS_EnqueueJob oom e ctx BUN_JOB argv rt"

end
