(* ===== verification/BridgeOps.thy ===== *)
theory BridgeOps
  imports Bridge
begin

text \<open>
  The operations the bridge exports on top of its runtimes (\<open>src/native/quickjs_bridge.c\<close>):
  host functions and host array buffers with the slots the guest's objects own, evaluation and
  calls under a time limit, \<open>import.meta\<close>, the buffer protocol of \<open>qjs_bun_own_keys\<close>, the
  prototype walk of \<open>qjs_bun_get_data_property\<close>, and the table of exported symbols. Engine
  functions outside the model are arguments.
\<close>

section \<open>Host slots\<close>

record QJSBunHostSlot =
  callback :: cptr
  host_id :: u32

record QJSBunHostRequest =
  req_kind :: u32
  req_host_id :: u32
  req_ctx :: addr
  req_argc :: u32
  req_flags :: u32
  req_this :: jsval
  req_argv :: "jsval list"
  req_out :: jsval

text \<open>The runtime with the slots allocated in it, by address.\<close>

record bworld =
  world_rt :: brt
  slots :: "cptr \<Rightarrow> QJSBunHostSlot option"

text \<open>A call of the host function at an address: it fills in the request's result.\<close>

type_synonym host_fn = "cptr \<Rightarrow> QJSBunHostRequest \<Rightarrow> bworld \<Rightarrow> QJSBunHostRequest \<times> bworld"

text \<open>None is a read through a slot that was freed. \<open>throw_internal\<close> is \<open>JS_ThrowInternalError\<close>.\<close>

definition qjs_bun_host_call ::
    "(string \<Rightarrow> brt \<Rightarrow> jsval \<times> brt) \<Rightarrow> host_fn \<Rightarrow> u32 \<Rightarrow> addr \<Rightarrow> jsval \<Rightarrow> jsval \<Rightarrow> jsval list \<Rightarrow> u32 \<Rightarrow>
     bworld \<Rightarrow> (jsval \<times> bworld) option" where
  "qjs_bun_host_call throw_internal host host_class_id ctx func_obj this_val argv flags w =
     (let p = JS_GetOpaque func_obj (unat host_class_id) (world_rt w)
      in if p = 0
         then let (v, rt1) = throw_internal ''host function is not initialized'' (world_rt w)
              in Some (v, w\<lparr>world_rt := rt1\<rparr>)
         else (case slots w p of
                 None \<Rightarrow> None
               | Some slot \<Rightarrow>
                   let (req, w1) = host (callback slot)
                         \<lparr>req_kind = 0, req_host_id = host_id slot, req_ctx = ctx,
                          req_argc = word_of_nat (length argv), req_flags = flags, req_this = this_val,
                          req_argv = argv, req_out = JS_Undefined\<rparr> w
                   in Some (req_out req, w1)))"

definition finalize_request :: "QJSBunHostSlot \<Rightarrow> QJSBunHostRequest" where
  "finalize_request slot =
     \<lparr>req_kind = 1, req_host_id = host_id slot, req_ctx = 0, req_argc = 0, req_flags = 0,
      req_this = JS_Undefined, req_argv = [], req_out = JS_Undefined\<rparr>"

text \<open>\<open>js_free_rt\<close> of a slot; freeing what is not allocated is an error.\<close>

definition free_slot :: "cptr \<Rightarrow> bworld \<Rightarrow> bworld option" where
  "free_slot p w = (if slots w p = None then None else Some (w\<lparr>slots := (slots w)(p := None)\<rparr>))"

definition qjs_bun_host_finalizer :: "host_fn \<Rightarrow> u32 \<Rightarrow> jsval \<Rightarrow> bworld \<Rightarrow> bworld option" where
  "qjs_bun_host_finalizer host host_class_id v w =
     (let p = JS_GetOpaque v (unat host_class_id) (world_rt w)
      in if p = 0 then Some w
         else (case slots w p of
                 None \<Rightarrow> None
               | Some slot \<Rightarrow> free_slot p (snd (host (callback slot) (finalize_request slot) w))))"

definition qjs_bun_array_buffer_free :: "host_fn \<Rightarrow> cptr \<Rightarrow> addr \<Rightarrow> bworld \<Rightarrow> bworld option" where
  "qjs_bun_array_buffer_free host opq ptr w =
     (if ptr = 0 then Some w
      else (case slots w opq of
              None \<Rightarrow> None
            | Some slot \<Rightarrow> free_slot opq (snd (host (callback slot) (finalize_request slot) w))))"

text \<open>
  The release of an object whose class is the one of host functions: the last reference runs the finalizer
  that the class was registered with, before the block is freed.
\<close>

definition free_host_object :: "host_fn \<Rightarrow> u32 \<Rightarrow> jsval \<Rightarrow> bworld \<Rightarrow> bworld option" where
  "free_host_object host host_class_id v w =
     (let rt1 = JS_FreeValue v (world_rt w); cid = JS_GetClassID v rt1; w1 = w\<lparr>world_rt := rt1\<rparr>
      in if rc rt1 (js_ptr v) \<le> 0 \<and> cid < length (class_array rt1) \<and> finalizer (class_array rt1 ! cid) = BUN_HOST_FINALIZER
         then qjs_bun_host_finalizer host host_class_id v w1
         else Some w1)"

text \<open>
  \<open>new_object\<close> is \<open>JS_NewObjectProtoClass\<close> with the function prototype, \<open>slot_at\<close> the
  address the allocator returned (0 on failure), \<open>def_prop\<close> the definition of a property by
  name, which consumes the value. None is a finalizer that read a freed slot.
\<close>

definition qjs_bun_new_host_function ::
    "(brt \<Rightarrow> jsval \<times> brt) \<Rightarrow> cptr \<Rightarrow> (jsval \<Rightarrow> string \<Rightarrow> jsval \<Rightarrow> brt \<Rightarrow> int \<times> brt) \<Rightarrow> (brt \<Rightarrow> jsval \<times> brt) \<Rightarrow>
     host_fn \<Rightarrow> u32 \<Rightarrow> cptr \<Rightarrow> u32 \<Rightarrow> bworld \<Rightarrow> (jsval \<times> bworld) option" where
  "qjs_bun_new_host_function new_object slot_at def_prop empty_string host host_class_id cb hid w =
     (let (fn, rt1) = new_object (world_rt w)
      in if JS_IsException fn then Some (fn, w\<lparr>world_rt := rt1\<rparr>)
         else if slot_at = 0
         then map_option (\<lambda>w1. (JS_Exception, w1)) (free_host_object host host_class_id fn (w\<lparr>world_rt := rt1\<rparr>))
         else
           let w1 = w\<lparr>slots := (slots w)(slot_at := Some \<lparr>callback = cb, host_id = hid\<rparr>)\<rparr>;
               rt2 = JS_SetOpaque fn slot_at rt1;
               (r1, rt3) = def_prop fn ''length'' (JS_Int 0) rt2;
               (r2, rt5) = (if r1 < 0 then (r1, rt3)
                            else let (s, rt4) = empty_string rt3 in def_prop fn ''name'' s rt4)
           in if r2 < 0
              then map_option (\<lambda>w2. (JS_Exception, w2)) (free_host_object host host_class_id fn (w1\<lparr>world_rt := rt5\<rparr>))
              else Some (fn, w1\<lparr>world_rt := rt5\<rparr>))"

text \<open>A host function that owns its slot, and one that nobody else refers to yet.\<close>

definition owns_slot :: "u32 \<Rightarrow> addr \<Rightarrow> cptr \<Rightarrow> QJSBunHostSlot \<Rightarrow> bworld \<Rightarrow> bool" where
  "owns_slot host_class_id p a slot w \<longleftrightarrow>
     a \<noteq> 0 \<and> objects (world_rt w) p = \<lparr>obj_class_id = unat host_class_id, opaque = a\<rparr> \<and> slots w a = Some slot"

definition fresh_host_object :: "u32 \<Rightarrow> addr \<Rightarrow> cptr \<Rightarrow> brt \<Rightarrow> bool" where
  "fresh_host_object host_class_id p a rt \<longleftrightarrow>
     objects rt p = \<lparr>obj_class_id = unat host_class_id, opaque = a\<rparr> \<and> rc rt p = 1
     \<and> unat host_class_id < length (class_array rt) \<and> finalizer (class_array rt ! unat host_class_id) = BUN_HOST_FINALIZER"

lemma host_call_owned:
  assumes "owns_slot hc p a slot w"
  shows "\<exists>req. req_kind req = 0 \<and> req_host_id req = host_id slot \<and> req_ctx req = ctx \<and> req_this req = this_val \<and> req_argv req = argv
    \<and> req_argc req = word_of_nat (length argv) \<and> req_flags req = flags
    \<and> qjs_bun_host_call throw_internal host hc ctx (JS_Object p) this_val argv flags w =
        Some (req_out (fst (host (callback slot) req w)), snd (host (callback slot) req w))"
  using assms
  by (intro exI [of _ "\<lparr>req_kind = 0, req_host_id = host_id slot, req_ctx = ctx, req_argc = word_of_nat (length argv),
      req_flags = flags, req_this = this_val, req_argv = argv, req_out = JS_Undefined\<rparr>"])
    (simp add: qjs_bun_host_call_def owns_slot_def JS_GetOpaque_def prod.case_eq_if)

lemma host_finalizer_owned:
  assumes "owns_slot hc p a slot w" and "slots (snd (host (callback slot) (finalize_request slot) w)) a = slots w a"
  shows "qjs_bun_host_finalizer host hc (JS_Object p) w =
    (let w1 = snd (host (callback slot) (finalize_request slot) w) in Some (w1\<lparr>slots := (slots w1)(a := None)\<rparr>))"
  using assms by (simp add: qjs_bun_host_finalizer_def owns_slot_def JS_GetOpaque_def free_slot_def Let_def)

text \<open>Releasing a fresh object frees it, and its slot if it has one.\<close>

lemma free_fresh_object:
  assumes "fresh_host_object hc p a (world_rt w)"
  shows "free_host_object host hc (JS_Object p) w =
    qjs_bun_host_finalizer host hc (JS_Object p) (w\<lparr>world_rt := JS_FreeValue (JS_Object p) (world_rt w)\<rparr>)"
    "p \<in> set (released (JS_FreeValue (JS_Object p) (world_rt w)))"
    "objects (JS_FreeValue (JS_Object p) (world_rt w)) p = objects (world_rt w) p"
  using assms
  by (simp_all add: fresh_host_object_def free_host_object_def JS_FreeValue_def has_ref_count_iff JS_GetClassID_def Let_def)

text \<open>\<open>new_buffer p\<close> is \<open>JS_NewArrayBuffer\<close> with the slot as its opaque pointer.\<close>

definition qjs_bun_new_array_buffer ::
    "(cptr \<Rightarrow> brt \<Rightarrow> jsval \<times> brt) \<Rightarrow> cptr \<Rightarrow> cptr \<Rightarrow> u32 \<Rightarrow> bworld \<Rightarrow> jsval \<times> bworld" where
  "qjs_bun_new_array_buffer new_buffer slot_at cb hid w =
     (if slot_at = 0 then (JS_Exception, w)
      else
        let w1 = w\<lparr>slots := (slots w)(slot_at := Some \<lparr>callback = cb, host_id = hid\<rparr>)\<rparr>;
            (out, rt1) = new_buffer slot_at (world_rt w1);
            w2 = w1\<lparr>world_rt := rt1\<rparr>
        in if JS_IsException out then (out, w2\<lparr>slots := (slots w2)(slot_at := None)\<rparr>) else (out, w2))"

section \<open>Intrinsics\<close>

datatype intrinsic =
    BaseObjects | Date | Eval | StringNormalize | RegExp | RegExpCompiler | JSON | Proxy | MapSet
  | TypedArrays | Promise | WeakRef

definition qjs_bun_add_intrinsic ::
    "(intrinsic \<Rightarrow> brt \<Rightarrow> int \<times> brt) \<Rightarrow> (brt \<Rightarrow> brt) \<Rightarrow> int \<Rightarrow> brt \<Rightarrow> int \<times> brt" where
  "qjs_bun_add_intrinsic add hide_atomics i rt =
     (if i = 0 then add BaseObjects rt
      else if i = 1 then add Date rt
      else if i = 2 then add Eval rt
      else if i = 3 then add StringNormalize rt
      else if i = 4 then add RegExp rt
      else if i = 5 then (0, snd (add RegExpCompiler rt))
      else if i = 6 then add JSON rt
      else if i = 7 then add Proxy rt
      else if i = 8 then add MapSet rt
      else if i = 9 then
        let (ret, rt1) = add TypedArrays rt
        in if ret \<ge> 0 then (ret, hide_atomics rt1) else (ret, rt1)
      else if i = 10 then add Promise rt
      else if i = 11 then add WeakRef rt
      else (-1, rt))"

section \<open>Modules and evaluation\<close>

text \<open>
  The engine functions these use. \<open>mo_define\<close> consumes the value it is given;
  \<open>mo_module_name\<close> is the name atom of a module turned into a C string (None on failure),
  with the atom freed; \<open>mo_eval\<close> takes the \<open>this\<close> value, the source and the flags.
\<close>

record module_ops =
  mo_throw_type_error :: "string \<Rightarrow> brt \<Rightarrow> brt"
  mo_throw_internal_error :: "string \<Rightarrow> brt \<Rightarrow> jsval \<times> brt"
  mo_module_name :: "addr \<Rightarrow> brt \<Rightarrow> string option \<times> brt"
  mo_free_cstring :: "string \<Rightarrow> brt \<Rightarrow> brt"
  mo_new_string :: "string \<Rightarrow> brt \<Rightarrow> jsval \<times> brt"
  mo_import_meta :: "addr \<Rightarrow> brt \<Rightarrow> jsval \<times> brt"
  mo_define :: "jsval \<Rightarrow> string \<Rightarrow> jsval \<Rightarrow> brt \<Rightarrow> int \<times> brt"
  mo_eval :: "jsval \<Rightarrow> string \<Rightarrow> u32 \<Rightarrow> brt \<Rightarrow> jsval \<times> brt"
  mo_eval_function :: "jsval \<Rightarrow> jsval \<Rightarrow> brt \<Rightarrow> jsval \<times> brt"

definition import_meta_url :: "string \<Rightarrow> string" where
  "import_meta_url name = (if CHR '':'' \<in> set name then name else ''file://'' @ name)"

definition qjs_bun_set_import_meta ::
    "module_ops \<Rightarrow> bool \<Rightarrow> jsval \<Rightarrow> bool \<Rightarrow> brt \<Rightarrow> int \<times> brt" where
  "qjs_bun_set_import_meta mo malloc_ok v is_main rt =
     (case v of
        JS_Module m \<Rightarrow>
          (case mo_module_name mo m rt of
             (None, rt1) \<Rightarrow> (-1, rt1)
           | (Some name, rt1) \<Rightarrow>
               if CHR '':'' \<notin> set name \<and> \<not> malloc_ok then (-1, mo_free_cstring mo name rt1)
               else
                 let (url, rt2) = mo_new_string mo (import_meta_url name) rt1;
                     rt3 = mo_free_cstring mo name rt2
                 in if JS_IsException url then (-1, rt3)
                    else
                      let (meta, rt4) = mo_import_meta mo m rt3
                      in if JS_IsException meta then (-1, JS_FreeValue url rt4)
                         else
                           let (r1, rt5) = mo_define mo meta ''url'' url rt4;
                               (r2, rt6) = (if r1 \<ge> 0 then mo_define mo meta ''main'' (JS_Bool is_main) rt5
                                            else (r1, rt5));
                               rt7 = JS_FreeValue meta rt6
                           in (if r2 < 0 then -1 else 0, rt7))
      | _ \<Rightarrow> (-1, mo_throw_type_error mo ''value is not a module'' rt))"

definition JS_EVAL_TYPE_MASK :: u32 where "JS_EVAL_TYPE_MASK = 3"
definition JS_EVAL_TYPE_MODULE :: u32 where "JS_EVAL_TYPE_MODULE = 1"
definition JS_EVAL_FLAG_COMPILE_ONLY :: u32 where "JS_EVAL_FLAG_COMPILE_ONLY = 32"

text \<open>The module's address, 0 on failure; a module stays alive in the context's module list.\<close>

definition qjs_bun_compile_module ::
    "module_ops \<Rightarrow> bool \<Rightarrow> jsval \<Rightarrow> string \<Rightarrow> brt \<Rightarrow> addr \<times> brt" where
  "qjs_bun_compile_module mo malloc_ok global_obj source rt =
     (let (v, rt1) = mo_eval mo global_obj source (JS_EVAL_TYPE_MODULE OR JS_EVAL_FLAG_COMPILE_ONLY) rt
      in if JS_IsException v then (0, rt1)
         else let (r, rt2) = qjs_bun_set_import_meta mo malloc_ok v False rt1
              in if r < 0 then (0, JS_FreeValue v rt2) else (js_ptr v, JS_FreeValue v rt2))"

definition eval_body ::
    "module_ops \<Rightarrow> bool \<Rightarrow> jsval option \<Rightarrow> jsval \<Rightarrow> string \<Rightarrow> u32 \<Rightarrow> brt \<Rightarrow> jsval \<times> brt" where
  "eval_body mo malloc_ok this_val global_obj source flags rt =
     (let is_module = (flags AND JS_EVAL_TYPE_MASK = JS_EVAL_TYPE_MODULE);
          compile_only = (flags AND JS_EVAL_FLAG_COMPILE_ONLY \<noteq> 0);
          (out, rt1) = mo_eval mo (case this_val of Some v \<Rightarrow> v | None \<Rightarrow> global_obj) source
                         (if is_module then flags OR JS_EVAL_FLAG_COMPILE_ONLY else flags) rt
      in if is_module \<and> \<not> JS_IsException out
         then let (r, rt2) = qjs_bun_set_import_meta mo malloc_ok out True rt1
              in if r < 0 then (JS_Exception, JS_FreeValue out rt2)
                 else if \<not> compile_only then mo_eval_function mo out global_obj rt2
                 else (out, rt2)
         else (out, rt1))"

text \<open>An exported operation with a timeout of its own.\<close>

definition timed_out ::
    "(rat \<Rightarrow> ms) \<Rightarrow> error_ops \<Rightarrow> ms \<Rightarrow> ms \<Rightarrow> ms \<Rightarrow> (brt \<Rightarrow> jsval \<times> brt) \<Rightarrow> brt \<Rightarrow> jsval \<times> brt" where
  "timed_out rnd ops now0 now1 timeout expr rt =
     (let (scope, rt1) = qjs_bun_enter rnd now0 timeout rt;
          (out, rt2) = expr rt1
      in (out, snd (qjs_bun_leave ops now1 scope (JS_IsException out) rt2)))"

definition qjs_bun_eval ::
    "(rat \<Rightarrow> ms) \<Rightarrow> error_ops \<Rightarrow> ms \<Rightarrow> ms \<Rightarrow> module_ops \<Rightarrow> bool \<Rightarrow> jsval option \<Rightarrow> jsval \<Rightarrow> string \<Rightarrow> u32 \<Rightarrow> ms \<Rightarrow>
     brt \<Rightarrow> jsval \<times> brt" where
  "qjs_bun_eval rnd ops now0 now1 mo malloc_ok this_val global_obj source flags timeout rt =
     timed_out rnd ops now0 now1 timeout (eval_body mo malloc_ok this_val global_obj source flags) rt"

definition qjs_bun_eval_function ::
    "(rat \<Rightarrow> ms) \<Rightarrow> error_ops \<Rightarrow> ms \<Rightarrow> ms \<Rightarrow> module_ops \<Rightarrow> jsval \<Rightarrow> jsval \<Rightarrow> ms \<Rightarrow> brt \<Rightarrow> jsval \<times> brt" where
  "qjs_bun_eval_function rnd ops now0 now1 mo global_obj fn timeout rt =
     timed_out rnd ops now0 now1 timeout
       (\<lambda>r. let (f, r1) = JS_DupValue fn r in mo_eval_function mo f global_obj r1) rt"

text \<open>\<open>js_call\<close> and the others are the engine's functions of the same names; they borrow.\<close>

definition qjs_bun_call ::
    "(rat \<Rightarrow> ms) \<Rightarrow> error_ops \<Rightarrow> ms \<Rightarrow> ms \<Rightarrow> (jsval \<Rightarrow> jsval \<Rightarrow> jsval list \<Rightarrow> brt \<Rightarrow> jsval \<times> brt) \<Rightarrow>
     jsval \<Rightarrow> jsval \<Rightarrow> jsval list \<Rightarrow> ms \<Rightarrow> brt \<Rightarrow> jsval \<times> brt" where
  "qjs_bun_call rnd ops now0 now1 js_call fn this_val argv timeout rt =
     timed_out rnd ops now0 now1 timeout (js_call fn this_val argv) rt"

definition qjs_bun_invoke ::
    "(rat \<Rightarrow> ms) \<Rightarrow> error_ops \<Rightarrow> ms \<Rightarrow> ms \<Rightarrow> (jsval \<Rightarrow> u32 \<Rightarrow> jsval list \<Rightarrow> brt \<Rightarrow> jsval \<times> brt) \<Rightarrow>
     jsval \<Rightarrow> u32 \<Rightarrow> jsval list \<Rightarrow> ms \<Rightarrow> brt \<Rightarrow> jsval \<times> brt" where
  "qjs_bun_invoke rnd ops now0 now1 js_invoke this_val atom argv timeout rt =
     timed_out rnd ops now0 now1 timeout (js_invoke this_val atom argv) rt"

definition qjs_bun_call_constructor ::
    "(rat \<Rightarrow> ms) \<Rightarrow> error_ops \<Rightarrow> ms \<Rightarrow> ms \<Rightarrow> (jsval \<Rightarrow> jsval list \<Rightarrow> brt \<Rightarrow> jsval \<times> brt) \<Rightarrow>
     (jsval \<Rightarrow> jsval \<Rightarrow> jsval list \<Rightarrow> brt \<Rightarrow> jsval \<times> brt) \<Rightarrow> jsval \<Rightarrow> jsval option \<Rightarrow> jsval list \<Rightarrow> ms \<Rightarrow>
     brt \<Rightarrow> jsval \<times> brt" where
  "qjs_bun_call_constructor rnd ops now0 now1 js_construct js_construct2 fn new_target argv timeout rt =
     timed_out rnd ops now0 now1 timeout
       (case new_target of Some t \<Rightarrow> js_construct2 fn t argv | None \<Rightarrow> js_construct fn argv) rt"

definition qjs_bun_get_module_namespace ::
    "module_ops \<Rightarrow> (addr \<Rightarrow> brt \<Rightarrow> jsval \<times> brt) \<Rightarrow> bool \<Rightarrow> addr \<Rightarrow> brt \<Rightarrow> jsval \<times> brt" where
  "qjs_bun_get_module_namespace mo get_namespace func_created m rt =
     (if func_created then get_namespace m rt
      else mo_throw_internal_error mo ''module is not instantiated'' rt)"

definition qjs_bun_set_module_export ::
    "module_ops \<Rightarrow> (addr \<Rightarrow> string \<Rightarrow> jsval \<Rightarrow> brt \<Rightarrow> int \<times> brt) \<Rightarrow> bool \<Rightarrow> addr \<Rightarrow> string \<Rightarrow> jsval \<Rightarrow> brt \<Rightarrow> int \<times> brt" where
  "qjs_bun_set_module_export mo set_export func_created m name v rt =
     (if \<not> func_created then (-1, snd (mo_throw_internal_error mo ''module is not instantiated'' rt))
      else let (w, rt1) = JS_DupValue v rt in set_export m name w rt1)"

definition qjs_bun_value_to_atom ::
    "(rat \<Rightarrow> ms) \<Rightarrow> error_ops \<Rightarrow> ms \<Rightarrow> ms \<Rightarrow> (jsval \<Rightarrow> brt \<Rightarrow> u32 \<times> brt) \<Rightarrow> addr \<Rightarrow> jsval \<Rightarrow> brt \<Rightarrow> u32 \<times> brt" where
  "qjs_bun_value_to_atom rnd ops now0 now1 to_atom ctx v rt =
     (let (t, rt1) = qjs_bun_timeout ctx rt;
          (scope, rt2) = qjs_bun_enter rnd now0 t rt1;
          (atom, rt3) = to_atom v rt2
      in (atom, snd (qjs_bun_leave ops now1 scope (atom = 0) rt3)))"

end
