(* ===== verification/BridgeData.thy ===== *)
theory BridgeData
  imports BridgeOps
begin

text \<open>
  The exported operations of \<open>src/native/quickjs_bridge.c\<close> that copy data out of the guest:
  the text and key buffers, the prototype walk that reads a property without running guest
  code, the classification of values, the print options and the symbol table. The walk is
  stated over an interface to the engine's property access, which the ordinary objects below
  implement.
\<close>

section \<open>Text and key buffers\<close>

text \<open>
  A text is its bytes. \<open>to_text v rt\<close> is \<open>JS_ToCStringLen\<close> (None when it threw) and
  \<open>free_text\<close> the release of the C string. The outer option is an access outside the buffer.
\<close>

definition qjs_bun_to_cstring_copy ::
    "(rat \<Rightarrow> ms) \<Rightarrow> error_ops \<Rightarrow> ms \<Rightarrow> ms \<Rightarrow> (jsval \<Rightarrow> brt \<Rightarrow> u8 list option \<times> brt) \<Rightarrow> (u8 list \<Rightarrow> brt \<Rightarrow> brt) \<Rightarrow>
     addr \<Rightarrow> jsval \<Rightarrow> u8 list \<Rightarrow> u64 \<Rightarrow> brt \<Rightarrow> (int \<times> u8 list \<times> brt) option" where
  "qjs_bun_to_cstring_copy rnd ops now0 now1 to_text free_text ctx v buf capacity rt =
     (let (t, rt1) = qjs_bun_timeout ctx rt;
          (scope, rt2) = qjs_bun_enter rnd now0 t rt1
      in case to_text v rt2 of
           (None, rt3) \<Rightarrow> Some (-1, buf, snd (qjs_bun_leave ops now1 scope True rt3))
         | (Some text, rt3) \<Rightarrow>
             let len = word_of_nat (length text) :: u64
             in map_option (\<lambda>buf'. (sint len, buf', snd (qjs_bun_leave ops now1 scope False (free_text text rt3))))
                  (if len \<le> capacity then blit buf 0 text else Some buf))"

text \<open>
  The loop over the property names: whether it finished, the bytes used (which keep counting
  past the capacity), the buffer and the runtime. \<open>atom_text\<close> is \<open>JS_AtomToCStringLen\<close>.
\<close>

fun own_keys_loop ::
    "(u32 \<Rightarrow> brt \<Rightarrow> u8 list option \<times> brt) \<Rightarrow> (u8 list \<Rightarrow> brt \<Rightarrow> brt) \<Rightarrow> u64 \<Rightarrow> u32 list \<Rightarrow> u64 \<Rightarrow> u8 list \<Rightarrow> brt \<Rightarrow>
     (bool \<times> u64 \<times> u8 list \<times> brt) option" where
  "own_keys_loop atom_text free_text capacity [] used buf rt = Some (True, used, buf, rt)"
| "own_keys_loop atom_text free_text capacity (a # as) used buf rt =
     (case atom_text a rt of
        (None, rt1) \<Rightarrow> Some (False, used, buf, rt1)
      | (Some text, rt1) \<Rightarrow>
          let len = word_of_nat (length text) :: u64
          in case (if used + 4 + len \<le> capacity
                   then (case blit buf (unat used) (le32 (ucast len)) of
                           None \<Rightarrow> None
                         | Some buf1 \<Rightarrow> blit buf1 (unat (used + 4)) text)
                   else Some buf) of
               None \<Rightarrow> None
             | Some buf' \<Rightarrow>
                 own_keys_loop atom_text free_text capacity as (used + 4 + len) buf' (free_text text rt1))"

text \<open>
  \<open>names rt\<close> is \<open>JS_GetOwnPropertyNames\<close> (None when it threw), \<open>free_names\<close> is
  \<open>JS_FreePropertyEnum\<close>.
\<close>

definition qjs_bun_own_keys ::
    "(rat \<Rightarrow> ms) \<Rightarrow> error_ops \<Rightarrow> ms \<Rightarrow> ms \<Rightarrow> (brt \<Rightarrow> u32 list option \<times> brt) \<Rightarrow> (u32 list \<Rightarrow> brt \<Rightarrow> brt) \<Rightarrow>
     (u32 \<Rightarrow> brt \<Rightarrow> u8 list option \<times> brt) \<Rightarrow> (u8 list \<Rightarrow> brt \<Rightarrow> brt) \<Rightarrow>
     addr \<Rightarrow> u8 list \<Rightarrow> u64 \<Rightarrow> brt \<Rightarrow> (int \<times> u8 list \<times> brt) option" where
  "qjs_bun_own_keys rnd ops now0 now1 names free_names atom_text free_text ctx buf capacity rt =
     (let (t, rt1) = qjs_bun_timeout ctx rt;
          (scope, rt2) = qjs_bun_enter rnd now0 t rt1
      in case names rt2 of
           (None, rt3) \<Rightarrow> Some (-1, buf, snd (qjs_bun_leave ops now1 scope True rt3))
         | (Some tab, rt3) \<Rightarrow>
             (case own_keys_loop atom_text free_text capacity tab 0 buf rt3 of
                None \<Rightarrow> None
              | Some (done, used, buf', rt4) \<Rightarrow>
                  let rt5 = free_names tab rt4;
                      ret = (if \<not> done then -1
                             else if used \<le> capacity then int (length tab) else - sint used)
                  in Some (ret, buf', snd (qjs_bun_leave ops now1 scope (ret = -1) rt5))))"

text \<open>What the buffer holds: each key as its length in four bytes and then its bytes.\<close>

definition encode_key :: "u8 list \<Rightarrow> u8 list" where
  "encode_key t = le32 (word_of_nat (length t)) @ t"

fun decode_keys :: "nat \<Rightarrow> u8 list \<Rightarrow> u8 list list option" where
  "decode_keys 0 bs = Some []"
| "decode_keys (Suc n) bs =
     (let len = unat (of_le (take 4 bs) :: u32)
      in if length bs < 4 + len then None
         else map_option ((#) (take len (drop 4 bs))) (decode_keys n (drop (4 + len) bs)))"

lemma length_encode_key [simp]: "length (encode_key t) = 4 + length t"
  by (simp add: encode_key_def)

lemma unat_length_u32: "length t < 2 ^ 32 \<Longrightarrow> unat (word_of_nat (length t) :: u32) = length t"
  by (simp add: unat_of_nat take_bit_nat_eq_self_iff)

lemma unat_length_u64: "length t < 2 ^ 64 \<Longrightarrow> unat (word_of_nat (length t) :: u64) = length t"
  by (simp add: unat_of_nat take_bit_nat_eq_self_iff)

text \<open>Reading the buffer back gives the keys, whatever follows them.\<close>

lemma decode_encode_keys:
  "\<forall>t \<in> set ts. length t < 2 ^ 32 \<Longrightarrow>
     decode_keys (length ts) (concat (map encode_key ts) @ rest) = Some ts"
  by (induction ts) (simp_all add: encode_key_def unat_length_u32 Let_def)

lemma ucast_length: "(ucast (word_of_nat n :: u64) :: u32) = word_of_nat n"
  by (rule bit_word_eqI) (auto simp: bit_simps)

lemma blit_blit:
  assumes "i + length a + length b \<le> length xs"
  shows "(case blit xs i a of None \<Rightarrow> None | Some ys \<Rightarrow> blit ys (i + length a) b) =
           Some (take i xs @ (a @ b) @ drop (i + length (a @ b)) xs)"
  using assms by (cases a) (auto simp: blit_def min_def ac_simps)

definition keys_size :: "u8 list list \<Rightarrow> nat" where
  "keys_size ts = length (concat (map encode_key ts))"

lemma keys_size_simps [simp]:
  "keys_size [] = 0" "keys_size (t # ts) = 4 + length t + keys_size ts"
  by (simp_all add: keys_size_def)

lemma own_keys_loop_ok:
  assumes "\<And>a r. a \<in> set as \<Longrightarrow> fst (atom_text a r) = Some (f a)"
    and "unat used + keys_size (map f as) < 2 ^ 63" and "unat capacity \<le> length buf"
  shows "\<exists>buf' rt'. own_keys_loop atom_text free_text capacity as used buf rt =
             Some (True, used + word_of_nat (keys_size (map f as)), buf', rt')
           \<and> length buf' = length buf \<and> drop (unat capacity) buf' = drop (unat capacity) buf
           \<and> (unat used + keys_size (map f as) \<le> unat capacity \<longrightarrow>
                take (unat used + keys_size (map f as)) buf' =
                take (unat used) buf @ concat (map (encode_key \<circ> f) as))"
  using assms
proof (induction as arbitrary: used buf rt)
  case Nil
  then show ?case by simp
next
  case (Cons a as)
  obtain rt1 where at: "atom_text a rt = (Some (f a), rt1)"
    using Cons.prems(1) [of a rt] by (cases "atom_text a rt") auto
  let ?t = "f a"
  define u where "u = used + 4 + word_of_nat (length ?t)"
  have u: "unat u = unat used + 4 + length ?t"
    using Cons.prems(2) unfolding u_def by (simp add: unat_word_ariths unat_of_nat)
  have u4: "unat (used + 4) = unat used + 4"
    using Cons.prems(2) by (simp add: unat_word_ariths)
  define buf1 where "buf1 = (if u \<le> capacity
      then take (unat used) buf @ encode_key ?t @ drop (unat u) buf else buf)"
  have step: "own_keys_loop atom_text free_text capacity (a # as) used buf rt =
      own_keys_loop atom_text free_text capacity as u buf1 (free_text ?t rt1)"
  proof (cases "u \<le> capacity")
    case True
    then have "unat used + length (le32 (word_of_nat (length ?t))) + length ?t \<le> length buf"
      using u Cons.prems(3) by (simp add: word_le_nat_alt)
    from blit_blit [OF this] show ?thesis
      using True u u4
      by (simp add: at buf1_def u_def ucast_length encode_key_def Let_def add.assoc split: option.split_asm)
  qed (simp add: at u_def buf1_def Let_def)
  have len: "length buf1 = length buf" and dr: "drop (unat capacity) buf1 = drop (unat capacity) buf"
    and tk: "unat u \<le> unat capacity \<Longrightarrow> take (unat u) buf1 = take (unat used) buf @ encode_key ?t"
    using u Cons.prems(3) by (auto simp: buf1_def word_le_nat_alt min_def)
  have sz: "unat u + keys_size (map f as) = unat used + keys_size (map f (a # as))"
    using u by simp
  obtain buf' rt' where r: "own_keys_loop atom_text free_text capacity as u buf1 (free_text ?t rt1) =
             Some (True, u + word_of_nat (keys_size (map f as)), buf', rt')"
      "length buf' = length buf1" "drop (unat capacity) buf' = drop (unat capacity) buf1"
      "unat u + keys_size (map f as) \<le> unat capacity \<longrightarrow>
         take (unat u + keys_size (map f as)) buf' =
         take (unat u) buf1 @ concat (map (encode_key \<circ> f) as)"
    using Cons.IH [of u buf1 "free_text ?t rt1"] Cons.prems len sz by fastforce
  have w: "u + word_of_nat (keys_size (map f as)) = used + word_of_nat (keys_size (map f (a # as)))"
    by (simp add: u_def)
  show ?case
  proof (intro exI conjI impI)
    show "own_keys_loop atom_text free_text capacity (a # as) used buf rt =
        Some (True, used + word_of_nat (keys_size (map f (a # as))), buf', rt')"
      using step r(1) w by metis
    show "take (unat used + keys_size (map f (a # as))) buf' =
        take (unat used) buf @ concat (map (encode_key \<circ> f) (a # as))"
      if "unat used + keys_size (map f (a # as)) \<le> unat capacity"
      using that r(4) tk unfolding sz [symmetric] by simp
  qed (use r len dr in simp_all)
qed

section \<open>Reading a property without running guest code\<close>

record JSPropertyDescriptor =
  desc_flags :: u32
  desc_value :: jsval
  desc_getter :: jsval
  desc_setter :: jsval

definition JS_PROP_GETSET :: u32 where
  "JS_PROP_GETSET = 16"

definition JS_CLASS_OBJECT :: nat where
  "JS_CLASS_OBJECT = 1"

text \<open>
  The walk, with \<open>get_own\<close> for \<open>JS_GetOwnProperty\<close> and \<open>get_proto\<close> for
  \<open>JS_GetPrototype\<close>. The loop ends when the chain does; fuel bounds the objects visited and
  None means it ran out. The result is the output value and the object still held.
\<close>

type_synonym get_own_fn = "jsval \<Rightarrow> u32 \<Rightarrow> brt \<Rightarrow> int \<times> JSPropertyDescriptor \<times> brt"
type_synonym get_proto_fn = "jsval \<Rightarrow> brt \<Rightarrow> jsval \<times> brt"

fun data_walk ::
    "get_own_fn \<Rightarrow> get_proto_fn \<Rightarrow> u32 \<Rightarrow> nat \<Rightarrow> jsval \<Rightarrow> brt \<Rightarrow> (jsval \<times> jsval \<times> brt) option" where
  "data_walk get_own get_proto atom 0 current rt = None"
| "data_walk get_own get_proto atom (Suc n) current rt =
     (let (ok, desc, rt1) = get_own current atom rt
      in if ok < 0 then Some (JS_Exception, current, rt1)
         else if ok \<noteq> 0 then
           let (out, rt2) = (if desc_flags desc AND JS_PROP_GETSET = 0 then JS_DupValue (desc_value desc) rt1
                             else (JS_Undefined, rt1))
           in Some (out, current,
                JS_FreeValue (desc_setter desc) (JS_FreeValue (desc_getter desc) (JS_FreeValue (desc_value desc) rt2)))
         else
           let (nxt, rt2) = get_proto current rt1;
               rt3 = JS_FreeValue current rt2
           in if JS_IsException nxt then Some (nxt, JS_Undefined, rt3)
              else if JS_GetClassID nxt rt3 \<noteq> JS_CLASS_OBJECT then Some (JS_Undefined, nxt, rt3)
              else data_walk get_own get_proto atom n nxt rt3)"

definition qjs_bun_get_data_property ::
    "(rat \<Rightarrow> ms) \<Rightarrow> error_ops \<Rightarrow> ms \<Rightarrow> ms \<Rightarrow> get_own_fn \<Rightarrow> get_proto_fn \<Rightarrow> nat \<Rightarrow> addr \<Rightarrow> jsval \<Rightarrow> u32 \<Rightarrow> brt \<Rightarrow>
     (jsval \<times> brt) option" where
  "qjs_bun_get_data_property rnd ops now0 now1 get_own get_proto fuel ctx obj atom rt =
     (let (t, rt1) = qjs_bun_timeout ctx rt;
          (scope, rt2) = qjs_bun_enter rnd now0 t rt1;
          (current, rt3) = JS_DupValue obj rt2
      in case data_walk get_own get_proto atom fuel current rt3 of
           None \<Rightarrow> None
         | Some (out, held, rt4) \<Rightarrow>
             Some (out, snd (qjs_bun_leave ops now1 scope (JS_IsException out) (JS_FreeValue held rt4))))"

section \<open>Classification, errors and print options\<close>

text \<open>
  \<open>norm_tag\<close> maps every float tag to \<open>JS_TAG_FLOAT64\<close>; the model has one float
  constructor. \<open>is_function\<close>, \<open>is_array\<close> (negative on an exception) and \<open>is_error\<close>
  are the engine's tests of an object.
\<close>

definition qjs_bun_type :: "(jsval \<Rightarrow> bool) \<Rightarrow> (jsval \<Rightarrow> int) \<Rightarrow> (jsval \<Rightarrow> bool) \<Rightarrow> jsval \<Rightarrow> int" where
  "qjs_bun_type is_function is_array is_error v =
     (case v of
        JS_Undefined \<Rightarrow> 0
      | JS_Null \<Rightarrow> 1
      | JS_Bool _ \<Rightarrow> 2
      | JS_Int _ \<Rightarrow> 3
      | JS_Float64 _ \<Rightarrow> 3
      | JS_BigInt _ \<Rightarrow> 4
      | JS_ShortBigInt _ \<Rightarrow> 4
      | JS_String _ \<Rightarrow> 5
      | JS_StringRope _ \<Rightarrow> 5
      | JS_Symbol _ \<Rightarrow> 6
      | JS_Object _ \<Rightarrow>
          if is_function v then 8
          else if is_array v < 0 then -1
          else if is_array v \<noteq> 0 then 9
          else if is_error v then 10 else 7
      | _ \<Rightarrow> -2)"

datatype error_kind = SyntaxError | TypeError | ReferenceError | RangeError | InternalError

definition qjs_bun_throw_error :: "(error_kind \<Rightarrow> string \<Rightarrow> brt \<Rightarrow> brt) \<Rightarrow> int \<Rightarrow> string \<Rightarrow> brt \<Rightarrow> brt" where
  "qjs_bun_throw_error throw kind message =
     throw (if kind = 0 then SyntaxError else if kind = 1 then TypeError
            else if kind = 2 then ReferenceError else if kind = 3 then RangeError else InternalError) message"

definition qjs_bun_set_opaque :: "u32 \<Rightarrow> jsval \<Rightarrow> cptr \<Rightarrow> brt \<Rightarrow> int \<times> brt" where
  "qjs_bun_set_opaque host_class_id obj opq rt =
     (let cid = JS_GetClassID obj rt
      in if cid < JS_CLASS_INIT_COUNT \<or> cid = unat host_class_id then (-1, rt)
         else (0, JS_SetOpaque obj opq rt))"

record JSPrintValueOptions =
  show_hidden :: bool
  raw_dump :: bool
  max_depth :: u32
  max_string_length :: u32
  max_item_count :: u32

definition overridden_options ::
    "JSPrintValueOptions \<Rightarrow> int \<Rightarrow> int \<Rightarrow> u32 \<Rightarrow> u32 \<Rightarrow> u32 \<Rightarrow> JSPrintValueOptions" where
  "overridden_options defaults hidden raw depth str_len items =
     (let o1 = (if hidden \<ge> 0 then defaults\<lparr>show_hidden := hidden \<noteq> 0\<rparr> else defaults);
          o2 = (if raw \<ge> 0 then o1\<lparr>raw_dump := raw \<noteq> 0\<rparr> else o1);
          o3 = (if depth \<noteq> -1 then o2\<lparr>max_depth := depth\<rparr> else o2);
          o4 = (if str_len \<noteq> -1 then o3\<lparr>max_string_length := str_len\<rparr> else o3)
      in if items \<noteq> -1 then o4\<lparr>max_item_count := items\<rparr> else o4)"

section \<open>The symbol table\<close>

definition qjs_bun_symbols :: "string list" where
  "qjs_bun_symbols = [
  ''JS_NewRuntime'', ''JS_FreeRuntime'', ''qjs_bun_new_runtime'', ''qjs_bun_free_runtime'',
  ''JS_SetRuntimeInfo'', ''JS_SetMemoryLimit'', ''JS_SetGCThreshold'', ''JS_SetMaxStackSize'',
  ''JS_UpdateStackTop'', ''JS_RunGC'', ''JS_SetRuntimeOpaque'', ''JS_GetRuntimeOpaque'',
  ''JS_ComputeMemoryUsage'', ''qjs_bun_dump_memory_usage'', ''JS_SetCanBlock'',
  ''JS_SetStripInfo'', ''JS_GetStripInfo'', ''JS_IsJobPending'', ''qjs_bun_execute_pending_job'',
  ''JS_NewClassID'', ''JS_NewClass'', ''qjs_bun_new_class'', ''JS_IsRegisteredClass'',
  ''qjs_bun_set_module_loader'', ''qjs_bun_set_promise_rejection_tracker'',
  ''JS_SetSharedArrayBufferFunctions'', ''JS_FreeAtomRT'', ''qjs_bun_dup_value_rt'',
  ''qjs_bun_free_value_rt'', ''qjs_bun_is_live_object'', ''JS_NewContext'', ''JS_NewContextRaw'',
  ''JS_FreeContext'', ''JS_DupContext'', ''JS_GetRuntime'', ''qjs_bun_new_context'',
  ''qjs_bun_free_context'', ''JS_SetContextOpaque'', ''JS_GetContextOpaque'',
  ''qjs_bun_add_intrinsic'', ''JS_AddIntrinsicBaseObjects'', ''JS_AddIntrinsicDate'',
  ''JS_AddIntrinsicEval'', ''JS_AddIntrinsicStringNormalize'', ''JS_AddIntrinsicRegExpCompiler'',
  ''JS_AddIntrinsicRegExp'', ''JS_AddIntrinsicJSON'', ''JS_AddIntrinsicProxy'',
  ''JS_AddIntrinsicMapSet'', ''JS_AddIntrinsicTypedArrays'', ''JS_AddIntrinsicPromise'',
  ''JS_AddIntrinsicWeakRef'', ''qjs_bun_get_global'', ''qjs_bun_get_class_proto'',
  ''qjs_bun_set_class_proto'', ''JS_GetScriptOrModuleName'', ''qjs_bun_eval'',
  ''qjs_bun_eval_function'', ''qjs_bun_call'', ''qjs_bun_invoke'', ''qjs_bun_call_constructor'',
  ''JS_DetectModule'', ''qjs_bun_parse_json'', ''qjs_bun_json_stringify'', ''qjs_bun_read_object'',
  ''qjs_bun_write_object'', ''qjs_bun_write_object2'', ''qjs_bun_get_exception'',
  ''JS_HasException'', ''qjs_bun_throw'', ''qjs_bun_throw_error'', ''qjs_bun_throw_out_of_memory'',
  ''JS_SetUncatchableException'', ''qjs_bun_dup_value'', ''qjs_bun_free_value'', ''qjs_bun_type'',
  ''qjs_bun_get_class_id'', ''qjs_bun_new_string_len'', ''qjs_bun_to_cstring_copy'',
  ''qjs_bun_to_cstring_len'', ''JS_FreeCString'', ''qjs_bun_new_bigint64'',
  ''qjs_bun_new_biguint64'', ''qjs_bun_new_bigint128'', ''qjs_bun_new_bigint_string'',
  ''qjs_bun_to_bigint128'', ''qjs_bun_new_symbol'', ''qjs_bun_new_object'',
  ''qjs_bun_new_object_proto'', ''qjs_bun_new_object_class'', ''qjs_bun_new_object_proto_class'',
  ''qjs_bun_new_array'', ''qjs_bun_new_date'', ''qjs_bun_date_value'', ''qjs_bun_new_error'',
  ''qjs_bun_new_promise'', ''qjs_bun_promise_state'', ''qjs_bun_promise_result'',
  ''qjs_bun_new_host_function'', ''qjs_bun_enqueue_job'', ''qjs_bun_new_atom_string'',
  ''qjs_bun_to_object'', ''qjs_bun_to_primitive'', ''qjs_bun_to_string'',
  ''qjs_bun_to_property_key'', ''qjs_bun_to_bool'', ''qjs_bun_to_float64'', ''qjs_bun_to_int32'',
  ''qjs_bun_to_int32_sat'', ''qjs_bun_to_uint32'', ''qjs_bun_to_int64'', ''qjs_bun_to_int64_ext'',
  ''qjs_bun_to_index'', ''qjs_bun_to_bigint64'', ''qjs_bun_strict_eq'', ''qjs_bun_same_value'',
  ''qjs_bun_same_value_zero'', ''qjs_bun_is_function'', ''qjs_bun_is_constructor'',
  ''qjs_bun_is_array'', ''qjs_bun_is_error'', ''qjs_bun_is_instance_of'',
  ''qjs_bun_ordinary_is_instance_of'', ''qjs_bun_set_constructor_bit'',
  ''qjs_bun_set_constructor'', ''qjs_bun_set_is_html_dda'', ''qjs_bun_get_property'',
  ''qjs_bun_get_property_internal'', ''qjs_bun_get_data_property'', ''qjs_bun_get_property_u32'',
  ''qjs_bun_set_property'', ''qjs_bun_set_property_internal'', ''qjs_bun_set_property_u32'',
  ''qjs_bun_set_property_i64'', ''qjs_bun_has_property'', ''qjs_bun_delete_property'',
  ''qjs_bun_define_property'', ''qjs_bun_define_property_value'',
  ''qjs_bun_define_property_value_u32'', ''qjs_bun_define_property_get_set'',
  ''qjs_bun_get_own_property'', ''qjs_bun_get_own_property_names'', ''JS_FreePropertyEnum'',
  ''qjs_bun_own_keys'', ''qjs_bun_get_prototype'', ''qjs_bun_set_prototype'',
  ''qjs_bun_is_extensible'', ''qjs_bun_prevent_extensions'', ''JS_NewAtomLen'', ''JS_NewAtom'',
  ''JS_NewAtomUInt32'', ''JS_DupAtom'', ''JS_FreeAtom'', ''JS_AtomToCStringLen'',
  ''qjs_bun_atom_to_value'', ''qjs_bun_atom_to_string'', ''qjs_bun_value_to_atom'',
  ''qjs_bun_get_opaque'', ''qjs_bun_get_opaque2'', ''qjs_bun_get_any_opaque'',
  ''qjs_bun_set_opaque'', ''qjs_bun_new_array_buffer'', ''qjs_bun_new_array_buffer_copy'',
  ''qjs_bun_get_array_buffer'', ''qjs_bun_detach_array_buffer'', ''qjs_bun_new_typed_array'',
  ''qjs_bun_get_typed_array_buffer'', ''qjs_bun_get_iterator'', ''qjs_bun_iterator_next'',
  ''qjs_bun_iterator_close'', ''JS_NewCModule'', ''JS_AddModuleExport'',
  ''qjs_bun_set_module_export'', ''JS_GetModuleName'', ''qjs_bun_get_import_meta'',
  ''qjs_bun_get_module_namespace'', ''qjs_bun_get_module_private_value'',
  ''qjs_bun_set_module_private_value'', ''qjs_bun_resolve_module'', ''qjs_bun_load_module'',
  ''qjs_bun_compile_module'', ''qjs_bun_print'', ''qjs_bun_timeout_error'',
  ''qjs_bun_enter_scope'', ''qjs_bun_leave_scope'', ''js_malloc'', ''js_free'', ''js_malloc_rt'',
  ''js_free_rt''
  ]"

text \<open>The index of the entry whose pointer is returned; None is NULL.\<close>

fun symbol_index :: "string list \<Rightarrow> string \<Rightarrow> nat option" where
  "symbol_index [] name = None"
| "symbol_index (s # ss) name =
     (if s = name then Some 0 else map_option Suc (symbol_index ss name))"

definition qjs_bun_symbol :: "string \<Rightarrow> nat option" where
  "qjs_bun_symbol name = symbol_index qjs_bun_symbols name"

section \<open>What the walk returns\<close>

text \<open>
  Objects as the walk sees them: \<open>own p a\<close> is the descriptor of an own property and
  \<open>proto p\<close> the prototype value. \<open>data_property\<close> is the value the walk is to find: that of
  the nearest own property, unless it is an accessor, along prototypes of plain class.
\<close>

inductive data_property ::
    "(addr \<Rightarrow> u32 \<Rightarrow> JSPropertyDescriptor option) \<Rightarrow> (addr \<Rightarrow> jsval) \<Rightarrow> (addr \<Rightarrow> js_object) \<Rightarrow> u32 \<Rightarrow>
     addr \<Rightarrow> jsval \<Rightarrow> bool"
  for own proto objs a where
  data: "own p a = Some d \<Longrightarrow> desc_flags d AND JS_PROP_GETSET = 0 \<Longrightarrow> data_property own proto objs a p (desc_value d)"
| accessor: "own p a = Some d \<Longrightarrow> desc_flags d AND JS_PROP_GETSET \<noteq> 0 \<Longrightarrow> data_property own proto objs a p JS_Undefined"
| inherited: "own p a = None \<Longrightarrow> proto p = JS_Object q \<Longrightarrow> obj_class_id (objs q) = JS_CLASS_OBJECT \<Longrightarrow>
     data_property own proto objs a q v \<Longrightarrow> data_property own proto objs a p v"
| chain_end: "own p a = None \<Longrightarrow> proto p \<noteq> JS_Exception \<Longrightarrow>
     (\<forall>q. proto p = JS_Object q \<longrightarrow> obj_class_id (objs q) \<noteq> JS_CLASS_OBJECT) \<Longrightarrow>
     data_property own proto objs a p JS_Undefined"

text \<open>Every value an object holds keeps its block alive.\<close>

definition counted :: "brt \<Rightarrow> jsval \<Rightarrow> bool" where
  "counted rt v \<longleftrightarrow> JS_VALUE_HAS_REF_COUNT v \<longrightarrow> 0 < rc rt (js_ptr v)"

definition refs_alive ::
    "(addr \<Rightarrow> u32 \<Rightarrow> JSPropertyDescriptor option) \<Rightarrow> (addr \<Rightarrow> jsval) \<Rightarrow> brt \<Rightarrow> bool" where
  "refs_alive own proto rt \<longleftrightarrow>
     (\<forall>p a d. own p a = Some d \<longrightarrow>
        counted rt (desc_value d) \<and> counted rt (desc_getter d) \<and> counted rt (desc_setter d))
     \<and> (\<forall>p. counted rt (proto p))"

abbreviation dup1 :: "jsval \<Rightarrow> brt \<Rightarrow> brt" where
  "dup1 v rt \<equiv> snd (JS_DupValue v rt)"

lemma counted_dup: "counted rt v \<Longrightarrow> counted (dup1 w rt) v"
  by (auto simp: counted_def JS_DupValue_def)

lemma free_dup_counted: "counted rt v \<Longrightarrow> JS_FreeValue v (dup1 v rt) = rt"
  by (auto simp add: counted_def JS_FreeValue_def JS_DupValue_def Let_def)

lemma dup_commute: "dup1 v (dup1 w rt) = dup1 w (dup1 v rt)"
  by (auto simp: JS_DupValue_def fun_eq_iff)

lemma objects_dup [simp]: "objects (dup1 v rt) = objects rt"
  by (simp add: JS_DupValue_def)

text \<open>The engine's property access as the walk uses it.\<close>

locale property_access =
  fixes own :: "addr \<Rightarrow> u32 \<Rightarrow> JSPropertyDescriptor option"
    and proto :: "addr \<Rightarrow> jsval"
    and get_own :: get_own_fn
    and get_proto :: get_proto_fn
  assumes get_own_some: "own p a = Some d \<Longrightarrow>
      get_own (JS_Object p) a rt = (1, d, dup1 (desc_setter d) (dup1 (desc_getter d) (dup1 (desc_value d) rt)))"
    and get_own_none: "own p a = None \<Longrightarrow> \<exists>d. get_own (JS_Object p) a rt = (0, d, rt)"
    and get_proto: "get_proto (JS_Object p) rt = JS_DupValue (proto p) rt"
begin

lemma walk_own:
  assumes "own p a = Some d" and "counted rt (desc_value d)" "counted rt (desc_getter d)" "counted rt (desc_setter d)"
  shows "data_walk get_own get_proto a (Suc n) (JS_Object p) rt =
    (if desc_flags d AND JS_PROP_GETSET = 0 then Some (desc_value d, JS_Object p, dup1 (desc_value d) rt)
     else Some (JS_Undefined, JS_Object p, rt))"
proof -
  let ?v = "desc_value d" and ?g = "desc_getter d" and ?s = "desc_setter d"
  have drop: "JS_FreeValue ?s (JS_FreeValue ?g (JS_FreeValue ?v (dup1 ?s (dup1 ?g (dup1 ?v r))))) = r"
    if "counted r ?v" "counted r ?g" "counted r ?s" for r
    using that by (metis counted_dup dup_commute free_dup_counted)
  have vv: "dup1 ?v (dup1 ?s (dup1 ?g (dup1 ?v rt))) = dup1 ?s (dup1 ?g (dup1 ?v (dup1 ?v rt)))"
    by (metis dup_commute)
  show ?thesis
    using drop [of rt] drop [of "dup1 ?v rt"] assms counted_dup
    by (simp add: get_own_some Let_def vv prod.case_eq_if)
qed

lemma walk_step:
  assumes "own p a = None" and "counted rt (JS_Object p)"
  shows "data_walk get_own get_proto a (Suc n) (JS_Object p) (dup1 (JS_Object p) rt) =
    (if proto p = JS_Exception then Some (JS_Exception, JS_Undefined, rt)
     else if JS_GetClassID (proto p) rt \<noteq> JS_CLASS_OBJECT then Some (JS_Undefined, proto p, dup1 (proto p) rt)
     else data_walk get_own get_proto a n (proto p) (dup1 (proto p) rt))"
proof -
  obtain d where g: "get_own (JS_Object p) a (dup1 (JS_Object p) rt) = (0, d, dup1 (JS_Object p) rt)"
    using get_own_none [OF assms(1)] by blast
  have f: "JS_FreeValue (JS_Object p) (dup1 (proto p) (dup1 (JS_Object p) rt)) = dup1 (proto p) rt"
    using assms(2) by (metis counted_dup dup_commute free_dup_counted)
  have e: "dup1 JS_Exception rt = rt"
    by (simp add: JS_DupValue_def has_ref_count_iff)
  have c: "JS_GetClassID (proto p) (dup1 (proto p) rt) = JS_GetClassID (proto p) rt"
    by (simp add: JS_GetClassID_def split: jsval.split)
  show ?thesis using g f e c by (auto simp: get_proto Let_def prod.case_eq_if)
qed

text \<open>The walk over a finite chain finds the value and holds exactly its counts.\<close>

lemma data_walk_property:
  assumes "data_property own proto (objects rt) a p v" and "refs_alive own proto rt" and "counted rt (JS_Object p)"
  shows "\<exists>n. \<forall>m \<ge> n. \<exists>held. data_walk get_own get_proto a m (JS_Object p) (dup1 (JS_Object p) rt) =
           Some (v, held, dup1 v (dup1 held rt)) \<and> counted rt held"
  using assms
proof (induction rule: data_property.induct)
  case (data p d)
  have w: "data_walk get_own get_proto a m (JS_Object p) (dup1 (JS_Object p) rt) =
      Some (desc_value d, JS_Object p, dup1 (desc_value d) (dup1 (JS_Object p) rt))" if "Suc 0 \<le> m" for m
    using that walk_own [OF data.hyps(1), of "dup1 (JS_Object p) rt"] data
    by (cases m) (auto simp: refs_alive_def counted_dup)
  then show ?case using data.prems by blast
next
  case (accessor p d)
  have "dup1 JS_Undefined r = r" for r by (simp add: JS_DupValue_def has_ref_count_iff)
  then have w: "data_walk get_own get_proto a m (JS_Object p) (dup1 (JS_Object p) rt) =
      Some (JS_Undefined, JS_Object p, dup1 JS_Undefined (dup1 (JS_Object p) rt))" if "Suc 0 \<le> m" for m
    using that walk_own [OF accessor.hyps(1), of "dup1 (JS_Object p) rt"] accessor
    by (cases m) (auto simp: refs_alive_def counted_dup)
  then show ?case using accessor.prems by blast
next
  case (inherited p q v)
  then have q: "counted rt (JS_Object q)" by (metis refs_alive_def)
  then obtain n where n: "\<forall>m \<ge> n. \<exists>held. data_walk get_own get_proto a m (JS_Object q) (dup1 (JS_Object q) rt) =
      Some (v, held, dup1 v (dup1 held rt)) \<and> counted rt held"
    using inherited by blast
  have "data_walk get_own get_proto a (Suc m) (JS_Object p) (dup1 (JS_Object p) rt) =
      data_walk get_own get_proto a m (JS_Object q) (dup1 (JS_Object q) rt)" for m
    using walk_step [OF inherited.hyps(1) inherited.prems(2)] inherited.hyps
    by (simp add: JS_GetClassID_def)
  then have "\<forall>m \<ge> Suc n. \<exists>held. data_walk get_own get_proto a m (JS_Object p) (dup1 (JS_Object p) rt) =
      Some (v, held, dup1 v (dup1 held rt)) \<and> counted rt held"
    using n by (metis Suc_le_D Suc_le_mono)
  then show ?case by blast
next
  case (chain_end p)
  have c: "JS_GetClassID (proto p) rt \<noteq> JS_CLASS_OBJECT"
    using chain_end by (auto simp: JS_GetClassID_def JS_CLASS_OBJECT_def split: jsval.split)
  have u: "dup1 JS_Undefined r = r" for r by (simp add: JS_DupValue_def has_ref_count_iff)
  have "data_walk get_own get_proto a (Suc m) (JS_Object p) (dup1 (JS_Object p) rt) =
      Some (JS_Undefined, proto p, dup1 JS_Undefined (dup1 (proto p) rt))" for m
    using walk_step [OF chain_end.hyps(1) chain_end.prems(2)] chain_end.hyps c u by simp
  moreover have "counted rt (proto p)" using chain_end.prems(1) by (simp add: refs_alive_def)
  ultimately have "\<forall>m \<ge> Suc 0. \<exists>held. data_walk get_own get_proto a m (JS_Object p) (dup1 (JS_Object p) rt) =
      Some (JS_Undefined, held, dup1 JS_Undefined (dup1 held rt)) \<and> counted rt held"
    by (metis Suc_le_D)
  then show ?case by blast
qed

end

text \<open>Ordinary objects: the descriptor and the prototype are read from the object.\<close>

definition ordinary_get_own :: "(addr \<Rightarrow> u32 \<Rightarrow> JSPropertyDescriptor option) \<Rightarrow> get_own_fn" where
  "ordinary_get_own own v a rt =
     (let none = \<lparr>desc_flags = 0, desc_value = JS_Undefined, desc_getter = JS_Undefined, desc_setter = JS_Undefined\<rparr>
      in case v of
           JS_Object p \<Rightarrow>
             (case own p a of
                None \<Rightarrow> (0, none, rt)
              | Some d \<Rightarrow> (1, d, dup_values [desc_value d, desc_getter d, desc_setter d] rt))
         | _ \<Rightarrow> (-1, none, rt))"

definition ordinary_get_proto :: "(addr \<Rightarrow> jsval) \<Rightarrow> get_proto_fn" where
  "ordinary_get_proto proto v rt =
     (case v of JS_Object p \<Rightarrow> JS_DupValue (proto p) rt | _ \<Rightarrow> (JS_Null, rt))"

interpretation ordinary: property_access own proto "ordinary_get_own own" "ordinary_get_proto proto"
  for own proto
  by unfold_locales (auto simp: ordinary_get_own_def ordinary_get_proto_def Let_def)

end
