(* ===== verification/BridgeProps.thy ===== *)
theory BridgeProps
  imports BridgeData
begin

text \<open>
  The properties of the bridge and of the engine parts it drives. \<open>sample_rt\<close> is a small
  runtime on which the witnesses apply them.
\<close>

section \<open>A sample runtime\<close>

definition sample_state :: qjsbun_runtime where
  "sample_state = fresh_state\<lparr>deadline_ms := Ms 100,
     contexts := [\<lparr>bctx = 50, timeout_ms = Ms 5\<rparr>, \<lparr>bctx = 60, timeout_ms = Ms 7\<rparr>],
     finalizers := Table (replicate 66 0), finalizer_count := 66\<rparr>"

definition sample_rt :: brt where
  "sample_rt =
     \<lparr>rc = (\<lambda>_. 1), released = [], objects = (\<lambda>p. \<lparr>obj_class_id = (if p = 9 then 65 else 1), opaque = 0\<rparr>),
      current_exception = JS_Uninitialized, current_exception_is_uncatchable = False,
      interrupt_handler = BUN_INTERRUPT, interrupt_opaque = sample_state, context_list = [50, 60],
      interrupt_counter = (\<lambda>_. 10000), class_proto = (\<lambda>_. []), class_array = [],
      links_of = init_list_head 1 \<lparr>prev_of = (\<lambda>_. 0), next_of = (\<lambda>_. 0)\<rparr>, job_list = 1,
      job_at = (\<lambda>_. \<lparr>realm = 0, job_func = 0, job_argv = []\<rparr>),
      module_normalize_func = 0, module_loader_has_attr = False, module_loader_func = 0,
      module_check_attrs = 0, module_loader_opaque = 0,
      rejection_tracker = 0, rejection_tracker_opaque = 0\<rparr>"

lemma sample_rt_simps [simp]:
  "interrupt_handler sample_rt = BUN_INTERRUPT" "interrupt_opaque sample_rt = sample_state"
  "context_list sample_rt = [50, 60]" "interrupt_counter sample_rt = (\<lambda>_. 10000)"
  "rc sample_rt = (\<lambda>_. 1)" "objects sample_rt = (\<lambda>p. \<lparr>obj_class_id = (if p = 9 then 65 else 1), opaque = 0\<rparr>)"
  "job_list sample_rt = 1" "class_array sample_rt = []"
  "links_of sample_rt = init_list_head 1 \<lparr>prev_of = (\<lambda>_. 0), next_of = (\<lambda>_. 0)\<rparr>"
  by (simp_all add: sample_rt_def)

section \<open>Time limits\<close>

text \<open>C1: Whatever a guest does, through any nesting of calls back into the bridge with
  timeouts of their own, swallowed or not, the deadline in force afterwards is the one before,
  and no interrupt poll at any depth is made under a later deadline than the outer one.\<close>

theorem nested_guest_deadline:
  assumes "run_body rnd (engine_error_ops obj str) clock err gs k rt = (failed, k', rt', seen)"
  shows "deadline rt' = deadline rt
         \<and> (deadline rt \<noteq> NaN \<longrightarrow> (\<forall>d \<in> set seen. \<not> ms_less (deadline rt) d))"
  using engine_errors.run_body_deadline [OF assms] by blast

lemma nested_guest_deadline_witness:
  "deadline (fst (snd (snd (run_body Ms (engine_error_ops 70 71) (\<lambda>i. Ms (of_nat i)) (JS_Object 72)
      [Poll 50, Nested (Ms 500) True [Poll 50, Nested (Ms 2) True [Poll 60]], Poll 60] 0 sample_rt)))) = Ms 100"
proof -
  obtain a b c d where r: "run_body Ms (engine_error_ops 70 71) (\<lambda>i. Ms (of_nat i)) (JS_Object 72)
      [Poll 50, Nested (Ms 500) True [Poll 50, Nested (Ms 2) True [Poll 60]], Poll 60] 0 sample_rt = (a, b, c, d)"
    by (metis prod_cases4)
  show ?thesis
    using nested_guest_deadline [OF r] r by (simp add: sample_state_def)
qed

text \<open>C12: Once the deadline has passed, the context that is running is interrupted after
  exactly as many polls as its counter allows, at most 10000, with an exception guest code
  cannot catch; from then on every context of the runtime is interrupted at its second poll.\<close>

theorem interrupt_bound:
  assumes "interrupt_handler rt = BUN_INTERRUPT" and "\<And>i. \<not> ms_less (clock i) (deadline rt)"
    and "interrupt_counter rt ctx \<le> 10000" and "c \<in> set (context_list rt)"
  shows "\<exists>rt1 rt2. polls_before_stop clock err ctx 0 10000 rt = Some (nat (interrupt_counter rt ctx - 1), rt1)
    \<and> current_exception_is_uncatchable rt1 \<and> deadline rt1 = deadline rt
    \<and> polls_before_stop clock err2 c 0 2 rt1 = Some (1, rt2)"
proof -
  obtain rt1 where 1: "polls_before_stop clock err ctx 0 10000 rt = Some (nat (interrupt_counter rt ctx - 1), rt1)"
      "\<forall>c \<in> set (context_list rt). interrupt_counter rt1 c = 2" "current_exception_is_uncatchable rt1"
  proof -
    have "nat (interrupt_counter rt ctx) \<le> 10000" using assms(3) by simp
    from polls_before_stop_late [where clock = clock and k = 0 and n = 10000 and err = err, OF assms(1,2) this]
    show ?thesis using that by auto
  qed
  note f = polls_before_stop_frame [OF 1(1)]
  have "\<exists>rt2. polls_before_stop clock err2 c 0 2 rt1 = Some (0 + nat (interrupt_counter rt1 c - 1), rt2)"
    using polls_before_stop_late [of rt1 clock c 2 2 err2 0] 1(2) assms f by auto
  then show ?thesis using 1 f assms(4) by auto
qed

lemma interrupt_bound_witness:
  "\<exists>rt1 rt2. polls_before_stop (\<lambda>_. Ms 100) (JS_Object 72) 50 0 10000 sample_rt = Some (9999, rt1)
    \<and> current_exception_is_uncatchable rt1 \<and> deadline rt1 = Ms 100
    \<and> polls_before_stop (\<lambda>_. Ms 100) (JS_Object 73) 60 0 2 rt1 = Some (1, rt2)"
  using interrupt_bound [of sample_rt "\<lambda>_. Ms 100" 50 60 "JS_Object 72" "JS_Object 73"]
  by (simp add: sample_state_def)

text \<open>C14: The default timeout of a context is the one it was registered with, infinite for a
  context that was not; the move-to-front walk that finds it loses and changes no entry.\<close>

theorem timeout_is_registered:
  assumes "interrupt_handler rt = BUN_INTERRUPT" and "qjs_bun_timeout ctx rt = (t, rt')"
  shows "t = (case timeout_of rt ctx of Some t0 \<Rightarrow> t0 | None \<Rightarrow> PInf)
      \<and> (registry_ok rt \<longrightarrow> timeout_of rt' = timeout_of rt \<and> registry_ok rt')
      \<and> mset (contexts (interrupt_opaque rt')) = mset (contexts (interrupt_opaque rt))"
proof -
  let ?cs = "contexts (interrupt_opaque rt)"
  show ?thesis
  proof (cases "unlink_entry ctx ?cs")
    case None
    then have "timeout_of rt ctx = None"
      by (simp add: timeout_of_None unlink_entry_None)
    then show ?thesis using None assms by (auto simp: qjs_bun_timeout_def qjs_bun_state_def)
  next
    case (Some er)
    obtain e rest where er: "er = (e, rest)" by fastforce
    then have u: "unlink_entry ctx ?cs = Some (e, rest)" using Some by simp
    have r: "t = timeout_ms e" "contexts (interrupt_opaque rt') = e # rest"
      using u assms by (auto simp: qjs_bun_timeout_def qjs_bun_state_def put_state_def)
    note s = unlink_entry_Some [OF u]
    have "timeout_of rt' c = timeout_of rt c" for c
    proof (cases "c = ctx")
      case True
      then show ?thesis using s r unlink_entry_map_of [OF u] by (simp add: timeout_of_def)
    next
      case False
      then show ?thesis using r unlink_entry_map_of_other [OF u False] by (simp add: timeout_of_def)
    qed
    moreover have "registry_ok rt \<longrightarrow> registry_ok rt'"
      using s r by (metis mset_eq_imp_distinct_iff mset_map registry_ok_def mset.simps(2))
    ultimately show ?thesis
      using s r unlink_entry_map_of [OF u] by (auto simp: timeout_of_def)
  qed
qed

lemma timeout_is_registered_witness:
  "fst (qjs_bun_timeout 60 sample_rt) = Ms 7"
  using timeout_is_registered [of sample_rt 60 "fst (qjs_bun_timeout 60 sample_rt)" "snd (qjs_bun_timeout 60 sample_rt)"]
  by (simp add: timeout_of_def sample_state_def)

text \<open>C13: Around every exported guest operation, with any error reporting that meets its contract: the operation runs under
  the earlier of the deadline in force and its own limit (none for a context that is not registered), and the deadline
  afterwards is the one before. Exactly when the operation failed and its own limit has passed a timeout is reported, which
  replaces its exception by a catchable one that says so, or leaves what the failed allocation of the error left; otherwise
  the runtime is the one the operation left, with its result and its own exception untouched.\<close>

theorem guest_timeout_reported:
  assumes "error_values ops str_text own_text" and "interrupt_handler rt = BUN_INTERRUPT"
    and "own = ms_add rnd now0 (case timeout_of rt ctx of Some t \<Rightarrow> t | None \<Rightarrow> PInf)"
    and "guest_out rnd ops now0 now1 ctx expr rt = (out, rt')"
  shows "\<exists>rt2 rt3. expr rt2 = (out, rt3) \<and> interrupt_handler rt2 = BUN_INTERRUPT
    \<and> deadline rt2 = (if ms_less own (deadline rt) then own else deadline rt) \<and> deadline rt' = deadline rt
    \<and> (if out = JS_Exception \<and> \<not> ms_less now1 own
       then timeout_reported ops str_text own_text (set_deadline (deadline rt) rt3) rt'
       else rt' = set_deadline (deadline rt) rt3)"
proof -
  note rep = error_values.throw_timeout_reports [OF assms(1)]
    and leave = error_reporting.leave_deadline [OF error_values.axioms(1) [OF assms(1)]]
  obtain t rt1 where q: "qjs_bun_timeout ctx rt = (t, rt1)" by fastforce
  have h1: "interrupt_handler rt1 = BUN_INTERRUPT" "deadline rt1 = deadline rt"
    using q assms(2)
    by (auto simp: qjs_bun_timeout_def qjs_bun_state_def put_state_def split: option.splits prod.splits)
  obtain scope rt2 where e: "qjs_bun_enter rnd now0 t rt1 = (scope, rt2)" by fastforce
  note en = enter_deadline [OF e]
  have own: "own_ms scope = own" using en h1 fst_qjs_bun_timeout [OF assms(2) q] assms(3) by simp
  obtain out' rt3 where x: "expr rt2 = (out', rt3)" by fastforce
  have r: "out' = out" "rt' = snd (qjs_bun_leave ops now1 scope (JS_IsException out) rt3)"
    using assms(4) q e x by (auto simp: guest_out_def)
  have d: "deadline rt' = deadline rt" using leave en h1 r by auto
  have "if out = JS_Exception \<and> \<not> ms_less now1 own
       then timeout_reported ops str_text own_text (set_deadline (deadline rt) rt3) rt'
       else rt' = set_deadline (deadline rt) rt3"
    using en h1 r own rep by (auto simp: qjs_bun_leave_def)
  moreover have "interrupt_handler rt2 = BUN_INTERRUPT" "deadline rt2 = (if ms_less own (deadline rt) then own else deadline rt)"
    using en h1 own by auto
  ultimately show ?thesis using x r(1) d by blast
qed

lemma guest_timeout_reported_witness:
  "\<exists>rt2 rt'. guest_out Ms (described_error_ops True 70) (Ms 10) (Ms 18) 60 (\<lambda>r. (JS_Exception, r)) sample_rt = (JS_Exception, rt')
     \<and> timeout_reported (described_error_ops True 70) described_text (described_own 70) (set_deadline (Ms 100) rt2) rt'
     \<and> current_exception rt' = JS_Object 70 \<and> deadline rt' = Ms 100"
proof -
  let ?ops = "described_error_ops True 70"
  obtain out rt' where g: "guest_out Ms ?ops (Ms 10) (Ms 18) 60 (\<lambda>r. (JS_Exception, r)) sample_rt = (out, rt')" by fastforce
  have o: "out = JS_Exception" using g by (auto simp: guest_out_def split: prod.splits)
  have own: "Ms 17 = ms_add Ms (Ms 10) (case timeout_of sample_rt 60 of Some t \<Rightarrow> t | None \<Rightarrow> PInf)"
    by (simp add: timeout_of_def sample_state_def)
  from guest_timeout_reported [OF described_errors.error_values_axioms _ own g] o
  obtain rt3 where "timeout_reported ?ops described_text (described_own 70) (set_deadline (Ms 100) rt3) rt'" "deadline rt' = Ms 100"
    by (auto simp: sample_state_def)
  then show ?thesis using g o by (auto simp: timeout_reported_def described_error_ops_def Let_def)
qed

text \<open>C15: Running a pending job under a limit: the job runs under the earlier of the two deadlines, the result is what the
  engine's job queue returned, and the deadline afterwards is the one before. A timeout is reported exactly when the job
  failed, its context is still there and its limit has passed; otherwise the runtime is the one the job left.\<close>

theorem pending_job_limit:
  assumes "error_values ops str_text own_text" and "interrupt_handler rt = BUN_INTERRUPT" and "own = ms_add rnd now0 timeout"
    and "qjs_bun_execute_pending_job rnd ops run free_ctx now0 now1 timeout rt = (ret, pctx, rt')"
  shows "deadline rt' = deadline rt
    \<and> (\<exists>rt2. JS_ExecutePendingJob run free_ctx (if ms_less own (deadline rt) then set_deadline own rt else rt) = (ret, pctx, rt2)
         \<and> (if ret < 0 \<and> pctx \<noteq> 0 \<and> ms_ge now1 own
            then timeout_reported ops str_text own_text (set_deadline (deadline rt) rt2) rt'
            else rt' = set_deadline (deadline rt) rt2))"
proof -
  note rep = error_values.throw_timeout_reports [OF assms(1)]
    and same = error_reporting.throw_timeout_same [OF error_values.axioms(1) [OF assms(1)]]
  have e: "qjs_bun_enter rnd now0 timeout rt =
      (\<lparr>has_state = True, saved_ms = deadline rt, own_ms = own\<rparr>, if ms_less own (deadline rt) then set_deadline own rt else rt)"
    using assms(2,3) by (simp add: qjs_bun_enter_def qjs_bun_state_def Let_def)
  obtain r p rt2 where j: "JS_ExecutePendingJob run free_ctx (if ms_less own (deadline rt) then set_deadline own rt else rt) = (r, p, rt2)"
    by (metis prod_cases3)
  let ?done = "set_deadline (deadline rt) rt2"
  have s: "ret = r \<and> pctx = p \<and> rt' = (if r < 0 \<and> p \<noteq> 0 \<and> ms_ge now1 own then qjs_bun_throw_timeout ops ?done else ?done)"
    using assms(4) by (auto simp: qjs_bun_execute_pending_job_def e j Let_def split: if_splits)
  have "deadline rt' = deadline rt" using s same [of ?done] by (auto simp: same_limit_def)
  then show ?thesis using s j rep [of ?done] by auto
qed

lemma pending_job_limit_witness:
  "deadline (snd (snd (qjs_bun_execute_pending_job Ms (described_error_ops True 70) (\<lambda>f c vs r. (JS_Exception, r))
     (\<lambda>c r. r) (Ms 10) (Ms 18) (Ms 5) sample_rt))) = Ms 100"
proof -
  obtain ret pctx rt' where e: "qjs_bun_execute_pending_job Ms (described_error_ops True 70) (\<lambda>f c vs r. (JS_Exception, r))
     (\<lambda>c r. r) (Ms 10) (Ms 18) (Ms 5) sample_rt = (ret, pctx, rt')" by (metis prod_cases3)
  show ?thesis using pending_job_limit [OF described_errors.error_values_axioms _ refl e] by (simp add: e sample_state_def)
qed

section \<open>The registry of contexts\<close>

lemma new_context_entry:
  assumes "interrupt_handler rt = BUN_INTERRUPT" and "registry_ok rt"
    and "create raw rt = (c, rt1)" and "timeout_of rt c = None"
    and "same_limit rt rt1" and "\<And>r. same_limit r (hide c r)" and "\<And>r. same_limit r (free_ctx c r)"
    and "qjs_bun_new_context create hide free_ctx malloc_ok raw t rt = (ctx, rt')"
  shows "registry_ok rt' \<and> timeout_of rt' = (if c \<noteq> 0 \<and> malloc_ok then (timeout_of rt)(c \<mapsto> t) else timeout_of rt)
    \<and> ctx = (if malloc_ok then c else 0)
    \<and> (let made = (if raw then rt1 else hide c rt1) in
       if c = 0 then rt' = rt1 else if malloc_ok then \<exists>st. rt' = put_state st made else rt' = free_ctx c made)"
proof (cases "c = 0")
  case True
  then show ?thesis using assms by (auto simp: qjs_bun_new_context_def same_limit_def registry_ok_def timeout_of_def)
next
  case False
  let ?rt2 = "if \<not> raw then hide c rt1 else rt1"
  have o: "interrupt_opaque ?rt2 = interrupt_opaque rt" "interrupt_handler ?rt2 = interrupt_handler rt"
    using assms(5,6) by (auto simp: same_limit_def)
  have f: "interrupt_opaque (free_ctx c ?rt2) = interrupt_opaque rt"
    using assms(7) [of ?rt2] o by (simp add: same_limit_def)
  have n: "c \<notin> bctx ` set (contexts (interrupt_opaque rt))"
    using assms(4) by (simp add: timeout_of_None)
  have new: "qjs_bun_new_context create hide free_ctx malloc_ok raw t rt =
      (if malloc_ok then (c, put_state ((interrupt_opaque rt)\<lparr>contexts := \<lparr>bctx = c, timeout_ms = t\<rparr> # contexts (interrupt_opaque rt)\<rparr>) ?rt2)
       else (0, free_ctx c ?rt2))"
    using assms(1,3) False o by (auto simp: qjs_bun_new_context_def qjs_bun_state_def Let_def)
  show ?thesis
  proof (cases malloc_ok)
    case True
    then have r: "rt' = put_state ((interrupt_opaque rt)\<lparr>contexts := \<lparr>bctx = c, timeout_ms = t\<rparr> # contexts (interrupt_opaque rt)\<rparr>) ?rt2" "ctx = c"
      using assms(8) new by simp_all
    then have "\<exists>st. rt' = put_state st (if raw then rt1 else hide c rt1)" by (cases raw) auto
    moreover have "registry_ok rt'" "timeout_of rt' = (timeout_of rt)(c \<mapsto> t)"
      using r(1) n assms(2) by (auto simp: registry_ok_def timeout_of_def put_state_def)
    ultimately show ?thesis using True False r(2) by simp
  next
    case F: False
    then have "rt' = free_ctx c ?rt2" "ctx = 0" using assms(8) new by simp_all
    then show ?thesis using F False f assms(2) by (simp add: registry_ok_def timeout_of_def)
  qed
qed

lemma free_context_entry:
  assumes "interrupt_handler rt = BUN_INTERRUPT" and "registry_ok rt"
    and "\<And>r. same_limit r (free_ctx ctx r)" and "qjs_bun_free_context free_ctx ctx rt = (e, rt')"
  shows "registry_ok rt' \<and> timeout_of rt' = (timeout_of rt)(ctx := None)
    \<and> map_option timeout_ms e = timeout_of rt ctx \<and> (\<exists>st. rt' = free_ctx ctx (put_state st rt))"
proof -
  let ?cs = "contexts (interrupt_opaque rt)"
  have f: "interrupt_opaque (free_ctx ctx r) = interrupt_opaque r" for r
    using assms(3) [of r] by (simp add: same_limit_def)
  show ?thesis
  proof (cases "unlink_entry ctx ?cs")
    case None
    then have n: "timeout_of rt ctx = None"
      by (simp add: timeout_of_None unlink_entry_None)
    then have e: "timeout_of rt' = timeout_of rt" "registry_ok rt' = registry_ok rt" "e = None" "rt' = free_ctx ctx rt"
      using None assms f by (auto simp: qjs_bun_free_context_def qjs_bun_state_def timeout_of_def registry_ok_def)
    then have "rt' = free_ctx ctx (put_state (interrupt_opaque rt) rt)" by (simp add: put_state_def)
    then have "\<exists>st. rt' = free_ctx ctx (put_state st rt)" by blast
    with e n assms(2) show ?thesis by (simp add: fun_upd_idem)
  next
    case (Some er)
    obtain a rest where er: "er = (a, rest)" by fastforce
    then have u: "unlink_entry ctx ?cs = Some (a, rest)" using Some by simp
    have r: "e = Some a" "contexts (interrupt_opaque rt') = rest" "\<exists>st. rt' = free_ctx ctx (put_state st rt)"
      using u assms f by (auto simp: qjs_bun_free_context_def qjs_bun_state_def put_state_def)
    note s = unlink_entry_Some [OF u]
    have d: "distinct (map bctx (a # rest))"
      using s assms(2) by (metis mset_eq_imp_distinct_iff mset_map registry_ok_def mset.simps(2))
    have "timeout_of rt' c = ((timeout_of rt)(ctx := None)) c" for c
    proof (cases "c = ctx")
      case True
      then show ?thesis using s r d by (auto simp: timeout_of_def map_of_eq_None_iff)
    next
      case False
      then show ?thesis
        using s r unlink_entry_map_of_other [OF u False] by (auto simp: timeout_of_def)
    qed
    then show ?thesis
      using r d unlink_entry_map_of [OF u] by (auto simp: registry_ok_def timeout_of_def)
  qed
qed

text \<open>C16: The registry of contexts. The engine's functions may link and unlink contexts and collect garbage, but do
  not touch the handler and the state of the bridge. A context that was created is registered with its timeout, and the
  others keep theirs; when the entry cannot be allocated the engine's release of the new context is the last thing
  that happens, nothing is registered and NULL is returned, as when no context was created. Disposing of any context removes its entry,
  returns exactly that entry to be freed, leaves every other context with the timeout it had, and then releases the context.\<close>

theorem context_registry:
  assumes "interrupt_handler rt = BUN_INTERRUPT" and "registry_ok rt"
    and "create raw rt = (c, rt1)" and "timeout_of rt c = None"
    and "same_limit rt rt1" and "\<And>r. same_limit r (hide c r)" and "\<And>d r. same_limit r (free_ctx d r)"
    and "qjs_bun_new_context create hide free_ctx malloc_ok raw t rt = (ctx, rt')"
    and "qjs_bun_free_context free_ctx d rt = (e, rt2)"
  shows "registry_ok rt' \<and> timeout_of rt' = (if c \<noteq> 0 \<and> malloc_ok then (timeout_of rt)(c \<mapsto> t) else timeout_of rt)
    \<and> ctx = (if malloc_ok then c else 0)
    \<and> (let made = (if raw then rt1 else hide c rt1) in
       if c = 0 then rt' = rt1 else if malloc_ok then \<exists>st. rt' = put_state st made else rt' = free_ctx c made)
    \<and> registry_ok rt2 \<and> timeout_of rt2 = (timeout_of rt)(d := None) \<and> map_option timeout_ms e = timeout_of rt d
    \<and> (\<exists>st. rt2 = free_ctx d (put_state st rt))"
  using new_context_entry [OF assms(1-7,8)] free_context_entry [OF assms(1,2,7,9)] by blast

lemma context_registry_witness:
  "\<exists>rt' e rt2.
     qjs_bun_new_context (\<lambda>raw r. (80, r\<lparr>context_list := context_list r @ [80]\<rparr>)) (\<lambda>c r. r)
       (\<lambda>c r. r\<lparr>context_list := remove1 c (context_list r)\<rparr>) True False (Ms 3) sample_rt = (80, rt')
   \<and> timeout_of rt' 80 = Some (Ms 3) \<and> context_list rt' = [50, 60, 80]
   \<and> qjs_bun_free_context (\<lambda>c r. r\<lparr>context_list := remove1 c (context_list r)\<rparr>) 50 sample_rt = (e, rt2)
   \<and> timeout_of rt2 = [60 \<mapsto> Ms 7] \<and> context_list rt2 = [60]"
proof -
  let ?create = "\<lambda>raw r :: brt. (80, r\<lparr>context_list := context_list r @ [80]\<rparr>)"
  let ?free = "\<lambda>c r :: brt. r\<lparr>context_list := remove1 c (context_list r)\<rparr>"
  obtain ctx rt' where n: "qjs_bun_new_context ?create (\<lambda>c r. r) ?free True False (Ms 3) sample_rt = (ctx, rt')" by fastforce
  obtain e rt2 where f: "qjs_bun_free_context ?free 50 sample_rt = (e, rt2)" by fastforce
  have t: "timeout_of sample_rt = [50 \<mapsto> Ms 5, 60 \<mapsto> Ms 7]" "registry_ok sample_rt"
    by (auto simp: timeout_of_def registry_ok_def sample_state_def fun_eq_iff)
  define rt1 where "rt1 = sample_rt\<lparr>context_list := context_list sample_rt @ [80]\<rparr>"
  have c: "?create False sample_rt = (80, rt1)" by (simp add: rt1_def)
  note R = context_registry [OF _ t(2) c _ _ _ _ n f]
  have "timeout_of rt' 80 = Some (Ms 3)" "ctx = 80" "\<exists>st. rt' = put_state st rt1" "timeout_of rt2 = [60 \<mapsto> Ms 7]"
    "\<exists>st. rt2 = ?free 50 (put_state st sample_rt)"
    using R by (simp_all add: t same_limit_def rt1_def)
  then show ?thesis using n f by (auto simp: put_state_def rt1_def)
qed

section \<open>Classes and their finalizers\<close>

lemma class_finalize_defined:
  assumes "finalizers_ok (interrupt_opaque rt)"
  shows "qjs_bun_class_finalize v rt \<noteq> None"
  using assms finalizer_at_ok [of "interrupt_opaque rt" "JS_GetClassID v rt"]
  by (auto simp: qjs_bun_class_finalize_def qjs_bun_state_def Let_def split: option.splits)

text \<open>C17: Registering a class (any id but the largest 32-bit one) never writes outside the
  finalizer table, keeps the table consistent on success and on every failure, so that
  finalising any object reads it safely, installs the finalizer of the class and leaves those of
  all other classes as they were.\<close>

theorem new_class_finalizers:
  assumes "interrupt_handler rt = BUN_INTERRUPT" and "finalizers_ok (interrupt_opaque rt)" and "cid \<noteq> -1"
  shows "\<exists>code rt'. qjs_bun_new_class ok (JS_NewClass atom_ok pok aok) cid name fin addr rt = Some (code, rt')
    \<and> finalizers_ok (interrupt_opaque rt') \<and> qjs_bun_class_finalize v rt' \<noteq> None
    \<and> (code = 0 \<and> fin \<noteq> 0 \<longrightarrow> finalizer_at (finalizers (interrupt_opaque rt')) (unat cid) = Some fin)
    \<and> (\<forall>i < unat (finalizer_count (interrupt_opaque rt)). i \<noteq> unat cid \<longrightarrow>
          finalizer_at (finalizers (interrupt_opaque rt')) i = finalizer_at (finalizers (interrupt_opaque rt)) i)"
proof -
  let ?st = "interrupt_opaque rt"
  let ?def = "\<lparr>class_id = 0, class_name = name, finalizer = (if fin \<noteq> 0 then addr else 0), gc_mark = 0, call = 0, exotic = 0\<rparr>"
  let ?nc = "JS_NewClass atom_ok pok aok (unat cid) ?def"
  let ?goal = "\<lambda>code rt'. qjs_bun_new_class ok (JS_NewClass atom_ok pok aok) cid name fin addr rt = Some (code, rt')
    \<and> finalizers_ok (interrupt_opaque rt')
    \<and> (code = 0 \<and> fin \<noteq> 0 \<longrightarrow> finalizer_at (finalizers (interrupt_opaque rt')) (unat cid) = Some fin)
    \<and> (\<forall>i < unat (finalizer_count ?st). i \<noteq> unat cid \<longrightarrow>
          finalizer_at (finalizers (interrupt_opaque rt')) i = finalizer_at (finalizers ?st) i)"
  obtain code st1 where g: "(if cid \<ge> finalizer_count ?st then grow_finalizers ok cid ?st else (0, ?st)) = (code, st1)"
    by fastforce
  have "\<exists>code rt'. ?goal code rt'"
  proof (cases "fin = 0")
    case True
    have "?goal (fst (?nc rt)) (snd (?nc rt))"
      using True assms by (simp add: qjs_bun_new_class_def)
    then show ?thesis by blast
  next
    case False
    then have q: "(if fin \<noteq> 0 then qjs_bun_state rt else None) = Some ?st"
      using assms(1) by (simp add: qjs_bun_state_def)
    show ?thesis
    proof (cases "code < 0")
      case True
      then have "st1 = ?st"
        using g assms(2,3) unat_Suc_u32 [OF assms(3)]
        by (auto simp: grow_finalizers_def realloc_table_def finalizers_ok_def Let_def split: if_splits table_ptr.splits)
      then have "?goal (-1) (put_state ?st rt)"
        using True q g assms(2) by (simp add: qjs_bun_new_class_def put_state_def)
      then show ?thesis by blast
    next
      case False
      then have c0: "code = 0"
        using g by (auto simp: grow_finalizers_def realloc_table_def Let_def split: if_splits prod.splits option.splits table_ptr.splits)
      have "\<exists>fs. finalizers st1 = Table fs \<and> length fs = unat (finalizer_count st1) \<and> unat cid < length fs
          \<and> (\<forall>i < unat (finalizer_count ?st). finalizer_at (finalizers ?st) i = Some (fs ! i))
          \<and> unat (finalizer_count ?st) \<le> length fs"
      proof (cases "cid \<ge> finalizer_count ?st")
        case True
        then show ?thesis
          using grow_finalizers_ok [of ?st cid ok st1] g c0 assms(2,3)
          by (auto simp: word_le_nat_alt)
      next
        case False
        then show ?thesis
          using g assms(2) by (auto simp: finalizers_ok_def finalizer_at_def word_le_nat_alt split: table_ptr.splits)
      qed
      then obtain fs where fs: "finalizers st1 = Table fs" "length fs = unat (finalizer_count st1)"
          "unat cid < length fs" "unat (finalizer_count ?st) \<le> length fs"
          "\<And>i. i < unat (finalizer_count ?st) \<Longrightarrow> finalizer_at (finalizers ?st) i = Some (fs ! i)" by blast
      let ?rt1 = "put_state (st1\<lparr>finalizers := Table (fs[unat cid := fin])\<rparr>) rt"
      have w: "wr fs (unat cid) fin = Some (fs[unat cid := fin])" using fs(3) by simp
      have "?goal (fst (?nc ?rt1)) (snd (?nc ?rt1))"
        using q g c0 fs w \<open>fin \<noteq> 0\<close>
        by (simp add: qjs_bun_new_class_def wr_def Let_def finalizers_ok_def put_state_def finalizer_at_def)
      then show ?thesis by blast
    qed
  qed
  then show ?thesis using class_finalize_defined by blast
qed

lemma new_class_finalizers_witness:
  "\<exists>code rt'. qjs_bun_new_class True (JS_NewClass True (\<lambda>_. True) True) 70 ''Point'' 7 BUN_CLASS_FINALIZE sample_rt = Some (code, rt')
    \<and> qjs_bun_class_finalize (JS_Object 9) rt' \<noteq> None"
proof -
  have "finalizers_ok sample_state" by (simp add: finalizers_ok_def sample_state_def)
  then show ?thesis
    using new_class_finalizers [of sample_rt 70 True True "\<lambda>_. True" True "''Point''" 7 BUN_CLASS_FINALIZE "JS_Object 9"]
    by auto
qed

lemma new_class_wraps:
  assumes "interrupt_handler rt = BUN_INTERRUPT" and "finalizers (interrupt_opaque rt) = Table fs"
    and "finalizer_count (interrupt_opaque rt) = word_of_nat (length fs)" and "length fs < 2 ^ 32"
    and "fin \<noteq> 0" and "JS_GetClassID v rt < length fs"
  shows "\<exists>rt'. qjs_bun_new_class ok new_class (-1) name fin addr rt = Some (-1, rt')
    \<and> finalizers (interrupt_opaque rt') = Dangling \<and> qjs_bun_class_finalize v rt' = None"
proof -
  have c: "unat (finalizer_count (interrupt_opaque rt)) = length fs"
    using assms(3,4) by (simp add: unat_of_nat take_bit_nat_eq_self_iff)
  have "JS_GetClassID v (put_state st rt) = JS_GetClassID v rt" for st
    by (simp add: JS_GetClassID_def put_state_def split: jsval.split)
  with assms c show ?thesis
    by (auto simp: qjs_bun_new_class_def qjs_bun_state_def grow_finalizers_def realloc_table_def Let_def
        put_state_def qjs_bun_class_finalize_def finalizer_at_def)
qed

lemma new_class_overwrites:
  assumes "interrupt_handler rt = BUN_INTERRUPT" and "finalizers (interrupt_opaque rt) = Table fs"
    and "unat (finalizer_count (interrupt_opaque rt)) = length fs" and "unat cid < length fs"
    and "fin \<noteq> 0" and "JS_IsRegisteredClass (unat cid) rt"
  shows "\<exists>rt'. qjs_bun_new_class ok (JS_NewClass atom_ok pok aok) cid name fin addr rt = Some (-1, rt')
    \<and> finalizer_at (finalizers (interrupt_opaque rt')) (unat cid) = Some fin"
proof -
  have "\<not> finalizer_count (interrupt_opaque rt) \<le> cid" using assms(3,4) by (simp add: word_le_nat_alt)
  then show ?thesis
    using assms
    by (auto simp: qjs_bun_new_class_def qjs_bun_state_def put_state_def JS_NewClass_def JS_NewClass1_def
        JS_IsRegisteredClass_def finalizer_at_def wr_def Let_def)
qed

text \<open>C18: Two registrations that fail and still change the finalizer table. With the largest 32-bit
  class id the size of the table wraps to zero, the live table is freed, and finalising an object
  of a class registered before then reads the freed block. And the finalizer is stored before the
  engine validates the registration: an id that is taken is refused, and the finalizer of the
  class that holds it is replaced.\<close>

theorem failed_registration_effects:
  assumes "interrupt_handler rt = BUN_INTERRUPT" and "finalizers (interrupt_opaque rt) = Table fs"
    and "finalizer_count (interrupt_opaque rt) = word_of_nat (length fs)" and "length fs < 2 ^ 32" and "fin \<noteq> 0"
  shows "(JS_GetClassID v rt < length fs \<longrightarrow>
      (\<exists>rt'. qjs_bun_new_class ok new_class (-1) name fin addr rt = Some (-1, rt')
        \<and> finalizers (interrupt_opaque rt') = Dangling \<and> qjs_bun_class_finalize v rt' = None))
    \<and> (unat cid < length fs \<longrightarrow> JS_IsRegisteredClass (unat cid) rt \<longrightarrow>
      (\<exists>rt'. qjs_bun_new_class ok (JS_NewClass atom_ok pok aok) cid name fin addr rt = Some (-1, rt')
        \<and> finalizer_at (finalizers (interrupt_opaque rt')) (unat cid) = Some fin))"
proof -
  have "unat (finalizer_count (interrupt_opaque rt)) = length fs" using assms(3,4) by (simp add: unat_of_nat take_bit_nat_eq_self_iff)
  then show ?thesis using new_class_wraps [OF assms] new_class_overwrites [OF assms(1,2) _ _ assms(5)] by simp
qed

lemma failed_registration_effects_witness:
  "(\<exists>rt'. qjs_bun_new_class True (JS_NewClass True (\<lambda>_. True) True) (-1) ''Point'' 7 BUN_CLASS_FINALIZE sample_rt = Some (-1, rt')
     \<and> qjs_bun_class_finalize (JS_Object 9) rt' = None)
   \<and> (\<exists>rt'. qjs_bun_new_class True (JS_NewClass True (\<lambda>_. True) True) 65 ''Again'' 7 BUN_CLASS_FINALIZE
       (sample_rt\<lparr>class_array := replicate 65 free_class @ [free_class\<lparr>class_id := 65\<rparr>]\<rparr>) = Some (-1, rt')
     \<and> finalizer_at (finalizers (interrupt_opaque rt')) 65 = Some 7)"
  using failed_registration_effects [of sample_rt "replicate 66 0" 7 "JS_Object 9" True "JS_NewClass True (\<lambda>_. True) True"
      "''Point''" BUN_CLASS_FINALIZE]
    failed_registration_effects [of "sample_rt\<lparr>class_array := replicate 65 free_class @ [free_class\<lparr>class_id := 65\<rparr>]\<rparr>" "replicate 66 0" 7
      "JS_Object 9" True "JS_NewClass True (\<lambda>_. True) True" "''Again''" BUN_CLASS_FINALIZE 65 True "\<lambda>_. True" True]
  by (auto simp: sample_state_def JS_GetClassID_def JS_IsRegisteredClass_def nth_append)

text \<open>C19: A registration keeps the class table well-formed (a slot is free or holds the class of
  its own index, and every context's prototype table covers it), whatever the allocator refuses;
  on success the class is the one registered and the others are unchanged, on failure the class
  table is unchanged.\<close>

theorem class_registration:
  assumes "class_table_ok rt" and "JS_NewClass1 ok array_ok cid d name rt = (code, rt')"
  shows "class_table_ok rt'
    \<and> (code = 0 \<and> \<not> JS_IsRegisteredClass cid rt \<and> class_array rt' ! cid = d\<lparr>class_id := cid, class_name := name\<rparr>
         \<and> (\<forall>i < length (class_array rt). i \<noteq> cid \<longrightarrow> class_array rt' ! i = class_array rt ! i)
       \<or> code = -1 \<and> class_array rt' = class_array rt)"
  using JS_NewClass1_preserves [OF assms(1), of ok array_ok cid d name]
    JS_NewClass1_success [of ok array_ok cid d name rt] JS_NewClass1_error [of ok array_ok cid d name rt]
    JS_NewClass1_codes [of ok array_ok cid d name rt] assms(2)
  by auto

lemma class_registration_witness:
  "class_table_ok (snd (JS_NewClass1 (\<lambda>c. c = 50) False 64 free_class ''Late'' sample_rt))"
  using class_registration [of sample_rt "\<lambda>c. c = 50" False 64 free_class "''Late''"
      "fst (JS_NewClass1 (\<lambda>c. c = 50) False 64 free_class ''Late'' sample_rt)"
      "snd (JS_NewClass1 (\<lambda>c. c = 50) False 64 free_class ''Late'' sample_rt)"]
  by (simp add: class_table_ok_def)

section \<open>Host functions\<close>

lemma free_new_host_object:
  assumes "fresh_host_object hc p a (world_rt w)" and "slots w a = (if a = 0 then slots w a else Some slot)"
    and "\<And>w1. slots (snd (host (callback slot) (finalize_request slot) w1)) a = slots w1 a"
  shows "free_host_object host hc (JS_Object p) w =
    (let w1 = w\<lparr>world_rt := JS_FreeValue (JS_Object p) (world_rt w)\<rparr>; w2 = snd (host (callback slot) (finalize_request slot) w1)
     in Some (if a = 0 then w1 else w2\<lparr>slots := (slots w2)(a := None)\<rparr>))"
proof (cases "a = 0")
  case True
  then show ?thesis using free_fresh_object [OF assms(1)] assms(1)
    by (simp add: qjs_bun_host_finalizer_def JS_GetOpaque_def fresh_host_object_def Let_def)
next
  case False
  let ?w1 = "w\<lparr>world_rt := JS_FreeValue (JS_Object p) (world_rt w)\<rparr>"
  have "owns_slot hc p a slot ?w1"
    using False assms(1,2) free_fresh_object(3) [OF assms(1)] by (simp add: owns_slot_def fresh_host_object_def)
  from host_finalizer_owned [OF this, of host] show ?thesis
    using False free_fresh_object(1) [OF assms(1)] assms(3) [of ?w1] by (simp add: Let_def)
qed

text \<open>C20: A host function is created exactly when its slot and both properties could be: it then owns the slot. When one of them
  fails the object is released, which runs its finalizer: the callback is told once, if there was a slot, and the slot is freed.
  Whenever the function owns its slot, calling it calls the callback it was created with, under its host id and with the
  arguments, and returns what the callback stored; finalising it tells the callback once and frees exactly that slot. The callback may do anything
  but free the slot it is told about.\<close>

theorem host_function_slot:
  assumes "new_object (world_rt w) = (JS_Object p, rt1)" and "def_prop (JS_Object p) ''length'' (JS_Int 0) (JS_SetOpaque (JS_Object p) slot_at rt1) = (r1, rt3)"
    and "empty_string rt3 = (s, rt4)" and "def_prop (JS_Object p) ''name'' s rt4 = (r2, rt5)"
    and "fresh_host_object hc p 0 rt1" and "fresh_host_object hc p slot_at rt3" and "fresh_host_object hc p slot_at rt5"
    and "slot = \<lparr>callback = cb, host_id = hid\<rparr>" and "\<And>w1. slots (snd (host cb (finalize_request slot) w1)) slot_at = slots w1 slot_at"
    and "rt = (if slot_at = 0 then rt1 else if r1 < 0 then rt3 else rt5)"
    and "w1 = \<lparr>world_rt = JS_FreeValue (JS_Object p) rt, slots = (if slot_at = 0 then slots w else (slots w)(slot_at \<mapsto> slot))\<rparr>"
  shows "qjs_bun_new_host_function new_object slot_at def_prop empty_string host hc cb hid w = Some
      (if slot_at \<noteq> 0 \<and> 0 \<le> r1 \<and> 0 \<le> r2 then (JS_Object p, \<lparr>world_rt = rt5, slots = (slots w)(slot_at \<mapsto> slot)\<rparr>)
       else (JS_Exception, if slot_at = 0 then w1
         else let w2 = snd (host cb (finalize_request slot) w1) in w2\<lparr>slots := (slots w2)(slot_at := None)\<rparr>))
    \<and> p \<in> set (released (world_rt w1)) \<and> req_kind (finalize_request slot) = 1 \<and> req_host_id (finalize_request slot) = hid
    \<and> (slot_at \<noteq> 0 \<longrightarrow> owns_slot hc p slot_at slot \<lparr>world_rt = rt5, slots = (slots w)(slot_at \<mapsto> slot)\<rparr>)
    \<and> (owns_slot hc p slot_at slot w3 \<longrightarrow>
      (\<exists>req. req_kind req = 0 \<and> req_host_id req = hid \<and> req_ctx req = ctx \<and> req_this req = this_val \<and> req_argv req = argv
        \<and> req_argc req = word_of_nat (length argv) \<and> req_flags req = flags
        \<and> qjs_bun_host_call throw_internal host hc ctx (JS_Object p) this_val argv flags w3 =
            Some (req_out (fst (host cb req w3)), snd (host cb req w3)))
      \<and> qjs_bun_host_finalizer host hc (JS_Object p) w3 =
          (let w4 = snd (host cb (finalize_request slot) w3) in Some (w4\<lparr>slots := (slots w4)(slot_at := None)\<rparr>)))"
proof -
  let ?ws = "if slot_at = 0 then slots w else (slots w)(slot_at \<mapsto> slot)"
  have cb: "callback slot = cb" "host_id slot = hid" using assms(8) by simp_all
  have fr: "fresh_host_object hc p slot_at rt" using assms(5-7,10) by auto
  have F: "free_host_object host hc (JS_Object p) \<lparr>world_rt = rt, slots = ?ws\<rparr> =
      Some (if slot_at = 0 then w1 else let w2 = snd (host cb (finalize_request slot) w1) in w2\<lparr>slots := (slots w2)(slot_at := None)\<rparr>)"
    using free_new_host_object [of hc p slot_at "\<lparr>world_rt = rt, slots = ?ws\<rparr>" slot host] fr assms(9,11) cb by (auto simp: Let_def)
  have new: "qjs_bun_new_host_function new_object slot_at def_prop empty_string host hc cb hid w =
      (if slot_at \<noteq> 0 \<and> 0 \<le> r1 \<and> 0 \<le> r2 then Some (JS_Object p, \<lparr>world_rt = rt5, slots = (slots w)(slot_at \<mapsto> slot)\<rparr>)
       else map_option (\<lambda>w1. (JS_Exception, w1)) (free_host_object host hc (JS_Object p) \<lparr>world_rt = rt, slots = ?ws\<rparr>))"
    using assms(1-4,8,10) by (cases w) (auto simp: qjs_bun_new_host_function_def Let_def)
  have rel: "p \<in> set (released (world_rt w1))"
    using free_fresh_object(2) [of hc p slot_at "\<lparr>world_rt = rt, slots = ?ws\<rparr>"] fr assms(11) by simp
  have own: "slot_at \<noteq> 0 \<longrightarrow> owns_slot hc p slot_at slot \<lparr>world_rt = rt5, slots = (slots w)(slot_at \<mapsto> slot)\<rparr>"
    using assms(7) by (simp add: owns_slot_def fresh_host_object_def)
  show ?thesis
    using new F rel own cb host_call_owned [where w = w3 and hc = hc and p = p and a = slot_at and slot = slot]
      host_finalizer_owned [of hc p slot_at slot w3 host] assms(9)
    by (simp add: finalize_request_def)
qed

lemma host_function_slot_witness:
  "\<exists>rt0 w1 w2. rt0 = sample_rt\<lparr>class_array := replicate 65 free_class @ [free_class\<lparr>class_id := 65, finalizer := BUN_HOST_FINALIZER\<rparr>]\<rparr>
     \<and> qjs_bun_new_host_function (\<lambda>r. (JS_Object 9, r)) 400 (\<lambda>v s x r. (1, r)) (\<lambda>r. (JS_String 71, r)) (\<lambda>q r w. (r, w)) 65 12 5
         \<lparr>world_rt = rt0, slots = (\<lambda>_. None)\<rparr> = Some (JS_Object 9, w1) \<and> slots w1 400 = Some \<lparr>callback = 12, host_id = 5\<rparr>
     \<and> qjs_bun_new_host_function (\<lambda>r. (JS_Object 9, r)) 400 (\<lambda>v s x r. (-1, r)) (\<lambda>r. (JS_String 71, r)) (\<lambda>q r w. (r, w)) 65 12 5
         \<lparr>world_rt = rt0, slots = (\<lambda>_. None)\<rparr> = Some (JS_Exception, w2) \<and> slots w2 400 = None"
proof -
  let ?rt0 = "sample_rt\<lparr>class_array := replicate 65 free_class @ [free_class\<lparr>class_id := 65, finalizer := BUN_HOST_FINALIZER\<rparr>]\<rparr>"
  have f: "fresh_host_object 65 9 0 ?rt0" "fresh_host_object 65 9 400 (JS_SetOpaque (JS_Object 9) 400 ?rt0)"
    by (simp_all add: fresh_host_object_def JS_SetOpaque_def nth_append)
  note W = host_function_slot [where host = "\<lambda>q r w. (r, w)" and w = "\<lparr>world_rt = ?rt0, slots = (\<lambda>_. None)\<rparr>"
      and new_object = "\<lambda>r. (JS_Object 9, r)" and empty_string = "\<lambda>r. (JS_String 71, r)" and cb = 12 and hid = 5 and hc = 65
      and slot_at = 400 and p = 9]
  from W [where def_prop = "\<lambda>v s x r. (1, r)", OF _ refl refl refl _ _ _ refl _ refl refl] show ?thesis
    using W [where def_prop = "\<lambda>v s x r. (-1, r)", OF _ refl refl refl _ _ _ refl _ refl refl] f by (simp add: Let_def)
qed

section \<open>Jobs and lists\<close>

text \<open>C21: Jobs are called in the order in which they were enqueued, each once, with the function, the realm and the arguments it was
  enqueued with, whatever the jobs do: they may enqueue more jobs and run pending ones themselves. After any such activity from
  an empty queue, and \<open>n\<close> more polls, the calls made are a prefix of the jobs enqueued; they are all of them exactly
  when no job is pending; and either no job is pending or at least \<open>n\<close> jobs ran.\<close>

theorem jobs_run_in_order:
  assumes "queued rt0 []" and "interrupt_opaque rt0 = \<lparr>enqueued = [], ran = []\<rparr>" and "job_effects rt0 rt"
    and "\<And>f c vs r. job_effects r (snd (run f c vs r))" and "\<And>c r. job_effects r (free_ctx c r)"
    and "rt' = polls n run free_ctx rt" and "before = interrupt_opaque rt" and "after = interrupt_opaque rt'"
  shows "(\<exists>waiting. enqueued after = ran after @ waiting \<and> (JS_IsJobPending rt' \<longleftrightarrow> waiting \<noteq> []))
    \<and> (\<exists>new more. enqueued after = enqueued before @ new \<and> ran after = ran before @ more)
    \<and> (JS_IsJobPending rt' \<longrightarrow> length (ran before) + n \<le> length (ran after))"
proof -
  have "fifo rt0 []" using assms(1,2) by (simp add: fifo_def)
  then obtain es where es: "fifo rt es" using effects_fifo [OF assms(3)] by blast
  obtain es' where e: "fifo rt' es'" "extends rt rt'" "es' = [] \<or> length (ran before) + n \<le> length (ran after)"
    using polls_fifo [where n = n and run = run and free_ctx = free_ctx, OF es assms(4,5)] assms(6-8) by blast
  have "JS_IsJobPending rt' \<longleftrightarrow> es' \<noteq> []" using e(1) queued_pending [of rt' es'] by (simp add: fifo_def)
  then show ?thesis using e assms(7,8) by (auto simp: fifo_def extends_def)
qed

text \<open>A runtime with no job.\<close>

definition job_rt :: jrt where
  "job_rt =
     \<lparr>rc = (\<lambda>_. 1), released = [], objects = (\<lambda>p. \<lparr>obj_class_id = 1, opaque = 0\<rparr>),
      current_exception = JS_Uninitialized, current_exception_is_uncatchable = False,
      interrupt_handler = 0, interrupt_opaque = \<lparr>enqueued = [], ran = []\<rparr>, context_list = [50, 60],
      interrupt_counter = (\<lambda>_. 10000), class_proto = (\<lambda>_. []), class_array = [],
      links_of = init_list_head 1 \<lparr>prev_of = (\<lambda>_. 0), next_of = (\<lambda>_. 0)\<rparr>, job_list = 1,
      job_at = (\<lambda>_. \<lparr>realm = 0, job_func = 0, job_argv = []\<rparr>),
      module_normalize_func = 0, module_loader_has_attr = False, module_loader_func = 0,
      module_check_attrs = 0, module_loader_opaque = 0, rejection_tracker = 0, rejection_tracker_opaque = 0\<rparr>"

lemma jobs_run_in_order_witness:
  "take 2 (ran (interrupt_opaque (polls 2 (\<lambda>f c vs r. (JS_Undefined, r)) (\<lambda>c r. r)
     (enqueue_logged 310 60 9 [] (enqueue_logged 300 50 8 [JS_Int 4] job_rt))))) = [(8, 50, [JS_Int 4]), (9, 60, [])]"
proof -
  let ?rt = "enqueue_logged 310 60 9 [] (enqueue_logged 300 50 8 [JS_Int 4] job_rt)"
  let ?final = "polls 2 (\<lambda>f c vs r. (JS_Undefined, r)) (\<lambda>c r. r) ?rt"
  have q0: "queued job_rt []" "interrupt_opaque job_rt = \<lparr>enqueued = [], ran = []\<rparr>" "job_list job_rt = 1"
    by (simp_all add: job_rt_def queued_def dlist_init)
  have unique: "es = es'" if "queued rt es" "queued rt es'" for rt :: jrt and es es'
    using that by (auto simp: queued_def intro: dlist_unique)
  have e1: "job_effects job_rt (enqueue_logged 300 50 8 [JS_Int 4] job_rt)"
    by (rule effects_enqueue [OF effects_nothing]) (use q0(3) in \<open>auto dest: unique [OF q0(1)]\<close>)
  have q1: "queued (enqueue_logged 300 50 8 [JS_Int 4] job_rt) [300]"
    using JS_EnqueueJob2_queued [OF q0(1), of 300 50 8 "[JS_Int 4]"] q0(3)
    by (auto simp: enqueue_logged_def queued_def JS_EnqueueJob2_def Let_def)
  have jl: "job_list (enqueue_logged 300 50 8 [JS_Int 4] job_rt) = 1" using q0(3) by (simp add: enqueue_logged_def prod.case_eq_if)
  have e2: "job_effects job_rt ?rt"
    by (rule effects_enqueue [OF e1]) (use jl in \<open>auto dest: unique [OF q1]\<close>)
  have h: "interrupt_opaque ?rt = \<lparr>enqueued = [(8, 50, [JS_Int 4]), (9, 60, [])], ran = []\<rparr>"
    by (simp add: enqueue_logged_def JS_EnqueueJob2_def JS_DupContext_def Let_def q0(2))
  define rt' after before where "rt' = ?final" and "after = interrupt_opaque rt'" and "before = interrupt_opaque ?rt"
  have n: "job_effects r (snd (JS_Undefined, r))" "job_effects r r" for r by (simp_all add: effects_nothing)
  note R = jobs_run_in_order [OF q0(1,2) e2 n rt'_def before_def after_def]
  obtain waiting where w1: "enqueued after = ran after @ waiting" "JS_IsJobPending rt' \<longleftrightarrow> waiting \<noteq> []" using R by blast
  obtain new where w2: "enqueued after = enqueued before @ new" using R by blast
  have b: "enqueued before = [(8, 50, [JS_Int 4]), (9, 60, [])]" "ran before = []" by (simp_all add: before_def h)
  have l: "waiting = [] \<or> 2 \<le> length (ran after)" using R w1(2) b(2) by (auto simp: numeral_2_eq_2)
  have w: "ran after @ waiting = [(8, 50, [JS_Int 4]), (9, 60, [])] @ new" using w1(1) w2 b(1) by simp
  have "take 2 xs = [a, b]" if t: "xs @ ws = [a, b] @ new" "ws = [] \<or> 2 \<le> length xs" for xs ws new :: "job_call list" and a b
  proof -
    obtain xs' where "xs = a # b # xs'" using t by (cases xs; cases "tl xs") auto
    then show ?thesis by (simp add: numeral_2_eq_2)
  qed
  from this [OF w l] show ?thesis unfolding after_def rt'_def .
qed

text \<open>C22: The list primitives implement lists: pushing in front, appending and unlinking any
  node of a well-formed list give the list of the corresponding nodes, and the loop macros
  visit exactly those nodes in order, forwards and backwards.\<close>

theorem list_primitives:
  assumes "dlist h head xs"
  shows "(el \<noteq> 0 \<and> el \<notin> set (head # xs) \<longrightarrow>
       dlist (list_add el head h) head (el # xs) \<and> dlist (list_add_tail el head h) head (xs @ [el]))
    \<and> (el \<in> set xs \<longrightarrow> dlist (list_del el h) head (remove1 el xs))
    \<and> list_for_each (Suc (length xs)) h head = Some xs
    \<and> list_for_each_prev (Suc (length xs)) h head = Some (rev xs) \<and> (list_empty head h \<longleftrightarrow> xs = [])"
  using dlist_add [OF assms] dlist_add_tail [OF assms] dlist_del [OF assms] dlist_empty_iff [OF assms]
    list_for_each_dlist [OF assms lessI] list_for_each_prev_dlist [OF assms lessI]
  by blast

lemma list_primitives_witness:
  "list_for_each 3 (list_add_tail 20 1 (list_add_tail 10 1 (init_list_head 1 \<lparr>prev_of = (\<lambda>_. 0), next_of = (\<lambda>_. 0)\<rparr>))) 1
     = Some [10, 20]"
proof -
  let ?h0 = "init_list_head 1 \<lparr>prev_of = (\<lambda>_. 0), next_of = (\<lambda>_. 0)\<rparr>"
  have 0: "dlist ?h0 1 []" by (rule dlist_init) simp
  have 1: "dlist (list_add_tail 10 1 ?h0) 1 [10]" using list_primitives [OF 0, of 10] by simp
  have 2: "dlist (list_add_tail 20 1 (list_add_tail 10 1 ?h0)) 1 [10, 20]" using list_primitives [OF 1, of 20] by simp
  show ?thesis using list_primitives [OF 2] by (simp add: eval_nat_numeral)
qed

section \<open>Copying data out\<close>

text \<open>C23: The key buffer protocol: with every key convertible, the call never touches the
  buffer outside the capacity it was given; a buffer that is large enough holds exactly the
  keys (the count is returned and decoding them gives them back), and for one that is not the
  negated size is returned, with which a second call succeeds.\<close>

theorem own_keys_protocol:
  assumes "\<And>r. fst (names r) = Some tab" and "\<And>a r. a \<in> set tab \<Longrightarrow> fst (atom_text a r) = Some (f a)"
    and "\<forall>a \<in> set tab. length (f a) < 2 ^ 32" and "keys_size (map f tab) < 2 ^ 63"
    and "unat capacity \<le> length buf"
  shows "\<exists>ret buf' rt'. qjs_bun_own_keys rnd ops now0 now1 names free_names atom_text free_text ctx buf capacity rt = Some (ret, buf', rt')
    \<and> length buf' = length buf \<and> drop (unat capacity) buf' = drop (unat capacity) buf
    \<and> (keys_size (map f tab) \<le> unat capacity \<longrightarrow> ret = int (length tab) \<and> decode_keys (length tab) buf' = Some (map f tab))
    \<and> (unat capacity < keys_size (map f tab) \<longrightarrow> ret = - int (keys_size (map f tab)))"
proof -
  let ?n = "keys_size (map f tab)"
  obtain t rt1 where 1: "qjs_bun_timeout ctx rt = (t, rt1)" by fastforce
  obtain scope rt2 where 2: "qjs_bun_enter rnd now0 t rt1 = (scope, rt2)" by fastforce
  obtain rt3 where 3: "names rt2 = (Some tab, rt3)" using assms(1) [of rt2] by (cases "names rt2") auto
  have "unat (0 :: u64) + ?n < 2 ^ 63" using assms(4) by simp
  from own_keys_loop_ok [where atom_text = atom_text and f = f and as = tab and free_text = free_text and rt = rt3, OF assms(2) this assms(5)]
  obtain buf' rt4 where 4: "own_keys_loop atom_text free_text capacity tab 0 buf rt3 = Some (True, word_of_nat ?n, buf', rt4)"
      "length buf' = length buf" "drop (unat capacity) buf' = drop (unat capacity) buf"
      "?n \<le> unat capacity \<longrightarrow> take ?n buf' = concat (map (encode_key \<circ> f) tab)"
    by auto
  have u: "unat (word_of_nat ?n :: u64) = ?n"
    using assms(4) by (simp add: unat_of_nat take_bit_nat_eq_self_iff)
  have s: "sint (word_of_nat ?n :: u64) = int ?n"
    using assms(4) by (simp add: signed_of_nat signed_take_bit_int_eq_self_iff)
  have le: "word_of_nat ?n \<le> capacity \<longleftrightarrow> ?n \<le> unat capacity"
    by (simp add: word_le_nat_alt u)
  have dec: "decode_keys (length tab) buf' = Some (map f tab)" if "?n \<le> unat capacity"
  proof -
    have "buf' = concat (map encode_key (map f tab)) @ drop ?n buf'"
      using that 4(4) by (metis append_take_drop_id comp_apply map_map)
    then show ?thesis
      using decode_encode_keys [of "map f tab" "drop ?n buf'"] assms(3) by simp
  qed
  show ?thesis
    using 1 2 3 4 s le dec by (auto simp: qjs_bun_own_keys_def Let_def)
qed

lemma own_keys_protocol_witness:
  "\<exists>ret buf' rt'. qjs_bun_own_keys Ms (engine_error_ops 70 71) (Ms 0) (Ms 1) (\<lambda>r. (Some [3, 4], r)) (\<lambda>tab r. r)
       (\<lambda>a r. (Some [ucast a, 7], r)) (\<lambda>t r. r) 50 (replicate 12 0) 12 sample_rt = Some (ret, buf', rt')
     \<and> ret = 2 \<and> decode_keys (length [3, 4 :: u32]) buf' = Some [[3, 7], [4, 7]]"
proof -
  let ?f = "\<lambda>a :: u32. [ucast a, 7] :: u8 list" and ?buf = "replicate 12 (0 :: u8)"
  have k: "keys_size (map ?f [3, 4]) = 12" by simp
  have "\<exists>ret buf' rt'. qjs_bun_own_keys Ms (engine_error_ops 70 71) (Ms 0) (Ms 1) (\<lambda>r. (Some [3, 4], r)) (\<lambda>tab r. r)
       (\<lambda>a r. (Some (?f a), r)) (\<lambda>t r. r) 50 ?buf 12 sample_rt = Some (ret, buf', rt')
    \<and> length buf' = length ?buf \<and> drop (unat (12 :: u64)) buf' = drop (unat (12 :: u64)) ?buf
    \<and> (keys_size (map ?f [3, 4]) \<le> unat (12 :: u64) \<longrightarrow>
         ret = int (length [3, 4 :: u32]) \<and> decode_keys (length [3, 4 :: u32]) buf' = Some (map ?f [3, 4]))
    \<and> (unat (12 :: u64) < keys_size (map ?f [3, 4]) \<longrightarrow> ret = - int (keys_size (map ?f [3, 4])))"
    by (rule own_keys_protocol [where f = ?f]) simp_all
  moreover have "length [3, 4 :: u32] = 2" "unat (12 :: u64) = 12" "map ?f [3, 4] = [[3, 7], [4, 7]]" by simp_all
  ultimately show ?thesis unfolding k by (auto simp del: decode_keys.simps)
qed

text \<open>C24: Reading a data property over a finite prototype chain of ordinary objects ends and
  gives the value of the nearest own property, or undefined for an accessor, a missing property
  or a chain that leaves the plain objects; it runs no guest code, and every reference it takes
  on the way is released: the counts afterwards are those before plus the returned value's.\<close>

theorem data_property_read:
  assumes "interrupt_handler rt = BUN_INTERRUPT" and "data_property own proto (objects rt) a p v"
    and "refs_alive own proto rt" and "counted rt (JS_Object p)" and "v \<noteq> JS_Exception"
  shows "\<exists>n. \<forall>m \<ge> n.
    qjs_bun_get_data_property rnd ops now0 now1 (ordinary_get_own own) (ordinary_get_proto proto) m ctx (JS_Object p) a rt =
      Some (v, dup1 v (snd (qjs_bun_timeout ctx rt)))"
proof -
  obtain t rt1 where 1: "qjs_bun_timeout ctx rt = (t, rt1)" by fastforce
  have f1: "interrupt_handler rt1 = BUN_INTERRUPT" "objects rt1 = objects rt" "rc rt1 = rc rt"
    using 1 assms(1)
    by (auto simp: qjs_bun_timeout_def qjs_bun_state_def put_state_def split: option.splits prod.splits)
  obtain scope rt2 where 2: "qjs_bun_enter rnd now0 t rt1 = (scope, rt2)" by fastforce
  have f2: "has_state scope" "saved_ms scope = deadline rt1" "rt2 = set_deadline (deadline rt2) rt1"
    using 2 f1(1)
    by (auto simp: qjs_bun_enter_def qjs_bun_state_def set_deadline_def put_state_def Let_def split: if_splits)
  have fr: "objects (set_deadline d r) = objects r" "rc (set_deadline d r) = rc r" for d r
    by (simp_all add: set_deadline_def put_state_def)
  have o2: "objects rt2 = objects rt" "rc rt2 = rc rt"
    using f2(3) fr f1 by metis+
  have "data_property own proto (objects rt2) a p v" "refs_alive own proto rt2" "counted rt2 (JS_Object p)"
    using assms o2 by (simp_all add: refs_alive_def counted_def)
  from ordinary.data_walk_property [OF this] obtain n where
    n: "\<forall>m \<ge> n. \<exists>held. data_walk (ordinary_get_own own) (ordinary_get_proto proto) a m (JS_Object p)
           (dup1 (JS_Object p) rt2) = Some (v, held, dup1 v (dup1 held rt2)) \<and> counted rt2 held" by blast
  have rel: "JS_FreeValue held (dup1 v (dup1 held rt2)) = dup1 v rt2" if "counted rt2 held" for held
    using that by (metis counted_dup dup_commute free_dup_counted)
  have restored: "set_deadline (deadline rt1) (dup1 v rt2) = dup1 v rt1"
    by (subst f2(3)) (simp add: set_deadline_def put_state_def JS_DupValue_def)
  have "qjs_bun_get_data_property rnd ops now0 now1 (ordinary_get_own own) (ordinary_get_proto proto) m ctx (JS_Object p) a rt
      = Some (v, dup1 v rt1)" if m: "n \<le> m" for m
  proof -
    obtain held where h: "data_walk (ordinary_get_own own) (ordinary_get_proto proto) a m (JS_Object p)
           (dup1 (JS_Object p) rt2) = Some (v, held, dup1 v (dup1 held rt2))" "counted rt2 held" using n m by blast
    obtain rt3 where d: "JS_DupValue (JS_Object p) rt2 = (JS_Object p, rt3)"
      by (metis fst_JS_DupValue prod.collapse)
    show ?thesis
      using 1 2 h rel [OF h(2)] restored f2(1,2) assms(5) d
      by (simp add: qjs_bun_get_data_property_def qjs_bun_leave_def)
  qed
  then show ?thesis using 1 by auto
qed

lemma data_property_read_witness:
  "\<exists>n. \<forall>m \<ge> n. qjs_bun_get_data_property Ms (engine_error_ops 70 71) (Ms 0) (Ms 1)
     (ordinary_get_own (\<lambda>p a. if p = 2 then Some \<lparr>desc_flags = 7, desc_value = JS_Int 5, desc_getter = JS_Undefined,
        desc_setter = JS_Undefined\<rparr> else None))
     (ordinary_get_proto (\<lambda>p. if p = 1 then JS_Object 2 else JS_Null)) m 50 (JS_Object 1) 3 sample_rt =
       Some (JS_Int 5, dup1 (JS_Int 5) (snd (qjs_bun_timeout 50 sample_rt)))"
proof -
  let ?own = "\<lambda>p a. if p = (2 :: addr) then Some \<lparr>desc_flags = 7, desc_value = JS_Int 5, desc_getter = JS_Undefined,
        desc_setter = JS_Undefined\<rparr> else None"
  let ?proto = "\<lambda>p. if p = (1 :: addr) then JS_Object 2 else JS_Null"
  have "data_property ?own ?proto (objects sample_rt) 3 2 (JS_Int 5)"
    using data_property.data [of ?own 2 3 _ ?proto "objects sample_rt"] by (simp add: JS_PROP_GETSET_def)
  then have d: "data_property ?own ?proto (objects sample_rt) 3 1 (JS_Int 5)"
    by (rule data_property.inherited [where q = 2, rotated 3]) (simp_all add: JS_CLASS_OBJECT_def)
  have "refs_alive ?own ?proto sample_rt" "counted sample_rt (JS_Object 1)"
    by (auto simp: refs_alive_def counted_def)
  from data_property_read [OF _ d this] show ?thesis by simp
qed

end
