(* ===== verification/CBytes.thy ===== *)
theory CBytes
  imports Prelude
begin

text \<open>
  The inline helpers of \<open>quickjs/cutils.h\<close>: minima and maxima, bit scans, unaligned loads and
  stores in little-endian byte order, byte swaps, surrogate pairs, hexadecimal digits and
  half-precision floats, the latter on the bit patterns of doubles.
\<close>

section \<open>Minima, maxima and bit scans\<close>

definition max_int :: "int \<Rightarrow> int \<Rightarrow> int" where
  "max_int a b = (if a > b then a else b)"

definition min_int :: "int \<Rightarrow> int \<Rightarrow> int" where
  "min_int a b = (if a < b then a else b)"

definition max_uint32 :: "u32 \<Rightarrow> u32 \<Rightarrow> u32" where
  "max_uint32 a b = (if a > b then a else b)"

definition min_uint32 :: "u32 \<Rightarrow> u32 \<Rightarrow> u32" where
  "min_uint32 a b = (if a < b then a else b)"

definition max_int64 :: "int \<Rightarrow> int \<Rightarrow> int" where
  "max_int64 a b = (if a > b then a else b)"

definition min_int64 :: "int \<Rightarrow> int \<Rightarrow> int" where
  "min_int64 a b = (if a < b then a else b)"

text \<open>The compiler's bit scans; None for a zero argument, on which they are undefined.\<close>

definition clz32 :: "u32 \<Rightarrow> nat option" where
  "clz32 a = (if a = 0 then None else Some (length (takeWhile (\<lambda>i. \<not> bit a i) (rev [0..<32]))))"

definition clz64 :: "u64 \<Rightarrow> nat option" where
  "clz64 a = (if a = 0 then None else Some (length (takeWhile (\<lambda>i. \<not> bit a i) (rev [0..<64]))))"

definition ctz32 :: "u32 \<Rightarrow> nat option" where
  "ctz32 a = (if a = 0 then None else Some (length (takeWhile (\<lambda>i. \<not> bit a i) [0..<32])))"

definition ctz64 :: "u64 \<Rightarrow> nat option" where
  "ctz64 a = (if a = 0 then None else Some (length (takeWhile (\<lambda>i. \<not> bit a i) [0..<64])))"

text \<open>A found bit position: the bit is set and no bit before it on the way is.\<close>

lemma takeWhile_scan:
  assumes "\<exists>i \<in> set xs. P i"
  shows "length (takeWhile (\<lambda>i. \<not> P i) xs) < length xs"
    and "P (xs ! length (takeWhile (\<lambda>i. \<not> P i) xs))"
    and "\<And>j. j < length (takeWhile (\<lambda>i. \<not> P i) xs) \<Longrightarrow> \<not> P (xs ! j)"
proof -
  let ?n = "length (takeWhile (\<lambda>i. \<not> P i) xs)"
  have "takeWhile (\<lambda>i. \<not> P i) xs \<noteq> xs"
    using assms by (metis takeWhile_eq_all_conv)
  then show lt: "?n < length xs"
    by (metis length_takeWhile_le linorder_not_less nat_less_le takeWhile_eq_take take_all)
  show "P (xs ! ?n)" using nth_length_takeWhile [OF lt] by simp
  show "\<not> P (xs ! j)" if "j < ?n" for j
    using that by (metis nth_mem set_takeWhileD takeWhile_nth)
qed

lemma word_bit_exists:
  fixes a :: "'a::len word"
  assumes "a \<noteq> 0"
  shows "\<exists>i < LENGTH('a). bit a i"
  using assms by (metis bit_imp_le_length bit_word_eqI bit_0_eq bot_apply bot_bool_def)

lemma ctz32_spec:
  assumes "ctz32 a = Some n"
  shows "n < 32 \<and> bit a n \<and> (\<forall>i < n. \<not> bit a i)"
proof -
  have a: "a \<noteq> 0" and n: "n = length (takeWhile (\<lambda>i. \<not> bit a i) [0..<32])"
    using assms by (auto simp: ctz32_def split: if_splits)
  have "\<exists>i \<in> set [0..<32]. bit a i" using word_bit_exists [OF a] by auto
  note s = takeWhile_scan [OF this]
  show ?thesis using s unfolding n [symmetric] by auto
qed

lemma clz32_spec:
  assumes "clz32 a = Some n"
  shows "n < 32 \<and> bit a (31 - n) \<and> (\<forall>i > 31 - n. \<not> bit a i)"
proof -
  have a: "a \<noteq> 0" and n: "n = length (takeWhile (\<lambda>i. \<not> bit a i) (rev [0..<32]))"
    using assms by (auto simp: clz32_def split: if_splits)
  have "\<exists>i \<in> set (rev [0..<32]). bit a i" using word_bit_exists [OF a] by auto
  note s = takeWhile_scan [OF this, folded n]
  have "n < 32" using s(1) by simp
  moreover have nth: "rev [0..<32] ! j = 31 - j" if "j < 32" for j
    using that by (simp add: rev_nth)
  moreover have "\<not> bit a i" if "i > 31 - n" for i
  proof (cases "i < 32")
    case True
    then have "31 - i < n" using that by linarith
    then have "\<not> bit a (rev [0..<32] ! (31 - i))" by (rule s(3))
    moreover have "rev [0..<32] ! (31 - i) = i" using nth [of "31 - i"] True by simp
    ultimately show ?thesis by simp
  qed (auto dest: bit_imp_le_length)
  ultimately show ?thesis using s(2) by auto
qed


lemma clz64_spec:
  assumes "clz64 a = Some n"
  shows "n < 64 \<and> bit a (63 - n) \<and> (\<forall>i > 63 - n. \<not> bit a i)"
proof -
  have a: "a \<noteq> 0" and n: "n = length (takeWhile (\<lambda>i. \<not> bit a i) (rev [0..<64]))"
    using assms by (auto simp: clz64_def split: if_splits)
  have "\<exists>i \<in> set (rev [0..<64]). bit a i" using word_bit_exists [OF a] by auto
  note s = takeWhile_scan [OF this, folded n]
  have "n < 64" using s(1) by simp
  moreover have nth: "rev [0..<64] ! j = 63 - j" if "j < 64" for j
    using that by (simp add: rev_nth)
  moreover have "\<not> bit a i" if "i > 63 - n" for i
  proof (cases "i < 64")
    case True
    then have "63 - i < n" using that by linarith
    then have "\<not> bit a (rev [0..<64] ! (63 - i))" by (rule s(3))
    moreover have "rev [0..<64] ! (63 - i) = i" using nth [of "63 - i"] True by simp
    ultimately show ?thesis by simp
  qed (auto dest: bit_imp_le_length)
  ultimately show ?thesis using s(2) by auto
qed

text \<open>The highest bit of a number.\<close>

lemma top_bit:
  assumes "0 \<le> (x :: int)" "bit x k" "\<And>i. k < i \<Longrightarrow> \<not> bit x i"
  shows "2 ^ k \<le> x" "x < 2 ^ Suc k"
proof -
  have "x div 2 ^ k \<noteq> 0" using assms(2) by (auto simp: bit_iff_odd)
  then show "2 ^ k \<le> x" by (metis div_pos_pos_trivial not_less assms(1))
  have "i \<le> k" if "bit x i" for i using that assms(3) [of i] by (cases "i \<le> k") simp_all
  then have "take_bit (Suc k) x = x" by (intro bit_eqI) (auto simp: bit_take_bit_iff less_Suc_eq_le)
  then have "x mod 2 ^ Suc k = x" by (simp only: take_bit_eq_mod)
  then show "x < 2 ^ Suc k" using pos_mod_bound [of "2 ^ Suc k" x] by (simp del: power_Suc)
qed
section \<open>Loads and stores\<close>

text \<open>\<open>tab\<close> is the memory from the pointer on.\<close>

definition load_le :: "nat \<Rightarrow> u8 list \<Rightarrow> 'a::len word option" where
  "load_le n tab = (if n \<le> length tab then Some (of_le (take n tab)) else None)"

definition get_u64 :: "u8 list \<Rightarrow> u64 option" where "get_u64 tab = load_le 8 tab"
definition get_u32 :: "u8 list \<Rightarrow> u32 option" where "get_u32 tab = load_le 4 tab"
definition get_u16 :: "u8 list \<Rightarrow> u16 option" where "get_u16 tab = load_le 2 tab"
definition get_u8 :: "u8 list \<Rightarrow> u8 option" where "get_u8 tab = load_le 1 tab"
definition get_i64 :: "u8 list \<Rightarrow> int option" where
  "get_i64 tab = map_option (\<lambda>w :: u64. sint w) (load_le 8 tab)"
definition get_i32 :: "u8 list \<Rightarrow> int option" where
  "get_i32 tab = map_option (\<lambda>w :: u32. sint w) (load_le 4 tab)"
definition get_i16 :: "u8 list \<Rightarrow> int option" where
  "get_i16 tab = map_option (\<lambda>w :: u16. sint w) (load_le 2 tab)"
definition get_i8 :: "u8 list \<Rightarrow> int option" where
  "get_i8 tab = map_option (\<lambda>w :: u8. sint w) (load_le 1 tab)"

definition put_u64 :: "u8 list \<Rightarrow> u64 \<Rightarrow> u8 list option" where "put_u64 tab v = blit tab 0 (le64 v)"
definition put_u32 :: "u8 list \<Rightarrow> u32 \<Rightarrow> u8 list option" where "put_u32 tab v = blit tab 0 (le32 v)"
definition put_u16 :: "u8 list \<Rightarrow> u16 \<Rightarrow> u8 list option" where "put_u16 tab v = blit tab 0 (le16 v)"
definition put_u8 :: "u8 list \<Rightarrow> u8 \<Rightarrow> u8 list option" where "put_u8 tab v = wr tab 0 v"

lemma load_store:
  "blit tab 0 (le_bytes n w) = Some tab' \<Longrightarrow> load_le n tab' = Some (take_bit (8 * n) w)"
  by (auto simp: load_le_def blit_Some_iff of_le_le_bytes)

section \<open>Byte swaps\<close>

definition bswap16 :: "u16 \<Rightarrow> u16" where
  "bswap16 x = drop_bit 8 x OR push_bit 8 x"

definition bswap32 :: "u32 \<Rightarrow> u32" where
  "bswap32 v = drop_bit 24 (v AND 0xff000000) OR drop_bit 8 (v AND 0x00ff0000)
     OR push_bit 8 (v AND 0x0000ff00) OR push_bit 24 (v AND 0x000000ff)"

definition bswap64 :: "u64 \<Rightarrow> u64" where
  "bswap64 v =
     drop_bit 56 (v AND push_bit 56 0xff) OR drop_bit 40 (v AND push_bit 48 0xff)
     OR drop_bit 24 (v AND push_bit 40 0xff) OR drop_bit 8 (v AND push_bit 32 0xff)
     OR push_bit 8 (v AND push_bit 24 0xff) OR push_bit 24 (v AND push_bit 16 0xff)
     OR push_bit 40 (v AND push_bit 8 0xff) OR push_bit 56 (v AND push_bit 0 0xff)"

section \<open>Surrogates and digits\<close>

definition is_surrogate :: "u32 \<Rightarrow> bool" where
  "is_surrogate c \<longleftrightarrow> drop_bit 11 c = drop_bit 11 0xD800"

definition is_hi_surrogate :: "u32 \<Rightarrow> bool" where
  "is_hi_surrogate c \<longleftrightarrow> drop_bit 10 c = drop_bit 10 0xD800"

definition is_lo_surrogate :: "u32 \<Rightarrow> bool" where
  "is_lo_surrogate c \<longleftrightarrow> drop_bit 10 c = drop_bit 10 0xDC00"

definition get_hi_surrogate :: "u32 \<Rightarrow> u32" where
  "get_hi_surrogate c = drop_bit 10 c - drop_bit 10 0x10000 + 0xD800"

definition get_lo_surrogate :: "u32 \<Rightarrow> u32" where
  "get_lo_surrogate c = (c AND 0x3FF) OR 0xDC00"

definition from_surrogate :: "u32 \<Rightarrow> u32 \<Rightarrow> u32" where
  "from_surrogate hi lo = 0x10000 + 0x400 * (hi - 0xD800) + (lo - 0xDC00)"

definition from_hex :: "int \<Rightarrow> int" where
  "from_hex c =
     (if c \<ge> 48 \<and> c \<le> 57 then c - 48
      else if c \<ge> 65 \<and> c \<le> 70 then c - 65 + 10
      else if c \<ge> 97 \<and> c \<le> 102 then c - 97 + 10
      else -1)"

section \<open>Half-precision floats\<close>

text \<open>
  A double is its bit pattern. \<open>fromfp16_bits\<close> is the pattern before the exact scaling by
  \<open>2 ^ 1008\<close> that the code applies last.
\<close>

definition fromfp16_bits :: "u16 \<Rightarrow> u64" where
  "fromfp16_bits v =
     (let v1 = (ucast v :: u32) AND 0x7fff;
          v2 = (if v1 \<ge> 0x7c00 then v1 + 0x1f8000 else v1)
      in push_bit 63 (ucast (drop_bit 15 v)) OR push_bit (52 - 10) (ucast v2))"

definition tofp16 :: "u64 \<Rightarrow> u16" where
  "tofp16 d =
     (let sgn = ucast (drop_bit 63 d) :: u32;
          a = d AND 0x7fffffffffffffff;
          v = (if a > 0x7ff0000000000000 then 0x7c01
               else if a < 0x3f10000000000000 then
                 (if a \<le> 0x3e60000000000000 then 0
                  else
                    let shift = 1051 - unat (drop_bit 52 a);
                        m = push_bit 52 1 OR (a AND (push_bit 52 1 - 1));
                        addend = (drop_bit shift m AND 1) + (push_bit (shift - 1) 1 - 1)
                    in ucast (drop_bit shift (m + addend)))
               else
                 let e = a - 0x3f00000000000000;
                     addend = (drop_bit (52 - 10) e AND 1) + (push_bit (52 - 11) 1 - 1);
                     w = ucast (drop_bit (52 - 10) (e + addend)) :: u32
                 in if w > 0x7c00 then 0x7c00 else w)
      in ucast (v OR push_bit 15 sgn))"

definition isfp16nan :: "u16 \<Rightarrow> bool" where
  "isfp16nan v \<longleftrightarrow> (v AND 0x7FFF) > 0x7C00"

definition isfp16zero :: "u16 \<Rightarrow> bool" where
  "isfp16zero v \<longleftrightarrow> (v AND 0x7FFF) = 0"

section \<open>Facts\<close>

lemma unat_and_mask: "unat (x AND mask n) = unat x mod 2 ^ n"
  by (simp flip: take_bit_eq_mask take_bit_eq_mod unsigned_take_bit_eq)

lemma unat_shr: "unat (drop_bit n x) = unat x div 2 ^ n"
  unfolding unat_drop_bit_eq by (simp add: drop_bit_eq_div)

lemma mask_numerals:
  "(0x3f :: 'a::len word) = mask 6" "(0x1f :: 'a word) = mask 5" "(0xf :: 'a word) = mask 4"
  "(0x7 :: 'a word) = mask 3" "(0x3 :: 'a word) = mask 2" "(0x1 :: 'a word) = mask 1"
  "(0x3ff :: 'a word) = mask 10" "(0x7fff :: 'a word) = mask 15" "(0xff :: 'a word) = mask 8"
  by (simp_all add: mask_eq_exp_minus_1)

lemma unat_or_disjoint:
  fixes x y :: "'a::len word"
  assumes "x AND y = 0"
  shows "unat (x OR y) = unat x + unat y"
proof -
  have "unat x AND unat y = 0" using assms by (metis unsigned_0 unsigned_and_eq)
  moreover have "\<not> bit (unat x) n \<or> \<not> bit (unat y) n" for n
    using calculation by (metis bit_and_iff bit_0_eq bot_apply bot_bool_def)
  ultimately show ?thesis by (simp add: unsigned_or_eq disjunctive_add_eq_or)
qed

lemma word_of_nat_unat: "word_of_nat (unat w) = w"
  by simp

lemma from_surrogate_nat:
  assumes "unat (hi - 0xD800) = a" "unat (lo - 0xDC00) = b"
  shows "from_surrogate hi lo = word_of_nat (65536 + 1024 * a + b)"
  by (simp flip: assms add: from_surrogate_def)

lemma div_bounds_nat:
  assumes "n div 1024 = (k :: nat)"
  shows "n = 1024 * k + n mod 1024 \<and> n mod 1024 < 1024"
  using assms div_mult_mod_eq [of n 1024] by (simp add: mult.commute)

lemma get_hi_surrogate_nat:
  assumes "65536 \<le> unat x"
  shows "unat (get_hi_surrogate x) = unat x div 1024 - 64 + 55296"
proof -
  let ?q = "unat x div 1024"
  have "drop_bit 10 x = word_of_nat (unat (drop_bit 10 x))" by simp
  then have d: "drop_bit 10 x = word_of_nat ?q" unfolding unat_shr by simp
  have "64 \<le> ?q" using div_le_mono [OF assms, of 1024] by simp
  then have g: "get_hi_surrogate x = word_of_nat (?q - 64 + 55296)"
    by (simp add: get_hi_surrogate_def d of_nat_diff)
  have "unat x < 4294967296" by (rule less_le_trans [OF unsigned_less]) simp
  then have "?q < 4294967296 div 1024" by (simp add: div_less_iff_less_mult)
  then show ?thesis unfolding g by (intro unat_small) simp
qed

lemma unat_get_lo_surrogate: "unat (get_lo_surrogate c) = unat c mod 1024 + 56320"
proof -
  have "(c AND 0x3FF) AND 0xDC00 = 0" by (simp add: and.assoc)
  then have "unat (get_lo_surrogate c) = unat (c AND mask 10) + 56320"
    by (simp add: get_lo_surrogate_def unat_or_disjoint mask_eq_exp_minus_1)
  then show ?thesis by (simp add: unat_and_mask)
qed

lemma is_hi_surrogate_nat: "is_hi_surrogate c \<longleftrightarrow> 55296 \<le> unat c \<and> unat c < 56320"
  by (auto simp: is_hi_surrogate_def word_unat_eq_iff unat_shr div_nat_eqI dest: div_bounds_nat)

lemma is_lo_surrogate_nat: "is_lo_surrogate c \<longleftrightarrow> 56320 \<le> unat c \<and> unat c < 57344"
  by (auto simp: is_lo_surrogate_def word_unat_eq_iff unat_shr div_nat_eqI dest: div_bounds_nat)

text \<open>Surrogates split and join the code points above the first plane.\<close>

lemma surrogate_roundtrip:
  assumes "0x10000 \<le> c" "c \<le> 0x10FFFF"
  shows "is_hi_surrogate (get_hi_surrogate c) \<and> is_lo_surrogate (get_lo_surrogate c)
    \<and> from_surrogate (get_hi_surrogate c) (get_lo_surrogate c) = c"
proof -
  have c: "65536 \<le> unat c" "unat c \<le> 1114111" using assms by (simp_all add: word_le_nat_alt)
  define q r where "q = unat c div 1024" and "r = unat c mod 1024"
  have qr: "unat c = 1024 * q + r" "r < 1024" unfolding q_def r_def by simp_all
  then have q: "64 \<le> q" "q \<le> 1087" using c by linarith+
  note h = get_hi_surrogate_nat [OF c(1), folded q_def] and l = unat_get_lo_surrogate [of c, folded r_def]
  have "unat (get_hi_surrogate c - 0xD800) = q - 64" "unat (get_lo_surrogate c - 0xDC00) = r"
    using h l by (simp_all add: unat_sub word_le_nat_alt)
  then have "from_surrogate (get_hi_surrogate c) (get_lo_surrogate c) = word_of_nat (65536 + 1024 * (q - 64) + r)"
    by (rule from_surrogate_nat)
  moreover have "65536 + 1024 * (q - 64) + r = unat c" using q qr by simp
  ultimately have "from_surrogate (get_hi_surrogate c) (get_lo_surrogate c) = c"
    by (simp only: word_of_nat_unat)
  then show ?thesis using h l q qr(2) by (simp add: is_hi_surrogate_nat is_lo_surrogate_nat)
qed

lemma from_surrogate_range:
  assumes "is_hi_surrogate hi" "is_lo_surrogate lo"
  shows "0x10000 \<le> from_surrogate hi lo \<and> from_surrogate hi lo \<le> 0x10FFFF
    \<and> get_hi_surrogate (from_surrogate hi lo) = hi \<and> get_lo_surrogate (from_surrogate hi lo) = lo"
proof -
  define a b where "a = unat hi - 55296" and "b = unat lo - 56320"
  have h: "unat hi = 55296 + a" "a < 1024" and l: "unat lo = 56320 + b" "b < 1024"
    using assms by (auto simp: is_hi_surrogate_nat is_lo_surrogate_nat a_def b_def)
  have "unat (hi - 0xD800) = a" "unat (lo - 0xDC00) = b"
    using h l by (simp_all add: unat_sub word_le_nat_alt)
  then have w: "from_surrogate hi lo = word_of_nat (65536 + 1024 * a + b)" by (rule from_surrogate_nat)
  let ?c = "from_surrogate hi lo"
  have f: "unat ?c = 65536 + 1024 * a + b" unfolding w by (rule unat_small) (use h(2) l(2) in simp)
  then have "65536 + 1024 * a + b = 1024 * (64 + a) + b" by simp
  then have d: "unat ?c div 1024 = 64 + a" "unat ?c mod 1024 = b"
    unfolding f using l(2) by (simp_all only: div_mult_self4 mod_mult_self4) simp_all
  have "unat (get_hi_surrogate ?c) = unat hi" using get_hi_surrogate_nat [of ?c] f d h by simp
  moreover have "unat (get_lo_surrogate ?c) = unat lo" using d l by (simp add: unat_get_lo_surrogate)
  ultimately show ?thesis using f h(2) l(2) by (simp add: word_le_nat_alt word_unat_eq_iff)
qed

lemma le32_expand:
  "le32 w = [ucast w, ucast (drop_bit 8 w), ucast (drop_bit 16 w), ucast (drop_bit 24 w)]"
proof -
  have 4: "4 = Suc (Suc (Suc (Suc 0)))" by simp
  show ?thesis unfolding 4 by (simp only: le_bytes.simps drop_bit_drop_bit) simp
qed

end
