(* ===== verification/Utf8.thy ===== *)
theory Utf8
  imports CBytes
begin

text \<open>
  The UTF-8 coder of \<open>quickjs/cutils.c\<close> (\<open>unicode_to_utf8\<close>, \<open>unicode_from_utf8\<close>), which
  covers code points of up to 31 bits in up to six bytes. The proofs read words as numbers: a
  sequence is a lead byte and base-64 digits.
\<close>

section \<open>The coder\<close>

definition unicode_to_utf8 :: "u32 \<Rightarrow> u8 list" where
  "unicode_to_utf8 c =
     (let cont = (\<lambda>n. ucast ((drop_bit n c AND 0x3f) OR 0x80) :: u8)
      in if c < 0x80 then [ucast c]
         else if c < 0x800 then [ucast (drop_bit 6 c OR 0xc0), cont 0]
         else if c < 0x10000 then [ucast (drop_bit 12 c OR 0xe0), cont 6, cont 0]
         else if c < 0x00200000 then [ucast (drop_bit 18 c OR 0xf0), cont 12, cont 6, cont 0]
         else if c < 0x04000000 then [ucast (drop_bit 24 c OR 0xf8), cont 18, cont 12, cont 6, cont 0]
         else if c < 0x80000000 then [ucast (drop_bit 30 c OR 0xfc), cont 24, cont 18, cont 12, cont 6, cont 0]
         else [])"

definition utf8_min_code :: "nat \<Rightarrow> u32" where
  "utf8_min_code i = [0x80, 0x800, 0x10000, 0x00200000, 0x04000000] ! i"

definition utf8_first_code_mask :: "nat \<Rightarrow> u32" where
  "utf8_first_code_mask i = [0x1f, 0xf, 0x7, 0x3, 0x1] ! i"

text \<open>
  \<open>OutOfBounds\<close>: the code would read past the memory it was given; \<open>Invalid\<close>: it returns
  -1; \<open>Char c k\<close>: it returns \<open>c\<close> and advances by \<open>k\<close> bytes.
\<close>

datatype utf8_result = OutOfBounds | Invalid | Char u32 nat

text \<open>The switch on the first byte: the number of bytes that follow, None for an invalid one.\<close>

definition utf8_trailing :: "u8 \<Rightarrow> nat option" where
  "utf8_trailing b =
     (if 0xc0 \<le> b \<and> b \<le> 0xdf then Some 1
      else if 0xe0 \<le> b \<and> b \<le> 0xef then Some 2
      else if 0xf0 \<le> b \<and> b \<le> 0xf7 then Some 3
      else if 0xf8 \<le> b \<and> b \<le> 0xfb then Some 4
      else if 0xfc \<le> b \<and> b \<le> 0xfd then Some 5
      else None)"

fun utf8_loop :: "nat \<Rightarrow> u8 list \<Rightarrow> u32 \<Rightarrow> utf8_result" where
  "utf8_loop 0 p c = Char c 0"
| "utf8_loop (Suc l) [] c = OutOfBounds"
| "utf8_loop (Suc l) (b # p) c =
     (if b < 0x80 \<or> b \<ge> 0xc0 then Invalid
      else utf8_loop l p (push_bit 6 c OR (ucast b AND 0x3f)))"

definition unicode_from_utf8 :: "u8 list \<Rightarrow> int \<Rightarrow> utf8_result" where
  "unicode_from_utf8 p max_len =
     (case p of
        [] \<Rightarrow> OutOfBounds
      | b # q \<Rightarrow>
          if b < 0x80 then Char (ucast b) 1
          else (case utf8_trailing b of
                  None \<Rightarrow> Invalid
                | Some l \<Rightarrow>
                    if int l > max_len - 1 then Invalid
                    else (case utf8_loop l q (ucast b AND utf8_first_code_mask (l - 1)) of
                            Char c _ \<Rightarrow> if c < utf8_min_code (l - 1) then Invalid else Char c (Suc l)
                          | r \<Rightarrow> r)))"

section \<open>Bytes as numbers\<close>

lemma unat_ucast_u8: "unat (ucast (w :: u32) :: u8) = unat w mod 256"
  by (simp add: unsigned_ucast_eq take_bit_eq_mod)

lemma unat_ucast_u32: "unat (ucast (b :: u8) :: u32) = unat b"
proof -
  have "unat b < 2 ^ 32" by (rule less_le_trans [OF unsigned_less]) simp
  then show ?thesis by (simp add: unsigned_ucast_eq take_bit_nat_eq_self_iff)
qed

lemma small_and_eq_0:
  fixes x y :: "'a::len word"
  assumes "unat x < 2 ^ k" "mask k AND y = 0"
  shows "x AND y = 0"
proof -
  have "x = x AND mask k"
    using assms(1) by (simp add: word_unat_eq_iff unat_and_mask)
  then show ?thesis using assms(2) by (metis and.assoc and_zero_eq)
qed

lemma unat_cont:
  "unat (ucast ((drop_bit n c AND 0x3f) OR 0x80) :: u8) = unat c div 2 ^ n mod 64 + 128" for c :: u32
proof -
  have z: "(drop_bit n c AND mask 6) AND 0x80 = 0"
    by (simp add: and.assoc mask_eq_exp_minus_1)
  have "unat ((drop_bit n c AND 0x3f) OR 0x80) = unat c div 2 ^ n mod 64 + 128"
    unfolding mask_numerals unat_or_disjoint [OF z] unat_and_mask unat_shr by simp
  moreover have "unat c div 2 ^ n mod 64 < 64" by simp
  ultimately show ?thesis unfolding unat_ucast_u8 by simp
qed

lemma unat_lead:
  fixes c m :: u32
  assumes "unat c div 2 ^ n < 2 ^ k" "mask k AND m = 0" "2 ^ k + unat m \<le> 256"
  shows "unat (ucast (drop_bit n c OR m) :: u8) = unat c div 2 ^ n + unat m"
proof -
  have z: "drop_bit n c AND m = 0"
    by (rule small_and_eq_0 [OF _ assms(2)]) (use assms(1) in \<open>simp only: unat_shr\<close>)
  have o: "unat (drop_bit n c OR m) = unat c div 2 ^ n + unat m"
    unfolding unat_or_disjoint [OF z] unat_shr by (rule refl)
  have "unat c div 2 ^ n + unat m < 256" using assms(1,3) by linarith
  then show ?thesis unfolding unat_ucast_u8 o by (rule mod_less)
qed

lemma unat_step:
  fixes c :: u32
  assumes "unat c < 2 ^ 26"
  shows "unat (push_bit 6 c OR (ucast b AND 0x3f)) = unat c * 64 + unat (b :: u8) mod 64"
proof -
  have d: "push_bit 6 c AND (ucast b AND mask 6) = 0"
    by (rule bit_word_eqI) (simp add: bit_simps)
  have "unat (c * 64) = unat c * unat (64 :: u32)"
    using assms by (subst unat_mult_lem [symmetric]) simp
  then have "unat (push_bit 6 c) = unat c * 64" by (simp add: push_bit_eq_mult)
  then show ?thesis
    unfolding mask_numerals unat_or_disjoint [OF d] unat_and_mask unat_ucast_u32 by simp
qed

text \<open>The base-64 value of continuation bytes behind a first digit.\<close>

definition digits :: "nat \<Rightarrow> u8 list \<Rightarrow> nat" where
  "digits a bs = foldl (\<lambda>v b. v * 64 + unat b mod 64) a bs"

definition is_cont :: "u8 \<Rightarrow> bool" where
  "is_cont b \<longleftrightarrow> 128 \<le> unat b \<and> unat b < 192"

lemma digits_simps [simp]:
  "digits a [] = a" "digits a (b # bs) = digits (a * 64 + unat b mod 64) bs"
  by (simp_all add: digits_def)

lemma utf8_loop_ok:
  assumes "l \<le> length p" "\<forall>b \<in> set (take l p). is_cont b" "unat c < 2 ^ (32 - 6 * l)" "l \<le> 5"
  shows "\<exists>c'. utf8_loop l p c = Char c' 0 \<and> unat c' = digits (unat c) (take l p)"
  using assms
proof (induction l arbitrary: p c)
  case 0
  then show ?case by simp
next
  case (Suc l)
  then obtain b q where p: "p = b # q" by (cases p) auto
  let ?c = "push_bit 6 c OR (ucast b AND 0x3f)"
  have "(2 :: nat) ^ (32 - 6 * Suc l) \<le> 2 ^ 26" by (rule power_increasing) auto
  then have c26: "unat c < 2 ^ 26" using Suc.prems(3) by linarith
  have u: "unat ?c = unat c * 64 + unat b mod 64" using c26 by (rule unat_step)
  have "32 - 6 * l = 6 + (32 - 6 * Suc l)" using Suc.prems(4) by simp
  then have "(2 :: nat) ^ (32 - 6 * l) = 64 * 2 ^ (32 - 6 * Suc l)" by (simp only: power_add) simp
  moreover have "unat b mod 64 < 64" by simp
  ultimately have "unat ?c < 2 ^ (32 - 6 * l)" unfolding u using Suc.prems(3) by linarith
  then have "\<exists>c'. utf8_loop l q ?c = Char c' 0 \<and> unat c' = digits (unat ?c) (take l q)"
    using Suc.IH [of q ?c] Suc.prems p by auto
  moreover have "\<not> (b < 0x80 \<or> b \<ge> 0xc0)"
    using Suc.prems(2) p by (auto simp: is_cont_def word_less_nat_alt word_le_nat_alt)
  ultimately show ?case using p u by simp
qed

lemma utf8_loop_inv:
  assumes "utf8_loop l p c = Char c' k" "unat c < 2 ^ (32 - 6 * l)" "l \<le> 5"
  shows "l \<le> length p \<and> (\<forall>b \<in> set (take l p). is_cont b) \<and> unat c' = digits (unat c) (take l p)"
proof -
  have "l \<le> length p \<and> (\<forall>b \<in> set (take l p). is_cont b)"
    using assms(1)
    by (induction l p c rule: utf8_loop.induct)
      (auto simp: is_cont_def word_less_nat_alt word_le_nat_alt split: if_splits)
  with utf8_loop_ok [of l p c] assms show ?thesis by auto
qed

section \<open>The form of a sequence\<close>

definition lead :: "nat \<Rightarrow> nat" where
  "lead l = [0, 192, 224, 240, 248, 252] ! l"

text \<open>The code points with \<open>l\<close> continuation bytes, and what their sequence is.\<close>

definition utf8_class :: "nat \<Rightarrow> nat \<Rightarrow> bool" where
  "utf8_class l n \<longleftrightarrow> l \<in> {1, 2, 3, 4, 5} \<and> (if l = 1 then 2 ^ 7 else 2 ^ (5 * l + 1)) \<le> n \<and> n < 2 ^ (5 * l + 6)"

definition conts :: "nat \<Rightarrow> nat \<Rightarrow> nat list" where
  "conts l n = map (\<lambda>i. n div 64 ^ i mod 64 + 128) (rev [0..<l])"

lemma conts_simps [simp]:
  "conts 0 n = []" "conts (Suc l) n = (n div 64 ^ l mod 64 + 128) # conts l n" "length (conts l n) = l"
  by (simp_all add: conts_def)

lemma conts_expand:
  "conts 1 n = [n div 2 ^ 0 mod 64 + 128]"
  "conts 2 n = [n div 2 ^ 6 mod 64 + 128, n div 2 ^ 0 mod 64 + 128]"
  "conts 3 n = [n div 2 ^ 12 mod 64 + 128, n div 2 ^ 6 mod 64 + 128, n div 2 ^ 0 mod 64 + 128]"
  "conts 4 n = [n div 2 ^ 18 mod 64 + 128, n div 2 ^ 12 mod 64 + 128, n div 2 ^ 6 mod 64 + 128, n div 2 ^ 0 mod 64 + 128]"
  "conts 5 n = [n div 2 ^ 24 mod 64 + 128, n div 2 ^ 18 mod 64 + 128, n div 2 ^ 12 mod 64 + 128,
     n div 2 ^ 6 mod 64 + 128, n div 2 ^ 0 mod 64 + 128]"
  by (simp_all add: conts_def upt_rec)

lemma utf8_class_exists:
  assumes "128 \<le> n" "n < 2 ^ 31"
  shows "\<exists>l. utf8_class l n"
proof -
  have "utf8_class 1 n \<or> utf8_class 2 n \<or> utf8_class 3 n \<or> utf8_class 4 n \<or> utf8_class 5 n"
    using assms by (simp add: utf8_class_def) linarith
  then show ?thesis by blast
qed

lemma utf8_class_lead:
  assumes "utf8_class l n"
  shows "n div 64 ^ l < 2 ^ (6 - l)"
  using assms by (auto simp: utf8_class_def div_less_iff_less_mult)

lemma unicode_to_utf8_form:
  assumes "utf8_class l (unat c)"
  shows "map unat (unicode_to_utf8 c) = (lead l + unat c div 64 ^ l) # conts l (unat c)"
proof -
  note x = utf8_class_lead [OF assms]
  have lb: "unat (ucast (drop_bit (6 * l) c OR m) :: u8) = unat c div 64 ^ l + unat m"
    if "mask (6 - l) AND m = 0" "2 ^ (6 - l) + unat m \<le> 256" for m
    using unat_lead [of c "6 * l" "6 - l" m] x that by (simp add: power_mult)
  consider "l = 1" | "l = 2" | "l = 3" | "l = 4" | "l = 5" using assms by (auto simp: utf8_class_def)
  then show ?thesis
  proof cases
    case 1
    have e: "unicode_to_utf8 c = [ucast (drop_bit 6 c OR 0xc0), ucast ((drop_bit 0 c AND 0x3f) OR 0x80)]"
      using assms 1 by (simp add: utf8_class_def unicode_to_utf8_def word_less_nat_alt)
    have "unat (ucast (drop_bit 6 c OR 0xc0) :: u8) = lead 1 + unat c div 64 ^ 1"
      using lb [where m = "0xc0"] 1 by (simp add: lead_def mask_eq_exp_minus_1)
    then show ?thesis unfolding e 1 conts_expand list.map unat_cont by simp
  next
    case 2
    have e: "unicode_to_utf8 c = [ucast (drop_bit 12 c OR 0xe0), ucast ((drop_bit 6 c AND 0x3f) OR 0x80), ucast ((drop_bit 0 c AND 0x3f) OR 0x80)]"
      using assms 2 by (simp add: utf8_class_def unicode_to_utf8_def word_less_nat_alt)
    have "unat (ucast (drop_bit 12 c OR 0xe0) :: u8) = lead 2 + unat c div 64 ^ 2"
      using lb [where m = "0xe0"] 2 by (simp add: lead_def mask_eq_exp_minus_1)
    then show ?thesis unfolding e 2 conts_expand list.map unat_cont by simp
  next
    case 3
    have e: "unicode_to_utf8 c = [ucast (drop_bit 18 c OR 0xf0), ucast ((drop_bit 12 c AND 0x3f) OR 0x80), ucast ((drop_bit 6 c AND 0x3f) OR 0x80), ucast ((drop_bit 0 c AND 0x3f) OR 0x80)]"
      using assms 3 by (simp add: utf8_class_def unicode_to_utf8_def word_less_nat_alt)
    have "unat (ucast (drop_bit 18 c OR 0xf0) :: u8) = lead 3 + unat c div 64 ^ 3"
      using lb [where m = "0xf0"] 3 by (simp add: lead_def mask_eq_exp_minus_1)
    then show ?thesis unfolding e 3 conts_expand list.map unat_cont by simp
  next
    case 4
    have e: "unicode_to_utf8 c = [ucast (drop_bit 24 c OR 0xf8), ucast ((drop_bit 18 c AND 0x3f) OR 0x80), ucast ((drop_bit 12 c AND 0x3f) OR 0x80), ucast ((drop_bit 6 c AND 0x3f) OR 0x80), ucast ((drop_bit 0 c AND 0x3f) OR 0x80)]"
      using assms 4 by (simp add: utf8_class_def unicode_to_utf8_def word_less_nat_alt)
    have "unat (ucast (drop_bit 24 c OR 0xf8) :: u8) = lead 4 + unat c div 64 ^ 4"
      using lb [where m = "0xf8"] 4 by (simp add: lead_def mask_eq_exp_minus_1)
    then show ?thesis unfolding e 4 conts_expand list.map unat_cont by simp
  next
    case 5
    have e: "unicode_to_utf8 c = [ucast (drop_bit 30 c OR 0xfc), ucast ((drop_bit 24 c AND 0x3f) OR 0x80), ucast ((drop_bit 18 c AND 0x3f) OR 0x80), ucast ((drop_bit 12 c AND 0x3f) OR 0x80), ucast ((drop_bit 6 c AND 0x3f) OR 0x80), ucast ((drop_bit 0 c AND 0x3f) OR 0x80)]"
      using assms 5 by (simp add: utf8_class_def unicode_to_utf8_def word_less_nat_alt)
    have "unat (ucast (drop_bit 30 c OR 0xfc) :: u8) = lead 5 + unat c div 64 ^ 5"
      using lb [where m = "0xfc"] 5 by (simp add: lead_def mask_eq_exp_minus_1)
    then show ?thesis unfolding e 5 conts_expand list.map unat_cont by simp
  qed
qed

lemma add128_mod: "(x + 128) mod 64 = x mod (64 :: nat)"
  using mod_mult_self1 [of x 2 64] by simp

lemma is_cont_mod: "is_cont b \<Longrightarrow> unat b = unat b mod 64 + 128"
proof -
  assume "is_cont b"
  then obtain x where x: "unat b = x + 128" "x < 64"
    by (auto simp: is_cont_def intro: that [of "unat b - 128"])
  then show ?thesis by (simp add: add128_mod)
qed

lemma digits_conts:
  "map unat bs = conts l n \<Longrightarrow> digits (n div 64 ^ l) bs = n \<and> (\<forall>b \<in> set bs. is_cont b)"
proof (induction l arbitrary: bs)
  case 0
  then show ?case by simp
next
  case (Suc l)
  then obtain b cs where b: "bs = b # cs" "unat b = n div 64 ^ l mod 64 + 128" "map unat cs = conts l n" by auto
  have "n div 64 ^ Suc l = n div 64 ^ l div 64" by (simp only: power_Suc2 div_mult2_eq)
  moreover have "unat b mod 64 = n div 64 ^ l mod 64" unfolding b(2) add128_mod by simp
  ultimately have "n div 64 ^ Suc l * 64 + unat b mod 64 = n div 64 ^ l" by (simp only: div_mult_mod_eq)
  moreover have "is_cont b" using b(2) by (simp add: is_cont_def)
  ultimately show ?case using Suc.IH [OF b(3)] b(1) by simp
qed

lemma digits_append: "digits a (bs @ [b]) = digits a bs * 64 + unat b mod 64"
  by (simp add: digits_def)

lemma conts_digits:
  "\<forall>b \<in> set bs. is_cont b \<Longrightarrow>
     map unat bs = conts (length bs) (digits a bs) \<and> digits a bs div 64 ^ length bs = a"
proof (induction bs rule: rev_induct)
  case Nil
  then show ?case by simp
next
  case (snoc b bs)
  let ?n = "digits a bs * 64 + unat b mod 64"
  have d: "?n div 64 ^ Suc i = digits a bs div 64 ^ i" for i
    by (simp only: power_Suc div_mult2_eq) simp
  have "unat b = ?n mod 64 + 128" using snoc.prems is_cont_mod [of b] by simp
  moreover have "conts (Suc l) ?n = conts l (digits a bs) @ [?n mod 64 + 128]" for l
    by (induction l) (simp_all add: d del: power_Suc)
  ultimately show ?case using snoc d by (simp add: digits_append del: power_Suc conts_simps(2))
qed

lemma utf8_mask:
  "l \<in> {1, 2, 3, 4, 5} \<Longrightarrow> utf8_first_code_mask (l - 1) = mask (6 - l)"
  by (auto simp: utf8_first_code_mask_def mask_eq_exp_minus_1)

lemma utf8_trailing_lead:
  assumes "l \<in> {1, 2, 3, 4, 5}" "x < 2 ^ (6 - l)" "unat b = lead l + x"
  shows "utf8_trailing b = Some l \<and> \<not> b < 0x80 \<and> unat (ucast b AND utf8_first_code_mask (l - 1)) = x"
proof -
  have "unat (ucast b AND utf8_first_code_mask (l - 1)) = (lead l + x) mod 2 ^ (6 - l)"
    unfolding utf8_mask [OF assms(1)] unat_and_mask unat_ucast_u32 assms(3) by (rule refl)
  moreover have "(lead l + x) mod 2 ^ (6 - l) = x"
  proof -
    have "lead l mod 2 ^ (6 - l) = 0" using assms(1) by (auto simp: lead_def)
    then show ?thesis using assms(2) by (metis add.left_neutral mod_add_left_eq mod_less)
  qed
  moreover have "unat b < 256" by (rule less_le_trans [OF unsigned_less]) simp
  ultimately show ?thesis
    using assms(1)
  proof (elim insertE emptyE)
  qed (use assms(2,3) in \<open>simp_all add: utf8_trailing_def word_le_nat_alt word_less_nat_alt lead_def\<close>)
qed

lemma utf8_trailing_inv:
  assumes "utf8_trailing b = Some l"
  shows "l \<in> {1, 2, 3, 4, 5} \<and> (\<exists>x < 2 ^ (6 - l). unat b = lead l + x)"
proof -
  have l: "l \<in> {1, 2, 3, 4, 5} \<and> lead l \<le> unat b \<and> unat b < lead l + 2 ^ (6 - l)"
    using assms by (auto simp: utf8_trailing_def word_le_nat_alt lead_def split: if_splits)
  then have "unat b - lead l < 2 ^ (6 - l) \<and> unat b = lead l + (unat b - lead l)" by linarith
  with l show ?thesis by blast
qed

section \<open>Coding and decoding are inverse\<close>

lemma utf8_min_code_class:
  "l \<in> {1, 2, 3, 4, 5} \<Longrightarrow> unat (utf8_min_code (l - 1)) = (if l = 1 then 2 ^ 7 else 2 ^ (5 * l + 1))"
  by (auto simp: utf8_min_code_def)

lemma first_digit_bound:
  assumes "l \<in> {1, 2, 3, 4, 5 :: nat}" "(x :: nat) < 2 ^ (6 - l)"
  shows "x < 2 ^ (32 - 6 * l)"
proof -
  have "(2 :: nat) ^ (6 - l) \<le> 2 ^ (32 - 6 * l)" by (rule power_increasing) (use assms(1) in auto)
  then show ?thesis using assms(2) by linarith
qed

text \<open>A decoded sequence of more than one byte: its class, its bytes and its value.\<close>

lemma unicode_from_utf8_multi:
  assumes "l \<in> {1, 2, 3, 4, 5}" "x < 2 ^ (6 - l)" "unat b = lead l + x" "int l \<le> max_len - 1"
    and "l \<le> length q" "\<forall>b \<in> set (take l q). is_cont b"
  shows "\<exists>c. unat c = digits x (take l q)
    \<and> unicode_from_utf8 (b # q) max_len = (if c < utf8_min_code (l - 1) then Invalid else Char c (Suc l))"
proof -
  note t = utf8_trailing_lead [OF assms(1-3)]
  let ?c = "ucast b AND utf8_first_code_mask (l - 1)"
  have "unat ?c < 2 ^ (32 - 6 * l)" using t first_digit_bound [OF assms(1,2)] by simp
  then obtain c where "utf8_loop l q ?c = Char c 0" "unat c = digits (unat ?c) (take l q)"
    using utf8_loop_ok [of l q ?c] assms by fastforce
  then show ?thesis using t assms(4) by (intro exI [of _ c]) (simp add: unicode_from_utf8_def)
qed

lemma utf8_roundtrip_multi:
  assumes "utf8_class l (unat c)" "int (Suc l) \<le> max_len"
  shows "length (unicode_to_utf8 c) = Suc l \<and> unicode_from_utf8 (unicode_to_utf8 c @ rest) max_len = Char c (Suc l)"
proof -
  let ?n = "unat c"
  obtain b bs where e: "unicode_to_utf8 c = b # bs" and b: "unat b = lead l + ?n div 64 ^ l" and bs: "map unat bs = conts l ?n"
    using unicode_to_utf8_form [OF assms(1)] by (cases "unicode_to_utf8 c") auto
  have l: "l \<in> {1, 2, 3, 4, 5}" and len: "length bs = l"
    using assms(1) bs by (auto simp: utf8_class_def dest: arg_cong [of _ _ length])
  note d = digits_conts [OF bs]
  have "int l \<le> max_len - 1" using assms(2) by simp
  from unicode_from_utf8_multi [OF l utf8_class_lead [OF assms(1)] b this, of "bs @ rest"] d len
  obtain c' where c': "unat c' = ?n"
      "unicode_from_utf8 (b # bs @ rest) max_len = (if c' < utf8_min_code (l - 1) then Invalid else Char c' (Suc l))"
    by auto
  have "c' = c" using c'(1) by (simp add: word_unat_eq_iff)
  moreover have "\<not> c < utf8_min_code (l - 1)"
    using assms(1) utf8_min_code_class [OF l] by (simp add: word_less_nat_alt utf8_class_def)
  ultimately show ?thesis using c'(2) e len by simp
qed

lemma digits_bound: "digits a bs < (a + 1) * 64 ^ length bs"
proof (induction bs rule: rev_induct)
  case Nil
  then show ?case by simp
next
  case (snoc b bs)
  have "digits a bs + 1 \<le> (a + 1) * 64 ^ length bs" using snoc.IH by linarith
  then have "(digits a bs + 1) * 64 \<le> (a + 1) * 64 ^ length bs * 64" by (rule mult_le_mono1)
  moreover have "digits a bs * 64 + unat b mod 64 < (digits a bs + 1) * 64" by simp
  ultimately have "digits a bs * 64 + unat b mod 64 < (a + 1) * 64 ^ length bs * 64" by (rule less_le_trans [rotated])
  then show ?case by (simp add: digits_append mult_ac)
qed

lemma utf8_canonical_multi:
  assumes "utf8_trailing b = Some l" "unicode_from_utf8 (b # q) max_len = Char c k" "\<not> b < 0x80"
  shows "k = Suc l \<and> unicode_to_utf8 c = take k (b # q)"
proof -
  from utf8_trailing_inv [OF assms(1)] obtain x where l: "l \<in> {1, 2, 3, 4, 5}"
    and x: "x < 2 ^ (6 - l)" "unat b = lead l + x" by blast
  let ?c = "ucast b AND utf8_first_code_mask (l - 1)"
  note t = utf8_trailing_lead [OF l x]
  from assms obtain j where j: "utf8_loop l q ?c = Char c j" and m: "\<not> c < utf8_min_code (l - 1)" and k: "k = Suc l"
    by (auto simp: unicode_from_utf8_def split: if_splits utf8_result.splits)
  have "unat ?c < 2 ^ (32 - 6 * l)" using t first_digit_bound [OF l x(1)] by simp
  from utf8_loop_inv [OF j this] l t have q: "l \<le> length q" "\<forall>b \<in> set (take l q). is_cont b"
      "unat c = digits x (take l q)" by auto
  have len: "length (take l q) = l" using q(1) by simp
  note cd = conts_digits [OF q(2), of x, unfolded len]
  have "unat c < (x + 1) * 64 ^ l" using digits_bound [of x "take l q"] q(3) len by simp
  also have "\<dots> \<le> 2 ^ (6 - l) * 64 ^ l" using x(1) by (intro mult_le_mono1) simp
  also have "\<dots> = 2 ^ (5 * l + 6)" using l by auto
  finally have cl: "utf8_class l (unat c)"
    using m l utf8_min_code_class [OF l] by (simp add: utf8_class_def word_less_nat_alt not_less)
  have "map unat (unicode_to_utf8 c) = map unat (b # take l q)"
    using unicode_to_utf8_form [OF cl] cd q(3) x(2) by simp
  then have "unicode_to_utf8 c = b # take l q"
    by (rule map_injective) (simp add: inj_on_def word_unat_eq_iff)
  then show ?thesis using k by simp
qed

text \<open>Decoding what was encoded.\<close>

lemma utf8_decode_encoded:
  assumes "c < 0x80000000" "int (length (unicode_to_utf8 c)) \<le> max_len"
  shows "unicode_from_utf8 (unicode_to_utf8 c @ rest) max_len = Char c (length (unicode_to_utf8 c))
    \<and> 1 \<le> length (unicode_to_utf8 c) \<and> length (unicode_to_utf8 c) \<le> 6"
proof (cases "c < 0x80")
  case True
  then have u: "unat (ucast c :: u8) = unat c" by (simp add: unat_ucast_u8 word_less_nat_alt)
  then have "(ucast c :: u8) < 0x80" "ucast (ucast c :: u8) = c"
    using True by (simp_all add: word_less_nat_alt word_unat_eq_iff unat_ucast_u32)
  then show ?thesis using True by (simp add: unicode_to_utf8_def unicode_from_utf8_def)
next
  case False
  then have "128 \<le> unat c" "unat c < 2 ^ 31" using assms(1) by (simp_all add: word_less_nat_alt)
  then obtain l where l: "utf8_class l (unat c)" using utf8_class_exists by blast
  then have "Suc l \<le> 6" by (auto simp: utf8_class_def)
  moreover have "length (unicode_to_utf8 c) = Suc l"
    using unicode_to_utf8_form [OF l] by (metis length_Cons length_map conts_simps(3))
  ultimately show ?thesis using utf8_roundtrip_multi [OF l] assms(2) by auto
qed

text \<open>What the decoder accepts.\<close>

lemma utf8_decoder_strict:
  assumes "1 \<le> max_len" "max_len \<le> int (length p)"
  shows "unicode_from_utf8 p max_len \<noteq> OutOfBounds
    \<and> (\<forall>c k. unicode_from_utf8 p max_len = Char c k \<longrightarrow> unicode_to_utf8 c = take k p \<and> int k \<le> max_len)"
proof -
  obtain b q where p: "p = b # q" using assms by (cases p) auto
  have oob: "l \<le> length r \<Longrightarrow> utf8_loop l r a \<noteq> OutOfBounds" for l r a
    by (induction l r a rule: utf8_loop.induct) auto
  have "unicode_from_utf8 p max_len \<noteq> OutOfBounds"
    using assms p oob by (auto simp: unicode_from_utf8_def split: option.splits utf8_result.splits if_splits)
  moreover have "unicode_to_utf8 c = take k p \<and> int k \<le> max_len"
    if r: "unicode_from_utf8 p max_len = Char c k" for c k
  proof (cases "b < 0x80")
    case True
    then have c: "c = ucast b" "k = 1" using r p by (auto simp: unicode_from_utf8_def)
    have "unat b < 128" using True by (simp add: word_less_nat_alt)
    then have "c < 0x80" "ucast c = b"
      unfolding c by (simp_all add: word_less_nat_alt word_unat_eq_iff unat_ucast_u32 unat_ucast_u8)
    then show ?thesis using c p assms by (simp add: unicode_to_utf8_def)
  next
    case False
    with r p obtain l where l: "utf8_trailing b = Some l" "int l \<le> max_len - 1"
      by (auto simp: unicode_from_utf8_def split: option.splits if_splits)
    from utf8_canonical_multi [OF l(1) r [unfolded p] False] l(2) show ?thesis unfolding p by auto
  qed
  ultimately show ?thesis by blast
qed

text \<open>C36: Decoding what was encoded gives the code point back and consumes exactly its bytes, for
  every code point of at most 31 bits and whatever follows in memory. And the decoder is strict:
  whatever it accepts is the encoding of the code point it returns, so over-long forms, stray
  continuation bytes and truncated sequences are all rejected, and it never reads past the
  length it was given.\<close>

theorem utf8_roundtrip:
  assumes "c < 0x80000000" "1 \<le> max_len" "max_len \<le> int (length p)"
  shows "(\<forall>rest n. int (length (unicode_to_utf8 c)) \<le> n \<longrightarrow>
      unicode_from_utf8 (unicode_to_utf8 c @ rest) n = Char c (length (unicode_to_utf8 c)))
    \<and> 1 \<le> length (unicode_to_utf8 c) \<and> length (unicode_to_utf8 c) \<le> 6
    \<and> unicode_from_utf8 p max_len \<noteq> OutOfBounds
    \<and> (\<forall>d k. unicode_from_utf8 p max_len = Char d k \<longrightarrow> unicode_to_utf8 d = take k p \<and> int k \<le> max_len)"
  using utf8_decode_encoded [OF assms(1)] utf8_decoder_strict [OF assms(2,3)] by (meson order_refl)

lemma utf8_roundtrip_witness:
  "unicode_from_utf8 (unicode_to_utf8 0x20AC @ [7]) 4 = Char 0x20AC (length (unicode_to_utf8 0x20AC))
   \<and> unicode_from_utf8 [0xE2, 0x82, 0xAC] 3 \<noteq> OutOfBounds"
proof -
  have "int (length (unicode_to_utf8 0x20AC)) \<le> 4" by (simp add: unicode_to_utf8_def)
  then show ?thesis using utf8_roundtrip [of "0x20AC" 3 "[0xE2, 0x82, 0xAC]"] by auto
qed

end
