(* ===== verification/DynBuf.thy ===== *)
theory DynBuf
  imports CBytes
begin

text \<open>
  The growing byte buffers and the string helpers of \<open>quickjs/cutils.c\<close>. Memory comes from a
  reallocation function; its contract is the locale \<open>reallocator\<close>, which the default one
  implements. Reads and writes outside a buffer give None.
\<close>

section \<open>Buffers\<close>

record DynBuf =
  buf :: "u8 list"
  dsize :: u64
  allocated_size :: u64
  error :: bool

type_synonym realloc_fn = "u8 list \<Rightarrow> u64 \<Rightarrow> u8 list option"

text \<open>\<open>realloc\<close> of the C library, which grants or refuses; fresh bytes are \<open>junk\<close>.\<close>

definition dbuf_default_realloc :: "bool \<Rightarrow> (nat \<Rightarrow> u8) \<Rightarrow> realloc_fn" where
  "dbuf_default_realloc ok junk b n =
     (if ok then Some (take (unat n) b @ map junk [length b..<unat n]) else None)"

definition dbuf_init2 :: DynBuf where
  "dbuf_init2 = \<lparr>buf = [], dsize = 0, allocated_size = 0, error = False\<rparr>"

definition dbuf_init :: DynBuf where
  "dbuf_init = dbuf_init2"

definition dbuf_claim :: "realloc_fn \<Rightarrow> u64 \<Rightarrow> DynBuf \<Rightarrow> int \<times> DynBuf" where
  "dbuf_claim realloc_func len s =
     (let new_size = dsize s + len
      in if new_size < len then (-1, s)
         else if new_size > allocated_size s then
           if error s then (-1, s)
           else
             let sz = allocated_size s + allocated_size s div 2
             in if sz < allocated_size s then (-1, s)
                else
                  let n = (if sz > new_size then sz else new_size)
                  in (case realloc_func (buf s) n of
                        None \<Rightarrow> (-1, s\<lparr>error := True\<rparr>)
                      | Some b \<Rightarrow> (0, s\<lparr>buf := b, allocated_size := n\<rparr>))
         else (0, s))"

definition claim_if_needed :: "realloc_fn \<Rightarrow> u64 \<Rightarrow> DynBuf \<Rightarrow> int \<times> DynBuf" where
  "claim_if_needed realloc_func len s =
     (if allocated_size s - dsize s < len then dbuf_claim realloc_func len s else (0, s))"

definition dbuf_put :: "realloc_fn \<Rightarrow> u8 list \<Rightarrow> DynBuf \<Rightarrow> (int \<times> DynBuf) option" where
  "dbuf_put realloc_func data s =
     (let len = word_of_nat (length data);
          (r, s1) = claim_if_needed realloc_func len s
      in if r \<noteq> 0 then Some (-1, s1)
         else map_option (\<lambda>b. (0, s1\<lparr>buf := b, dsize := dsize s1 + len\<rparr>))
                (blit (buf s1) (unat (dsize s1)) data))"

text \<open>The copy is a \<open>memcpy\<close>: overlapping ranges are undefined.\<close>

definition dbuf_put_self :: "realloc_fn \<Rightarrow> u64 \<Rightarrow> u64 \<Rightarrow> DynBuf \<Rightarrow> (int \<times> DynBuf) option" where
  "dbuf_put_self realloc_func offset len s =
     (let (r, s1) = claim_if_needed realloc_func len s
      in if r \<noteq> 0 then Some (-1, s1)
         else if unat offset + unat len > unat (dsize s1) then None
         else map_option (\<lambda>b. (0, s1\<lparr>buf := b, dsize := dsize s1 + len\<rparr>))
                (blit (buf s1) (unat (dsize s1)) (take (unat len) (drop (unat offset) (buf s1)))))"

definition dbuf_putc_slow :: "realloc_fn \<Rightarrow> u8 \<Rightarrow> DynBuf \<Rightarrow> (int \<times> DynBuf) option" where
  "dbuf_putc_slow realloc_func c s = dbuf_put realloc_func [c] s"

definition dbuf_put_u16_slow :: "realloc_fn \<Rightarrow> u16 \<Rightarrow> DynBuf \<Rightarrow> (int \<times> DynBuf) option" where
  "dbuf_put_u16_slow realloc_func v s = dbuf_put realloc_func (le16 v) s"

definition dbuf_put_u32_slow :: "realloc_fn \<Rightarrow> u32 \<Rightarrow> DynBuf \<Rightarrow> (int \<times> DynBuf) option" where
  "dbuf_put_u32_slow realloc_func v s = dbuf_put realloc_func (le32 v) s"

definition dbuf_put_u64_slow :: "realloc_fn \<Rightarrow> u64 \<Rightarrow> DynBuf \<Rightarrow> (int \<times> DynBuf) option" where
  "dbuf_put_u64_slow realloc_func v s = dbuf_put realloc_func (le64 v) s"

text \<open>The inline fast paths of \<open>cutils.h\<close>.\<close>

definition dbuf_putc :: "realloc_fn \<Rightarrow> u8 \<Rightarrow> DynBuf \<Rightarrow> (int \<times> DynBuf) option" where
  "dbuf_putc realloc_func v s =
     (if allocated_size s - dsize s < 1 then dbuf_putc_slow realloc_func v s
      else map_option (\<lambda>b. (0, s\<lparr>buf := b, dsize := dsize s + 1\<rparr>)) (wr (buf s) (unat (dsize s)) v))"

definition dbuf_put_u16 :: "realloc_fn \<Rightarrow> u16 \<Rightarrow> DynBuf \<Rightarrow> (int \<times> DynBuf) option" where
  "dbuf_put_u16 realloc_func v s =
     (if allocated_size s - dsize s < 2 then dbuf_put_u16_slow realloc_func v s
      else map_option (\<lambda>b. (0, s\<lparr>buf := b, dsize := dsize s + 2\<rparr>)) (blit (buf s) (unat (dsize s)) (le16 v)))"

definition dbuf_put_u32 :: "realloc_fn \<Rightarrow> u32 \<Rightarrow> DynBuf \<Rightarrow> (int \<times> DynBuf) option" where
  "dbuf_put_u32 realloc_func v s =
     (if allocated_size s - dsize s < 4 then dbuf_put_u32_slow realloc_func v s
      else map_option (\<lambda>b. (0, s\<lparr>buf := b, dsize := dsize s + 4\<rparr>)) (blit (buf s) (unat (dsize s)) (le32 v)))"

definition dbuf_put_u64 :: "realloc_fn \<Rightarrow> u64 \<Rightarrow> DynBuf \<Rightarrow> (int \<times> DynBuf) option" where
  "dbuf_put_u64 realloc_func v s =
     (if allocated_size s - dsize s < 8 then dbuf_put_u64_slow realloc_func v s
      else map_option (\<lambda>b. (0, s\<lparr>buf := b, dsize := dsize s + 8\<rparr>)) (blit (buf s) (unat (dsize s)) (le64 v)))"

text \<open>\<open>str\<close> is the text before the terminating zero.\<close>

definition dbuf_putstr :: "realloc_fn \<Rightarrow> u8 list \<Rightarrow> DynBuf \<Rightarrow> (int \<times> DynBuf) option" where
  "dbuf_putstr realloc_func str s = dbuf_put realloc_func str s"

text \<open>
  \<open>out\<close> is what the format produces (None when \<open>vsnprintf\<close> fails); in the long case it is
  printed into the room left, with its terminating zero.
\<close>

definition dbuf_printf :: "realloc_fn \<Rightarrow> u8 list option \<Rightarrow> DynBuf \<Rightarrow> (int \<times> DynBuf) option" where
  "dbuf_printf realloc_func out s =
     (case out of
        None \<Rightarrow> Some (-1, s)
      | Some text \<Rightarrow>
          let len = word_of_nat (length text) :: u64
          in if len < 128 then map_option (\<lambda>(r, s1). (r, s1)) (dbuf_put realloc_func text s)
             else
               let (r, s1) = dbuf_claim realloc_func (len + 1) s
               in if r \<noteq> 0 then Some (-1, s1)
                  else
                    let room = unat (allocated_size s1 - dsize s1);
                        printed = (if room = 0 then [] else take (room - 1) text @ [0])
                    in map_option (\<lambda>b. (0, s1\<lparr>buf := b, dsize := dsize s1 + len\<rparr>))
                         (blit (buf s1) (unat (dsize s1)) printed))"

text \<open>The block that is freed, if there is one, and the zeroed buffer.\<close>

definition dbuf_free :: "DynBuf \<Rightarrow> u8 list option \<times> DynBuf" where
  "dbuf_free s =
     (if buf s \<noteq> [] then Some (buf s) else None, \<lparr>buf = [], dsize = 0, allocated_size = 0, error = False\<rparr>)"

definition dbuf_error :: "DynBuf \<Rightarrow> bool" where
  "dbuf_error s = error s"

definition dbuf_set_error :: "DynBuf \<Rightarrow> DynBuf" where
  "dbuf_set_error s = s\<lparr>error := True\<rparr>"

section \<open>Their contract\<close>

lemma take_drop_prefix: "i + l \<le> n \<Longrightarrow> take l (drop i (take n xs)) = take l (drop i xs)"
  by (simp add: drop_take min_def)

definition dbuf_ok :: "DynBuf \<Rightarrow> bool" where
  "dbuf_ok s \<longleftrightarrow> length (buf s) = unat (allocated_size s) \<and> dsize s \<le> allocated_size s"

definition contents :: "DynBuf \<Rightarrow> u8 list" where
  "contents s = take (unat (dsize s)) (buf s)"

text \<open>
  When \<open>n\<close> more bytes need a larger block, and when its size does not fit in 64 bits: the new contents, or
  the half that is added to the block in any case.
\<close>

definition grows :: "DynBuf \<Rightarrow> nat \<Rightarrow> bool" where
  "grows s n \<longleftrightarrow> unat (allocated_size s) < unat (dsize s) + n"

definition overflows :: "DynBuf \<Rightarrow> nat \<Rightarrow> bool" where
  "overflows s n \<longleftrightarrow> 2 ^ 64 \<le> unat (dsize s) + n \<or> 2 ^ 64 \<le> unat (allocated_size s) + unat (allocated_size s) div 2"

definition put_fails :: "bool \<Rightarrow> DynBuf \<Rightarrow> nat \<Rightarrow> bool" where
  "put_fails ok s n \<longleftrightarrow> grows s n \<and> (overflows s n \<or> error s \<or> \<not> ok)"

definition put_error :: "bool \<Rightarrow> DynBuf \<Rightarrow> nat \<Rightarrow> bool" where
  "put_error ok s n \<longleftrightarrow> error s \<or> grows s n \<and> \<not> overflows s n \<and> \<not> ok"

lemma sum_overflows: "a + b < b \<longleftrightarrow> 2 ^ 64 \<le> unat a + unat (b :: u64)"
  using no_olen_add_nat [of b a] by (simp only: not_le [symmetric] add.commute [of a b] add.commute [of "unat a"]) (simp add: not_less)

locale reallocator =
  fixes realloc_func :: realloc_fn
  assumes realloc_length: "realloc_func b n = Some b' \<Longrightarrow> length b' = unat n"
    and realloc_keeps: "realloc_func b n = Some b' \<Longrightarrow> k \<le> length b \<Longrightarrow> k \<le> unat n \<Longrightarrow> take k b' = take k b"
begin

lemma claim_grows:
  assumes "dbuf_ok s" and "dbuf_claim realloc_func len s = (r, s')"
  shows "dbuf_ok s' \<and> contents s' = contents s \<and> dsize s' = dsize s
    \<and> (r = 0 \<and> unat (dsize s) + unat len \<le> unat (allocated_size s') \<or> r = -1 \<and> buf s' = buf s)
    \<and> (error s \<longrightarrow> error s')"
proof -
  let ?new = "dsize s + len"
  have ov: "unat ?new = unat (dsize s) + unat len" if "\<not> ?new < len"
    using that by (metis add.commute no_olen_add_nat not_less unat_plus_simple)
  show ?thesis
  proof (cases "?new < len \<or> ?new \<le> allocated_size s \<or> error s
      \<or> allocated_size s + allocated_size s div 2 < allocated_size s")
    case True
    then have "r = -1 \<and> s' = s \<or> r = 0 \<and> s' = s \<and> \<not> ?new < len \<and> ?new \<le> allocated_size s"
      using assms(2) by (auto simp: dbuf_claim_def Let_def not_less split: if_splits)
    then show ?thesis using assms(1) ov by (auto simp: word_le_nat_alt)
  next
    case False
    let ?sz = "allocated_size s + allocated_size s div 2"
    define n where "n = (if ?sz > ?new then ?sz else ?new)"
    have c: "dbuf_claim realloc_func len s = (case realloc_func (buf s) n of
        None \<Rightarrow> (-1, s\<lparr>error := True\<rparr>) | Some b \<Rightarrow> (0, s\<lparr>buf := b, allocated_size := n\<rparr>))"
      unfolding n_def using False by (auto simp add: dbuf_claim_def Let_def not_le)
    have "?new \<le> n" by (auto simp: n_def intro: less_imp_le)
    then have n: "unat (dsize s) + unat len \<le> unat n"
      using False ov by (simp add: word_le_nat_alt)
    show ?thesis
    proof (cases "realloc_func (buf s) n")
      case None
      then show ?thesis using c assms by (auto simp: dbuf_ok_def contents_def)
    next
      case (Some b)
      have "unat (dsize s) \<le> length (buf s)"
        using assms(1) by (simp add: dbuf_ok_def word_le_nat_alt)
      then have "take (unat (dsize s)) b = take (unat (dsize s)) (buf s)"
        using realloc_keeps [OF Some] n by simp
      then show ?thesis
        using assms c Some n realloc_length [OF Some] by (auto simp: dbuf_ok_def contents_def word_le_nat_alt)
    qed
  qed
qed

lemma claim_exact:
  assumes "dbuf_ok s" and refuse: "\<And>b n. realloc_func b n = None \<longleftrightarrow> \<not> ok" and "claim_if_needed realloc_func len s = (r, s')"
  shows "r = (if put_fails ok s (unat len) then -1 else 0) \<and> error s' = put_error ok s (unat len)"
proof -
  have room: "allocated_size s - dsize s < len \<longleftrightarrow> grows s (unat len)"
    using assms(1) unat_sub [of "dsize s" "allocated_size s"] by (auto simp: dbuf_ok_def grows_def word_less_nat_alt word_le_nat_alt)
  have half: "allocated_size s + allocated_size s div 2 < allocated_size s \<longleftrightarrow>
      2 ^ 64 \<le> unat (allocated_size s) + unat (allocated_size s) div 2"
  proof -
    have "unat (2 :: u64) = 2" by simp
    then have "unat (allocated_size s div 2) = unat (allocated_size s) div 2" by (simp only: unat_div)
    then show ?thesis using sum_overflows [of "allocated_size s div 2" "allocated_size s"] by (simp only: add.commute)
  qed
  have granted: "ok" if "realloc_func b n = Some y" for b n y using refuse [of b n] that by simp
  have new: "dsize s + len < len \<longleftrightarrow> 2 ^ 64 \<le> unat (dsize s) + unat len" by (rule sum_overflows)
  have big: "dsize s + len > allocated_size s" if "grows s (unat len)" "\<not> dsize s + len < len"
    using that(1) that(2) [unfolded new] unat_add_lem [of "dsize s" len] by (simp add: grows_def word_less_nat_alt)
  show ?thesis
  proof (cases "grows s (unat len)")
    case False
    then show ?thesis using assms(3) room by (simp add: claim_if_needed_def put_fails_def put_error_def)
  next
    case True
    have c: "dbuf_claim realloc_func len s = (r, s')" using assms(3) room True by (simp add: claim_if_needed_def)
    show ?thesis
      using c True new half big refuse
      by (auto simp: dbuf_claim_def put_fails_def put_error_def overflows_def Let_def dest: granted split: if_splits option.splits)
  qed
qed

lemma claim_if_needed_room:
  assumes "dbuf_ok s" and "claim_if_needed realloc_func len s = (r, s')"
  shows "dbuf_ok s' \<and> contents s' = contents s \<and> dsize s' = dsize s
    \<and> (r = 0 \<and> unat (dsize s) + unat len \<le> unat (allocated_size s') \<or> r = -1 \<and> buf s' = buf s)
    \<and> (error s \<longrightarrow> error s')"
proof (cases "allocated_size s - dsize s < len")
  case True
  then show ?thesis using assms claim_grows by (simp add: claim_if_needed_def)
next
  case False
  have "unat (allocated_size s - dsize s) = unat (allocated_size s) - unat (dsize s)"
    using assms(1) by (simp add: dbuf_ok_def unat_sub)
  moreover have "r = 0" "s' = s" using False assms(2) by (simp_all add: claim_if_needed_def)
  ultimately show ?thesis using False assms(1) by (auto simp: dbuf_ok_def word_le_nat_alt not_less)
qed

lemma append_room:
  assumes "dbuf_ok s" and "unat (dsize s) + length data \<le> unat (allocated_size s)"
  shows "\<exists>b. blit (buf s) (unat (dsize s)) data = Some b
    \<and> dbuf_ok (s\<lparr>buf := b, dsize := dsize s + word_of_nat (length data)\<rparr>)
    \<and> contents (s\<lparr>buf := b, dsize := dsize s + word_of_nat (length data)\<rparr>) = contents s @ data"
proof -
  let ?b = "take (unat (dsize s)) (buf s) @ data @ drop (unat (dsize s) + length data) (buf s)"
  have "unat (allocated_size s) < 2 ^ 64" by (rule less_le_trans [OF unsigned_less]) simp
  then have l: "unat (word_of_nat (length data) :: u64) = length data"
    using assms(2) by (intro unat_small) simp
  have u: "unat (dsize s + word_of_nat (length data)) = unat (dsize s) + length data"
    using assms(2) \<open>unat (allocated_size s) < 2 ^ 64\<close> by (subst unat_add_lem [THEN iffD1]) (simp_all add: l)
  have "blit (buf s) (unat (dsize s)) data = Some ?b"
    using assms by (simp add: blit_def dbuf_ok_def)
  then show ?thesis
    using assms u
    by (intro exI [of _ ?b], cases data) (auto simp: dbuf_ok_def contents_def word_le_nat_alt min_def)
qed

lemma put_appends:
  assumes "dbuf_ok s" and "length data < 2 ^ 64" and refuse: "\<And>b n. realloc_func b n = None \<longleftrightarrow> \<not> ok"
  shows "\<exists>s'. dbuf_put realloc_func data s = Some (if put_fails ok s (length data) then -1 else 0, s') \<and> dbuf_ok s'
    \<and> contents s' = contents s @ (if put_fails ok s (length data) then [] else data) \<and> error s' = put_error ok s (length data)"
proof -
  let ?len = "word_of_nat (length data) :: u64"
  obtain r s1 where c: "claim_if_needed realloc_func ?len s = (r, s1)" by fastforce
  note k = claim_if_needed_room [OF assms(1) c] and x = claim_exact [OF assms(1) refuse c]
  have l: "unat ?len = length data" using assms(2) by (intro unat_small) simp
  show ?thesis
  proof (cases "r = 0")
    case False
    then show ?thesis using k x l c by (auto simp: dbuf_put_def Let_def split: if_splits)
  next
    case True
    then have "unat (dsize s1) + length data \<le> unat (allocated_size s1)" using k l by auto
    from append_room [OF conjunct1 [OF k] this] show ?thesis
      using True k x l c by (fastforce simp: dbuf_put_def Let_def split: if_splits)
  qed
qed

lemma put_self_copies:
  assumes "dbuf_ok s" and "unat offset + unat len \<le> unat (dsize s)" and refuse: "\<And>b n. realloc_func b n = None \<longleftrightarrow> \<not> ok"
  shows "\<exists>s'. dbuf_put_self realloc_func offset len s = Some (if put_fails ok s (unat len) then -1 else 0, s') \<and> dbuf_ok s'
    \<and> contents s' = contents s @ (if put_fails ok s (unat len) then [] else take (unat len) (drop (unat offset) (contents s)))
    \<and> error s' = put_error ok s (unat len)"
proof -
  obtain r s1 where c: "claim_if_needed realloc_func len s = (r, s1)" by fastforce
  note k = claim_if_needed_room [OF assms(1) c] and x = claim_exact [OF assms(1) refuse c]
  show ?thesis
  proof (cases "r = 0")
    case False
    then show ?thesis using k x c by (auto simp: dbuf_put_self_def split: if_splits)
  next
    case True
    let ?d = "take (unat len) (drop (unat offset) (buf s1))"
    have ds: "dsize s1 = dsize s" "contents s1 = contents s" "dbuf_ok s1" using k by auto
    have "unat (dsize s1) \<le> length (buf s1)" using ds(3) by (simp add: dbuf_ok_def word_le_nat_alt)
    then have ld: "length ?d = unat len" using assms(2) ds(1) by simp
    have "contents s = take (unat (dsize s)) (buf s1)" using ds by (simp add: contents_def)
    then have dd: "?d = take (unat len) (drop (unat offset) (contents s))"
      using assms(2) by (simp add: take_drop_prefix)
    have "unat (dsize s1) + length ?d \<le> unat (allocated_size s1)" using True k ld by auto
    from append_room [OF ds(3) this] show ?thesis
      using True c ds assms(2) ld dd k x by (fastforce simp: dbuf_put_self_def split: if_splits)
  qed
qed

end

interpretation default_realloc: reallocator "dbuf_default_realloc ok junk" for ok junk
  by unfold_locales (auto simp: dbuf_default_realloc_def min_def split: if_splits)

section \<open>Strings\<close>

text \<open>
  A C string is the list of its bytes before the terminating zero; a fixed buffer is a list of
  bytes. \<open>pstrcpy\<close> gives None when the buffer is shorter than the size it is told.
\<close>

definition pstrcpy :: "u8 list \<Rightarrow> int \<Rightarrow> u8 list \<Rightarrow> u8 list option" where
  "pstrcpy b buf_size str =
     (if buf_size \<le> 0 then Some b
      else blit b 0 (take (nat (buf_size - 1)) str @ [0]))"

text \<open>The length of the string in a buffer: None when no zero ends it.\<close>

definition strlen_of :: "u8 list \<Rightarrow> nat option" where
  "strlen_of b = (if 0 \<in> set b then Some (length (takeWhile (\<lambda>c. c \<noteq> 0) b)) else None)"

definition pstrcat :: "u8 list \<Rightarrow> int \<Rightarrow> u8 list \<Rightarrow> u8 list option" where
  "pstrcat b buf_size str =
     (case strlen_of b of
        None \<Rightarrow> None
      | Some len \<Rightarrow>
          if int len < buf_size
          then map_option (\<lambda>t. take len b @ t) (pstrcpy (drop len b) (buf_size - int len) str)
          else Some b)"

text \<open>The rest of the string behind the prefix, when it has it.\<close>

fun strstart :: "u8 list \<Rightarrow> u8 list \<Rightarrow> u8 list option" where
  "strstart p [] = Some p"
| "strstart [] (q # qs) = None"
| "strstart (p # ps) (q # qs) = (if p \<noteq> q then None else strstart ps qs)"

definition has_suffix :: "u8 list \<Rightarrow> u8 list \<Rightarrow> bool" where
  "has_suffix str suffix \<longleftrightarrow>
     length str \<ge> length suffix \<and> drop (length str - length suffix) str = suffix"

lemma strstart_iff: "strstart p q = Some r \<longleftrightarrow> p = q @ r"
  by (induction p q rule: strstart.induct) auto

lemma has_suffix_iff: "has_suffix str suffix \<longleftrightarrow> (\<exists>p. str = p @ suffix)"
  by (auto simp: has_suffix_def) (metis append_take_drop_id)

section \<open>Properties\<close>

lemma default_realloc_None: "dbuf_default_realloc ok junk b n = None \<longleftrightarrow> \<not> ok"
  by (simp add: dbuf_default_realloc_def)

text \<open>C37: Appending to a well-formed buffer never writes outside it. It fails exactly when a larger block is
  needed and its size overflows, an error is recorded, or the memory is refused; then the contents are untouched,
  and otherwise they grow by exactly the data, also on a buffer with a recorded error that has room left. The error
  is recorded by a refused allocation and by nothing else, and a recorded error stays recorded. The same holds when
  the data is a part of the buffer itself: that part is copied as it was before the reallocation moves it.\<close>

theorem dbuf_appends:
  assumes "dbuf_ok s" and "length data < 2 ^ 64" and "unat offset + unat len \<le> unat (dsize s)"
  shows "(\<exists>s'. dbuf_put (dbuf_default_realloc ok junk) data s = Some (if put_fails ok s (length data) then -1 else 0, s') \<and> dbuf_ok s'
      \<and> contents s' = contents s @ (if put_fails ok s (length data) then [] else data) \<and> error s' = put_error ok s (length data))
    \<and> (\<exists>s'. dbuf_put_self (dbuf_default_realloc ok junk) offset len s = Some (if put_fails ok s (unat len) then -1 else 0, s') \<and> dbuf_ok s'
      \<and> contents s' = contents s @ (if put_fails ok s (unat len) then [] else take (unat len) (drop (unat offset) (contents s)))
      \<and> error s' = put_error ok s (unat len))"
  using default_realloc.put_appends [OF assms(1,2) default_realloc_None] default_realloc.put_self_copies [OF assms(1,3) default_realloc_None]
  by blast

theorem dbuf_appends_witness:
  "(\<exists>s'. dbuf_put_self (dbuf_default_realloc True (\<lambda>_. 0)) 1 1
       \<lparr>buf = [5, 6], dsize = 2, allocated_size = 2, error = False\<rparr> = Some (0, s') \<and> contents s' = [5, 6, 6])
   \<and> (\<exists>s'. dbuf_put (dbuf_default_realloc False (\<lambda>_. 0)) [7]
       \<lparr>buf = [5, 6], dsize = 2, allocated_size = 2, error = False\<rparr> = Some (-1, s') \<and> contents s' = [5, 6] \<and> error s')"
proof -
  let ?s = "\<lparr>buf = [5, 6], dsize = 2, allocated_size = 2, error = False\<rparr>"
  have ok: "dbuf_ok ?s" and c: "contents ?s = [5, 6]" by (simp_all add: dbuf_ok_def contents_def)
  have g: "grows ?s 1" "\<not> overflows ?s 1" "grows ?s (Suc 0)" "\<not> overflows ?s (Suc 0)" by (simp_all add: grows_def overflows_def)
  show ?thesis
    using dbuf_appends [OF ok, of "[]" 1 1 True "\<lambda>_. 0"] dbuf_appends [OF ok, of "[7]" 1 1 False "\<lambda>_. 0"] c g
    by (auto simp: put_fails_def put_error_def)
qed

end
