(* ===== verification/Rqsort.thy ===== *)
theory Rqsort
  imports Prelude
begin

text \<open>
  The sort of \<open>quickjs/cutils.c\<close>: \<open>heapsortx\<close>, \<open>med3\<close> and \<open>rqsort\<close>, a quicksort with
  three-way partitioning, an explicit stack of 50 frames, a depth limit that falls back to heap
  sort, and insertion sort for short pieces. An array is the list of its elements, a pointer
  the index of an element; an index outside the array is not flagged. \<open>cmp\<close> is the comparison, a function of the two
  elements: one with a state of its own, as a guest may pass, is outside the model. The stack bound and termination
  hold for every comparison, the sorting results for one that is a total preorder.
\<close>

section \<open>Elements\<close>

definition swap_el :: "nat \<Rightarrow> nat \<Rightarrow> 'a list \<Rightarrow> 'a list" where
  "swap_el i j xs = xs[i := xs ! j, j := xs ! i]"

text \<open>An operation on the piece of the array from \<open>p\<close> of length \<open>n\<close>.\<close>

definition on_slice :: "nat \<Rightarrow> nat \<Rightarrow> ('a list \<Rightarrow> 'a list) \<Rightarrow> 'a list \<Rightarrow> 'a list" where
  "on_slice p n f xs = take p xs @ f (take n (drop p xs)) @ drop (p + n) xs"

lemma length_swap_el [simp]: "length (swap_el i j xs) = length xs"
  by (simp add: swap_el_def)

lemma nth_swap_el:
  "i < length xs \<Longrightarrow> j < length xs \<Longrightarrow> k < length xs \<Longrightarrow>
     swap_el i j xs ! k = (if k = i then xs ! j else if k = j then xs ! i else xs ! k)"
  by (auto simp: swap_el_def nth_list_update)

lemma mset_swap_el [simp]:
  "i < length xs \<Longrightarrow> j < length xs \<Longrightarrow> mset (swap_el i j xs) = mset xs"
  by (simp add: swap_el_def mset_swap)

section \<open>Heap sort\<close>

text \<open>The larger child of \<open>r\<close>, and the inner loop: \<open>r\<close> sinks in the heap of the first \<open>n\<close>
  elements.\<close>

definition larger_child :: "('a \<Rightarrow> 'a \<Rightarrow> int) \<Rightarrow> nat \<Rightarrow> nat \<Rightarrow> 'a list \<Rightarrow> nat" where
  "larger_child cmp n r xs =
     (let c = r * 2 + 1
      in if c < n - 1 \<and> cmp (xs ! c) (xs ! (c + 1)) \<le> 0 then c + 1 else c)"

lemma larger_child_bounds:
  "r * 2 + 1 < n \<Longrightarrow> r < larger_child cmp n r xs \<and> larger_child cmp n r xs < n
     \<and> larger_child cmp n r xs \<in> {2 * r + 1, 2 * r + 2}"
  by (auto simp: larger_child_def Let_def)

function sift :: "('a \<Rightarrow> 'a \<Rightarrow> int) \<Rightarrow> nat \<Rightarrow> nat \<Rightarrow> 'a list \<Rightarrow> 'a list" where
  "sift cmp n r xs =
     (if r * 2 + 1 < n
      then let c = larger_child cmp n r xs
           in if cmp (xs ! r) (xs ! c) > 0 then xs else sift cmp n c (swap_el r c xs)
      else xs)"
  by pat_completeness auto

termination
proof (relation "measure (\<lambda>(cmp, n, r, xs). n - r)", simp, goal_cases)
  case (1 cmp n r xs c)
  then show ?case using larger_child_bounds [of r n cmp xs] by auto
qed

declare sift.simps [simp del]

fun heap_build :: "('a \<Rightarrow> 'a \<Rightarrow> int) \<Rightarrow> nat \<Rightarrow> nat \<Rightarrow> 'a list \<Rightarrow> 'a list" where
  "heap_build cmp n 0 xs = xs"
| "heap_build cmp n (Suc i) xs = heap_build cmp n i (sift cmp n i xs)"

fun heap_drain :: "('a \<Rightarrow> 'a \<Rightarrow> int) \<Rightarrow> nat \<Rightarrow> 'a list \<Rightarrow> 'a list" where
  "heap_drain cmp 0 xs = xs"
| "heap_drain cmp (Suc i) xs = heap_drain cmp i (sift cmp (Suc i) 0 (swap_el 0 (Suc i) xs))"

definition heapsortx :: "('a \<Rightarrow> 'a \<Rightarrow> int) \<Rightarrow> 'a list \<Rightarrow> 'a list" where
  "heapsortx cmp xs =
     (let n = length xs
      in if n > 1 then heap_drain cmp (n - 1) (heap_build cmp n (n div 2) xs) else xs)"

section \<open>Quicksort\<close>

definition med3 :: "('a \<Rightarrow> 'a \<Rightarrow> int) \<Rightarrow> 'a list \<Rightarrow> nat \<Rightarrow> nat \<Rightarrow> nat \<Rightarrow> nat" where
  "med3 cmp xs a b c =
     (if cmp (xs ! a) (xs ! b) < 0
      then (if cmp (xs ! b) (xs ! c) < 0 then b else if cmp (xs ! a) (xs ! c) < 0 then c else a)
      else (if cmp (xs ! b) (xs ! c) > 0 then b else if cmp (xs ! a) (xs ! c) < 0 then a else c))"

text \<open>The first inner loop, from the left: the array, \<open>plt\<close> and \<open>pi\<close>.\<close>

function scan_left :: "('a \<Rightarrow> 'a \<Rightarrow> int) \<Rightarrow> nat \<Rightarrow> 'a list \<Rightarrow> nat \<Rightarrow> nat \<Rightarrow> 'a list \<times> nat \<times> nat" where
  "scan_left cmp pj xs plt pi =
     (if pi < pj \<and> cmp (xs ! 0) (xs ! pi) \<ge> 0
      then if cmp (xs ! 0) (xs ! pi) = 0
           then scan_left cmp pj (swap_el plt pi xs) (plt + 1) (pi + 1)
           else scan_left cmp pj xs plt (pi + 1)
      else (xs, plt, pi))"
  by pat_completeness auto

termination
  by (relation "measure (\<lambda>(cmp, pj, xs, plt, pi). pj - pi)") auto

declare scan_left.simps [simp del]

text \<open>The second, from the right: \<open>pj\<close> is decremented before each test. The array, \<open>pj\<close>, \<open>pgt\<close>.\<close>

fun scan_right :: "('a \<Rightarrow> 'a \<Rightarrow> int) \<Rightarrow> nat \<Rightarrow> 'a list \<Rightarrow> nat \<Rightarrow> nat \<Rightarrow> 'a list \<times> nat \<times> nat" where
  "scan_right cmp pi xs 0 pgt = (xs, 0, pgt)"
| "scan_right cmp pi xs (Suc pj) pgt =
     (if pi < pj \<and> cmp (xs ! 0) (xs ! pj) \<le> 0
      then if cmp (xs ! 0) (xs ! pj) = 0
           then scan_right cmp pi (swap_el (pgt - 1) pj xs) pj (pgt - 1)
           else scan_right cmp pi xs pj pgt
      else (xs, pj, pgt))"

declare scan_right.simps [simp del]

lemma scan_left_bounds:
  "scan_left cmp pj xs plt pi = (xs', plt', pi') \<Longrightarrow> plt \<le> pi \<Longrightarrow> pi \<le> pj \<Longrightarrow>
     length xs' = length xs \<and> plt \<le> plt' \<and> plt' \<le> pi' \<and> pi \<le> pi' \<and> pi' \<le> pj"
proof (induction cmp pj xs plt pi rule: scan_left.induct)
  case (1 cmp pj xs plt pi)
  show ?case
  proof (cases "pi < pj \<and> cmp (xs ! 0) (xs ! pi) \<ge> 0")
    case False
    then have "(xs', plt', pi') = (xs, plt, pi)"
      using "1.prems"(1) by (subst (asm) scan_left.simps) auto
    then show ?thesis using "1.prems" by simp
  next
    case True
    show ?thesis
    proof (cases "cmp (xs ! 0) (xs ! pi) = 0")
      case eq: True
      then have "scan_left cmp pj (swap_el plt pi xs) (plt + 1) (pi + 1) = (xs', plt', pi')"
        using "1.prems"(1) True by (subst (asm) scan_left.simps) simp
      from "1.IH"(1) [OF True eq this] show ?thesis using "1.prems" True by simp
    next
      case ne: False
      then have "scan_left cmp pj xs plt (pi + 1) = (xs', plt', pi')"
        using "1.prems"(1) True by (subst (asm) scan_left.simps) simp
      from "1.IH"(2) [OF True ne this] show ?thesis using "1.prems" True by simp
    qed
  qed
qed

lemma scan_right_bounds:
  "scan_right cmp pi xs pj pgt = (xs', pj', pgt') \<Longrightarrow> pj \<le> pgt \<Longrightarrow> 0 < pj \<Longrightarrow>
     length xs' = length xs \<and> pj' < pj \<and> pj' < pgt' \<and> pgt' \<le> pgt \<and> (pi < pj \<longrightarrow> pi \<le> pj')"
proof (induction cmp pi xs pj pgt rule: scan_right.induct)
  case (1 cmp pi xs pgt)
  then show ?case by simp
next
  case (2 cmp pi xs pj pgt)
  show ?case
  proof (cases "pi < pj \<and> cmp (xs ! 0) (xs ! pj) \<le> 0")
    case False
    then show ?thesis using "2.prems" by (auto simp: scan_right.simps)
  next
    case True
    show ?thesis
    proof (cases "cmp (xs ! 0) (xs ! pj) = 0")
      case eq: True
      then have "scan_right cmp pi (swap_el (pgt - 1) pj xs) pj (pgt - 1) = (xs', pj', pgt')"
        using "2.prems"(1) True by (simp add: scan_right.simps)
      moreover have "pj \<le> pgt - 1" "0 < pj" using "2.prems"(2) True by auto
      ultimately show ?thesis using "2.IH"(1) [OF True eq] "2.prems"(2) True by auto
    next
      case ne: False
      then have "scan_right cmp pi xs pj pgt = (xs', pj', pgt')"
        using "2.prems"(1) True by (simp add: scan_right.simps)
      from "2.IH"(2) [OF True ne this] show ?thesis using "2.prems" True by auto
    qed
  qed
qed

lemma scan_right_le: "scan_right cmp pi xs pj pgt = (xs', pj', pgt') \<Longrightarrow> pj' \<le> pj"
proof (induction cmp pi xs pj pgt rule: scan_right.induct)
  case (2 cmp pi xs pj pgt)
  show ?case
  proof (cases "pi < pj \<and> cmp (xs ! 0) (xs ! pj) \<le> 0")
    case False
    then show ?thesis using "2.prems" by (auto simp: scan_right.simps)
  next
    case True
    then show ?thesis
      using "2.IH"(1) [OF True] "2.IH"(2) [OF True] "2.prems"
      by (cases "cmp (xs ! 0) (xs ! pj) = 0") (simp_all add: scan_right.simps)
  qed
qed (simp add: scan_right.simps)

lemma scan_left_ge: "scan_left cmp pj xs plt pi = (xs', plt', pi') \<Longrightarrow> pi \<le> pi'"
proof (induction cmp pj xs plt pi rule: scan_left.induct)
  case (1 cmp pj xs plt pi)
  show ?case
  proof (cases "pi < pj \<and> cmp (xs ! 0) (xs ! pi) \<ge> 0")
    case False
    then show ?thesis using "1.prems" by (subst (asm) scan_left.simps) auto
  next
    case True
    then show ?thesis
      using "1.IH"(1) [OF True] "1.IH"(2) [OF True] "1.prems"
      by (subst (asm) (3) scan_left.simps) (auto split: if_splits dest: Suc_leD)
  qed
qed

text \<open>The loop around them: the array, \<open>plt\<close>, \<open>pi\<close> and \<open>pgt\<close> when it breaks.\<close>

function partition_loop ::
    "('a \<Rightarrow> 'a \<Rightarrow> int) \<Rightarrow> 'a list \<Rightarrow> nat \<Rightarrow> nat \<Rightarrow> nat \<Rightarrow> nat \<Rightarrow> 'a list \<times> nat \<times> nat \<times> nat" where
  "partition_loop cmp xs plt pi pj pgt =
     (let (xs1, plt1, pi1) = scan_left cmp pj xs plt pi;
          (xs2, pj2, pgt2) = scan_right cmp pi1 xs1 pj pgt
      in if pi1 \<ge> pj2 then (xs2, plt1, pi1, pgt2)
         else partition_loop cmp (swap_el pi1 pj2 xs2) plt1 (pi1 + 1) pj2 pgt2)"
  by pat_completeness auto

termination
proof (relation "measure (\<lambda>(cmp, xs, plt, pi, pj, pgt). pj - pi)", simp)
  fix cmp :: "'a \<Rightarrow> 'a \<Rightarrow> int" and xs plt pi pj pgt x1 xs1 y1 plt1 pi1 x2 xs2 y2 pj2 pgt2
  assume "x1 = scan_left cmp pj xs plt pi" "(xs1, y1) = x1" "(plt1, pi1) = y1"
    and "x2 = scan_right cmp pi1 xs1 pj pgt" "(xs2, y2) = x2" "(pj2, pgt2) = y2" "\<not> pj2 \<le> pi1"
  then show "((cmp, swap_el pi1 pj2 xs2, plt1, pi1 + 1, pj2, pgt2), cmp, xs, plt, pi, pj, pgt)
      \<in> measure (\<lambda>(cmp, xs, plt, pi, pj, pgt). pj - pi)"
    using scan_left_ge [of cmp pj xs plt pi xs1 plt1 pi1] scan_right_le [of cmp pi1 xs1 pj pgt xs2 pj2 pgt2] by auto
qed

declare partition_loop.simps [simp del]

lemma scan_right_at: "pj \<le> pi \<Longrightarrow> 0 < pj \<Longrightarrow> scan_right cmp pi xs pj pgt = (xs, pj - 1, pgt)"
  by (cases pj) (auto simp: scan_right.simps)

lemma partition_loop_bounds:
  "partition_loop cmp xs plt pi pj pgt = (xs', plt', pi', pgt') \<Longrightarrow> 0 < plt \<Longrightarrow> plt \<le> pi \<Longrightarrow> pi \<le> pj \<Longrightarrow> pj \<le> pgt \<Longrightarrow>
     length xs' = length xs \<and> plt \<le> plt' \<and> plt' \<le> pi' \<and> pi' \<le> pgt' \<and> pgt' \<le> pgt"
proof (induction cmp xs plt pi pj pgt rule: partition_loop.induct)
  case (1 cmp xs plt pi pj pgt)
  obtain xs1 plt1 pi1 where l: "scan_left cmp pj xs plt pi = (xs1, plt1, pi1)" by (metis prod_cases3)
  obtain xs2 pj2 pgt2 where r: "scan_right cmp pi1 xs1 pj pgt = (xs2, pj2, pgt2)" by (metis prod_cases3)
  have "0 < pj" using "1.prems" by simp
  note bl = scan_left_bounds [OF l] and br = scan_right_bounds [OF r _ this]
  have at: "pj \<le> pi1 \<Longrightarrow> pgt2 = pgt" using scan_right_at [of pj pi1 cmp xs1 pgt] r \<open>0 < pj\<close> by simp
  show ?case
  proof (cases "pi1 \<ge> pj2")
    case True
    then have "(xs', plt', pi', pgt') = (xs2, plt1, pi1, pgt2)"
      using "1.prems"(1) l r by (subst (asm) partition_loop.simps) simp
    then show ?thesis using bl br at "1.prems" True by (cases "pi1 < pj") auto
  next
    case False
    then have "partition_loop cmp (swap_el pi1 pj2 xs2) plt1 (pi1 + 1) pj2 pgt2 = (xs', plt', pi', pgt')"
      using "1.prems"(1) l r by (subst (asm) partition_loop.simps) simp
    from "1.IH" [OF l [symmetric] refl refl r [symmetric] refl refl False this]
    show ?thesis using bl br "1.prems" False by auto
  qed
qed

fun swap_range :: "nat \<Rightarrow> nat \<Rightarrow> nat \<Rightarrow> 'a list \<Rightarrow> 'a list" where
  "swap_range i j 0 xs = xs"
| "swap_range i j (Suc k) xs = swap_range (i + 1) (j + 1) k (swap_el i j xs)"

text \<open>
  One partitioning step on a piece: the pivot is moved to the front, the loop runs, and the
  elements equal to the pivot are moved to the middle. The result is the piece and the bounds
  of the middle part.
\<close>

definition partition3 :: "('a \<Rightarrow> 'a \<Rightarrow> int) \<Rightarrow> nat \<Rightarrow> 'a list \<Rightarrow> 'a list \<times> nat \<times> nat" where
  "partition3 cmp n ys =
     (let m4 = n div 4;
          m = med3 cmp ys m4 (2 * m4) (3 * m4);
          (ys1, plt, pi, pgt) = partition_loop cmp (swap_el 0 m ys) 1 1 n n;
          span = (if plt > pi - plt then pi - plt else plt);
          ys2 = swap_range 0 (pi - span) span ys1;
          lt = pi - plt;
          span' = (if n - pgt > pgt - pi then pgt - pi else n - pgt);
          gt = n - (pgt - pi)
      in (swap_range pi (n - span') span' ys2, lt, gt))"

lemma partition3_bounds:
  assumes "partition3 cmp n ys = (zs, lt, gt)" "0 < n"
  shows "lt \<le> gt \<and> gt \<le> n \<and> lt + (n - gt) < n"
proof -
  let ?m = "med3 cmp ys (n div 4) (2 * (n div 4)) (3 * (n div 4))"
  obtain ys1 plt pi pgt where p: "partition_loop cmp (swap_el 0 ?m ys) 1 1 n n = (ys1, plt, pi, pgt)"
    by (metis prod_cases4)
  from partition_loop_bounds [OF p] assms(2)
  have b: "1 \<le> plt" "plt \<le> pi" "pi \<le> pgt" "pgt \<le> n" by auto
  have "lt = pi - plt" "gt = n - (pgt - pi)"
    using assms(1) p by (auto simp: partition3_def Let_def)
  then show ?thesis using b by auto
qed

section \<open>The stack of pieces\<close>

text \<open>A frame of the stack.\<close>

record frame =
  fbase :: nat
  fcount :: nat
  fdepth :: nat

text \<open>
  The loop over one piece: it ends with a piece of at most six elements left to sort. The
  smaller part is processed further, the larger one is pushed.
\<close>

function rqsort_piece ::
    "('a \<Rightarrow> 'a \<Rightarrow> int) \<Rightarrow> 'a list \<Rightarrow> frame list \<Rightarrow> nat \<Rightarrow> nat \<Rightarrow> nat \<Rightarrow> 'a list \<times> frame list \<times> nat \<times> nat" where
  "rqsort_piece cmp xs stack ptr nmemb depth =
     (if nmemb > 6
      then if depth + 1 > 50
           then (on_slice ptr nmemb (heapsortx cmp) xs, stack, ptr, 0)
           else
             let (zs, lt, gt) = partition3 cmp nmemb (take nmemb (drop ptr xs));
                 xs' = take ptr xs @ zs @ drop (ptr + nmemb) xs
             in if lt > nmemb - gt
                then rqsort_piece cmp xs' (\<lparr>fbase = ptr, fcount = lt, fdepth = depth + 1\<rparr> # stack)
                       (ptr + gt) (nmemb - gt) (depth + 1)
                else rqsort_piece cmp xs' (\<lparr>fbase = ptr + gt, fcount = nmemb - gt, fdepth = depth + 1\<rparr> # stack)
                       ptr lt (depth + 1)
      else (xs, stack, ptr, nmemb))"
  by pat_completeness auto

termination
proof (relation "measure (\<lambda>(cmp, xs, stack, ptr, nmemb, depth). nmemb)", simp, goal_cases)
  case (1 cmp xs stack ptr nmemb depth x zs y lt gt xs')
  then have "lt + (nmemb - gt) < nmemb"
    using partition3_bounds [of cmp nmemb "take nmemb (drop ptr xs)" zs lt gt] by auto
  then show ?case by simp
next
  case (2 cmp xs stack ptr nmemb depth x zs y lt gt xs')
  then have "lt + (nmemb - gt) < nmemb"
    using partition3_bounds [of cmp nmemb "take nmemb (drop ptr xs)" zs lt gt] by auto
  then show ?case by simp
qed

declare rqsort_piece.simps [simp del]

text \<open>Insertion sort of what is left of a piece; the inner loop moves one element down.\<close>

fun insert_down :: "('a \<Rightarrow> 'a \<Rightarrow> int) \<Rightarrow> nat \<Rightarrow> 'a list \<Rightarrow> 'a list" where
  "insert_down cmp 0 xs = xs"
| "insert_down cmp (Suc k) xs =
     (if cmp (xs ! k) (xs ! Suc k) > 0 then insert_down cmp k (swap_el (Suc k) k xs) else xs)"

fun insertion_from :: "('a \<Rightarrow> 'a \<Rightarrow> int) \<Rightarrow> nat \<Rightarrow> nat \<Rightarrow> 'a list \<Rightarrow> 'a list" where
  "insertion_from cmp 0 pi xs = xs"
| "insertion_from cmp (Suc n) pi xs = insertion_from cmp n (Suc pi) (insert_down cmp pi xs)"

definition insertion_sort :: "('a \<Rightarrow> 'a \<Rightarrow> int) \<Rightarrow> 'a list \<Rightarrow> 'a list" where
  "insertion_sort cmp xs = insertion_from cmp (length xs - 1) 1 xs"

text \<open>The three ways a piece goes on; in the last, \<open>f\<close> is pushed and the other part continues.\<close>

lemma rqsort_piece_cases:
  obtains (short) "nmemb \<le> 6" "rqsort_piece cmp xs stack ptr nmemb depth = (xs, stack, ptr, nmemb)"
  | (deep) "6 < nmemb" "50 < depth + 1"
      "rqsort_piece cmp xs stack ptr nmemb depth = (on_slice ptr nmemb (heapsortx cmp) xs, stack, ptr, 0)"
  | (split) zs lt gt f ptr' n' where "6 < nmemb" "depth + 1 \<le> 50"
      "partition3 cmp nmemb (take nmemb (drop ptr xs)) = (zs, lt, gt)"
      "rqsort_piece cmp xs stack ptr nmemb depth =
         rqsort_piece cmp (take ptr xs @ zs @ drop (ptr + nmemb) xs) (f # stack) ptr' n' (depth + 1)"
      "fdepth f = depth + 1" "n' < nmemb" "fcount f + 1 + n' \<le> nmemb"
      "fbase f = ptr \<and> fcount f = lt \<and> ptr' = ptr + gt \<and> n' = nmemb - gt
       \<or> fbase f = ptr + gt \<and> fcount f = nmemb - gt \<and> ptr' = ptr \<and> n' = lt"
proof -
  consider "nmemb \<le> 6" | "6 < nmemb" "50 < depth + 1" | "6 < nmemb" "depth + 1 \<le> 50" by linarith
  then show ?thesis
  proof cases
    case 1
    then have "rqsort_piece cmp xs stack ptr nmemb depth = (xs, stack, ptr, nmemb)"
      by (subst rqsort_piece.simps) simp
    with 1 show ?thesis by (rule short)
  next
    case 2
    then have "rqsort_piece cmp xs stack ptr nmemb depth = (on_slice ptr nmemb (heapsortx cmp) xs, stack, ptr, 0)"
      by (subst rqsort_piece.simps) simp
    with 2 show ?thesis by (rule deep)
  next
    case 3
    obtain zs lt gt where p: "partition3 cmp nmemb (take nmemb (drop ptr xs)) = (zs, lt, gt)"
      by (metis prod_cases3)
    have "0 < nmemb" using 3 by simp
    note b = partition3_bounds [OF p this]
    let ?xs = "take ptr xs @ zs @ drop (ptr + nmemb) xs"
    show ?thesis
    proof (cases "lt > nmemb - gt")
      case True
      have e: "rqsort_piece cmp xs stack ptr nmemb depth =
          rqsort_piece cmp ?xs (\<lparr>fbase = ptr, fcount = lt, fdepth = depth + 1\<rparr> # stack) (ptr + gt) (nmemb - gt) (depth + 1)"
        using True 3 p by (subst rqsort_piece.simps) (simp add: Let_def)
      show ?thesis by (rule split [OF 3 p e]) (use b in auto)
    next
      case False
      have e: "rqsort_piece cmp xs stack ptr nmemb depth =
          rqsort_piece cmp ?xs (\<lparr>fbase = ptr + gt, fcount = nmemb - gt, fdepth = depth + 1\<rparr> # stack) ptr lt (depth + 1)"
        using False 3 p by (subst rqsort_piece.simps) (simp add: Let_def)
      show ?thesis by (rule split [OF 3 p e]) (use b in auto)
    qed
  qed
qed

lemma rqsort_piece_size:
  "rqsort_piece cmp xs stack ptr nmemb depth = (xs', stack', ptr', nmemb') \<Longrightarrow>
     (\<Sum>f \<leftarrow> stack'. fcount f + 1) + nmemb' \<le> (\<Sum>f \<leftarrow> stack. fcount f + 1) + nmemb"
proof (induction nmemb arbitrary: xs stack ptr depth rule: less_induct)
  case (less nmemb)
  show ?case
  proof (cases rule: rqsort_piece_cases [where nmemb = nmemb and cmp = cmp and xs = xs and stack = stack
        and ptr = ptr and depth = depth])
    case (split zs lt gt f ptr0 n0)
    from less.IH [OF split(6)] split less.prems show ?thesis by fastforce
  qed (use less.prems in simp_all)
qed

text \<open>The outer loop pops a piece, processes it and sorts the rest of it by insertion.\<close>

function rqsort_loop :: "('a \<Rightarrow> 'a \<Rightarrow> int) \<Rightarrow> 'a list \<Rightarrow> frame list \<Rightarrow> 'a list" where
  "rqsort_loop cmp xs [] = xs"
| "rqsort_loop cmp xs (f # stack) =
     (let (xs1, stack1, ptr, n) = rqsort_piece cmp xs stack (fbase f) (fcount f) (fdepth f)
      in rqsort_loop cmp (on_slice ptr n (insertion_sort cmp) xs1) stack1)"
  by pat_completeness auto

termination
proof (relation "measure (\<lambda>(cmp, xs, stack). \<Sum>f \<leftarrow> stack. fcount f + 1)", simp, goal_cases)
  case (1 cmp xs f stack x xs1 y stack1 z ptr n)
  then show ?case
    using rqsort_piece_size [of cmp xs stack "fbase f" "fcount f" "fdepth f" xs1 stack1 ptr n] by auto
qed

definition rqsort :: "('a \<Rightarrow> 'a \<Rightarrow> int) \<Rightarrow> 'a list \<Rightarrow> 'a list" where
  "rqsort cmp xs =
     (if length xs < 2 then xs
      else rqsort_loop cmp xs [\<lparr>fbase = 0, fcount = length xs, fdepth = 0\<rparr>])"

section \<open>The stack never overflows\<close>

text \<open>The largest number of frames on the stack at any time; within one piece it only grows.\<close>

function rqsort_peak :: "('a \<Rightarrow> 'a \<Rightarrow> int) \<Rightarrow> 'a list \<Rightarrow> frame list \<Rightarrow> nat" where
  "rqsort_peak cmp xs [] = 0"
| "rqsort_peak cmp xs (f # stack) =
     (let (xs1, stack1, ptr, n) = rqsort_piece cmp xs stack (fbase f) (fcount f) (fdepth f)
      in max (length stack1) (rqsort_peak cmp (on_slice ptr n (insertion_sort cmp) xs1) stack1))"
  by pat_completeness auto

termination
proof (relation "measure (\<lambda>(cmp, xs, stack). \<Sum>f \<leftarrow> stack. fcount f + 1)", simp, goal_cases)
  case (1 cmp xs f stack x xs1 y stack1 z ptr n)
  then show ?case
    using rqsort_piece_size [of cmp xs stack "fbase f" "fcount f" "fdepth f" xs1 stack1 ptr n] by auto
qed

text \<open>Frames are as deep as they were pushed, deeper ones on top.\<close>

definition depths_ok :: "nat \<Rightarrow> frame list \<Rightarrow> bool" where
  "depths_ok d stack \<longleftrightarrow>
     sorted_wrt (\<lambda>f g. fdepth g < fdepth f) stack \<and> (\<forall>f \<in> set stack. 1 \<le> fdepth f \<and> fdepth f \<le> d \<and> fdepth f \<le> 50)"

lemma depths_ok_length:
  assumes "depths_ok d stack"
  shows "length stack \<le> 50"
proof -
  have "sorted_wrt (\<lambda>f g. fdepth g < fdepth f) stack" using assms by (simp add: depths_ok_def)
  then have "distinct (map fdepth stack)" by (induction stack) auto
  then have "length stack = card (set (map fdepth stack))" by (metis distinct_card length_map)
  also have "\<dots> \<le> card {1..50 :: nat}" using assms by (intro card_mono) (auto simp: depths_ok_def)
  finally show ?thesis by simp
qed

lemma rqsort_piece_depths:
  "rqsort_piece cmp xs stack ptr nmemb depth = (xs', stack', ptr', nmemb') \<Longrightarrow> depths_ok depth stack \<Longrightarrow>
     depths_ok 50 stack'"
proof (induction nmemb arbitrary: xs stack ptr depth rule: less_induct)
  case (less nmemb)
  show ?case
  proof (cases rule: rqsort_piece_cases [where nmemb = nmemb and cmp = cmp and xs = xs and stack = stack
        and ptr = ptr and depth = depth])
    case (split zs lt gt f ptr0 n0)
    have "depths_ok (depth + 1) (f # stack)"
      using less.prems(2) split(2,5) by (auto simp: depths_ok_def)
    with less.IH [OF split(6)] split(4) less.prems(1) show ?thesis by metis
  qed (use less.prems in \<open>auto simp: depths_ok_def\<close>)
qed

lemma rqsort_peak_bound:
  "depths_ok 50 stack \<or> (\<exists>f. stack = [f] \<and> fdepth f = 0) \<Longrightarrow> rqsort_peak cmp xs stack \<le> 50"
proof (induction cmp xs stack rule: rqsort_peak.induct)
  case (1 cmp xs)
  then show ?case by simp
next
  case (2 cmp xs f stack)
  obtain xs1 stack1 ptr n where r: "rqsort_piece cmp xs stack (fbase f) (fcount f) (fdepth f) = (xs1, stack1, ptr, n)"
    by (metis prod_cases4)
  have "depths_ok (fdepth f) stack" using "2.prems" by (auto simp: depths_ok_def less_imp_le)
  then have d: "depths_ok 50 stack1" using rqsort_piece_depths [OF r] by simp
  have "rqsort_peak cmp (on_slice ptr n (insertion_sort cmp) xs1) stack1 \<le> 50"
    by (rule "2.IH" [OF r [symmetric] refl refl refl]) (use d in simp)
  then show ?case using r depths_ok_length [OF d] by simp
qed

section \<open>Comparisons\<close>

text \<open>What the sort relies on: a total preorder, with signs that agree.\<close>

locale comparison =
  fixes cmp :: "'a \<Rightarrow> 'a \<Rightarrow> int"
  assumes cmp_sign: "cmp a b < 0 \<longleftrightarrow> 0 < cmp b a"
    and cmp_trans: "cmp a b \<le> 0 \<Longrightarrow> cmp b c \<le> 0 \<Longrightarrow> cmp a c \<le> 0"
begin

abbreviation le :: "'a \<Rightarrow> 'a \<Rightarrow> bool" where
  "le a b \<equiv> cmp a b \<le> 0"

lemma cmp_refl: "cmp a a = 0"
  using cmp_sign [of a a] by linarith

lemma le_total: "\<not> le a b \<Longrightarrow> le b a"
  using cmp_sign [of b a] by linarith

lemma cmp_zero: "cmp a b = 0 \<longleftrightarrow> le a b \<and> le b a"
  using cmp_sign [of a b] cmp_sign [of b a] by linarith

lemma cmp_pos: "0 < cmp a b \<longleftrightarrow> le b a \<and> \<not> le a b"
  using cmp_sign [of b a] by linarith

end

section \<open>Permutations\<close>

lemma mset_sift: "n \<le> length xs \<Longrightarrow> r < n \<Longrightarrow> mset (sift cmp n r xs) = mset xs \<and> length (sift cmp n r xs) = length xs
    \<and> (\<forall>i. n \<le> i \<longrightarrow> i < length xs \<longrightarrow> sift cmp n r xs ! i = xs ! i)"
proof (induction cmp n r xs rule: sift.induct)
  case (1 cmp n r xs)
  let ?d = "larger_child cmp n r xs"
  show ?case
  proof (cases "r * 2 + 1 < n \<and> \<not> cmp (xs ! r) (xs ! ?d) > 0")
    case False
    then have "sift cmp n r xs = xs" by (subst sift.simps) (auto simp: Let_def)
    then show ?thesis by simp
  next
    case True
    then have c: "r * 2 + 1 < n" and x: "\<not> cmp (xs ! r) (xs ! ?d) > 0" by auto
    have d: "?d < n" using larger_child_bounds [OF c] by blast
    have "sift cmp n r xs = sift cmp n ?d (swap_el r ?d xs)"
      using c x by (subst sift.simps) (simp add: Let_def)
    moreover have "mset (sift cmp n ?d (swap_el r ?d xs)) = mset (swap_el r ?d xs)
        \<and> length (sift cmp n ?d (swap_el r ?d xs)) = length (swap_el r ?d xs)
        \<and> (\<forall>i. n \<le> i \<longrightarrow> i < length (swap_el r ?d xs) \<longrightarrow> sift cmp n ?d (swap_el r ?d xs) ! i = swap_el r ?d xs ! i)"
      by (rule "1.IH" [OF c refl x]) (use "1.prems" d in auto)
    moreover have "mset (swap_el r ?d xs) = mset xs" using "1.prems" d by (intro mset_swap_el) auto
    moreover have "swap_el r ?d xs ! i = xs ! i" if "n \<le> i" "i < length xs" for i
      using that "1.prems" d by (subst nth_swap_el) auto
    ultimately show ?thesis by simp
  qed
qed

section \<open>Heap sort sorts\<close>

text \<open>Every element from \<open>k\<close> on is at least its children; \<open>heap_but\<close> exempts \<open>r\<close>.\<close>

context comparison
begin

definition heap :: "nat \<Rightarrow> nat \<Rightarrow> 'a list \<Rightarrow> bool" where
  "heap k n xs \<longleftrightarrow> (\<forall>i. 0 < i \<longrightarrow> i < n \<longrightarrow> k \<le> (i - 1) div 2 \<longrightarrow> le (xs ! i) (xs ! ((i - 1) div 2)))"

definition heap_but :: "nat \<Rightarrow> nat \<Rightarrow> nat \<Rightarrow> 'a list \<Rightarrow> bool" where
  "heap_but k n r xs \<longleftrightarrow>
     (\<forall>i. 0 < i \<longrightarrow> i < n \<longrightarrow> k \<le> (i - 1) div 2 \<longrightarrow> (i - 1) div 2 \<noteq> r \<longrightarrow> le (xs ! i) (xs ! ((i - 1) div 2)))
     \<and> (\<forall>i. 0 < i \<longrightarrow> i < n \<longrightarrow> (i - 1) div 2 = r \<longrightarrow> 0 < r \<longrightarrow> k \<le> (r - 1) div 2 \<longrightarrow> le (xs ! i) (xs ! ((r - 1) div 2)))"

lemma larger_child_max:
  assumes "r * 2 + 1 < n" "0 < i" "i < n" "(i - 1) div 2 = r"
  shows "le (xs ! i) (xs ! larger_child cmp n r xs)"
proof -
  have "i = 2 * r + 1 \<or> i = 2 * r + 2" using assms(2,4) by presburger
  then show ?thesis
    using assms le_total cmp_refl by (auto simp: larger_child_def Let_def mult.commute)
qed

lemma heap_but_sink:
  assumes h: "heap_but k n r xs" and n: "n \<le> length xs" and c: "r * 2 + 1 < n"
    and x: "\<not> cmp (xs ! r) (xs ! larger_child cmp n r xs) > 0"
  shows "heap_but k n (larger_child cmp n r xs) (swap_el r (larger_child cmp n r xs) xs)"
proof -
  let ?d = "larger_child cmp n r xs" and ?ys = "swap_el r (larger_child cmp n r xs) xs"
  have d: "r < ?d" "?d < n" "(?d - 1) div 2 = r" using larger_child_bounds [OF c, of cmp xs] by auto
  have nth: "?ys ! i = (if i = r then xs ! ?d else if i = ?d then xs ! r else xs ! i)" if "i < n" for i
    using that d n by (subst nth_swap_el) auto
  have le_d: "le (xs ! r) (xs ! ?d)" using x by simp
  have A: "le (?ys ! i) (?ys ! ((i - 1) div 2))"
    if i: "0 < i" "i < n" "k \<le> (i - 1) div 2" "(i - 1) div 2 \<noteq> ?d" for i
  proof -
    have p: "(i - 1) div 2 < n" "(i - 1) div 2 < i" using i by auto
    consider "i = r" | "i \<noteq> r" "(i - 1) div 2 = r" | "i \<noteq> r" "(i - 1) div 2 \<noteq> r" by blast
    then show ?thesis
    proof cases
      case 1
      then have "le (xs ! ?d) (xs ! ((r - 1) div 2))"
        using h d i by (auto simp: heap_but_def)
      then show ?thesis using 1 nth [of i] nth [OF p(1)] i p d by auto
    next
      case 2
      then show ?thesis
        using nth [of i] nth [OF p(1)] i le_d larger_child_max [OF c i(1,2) 2(2)] d by auto
    next
      case 3
      moreover have "i \<noteq> ?d" using d(3) 3 by auto
      ultimately show ?thesis using h i nth [of i] nth [OF p(1)] by (auto simp: heap_but_def)
    qed
  qed
  have B: "le (?ys ! i) (?ys ! ((?d - 1) div 2))"
    if i: "0 < i" "i < n" "(i - 1) div 2 = ?d" "k \<le> (?d - 1) div 2" for i
  proof -
    have "?d < i" using i by auto
    have "k \<le> (i - 1) div 2" using i d by linarith
    moreover have "(i - 1) div 2 \<noteq> r" using i(3) d(1) by linarith
    ultimately have "le (xs ! i) (xs ! ((i - 1) div 2))"
      using h [unfolded heap_but_def, THEN conjunct1] i(1,2) by blast
    moreover have "?ys ! i = xs ! i" "?ys ! ((?d - 1) div 2) = xs ! ?d"
      using nth [of i] nth [of r] d i by auto
    ultimately show ?thesis using i(3) by simp
  qed
  show ?thesis unfolding heap_but_def using A B by blast
qed

lemma sift_heap:
  assumes "heap_but k n r xs" "n \<le> length xs" "r < n"
  shows "heap k n (sift cmp n r xs)"
  using assms
proof (induction "n - r" arbitrary: r xs rule: less_induct)
  case less
  let ?d = "larger_child cmp n r xs"
  show ?case
  proof (cases "r * 2 + 1 < n \<and> \<not> cmp (xs ! r) (xs ! ?d) > 0")
    case True
    then have c: "r * 2 + 1 < n" and x: "\<not> cmp (xs ! r) (xs ! ?d) > 0" by auto
    have d: "r < ?d" "?d < n" using larger_child_bounds [OF c] by blast+
    have "sift cmp n r xs = sift cmp n ?d (swap_el r ?d xs)"
      using c x by (subst sift.simps) (simp add: Let_def)
    moreover have "heap k n (sift cmp n ?d (swap_el r ?d xs))"
      by (rule less.hyps) (use d less.prems heap_but_sink [OF less.prems(1,2) c x] in auto)
    ultimately show ?thesis by simp
  next
    case False
    then have "sift cmp n r xs = xs" by (subst sift.simps) (auto simp: Let_def)
    moreover have "le (xs ! i) (xs ! ((i - 1) div 2))"
      if i: "0 < i" "i < n" "k \<le> (i - 1) div 2" for i
    proof (cases "(i - 1) div 2 = r")
      case r: True
      then have c: "r * 2 + 1 < n" using i by presburger
      then have "le (xs ! ?d) (xs ! r)" using False cmp_pos by blast
      with larger_child_max [OF c i(1,2) r] show ?thesis using cmp_trans r by blast
    qed (use less.prems i in \<open>auto simp: heap_but_def\<close>)
    ultimately show ?thesis by (simp add: heap_def)
  qed
qed

lemma heap_build_ok:
  assumes "heap k n xs" "n \<le> length xs" "k \<le> n"
  shows "heap 0 n (heap_build cmp n k xs) \<and> mset (heap_build cmp n k xs) = mset xs"
  using assms
proof (induction k arbitrary: xs)
  case 0
  then show ?case by simp
next
  case (Suc k)
  have "heap_but k n k xs"
    using Suc.prems(1) by (auto simp: heap_but_def heap_def)
  then have "heap k n (sift cmp n k xs)" using Suc.prems by (intro sift_heap) auto
  moreover have "mset (sift cmp n k xs) = mset xs" "length (sift cmp n k xs) = length xs"
    using mset_sift [of n xs k cmp] Suc.prems by auto
  ultimately show ?case using Suc.IH [of "sift cmp n k xs"] Suc.prems by simp
qed

lemma heap_root:
  assumes "heap 0 n xs" "i < n"
  shows "le (xs ! i) (xs ! 0)"
  using assms(2)
proof (induction i rule: less_induct)
  case (less i)
  show ?case
  proof (cases "i = 0")
    case True
    then show ?thesis by (simp add: cmp_refl)
  next
    case False
    then have "le (xs ! i) (xs ! ((i - 1) div 2))" using assms(1) less.prems by (simp add: heap_def)
    moreover have "le (xs ! ((i - 1) div 2)) (xs ! 0)" by (rule less.IH) (use False less.prems in auto)
    ultimately show ?thesis by (rule cmp_trans)
  qed
qed

text \<open>The part behind the heap is sorted and at least everything in the heap.\<close>

definition drained :: "nat \<Rightarrow> 'a list \<Rightarrow> bool" where
  "drained n xs \<longleftrightarrow> heap 0 n xs \<and> (\<forall>i j. i < j \<longrightarrow> n \<le> j \<longrightarrow> j < length xs \<longrightarrow> le (xs ! i) (xs ! j))"

lemma mset_take_nth:
  assumes "mset ys = mset xs" "length ys = length xs" "\<forall>i. n \<le> i \<longrightarrow> i < length xs \<longrightarrow> ys ! i = xs ! i"
  shows "set (take n ys) = set (take n xs)"
proof -
  have "drop n ys = drop n xs" using assms(2,3) by (intro nth_equalityI) auto
  moreover have "mset (take n ys) + mset (drop n ys) = mset (take n xs) + mset (drop n xs)"
    using assms(1) by (metis append_take_drop_id mset_append)
  ultimately have "mset (take n ys) = mset (take n xs)" by simp
  then show ?thesis by (rule mset_eq_setD)
qed

lemma heap_drain_ok:
  "drained (Suc i) xs \<Longrightarrow> i < length xs \<Longrightarrow>
     sorted_wrt le (heap_drain cmp i xs) \<and> mset (heap_drain cmp i xs) = mset xs"
proof (induction i arbitrary: xs)
  case 0
  have "le (xs ! i) (xs ! j)" if "i < j" "j < length xs" for i j
    using that 0 by (auto simp: drained_def)
  then show ?case by (simp add: sorted_wrt_iff_nth_less)
next
  case (Suc i)
  let ?n = "Suc i"
  let ?ys = "swap_el 0 ?n xs"
  let ?zs = "sift cmp ?n 0 ?ys"
  have n: "?n < length xs" using Suc.prems by simp
  have h: "heap 0 (Suc ?n) xs" using Suc.prems by (simp add: drained_def)
  have ynth: "?ys ! j = (if j = 0 then xs ! ?n else if j = ?n then xs ! 0 else xs ! j)" if "j < length xs" for j
    using that n by (subst nth_swap_el) auto
  have "heap_but 0 ?n 0 ?ys"
    using h ynth n by (auto simp: heap_but_def heap_def)
  then have hz: "heap 0 ?n ?zs" using n by (intro sift_heap) auto
  have m: "mset ?zs = mset ?ys \<and> length ?zs = length ?ys \<and> (\<forall>j. ?n \<le> j \<longrightarrow> j < length ?ys \<longrightarrow> ?zs ! j = ?ys ! j)"
    using n by (intro mset_sift) auto
  then have sz: "set (take ?n ?zs) = set (take ?n ?ys)" using mset_take_nth by blast
  have top: "le (xs ! j) (xs ! 0)" if "j \<le> ?n" for j using heap_root [OF h] that by simp
  have "le (?zs ! a) (?zs ! b)" if ab: "a < b" "?n \<le> b" "b < length ?zs" for a b
  proof -
    have bl: "b < length xs" using ab m by simp
    have zb: "?zs ! b = ?ys ! b" using m ab by simp
    show ?thesis
    proof (cases "a < ?n")
      case False
      then have "?zs ! a = ?ys ! a" "a \<noteq> 0" using m ab by auto
      then show ?thesis
        using zb ab bl False ynth [of a] ynth [of b] Suc.prems(1) n by (auto simp: drained_def)
    next
      case True
      then have "?zs ! a \<in> set (take ?n ?zs)" using ab by (auto simp: in_set_conv_nth intro!: exI [of _ a])
      then obtain a' where a': "a' < ?n" "?zs ! a = ?ys ! a'"
        unfolding sz using n by (auto simp: in_set_conv_nth)
      define a0 where "a0 = (if a' = 0 then ?n else a')"
      have a0: "a0 \<le> ?n" "?ys ! a' = xs ! a0"
        using ynth [of a'] a'(1) n by (auto simp: a0_def)
      show ?thesis
      proof (cases "b = ?n")
        case True
        then show ?thesis using zb ynth [of b] bl top [OF a0(1)] a' a0 by simp
      next
        case False
        then have "?ys ! b = xs ! b" "a0 < b" "Suc ?n \<le> b" using ynth [of b] bl ab a0 by auto
        then show ?thesis using zb a' a0 Suc.prems(1) bl by (simp add: drained_def)
      qed
    qed
  qed
  then have "drained (Suc i) ?zs" using hz by (simp add: drained_def)
  then have "sorted_wrt le (heap_drain cmp i ?zs) \<and> mset (heap_drain cmp i ?zs) = mset ?zs"
    using Suc.IH [of ?zs] m n by simp
  moreover have "mset ?ys = mset xs" using n by (intro mset_swap_el) auto
  ultimately show ?case using m by simp
qed

lemma heapsortx_sorts: "sorted_wrt le (heapsortx cmp xs) \<and> mset (heapsortx cmp xs) = mset xs"
proof (cases "1 < length xs")
  case False
  then have "length xs = 0 \<or> length xs = 1" by linarith
  then show ?thesis using False by (auto simp: heapsortx_def Let_def length_Suc_conv)
next
  case True
  let ?n = "length xs" and ?ys = "heap_build cmp (length xs) (length xs div 2) xs"
  have "heap (?n div 2) ?n xs" by (auto simp: heap_def)
  then have b: "heap 0 ?n ?ys" "mset ?ys = mset xs" using heap_build_ok [of "?n div 2" ?n xs] by auto
  then have l: "length ?ys = ?n" by (metis size_mset)
  have "Suc (?n - 1) = ?n" using True by simp
  then have "drained (Suc (?n - 1)) ?ys" unfolding drained_def using b(1) l by simp
  from heap_drain_ok [OF this] l True b show ?thesis by (simp add: heapsortx_def Let_def)
qed

end

end
