(* ===== verification/RqsortCorrect.thy ===== *)
theory RqsortCorrect
  imports Rqsort
begin

text \<open>
  \<open>rqsort\<close> sorts: the partitioning step splits a piece into smaller, equal and larger elements,
  and the frames of the stack are always the only places where the array is not sorted yet.
\<close>

section \<open>Insertion sort\<close>

lemma insert_down_perm:
  "k < length xs \<Longrightarrow> mset (insert_down cmp k xs) = mset xs \<and> length (insert_down cmp k xs) = length xs"
proof (induction k arbitrary: xs)
  case (Suc k)
  then show ?case using Suc.IH [of "swap_el (Suc k) k xs"] by simp
qed simp

lemma insertion_from_perm:
  "pi + n \<le> length xs \<Longrightarrow> mset (insertion_from cmp n pi xs) = mset xs"
proof (induction n arbitrary: pi xs)
  case (Suc n)
  then show ?case
    using Suc.IH [of "Suc pi" "insert_down cmp pi xs"] insert_down_perm [of pi xs cmp] by simp
qed simp

lemma insertion_sort_perm: "mset (insertion_sort cmp xs) = mset xs"
  unfolding insertion_sort_def
  by (cases xs) (simp_all add: insertion_from_perm)

context comparison
begin

text \<open>Element \<open>k\<close> is the only one of the first \<open>n\<close> that may be out of order with those before it.\<close>

definition sorted_but :: "nat \<Rightarrow> nat \<Rightarrow> 'a list \<Rightarrow> bool" where
  "sorted_but k n xs \<longleftrightarrow> (\<forall>i j. i < j \<longrightarrow> j < n \<longrightarrow> j \<noteq> k \<longrightarrow> le (xs ! i) (xs ! j))"

lemma insert_down_sorts:
  "sorted_but k n xs \<Longrightarrow> k < n \<Longrightarrow> n \<le> length xs \<Longrightarrow> sorted_but n n (insert_down cmp k xs)"
proof (induction k arbitrary: xs)
  case 0
  then show ?case by (auto simp: sorted_but_def)
next
  case (Suc k)
  have nth: "swap_el (Suc k) k xs ! i = (if i = Suc k then xs ! k else if i = k then xs ! Suc k else xs ! i)"
    if "i < n" for i
    using that Suc.prems by (subst nth_swap_el) auto
  have so: "le (xs ! i) (xs ! j)" if "i < j" "j < n" "j \<noteq> Suc k" for i j
    using Suc.prems(1) that by (auto simp: sorted_but_def)
  show ?case
  proof (cases "cmp (xs ! k) (xs ! Suc k) > 0")
    case True
    then have kk: "le (xs ! Suc k) (xs ! k)" by (simp add: cmp_pos)
    have "le (swap_el (Suc k) k xs ! i) (swap_el (Suc k) k xs ! j)"
      if ij: "i < j" "j < n" "j \<noteq> k" for i j
      using ij nth [of i] nth [of j] so [of i j] so [of "Suc k" j] so [of k j] so [of i k] kk
      by (cases "j = Suc k"; cases "i = Suc k"; cases "i = k") auto
    then have "sorted_but k n (swap_el (Suc k) k xs)" by (simp add: sorted_but_def)
    with Suc.IH [OF this] Suc.prems True show ?thesis by simp
  next
    case False
    then have kk: "le (xs ! k) (xs ! Suc k)" by simp
    have "le (xs ! i) (xs ! Suc k)" if "i < Suc k" for i
    proof (cases "i = k")
      case False
      then show ?thesis using so [of i k] that Suc.prems(2) kk cmp_trans by auto
    qed (use kk in simp)
    then have "sorted_but n n xs" using so by (auto simp: sorted_but_def)
    then show ?thesis using False by simp
  qed
qed

lemma insertion_from_sorts:
  "sorted_but pi pi xs \<Longrightarrow> pi + n \<le> length xs \<Longrightarrow> sorted_but (pi + n) (pi + n) (insertion_from cmp n pi xs)"
proof (induction n arbitrary: pi xs)
  case (Suc n)
  have "sorted_but pi (Suc pi) xs"
    using Suc.prems(1) by (auto simp: sorted_but_def less_Suc_eq)
  then have "sorted_but (Suc pi) (Suc pi) (insert_down cmp pi xs)"
    using Suc.prems by (intro insert_down_sorts) auto
  then show ?case
    using Suc.IH [of "Suc pi" "insert_down cmp pi xs"] Suc.prems insert_down_perm [of pi xs cmp] by simp
qed simp

lemma insertion_sort_sorts: "sorted_wrt le (insertion_sort cmp xs)"
proof (cases xs)
  case Nil
  then show ?thesis by (simp add: insertion_sort_def)
next
  case (Cons x ys)
  have "sorted_but 1 1 xs" by (simp add: sorted_but_def)
  then have s: "sorted_but (length xs) (length xs) (insertion_sort cmp xs)"
    using insertion_from_sorts [of 1 xs "length xs - 1"] Cons by (simp add: insertion_sort_def)
  have "length (insertion_sort cmp xs) = length xs" by (metis insertion_sort_perm size_mset)
  with s show ?thesis by (simp add: sorted_wrt_iff_nth_less sorted_but_def)
qed

end

section \<open>Partitioning\<close>

text \<open>Both ends hold elements equal to the pivot, between them smaller and larger ones; the
  elements from \<open>pi\<close> to \<open>pj\<close> are still to be classified.\<close>

definition parted :: "('a \<Rightarrow> 'a \<Rightarrow> int) \<Rightarrow> 'a \<Rightarrow> 'a list \<Rightarrow> nat \<Rightarrow> nat \<Rightarrow> nat \<Rightarrow> nat \<Rightarrow> bool" where
  "parted cmp p xs plt pi pj pgt \<longleftrightarrow>
     1 \<le> plt \<and> plt \<le> pi \<and> pi \<le> pj \<and> pj \<le> pgt \<and> pgt \<le> length xs \<and> xs ! 0 = p
     \<and> (\<forall>i<length xs. (i < plt \<longrightarrow> cmp p (xs ! i) = 0) \<and> (plt \<le> i \<and> i < pi \<longrightarrow> 0 < cmp p (xs ! i))
          \<and> (pj \<le> i \<and> i < pgt \<longrightarrow> cmp p (xs ! i) < 0) \<and> (pgt \<le> i \<longrightarrow> cmp p (xs ! i) = 0))"

lemma parted_step_left:
  assumes "parted cmp p xs plt pi pj pgt" "pi < pj" "0 \<le> cmp p (xs ! pi)"
  shows "parted cmp p (if cmp p (xs ! pi) = 0 then swap_el plt pi xs else xs)
           (if cmp p (xs ! pi) = 0 then plt + 1 else plt) (pi + 1) pj pgt"
proof (cases "cmp p (xs ! pi) = 0")
  case True
  have l: "plt < length xs" "pi < length xs" using assms by (auto simp: parted_def)
  have nth: "swap_el plt pi xs ! i = (if i = plt then xs ! pi else if i = pi then xs ! plt else xs ! i)"
    if "i < length xs" for i using that l by (subst nth_swap_el) auto
  have z: "swap_el plt pi xs ! 0 = p" using assms l by (subst nth) (auto simp: parted_def)
  have "(i < plt + 1 \<longrightarrow> cmp p (swap_el plt pi xs ! i) = 0) \<and> (plt + 1 \<le> i \<and> i < pi + 1 \<longrightarrow> 0 < cmp p (swap_el plt pi xs ! i))
      \<and> (pj \<le> i \<and> i < pgt \<longrightarrow> cmp p (swap_el plt pi xs ! i) < 0) \<and> (pgt \<le> i \<longrightarrow> cmp p (swap_el plt pi xs ! i) = 0)"
    if "i < length xs" for i
    using assms that True l unfolding nth [OF that] by (auto simp: parted_def)
  then show ?thesis using z assms True by (auto simp: parted_def)
next
  case False
  then show ?thesis using assms by (auto simp: parted_def less_Suc_eq)
qed

lemma parted_step_right:
  assumes "parted cmp p xs plt pi (Suc pj) pgt" "pi < pj" "cmp p (xs ! pj) \<le> 0"
  shows "parted cmp p (if cmp p (xs ! pj) = 0 then swap_el (pgt - 1) pj xs else xs) plt pi pj
           (if cmp p (xs ! pj) = 0 then pgt - 1 else pgt)"
proof (cases "cmp p (xs ! pj) = 0")
  case True
  have l: "pgt - 1 < length xs" "pj < length xs" using assms by (auto simp: parted_def)
  have nth: "swap_el (pgt - 1) pj xs ! i = (if i = pgt - 1 then xs ! pj else if i = pj then xs ! (pgt - 1) else xs ! i)"
    if "i < length xs" for i using that l by (subst nth_swap_el) auto
  have z: "swap_el (pgt - 1) pj xs ! 0 = p" using assms l by (subst nth) (auto simp: parted_def)
  have "(i < plt \<longrightarrow> cmp p (swap_el (pgt - 1) pj xs ! i) = 0) \<and> (plt \<le> i \<and> i < pi \<longrightarrow> 0 < cmp p (swap_el (pgt - 1) pj xs ! i))
      \<and> (pj \<le> i \<and> i < pgt - 1 \<longrightarrow> cmp p (swap_el (pgt - 1) pj xs ! i) < 0)
      \<and> (pgt - 1 \<le> i \<longrightarrow> cmp p (swap_el (pgt - 1) pj xs ! i) = 0)"
    if "i < length xs" for i
    using assms that True l unfolding nth [OF that] by (auto simp: parted_def)
  then show ?thesis using z assms True by (auto simp: parted_def)
next
  case False
  then have "(pj \<le> i \<and> i < pgt \<longrightarrow> cmp p (xs ! i) < 0)" if "i < length xs" for i
    using assms that by (cases "i = pj") (auto simp: parted_def)
  then show ?thesis using assms False by (auto simp: parted_def)
qed

lemma scan_left_parted:
  "scan_left cmp pj xs plt pi = (xs', plt', pi') \<Longrightarrow> parted cmp p xs plt pi pj pgt \<Longrightarrow>
     parted cmp p xs' plt' pi' pj pgt \<and> mset xs' = mset xs \<and> (pi' < pj \<longrightarrow> cmp p (xs' ! pi') < 0)"
proof (induction cmp pj xs plt pi rule: scan_left.induct)
  case (1 cmp pj xs plt pi)
  have p: "xs ! 0 = p" using "1.prems"(2) by (simp add: parted_def)
  show ?case
  proof (cases "pi < pj \<and> cmp (xs ! 0) (xs ! pi) \<ge> 0")
    case False
    then have "(xs', plt', pi') = (xs, plt, pi)"
      using "1.prems"(1) by (subst (asm) scan_left.simps) auto
    then show ?thesis using "1.prems" False p by auto
  next
    case True
    then have s: "parted cmp p (if cmp p (xs ! pi) = 0 then swap_el plt pi xs else xs)
           (if cmp p (xs ! pi) = 0 then plt + 1 else plt) (pi + 1) pj pgt"
      using parted_step_left [OF "1.prems"(2)] p by auto
    show ?thesis
    proof (cases "cmp (xs ! 0) (xs ! pi) = 0")
      case eq: True
      have "scan_left cmp pj (swap_el plt pi xs) (plt + 1) (pi + 1) = (xs', plt', pi')"
        using "1.prems"(1) True eq by (subst (asm) scan_left.simps) simp
      moreover have "mset (swap_el plt pi xs) = mset xs"
        using "1.prems"(2) True by (intro mset_swap_el) (auto simp: parted_def)
      ultimately show ?thesis using "1.IH"(1) [OF True eq] s eq p by simp
    next
      case ne: False
      have "scan_left cmp pj xs plt (pi + 1) = (xs', plt', pi')"
        using "1.prems"(1) True ne by (subst (asm) scan_left.simps) simp
      then show ?thesis using "1.IH"(2) [OF True ne] s ne p by simp
    qed
  qed
qed

lemma scan_right_parted:
  "scan_right cmp pi xs pj pgt = (xs', pj', pgt') \<Longrightarrow> parted cmp p xs plt pi pj pgt \<Longrightarrow>
     parted cmp p xs' plt pi (Suc pj') pgt' \<and> mset xs' = mset xs \<and> (pi < pj' \<longrightarrow> 0 < cmp p (xs' ! pj'))
     \<and> (pi < pj \<longrightarrow> xs' ! pi = xs ! pi)"
proof (induction cmp pi xs pj pgt rule: scan_right.induct)
  case (1 cmp pi xs pgt)
  then have False by (auto simp: parted_def)
  then show ?case ..
next
  case (2 cmp pi xs pj pgt)
  have p: "xs ! 0 = p" using "2.prems"(2) by (simp add: parted_def)
  show ?case
  proof (cases "pi < pj \<and> cmp (xs ! 0) (xs ! pj) \<le> 0")
    case False
    then have "(xs', pj', pgt') = (xs, pj, pgt)" using "2.prems"(1) by (auto simp: scan_right.simps)
    then show ?thesis using "2.prems" False p by auto
  next
    case True
    then have s: "parted cmp p (if cmp p (xs ! pj) = 0 then swap_el (pgt - 1) pj xs else xs) plt pi pj
           (if cmp p (xs ! pj) = 0 then pgt - 1 else pgt)"
      using parted_step_right [OF "2.prems"(2)] p by auto
    have l: "pgt - 1 < length xs" "pj < length xs" "pi < pgt - 1" using "2.prems"(2) True by (auto simp: parted_def)
    show ?thesis
    proof (cases "cmp (xs ! 0) (xs ! pj) = 0")
      case eq: True
      have "scan_right cmp pi (swap_el (pgt - 1) pj xs) pj (pgt - 1) = (xs', pj', pgt')"
        using "2.prems"(1) True eq by (simp add: scan_right.simps)
      moreover have "mset (swap_el (pgt - 1) pj xs) = mset xs" using l by (intro mset_swap_el) auto
      moreover have "swap_el (pgt - 1) pj xs ! pi = xs ! pi" using l True by (subst nth_swap_el) auto
      ultimately show ?thesis using "2.IH"(1) [OF True eq] s eq p True by simp
    next
      case ne: False
      have "scan_right cmp pi xs pj pgt = (xs', pj', pgt')"
        using "2.prems"(1) True ne by (simp add: scan_right.simps)
      then show ?thesis using "2.IH"(2) [OF True ne] s ne p True by simp
    qed
  qed
qed

lemma parted_swap_both:
  assumes "parted cmp p xs plt pi (Suc pj) pgt" "pi < pj" "cmp p (xs ! pi) < 0" "0 < cmp p (xs ! pj)"
  shows "parted cmp p (swap_el pi pj xs) plt (pi + 1) pj pgt"
proof -
  have l: "pj < length xs" "pi < length xs" using assms by (auto simp: parted_def)
  have nth: "swap_el pi pj xs ! i = (if i = pi then xs ! pj else if i = pj then xs ! pi else xs ! i)"
    if "i < length xs" for i using that l by (subst nth_swap_el) auto
  have z: "swap_el pi pj xs ! 0 = p" using assms l by (subst nth) (auto simp: parted_def)
  have "(i < plt \<longrightarrow> cmp p (swap_el pi pj xs ! i) = 0) \<and> (plt \<le> i \<and> i < pi + 1 \<longrightarrow> 0 < cmp p (swap_el pi pj xs ! i))
      \<and> (pj \<le> i \<and> i < pgt \<longrightarrow> cmp p (swap_el pi pj xs ! i) < 0)
      \<and> (pgt \<le> i \<longrightarrow> cmp p (swap_el pi pj xs ! i) = 0)"
    if "i < length xs" for i
    using assms that l unfolding nth [OF that] by (auto simp: parted_def)
  then show ?thesis using z assms by (auto simp: parted_def)
qed

lemma partition_loop_parted:
  "partition_loop cmp xs plt pi pj pgt = (xs', plt', pi', pgt') \<Longrightarrow> parted cmp p xs plt pi pj pgt \<Longrightarrow>
     parted cmp p xs' plt' pi' pi' pgt' \<and> mset xs' = mset xs"
proof (induction cmp xs plt pi pj pgt rule: partition_loop.induct)
  case (1 cmp xs plt pi pj pgt)
  obtain xs1 plt1 pi1 where l: "scan_left cmp pj xs plt pi = (xs1, plt1, pi1)" by (metis prod_cases3)
  obtain xs2 pj2 pgt2 where r: "scan_right cmp pi1 xs1 pj pgt = (xs2, pj2, pgt2)" by (metis prod_cases3)
  from scan_left_parted [OF l "1.prems"(2)]
  have A: "parted cmp p xs1 plt1 pi1 pj pgt" "mset xs1 = mset xs" "pi1 < pj \<longrightarrow> cmp p (xs1 ! pi1) < 0" by auto
  from scan_right_parted [OF r A(1)]
  have B: "parted cmp p xs2 plt1 pi1 (Suc pj2) pgt2" "mset xs2 = mset xs1" "pi1 < pj2 \<longrightarrow> 0 < cmp p (xs2 ! pj2)"
    "pi1 < pj \<longrightarrow> xs2 ! pi1 = xs1 ! pi1" by auto
  have pos: "0 < pj" using "1.prems"(2) by (auto simp: parted_def)
  have le: "pj2 \<le> pj" using scan_right_le [OF r] .
  have lt: "pj2 < pj" using scan_right_bounds [OF r _ pos] A(1) by (auto simp: parted_def)
  show ?case
  proof (cases "pi1 \<ge> pj2")
    case True
    then have e: "(xs', plt', pi', pgt') = (xs2, plt1, pi1, pgt2)"
      using "1.prems"(1) l r by (subst (asm) partition_loop.simps) simp
    have "parted cmp p xs2 plt1 pi1 pi1 pgt2"
    proof (cases "pj2 = pi1")
      case eq: True
      then have "cmp p (xs2 ! pi1) < 0" using A(3) B(4) lt by simp
      then show ?thesis using B(1) eq by (auto simp: parted_def le_eq_less_or_eq)
    next
      case False
      then have "Suc pj2 = pi1" using True B(1) by (auto simp: parted_def)
      then show ?thesis using B(1) by simp
    qed
    then show ?thesis using e A B by simp
  next
    case False
    then have x: "pi1 < pj2" by simp
    have "partition_loop cmp (swap_el pi1 pj2 xs2) plt1 (pi1 + 1) pj2 pgt2 = (xs', plt', pi', pgt')"
      using "1.prems"(1) l r False by (subst (asm) partition_loop.simps) simp
    moreover have "parted cmp p (swap_el pi1 pj2 xs2) plt1 (pi1 + 1) pj2 pgt2"
      using A B x lt by (intro parted_swap_both) auto
    moreover have "mset (swap_el pi1 pj2 xs2) = mset xs2"
      using B(1) x by (intro mset_swap_el) (auto simp: parted_def)
    ultimately show ?thesis
      using "1.IH" [OF l [symmetric] refl refl r [symmetric] refl refl False] A B by simp
  qed
qed

lemma swap_range_perm:
  "i + k \<le> length xs \<Longrightarrow> j + k \<le> length xs \<Longrightarrow>
     mset (swap_range i j k xs) = mset xs \<and> length (swap_range i j k xs) = length xs"
proof (induction k arbitrary: i j xs)
  case (Suc k)
  then show ?case using Suc.IH [of "i + 1" "swap_el i j xs" "j + 1"] by simp
qed simp

lemma nth_swap_range:
  "i + k \<le> j \<Longrightarrow> j + k \<le> length xs \<Longrightarrow> m < length xs \<Longrightarrow>
     swap_range i j k xs ! m =
       (if i \<le> m \<and> m < i + k then xs ! (m - i + j) else if j \<le> m \<and> m < j + k then xs ! (m - j + i) else xs ! m)"
proof (induction k arbitrary: i j xs)
  case (Suc k)
  have e: "swap_el i j xs ! m = (if m = i then xs ! j else if m = j then xs ! i else xs ! m)"
    if "m < length xs" for m
    using that Suc.prems by (subst nth_swap_el) auto
  have "swap_range i j (Suc k) xs ! m =
      (if i + 1 \<le> m \<and> m < i + 1 + k then swap_el i j xs ! (m - (i + 1) + (j + 1))
       else if j + 1 \<le> m \<and> m < j + 1 + k then swap_el i j xs ! (m - (j + 1) + (i + 1)) else swap_el i j xs ! m)"
    using Suc.IH [of "i + 1" "j + 1" "swap_el i j xs"] Suc.prems by simp
  also have "\<dots> = (if i \<le> m \<and> m < i + Suc k then xs ! (m - i + j)
      else if j \<le> m \<and> m < j + Suc k then xs ! (m - j + i) else xs ! m)"
    using Suc.prems e [of m] e [of "m - i + j"] e [of "m - j + i"] by (cases "m = j") (auto simp: Suc_diff_le Suc_diff_Suc)
  finally show ?case .
qed auto

text \<open>The piece in three parts, relative to the pivot.\<close>

definition three_parts :: "('a \<Rightarrow> 'a \<Rightarrow> int) \<Rightarrow> 'a \<Rightarrow> 'a list \<Rightarrow> nat \<Rightarrow> nat \<Rightarrow> bool" where
  "three_parts cmp p zs lt gt \<longleftrightarrow> lt \<le> gt \<and> gt \<le> length zs
     \<and> (\<forall>i<length zs. (i < lt \<longrightarrow> 0 < cmp p (zs ! i)) \<and> (lt \<le> i \<and> i < gt \<longrightarrow> cmp p (zs ! i) = 0)
          \<and> (gt \<le> i \<longrightarrow> cmp p (zs ! i) < 0))"

lemma parted_middle:
  assumes "parted cmp p ys plt pi pi pgt" "n = length ys"
    and "ys2 = swap_range 0 (pi - min plt (pi - plt)) (min plt (pi - plt)) ys"
    and "zs = swap_range pi (n - min (n - pgt) (pgt - pi)) (min (n - pgt) (pgt - pi)) ys2"
  shows "three_parts cmp p zs (pi - plt) (n - (pgt - pi)) \<and> mset zs = mset ys \<and> length zs = length ys"
proof -
  let ?s = "min plt (pi - plt)" and ?t = "min (n - pgt) (pgt - pi)"
  have b: "1 \<le> plt" "plt \<le> pi" "pi \<le> pgt" "pgt \<le> n" using assms(1,2) by (auto simp: parted_def)
  have l2: "length ys2 = n" "mset ys2 = mset ys"
    using swap_range_perm [of 0 ?s ys "pi - ?s"] b assms(2,3) by auto
  have l3: "length zs = n" "mset zs = mset ys2"
    using swap_range_perm [of pi ?t ys2 "n - ?t"] b l2 assms(4) by auto
  have n2: "ys2 ! i = (if i < ?s then ys ! (i + (pi - ?s)) else if pi - ?s \<le> i \<and> i < pi then ys ! (i - (pi - ?s)) else ys ! i)"
    if "i < n" for i
    using that b assms(2,3) nth_swap_range [of 0 ?s "pi - ?s" ys i] by auto
  have n3: "zs ! i = (if pi \<le> i \<and> i < pi + ?t then ys2 ! (i - pi + (n - ?t)) else if n - ?t \<le> i then ys2 ! (i - (n - ?t) + pi) else ys2 ! i)"
    if "i < n" for i
    using that b l2 assms(4) nth_swap_range [of pi ?t "n - ?t" ys2 i] by auto
  have y: "(i < plt \<longrightarrow> cmp p (ys ! i) = 0) \<and> (plt \<le> i \<and> i < pi \<longrightarrow> 0 < cmp p (ys ! i))
      \<and> (pi \<le> i \<and> i < pgt \<longrightarrow> cmp p (ys ! i) < 0) \<and> (pgt \<le> i \<longrightarrow> cmp p (ys ! i) = 0)" if "i < n" for i
    using assms(1,2) that by (auto simp: parted_def)
  have left: "(i < pi - plt \<longrightarrow> 0 < cmp p (ys2 ! i)) \<and> (pi - plt \<le> i \<longrightarrow> cmp p (ys2 ! i) = 0)" if i: "i < pi" for i
  proof (cases "plt \<le> pi - plt")
    case True
    then have s: "?s = plt" by simp
    have "i < n" "i + (pi - plt) < n \<or> plt \<le> i" "i - (pi - plt) < n" using i b by linarith+
    then show ?thesis
      using i b True n2 [of i, unfolded s] y [of i] y [of "i + (pi - plt)"] y [of "i - (pi - plt)"] by auto
  next
    case False
    then have s: "?s = pi - plt" "pi - ?s = plt" using b by auto
    have "i < n" "i + plt < n \<or> pi - plt \<le> i" "i - plt < n" using i b by linarith+
    then show ?thesis
      using i b False n2 [of i, unfolded s] y [of i] y [of "i + plt"] y [of "i - plt"] s by auto
  qed
  have right: "ys2 ! i = ys ! i" if "pi \<le> i" "i < n" for i using that b n2 [of i] by auto
  have A: "(i < pi - plt \<longrightarrow> 0 < cmp p (zs ! i)) \<and> (pi - plt \<le> i \<longrightarrow> cmp p (zs ! i) = 0)" if "i < pi" for i
    using that b n3 [of i] left [of i] by auto
  define t where "t = ?t"
  have t: "t \<le> n - pgt" "t \<le> pgt - pi" "t = n - pgt \<or> t = pgt - pi" by (auto simp: t_def)
  have B: "(i < n - (pgt - pi) \<longrightarrow> cmp p (zs ! i) = 0) \<and> (n - (pgt - pi) \<le> i \<longrightarrow> cmp p (zs ! i) < 0)"
    if i: "pi \<le> i" "i < n" for i
  proof -
    consider "i < pi + t" | "pi + t \<le> i" "n - t \<le> i" | "pi + t \<le> i" "i < n - t" by linarith
    then show ?thesis
    proof cases
      case 1
      let ?j = "i - pi + (n - t)"
      have j: "pi \<le> ?j" "?j < n" "pgt \<le> ?j" using 1 i b t by linarith+
      have "zs ! i = ys ! ?j" using i 1 n3 [OF i(2), folded t_def] right [OF j(1,2)] by simp
      moreover have "i < n - (pgt - pi)" using 1 b t by linarith
      ultimately show ?thesis using y [OF j(2)] j by simp
    next
      case 2
      let ?j = "i - (n - t) + pi"
      have j: "pi \<le> ?j" "?j < n" "?j < pgt" using 2 i b t by linarith+
      have "zs ! i = ys ! ?j" using i 2 n3 [OF i(2), folded t_def] right [OF j(1,2)] by simp
      moreover have "n - (pgt - pi) \<le> i" using 2 b t by linarith
      ultimately show ?thesis using y [OF j(2)] j by simp
    next
      case 3
      then have e: "zs ! i = ys ! i" using i n3 [OF i(2), folded t_def] right [OF i] by simp
      have "i < pgt \<and> n - (pgt - pi) \<le> i \<or> pgt \<le> i \<and> i < n - (pgt - pi)" using 3 i b t by linarith
      then show ?thesis using e y [OF i(2)] i by auto
    qed
  qed
  have "(i < pi - plt \<longrightarrow> 0 < cmp p (zs ! i)) \<and> (pi - plt \<le> i \<and> i < n - (pgt - pi) \<longrightarrow> cmp p (zs ! i) = 0)
          \<and> (n - (pgt - pi) \<le> i \<longrightarrow> cmp p (zs ! i) < 0)" if "i < n" for i
    using A [of i] B [of i] that b by (cases "i < pi") auto
  then have "three_parts cmp p zs (pi - plt) (n - (pgt - pi))"
    using b l3 by (auto simp: three_parts_def)
  then show ?thesis using l2 l3 assms(2) by simp
qed

lemma med3_in: "med3 cmp xs a b c \<in> {a, b, c}"
  by (simp add: med3_def)

context comparison
begin

lemma partition3_parts:
  assumes "partition3 cmp n ys = (zs, lt, gt)" "n = length ys" "0 < n"
  shows "\<exists>p. three_parts cmp p zs lt gt \<and> mset zs = mset ys \<and> length zs = length ys"
proof -
  let ?m = "med3 cmp ys (n div 4) (2 * (n div 4)) (3 * (n div 4))"
  let ?ys = "swap_el 0 ?m ys" and ?p = "ys ! ?m"
  obtain ys1 plt pi pgt where r: "partition_loop cmp ?ys 1 1 n n = (ys1, plt, pi, pgt)"
    by (metis prod_cases4)
  have m: "?m < n" using med3_in [of cmp ys "n div 4" "2 * (n div 4)" "3 * (n div 4)"] assms(3) by auto
  then have z: "?ys ! 0 = ?p" using assms by (subst nth_swap_el) auto
  have q: "1 \<le> n" "length ?ys = n" "n \<le> length ?ys" using assms(2,3) by (linarith | simp)+
  have "cmp ?p (?ys ! i) = 0" if "i < 1" for i using that z cmp_refl [of ?p] by simp
  then have "parted cmp ?p ?ys 1 1 n n"
    unfolding parted_def using z q by (metis linorder_not_le order_refl)
  from partition_loop_parted [OF r this]
  have P: "parted cmp ?p ys1 plt pi pi pgt" "mset ys1 = mset ?ys" by auto
  have s: "mset ?ys = mset ys" using m assms by (intro mset_swap_el) auto
  have l: "length ys1 = length ys" using P(2) by (metis length_swap_el size_mset)
  have b: "plt \<le> pi" "pi \<le> pgt" "pgt \<le> n" using P(1) l assms(2) by (auto simp: parted_def)
  let ?s = "if plt > pi - plt then pi - plt else plt"
  let ?t = "if n - pgt > pgt - pi then pgt - pi else n - pgt"
  have "(swap_range pi (n - ?t) ?t (swap_range 0 (pi - ?s) ?s ys1), pi - plt, n - (pgt - pi)) = (zs, lt, gt)"
    using assms(1) unfolding partition3_def Let_def r prod.case .
  then have e: "swap_range pi (n - ?t) ?t (swap_range 0 (pi - ?s) ?s ys1) = zs" "pi - plt = lt" "n - (pgt - pi) = gt"
    unfolding prod.inject by blast+
  have st: "?s = min plt (pi - plt)" "?t = min (n - pgt) (pgt - pi)" by auto
  have z: "zs = swap_range pi (n - min (n - pgt) (pgt - pi)) (min (n - pgt) (pgt - pi))
      (swap_range 0 (pi - min plt (pi - plt)) (min plt (pi - plt)) ys1)" using e(1) [unfolded st] by (rule sym)
  have "n = length ys1" using l assms(2) by simp
  from parted_middle [OF P(1) this refl z] have "three_parts cmp ?p zs lt gt \<and> mset zs = mset ys1 \<and> length zs = length ys1"
    using e by simp
  then show ?thesis using P s l by metis
qed

end

section \<open>Frames\<close>

text \<open>A piece is a base and a length. Positions in different pieces are in order.\<close>

definition in_piece :: "nat \<times> nat \<Rightarrow> nat \<Rightarrow> bool" where
  "in_piece f i \<longleftrightarrow> fst f \<le> i \<and> i < fst f + snd f"

definition together :: "(nat \<times> nat) list \<Rightarrow> nat \<Rightarrow> nat \<Rightarrow> bool" where
  "together fs i j \<longleftrightarrow> (\<exists>f \<in> set fs. in_piece f i \<and> in_piece f j)"

definition pieces_ok :: "('a \<Rightarrow> 'a \<Rightarrow> int) \<Rightarrow> (nat \<times> nat) list \<Rightarrow> 'a list \<Rightarrow> bool" where
  "pieces_ok cmp fs xs \<longleftrightarrow>
     (\<forall>f \<in> set fs. fst f + snd f \<le> length xs)
     \<and> sorted_wrt (\<lambda>f g. \<forall>i. \<not> (in_piece f i \<and> in_piece g i)) fs
     \<and> (\<forall>i j. i < j \<longrightarrow> j < length xs \<longrightarrow> cmp (xs ! i) (xs ! j) \<le> 0 \<or> together fs i j)"

text \<open>The array with the piece from \<open>b\<close> on replaced.\<close>

definition replace_piece :: "nat \<Rightarrow> 'a list \<Rightarrow> 'a list \<Rightarrow> 'a list" where
  "replace_piece b zs xs = take b xs @ zs @ drop (b + length zs) xs"

lemma replace_piece_props:
  assumes "b + n \<le> length xs" "mset zs = mset (take n (drop b xs))"
  shows "length zs = n" "length (replace_piece b zs xs) = length xs" "mset (replace_piece b zs xs) = mset xs"
proof -
  show l: "length zs = n" using assms by (metis length_drop length_take min_absorb2 add_le_imp_le_diff add.commute size_mset)
  then show "length (replace_piece b zs xs) = length xs" using assms(1) by (simp add: replace_piece_def)
  have "mset (replace_piece b zs xs) = mset (take b xs @ take n (drop b xs) @ drop (b + n) xs)"
    using assms(2) l by (simp add: replace_piece_def)
  also have "take b xs @ take n (drop b xs) @ drop (b + n) xs = xs"
    by (metis append_take_drop_id drop_drop add.commute)
  finally show "mset (replace_piece b zs xs) = mset xs" .
qed

lemma nth_replace_piece:
  "b + length zs \<le> length xs \<Longrightarrow> i < length xs \<Longrightarrow>
     replace_piece b zs xs ! i = (if in_piece (b, length zs) i then zs ! (i - b) else xs ! i)"
  by (auto simp: replace_piece_def in_piece_def nth_append)

text \<open>Every element of the new piece is one of the old piece.\<close>

lemma replaced_from:
  assumes "b + n \<le> length xs" "mset zs = mset (take n (drop b xs))" "in_piece (b, n) i"
  obtains i' where "in_piece (b, n) i'" "replace_piece b zs xs ! i = xs ! i'"
proof -
  have l: "length zs = n" using replace_piece_props [OF assms(1,2)] by simp
  have i: "i < length xs" "i - b < n" using assms(1,3) by (auto simp: in_piece_def)
  then have "zs ! (i - b) \<in> set (take n (drop b xs))"
    using assms(2) l by (metis nth_mem mset_eq_setD)
  then obtain k where k: "k < n" "take n (drop b xs) ! k = zs ! (i - b)"
    by (auto simp: in_set_conv_nth)
  have "in_piece (b, n) (b + k)" using k(1) by (simp add: in_piece_def)
  moreover have "replace_piece b zs xs ! i = xs ! (b + k)"
    using nth_replace_piece [of b zs xs i] i k l assms(1,3) by simp
  ultimately show ?thesis by (rule that)
qed

lemma pieces_step:
  assumes ok: "pieces_ok cmp ((b, n) # fs) xs" and m: "mset zs = mset (take n (drop b xs))"
    and sub: "\<forall>g \<in> set gs. b \<le> fst g \<and> fst g + snd g \<le> b + n"
    and dis: "sorted_wrt (\<lambda>f g. \<forall>i. \<not> (in_piece f i \<and> in_piece g i)) gs"
    and ord: "\<And>i j. i < j \<Longrightarrow> j < n \<Longrightarrow> cmp (zs ! i) (zs ! j) \<le> 0 \<or> together gs (b + i) (b + j)"
  shows "pieces_ok cmp (gs @ fs) (replace_piece b zs xs) \<and> mset (replace_piece b zs xs) = mset xs"
proof -
  have b: "b + n \<le> length xs" using ok by (simp add: pieces_ok_def)
  note p = replace_piece_props [OF b m]
  let ?ys = "replace_piece b zs xs"
  have ing: "in_piece (b, n) i" if "in_piece g i" "g \<in> set gs" for g i
    using that sub by (force simp: in_piece_def)
  have apart: "\<not> (in_piece (b, n) i \<and> in_piece f i)" if "f \<in> set fs" for f i
    using ok that by (auto simp: pieces_ok_def)
  have "cmp (?ys ! i) (?ys ! j) \<le> 0 \<or> together (gs @ fs) i j" if ij: "i < j" "j < length xs" for i j
  proof (cases "in_piece (b, n) i \<and> in_piece (b, n) j")
    case True
    then have "?ys ! i = zs ! (i - b)" "?ys ! j = zs ! (j - b)"
      using ij b p nth_replace_piece [of b zs xs] by auto
    moreover have "cmp (zs ! (i - b)) (zs ! (j - b)) \<le> 0 \<or> together gs (b + (i - b)) (b + (j - b))"
      by (rule ord) (use True ij in \<open>auto simp: in_piece_def\<close>)
    ultimately show ?thesis using True by (auto simp: in_piece_def together_def)
  next
    case False
    have old: "\<exists>i'. ?ys ! i = xs ! i' \<and> (if in_piece (b, n) i then in_piece (b, n) i' else i' = i)" if "i < length xs" for i
    proof (cases "in_piece (b, n) i")
      case True
      from replaced_from [OF b m this] show ?thesis using True by metis
    next
      case False
      then show ?thesis using nth_replace_piece [of b zs xs i] that b p by auto
    qed
    obtain i' where i': "?ys ! i = xs ! i'" "if in_piece (b, n) i then in_piece (b, n) i' else i' = i"
      using old [of i] ij by auto
    obtain j' where j': "?ys ! j = xs ! j'" "if in_piece (b, n) j then in_piece (b, n) j' else j' = j"
      using old [of j] ij by auto
    have l: "i' < j'" "j' < length xs"
      using i'(2) j'(2) False ij b by (auto simp: in_piece_def split: if_splits)
    have no: "\<not> (in_piece (b, n) i' \<and> in_piece (b, n) j')"
      using False i'(2) j'(2) by (auto split: if_splits)
    have "cmp (xs ! i') (xs ! j') \<le> 0 \<or> together fs i' j'"
      using ok l no by (auto simp: pieces_ok_def together_def)
    moreover have "together fs i j" if t: "together fs i' j'"
    proof -
      obtain f where f: "f \<in> set fs" "in_piece f i'" "in_piece f j'" using t by (auto simp: together_def)
      then have "i' = i" "j' = j" using apart i'(2) j'(2) by (auto split: if_splits)
      then show ?thesis using f by (auto simp: together_def)
    qed
    ultimately show ?thesis using i'(1) j'(1) by (auto simp: together_def)
  qed
  moreover have "\<forall>f \<in> set (gs @ fs). fst f + snd f \<le> length ?ys"
    using ok sub b p by (fastforce simp: pieces_ok_def)
  moreover have "sorted_wrt (\<lambda>f g. \<forall>i. \<not> (in_piece f i \<and> in_piece g i)) (gs @ fs)"
    using ok dis ing apart unfolding sorted_wrt_append by (auto simp: pieces_ok_def)
  ultimately show ?thesis using p by (simp add: pieces_ok_def)
qed

section \<open>The sort\<close>

definition pieces :: "frame list \<Rightarrow> (nat \<times> nat) list" where
  "pieces stack = map (\<lambda>f. (fbase f, fcount f)) stack"

lemma pieces_Cons [simp]: "pieces (f # stack) = (fbase f, fcount f) # pieces stack"
  by (simp add: pieces_def)

lemma pieces_Nil [simp]: "pieces [] = []"
  by (simp add: pieces_def)

context comparison
begin

lemma on_slice_sorted:
  assumes "pieces_ok cmp ((b, n) # fs) xs" "sorted_wrt le (f (take n (drop b xs)))"
    and "mset (f (take n (drop b xs))) = mset (take n (drop b xs))"
  shows "pieces_ok cmp fs (on_slice b n f xs) \<and> mset (on_slice b n f xs) = mset xs"
proof -
  let ?zs = "f (take n (drop b xs))"
  have b: "b + n \<le> length xs" using assms(1) by (simp add: pieces_ok_def)
  note l = replace_piece_props(1) [OF b assms(3)]
  have "pieces_ok cmp ([] @ fs) (replace_piece b ?zs xs) \<and> mset (replace_piece b ?zs xs) = mset xs"
    by (rule pieces_step [OF assms(1,3)]) (use assms(2) l in \<open>simp_all add: sorted_wrt_iff_nth_less\<close>)
  then show ?thesis using l by (simp add: replace_piece_def on_slice_def)
qed

lemma three_parts_order:
  assumes "three_parts cmp p zs lt gt" "i < j" "j < length zs"
  shows "le (zs ! i) (zs ! j) \<or> j < lt \<or> gt \<le> i"
proof (cases "j < lt \<or> gt \<le> i")
  case False
  then have "le (zs ! i) p" "le p (zs ! j)"
    using assms cmp_sign [of p "zs ! i"] cmp_zero [of p "zs ! i"] cmp_pos [of p "zs ! i"]
    by (cases "i < lt"; cases "j < gt"; force simp: three_parts_def)+
  then show ?thesis using cmp_trans by blast
qed simp

lemma partition_pieces:
  assumes "pieces_ok cmp ((b, n) # fs) xs" "partition3 cmp n (take n (drop b xs)) = (zs, lt, gt)" "0 < n"
    and "xs' = take b xs @ zs @ drop (b + n) xs"
  shows "pieces_ok cmp ((b, lt) # (b + gt, n - gt) # fs) xs' \<and> pieces_ok cmp ((b + gt, n - gt) # (b, lt) # fs) xs'
     \<and> mset xs' = mset xs"
proof -
  have b: "b + n \<le> length xs" using assms(1) by (simp add: pieces_ok_def)
  then have "n = length (take n (drop b xs))" by simp
  from partition3_parts [OF assms(2) this assms(3)] obtain p
    where p: "three_parts cmp p zs lt gt" "mset zs = mset (take n (drop b xs))" "length zs = n" using b by auto
  have g: "lt \<le> gt" "gt \<le> n" using p by (auto simp: three_parts_def)
  have x: "xs' = replace_piece b zs xs" using assms(4) p(3) by (simp add: replace_piece_def)
  have o1: "le (zs ! i) (zs ! j) \<or> together [(b, lt), (b + gt, n - gt)] (b + i) (b + j)
      \<and> together [(b + gt, n - gt), (b, lt)] (b + i) (b + j)" if "i < j" "j < n" for i j
    using three_parts_order [OF p(1) that(1)] that p(3) g by (auto simp: together_def in_piece_def)
  have "pieces_ok cmp ([(b, lt), (b + gt, n - gt)] @ fs) (replace_piece b zs xs) \<and> mset (replace_piece b zs xs) = mset xs"
    by (rule pieces_step [OF assms(1) p(2)]) (use g o1 in \<open>auto simp: in_piece_def\<close>)
  moreover have "pieces_ok cmp ([(b + gt, n - gt), (b, lt)] @ fs) (replace_piece b zs xs) \<and> mset (replace_piece b zs xs) = mset xs"
    by (rule pieces_step [OF assms(1) p(2)]) (use g o1 in \<open>auto simp: in_piece_def\<close>)
  ultimately show ?thesis using x by simp
qed

lemma rqsort_piece_ok:
  "rqsort_piece cmp xs stack ptr nmemb depth = (xs', stack', ptr', nmemb') \<Longrightarrow>
     pieces_ok cmp ((ptr, nmemb) # pieces stack) xs \<Longrightarrow>
     pieces_ok cmp ((ptr', nmemb') # pieces stack') xs' \<and> mset xs' = mset xs"
proof (induction nmemb arbitrary: xs stack ptr depth rule: less_induct)
  case (less nmemb)
  show ?case
  proof (cases rule: rqsort_piece_cases [where nmemb = nmemb and cmp = cmp and xs = xs and stack = stack
        and ptr = ptr and depth = depth])
    case short
    then show ?thesis using less.prems by simp
  next
    case deep
    then have e: "(xs', stack', ptr', nmemb') = (on_slice ptr nmemb (heapsortx cmp) xs, stack, ptr, 0)"
      using less.prems(1) by simp
    have s: "pieces_ok cmp (pieces stack) xs' \<and> mset xs' = mset xs"
      using on_slice_sorted [OF less.prems(2)] heapsortx_sorts e by simp
    then have "mset xs' = mset xs" ..
    then have "length xs' = length xs" by (rule mset_eq_length)
    with s have "pieces_ok cmp ((ptr, 0) # pieces stack) xs'"
      using less.prems(2) by (auto simp: pieces_ok_def together_def in_piece_def)
    then show ?thesis using e s by simp
  next
    case (split zs lt gt f ptr0 n0)
    let ?xs = "take ptr xs @ zs @ drop (ptr + nmemb) xs"
    have "0 < nmemb" using split(1) by simp
    from partition_pieces [OF less.prems(2) split(3) this refl] split(8)
    have ok: "pieces_ok cmp ((ptr0, n0) # pieces (f # stack)) ?xs" "mset ?xs = mset xs" by auto
    have "rqsort_piece cmp ?xs (f # stack) ptr0 n0 (depth + 1) = (xs', stack', ptr', nmemb')"
      using less.prems(1) split(4) by simp
    from less.IH [OF split(6) this ok(1)] ok(2) show ?thesis by simp
  qed
qed

lemma rqsort_loop_ok:
  "c = cmp \<Longrightarrow> pieces_ok cmp (pieces stack) xs \<Longrightarrow>
     pieces_ok cmp [] (rqsort_loop c xs stack) \<and> mset (rqsort_loop c xs stack) = mset xs"
proof (induction c xs stack rule: rqsort_loop.induct)
  case (1 c xs)
  then show ?case by simp
next
  case (2 c xs f stack)
  obtain xs1 stack1 ptr n where r: "rqsort_piece c xs stack (fbase f) (fcount f) (fdepth f) = (xs1, stack1, ptr, n)"
    by (metis prod_cases4)
  have "pieces_ok cmp ((fbase f, fcount f) # pieces stack) xs" using "2.prems" by simp
  from rqsort_piece_ok [OF r [unfolded "2.prems"(1)] this]
  have p: "pieces_ok cmp ((ptr, n) # pieces stack1) xs1" "mset xs1 = mset xs" by auto
  from on_slice_sorted [where f = "insertion_sort cmp", OF p(1) insertion_sort_sorts insertion_sort_perm]
  have q: "pieces_ok cmp (pieces stack1) (on_slice ptr n (insertion_sort c) xs1)"
    "mset (on_slice ptr n (insertion_sort c) xs1) = mset xs1" using "2.prems"(1) by auto
  from "2.IH" [OF r [symmetric] refl refl refl "2.prems"(1) q(1)] show ?case using p q r by simp
qed

lemma rqsort_correct: "sorted_wrt le (rqsort cmp xs) \<and> mset (rqsort cmp xs) = mset xs"
proof (cases "length xs < 2")
  case True
  then have "length xs = 0 \<or> length xs = 1" by linarith
  then show ?thesis using True by (auto simp: rqsort_def length_Suc_conv)
next
  case False
  have "pieces_ok cmp (pieces [\<lparr>fbase = 0, fcount = length xs, fdepth = 0\<rparr>]) xs"
    by (auto simp: pieces_ok_def together_def in_piece_def)
  from rqsort_loop_ok [OF refl this] False show ?thesis
    by (simp add: rqsort_def sorted_wrt_iff_nth_less pieces_ok_def together_def)
qed

end

lemma rqsort_stack:
  "rqsort_peak cmp xs [\<lparr>fbase = 0, fcount = length xs, fdepth = 0\<rparr>] \<le> 50"
  by (rule rqsort_peak_bound) simp

text \<open>C33: \<open>rqsort\<close> sorts: for a comparison that is a total preorder with antisymmetric signs, the
  result is ordered by it and a permutation of the input, whatever mixture of partitioning,
  heap sort at the depth limit and insertion sort was used. Its explicit stack has 50 frames; no input and
  no comparison function, however inconsistent, ever makes it hold more.\<close>

theorem rqsort_sorts:
  assumes "\<forall>a b. cmp a b < 0 \<longleftrightarrow> 0 < cmp b a" "\<forall>a b c. cmp a b \<le> 0 \<longrightarrow> cmp b c \<le> 0 \<longrightarrow> cmp a c \<le> 0"
  shows "sorted_wrt (\<lambda>a b. cmp a b \<le> 0) (rqsort cmp xs) \<and> mset (rqsort cmp xs) = mset xs
    \<and> (\<forall>any ys. rqsort_peak any ys [\<lparr>fbase = 0, fcount = length ys, fdepth = 0\<rparr>] \<le> 50)"
proof -
  have "comparison cmp" using assms unfolding comparison_def by blast
  then have "sorted_wrt (\<lambda>a b. cmp a b \<le> 0) (rqsort cmp xs) \<and> mset (rqsort cmp xs) = mset xs"
    by (rule comparison.rqsort_correct)
  then show ?thesis using rqsort_stack by blast
qed

theorem rqsort_sorts_witness:
  "sorted (rqsort (\<lambda>a b. a - b) [9, 3, 7, 1, 8, 2, 5, 4, 6 :: int])
   \<and> mset (rqsort (\<lambda>a b. a - b) [9, 3, 7, 1, 8, 2, 5, 4, 6 :: int]) = {#1, 2, 3, 4, 5, 6, 7, 8, 9#}"
proof -
  have h: "\<forall>a b. a - b < 0 \<longleftrightarrow> 0 < b - (a :: int)" "\<forall>a b c. a - b \<le> 0 \<longrightarrow> b - c \<le> 0 \<longrightarrow> a - (c :: int) \<le> 0" by auto
  note t = rqsort_sorts [OF h, of "[9, 3, 7, 1, 8, 2, 5, 4, 6]"]
  show ?thesis using conjunct1 [OF t] conjunct1 [OF conjunct2 [OF t]] by simp
qed

end
