(* ===== verification/Exchange.thy ===== *)
theory Exchange
  imports RqsortCorrect
begin

text \<open>
  The element swaps of \<open>rqsort\<close> (\<open>quickjs/cutils.c\<close>, \<open>exchange_*\<close> and \<open>exchange_func\<close>). Memory is
  a list of bytes, a pointer an index into it; a unit of 1, 2, 4, 8 or 16 bytes is loaded and
  stored at once. The theorem relates them to \<open>swap_el\<close> on the array of elements.
\<close>

section \<open>Loads and stores of a unit\<close>

definition load_unit :: "nat \<Rightarrow> nat \<Rightarrow> u8 list \<Rightarrow> u8 list" where
  "load_unit w p m = take w (drop p m)"

definition store_unit :: "nat \<Rightarrow> u8 list \<Rightarrow> u8 list \<Rightarrow> u8 list" where
  "store_unit p v m = take p m @ v @ drop (p + length v) m"

text \<open>\<open>t = *ap; *ap = *bp; *bp = t\<close> on a unit of \<open>w\<close> bytes.\<close>

definition exchange_one :: "nat \<Rightarrow> nat \<Rightarrow> nat \<Rightarrow> u8 list \<Rightarrow> u8 list" where
  "exchange_one w a b m =
     (let t = load_unit w a m; m1 = store_unit a (load_unit w b m) m in store_unit b t m1)"

section \<open>The functions\<close>

fun exchange_loop :: "(nat \<Rightarrow> nat \<Rightarrow> u8 list \<Rightarrow> u8 list) \<Rightarrow> nat \<Rightarrow> nat \<Rightarrow> nat \<Rightarrow> nat \<Rightarrow> u8 list \<Rightarrow> u8 list" where
  "exchange_loop f w 0 a b m = m"
| "exchange_loop f w (Suc n) a b m = exchange_loop f w n (a + w) (b + w) (f a b m)"

type_synonym exchange_f = "nat \<Rightarrow> nat \<Rightarrow> nat \<Rightarrow> u8 list \<Rightarrow> u8 list"

definition exchange_bytes :: exchange_f where
  "exchange_bytes a b sz m = exchange_loop (exchange_one 1) 1 sz a b m"

definition exchange_one_byte :: exchange_f where
  "exchange_one_byte a b sz m = exchange_one 1 a b m"

definition exchange_int16s :: exchange_f where
  "exchange_int16s a b sz m = exchange_loop (exchange_one 2) 2 (sz div 2) a b m"

definition exchange_one_int16 :: exchange_f where
  "exchange_one_int16 a b sz m = exchange_one 2 a b m"

definition exchange_int32s :: exchange_f where
  "exchange_int32s a b sz m = exchange_loop (exchange_one 4) 4 (sz div 4) a b m"

definition exchange_one_int32 :: exchange_f where
  "exchange_one_int32 a b sz m = exchange_one 4 a b m"

definition exchange_int64s :: exchange_f where
  "exchange_int64s a b sz m = exchange_loop (exchange_one 8) 8 (sz div 8) a b m"

definition exchange_one_int64 :: exchange_f where
  "exchange_one_int64 a b sz m = exchange_one 8 a b m"

text \<open>Two words are read from the first place before the second is copied over them.\<close>

definition exchange_pair :: "nat \<Rightarrow> nat \<Rightarrow> u8 list \<Rightarrow> u8 list" where
  "exchange_pair a b m =
     (let t = load_unit 8 a m;
          u = load_unit 8 (a + 8) m;
          m1 = store_unit a (load_unit 8 b m) m;
          m2 = store_unit (a + 8) (load_unit 8 (b + 8) m1) m1;
          m3 = store_unit b t m2
      in store_unit (b + 8) u m3)"

definition exchange_int128s :: exchange_f where
  "exchange_int128s a b sz m = exchange_loop exchange_pair 16 (sz div 16) a b m"

definition exchange_one_int128 :: exchange_f where
  "exchange_one_int128 a b sz m = exchange_pair a b m"

text \<open>The choice by the alignment of the base address and the element size.\<close>

definition exchange_func :: "u64 \<Rightarrow> u64 \<Rightarrow> exchange_f" where
  "exchange_func base sz =
     (let c = (base OR sz) AND 15
      in if c = 0 then (if sz = 16 then exchange_one_int128 else exchange_int128s)
         else if c = 8 then (if sz = 8 then exchange_one_int64 else exchange_int64s)
         else if c = 4 \<or> c = 12 then (if sz = 4 then exchange_one_int32 else exchange_int32s)
         else if c = 2 \<or> c = 6 \<or> c = 10 \<or> c = 14 then (if sz = 2 then exchange_one_int16 else exchange_int16s)
         else (if sz = 1 then exchange_one_byte else exchange_bytes))"

section \<open>What a swap does\<close>

text \<open>\<open>m'\<close> is \<open>m\<close> with the \<open>k\<close> bytes at \<open>a\<close> and at \<open>b\<close> exchanged.\<close>

definition exchanged :: "nat \<Rightarrow> nat \<Rightarrow> nat \<Rightarrow> u8 list \<Rightarrow> u8 list \<Rightarrow> bool" where
  "exchanged k a b m m' \<longleftrightarrow> length m' = length m
     \<and> (\<forall>i < length m. m' ! i = (if a \<le> i \<and> i < a + k then m ! (i - a + b)
                                 else if b \<le> i \<and> i < b + k then m ! (i - b + a) else m ! i))"

text \<open>The two places are inside memory and disjoint, or the same.\<close>

definition apart :: "nat \<Rightarrow> nat \<Rightarrow> nat \<Rightarrow> u8 list \<Rightarrow> bool" where
  "apart k a b m \<longleftrightarrow> a + k \<le> length m \<and> b + k \<le> length m \<and> (a = b \<or> a + k \<le> b \<or> b + k \<le> a)"

lemma length_load [simp]: "p + w \<le> length m \<Longrightarrow> length (load_unit w p m) = w"
  by (simp add: load_unit_def)

lemma nth_load: "i < w \<Longrightarrow> p + w \<le> length m \<Longrightarrow> load_unit w p m ! i = m ! (p + i)"
  by (simp add: load_unit_def)

lemma length_store [simp]: "p + length v \<le> length m \<Longrightarrow> length (store_unit p v m) = length m"
  by (simp add: store_unit_def)

lemma nth_store:
  "p + length v \<le> length m \<Longrightarrow> i < length m \<Longrightarrow>
     store_unit p v m ! i = (if p \<le> i \<and> i < p + length v then v ! (i - p) else m ! i)"
  by (auto simp: store_unit_def nth_append)

lemma exchange_one_ok: "apart w a b m \<Longrightarrow> exchanged w a b m (exchange_one w a b m)"
  unfolding apart_def exchanged_def exchange_one_def Let_def
  by (auto simp: nth_store nth_load add.commute)

lemma exchange_pair_ok: "apart 16 a b m \<Longrightarrow> exchanged 16 a b m (exchange_pair a b m)"
  unfolding apart_def exchanged_def exchange_pair_def Let_def
  by (auto simp: nth_store nth_load add.commute)

lemma exchange_loop_ok:
  assumes f: "\<And>a b m. apart w a b m \<Longrightarrow> exchanged w a b m (f a b m)"
  shows "apart (w * n) a b m \<Longrightarrow> exchanged (w * n) a b m (exchange_loop f w n a b m)"
proof (induction n arbitrary: a b m)
  case 0
  then show ?case by (auto simp: exchanged_def)
next
  case (Suc n)
  have e: "exchanged w a b m (f a b m)" using Suc.prems by (intro f) (auto simp: apart_def)
  then have l: "length (f a b m) = length m" by (simp add: exchanged_def)
  have "exchanged (w * n) (a + w) (b + w) (f a b m) (exchange_loop f w n (a + w) (b + w) (f a b m))"
    using Suc.prems l by (intro Suc.IH) (auto simp: apart_def)
  with e show ?case using Suc.prems l by (auto simp: exchanged_def apart_def)
qed

text \<open>The alignment bits of the size bound those of the unit.\<close>

lemma aligned_size:
  assumes "(x OR y) AND 15 = (c::u64)" "take_bit j c = 0" "j \<le> 4"
  shows "2 ^ j dvd unat y"
proof -
  have "take_bit j ((x OR y) AND mask 4) = 0" using assms(1,2) by (simp add: numeral_eq_Suc mask_Suc_double)
  then have "take_bit j (take_bit 4 (x OR y)) = 0" by (simp only: take_bit_eq_mask)
  then have "take_bit j (x OR y) = 0" using assms(3) by (simp add: min_absorb1)
  then have "take_bit j y = 0" by (simp add: or_eq_0_iff)
  then have "take_bit j (unat y) = 0" by (metis unsigned_take_bit_eq unsigned_0)
  then show ?thesis by (simp add: take_bit_eq_mod mod_eq_0_iff_dvd)
qed

lemma exchange_func_ok:
  assumes k: "unat sz dvd k" and one: "\<And>w. s = w \<Longrightarrow> w \<in> {1, 2, 4, 8, 16} \<Longrightarrow> k = unat w"
    and s: "s = sz \<or> s = sz OR 128" and a: "apart k a b m"
  shows "exchanged k a b m (exchange_func base s a b k m)"
proof -
  have loop: "exchanged k a b m (exchange_loop f w (k div w) a b m)"
    if "\<And>a b m. apart w a b m \<Longrightarrow> exchanged w a b m (f a b m)" "w dvd unat sz" for f w
    using exchange_loop_ok [of w f "k div w" a b m, OF that(1)] a that(2) k by (metis dvd_mult_div_cancel dvd_trans)
  have dv: "2 ^ j dvd unat sz" if "(base OR s) AND 15 = c" "take_bit j c = 0" "j \<le> 4" for c j
    using s
  proof
    assume "s = sz"
    then show ?thesis using aligned_size [of base sz c j] that by simp
  next
    assume "s = sz OR 128"
    then have "(base OR 128 OR sz) AND 15 = c" using that(1) by (simp add: or.assoc or.commute or.left_commute)
    then show ?thesis using aligned_size [of "base OR 128" sz c j] that by (simp add: or.assoc)
  qed
  consider (u16) "(base OR s) AND 15 = 0" | (u8) "(base OR s) AND 15 = 8"
    | (u4) "(base OR s) AND 15 \<in> {4, 12}" | (u2) "(base OR s) AND 15 \<in> {2, 6, 10, 14}"
    | (u1) "(base OR s) AND 15 \<notin> {0, 8, 4, 12, 2, 6, 10, 14}" by blast
  then show ?thesis
  proof cases
    case u16
    have "16 dvd unat sz" using dv [OF u16, of 4] by simp
    then show ?thesis
      using u16 one [of 16] a loop [OF exchange_pair_ok] exchange_pair_ok
      by (auto simp: exchange_func_def Let_def exchange_one_int128_def exchange_int128s_def)
  next
    case u8
    have "8 dvd unat sz" using dv [OF u8, of 3] by (simp add: take_bit_eq_mod)
    then show ?thesis
      using u8 one [of 8] a loop [OF exchange_one_ok] exchange_one_ok
      by (auto simp: exchange_func_def Let_def exchange_one_int64_def exchange_int64s_def)
  next
    case u4
    have "4 dvd unat sz" using dv [OF refl, of 2] u4 by (auto simp: take_bit_eq_mod)
    then show ?thesis
      using u4 one [of 4] a loop [OF exchange_one_ok] exchange_one_ok
      by (auto simp: exchange_func_def Let_def exchange_one_int32_def exchange_int32s_def)
  next
    case u2
    have "2 dvd unat sz" using dv [OF refl, of 1] u2 by (auto simp: take_bit_eq_mod)
    then show ?thesis
      using u2 one [of 2] a loop [OF exchange_one_ok] exchange_one_ok
      by (auto simp: exchange_func_def Let_def exchange_one_int16_def exchange_int16s_def)
  next
    case u1
    then show ?thesis
      using one [of 1] a loop [OF exchange_one_ok, of 1] exchange_one_ok
      by (auto simp: exchange_func_def Let_def exchange_one_byte_def exchange_bytes_def)
  qed
qed

section \<open>Arrays of elements\<close>

lemma length_concat_uniform: "\<forall>x \<in> set xs. length x = n \<Longrightarrow> length (concat xs) = length xs * n"
  by (induction xs) auto

lemma nth_concat_uniform:
  "\<forall>x \<in> set xs. length x = n \<Longrightarrow> p < length xs * n \<Longrightarrow> concat xs ! p = xs ! (p div n) ! (p mod n)"
proof (induction xs arbitrary: p)
  case (Cons x xs)
  have n: "0 < n" using Cons.prems(2) by (cases n) auto
  show ?case
  proof (cases "p < n")
    case True
    then show ?thesis using Cons.prems by (simp add: nth_append)
  next
    case False
    then have "p div n = Suc ((p - n) div n)" "p mod n = (p - n) mod n" "p - n < length xs * n"
      using n Cons.prems(2) by (simp_all add: le_div_geq le_mod_geq)
    then show ?thesis using Cons False by (simp add: nth_append)
  qed
qed simp

text \<open>An exchange of \<open>k\<close> elements is the exchange of their bytes.\<close>

lemma exchanged_elements:
  assumes u: "\<forall>x \<in> set xs. length x = n" "\<forall>x \<in> set ys. length x = n"
    and e: "exchanged (k * n) (i * n) (j * n) (concat xs) m"
    and l: "length ys = length xs"
    and y: "\<And>e. e < length xs \<Longrightarrow> ys ! e = (if i \<le> e \<and> e < i + k then xs ! (e - i + j)
              else if j \<le> e \<and> e < j + k then xs ! (e - j + i) else xs ! e)"
    and b: "i + k \<le> length xs" "j + k \<le> length xs"
  shows "concat ys = m"
proof (rule nth_equalityI)
  have lc: "length (concat xs) = length xs * n" using u length_concat_uniform by blast
  then show lm: "length (concat ys) = length m"
    using e l u length_concat_uniform by (metis exchanged_def)
  fix p assume p: "p < length (concat ys)"
  then have pl: "p < length xs * n" using l u length_concat_uniform by metis
  then have n: "0 < n" by (cases n) auto
  let ?q = "p div n"
  have q: "?q < length xs" using pl n by (simp add: less_mult_imp_div_less)
  have r: "i * n \<le> p \<longleftrightarrow> i \<le> ?q" "p < i * n \<longleftrightarrow> ?q < i" for i
    using n by (simp_all add: less_eq_div_iff_mult_less_eq div_less_iff_less_mult)
  have sh: "(p - a * n + c * n) div n = ?q - a + c \<and> (p - a * n + c * n) mod n = p mod n" if "a \<le> ?q" for a c
  proof -
    have "p = a * n + (p - a * n)" using that r by simp
    then have "?q = a + (p - a * n) div n" "p mod n = (p - a * n) mod n"
      using n by (metis div_mult_self3 mult.commute add.commute less_numeral_extra(3), metis mod_mult_self3)
    then show ?thesis using n by simp
  qed
  have "m ! p = (if i \<le> ?q \<and> ?q < i + k then concat xs ! (p - i * n + j * n)
      else if j \<le> ?q \<and> ?q < j + k then concat xs ! (p - j * n + i * n) else concat xs ! p)"
    using e pl lc r [of i] r [of j] r [of "i + k"] r [of "j + k"] by (simp add: exchanged_def add_mult_distrib)
  also have "\<dots> = ys ! ?q ! (p mod n)"
  proof -
    have "concat xs ! (p - a * n + c * n) = xs ! (?q - a + c) ! (p mod n)"
      if "a \<le> ?q" "?q < a + k" "c + k \<le> length xs" for a c
    proof -
      have "(p - a * n + c * n) div n < length xs" using sh [of a c] that by simp
      then have "p - a * n + c * n < length xs * n" using div_less_iff_less_mult [OF n] by blast
      from nth_concat_uniform [OF u(1) this] show ?thesis using sh that by simp
    qed
    then show ?thesis using y [OF q] b nth_concat_uniform [OF u(1) pl] by simp
  qed
  also have "\<dots> = concat ys ! p" using nth_concat_uniform [OF u(2)] pl l by simp
  finally show "concat ys ! p = m ! p" by simp
qed

lemma set_swap_range: "i + k \<le> length xs \<Longrightarrow> j + k \<le> length xs \<Longrightarrow> set (swap_range i j k xs) = set xs"
  by (metis swap_range_perm mset_eq_setD)

lemma disjoint_slots: "i + k \<le> j \<Longrightarrow> i * n + k * n \<le> j * (n::nat)"
  by (metis add_mult_distrib mult_le_mono1)

text \<open>C34: The byte-level swaps implement the swaps of elements. With the function that \<open>rqsort\<close>
  chooses for the alignment of the array and the element size, exchanging two elements, and
  with the one it chooses for \<open>size | 128\<close>, exchanging two disjoint runs of elements, changes the
  bytes of the array exactly as \<open>swap_el\<close> and \<open>swap_range\<close> change its elements; no byte
  is left over by the choice of the unit.\<close>

theorem swaps_implement_elements:
  assumes "\<forall>x \<in> set xs. length x = unat sz"
  shows "(i < length xs \<longrightarrow> j < length xs \<longrightarrow>
            concat (swap_el i j xs) = exchange_func base sz (i * unat sz) (j * unat sz) (unat sz) (concat xs))
       \<and> (i + k \<le> j \<longrightarrow> j + k \<le> length xs \<longrightarrow>
            concat (swap_range i j k xs) =
              exchange_func base (sz OR 128) (i * unat sz) (j * unat sz) (k * unat sz) (concat xs))"
proof (intro conjI impI)
  let ?n = "unat sz"
  have lc: "length (concat xs) = length xs * ?n" using assms length_concat_uniform by blast
  {
    assume ij: "i < length xs" "j < length xs"
    have "apart ?n (i * ?n) (j * ?n) (concat xs)"
      using disjoint_slots [of i 1 j ?n] disjoint_slots [of j 1 i ?n] disjoint_slots [of i 1 "length xs" ?n]
        disjoint_slots [of j 1 "length xs" ?n] ij lc
      by (cases i j rule: linorder_cases) (auto simp: apart_def Suc_le_eq)
    then have "exchanged ?n (i * ?n) (j * ?n) (concat xs) (exchange_func base sz (i * ?n) (j * ?n) ?n (concat xs))"
      by (intro exchange_func_ok [where sz = sz]) auto
    then show "concat (swap_el i j xs) = exchange_func base sz (i * ?n) (j * ?n) ?n (concat xs)"
      using assms ij mset_swap_el [of i xs j] mset_eq_setD [of "swap_el i j xs" xs]
      by (intro exchanged_elements [where k = 1 and i = i and j = j and n = ?n and xs = xs]) (auto simp: nth_swap_el)
  next
    assume ij: "i + k \<le> j" "j + k \<le> length xs"
    have "apart (k * ?n) (i * ?n) (j * ?n) (concat xs)"
      using disjoint_slots [of i k j ?n] disjoint_slots [of j k "length xs" ?n]
        disjoint_slots [of i k "length xs" ?n] ij lc by (auto simp: apart_def)
    moreover have "sz OR 128 \<noteq> w" if "w \<in> {1, 2, 4, 8, 16}" for w
    proof
      assume w: "sz OR 128 = w"
      have "bit (sz OR 128) 7" by (simp add: bit_simps)
      then have "bit w 7" unfolding w .
      with that show False by auto
    qed
    ultimately have "exchanged (k * ?n) (i * ?n) (j * ?n) (concat xs)
        (exchange_func base (sz OR 128) (i * ?n) (j * ?n) (k * ?n) (concat xs))"
      by (intro exchange_func_ok [where sz = sz]) auto
    then show "concat (swap_range i j k xs) = exchange_func base (sz OR 128) (i * ?n) (j * ?n) (k * ?n) (concat xs)"
      using assms ij set_swap_range [of i k xs j] swap_range_perm [of i k xs j]
      by (intro exchanged_elements [where k = k and i = i and j = j and n = ?n and xs = xs]) (auto simp: nth_swap_range)
  }
qed

theorem swaps_implement_elements_witness:
  "concat (swap_el 0 1 [[1, 2, 3], [4, 5, 6]]) = exchange_func 0 3 0 3 3 [1, 2, 3, 4, 5, 6]
   \<and> exchange_func 0 3 0 3 3 [1, 2, 3, 4, 5, 6] = [4, 5, 6, 1, 2, 3]"
  using swaps_implement_elements [of "[[1, 2, 3], [4, 5, 6]]" 3 0 1 0 0] by (simp add: swap_el_def)

end
