(* ===== verification/CharRange.thy ===== *)
theory CharRange
  imports RqsortCorrect
begin

text \<open>
  The character sets of \<open>quickjs/libunicode.c\<close>: a set is an array of points at which membership
  changes. A \<open>CharRange\<close> is its allocated buffer, the number of points in use and the number
  allocated; the reallocation function is given the size in points and fills the locale
  \<open>point_reallocator\<close>. Lengths are natural numbers: the code keeps them in an \<open>int\<close>, which bounds
  the sets it can build.
\<close>

section \<open>Buffers\<close>

record CharRange =
  points :: "u32 list"
  clen :: nat
  csize :: nat

type_synonym points_realloc = "u32 list \<Rightarrow> nat \<Rightarrow> u32 list option"

definition cr_default_realloc :: "bool \<Rightarrow> (nat \<Rightarrow> u32) \<Rightarrow> points_realloc" where
  "cr_default_realloc ok junk b n = (if ok then Some (take n b @ map junk [length b..<n]) else None)"

definition cr_init :: CharRange where
  "cr_init = \<lparr>points = [], clen = 0, csize = 0\<rparr>"

text \<open>The block given back to the allocator.\<close>

definition cr_free :: "CharRange \<Rightarrow> u32 list" where
  "cr_free cr = points cr"

definition cr_realloc :: "points_realloc \<Rightarrow> CharRange \<Rightarrow> nat \<Rightarrow> int \<times> CharRange" where
  "cr_realloc rf cr n =
     (if n > csize cr
      then let new_size = max n (csize cr * 3 div 2)
           in case rf (points cr) new_size of
                None \<Rightarrow> (-1, cr)
              | Some b \<Rightarrow> (0, cr\<lparr>points := b, csize := new_size\<rparr>)
      else (0, cr))"

definition cr_copy :: "points_realloc \<Rightarrow> CharRange \<Rightarrow> CharRange \<Rightarrow> (int \<times> CharRange) option" where
  "cr_copy rf cr cr1 =
     (let (r, cr') = cr_realloc rf cr (clen cr1)
      in if r \<noteq> 0 then Some (-1, cr')
         else map_option (\<lambda>b. (0, cr'\<lparr>points := b, clen := clen cr1\<rparr>))
                (blit (points cr') 0 (take (clen cr1) (points cr1))))"

definition cr_add_point :: "points_realloc \<Rightarrow> u32 \<Rightarrow> CharRange \<Rightarrow> (int \<times> CharRange) option" where
  "cr_add_point rf v cr =
     (let (r, cr1) = (if clen cr \<ge> csize cr then cr_realloc rf cr (clen cr + 1) else (0, cr))
      in if r \<noteq> 0 then Some (-1, cr1)
         else map_option (\<lambda>b. (0, cr1\<lparr>points := b, clen := clen cr1 + 1\<rparr>)) (wr (points cr1) (clen cr1) v))"

definition cr_add_interval :: "points_realloc \<Rightarrow> u32 \<Rightarrow> u32 \<Rightarrow> CharRange \<Rightarrow> (int \<times> CharRange) option" where
  "cr_add_interval rf c1 c2 cr =
     (let (r, cr1) = (if clen cr + 2 > csize cr then cr_realloc rf cr (clen cr + 2) else (0, cr))
      in if r \<noteq> 0 then Some (-1, cr1)
         else do {
           b1 \<leftarrow> wr (points cr1) (clen cr1) c1;
           b2 \<leftarrow> wr b1 (clen cr1 + 1) c2;
           Some (0, cr1\<lparr>points := b2, clen := clen cr1 + 2\<rparr>)
         })"

section \<open>Compression\<close>

text \<open>The inner loop: the last interval that continues the one at \<open>j\<close>.\<close>

function run_end :: "u32 list \<Rightarrow> nat \<Rightarrow> nat \<Rightarrow> nat" where
  "run_end pt n j = (if j + 3 < n \<and> pt ! (j + 1) = pt ! (j + 2) then run_end pt n (j + 2) else j)"
  by pat_completeness auto

termination
  by (relation "measure (\<lambda>(pt, n, j). n - j)") auto

declare run_end.simps [simp del]

lemma run_end_ge: "j \<le> run_end pt n j"
proof (induction pt n j rule: run_end.induct)
  case (1 pt n j)
  then show ?case by (subst run_end.simps) auto
qed

text \<open>All indices are below the number of points in use.\<close>

function compress_loop :: "u32 list \<Rightarrow> nat \<Rightarrow> nat \<Rightarrow> nat \<Rightarrow> u32 list \<times> nat" where
  "compress_loop pt n i k =
     (if i + 1 < n
      then if pt ! i = pt ! (i + 1) then compress_loop pt n (i + 2) k
           else let j = run_end pt n i; pt1 = pt[k := pt ! i]
                in compress_loop (pt1[k + 1 := pt1 ! (j + 1)]) n (j + 2) (k + 2)
      else (pt, k))"
  by pat_completeness auto

termination
proof (relation "measure (\<lambda>(pt, n, i, k). n - i)", simp, simp, goal_cases)
  case (1 pt n i k j pt1)
  then show ?case using run_end_ge [of i pt n] by simp
qed

declare compress_loop.simps [simp del]

definition cr_compress :: "CharRange \<Rightarrow> CharRange" where
  "cr_compress cr =
     (let (pt, k) = compress_loop (points cr) (clen cr) 0 0 in cr\<lparr>points := pt, clen := k\<rparr>)"

section \<open>Set operations\<close>

datatype CharRangeOpEnum = CR_OP_UNION | CR_OP_INTER | CR_OP_XOR | CR_OP_SUB

text \<open>\<open>is_in\<close>, from the parities of the two indices.\<close>

fun op_in :: "CharRangeOpEnum \<Rightarrow> bool \<Rightarrow> bool \<Rightarrow> bool" where
  "op_in CR_OP_UNION x y \<longleftrightarrow> x \<or> y"
| "op_in CR_OP_INTER x y \<longleftrightarrow> x \<and> y"
| "op_in CR_OP_XOR x y \<longleftrightarrow> x \<noteq> y"
| "op_in CR_OP_SUB x y \<longleftrightarrow> x \<and> \<not> y"

text \<open>One more point from \<open>a\<close> or \<open>b\<close>, with the indices after it.\<close>

definition next_point :: "u32 list \<Rightarrow> u32 list \<Rightarrow> nat \<Rightarrow> nat \<Rightarrow> (u32 \<times> nat \<times> nat) option" where
  "next_point a b ai bi =
     (if ai < length a \<and> bi < length b
      then if a ! ai < b ! bi then Some (a ! ai, ai + 1, bi)
           else if a ! ai = b ! bi then Some (a ! ai, ai + 1, bi + 1)
           else Some (b ! bi, ai, bi + 1)
      else if ai < length a then Some (a ! ai, ai + 1, bi)
      else if bi < length b then Some (b ! bi, ai, bi + 1)
      else None)"

function cr_op_loop ::
    "points_realloc \<Rightarrow> CharRangeOpEnum \<Rightarrow> u32 list \<Rightarrow> u32 list \<Rightarrow> nat \<Rightarrow> nat \<Rightarrow> CharRange \<Rightarrow> (int \<times> CharRange) option" where
  "cr_op_loop rf op a b ai bi cr =
     (case next_point a b ai bi of
        None \<Rightarrow> Some (0, cr)
      | Some (v, ai', bi') \<Rightarrow>
          if op_in op (odd ai') (odd bi') \<noteq> odd (clen cr)
          then do {
            (r, cr1) \<leftarrow> cr_add_point rf v cr;
            if r \<noteq> 0 then Some (-1, cr1) else cr_op_loop rf op a b ai' bi' cr1
          }
          else cr_op_loop rf op a b ai' bi' cr)"
  by pat_completeness auto

termination
  by (relation "measure (\<lambda>(rf, op, a, b, ai, bi, cr). (length a - ai) + (length b - bi))")
    (auto simp: next_point_def split: if_splits)

declare cr_op_loop.simps [simp del]

definition cr_op :: "points_realloc \<Rightarrow> u32 list \<Rightarrow> u32 list \<Rightarrow> CharRangeOpEnum \<Rightarrow> CharRange \<Rightarrow> (int \<times> CharRange) option" where
  "cr_op rf a b op cr =
     do {
       (r, cr1) \<leftarrow> cr_op_loop rf op a b 0 0 cr;
       if r \<noteq> 0 then Some (-1, cr1) else Some (0, cr_compress cr1)
     }"

text \<open>The second component is the old buffer, which is freed.\<close>

definition cr_op1 :: "points_realloc \<Rightarrow> u32 list \<Rightarrow> CharRangeOpEnum \<Rightarrow> CharRange \<Rightarrow> (int \<times> CharRange \<times> u32 list) option" where
  "cr_op1 rf b op cr =
     do {
       (r, cr1) \<leftarrow> cr_op rf (take (clen cr) (points cr)) b op (cr\<lparr>clen := 0, csize := 0, points := []\<rparr>);
       Some (r, cr1, cr_free cr)
     }"

definition cr_union_interval :: "points_realloc \<Rightarrow> u32 \<Rightarrow> u32 \<Rightarrow> CharRange \<Rightarrow> (int \<times> CharRange \<times> u32 list) option" where
  "cr_union_interval rf c1 c2 cr = cr_op1 rf [c1, c2 + 1] CR_OP_UNION cr"

definition cr_invert :: "points_realloc \<Rightarrow> CharRange \<Rightarrow> (int \<times> CharRange) option" where
  "cr_invert rf cr =
     (let n = clen cr; (r, cr1) = cr_realloc rf cr (n + 2)
      in if r \<noteq> 0 then Some (-1, cr1)
         else do {
           b1 \<leftarrow> blit (points cr1) 1 (take n (points cr1));
           b2 \<leftarrow> wr b1 0 0;
           b3 \<leftarrow> wr b2 (n + 1) 0xFFFFFFFF;
           Some (0, cr_compress (cr1\<lparr>points := b3, clen := n + 2\<rparr>))
         })"

section \<open>Sorting intervals\<close>

definition point_cmp :: "u32 \<times> u32 \<Rightarrow> u32 \<times> u32 \<Rightarrow> int" where
  "point_cmp p q = of_bool (fst p > fst q) - of_bool (fst p < fst q)"

fun pairs_of :: "u32 list \<Rightarrow> (u32 \<times> u32) list" where
  "pairs_of (x # y # xs) = (x, y) # pairs_of xs"
| "pairs_of xs = []"

definition points_of :: "(u32 \<times> u32) list \<Rightarrow> u32 list" where
  "points_of ps = concat (map (\<lambda>(x, y). [x, y]) ps)"

text \<open>The inner loop: the index after the intervals that overlap, and the new end.\<close>

function overlap_end :: "u32 list \<Rightarrow> nat \<Rightarrow> nat \<Rightarrow> u32 \<Rightarrow> nat \<times> u32" where
  "overlap_end pt n i e =
     (if i < n
      then if pt ! i > e then (i, e)
           else if pt ! (i + 1) \<le> e then overlap_end pt n (i + 2) e
           else overlap_end pt n (i + 2) (pt ! (i + 1))
      else (i, e))"
  by pat_completeness auto

termination
  by (relation "measure (\<lambda>(pt, n, i, e). n - i)") auto

declare overlap_end.simps [simp del]

lemma overlap_end_ge: "fst (overlap_end pt n i e) \<ge> i"
proof (induction pt n i e rule: overlap_end.induct)
  case (1 pt n i e)
  then show ?case by (subst overlap_end.simps) auto
qed

function remove_overlap_loop :: "u32 list \<Rightarrow> nat \<Rightarrow> nat \<Rightarrow> nat \<Rightarrow> u32 list \<times> nat" where
  "remove_overlap_loop pt n i j =
     (if i < n
      then let start = pt ! i; (i', e) = overlap_end pt n (i + 2) (pt ! (i + 1))
           in remove_overlap_loop (pt[j := start, j + 1 := e]) n i' (j + 2)
      else (pt, j))"
  by pat_completeness auto

termination
proof (relation "measure (\<lambda>(pt, n, i, j). n - i)", simp, goal_cases)
  case (1 pt n i j start x i' e)
  then show ?case using overlap_end_ge [of "i + 2" pt n "pt ! (i + 1)"]
    by (cases "overlap_end pt n (i + 2) (pt ! (i + 1))") auto
qed

declare remove_overlap_loop.simps [simp del]

definition cr_sort_and_remove_overlap :: "CharRange \<Rightarrow> CharRange" where
  "cr_sort_and_remove_overlap cr =
     (let n = clen cr;
          sorted = points_of (rqsort point_cmp (pairs_of (take (2 * (n div 2)) (points cr))));
          (pt, j) = remove_overlap_loop (sorted @ drop (2 * (n div 2)) (points cr)) n 0 0
      in cr\<lparr>points := pt, clen := j\<rparr>)"

interpretation points: comparison point_cmp
  by unfold_locales (auto simp: point_cmp_def split: if_splits)

end
