(* ===== verification/CharRangeCorrect.thy ===== *)
theory CharRangeCorrect
  imports CharRange
begin

text \<open>
  What the operations on character sets compute: the points in use denote a set, and union,
  intersection, difference, symmetric difference, complement and the merge of overlapping
  intervals give the points of the right set, strictly increasing.
\<close>

section \<open>Denotation\<close>

definition contents :: "CharRange \<Rightarrow> u32 list" where
  "contents cr = take (clen cr) (points cr)"

definition cr_wf :: "CharRange \<Rightarrow> bool" where
  "cr_wf cr \<longleftrightarrow> length (points cr) = csize cr \<and> clen cr \<le> csize cr"

text \<open>The points that are at most \<open>c\<close>; \<open>c\<close> is a member when their number is odd.\<close>

definition below :: "u32 list \<Rightarrow> u32 \<Rightarrow> nat" where
  "below ps c = length (filter (\<lambda>p. p \<le> c) ps)"

definition member_pts :: "u32 list \<Rightarrow> u32 \<Rightarrow> bool" where
  "member_pts ps c \<longleftrightarrow> odd (below ps c)"

lemma below_simps [simp]:
  "below [] c = 0" "below (p # ps) c = (if p \<le> c then 1 else 0) + below ps c"
  "below (ps @ qs) c = below ps c + below qs c"
  by (simp_all add: below_def)

lemma member_pts_simps: "member_pts [] c = False" "member_pts (p # ps) c = ((p \<le> c) \<noteq> member_pts ps c)"
  by (auto simp: member_pts_def)

lemma below_all: "\<forall>p \<in> set ps. p \<le> c \<Longrightarrow> below ps c = length ps"
  by (simp add: below_def)

lemma below_none: "\<forall>p \<in> set ps. c < p \<Longrightarrow> below ps c = 0"
  by (auto simp: below_def filter_empty_conv)

section \<open>The allocator\<close>

text \<open>A grown buffer keeps its points.\<close>

locale point_reallocator =
  fixes rf :: points_realloc
  assumes rf_length: "rf b n = Some b' \<Longrightarrow> length b' = n"
    and rf_keeps: "rf b n = Some b' \<Longrightarrow> length b \<le> n \<Longrightarrow> take (length b) b' = b"
begin

lemma cr_realloc_ok:
  assumes "cr_wf cr" "cr_realloc rf cr n = (r, cr')"
  shows "cr_wf cr' \<and> clen cr' = clen cr \<and> contents cr' = contents cr \<and> (r = 0 \<longrightarrow> n \<le> csize cr')
     \<and> (r \<noteq> 0 \<longrightarrow> cr' = cr \<and> (\<exists>m. rf (points cr) m = None))"
proof (cases "n > csize cr")
  case False
  then show ?thesis using assms by (auto simp: cr_realloc_def)
next
  case True
  let ?n = "max n (csize cr * 3 div 2)"
  show ?thesis
  proof (cases "rf (points cr) ?n")
    case None
    then show ?thesis using assms True by (auto simp: cr_realloc_def Let_def)
  next
    case (Some b)
    then have e: "r = 0" "cr' = cr\<lparr>points := b, csize := ?n\<rparr>"
      using assms True by (auto simp: cr_realloc_def Let_def)
    have l: "length b = ?n" "length (points cr) = csize cr" "clen cr \<le> csize cr"
      using rf_length [OF Some] assms(1) by (auto simp: cr_wf_def)
    then have k: "take (csize cr) b = points cr" using rf_keeps [OF Some] True by simp
    have "take (clen cr) b = take (clen cr) (take (csize cr) b)" using l by (simp add: min_absorb1)
    then show ?thesis using e l k True by (simp add: cr_wf_def contents_def)
  qed
qed

lemma add_point_ok:
  assumes "cr_wf cr"
  obtains r cr' where "cr_add_point rf v cr = Some (r, cr')" "cr_wf cr'"
    "r = 0 \<Longrightarrow> contents cr' = contents cr @ [v] \<and> clen cr' = clen cr + 1"
    "r \<noteq> 0 \<Longrightarrow> r = -1 \<and> cr' = cr \<and> (\<exists>m. rf (points cr) m = None)"
proof -
  obtain r cr1 where e: "(if clen cr \<ge> csize cr then cr_realloc rf cr (clen cr + 1) else (0, cr)) = (r, cr1)"
    by fastforce
  have k: "cr_wf cr1 \<and> clen cr1 = clen cr \<and> contents cr1 = contents cr \<and> (r = 0 \<longrightarrow> clen cr < csize cr1)
     \<and> (r \<noteq> 0 \<longrightarrow> cr1 = cr \<and> (\<exists>m. rf (points cr) m = None))"
  proof (cases "clen cr \<ge> csize cr")
    case True
    then have "cr_realloc rf cr (clen cr + 1) = (r, cr1)" using e by simp
    from cr_realloc_ok [OF assms this] show ?thesis by auto
  qed (use e assms in auto)
  show ?thesis
  proof (cases "r = 0")
    case False
    then have "cr_add_point rf v cr = Some (-1, cr1)" using e by (simp add: cr_add_point_def)
    then show ?thesis using that [of "-1" cr1] k False assms by simp
  next
    case True
    then have l: "clen cr < length (points cr1)" using k by (simp add: cr_wf_def)
    let ?c = "cr1\<lparr>points := (points cr1)[clen cr := v], clen := clen cr + 1\<rparr>"
    have "cr_add_point rf v cr = Some (0, ?c)"
      using e True l k by (simp add: cr_add_point_def wr_def)
    moreover have "contents ?c = contents cr @ [v]"
      using k l unfolding contents_def by (auto simp: take_Suc_conv_app_nth)
    moreover have "cr_wf ?c" using k l by (simp add: cr_wf_def)
    ultimately show ?thesis using that [of 0 ?c] by simp
  qed
qed

end

lemma default_points_realloc:
  "cr_default_realloc ok junk b n = Some b' \<Longrightarrow> length b' = n"
  "cr_default_realloc ok junk b n = Some b' \<Longrightarrow> length b \<le> n \<Longrightarrow> take (length b) b' = b"
  by (auto simp: cr_default_realloc_def split: if_splits)

interpretation default_points: point_reallocator "cr_default_realloc ok junk" for ok junk
  by unfold_locales (use default_points_realloc in auto)

section \<open>Compression\<close>

text \<open>On lists: empty intervals vanish, an interval takes over the end of the next one.\<close>

function squeeze :: "u32 list \<Rightarrow> u32 list" and widen :: "u32 \<Rightarrow> u32 \<Rightarrow> u32 list \<Rightarrow> u32 list" where
  "squeeze (x # y # ps) = (if x = y then squeeze ps else widen x y ps)"
| "squeeze [x] = []"
| "squeeze [] = []"
| "widen x y (p # q # ps) = (if y = p then widen x q ps else x # y # squeeze (p # q # ps))"
| "widen x y [p] = [x, y]"
| "widen x y [] = [x, y]"
  by pat_completeness auto

termination
  by (relation "measure (case_sum length (\<lambda>(x, y, ps). Suc (length ps)))") auto

lemma squeeze_below:
  "even (length ps) \<Longrightarrow> odd (below (squeeze ps) c) = odd (below ps c)"
  "even (length qs) \<Longrightarrow> odd (below (widen x y qs) c) = odd (below (x # y # qs) c)"
  by (induction ps and x y qs rule: squeeze_widen.induct) auto

lemma squeeze_even: "even (length (squeeze ps))" "even (length (widen x y qs))"
  by (induction ps and x y qs rule: squeeze_widen.induct) auto

lemma squeeze_sorted:
  "sorted ps \<Longrightarrow> sorted_wrt (<) (squeeze ps) \<and> set (squeeze ps) \<subseteq> set ps"
  "sorted (x # y # qs) \<Longrightarrow> x < y \<Longrightarrow> sorted_wrt (<) (widen x y qs) \<and> set (widen x y qs) \<subseteq> set (x # y # qs)"
proof (induction ps and x y qs rule: squeeze_widen.induct)
  case (1 x y ps)
  show ?case
  proof (cases "x = y")
    case True
    have "sorted ps" using "1.prems" by simp
    from "1.IH"(1) [OF True this] show ?thesis using True by auto
  next
    case False
    then have "x < y" using "1.prems" by (simp add: less_le)
    from "1.IH"(2) [OF False "1.prems" this] show ?thesis using False by simp
  qed
next
  case (4 x y p q ps)
  show ?case
  proof (cases "y = p")
    case True
    have "sorted (x # q # ps)" "x < q" using "4.prems" True by auto
    from "4.IH"(1) [OF True this] show ?thesis using True by auto
  next
    case False
    have "sorted (p # q # ps)" using "4.prems" by simp
    note ih = "4.IH"(2) [OF False this]
    have "y < z" if "z \<in> set (p # q # ps)" for z
      using "4.prems" False that by fastforce
    then have "\<forall>z \<in> set (squeeze (p # q # ps)). y < z \<and> x < z"
      using ih "4.prems"(2) by (meson order_less_trans subsetD)
    moreover have "widen x y (p # q # ps) = x # y # squeeze (p # q # ps)" using False by simp
    ultimately show ?thesis using ih "4.prems"(2) by (auto simp del: squeeze.simps)
  qed
qed simp_all

text \<open>The loop in place computes \<open>squeeze\<close>.\<close>

definition rest :: "u32 list \<Rightarrow> nat \<Rightarrow> nat \<Rightarrow> u32 list" where
  "rest pt n i = take (n - i) (drop i pt)"

lemma rest_step: "i + 1 < n \<Longrightarrow> n \<le> length pt \<Longrightarrow> rest pt n i = pt ! i # pt ! (i + 1) # rest pt n (i + 2)"
proof -
  assume a: "i + 1 < n" "n \<le> length pt"
  then have "drop i pt = pt ! i # pt ! (i + 1) # drop (i + 2) pt"
    by (metis Cons_nth_drop_Suc add_2_eq_Suc' add_lessD1 order_less_le_trans Suc_eq_plus1)
  moreover have "n - i = Suc (Suc (n - (i + 2)))" using a(1) by simp
  ultimately show ?thesis by (simp add: rest_def)
qed

lemma rest_short: "n \<le> i + 1 \<Longrightarrow> squeeze (rest pt n i) = [] \<and> widen x y (rest pt n i) = [x, y]"
proof -
  assume "n \<le> i + 1"
  then have "length (rest pt n i) \<le> 1" by (auto simp: rest_def min_def)
  then show ?thesis by (cases "rest pt n i" rule: squeeze.cases; cases "rest pt n i") auto
qed

lemma run_end_widen:
  "j + 1 < n \<Longrightarrow> n \<le> length pt \<Longrightarrow>
     run_end pt n j + 1 < n \<and>
     widen x (pt ! (j + 1)) (rest pt n (j + 2)) =
       x # pt ! (run_end pt n j + 1) # squeeze (rest pt n (run_end pt n j + 2))"
proof (induction pt n j rule: run_end.induct)
  case (1 pt n j)
  show ?case
  proof (cases "j + 3 < n")
    case False
    then have "run_end pt n j = j" by (subst run_end.simps) simp
    then show ?thesis using "1.prems" False rest_short [of n "j + 2" pt x "pt ! (j + 1)"] by simp
  next
    case True
    then have r: "rest pt n (j + 2) = pt ! (j + 2) # pt ! (j + 3) # rest pt n (j + 4)"
      using rest_step [of "j + 2" n pt] "1.prems" by (simp add: numeral_eq_Suc)
    show ?thesis
    proof (cases "pt ! (j + 1) = pt ! (j + 2)")
      case eq: True
      then have "run_end pt n j = run_end pt n (j + 2)" using True by (subst run_end.simps) simp
      then show ?thesis using "1.IH" True eq "1.prems" r by (simp add: numeral_eq_Suc)
    next
      case ne: False
      then have "run_end pt n j = j" using True by (subst run_end.simps) simp
      then show ?thesis using ne r "1.prems" by simp
    qed
  qed
qed

lemma rest_update: "k < i \<Longrightarrow> rest (pt[k := v]) n i = rest pt n i"
  by (simp add: rest_def)

lemma compress_loop_squeeze:
  "compress_loop pt n i k = (pt', k') \<Longrightarrow> k \<le> i \<Longrightarrow> i \<le> n \<Longrightarrow> n \<le> length pt \<Longrightarrow>
     length pt' = length pt \<and> k' \<le> n \<and> take k' pt' = take k pt @ squeeze (rest pt n i)"
proof (induction pt n i k rule: compress_loop.induct)
  case (1 pt n i k)
  show ?case
  proof (cases "i + 1 < n")
    case False
    then have "(pt', k') = (pt, k)" using "1.prems"(1) by (subst (asm) compress_loop.simps) simp
    then show ?thesis using "1.prems" False rest_short [of n i pt] by simp
  next
    case True
    have r: "rest pt n i = pt ! i # pt ! (i + 1) # rest pt n (i + 2)"
      using rest_step [OF True "1.prems"(4)] .
    show ?thesis
    proof (cases "pt ! i = pt ! (i + 1)")
      case eq: True
      then have "compress_loop pt n (i + 2) k = (pt', k')"
        using "1.prems"(1) True by (subst (asm) compress_loop.simps) simp
      from "1.IH"(1) [OF True eq this] show ?thesis using "1.prems" True eq r by simp
    next
      case ne: False
      let ?j = "run_end pt n i"
      let ?pt1 = "pt[k := pt ! i]"
      let ?pt2 = "?pt1[k + 1 := ?pt1 ! (?j + 1)]"
      have j: "i \<le> ?j" "?j + 1 < n"
        "widen (pt ! i) (pt ! (i + 1)) (rest pt n (i + 2)) = pt ! i # pt ! (?j + 1) # squeeze (rest pt n (?j + 2))"
        using run_end_ge [of i pt n] run_end_widen [OF True "1.prems"(4), of "pt ! i"] by auto
      have "compress_loop ?pt2 n (?j + 2) (k + 2) = (pt', k')"
        using "1.prems"(1) True ne by (subst (asm) compress_loop.simps) (simp add: Let_def)
      then have "length pt' = length pt \<and> k' \<le> n \<and> take k' pt' = take (k + 2) ?pt2 @ squeeze (rest ?pt2 n (?j + 2))"
        using "1.IH"(2) [OF True ne refl refl] "1.prems" j by simp
      moreover have "rest ?pt2 n (?j + 2) = rest pt n (?j + 2)"
        using j "1.prems" by (simp add: rest_update)
      moreover have "take (k + 2) ?pt2 = take k pt @ [pt ! i, pt ! (?j + 1)]"
        using "1.prems" j True by (simp add: take_Suc_conv_app_nth nth_append numeral_eq_Suc)
      ultimately show ?thesis using r ne j(3) by simp
    qed
  qed
qed

lemma cr_compress_ok:
  assumes "cr_wf cr"
  shows "cr_wf (cr_compress cr) \<and> contents (cr_compress cr) = squeeze (contents cr)"
proof -
  obtain pt k where p: "compress_loop (points cr) (clen cr) 0 0 = (pt, k)" by fastforce
  from compress_loop_squeeze [OF p] assms
  have "length pt = length (points cr)" "k \<le> clen cr" "take k pt = squeeze (contents cr)"
    by (auto simp: cr_wf_def contents_def rest_def)
  then show ?thesis using assms p by (simp add: cr_compress_def cr_wf_def contents_def)
qed

section \<open>Set operations\<close>

lemma next_point_some:
  "next_point a b ai bi = Some (v, ai', bi') \<Longrightarrow>
     ai < length a \<and> bi < length b \<and> a ! ai = b ! bi \<and> v = a ! ai \<and> ai' = Suc ai \<and> bi' = Suc bi
     \<or> ai < length a \<and> (bi < length b \<longrightarrow> a ! ai < b ! bi) \<and> v = a ! ai \<and> ai' = Suc ai \<and> bi' = bi
     \<or> bi < length b \<and> (ai < length a \<longrightarrow> b ! bi < a ! ai) \<and> v = b ! bi \<and> ai' = ai \<and> bi' = Suc bi"
  unfolding next_point_def
  by (simp only: split: if_splits) (use less_linear [of "a ! ai" "b ! bi"] in auto)

lemma next_point_cases:
  assumes "next_point a b ai bi = Some (v, ai', bi')" "sorted a" "sorted b" "ai \<le> length a" "bi \<le> length b"
  shows "ai' \<le> length a \<and> bi' \<le> length b
     \<and> (take ai' a = take ai a @ [v] \<or> take ai' a = take ai a) \<and> (take bi' b = take bi b @ [v] \<or> take bi' b = take bi b)
     \<and> v \<in> set (drop ai a) \<union> set (drop bi b)
     \<and> (\<forall>q \<in> set (drop ai' a) \<union> set (drop bi' b). v \<le> q) \<and> set (drop ai' a) \<subseteq> set (drop ai a) \<and> set (drop bi' b) \<subseteq> set (drop bi b)"
proof -
  have ge: "xs ! i \<le> q" if "q \<in> set (drop i xs)" "sorted xs" for q i and xs :: "u32 list"
    using that by (auto simp: in_set_conv_nth intro!: sorted_nth_mono)
  have nin: "xs ! i \<in> set (drop i xs)" if "i < length xs" for i and xs :: "u32 list"
    using that by (metis Cons_nth_drop_Suc list.set_intros(1))
  have sub: "set (drop (Suc i) xs) \<subseteq> set (drop i xs)" for i and xs :: "u32 list"
    by (rule set_drop_subset_set_drop) simp
  have tk: "take (Suc i) xs = take i xs @ [xs ! i]" if "i < length xs" for i and xs :: "u32 list"
    using that by (rule take_Suc_conv_app_nth)
  consider (both) "ai < length a" "bi < length b" "a ! ai = b ! bi" "v = a ! ai" "ai' = Suc ai" "bi' = Suc bi"
    | (left) "ai < length a" "bi < length b \<longrightarrow> a ! ai < b ! bi" "v = a ! ai" "ai' = Suc ai" "bi' = bi"
    | (right) "bi < length b" "ai < length a \<longrightarrow> b ! bi < a ! ai" "v = b ! bi" "ai' = ai" "bi' = Suc bi"
    using next_point_some [OF assms(1)] by blast
  then show ?thesis
  proof cases
    case both
    have A: "\<forall>q \<in> set (drop ai' a). v \<le> q" "\<forall>q \<in> set (drop bi' b). v \<le> q"
      using ge [of _ ai a] ge [of _ bi b] sub [of ai a] sub [of bi b] assms(2,3) both(3-6) by (metis subsetD)+
    have B: "v \<in> set (drop ai a)" "take ai' a = take ai a @ [v]" "take bi' b = take bi b @ [v]"
      "set (drop ai' a) \<subseteq> set (drop ai a)" "set (drop bi' b) \<subseteq> set (drop bi b)" "ai' \<le> length a" "bi' \<le> length b"
      using both tk [of ai a] tk [of bi b] nin [of ai a] sub [of ai a] sub [of bi b] by simp_all
    show ?thesis using A B by blast
  next
    case left
    have A: "\<forall>q \<in> set (drop bi' b). v \<le> q"
    proof
      fix q assume q: "q \<in> set (drop bi' b)"
      then have l: "bi < length b" using left(5) by (cases "bi < length b") auto
      have "b ! bi \<le> q" using ge [of q bi b] q left(5) assms(3) by simp
      then show "v \<le> q" using left(2,3) l by (meson less_imp_le order_trans)
    qed
    have B: "\<forall>q \<in> set (drop ai' a). v \<le> q"
      using ge [of _ ai a] sub [of ai a] assms(2) left(3,4) by (metis subsetD)
    have C: "v \<in> set (drop ai a)" "take ai' a = take ai a @ [v]" "take bi' b = take bi b"
      "set (drop ai' a) \<subseteq> set (drop ai a)" "set (drop bi' b) \<subseteq> set (drop bi b)" "ai' \<le> length a" "bi' \<le> length b"
      using left tk [of ai a] nin [of ai a] sub [of ai a] assms(5) by simp_all
    show ?thesis using A B C by blast
  next
    case right
    have A: "\<forall>q \<in> set (drop ai' a). v \<le> q"
    proof
      fix q assume q: "q \<in> set (drop ai' a)"
      then have l: "ai < length a" using right(4) by (cases "ai < length a") auto
      have "a ! ai \<le> q" using ge [of q ai a] q right(4) assms(2) by simp
      then show "v \<le> q" using right(2,3) l by (meson less_imp_le order_trans)
    qed
    have B: "\<forall>q \<in> set (drop bi' b). v \<le> q"
      using ge [of _ bi b] sub [of bi b] assms(3) right(3,5) by (metis subsetD)
    have C: "v \<in> set (drop bi b)" "take bi' b = take bi b @ [v]" "take ai' a = take ai a"
      "set (drop ai' a) \<subseteq> set (drop ai a)" "set (drop bi' b) \<subseteq> set (drop bi b)" "ai' \<le> length a" "bi' \<le> length b"
      using right tk [of bi b] nin [of bi b] sub [of bi b] assms(4) by simp_all
    show ?thesis using A B C by blast
  qed
qed

definition op_inv :: "CharRangeOpEnum \<Rightarrow> u32 list \<Rightarrow> u32 list \<Rightarrow> nat \<Rightarrow> nat \<Rightarrow> u32 list \<Rightarrow> bool" where
  "op_inv op a b ai bi out \<longleftrightarrow>
     ai \<le> length a \<and> bi \<le> length b \<and> sorted out
     \<and> (\<forall>p \<in> set out \<union> set (take ai a) \<union> set (take bi b). \<forall>q \<in> set (drop ai a) \<union> set (drop bi b). p \<le> q)
     \<and> odd (length out) = op_in op (odd ai) (odd bi)
     \<and> (\<forall>c. odd (below out c) = op_in op (odd (below (take ai a) c)) (odd (below (take bi b) c)))"

lemma op_inv_step:
  assumes inv: "op_inv op a b ai bi out" and n: "next_point a b ai bi = Some (v, ai', bi')"
    and s: "sorted a" "sorted b"
    and out': "out' = (if op_in op (odd ai') (odd bi') \<noteq> odd (length out) then out @ [v] else out)"
  shows "op_inv op a b ai' bi' out'"
proof -
  have l: "ai \<le> length a" "bi \<le> length b" using inv by (auto simp: op_inv_def)
  note c = next_point_cases [OF n s l]
  have sub: "set out' \<subseteq> insert v (set out)" "set (take ai' a) \<subseteq> insert v (set (take ai a))"
    "set (take bi' b) \<subseteq> insert v (set (take bi b))" using c out' by (auto split: if_splits)
  have lev: "\<forall>p \<in> set out \<union> set (take ai a) \<union> set (take bi b). p \<le> v"
    using inv c unfolding op_inv_def by blast
  then have lev': "\<forall>p \<in> set out' \<union> set (take ai' a) \<union> set (take bi' b). p \<le> v"
    using sub by blast
  have par: "odd (length out') = op_in op (odd ai') (odd bi')" using out' by (simp split: if_splits)
  have "odd (below out' x) = op_in op (odd (below (take ai' a) x)) (odd (below (take bi' b) x))" for x
  proof (cases "v \<le> x")
    case True
    then have "\<forall>p \<in> set out' \<union> set (take ai' a) \<union> set (take bi' b). p \<le> x"
      using lev' by (meson order_trans)
    then have "below out' x = length out'" "below (take ai' a) x = length (take ai' a)"
      "below (take bi' b) x = length (take bi' b)" by (simp_all add: below_all)
    then show ?thesis using par c by simp
  next
    case False
    then have "below out' x = below out x" "below (take ai' a) x = below (take ai a) x"
      "below (take bi' b) x = below (take bi b) x"
      using c out' by (auto split: if_splits)
    then show ?thesis using inv by (simp add: op_inv_def)
  qed
  moreover have "sorted out'" using inv lev out' by (auto simp: op_inv_def sorted_append)
  moreover have "\<forall>p \<in> set out' \<union> set (take ai' a) \<union> set (take bi' b). \<forall>q \<in> set (drop ai' a) \<union> set (drop bi' b). p \<le> q"
    using lev' c by (meson order_trans)
  ultimately show ?thesis using par c by (simp add: op_inv_def)
qed

lemma op_inv_end:
  assumes "op_inv op a b ai bi out" "next_point a b ai bi = None" "even (length a)" "even (length b)"
  shows "sorted out \<and> even (length out) \<and> (\<forall>c. member_pts out c = op_in op (member_pts a c) (member_pts b c))"
proof -
  have "ai = length a" "bi = length b"
    using assms(1,2) by (auto simp: op_inv_def next_point_def split: if_splits)
  moreover have "\<not> op_in op False False" by (cases op) auto
  ultimately show ?thesis using assms by (simp add: op_inv_def member_pts_def)
qed

lemma op_inv_start: "op_inv op a b 0 0 []"
  by (cases op) (auto simp: op_inv_def)

text \<open>Strictly increasing points of the right set.\<close>

definition denotes :: "u32 list \<Rightarrow> (u32 \<Rightarrow> bool) \<Rightarrow> bool" where
  "denotes ps P \<longleftrightarrow> sorted_wrt (<) ps \<and> even (length ps) \<and> (\<forall>c. member_pts ps c = P c)"

lemma squeeze_denotes: "sorted ps \<Longrightarrow> even (length ps) \<Longrightarrow> denotes (squeeze ps) (member_pts ps)"
  by (simp add: denotes_def squeeze_sorted squeeze_even squeeze_below member_pts_def)

context point_reallocator
begin

lemma cr_op_loop_ok:
  assumes "sorted a" "sorted b" "even (length a)" "even (length b)"
  shows "rf' = rf \<Longrightarrow> cr_wf cr \<Longrightarrow> op_inv op a b ai bi (contents cr) \<Longrightarrow>
     \<exists>r cr'. cr_op_loop rf' op a b ai bi cr = Some (r, cr') \<and> cr_wf cr'
       \<and> (r \<noteq> 0 \<longrightarrow> r = -1 \<and> (\<exists>b m. rf b m = None))
       \<and> (r = 0 \<longrightarrow> sorted (contents cr') \<and> even (length (contents cr'))
            \<and> (\<forall>c. member_pts (contents cr') c = op_in op (member_pts a c) (member_pts b c)))"
  using assms
proof (induction rf' op a b ai bi cr rule: cr_op_loop.induct)
  case (1 rf' op a b ai bi cr)
  have cl: "length (contents cr) = clen cr" using "1.prems"(2) by (simp add: contents_def cr_wf_def)
  show ?case
  proof (cases "next_point a b ai bi")
    case None
    then have "cr_op_loop rf' op a b ai bi cr = Some (0, cr)" by (subst cr_op_loop.simps) simp
    then show ?thesis using op_inv_end [OF "1.prems"(3) None] "1.prems" by simp
  next
    case (Some w)
    obtain v ai' bi' where n: "next_point a b ai bi = Some (v, ai', bi')" using Some by (cases w) auto
    note step = op_inv_step [OF "1.prems"(3) n "1.prems"(4,5) refl]
    show ?thesis
    proof (cases "op_in op (odd ai') (odd bi') \<noteq> odd (clen cr)")
      case False
      then have "cr_op_loop rf' op a b ai bi cr = cr_op_loop rf' op a b ai' bi' cr"
        using n by (subst cr_op_loop.simps) simp
      then show ?thesis
        using "1.IH"(2) [OF n refl refl False "1.prems"(1,2)] step "1.prems" False cl by simp
    next
      case True
      obtain r cr1 where a: "cr_add_point rf v cr = Some (r, cr1)" "cr_wf cr1"
        "r = 0 \<Longrightarrow> contents cr1 = contents cr @ [v] \<and> clen cr1 = clen cr + 1"
        "r \<noteq> 0 \<Longrightarrow> r = -1 \<and> cr1 = cr \<and> (\<exists>m. rf (points cr) m = None)"
        using add_point_ok [OF "1.prems"(2)] by metis
      show ?thesis
      proof (cases "r = 0")
        case False
        then have "cr_op_loop rf' op a b ai bi cr = Some (-1, cr1)"
          using n True a "1.prems"(1) by (subst cr_op_loop.simps) simp
        then show ?thesis using a False by auto
      next
        case r: True
        have "cr_op_loop rf' op a b ai bi cr = cr_op_loop rf' op a b ai' bi' cr1"
          using n True a(1) r "1.prems"(1) by (subst cr_op_loop.simps) simp
        moreover have "\<not> r \<noteq> 0" using r by simp
        from "1.IH"(1) [OF n refl refl True _ refl this "1.prems"(1) a(2)] 
        have "\<exists>r cr'. cr_op_loop rf' op a b ai' bi' cr1 = Some (r, cr') \<and> cr_wf cr'
            \<and> (r \<noteq> 0 \<longrightarrow> r = -1 \<and> (\<exists>b m. rf b m = None))
            \<and> (r = 0 \<longrightarrow> sorted (contents cr') \<and> even (length (contents cr'))
              \<and> (\<forall>c. member_pts (contents cr') c = op_in op (member_pts a c) (member_pts b c)))"
          using a(1) a(3) [OF r] step True cl "1.prems" by simp
        ultimately show ?thesis by simp
      qed
    qed
  qed
qed

lemma cr_op_ok:
  assumes "sorted a" "sorted b" "even (length a)" "even (length b)" "cr_wf cr" "clen cr = 0"
  shows "\<exists>r cr'. cr_op rf a b op cr = Some (r, cr') \<and> cr_wf cr'
     \<and> (r \<noteq> 0 \<longrightarrow> r = -1 \<and> (\<exists>b m. rf b m = None))
     \<and> (r = 0 \<longrightarrow> denotes (contents cr') (\<lambda>c. op_in op (member_pts a c) (member_pts b c)))"
proof -
  have "op_inv op a b 0 0 (contents cr)" using op_inv_start assms(6) by (simp add: contents_def)
  from cr_op_loop_ok [OF assms(1-4) refl assms(5) this] obtain r cr1 where
    l: "cr_op_loop rf op a b 0 0 cr = Some (r, cr1)" "cr_wf cr1"
    "r \<noteq> 0 \<longrightarrow> r = -1 \<and> (\<exists>b m. rf b m = None)"
    "r = 0 \<longrightarrow> sorted (contents cr1) \<and> even (length (contents cr1))
        \<and> (\<forall>c. member_pts (contents cr1) c = op_in op (member_pts a c) (member_pts b c))" by blast
  show ?thesis
  proof (cases "r = 0")
    case True
    then have "cr_op rf a b op cr = Some (0, cr_compress cr1)" using l by (simp add: cr_op_def)
    moreover have "denotes (contents (cr_compress cr1)) (\<lambda>c. op_in op (member_pts a c) (member_pts b c))"
      using cr_compress_ok [OF l(2)] squeeze_denotes [of "contents cr1"] l(4) True by (simp add: denotes_def)
    ultimately show ?thesis using cr_compress_ok [OF l(2)] by simp
  next
    case False
    then show ?thesis using l by (simp add: cr_op_def)
  qed
qed

end

section \<open>Complement\<close>

lemma u32_max: "(x :: u32) \<le> 0xFFFFFFFF"
proof -
  have e: "(0xFFFFFFFF :: u32) = - 1" by simp
  show ?thesis unfolding e by (rule word_order.extremum)
qed

context point_reallocator
begin

lemma cr_invert_ok:
  assumes "sorted (contents cr)" "even (clen cr)" "cr_wf cr"
  shows "\<exists>r cr'. cr_invert rf cr = Some (r, cr') \<and> cr_wf cr'
     \<and> (r \<noteq> 0 \<longrightarrow> r = -1 \<and> (\<exists>b m. rf b m = None))
     \<and> (r = 0 \<longrightarrow> denotes (contents cr') (\<lambda>c. c < 0xFFFFFFFF \<and> \<not> member_pts (contents cr) c))"
proof -
  let ?n = "clen cr"
  obtain r cr1 where e: "cr_realloc rf cr (?n + 2) = (r, cr1)" by fastforce
  note k = cr_realloc_ok [OF assms(3) e]
  show ?thesis
  proof (cases "r = 0")
    case False
    then have "cr_invert rf cr = Some (-1, cr1)" using e by (simp add: cr_invert_def Let_def)
    then show ?thesis using k False by auto
  next
    case True
    let ?old = "contents cr" and ?new = "0 # contents cr @ [0xFFFFFFFF]"
    have l: "?n + 2 \<le> length (points cr1)" "take ?n (points cr1) = ?old" "length ?old = ?n"
      using k True assms(3) by (auto simp: cr_wf_def contents_def)
    let ?b1 = "take 1 (points cr1) @ ?old @ drop (1 + ?n) (points cr1)"
    let ?b3 = "(?b1[0 := 0])[?n + 1 := 0xFFFFFFFF]"
    let ?c = "cr1\<lparr>points := ?b3, clen := ?n + 2\<rparr>"
    have lb: "length ?b1 = length (points cr1)" using l by simp
    have "cr_invert rf cr = Some (0, cr_compress ?c)"
      using e True l lb by (simp add: cr_invert_def Let_def blit_def wr_def)
    moreover have "cr_wf ?c" using k l lb by (simp add: cr_wf_def)
    moreover have "contents ?c = ?new"
    proof -
      obtain x xs where xs: "points cr1 = x # xs" "?n < length xs" using l(1) by (cases "points cr1") auto
      have "?b1[0 := 0] = 0 # ?old @ drop ?n xs" using xs by simp
      then have "?b3 = (0 # ?old) @ (drop ?n xs)[0 := 0xFFFFFFFF]" using l(3) by (simp add: list_update_append)
      moreover have "drop ?n xs = xs ! ?n # drop (Suc ?n) xs" using xs(2) by (simp add: Cons_nth_drop_Suc)
      ultimately have "?b3 = ?new @ drop (Suc ?n) xs" by simp
      then show ?thesis using l(3) by (simp add: contents_def)
    qed
    moreover have "sorted ?new" using assms(1) by (auto simp: sorted_append u32_max)
    moreover have "even (length ?new)" using assms(2) l(3) by simp
    moreover have "member_pts ?new x \<longleftrightarrow> x < 0xFFFFFFFF \<and> \<not> member_pts ?old x" for x
    proof (cases "x = 0xFFFFFFFF")
      case True
      then have "below ?old x = ?n" using l(3) by (simp add: below_all u32_max)
      then show ?thesis using True assms(2) by (simp add: member_pts_def)
    next
      case False
      then have "x < 0xFFFFFFFF" using u32_max [of x] by (simp add: less_le)
      then show ?thesis by (auto simp: member_pts_def)
    qed
    ultimately show ?thesis
      using cr_compress_ok [of ?c] squeeze_denotes [of ?new] by (simp add: denotes_def)
  qed
qed

lemma cr_op1_ok:
  assumes "sorted (contents cr)" "sorted b" "even (clen cr)" "even (length b)" "cr_wf cr"
  shows "\<exists>r cr'. cr_op1 rf b op cr = Some (r, cr', points cr) \<and> cr_wf cr'
     \<and> (r \<noteq> 0 \<longrightarrow> r = -1 \<and> (\<exists>b m. rf b m = None))
     \<and> (r = 0 \<longrightarrow> denotes (contents cr') (\<lambda>c. op_in op (member_pts (contents cr) c) (member_pts b c)))"
proof -
  have "even (length (contents cr))" using assms(3,5) by (simp add: contents_def cr_wf_def)
  from cr_op_ok [OF assms(1,2) this assms(4), of "cr\<lparr>clen := 0, csize := 0, points := []\<rparr>" op]
  obtain r cr' where "cr_op rf (contents cr) b op (cr\<lparr>clen := 0, csize := 0, points := []\<rparr>) = Some (r, cr')" "cr_wf cr'"
    "r \<noteq> 0 \<longrightarrow> r = -1 \<and> (\<exists>b m. rf b m = None)"
    "r = 0 \<longrightarrow> denotes (contents cr') (\<lambda>c. op_in op (member_pts (contents cr) c) (member_pts b c))"
    by (auto simp: cr_wf_def)
  then show ?thesis by (simp add: cr_op1_def cr_free_def contents_def)
qed

end

section \<open>Merging sorted intervals\<close>

fun absorb :: "u32 \<Rightarrow> (u32 \<times> u32) list \<Rightarrow> u32 \<times> (u32 \<times> u32) list" where
  "absorb e [] = (e, [])"
| "absorb e ((s1, e1) # ps) =
     (if s1 > e then (e, (s1, e1) # ps) else if e1 \<le> e then absorb e ps else absorb e1 ps)"

lemma absorb_length: "length (snd (absorb e ps)) \<le> length ps"
  by (induction e ps rule: absorb.induct) (auto simp: le_Suc_eq)

function merge_iv :: "(u32 \<times> u32) list \<Rightarrow> (u32 \<times> u32) list" where
  "merge_iv [] = []"
| "merge_iv ((s, e) # ps) = (let (e', r) = absorb e ps in (s, e') # merge_iv r)"
  by pat_completeness auto

termination
proof (relation "measure length", simp, goal_cases)
  case (1 s e ps x y z)
  then show ?case using absorb_length [of e ps] by (cases "absorb e ps") auto
qed

definition covered :: "(u32 \<times> u32) list \<Rightarrow> u32 \<Rightarrow> bool" where
  "covered ps c \<longleftrightarrow> (\<exists>(s, e) \<in> set ps. s \<le> c \<and> c < e)"

definition ascending :: "(u32 \<times> u32) list \<Rightarrow> bool" where
  "ascending ps \<longleftrightarrow> sorted_wrt (\<lambda>p q. fst p \<le> fst q) ps \<and> (\<forall>(s, e) \<in> set ps. s < e)"

lemma absorb_ok:
  "absorb e ps = (e', r) \<Longrightarrow> ascending ((s, e) # ps) \<Longrightarrow>
     e \<le> e' \<and> ascending r \<and> (\<forall>p \<in> set r. e' < fst p)
     \<and> (\<forall>c. s \<le> c \<and> c < e' \<or> covered r c \<longleftrightarrow> s \<le> c \<and> c < e \<or> covered ps c)"
proof (induction e ps rule: absorb.induct)
  case (1 e)
  then show ?case by (auto simp: ascending_def covered_def)
next
  case (2 e s1 e1 ps)
  consider "s1 > e" | "\<not> s1 > e" "e1 \<le> e" | "\<not> s1 > e" "\<not> e1 \<le> e" by blast
  then show ?case
  proof cases
    case 1
    then have "e' = e" "r = (s1, e1) # ps" using "2.prems" by auto
    then show ?thesis using 1 "2.prems"(2) by (auto simp: ascending_def)
  next
    case 2
    have s: "s \<le> s1" "ascending ((s, e) # ps)" using "2.prems"(2) by (auto simp: ascending_def)
    have "absorb e ps = (e', r)" using "2.prems"(1) 2 by simp
    from "2.IH"(1) [OF 2 this s(2)]
    have ih: "e \<le> e'" "ascending r" "\<forall>p \<in> set r. e' < fst p"
      "\<forall>c. s \<le> c \<and> c < e' \<or> covered r c \<longleftrightarrow> s \<le> c \<and> c < e \<or> covered ps c" by auto
    have "covered ((s1, e1) # ps) c \<longleftrightarrow> s1 \<le> c \<and> c < e1 \<or> covered ps c" for c by (auto simp: covered_def)
    moreover have "s1 \<le> c \<and> c < e1 \<Longrightarrow> s \<le> c \<and> c < e" for c
      using s(1) 2(2) by (meson order_less_le_trans order_trans)
    ultimately show ?thesis using ih by blast
  next
    case 3
    have s: "s \<le> s1" "s1 < e1" using "2.prems"(2) by (auto simp: ascending_def)
    have a: "ascending ((s, e1) # ps)" using "2.prems"(2) s by (auto simp: ascending_def)
    have "absorb e1 ps = (e', r)" using "2.prems"(1) 3 by simp
    from "2.IH"(2) [OF 3 this a]
    have ih: "e1 \<le> e'" "ascending r" "\<forall>p \<in> set r. e' < fst p"
      "\<forall>c. s \<le> c \<and> c < e' \<or> covered r c \<longleftrightarrow> s \<le> c \<and> c < e1 \<or> covered ps c" by auto
    have "covered ((s1, e1) # ps) c \<longleftrightarrow> s1 \<le> c \<and> c < e1 \<or> covered ps c" for c by (auto simp: covered_def)
    moreover have "s \<le> c \<and> c < e1 \<longleftrightarrow> s \<le> c \<and> c < e \<or> s1 \<le> c \<and> c < e1" for c
      using s 3 by (meson leI le_less_trans less_imp_le order_trans less_le_trans)
    moreover have "e \<le> e'" using ih(1) 3(2) by (meson leI less_imp_le order_trans)
    ultimately show ?thesis using ih by blast
  qed
qed

lemma points_of_simps [simp]: "points_of [] = []" "points_of ((x, y) # ps) = x # y # points_of ps"
  by (simp_all add: points_of_def)

lemma even_points [simp]: "even (length (points_of ps))" and length_points: "length (points_of ps) = 2 * length ps"
  by (induction ps) (auto simp: points_of_def)

lemma merge_iv_ok:
  "ascending ps \<Longrightarrow> denotes (points_of (merge_iv ps)) (covered ps)
     \<and> (\<forall>p \<in> set (merge_iv ps). fst p < snd p \<and> (\<exists>q \<in> set ps. fst q \<le> fst p))"
proof (induction ps rule: merge_iv.induct)
  case 1
  then show ?case by (simp add: denotes_def points_of_def covered_def member_pts_def)
next
  case (2 s e ps)
  obtain e' r where a: "absorb e ps = (e', r)" by fastforce
  note ab = absorb_ok [OF a "2.prems"]
  then have e: "e \<le> e'" and r: "ascending r" "\<forall>p \<in> set r. e' < fst p" by auto
  have c: "covered ((s, e) # ps) c \<longleftrightarrow> s \<le> c \<and> c < e' \<or> covered r c" for c
    using ab by (auto simp: covered_def)
  have ih: "denotes (points_of (merge_iv r)) (covered r)"
    "\<forall>p \<in> set (merge_iv r). fst p < snd p \<and> (\<exists>q \<in> set r. fst q \<le> fst p)"
    using "2.IH" [OF a [symmetric] refl r(1)] by auto
  have m: "merge_iv ((s, e) # ps) = (s, e') # merge_iv r" using a by simp
  have se: "s < e'" using "2.prems" e by (auto simp: ascending_def)
  have above: "\<forall>p \<in> set (merge_iv r). e' < fst p" using ih(2) r(2) by (meson order_less_le_trans)
  have ap: "\<forall>x \<in> set (points_of (merge_iv r)). e' < x"
    using above ih(2) by (fastforce simp: points_of_def)
  have "sorted_wrt (<) (points_of ((s, e') # merge_iv r))"
    using ih(1) ap se order.strict_trans [OF se] by (auto simp: denotes_def)
  moreover have "member_pts (points_of ((s, e') # merge_iv r)) c = covered ((s, e) # ps) c" for c
  proof -
    have b: "below (points_of ((s, e') # merge_iv r)) c = (if s \<le> c then 1 else 0) + ((if e' \<le> c then 1 else 0) + below (points_of (merge_iv r)) c)"
      by (simp add: points_of_def)
    have lo: "below (points_of (merge_iv r)) c = 0 \<and> \<not> covered r c" if "c < e'"
    proof
      show "below (points_of (merge_iv r)) c = 0"
        using ap that by (intro below_none) (meson order.strict_trans)
      show "\<not> covered r c" using r(2) that by (fastforce simp: covered_def)
    qed
    consider "c < s" | "s \<le> c" "c < e'" | "e' \<le> c" by force
    then show ?thesis
    proof cases
      case 1
      then show ?thesis using b lo c se by (auto simp: member_pts_def)
    next
      case 2
      then show ?thesis using b lo c by (auto simp: member_pts_def)
    next
      case 3
      then have "s \<le> c" using se by auto
      then show ?thesis using b c ih(1) 3 by (auto simp: member_pts_def denotes_def)
    qed
  qed
  ultimately have "denotes (points_of (merge_iv ((s, e) # ps))) (covered ((s, e) # ps))"
    unfolding m by (simp add: denotes_def)
  moreover have "\<exists>q \<in> set ((s, e) # ps). fst q \<le> fst p" if p: "p \<in> set ((s, e') # merge_iv r)" for p
  proof -
    have "s \<le> fst p" using p above se by (auto dest: less_trans intro: less_imp_le)
    then show ?thesis by simp
  qed
  ultimately show ?case unfolding m using ih(2) se by simp
qed

text \<open>The loops in place compute \<open>merge_iv\<close>.\<close>

lemma rest_pairs:
  "even i \<Longrightarrow> even n \<Longrightarrow> n \<le> length pt \<Longrightarrow>
     pairs_of (rest pt n i) = (if i < n then (pt ! i, pt ! (i + 1)) # pairs_of (rest pt n (i + 2)) else [])"
proof (cases "i < n")
  case True
  assume "even i" "even n" "n \<le> length pt"
  with True have "i + 1 < n" by (cases "i + 1 = n") auto
  then show ?thesis using rest_step [of i n pt] \<open>n \<le> length pt\<close> True by simp
qed (simp add: rest_def)

lemma overlap_end_absorb:
  "overlap_end pt n i e = (i', e') \<Longrightarrow> even i \<Longrightarrow> even n \<Longrightarrow> n \<le> length pt \<Longrightarrow> i \<le> n \<Longrightarrow>
     absorb e (pairs_of (rest pt n i)) = (e', pairs_of (rest pt n i')) \<and> even i' \<and> i \<le> i' \<and> i' \<le> n"
proof (induction pt n i e rule: overlap_end.induct)
  case (1 pt n i e)
  note r = rest_pairs [OF "1.prems"(2-4)]
  show ?case
  proof (cases "i < n \<and> \<not> pt ! i > e")
    case False
    then have "(i', e') = (i, e)" using "1.prems"(1) by (subst (asm) overlap_end.simps) (auto split: if_splits)
    then show ?thesis using r False "1.prems" by auto
  next
    case True
    then have i: "i < n" "\<not> pt ! i > e" by auto
    have n2: "i + 2 \<le> n" "even (i + 2)" using "1.prems" i by (auto elim!: evenE oddE)
    show ?thesis
    proof (cases "pt ! (i + 1) \<le> e")
      case le: True
      then have "overlap_end pt n (i + 2) e = (i', e')"
        using "1.prems"(1) i by (subst (asm) overlap_end.simps) simp
      from "1.IH"(1) [OF i le this n2(2) "1.prems"(3,4) n2(1)] show ?thesis using r i le by simp
    next
      case gt: False
      then have "overlap_end pt n (i + 2) (pt ! (i + 1)) = (i', e')"
        using "1.prems"(1) i by (subst (asm) overlap_end.simps) simp
      from "1.IH"(2) [OF i gt this n2(2) "1.prems"(3,4) n2(1)] show ?thesis using r i gt by simp
    qed
  qed
qed

lemma remove_overlap_merge:
  "remove_overlap_loop pt n i j = (pt', j') \<Longrightarrow> even i \<Longrightarrow> even n \<Longrightarrow> n \<le> length pt \<Longrightarrow> i \<le> n \<Longrightarrow> j \<le> i \<Longrightarrow>
     length pt' = length pt \<and> j' \<le> n \<and> take j' pt' = take j pt @ points_of (merge_iv (pairs_of (rest pt n i)))"
proof (induction pt n i j rule: remove_overlap_loop.induct)
  case (1 pt n i j)
  note r = rest_pairs [OF "1.prems"(2-4)]
  show ?case
  proof (cases "i < n")
    case False
    then have "(pt', j') = (pt, j)" using "1.prems"(1) by (subst (asm) remove_overlap_loop.simps) simp
    then show ?thesis using r False "1.prems" by simp
  next
    case True
    obtain i' e where o: "overlap_end pt n (i + 2) (pt ! (i + 1)) = (i', e)" by fastforce
    have n2: "i + 2 \<le> n" "even (i + 2)" using "1.prems" True by (auto elim!: evenE oddE)
    note ab = overlap_end_absorb [OF o n2(2) "1.prems"(3,4) n2(1)]
    let ?pt = "pt[j := pt ! i, j + 1 := e]"
    have "remove_overlap_loop ?pt n i' (j + 2) = (pt', j')"
      using "1.prems"(1) True o by (subst (asm) remove_overlap_loop.simps) (simp add: Let_def)
    then have "length pt' = length pt \<and> j' \<le> n
        \<and> take j' pt' = take (j + 2) ?pt @ points_of (merge_iv (pairs_of (rest ?pt n i')))"
      using "1.IH" [OF True refl o [symmetric] refl] "1.prems" ab n2 by simp
    moreover have "rest ?pt n i' = rest pt n i'" using ab "1.prems" by (simp add: rest_update)
    moreover have "take (j + 2) ?pt = take j pt @ [pt ! i, e]"
      using "1.prems" n2 by (simp add: take_Suc_conv_app_nth nth_append numeral_eq_Suc)
    ultimately show ?thesis using r True ab by simp
  qed
qed

lemma pairs_points: "pairs_of (points_of ps) = ps"
  by (induction ps) auto

lemma points_pairs: "even (length xs) \<Longrightarrow> points_of (pairs_of xs) = xs"
  by (induction xs rule: pairs_of.induct) auto

lemma cr_sort_and_remove_overlap_ok:
  assumes "cr_wf cr" "even (clen cr)" "\<forall>(s, e) \<in> set (pairs_of (contents cr)). s < e"
  shows "cr_wf (cr_sort_and_remove_overlap cr)
     \<and> denotes (contents (cr_sort_and_remove_overlap cr)) (covered (pairs_of (contents cr)))"
proof -
  let ?n = "clen cr" and ?ps = "pairs_of (contents cr)"
  let ?qs = "rqsort point_cmp ?ps"
  have n: "2 * (?n div 2) = ?n" using assms(2) by simp
  have lc: "length (contents cr) = ?n" using assms(1) by (simp add: cr_wf_def contents_def)
  then have "points_of ?ps = contents cr" using assms(2) by (simp add: points_pairs)
  then have lp: "2 * length ?ps = ?n" using lc by (metis length_points)
  have q: "sorted_wrt (\<lambda>p q. point_cmp p q \<le> 0) ?qs" "mset ?qs = mset ?ps"
    using points.rqsort_correct by auto
  have lq: "length (points_of ?qs) = ?n" using q(2) lp by (metis length_points size_mset)
  let ?pt = "points_of ?qs @ drop ?n (points cr)"
  obtain pt j where r: "remove_overlap_loop ?pt ?n 0 0 = (pt, j)" by fastforce
  have "?n \<le> length ?pt" using lq by simp
  from remove_overlap_merge [OF r _ assms(2) this] lq
  have m: "length pt = length ?pt" "j \<le> ?n" "take j pt = points_of (merge_iv ?qs)"
    by (auto simp: rest_def pairs_points)
  have "ascending ?qs"
  proof -
    have "sorted_wrt (\<lambda>p q. fst p \<le> fst q) ?qs"
      using q(1) by (rule sorted_wrt_mono_rel [rotated]) (auto simp: point_cmp_def split: if_splits)
    then show ?thesis using assms(3) mset_eq_setD [OF q(2)] by (simp add: ascending_def)
  qed
  then have "denotes (points_of (merge_iv ?qs)) (covered ?qs)" using merge_iv_ok by blast
  moreover have "covered ?qs = covered ?ps" using mset_eq_setD [OF q(2)] by (simp add: covered_def fun_eq_iff)
  ultimately show ?thesis
    using r m lq n assms(1) by (simp add: cr_sort_and_remove_overlap_def contents_def cr_wf_def Let_def)
qed

section \<open>With the allocator of the library\<close>

lemma default_refuses: "(\<exists>b m. cr_default_realloc ok junk b m = None) \<Longrightarrow> \<not> ok"
  by (auto simp: cr_default_realloc_def)

lemma cr_set_operation:
  assumes "cr_wf cr" "sorted (contents cr)" "even (clen cr)" "sorted b" "even (length b)"
  shows "\<exists>r cr'. cr_op1 (cr_default_realloc ok junk) b op cr = Some (r, cr', points cr) \<and> cr_wf cr'
     \<and> (r = 0 \<or> r = -1 \<and> \<not> ok)
     \<and> (r = 0 \<longrightarrow> denotes (contents cr') (\<lambda>c. op_in op (member_pts (contents cr) c) (member_pts b c)))"
  using default_points.cr_op1_ok [OF assms(2,4,3,5,1), of ok junk op] default_refuses by metis

lemma cr_complement:
  assumes "cr_wf cr" "sorted (contents cr)" "even (clen cr)"
  shows "\<exists>r cr'. cr_invert (cr_default_realloc ok junk) cr = Some (r, cr') \<and> cr_wf cr'
     \<and> (r = 0 \<or> r = -1 \<and> \<not> ok)
     \<and> (r = 0 \<longrightarrow> denotes (contents cr') (\<lambda>c. c < 0xFFFFFFFF \<and> \<not> member_pts (contents cr) c))"
proof -
  from default_points.cr_invert_ok [OF assms(2,3,1), of ok junk] obtain r cr'
    where "cr_invert (cr_default_realloc ok junk) cr = Some (r, cr')" "cr_wf cr'"
      "r \<noteq> 0 \<longrightarrow> r = -1 \<and> (\<exists>b m. cr_default_realloc ok junk b m = None)"
      "r = 0 \<longrightarrow> denotes (contents cr') (\<lambda>c. c < 0xFFFFFFFF \<and> \<not> member_pts (contents cr) c)" by blast
  then show ?thesis using default_refuses by (intro exI [of _ r] exI [of _ cr']) blast
qed

lemma cr_overlaps:
  assumes "cr_wf cr" "even (clen cr)" "\<forall>(s, e) \<in> set (pairs_of (contents cr)). s < e"
  shows "cr_wf (cr_sort_and_remove_overlap cr)
     \<and> denotes (contents (cr_sort_and_remove_overlap cr))
          (\<lambda>c. \<exists>(s, e) \<in> set (pairs_of (contents cr)). s \<le> c \<and> c < e)"
proof -
  have "covered (pairs_of (contents cr)) = (\<lambda>c. \<exists>(s, e) \<in> set (pairs_of (contents cr)). s \<le> c \<and> c < e)"
    by (simp add: covered_def fun_eq_iff)
  with cr_sort_and_remove_overlap_ok [OF assms] show ?thesis by metis
qed

text \<open>C35: \<open>cr_op1\<close> replaces a set by its union, intersection, difference or symmetric difference with
  another one, and \<open>cr_invert\<close> complements it below \<open>UINT32_MAX\<close> in place. From increasing arrays of an
  even number of points they never write outside a buffer, the first hands the old buffer back to be
  freed, they fail only when memory is refused, and on success they leave strictly increasing points of
  exactly the combined set. \<open>cr_sort_and_remove_overlap\<close> turns any list of non-empty intervals, in any order
  and overlapping, into strictly increasing points of their union.\<close>

theorem cr_set_algebra:
  assumes "cr_wf cr" "sorted (contents cr)" "even (clen cr)" "sorted b" "even (length b)"
    and u: "cr_wf u" "even (clen u)" "\<forall>(s, e) \<in> set (pairs_of (contents u)). s < e"
  shows "(\<exists>r cr'. cr_op1 (cr_default_realloc ok junk) b op cr = Some (r, cr', points cr) \<and> cr_wf cr'
      \<and> (r = 0 \<or> r = -1 \<and> \<not> ok)
      \<and> (r = 0 \<longrightarrow> denotes (contents cr') (\<lambda>c. op_in op (member_pts (contents cr) c) (member_pts b c))))
    \<and> (\<exists>r cr'. cr_invert (cr_default_realloc ok junk) cr = Some (r, cr') \<and> cr_wf cr'
      \<and> (r = 0 \<or> r = -1 \<and> \<not> ok)
      \<and> (r = 0 \<longrightarrow> denotes (contents cr') (\<lambda>c. c < 0xFFFFFFFF \<and> \<not> member_pts (contents cr) c)))
    \<and> cr_wf (cr_sort_and_remove_overlap u)
    \<and> denotes (contents (cr_sort_and_remove_overlap u)) (\<lambda>c. \<exists>(s, e) \<in> set (pairs_of (contents u)). s \<le> c \<and> c < e)"
  by (rule conjI [OF cr_set_operation [OF assms(1-5)] conjI [OF cr_complement [OF assms(1-3)] cr_overlaps [OF u]]])

theorem cr_set_algebra_witness:
  "(\<exists>r cr'. cr_op1 (cr_default_realloc True (\<lambda>_. 0)) [3, 9] CR_OP_SUB \<lparr>points = [1, 5, 7, 8], clen = 4, csize = 4\<rparr>
        = Some (r, cr', [1, 5, 7, 8]) \<and> r = 0 \<and> \<not> member_pts (contents cr') 4 \<and> member_pts (contents cr') 2)
   \<and> denotes (contents (cr_sort_and_remove_overlap \<lparr>points = [7, 9, 1, 4, 3, 8], clen = 6, csize = 6\<rparr>))
     (\<lambda>c. 1 \<le> c \<and> c < 4 \<or> 3 \<le> c \<and> c < 8 \<or> 7 \<le> c \<and> c < 9)"
proof -
  let ?cr = "\<lparr>points = [1, 5, 7, 8], clen = 4, csize = 4\<rparr> :: CharRange"
  let ?u = "\<lparr>points = [7, 9, 1, 4, 3, 8], clen = 6, csize = 6\<rparr> :: CharRange"
  have "cr_wf ?cr" "sorted (contents ?cr)" "even (clen ?cr)" "sorted [3, 9 :: u32]" "even (length [3, 9 :: u32])"
    "cr_wf ?u" "even (clen ?u)" "\<forall>(s, e) \<in> set (pairs_of (contents ?u)). s < e"
    by (simp_all add: cr_wf_def contents_def)
  from cr_set_algebra [OF this, of True "\<lambda>_. 0" CR_OP_SUB] show ?thesis
    by (auto simp: contents_def denotes_def member_pts_simps disj_ac)
qed

end
