(* ===== verification/CaseConv.thy ===== *)
theory CaseConv
  imports CaseTables
begin

text \<open>
  Case conversion of \<open>quickjs/libunicode.c\<close>: the binary search in the table of runs, the conversion
  by one entry, and the canonicalisation of regular expressions. A conversion is the list of
  the characters written to \<open>res\<close>; None is a read outside a table. Conversion types are 0 (to
  upper case), 1 (to lower case) and 2 (case folding).
\<close>

section \<open>Table entries\<close>

abbreviation (input) RUN_TYPE_U :: u32 where "RUN_TYPE_U \<equiv> 0"
abbreviation (input) RUN_TYPE_L :: u32 where "RUN_TYPE_L \<equiv> 1"
abbreviation (input) RUN_TYPE_UF :: u32 where "RUN_TYPE_UF \<equiv> 2"
abbreviation (input) RUN_TYPE_LF :: u32 where "RUN_TYPE_LF \<equiv> 3"
abbreviation (input) RUN_TYPE_UL :: u32 where "RUN_TYPE_UL \<equiv> 4"
abbreviation (input) RUN_TYPE_LSU :: u32 where "RUN_TYPE_LSU \<equiv> 5"
abbreviation (input) RUN_TYPE_U2L_399_EXT2 :: u32 where "RUN_TYPE_U2L_399_EXT2 \<equiv> 6"
abbreviation (input) RUN_TYPE_UF_D20 :: u32 where "RUN_TYPE_UF_D20 \<equiv> 7"
abbreviation (input) RUN_TYPE_UF_D1_EXT :: u32 where "RUN_TYPE_UF_D1_EXT \<equiv> 8"
abbreviation (input) RUN_TYPE_U_EXT :: u32 where "RUN_TYPE_U_EXT \<equiv> 9"
abbreviation (input) RUN_TYPE_LF_EXT :: u32 where "RUN_TYPE_LF_EXT \<equiv> 10"
abbreviation (input) RUN_TYPE_UF_EXT2 :: u32 where "RUN_TYPE_UF_EXT2 \<equiv> 11"
abbreviation (input) RUN_TYPE_LF_EXT2 :: u32 where "RUN_TYPE_LF_EXT2 \<equiv> 12"
abbreviation (input) RUN_TYPE_UF_EXT3 :: u32 where "RUN_TYPE_UF_EXT3 \<equiv> 13"

definition entry_code :: "u32 \<Rightarrow> u32" where "entry_code v = drop_bit (32 - 17) v"
definition entry_len :: "u32 \<Rightarrow> u32" where "entry_len v = drop_bit (32 - 17 - 7) v AND 0x7f"
definition entry_type :: "u32 \<Rightarrow> u32" where "entry_type v = drop_bit (32 - 17 - 7 - 4) v AND 0xf"

section \<open>Search\<close>

text \<open>The loop that \<open>lre_case_conv\<close>, \<open>lre_canonicalize\<close> and \<open>lre_is_cased\<close> share.\<close>

function case_search :: "u32 \<Rightarrow> int \<Rightarrow> int \<Rightarrow> (nat \<times> u32) option option" where
  "case_search c idx_min idx_max =
     (if idx_min \<le> idx_max
      then let idx = (idx_max + idx_min) div 2 in
        do {
          v \<leftarrow> rd case_conv_table1 (nat idx);
          if c < entry_code v then case_search c idx_min (idx - 1)
          else if c \<ge> entry_code v + entry_len v then case_search c (idx + 1) idx_max
          else Some (Some (nat idx, v))
        }
      else Some None)"
  by pat_completeness auto

termination
  by (relation "measure (\<lambda>(c, lo, hi). nat (hi - lo + 1))") auto

declare case_search.simps [simp del]

abbreviation case_lookup :: "u32 \<Rightarrow> (nat \<times> u32) option option" where
  "case_lookup c \<equiv> case_search c 0 (int (length case_conv_table1) - 1)"

section \<open>Conversion\<close>

definition ext :: "u32 \<Rightarrow> u32 option" where
  "ext i = map_option ucast (rd case_conv_ext (unat i))"

function lre_case_conv1 :: "u32 \<Rightarrow> u32 \<Rightarrow> u32 option"
  and lre_case_conv_entry :: "u32 \<Rightarrow> u32 \<Rightarrow> nat \<Rightarrow> u32 \<Rightarrow> u32 list option"
  and lre_case_conv :: "u32 \<Rightarrow> u32 \<Rightarrow> u32 list option" where
  "lre_case_conv1 c conv_type = do { res \<leftarrow> lre_case_conv c conv_type; rd res 0 }"
| "lre_case_conv_entry c conv_type idx v =
     (let is_lower = (if conv_type \<noteq> 0 then 1 else 0); type = entry_type v; code = entry_code v in
      do {
        d \<leftarrow> rd case_conv_table2 idx;
        let data = push_bit 8 (v AND 0xf) OR ucast d;
        if type = RUN_TYPE_U \<or> type = RUN_TYPE_L \<or> type = RUN_TYPE_UF \<or> type = RUN_TYPE_LF then
          if conv_type = type AND 1 \<or> type \<ge> RUN_TYPE_UF \<and> conv_type = 2
          then do { w \<leftarrow> rd case_conv_table1 (unat data); Some [c - code + drop_bit (32 - 17) w] }
          else Some [c]
        else if type = RUN_TYPE_UL then
          (let a = c - code in if a AND 1 \<noteq> 1 - is_lower then Some [c] else Some [(a XOR 1) + code])
        else if type = RUN_TYPE_LSU then
          (let a = c - code in
             if a = 1 then Some [c + (2 * is_lower - 1)]
             else if a = (1 - is_lower) * 2 then Some [c + (2 * is_lower - 1) * 2] else Some [c])
        else if type = RUN_TYPE_U2L_399_EXT2 then
          if is_lower = 0 then do { x \<leftarrow> ext (drop_bit 6 data); Some [c - code + x, 0x399] }
          else do { x \<leftarrow> ext (data AND 0x3f); Some [c - code + x] }
        else if type = RUN_TYPE_UF_D20 then
          if conv_type = 1 then Some [c] else Some [data + (if conv_type = 2 then 1 else 0) * 0x20]
        else if type = RUN_TYPE_UF_D1_EXT then
          if conv_type = 1 then Some [c] else do { x \<leftarrow> ext data; Some [x + (if conv_type = 2 then 1 else 0)] }
        else if type = RUN_TYPE_U_EXT \<or> type = RUN_TYPE_LF_EXT then
          if is_lower \<noteq> type - RUN_TYPE_U_EXT then Some [c] else do { x \<leftarrow> ext data; Some [x] }
        else if type = RUN_TYPE_LF_EXT2 then
          if is_lower = 0 then Some [c]
          else do { x \<leftarrow> ext (drop_bit 6 data); y \<leftarrow> ext (data AND 0x3f); Some [c - code + x, y] }
        else if type = RUN_TYPE_UF_EXT2 then
          if conv_type = 1 then Some [c]
          else do {
            x \<leftarrow> ext (drop_bit 6 data);
            y \<leftarrow> ext (data AND 0x3f);
            if conv_type = 2
            then do { x' \<leftarrow> lre_case_conv1 (c - code + x) 1; y' \<leftarrow> lre_case_conv1 y 1; Some [x', y'] }
            else Some [c - code + x, y]
          }
        else
          if conv_type = 1 then Some [c]
          else do {
            x \<leftarrow> ext (drop_bit 8 data);
            y \<leftarrow> ext (drop_bit 4 data AND 0xf);
            z \<leftarrow> ext (data AND 0xf);
            if conv_type = 2
            then do { x' \<leftarrow> lre_case_conv1 x 1; y' \<leftarrow> lre_case_conv1 y 1; z' \<leftarrow> lre_case_conv1 z 1; Some [x', y', z'] }
            else Some [x, y, z]
          }
      })"
| "lre_case_conv c conv_type =
     (if c < 128
      then Some [if conv_type \<noteq> 0 then (if 65 \<le> c \<and> c \<le> 90 then c - 65 + 97 else c)
                 else (if 97 \<le> c \<and> c \<le> 122 then c - 97 + 65 else c)]
      else do {
        r \<leftarrow> case_lookup c;
        case r of Some (idx, v) \<Rightarrow> lre_case_conv_entry c conv_type idx v | None \<Rightarrow> Some [c]
      })"
  by pat_completeness auto

text \<open>Only a case folding calls itself, to lower case.\<close>

termination
  by (relation "measure (case_sum (\<lambda>(c, t). if t = 2 then 5 else 2)
                  (case_sum (\<lambda>(c, t, idx, v). if t = 2 then 3 else 0) (\<lambda>(c, t). if t = 2 then 4 else 1)))") auto

declare lre_case_conv1.simps [simp del] lre_case_conv_entry.simps [simp del] lre_case_conv.simps [simp del]

section \<open>Canonicalisation\<close>

definition lre_case_folding_entry :: "u32 \<Rightarrow> nat \<Rightarrow> u32 \<Rightarrow> bool \<Rightarrow> u32 option" where
  "lre_case_folding_entry c idx v is_unicode =
     (if is_unicode
      then do {
        res \<leftarrow> lre_case_conv_entry c 2 idx v;
        if length res = 1 then rd res 0
        else if c = 0xfb06 then Some 0xfb05
        else if c = 0x01fd3 then Some 0x390
        else if c = 0x01fe3 then Some 0x3b0
        else Some c
      }
      else if c < 128 then Some (if 97 \<le> c \<and> c \<le> 122 then c - 97 + 65 else c)
      else do {
        res \<leftarrow> lre_case_conv_entry c 0 idx v;
        x \<leftarrow> rd res 0;
        Some (if length res = 1 \<and> x \<ge> 128 then x else c)
      })"

definition lre_canonicalize :: "u32 \<Rightarrow> bool \<Rightarrow> u32 option" where
  "lre_canonicalize c is_unicode =
     (if c < 128
      then Some (if is_unicode then (if 65 \<le> c \<and> c \<le> 90 then c - 65 + 97 else c)
                 else (if 97 \<le> c \<and> c \<le> 122 then c - 97 + 65 else c))
      else do {
        r \<leftarrow> case_lookup c;
        case r of Some (idx, v) \<Rightarrow> lre_case_folding_entry c idx v is_unicode | None \<Rightarrow> Some c
      })"

section \<open>The tables\<close>

text \<open>
  Checked entry by entry: the runs are disjoint, increasing and not empty, the runs that alternate between upper and
  lower case have an even length, and the data of an entry only refers to positions inside the
  tables that its type reads.
\<close>

definition entry_data :: "u32 \<Rightarrow> u8 \<Rightarrow> u32" where
  "entry_data v d = push_bit 8 (v AND 0xf) OR ucast d"

definition entry_ok :: "u32 \<Rightarrow> u8 \<Rightarrow> bool" where
  "entry_ok v d =
     (let ty = entry_type v; data = entry_data v d in
      if ty \<le> 3 then data < 378
      else if ty = 4 then entry_len v AND 1 = 0
      else if ty = 5 then entry_len v = 3
      else if ty = 6 \<or> ty = 11 \<or> ty = 12 then drop_bit 6 data < 58 \<and> data AND 0x3f < 58
      else if ty = 8 \<or> ty = 9 \<or> ty = 10 then data < 58
      else ty = 7 \<and> data \<le> 0xfff \<or> ty = 13 \<and> drop_bit 8 data < 58)"

fun entries_ok :: "u32 \<Rightarrow> u32 list \<Rightarrow> u8 list \<Rightarrow> bool" where
  "entries_ok e (v # vs) (d # ds) \<longleftrightarrow>
     e \<le> entry_code v \<and> 0 < entry_len v \<and> entry_ok v d \<and> entries_ok (entry_code v + entry_len v) vs ds"
| "entries_ok e vs ds \<longleftrightarrow> vs = [] \<and> ds = []"

lemma entries_ok_cong: "e = e' \<Longrightarrow> entries_ok e vs ds = entries_ok e' vs ds"
  by simp

lemma case_tables_ok: "entries_ok 0x41 case_conv_table1 case_conv_table2"
  unfolding case_conv_table1_def case_conv_table2_def
  by (simp cong: entries_ok_cong add: entry_ok_def entry_data_def entry_code_def entry_len_def entry_type_def)

end
