(* ===== verification/CaseConvCorrect.thy ===== *)
theory CaseConvCorrect
  imports CaseConv CBytes
begin

text \<open>
  Case conversion never reads outside a table and always returns; the binary search finds the one
  run that holds a character.
\<close>

section \<open>Entries\<close>

lemma entry_code_bound: "unat (entry_code v) < 2 ^ 17"
proof -
  have "unat (entry_code v) = unat v div 2 ^ 15"
    by (simp add: entry_code_def unat_shr)
  moreover have "unat v < 2 ^ 17 * 2 ^ 15" using unsigned_less [of v] by simp
  ultimately show ?thesis by (simp add: less_mult_imp_div_less)
qed

lemma entry_len_bound: "unat (entry_len v) < 128"
proof -
  have "unat (drop_bit 8 v AND 0x7f) \<le> unat (0x7f :: u32)" by (rule word_le_nat_alt [THEN iffD1]) (rule word_and_le1)
  then show ?thesis by (simp add: entry_len_def)
qed

lemma entry_end: "unat (entry_code v + entry_len v) = unat (entry_code v) + unat (entry_len v)"
proof -
  have "unat (entry_code v) + unat (entry_len v) < 2 ^ LENGTH(32)"
    using entry_code_bound [of v] entry_len_bound [of v] by simp
  then show ?thesis by (rule unat_add_lem [THEN iffD1])
qed

definition covers :: "u32 \<Rightarrow> u32 \<Rightarrow> bool" where
  "covers v c \<longleftrightarrow> entry_code v \<le> c \<and> c < entry_code v + entry_len v"

lemma covers_nat: "covers v c \<longleftrightarrow> unat (entry_code v) \<le> unat c \<and> unat c < unat (entry_code v) + unat (entry_len v)"
  by (simp add: covers_def word_le_nat_alt word_less_nat_alt entry_end)

lemma entries_ok_nth:
  "entries_ok e vs ds \<Longrightarrow> length ds = length vs
     \<and> (\<forall>i < length vs. unat e \<le> unat (entry_code (vs ! i)) \<and> 0 < unat (entry_len (vs ! i)) \<and> entry_ok (vs ! i) (ds ! i))
     \<and> (\<forall>i j. i < j \<longrightarrow> j < length vs \<longrightarrow>
          unat (entry_code (vs ! i)) + unat (entry_len (vs ! i)) \<le> unat (entry_code (vs ! j)))"
proof (induction e vs ds rule: entries_ok.induct)
  case (1 e v vs d ds)
  then have ih: "length ds = length vs"
     "\<forall>i < length vs. unat (entry_code v) + unat (entry_len v) \<le> unat (entry_code (vs ! i)) \<and> 0 < unat (entry_len (vs ! i)) \<and> entry_ok (vs ! i) (ds ! i)"
     "\<forall>i j. i < j \<longrightarrow> j < length vs \<longrightarrow> unat (entry_code (vs ! i)) + unat (entry_len (vs ! i)) \<le> unat (entry_code (vs ! j))"
    by (simp_all add: entry_end)
  have h: "unat e \<le> unat (entry_code v)" "0 < unat (entry_len v)" "entry_ok v d"
    using "1.prems" by (simp_all add: word_le_nat_alt word_less_nat_alt)
  show ?case
  proof (intro conjI allI impI)
    fix i assume "i < length (v # vs)"
    then show "unat e \<le> unat (entry_code ((v # vs) ! i))" "0 < unat (entry_len ((v # vs) ! i))"
      "entry_ok ((v # vs) ! i) ((d # ds) ! i)"
      using h ih(2) by (cases i; force)+
  next
    fix i j assume "i < j" "j < length (v # vs)"
    then show "unat (entry_code ((v # vs) ! i)) + unat (entry_len ((v # vs) ! i)) \<le> unat (entry_code ((v # vs) ! j))"
      using ih(2,3) by (cases i; cases j) auto
  qed (use ih in simp)
qed auto

lemma table_length: "length case_conv_table1 = 378" "length case_conv_table2 = 378" "length case_conv_ext = 58"
  by (simp_all add: case_conv_table1_def case_conv_table2_def case_conv_ext_def)

lemma table_entry:
  assumes "i < 378"
  shows "0 < unat (entry_len (case_conv_table1 ! i))" "entry_ok (case_conv_table1 ! i) (case_conv_table2 ! i)"
    "0x41 \<le> unat (entry_code (case_conv_table1 ! i))"
  using entries_ok_nth [OF case_tables_ok] assms by (simp_all add: table_length)

lemma table_order:
  "i < j \<Longrightarrow> j < 378 \<Longrightarrow> unat (entry_code (case_conv_table1 ! i)) + unat (entry_len (case_conv_table1 ! i))
      \<le> unat (entry_code (case_conv_table1 ! j))"
  using entries_ok_nth [OF case_tables_ok] by (simp add: table_length)

section \<open>Search\<close>

abbreviation T1 :: "u32 list" where "T1 \<equiv> case_conv_table1"

text \<open>Characters are in at most one run.\<close>

lemma covers_unique: "covers (T1 ! i) c \<Longrightarrow> covers (T1 ! j) c \<Longrightarrow> i < 378 \<Longrightarrow> j < 378 \<Longrightarrow> i = j"
  using table_order [of i j] table_order [of j i] by (cases i j rule: linorder_cases) (auto simp: covers_nat)

lemma case_search_ok:
  assumes "0 \<le> lo" "hi < 378" "lo \<le> hi + 1"
    and "\<forall>i. int i < lo \<longrightarrow> \<not> covers (T1 ! i) c" "\<forall>i < 378. hi < int i \<longrightarrow> \<not> covers (T1 ! i) c"
  shows "\<exists>r. case_search c lo hi = Some r
     \<and> (case r of None \<Rightarrow> \<forall>i < 378. \<not> covers (T1 ! i) c | Some (idx, v) \<Rightarrow> idx < 378 \<and> v = T1 ! idx \<and> covers v c)"
  using assms
proof (induction c lo hi rule: case_search.induct)
  case (1 c lo hi)
  show ?case
  proof (cases "lo \<le> hi")
    case False
    then have "case_search c lo hi = Some None" by (subst case_search.simps) simp
    moreover have "\<forall>i < 378. \<not> covers (T1 ! i) c" using "1.prems"(4,5) False by (metis leI le_less_trans linorder_not_le)
    ultimately show ?thesis by simp
  next
    case True
    let ?m = "(hi + lo) div 2"
    have m: "lo \<le> ?m" "?m \<le> hi" "0 \<le> ?m" using True "1.prems"(1) by auto
    define k where "k = nat ?m"
    have k: "?m = int k" "k < 378" using m "1.prems"(2) by (auto simp: k_def)
    have nk: "nat ?m = k" by (simp add: k_def)
    have rdk: "rd T1 k = Some (T1 ! k)" using k(2) by (simp add: table_length)
    have step: "case_search c lo hi =
        (if c < entry_code (T1 ! k) then case_search c lo (?m - 1)
         else if c \<ge> entry_code (T1 ! k) + entry_len (T1 ! k) then case_search c (?m + 1) hi
         else Some (Some (k, T1 ! k)))"
      by (subst case_search.simps) (simp only: True if_True Let_def nk rdk Option.bind.simps)
    consider (below) "c < entry_code (T1 ! k)"
      | (above) "\<not> c < entry_code (T1 ! k)" "c \<ge> entry_code (T1 ! k) + entry_len (T1 ! k)"
      | (hit) "covers (T1 ! k) c" unfolding covers_def by (meson leI)
    then show ?thesis
    proof cases
      case below
      have "\<not> covers (T1 ! i) c" if "i < 378" "?m - 1 < int i" for i
        using that below k table_order [of k i] by (cases "i = k") (auto simp: covers_nat word_less_nat_alt)
      then show ?thesis
        using "1.IH"(1) [OF True refl rdk [folded nk] below [folded nk]] "1.prems" m step below by simp
    next
      case above
      have "\<not> covers (T1 ! i) c" if "int i < ?m + 1" for i
        using that above k table_order [of i k] by (cases "i = k") (auto simp: covers_nat word_le_nat_alt entry_end)
      then show ?thesis
        using "1.IH"(2) [OF True refl rdk [folded nk] above [folded nk]] "1.prems" m step above by simp
    next
      case hit
      then have "case_search c lo hi = Some (Some (k, T1 ! k))" using step by (auto simp: covers_def not_less)
      then show ?thesis using hit k by simp
    qed
  qed
qed

lemma case_lookup_ok:
  "\<exists>r. case_lookup c = Some r
     \<and> (case r of None \<Rightarrow> \<forall>i < 378. \<not> covers (T1 ! i) c | Some (idx, v) \<Rightarrow> idx < 378 \<and> v = T1 ! idx \<and> covers v c)"
  using case_search_ok [of 0 377 c] by (simp add: table_length)

lemma case_lookup_iff:
  "case_lookup c = Some (Some (idx, v)) \<longleftrightarrow> idx < 378 \<and> v = T1 ! idx \<and> covers v c"
  "case_lookup c = Some None \<longleftrightarrow> (\<forall>i < 378. \<not> covers (T1 ! i) c)"
proof -
  obtain r where r: "case_lookup c = Some r"
    "case r of None \<Rightarrow> \<forall>i < 378. \<not> covers (T1 ! i) c | Some (idx, v) \<Rightarrow> idx < 378 \<and> v = T1 ! idx \<and> covers v c"
    using case_lookup_ok [of c] by blast
  show "case_lookup c = Some (Some (idx, v)) \<longleftrightarrow> idx < 378 \<and> v = T1 ! idx \<and> covers v c"
    using r covers_unique [of idx c] by (cases r) auto
  show "case_lookup c = Some None \<longleftrightarrow> (\<forall>i < 378. \<not> covers (T1 ! i) c)"
    using r by (cases r) auto
qed

section \<open>No read outside a table\<close>

lemma ext_Some: "i < 58 \<Longrightarrow> \<exists>x. ext i = Some x"
  by (simp add: ext_def rd_def table_length word_less_nat_alt)

lemma u32_le_3: "(x :: u32) \<le> 3 \<Longrightarrow> x = 0 \<or> x = 1 \<or> x = 2 \<or> x = 3"
proof -
  assume "x \<le> 3"
  then have "unat x \<le> 3" by (simp add: word_le_nat_alt)
  then have "unat x = 0 \<or> unat x = 1 \<or> unat x = 2 \<or> unat x = 3" by linarith
  then show ?thesis by (simp add: word_unat_eq_iff)
qed

lemma small_and: "(x :: u32) AND 0xf < 58" "x AND 0x3f \<le> 0x3f"
proof -
  have "x AND 0xf \<le> 0xf" by (rule word_and_le1)
  then show "x AND 0xf < 58" by (rule order_le_less_trans) simp
qed (rule word_and_le1)

text \<open>What a checked entry reads, by its type.\<close>

lemma entry_kinds:
  assumes "entry_ok v d"
  obtains (simple) "entry_type v \<in> {0, 1, 2, 3}" "entry_data v d < 378"
  | (UL) "entry_type v = 4" "entry_len v AND 1 = 0"
  | (LSU) "entry_type v = 5" "entry_len v = 3"
  | (U2L) "entry_type v = 6" "drop_bit 6 (entry_data v d) < 58" "entry_data v d AND 0x3f < 58"
  | (D20) "entry_type v = 7" "entry_data v d \<le> 0xfff"
  | (D1) "entry_type v = 8" "entry_data v d < 58"
  | (EXT) "entry_type v = 9 \<or> entry_type v = 10" "entry_data v d < 58"
  | (UF2) "entry_type v = 11" "drop_bit 6 (entry_data v d) < 58" "entry_data v d AND 0x3f < 58"
  | (LF2) "entry_type v = 12" "drop_bit 6 (entry_data v d) < 58" "entry_data v d AND 0x3f < 58"
  | (UF3) "entry_type v = 13" "drop_bit 8 (entry_data v d) < 58"
  using assms u32_le_3 [of "entry_type v"] unfolding entry_ok_def Let_def
  by (auto split: if_splits)

lemmas conv_entry_def = lre_case_conv_entry.simps [folded entry_data_def]

definition good :: "u32 list option \<Rightarrow> bool" where
  "good r \<longleftrightarrow> (\<exists>res. r = Some res \<and> length res \<in> {1, 2, 3})"

lemma good_simps [simp]:
  "good (Some [x])" "good (Some [x, y])" "good (Some [x, y, z])" "\<not> good None"
  by (simp_all add: good_def)

lemma conv_entry_good:
  assumes idx: "idx < 378" and lower: "conv_type = 2 \<Longrightarrow> \<forall>x. \<exists>y. lre_case_conv1 x 1 = Some y"
  shows "good (lre_case_conv_entry c conv_type idx (T1 ! idx))"
proof -
  let ?v = "T1 ! idx" and ?d = "case_conv_table2 ! idx"
  have rd2: "rd case_conv_table2 idx = Some ?d" using idx by (simp add: table_length)
  have T: "rd T1 (unat i) = Some (T1 ! unat i)" if "i < 378" for i :: u32
    using that by (simp add: table_length word_less_nat_alt)
  have e: "entry_ok ?v ?d" using table_entry idx by blast
  from e show ?thesis
  proof (cases ?v ?d rule: entry_kinds)
    case simple
    then show ?thesis unfolding conv_entry_def Let_def rd2 by (auto simp: T)
  next
    case UL
    then show ?thesis unfolding conv_entry_def Let_def rd2 by simp
  next
    case LSU
    then show ?thesis unfolding conv_entry_def Let_def rd2 by simp
  next
    case U2L
    then obtain x y where "ext (drop_bit 6 (entry_data ?v ?d)) = Some x" "ext (entry_data ?v ?d AND 0x3f) = Some y"
      using ext_Some by blast
    then show ?thesis unfolding conv_entry_def Let_def rd2 using U2L by simp
  next
    case D20
    then show ?thesis unfolding conv_entry_def Let_def rd2 by simp
  next
    case D1
    then obtain x where "ext (entry_data ?v ?d) = Some x" using ext_Some by blast
    then show ?thesis unfolding conv_entry_def Let_def rd2 using D1 by simp
  next
    case EXT
    then obtain x where "ext (entry_data ?v ?d) = Some x" using ext_Some by blast
    then show ?thesis unfolding conv_entry_def Let_def rd2 using EXT by auto
  next
    case UF2
    then obtain x y where "ext (drop_bit 6 (entry_data ?v ?d)) = Some x" "ext (entry_data ?v ?d AND 0x3f) = Some y"
      using ext_Some by blast
    moreover obtain f where "conv_type = 2 \<Longrightarrow> lre_case_conv1 x 1 = Some (f x)" for x using lower by metis
    ultimately show ?thesis unfolding conv_entry_def Let_def rd2 using UF2 by simp
  next
    case LF2
    then obtain x y where "ext (drop_bit 6 (entry_data ?v ?d)) = Some x" "ext (entry_data ?v ?d AND 0x3f) = Some y"
      using ext_Some by blast
    then show ?thesis unfolding conv_entry_def Let_def rd2 using LF2 by simp
  next
    case UF3
    then obtain x y z where "ext (drop_bit 8 (entry_data ?v ?d)) = Some x"
        "ext (drop_bit 4 (entry_data ?v ?d) AND 0xf) = Some y" "ext (entry_data ?v ?d AND 0xf) = Some z"
      using ext_Some small_and(1) by metis
    moreover obtain f where "conv_type = 2 \<Longrightarrow> lre_case_conv1 x 1 = Some (f x)" for x using lower by metis
    ultimately show ?thesis unfolding conv_entry_def Let_def rd2 using UF3 by simp
  qed
qed

lemma conv_good:
  assumes "conv_type = 2 \<Longrightarrow> \<forall>x. \<exists>y. lre_case_conv1 x 1 = Some y"
  shows "good (lre_case_conv c conv_type)"
proof (cases "c < 128")
  case False
  obtain r where r: "case_lookup c = Some r"
    "case r of None \<Rightarrow> \<forall>i < 378. \<not> covers (T1 ! i) c | Some (idx, v) \<Rightarrow> idx < 378 \<and> v = T1 ! idx \<and> covers v c"
    using case_lookup_ok [of c] by blast
  then show ?thesis
    using False conv_entry_good [OF _ assms] by (cases r) (auto simp: lre_case_conv.simps)
qed (simp add: lre_case_conv.simps)

lemma lower_total: "\<exists>y. lre_case_conv1 c 1 = Some y"
  using conv_good [of 1 c] by (auto simp: lre_case_conv1.simps good_def rd_def)

lemma folding_entry_total: "idx < 378 \<Longrightarrow> \<exists>y. lre_case_folding_entry c idx (T1 ! idx) is_unicode = Some y"
  using conv_entry_good [of idx 2 c] conv_entry_good [of idx 0 c] lower_total
  by (auto simp: lre_case_folding_entry_def good_def rd_def)

section \<open>The size of the result\<close>

text \<open>All characters that a conversion can produce from a character below 2 to the 18 are below it.\<close>

definition small :: "u32 \<Rightarrow> bool" where
  "small x \<longleftrightarrow> unat x < 2 ^ 18"

lemma unat_add_le: "unat (a + b :: u32) \<le> unat a + unat b"
  by (simp add: unat_word_ariths)

lemma small_add: "unat (a :: u32) < 2 ^ 17 \<Longrightarrow> unat b < 2 ^ 17 \<Longrightarrow> small (a + b)"
  using unat_add_le [of a b] by (simp add: small_def)

lemma small_sub: "(b :: u32) \<le> a \<Longrightarrow> small a \<Longrightarrow> small (a - b)"
  by (simp add: small_def unat_sub word_le_nat_alt)

lemma ext_small: "ext i = Some x \<Longrightarrow> unat x < 2 ^ 16"
proof -
  assume "ext i = Some x"
  then obtain w :: u16 where "x = ucast w" by (auto simp: ext_def)
  moreover have "unat (ucast w :: u32) = unat w" by transfer (simp add: take_bit_int_eq_self_iff)
  moreover have "unat w < 2 ^ LENGTH(16)" by (rule unsigned_less)
  ultimately show ?thesis by simp
qed

lemma offset_nat: "covers v c \<Longrightarrow> unat (c - entry_code v) = unat c - unat (entry_code v) \<and> unat (c - entry_code v) < 128"
  using entry_len_bound [of v] by (auto simp: covers_nat unat_sub word_le_nat_alt)

lemma covers_small: "covers v c \<Longrightarrow> unat c < 2 ^ 17 + 127"
  using entry_code_bound [of v] entry_len_bound [of v] by (auto simp: covers_nat)

definition good_small :: "u32 list option \<Rightarrow> bool" where
  "good_small r \<longleftrightarrow> (\<exists>res. r = Some res \<and> length res \<in> {1, 2, 3} \<and> (\<forall>x \<in> set res. small x))"

lemma good_small_simps [simp]:
  "good_small (Some [x]) = small x" "good_small (Some [x, y]) = (small x \<and> small y)"
  "good_small (Some [x, y, z]) = (small x \<and> small y \<and> small z)" "\<not> good_small None"
  by (auto simp: good_small_def)

lemma xor_1_small: "unat (a :: u32) < 128 \<Longrightarrow> unat (a XOR 1) < 129"
proof -
  assume a: "unat a < 128"
  show ?thesis
  proof (cases "even a")
    case True
    then have "a XOR 1 = a + 1" by (simp add: xor_one_eq)
    then show ?thesis using unat_add_le [of a 1] a by simp
  next
    case False
    then have "a \<noteq> 0" by auto
    then have "unat (a - 1) = unat a - 1" by (simp add: unat_sub word_le_nat_alt unat_gt_0 Suc_le_eq)
    moreover have "a XOR 1 = a - 1" using False by (simp add: xor_one_eq)
    ultimately show ?thesis using a by simp
  qed
qed

lemma conv_entry_small:
  assumes idx: "idx < 378" and c: "covers (T1 ! idx) c"
    and lower: "conv_type = 2 \<Longrightarrow> \<forall>x. small x \<longrightarrow> (\<exists>y. lre_case_conv1 x 1 = Some y \<and> small y)"
  shows "good_small (lre_case_conv_entry c conv_type idx (T1 ! idx))"
proof -
  let ?v = "T1 ! idx" and ?d = "case_conv_table2 ! idx"
  let ?a = "c - entry_code ?v"
  have rd2: "rd case_conv_table2 idx = Some ?d" using idx by (simp add: table_length)
  have T: "rd T1 (unat i) = Some (T1 ! unat i)" if "i < 378" for i :: u32
    using that by (simp add: table_length word_less_nat_alt)
  have sc: "small c" using covers_small [OF c] by (simp add: small_def)
  have a: "unat ?a < 128" using offset_nat [OF c] by simp
  have code: "unat (entry_code w) < 2 ^ 17" for w by (rule entry_code_bound)
  have se: "small x" "small (?a + x)" if "ext i = Some x" for i x
    using ext_small [OF that] a unat_add_le [of ?a x] by (auto simp: small_def)
  have e: "entry_ok ?v ?d" using table_entry idx by blast
  from e show ?thesis
  proof (cases ?v ?d rule: entry_kinds)
    case simple
    have "small (?a + entry_code (T1 ! k))" for k using small_add [of ?a] a code by auto
    then show ?thesis using simple sc unfolding conv_entry_def Let_def rd2 by (auto simp: T entry_code_def)
  next
    case UL
    have "small ((?a XOR 1) + entry_code ?v)" using small_add [of "?a XOR 1"] xor_1_small [OF a] code by auto
    then show ?thesis using UL sc unfolding conv_entry_def Let_def rd2 by simp
  next
    case LSU
    have "small (c + 1)" "small (c + 2)"
      using covers_small [OF c] unat_add_le [of c 1] unat_add_le [of c 2] by (simp_all add: small_def)
    moreover have "small (c - 1)" if "?a = 1"
      using that offset_nat [OF c] c sc by (intro small_sub) (auto simp: word_le_nat_alt covers_nat)
    moreover have "small (c - 2)" if "?a = 2"
      using that offset_nat [OF c] c sc by (intro small_sub) (auto simp: word_le_nat_alt covers_nat)
    ultimately show ?thesis using LSU sc unfolding conv_entry_def Let_def rd2 by auto
  next
    case U2L
    then obtain x y where "ext (drop_bit 6 (entry_data ?v ?d)) = Some x" "ext (entry_data ?v ?d AND 0x3f) = Some y"
      using ext_Some by blast
    then show ?thesis using U2L se unfolding conv_entry_def Let_def rd2 by (simp add: small_def)
  next
    case D20
    then have "unat (entry_data ?v ?d) \<le> 0xfff" by (simp add: word_le_nat_alt)
    then have "small (entry_data ?v ?d)" "small (entry_data ?v ?d + 0x20)"
      using unat_add_le [of "entry_data ?v ?d" "0x20"] by (auto simp: small_def)
    then show ?thesis using D20 sc unfolding conv_entry_def Let_def rd2 by simp
  next
    case D1
    then obtain x where x: "ext (entry_data ?v ?d) = Some x" using ext_Some by blast
    then have "small x" "small (x + 1)" using ext_small [OF x] unat_add_le [of x 1] by (auto simp: small_def)
    then show ?thesis using D1 x sc unfolding conv_entry_def Let_def rd2 by simp
  next
    case EXT
    then obtain x where "ext (entry_data ?v ?d) = Some x" using ext_Some by blast
    then show ?thesis using EXT sc se unfolding conv_entry_def Let_def rd2 by auto
  next
    case UF2
    then obtain x y where "ext (drop_bit 6 (entry_data ?v ?d)) = Some x" "ext (entry_data ?v ?d AND 0x3f) = Some y"
      using ext_Some by blast
    moreover obtain f where "conv_type = 2 \<Longrightarrow> small x \<Longrightarrow> lre_case_conv1 x 1 = Some (f x) \<and> small (f x)" for x
      using lower by metis
    ultimately show ?thesis using UF2 sc se unfolding conv_entry_def Let_def rd2 by simp
  next
    case LF2
    then obtain x y where "ext (drop_bit 6 (entry_data ?v ?d)) = Some x" "ext (entry_data ?v ?d AND 0x3f) = Some y"
      using ext_Some by blast
    then show ?thesis using LF2 sc se unfolding conv_entry_def Let_def rd2 by simp
  next
    case UF3
    then obtain x y z where "ext (drop_bit 8 (entry_data ?v ?d)) = Some x"
        "ext (drop_bit 4 (entry_data ?v ?d) AND 0xf) = Some y" "ext (entry_data ?v ?d AND 0xf) = Some z"
      using ext_Some small_and(1) by metis
    moreover obtain f where "conv_type = 2 \<Longrightarrow> small x \<Longrightarrow> lre_case_conv1 x 1 = Some (f x) \<and> small (f x)" for x
      using lower by metis
    ultimately show ?thesis using UF3 sc se unfolding conv_entry_def Let_def rd2 by simp
  qed
qed

lemma conv_small:
  assumes "conv_type = 2 \<Longrightarrow> \<forall>x. small x \<longrightarrow> (\<exists>y. lre_case_conv1 x 1 = Some y \<and> small y)" "small c"
  shows "good_small (lre_case_conv c conv_type)"
proof (cases "c < 128")
  case True
  then have "unat c < 128" by (simp add: word_less_nat_alt)
  then have "small (32 + c)" "97 \<le> c \<Longrightarrow> small (c - 32)"
    using unat_add_le [of 32 c] assms(2) by (auto simp: small_def unat_sub word_le_nat_alt)
  then show ?thesis using True assms(2) by (auto simp: lre_case_conv.simps)
next
  case False
  obtain r where r: "case_lookup c = Some r"
    "case r of None \<Rightarrow> \<forall>i < 378. \<not> covers (T1 ! i) c | Some (idx, v) \<Rightarrow> idx < 378 \<and> v = T1 ! idx \<and> covers v c"
    using case_lookup_ok [of c] by blast
  then show ?thesis
    using False conv_entry_small [OF _ _ assms(1)] assms(2) by (cases r) (auto simp: lre_case_conv.simps)
qed

lemma lower_small: "small c \<Longrightarrow> \<exists>y. lre_case_conv1 c 1 = Some y \<and> small y"
proof -
  assume c: "small c"
  have "good_small (lre_case_conv c 1)" using conv_small [of 1 c] c by simp
  then show ?thesis by (auto simp: lre_case_conv1.simps good_small_def rd_def)
qed

lemma folding_entry_small:
  assumes "idx < 378" "covers (T1 ! idx) c"
  shows "\<exists>y. lre_case_folding_entry c idx (T1 ! idx) is_unicode = Some y \<and> small y"
proof -
  have g: "good_small (lre_case_conv_entry c 2 idx (T1 ! idx))" "good_small (lre_case_conv_entry c 0 idx (T1 ! idx))"
    using conv_entry_small [OF assms] lower_small by auto
  have sc: "small c" using covers_small [OF assms(2)] by (simp add: small_def)
  have "97 \<le> c \<Longrightarrow> small (c - 32)" using sc by (intro small_sub) (auto simp: word_le_nat_alt)
  with g sc show ?thesis
    by (auto simp: lre_case_folding_entry_def good_small_def rd_def small_def)
qed

end
