(* ===== verification/CharFold.thy ===== *)
theory CharFold
  imports CharRangeCorrect CaseConvCorrect
begin

text \<open>
  Character sets under case conversion, \<open>quickjs/libunicode.c\<close>: \<open>unicode_case1\<close>, the set of the
  characters that a conversion changes, and \<open>cr_regexp_canonicalize\<close>, which replaces a set by
  the set of its canonical characters.
\<close>

section \<open>The characters a conversion changes\<close>

abbreviation (input) CASE_U :: u32 where "CASE_U \<equiv> 1"
abbreviation (input) CASE_L :: u32 where "CASE_L \<equiv> 2"
abbreviation (input) CASE_F :: u32 where "CASE_F \<equiv> 4"

definition MR :: "u32 \<Rightarrow> u32" where "MR ty = push_bit (unat ty) 1"

definition tab_run_mask :: "u32 list" where
  "tab_run_mask =
     [MR RUN_TYPE_U OR MR RUN_TYPE_UF OR MR RUN_TYPE_UL OR MR RUN_TYPE_LSU OR MR RUN_TYPE_U2L_399_EXT2 OR
        MR RUN_TYPE_UF_D20 OR MR RUN_TYPE_UF_D1_EXT OR MR RUN_TYPE_U_EXT OR MR RUN_TYPE_UF_EXT2 OR MR RUN_TYPE_UF_EXT3,
      MR RUN_TYPE_L OR MR RUN_TYPE_LF OR MR RUN_TYPE_UL OR MR RUN_TYPE_LSU OR MR RUN_TYPE_U2L_399_EXT2 OR
        MR RUN_TYPE_LF_EXT OR MR RUN_TYPE_LF_EXT2,
      MR RUN_TYPE_UF OR MR RUN_TYPE_LF OR MR RUN_TYPE_UL OR MR RUN_TYPE_LSU OR MR RUN_TYPE_U2L_399_EXT2 OR
        MR RUN_TYPE_LF_EXT OR MR RUN_TYPE_LF_EXT2 OR MR RUN_TYPE_UF_D20 OR MR RUN_TYPE_UF_D1_EXT OR
        MR RUN_TYPE_LF_EXT OR MR RUN_TYPE_UF_EXT2 OR MR RUN_TYPE_UF_EXT3]"

text \<open>The union of the rows whose bit is set in \<open>case_mask\<close>.\<close>

definition run_mask :: "u32 \<Rightarrow> u32" where
  "run_mask case_mask =
     foldl (\<lambda>m i. if drop_bit i case_mask AND 1 \<noteq> 0 then m OR tab_run_mask ! i else m) 0 [0, 1, 2]"

text \<open>The intervals that one entry adds, in order; \<open>upper_only\<close> is the case without \<open>def_case\<close>.\<close>

definition case1_intervals :: "u32 \<Rightarrow> u32 \<Rightarrow> (u32 \<times> u32) list" where
  "case1_intervals case_mask v =
     (let ty = entry_type v; code = entry_code v; len = entry_len v;
          def_case = [(code, code + len)];
          both = case_mask AND CASE_U \<noteq> 0 \<and> case_mask AND (CASE_L OR CASE_F) \<noteq> 0
      in if ty = RUN_TYPE_UL then
           if both then def_case
           else let code' = code + (if case_mask AND CASE_U \<noteq> 0 then 1 else 0)
                in map (\<lambda>i. (code' + word_of_nat (2 * i), code' + word_of_nat (2 * i) + 1)) [0..<(unat len + 1) div 2]
         else if ty = RUN_TYPE_LSU then
           if both then def_case
           else (if case_mask AND CASE_U = 0 then [(code, code + 1)] else [])
                @ [(code + 1, code + 2)]
                @ (if case_mask AND CASE_U \<noteq> 0 then [(code + 2, code + 3)] else [])
         else def_case)"

fun add_intervals :: "points_realloc \<Rightarrow> (u32 \<times> u32) list \<Rightarrow> CharRange \<Rightarrow> (int \<times> CharRange) option" where
  "add_intervals rf [] cr = Some (0, cr)"
| "add_intervals rf ((s, e) # ps) cr =
     do { (r, cr1) \<leftarrow> cr_add_interval rf s e cr; if r \<noteq> 0 then Some (-1, cr1) else add_intervals rf ps cr1 }"

fun case1_loop :: "points_realloc \<Rightarrow> u32 \<Rightarrow> u32 \<Rightarrow> u32 list \<Rightarrow> CharRange \<Rightarrow> (int \<times> CharRange) option" where
  "case1_loop rf case_mask masked [] cr = Some (0, cr)"
| "case1_loop rf case_mask masked (v # vs) cr =
     (if drop_bit (unat (entry_type v)) masked AND 1 \<noteq> 0
      then do {
        (r, cr1) \<leftarrow> add_intervals rf (case1_intervals case_mask v) cr;
        if r \<noteq> 0 then Some (-1, cr1) else case1_loop rf case_mask masked vs cr1
      }
      else case1_loop rf case_mask masked vs cr)"

definition unicode_case1 :: "points_realloc \<Rightarrow> u32 \<Rightarrow> CharRange \<Rightarrow> (int \<times> CharRange) option" where
  "unicode_case1 rf case_mask cr =
     (if case_mask = 0 then Some (0, cr) else case1_loop rf case_mask (run_mask case_mask) case_conv_table1 cr)"

section \<open>Canonicalisation of a set\<close>

text \<open>The inner search for the entry of \<open>c\<close>; None is the failed assertion at the end of the table.\<close>

function seek_entry :: "u32 \<Rightarrow> nat \<Rightarrow> nat option" where
  "seek_entry c idx =
     (if idx < length case_conv_table1
      then let v = case_conv_table1 ! idx in
        if c \<ge> entry_code v \<and> c < entry_code v + entry_len v then Some idx else seek_entry c (idx + 1)
      else None)"
  by pat_completeness auto

termination
  by (relation "measure (\<lambda>(c, idx). length case_conv_table1 - idx)") auto

declare seek_entry.simps [simp del]

text \<open>One character: the state is \<open>idx\<close>, \<open>d_start\<close>, \<open>d_end\<close> and \<open>cr_result\<close>. The code ignores
  the result of this \<open>cr_add_interval\<close>.\<close>

type_synonym fold_state = "nat \<times> u32 \<times> u32 \<times> CharRange"

definition fold_char :: "points_realloc \<Rightarrow> bool \<Rightarrow> u32 \<Rightarrow> fold_state \<Rightarrow> fold_state option" where
  "fold_char rf is_unicode c st =
     (let (idx, d_start, d_end, cr_result) = st in
      do {
        idx' \<leftarrow> seek_entry c idx;
        d \<leftarrow> lre_case_folding_entry c idx' (case_conv_table1 ! idx') is_unicode;
        if d_start = 0xFFFFFFFF then Some (idx', d, d + 1, cr_result)
        else if d_end = d then Some (idx', d_start, d_end + 1, cr_result)
        else do {
          (r, cr') \<leftarrow> cr_add_interval rf d_start d_end cr_result;
          Some (idx', d, d + 1, cr')
        }
      })"

lemma unat_Suc_less: "(c :: u32) < e \<Longrightarrow> unat (c + 1) = Suc (unat c)"
proof -
  assume "c < e"
  moreover have "unat e < 2 ^ LENGTH(32)" by (rule unsigned_less)
  ultimately have "unat c + 1 < 2 ^ 32" by (simp add: word_less_nat_alt)
  then show ?thesis by (simp add: unat_word_ariths)
qed

function fold_chars :: "points_realloc \<Rightarrow> bool \<Rightarrow> u32 \<Rightarrow> u32 \<Rightarrow> fold_state \<Rightarrow> fold_state option" where
  "fold_chars rf is_unicode c e st =
     (if c < e then do { st' \<leftarrow> fold_char rf is_unicode c st; fold_chars rf is_unicode (c + 1) e st' } else Some st)"
  by pat_completeness auto

termination
  by (relation "measure (\<lambda>(rf, u, c, e, st). unat e - unat c)") (auto simp: unat_Suc_less word_less_nat_alt)

declare fold_chars.simps [simp del]

fun fold_ranges :: "points_realloc \<Rightarrow> bool \<Rightarrow> (u32 \<times> u32) list \<Rightarrow> fold_state \<Rightarrow> fold_state option" where
  "fold_ranges rf is_unicode [] st = Some st"
| "fold_ranges rf is_unicode ((s, e) # ps) st =
     do { st' \<leftarrow> fold_chars rf is_unicode s e st; fold_ranges rf is_unicode ps st' }"

text \<open>\<open>points_in cr\<close> are the points and their number as an argument of \<open>cr_op\<close>.\<close>

abbreviation points_in :: "CharRange \<Rightarrow> u32 list" where
  "points_in cr \<equiv> take (clen cr) (points cr)"

definition cr_regexp_canonicalize :: "points_realloc \<Rightarrow> bool \<Rightarrow> CharRange \<Rightarrow> (int \<times> CharRange) option" where
  "cr_regexp_canonicalize rf is_unicode cr =
     do {
       (r1, cr_mask) \<leftarrow> unicode_case1 rf (if is_unicode then CASE_F else CASE_U) cr_init;
       if r1 \<noteq> 0 then Some (-1, cr) else do {
       (r2, cr_inter) \<leftarrow> cr_op rf (points_in cr_mask) (points_in cr) CR_OP_INTER cr_init;
       if r2 \<noteq> 0 then Some (-1, cr) else do {
       (r3, cr_mask') \<leftarrow> cr_invert rf cr_mask;
       if r3 \<noteq> 0 then Some (-1, cr) else do {
       (r4, cr_sub) \<leftarrow> cr_op rf (points_in cr_mask') (points_in cr) CR_OP_INTER cr_init;
       if r4 \<noteq> 0 then Some (-1, cr) else do {
       (idx, d_start, d_end, cr_result) \<leftarrow> fold_ranges rf is_unicode (pairs_of (points_in cr_inter)) (0, 0xFFFFFFFF, 0xFFFFFFFF, cr_init);
       (r5, cr_result') \<leftarrow> (if d_start \<noteq> 0xFFFFFFFF then cr_add_interval rf d_start d_end cr_result else Some (0, cr_result));
       if r5 \<noteq> 0 then Some (-1, cr) else do {
       (r6, cr') \<leftarrow> cr_op rf (points_in (cr_sort_and_remove_overlap cr_result')) (points_in cr_sub) CR_OP_UNION (cr\<lparr>clen := 0\<rparr>);
       if r6 \<noteq> 0 then Some (-1, cr') else Some (0, cr') }}}}}
     }"

end
