(* ===== verification/CharFoldCorrect.thy ===== *)
theory CharFoldCorrect
  imports CharFold
begin

text \<open>
  \<open>cr_regexp_canonicalize\<close> computes the image of a set under \<open>lre_canonicalize\<close>.
\<close>

section \<open>The intervals of an entry\<close>

text \<open>The characters of an entry that the conversion of \<open>case_mask\<close> may change.\<close>

definition in_run :: "u32 \<Rightarrow> u32 \<Rightarrow> u32 \<Rightarrow> bool" where
  "in_run case_mask v c \<longleftrightarrow> covers v c
     \<and> (entry_type v = 4 \<longrightarrow> odd (unat c - unat (entry_code v)) = (case_mask = 1))
     \<and> (entry_type v = 5 \<longrightarrow> unat c - unat (entry_code v) \<noteq> (if case_mask = 1 then 0 else 2))"

lemma even_and_1: "(x :: u32) AND 1 = 0 \<longleftrightarrow> even (unat x)"
  by (simp add: and_one_eq even_iff_mod_2_eq_zero unat_eq_0 [symmetric] unat_mod)

lemma code_plus:
  assumes "n < 256"
  shows "unat (entry_code v + word_of_nat n) = unat (entry_code v) + n"
proof -
  have n: "unat (word_of_nat n :: u32) = n" using assms by (intro unat_small) simp
  then have "unat (entry_code v) + unat (word_of_nat n :: u32) < 2 ^ LENGTH(32)"
    using entry_code_bound [of v] assms by simp
  then show ?thesis using unat_add_lem [THEN iffD1] n by metis
qed

text \<open>The points of the intervals are increasing and inside the run.\<close>

definition within :: "nat \<Rightarrow> nat \<Rightarrow> (u32 \<times> u32) list \<Rightarrow> bool" where
  "within a b ps \<longleftrightarrow> sorted (points_of ps) \<and> (\<forall>(s, e) \<in> set ps. s < e \<and> a \<le> unat s \<and> unat e \<le> b)"

lemma points_of_append [simp]: "points_of (ps @ qs) = points_of ps @ points_of qs"
  by (simp add: points_of_def)

lemma within_Nil [simp]: "within a b []"
  by (simp add: within_def)

lemma within_single: "s < e \<Longrightarrow> a \<le> unat s \<Longrightarrow> unat e \<le> b \<Longrightarrow> within a b [(s, e)]"
  by (simp add: within_def)

lemma within_points: "within a b ps \<Longrightarrow> x \<in> set (points_of ps) \<Longrightarrow> a \<le> unat x \<and> unat x \<le> b"
  by (fastforce simp: within_def points_of_def word_less_nat_alt)

lemma within_append: "within a b ps \<Longrightarrow> within b c qs \<Longrightarrow> a \<le> b \<Longrightarrow> b \<le> c \<Longrightarrow> within a c (ps @ qs)"
proof -
  assume w: "within a b ps" "within b c qs" "a \<le> b" "b \<le> c"
  have "x \<le> y" if "x \<in> set (points_of ps)" "y \<in> set (points_of qs)" for x y
    using within_points [OF w(1) that(1)] within_points [OF w(2) that(2)] by (simp add: word_le_nat_alt)
  then have "sorted (points_of (ps @ qs))" using w(1,2) by (auto simp: within_def sorted_append)
  then show ?thesis using w by (fastforce simp: within_def)
qed

lemma within_mono: "within a b ps \<Longrightarrow> a' \<le> a \<Longrightarrow> b \<le> b' \<Longrightarrow> within a' b' ps"
  by (fastforce simp: within_def)

lemma covered_append: "covered (ps @ qs) c \<longleftrightarrow> covered ps c \<or> covered qs c"
  by (auto simp: covered_def)

lemma covered_one:
  "unat e = Suc (unat s) \<Longrightarrow> s \<le> c \<and> c < e \<longleftrightarrow> c = s"
  by (auto simp: word_le_nat_alt word_less_nat_alt word_unat_eq_iff)

lemma alternate_within:
  assumes "2 * n + d \<le> 200" "x = entry_code v + word_of_nat d"
  shows "within (unat (entry_code v) + d) (unat (entry_code v) + d + 2 * n - 1)
           (map (\<lambda>i. (x + word_of_nat (2 * i), x + word_of_nat (2 * i) + 1)) [0..<n])"
  using assms(1)
proof (induction n)
  case (Suc n)
  have u: "unat (x + word_of_nat (2 * n)) = unat (entry_code v) + d + 2 * n"
    "unat (x + word_of_nat (2 * n) + 1) = unat (entry_code v) + d + 2 * n + 1"
    using code_plus [of "d + 2 * n" v] code_plus [of "d + 2 * n + 1" v] Suc.prems assms(2)
    by (simp_all add: ac_simps)
  have "within (unat (entry_code v) + d + 2 * n) (unat (entry_code v) + d + 2 * Suc n - 1)
      [(x + word_of_nat (2 * n), x + word_of_nat (2 * n) + 1)]"
    using u by (intro within_single) (simp_all add: word_less_nat_alt)
  from within_append [OF within_mono [OF Suc.IH order_refl] this] Suc.prems show ?case by simp
qed simp

lemma alternate_covered:
  assumes "2 * n + d \<le> 200" "x = entry_code v + word_of_nat d"
  shows "covered (map (\<lambda>i. (x + word_of_nat (2 * i), x + word_of_nat (2 * i) + 1)) [0..<n]) c
     \<longleftrightarrow> (\<exists>i < n. unat c = unat (entry_code v) + d + 2 * i)"
proof -
  have "x + word_of_nat (2 * i) \<le> c \<and> c < x + word_of_nat (2 * i) + 1 \<longleftrightarrow> unat c = unat (entry_code v) + d + 2 * i"
    if "i < n" for i
  proof -
    have u: "unat (x + word_of_nat (2 * i)) = unat (entry_code v) + d + 2 * i"
      "unat (x + word_of_nat (2 * i) + 1) = unat (entry_code v) + d + 2 * i + 1"
      using code_plus [of "d + 2 * i" v] code_plus [of "d + 2 * i + 1" v] that assms
      by (simp_all add: ac_simps)
    then show ?thesis using covered_one [of "x + word_of_nat (2 * i) + 1" "x + word_of_nat (2 * i)" c]
      by (auto simp: word_unat_eq_iff)
  qed
  then show ?thesis by (auto simp: covered_def)
qed

lemma case1_intervals_ok:
  assumes v: "entry_ok v d" "0 < unat (entry_len v)" and m: "case_mask = 1 \<or> case_mask = 4"
  shows "within (unat (entry_code v)) (unat (entry_code v) + unat (entry_len v)) (case1_intervals case_mask v)
     \<and> (covered (case1_intervals case_mask v) c \<longleftrightarrow> in_run case_mask v c)"
proof -
  let ?b = "unat (entry_code v)" and ?l = "unat (entry_len v)"
  have both: "\<not> (case_mask AND 1 \<noteq> 0 \<and> case_mask AND (2 OR 4) \<noteq> 0)" using m by auto
  have u: "case_mask AND 1 \<noteq> 0 \<longleftrightarrow> case_mask = 1" using m by auto
  note p = code_plus [of 1 v, simplified] code_plus [of 2 v, simplified] code_plus [of 3 v, simplified]
  have def_case: "within ?b (?b + ?l) [(entry_code v, entry_code v + entry_len v)]
     \<and> (covered [(entry_code v, entry_code v + entry_len v)] c \<longleftrightarrow> covers v c)"
    using v(2) by (auto simp: covered_def covers_def word_less_nat_alt entry_end intro!: within_single)
  from v(1) show ?thesis
  proof (cases v d rule: entry_kinds)
    case UL
    define n where "n = ?l div 2"
    have l: "?l = 2 * n" using UL by (simp add: n_def even_and_1)
    have n: "2 * n < 128" using entry_len_bound [of v] l by simp
    define e :: nat where "e = (if case_mask = 1 then 1 else 0)"
    define x where "x = entry_code v + word_of_nat e"
    have i: "case1_intervals case_mask v = map (\<lambda>i. (x + word_of_nat (2 * i), x + word_of_nat (2 * i) + 1)) [0..<n]"
      using UL both u l by (simp add: case1_intervals_def Let_def x_def e_def)
    have "2 * n + e \<le> 200" using n by (simp add: e_def)
    note a = alternate_within [OF this x_def] alternate_covered [OF this x_def]
    have "0 < n" using v(2) l by simp
    then have "within ?b (?b + ?l) (case1_intervals case_mask v)"
      unfolding i using l by (intro within_mono [OF a(1)]) (auto simp: e_def)
    moreover have "(\<exists>i < n. unat c = ?b + e + 2 * i) \<longleftrightarrow> in_run case_mask v c"
    proof
      assume "\<exists>i < n. unat c = ?b + e + 2 * i"
      then show "in_run case_mask v c" using UL l by (auto simp: in_run_def covers_nat e_def split: if_splits)
    next
      assume r: "in_run case_mask v c"
      define k where "k = unat c - ?b"
      have k: "unat c = ?b + k" "k < 2 * n" "odd k = (e = 1)"
        using r UL l by (auto simp: in_run_def covers_nat k_def e_def)
      have "k = e + 2 * (k div 2)" using k(3) by (auto simp: e_def elim!: oddE evenE split: if_splits)
      then show "\<exists>i < n. unat c = ?b + e + 2 * i" using k(1,2) by (intro exI [of _ "k div 2"]) auto
    qed
    ultimately show ?thesis using a(2) i by simp
  next
    case LSU
    have l: "?l = 3" using LSU by simp
    have one: "within (?b + k) (?b + k + 1) [(entry_code v + word_of_nat k, entry_code v + word_of_nat (k + 1))]
        \<and> (covered [(entry_code v + word_of_nat k, entry_code v + word_of_nat (k + 1))] c \<longleftrightarrow> unat c = ?b + k)"
      if "k \<le> 2" for k
      using code_plus [of k v] code_plus [of "k + 1" v] that
      by (auto simp: covered_def word_le_nat_alt word_less_nat_alt intro!: within_single)
    note o = one [of 0, simplified] one [of 1, simplified] one [of 2, simplified]
    show ?thesis
    proof (cases "case_mask = 1")
      case True
      have i: "case1_intervals case_mask v = [(entry_code v + 1, entry_code v + 2)] @ [(entry_code v + 2, entry_code v + 3)]"
        using LSU both True by (simp add: case1_intervals_def Let_def)
      have "within (?b + 1) (?b + 3) (case1_intervals case_mask v)"
        unfolding i using o by (intro within_append [of _ "?b + 2"]) (simp_all add: numeral_eq_Suc)
      moreover have "covered (case1_intervals case_mask v) c \<longleftrightarrow> in_run case_mask v c"
        unfolding i covered_append using o l LSU True by (auto simp: in_run_def covers_nat numeral_eq_Suc)
      ultimately show ?thesis using l by (auto intro: within_mono)
    next
      case False
      have i: "case1_intervals case_mask v = [(entry_code v, entry_code v + 1)] @ [(entry_code v + 1, entry_code v + 2)]"
        using LSU both False u m by (simp add: case1_intervals_def Let_def)
      have "within ?b (?b + 2) (case1_intervals case_mask v)"
        unfolding i using o by (intro within_append [of _ "?b + 1"]) (simp_all add: numeral_eq_Suc)
      moreover have "covered (case1_intervals case_mask v) c \<longleftrightarrow> in_run case_mask v c"
        unfolding i covered_append using o l LSU False by (auto simp: in_run_def covers_nat numeral_eq_Suc)
      ultimately show ?thesis using l by (auto intro: within_mono)
    qed
  qed (use def_case in \<open>auto simp: case1_intervals_def in_run_def Let_def\<close>)
qed

section \<open>The set of an operation\<close>

definition run_bit :: "u32 \<Rightarrow> u32 \<Rightarrow> bool" where
  "run_bit case_mask v \<longleftrightarrow> drop_bit (unat (entry_type v)) (run_mask case_mask) AND 1 \<noteq> 0"

definition case1_all :: "u32 \<Rightarrow> u32 list \<Rightarrow> (u32 \<times> u32) list" where
  "case1_all case_mask vs = concat (map (case1_intervals case_mask) (filter (run_bit case_mask) vs))"

lemma covered_iff: "covered ps c \<longleftrightarrow> (\<exists>p \<in> set ps. covered [p] c)"
  by (auto simp: covered_def)

lemma case1_all_within:
  assumes m: "case_mask = 1 \<or> case_mask = 4"
  shows "entries_ok e vs ds \<Longrightarrow> within (unat e) (2 ^ 32) (case1_all case_mask vs)"
proof (induction e vs ds rule: entries_ok.induct)
  case (1 e v vs d ds)
  have h: "unat e \<le> unat (entry_code v)" "0 < unat (entry_len v)" "entry_ok v d"
    using "1.prems" by (simp_all add: word_le_nat_alt word_less_nat_alt)
  have ih: "within (unat (entry_code v) + unat (entry_len v)) (2 ^ 32) (case1_all case_mask vs)"
    using "1.IH" "1.prems" by (simp add: entry_end)
  note w = case1_intervals_ok [OF h(3,2) m, THEN conjunct1]
  have "unat (entry_code v) + unat (entry_len v) \<le> 2 ^ 32" using entry_code_bound [of v] entry_len_bound [of v] by simp
  from within_append [OF w ih _ this] have "within (unat (entry_code v)) (2 ^ 32) (case1_intervals case_mask v @ case1_all case_mask vs)"
    by simp
  with ih h(1) show ?case
    by (auto simp: case1_all_def intro: within_mono)
qed (auto simp: case1_all_def)

lemma case1_all_covered:
  assumes m: "case_mask = 1 \<or> case_mask = 4"
  shows "covered (case1_all case_mask T1) c \<longleftrightarrow> (\<exists>i < 378. run_bit case_mask (T1 ! i) \<and> in_run case_mask (T1 ! i) c)"
proof -
  have "covered (case1_all case_mask T1) c \<longleftrightarrow> (\<exists>v \<in> set T1. run_bit case_mask v \<and> covered (case1_intervals case_mask v) c)"
    unfolding case1_all_def covered_def by auto
  also have "\<dots> \<longleftrightarrow> (\<exists>i < 378. run_bit case_mask (T1 ! i) \<and> covered (case1_intervals case_mask (T1 ! i)) c)"
    by (metis in_set_conv_nth table_length(1))
  also have "\<dots> \<longleftrightarrow> (\<exists>i < 378. run_bit case_mask (T1 ! i) \<and> in_run case_mask (T1 ! i) c)"
    using case1_intervals_ok [OF table_entry(2,1) m] by blast
  finally show ?thesis .
qed

context point_reallocator
begin

lemma add_interval_ok:
  assumes "cr_wf cr" "even (clen cr)"
  obtains r cr' where "cr_add_interval rf s e cr = Some (r, cr')" "cr_wf cr'" "even (clen cr')"
    "r = 0 \<Longrightarrow> contents cr' = contents cr @ [s, e]"
    "r \<noteq> 0 \<Longrightarrow> r = -1 \<and> (\<exists>b m. rf b m = None)"
proof -
  obtain r cr1 where e: "(if clen cr + 2 > csize cr then cr_realloc rf cr (clen cr + 2) else (0, cr)) = (r, cr1)"
    by fastforce
  have k: "cr_wf cr1 \<and> clen cr1 = clen cr \<and> contents cr1 = contents cr \<and> (r = 0 \<longrightarrow> clen cr + 2 \<le> csize cr1)
     \<and> (r \<noteq> 0 \<longrightarrow> (\<exists>b m. rf b m = None))"
  proof (cases "clen cr + 2 > csize cr")
    case True
    then have "cr_realloc rf cr (clen cr + 2) = (r, cr1)" using e by simp
    from cr_realloc_ok [OF assms(1) this] show ?thesis by blast
  qed (use e assms in auto)
  show ?thesis
  proof (cases "r = 0")
    case False
    then have "cr_add_interval rf s e cr = Some (-1, cr1)" using e by (simp add: cr_add_interval_def)
    then show ?thesis using that [of "-1" cr1] k False assms by simp
  next
    case True
    then have l: "clen cr + 2 \<le> length (points cr1)" using k by (simp add: cr_wf_def)
    let ?c = "cr1\<lparr>points := (points cr1)[clen cr := s, clen cr + 1 := e], clen := clen cr + 2\<rparr>"
    have "cr_add_interval rf s e cr = Some (0, ?c)"
      using e True l k by (simp add: cr_add_interval_def wr_def)
    moreover have "contents ?c = contents cr @ [s, e]"
      using k l unfolding contents_def by (auto simp: take_Suc_conv_app_nth nth_append numeral_eq_Suc)
    moreover have "cr_wf ?c" using k l by (simp add: cr_wf_def)
    ultimately show ?thesis using that [of 0 ?c] assms(2) by simp
  qed
qed

lemma add_intervals_ok:
  "cr_wf cr \<Longrightarrow> even (clen cr) \<Longrightarrow> \<exists>r cr'. add_intervals rf ps cr = Some (r, cr') \<and> cr_wf cr' \<and> even (clen cr')
     \<and> (r = 0 \<longrightarrow> contents cr' = contents cr @ points_of ps) \<and> (r \<noteq> 0 \<longrightarrow> r = -1 \<and> (\<exists>b m. rf b m = None))"
proof (induction ps arbitrary: cr)
  case (Cons p ps)
  obtain s e where p: "p = (s, e)" by (cases p)
  obtain r cr1 where a: "cr_add_interval rf s e cr = Some (r, cr1)" "cr_wf cr1" "even (clen cr1)"
    "r = 0 \<Longrightarrow> contents cr1 = contents cr @ [s, e]" "r \<noteq> 0 \<Longrightarrow> r = -1 \<and> (\<exists>b m. rf b m = None)"
    using add_interval_ok [OF Cons.prems] by metis
  show ?case
  proof (cases "r = 0")
    case True
    then show ?thesis using Cons.IH [OF a(2,3)] a p by auto
  next
    case False
    then show ?thesis using a p by auto
  qed
qed simp

lemma case1_loop_ok:
  "cr_wf cr \<Longrightarrow> even (clen cr) \<Longrightarrow> \<exists>r cr'. case1_loop rf m (run_mask m) vs cr = Some (r, cr') \<and> cr_wf cr' \<and> even (clen cr')
     \<and> (r = 0 \<longrightarrow> contents cr' = contents cr @ points_of (case1_all m vs)) \<and> (r \<noteq> 0 \<longrightarrow> r = -1 \<and> (\<exists>b m. rf b m = None))"
proof (induction vs arbitrary: cr)
  case (Cons v vs)
  show ?case
  proof (cases "run_bit m v")
    case False
    then show ?thesis using Cons.IH [OF Cons.prems] by (simp add: run_bit_def case1_all_def)
  next
    case True
    obtain r cr1 where a: "add_intervals rf (case1_intervals m v) cr = Some (r, cr1)" "cr_wf cr1" "even (clen cr1)"
      "r = 0 \<longrightarrow> contents cr1 = contents cr @ points_of (case1_intervals m v)" "r \<noteq> 0 \<longrightarrow> r = -1 \<and> (\<exists>b m. rf b m = None)"
      using add_intervals_ok [OF Cons.prems] by metis
    show ?thesis
    proof (cases "r = 0")
      case r: True
      then show ?thesis using Cons.IH [OF a(2,3)] a True by (auto simp: run_bit_def case1_all_def)
    next
      case False
      then show ?thesis using a True by (auto simp: run_bit_def)
    qed
  qed
qed (simp add: case1_all_def)

end

section \<open>Characters outside the set\<close>

lemma run_mask_U: "run_mask 1 = 0x2BF5" and run_mask_F: "run_mask 4 = 0x3DFC"
  by (simp_all add: run_mask_def tab_run_mask_def MR_def)

lemma run_bit_types:
  assumes "entry_ok v d"
  shows "run_bit 1 v \<longleftrightarrow> entry_type v \<in> {0, 2, 4, 5, 6, 7, 8, 9, 11, 13}"
    and "run_bit 4 v \<longleftrightarrow> entry_type v \<in> {2, 3, 4, 5, 6, 7, 8, 10, 11, 12, 13}"
  using assms
  by (cases v d rule: entry_kinds; auto simp: run_bit_def run_mask_U run_mask_F)+

definition fold_mask :: "bool \<Rightarrow> u32" where
  "fold_mask is_unicode = (if is_unicode then 4 else 1)"

lemma offset_bits: "covers v c \<Longrightarrow> (c - entry_code v) AND 1 = 0 \<longleftrightarrow> even (unat c - unat (entry_code v))"
  using offset_nat [of v c] by (simp add: even_and_1)

lemma and_1_cases: "(x :: u32) AND 1 = 0 \<or> x AND 1 = 1"
  by (cases "even x") (simp_all add: and_one_eq even_iff_mod_2_eq_zero odd_iff_mod_2_eq_one)

lemma conv_entry_unchanged:
  assumes idx: "idx < 378" and c: "covers (T1 ! idx) c"
    and n: "\<not> (run_bit (fold_mask u) (T1 ! idx) \<and> in_run (fold_mask u) (T1 ! idx) c)"
  shows "lre_case_conv_entry c (if u then 2 else 0) idx (T1 ! idx) = Some [c]"
proof -
  let ?v = "T1 ! idx" and ?d = "case_conv_table2 ! idx"
  let ?a = "c - entry_code ?v"
  have rd2: "rd case_conv_table2 idx = Some ?d" using idx by (simp add: table_length)
  have e: "entry_ok ?v ?d" using table_entry idx by blast
  note r = run_bit_types [OF e]
  from e show ?thesis
  proof (cases ?v ?d rule: entry_kinds)
    case simple
    then have "in_run (fold_mask u) ?v c" using c by (auto simp: in_run_def)
    then have "\<not> run_bit (fold_mask u) ?v" using n by blast
    then have "if u then entry_type ?v = 0 \<or> entry_type ?v = 1 else entry_type ?v = 1 \<or> entry_type ?v = 3"
      using simple r by (simp add: fold_mask_def split: if_splits)
    moreover have "\<not> (2 :: u32) \<le> 1" by (simp add: word_le_nat_alt)
    ultimately show ?thesis unfolding conv_entry_def Let_def rd2 by (cases u) auto
  next
    case UL
    have "even (unat c - unat (entry_code ?v)) = (\<not> u)" using UL n r c by (auto simp: fold_mask_def in_run_def split: if_splits)
    then have "?a AND 1 = 0 \<longleftrightarrow> \<not> u" using offset_bits [OF c] by simp
    then have "?a AND 1 \<noteq> 1 - (if u then 1 else 0)" by auto
    then show ?thesis using UL unfolding conv_entry_def Let_def rd2 by (auto split: if_splits)
  next
    case LSU
    have "unat ?a = (if u then 2 else 0)"
      using LSU n r c offset_nat [OF c] by (auto simp: fold_mask_def in_run_def split: if_splits)
    then have "?a = (if u then 2 else 0)" by (simp add: word_unat_eq_iff)
    then show ?thesis using LSU unfolding conv_entry_def Let_def rd2 by (auto split: if_splits)
  next
    case EXT
    then show ?thesis using n r c unfolding conv_entry_def Let_def rd2 by (auto simp: fold_mask_def in_run_def split: if_splits)
  next
    case LF2
    then show ?thesis using n r c unfolding conv_entry_def Let_def rd2 by (auto simp: fold_mask_def in_run_def split: if_splits)
  qed (use n r c in \<open>auto simp: fold_mask_def in_run_def split: if_splits\<close>)
qed

text \<open>The first two entries are the letters of ASCII, and the only ones below 128.\<close>

lemma ascii_entries: "T1 ! 0 = 0x00209a30" "T1 ! Suc 0 = 0x00309a00" "T1 ! 2 = 0x005a8173" "case_conv_table2 ! 0 = 1"
  by (simp_all add: case_conv_table1_def case_conv_table2_def)

lemma ascii_covers:
  assumes "i < 378" "covers (T1 ! i) c" "c < 128"
  shows "i = 0 \<and> 65 \<le> c \<and> c \<le> 90 \<or> i = 1 \<and> 97 \<le> c \<and> c \<le> 122"
proof -
  have "unat (entry_code (T1 ! 2)) = 181" by (simp add: ascii_entries entry_code_def)
  moreover have "unat c < 128" using assms(3) by (simp add: word_less_nat_alt)
  ultimately have "i \<le> 1" using table_order [of 2 i] assms(1,2) by (cases "i = 2"; cases "2 < i") (auto simp: covers_nat)
  moreover have "covers (T1 ! 0) c \<longleftrightarrow> 65 \<le> c \<and> c \<le> 90" "covers (T1 ! Suc 0) c \<longleftrightarrow> 97 \<le> c \<and> c \<le> 122"
    by (auto simp: covers_nat ascii_entries entry_code_def entry_len_def word_le_nat_alt)
  ultimately show ?thesis using assms(2) by (cases "i = 0") (auto simp: le_Suc_eq)
qed

lemma ascii_letters:
  "65 \<le> c \<and> c \<le> 90 \<longleftrightarrow> covers (T1 ! 0) c" "97 \<le> c \<and> c \<le> 122 \<longleftrightarrow> covers (T1 ! Suc 0) c"
  by (auto simp: covers_nat ascii_entries entry_code_def entry_len_def word_le_nat_alt)

definition folded :: "bool \<Rightarrow> u32 \<Rightarrow> bool" where
  "folded u c \<longleftrightarrow> (\<exists>i < 378. run_bit (fold_mask u) (T1 ! i) \<and> in_run (fold_mask u) (T1 ! i) c)"

lemma ascii_bits:
  "run_bit 4 (T1 ! 0)" "\<not> run_bit 4 (T1 ! Suc 0)" "run_bit 1 (T1 ! Suc 0)" "\<not> run_bit 1 (T1 ! 0)"
  "entry_type (T1 ! 0) = 3" "entry_type (T1 ! Suc 0) = 0"
  by (simp_all add: run_bit_def run_mask_U run_mask_F ascii_entries entry_type_def)

lemma canonicalize_unchanged:
  assumes "\<not> folded u c"
  shows "lre_canonicalize c u = Some c"
proof (cases "c < 128")
  case True
  have "\<not> (if u then covers (T1 ! 0) c else covers (T1 ! Suc 0) c)"
    using assms ascii_bits by (auto simp: folded_def fold_mask_def in_run_def split: if_splits)
  then show ?thesis using True ascii_letters [of c] by (cases u) (auto simp: lre_canonicalize_def)
next
  case False
  obtain r where r: "case_lookup c = Some r"
    "case r of None \<Rightarrow> \<forall>i < 378. \<not> covers (T1 ! i) c | Some (idx, v) \<Rightarrow> idx < 378 \<and> v = T1 ! idx \<and> covers v c"
    using case_lookup_ok [of c] by blast
  show ?thesis
  proof (cases r)
    case None
    then show ?thesis using False r by (simp add: lre_canonicalize_def)
  next
    case (Some iv)
    obtain idx where i: "iv = (idx, T1 ! idx)" "idx < 378" "covers (T1 ! idx) c" using r Some by auto
    have "lre_case_conv_entry c (if u then 2 else 0) idx (T1 ! idx) = Some [c]"
      using conv_entry_unchanged [OF i(2,3)] assms i by (auto simp: folded_def)
    then have "lre_case_folding_entry c idx (T1 ! idx) u = Some c"
      using False by (auto simp: lre_case_folding_entry_def not_less rd_def split: if_splits)
    then show ?thesis using False r Some i by (simp add: lre_canonicalize_def)
  qed
qed

lemma canonicalize_folded:
  assumes "i < 378" "covers (T1 ! i) c" "run_bit (fold_mask u) (T1 ! i)"
  shows "lre_canonicalize c u = lre_case_folding_entry c i (T1 ! i) u"
proof (cases "c < 128")
  case True
  note a = ascii_covers [OF assms(1,2) True]
  show ?thesis
  proof (cases u)
    case False
    then show ?thesis using True by (simp add: lre_canonicalize_def lre_case_folding_entry_def)
  next
    case u: True
    then have i: "i = 0" "65 \<le> c" "c \<le> 90" using a assms(3) ascii_bits by (auto simp: fold_mask_def)
    have "lre_case_conv_entry c 2 0 (T1 ! 0) = Some [c - 65 + 97]"
      by (simp add: lre_case_conv_entry.simps ascii_entries entry_type_def entry_code_def rd_def table_length)
    then show ?thesis using True u i by (simp add: lre_canonicalize_def lre_case_folding_entry_def rd_def)
  qed
next
  case False
  have "case_lookup c = Some (Some (i, T1 ! i))" using case_lookup_iff(1) assms by blast
  then show ?thesis using False by (simp add: lre_canonicalize_def)
qed

section \<open>The loop over a set\<close>

lemma seek_entry_ok: "idx \<le> i \<Longrightarrow> i < 378 \<Longrightarrow> covers (T1 ! i) c \<Longrightarrow> seek_entry c idx = Some i"
proof (induction "i - idx" arbitrary: idx)
  case 0
  then show ?case by (subst seek_entry.simps) (simp add: table_length covers_def)
next
  case (Suc n)
  then have "\<not> covers (T1 ! idx) c" using covers_unique [of idx c i] by auto
  then have "seek_entry c idx = seek_entry c (idx + 1)"
    using Suc.prems Suc.hyps(2) by (subst seek_entry.simps) (auto simp: table_length covers_def Let_def)
  then show ?case using Suc by simp
qed

text \<open>The members of a set in increasing order, an interval at a time.\<close>

definition chars_of :: "u32 \<Rightarrow> u32 \<Rightarrow> u32 list" where
  "chars_of s e = map word_of_nat [unat s..<unat e]"

lemma chars_of_step: "s < e \<Longrightarrow> chars_of s e = s # chars_of (s + 1) e"
  by (simp add: chars_of_def unat_Suc_less word_less_nat_alt upt_conv_Cons)

lemma chars_of_empty: "\<not> s < e \<Longrightarrow> chars_of s e = []"
  by (simp add: chars_of_def word_less_nat_alt)

lemma set_chars_of: "set (chars_of s e) = {c. s \<le> c \<and> c < e}"
proof -
  have "c \<in> word_of_nat ` {unat s..<unat e} \<longleftrightarrow> s \<le> c \<and> c < e" for c
  proof
    assume "c \<in> word_of_nat ` {unat s..<unat e}"
    then obtain n where n: "c = word_of_nat n" "unat s \<le> n" "n < unat e" by auto
    moreover have "unat e < 2 ^ LENGTH(32)" by (rule unsigned_less)
    ultimately have "unat c = n" using unat_small [of n, where 'a = 32] by simp
    then show "s \<le> c \<and> c < e" using n by (simp add: word_le_nat_alt word_less_nat_alt)
  next
    assume "s \<le> c \<and> c < e"
    then show "c \<in> word_of_nat ` {unat s..<unat e}"
      by (intro image_eqI [of _ _ "unat c"]) (simp_all add: word_le_nat_alt word_less_nat_alt)
  qed
  then show ?thesis by (auto simp: chars_of_def)
qed

fun fold_list :: "points_realloc \<Rightarrow> bool \<Rightarrow> u32 list \<Rightarrow> fold_state \<Rightarrow> fold_state option" where
  "fold_list rf u [] st = Some st"
| "fold_list rf u (c # cs) st = do { st' \<leftarrow> fold_char rf u c st; fold_list rf u cs st' }"

lemma fold_list_append:
  "fold_list rf u (cs @ ds) st = do { st' \<leftarrow> fold_list rf u cs st; fold_list rf u ds st' }"
  by (induction cs arbitrary: st) (auto split: bind_splits)

lemma fold_chars_list: "fold_chars rf u c e st = fold_list rf u (chars_of c e) st"
proof (induction rf u c e st rule: fold_chars.induct)
  case (1 rf u c e st)
  show ?case
    using 1 by (subst fold_chars.simps) (auto simp: chars_of_step chars_of_empty split: bind_splits)
qed

lemma fold_ranges_list: "fold_ranges rf u ps st = fold_list rf u (concat (map (\<lambda>(s, e). chars_of s e) ps)) st"
  by (induction rf u ps st rule: fold_ranges.induct) (auto simp: fold_chars_list fold_list_append split: bind_splits)

text \<open>After some characters: the finished intervals and the open one are their images.\<close>

definition fold_inv :: "bool \<Rightarrow> u32 set \<Rightarrow> fold_state \<Rightarrow> bool" where
  "fold_inv u C st \<longleftrightarrow>
     (let (idx, ds, de, res) = st; ps = pairs_of (contents res) @ (if ds = 0xFFFFFFFF then [] else [(ds, de)]) in
      cr_wf res \<and> even (clen res) \<and> (\<forall>(s, e) \<in> set ps. s < e) \<and> (ds \<noteq> 0xFFFFFFFF \<longrightarrow> unat de \<le> 2 ^ 18)
      \<and> (ds = 0xFFFFFFFF \<longrightarrow> contents res = [])
      \<and> (\<forall>d. covered ps d \<longleftrightarrow> (\<exists>c \<in> C. lre_canonicalize c u = Some d)))"

lemma pairs_of_append: "even (length xs) \<Longrightarrow> pairs_of (xs @ ys) = pairs_of xs @ pairs_of ys"
  by (induction xs rule: pairs_of.induct) auto

lemma small_less: "small d \<Longrightarrow> d \<noteq> 0xFFFFFFFF \<and> unat (d + 1) = Suc (unat d)"
  by (auto simp: small_def unat_word_ariths)

lemma fold_char_ok:
  assumes inv: "fold_inv u C (idx, ds, de, res)" and i: "idx \<le> i" "i < 378" "covers (T1 ! i) c" "run_bit (fold_mask u) (T1 ! i)"
  shows "\<exists>ds' de' res'. fold_char (cr_default_realloc True junk) u c (idx, ds, de, res) = Some (i, ds', de', res')
     \<and> fold_inv u (insert c C) (i, ds', de', res')"
proof -
  obtain d where d: "lre_case_folding_entry c i (T1 ! i) u = Some d" "small d"
    using folding_entry_small [OF i(2,3)] by metis
  have can: "lre_canonicalize c u = Some d" using canonicalize_folded [OF i(2,3,4)] d by simp
  note sm = small_less [OF d(2)]
  have one: "s \<le> x \<and> x < d + 1 \<longleftrightarrow> s \<le> x \<and> x < d \<or> s \<le> x \<and> x = d" for s x
    using sm by (auto simp: word_le_nat_alt word_less_nat_alt word_unat_eq_iff)
  have new: "covered (ps @ [(d, d + 1)]) x \<longleftrightarrow> covered ps x \<or> x = d" for ps x
    using sm by (auto simp: covered_def word_le_nat_alt word_less_nat_alt word_unat_eq_iff)
  have img: "(\<exists>c' \<in> insert c C. lre_canonicalize c' u = Some x) \<longleftrightarrow> (\<exists>c' \<in> C. lre_canonicalize c' u = Some x) \<or> x = d" for x
    using can by auto
  have dd: "d < d + 1" "unat (d + 1) \<le> 2 ^ 18" using sm d(2) by (auto simp: word_less_nat_alt small_def)
  note I = inv [unfolded fold_inv_def Let_def prod.case]
  let ?rf = "cr_default_realloc True junk"
  have step: "fold_char ?rf u c (idx, ds, de, res) =
     (if ds = 0xFFFFFFFF then Some (i, d, d + 1, res)
      else if de = d then Some (i, ds, de + 1, res)
      else do { (r, cr') \<leftarrow> cr_add_interval ?rf ds de res; Some (i, d, d + 1, cr') })"
    using seek_entry_ok [OF i(1-3)] d by (simp add: fold_char_def)
  consider (first) "ds = 0xFFFFFFFF" | (more) "ds \<noteq> 0xFFFFFFFF" "de = d" | (next_one) "ds \<noteq> 0xFFFFFFFF" "de \<noteq> d" by blast
  then show ?thesis
  proof cases
    case first
    have "fold_inv u (insert c C) (i, d, d + 1, res)"
    proof -
      have e: "contents res = []" using I first by simp
      have "\<forall>x. covered (pairs_of (contents res) @ (if ds = 0xFFFFFFFF then [] else [(ds, de)])) x
          \<longleftrightarrow> (\<exists>c' \<in> C. lre_canonicalize c' u = Some x)" using I by blast
      then have "\<not> (\<exists>c' \<in> C. lre_canonicalize c' u = Some x)" for x using first e by (simp add: covered_def)
      then show ?thesis
        unfolding fold_inv_def Let_def prod.case img using I first new [of "[]"] sm dd e by (simp add: covered_def)
    qed
    then show ?thesis using step first by simp
  next
    case more
    have "ds < d" using I more by simp
    then have "covered (ps @ [(ds, d + 1)]) x \<longleftrightarrow> covered (ps @ [(ds, d)]) x \<or> x = d" for ps x
      using one [of ds x] by (auto simp: covered_def)
    moreover have "ds < d + 1" using \<open>ds < d\<close> dd(1) by (rule order.strict_trans)
    ultimately have "fold_inv u (insert c C) (i, ds, d + 1, res)"
      unfolding fold_inv_def Let_def prod.case img using I more dd by simp
    then show ?thesis using step more by simp
  next
    case next_one
    have w: "cr_wf res" "even (clen res)" using I by auto
    obtain r cr' where a: "cr_add_interval ?rf ds de res = Some (r, cr')" "cr_wf cr'" "even (clen cr')"
      "r = 0 \<Longrightarrow> contents cr' = contents res @ [ds, de]" "r \<noteq> 0 \<Longrightarrow> r = -1 \<and> (\<exists>b m. ?rf b m = None)"
      using default_points.add_interval_ok [OF w] by metis
    have "r = 0" using a(5) default_refuses by blast
    have "even (length (contents res))" using w by (simp add: contents_def cr_wf_def)
    then have p: "pairs_of (contents cr') = pairs_of (contents res) @ [(ds, de)]"
      using a(4) \<open>r = 0\<close> by (simp add: pairs_of_append)
    have "fold_inv u (insert c C) (i, d, d + 1, cr')"
      unfolding fold_inv_def Let_def prod.case img p using I next_one a(2,3) sm dd new [of "pairs_of (contents res) @ [(ds, de)]"] by simp
    then show ?thesis using step next_one a(1) by simp
  qed
qed

lemma fold_list_ok:
  "fold_inv u C (idx, ds, de, res) \<Longrightarrow> idx < 378 \<Longrightarrow> sorted cs \<Longrightarrow>
     \<forall>c \<in> set cs. folded u c \<and> (\<exists>c0. covers (T1 ! idx) c0 \<and> c0 \<le> c \<or> idx = 0) \<Longrightarrow>
     \<exists>st. fold_list (cr_default_realloc True junk) u cs (idx, ds, de, res) = Some st \<and> fold_inv u (C \<union> set cs) st"
proof (induction cs arbitrary: C idx ds de res)
  case Nil
  then show ?case by simp
next
  case (Cons c cs)
  obtain i where i: "i < 378" "run_bit (fold_mask u) (T1 ! i)" "covers (T1 ! i) c"
    using Cons.prems(4) by (auto simp: folded_def in_run_def)
  obtain c0 where "covers (T1 ! idx) c0 \<and> c0 \<le> c \<or> idx = 0" using Cons.prems(4) by auto
  then have "idx \<le> i"
    using table_order [of i idx] i Cons.prems(2) by (auto simp: covers_nat word_le_nat_alt) (metis leD leI le_less_trans less_le_trans)
  from fold_char_ok [OF Cons.prems(1) this i(1,3,2)] obtain ds' de' res' where
    s: "fold_char (cr_default_realloc True junk) u c (idx, ds, de, res) = Some (i, ds', de', res')"
    "fold_inv u (insert c C) (i, ds', de', res')" by blast
  have "sorted cs" "\<forall>c' \<in> set cs. folded u c' \<and> (\<exists>c0. covers (T1 ! i) c0 \<and> c0 \<le> c' \<or> i = 0)"
    using Cons.prems(3,4) i(3) by auto
  from Cons.IH [OF s(2) i(1) this] s(1) show ?case by (auto simp: insert_commute)
qed

lemma sorted_chars: "sorted (chars_of s e)"
proof -
  have "unat e < 2 ^ LENGTH(32)" by (rule unsigned_less)
  then have "sorted_wrt (\<lambda>a b. (word_of_nat a :: u32) \<le> word_of_nat b) [unat s..<unat e]"
    by (intro sorted_wrt_mono_rel [OF _ sorted_upt [unfolded sorted_iff_nth_mono, folded sorted_iff_nth_mono]])
      (auto simp: word_le_nat_alt unat_of_nat)
  then show ?thesis by (simp add: chars_of_def sorted_wrt_map)
qed

lemma sorted_ranges:
  "sorted (points_of ps) \<Longrightarrow> sorted (concat (map (\<lambda>(s, e). chars_of s e) ps))"
proof (induction ps)
  case (Cons p ps)
  obtain s e where p: "p = (s, e)" by (cases p)
  have "c \<le> d" if c: "c \<in> set (chars_of s e)" and d: "(s', e') \<in> set ps" "d \<in> set (chars_of s' e')" for c d s' e'
  proof -
    have "s' \<in> set (points_of ps)" using d(1) by (force simp: points_of_def)
    then have "e \<le> s'" using Cons.prems p by auto
    then show ?thesis using c d(2) by (auto simp: set_chars_of intro: order_trans less_imp_le)
  qed
  then show ?case using Cons p sorted_chars by (fastforce simp: sorted_append)
qed simp

text \<open>Membership by points and by intervals agree.\<close>

lemma member_points:
  "sorted (points_of ps) \<Longrightarrow> member_pts (points_of ps) c \<longleftrightarrow> covered ps c"
proof (induction ps)
  case (Cons p ps)
  obtain s e where p: "p = (s, e)" by (cases p)
  have se: "s \<le> e" "\<forall>x \<in> set (points_of ps). e \<le> x" using Cons.prems p by auto
  have ih: "member_pts (points_of ps) c \<longleftrightarrow> covered ps c" using Cons by (simp add: p)
  have lo: "\<not> member_pts (points_of ps) c" if "c < e"
    using se(2) that by (simp add: member_pts_def below_none order_less_le_trans)
  have "covered (p # ps) c \<longleftrightarrow> s \<le> c \<and> c < e \<or> covered ps c" by (simp add: p covered_def)
  moreover have "s \<le> c" if "e \<le> c" using se(1) that by (rule order_trans)
  ultimately show ?case
    using ih lo by (cases "c < e") (auto simp: p member_pts_simps not_less)
qed (simp add: member_pts_def covered_def)

section \<open>The operation\<close>

lemma case1_set:
  assumes "m = fold_mask u"
  shows "sorted (points_of (case1_all m T1)) \<and> (\<forall>c. member_pts (points_of (case1_all m T1)) c \<longleftrightarrow> folded u c)"
proof -
  have m: "m = 1 \<or> m = 4" using assms by (simp add: fold_mask_def)
  have s: "sorted (points_of (case1_all m T1))" using case1_all_within [OF m case_tables_ok] by (simp add: within_def)
  then show ?thesis using member_points [OF s] case1_all_covered [OF m] assms by (simp add: folded_def)
qed

lemma unicode_case1_ok:
  assumes "m = fold_mask u"
  obtains cr where "unicode_case1 (cr_default_realloc True junk) m cr_init = Some (0, cr)" "cr_wf cr"
    "even (clen cr)" "sorted (contents cr)" "\<forall>c. member_pts (contents cr) c \<longleftrightarrow> folded u c"
proof -
  have i: "cr_wf cr_init" "even (clen cr_init)" "contents cr_init = []" by (simp_all add: cr_wf_def cr_init_def contents_def)
  obtain r cr where c: "case1_loop (cr_default_realloc True junk) m (run_mask m) T1 cr_init = Some (r, cr)"
    "cr_wf cr" "even (clen cr)" "r = 0 \<longrightarrow> contents cr = contents cr_init @ points_of (case1_all m T1)"
    "r \<noteq> 0 \<longrightarrow> r = -1 \<and> (\<exists>b m. cr_default_realloc True junk b m = None)"
    using default_points.case1_loop_ok [OF i(1,2), of True junk m T1] by blast
  have r: "r = 0" using c(5) default_refuses by blast
  have "m \<noteq> 0" using assms by (simp add: fold_mask_def)
  then have "unicode_case1 (cr_default_realloc True junk) m cr_init = Some (0, cr)" using c(1) r by (simp add: unicode_case1_def)
  then show ?thesis using that c r i(3) case1_set [OF assms] by simp
qed

lemma default_op:
  assumes "sorted a" "sorted b" "even (length a)" "even (length b)" "cr_wf cr" "clen cr = 0"
  obtains cr' where "cr_op (cr_default_realloc True junk) a b op cr = Some (0, cr')" "cr_wf cr'"
    "denotes (contents cr') (\<lambda>c. op_in op (member_pts a c) (member_pts b c))"
  using default_points.cr_op_ok [OF assms, of True junk op] default_refuses by blast

lemma denotes_sorted: "denotes ps P \<Longrightarrow> sorted ps \<and> even (length ps) \<and> (\<forall>c. member_pts ps c = P c)"
  by (auto simp: denotes_def intro: strict_sorted_imp_sorted)

lemma contents_length: "cr_wf cr \<Longrightarrow> length (contents cr) = clen cr"
  by (simp add: cr_wf_def contents_def)

lemma not_max: "even (length ps) \<Longrightarrow> member_pts ps c \<Longrightarrow> c < 0xFFFFFFFF"
proof -
  assume p: "even (length ps)" "member_pts ps c"
  then have "c \<noteq> 0xFFFFFFFF" using below_all [of ps c] u32_max by (auto simp: member_pts_def)
  then show ?thesis using u32_max [of c] by (simp add: less_le)
qed

text \<open>The loop over the characters that a conversion changes, with the interval left open at the end.\<close>

lemma fold_set:
  assumes ci: "cr_wf ci" "denotes (contents ci) (\<lambda>c. folded u c \<and> P c)"
  obtains idx ds de res res1 where
    "fold_ranges (cr_default_realloc True junk) u (pairs_of (contents ci)) (0, 0xFFFFFFFF, 0xFFFFFFFF, cr_init) = Some (idx, ds, de, res)"
    "(if ds \<noteq> 0xFFFFFFFF then cr_add_interval (cr_default_realloc True junk) ds de res else Some (0, res)) = Some (0, res1)"
    "cr_wf res1" "even (clen res1)" "\<forall>(s, e) \<in> set (pairs_of (contents res1)). s < e"
    "\<forall>d. covered (pairs_of (contents res1)) d \<longleftrightarrow> (\<exists>c. folded u c \<and> P c \<and> lre_canonicalize c u = Some d)"
proof -
  let ?rf = "cr_default_realloc True junk"
  let ?ps = "pairs_of (contents ci)"
  let ?cs = "concat (map (\<lambda>(s, e). chars_of s e) ?ps)"
  note D = denotes_sorted [OF ci(2)]
  have pp: "points_of ?ps = contents ci" using D by (simp add: points_pairs)
  have "set ?cs = {c. covered ?ps c}" by (auto simp: covered_def set_chars_of split: prod.splits)
  then have cs: "set ?cs = {c. folded u c \<and> P c}" using member_points [of ?ps] D pp by simp
  have st0: "fold_inv u {} (0, 0xFFFFFFFF, 0xFFFFFFFF, cr_init)"
    by (simp add: fold_inv_def cr_init_def cr_wf_def contents_def covered_def)
  have so: "sorted ?cs" using sorted_ranges [of ?ps] D pp by simp
  have al: "\<forall>c \<in> set ?cs. folded u c \<and> (\<exists>c0. covers (T1 ! 0) c0 \<and> c0 \<le> c \<or> (0 :: nat) = 0)"
    unfolding cs by simp
  from fold_list_ok [OF st0 _ so al, of junk] obtain st where
    "fold_list ?rf u ?cs (0, 0xFFFFFFFF, 0xFFFFFFFF, cr_init) = Some st" "fold_inv u (set ?cs) st" by auto
  then obtain idx ds de res where
    f: "fold_list ?rf u ?cs (0, 0xFFFFFFFF, 0xFFFFFFFF, cr_init) = Some (idx, ds, de, res)" "fold_inv u (set ?cs) (idx, ds, de, res)"
    by (cases st) auto
  note I = f(2) [unfolded fold_inv_def Let_def prod.case cs]
  have fr: "fold_ranges ?rf u ?ps (0, 0xFFFFFFFF, 0xFFFFFFFF, cr_init) = Some (idx, ds, de, res)"
    using f(1) by (simp add: fold_ranges_list)
  show ?thesis
  proof (cases "ds = 0xFFFFFFFF")
    case True
    have "covered (pairs_of (contents res)) d \<longleftrightarrow> (\<exists>c. folded u c \<and> P c \<and> lre_canonicalize c u = Some d)" for d
      using I True by auto
    then show ?thesis using that [OF fr] True I by auto
  next
    case False
    have w: "cr_wf res" "even (clen res)" using I by auto
    obtain r cr' where a: "cr_add_interval ?rf ds de res = Some (r, cr')" "cr_wf cr'" "even (clen cr')"
      "r = 0 \<Longrightarrow> contents cr' = contents res @ [ds, de]" "r \<noteq> 0 \<Longrightarrow> r = -1 \<and> (\<exists>b m. ?rf b m = None)"
      using default_points.add_interval_ok [OF w] by metis
    have "r = 0" using a(5) default_refuses by blast
    then have p: "pairs_of (contents cr') = pairs_of (contents res) @ [(ds, de)]"
      using a(4) w by (simp add: pairs_of_append contents_length)
    have "covered (pairs_of (contents cr')) d \<longleftrightarrow> (\<exists>c. folded u c \<and> P c \<and> lre_canonicalize c u = Some d)" for d
      using I False unfolding p by auto
    moreover have "\<forall>(s, e) \<in> set (pairs_of (contents cr')). s < e" using I False unfolding p by auto
    ultimately show ?thesis using that [OF fr] False a \<open>r = 0\<close> by auto
  qed
qed

lemma canonical_image:
  assumes "\<And>d. P d \<longleftrightarrow> (\<exists>c. folded u c \<and> M c \<and> lre_canonicalize c u = Some d) \<or> (\<not> folded u d \<and> M d)"
  shows "P d \<longleftrightarrow> (\<exists>c. M c \<and> lre_canonicalize c u = Some d)"
  using assms canonicalize_unchanged by (metis option.inject)

text \<open>C38: Case-insensitive character classes: \<open>cr_regexp_canonicalize\<close> replaces a set by the set of
  the canonical characters of its members, in both modes. From increasing points it reads and writes only
  inside its buffers and tables, the assertion on the end of the case table never fails, and with memory granted it
  returns 0 with strictly increasing points of exactly the image under \<open>lre_canonicalize\<close>.\<close>

theorem canonicalize_set:
  assumes "cr_wf cr" "sorted (contents cr)" "even (clen cr)"
  shows "\<exists>cr'. cr_regexp_canonicalize (cr_default_realloc True junk) u cr = Some (0, cr') \<and> cr_wf cr'
     \<and> denotes (contents cr') (\<lambda>d. \<exists>c. member_pts (contents cr) c \<and> lre_canonicalize c u = Some d)"
proof -
  let ?rf = "cr_default_realloc True junk" and ?M = "member_pts (contents cr)"
  have ec: "even (length (contents cr))" using assms by (simp add: contents_length)
  have ini: "cr_wf cr_init" "clen cr_init = 0" by (simp_all add: cr_wf_def cr_init_def)
  obtain cm where m: "unicode_case1 ?rf (if u then 4 else 1) cr_init = Some (0, cm)" "cr_wf cm" "even (clen cm)"
    "sorted (contents cm)" "\<forall>c. member_pts (contents cm) c \<longleftrightarrow> folded u c"
    by (rule unicode_case1_ok [of "if u then 4 else 1" u junk]) (auto simp: fold_mask_def)
  have em: "even (length (contents cm))" using m by (simp add: contents_length)
  obtain ci where i: "cr_op ?rf (contents cm) (contents cr) CR_OP_INTER cr_init = Some (0, ci)" "cr_wf ci"
    "denotes (contents ci) (\<lambda>c. folded u c \<and> ?M c)"
    using default_op [OF m(4) assms(2) em ec ini, of junk CR_OP_INTER] m(5) by auto
  obtain r3 cv where v: "cr_invert ?rf cm = Some (r3, cv)" "cr_wf cv" "r3 = 0 \<or> r3 = -1 \<and> \<not> True"
    "r3 = 0 \<longrightarrow> denotes (contents cv) (\<lambda>c. c < 0xFFFFFFFF \<and> \<not> folded u c)"
    using cr_complement [OF m(2,4,3), of True junk] m(5) by auto
  then have cv: "cr_invert ?rf cm = Some (0, cv)" "denotes (contents cv) (\<lambda>c. c < 0xFFFFFFFF \<and> \<not> folded u c)" by auto
  note dv = denotes_sorted [OF cv(2)]
  obtain cs where s: "cr_op ?rf (contents cv) (contents cr) CR_OP_INTER cr_init = Some (0, cs)" "cr_wf cs"
    "denotes (contents cs) (\<lambda>c. (c < 0xFFFFFFFF \<and> \<not> folded u c) \<and> ?M c)"
    using default_op [OF _ assms(2) _ ec ini, of "contents cv" junk CR_OP_INTER] dv by auto
  obtain idx ds de res res1 where f:
    "fold_ranges ?rf u (pairs_of (contents ci)) (0, 0xFFFFFFFF, 0xFFFFFFFF, cr_init) = Some (idx, ds, de, res)"
    "(if ds \<noteq> 0xFFFFFFFF then cr_add_interval ?rf ds de res else Some (0, res)) = Some (0, res1)"
    "cr_wf res1" "even (clen res1)" "\<forall>(s, e) \<in> set (pairs_of (contents res1)). s < e"
    "\<forall>d. covered (pairs_of (contents res1)) d \<longleftrightarrow> (\<exists>c. folded u c \<and> ?M c \<and> lre_canonicalize c u = Some d)"
    by (rule fold_set [OF i(2,3)]) (rule that; assumption)
  note so = cr_sort_and_remove_overlap_ok [OF f(3,4,5)]
  note ds = denotes_sorted [OF so [THEN conjunct2]] denotes_sorted [OF s(3)]
  have c0: "cr_wf (cr\<lparr>clen := 0\<rparr>)" "clen (cr\<lparr>clen := 0\<rparr>) = 0" using assms(1) by (simp_all add: cr_wf_def)
  obtain cr' where o: "cr_op ?rf (contents (cr_sort_and_remove_overlap res1)) (contents cs) CR_OP_UNION (cr\<lparr>clen := 0\<rparr>) = Some (0, cr')"
    "cr_wf cr'" "denotes (contents cr') (\<lambda>d. covered (pairs_of (contents res1)) d \<or> (d < 0xFFFFFFFF \<and> \<not> folded u d) \<and> ?M d)"
    using default_op [OF _ _ _ _ c0, of "contents (cr_sort_and_remove_overlap res1)" "contents cs" junk CR_OP_UNION] ds by auto
  have "denotes (contents cr') (\<lambda>d. \<exists>c. ?M c \<and> lre_canonicalize c u = Some d)"
  proof -
    have "covered (pairs_of (contents res1)) d \<or> (d < 0xFFFFFFFF \<and> \<not> folded u d) \<and> ?M d
        \<longleftrightarrow> (\<exists>c. ?M c \<and> lre_canonicalize c u = Some d)" for d
      by (rule canonical_image) (use f(6) not_max [OF ec] in blast)
    then show ?thesis using o(3) by simp
  qed
  moreover have "cr_regexp_canonicalize ?rf u cr = Some (0, cr')"
    using m(1) i(1) cv(1) s(1) f(1,2) o(1) by (simp add: cr_regexp_canonicalize_def contents_def)
  ultimately show ?thesis using o(2) by blast
qed

theorem canonicalize_set_witness:
  "\<exists>cr'. cr_regexp_canonicalize (cr_default_realloc True (\<lambda>_. 0)) True \<lparr>points = [65, 67], clen = 2, csize = 2\<rparr> = Some (0, cr')
     \<and> member_pts (contents cr') 97"
proof -
  have l: "lre_canonicalize 65 True = Some 97" by (simp add: lre_canonicalize_def)
  have m: "member_pts [65, 67] 65" by (simp add: member_pts_simps)
  have "\<exists>cr'. cr_regexp_canonicalize (cr_default_realloc True (\<lambda>_. 0)) True \<lparr>points = [65, 67], clen = 2, csize = 2\<rparr> = Some (0, cr') \<and> cr_wf cr'
     \<and> denotes (contents cr') (\<lambda>d. \<exists>c. member_pts (contents \<lparr>points = [65, 67], clen = 2, csize = 2\<rparr>) c \<and> lre_canonicalize c True = Some d)"
    by (rule canonicalize_set) (simp_all add: cr_wf_def contents_def)
  then show ?thesis using l m by (auto simp: denotes_def contents_def)
qed

lemma case_lookup_linear:
  "case_lookup c = Some (map_option (\<lambda>i. (i, case_conv_table1 ! i))
     (find (\<lambda>i. entry_code (case_conv_table1 ! i) \<le> c \<and> c < entry_code (case_conv_table1 ! i) + entry_len (case_conv_table1 ! i))
       [0..<length case_conv_table1]))"
proof (cases "find (\<lambda>i. covers (T1 ! i) c) [0..<length T1]")
  case None
  then have "case_lookup c = Some None" unfolding case_lookup_iff by (simp add: find_None_iff table_length)
  then show ?thesis using None by (simp add: covers_def)
next
  case (Some i)
  then have "case_lookup c = Some (Some (i, T1 ! i))"
    unfolding case_lookup_iff by (auto simp: find_Some_iff table_length)
  then show ?thesis using Some by (simp add: covers_def)
qed

text \<open>C39: The binary search over the case table finds exactly what a linear search would: the one run
  that holds the character, or that there is none. The tables of case conversion are never read
  out of bounds, for any character and any conversion, including the recursive calls of case
  folding; a conversion writes one to three characters, which fit the array of its callers.\<close>

theorem case_conversion_in_bounds:
  "case_lookup c = Some (map_option (\<lambda>i. (i, case_conv_table1 ! i))
     (find (\<lambda>i. entry_code (case_conv_table1 ! i) \<le> c \<and> c < entry_code (case_conv_table1 ! i) + entry_len (case_conv_table1 ! i))
       [0..<length case_conv_table1]))
   \<and> (\<exists>res. lre_case_conv c conv_type = Some res \<and> length res \<in> {1, 2, 3}) \<and> (\<exists>d. lre_canonicalize c u = Some d)"
proof (intro conjI)
  have "good (lre_case_conv c conv_type)" using conv_good lower_total by blast
  then show "\<exists>res. lre_case_conv c conv_type = Some res \<and> length res \<in> {1, 2, 3}" by (simp add: good_def)
  show "\<exists>d. lre_canonicalize c u = Some d"
    using canonicalize_unchanged canonicalize_folded folding_entry_small unfolding folded_def in_run_def by metis
qed (rule case_lookup_linear)

end
