(* ===== verification/PropLookup.thy ===== *)
theory PropLookup
  imports PropTables CaseConv
begin

text \<open>
  The tests on characters of \<open>quickjs/libunicode.c\<close> and \<open>libunicode.h\<close>: the index and the run lengths of
  the property tables, the bits of the first 256 characters, the list of spaces, and the
  predicates over them. None is a read outside a table.
\<close>

section \<open>Property tables\<close>

definition get_le24 :: "u8 list \<Rightarrow> nat \<Rightarrow> u32 option" where
  "get_le24 tab i =
     do {
       b0 \<leftarrow> rd tab i;
       b1 \<leftarrow> rd tab (i + 1);
       b2 \<leftarrow> rd tab (i + 2);
       Some (ucast b0 OR push_bit 8 (ucast b1) OR push_bit 16 (ucast b2))
     }"

text \<open>The binary search; \<open>idx_min\<close> and \<open>idx_max\<close> are never negative here.\<close>

function index_search :: "u32 \<Rightarrow> u8 list \<Rightarrow> nat \<Rightarrow> nat \<Rightarrow> nat option" where
  "index_search c index_table idx_min idx_max =
     (if idx_max - idx_min > 1
      then let idx = (idx_max + idx_min) div 2 in
        do {
          v \<leftarrow> get_le24 index_table (idx * 3);
          if c < v AND (push_bit 21 1 - 1) then index_search c index_table idx_min idx
          else index_search c index_table idx idx_max
        }
      else Some idx_min)"
  by pat_completeness auto

termination
  by (relation "measure (\<lambda>(c, t, lo, hi). hi - lo)") auto

declare index_search.simps [simp del]

text \<open>The position in the table and the code point there; the inner None is the result \<open>-1\<close>.\<close>

definition get_index_pos :: "u32 \<Rightarrow> u8 list \<Rightarrow> nat \<Rightarrow> (nat \<times> u32) option option" where
  "get_index_pos c index_table index_table_len =
     do {
       v \<leftarrow> get_le24 index_table 0;
       if c < v AND (push_bit 21 1 - 1) then Some (Some (0, 0))
       else do {
         code \<leftarrow> get_le24 index_table ((index_table_len - 1) * 3);
         if c \<ge> code then Some None
         else do {
           idx_min \<leftarrow> index_search c index_table 0 (index_table_len - 1);
           v \<leftarrow> get_le24 index_table (idx_min * 3);
           Some (Some ((idx_min + 1) * 32 + unat (drop_bit 21 v), v AND (push_bit 21 1 - 1)))
         }
       }
     }"

text \<open>The loop over the run lengths; the list is what is left of the table.\<close>

fun in_table_loop :: "u32 \<Rightarrow> u8 list \<Rightarrow> u32 \<Rightarrow> bool \<Rightarrow> bool option" where
  "in_table_loop c [] code on = None"
| "in_table_loop c (x # p) code on =
     (let b = ucast x :: u32 in
      if b < 64 then
        let code1 = code + (drop_bit 3 b + 1); code2 = code1 + ((b AND 7) + 1) in
        if c < code1 then Some on
        else if c < code2 then Some (\<not> on)
        else in_table_loop c p code2 on
      else if b \<ge> 0x80 then
        let code1 = code + (b - 0x80 + 1) in
        if c < code1 then Some on else in_table_loop c p code1 (\<not> on)
      else if b < 0x60 then
        (case p of
           y # q \<Rightarrow>
             let code1 = code + ((push_bit 8 (b - 0x40) OR ucast y) + 1) in
             if c < code1 then Some on else in_table_loop c q code1 (\<not> on)
         | [] \<Rightarrow> None)
      else
        (case p of
           y # z # q \<Rightarrow>
             let code1 = code + ((push_bit 16 (b - 0x60) OR push_bit 8 (ucast y) OR ucast z) + 1) in
             if c < code1 then Some on else in_table_loop c q code1 (\<not> on)
         | _ \<Rightarrow> None))"

definition lre_is_in_table :: "u32 \<Rightarrow> u8 list \<Rightarrow> u8 list \<Rightarrow> nat \<Rightarrow> bool option" where
  "lre_is_in_table c table index_table index_table_len =
     do {
       r \<leftarrow> get_index_pos c index_table index_table_len;
       case r of
         None \<Rightarrow> Some False
       | Some (pos, code) \<Rightarrow> if pos \<le> length table then in_table_loop c (drop pos table) code False else None
     }"

definition lre_is_cased :: "u32 \<Rightarrow> bool option" where
  "lre_is_cased c =
     do {
       r \<leftarrow> case_lookup c;
       case r of
         Some _ \<Rightarrow> Some True
       | None \<Rightarrow> lre_is_in_table c unicode_prop_Cased1_table unicode_prop_Cased1_index (length unicode_prop_Cased1_index div 3)
     }"

definition lre_is_case_ignorable :: "u32 \<Rightarrow> bool option" where
  "lre_is_case_ignorable c =
     lre_is_in_table c unicode_prop_Case_Ignorable_table unicode_prop_Case_Ignorable_index (length unicode_prop_Case_Ignorable_index div 3)"

definition lre_is_soft_dotted :: "u32 \<Rightarrow> bool option" where
  "lre_is_soft_dotted c =
     lre_is_in_table c unicode_prop_Soft_Dotted_table unicode_prop_Soft_Dotted_index (length unicode_prop_Soft_Dotted_index div 3)"

definition lre_is_id_start :: "u32 \<Rightarrow> bool option" where
  "lre_is_id_start c =
     lre_is_in_table c unicode_prop_ID_Start_table unicode_prop_ID_Start_index (length unicode_prop_ID_Start_index div 3)"

definition lre_is_id_continue :: "u32 \<Rightarrow> bool option" where
  "lre_is_id_continue c =
     do {
       s \<leftarrow> lre_is_id_start c;
       if s then Some True
       else lre_is_in_table c unicode_prop_ID_Continue1_table unicode_prop_ID_Continue1_index (length unicode_prop_ID_Continue1_index div 3)
     }"

section \<open>Bytes\<close>

definition UNICODE_C_SPACE :: u8 where "UNICODE_C_SPACE = 1"
definition UNICODE_C_DIGIT :: u8 where "UNICODE_C_DIGIT = 2"
definition UNICODE_C_UPPER :: u8 where "UNICODE_C_UPPER = 4"
definition UNICODE_C_LOWER :: u8 where "UNICODE_C_LOWER = 8"
definition UNICODE_C_UNDER :: u8 where "UNICODE_C_UNDER = 16"
definition UNICODE_C_DOLLAR :: u8 where "UNICODE_C_DOLLAR = 32"
definition UNICODE_C_XDIGIT :: u8 where "UNICODE_C_XDIGIT = 64"

definition lre_ctype_bits :: "u8 list" where
  "lre_ctype_bits =
    [0, 0, 0, 0, 0, 0, 0, 0,
     0, UNICODE_C_SPACE, UNICODE_C_SPACE, UNICODE_C_SPACE, UNICODE_C_SPACE, UNICODE_C_SPACE, 0, 0,
     0, 0, 0, 0, 0, 0, 0, 0,
     0, 0, 0, 0, 0, 0, 0, 0,
     UNICODE_C_SPACE, 0, 0, 0, UNICODE_C_DOLLAR, 0, 0, 0,
     0, 0, 0, 0, 0, 0, 0, 0,
     UNICODE_C_XDIGIT OR UNICODE_C_DIGIT, UNICODE_C_XDIGIT OR UNICODE_C_DIGIT, UNICODE_C_XDIGIT OR UNICODE_C_DIGIT, UNICODE_C_XDIGIT OR UNICODE_C_DIGIT, UNICODE_C_XDIGIT OR UNICODE_C_DIGIT, UNICODE_C_XDIGIT OR UNICODE_C_DIGIT, UNICODE_C_XDIGIT OR UNICODE_C_DIGIT, UNICODE_C_XDIGIT OR UNICODE_C_DIGIT,
     UNICODE_C_XDIGIT OR UNICODE_C_DIGIT, UNICODE_C_XDIGIT OR UNICODE_C_DIGIT, 0, 0, 0, 0, 0, 0,
     0, UNICODE_C_XDIGIT OR UNICODE_C_UPPER, UNICODE_C_XDIGIT OR UNICODE_C_UPPER, UNICODE_C_XDIGIT OR UNICODE_C_UPPER, UNICODE_C_XDIGIT OR UNICODE_C_UPPER, UNICODE_C_XDIGIT OR UNICODE_C_UPPER, UNICODE_C_XDIGIT OR UNICODE_C_UPPER, UNICODE_C_UPPER,
     UNICODE_C_UPPER, UNICODE_C_UPPER, UNICODE_C_UPPER, UNICODE_C_UPPER, UNICODE_C_UPPER, UNICODE_C_UPPER, UNICODE_C_UPPER, UNICODE_C_UPPER,
     UNICODE_C_UPPER, UNICODE_C_UPPER, UNICODE_C_UPPER, UNICODE_C_UPPER, UNICODE_C_UPPER, UNICODE_C_UPPER, UNICODE_C_UPPER, UNICODE_C_UPPER,
     UNICODE_C_UPPER, UNICODE_C_UPPER, UNICODE_C_UPPER, 0, 0, 0, 0, UNICODE_C_UNDER,
     0, UNICODE_C_XDIGIT OR UNICODE_C_LOWER, UNICODE_C_XDIGIT OR UNICODE_C_LOWER, UNICODE_C_XDIGIT OR UNICODE_C_LOWER, UNICODE_C_XDIGIT OR UNICODE_C_LOWER, UNICODE_C_XDIGIT OR UNICODE_C_LOWER, UNICODE_C_XDIGIT OR UNICODE_C_LOWER, UNICODE_C_LOWER,
     UNICODE_C_LOWER, UNICODE_C_LOWER, UNICODE_C_LOWER, UNICODE_C_LOWER, UNICODE_C_LOWER, UNICODE_C_LOWER, UNICODE_C_LOWER, UNICODE_C_LOWER,
     UNICODE_C_LOWER, UNICODE_C_LOWER, UNICODE_C_LOWER, UNICODE_C_LOWER, UNICODE_C_LOWER, UNICODE_C_LOWER, UNICODE_C_LOWER, UNICODE_C_LOWER,
     UNICODE_C_LOWER, UNICODE_C_LOWER, UNICODE_C_LOWER, 0, 0, 0, 0, 0,
     0, 0, 0, 0, 0, 0, 0, 0,
     0, 0, 0, 0, 0, 0, 0, 0,
     0, 0, 0, 0, 0, 0, 0, 0,
     0, 0, 0, 0, 0, 0, 0, 0,
     UNICODE_C_SPACE, 0, 0, 0, 0, 0, 0, 0,
     0, 0, 0, 0, 0, 0, 0, 0,
     0, 0, 0, 0, 0, 0, 0, 0,
     0, 0, 0, 0, 0, 0, 0, 0,
     0, 0, 0, 0, 0, 0, 0, 0,
     0, 0, 0, 0, 0, 0, 0, 0,
     0, 0, 0, 0, 0, 0, 0, 0,
     0, 0, 0, 0, 0, 0, 0, 0,
     0, 0, 0, 0, 0, 0, 0, 0,
     0, 0, 0, 0, 0, 0, 0, 0,
     0, 0, 0, 0, 0, 0, 0, 0,
     0, 0, 0, 0, 0, 0, 0, 0]"

text \<open>The table has an entry for every byte.\<close>

definition ctype :: "u8 \<Rightarrow> u8" where "ctype c = lre_ctype_bits ! unat c"

definition lre_is_space_byte :: "u8 \<Rightarrow> bool" where
  "lre_is_space_byte c \<longleftrightarrow> ctype c AND UNICODE_C_SPACE \<noteq> 0"

definition lre_is_id_start_byte :: "u8 \<Rightarrow> bool" where
  "lre_is_id_start_byte c \<longleftrightarrow>
     ctype c AND (UNICODE_C_UPPER OR UNICODE_C_LOWER OR UNICODE_C_UNDER OR UNICODE_C_DOLLAR) \<noteq> 0"

definition lre_is_id_continue_byte :: "u8 \<Rightarrow> bool" where
  "lre_is_id_continue_byte c \<longleftrightarrow>
     ctype c AND (UNICODE_C_UPPER OR UNICODE_C_LOWER OR UNICODE_C_UNDER OR UNICODE_C_DOLLAR OR UNICODE_C_DIGIT) \<noteq> 0"

definition lre_is_word_byte :: "u8 \<Rightarrow> bool" where
  "lre_is_word_byte c \<longleftrightarrow>
     ctype c AND (UNICODE_C_UPPER OR UNICODE_C_LOWER OR UNICODE_C_UNDER OR UNICODE_C_DIGIT) \<noteq> 0"

section \<open>Spaces and identifiers\<close>

definition char_range_s :: "u16 list" where
  "char_range_s =
    [10,
     0x0009, 0x000D + 1,
     0x0020, 0x0020 + 1,
     0x00A0, 0x00A0 + 1,
     0x1680, 0x1680 + 1,
     0x2000, 0x200A + 1,
     0x2028, 0x2029 + 1,
     0x202F, 0x202F + 1,
     0x205F, 0x205F + 1,
     0x3000, 0x3000 + 1,
     0xFEFF, 0xFEFF + 1]"

fun space_loop :: "u32 \<Rightarrow> u16 list \<Rightarrow> bool" where
  "space_loop c (low # high # p) = (if c < ucast low then False else if c < ucast high then True else space_loop c p)"
| "space_loop c _ = False"

definition lre_is_space_non_ascii :: "u32 \<Rightarrow> bool" where
  "lre_is_space_non_ascii c = space_loop c (drop 5 char_range_s)"

definition lre_is_space :: "u32 \<Rightarrow> bool" where
  "lre_is_space c = (if c < 256 then lre_is_space_byte (ucast c) else lre_is_space_non_ascii c)"

definition lre_js_is_ident_first :: "u32 \<Rightarrow> bool option" where
  "lre_js_is_ident_first c = (if c < 128 then Some (lre_is_id_start_byte (ucast c)) else lre_is_id_start c)"

definition lre_js_is_ident_next :: "u32 \<Rightarrow> bool option" where
  "lre_js_is_ident_next c =
     (if c < 128 then Some (lre_is_id_continue_byte (ucast c))
      else if c \<ge> 0x200C \<and> c \<le> 0x200D then Some True
      else lre_is_id_continue c)"

end
