(* ===== verification/PropCheck.thy ===== *)
theory PropCheck
  imports PropLookup
begin

text \<open>
  Evaluation of the five property tables against their indexes: every entry of an index stands at the
  start of a step of its table, with the code point there and outside the set, and the last entry is the
  code point after the table. The tables stay folded while the simplifier walks them.
\<close>

section \<open>One step\<close>

text \<open>The run lengths that one step decodes, the bytes it takes after the first, and what is left.\<close>

fun run_step :: "u8 \<Rightarrow> u8 list \<Rightarrow> (u32 list \<times> nat \<times> u8 list) option" where
  "run_step x p =
     (let b = ucast x :: u32 in
      if b < 64 then Some ([drop_bit 3 b + 1, (b AND 7) + 1], 0, p)
      else if b \<ge> 0x80 then Some ([b - 0x80 + 1], 0, p)
      else if b < 0x60 then
        (case p of y # q \<Rightarrow> Some ([(push_bit 8 (b - 0x40) OR ucast y) + 1], 1, q) | [] \<Rightarrow> None)
      else
        (case p of y # z # q \<Rightarrow> Some ([(push_bit 16 (b - 0x60) OR push_bit 8 (ucast y) OR ucast z) + 1], 2, q) | _ \<Rightarrow> None))"

declare run_step.simps [simp del]

lemma run_step_drop: "run_step x p = Some (ds, n, q) \<Longrightarrow> n \<le> length p \<and> q = drop n p"
  by (auto simp: run_step.simps Let_def split: if_splits list.splits)

text \<open>The code point after the runs, when none of them overflows.\<close>

fun run_codes :: "u32 \<Rightarrow> u32 list \<Rightarrow> u32 option" where
  "run_codes code [] = Some code"
| "run_codes code (d # ds) = (if code \<le> code + d then run_codes (code + d) ds else None)"

text \<open>At the boundary of a step, the entries of the index that point there must agree with it.\<close>

function table_ok :: "u8 list \<Rightarrow> nat \<Rightarrow> u32 \<Rightarrow> bool \<Rightarrow> (nat \<times> u32) list \<Rightarrow> u32 \<Rightarrow> bool" where
  "table_ok [] pos code on es ub \<longleftrightarrow> es = [] \<and> ub = code"
| "table_ok (x # p) pos code on es ub \<longleftrightarrow>
     (case run_step x p of
        None \<Rightarrow> False
      | Some (ds, n, q) \<Rightarrow>
          (case run_codes code ds of
             None \<Rightarrow> False
           | Some code' \<Rightarrow>
               (case es of
                  [] \<Rightarrow> table_ok q (pos + n + 1) code' (on = even (length ds)) [] ub
                | (k, kc) # es' \<Rightarrow>
                    if k = pos then kc = code \<and> \<not> on \<and> table_ok q (pos + n + 1) code' (on = even (length ds)) es' ub
                    else table_ok q (pos + n + 1) code' (on = even (length ds)) es ub)))"
  by pat_completeness auto

termination
  by (relation "measure (\<lambda>(p, pos, code, on, es, ub). length p)") (auto dest: run_step_drop)

fun index_vals :: "u8 list \<Rightarrow> u32 list" where
  "index_vals (b0 # b1 # b2 # p) = (ucast b0 OR push_bit 8 (ucast b1) OR push_bit 16 (ucast b2)) # index_vals p"
| "index_vals _ = []"

definition index_entry :: "nat \<Rightarrow> u32 \<Rightarrow> nat \<times> u32" where
  "index_entry k v = ((k + 1) * 32 + unat (drop_bit 21 v), v AND (push_bit 21 1 - 1))"

fun index_entries :: "nat \<Rightarrow> u32 list \<Rightarrow> (nat \<times> u32) list" where
  "index_entries k (v # w # vs) = index_entry k v # index_entries (k + 1) (w # vs)"
| "index_entries k _ = []"

text \<open>One step of the check, by the kind of its first byte; the tables stay folded while it runs.\<close>

definition table_step :: "u32 option \<Rightarrow> bool \<Rightarrow> nat \<Rightarrow> u8 list \<Rightarrow> nat \<Rightarrow> u32 \<Rightarrow> bool \<Rightarrow> (nat \<times> u32) list \<Rightarrow> u32 \<Rightarrow> bool" where
  "table_step r on' pos' q pos code on es ub \<longleftrightarrow>
     (case r of
        None \<Rightarrow> False
      | Some code' \<Rightarrow>
          (case es of
             [] \<Rightarrow> table_ok q pos' code' on' [] ub
           | (k, kc) # es' \<Rightarrow>
               if k = pos then kc = code \<and> \<not> on \<and> table_ok q pos' code' on' es' ub
               else table_ok q pos' code' on' es ub))"

lemma table_step_simps:
  "table_step None on' pos' q pos code on es ub \<longleftrightarrow> False"
  "table_step (Some code') on' pos' q pos code on [] ub \<longleftrightarrow> table_ok q pos' code' on' [] ub"
  "table_step (Some code') on' pos' q pos code on ((k, kc) # es) ub \<longleftrightarrow>
     (if k = pos then kc = code \<and> \<not> on \<and> table_ok q pos' code' on' es ub else table_ok q pos' code' on' ((k, kc) # es) ub)"
  by (simp_all add: table_step_def)

lemma unat_byte_u32 [simp]: "unat (ucast (x :: u8) :: u32) = unat x"
proof -
  have "unat x < 2 ^ LENGTH(8)" by (rule unsigned_less)
  then show ?thesis by (simp add: unsigned_ucast_eq take_bit_nat_eq_self_iff)
qed

lemmas byte_order = word_less_nat_alt word_le_nat_alt

lemma table_ok_step:
  "x < 64 \<Longrightarrow> table_ok (x # p) pos code on es ub \<longleftrightarrow>
     table_step (run_codes code [drop_bit 3 (ucast x) + 1, (ucast x AND 7) + 1]) on (pos + 1) p pos code on es ub"
  "0x80 \<le> x \<Longrightarrow> table_ok (x # p) pos code on es ub \<longleftrightarrow>
     table_step (run_codes code [ucast x - 0x80 + 1]) (\<not> on) (pos + 1) p pos code on es ub"
  "64 \<le> x \<Longrightarrow> x < 0x60 \<Longrightarrow> table_ok (x # y # p) pos code on es ub \<longleftrightarrow>
     table_step (run_codes code [(push_bit 8 (ucast x - 0x40) OR ucast y) + 1]) (\<not> on) (pos + 2) p pos code on es ub"
  "0x60 \<le> x \<Longrightarrow> x < 0x80 \<Longrightarrow> table_ok (x # y # z # p) pos code on es ub \<longleftrightarrow>
     table_step (run_codes code [(push_bit 16 (ucast x - 0x60) OR push_bit 8 (ucast y) OR ucast z) + 1]) (\<not> on) (pos + 3) p pos code on es ub"
  by (auto simp: run_step.simps Let_def byte_order table_step_def numeral_3_eq_3 split: option.splits list.splits)

lemma table_ok_cong:
  "pos = pos' \<Longrightarrow> code = code' \<Longrightarrow> on = on' \<Longrightarrow> es = es' \<Longrightarrow> ub = ub'
   \<Longrightarrow> table_ok p pos code on es ub = table_ok p pos' code' on' es' ub'"
  by simp

lemma table_step_cong:
  "r = r' \<Longrightarrow> on' = on'' \<Longrightarrow> pos' = pos'' \<Longrightarrow> es = es' \<Longrightarrow> ub = ub' \<Longrightarrow>
   table_step r on' pos' q pos code on es ub = table_step r' on'' pos'' q pos code on es' ub'"
  by simp

definition index_ok :: "u8 list \<Rightarrow> u8 list \<Rightarrow> bool" where
  "index_ok T I \<longleftrightarrow>
     (let vs = index_vals I in 2 \<le> length vs \<and> length I = 3 * length vs \<and> table_ok T 0 0 False (index_entries 0 vs) (last vs))"

lemmas check_simps = index_ok_def Let_def index_entry_def table_ok_step table_step_simps

lemmas check_congs = table_ok_cong table_step_cong

lemma table_ok_nil: "table_ok [] pos code on [] ub \<longleftrightarrow> ub = code"
  by simp

declare table_ok.simps [simp del]

lemma Cased1_ok: "index_ok unicode_prop_Cased1_table unicode_prop_Cased1_index"
  unfolding unicode_prop_Cased1_table_def unicode_prop_Cased1_index_def
  by (simp add: check_simps table_ok_nil cong: check_congs)

lemma Soft_Dotted_ok: "index_ok unicode_prop_Soft_Dotted_table unicode_prop_Soft_Dotted_index"
  unfolding unicode_prop_Soft_Dotted_table_def unicode_prop_Soft_Dotted_index_def
  by (simp add: check_simps table_ok_nil cong: check_congs)

lemma Case_Ignorable_ok: "index_ok unicode_prop_Case_Ignorable_table unicode_prop_Case_Ignorable_index"
  unfolding unicode_prop_Case_Ignorable_table_def unicode_prop_Case_Ignorable_index_def
  by (simp add: check_simps table_ok_nil cong: check_congs)

lemma ID_Start_ok: "index_ok unicode_prop_ID_Start_table unicode_prop_ID_Start_index"
  unfolding unicode_prop_ID_Start_table_def unicode_prop_ID_Start_index_def
  by (simp add: check_simps table_ok_nil cong: check_congs)

lemma ID_Continue1_ok: "index_ok unicode_prop_ID_Continue1_table unicode_prop_ID_Continue1_index"
  unfolding unicode_prop_ID_Continue1_table_def unicode_prop_ID_Continue1_index_def
  by (simp add: check_simps table_ok_nil cong: check_congs)

end
