(* ===== verification/PropLookupCorrect.thy ===== *)
theory PropLookupCorrect
  imports PropCheck CaseConvCorrect
begin

text \<open>
  The index of every property table is only an accelerator: looking a character up through it gives
  what decoding the whole table gives, and no lookup reads outside a table.
\<close>

section \<open>The set a table describes\<close>

text \<open>The run lengths of a table, and the ranges of the runs that are inside the set: the second, the
  fourth, and so on.\<close>

function table_runs :: "u8 list \<Rightarrow> nat list" where
  "table_runs [] = []"
| "table_runs (x # p) = (case run_step x p of None \<Rightarrow> [] | Some (ds, n, q) \<Rightarrow> map unat ds @ table_runs q)"
  by pat_completeness auto

termination
  by (relation "measure length") (auto dest: run_step_drop)

fun on_ranges :: "nat \<Rightarrow> bool \<Rightarrow> nat list \<Rightarrow> (nat \<times> nat) list" where
  "on_ranges a on [] = []"
| "on_ranges a on (d # ds) = (if on then [(a, a + d)] else []) @ on_ranges (a + d) (\<not> on) ds"

definition in_ranges :: "u32 \<Rightarrow> (nat \<times> nat) list \<Rightarrow> bool" where
  "in_ranges c rs \<longleftrightarrow> (\<exists>(a, b) \<in> set rs. a \<le> unat c \<and> unat c < b)"

definition table_set :: "u8 list \<Rightarrow> u32 \<Rightarrow> bool" where
  "table_set T c \<longleftrightarrow> in_ranges c (on_ranges 0 False (table_runs T))"

lemma in_ranges_simps [simp]:
  "in_ranges c [] \<longleftrightarrow> False"
  "in_ranges c ((a, b) # rs) \<longleftrightarrow> a \<le> unat c \<and> unat c < b \<or> in_ranges c rs"
  "in_ranges c (rs @ rs') \<longleftrightarrow> in_ranges c rs \<or> in_ranges c rs'"
  by (auto simp: in_ranges_def)

lemma ranges_above: "unat c < a \<Longrightarrow> \<not> in_ranges c (on_ranges a on ds)"
  by (induction ds arbitrary: a on) auto

lemma ranges_below: "a + sum_list ds \<le> unat c \<Longrightarrow> \<not> in_ranges c (on_ranges a on ds)"
  by (induction ds arbitrary: a on) auto

lemma ranges_append:
  "on_ranges a on (ds @ ds') = on_ranges a on ds @ on_ranges (a + sum_list ds) (on = even (length ds)) ds'"
proof (induction ds arbitrary: a on)
  case (Cons d ds)
  have "((\<not> on) = even (length ds)) = (on = even (length (d # ds)))" by auto
  then show ?case using Cons by (simp add: add.assoc)
qed simp

section \<open>The loop\<close>

fun in_runs :: "u32 \<Rightarrow> u32 list \<Rightarrow> u32 \<Rightarrow> bool \<Rightarrow> bool option" where
  "in_runs c [] code on = None"
| "in_runs c (d # ds) code on = (if c < code + d then Some on else in_runs c ds (code + d) (\<not> on))"

lemma in_table_loop_step:
  assumes "run_step x p = Some (ds, n, q)" "run_codes code ds = Some code'"
  shows "in_table_loop c (x # p) code on =
    (case in_runs c ds code on of Some b \<Rightarrow> Some b | None \<Rightarrow> in_table_loop c q code' (on = even (length ds)))"
  using assms by (auto simp: run_step.simps Let_def split: if_splits list.splits)

declare in_table_loop.simps [simp del]

lemma run_codes_sum:
  "run_codes code ds = Some code' \<Longrightarrow> code \<le> code' \<and> unat code' = unat code + sum_list (map unat ds)"
proof (induction ds arbitrary: code)
  case (Cons d ds)
  then have o: "code \<le> code + d" and r: "run_codes (code + d) ds = Some code'" by (auto split: if_splits)
  have "unat (code + d) = unat code + unat d" using o by (rule unat_plus_simple [THEN iffD1])
  then show ?case using Cons.IH [OF r] o by (auto simp: word_le_nat_alt)
qed simp

lemma in_runs_ranges:
  assumes "run_codes code ds = Some code'" "code \<le> c"
  shows "in_runs c ds code on = (if c < code' then Some (in_ranges c (on_ranges (unat code) on (map unat ds))) else None)"
  using assms
proof (induction ds arbitrary: code on)
  case (Cons d ds)
  then have o: "code \<le> code + d" and r: "run_codes (code + d) ds = Some code'" by (auto split: if_splits)
  have u: "unat (code + d) = unat code + unat d" using o by (rule unat_plus_simple [THEN iffD1])
  have le: "code + d \<le> code'" using run_codes_sum [OF r] by simp
  show ?case
  proof (cases "c < code + d")
    case True
    then have "unat c < unat code + unat d" using u by (simp add: word_less_nat_alt)
    moreover have "c < code'" using True le by (rule less_le_trans)
    ultimately show ?thesis using True Cons.prems(2) ranges_above [of c "unat code + unat d"]
      by (auto simp: word_le_nat_alt)
  next
    case False
    then have "\<not> unat c < unat code + unat d" using u by (simp add: word_less_nat_alt)
    then show ?thesis using False Cons.IH [OF r] u by simp
  qed
qed auto

text \<open>What the check of a table says of one step.\<close>

lemma table_ok_ConsE:
  assumes "table_ok (x # p) pos code on es ub"
  obtains ds n q code' es' where "run_step x p = Some (ds, n, q)" "run_codes code ds = Some code'"
    "table_ok q (pos + n + 1) code' (on = even (length ds)) es' ub" "n \<le> length p" "q = drop n p"
    "es = es' \<or> es = (pos, code) # es' \<and> \<not> on"
proof -
  obtain ds n q code' where s: "run_step x p = Some (ds, n, q)" "run_codes code ds = Some code'"
    using assms by (auto simp: table_ok.simps split: option.splits)
  note d = run_step_drop [OF s(1)]
  show thesis
  proof (cases es)
    case Nil
    then show ?thesis using that [OF s] d assms s by (simp add: table_ok.simps)
  next
    case (Cons e es')
    obtain k kc where e: "e = (k, kc)" by (cases e)
    show ?thesis using that [OF s _ _ _ disjI1, of es] that [OF s _ _ _ disjI2, of es'] d assms s Cons e
      by (cases "k = pos"; cases on) (auto simp: table_ok.simps)
  qed
qed

text \<open>From a step with the right code point on, the loop answers membership in the rest of the table.\<close>

lemma in_table_loop_set:
  assumes "table_ok p pos code on es ub" "code \<le> c" "c < ub"
  shows "in_table_loop c p code on = Some (in_ranges c (on_ranges (unat code) on (table_runs p)))"
  using assms
proof (induction "length p" arbitrary: p pos code on es rule: less_induct)
  case less
  show ?case
  proof (cases p)
    case Nil
    then show ?thesis using less.prems by (simp add: table_ok.simps)
  next
    case (Cons x p')
    have "table_ok (x # p') pos code on es ub" using less.prems(1) Cons by simp
    then obtain ds n q code' es' where s: "run_step x p' = Some (ds, n, q)" "run_codes code ds = Some code'"
      "table_ok q (pos + n + 1) code' (on = even (length ds)) es' ub" "n \<le> length p'" "q = drop n p'"
      by (rule table_ok_ConsE)
    have u: "unat code' = unat code + sum_list (map unat ds)" using run_codes_sum [OF s(2)] by simp
    show ?thesis
    proof (cases "c < code'")
      case True
      then have "unat c < unat code'" by (simp add: word_less_nat_alt)
      then show ?thesis using True s less.prems(2) u Cons
        by (simp add: in_table_loop_step in_runs_ranges ranges_append ranges_above)
    next
      case False
      have "in_table_loop c q code' (on = even (length ds)) = Some (in_ranges c (on_ranges (unat code') (on = even (length ds)) (table_runs q)))"
        by (rule less.hyps [OF _ s(3) _ less.prems(3)]) (use False s(5) Cons in \<open>simp_all add: not_less\<close>)
      moreover have "unat code' \<le> unat c" using False by (simp add: word_less_nat_alt)
      ultimately show ?thesis using False s less.prems(2) u Cons ranges_below [of "unat code" "map unat ds" c on]
        by (simp add: in_table_loop_step in_runs_ranges ranges_append)
    qed
  qed
qed

lemma runs_sum: "table_ok p pos code on es ub \<Longrightarrow> unat code + sum_list (table_runs p) = unat ub"
proof (induction "length p" arbitrary: p pos code on es rule: less_induct)
  case less
  show ?case
  proof (cases p)
    case Nil
    then show ?thesis using less.prems by (simp add: table_ok.simps)
  next
    case (Cons x p')
    have "table_ok (x # p') pos code on es ub" using less.prems(1) Cons by simp
    then obtain ds n q code' es' where s: "run_step x p' = Some (ds, n, q)" "run_codes code ds = Some code'"
      "table_ok q (pos + n + 1) code' (on = even (length ds)) es' ub" "n \<le> length p'" "q = drop n p'"
      by (rule table_ok_ConsE)
    have "unat code' + sum_list (table_runs q) = unat ub" by (rule less.hyps [OF _ s(3)]) (use s(5) Cons in simp)
    then show ?thesis using run_codes_sum [OF s(2)] s(1) Cons by simp
  qed
qed

text \<open>An entry of the index stands inside the table, and the loop from the start reaches it.\<close>

lemma entry_reached:
  assumes "table_ok p pos code on es ub" "(k, kc) \<in> set es"
  shows "pos \<le> k \<and> k < pos + length p \<and> code \<le> kc \<and> kc \<le> ub
     \<and> (kc \<le> c \<longrightarrow> in_table_loop c p code on = in_table_loop c (drop (k - pos) p) kc False)"
  using assms
proof (induction "length p" arbitrary: p pos code on es rule: less_induct)
  case less
  show ?case
  proof (cases p)
    case Nil
    then show ?thesis using less.prems by (simp add: table_ok.simps)
  next
    case (Cons x p')
    have "table_ok (x # p') pos code on es ub" using less.prems(1) Cons by simp
    then obtain ds n q code' es' where s: "run_step x p' = Some (ds, n, q)" "run_codes code ds = Some code'"
      "table_ok q (pos + n + 1) code' (on = even (length ds)) es' ub" "n \<le> length p'" "q = drop n p'"
      and e: "es = es' \<or> es = (pos, code) # es' \<and> \<not> on"
      by (rule table_ok_ConsE)
    consider "k = pos" "kc = code" "\<not> on" | "(k, kc) \<in> set es'" using e less.prems(2) by auto
    then show ?thesis
    proof cases
      case 1
      then show ?thesis using Cons runs_sum [OF less.prems(1)] by (simp add: word_le_nat_alt)
    next
      case 2
      have r: "pos + n + 1 \<le> k \<and> k < pos + n + 1 + length q \<and> code' \<le> kc \<and> kc \<le> ub
          \<and> (kc \<le> c \<longrightarrow> in_table_loop c q code' (on = even (length ds)) = in_table_loop c (drop (k - (pos + n + 1)) q) kc False)"
        by (rule less.hyps [OF _ s(3) 2]) (use s(5) Cons in simp)
      have c: "code \<le> code'" using run_codes_sum [OF s(2)] by simp
      have "kc \<le> c \<longrightarrow> in_table_loop c p code on = in_table_loop c q code' (on = even (length ds))"
        using s c r Cons by (auto simp: in_table_loop_step in_runs_ranges)
      moreover have "drop (k - pos) p = drop (k - (pos + n + 1)) q"
        using Cons s(5) r by (simp add: drop_Cons' add.commute)
      ultimately show ?thesis using r s(4,5) c Cons by auto
    qed
  qed
qed

section \<open>The index\<close>

lemma get_le24_vals: "i < length (index_vals I) \<Longrightarrow> get_le24 I (3 * i) = Some (index_vals I ! i)"
proof (induction I arbitrary: i rule: index_vals.induct)
  case (1 b0 b1 b2 p)
  show ?case
  proof (cases i)
    case 0
    then show ?thesis by (simp add: get_le24_def rd_def)
  next
    case (Suc j)
    have "get_le24 (b0 # b1 # b2 # p) (3 * i) = get_le24 p (3 * j)" using Suc by (simp add: get_le24_def rd_def)
    then show ?thesis using 1 Suc by simp
  qed
qed simp_all

lemma index_entries_set: "i + 1 < length vs \<Longrightarrow> index_entry (k + i) (vs ! i) \<in> set (index_entries k vs)"
proof (induction k vs arbitrary: i rule: index_entries.induct)
  case (1 k v w vs)
  show ?case
  proof (cases i)
    case (Suc j)
    then show ?thesis using 1(1) [of j] 1(2) by simp
  qed simp
qed simp_all

abbreviation index_code :: "u32 \<Rightarrow> u32" where
  "index_code v \<equiv> v AND (push_bit 21 1 - 1)"

lemma index_search_ok:
  assumes "lo < hi" "hi \<le> length (index_vals I)" "index_code (index_vals I ! lo) \<le> c"
  shows "\<exists>r. index_search c I lo hi = Some r \<and> r < hi \<and> index_code (index_vals I ! r) \<le> c"
  using assms
proof (induction "hi - lo" arbitrary: lo hi rule: less_induct)
  case less
  show ?case
  proof (cases "hi - lo > 1")
    case True
    define i where "i = (hi + lo) div 2"
    have i: "lo < i" "i < hi" using True unfolding i_def by auto
    have v: "get_le24 I (i * 3) = Some (index_vals I ! i)" using get_le24_vals [of i I] i less.prems by (simp add: mult.commute)
    show ?thesis
    proof (cases "c < index_code (index_vals I ! i)")
      case c: True
      have "\<exists>r. index_search c I lo i = Some r \<and> r < i \<and> index_code (index_vals I ! r) \<le> c"
        by (rule less.hyps) (use i less.prems in auto)
      moreover have "index_search c I lo hi = index_search c I lo i"
        using True c v by (subst index_search.simps) (simp add: Let_def i_def)
      ultimately show ?thesis using i by fastforce
    next
      case c: False
      have "\<exists>r. index_search c I i hi = Some r \<and> r < hi \<and> index_code (index_vals I ! r) \<le> c"
        by (rule less.hyps) (use i less.prems c in auto)
      moreover have "index_search c I lo hi = index_search c I i hi"
        using True c v by (subst index_search.simps) (simp add: Let_def i_def)
      ultimately show ?thesis by simp
    qed
  next
    case False
    then show ?thesis using less.prems by (subst index_search.simps) simp
  qed
qed

text \<open>A lookup through a good index decides membership in the set of the table.\<close>

lemma lre_is_in_table_set:
  assumes "index_ok T I"
  shows "lre_is_in_table c T I (length I div 3) = Some (table_set T c)"
proof -
  define vs where "vs = index_vals I"
  have l: "2 \<le> length vs" "length I div 3 = length vs" and ok: "table_ok T 0 0 False (index_entries 0 vs) (last vs)"
    using assms by (auto simp: index_ok_def vs_def Let_def)
  have g: "get_le24 I (i * 3) = Some (vs ! i)" if "i < length vs" for i
    using get_le24_vals that by (simp add: vs_def mult.commute)
  have "0 < length vs" using l by linarith
  from g [OF this] have g0: "get_le24 I 0 = Some (vs ! 0)" by simp
  have gl: "get_le24 I ((length vs - 1) * 3) = Some (last vs)" using g [of "length vs - 1"] l by (cases vs) (simp_all add: last_conv_nth)
  show ?thesis
  proof (cases "c < last vs")
    case False
    have "unat (last vs) \<le> unat c" using False by (simp add: not_less word_le_nat_alt)
    then have "\<not> table_set T c" using runs_sum [OF ok] ranges_below [of 0 "table_runs T" c False] by (simp add: table_set_def)
    moreover have "index_code (vs ! 0) \<le> last vs"
      using entry_reached [OF ok index_entries_set [of 0 vs 0, unfolded index_entry_def]] l by simp
    then have "\<not> c < index_code (vs ! 0)" using False by order
    moreover have "last vs \<le> c" using False by order
    ultimately show ?thesis using g0 gl l by (simp add: lre_is_in_table_def get_index_pos_def)
  next
    case True
    have start: "in_table_loop c T 0 False = Some (table_set T c)"
      using in_table_loop_set [OF ok _ True] by (simp add: table_set_def)
    show ?thesis
    proof (cases "c < index_code (vs ! 0)")
      case c: True
      then show ?thesis using g0 start by (simp add: lre_is_in_table_def get_index_pos_def)
    next
      case c: False
      then obtain r where r: "index_search c I 0 (length vs - 1) = Some r" "r < length vs - 1" "index_code (vs ! r) \<le> c"
        using index_search_ok [of 0 "length vs - 1" I c] l by (auto simp: vs_def not_less)
      have e: "((r + 1) * 32 + unat (drop_bit 21 (vs ! r)), index_code (vs ! r)) \<in> set (index_entries 0 vs)"
        using index_entries_set [of r vs 0] r(2) by (simp add: index_entry_def)
      note reach = entry_reached [OF ok e, of c]
      have "get_index_pos c I (length I div 3) = Some (Some ((r + 1) * 32 + unat (drop_bit 21 (vs ! r)), index_code (vs ! r)))"
        using g0 gl g [of r] r c True l by (simp add: get_index_pos_def)
      then show ?thesis using reach r(3) start by (simp add: lre_is_in_table_def)
    qed
  qed
qed

section \<open>Bytes\<close>

text \<open>The bytes of the table that have one of the bits of a mask.\<close>

definition bytes_with :: "u8 \<Rightarrow> nat list" where
  "bytes_with m = List.filter (\<lambda>n. lre_ctype_bits ! n AND m \<noteq> 0) [0..<256]"

lemma byte_in_class: "ctype c AND m \<noteq> 0 \<longleftrightarrow> unat c \<in> set (bytes_with m)"
proof -
  have "unat c < 2 ^ LENGTH(8)" by (rule unsigned_less)
  then show ?thesis by (simp add: bytes_with_def ctype_def)
qed

lemma bytes_space: "bytes_with UNICODE_C_SPACE = [9..<14] @ [32, 160]"
  by code_simp

lemma bytes_start:
  "bytes_with (UNICODE_C_UPPER OR UNICODE_C_LOWER OR UNICODE_C_UNDER OR UNICODE_C_DOLLAR) = [36] @ [65..<91] @ [95] @ [97..<123]"
  by code_simp

lemma bytes_continue:
  "bytes_with (UNICODE_C_UPPER OR UNICODE_C_LOWER OR UNICODE_C_UNDER OR UNICODE_C_DOLLAR OR UNICODE_C_DIGIT) = [36] @ [48..<58] @ [65..<91] @ [95] @ [97..<123]"
  by code_simp

lemma byte_tests:
  "lre_is_id_start_byte b \<longleftrightarrow> unat b \<in> {36, 95} \<union> {65..90} \<union> {97..122}"
  "lre_is_id_continue_byte b \<longleftrightarrow> unat b \<in> {36, 95} \<union> {48..57} \<union> {65..90} \<union> {97..122}"
  unfolding lre_is_id_start_byte_def lre_is_id_continue_byte_def byte_in_class bytes_start bytes_continue set_append set_upt
  by auto

lemma unat_low_byte: "c < 256 \<Longrightarrow> unat (ucast (c :: u32) :: u8) = unat c"
  by (simp add: unsigned_ucast_eq take_bit_nat_eq_self_iff word_less_nat_alt)

lemma space_characters:
  "lre_is_space c \<longleftrightarrow> unat c \<in> {9..13} \<union> {0x20, 0xA0, 0x1680} \<union> {0x2000..0x200A} \<union> {0x2028, 0x2029, 0x202F, 0x205F, 0x3000, 0xFEFF}"
proof (cases "c < 256")
  case True
  have "unat c < 256" using True by (simp add: word_less_nat_alt)
  then show ?thesis using True
    by (auto simp: lre_is_space_def lre_is_space_byte_def byte_in_class bytes_space unat_low_byte)
next
  case False
  then show ?thesis
    by (auto simp: lre_is_space_def lre_is_space_non_ascii_def char_range_s_def word_less_nat_alt)
qed

lemma property_tables_exact:
  "lre_is_id_start c = Some (table_set unicode_prop_ID_Start_table c)
   \<and> lre_is_id_continue c = Some (table_set unicode_prop_ID_Start_table c \<or> table_set unicode_prop_ID_Continue1_table c)
   \<and> lre_is_case_ignorable c = Some (table_set unicode_prop_Case_Ignorable_table c)
   \<and> lre_is_soft_dotted c = Some (table_set unicode_prop_Soft_Dotted_table c)
   \<and> lre_is_cased c = Some ((\<exists>v \<in> set case_conv_table1. entry_code v \<le> c \<and> c < entry_code v + entry_len v) \<or> table_set unicode_prop_Cased1_table c)"
proof -
  have s: "lre_is_id_start c = Some (table_set unicode_prop_ID_Start_table c)"
    by (simp add: lre_is_id_start_def lre_is_in_table_set ID_Start_ok)
  obtain r where r: "case_lookup c = Some r" "r \<noteq> None \<longleftrightarrow> (\<exists>v \<in> set case_conv_table1. entry_code v \<le> c \<and> c < entry_code v + entry_len v)"
  proof -
    have set: "(\<exists>v \<in> set case_conv_table1. covers v c) \<longleftrightarrow> (\<exists>i < 378. covers (case_conv_table1 ! i) c)"
      by (metis in_set_conv_nth table_length)
    obtain r where "case_lookup c = Some r" using case_lookup_ok [of c] by blast
    then show ?thesis using that [of r] set case_lookup_iff [of c] by (cases r) (auto simp: covers_def)
  qed
  have "lre_is_cased c = Some ((\<exists>v \<in> set case_conv_table1. entry_code v \<le> c \<and> c < entry_code v + entry_len v) \<or> table_set unicode_prop_Cased1_table c)"
    unfolding lre_is_cased_def r(1) bind.bind_lunit r(2) [symmetric]
    by (cases r) (simp_all add: lre_is_in_table_set Cased1_ok)
  then show ?thesis using s
    by (simp add: lre_is_id_continue_def lre_is_case_ignorable_def lre_is_soft_dotted_def lre_is_in_table_set
        Case_Ignorable_ok Soft_Dotted_ok ID_Continue1_ok)
qed

lemma identifier_characters:
  "lre_js_is_ident_first c = Some (if c < 128 then unat c \<in> {36, 95} \<union> {65..90} \<union> {97..122}
      else table_set unicode_prop_ID_Start_table c)
   \<and> lre_js_is_ident_next c = Some (if c < 128 then unat c \<in> {36, 95} \<union> {48..57} \<union> {65..90} \<union> {97..122}
      else c \<in> {0x200C, 0x200D} \<or> table_set unicode_prop_ID_Start_table c \<or> table_set unicode_prop_ID_Continue1_table c)"
proof -
  have s: "lre_is_id_start c = Some (table_set unicode_prop_ID_Start_table c)"
    by (simp add: lre_is_id_start_def lre_is_in_table_set ID_Start_ok)
  have n: "lre_is_id_continue c = Some (table_set unicode_prop_ID_Start_table c \<or> table_set unicode_prop_ID_Continue1_table c)"
    using s by (simp add: lre_is_id_continue_def lre_is_in_table_set ID_Continue1_ok)
  have j: "0x200C \<le> c \<and> c \<le> 0x200D \<longleftrightarrow> c \<in> {0x200C, 0x200D}"
  proof -
    have "0x200C \<le> c \<and> c \<le> 0x200D \<longleftrightarrow> unat c = 0x200C \<or> unat c = 0x200D" by (simp add: word_le_nat_alt) linarith
    then show ?thesis by (simp add: word_unat_eq_iff)
  qed
  show ?thesis
  proof (cases "c < 128")
    case True
    then have "unat c < 128" "c < 256" by (simp_all add: word_less_nat_alt)
    then have "lre_is_id_start_byte (ucast c) \<longleftrightarrow> unat c \<in> {36, 95} \<union> {65..90} \<union> {97..122}"
      "lre_is_id_continue_byte (ucast c) \<longleftrightarrow> unat c \<in> {36, 95} \<union> {48..57} \<union> {65..90} \<union> {97..122}"
      by (simp_all only: byte_tests unat_low_byte)
    then show ?thesis using True by (simp add: lre_js_is_ident_first_def lre_js_is_ident_next_def)
  next
    case False
    then show ?thesis using s n j by (simp add: lre_js_is_ident_first_def lre_js_is_ident_next_def)
  qed
qed

text \<open>C40: Every property table gives, through its index, exactly the set that its run lengths spell out: no
  lookup leaves a table, and none is sent to a wrong place by an entry of the index. On these rest the
  character tests of the lexer: below 128 a letter, a dollar sign or an underscore starts an
  identifier and a digit continues one; above, the Unicode tables decide, with the two joiners allowed
  inside. A character is white space exactly when ECMAScript says so: tab, line feed, vertical tab,
  form feed, carriage return, space, the no-break space, the other Unicode spaces, the line and paragraph
  separators and the byte order mark.\<close>

theorem property_lookup_exact:
  "(lre_is_id_start c = Some (table_set unicode_prop_ID_Start_table c)
   \<and> lre_is_id_continue c = Some (table_set unicode_prop_ID_Start_table c \<or> table_set unicode_prop_ID_Continue1_table c)
   \<and> lre_is_case_ignorable c = Some (table_set unicode_prop_Case_Ignorable_table c)
   \<and> lre_is_soft_dotted c = Some (table_set unicode_prop_Soft_Dotted_table c)
   \<and> lre_is_cased c = Some ((\<exists>v \<in> set case_conv_table1. entry_code v \<le> c \<and> c < entry_code v + entry_len v) \<or> table_set unicode_prop_Cased1_table c))
   \<and> lre_js_is_ident_first c = Some (if c < 128 then unat c \<in> {36, 95} \<union> {65..90} \<union> {97..122}
      else table_set unicode_prop_ID_Start_table c)
   \<and> lre_js_is_ident_next c = Some (if c < 128 then unat c \<in> {36, 95} \<union> {48..57} \<union> {65..90} \<union> {97..122}
      else c \<in> {0x200C, 0x200D} \<or> table_set unicode_prop_ID_Start_table c \<or> table_set unicode_prop_ID_Continue1_table c)
   \<and> (lre_is_space c = (unat c \<in> {9..13} \<union> {0x20, 0xA0, 0x1680} \<union> {0x2000..0x200A} \<union> {0x2028, 0x2029, 0x202F, 0x205F, 0x3000, 0xFEFF}))"
  by (rule conjI [OF property_tables_exact]) (use identifier_characters [of c] space_characters [of c] in blast)

end
