(* ===== verification/Limbs.thy ===== *)
theory Limbs
  imports Prelude CBytes
begin

text \<open>
  The limb arithmetic under the BigInts of \<open>quickjs/quickjs.c\<close>, for 64-bit limbs: the carry macro and
  the \<open>mp_\<close> functions. A pointer and a count are a list of limbs, least significant first; where a function
  reads two arrays with one count, lists of different lengths give None, an access outside the
  shorter one. In every call in place the result overwrites an argument limb by limb after it was read.
\<close>

type_synonym limb = u64
type_synonym dlimb = "128 word"

definition JS_LIMB_BITS :: nat where "JS_LIMB_BITS = 64"

definition limb_lo :: "dlimb \<Rightarrow> limb" where "limb_lo t = ucast t"
definition limb_hi :: "dlimb \<Rightarrow> limb" where "limb_hi t = ucast (drop_bit 64 t)"
definition join_limbs :: "limb \<Rightarrow> limb \<Rightarrow> dlimb" where "join_limbs hi lo = push_bit 64 (ucast hi) OR ucast lo"

text \<open>The limbs of an array from an offset on.\<close>

definition slice :: "limb list \<Rightarrow> nat \<Rightarrow> nat \<Rightarrow> limb list option" where
  "slice tab off n = (if off + n \<le> length tab then Some (take n (drop off tab)) else None)"

section \<open>Addition and subtraction\<close>

definition ADDC :: "limb \<Rightarrow> limb \<Rightarrow> limb \<Rightarrow> limb \<times> limb" where
  "ADDC op1 op2 carry_in =
     (let v = op1; a = v + op2; k1 = of_bool (a < v) :: limb; k = carry_in; a' = a + k
      in (a', of_bool (a' < k) OR k1))"

fun mp_add :: "limb list \<Rightarrow> limb list \<Rightarrow> limb \<Rightarrow> (limb list \<times> limb) option" where
  "mp_add [] [] carry = Some ([], carry)"
| "mp_add (x # xs) (y # ys) carry =
     (let (r, c) = ADDC x y carry in do { (rs, c') \<leftarrow> mp_add xs ys c; Some (r # rs, c') })"
| "mp_add _ _ _ = None"

fun mp_sub :: "limb list \<Rightarrow> limb list \<Rightarrow> limb \<Rightarrow> (limb list \<times> limb) option" where
  "mp_sub [] [] k = Some ([], k)"
| "mp_sub (v # xs) (y # ys) k =
     (let a = v - y; k1 = of_bool (a > v) :: limb; v' = a - k; k' = of_bool (v' > a) OR k1
      in do { (rs, c) \<leftarrow> mp_sub xs ys k'; Some (v' # rs, c) })"
| "mp_sub _ _ _ = None"

fun mp_neg1 :: "limb list \<Rightarrow> limb \<Rightarrow> limb list \<times> limb" where
  "mp_neg1 [] carry = ([], carry)"
| "mp_neg1 (x # xs) carry =
     (let v = NOT x + carry; (rs, c) = mp_neg1 xs (of_bool (v < carry)) in (v # rs, c))"

definition mp_neg :: "limb list \<Rightarrow> limb list \<times> limb" where
  "mp_neg xs = mp_neg1 xs 1"

section \<open>Products\<close>

fun mp_mul1 :: "limb list \<Rightarrow> limb \<Rightarrow> limb \<Rightarrow> limb list \<times> limb" where
  "mp_mul1 [] b l = ([], l)"
| "mp_mul1 (x # xs) b l =
     (let t = ucast x * ucast b + ucast l :: dlimb; (rs, h) = mp_mul1 xs b (limb_hi t) in (limb_lo t # rs, h))"

fun add_mul_loop :: "limb list \<Rightarrow> limb list \<Rightarrow> limb \<Rightarrow> limb \<Rightarrow> (limb list \<times> limb) option" where
  "add_mul_loop [] [] b l = Some ([], l)"
| "add_mul_loop (r # rs) (x # xs) b l =
     (let t = ucast x * ucast b + ucast l + ucast r :: dlimb
      in do { (rs', h) \<leftarrow> add_mul_loop rs xs b (limb_hi t); Some (limb_lo t # rs', h) })"
| "add_mul_loop _ _ b l = None"

definition mp_add_mul1 :: "limb list \<Rightarrow> limb list \<Rightarrow> limb \<Rightarrow> (limb list \<times> limb) option" where
  "mp_add_mul1 tabr taba b = add_mul_loop tabr taba b 0"

fun mul_rows :: "limb list \<Rightarrow> limb list \<Rightarrow> limb list \<Rightarrow> nat \<Rightarrow> limb list option" where
  "mul_rows result op1 [] i = Some result"
| "mul_rows result op1 (y # ys) i =
     do {
       s \<leftarrow> slice result i (length op1);
       (s', r) \<leftarrow> mp_add_mul1 s op1 y;
       result1 \<leftarrow> blit result i s';
       result2 \<leftarrow> wr result1 (i + length op1) r;
       mul_rows result2 op1 ys (i + 1)
     }"

definition mp_mul_basecase :: "limb list \<Rightarrow> limb list \<Rightarrow> limb list \<Rightarrow> limb list option" where
  "mp_mul_basecase result op1 op2 =
     do {
       b \<leftarrow> rd op2 0;
       let (rs, h) = mp_mul1 op1 b 0;
       result1 \<leftarrow> blit result 0 rs;
       result2 \<leftarrow> wr result1 (length op1) h;
       mul_rows result2 op1 (drop 1 op2) 1
     }"

fun sub_mul_loop :: "limb list \<Rightarrow> limb list \<Rightarrow> limb \<Rightarrow> limb \<Rightarrow> (limb list \<times> limb) option" where
  "sub_mul_loop [] [] b l = Some ([], l)"
| "sub_mul_loop (r # rs) (x # xs) b l =
     (let t = ucast r - ucast x * ucast b - ucast l :: dlimb
      in do { (rs', h) \<leftarrow> sub_mul_loop rs xs b (- limb_hi t); Some (limb_lo t # rs', h) })"
| "sub_mul_loop _ _ b l = None"

definition mp_sub_mul1 :: "limb list \<Rightarrow> limb list \<Rightarrow> limb \<Rightarrow> (limb list \<times> limb) option" where
  "mp_sub_mul1 tabr taba b = sub_mul_loop tabr taba b 0"

section \<open>Division by a limb\<close>

text \<open>The loops run from the most significant limb down, so the tail of the list comes first. No divisor is 0.\<close>

fun mp_div1 :: "limb list \<Rightarrow> limb \<Rightarrow> limb \<Rightarrow> limb list \<times> limb" where
  "mp_div1 [] b r = ([], r)"
| "mp_div1 (x # xs) b r =
     (let (qs, r1) = mp_div1 xs b r; a1 = join_limbs r1 x
      in (limb_lo (a1 div ucast b) # qs, limb_lo (a1 mod ucast b)))"

definition udiv1norm_init :: "limb \<Rightarrow> limb" where
  "udiv1norm_init d = (let a1 = - d - 1; a0 = - 1 in limb_lo (join_limbs a1 a0 div ucast d))"

text \<open>The result is the quotient and the remainder.\<close>

definition udiv1norm :: "limb \<Rightarrow> limb \<Rightarrow> limb \<Rightarrow> limb \<Rightarrow> limb \<times> limb" where
  "udiv1norm a1 a0 d d_inv =
     (let n1m = signed_drop_bit 63 a0;
          n_adj = a0 + (n1m AND d);
          a = ucast d_inv * ucast (a1 - n1m) + ucast n_adj :: dlimb;
          q = limb_hi a + a1;
          a = join_limbs a1 a0;
          a = a - ucast q * ucast d - ucast d;
          ah = limb_hi a;
          q = q + 1 + ah;
          r = limb_lo a + (ah AND d)
      in (q, r))"

definition UDIV1NORM_THRESHOLD :: nat where "UDIV1NORM_THRESHOLD = 3"

fun div1norm_loop :: "limb list \<Rightarrow> limb \<Rightarrow> limb \<Rightarrow> limb \<Rightarrow> limb list \<times> limb" where
  "div1norm_loop [] b b_inv r = ([], r)"
| "div1norm_loop (x # xs) b b_inv r =
     (let (qs, r1) = div1norm_loop xs b b_inv r; (q, r2) = udiv1norm r1 x b b_inv in (q # qs, r2))"

definition mp_div1norm :: "limb list \<Rightarrow> limb \<Rightarrow> limb \<Rightarrow> limb list \<times> limb" where
  "mp_div1norm taba b r =
     (if length taba \<ge> UDIV1NORM_THRESHOLD then div1norm_loop taba b (udiv1norm_init b) r
      else mp_div1 taba b r)"

section \<open>Division\<close>

text \<open>The first quotient limb: whether the high limbs of \<open>taba\<close> are at least \<open>tabb\<close>, compared from the top.\<close>

fun ge_limbs :: "limb list \<Rightarrow> nat \<Rightarrow> limb list \<Rightarrow> nat \<Rightarrow> limb option" where
  "ge_limbs taba n tabb 0 = Some 1"
| "ge_limbs taba n tabb (Suc j) =
     do {
       x \<leftarrow> rd taba (n + j);
       y \<leftarrow> rd tabb j;
       if x \<noteq> y then Some (if x < y then 0 else 1) else ge_limbs taba n tabb j
     }"

text \<open>The estimate of one quotient limb from the two high limbs.\<close>

definition quotient_limb :: "limb \<Rightarrow> limb \<Rightarrow> limb \<Rightarrow> limb \<Rightarrow> limb" where
  "quotient_limb a1 a0 b1 b1_inv =
     (if a1 \<ge> b1 then - 1
      else if b1_inv \<noteq> 0 then fst (udiv1norm a1 a0 b1 b1_inv)
      else limb_lo (join_limbs a1 a0 div ucast b1))"

text \<open>Adding the divisor back while the partial remainder, \<open>s\<close> with the high limb \<open>hi\<close>, is negative.\<close>

partial_function (option) add_back :: "limb list \<Rightarrow> limb \<Rightarrow> limb list \<Rightarrow> limb \<Rightarrow> (limb list \<times> limb \<times> limb) option" where
  "add_back s hi tabb q =
     (let q' = q - 1 in
      do {
        (s', c) \<leftarrow> mp_add s tabb 0;
        if c \<noteq> 0
        then let hi' = hi + 1 in if hi' = 0 then Some (s', hi', q') else add_back s' hi' tabb q'
        else add_back s' hi tabb q'
      })"

text \<open>One iteration: the quotient limb of index \<open>i\<close> and the array after it.\<close>

definition divnorm_step :: "limb list \<Rightarrow> limb list \<Rightarrow> limb \<Rightarrow> nat \<Rightarrow> (limb \<times> limb list) option" where
  "divnorm_step taba tabb b1_inv i =
     (let nb = length tabb in
      do {
        b1 \<leftarrow> rd tabb (nb - 1);
        a1 \<leftarrow> rd taba (i + nb);
        a0 \<leftarrow> rd taba (i + nb - 1);
        let q = quotient_limb a1 a0 b1 b1_inv;
        s \<leftarrow> slice taba i nb;
        (s', r) \<leftarrow> mp_sub_mul1 s tabb q;
        let a = a1 - r;
        (s'', hi, q') \<leftarrow> (if a > a1 then add_back s' a tabb q else Some (s', a, q));
        taba1 \<leftarrow> blit taba i s'';
        taba2 \<leftarrow> wr taba1 (i + nb) hi;
        Some (q', taba2)
      })"

fun divnorm_loop :: "limb list \<Rightarrow> limb list \<Rightarrow> limb list \<Rightarrow> limb \<Rightarrow> nat \<Rightarrow> (limb list \<times> limb list) option" where
  "divnorm_loop tabq taba tabb b1_inv 0 = Some (tabq, taba)"
| "divnorm_loop tabq taba tabb b1_inv (Suc i) =
     do {
       (q, taba1) \<leftarrow> divnorm_step taba tabb b1_inv i;
       tabq1 \<leftarrow> wr tabq i q;
       divnorm_loop tabq1 taba1 tabb b1_inv i
     }"

text \<open>The quotient and the array that holds the remainder.\<close>

definition mp_divnorm :: "limb list \<Rightarrow> limb list \<Rightarrow> limb list \<Rightarrow> (limb list \<times> limb list) option" where
  "mp_divnorm tabq taba tabb =
     (let na = length taba; nb = length tabb in
      do {
        b1 \<leftarrow> rd tabb (nb - 1);
        if nb = 1 then do {
          let (qs, r) = mp_div1norm taba b1 0;
          tabq1 \<leftarrow> blit tabq 0 qs;
          taba1 \<leftarrow> wr taba 0 r;
          Some (tabq1, taba1)
        }
        else do {
          let n = na - nb;
          let b1_inv = (if n \<ge> UDIV1NORM_THRESHOLD then udiv1norm_init b1 else 0);
          q \<leftarrow> ge_limbs taba n tabb nb;
          tabq1 \<leftarrow> wr tabq n q;
          taba1 \<leftarrow> (if q \<noteq> 0
                    then do { s \<leftarrow> slice taba n nb; (s', c) \<leftarrow> mp_sub s tabb 0; blit taba n s' }
                    else Some taba);
          divnorm_loop tabq1 taba1 tabb b1_inv n
        }
      })"

section \<open>Shifts\<close>

fun shl_loop :: "limb list \<Rightarrow> nat \<Rightarrow> limb \<Rightarrow> limb list \<times> limb" where
  "shl_loop [] shift l = ([], l)"
| "shl_loop (v # vs) shift l =
     (let (rs, h) = shl_loop vs shift (drop_bit (64 - shift) v) in ((push_bit shift v OR l) # rs, h))"

definition mp_shl :: "limb list \<Rightarrow> nat \<Rightarrow> limb list \<times> limb" where
  "mp_shl taba shift = shl_loop taba shift 0"

fun shr_loop :: "limb list \<Rightarrow> nat \<Rightarrow> limb \<Rightarrow> limb list \<times> limb" where
  "shr_loop [] shift l = ([], l)"
| "shr_loop (a # as) shift l =
     (let (rs, l1) = shr_loop as shift l in ((drop_bit shift a OR push_bit (64 - shift) l1) # rs, a))"

definition mp_shr :: "limb list \<Rightarrow> nat \<Rightarrow> limb \<Rightarrow> limb list \<times> limb" where
  "mp_shr tab shift high =
     (let (rs, l) = shr_loop tab shift high in (rs, l AND (push_bit shift 1 - 1)))"

end
