(* ===== verification/BigInt.thy ===== *)
theory BigInt
  imports Limbs
begin

text \<open>
  The arbitrary precision integers of \<open>quickjs/quickjs.c\<close>. A BigInt is the list of its limbs in two's complement,
  least significant first. A result is None for an undefined access, \<open>Inl\<close> with the pending exception
  where the code returns NULL, and \<open>Inr\<close> with the new BigInt. Every operation takes the outcomes of its allocations:
  site \<open>k\<close> fails, or returns memory with arbitrary contents.
\<close>

type_synonym JSBigInt = "limb list"

datatype bigint_error = Too_Large_To_Allocate | Out_Of_Memory | Division_By_Zero | Negative_Exponent | Too_Large

type_synonym 'a res = "(bigint_error + 'a) option"
type_synonym alloc = "(nat \<Rightarrow> limb) option"

definition andthen :: "'a res \<Rightarrow> ('a \<Rightarrow> 'b res) \<Rightarrow> 'b res" where
  "andthen x f = do { r \<leftarrow> x; case r of Inl e \<Rightarrow> Some (Inl e) | Inr a \<Rightarrow> f a }"

definition JS_BIGINT_MAX_SIZE :: nat where "JS_BIGINT_MAX_SIZE = (1024 * 1024) div JS_LIMB_BITS"

section \<open>Creation\<close>

definition js_malloc :: "alloc \<Rightarrow> nat \<Rightarrow> limb list res" where
  "js_malloc al n = Some (case al of None \<Rightarrow> Inl Out_Of_Memory | Some contents \<Rightarrow> Inr (map contents [0..<n]))"

definition js_bigint_new :: "alloc \<Rightarrow> nat \<Rightarrow> JSBigInt res" where
  "js_bigint_new al len = (if len > JS_BIGINT_MAX_SIZE then Some (Inl Too_Large_To_Allocate) else js_malloc al len)"

text \<open>The buffer on the stack that \<open>js_bigint_set_si\<close> fills.\<close>

definition js_bigint_set_si :: "limb \<Rightarrow> JSBigInt" where "js_bigint_set_si a = [a]"
definition js_bigint_set_si64 :: "u64 \<Rightarrow> JSBigInt" where "js_bigint_set_si64 a = js_bigint_set_si a"

definition js_bigint_new_si :: "alloc \<Rightarrow> limb \<Rightarrow> JSBigInt res" where
  "js_bigint_new_si al a = andthen (js_bigint_new al 1) (\<lambda>r. do { r1 \<leftarrow> wr r 0 a; Some (Inr r1) })"

definition js_bigint_new_si64 :: "alloc \<Rightarrow> u64 \<Rightarrow> JSBigInt res" where
  "js_bigint_new_si64 al a = js_bigint_new_si al a"

definition js_bigint_new_ui64 :: "alloc \<Rightarrow> u64 \<Rightarrow> JSBigInt res" where
  "js_bigint_new_ui64 al a =
     (if a \<le> 0x7FFFFFFFFFFFFFFF then js_bigint_new_si64 al a
      else andthen (js_bigint_new al ((65 + JS_LIMB_BITS - 1) div JS_LIMB_BITS))
             (\<lambda>r. do { r1 \<leftarrow> wr r 0 a; r2 \<leftarrow> wr r1 1 0; Some (Inr r2) }))"

text \<open>\<open>a == (js_slimb_t)a\<close> compares with the sign extension of the low limb.\<close>

definition js_bigint_new_di :: "alloc \<Rightarrow> dlimb \<Rightarrow> JSBigInt res" where
  "js_bigint_new_di al a =
     (if a = scast (limb_lo a) then andthen (js_bigint_new al 1) (\<lambda>r. do { r1 \<leftarrow> wr r 0 (limb_lo a); Some (Inr r1) })
      else andthen (js_bigint_new al 2)
             (\<lambda>r. do { r1 \<leftarrow> wr r 0 (limb_lo a); r2 \<leftarrow> wr r1 1 (limb_hi a); Some (Inr r2) }))"

section \<open>Normal form\<close>

fun normalize_len :: "limb list \<Rightarrow> nat \<Rightarrow> nat option" where
  "normalize_len tab (Suc (Suc l)) =
     do {
       v \<leftarrow> rd tab (Suc l);
       w \<leftarrow> rd tab l;
       if (v \<noteq> 0 \<and> v \<noteq> - 1) \<or> v AND 1 \<noteq> drop_bit (JS_LIMB_BITS - 1) w then Some (Suc (Suc l))
       else normalize_len tab (Suc l)
     }"
| "normalize_len tab l = Some l"

text \<open>The reallocation to the smaller size may fail without effect on the value.\<close>

definition js_bigint_normalize1 :: "limb list \<Rightarrow> nat \<Rightarrow> JSBigInt res" where
  "js_bigint_normalize1 a l = do { l' \<leftarrow> normalize_len a l; Some (Inr (take l' a)) }"

definition js_bigint_normalize :: "limb list \<Rightarrow> JSBigInt res" where
  "js_bigint_normalize a = js_bigint_normalize1 a (length a)"

text \<open>The sign bit of the last limb; a BigInt has at least one.\<close>

definition js_bigint_sign :: "JSBigInt \<Rightarrow> limb" where
  "js_bigint_sign a = drop_bit (JS_LIMB_BITS - 1) (last a)"

definition js_bigint_get_si_sat :: "JSBigInt \<Rightarrow> int" where
  "js_bigint_get_si_sat a =
     (if length a = 1 then sint (hd a)
      else if js_bigint_sign a \<noteq> 0 then - (2 ^ 63) else 2 ^ 63 - 1)"

definition js_bigint_extend :: "alloc \<Rightarrow> limb list \<Rightarrow> limb \<Rightarrow> JSBigInt res" where
  "js_bigint_extend al r op1 =
     (if (op1 \<noteq> 0 \<and> op1 \<noteq> - 1) \<or> op1 AND 1 \<noteq> drop_bit (JS_LIMB_BITS - 1) (last r)
      then Some (case al of None \<Rightarrow> Inl Out_Of_Memory | Some contents \<Rightarrow> Inr (r @ [op1]))
      else js_bigint_normalize r)"

section \<open>Sums and products\<close>

text \<open>The loops over \<open>ADDC\<close>, on the pairs of operands.\<close>

fun addc_loop :: "(limb \<times> limb) list \<Rightarrow> limb \<Rightarrow> limb list \<times> limb" where
  "addc_loop [] carry = ([], carry)"
| "addc_loop ((op1, op2) # ps) carry =
     (let (r, c) = ADDC op1 op2 carry; (rs, c') = addc_loop ps c in (r # rs, c'))"

definition js_bigint_add :: "(nat \<Rightarrow> alloc) \<Rightarrow> JSBigInt \<Rightarrow> JSBigInt \<Rightarrow> bool \<Rightarrow> JSBigInt res" where
  "js_bigint_add m a b b_neg =
     (let n2 = max (length a) (length b); n1 = min (length a) (length b) in
      andthen (js_bigint_new (m 0) n2) (\<lambda>r.
        let flip = - of_bool b_neg :: limb;
            (rs1, carry1) = addc_loop (map (\<lambda>i. (a ! i, b ! i XOR flip)) [0..<n1]) (of_bool b_neg);
            a_sign = - js_bigint_sign a;
            b_sign = (- js_bigint_sign b) XOR flip;
            (rs2, carry) =
              (if length a > length b then addc_loop (map (\<lambda>i. (a ! i, b_sign)) [n1..<n2]) carry1
               else if length a < length b then addc_loop (map (\<lambda>i. (a_sign, b ! i XOR flip)) [n1..<n2]) carry1
               else ([], carry1))
        in do {
          r1 \<leftarrow> blit r 0 rs1;
          r2 \<leftarrow> blit r1 n1 rs2;
          js_bigint_extend (m 1) r2 (a_sign + b_sign + carry)
        }))"

definition js_bigint_neg :: "(nat \<Rightarrow> alloc) \<Rightarrow> JSBigInt \<Rightarrow> JSBigInt res" where
  "js_bigint_neg m a = js_bigint_add m (js_bigint_set_si 0) a True"

text \<open>\<open>mp_sub\<close> in place from an offset on, as the correction for negative operands.\<close>

definition sub_at :: "limb list \<Rightarrow> nat \<Rightarrow> limb list \<Rightarrow> limb list option" where
  "sub_at r off b = do { s \<leftarrow> slice r off (length b); (s', k) \<leftarrow> mp_sub s b 0; blit r off s' }"

definition js_bigint_mul :: "(nat \<Rightarrow> alloc) \<Rightarrow> JSBigInt \<Rightarrow> JSBigInt \<Rightarrow> JSBigInt res" where
  "js_bigint_mul m a b =
     andthen (js_bigint_new (m 0) (length a + length b)) (\<lambda>r. do {
       r1 \<leftarrow> mp_mul_basecase r a b;
       r2 \<leftarrow> (if js_bigint_sign a \<noteq> 0 then sub_at r1 (length a) b else Some r1);
       r3 \<leftarrow> (if js_bigint_sign b \<noteq> 0 then sub_at r2 (length b) a else Some r2);
       js_bigint_normalize r3
     })"

section \<open>Division\<close>

fun trim_len :: "limb list \<Rightarrow> nat \<Rightarrow> nat option" where
  "trim_len tab (Suc (Suc n)) = do { v \<leftarrow> rd tab (Suc n); if v = 0 then trim_len tab (Suc n) else Some (Suc (Suc n)) }"
| "trim_len tab n = Some n"

text \<open>The absolute value into the start of an array.\<close>

definition put_abs :: "limb list \<Rightarrow> JSBigInt \<Rightarrow> limb list option" where
  "put_abs tab a = blit tab 0 (if js_bigint_sign a \<noteq> 0 then fst (mp_neg a) else a)"

text \<open>The result of the division, from the quotient in \<open>q\<close> and the remainder in the first \<open>nb\<close> limbs of \<open>r\<close>.\<close>

definition divrem_result :: "limb list \<Rightarrow> limb list \<Rightarrow> nat \<Rightarrow> nat \<Rightarrow> nat \<Rightarrow> bool \<Rightarrow> bool \<Rightarrow> bool \<Rightarrow> JSBigInt res" where
  "divrem_result q r na nb shift a_sign b_sign is_rem =
     (if is_rem then do {
        s \<leftarrow> slice r 0 nb;
        r1 \<leftarrow> (if shift \<noteq> 0 then blit r 0 (fst (mp_shr s shift 0)) else Some r);
        r2 \<leftarrow> wr r1 nb 0;
        s2 \<leftarrow> slice r2 0 (nb + 1);
        r3 \<leftarrow> (if a_sign then blit r2 0 (fst (mp_neg s2)) else Some r2);
        js_bigint_normalize1 r3 (nb + 1)
      }
      else do {
        q1 \<leftarrow> wr q (na - nb + 1) 0;
        js_bigint_normalize (if a_sign \<noteq> b_sign then fst (mp_neg q1) else q1)
      })"

text \<open>The division of normalised operands, \<open>na\<close> limbs of \<open>r\<close> and \<open>nb\<close> limbs of \<open>tabb\<close>.\<close>

definition divrem_norm :: "alloc \<Rightarrow> limb list \<Rightarrow> nat \<Rightarrow> limb list \<Rightarrow> nat \<Rightarrow> nat \<Rightarrow> bool \<Rightarrow> bool \<Rightarrow> bool \<Rightarrow> JSBigInt res" where
  "divrem_norm al r na tabb nb shift a_sign b_sign is_rem =
     andthen (js_bigint_new al (na - nb + 2)) (\<lambda>q. do {
       ra \<leftarrow> slice r 0 na;
       rb \<leftarrow> slice tabb 0 nb;
       (q1, ra') \<leftarrow> mp_divnorm q ra rb;
       r1 \<leftarrow> blit r 0 ra';
       divrem_result q1 r1 na nb shift a_sign b_sign is_rem
     })"

text \<open>Both operands are shifted until the divisor has its high bit set.\<close>

definition divrem_shift :: "alloc \<Rightarrow> limb list \<Rightarrow> nat \<Rightarrow> limb list \<Rightarrow> nat \<Rightarrow> bool \<Rightarrow> bool \<Rightarrow> bool \<Rightarrow> JSBigInt res" where
  "divrem_shift al r na tabb nb a_sign b_sign is_rem =
     do {
       v \<leftarrow> rd tabb (nb - 1);
       shift \<leftarrow> clz64 v;
       if shift \<noteq> 0 then do {
         sb \<leftarrow> slice tabb 0 nb;
         tabb1 \<leftarrow> blit tabb 0 (fst (mp_shl sb shift));
         sa \<leftarrow> slice r 0 na;
         let (sa', h) = mp_shl sa shift;
         r1 \<leftarrow> blit r 0 sa';
         if h \<noteq> 0
         then do { r2 \<leftarrow> wr r1 na h; divrem_norm al r2 (na + 1) tabb1 nb shift a_sign b_sign is_rem }
         else divrem_norm al r1 na tabb1 nb shift a_sign b_sign is_rem
       }
       else divrem_norm al r na tabb nb 0 a_sign b_sign is_rem
     }"

text \<open>The division once the absolute value of \<open>a\<close>, of \<open>na\<close> limbs, is in \<open>r\<close>.\<close>

definition divrem_abs :: "(nat \<Rightarrow> alloc) \<Rightarrow> JSBigInt \<Rightarrow> limb list \<Rightarrow> nat \<Rightarrow> JSBigInt \<Rightarrow> bool \<Rightarrow> limb list \<Rightarrow> JSBigInt res" where
  "divrem_abs m a r na b is_rem tabb =
     do {
       tabb1 \<leftarrow> put_abs tabb b;
       nb \<leftarrow> trim_len tabb1 (length b);
       if na < nb then
         (if is_rem
          then andthen (js_bigint_new (m 2) (length a)) (\<lambda>r. do { r1 \<leftarrow> blit r 0 a; Some (Inr r1) })
          else js_bigint_new_si (m 2) 0)
       else divrem_shift (m 3) r na tabb1 nb (js_bigint_sign a \<noteq> 0) (js_bigint_sign b \<noteq> 0) is_rem
     }"

definition js_bigint_divrem :: "(nat \<Rightarrow> alloc) \<Rightarrow> JSBigInt \<Rightarrow> JSBigInt \<Rightarrow> bool \<Rightarrow> JSBigInt res" where
  "js_bigint_divrem m a b is_rem =
     (if length b = 1 \<and> b ! 0 = 0 then Some (Inl Division_By_Zero)
      else andthen (js_bigint_new (m 0) (length a + 2)) (\<lambda>r. do {
        r1 \<leftarrow> put_abs r a;
        na \<leftarrow> trim_len r1 (length a);
        andthen (js_malloc (m 1) (length b)) (divrem_abs m a r1 na b is_rem)
      }))"

section \<open>Bitwise operations and shifts\<close>

datatype bigint_op = OP_or | OP_and | OP_xor

fun limb_op :: "bigint_op \<Rightarrow> limb \<Rightarrow> limb \<Rightarrow> limb" where
  "limb_op OP_or x y = x OR y"
| "limb_op OP_and x y = x AND y"
| "limb_op OP_xor x y = x XOR y"

text \<open>After the exchange that makes \<open>a\<close> the longer operand.\<close>

definition logic_ordered :: "alloc \<Rightarrow> JSBigInt \<Rightarrow> JSBigInt \<Rightarrow> bigint_op \<Rightarrow> JSBigInt res" where
  "logic_ordered al a b op =
     (let a_len = length a; b_len = length b; b_sign = - js_bigint_sign b in
      andthen (js_bigint_new al a_len) (\<lambda>r. do {
        r1 \<leftarrow> blit r 0 (map (\<lambda>i. limb_op op (a ! i) (b ! i)) [0..<b_len]);
        r2 \<leftarrow> blit r1 b_len (map (\<lambda>i. limb_op op (a ! i) b_sign) [b_len..<a_len]);
        js_bigint_normalize r2
      }))"

definition js_bigint_logic :: "(nat \<Rightarrow> alloc) \<Rightarrow> JSBigInt \<Rightarrow> JSBigInt \<Rightarrow> bigint_op \<Rightarrow> JSBigInt res" where
  "js_bigint_logic m a b op =
     (if length a < length b then logic_ordered (m 0) b a op else logic_ordered (m 0) a b op)"

definition js_bigint_not :: "(nat \<Rightarrow> alloc) \<Rightarrow> JSBigInt \<Rightarrow> JSBigInt res" where
  "js_bigint_not m a =
     andthen (js_bigint_new (m 0) (length a)) (\<lambda>r. do { r1 \<leftarrow> blit r 0 (map (\<lambda>x. NOT x) a); Some (Inr r1) })"

definition js_bigint_shl :: "(nat \<Rightarrow> alloc) \<Rightarrow> JSBigInt \<Rightarrow> u32 \<Rightarrow> JSBigInt res" where
  "js_bigint_shl m a shift1 =
     (if length a = 1 \<and> a ! 0 = 0 then js_bigint_new_si (m 0) 0
      else let d = unat shift1 div JS_LIMB_BITS; shift = unat shift1 mod JS_LIMB_BITS in
        andthen (js_bigint_new (m 0) (length a + d)) (\<lambda>r. do {
          r1 \<leftarrow> blit r 0 (replicate d 0);
          if shift = 0 then do { r2 \<leftarrow> blit r1 d a; Some (Inr r2) }
          else do {
            let (rs, l) = mp_shl a shift;
            r2 \<leftarrow> blit r1 d rs;
            js_bigint_extend (m 1) r2 (if js_bigint_sign a \<noteq> 0 then l OR push_bit shift (- 1) else l)
          }
        }))"

definition js_bigint_shr :: "(nat \<Rightarrow> alloc) \<Rightarrow> JSBigInt \<Rightarrow> u32 \<Rightarrow> JSBigInt res" where
  "js_bigint_shr m a shift1 =
     (let d = unat shift1 div JS_LIMB_BITS; shift = unat shift1 mod JS_LIMB_BITS; a_sign = js_bigint_sign a in
      if d \<ge> length a then js_bigint_new_si (m 0) (- a_sign)
      else let n1 = length a - d in
        andthen (js_bigint_new (m 0) n1) (\<lambda>r. do {
          s \<leftarrow> slice a d n1;
          if shift = 0 then do { r1 \<leftarrow> blit r 0 s; Some (Inr r1) }
          else do {
            r1 \<leftarrow> blit r 0 (fst (mp_shr s shift (- a_sign)));
            js_bigint_normalize r1
          }
        }))"

section \<open>Powers\<close>

text \<open>The squarings for the bits of \<open>e\<close> below the highest; iteration \<open>i\<close> has its own allocations.\<close>

fun pow_loop :: "(nat \<Rightarrow> alloc) \<Rightarrow> JSBigInt \<Rightarrow> u32 \<Rightarrow> nat \<Rightarrow> JSBigInt \<Rightarrow> JSBigInt res" where
  "pow_loop m a e 0 r = Some (Inr r)"
| "pow_loop m a e (Suc i) r =
     andthen (js_bigint_mul (\<lambda>k. m (2 * i)) r r) (\<lambda>r1.
       if drop_bit i e AND 1 \<noteq> 0
       then andthen (js_bigint_mul (\<lambda>k. m (2 * i + 1)) r1 a) (pow_loop m a e i)
       else pow_loop m a e i r1)"

text \<open>A power of a power of two; \<open>v\<close> is the absolute value of the base.\<close>

definition pow_of_two :: "alloc \<Rightarrow> limb \<Rightarrow> bool \<Rightarrow> JSBigInt \<Rightarrow> JSBigInt res" where
  "pow_of_two al v is_neg b =
     do {
       lz \<leftarrow> clz64 v;
       let n = JS_LIMB_BITS - 1 - lz;
       if length b > 1 then Some (Inl Too_Large)
       else if b ! 0 > 0x7FFFFFFF then Some (Inl Too_Large)
       else if unat (b ! 0) * n > JS_BIGINT_MAX_SIZE * JS_LIMB_BITS then Some (Inl Too_Large)
       else let e = unat (b ! 0) * n; neg = (is_neg \<and> b ! 0 AND 1 \<noteq> 0) in
         andthen (js_bigint_new al ((e + JS_LIMB_BITS + 1 - of_bool neg) div JS_LIMB_BITS)) (\<lambda>r. do {
           r1 \<leftarrow> wr (replicate (length r) 0) (e div JS_LIMB_BITS)
                  (push_bit (e mod JS_LIMB_BITS) (1 - 2 * of_bool neg));
           Some (Inr r1)
         })
     }"

definition pow_general :: "(nat \<Rightarrow> alloc) \<Rightarrow> JSBigInt \<Rightarrow> JSBigInt \<Rightarrow> JSBigInt res" where
  "pow_general m a b =
     (if length b > 1 then Some (Inl Too_Large)
      else if b ! 0 > 0x7FFFFFFF then Some (Inl Too_Large)
      else let e = ucast (b ! 0) :: u32 in
        do {
          lz \<leftarrow> clz32 e;
          andthen (js_bigint_new (m 0) (length a)) (\<lambda>r. do {
            r1 \<leftarrow> blit r 0 a;
            pow_loop (\<lambda>k. m (k + 1)) a e (32 - lz - 1) r1
          })
        })"

definition js_bigint_pow :: "(nat \<Rightarrow> alloc) \<Rightarrow> JSBigInt \<Rightarrow> JSBigInt \<Rightarrow> JSBigInt res" where
  "js_bigint_pow m a b =
     (if js_bigint_sign b \<noteq> 0 then Some (Inl Negative_Exponent)
      else if length b = 1 \<and> b ! 0 = 0 then js_bigint_new_si (m 0) 1
      else if length a = 1 \<and> a ! 0 \<le> 1 then js_bigint_new_si (m 0) (a ! 0)
      else if length a = 1 \<and> a ! 0 = - 1 then js_bigint_new_si (m 0) (1 - 2 * (b ! 0 AND 1))
      else let is_neg = sint (a ! 0) < 0; v = (if is_neg then - (a ! 0) else a ! 0) in
        if length a = 1 \<and> v AND (v - 1) = 0 then pow_of_two (m 0) v is_neg b
        else pow_general m a b)"

section \<open>Comparison\<close>

text \<open>The limbs from the top down.\<close>

fun cmp_limbs :: "JSBigInt \<Rightarrow> JSBigInt \<Rightarrow> nat \<Rightarrow> int option" where
  "cmp_limbs a b 0 = Some 0"
| "cmp_limbs a b (Suc i) =
     do {
       x \<leftarrow> rd a i;
       y \<leftarrow> rd b i;
       if x \<noteq> y then Some (if x < y then - 1 else 1) else cmp_limbs a b i
     }"

definition js_bigint_cmp :: "JSBigInt \<Rightarrow> JSBigInt \<Rightarrow> int option" where
  "js_bigint_cmp a b =
     (let a_sign = uint (js_bigint_sign a); b_sign = uint (js_bigint_sign b) in
      if a_sign \<noteq> b_sign then Some (1 - 2 * a_sign)
      else if length a \<noteq> length b then Some (if length a < length b then 2 * a_sign - 1 else 1 - 2 * a_sign)
      else cmp_limbs a b (length a))"

end
