(* ===== verification/LimbsCorrect.thy ===== *)
theory LimbsCorrect
  imports Limbs
begin

text \<open>
  What the limb functions compute, as integers: \<open>lv\<close> is the value of a list of limbs and \<open>W\<close> the base.
\<close>

definition W :: int where "W = 2 ^ 64"

definition lv :: "limb list \<Rightarrow> int" where
  "lv = horner_sum uint W"

lemma lv_simps [simp]: "lv [] = 0" "lv (x # xs) = uint x + W * lv xs"
  by (simp_all add: lv_def)

lemma lv_append: "lv (xs @ ys) = lv xs + W ^ length xs * lv ys"
  by (simp add: lv_def horner_sum_append)

lemma W_pos [simp]: "0 < W" "0 \<le> W" "1 < W" "1 \<le> W" "W \<noteq> 0" "0 < W ^ n" "0 \<le> W ^ n"
  by (simp_all add: W_def)

lemma uint_limb: "0 \<le> uint (x :: limb)" "uint (x :: limb) < W"
  using uint_bounded [of x] by (simp_all add: W_def)

lemma lv_bounds: "0 \<le> lv xs" "lv xs < W ^ length xs"
proof -
  have "0 \<le> lv xs \<and> lv xs < W ^ length xs"
  proof (induction xs)
    case (Cons x xs)
    then have "W * (lv xs + 1) \<le> W * W ^ length xs" by (intro mult_left_mono) simp_all
    moreover have "0 \<le> W * lv xs" using Cons by (intro mult_nonneg_nonneg) simp_all
    ultimately show ?case using uint_limb [of x] Cons by (simp add: distrib_left)
  qed simp
  then show "0 \<le> lv xs" "lv xs < W ^ length xs" by simp_all
qed

lemma lv_replicate_0 [simp]: "lv (replicate n 0) = 0"
  by (induction n) simp_all

text \<open>A number below the base and a multiple of the base are told apart.\<close>

lemma W_split: "a + W * b = c + W * d \<Longrightarrow> 0 \<le> a \<Longrightarrow> a < W \<Longrightarrow> 0 \<le> c \<Longrightarrow> c < W \<Longrightarrow> a = c \<and> b = d"
proof -
  assume h: "a + W * b = c + W * d" "0 \<le> a" "a < W" "0 \<le> c" "c < W"
  have "(a + W * b) mod W = a" using h(2,3) by simp
  moreover have "(c + W * d) mod W = c" using h(4,5) by simp
  ultimately have "a = c" unfolding h(1) by (rule trans [OF sym])
  then show ?thesis using h(1) by simp
qed

lemma lv_inj: "length xs = length ys \<Longrightarrow> lv xs = lv ys \<Longrightarrow> xs = ys"
proof (induction xs ys rule: list_induct2)
  case (Cons x xs y ys)
  then have "uint x = uint y \<and> lv xs = lv ys" using uint_limb [of x] uint_limb [of y] by (intro W_split) simp_all
  then show ?case using Cons by (simp add: word_uint_eq_iff)
qed simp

section \<open>Addition and subtraction\<close>

lemma bit_or: "of_bool P OR of_bool Q = (of_bool (P \<or> Q) :: limb)"
  by (cases P; cases Q) simp_all

lemmas uint_limb_arith = uint_plus_if' uint_sub_if' word_less_def W_def

lemma add_limb_value:
  assumes "r = x + y + of_bool K" "c \<longleftrightarrow> r < of_bool K \<or> x + y < x"
  shows "uint (r :: limb) + W * of_bool c = uint x + uint y + of_bool K"
  unfolding assms using uint_limb [of x] uint_limb [of y]
  by (cases K) (auto simp: uint_limb_arith, (use uint_limb [of x] uint_limb [of y] in linarith)+)

lemma sub_limb_value:
  assumes "r = x - y - of_bool K" "c \<longleftrightarrow> r > x - y \<or> x - y > x"
  shows "uint (r :: limb) - W * of_bool c = uint x - uint y - of_bool K"
  unfolding assms using uint_limb [of x] uint_limb [of y]
  by (cases K) (auto simp: uint_limb_arith, (use uint_limb [of x] uint_limb [of y] in linarith)+)

lemma uint_not: "uint (NOT x :: limb) = W - 1 - uint x"
proof -
  have "NOT x = - 1 - x" by (simp add: not_eq_complement)
  moreover have "uint (- 1 :: limb) = W - 1" by (simp add: W_def unsigned_minus_1_eq_mask mask_eq_exp_minus_1)
  ultimately show ?thesis using uint_limb [of x] by (simp add: uint_sub_if')
qed

lemma neg_limb_value:
  assumes "r = NOT x + of_bool K" "c \<longleftrightarrow> r < (of_bool K :: limb)"
  shows "uint r + W * of_bool c = W - 1 - uint x + of_bool K"
proof -
  have n: "uint (NOT x) = W - 1 - uint x" by (rule uint_not)
  show ?thesis unfolding assms using uint_limb [of x] n
    by (cases K) (auto simp: uint_plus_if' word_less_def W_def, (use uint_limb [of x] in linarith)+)
qed

lemma mp_add_value:
  assumes "length xs = length ys"
  shows "\<exists>rs c. mp_add xs ys (of_bool K) = Some (rs, of_bool c) \<and> length rs = length xs
    \<and> lv rs + W ^ length xs * of_bool c = lv xs + lv ys + of_bool K"
  using assms
proof (induction xs ys arbitrary: K rule: list_induct2)
  case (Cons x xs y ys)
  define r where "r = x + y + of_bool K"
  define B where "B \<longleftrightarrow> r < of_bool K \<or> x + y < x"
  have v: "uint r + W * of_bool B = uint x + uint y + of_bool K" by (rule add_limb_value [OF r_def B_def])
  have a: "ADDC x y (of_bool K) = (r, of_bool B)" by (simp add: ADDC_def Let_def bit_or r_def B_def)
  obtain rs c where i: "mp_add xs ys (of_bool B) = Some (rs, of_bool c)" "length rs = length xs"
    "lv rs + W ^ length xs * of_bool c = lv xs + lv ys + of_bool B"
    using Cons.IH by blast
  have "lv (r # rs) + W ^ length (x # xs) * of_bool c = lv (x # xs) + lv (y # ys) + of_bool K"
    using v arg_cong [OF i(3), of "\<lambda>z. W * z"] by (simp add: algebra_simps)
  then show ?case using a i(1,2) by (intro exI [of _ "r # rs"] exI [of _ c]) simp
qed (auto intro: exI [of _ "K"])

lemma mp_sub_value:
  assumes "length xs = length ys"
  shows "\<exists>rs c. mp_sub xs ys (of_bool K) = Some (rs, of_bool c) \<and> length rs = length xs
    \<and> lv rs - W ^ length xs * of_bool c = lv xs - lv ys - of_bool K"
  using assms
proof (induction xs ys arbitrary: K rule: list_induct2)
  case (Cons x xs y ys)
  define r where "r = x - y - of_bool K"
  define B where "B \<longleftrightarrow> r > x - y \<or> x - y > x"
  have v: "uint r - W * of_bool B = uint x - uint y - of_bool K" by (rule sub_limb_value [OF r_def B_def])
  obtain rs c where i: "mp_sub xs ys (of_bool B) = Some (rs, of_bool c)" "length rs = length xs"
    "lv rs - W ^ length xs * of_bool c = lv xs - lv ys - of_bool B"
    using Cons.IH by blast
  have "mp_sub (x # xs) (y # ys) (of_bool K) = Some (r # rs, of_bool c)"
    using i(1) by (simp add: Let_def bit_or r_def B_def)
  moreover have "lv (r # rs) - W ^ length (x # xs) * of_bool c = lv (x # xs) - lv (y # ys) - of_bool K"
    using v arg_cong [OF i(3), of "\<lambda>z. W * z"] by (simp add: algebra_simps)
  ultimately show ?case using i(2) by (intro exI [of _ "r # rs"] exI [of _ c]) simp
qed (auto intro: exI [of _ "K"])

lemma mp_neg1_value:
  "\<exists>rs c. mp_neg1 xs (of_bool K) = (rs, of_bool c) \<and> length rs = length xs
    \<and> lv rs + W ^ length xs * of_bool c = W ^ length xs - 1 - lv xs + of_bool K"
proof (induction xs arbitrary: K)
  case (Cons x xs)
  define r where "r = NOT x + of_bool K"
  define B where "B \<longleftrightarrow> r < of_bool K"
  have v: "uint r + W * of_bool B = W - 1 - uint x + of_bool K" by (rule neg_limb_value [OF r_def B_def])
  obtain rs c where i: "mp_neg1 xs (of_bool B) = (rs, of_bool c)" "length rs = length xs"
    "lv rs + W ^ length xs * of_bool c = W ^ length xs - 1 - lv xs + of_bool B"
    using Cons.IH by blast
  have "mp_neg1 (x # xs) (of_bool K) = (r # rs, of_bool c)"
    using i(1) by (simp add: Let_def r_def B_def)
  moreover have "lv (r # rs) + W ^ length (x # xs) * of_bool c = W ^ length (x # xs) - 1 - lv (x # xs) + of_bool K"
    using v arg_cong [OF i(3), of "\<lambda>z. W * z"] by (simp add: algebra_simps)
  ultimately show ?case using i(2) by (intro exI [of _ "r # rs"] exI [of _ c]) simp
qed (auto intro: exI [of _ "K"])

lemma mp_neg_value:
  "\<exists>rs c. mp_neg xs = (rs, c) \<and> length rs = length xs \<and> lv rs = (if lv xs = 0 then 0 else W ^ length xs - lv xs)"
proof -
  obtain rs c where r: "mp_neg1 xs (of_bool True) = (rs, of_bool c)" "length rs = length xs"
    "lv rs + W ^ length xs * of_bool c = W ^ length xs - 1 - lv xs + of_bool True"
    using mp_neg1_value by blast
  show ?thesis
    using r lv_bounds [of xs] lv_bounds [of rs] by (cases c) (auto simp: mp_neg_def)
qed

section \<open>Products\<close>

lemma uint_dlimb: "uint (ucast (x :: limb) :: dlimb) = uint x"
  by (simp add: uint_up_ucast is_up)

lemma dlimb_arith:
  "uint (s + t :: dlimb) = (uint s + uint t) mod (W * W)"
  "uint (s - t) = (uint s - uint t) mod (W * W)"
  "uint (s * t) = (uint s * uint t) mod (W * W)"
  by (simp_all add: uint_word_ariths W_def)

lemma div_less: "0 < d \<Longrightarrow> z < d * k \<Longrightarrow> z div d < (k :: int)"
proof (rule ccontr)
  assume z: "0 < d" "z < d * k" "\<not> z div d < k"
  then have "d * k \<le> d * (z div d)" by (intro mult_left_mono) simp_all
  moreover have "0 \<le> z mod d" using z(1) by simp
  then have "d * (z div d) \<le> z" using mult_div_mod_eq [of d z] by linarith
  ultimately show False using z by linarith
qed

lemma uint_limb_lo: "uint (limb_lo t) = uint t mod W"
  by (simp add: limb_lo_def unsigned_ucast_eq take_bit_eq_mod W_def)

lemma uint_limb_hi: "uint (limb_hi t) = uint t div W"
proof -
  have "uint t < W * W" using uint_bounded [of t] by (simp add: W_def)
  then have "uint t div W < W" by (intro div_less) simp_all
  moreover have "0 \<le> uint t div W" by (simp add: pos_imp_zdiv_nonneg_iff)
  moreover have "uint (limb_hi t) = uint t div W mod W"
    unfolding limb_hi_def unsigned_ucast_eq unsigned_drop_bit_eq
    using \<open>uint t < W * W\<close> by (simp add: drop_bit_eq_div take_bit_eq_mod W_def)
  ultimately show ?thesis by simp
qed

lemma uint_lo_hi: "uint (limb_lo t) + W * uint (limb_hi t) = uint t"
  by (simp add: uint_limb_lo uint_limb_hi)

lemma mul_limb_bound:
  assumes "0 \<le> x" "x < W" "0 \<le> b" "b < W" "l < W" "r < W"
  shows "x * b + l + r < W * W"
proof -
  have "x * b \<le> (W - 1) * (W - 1)" using assms by (intro mult_mono) simp_all
  then show ?thesis using assms by (simp add: algebra_simps)
qed

lemma uint_mul_limb:
  "uint (ucast (x :: limb) * ucast (b :: limb) + ucast (l :: limb) + ucast (r :: limb) :: dlimb) = uint x * uint b + uint l + uint r"
  "uint (ucast x * ucast b + ucast l :: dlimb) = uint x * uint b + uint l"
proof -
  have b: "uint x * uint b + uint l + uint r < W * W"
    by (rule mul_limb_bound) (simp_all add: uint_limb)
  have p: "0 \<le> uint x * uint b" by simp
  show "uint (ucast (x :: limb) * ucast (b :: limb) + ucast (l :: limb) + ucast (r :: limb) :: dlimb) = uint x * uint b + uint l + uint r"
    using b p by (simp add: dlimb_arith uint_dlimb mod_simps)
  show "uint (ucast x * ucast b + ucast l :: dlimb) = uint x * uint b + uint l"
    using mul_limb_bound [of "uint x" "uint b" "uint l" 0] p uint_limb by (simp add: dlimb_arith uint_dlimb mod_simps)
qed

lemma mp_mul1_value:
  "\<exists>rs h. mp_mul1 xs b l = (rs, h) \<and> length rs = length xs \<and> lv rs + W ^ length xs * uint h = lv xs * uint b + uint l"
proof (induction xs arbitrary: l)
  case (Cons x xs)
  define t where "t = (ucast x * ucast b + ucast l :: dlimb)"
  obtain rs h where i: "mp_mul1 xs b (limb_hi t) = (rs, h)" "length rs = length xs"
    "lv rs + W ^ length xs * uint h = lv xs * uint b + uint (limb_hi t)"
    using Cons.IH by blast
  have v: "uint (limb_lo t) + W * uint (limb_hi t) = uint x * uint b + uint l"
    unfolding uint_lo_hi t_def by (rule uint_mul_limb)
  show ?case
    using i(1,2) v arg_cong [OF i(3), of "\<lambda>z. W * z"] by (simp add: Let_def t_def algebra_simps)
qed simp

lemma add_mul_value:
  assumes "length rs = length xs"
  shows "\<exists>rs' h. add_mul_loop rs xs b l = Some (rs', h) \<and> length rs' = length xs
    \<and> lv rs' + W ^ length xs * uint h = lv rs + lv xs * uint b + uint l"
  using assms
proof (induction rs xs arbitrary: l rule: list_induct2)
  case (Cons r rs x xs)
  define t where "t = (ucast x * ucast b + ucast l + ucast r :: dlimb)"
  obtain rs' h where i: "add_mul_loop rs xs b (limb_hi t) = Some (rs', h)" "length rs' = length xs"
    "lv rs' + W ^ length xs * uint h = lv rs + lv xs * uint b + uint (limb_hi t)"
    using Cons.IH by blast
  have v: "uint (limb_lo t) + W * uint (limb_hi t) = uint x * uint b + uint l + uint r"
    unfolding uint_lo_hi t_def by (rule uint_mul_limb)
  show ?case
    using i(1,2) v arg_cong [OF i(3), of "\<lambda>z. W * z"] by (simp add: Let_def t_def algebra_simps)
qed simp

lemma sub_limb_product:
  fixes r x b l :: limb
  defines "t \<equiv> ucast r - ucast x * ucast b - ucast l :: dlimb"
  shows "uint (limb_lo t) - W * uint (- limb_hi t) = uint r - uint x * uint b - uint l"
proof -
  define z where "z = uint r - uint x * uint b - uint l"
  have b: "uint x * uint b + uint l + 0 < W * W"
    by (rule mul_limb_bound) (simp_all add: uint_limb)
  have u: "uint t = z mod (W * W)"
    unfolding t_def z_def by (simp add: dlimb_arith uint_dlimb mod_simps)
  have lo: "uint (limb_lo t) = z mod W"
    unfolding uint_limb_lo u by (simp add: mod_mod_cancel)
  have hi: "uint (limb_hi t) = (z div W) mod W"
    unfolding uint_limb_hi u by (simp add: zmod_zmult2_eq)
  have neg: "uint (- limb_hi t) = (- (z div W)) mod W"
    unfolding uint_word_ariths hi W_def by (simp add: mod_simps)
  have "- (W * (W - 1)) \<le> z"
  proof -
    have "uint x * uint b \<le> (W - 1) * (W - 1)" using uint_limb [of x] uint_limb [of b] by (intro mult_mono) simp_all
    then have "uint x * uint b \<le> W * W - 2 * W + 1" by (simp add: algebra_simps)
    moreover have "W * (W - 1) = W * W - W" by (simp add: algebra_simps)
    ultimately show ?thesis using uint_limb [of l] uint_limb [of r] unfolding z_def by linarith
  qed
  then have "- (W * (W - 1)) div W \<le> z div W" by (intro zdiv_mono1) simp_all
  then have "- (W - 1) \<le> z div W" by (simp add: zdiv_zminus1_eq_if)
  moreover have "z < W" using uint_limb [of l] uint_limb [of r] mult_nonneg_nonneg [OF uint_limb(1) uint_limb(1), of x b]
    unfolding z_def by linarith
  then have "z div W \<le> (W - 1) div W" by (intro zdiv_mono1) simp_all
  then have "z div W \<le> 0" by simp
  ultimately have "uint (- limb_hi t) = - (z div W)" unfolding neg by simp
  then show ?thesis unfolding z_def [symmetric] using lo by simp
qed

lemma sub_mul_value:
  assumes "length rs = length xs"
  shows "\<exists>rs' h. sub_mul_loop rs xs b l = Some (rs', h) \<and> length rs' = length xs
    \<and> lv rs' - W ^ length xs * uint h = lv rs - lv xs * uint b - uint l"
  using assms
proof (induction rs xs arbitrary: l rule: list_induct2)
  case (Cons r rs x xs)
  define t where "t = (ucast r - ucast x * ucast b - ucast l :: dlimb)"
  obtain rs' h where i: "sub_mul_loop rs xs b (- limb_hi t) = Some (rs', h)" "length rs' = length xs"
    "lv rs' - W ^ length xs * uint h = lv rs - lv xs * uint b - uint (- limb_hi t)"
    using Cons.IH by blast
  have v: "uint (limb_lo t) - W * uint (- limb_hi t) = uint r - uint x * uint b - uint l"
    unfolding t_def by (rule sub_limb_product)
  show ?case
    using i(1,2) v arg_cong [OF i(3), of "\<lambda>z. W * z"] by (simp add: Let_def t_def algebra_simps)
qed simp

text \<open>Writing limbs and the limb after them.\<close>

lemma blit_wr:
  assumes "off + length s < length xs"
  shows "\<exists>ys. blit xs off s = Some ys \<and> wr ys (off + length s) v = Some (take off xs @ s @ v # drop (off + length s + 1) xs)"
proof -
  have "(take off xs @ s @ drop (off + length s) xs)[off + length s := v] = take off xs @ s @ v # drop (off + length s + 1) xs"
    using assms by (simp add: list_update_append Cons_nth_drop_Suc [symmetric])
  then show ?thesis using assms by (simp add: blit_Some_iff)
qed

lemma slice_Some: "off + n \<le> length tab \<Longrightarrow> slice tab off n = Some (take n (drop off tab))"
  by (simp add: slice_def)

lemma lv_take_add: "off + n \<le> length tab \<Longrightarrow> lv (take (off + n) tab) = lv (take off tab) + W ^ off * lv (take n (drop off tab))"
  by (simp add: take_add lv_append)

lemma mul_rows_value:
  assumes "n = length op1" "n + i + length ys \<le> length result"
  shows "\<exists>res. mul_rows result op1 ys i = Some res \<and> length res = length result
    \<and> lv (take (n + i + length ys) res) = lv (take (n + i) result) + W ^ i * lv op1 * lv ys"
  using assms
proof (induction ys arbitrary: i result)
  case (Cons y ys)
  define s where "s = take n (drop i result)"
  have ls: "length s = length op1" using Cons.prems by (simp add: s_def)
  have sl: "slice result i (length op1) = Some s" using slice_Some [of i n result] Cons.prems by (simp add: s_def)
  obtain s' r where a: "mp_add_mul1 s op1 y = Some (s', r)" "length s' = n"
    "lv s' + W ^ n * uint r = lv s + lv op1 * uint y"
    using add_mul_value [OF ls, of y 0] Cons.prems by (auto simp: mp_add_mul1_def)
  define res2 where "res2 = take i result @ s' @ r # drop (i + n + 1) result"
  obtain res1 where w: "blit result i s' = Some res1" "wr res1 (i + n) r = Some res2"
    using blit_wr [of i s' result r] a(2) Cons.prems by (auto simp: res2_def)
  have l2: "length res2 = length result" using a(2) Cons.prems by (simp add: res2_def)
  have v2: "lv (take (n + (i + 1)) res2) = lv (take (n + i) result) + W ^ i * lv op1 * uint y"
  proof -
    have "take (n + (i + 1)) res2 = take i result @ s' @ [r]"
      using a(2) Cons.prems by (simp add: res2_def min_def)
    then have "lv (take (n + (i + 1)) res2) = lv (take i result) + W ^ i * (lv s' + W ^ n * uint r)"
      using a(2) Cons.prems by (simp add: lv_append min_def)
    also have "\<dots> = lv (take i result) + W ^ i * lv s + W ^ i * lv op1 * uint y"
      unfolding a(3) by (simp add: algebra_simps)
    also have "lv (take i result) + W ^ i * lv s = lv (take (n + i) result)"
      using lv_take_add [of i n result] Cons.prems by (simp add: s_def add.commute)
    finally show ?thesis .
  qed
  obtain res where r: "mul_rows res2 op1 ys (i + 1) = Some res" "length res = length res2"
    "lv (take (n + (i + 1) + length ys) res) = lv (take (n + (i + 1)) res2) + W ^ (i + 1) * lv op1 * lv ys"
    using Cons.IH [of "i + 1" res2] Cons.prems l2 by auto
  have "mul_rows result op1 (y # ys) i = Some res"
    using a(1) w r(1) Cons.prems(1) sl by (simp del: wr_Some_iff)
  moreover have "lv (take (n + i + length (y # ys)) res) = lv (take (n + i) result) + W ^ i * lv op1 * lv (y # ys)"
    using r(3) v2 by (simp add: algebra_simps)
  ultimately show ?case using r(2) l2 by auto
qed simp

lemma mp_mul_basecase_value:
  assumes "op2 \<noteq> []" "length result = length op1 + length op2"
  shows "\<exists>res. mp_mul_basecase result op1 op2 = Some res \<and> length res = length op1 + length op2 \<and> lv res = lv op1 * lv op2"
proof -
  obtain b ys where o: "op2 = b # ys" using assms(1) by (cases op2) auto
  obtain rs h where m: "mp_mul1 op1 b 0 = (rs, h)" "length rs = length op1" "lv rs + W ^ length op1 * uint h = lv op1 * uint b"
    using mp_mul1_value [of op1 b 0] by auto
  define res2 where "res2 = rs @ h # drop (length op1 + 1) result"
  obtain res1 where w: "blit result 0 rs = Some res1" "wr res1 (length op1) h = Some res2"
    using blit_wr [of 0 rs result h] m(2) assms o by (auto simp: res2_def)
  obtain res where r: "mul_rows res2 op1 ys 1 = Some res" "length res = length res2"
    "lv (take (length op1 + 1 + length ys) res) = lv (take (length op1 + 1) res2) + W ^ 1 * lv op1 * lv ys"
    using mul_rows_value [OF refl, of op1 1 ys res2] m(2) assms o by (auto simp: res2_def)
  have "lv (take (length op1 + 1) res2) = lv op1 * uint b" using m(2,3) by (simp add: res2_def lv_append)
  moreover have "length res2 = length op1 + length op2" using m(2) assms o by (simp add: res2_def)
  moreover have "mp_mul_basecase result op1 op2 = Some res"
    using m(1) w r(1) o by (simp add: mp_mul_basecase_def rd_def Let_def del: wr_Some_iff)
  ultimately show ?thesis using r o by (auto simp: algebra_simps)
qed

section \<open>Division by a limb\<close>

lemma uint_join: "uint (join_limbs hi lo) = uint hi * W + uint lo"
proof -
  have "uint (push_bit 64 (ucast hi) :: dlimb) = push_bit 64 (uint hi)"
    unfolding unsigned_push_bit_eq uint_dlimb using uint_limb [of hi]
    by (simp add: push_bit_eq_mult take_bit_eq_mod W_def)
  then have "uint (join_limbs hi lo) = push_bit 64 (uint hi) OR take_bit 64 (uint lo)"
    using uint_limb [of lo] by (simp add: join_limbs_def unsigned_or_eq uint_dlimb take_bit_eq_mod W_def)
  also have "\<dots> = concat_bit 64 (uint lo) (uint hi)" by (simp add: concat_bit_def or.commute)
  also have "\<dots> = uint hi * W + uint lo"
    using uint_limb [of lo] by (simp add: concat_bit_eq push_bit_eq_mult take_bit_eq_mod W_def)
  finally show ?thesis .
qed

lemma int_div_mod_unique: "a = b * q + r \<Longrightarrow> 0 \<le> r \<Longrightarrow> r < b \<Longrightarrow> a div b = q \<and> a mod b = (r :: int)"
  using int_div_pos_eq [of a b q r] int_mod_pos_eq [of a b q r] by blast

lemma limb_divmod:
  fixes d r x :: limb
  assumes "r < d"
  shows "uint (limb_lo (join_limbs r x div ucast d)) = (uint r * W + uint x) div uint d"
    "uint (limb_lo (join_limbs r x mod ucast d)) = (uint r * W + uint x) mod uint d"
    "(uint r * W + uint x) mod uint d < uint d" "(uint r * W + uint x) div uint d < W"
proof -
  have "uint r < uint d" using assms by (simp add: word_less_def)
  then have d: "0 < uint d" "uint r + 1 \<le> uint d" using uint_limb(1) [of r] by linarith+
  have "(uint r + 1) * W \<le> uint d * W" using d(2) by (rule mult_right_mono) simp
  then have "uint r * W + uint x < uint d * W" using uint_limb [of x] by (simp add: algebra_simps)
  then show q: "(uint r * W + uint x) div uint d < W" using d by (intro div_less) simp_all
  show m: "(uint r * W + uint x) mod uint d < uint d" using d by simp
  have "0 \<le> (uint r * W + uint x) div uint d" using d uint_limb by (simp add: pos_imp_zdiv_nonneg_iff)
  then show "uint (limb_lo (join_limbs r x div ucast d)) = (uint r * W + uint x) div uint d"
    using q by (simp add: uint_limb_lo uint_div uint_dlimb uint_join)
  have "0 \<le> (uint r * W + uint x) mod uint d" using d by simp
  then show "uint (limb_lo (join_limbs r x mod ucast d)) = (uint r * W + uint x) mod uint d"
    using m uint_limb [of d] by (simp add: uint_limb_lo uint_mod uint_dlimb uint_join)
qed

lemma mp_div1_value:
  assumes "r < b"
  shows "\<exists>qs r'. mp_div1 xs b r = (qs, r') \<and> length qs = length xs \<and> r' < b
    \<and> lv xs + W ^ length xs * uint r = lv qs * uint b + uint r'"
proof (induction xs)
  case (Cons x xs)
  then obtain qs r1 where i: "mp_div1 xs b r = (qs, r1)" "length qs = length xs" "r1 < b"
    "lv xs + W ^ length xs * uint r = lv qs * uint b + uint r1"
    by blast
  define q where "q = limb_lo (join_limbs r1 x div ucast b)"
  define r2 where "r2 = limb_lo (join_limbs r1 x mod ucast b)"
  note d = limb_divmod [OF i(3), of x, folded q_def r2_def]
  have "uint q * uint b + uint r2 = uint r1 * W + uint x" unfolding d(1,2) by simp
  moreover have "r2 < b" using d(2,3) by (simp add: word_less_def)
  ultimately show ?case
    using i(1,2) arg_cong [OF i(4), of "\<lambda>z. W * z"]
    by (simp add: Let_def q_def [symmetric] r2_def [symmetric] algebra_simps)
qed (use assms in simp)

text \<open>
  Division by a normalised limb with the inverse: with \<open>v\<close> the inverse,
  \<open>(W + v) * d = W * W - e\<close> for some \<open>e\<close> from 1 to \<open>d\<close>, and the estimate is the quotient or one less.
\<close>

lemma inverse_ex:
  fixes d :: int
  assumes "W \<le> 2 * d" "d < W"
  defines "v \<equiv> (W * W - 1) div d - W"
  shows "0 < v" "v < W" "\<exists>e. 1 \<le> e \<and> e \<le> d \<and> (W + v) * d = W * W - e"
proof -
  have d: "0 < d" using assms(1) W_pos(1) by linarith
  define k where "k = (W * W - 1) mod d"
  have k: "0 \<le> k" "k < d" using d by (simp_all add: k_def)
  have wv: "W + v = (W * W - 1) div d" by (simp add: v_def)
  have m: "(W + v) * d = W * W - 1 - k" using div_mult_mod_eq [of "W * W - 1" d] unfolding k_def wv by linarith
  show "\<exists>e. 1 \<le> e \<and> e \<le> d \<and> (W + v) * d = W * W - e" using m k by (intro exI [of _ "k + 1"]) simp
  have "W * W \<le> 2 * d * W" by (rule mult_right_mono [OF assms(1)]) simp
  moreover have "2 * d * W = d * (2 * W)" by simp
  ultimately have "W * W - 1 < d * (2 * W)" by linarith
  then have "(W * W - 1) div d < 2 * W" using d by (rule div_less [rotated])
  then show "v < W" by (simp add: v_def)
  have "(W - 1) * (W + 1) \<le> W * W - 1" by (simp add: algebra_simps)
  moreover have "(W + 1) * d \<le> (W + 1) * (W - 1)" using assms(2) by (intro mult_left_mono) simp_all
  ultimately have "(W + 1) * d \<le> W * W - 1" by (simp add: algebra_simps)
  then have "W + 1 \<le> (W * W - 1) div d" using d zdiv_mono1 [of "(W + 1) * d" "W * W - 1" d] by simp
  then show "0 < v" by (simp add: v_def)
qed

lemma uint_minus_1: "uint (- 1 :: limb) = W - 1"
  by (simp add: W_def unsigned_minus_1_eq_mask mask_eq_exp_minus_1)

lemma udiv1norm_init_value:
  assumes "W \<le> 2 * uint d"
  shows "uint (udiv1norm_init d) = (W * W - 1) div uint d - W"
proof -
  have d: "0 < uint d" using assms W_pos(1) by linarith
  have "- d - 1 = NOT d" by (simp add: not_eq_complement)
  then have u: "uint (- d - 1) = W - 1 - uint d" by (simp add: uint_not)
  have "uint (join_limbs (- d - 1) (- 1)) = (W * W - 1) + (- W) * uint d"
    by (simp add: uint_join u uint_minus_1 algebra_simps)
  moreover have "((W * W - 1) + (- W) * uint d) div uint d = (W * W - 1) div uint d - W"
    using d by (subst div_mult_self1) simp_all
  ultimately have "uint (udiv1norm_init d) = ((W * W - 1) div uint d - W) mod W"
    by (simp only: udiv1norm_init_def Let_def uint_limb_lo uint_div uint_dlimb)
  also have "\<dots> = (W * W - 1) div uint d - W"
    using inverse_ex [OF assms] uint_limb [of d] by (intro mod_pos_pos_trivial) simp_all
  finally show ?thesis .
qed

text \<open>The estimate, in integers; the two cases are the values of the high bit of \<open>a0\<close>.\<close>

lemma estimate_bounds:
  fixes a1 a0 d v e :: int
  assumes d: "W \<le> 2 * d" "d < W" and a: "0 \<le> a1" "a1 < d" "0 \<le> a0" "a0 < W"
    and v: "(W + v) * d = W * W - e" "1 \<le> e" "e \<le> d"
    and m: "m \<longleftrightarrow> W \<le> 2 * a0"
    and q: "q = (v * (a1 + of_bool m) + a0 + of_bool m * (d - W)) div W + a1"
  shows "0 \<le> a1 * W + a0 - q * d" "a1 * W + a0 - q * d < 2 * d"
proof -
  define X where "X = v * (a1 + of_bool m) + a0 + of_bool m * (d - W)"
  define g where "g = X mod W"
  have g: "0 \<le> g" "g \<le> W - 1" by (simp_all add: g_def)
  have Wq: "W * q = X - g + W * a1"
  proof -
    have "q = X div W + a1" by (simp only: q X_def)
    then show ?thesis unfolding g_def by (simp add: distrib_left minus_mod_eq_mult_div)
  qed
  have gd: "0 \<le> g * d" "g * d \<le> (W - 1) * d" using g d a by (auto intro: mult_right_mono)
  have "0 \<le> W * (a1 * W + a0 - q * d) \<and> W * (a1 * W + a0 - q * d) < W * (2 * d)"
  proof (cases m)
    case True
    have e: "W * (a1 * W + a0 - q * d) = (W - d) * (a0 - (W - d)) + (a1 + 1) * e + g * d"
      using Wq v(1) True unfolding X_def by simp algebra
    have "0 \<le> (W - d) * (a0 - (W - d))" "(W - d) * (a0 - (W - d)) \<le> (W - d) * (d - 1)"
      using True m d a by (auto intro: mult_left_mono)
    moreover have "0 \<le> (a1 + 1) * e" "(a1 + 1) * e \<le> d * d" using a v by (auto intro: mult_mono)
    ultimately show ?thesis unfolding e using gd by (simp add: algebra_simps, use W_pos(1) in linarith)
  next
    case False
    have e: "W * (a1 * W + a0 - q * d) = a0 * (W - d) + a1 * e + g * d"
      using Wq v(1) False unfolding X_def by simp algebra
    have "0 \<le> a0 * (W - d)" "a0 * (W - d) \<le> d * (W - d)"
      using False m d a by (auto intro: mult_right_mono)
    moreover have "0 \<le> a1 * e" "a1 * e \<le> (d - 1) * d" using a v by (auto intro: mult_mono)
    ultimately show ?thesis unfolding e using gd a by (simp add: algebra_simps)
  qed
  then show "0 \<le> a1 * W + a0 - q * d" "a1 * W + a0 - q * d < 2 * d"
    by (auto simp: zero_le_mult_iff mult_less_cancel_left)
qed

lemma bit_63: "bit (a :: limb) 63 \<longleftrightarrow> W \<le> 2 * uint a"
proof -
  have "uint a div 2 ^ 63 < 2" using uint_limb [of a] by (intro div_less) (simp_all add: W_def)
  moreover have "0 \<le> uint a div 2 ^ 63" by (simp add: pos_imp_zdiv_nonneg_iff)
  ultimately have c: "uint a div 2 ^ 63 = 0 \<or> uint a div 2 ^ 63 = 1" by linarith
  have "bit a 63 \<longleftrightarrow> bit (uint a) 63" by (simp add: bit_uint_iff)
  also have "\<dots> \<longleftrightarrow> odd (uint a div 2 ^ 63)" by (simp only: bit_iff_odd)
  also have "\<dots> \<longleftrightarrow> W \<le> 2 * uint a" using c by (auto simp: W_def)
  finally show ?thesis .
qed

lemma sign_mask: "signed_drop_bit 63 (a :: limb) = (if W \<le> 2 * uint a then - 1 else 0)"
  by (rule bit_word_eqI) (auto simp: bit_signed_drop_bit_iff bit_63 [symmetric] min_def Suc_le_eq)

lemma limb_arith:
  "uint (s + t :: limb) = (uint s + uint t) mod W"
  "uint (s - t) = (uint s - uint t) mod W"
  by (simp_all add: uint_word_ariths W_def)

lemma udiv1norm_value:
  assumes "W \<le> 2 * uint d" "a1 < d"
  shows "udiv1norm a1 a0 d (udiv1norm_init d)
    = (limb_lo (join_limbs a1 a0 div ucast d), limb_lo (join_limbs a1 a0 mod ucast d))"
proof -
  define v where "v = (W * W - 1) div uint d - W"
  define m where "m \<longleftrightarrow> W \<le> 2 * uint a0"
  define N where "N = uint a1 * W + uint a0"
  define n1m where "n1m = signed_drop_bit 63 a0"
  define n_adj where "n_adj = a0 + (n1m AND d)"
  define a where "a = (ucast (udiv1norm_init d) * ucast (a1 - n1m) + ucast n_adj :: dlimb)"
  define q where "q = limb_hi a + a1"
  define a' where "a' = join_limbs a1 a0 - ucast q * ucast d - ucast d"
  have a1: "uint a1 < uint d" using assms(2) by (simp add: word_less_def)
  note d = assms(1) uint_limb(2) [of d]
  have v: "0 < v" "v < W" and ex: "\<exists>e. 1 \<le> e \<and> e \<le> uint d \<and> (W + v) * uint d = W * W - e"
    using inverse_ex [OF d] by (simp_all add: v_def)
  obtain e where e: "(W + v) * uint d = W * W - e" "1 \<le> e" "e \<le> uint d" using ex by blast
  have n1m: "n1m = (if m then - 1 else 0)" by (simp add: n1m_def m_def sign_mask)
  have "uint n_adj = uint a0 + of_bool m * (uint d - W)"
    using d uint_limb [of a0] by (auto simp: n_adj_def n1m m_def uint_plus_if' W_def)
  moreover have "uint (a1 - n1m) = uint a1 + of_bool m"
    using d a1 by (auto simp: n1m uint_plus_if' W_def)
  ultimately have a: "uint a = v * (uint a1 + of_bool m) + uint a0 + of_bool m * (uint d - W)"
    unfolding a_def uint_mul_limb udiv1norm_init_value [OF assms(1)] v_def by simp
  define qe where "qe = uint a div W + uint a1"
  have z: "0 \<le> N - qe * uint d" "N - qe * uint d < 2 * uint d"
    using estimate_bounds [OF d uint_limb(1) a1 uint_limb(1,2) e m_def, of qe] unfolding qe_def a N_def by auto
  have "0 \<le> qe" unfolding qe_def using uint_limb(1) [of a1] by (simp add: pos_imp_zdiv_nonneg_iff)
  have N: "N < W * uint d"
  proof -
    have "(uint a1 + 1) * W \<le> uint d * W" using a1 by (intro mult_right_mono) simp_all
    then show ?thesis using uint_limb(2) [of a0] by (simp add: N_def algebra_simps)
  qed
  have d0: "0 < uint d" using a1 uint_limb(1) [of a1] by linarith
  have "qe * uint d < W * uint d" using z(1) N by linarith
  then have "qe < W" using d0 by (simp add: mult_less_cancel_right)
  then have qe: "uint q = qe" using \<open>0 \<le> qe\<close> by (simp add: q_def limb_arith uint_limb_hi qe_def)
  have u: "uint a' = (N - qe * uint d - uint d) mod (W * W)"
    unfolding a'_def by (simp add: dlimb_arith uint_dlimb uint_join qe mod_simps N_def)
  have r: "udiv1norm a1 a0 d (udiv1norm_init d) = (q + 1 + limb_hi a', limb_lo a' + (limb_hi a' AND d))"
    by (simp add: udiv1norm_def Let_def n1m_def n_adj_def a_def q_def a'_def)
  note dm = limb_divmod [OF assms(2), of a0, folded N_def]
  show ?thesis
  proof (cases "N - qe * uint d < uint d")
    case True
    have dm': "N div uint d = qe" "N mod uint d = N - qe * uint d"
      using int_div_mod_unique [of N "uint d" qe "N - qe * uint d"] z True by (simp_all add: algebra_simps)
    have u': "uint a' = W * (W - 1) + (N - qe * uint d - uint d + W)"
    proof -
      have "W \<le> W * W" "W * (W - 1) = W * W - W" by (simp_all add: W_def)
      then show ?thesis unfolding u by (intro int_mod_pos_eq [of _ _ "- 1"]) (use True z d in linarith)+
    qed
    have b: "0 \<le> N - qe * uint d - uint d + W" "N - qe * uint d - uint d + W < W" using True z d by linarith+
    have "uint (limb_hi a') = W - 1" unfolding uint_limb_hi u' by (rule int_div_pos_eq [OF refl b])
    then have hi: "limb_hi a' = - 1" by (simp add: word_uint_eq_iff uint_minus_1)
    have lo: "uint (limb_lo a') = N - qe * uint d - uint d + W"
      unfolding uint_limb_lo u' by (rule int_mod_pos_eq [OF refl b])
    have "uint (limb_lo a' + d) = N - qe * uint d"
      unfolding limb_arith lo by (rule int_mod_pos_eq [of _ _ 1]) (use True z d in simp_all)
    then show ?thesis unfolding r hi using dm dm' qe by (simp add: word_uint_eq_iff)
  next
    case False
    have dm': "N div uint d = qe + 1" "N mod uint d = N - qe * uint d - uint d"
      using int_div_mod_unique [of N "uint d" "qe + 1" "N - qe * uint d - uint d"] z False by (simp_all add: algebra_simps)
    have b: "0 \<le> N - qe * uint d - uint d" "N - qe * uint d - uint d < W" using False z d by linarith+
    have "N - qe * uint d - uint d < W * W" using b(2) by (rule less_le_trans) (simp add: W_def)
    then have u': "uint a' = N - qe * uint d - uint d" unfolding u using b by simp
    have hi: "limb_hi a' = 0" by (rule word_uint_eqI) (use b in \<open>simp add: uint_limb_hi u'\<close>)
    have lo: "uint (limb_lo a') = N - qe * uint d - uint d" unfolding uint_limb_lo u' using b by simp
    have "uint (q + 1) = qe + 1"
      using dm(4) dm'(1) qe \<open>0 \<le> qe\<close> by (simp add: limb_arith)
    then show ?thesis unfolding r hi using dm dm' lo by (simp add: word_uint_eq_iff)
  qed
qed

end
