(* ===== verification/LimbsDivide.thy ===== *)
theory LimbsDivide
  imports LimbsCorrect
begin

text \<open>
  Division of limb arrays: \<open>mp_divnorm\<close> computes the quotient and the remainder, its correction loop
  ends, and it stays inside its arrays.
\<close>

section \<open>Division by one normalised limb\<close>

lemma div1norm_loop_eq:
  assumes "W \<le> 2 * uint b" "r < b"
  shows "div1norm_loop xs b (udiv1norm_init b) r = mp_div1 xs b r"
proof (induction xs)
  case (Cons x xs)
  obtain qs r' where d: "mp_div1 xs b r = (qs, r')" "r' < b" using mp_div1_value [OF assms(2), of xs] by blast
  then show ?case using Cons udiv1norm_value [OF assms(1) d(2), of x] by (simp add: Let_def)
qed simp

lemma mp_div1norm_eq: "W \<le> 2 * uint b \<Longrightarrow> r < b \<Longrightarrow> mp_div1norm xs b r = mp_div1 xs b r"
  by (simp add: mp_div1norm_def div1norm_loop_eq)

section \<open>The first quotient limb\<close>

lemma lv_take_Suc: "j < length xs \<Longrightarrow> lv (take (Suc j) xs) = lv (take j xs) + W ^ j * uint (xs ! j)"
  by (simp add: take_Suc_conv_app_nth lv_append)

lemma ge_limbs_value:
  assumes "n + j \<le> length taba" "j \<le> length tabb"
  shows "ge_limbs taba n tabb j = Some (of_bool (lv (take j tabb) \<le> lv (take j (drop n taba))))"
  using assms
proof (induction j)
  case (Suc j)
  define x y where "x = taba ! (n + j)" and "y = tabb ! j"
  have v: "lv (take (Suc j) tabb) = lv (take j tabb) + W ^ j * uint y"
    "lv (take (Suc j) (drop n taba)) = lv (take j (drop n taba)) + W ^ j * uint x"
    using Suc.prems by (simp_all add: lv_take_Suc x_def y_def)
  have b: "0 \<le> lv (take j tabb)" "lv (take j tabb) < W ^ j"
    "0 \<le> lv (take j (drop n taba))" "lv (take j (drop n taba)) < W ^ j"
  proof -
    have "length (take j tabb) = j" "length (take j (drop n taba)) = j" using Suc.prems by simp_all
    then show "0 \<le> lv (take j tabb)" "lv (take j tabb) < W ^ j"
      "0 \<le> lv (take j (drop n taba))" "lv (take j (drop n taba)) < W ^ j"
      using lv_bounds [of "take j tabb"] lv_bounds [of "take j (drop n taba)"] by simp_all
  qed
  have step: "ge_limbs taba n tabb (Suc j) = (if x \<noteq> y then Some (if x < y then 0 else 1) else ge_limbs taba n tabb j)"
    using Suc.prems by (simp add: rd_def x_def y_def)
  consider "x < y" | "y < x" | "x = y" by fastforce
  then show ?case
  proof cases
    case 1
    have "W ^ j * (uint x + 1) \<le> W ^ j * uint y" using 1 by (intro mult_left_mono) (simp_all add: word_less_def)
    then show ?thesis using 1 v b unfolding step by (auto simp: distrib_left)
  next
    case 2
    have "W ^ j * (uint y + 1) \<le> W ^ j * uint x" using 2 by (intro mult_left_mono) (simp_all add: word_less_def)
    moreover have "x \<noteq> y" "\<not> x < y" using 2 by auto
    ultimately show ?thesis using v b unfolding step by (simp add: distrib_left)
  next
    case 3
    then show ?thesis using Suc v unfolding step by simp
  qed
qed simp

section \<open>The correction\<close>

lemma uint_before_0: "hi + 1 = 0 \<Longrightarrow> uint (hi :: limb) = W - 1"
  by (simp add: add_eq_0_iff2 uint_minus_1)

lemma uint_inc: "hi + 1 \<noteq> 0 \<Longrightarrow> uint (hi + 1 :: limb) = uint hi + 1"
proof -
  assume h: "hi + 1 \<noteq> 0"
  have "hi \<noteq> - 1" using h by auto
  then have "uint hi \<noteq> W - 1" by (simp add: word_uint_eq_iff uint_minus_1)
  then show ?thesis using uint_limb [of hi] by (simp add: limb_arith)
qed

lemma add_back_value:
  assumes "length s = length tabb" "0 < lv tabb" "0 < d"
    and "lv s + W ^ length tabb * uint hi + d = W ^ (length tabb + 1)"
  shows "\<exists>s' k. add_back s hi tabb q = Some (s', 0, q - word_of_nat k) \<and> length s' = length tabb
    \<and> lv s' = int k * lv tabb - d \<and> lv s' < lv tabb"
  using assms
proof (induction "nat d" arbitrary: s hi q d rule: less_induct)
  case less
  define n where "n = length tabb"
  obtain s' c where a: "mp_add s tabb 0 = Some (s', of_bool c)" "length s' = n"
    "lv s' + W ^ n * of_bool c = lv s + lv tabb"
    using mp_add_value [OF less.prems(1), of False] less.prems(1) by (auto simp: n_def)
  have bs: "0 \<le> lv s'" "lv s' < W ^ n" using lv_bounds [of s'] a(2) by simp_all
  define hi' where "hi' = (if c then hi + 1 else hi)"
  have unfold: "add_back s hi tabb q = (if c \<and> hi' = 0 then Some (s', hi', q - 1) else add_back s' hi' tabb (q - 1))"
    by (subst add_back.simps) (simp add: a(1) Let_def hi'_def)
  show ?case
  proof (cases "c \<and> hi' = 0")
    case True
    then have "uint hi = W - 1" by (auto simp: hi'_def intro: uint_before_0)
    then have "lv s + W ^ n * (W - 1) + d = W ^ (n + 1)" using less.prems(4) by (simp only: n_def)
    then have "lv s' = 1 * lv tabb - d" using a(3) True by (simp add: algebra_simps)
    then show ?thesis using True less.prems(3) a(2) unfolding unfold
      by (intro exI [of _ s'] exI [of _ 1]) (simp add: n_def)
  next
    case False
    have hi': "uint hi' = uint hi + of_bool c" using False by (auto simp: hi'_def uint_inc)
    have t: "lv s' + W ^ n * uint hi' + (d - lv tabb) = W ^ (n + 1)"
      using less.prems(4) a(3) unfolding hi' by (simp add: n_def algebra_simps)
    have "W ^ n * (uint hi' + 1) \<le> W ^ n * W" using uint_limb [of hi'] by (intro mult_left_mono) simp_all
    then have "0 < d - lv tabb" using t bs by (simp add: algebra_simps)
    then obtain s2 k where r: "add_back s' hi' tabb (q - 1) = Some (s2, 0, q - 1 - word_of_nat k)" "length s2 = n"
      "lv s2 = int k * lv tabb - (d - lv tabb)" "lv s2 < lv tabb"
      using less.hyps [of "d - lv tabb" s' hi' "q - 1"] less.prems(2,3) a(2) t by (auto simp: n_def)
    show ?thesis using r False unfolding unfold
      by (intro exI [of _ s2] exI [of _ "Suc k"]) (auto simp: n_def algebra_simps)
  qed
qed

section \<open>One quotient limb\<close>

text \<open>The value of a list by its last limb.\<close>

lemma lv_last: "xs \<noteq> [] \<Longrightarrow> lv xs = lv (butlast xs) + W ^ (length xs - 1) * uint (last xs)"
  by (cases xs rule: rev_cases) (simp_all add: lv_append)

lemma last_bounds:
  assumes "xs \<noteq> []"
  shows "W ^ (length xs - 1) * uint (last xs) \<le> lv xs" "lv xs < W ^ (length xs - 1) * (uint (last xs) + 1)"
  using lv_last [OF assms] lv_bounds [of "butlast xs"] by (simp_all add: distrib_left)

lemma quotient_limb_value:
  assumes "W \<le> 2 * uint b1" "b1_inv = 0 \<or> b1_inv = udiv1norm_init b1"
  shows "a1 < b1 \<Longrightarrow> uint (quotient_limb a1 a0 b1 b1_inv) = (uint a1 * W + uint a0) div uint b1"
    "\<not> a1 < b1 \<Longrightarrow> uint (quotient_limb a1 a0 b1 b1_inv) = W - 1"
  using assms udiv1norm_value [of b1 a1 a0] limb_divmod(1) [of a1 b1 a0]
  by (auto simp: quotient_limb_def uint_minus_1 not_less)

text \<open>The estimate is never below the quotient.\<close>

lemma estimate_high:
  fixes tabb :: "limb list"
  assumes "tabb \<noteq> []" "W \<le> 2 * uint (last tabb)" "b1_inv = 0 \<or> b1_inv = udiv1norm_init (last tabb)"
    and U: "U = lo + W ^ (length tabb - 1) * (uint a1 * W + uint a0)" "0 \<le> lo" "lo < W ^ (length tabb - 1)"
    and top: "U < W * lv tabb"
  shows "U < (uint (quotient_limb a1 a0 (last tabb) b1_inv) + 1) * lv tabb"
proof (cases "a1 < last tabb")
  case False
  then show ?thesis using top quotient_limb_value(2) [OF assms(2,3) False, of a0] by simp
next
  case True
  define P where "P = W ^ (length tabb - 1)"
  define b1 where "b1 = uint (last tabb)"
  define q where "q = uint (quotient_limb a1 a0 (last tabb) b1_inv)"
  define N where "N = uint a1 * W + uint a0"
  have b1: "0 < b1" using assms(2) W_pos(1) unfolding b1_def by linarith
  have q: "q = N div b1" using quotient_limb_value(1) [OF assms(2,3) True, of a0] by (simp add: q_def N_def b1_def)
  have "N < (q + 1) * b1"
    using div_mult_mod_eq [of N b1] pos_mod_bound [OF b1, of N] unfolding q distrib_right by linarith
  then have "P * (N + 1) \<le> P * ((q + 1) * b1)" by (intro mult_left_mono) (simp_all add: P_def)
  also have "\<dots> = (q + 1) * (P * b1)" by simp
  also have "\<dots> \<le> (q + 1) * lv tabb"
    using last_bounds(1) [OF assms(1)] uint_limb(1) by (intro mult_left_mono) (simp_all add: P_def b1_def q_def)
  finally have "P * N + P \<le> (q + 1) * lv tabb" by (simp add: distrib_left)
  then show ?thesis using U unfolding q_def [symmetric] N_def [symmetric] P_def [symmetric] by linarith
qed

lemma divnorm_step_value:
  assumes "tabb \<noteq> []" "W \<le> 2 * uint (last tabb)" "b1_inv = 0 \<or> b1_inv = udiv1norm_init (last tabb)"
    and l: "i + length tabb < length taba" and top: "lv (take (length tabb) (drop (i + 1) taba)) < lv tabb"
  shows "\<exists>q r. divnorm_step taba tabb b1_inv i = Some (q, take i taba @ r @ 0 # drop (i + length tabb + 1) taba)
    \<and> length r = length tabb \<and> lv r < lv tabb
    \<and> lv (take (length tabb + 1) (drop i taba)) = uint q * lv tabb + lv r"
proof -
  define nb where "nb = length tabb"
  define s where "s = take nb (drop i taba)"
  define a1 where "a1 = taba ! (i + nb)"
  define a0 where "a0 = taba ! (i + nb - 1)"
  define q where "q = quotient_limb a1 a0 (last tabb) b1_inv"
  define U where "U = lv s + W ^ nb * uint a1"
  have nb: "0 < nb" using assms(1) by (simp add: nb_def)
  have s: "length s = nb" "slice taba i nb = Some s" using l by (simp_all add: s_def slice_def nb_def)
  have UV: "lv (take (nb + 1) (drop i taba)) = U"
    using lv_take_Suc [of nb "drop i taba"] l by (simp add: U_def s_def a1_def nb_def)
  have bpos: "0 < lv tabb" 
  proof -
    have "0 < uint (last tabb)" using assms(2) W_pos(1) by linarith
    then have "0 < W ^ (length tabb - 1) * uint (last tabb)" by simp
    then show ?thesis using last_bounds(1) [OF assms(1)] by linarith
  qed
  have Utop: "U < W * lv tabb"
  proof -
    have "take (nb + 1) (drop i taba) = taba ! i # take nb (drop (i + 1) taba)"
      using l by (simp add: Cons_nth_drop_Suc [symmetric])
    then have "U = uint (taba ! i) + W * lv (take nb (drop (i + 1) taba))" using UV by simp
    moreover have "W * (lv (take nb (drop (i + 1) taba)) + 1) \<le> W * lv tabb"
      using top by (intro mult_left_mono) (simp_all add: nb_def)
    ultimately show ?thesis using uint_limb(2) [of "taba ! i"] by (simp add: distrib_left)
  qed
  have "i + nb - 1 = i + (nb - 1)" using nb by simp
  then have sl: "s \<noteq> []" "last s = a0" using s(1) nb l by (auto simp: s_def a0_def nb_def last_conv_nth)
  have "W ^ nb = W ^ (nb - 1) * W" using nb by (cases nb) simp_all
  then have U: "U = lv (butlast s) + W ^ (nb - 1) * (uint a1 * W + uint a0)"
    using lv_last [OF sl(1)] sl(2) s(1) by (simp add: U_def distrib_left)
  have high: "U < (uint q + 1) * lv tabb"
    using estimate_high [OF assms(1-3) U [unfolded nb_def] lv_bounds(1) _ Utop] lv_bounds(2) [of "butlast s"] s(1)
    by (simp add: q_def nb_def)
  obtain s' r where m: "mp_sub_mul1 s tabb q = Some (s', r)" "length s' = nb"
    "lv s' - W ^ nb * uint r = lv s - lv tabb * uint q"
    using sub_mul_value [of s tabb q 0] s by (auto simp: mp_sub_mul1_def nb_def)
  define V where "V = U - uint q * lv tabb"
  have V: "V = lv s' + W ^ nb * (uint a1 - uint r)" using m(3) by (simp add: V_def U_def algebra_simps)
  have bs: "0 \<le> lv s'" "lv s' < W ^ nb" using lv_bounds [of s'] m(2) by simp_all
  have "\<exists>s'' q'. (if a1 - r > a1 then add_back s' (a1 - r) tabb q else Some (s', a1 - r, q)) = Some (s'', 0, q')
    \<and> length s'' = nb \<and> lv s'' < lv tabb \<and> U = uint q' * lv tabb + lv s''"
  proof (cases "a1 < r")
    case False
    have g: "\<not> a1 - r > a1" using False uint_limb [of r] by (simp add: word_less_def uint_sub_if')
    have u: "uint (a1 - r) = uint a1 - uint r" using False by (simp add: word_less_def uint_sub_if')
    have Vb: "V < lv tabb" using high by (simp add: V_def distrib_right)
    also have "\<dots> < W ^ nb" using lv_bounds(2) [of tabb] by (simp add: nb_def)
    finally have "V < W ^ nb" .
    moreover have "V = lv s' + W ^ nb * uint (a1 - r)" unfolding V u ..
    ultimately have "W ^ nb * uint (a1 - r) < W ^ nb * 1" using bs by linarith
    then have "uint (a1 - r) < 1" by (simp only: mult_less_cancel_left_pos [OF W_pos(6)])
    then have "uint (a1 - r) = 0" using uint_limb(1) [of "a1 - r"] by linarith
    then have "a1 - r = 0" by (simp add: word_uint_eq_iff)
    then show ?thesis using m(2) V Vb g by (simp add: V_def)
  next
    case True
    have g: "a1 - r > a1" using True uint_limb [of r] by (simp add: word_less_def uint_sub_if' W_def)
    have u: "uint (a1 - r) = uint a1 - uint r + W" using True by (simp add: word_less_def uint_sub_if' W_def)
    define d where "d = - V"
    have "W ^ nb * (uint a1 - uint r) \<le> W ^ nb * (- 1)" using True by (intro mult_left_mono) (simp_all add: word_less_def)
    then have "0 < d" using bs unfolding d_def V by simp
    moreover have "lv s' + W ^ nb * uint (a1 - r) + d = W ^ (nb + 1)"
      unfolding d_def V u by (simp add: algebra_simps)
    ultimately obtain s'' k where b: "add_back s' (a1 - r) tabb q = Some (s'', 0, q - word_of_nat k)" "length s'' = nb"
      "lv s'' = int k * lv tabb - d" "lv s'' < lv tabb"
      using add_back_value [of s' tabb d "a1 - r" q] m(2) bpos by (auto simp: nb_def)
    have U': "U = (uint q - int k) * lv tabb + lv s''" using b(3) by (simp add: d_def V_def algebra_simps)
    have "0 \<le> U" using lv_bounds(1) [of s] uint_limb(1) [of a1] by (simp add: U_def)
    then have "- 1 * lv tabb < (uint q - int k) * lv tabb" using U' b(4) by simp
    then have "int k \<le> uint q" by (simp only: mult_less_cancel_right_pos [OF bpos])
    moreover have "uint (word_of_nat k :: limb) = int k"
      using \<open>int k \<le> uint q\<close> uint_limb(2) [of q] by (simp add: unsigned_of_nat take_bit_nat_eq_self_iff W_def)
    ultimately have "uint (q - word_of_nat k) = uint q - int k"
      using uint_limb [of q] by (simp add: limb_arith)
    then show ?thesis using b U' g by auto
  qed
  then obtain s'' q' where c: "(if a1 - r > a1 then add_back s' (a1 - r) tabb q else Some (s', a1 - r, q)) = Some (s'', 0, q')"
    "length s'' = nb" "lv s'' < lv tabb" "U = uint q' * lv tabb + lv s''"
    by blast
  obtain taba1 where w: "blit taba i s'' = Some taba1" "wr taba1 (i + nb) 0 = Some (take i taba @ s'' @ 0 # drop (i + nb + 1) taba)"
    using blit_wr [of i s'' taba 0] c(2) l by (auto simp: nb_def)
  have "divnorm_step taba tabb b1_inv i = Some (q', take i taba @ s'' @ 0 # drop (i + nb + 1) taba)"
  proof -
    have r: "rd tabb (nb - 1) = Some (last tabb)" "rd taba (i + nb) = Some a1" "rd taba (i + nb - 1) = Some a0"
      using assms(1) nb l by (simp_all add: nb_def last_conv_nth a1_def a0_def)
    show ?thesis
      by (simp only: divnorm_step_def Let_def nb_def [symmetric] r bind.bind_lunit q_def [symmetric] s(2) m(1) prod.case c(1) w)
  qed
  then show ?thesis using c UV by (auto simp: nb_def)
qed

section \<open>All quotient limbs\<close>

lemma divnorm_loop_value:
  assumes "tabb \<noteq> []" "W \<le> 2 * uint (last tabb)" "b1_inv = 0 \<or> b1_inv = udiv1norm_init (last tabb)"
    and "i + length tabb \<le> length taba" "lv (take (length tabb) (drop i taba)) < lv tabb" "i \<le> length tabq"
  shows "\<exists>tabq' taba'. divnorm_loop tabq taba tabb b1_inv i = Some (tabq', taba')
    \<and> length tabq' = length tabq \<and> length taba' = length taba \<and> drop i tabq' = drop i tabq
    \<and> lv (take (length tabb) taba') < lv tabb
    \<and> lv (take (i + length tabb) taba) = lv (take i tabq') * lv tabb + lv (take (length tabb) taba')"
  using assms(4-)
proof (induction i arbitrary: tabq taba)
  case 0
  then show ?case by simp
next
  case (Suc i)
  define nb where "nb = length tabb"
  obtain q r where st: "divnorm_step taba tabb b1_inv i = Some (q, take i taba @ r @ 0 # drop (i + nb + 1) taba)"
    "length r = nb" "lv r < lv tabb" "lv (take (nb + 1) (drop i taba)) = uint q * lv tabb + lv r"
    using divnorm_step_value [OF assms(1-3), of i taba] Suc.prems by (auto simp: nb_def)
  define taba1 where "taba1 = take i taba @ r @ 0 # drop (i + nb + 1) taba"
  have l1: "length taba1 = length taba" using st(2) Suc.prems by (simp add: taba1_def nb_def)
  have d1: "take nb (drop i taba1) = r" "take i taba1 = take i taba"
    using st(2) Suc.prems by (simp_all add: taba1_def nb_def)
  obtain tabq' taba' where r: "divnorm_loop (tabq[i := q]) taba1 tabb b1_inv i = Some (tabq', taba')"
    "length tabq' = length tabq" "length taba' = length taba" "drop i tabq' = drop i (tabq[i := q])"
    "lv (take nb taba') < lv tabb"
    "lv (take (i + nb) taba1) = lv (take i tabq') * lv tabb + lv (take nb taba')"
    using Suc.IH [of taba1 "tabq[i := q]"] Suc.prems l1 d1(1) st(3) by (auto simp: nb_def)
  have tq: "lv (take (Suc i) tabq') = lv (take i tabq') + W ^ i * uint q"
  proof -
    have "tabq' ! i = drop i tabq' ! 0" using r(2) Suc.prems by simp
    also have "\<dots> = q" unfolding r(4) using Suc.prems by simp
    finally show ?thesis using r(2) Suc.prems by (simp add: lv_take_Suc)
  qed
  have "lv (take (i + (nb + 1)) taba) = lv (take i taba) + W ^ i * (uint q * lv tabb + lv r)"
    using lv_take_add [of i "nb + 1" taba] st(4) Suc.prems by (simp add: nb_def)
  also have "\<dots> = lv (take (i + nb) taba1) + W ^ i * uint q * lv tabb"
    using lv_take_add [of i nb taba1] d1 l1 Suc.prems by (simp add: nb_def algebra_simps)
  finally have v: "lv (take (Suc i + nb) taba) = lv (take (Suc i) tabq') * lv tabb + lv (take nb taba')"
    unfolding r(6) tq by (simp add: algebra_simps)
  have "drop (Suc i) tabq' = drop (Suc i) tabq"
    using arg_cong [OF r(4), of "drop 1"] by simp
  moreover have "divnorm_loop tabq taba tabb b1_inv (Suc i) = Some (tabq', taba')"
    using st(1) r(1) Suc.prems by (simp add: taba1_def wr_def)
  ultimately show ?case using r(2,3,5) v by (auto simp: nb_def)
qed

lemma mp_divnorm_value:
  assumes b: "tabb \<noteq> []" "W \<le> 2 * uint (last tabb)"
    and l: "length tabb \<le> length taba" "length taba - length tabb < length tabq"
  defines "n \<equiv> length taba - length tabb"
  shows "\<exists>tabq' taba'. mp_divnorm tabq taba tabb = Some (tabq', taba')
    \<and> length tabq' = length tabq \<and> length taba' = length taba \<and> drop (n + 1) tabq' = drop (n + 1) tabq
    \<and> lv (take (length tabb) taba') < lv tabb
    \<and> lv taba = lv (take (n + 1) tabq') * lv tabb + lv (take (length tabb) taba')"
proof (cases "length tabb = 1")
  case True
  then obtain b1 where t: "tabb = [b1]" by (cases tabb) auto
  have "W \<le> 2 * uint b1" using b(2) t by simp
  then have "0 < uint b1" using W_pos(1) by linarith
  then have b1: "0 < b1" by (simp add: word_less_def)
  obtain qs r where d: "mp_div1 taba b1 0 = (qs, r)" "length qs = length taba" "r < b1"
    "lv taba = lv qs * uint b1 + uint r"
    using mp_div1_value [OF b1, of taba] by auto
  have na: "0 < length taba" "n + 1 = length taba" using l(1) t by (cases taba; simp add: n_def)+
  have "mp_div1norm taba b1 0 = (qs, r)" using mp_div1norm_eq [of b1 0 taba] b1 b(2) t d(1) by simp
  then have "mp_divnorm tabq taba tabb = Some (qs @ drop (length qs) tabq, taba[0 := r])"
    using t l na d(2) by (simp add: mp_divnorm_def Let_def blit_def wr_def rd_def n_def)
  moreover have "take (Suc 0) (taba[0 := r]) = [r]" using na(1) by (cases taba) simp_all
  ultimately show ?thesis using d t na l by (simp add: word_less_def n_def)
next
  case False
  define nb where "nb = length tabb"
  define b1_inv where "b1_inv = (if n \<ge> UDIV1NORM_THRESHOLD then udiv1norm_init (last tabb) else 0)"
  define q :: limb where "q = of_bool (lv tabb \<le> lv (drop n taba))"
  have nb: "n + nb = length taba" using l(1) by (simp add: n_def nb_def)
  have ge: "ge_limbs taba n tabb nb = Some q"
    using ge_limbs_value [of n nb taba tabb] nb by (simp add: q_def nb_def)
  have ld: "length (drop n taba) = nb" using nb by simp
  have half: "lv (drop n taba) < 2 * lv tabb"
  proof -
    have "lv (drop n taba) < W ^ nb" using lv_bounds(2) [of "drop n taba"] ld by simp
    also have "W ^ nb = W ^ (nb - 1) * W" using b(1) by (cases nb) (simp_all add: nb_def)
    also have "\<dots> \<le> W ^ (nb - 1) * (2 * uint (last tabb))" using b(2) by (intro mult_left_mono) simp_all
    also have "\<dots> \<le> 2 * lv tabb" using last_bounds(1) [OF b(1)] by (simp add: nb_def)
    finally show ?thesis .
  qed
  obtain taba1 where t1: "(if q \<noteq> 0 then do { s \<leftarrow> slice taba n nb; (s', c) \<leftarrow> mp_sub s tabb 0; blit taba n s' } else Some taba) = Some taba1"
    "length taba1 = length taba" "take n taba1 = take n taba" "lv (drop n taba) = uint q * lv tabb + lv (drop n taba1)"
    "lv (drop n taba1) < lv tabb"
  proof (cases "lv tabb \<le> lv (drop n taba)")
    case True
    obtain s' c where m: "mp_sub (drop n taba) tabb 0 = Some (s', of_bool c)" "length s' = nb"
      "lv s' - W ^ nb * of_bool c = lv (drop n taba) - lv tabb"
      using mp_sub_value [of "drop n taba" tabb False] ld by (auto simp: nb_def)
    have "\<not> c" using m(3) True lv_bounds(2) [of s'] m(2) by auto
    moreover have "slice taba n nb = Some (drop n taba)" using nb ld by (simp add: slice_def)
    moreover have "blit taba n s' = Some (take n taba @ s')" using nb m(2) by (simp add: blit_def)
    ultimately have e: "do { s \<leftarrow> slice taba n nb; (s', c) \<leftarrow> mp_sub s tabb 0; blit taba n s' } = Some (take n taba @ s')"
      and v: "lv s' = lv (drop n taba) - lv tabb"
      using m(1,3) by simp_all
    have q: "q = 1" using True by (simp add: q_def)
    show ?thesis
      by (rule that [of "take n taba @ s'"]) (use q e v m(2) half nb in simp_all)
  next
    case False
    then have q: "q = 0" by (simp add: q_def)
    show ?thesis by (rule that [of taba]) (use q False in simp_all)
  qed
  obtain tabq' taba' where r: "divnorm_loop (tabq[n := q]) taba1 tabb b1_inv n = Some (tabq', taba')"
    "length tabq' = length tabq" "length taba' = length taba" "drop n tabq' = drop n (tabq[n := q])"
    "lv (take nb taba') < lv tabb"
    "lv taba1 = lv (take n tabq') * lv tabb + lv (take nb taba')"
  proof -
    have inv: "b1_inv = 0 \<or> b1_inv = udiv1norm_init (last tabb)" by (simp add: b1_inv_def)
    have p: "n + nb \<le> length taba1" "lv (take nb (drop n taba1)) < lv tabb" "n \<le> length (tabq[n := q])"
      and whole: "take (n + nb) taba1 = taba1"
      using t1(2,5) nb l(2) ld by (simp_all add: n_def)
    show ?thesis
      using divnorm_loop_value [OF b inv, of n taba1 "tabq[n := q]", folded nb_def, OF p] that
      unfolding whole length_list_update t1(2) by blast
  qed
  have tq: "lv (take (n + 1) tabq') = lv (take n tabq') + W ^ n * uint q"
  proof -
    have "tabq' ! n = drop n tabq' ! 0" using r(2) l by (simp add: n_def)
    also have "\<dots> = q" unfolding r(4) using l by (simp add: n_def)
    finally show ?thesis using r(2) l by (simp add: lv_take_Suc n_def)
  qed
  have "lv taba = lv (take n taba) + W ^ n * lv (drop n taba)"
    using lv_append [of "take n taba" "drop n taba"] nb by simp
  also have "\<dots> = lv taba1 + W ^ n * uint q * lv tabb"
  proof -
    have "lv taba1 = lv (take n taba1) + W ^ n * lv (drop n taba1)"
      using lv_append [of "take n taba1" "drop n taba1"] nb t1(2) by simp
    then show ?thesis unfolding t1(3,4) by (simp add: algebra_simps)
  qed
  finally have v: "lv taba = lv (take (n + 1) tabq') * lv tabb + lv (take nb taba')"
    unfolding r(6) tq by (simp add: algebra_simps)
  have "mp_divnorm tabq taba tabb = Some (tabq', taba')"
  proof -
    have a: "rd tabb (nb - 1) = Some (last tabb)" using b(1) by (simp add: rd_def nb_def last_conv_nth)
    have w: "wr tabq n q = Some (tabq[n := q])" using l(2) by (simp add: n_def)
    have n: "length taba - nb = n" and nb1: "(nb = 1) = False" using False by (simp_all add: n_def nb_def)
    show ?thesis
      by (simp only: mp_divnorm_def Let_def nb_def [symmetric] n a bind.bind_lunit nb1 if_False b1_inv_def [symmetric] ge w t1(1) r(1))
  qed
  then show ?thesis using r(2,3,5) v arg_cong [OF r(4), of "drop 1"] by (auto simp: nb_def)
qed

end
