(* ===== verification/BigIntValue.thy ===== *)
theory BigIntValue
  imports BigInt LimbsDivide
begin

text \<open>
  The integer a BigInt stands for, its normal form, and what the allocations of an operation may do.
\<close>

section \<open>Signed values\<close>

definition neg :: "limb list \<Rightarrow> bool" where
  "neg a \<longleftrightarrow> W \<le> 2 * uint (last a)"

definition sv :: "limb list \<Rightarrow> int" where
  "sv a = lv a - of_bool (neg a) * W ^ length a"

definition bigint_ok :: "JSBigInt \<Rightarrow> bool" where
  "bigint_ok a \<longleftrightarrow> a \<noteq> []
     \<and> (2 \<le> length a \<longrightarrow> (last a \<noteq> 0 \<and> last a \<noteq> - 1) \<or> last a AND 1 \<noteq> drop_bit 63 (a ! (length a - 2)))"

lemma drop_bit_63: "drop_bit 63 (x :: limb) = of_bool (W \<le> 2 * uint x)"
proof (rule bit_word_eqI)
  fix n
  show "bit (drop_bit 63 x) n \<longleftrightarrow> bit (of_bool (W \<le> 2 * uint x) :: limb) n"
    by (cases n) (auto simp: bit_drop_bit_eq bit_63 [symmetric] bit_of_bool_iff dest: bit_imp_le_length)
qed

lemma js_bigint_sign: "js_bigint_sign a = of_bool (neg a)"
  by (simp add: js_bigint_sign_def JS_LIMB_BITS_def drop_bit_63 neg_def)

lemma sint_limb: "sint (x :: limb) = uint x - of_bool (W \<le> 2 * uint x) * W"
proof -
  have "sint x = take_bit 64 (uint x) - 2 ^ 64 * of_bool (bit (uint x) 63)"
    by (simp add: sint_uint signed_take_bit_eq_take_bit_minus)
  moreover have "bit (uint x) 63 \<longleftrightarrow> W \<le> 2 * uint x" by (simp add: bit_uint_iff bit_63)
  moreover have "take_bit 64 (uint x) = uint x" using uint_limb [of x] by (simp add: take_bit_eq_mod W_def)
  ultimately show ?thesis by (simp add: W_def)
qed

lemma sv_snoc: "sv (xs @ [x]) = lv xs + W ^ length xs * sint x"
  by (simp add: sv_def lv_append neg_def sint_limb algebra_simps)

lemma sv_Cons: "xs \<noteq> [] \<Longrightarrow> sv (x # xs) = uint x + W * sv xs"
  by (simp add: sv_def neg_def algebra_simps)

lemma neg_value:
  assumes "a \<noteq> []"
  shows "neg a \<longleftrightarrow> W ^ length a \<le> 2 * lv a"
proof -
  define P where "P = W ^ (length a - 1)"
  define x where "x = uint (last a)"
  define H :: int where "H = 2 ^ 63"
  have W: "W = 2 * H" by (simp add: W_def H_def)
  have l: "P * x \<le> lv a" "lv a < P * (x + 1)" using last_bounds [OF assms] by (simp_all add: P_def x_def)
  have "W ^ length a = P * W" using assms by (cases a) (simp_all add: P_def)
  then have n: "W ^ length a = 2 * (P * H)" by (simp add: W)
  have c: "W \<le> 2 * x \<longleftrightarrow> H \<le> x" by (simp add: W)
  show ?thesis
  proof (cases "H \<le> x")
    case True
    then have "P * H \<le> P * x" by (intro mult_left_mono) (simp_all add: P_def)
    then show ?thesis using True l unfolding neg_def x_def [symmetric] n c by simp
  next
    case False
    then have "P * (x + 1) \<le> P * H" by (intro mult_left_mono) (simp_all add: P_def)
    then show ?thesis using False l unfolding neg_def x_def [symmetric] n c by simp
  qed
qed

lemma sv_bounds: "a \<noteq> [] \<Longrightarrow> - (W ^ length a) \<le> 2 * sv a" "a \<noteq> [] \<Longrightarrow> 2 * sv a < W ^ length a"
  using neg_value [of a] lv_bounds [of a] by (auto simp: sv_def)

lemma neg_sv: "a \<noteq> [] \<Longrightarrow> neg a \<longleftrightarrow> sv a < 0"
  using neg_value [of a] lv_bounds [of a] by (auto simp: sv_def)

lemma lv_sv: "lv a = sv a + of_bool (neg a) * W ^ length a"
  by (simp add: sv_def)

text \<open>A value in the range of its length is determined by its residue.\<close>

lemma multiple_between: "k * p = d \<Longrightarrow> - p < d \<Longrightarrow> d < p \<Longrightarrow> k * p = (0 :: int)"
proof (rule ccontr)
  assume h: "k * p = d" "- p < d" "d < p" "k * p \<noteq> 0"
  then have p: "0 < p" and "k \<noteq> 0" by auto
  then consider "1 \<le> k" | "k \<le> - 1" by linarith
  then show False
  proof cases
    case 1
    then have "1 * p \<le> k * p" using p by (intro mult_right_mono) simp_all
    then show False using h by simp
  next
    case 2
    then have "k * p \<le> - 1 * p" using p by (intro mult_right_mono) simp_all
    then show False using h by simp
  qed
qed

lemma sv_eqI:
  assumes "a \<noteq> []" "lv a = z + k * W ^ length a" "- (W ^ length a) \<le> 2 * z" "2 * z < W ^ length a"
  shows "sv a = z"
proof -
  have "(k - of_bool (neg a)) * W ^ length a = sv a - z" using assms(2) by (simp add: sv_def algebra_simps)
  moreover have "- (W ^ length a) < sv a - z" "sv a - z < W ^ length a"
    using sv_bounds [OF assms(1)] assms(3,4) by simp_all
  ultimately have "(k - of_bool (neg a)) * W ^ length a = 0" by (intro multiple_between) simp_all
  then show ?thesis using assms(2) by (simp add: sv_def algebra_simps)
qed

section \<open>Normal form\<close>

lemma sv_shrink:
  assumes "s = (if neg (xs @ [w]) then - 1 else 0)"
  shows "sv (xs @ [w, s]) = sv (xs @ [w])"
proof -
  have "sv ((xs @ [w]) @ [s]) = lv (xs @ [w]) + W ^ length (xs @ [w]) * sint s" by (rule sv_snoc)
  then show ?thesis using assms by (simp add: sv_def)
qed

lemma sign_limb_iff:
  "(s \<noteq> 0 \<and> s \<noteq> - 1) \<or> s AND 1 \<noteq> drop_bit 63 w \<longleftrightarrow> (s :: limb) \<noteq> (if neg (xs @ [w]) then - 1 else 0)"
  by (auto simp: drop_bit_63 neg_def)

lemma normalize_len_ok:
  assumes "1 \<le> l" "l \<le> length tab"
  shows "\<exists>l'. normalize_len tab l = Some l' \<and> 1 \<le> l' \<and> l' \<le> l \<and> sv (take l' tab) = sv (take l tab) \<and> bigint_ok (take l' tab)"
  using assms
proof (induction l)
  case (Suc l)
  show ?case
  proof (cases l)
    case 0
    then show ?thesis using Suc.prems by (auto simp: bigint_ok_def)
  next
    case l: (Suc k)
    define v w where "v = tab ! Suc k" and "w = tab ! k"
    have t: "take (Suc k) tab = take k tab @ [w]" "take (Suc (Suc k)) tab = take k tab @ [w, v]"
      using Suc.prems l by (simp_all add: take_Suc_conv_app_nth v_def w_def)
    have n: "normalize_len tab (Suc (Suc k)) =
        (if v \<noteq> (if neg (take k tab @ [w]) then - 1 else 0) then Some (Suc (Suc k)) else normalize_len tab (Suc k))"
      using Suc.prems l sign_limb_iff [of v w "take k tab"] by (simp add: rd_def v_def w_def JS_LIMB_BITS_def)
    show ?thesis
    proof (cases "v = (if neg (take k tab @ [w]) then - 1 else 0)")
      case True
      then have "normalize_len tab (Suc l) = normalize_len tab l" "sv (take (Suc l) tab) = sv (take l tab)"
        using n sv_shrink [OF True] unfolding l t by simp_all
      then show ?thesis using Suc.IH Suc.prems l by auto
    next
      case False
      have "bigint_ok (take (Suc (Suc k)) tab)"
        unfolding t bigint_ok_def using False sign_limb_iff [of v w "take k tab"] Suc.prems l by (simp add: nth_append)
      then show ?thesis unfolding l n using False by auto
    qed
  qed
qed simp

end
