(* ===== verification/BigIntCorrect.thy ===== *)
theory BigIntCorrect
  imports BigIntValue "HOL-Library.Signed_Division"
begin

text \<open>
  The operations on BigInts compute the operations on integers, in normal form. \<open>computes m res z big\<close>: the result
  is the integer \<open>z\<close>, or the error of a size that is too large, exactly when \<open>big\<close>, or an out of
  memory error, only when some allocation failed.
\<close>

definition computes :: "(nat \<Rightarrow> alloc) \<Rightarrow> JSBigInt res \<Rightarrow> int \<Rightarrow> bool \<Rightarrow> bool" where
  "computes m res z big \<longleftrightarrow>
     (if big then res = Some (Inl Too_Large_To_Allocate)
      else (\<exists>r. res = Some (Inr r) \<and> bigint_ok r \<and> sv r = z) \<or> res = Some (Inl Out_Of_Memory) \<and> (\<exists>k. m k = None))"

lemma computesI: "res = Some (Inr r) \<Longrightarrow> bigint_ok r \<Longrightarrow> sv r = z \<Longrightarrow> computes m res z False"
  by (auto simp: computes_def)

lemma computes_new:
  assumes "\<And>c. m k = Some c \<Longrightarrow> len \<le> JS_BIGINT_MAX_SIZE \<Longrightarrow> computes m (f (map c [0..<len])) z False"
  shows "computes m (andthen (js_bigint_new (m k) len) f) z (len > JS_BIGINT_MAX_SIZE)"
proof (cases "m k")
  case None
  then show ?thesis by (auto simp: computes_def andthen_def js_bigint_new_def js_malloc_def)
next
  case (Some c)
  then show ?thesis using assms [OF Some] by (simp add: computes_def andthen_def js_bigint_new_def js_malloc_def)
qed

lemma computes_new_small:
  assumes "\<And>c. m k = Some c \<Longrightarrow> computes m (f (map c [0..<len])) z False" "len \<le> JS_BIGINT_MAX_SIZE"
  shows "computes m (andthen (js_bigint_new (m k) len) f) z False"
  using computes_new [of m k len f z] assms by simp

lemma computes_malloc:
  assumes "\<And>c. m k = Some c \<Longrightarrow> computes m (f (map c [0..<len])) z False"
  shows "computes m (andthen (js_malloc (m k) len) f) z False"
  using assms by (cases "m k") (auto simp: computes_def andthen_def js_malloc_def)

lemma normalize1_computes:
  assumes "1 \<le> l" "l \<le> length a"
  shows "computes m (js_bigint_normalize1 a l) (sv (take l a)) False"
  using normalize_len_ok [OF assms] by (auto simp: js_bigint_normalize1_def computes_def)

lemma normalize_computes: "a \<noteq> [] \<Longrightarrow> computes m (js_bigint_normalize a) (sv a) False"
  using normalize1_computes [of "length a" a m] by (cases a) (simp_all add: js_bigint_normalize_def)

lemma bigint_ok_snoc:
  "r \<noteq> [] \<Longrightarrow> bigint_ok (r @ [x]) \<longleftrightarrow> x \<noteq> (if neg r then - 1 else 0)"
  using sign_limb_iff [of x "last r" "butlast r"]
  by (cases r rule: rev_cases) (simp_all add: bigint_ok_def nth_append)

lemma extend_computes:
  assumes "r \<noteq> []"
  shows "computes m (js_bigint_extend (m k) r op1) (lv r + W ^ length r * sint op1) False"
proof -
  have c: "(op1 \<noteq> 0 \<and> op1 \<noteq> - 1) \<or> op1 AND 1 \<noteq> drop_bit (JS_LIMB_BITS - 1) (last r) \<longleftrightarrow> op1 \<noteq> (if neg r then - 1 else 0)"
    using sign_limb_iff [of op1 "last r" "butlast r"] assms by (simp add: JS_LIMB_BITS_def)
  show ?thesis
  proof (cases "op1 = (if neg r then - 1 else 0)")
    case True
    then have "sv r = lv r + W ^ length r * sint op1" by (simp add: sv_def)
    moreover have "js_bigint_extend (m k) r op1 = js_bigint_normalize r" unfolding js_bigint_extend_def c using True by simp
    ultimately show ?thesis using normalize_computes [OF assms] by simp
  next
    case False
    then have "bigint_ok (r @ [op1])" using bigint_ok_snoc [OF assms] by simp
    moreover have "js_bigint_extend (m k) r op1 = Some (case m k of None \<Rightarrow> Inl Out_Of_Memory | Some contents \<Rightarrow> Inr (r @ [op1]))"
      unfolding js_bigint_extend_def c using False by simp
    ultimately show ?thesis by (auto simp: computes_def sv_snoc split: option.split)
  qed
qed

section \<open>Sums\<close>

lemma addc_loop_value:
  "\<exists>rs c. addc_loop ps (of_bool K) = (rs, of_bool c) \<and> length rs = length ps
    \<and> lv rs + W ^ length ps * of_bool c = lv (map fst ps) + lv (map snd ps) + of_bool K"
proof (induction ps arbitrary: K)
  case (Cons p ps)
  obtain x y where p: "p = (x, y)" by (cases p)
  define r where "r = x + y + of_bool K"
  define B where "B \<longleftrightarrow> r < of_bool K \<or> x + y < x"
  have v: "uint r + W * of_bool B = uint x + uint y + of_bool K" by (rule add_limb_value [OF r_def B_def])
  have a: "ADDC x y (of_bool K) = (r, of_bool B)" by (simp add: ADDC_def Let_def bit_or r_def B_def)
  obtain rs c where i: "addc_loop ps (of_bool B) = (rs, of_bool c)" "length rs = length ps"
    "lv rs + W ^ length ps * of_bool c = lv (map fst ps) + lv (map snd ps) + of_bool B"
    using Cons.IH by blast
  have "lv (r # rs) + W ^ length (p # ps) * of_bool c = lv (map fst (p # ps)) + lv (map snd (p # ps)) + of_bool K"
    using v arg_cong [OF i(3), of "\<lambda>z. W * z"] p by (simp add: algebra_simps)
  then show ?case using a i(1,2) p by (intro exI [of _ "r # rs"] exI [of _ c]) simp
qed (auto intro: exI [of _ "K"])

lemma addc_loop_append:
  "addc_loop (ps @ qs) k = (let (r1, k1) = addc_loop ps k; (r2, k2) = addc_loop qs k1 in (r1 @ r2, k2))"
  by (induction ps arbitrary: k) (auto simp: Let_def split: prod.splits)

lemma lv_replicate_1: "lv (replicate n (- 1)) = W ^ n - 1"
  by (induction n) (simp_all add: uint_minus_1 right_diff_distrib)

text \<open>A BigInt with its sign limb repeated up to \<open>n\<close> limbs.\<close>

definition sign_limb :: "limb list \<Rightarrow> limb" where
  "sign_limb a = (if neg a then - 1 else 0)"

definition extended :: "limb list \<Rightarrow> nat \<Rightarrow> limb list" where
  "extended a n = a @ replicate (n - length a) (sign_limb a)"

lemma length_extended [simp]: "length a \<le> n \<Longrightarrow> length (extended a n) = n"
  by (simp add: extended_def)

lemma lv_extended: "length a \<le> n \<Longrightarrow> lv (extended a n) = sv a + of_bool (neg a) * W ^ n"
proof -
  assume n: "length a \<le> n"
  then have "W ^ length a * W ^ (n - length a) = W ^ n" by (simp add: power_add [symmetric])
  then show ?thesis
    by (simp add: extended_def lv_append sign_limb_def lv_replicate_1 sv_def algebra_simps)
qed

lemma extended_nth: "i < n \<Longrightarrow> extended a n ! i = (if i < length a then a ! i else sign_limb a)"
  by (simp add: extended_def nth_append)

lemma complement_value:
  assumes "a \<noteq> []"
  shows "neg (map (\<lambda>x. NOT x) a) \<longleftrightarrow> \<not> neg a" "sv (map (\<lambda>x. NOT x) a) = - sv a - 1"
proof -
  have l: "lv (map (\<lambda>x. NOT x) a) = W ^ length a - 1 - lv a"
    by (induction a) (simp_all add: uint_not right_diff_distrib)
  have "even W" by (simp add: W_def)
  then obtain H where H: "W = 2 * H" by (rule evenE)
  have "W \<le> 2 * (W - 1 - uint (last a)) \<longleftrightarrow> \<not> W \<le> 2 * uint (last a)" unfolding H by presburger
  then show n: "neg (map (\<lambda>x. NOT x) a) \<longleftrightarrow> \<not> neg a"
    using assms by (simp add: neg_def last_map uint_not)
  show "sv (map (\<lambda>x. NOT x) a) = - sv a - 1"
    using n by (simp add: sv_def l)
qed

text \<open>The operand that is added: \<open>b\<close>, or its complement.\<close>

definition addend :: "JSBigInt \<Rightarrow> bool \<Rightarrow> JSBigInt" where
  "addend b b_neg = (if b_neg then map (\<lambda>x. NOT x) b else b)"

lemma addend_value:
  assumes "b \<noteq> []"
  shows "sv (addend b b_neg) + of_bool b_neg = (if b_neg then - sv b else sv b)"
    "- js_bigint_sign b XOR - of_bool b_neg = sign_limb (addend b b_neg)"
    "length (addend b b_neg) = length b" "addend b b_neg \<noteq> []"
    "i < length b \<Longrightarrow> addend b b_neg ! i = b ! i XOR - of_bool b_neg"
  using assms complement_value [OF assms]
  by (simp_all add: addend_def js_bigint_sign sign_limb_def)

lemma even_W_power: "0 < n \<Longrightarrow> even (W ^ n)"
  by (simp add: W_def)

lemma sv_bounds_within:
  assumes "a \<noteq> []" "length a \<le> n"
  shows "- (W ^ n) \<le> 2 * sv a" "2 * sv a < W ^ n"
proof -
  have "W ^ length a \<le> W ^ n" using assms(2) by (intro power_increasing) simp_all
  then show "- (W ^ n) \<le> 2 * sv a" "2 * sv a < W ^ n" using sv_bounds [OF assms(1)] by linarith+
qed

lemma bigint_add_value:
  assumes "a \<noteq> []" "b \<noteq> []"
  shows "computes m (js_bigint_add m a b b_neg) (if b_neg then sv a - sv b else sv a + sv b)
    (max (length a) (length b) > JS_BIGINT_MAX_SIZE)"
proof -
  define n1 n2 where "n1 = min (length a) (length b)" and "n2 = max (length a) (length b)"
  define b' where "b' = addend b b_neg"
  note bv = addend_value [OF assms(2), where b_neg = b_neg, folded b'_def]
  define z where "z = sv a + sv b' + of_bool b_neg"
  define ps where "ps = zip (extended a n2) (extended b' n2)"
  have n: "length a \<le> n2" "length b' \<le> n2" "0 < n2" using assms by (simp_all add: n2_def bv max_def)
  have lps: "length ps = n2" using n by (simp add: ps_def)
  have fst_snd: "map fst ps = extended a n2" "map snd ps = extended b' n2" using n by (simp_all add: ps_def)
  obtain rs c where l: "addc_loop ps (of_bool b_neg) = (rs, of_bool c)" "length rs = n2"
    "lv rs + W ^ n2 * of_bool c = lv (extended a n2) + lv (extended b' n2) + of_bool b_neg"
    using addc_loop_value [of ps b_neg] unfolding fst_snd lps by blast
  define t where "t = of_bool c - of_bool (neg a) - (of_bool (neg b') :: int)"
  have zt: "z = lv rs + W ^ n2 * t"
    using l(3) lv_extended [OF n(1)] lv_extended [OF n(2)] by (simp add: z_def t_def algebra_simps)
  obtain F where F: "W ^ n2 = 2 * F" using even_W_power [OF n(3)] by (rule evenE)
  have bounds: "- (W ^ n2) \<le> z" "z < W ^ n2"
    using sv_bounds_within [OF assms(1) n(1)] sv_bounds_within [OF bv(4) n(2)] unfolding z_def F
    by (cases b_neg; simp)+
  have "- 1 \<le> t"
  proof (rule ccontr)
    assume "\<not> - 1 \<le> t"
    then have "W ^ n2 * t \<le> W ^ n2 * (- 2)" by (intro mult_left_mono) simp_all
    then show False using zt bounds lv_bounds(2) [of rs] unfolding l(2) by linarith
  qed
  moreover have "t \<le> 0"
  proof (rule ccontr)
    assume "\<not> t \<le> 0"
    then have "W ^ n2 * 1 \<le> W ^ n2 * t" by (intro mult_left_mono) simp_all
    then show False using zt bounds lv_bounds(1) [of rs] by linarith
  qed
  ultimately have st: "sint (sign_limb a + sign_limb b' + of_bool c) = t"
    unfolding t_def sign_limb_def by (cases "neg a"; cases "neg b'"; cases c) simp_all
  define ps1 where "ps1 = map (\<lambda>i. (a ! i, b ! i XOR - of_bool b_neg)) [0..<n1]"
  define ps2 where "ps2 = (if length a > length b then map (\<lambda>i. (a ! i, sign_limb b')) [n1..<n2]
      else if length a < length b then map (\<lambda>i. (sign_limb a, b ! i XOR - of_bool b_neg)) [n1..<n2] else [])"
  have "ps = ps1 @ ps2"
    using bv(3) n
    by (intro nth_equalityI) (auto simp: ps_def ps1_def ps2_def nth_append extended_nth bv(5) n1_def n2_def)
  obtain rs1 k1 rs2 k2 where
    l12: "addc_loop ps1 (of_bool b_neg) = (rs1, k1)" "addc_loop ps2 k1 = (rs2, k2)"
    by fastforce
  have rs: "rs = rs1 @ rs2" "k2 = of_bool c"
    using l(1) l12 unfolding \<open>ps = ps1 @ ps2\<close> addc_loop_append by simp_all
  have "length rs1 = n1"
    using addc_loop_value [of ps1 b_neg] l12(1) by (auto simp: ps1_def)
  have ln: "length rs2 = n2 - n1" using rs(1) l(2) \<open>length rs1 = n1\<close> by simp
  have loop2: "(if length a > length b then addc_loop (map (\<lambda>i. (a ! i, sign_limb b')) [n1..<n2]) k1
      else if length a < length b then addc_loop (map (\<lambda>i. (sign_limb a, b ! i XOR - of_bool b_neg)) [n1..<n2]) k1
      else ([], k1)) = (rs2, k2)"
    unfolding l12(2) [symmetric] ps2_def
    by (simp only: if_distrib [where f = "\<lambda>x. addc_loop x k1"] addc_loop.simps)
  have sa: "- js_bigint_sign a = sign_limb a" by (simp add: js_bigint_sign sign_limb_def)
  have "js_bigint_add m a b b_neg = andthen (js_bigint_new (m 0) n2) (\<lambda>r. do {
      r1 \<leftarrow> blit r 0 rs1;
      r2 \<leftarrow> blit r1 n1 rs2;
      js_bigint_extend (m 1) r2 (sign_limb a + sign_limb b' + of_bool c) })"
    unfolding js_bigint_add_def Let_def n1_def [symmetric] n2_def [symmetric] sa bv(2) ps1_def [symmetric] l12(1) prod.case loop2 rs(2) ..
  moreover have "computes m (andthen (js_bigint_new (m 0) n2) (\<lambda>r. do {
      r1 \<leftarrow> blit r 0 rs1;
      r2 \<leftarrow> blit r1 n1 rs2;
      js_bigint_extend (m 1) r2 (sign_limb a + sign_limb b' + of_bool c) })) z (n2 > JS_BIGINT_MAX_SIZE)"
  proof (rule computes_new)
    fix contents :: "nat \<Rightarrow> limb"
    have "n1 \<le> n2" by (simp add: n1_def n2_def)
    then have "do { r1 \<leftarrow> blit (map contents [0..<n2]) 0 rs1; r2 \<leftarrow> blit r1 n1 rs2;
        js_bigint_extend (m 1) r2 (sign_limb a + sign_limb b' + of_bool c) }
      = js_bigint_extend (m 1) rs (sign_limb a + sign_limb b' + of_bool c)"
      using \<open>length rs1 = n1\<close> ln by (simp add: blit_def rs(1))
    moreover have "rs \<noteq> []" using l(2) n(3) by auto
    ultimately show "computes m (do { r1 \<leftarrow> blit (map contents [0..<n2]) 0 rs1; r2 \<leftarrow> blit r1 n1 rs2;
        js_bigint_extend (m 1) r2 (sign_limb a + sign_limb b' + of_bool c) }) z False"
      using extend_computes [of rs m 1 "sign_limb a + sign_limb b' + of_bool c"] zt l(2) st by simp
  qed
  moreover have "z = (if b_neg then sv a - sv b else sv a + sv b)" using bv(1) by (cases b_neg) (simp_all add: z_def)
  ultimately show ?thesis by (simp add: n2_def)
qed

lemma bigint_neg_value:
  assumes "a \<noteq> []"
  shows "computes m (js_bigint_neg m a) (- sv a) (length a > JS_BIGINT_MAX_SIZE)"
proof -
  have "max (length [0 :: limb]) (length a) = length a" using assms by (cases a) simp_all
  moreover have "sv [0] = 0" by (simp add: sv_def neg_def W_def)
  ultimately show ?thesis
    using bigint_add_value [of "[0]" a m True] assms by (simp add: js_bigint_neg_def js_bigint_set_si_def)
qed

section \<open>Products\<close>

lemma sub_at_value:
  assumes "off + length b = length r"
  shows "\<exists>r' k. sub_at r off b = Some r' \<and> length r' = length r \<and> lv r' = lv r - W ^ off * lv b + k * W ^ length r"
proof -
  have l: "length (drop off r) = length b" using assms by simp
  obtain s' c where m: "mp_sub (drop off r) b 0 = Some (s', of_bool c)" "length s' = length b"
    "lv s' - W ^ length b * of_bool c = lv (drop off r) - lv b"
    using mp_sub_value [OF l, of False] l by auto
  have s: "slice r off (length b) = Some (drop off r)" using assms by (simp add: slice_def)
  define d :: int where "d = of_bool c"
  have r: "lv r = lv (take off r) + W ^ off * lv (drop off r)"
    using lv_append [of "take off r" "drop off r"] assms by simp
  have s': "lv s' = lv (drop off r) - lv b + W ^ length b * d" using m(3) by (simp add: d_def)
  have "W ^ length r = W ^ off * W ^ length b" using assms by (simp add: power_add [symmetric])
  then have "lv (take off r @ s') = lv r - W ^ off * lv b + d * W ^ length r"
    using assms by (simp add: lv_append r s' algebra_simps)
  moreover have "sub_at r off b = Some (take off r @ s')"
    using m(1,2) s assms by (simp add: sub_at_def blit_def)
  ultimately show ?thesis using m(2) assms by (intro exI [of _ "take off r @ s'"] exI [of _ d]) simp
qed

lemma bigint_mul_value:
  assumes "a \<noteq> []" "b \<noteq> []"
  shows "computes m (js_bigint_mul m a b) (sv a * sv b) (length a + length b > JS_BIGINT_MAX_SIZE)"
  unfolding js_bigint_mul_def
proof (rule computes_new)
  fix contents :: "nat \<Rightarrow> limb"
  define r where "r = map contents [0..<length a + length b]"
  obtain r1 where r1: "mp_mul_basecase r a b = Some r1" "length r1 = length a + length b" "lv r1 = lv a * lv b"
    using mp_mul_basecase_value [OF assms(2), of r a] by (auto simp: r_def)
  obtain r2 k2 where r2: "(if js_bigint_sign a \<noteq> 0 then sub_at r1 (length a) b else Some r1) = Some r2"
    "length r2 = length r1" "lv r2 = lv r1 - of_bool (neg a) * W ^ length a * lv b + k2 * W ^ length r1"
  proof (cases "neg a")
    case True
    obtain r' k where "sub_at r1 (length a) b = Some r'" "length r' = length r1" "lv r' = lv r1 - W ^ length a * lv b + k * W ^ length r1"
      using sub_at_value [of "length a" b r1] r1(2) by auto
    then show ?thesis using that [of r' k] True by (simp add: js_bigint_sign)
  next
    case False
    then show ?thesis using that [of r1 0] by (simp add: js_bigint_sign)
  qed
  obtain r3 k3 where r3: "(if js_bigint_sign b \<noteq> 0 then sub_at r2 (length b) a else Some r2) = Some r3"
    "length r3 = length r1" "lv r3 = lv r2 - of_bool (neg b) * W ^ length b * lv a + k3 * W ^ length r1"
  proof (cases "neg b")
    case True
    obtain r' k where "sub_at r2 (length b) a = Some r'" "length r' = length r2" "lv r' = lv r2 - W ^ length b * lv a + k * W ^ length r2"
      using sub_at_value [of "length b" a r2] r2(2) r1(2) by auto
    then show ?thesis using that [of r' k] True r2(2) by (simp add: js_bigint_sign)
  next
    case False
    then show ?thesis using that [of r2 0] r2(2) by (simp add: js_bigint_sign)
  qed
  have ne: "r3 \<noteq> []" using r3(2) r1(2) assms(1) by auto
  have Wn: "W ^ length r3 = W ^ length a * W ^ length b" using r3(2) r1(2) by (simp add: power_add)
  have "sv r3 = sv a * sv b"
  proof (rule sv_eqI [OF ne])
    show "lv r3 = sv a * sv b + (k2 + k3 - of_bool (neg a) * of_bool (neg b)) * W ^ length r3"
      using r2(3) r3(2,3) r1(2,3) unfolding Wn sv_def by (simp add: power_add algebra_simps)
    have "\<bar>2 * sv a\<bar> \<le> W ^ length a" "\<bar>2 * sv b\<bar> \<le> W ^ length b"
      using sv_bounds [OF assms(1)] sv_bounds [OF assms(2)] by linarith+
    then have "\<bar>2 * sv a\<bar> * \<bar>2 * sv b\<bar> \<le> W ^ length r3" unfolding Wn by (intro mult_mono) simp_all
    then have "\<bar>4 * (sv a * sv b)\<bar> \<le> W ^ length r3" by (simp add: abs_mult)
    moreover have "0 < W ^ length r3" by simp
    ultimately show "- (W ^ length r3) \<le> 2 * (sv a * sv b)" "2 * (sv a * sv b) < W ^ length r3" by linarith+
  qed
  with ne show "computes m (do {
       r1 \<leftarrow> mp_mul_basecase (map contents [0..<length a + length b]) a b;
       r2 \<leftarrow> (if js_bigint_sign a \<noteq> 0 then sub_at r1 (length a) b else Some r1);
       r3 \<leftarrow> (if js_bigint_sign b \<noteq> 0 then sub_at r2 (length b) a else Some r2);
       js_bigint_normalize r3
     }) (sv a * sv b) False"
    using normalize_computes [of r3 m] r1(1) r2(1) r3(1) by (simp add: r_def)
qed

end
