(* ===== verification/BigIntDivide.thy ===== *)
theory BigIntDivide
  imports BigIntCorrect
begin

text \<open>Division of BigInts: the quotient is truncated and the remainder has the sign of the dividend.\<close>

section \<open>Shifts of arrays\<close>

lemma take_bit_limb: "take_bit 64 (uint (x :: limb)) = uint x"
  using uint_limb [of x] by (simp add: take_bit_eq_mod W_def)

lemma uint_drop: "uint (drop_bit s (x :: limb)) = uint x div 2 ^ s"
proof -
  have "uint (drop_bit s x) = drop_bit s (take_bit 64 (uint x))" by (simp only: unsigned_drop_bit_eq) simp
  then show ?thesis by (simp only: take_bit_limb drop_bit_eq_div)
qed

lemma W_pow: "s \<le> 64 \<Longrightarrow> W = 2 ^ s * 2 ^ (64 - s)"
  by (simp add: W_def power_add [symmetric])

lemma uint_push: "s \<le> 64 \<Longrightarrow> uint (push_bit s (v :: limb)) = push_bit s (take_bit (64 - s) (uint v))"
  by (simp only: unsigned_push_bit_eq) (simp add: take_bit_push_bit)

text \<open>Limbs joined at bit \<open>s\<close>.\<close>

lemma uint_or_join:
  assumes "s \<le> 64" "0 \<le> uint l" "uint (l :: limb) < 2 ^ s"
  shows "uint (push_bit s v OR l) = 2 ^ s * (uint v mod 2 ^ (64 - s)) + uint l"
proof -
  have "take_bit s (uint l) = uint l" using assms by (simp add: take_bit_eq_mod)
  then have "uint (push_bit s v OR l) = push_bit s (take_bit (64 - s) (uint v)) OR take_bit s (uint l)"
    by (simp only: unsigned_or_eq uint_push [OF assms(1)])
  also have "\<dots> = concat_bit s (uint l) (take_bit (64 - s) (uint v))" by (simp add: concat_bit_def or.commute)
  also have "\<dots> = 2 ^ s * (uint v mod 2 ^ (64 - s)) + uint l"
    using assms by (simp add: concat_bit_eq push_bit_eq_mult take_bit_eq_mod mult.commute)
  finally show ?thesis .
qed

lemma shl_loop_value:
  assumes "s < 64" "0 < s" "uint l < 2 ^ s"
  shows "\<exists>rs h. shl_loop vs s l = (rs, h) \<and> length rs = length vs \<and> uint h < 2 ^ s
    \<and> lv rs + W ^ length vs * uint h = lv vs * 2 ^ s + uint l"
  using assms(3)
proof (induction vs arbitrary: l)
  case (Cons v vs)
  define h where "h = drop_bit (64 - s) v"
  have h: "uint h = uint v div 2 ^ (64 - s)" by (simp only: h_def uint_drop)
  have "uint v < 2 ^ (64 - s) * 2 ^ s" using uint_limb(2) [of v] W_pow [of s] assms(1) by (simp add: mult.commute)
  then have hb: "uint h < 2 ^ s" unfolding h by (intro div_less) simp_all
  have "uint v * 2 ^ s = 2 ^ s * (2 ^ (64 - s) * (uint v div 2 ^ (64 - s)) + uint v mod 2 ^ (64 - s))"
    by (simp only: mult_div_mod_eq mult.commute)
  also have "\<dots> = W * uint h + 2 ^ s * (uint v mod 2 ^ (64 - s))"
    using W_pow [of s] assms(1) unfolding h distrib_left mult.assoc [symmetric] by simp
  finally have v: "uint (push_bit s v OR l) + W * uint h = uint v * 2 ^ s + uint l"
    using uint_or_join [of s l v] assms(1) Cons.prems by simp
  obtain rs h' where i: "shl_loop vs s h = (rs, h')" "length rs = length vs" "uint h' < 2 ^ s"
    "lv rs + W ^ length vs * uint h' = lv vs * 2 ^ s + uint h"
    using Cons.IH [OF hb] by blast
  show ?case
    using i(1,2,3) v arg_cong [OF i(4), of "\<lambda>z. W * z"] by (simp add: h_def [symmetric] algebra_simps)
qed simp

lemma mp_shl_value:
  assumes "s < 64" "0 < s"
  shows "\<exists>rs h. mp_shl vs s = (rs, h) \<and> length rs = length vs \<and> uint h < 2 ^ s
    \<and> lv rs + W ^ length vs * uint h = lv vs * 2 ^ s"
  using shl_loop_value [OF assms, of 0 vs] assms by (simp add: mp_shl_def)

lemma shr_loop_value:
  assumes "s < 64" "0 < s"
  shows "\<exists>rs l'. shr_loop xs s l = (rs, l') \<and> length rs = length xs
    \<and> lv rs * 2 ^ s + uint l' mod 2 ^ s = lv xs + W ^ length xs * (uint l mod 2 ^ s)"
proof (induction xs)
  case (Cons x xs)
  then obtain rs l1 where i: "shr_loop xs s l = (rs, l1)" "length rs = length xs"
    "lv rs * 2 ^ s + uint l1 mod 2 ^ s = lv xs + W ^ length xs * (uint l mod 2 ^ s)"
    by blast
  have "uint x < 2 ^ s * 2 ^ (64 - s)" using uint_limb(2) [of x] W_pow [of s] assms(1) by simp
  then have d: "uint (drop_bit s x) < 2 ^ (64 - s)" unfolding uint_drop by (intro div_less) simp_all
  have "uint (drop_bit s x OR push_bit (64 - s) l1) = 2 ^ (64 - s) * (uint l1 mod 2 ^ s) + uint (drop_bit s x)"
    using uint_or_join [of "64 - s" "drop_bit s x" l1] d assms by (simp add: or.commute)
  then have "uint (drop_bit s x OR push_bit (64 - s) l1) * 2 ^ s
      = 2 ^ s * 2 ^ (64 - s) * (uint l1 mod 2 ^ s) + uint x div 2 ^ s * 2 ^ s"
    by (simp add: algebra_simps uint_drop)
  then have v: "uint (drop_bit s x OR push_bit (64 - s) l1) * 2 ^ s + uint x mod 2 ^ s = W * (uint l1 mod 2 ^ s) + uint x"
    using W_pow [of s] assms(1) div_mult_mod_eq [of "uint x" "2 ^ s"] by simp
  show ?case
    using i(1,2) v arg_cong [OF i(3), of "\<lambda>z. W * z"] by (simp add: algebra_simps)
qed simp

lemma mp_shr_value:
  assumes "s < 64" "0 < s"
  shows "length (fst (mp_shr xs s l)) = length xs
    \<and> lv (fst (mp_shr xs s l)) = (lv xs + W ^ length xs * (uint l mod 2 ^ s)) div 2 ^ s"
proof -
  obtain rs l' where r: "shr_loop xs s l = (rs, l')" "length rs = length xs"
    "lv rs * 2 ^ s + uint l' mod 2 ^ s = lv xs + W ^ length xs * (uint l mod 2 ^ s)"
    using shr_loop_value [OF assms] by blast
  then show ?thesis
    using int_div_mod_unique [of "lv xs + W ^ length xs * (uint l mod 2 ^ s)" "2 ^ s" "lv rs" "uint l' mod 2 ^ s"]
    by (simp add: mp_shr_def mult.commute)
qed

section \<open>Preparing the operands\<close>

lemma clz64_value:
  assumes "v \<noteq> 0"
  shows "\<exists>k. clz64 v = Some k \<and> k < 64 \<and> W \<le> 2 * (uint v * 2 ^ k) \<and> uint v * 2 ^ k < W"
proof -
  obtain k where k: "clz64 v = Some k" using assms by (auto simp: clz64_def)
  note sp = clz64_spec [OF k]
  have W: "W = 2 ^ k * 2 ^ (64 - k)" using W_pow [of k] sp by simp
  have "n < 64 - k" if "bit v n" for n
  proof (rule ccontr)
    assume "\<not> n < 64 - k"
    then have "63 - k < n" using sp by linarith
    then show False using sp that by blast
  qed
  then have "take_bit (64 - k) (uint v) = uint v"
    by (auto simp: bit_eq_iff bit_take_bit_iff bit_uint_iff)
  then have "uint v mod 2 ^ (64 - k) = uint v" by (simp only: take_bit_eq_mod)
  then have "uint v < 2 ^ (64 - k)" using pos_mod_bound [of "2 ^ (64 - k)" "uint v"] by simp
  then have "uint v * 2 ^ k < 2 ^ (64 - k) * 2 ^ k" by (intro mult_strict_right_mono) simp_all
  then have hi: "uint v * 2 ^ k < W" using W by (simp only: mult.commute)
  have "bit (uint v) (63 - k)" using sp by (simp add: bit_uint_iff)
  then have "uint v div 2 ^ (63 - k) \<noteq> 0" by (auto simp: bit_iff_odd)
  then have "2 ^ (63 - k) \<le> uint v" by (metis div_pos_pos_trivial not_less uint_limb(1))
  then have "2 ^ (63 - k) * 2 ^ k \<le> uint v * 2 ^ k" by (intro mult_right_mono) simp_all
  moreover have "2 ^ (63 - k) * 2 ^ k = (2 ^ 63 :: int)" using sp by (simp add: power_add [symmetric])
  ultimately show ?thesis using k sp hi by (auto simp: W_def)
qed

lemma trim_len_ok:
  assumes "1 \<le> n" "n \<le> length tab"
  shows "\<exists>n'. trim_len tab n = Some n' \<and> 1 \<le> n' \<and> n' \<le> n \<and> lv (take n' tab) = lv (take n tab)
    \<and> (n' = 1 \<or> tab ! (n' - 1) \<noteq> 0)"
  using assms
proof (induction n)
  case (Suc n)
  show ?case
  proof (cases n)
    case 0
    then show ?thesis by auto
  next
    case n: (Suc k)
    have t: "trim_len tab (Suc n) = (if tab ! n = 0 then trim_len tab n else Some (Suc n))"
      using Suc.prems n by (simp add: rd_def)
    show ?thesis
    proof (cases "tab ! n = 0")
      case True
      then have "lv (take (Suc n) tab) = lv (take n tab)" using Suc.prems by (simp add: lv_take_Suc)
      then show ?thesis using Suc.IH Suc.prems n True unfolding t by auto
    next
      case False
      then show ?thesis unfolding t by auto
    qed
  qed
qed simp

lemma put_abs_ok:
  assumes "a \<noteq> []" "length a \<le> length tab"
  shows "\<exists>xs. put_abs tab a = Some (xs @ drop (length a) tab) \<and> length xs = length a \<and> lv xs = \<bar>sv a\<bar>"
proof (cases "neg a")
  case True
  obtain rs c where r: "mp_neg a = (rs, c)" "length rs = length a" "lv rs = (if lv a = 0 then 0 else W ^ length a - lv a)"
    using mp_neg_value by blast
  have "0 < W ^ length a" by simp
  then have "lv a \<noteq> 0" using True neg_value [OF assms(1)] by linarith
  then have "lv rs = - sv a" using r(3) True by (simp add: sv_def)
  moreover have "sv a < 0" using neg_sv [OF assms(1)] True by simp
  ultimately show ?thesis using r(1,2) True assms by (simp add: put_abs_def js_bigint_sign blit_def)
next
  case False
  then have "lv a = \<bar>sv a\<bar>" using lv_bounds(1) [of a] by (simp add: sv_def)
  then show ?thesis using False assms by (simp add: put_abs_def js_bigint_sign blit_def)
qed

section \<open>The division of normalised operands\<close>

text \<open>The value of limbs with a zero on top, and of their negation.\<close>

lemma sv_top_zero: "sv (xs @ [0]) = lv xs"
  by (simp add: sv_snoc)

lemma sv_mp_neg:
  "sv (fst (mp_neg (xs @ [0]))) = - lv xs" "length (fst (mp_neg ys)) = length ys"
proof -
  obtain rs c where r: "mp_neg (xs @ [0]) = (rs, c)" "length rs = length (xs @ [0])"
    "lv rs = (if lv (xs @ [0]) = 0 then 0 else W ^ length (xs @ [0]) - lv (xs @ [0]))"
    using mp_neg_value by blast
  have v: "lv (xs @ [0]) = lv xs" by (simp add: lv_append)
  have l: "length rs = Suc (length xs)" using r(2) by simp
  have ne: "rs \<noteq> []" using l by auto
  have "2 * lv xs < W * W ^ length xs"
  proof -
    have "2 * W ^ length xs \<le> W * W ^ length xs" by (intro mult_right_mono) (simp_all add: W_def)
    then show ?thesis using lv_bounds(2) [of xs] by linarith
  qed
  then have "sv rs = - lv xs"
    using r(3) v l lv_bounds(1) [of xs]
    by (intro sv_eqI [OF ne, of _ "of_bool (lv xs \<noteq> 0)"]) (auto split: if_splits)
  then show "sv (fst (mp_neg (xs @ [0]))) = - lv xs" using r(1) by simp
  show "length (fst (mp_neg ys)) = length ys" using mp_neg_value [of ys] by auto
qed

lemma normalize1_snoc:
  assumes "take n a = xs @ [x]"
  shows "n \<le> length a \<Longrightarrow> computes m (js_bigint_normalize1 a n) (sv (xs @ [x])) False"
  using normalize1_computes [of n a m] assms by (cases n) simp_all

lemma divrem_result_value:
  assumes Q: "lv (take (na - nb + 1) q) = Q" "length q = na - nb + 2"
    and R: "lv (take nb r) = R * 2 ^ shift" and l: "nb < length r" and s: "shift < 64"
  shows "computes m (divrem_result q r na nb shift a_sign b_sign is_rem)
    (if is_rem then (if a_sign then - R else R) else (if a_sign \<noteq> b_sign then - Q else Q)) False"
proof (cases is_rem)
  case True
  have ltake: "length (take nb r) = nb" using l by simp
  obtain r1 where r1: "(if shift \<noteq> 0 then blit r 0 (fst (mp_shr (take nb r) shift 0)) else Some r) = Some r1"
    "length r1 = length r" "lv (take nb r1) = R"
  proof (cases "shift = 0")
    case True
    then show ?thesis using that [of r] R by simp
  next
    case False
    define t where "t = fst (mp_shr (take nb r) shift 0)"
    have t: "length t = nb" "lv t = R"
      using mp_shr_value [of shift "take nb r" 0] s False R ltake by (simp_all add: t_def)
    show ?thesis using that [of "t @ drop nb r"] False t l by (simp add: t_def [symmetric] blit_def)
  qed
  define s2 where "s2 = take nb r1 @ [0]"
  have s0: "slice r 0 nb = Some (take nb r)" using l by (simp add: slice_def)
  have w: "wr r1 nb 0 = Some (r1[nb := 0])" using r1(2) l by simp
  have t2: "take (nb + 1) (r1[nb := 0]) = s2" using r1(2) l by (simp add: s2_def take_Suc_conv_app_nth)
  then have s2: "slice (r1[nb := 0]) 0 (nb + 1) = Some s2" using r1(2) l by (simp add: slice_def)
  obtain r3 where r3: "(if a_sign then blit (r1[nb := 0]) 0 (fst (mp_neg s2)) else Some (r1[nb := 0])) = Some r3"
    "length r3 = length r" "sv (take (nb + 1) r3) = (if a_sign then - R else R)"
  proof (cases a_sign)
    case True
    have "length (fst (mp_neg s2)) = nb + 1" using sv_mp_neg(2) [of s2] r1(2) l by (simp add: s2_def)
    then show ?thesis
      using that [of "fst (mp_neg s2) @ drop (nb + 1) r1"] True r1 l sv_mp_neg(1) [of "take nb r1"]
      by (simp add: blit_def s2_def [symmetric])
  next
    case False
    then show ?thesis using that [of "r1[nb := 0]"] t2 r1 sv_top_zero [of "take nb r1"] by (simp add: s2_def)
  qed
  have "divrem_result q r na nb shift a_sign b_sign is_rem = js_bigint_normalize1 r3 (nb + 1)"
    using True by (simp only: divrem_result_def if_True s0 bind.bind_lunit r1(1) w s2 r3(1))
  then show ?thesis using normalize1_computes [of "nb + 1" r3 m] r3(2,3) l True by simp
next
  case False
  define qs where "qs = take (na - nb + 1) q"
  obtain y where "q = qs @ [y]" "length qs = na - nb + 1"
    using Q(2) by (cases q rule: rev_cases) (auto simp: qs_def)
  then have w: "wr q (na - nb + 1) 0 = Some (qs @ [0])"
    using list_update_length [of qs y "[]" 0] by (simp add: wr_def)
  define q1 where "q1 = (if a_sign \<noteq> b_sign then fst (mp_neg (qs @ [0])) else qs @ [0])"
  have "sv q1 = (if a_sign \<noteq> b_sign then - Q else Q)"
    using sv_mp_neg(1) [of qs] sv_top_zero [of qs] Q(1) by (simp add: q1_def qs_def)
  moreover have "q1 \<noteq> []" using sv_mp_neg(2) [of "qs @ [0]"] by (auto simp: q1_def)
  moreover have "divrem_result q r na nb shift a_sign b_sign is_rem = js_bigint_normalize q1"
    using False by (simp only: divrem_result_def if_False w bind.bind_lunit q1_def)
  ultimately show ?thesis using False normalize_computes [of q1 m] by simp
qed

lemma divrem_norm_value:
  assumes A: "lv (take na r) = A * 2 ^ shift" "0 \<le> A" and B: "lv (take nb tabb) = B * 2 ^ shift" "0 < B"
    and l: "1 \<le> nb" "nb \<le> na" "na \<le> length r" "nb < length r" "nb \<le> length tabb"
    and top: "W \<le> 2 * uint (tabb ! (nb - 1))" and s: "shift < 64" and big: "na - nb + 2 \<le> JS_BIGINT_MAX_SIZE"
  shows "computes m (divrem_norm (m k) r na tabb nb shift a_sign b_sign is_rem)
    (if is_rem then (if a_sign then - (A mod B) else A mod B) else (if a_sign \<noteq> b_sign then - (A div B) else A div B)) False"
  unfolding divrem_norm_def
proof (rule computes_new_small [OF _ big])
  fix contents :: "nat \<Rightarrow> limb"
  define q where "q = map contents [0..<na - nb + 2]"
  define ra rb where "ra = take na r" and "rb = take nb tabb"
  have sl: "slice r 0 na = Some ra" "slice tabb 0 nb = Some rb" using l by (simp_all add: slice_def ra_def rb_def)
  have lra: "length ra = na" and lrb: "length rb = nb" "rb \<noteq> []" using l by (auto simp: ra_def rb_def)
  have "last rb = rb ! (nb - 1)" using lrb by (simp add: last_conv_nth)
  then have tp: "W \<le> 2 * uint (last rb)" using top l by (simp add: rb_def)
  obtain q1 ra' where d: "mp_divnorm q ra rb = Some (q1, ra')" "length q1 = na - nb + 2" "length ra' = na"
    "lv (take nb ra') < lv rb" "lv ra = lv (take (na - nb + 1) q1) * lv rb + lv (take nb ra')"
    using mp_divnorm_value [OF lrb(2) tp, of ra q] l lra lrb(1) by (auto simp: q_def)
  define P :: int where "P = 2 ^ shift"
  have P: "0 < P" by (simp add: P_def)
  define Q R where "Q = lv (take (na - nb + 1) q1)" and "R = lv (take nb ra')"
  have eq: "A * P = Q * (B * P) + R" "0 \<le> R" "R < B * P"
    using d(4,5) A(1) B(1) lv_bounds(1) [of "take nb ra'"] by (simp_all add: ra_def rb_def P_def Q_def R_def)
  have "R = (A - Q * B) * P" using eq(1) by (simp add: algebra_simps)
  moreover from this have "0 \<le> A - Q * B" "A - Q * B < B"
    using eq(2,3) P by (simp_all add: zero_le_mult_iff mult_less_cancel_right)
  moreover from this have "A div B = Q \<and> A mod B = A - Q * B" by (intro int_div_mod_unique) (simp_all add: algebra_simps)
  ultimately have QR: "A div B = Q" "R = (A mod B) * P" by simp_all
  define r1 where "r1 = ra' @ drop na r"
  have b1: "blit r 0 ra' = Some r1" using d(3) l by (simp add: blit_def r1_def)
  have lr1: "nb < length r1" "lv (take nb r1) = (A mod B) * 2 ^ shift"
    using d(3) l QR(2) by (simp_all add: r1_def R_def P_def)
  have e: "do {
       ra \<leftarrow> slice r 0 na;
       rb \<leftarrow> slice tabb 0 nb;
       (q1, ra') \<leftarrow> mp_divnorm (map contents [0..<na - nb + 2]) ra rb;
       r1 \<leftarrow> blit r 0 ra';
       divrem_result q1 r1 na nb shift a_sign b_sign is_rem
     } = divrem_result q1 r1 na nb shift a_sign b_sign is_rem"
    by (simp only: q_def [symmetric] sl bind.bind_lunit d(1) prod.case b1)
  show "computes m (do {
       ra \<leftarrow> slice r 0 na;
       rb \<leftarrow> slice tabb 0 nb;
       (q1, ra') \<leftarrow> mp_divnorm (map contents [0..<na - nb + 2]) ra rb;
       r1 \<leftarrow> blit r 0 ra';
       divrem_result q1 r1 na nb shift a_sign b_sign is_rem
     }) (if is_rem then (if a_sign then - (A mod B) else A mod B) else (if a_sign \<noteq> b_sign then - (A div B) else A div B)) False"
    unfolding e QR(1) by (rule divrem_result_value [OF Q_def [symmetric] d(2) lr1(2,1) s])
qed

text \<open>The sign of a truncated division.\<close>

lemma signed_divmod:
  assumes "b \<noteq> (0 :: int)"
  shows "(if (a < 0) \<noteq> (b < 0) then - (\<bar>a\<bar> div \<bar>b\<bar>) else \<bar>a\<bar> div \<bar>b\<bar>) = a sdiv b"
    "(if a < 0 then - (\<bar>a\<bar> mod \<bar>b\<bar>) else \<bar>a\<bar> mod \<bar>b\<bar>) = a smod b"
  using assms by (auto simp: signed_divide_int_def signed_modulo_int_def sgn_if)

lemma new_si_computes: "computes m (js_bigint_new_si (m k) x) (sint x) False"
  unfolding js_bigint_new_si_def
proof (rule computes_new_small)
  fix c :: "nat \<Rightarrow> limb"
  show "computes m (do { r1 \<leftarrow> wr (map c [0..<1]) 0 x; Some (Inr r1) }) (sint x) False"
    by (simp add: computes_def wr_def bigint_ok_def sv_snoc [of "[]", simplified])
qed (simp add: JS_BIGINT_MAX_SIZE_def JS_LIMB_BITS_def)

text \<open>Both operands shifted until the divisor has its high bit set.\<close>

lemma shifted_divisor:
  assumes "1 \<le> nb" "nb \<le> length tabb" "clz64 (tabb ! (nb - 1)) = Some s" "0 < s"
  shows "\<exists>rs. fst (mp_shl (take nb tabb) s) = rs \<and> length rs = nb \<and> lv rs = lv (take nb tabb) * 2 ^ s \<and> W \<le> 2 * uint (rs ! (nb - 1))"
proof -
  define v where "v = tabb ! (nb - 1)"
  define P where "P = W ^ (nb - 1)"
  define B where "B = lv (take nb tabb)"
  have v0: "v \<noteq> 0" using assms(3) by (auto simp: v_def clz64_def)
  have s: "s < 64" "W \<le> 2 * (uint v * 2 ^ s)" "uint v * 2 ^ s < W"
    using clz64_value [OF v0] assms(3) by (auto simp: v_def)
  have t12: "take nb tabb \<noteq> []" "length (take nb tabb) = nb" using assms(1,2) by auto
  have "last (take nb tabb) = v" unfolding last_conv_nth [OF t12(1)] t12(2) v_def using assms(1) by simp
  note t = t12 this
  have PW: "W ^ nb = P * W" using assms(1) by (cases nb) (simp_all add: P_def)
  have B: "P * uint v \<le> B" "B < P * (uint v + 1)"
    using last_bounds [OF t(1)] unfolding t(2,3) B_def P_def by simp_all
  obtain rs h where r: "mp_shl (take nb tabb) s = (rs, h)" "length rs = nb" "lv rs + W ^ nb * uint h = B * 2 ^ s"
    using mp_shl_value [OF s(1) assms(4), of "take nb tabb"] t(2) by (auto simp: B_def)
  have "uint v < 2 ^ (64 - s)"
  proof -
    have "uint v * 2 ^ s < 2 ^ (64 - s) * 2 ^ s" using s(3) W_pow [of s] s(1) by (simp add: mult.commute)
    then show ?thesis by (simp add: mult_less_cancel_right)
  qed
  then have "(uint v + 1) * 2 ^ s \<le> 2 ^ (64 - s) * 2 ^ s" by (intro mult_right_mono) simp_all
  then have "(uint v + 1) * 2 ^ s \<le> W" using W_pow [of s] s(1) by (simp add: mult.commute)
  then have "P * ((uint v + 1) * 2 ^ s) \<le> P * W" by (intro mult_left_mono) (simp_all add: P_def)
  moreover have "B * 2 ^ s < P * (uint v + 1) * 2 ^ s" using B(2) by (intro mult_strict_right_mono) simp_all
  ultimately have "W ^ nb * uint h < W ^ nb * 1"
    using r(3) lv_bounds(1) [of rs] PW unfolding mult.assoc by linarith
  then have "uint h < 1" by (simp only: mult_less_cancel_left_pos [OF W_pos(6)])
  then have h: "uint h = 0" using uint_limb(1) [of h] by linarith
  have rv: "lv rs = B * 2 ^ s" using r(3) h by simp
  have ne: "rs \<noteq> []" using r(2) assms(1) by auto
  have la: "last rs = rs ! (nb - 1)" unfolding last_conv_nth [OF ne] r(2) ..
  have "lv rs < P * (uint (rs ! (nb - 1)) + 1)" using last_bounds(2) [OF ne] unfolding la r(2) P_def .
  moreover have "P * uint v * 2 ^ s \<le> B * 2 ^ s" using B(1) by (intro mult_right_mono) simp_all
  moreover have "P * W \<le> P * (2 * (uint v * 2 ^ s))" using s(2) by (intro mult_left_mono) (simp_all add: P_def)
  ultimately have "P * W < P * (2 * (uint (rs ! (nb - 1)) + 1))"
    unfolding rv by (simp only: mult.left_commute [of P 2] mult.assoc)
  then have "W < 2 * (uint (rs ! (nb - 1)) + 1)" by (simp only: P_def mult_less_cancel_left_pos [OF W_pos(6)])
  then have "W \<le> 2 * uint (rs ! (nb - 1))" by (simp add: W_def)
  then show ?thesis using r(1,2) rv by (simp add: B_def)
qed

lemma take_append_exact: "length xs = n \<Longrightarrow> take n (xs @ ys) = xs"
  by simp

lemma divrem_shift_value:
  assumes A: "lv (take na r) = A" "0 \<le> A" and B: "lv (take nb tabb) = B" "0 < B"
    and l: "1 \<le> nb" "nb \<le> na" "na + 2 \<le> length r" "nb \<le> length tabb" "length r \<le> JS_BIGINT_MAX_SIZE"
    and v0: "tabb ! (nb - 1) \<noteq> 0"
  shows "computes m (divrem_shift (m k) r na tabb nb a_sign b_sign is_rem)
    (if is_rem then (if a_sign then - (A mod B) else A mod B) else (if a_sign \<noteq> b_sign then - (A div B) else A div B)) False"
proof -
  obtain s where s: "clz64 (tabb ! (nb - 1)) = Some s" "s < 64" "W \<le> 2 * (uint (tabb ! (nb - 1)) * 2 ^ s)"
    using clz64_value [OF v0] by blast
  have v: "rd tabb (nb - 1) = Some (tabb ! (nb - 1))" using l by simp
  show ?thesis
  proof (cases "s = 0")
    case True
    have "divrem_shift (m k) r na tabb nb a_sign b_sign is_rem = divrem_norm (m k) r na tabb nb 0 a_sign b_sign is_rem"
      using True by (simp only: divrem_shift_def v s(1) bind.bind_lunit simp_thms if_False)
    then show ?thesis
      using divrem_norm_value [of na r A 0 nb tabb B m k a_sign b_sign is_rem] A B l s True by simp
  next
    case False
    then have s0: "0 < s" by simp
    obtain rb where rb: "fst (mp_shl (take nb tabb) s) = rb" "length rb = nb" "lv rb = B * 2 ^ s" "W \<le> 2 * uint (rb ! (nb - 1))"
      using shifted_divisor [OF l(1,4) s(1) s0] B(1) by blast
    define tabb1 where "tabb1 = rb @ drop nb tabb"
    have tb: "blit tabb 0 rb = Some tabb1" using rb(2) l by (simp add: blit_def tabb1_def)
    have tb1: "lv (take nb tabb1) = B * 2 ^ s" "nb \<le> length tabb1" "W \<le> 2 * uint (tabb1 ! (nb - 1))"
      using rb(2-4) l by (simp_all add: tabb1_def nth_append)
    obtain ra h where ra: "mp_shl (take na r) s = (ra, h)" "length ra = na" "lv ra + W ^ na * uint h = A * 2 ^ s"
      using mp_shl_value [OF s(2) s0, of "take na r"] l A(1) by auto
    define r1 where "r1 = ra @ drop na r"
    have r1: "blit r 0 ra = Some r1" "length r1 = length r" using ra(2) l by (simp_all add: blit_def r1_def)
    have sl: "slice tabb 0 nb = Some (take nb tabb)" "slice r 0 na = Some (take na r)" using l by (simp_all add: slice_def)
    have e: "divrem_shift (m k) r na tabb nb a_sign b_sign is_rem =
       (if h \<noteq> 0 then do { r2 \<leftarrow> wr r1 na h; divrem_norm (m k) r2 (na + 1) tabb1 nb s a_sign b_sign is_rem }
        else divrem_norm (m k) r1 na tabb1 nb s a_sign b_sign is_rem)"
      using False by (simp only: divrem_shift_def v s(1) sl rb(1) tb ra(1) r1(1) bind.bind_lunit simp_thms if_True Let_def prod.case)
    show ?thesis
    proof (cases "h = 0")
      case True
      have "lv (take na r1) = A * 2 ^ s" using ra(2,3) True by (simp add: r1_def)
      then show ?thesis
        using divrem_norm_value [of na r1 A s nb tabb1 B m k a_sign b_sign is_rem] A(2) B(2) l s(2) tb1 r1(2) True unfolding e by simp
    next
      case h: False
      define r2 where "r2 = r1[na := h]"
      have "take (na + 1) r2 = ra @ [h]" using ra(2) l by (simp add: r2_def r1_def take_Suc_conv_app_nth)
      then have "lv (take (na + 1) r2) = A * 2 ^ s" using ra(2,3) by (simp add: lv_append)
      moreover have w: "wr r1 na h = Some r2" using r1(2) l by (simp add: r2_def)
      moreover have "length r2 = length r" using r1(2) by (simp add: r2_def)
      ultimately show ?thesis unfolding e if_P [OF h] w bind.bind_lunit
        by (intro divrem_norm_value [OF _ A(2) tb1(1) B(2)]) (use l s(2) tb1 in simp_all)
    qed
  qed
qed

lemma divrem_abs_value:
  assumes "bigint_ok a" "b \<noteq> []" "sv b \<noteq> 0" "length tabb = length b"
    and r: "lv (take na r) = \<bar>sv a\<bar>" "na \<le> length a" "length r = length a + 2" "length r \<le> JS_BIGINT_MAX_SIZE"
  defines "A \<equiv> \<bar>sv a\<bar>" and "B \<equiv> \<bar>sv b\<bar>"
  shows "computes m (divrem_abs m a r na b is_rem tabb)
    (if is_rem then (if neg a then - (A mod B) else A mod B) else (if neg a \<noteq> neg b then - (A div B) else A div B)) False"
proof -
  have a: "a \<noteq> []" using assms(1) by (simp add: bigint_ok_def)
  have B0: "0 < B" "0 \<le> A" using assms(3) by (simp_all add: A_def B_def)
  obtain tabb1 where pb: "put_abs tabb b = Some tabb1" "length tabb1 = length b" "lv tabb1 = B"
    using put_abs_ok [OF assms(2), of tabb] assms(4) by (auto simp: B_def)
  obtain nb where nb: "trim_len tabb1 (length b) = Some nb" "1 \<le> nb" "nb \<le> length b" "lv (take nb tabb1) = B"
    "nb = 1 \<or> tabb1 ! (nb - 1) \<noteq> 0"
    using trim_len_ok [of "length b" tabb1] assms(2) pb by (cases b) auto
  have v0: "tabb1 ! (nb - 1) \<noteq> 0"
    using nb B0(1) pb(2) by (cases tabb1) auto
  show ?thesis
  proof (cases "na < nb")
    case True
    have "length (take na r) = na" using r(2,3) by simp
    then have "A < W ^ na" using lv_bounds(2) [of "take na r"] r(1) by (simp add: A_def)
    also have "W ^ na \<le> W ^ (nb - 1)" using True by (intro power_increasing) simp_all
    also have "\<dots> \<le> B"
    proof -
      have t: "take nb tabb1 \<noteq> []" "length (take nb tabb1) = nb" using nb pb(2) by auto
      have "last (take nb tabb1) = tabb1 ! (nb - 1)" unfolding last_conv_nth [OF t(1)] t(2) using nb(2) by simp
      then have "1 \<le> uint (last (take nb tabb1))" using v0 uint_limb(1) [of "tabb1 ! (nb - 1)"] unfolding word_uint_eq_iff uint_0_eq by linarith
      then have "W ^ (nb - 1) * 1 \<le> W ^ (nb - 1) * uint (last (take nb tabb1))" by (intro mult_left_mono) simp_all
      then show ?thesis using last_bounds(1) [OF t(1)] unfolding t(2) nb(4) by linarith
    qed
    finally have "A < B" .
    then have AB: "A div B = 0" "A mod B = A" using B0 by simp_all
    have z: "(if neg a then - A else A) = sv a" using neg_sv [OF a] by (simp add: A_def)
    show ?thesis
    proof (cases is_rem)
      case is_rem: True
      have "computes m (andthen (js_bigint_new (m 2) (length a)) (\<lambda>r. do { r1 \<leftarrow> blit r 0 a; Some (Inr r1) })) (sv a) False"
        by (rule computes_new_small) (use assms(1) r in \<open>simp_all add: blit_def computes_def\<close>)
      then show ?thesis using True is_rem by (simp only: divrem_abs_def pb(1) nb(1) bind.bind_lunit simp_thms if_True AB z)
    next
      case False
      then show ?thesis using True AB new_si_computes [of m 2 0] by (simp add: divrem_abs_def pb(1) nb(1))
    qed
  next
    case False
    have "divrem_abs m a r na b is_rem tabb = divrem_shift (m 3) r na tabb1 nb (neg a) (neg b) is_rem"
      using False by (simp add: divrem_abs_def pb(1) nb(1) js_bigint_sign)
    then show ?thesis
      using divrem_shift_value [of na r A nb tabb1 B m 3 "neg a" "neg b" is_rem] r nb(2-4) pb(2) B0 v0 False
      by (simp add: A_def)
  qed
qed

lemma bigint_divrem_value:
  assumes "bigint_ok a" "bigint_ok b" "sv b \<noteq> 0"
  shows "computes m (js_bigint_divrem m a b is_rem) (if is_rem then sv a smod sv b else sv a sdiv sv b)
    (length a + 2 > JS_BIGINT_MAX_SIZE)"
proof -
  have ne: "a \<noteq> []" "b \<noteq> []" using assms(1,2) by (simp_all add: bigint_ok_def)
  define A B where "A = \<bar>sv a\<bar>" and "B = \<bar>sv b\<bar>"
  define z where "z = (if is_rem then sv a smod sv b else sv a sdiv sv b)"
  have z: "z = (if is_rem then (if neg a then - (A mod B) else A mod B) else (if neg a \<noteq> neg b then - (A div B) else A div B))"
    using signed_divmod [OF assms(3), of "sv a"] neg_sv [OF ne(1)] neg_sv [OF ne(2)] by (auto simp: z_def A_def B_def)
  have nz: "\<not> (length b = 1 \<and> b ! 0 = 0)"
  proof
    assume "length b = 1 \<and> b ! 0 = 0"
    then have "b = [0]" by (cases b) auto
    then show False using assms(3) sv_snoc [of "[]" 0] by simp
  qed
  show ?thesis unfolding js_bigint_divrem_def if_not_P [OF nz] z_def [symmetric]
  proof (rule computes_new, goal_cases)
    case (1 c)
    define r where "r = map c [0..<length a + 2]"
    have lr: "length r = length a + 2" by (simp add: r_def)
    obtain xa where pa: "put_abs r a = Some (xa @ drop (length a) r)" "length xa = length a" "lv xa = A"
      using put_abs_ok [OF ne(1), of r] lr by (auto simp: A_def)
    define r1 where "r1 = xa @ drop (length a) r"
    have lr1: "length r1 = length a + 2" "take (length a) r1 = xa" using pa(2) lr by (simp_all add: r1_def)
    obtain na where na: "trim_len r1 (length a) = Some na" "1 \<le> na" "na \<le> length a" "lv (take na r1) = A"
      using trim_len_ok [of "length a" r1] ne(1) lr1 pa(3) by (cases a) auto
    have "computes m (andthen (js_malloc (m 1) (length b)) (divrem_abs m a r1 na b is_rem)) z False"
      unfolding z A_def B_def
      by (rule computes_malloc, rule divrem_abs_value) (use assms ne na lr1 1 in \<open>simp_all add: A_def\<close>)
    then show ?case
      by (simp only: r_def [symmetric] pa(1) bind.bind_lunit r1_def [symmetric] na(1))
  qed
qed

end
