(* ===== verification/BigIntBits.thy ===== *)
theory BigIntBits
  imports BigIntDivide
begin

text \<open>The bitwise operations of BigInts act on the infinite two's complement of their operands,
  and the shifts multiply and divide by powers of two, rounding down.\<close>

section \<open>The bits of a BigInt\<close>

lemma neg_bit: "neg xs \<longleftrightarrow> bit (last xs) 63"
  by (simp add: neg_def bit_63)

lemma bit_add_high: "0 \<le> u \<Longrightarrow> u < W \<Longrightarrow> bit (u + W * s) i \<longleftrightarrow> (if i < 64 then bit u i else bit s (i - 64))"
proof -
  assume u: "0 \<le> u" "u < W"
  show ?thesis
  proof (cases "i < 64")
    case True
    have "take_bit 64 (u + W * s) = take_bit 64 u" by (simp add: take_bit_eq_mod W_def)
    then have "bit (take_bit 64 (u + W * s)) i = bit (take_bit 64 u) i" by simp
    then show ?thesis using True by (simp add: bit_take_bit_iff)
  next
    case False
    have "(u + W * s) div 2 ^ 64 = s" using u by (simp add: W_def)
    moreover have "(2 :: int) ^ i = 2 ^ 64 * 2 ^ (i - 64)" using False power_add [of "2 :: int" 64 "i - 64"] by (simp only: le_add_diff_inverse not_less)
    ultimately have "(u + W * s) div 2 ^ i = s div 2 ^ (i - 64)" by (simp only: zdiv_zmult2_eq zero_le_power zero_le_numeral)
    then show ?thesis using False by (simp add: bit_iff_odd)
  qed
qed

lemma bit_sv:
  "xs \<noteq> [] \<Longrightarrow> bit (sv xs) i \<longleftrightarrow> (if i < 64 * length xs then bit (xs ! (i div 64)) (i mod 64) else neg xs)"
proof (induction xs arbitrary: i)
  case (Cons x xs)
  show ?case
  proof (cases "xs = []")
    case True
    have "sv [x] = sint x" using sv_snoc [of "[]" x] by simp
    then show ?thesis using True by (auto simp: bit_sint_iff neg_bit dest: bit_imp_le_length)
  next
    case False
    have "neg (x # xs) = neg xs" using False by (simp add: neg_def)
    then show ?thesis
      using False Cons.IH [of "i - 64"] uint_limb [of x]
      by (auto simp: sv_Cons bit_add_high bit_uint_iff nth_Cons' le_div_geq le_mod_geq not_less)
  qed
qed simp

text \<open>An operation on limbs that acts on every bit alike acts on the value so.\<close>

lemma sv_map2:
  assumes l: "length xs = length ys" "xs \<noteq> []"
    and f: "\<And>x y i. bit (f x y) i \<longleftrightarrow> i < 64 \<and> g (bit x i) (bit y i)"
    and h: "\<And>x y i. bit (h x y) i \<longleftrightarrow> g (bit x i) (bit y i)"
  shows "sv (map (\<lambda>i. f (xs ! i) (ys ! i)) [0..<length xs]) = h (sv xs) (sv ys)"
proof (rule bit_eqI)
  fix i
  define zs where "zs = map (\<lambda>i. f (xs ! i) (ys ! i)) [0..<length xs]"
  have ne: "zs \<noteq> []" "ys \<noteq> []" using l by (auto simp: zs_def)
  have "last zs = f (last xs) (last ys)"
    using l ne by (simp add: last_conv_nth zs_def)
  then have n: "neg zs \<longleftrightarrow> g (neg xs) (neg ys)" by (simp add: neg_bit f)
  have "bit (sv zs) i \<longleftrightarrow> g (bit (sv xs) i) (bit (sv ys) i)"
  proof (cases "i < 64 * length xs")
    case True
    then have "i div 64 < length xs" by (simp add: div_less_iff_less_mult mult.commute)
    then show ?thesis using True l by (simp add: bit_sv ne f zs_def)
  next
    case False
    have "length zs = length xs" by (simp add: zs_def)
    then show ?thesis using False l n by (simp add: bit_sv ne)
  qed
  then show "bit (sv (map (\<lambda>i. f (xs ! i) (ys ! i)) [0..<length xs])) i = bit (h (sv xs) (sv ys)) i"
    by (simp add: h zs_def)
qed

lemma sv_extended: "a \<noteq> [] \<Longrightarrow> length a \<le> n \<Longrightarrow> sv (extended a n) = sv a"
proof (induction n)
  case (Suc n)
  show ?case
  proof (cases "length a = Suc n")
    case True
    then show ?thesis by (simp add: extended_def)
  next
    case False
    then have n: "length a \<le> n" using Suc.prems by simp
    have "extended a (Suc n) = extended a n @ [sign_limb a]"
      using n by (simp add: extended_def Suc_diff_le replicate_append_same)
    then have "sv (extended a (Suc n)) = lv (extended a n) + W ^ n * sint (sign_limb a)"
      using n by (simp add: sv_snoc)
    then show ?thesis using n by (simp add: lv_extended sign_limb_def)
  qed
qed simp

definition logic_int :: "bigint_op \<Rightarrow> int \<Rightarrow> int \<Rightarrow> int" where
  "logic_int op x y = (case op of OP_or \<Rightarrow> x OR y | OP_and \<Rightarrow> x AND y | OP_xor \<Rightarrow> x XOR y)"

definition logic_bool :: "bigint_op \<Rightarrow> bool \<Rightarrow> bool \<Rightarrow> bool" where
  "logic_bool op x y = (case op of OP_or \<Rightarrow> x \<or> y | OP_and \<Rightarrow> x \<and> y | OP_xor \<Rightarrow> x \<noteq> y)"

lemma bit_limb_op: "bit (limb_op op x y) i \<longleftrightarrow> i < 64 \<and> logic_bool op (bit x i) (bit y i)"
  by (cases op) (auto simp: logic_bool_def bit_simps dest: bit_imp_le_length)

lemma bit_logic_int: "bit (logic_int op x y) i \<longleftrightarrow> logic_bool op (bit x i) (bit y i)"
  by (cases op) (auto simp: logic_bool_def logic_int_def bit_simps)

lemma logic_int_commute: "logic_int op x y = logic_int op y x"
  by (cases op) (simp_all add: logic_int_def ac_simps)

lemma logic_ordered_value:
  assumes "a \<noteq> []" "b \<noteq> []" "length b \<le> length a"
  shows "computes m (logic_ordered (m k) a b op) (logic_int op (sv a) (sv b)) (length a > JS_BIGINT_MAX_SIZE)"
  unfolding logic_ordered_def Let_def
proof (rule computes_new)
  fix c :: "nat \<Rightarrow> limb"
  define r where "r = map c [0..<length a]"
  define zs where "zs = map (\<lambda>i. limb_op op (a ! i) (extended b (length a) ! i)) [0..<length a]"
  define lo where "lo = map (\<lambda>i. limb_op op (a ! i) (b ! i)) [0..<length b]"
  define hi where "hi = map (\<lambda>i. limb_op op (a ! i) (- js_bigint_sign b)) [length b..<length a]"
  have "[0..<length a] = [0..<length b] @ [length b..<length a]" using assms(3) by (metis le0 upt_add_eq_append le_add_diff_inverse)
  then have z: "zs = lo @ hi"
    using assms(3) by (auto simp: zs_def lo_def hi_def extended_nth js_bigint_sign sign_limb_def)
  have b1: "blit r 0 lo = Some (lo @ drop (length b) r)" using assms(3) by (simp add: blit_def lo_def r_def)
  have b2: "blit (lo @ drop (length b) r) (length b) hi = Some zs"
    using assms(3) by (simp add: blit_def z) (simp add: lo_def hi_def r_def)
  have "sv zs = logic_int op (sv a) (sv (extended b (length a)))"
    unfolding zs_def by (rule sv_map2 [where g = "logic_bool op"]) (use assms in \<open>simp_all add: bit_limb_op bit_logic_int\<close>)
  moreover have "zs \<noteq> []" using assms(1) by (simp add: zs_def)
  ultimately show "computes m (do {
        r1 \<leftarrow> blit r 0 lo;
        r2 \<leftarrow> blit r1 (length b) hi;
        js_bigint_normalize r2
      }) (logic_int op (sv a) (sv b)) False"
    using normalize_computes [of zs m] sv_extended [OF assms(2,3)] by (simp only: b1 b2 bind.bind_lunit simp_thms)
qed

lemma bigint_logic_value:
  assumes "a \<noteq> []" "b \<noteq> []"
  shows "computes m (js_bigint_logic m a b op) (logic_int op (sv a) (sv b)) (max (length a) (length b) > JS_BIGINT_MAX_SIZE)"
  using logic_ordered_value [OF assms, of m 0 op] logic_ordered_value [OF assms(2,1), of m 0 op]
  by (simp add: js_bigint_logic_def max_def logic_int_commute [of op "sv a"])

lemma not_limb_iff: "NOT (x :: limb) = 0 \<longleftrightarrow> x = - 1" "NOT x = - 1 \<longleftrightarrow> x = 0"
  by (metis bit.double_compl bit.compl_one bit.compl_zero)+

lemma bigint_not_value:
  assumes "bigint_ok a"
  shows "computes m (js_bigint_not m a) (- sv a - 1) (length a > JS_BIGINT_MAX_SIZE)"
  unfolding js_bigint_not_def
proof (rule computes_new)
  fix c :: "nat \<Rightarrow> limb"
  have ne: "a \<noteq> []" using assms by (simp add: bigint_ok_def)
  have "bigint_ok (map (\<lambda>x. NOT x) a)"
  proof (cases a rule: rev_cases)
    case (snoc r x)
    show ?thesis
    proof (cases "r = []")
      case True
      then show ?thesis using snoc by (simp add: bigint_ok_def)
    next
      case False
      have "bigint_ok (r @ [x])" using assms snoc by simp
      then show ?thesis using False complement_value(1) [of r] unfolding snoc map_append list.map
        by (subst bigint_ok_snoc) (auto simp: bigint_ok_snoc not_limb_iff split: if_splits)
    qed
  qed (use ne in simp)
  then show "computes m (do { r1 \<leftarrow> blit (map c [0..<length a]) 0 (map (\<lambda>x. NOT x) a); Some (Inr r1) }) (- sv a - 1) False"
    using complement_value(2) [OF ne] by (simp add: blit_def computes_def)
qed

section \<open>Shifts\<close>

lemma two_power_W: "(2 :: int) ^ n = W ^ (n div 64) * 2 ^ (n mod 64)"
  unfolding W_def power_mult [symmetric] power_add [symmetric] by simp

text \<open>The sign bits that a shift to the left puts into the limb that leaves the array.\<close>

lemma sint_shifted_out:
  assumes "s < 64" "0 < s" "uint (l :: limb) < 2 ^ s"
  shows "sint (l OR push_bit s (- 1)) = uint l - 2 ^ s"
proof -
  have d: "bit l i \<Longrightarrow> i < s" for i
  proof -
    assume "bit l i"
    moreover have "take_bit s (uint l) = uint l" using assms(3) by (simp add: take_bit_eq_mod)
    ultimately have "bit (take_bit s (uint l)) i" by (auto simp: bit_uint_iff dest: bit_imp_le_length)
    then show "i < s" by (simp add: bit_take_bit_iff)
  qed
  have "l AND push_bit s (- 1) = 0" by (rule bit_word_eqI) (auto simp: bit_simps dest: d)
  then have "l OR push_bit s (- 1) = l + push_bit s (- 1)" by (simp add: disjunctive_add_eq_or)
  also have "\<dots> = word_of_int (uint l - 2 ^ s)" by (simp add: push_bit_eq_mult wi_hom_syms)
  finally have e: "l OR push_bit s (- 1) = word_of_int (uint l - 2 ^ s)" .
  have "(2 :: int) ^ s \<le> 2 ^ 63" using assms(1) by (intro power_increasing) simp_all
  then have "signed_take_bit 63 (uint l - 2 ^ s) = uint l - 2 ^ s"
    by (intro signed_take_bit_int_eq_self) (use assms(3) uint_limb(1) [of l] in linarith)+
  then show ?thesis unfolding e sint_sbintrunc' by simp
qed

lemma lv_zeros: "lv (replicate n 0) = 0"
  by (induction n) simp_all

lemma shl_top:
  assumes "a \<noteq> []" "0 < s" "s < 64" and l: "uint (l :: limb) < 2 ^ s" and v: "lv rs + W ^ length a * uint l = lv a * 2 ^ s"
  shows "sint (if neg a then l OR push_bit s (- 1) else l) = uint l - of_bool (neg a) * 2 ^ s"
proof (cases "neg a")
  case False
  have "2 * lv a < W ^ length a" using neg_value [OF assms(1)] False by simp
  then have "2 * lv a * 2 ^ s < W ^ length a * 2 ^ s" by (intro mult_strict_right_mono) simp_all
  then have "2 * (lv rs + W ^ length a * uint l) < W ^ length a * 2 ^ s" unfolding v by (simp only: mult.assoc)
  moreover have "W ^ length a * (2 * uint l) \<le> 2 * (lv rs + W ^ length a * uint l)"
    using lv_bounds(1) [of rs] by (simp add: algebra_simps)
  ultimately have "W ^ length a * (2 * uint l) < W ^ length a * 2 ^ s" by linarith
  then have "2 * uint l < 2 ^ s" by (simp only: mult_less_cancel_left_pos [OF W_pos(6)])
  moreover have "(2 :: int) ^ s \<le> 2 ^ 63" using assms(3) by (intro power_increasing) simp_all
  ultimately have "\<not> W \<le> 2 * uint l" by (simp add: W_def)
  then have "sint l = uint l" using sint_limb [of l] by simp
  then show ?thesis using False by simp
next
  case True
  then show ?thesis unfolding if_P [OF True] sint_shifted_out [OF assms(3,2) l] by simp
qed

lemma sv_zero_iff:
  assumes "bigint_ok a"
  shows "length a = 1 \<and> a ! 0 = 0 \<longleftrightarrow> sv a = 0"
proof
  assume "length a = 1 \<and> a ! 0 = 0"
  then have "a = [0]" by (cases a) auto
  then show "sv a = 0" using sv_snoc [of "[]" 0] by simp
next
  assume z: "sv a = 0"
  show "length a = 1 \<and> a ! 0 = 0"
  proof (cases a rule: rev_cases)
    case (snoc r x)
    have s0: "lv r + W ^ length r * sint x = 0" using z snoc by (simp add: sv_snoc)
    then have "W ^ length r * - sint x < W ^ length r * 1" "0 \<le> W ^ length r * - sint x"
      using lv_bounds [of r] by simp_all
    then have "sint x = 0"
      unfolding mult_less_cancel_left_pos [OF W_pos(6)] zero_le_mult_iff using W_pos(6) [of "length r"] by linarith
    then have x: "x = 0" "lv r = 0" using s0 by (simp_all add: signed_eq_0_iff)
    have "r = []"
    proof (rule ccontr)
      assume "r \<noteq> []"
      then have "neg r" using assms x(1) unfolding snoc by (simp add: bigint_ok_snoc split: if_splits)
      then show False using neg_value [OF \<open>r \<noteq> []\<close>] x(2) W_pos(6) [of "length r"] by simp
    qed
    then show ?thesis using snoc x(1) by simp
  qed (use assms in \<open>simp add: bigint_ok_def\<close>)
qed

lemma bigint_ok_zeros:
  assumes "bigint_ok a" "sv a \<noteq> 0"
  shows "bigint_ok (replicate d 0 @ a)"
proof (cases a rule: rev_cases)
  case (snoc r x)
  show ?thesis
  proof (cases "r = [] \<or> d = 0")
    case True
    then show ?thesis
    proof
      assume r: "r = []"
      then have "x \<noteq> 0" using sv_zero_iff [OF assms(1)] assms(2) snoc by simp
      then show ?thesis using r snoc assms(1)
        by (cases "d = 0") (simp, simp add: bigint_ok_snoc neg_def W_def last_replicate)
    qed (use assms(1) in simp)
  next
    case False
    then have "neg (replicate d 0 @ r) = neg r" by (simp add: neg_def)
    then have "bigint_ok ((replicate d 0 @ r) @ [x])" using False assms(1) unfolding snoc by (subst bigint_ok_snoc) (simp_all add: bigint_ok_snoc)
    then show ?thesis by (simp add: snoc)
  qed
qed (use assms in \<open>simp add: bigint_ok_def\<close>)

lemma bigint_shl_value:
  assumes "bigint_ok a"
  shows "computes m (js_bigint_shl m a shift1) (sv a * 2 ^ unat shift1)
    (sv a \<noteq> 0 \<and> length a + unat shift1 div 64 > JS_BIGINT_MAX_SIZE)"
proof -
  have ne: "a \<noteq> []" using assms by (simp add: bigint_ok_def)
  note zero = sv_zero_iff [OF assms]
  define d s where "d = unat shift1 div 64" and "s = unat shift1 mod 64"
  have sh: "(2 :: int) ^ unat shift1 = W ^ d * 2 ^ s" unfolding d_def s_def by (rule two_power_W)
  have ds: "unat shift1 div JS_LIMB_BITS = d" "unat shift1 mod JS_LIMB_BITS = s" "s < 64"
    by (simp_all add: d_def s_def JS_LIMB_BITS_def)
  show ?thesis
  proof (cases "sv a = 0")
    case True
    then show ?thesis using new_si_computes [of m 0 0] zero by (simp add: js_bigint_shl_def)
  next
    case False
    have body: "computes m (do {
          r1 \<leftarrow> blit (map c [0..<length a + d]) 0 (replicate d 0);
          if s = 0 then do { r2 \<leftarrow> blit r1 d a; Some (Inr r2) }
          else do {
            let (rs, l) = mp_shl a s;
            r2 \<leftarrow> blit r1 d rs;
            js_bigint_extend (m 1) r2 (if js_bigint_sign a \<noteq> 0 then l OR push_bit s (- 1) else l)
          }
        }) (sv a * 2 ^ unat shift1) False" for c
    proof -
      define r1 where "r1 = replicate d (0 :: limb) @ map c [d..<length a + d]"
      have b1: "blit (map c [0..<length a + d]) 0 (replicate d 0) = Some r1" by (simp add: blit_def r1_def drop_map)
      have b2: "blit r1 d rs = Some (replicate d 0 @ rs)" if "length rs = length a" for rs
        using that by (simp add: blit_def r1_def)
      have sv2: "lv (replicate d 0 @ rs) = W ^ d * lv rs" for rs by (simp add: lv_append lv_zeros)
      show ?thesis
      proof (cases "s = 0")
        case True
        have "bigint_ok (replicate d 0 @ a)" by (rule bigint_ok_zeros [OF assms False])
        moreover have "sv (replicate d 0 @ a) = W ^ d * sv a"
          using ne by (simp add: sv_def sv2 neg_def power_add algebra_simps)
        ultimately show ?thesis using True by (simp add: b1 b2 sh computes_def)
      next
        case s0: False
        obtain rs l where r: "mp_shl a s = (rs, l)" "length rs = length a" "uint l < 2 ^ s" "lv rs + W ^ length a * uint l = lv a * 2 ^ s"
          using mp_shl_value [OF ds(3), of a] s0 by auto
        define op where "op = (if neg a then l OR push_bit s (- 1) else l)"
        have op: "(if js_bigint_sign a \<noteq> 0 then l OR push_bit s (- 1) else l) = op" by (simp add: op_def js_bigint_sign)
        have o: "sint op = uint l - of_bool (neg a) * 2 ^ s"
          unfolding op_def by (rule shl_top [OF ne _ ds(3) r(3,4)]) (use s0 in simp)
        have "lv (replicate d 0 @ rs) + W ^ length (replicate d 0 @ rs) * sint op
            = W ^ d * (lv rs + W ^ length a * uint l - of_bool (neg a) * W ^ length a * 2 ^ s)"
          using r(2) unfolding o by (simp add: sv2 power_add algebra_simps)
        also have "\<dots> = sv a * 2 ^ unat shift1" unfolding r(4) sh by (simp add: sv_def algebra_simps)
        finally have v: "lv (replicate d 0 @ rs) + W ^ length (replicate d 0 @ rs) * sint op = sv a * 2 ^ unat shift1" .
        have "computes m (js_bigint_extend (m 1) (replicate d 0 @ rs) op) (sv a * 2 ^ unat shift1) False"
          unfolding v [symmetric] by (rule extend_computes) (use r(2) ne in auto)
        then show ?thesis by (simp only: b1 b2 [OF r(2)] r(1) bind.bind_lunit s0 if_False Let_def prod.case op)
      qed
    qed
    have z: "\<not> (length a = 1 \<and> a ! 0 = 0)" using zero False by simp
    have big: "(sv a \<noteq> 0 \<and> length a + unat shift1 div 64 > JS_BIGINT_MAX_SIZE) \<longleftrightarrow> length a + d > JS_BIGINT_MAX_SIZE"
      using False by (simp add: d_def)
    show ?thesis unfolding js_bigint_shl_def if_not_P [OF z] ds Let_def big
      by (rule computes_new, rule body [unfolded Let_def])
  qed
qed

text \<open>A shift to the right rounds down; a shift past the end leaves the sign.\<close>

lemma sv_drop:
  assumes "d < length a"
  shows "sv (drop d a) = sv a div W ^ d"
proof -
  have "sv a = lv (take d a) + W ^ d * sv (drop d a)"
    using assms lv_append [of "take d a" "drop d a"] power_add [of W d "length a - d"]
    by (simp add: sv_def neg_def algebra_simps)
  then show ?thesis using lv_bounds [of "take d a"] assms by (simp add: min_def)
qed

lemma sv_div_past:
  assumes "a \<noteq> []" "length a \<le> d"
  shows "sv a div W ^ d = - of_bool (neg a)"
proof -
  have "- (W ^ d) \<le> 2 * sv a" "2 * sv a < W ^ d" using sv_bounds_within [OF assms] by simp_all
  then show ?thesis using neg_sv [OF assms(1)] W_pos(6) [of d]
    by (intro conjunct1 [OF int_div_mod_unique [where r = "sv a + of_bool (neg a) * W ^ d"]]) auto
qed

lemma div_between: "0 < k \<Longrightarrow> min x 0 \<le> x div k \<and> x div k \<le> max x (0 :: int)"
  using zdiv_mono2 [of x 1 k] zdiv_mono2_neg [of x 1 k] pos_imp_zdiv_nonneg_iff [of k x]
  by (cases "x < 0") auto

lemma bigint_shr_value:
  assumes "bigint_ok a"
  shows "computes m (js_bigint_shr m a shift1) (sv a div 2 ^ unat shift1) (length a > unat shift1 div 64 + JS_BIGINT_MAX_SIZE)"
proof -
  have ne: "a \<noteq> []" using assms by (simp add: bigint_ok_def)
  define d s where "d = unat shift1 div 64" and "s = unat shift1 mod 64"
  have "(2 :: int) ^ unat shift1 = W ^ d * 2 ^ s" unfolding d_def s_def by (rule two_power_W)
  then have sh: "sv a div 2 ^ unat shift1 = sv a div W ^ d div 2 ^ s" by (simp add: zdiv_zmult2_eq)
  have ds: "unat shift1 div JS_LIMB_BITS = d" "unat shift1 mod JS_LIMB_BITS = s" "s < 64"
    by (simp_all add: d_def s_def JS_LIMB_BITS_def)
  show ?thesis
  proof (cases "d \<ge> length a")
    case True
    have "sint (- js_bigint_sign a) = - of_bool (neg a)" by (simp add: js_bigint_sign)
    moreover have "- of_bool (neg a) div 2 ^ s = (- of_bool (neg a) :: int)" by (simp add: minus_1_div_exp_eq_int)
    ultimately have "sv a div 2 ^ unat shift1 = sint (- js_bigint_sign a)" by (simp add: sh sv_div_past [OF ne True])
    then show ?thesis using True new_si_computes [of m 0 "- js_bigint_sign a"]
      by (simp add: js_bigint_shr_def ds d_def [symmetric] del: of_bool_eq)
  next
    case False
    define t where "t = drop d a"
    have t: "t \<noteq> []" "length t = length a - d" "sv t = sv a div W ^ d" "slice a d (length a - d) = Some t"
      using False sv_drop [of d a] by (simp_all add: t_def slice_def)
    have nt: "neg t = neg a" using False by (simp add: neg_def t_def)
    have body: "computes m (do {
          u \<leftarrow> slice a d (length a - d);
          if s = 0 then do { r1 \<leftarrow> blit (map c [0..<length a - d]) 0 u; Some (Inr r1) }
          else do {
            r1 \<leftarrow> blit (map c [0..<length a - d]) 0 (fst (mp_shr u s (- js_bigint_sign a)));
            js_bigint_normalize r1
          }
        }) (sv a div 2 ^ unat shift1) False" for c
    proof (cases "s = 0")
      case True
      have "bigint_ok t" using assms False t(1) by (auto simp: bigint_ok_def t_def)
      then show ?thesis using True t by (simp add: sh blit_def computes_def)
    next
      case s0: False
      define rs where "rs = fst (mp_shr t s (- js_bigint_sign a))"
      have "uint (- of_bool (neg a) :: limb) mod 2 ^ s = of_bool (neg a) * (2 ^ s - 1)"
      proof -
        have "(W - 1) mod 2 ^ s = 2 ^ s - 1"
          by (rule conjunct2 [OF int_div_mod_unique [where q = "2 ^ (64 - s) - 1"]])
            (use W_pow [of s] ds(3) in \<open>simp_all add: algebra_simps\<close>)
        then show ?thesis by (simp add: uint_minus_1)
      qed
      then have rs: "length rs = length t" "lv rs = (lv t + W ^ length t * (of_bool (neg t) * (2 ^ s - 1))) div 2 ^ s"
        using mp_shr_value [OF ds(3), of t "- js_bigint_sign a"] s0 by (simp_all add: rs_def js_bigint_sign nt)
      have "lv t + W ^ length t * (of_bool (neg t) * (2 ^ s - 1)) = sv t + of_bool (neg t) * W ^ length t * 2 ^ s"
        by (simp add: lv_sv algebra_simps)
      then have "lv rs = sv t div 2 ^ s + of_bool (neg t) * W ^ length rs" by (simp add: rs)
      moreover have "- (W ^ length rs) \<le> 2 * (sv t div 2 ^ s)" "2 * (sv t div 2 ^ s) < W ^ length rs"
        using sv_bounds [OF t(1)] div_between [of "2 ^ s" "sv t"] by (auto simp: rs(1))
      moreover have "rs \<noteq> []" using rs(1) t(1) by auto
      ultimately have "sv rs = sv t div 2 ^ s" by (intro sv_eqI)
      then have "computes m (js_bigint_normalize rs) (sv a div 2 ^ unat shift1) False"
        using normalize_computes [OF \<open>rs \<noteq> []\<close>, of m] t(3) by (simp add: sh)
      moreover have "blit (map c [0..<length a - d]) 0 rs = Some rs" using rs(1) t(2) by (simp add: blit_def)
      ultimately show ?thesis by (simp only: t(4) s0 if_False bind.bind_lunit rs_def [symmetric])
    qed
    have big: "length a > unat shift1 div 64 + JS_BIGINT_MAX_SIZE \<longleftrightarrow> length a - d > JS_BIGINT_MAX_SIZE"
      by (auto simp: d_def)
    show ?thesis unfolding js_bigint_shr_def ds Let_def if_not_P [OF False] big
      by (rule computes_new, rule body)
  qed
qed

end
