(* ===== verification/BigIntOrder.thy ===== *)
theory BigIntOrder
  imports BigIntBits
begin

text \<open>Comparison and powers of BigInts.\<close>

section \<open>The size of a normalised BigInt\<close>

text \<open>A normalised BigInt of more than one limb does not fit in one limb less.\<close>

lemma bigint_ok_size:
  assumes "bigint_ok a" "2 \<le> length a"
  shows "W ^ (length a - 1) \<le> 2 * sv a \<or> 2 * sv a < - (W ^ (length a - 1))"
proof (cases a rule: rev_cases)
  case (snoc r x)
  have r: "r \<noteq> []" "length a - 1 = length r" using assms(2) snoc by auto
  have v: "sv a = lv r + W ^ length r * sint x" using snoc by (simp add: sv_snoc)
  define s where "s = sint x + of_bool (neg r)"
  have b: "lv r = sv r + of_bool (neg r) * W ^ length r" by (rule lv_sv)
  have "x \<noteq> (if neg r then - 1 else 0)" using assms(1) r(1) unfolding snoc by (simp add: bigint_ok_snoc)
  moreover have "x = - 1" if "sint x = - 1" using that by (metis sint_n1 signed_word_eqI)
  ultimately have "s \<noteq> 0" by (cases "neg r") (auto simp: s_def signed_eq_0_iff)
  then consider "0 < s" | "s < 0" by linarith
  then have "W ^ length r \<le> W ^ length r * s \<or> W ^ length r * s \<le> - (W ^ length r)"
  proof cases
    case 2
    then show ?thesis using mult_left_mono [of s "- 1" "W ^ length r"] W_pos(6) [of "length r"] by simp
  qed (use W_pos(6) [of "length r"] in simp)
  moreover have "sv a = sv r + W ^ length r * s" using v b by (simp add: s_def algebra_simps)
  moreover have "- (W ^ length r) \<le> 2 * sv r" "2 * sv r < W ^ length r" using sv_bounds [OF r(1)] by simp_all
  ultimately show ?thesis unfolding r(2) by linarith
qed (use assms in simp)

section \<open>Comparison\<close>

lemma cmp_limbs_value:
  assumes "n \<le> length a" "n \<le> length b"
  shows "cmp_limbs a b n = Some (sgn (lv (take n a) - lv (take n b)))"
  using assms
proof (induction n)
  case (Suc n)
  define A B x y where "A = lv (take n a)" and "B = lv (take n b)" and "x = a ! n" and "y = b ! n"
  have t: "lv (take (Suc n) a) = A + W ^ n * uint x" "lv (take (Suc n) b) = B + W ^ n * uint y"
    using Suc.prems by (simp_all add: A_def B_def x_def y_def take_Suc_conv_app_nth lv_append)
  have l: "length (take n a) = n" "length (take n b) = n" using Suc.prems by simp_all
  have AB: "0 \<le> A" "A < W ^ n" "0 \<le> B" "B < W ^ n"
    using lv_bounds [of "take n a"] lv_bounds [of "take n b"] unfolding A_def B_def l by simp_all
  have rds: "rd a n = Some x" "rd b n = Some y" using Suc.prems by (simp_all add: x_def y_def)
  have lt: "P + W ^ n * uint u < Q + W ^ n * uint v" if "uint u < uint v" "P < W ^ n" "0 \<le> Q" for P Q and u v :: limb
  proof -
    have "W ^ n * (uint u + 1) \<le> W ^ n * uint v" using that(1) by (intro mult_left_mono) (simp_all add: less_imp_le)
    then show ?thesis using that(2,3) by (simp add: distrib_left)
  qed
  consider "x = y" | "uint x < uint y" "x < y" | "uint y < uint x" "y < x"
    by (metis linorder_neqE word_less_def)
  then show ?case
  proof cases
    case 1
    then show ?thesis unfolding t using Suc.IH Suc.prems by (simp add: rds A_def B_def del: rd_Some_iff)
  next
    case 2
    then show ?thesis unfolding t using lt [OF 2(1) AB(2,3)] less_imp_neq [OF 2(2)] by (simp add: rds 2(2) del: rd_Some_iff)
  next
    case 3
    then show ?thesis unfolding t using lt [OF 3(1) AB(4,1)] less_imp_neq [OF 3(2)] by (simp add: rds del: rd_Some_iff)
  qed
qed simp

lemma longer_magnitude:
  assumes "bigint_ok a" "bigint_ok b" "length b < length a"
  shows "if neg a then sv a < sv b else sv b < sv a"
proof -
  have ne: "a \<noteq> []" "b \<noteq> []" using assms(1,2) by (simp_all add: bigint_ok_def)
  then have l: "2 \<le> length a" "length b \<le> length a - 1" using assms(3) by (cases b; simp)+
  show ?thesis
    using bigint_ok_size [OF assms(1) l(1)] sv_bounds_within [OF ne(2) l(2)] neg_sv [OF ne(1)] by auto
qed

lemma bigint_cmp_value:
  assumes "bigint_ok a" "bigint_ok b"
  shows "js_bigint_cmp a b = Some (sgn (sv a - sv b))"
proof -
  have ne: "a \<noteq> []" "b \<noteq> []" using assms by (simp_all add: bigint_ok_def)
  note sg = neg_sv [OF ne(1)] neg_sv [OF ne(2)]
  consider "neg a \<noteq> neg b" | "neg a = neg b" "length b < length a" | "neg a = neg b" "length a < length b"
    | "neg a = neg b" "length a = length b" by (meson linorder_neqE)
  then show ?thesis
  proof cases
    case 1
    then show ?thesis using sg by (cases "neg a") (simp_all add: js_bigint_cmp_def js_bigint_sign)
  next
    case 2
    then show ?thesis using longer_magnitude [OF assms 2(2)] sg
      by (cases "neg a") (simp_all add: js_bigint_cmp_def js_bigint_sign)
  next
    case 3
    then show ?thesis using longer_magnitude [OF assms(2,1) 3(2)] sg
      by (cases "neg a") (simp_all add: js_bigint_cmp_def js_bigint_sign)
  next
    case 4
    then have "sv a - sv b = lv a - lv b" by (simp add: sv_def)
    then show ?thesis using 4 cmp_limbs_value [of "length a" a b] by (simp add: js_bigint_cmp_def js_bigint_sign)
  qed
qed

text \<open>The normalised array of a value is unique.\<close>

lemma lv_inject: "length xs = length ys \<Longrightarrow> lv xs = lv ys \<Longrightarrow> xs = ys"
proof (induction xs ys rule: list_induct2)
  case (Cons x xs y ys)
  have "uint x = (uint x + W * lv xs) mod W" "uint y = (uint y + W * lv ys) mod W"
    using uint_limb [of x] uint_limb [of y] by simp_all
  moreover have "uint x + W * lv xs = uint y + W * lv ys" using Cons.prems by simp
  ultimately have "uint x = uint y" by argo
  then show ?case using Cons.prems Cons.IH by (simp add: W_def word_uint_eq_iff)
qed simp

lemma sv_inject:
  assumes "bigint_ok a" "bigint_ok b" "sv a = sv b"
  shows "a = b"
proof -
  have ne: "a \<noteq> []" "b \<noteq> []" using assms(1,2) by (simp_all add: bigint_ok_def)
  have l: "length a = length b"
    using longer_magnitude [OF assms(1,2)] longer_magnitude [OF assms(2,1)] assms(3)
    by (metis linorder_neqE_nat order_less_irrefl)
  have "neg a = neg b" using neg_sv [OF ne(1)] neg_sv [OF ne(2)] assms(3) by simp
  then have "lv a = lv b" using assms(3) l by (simp add: sv_def)
  then show ?thesis by (rule lv_inject [OF l])
qed

end
