(* ===== verification/BigIntPower.thy ===== *)
theory BigIntPower
  imports BigIntOrder
begin

text \<open>Powers of BigInts by squaring. The routine gives up with an exception only when the power
  has more bits than half the size of the largest BigInt.\<close>

definition huge :: int where
  "huge = 2 ^ (32 * JS_BIGINT_MAX_SIZE - 1)"

definition computes_or_large :: "(nat \<Rightarrow> alloc) \<Rightarrow> JSBigInt res \<Rightarrow> int \<Rightarrow> bool" where
  "computes_or_large m res z \<longleftrightarrow>
     (\<exists>r. res = Some (Inr r) \<and> bigint_ok r \<and> sv r = z) \<or> res = Some (Inl Out_Of_Memory) \<and> (\<exists>k. m k = None)
     \<or> (res = Some (Inl Too_Large) \<or> res = Some (Inl Too_Large_To_Allocate)) \<and> huge \<le> \<bar>z\<bar>"

lemma computes_weaken: "computes m res z big \<Longrightarrow> big \<longrightarrow> huge \<le> \<bar>z\<bar> \<Longrightarrow> computes_or_large m res z"
  by (auto simp: computes_def computes_or_large_def split: if_splits)

lemma computes_or_large_reindex: "computes_or_large (\<lambda>k. m (h k)) res z \<Longrightarrow> computes_or_large m res z"
  by (auto simp: computes_or_large_def)

lemma max_size: "JS_BIGINT_MAX_SIZE = 16384"
  by (simp add: JS_BIGINT_MAX_SIZE_def JS_LIMB_BITS_def)

lemma huge_le: "32 * JS_BIGINT_MAX_SIZE - 1 \<le> n \<Longrightarrow> huge \<le> 2 ^ n"
  unfolding huge_def by (intro power_increasing) simp_all

lemma long_is_huge:
  assumes "bigint_ok a" "JS_BIGINT_MAX_SIZE < 2 * length a"
  shows "huge \<le> \<bar>sv a\<bar>"
proof -
  obtain n where n: "length a = Suc n" "1 \<le> n" using assms(2) by (cases "length a") (simp_all add: max_size)
  have "W ^ n \<le> 2 * \<bar>sv a\<bar>" using bigint_ok_size [OF assms(1)] n by auto
  moreover have "W ^ n = 2 * 2 ^ (64 * n - 1)"
  proof -
    have "W ^ n = 2 ^ Suc (64 * n - 1)" using n(2) by (simp add: W_def power_mult del: power_Suc)
    then show ?thesis by (simp only: power_Suc)
  qed
  moreover have "huge \<le> 2 ^ (64 * n - 1)" using assms(2) n by (intro huge_le) (simp add: max_size)
  ultimately show ?thesis by linarith
qed

lemma abs_power_mono: "(A :: int) \<noteq> 0 \<Longrightarrow> i \<le> n \<Longrightarrow> \<bar>A ^ i\<bar> \<le> \<bar>A ^ n\<bar>"
  unfolding power_abs by (intro power_increasing) linarith+

lemma mul_step:
  assumes m: "computes (\<lambda>k. m (h k)) res (sv r * sv t) (length r + length t > JS_BIGINT_MAX_SIZE)"
    and ok: "bigint_ok r" "bigint_ok t" and z: "\<bar>sv r\<bar> \<le> \<bar>z\<bar>" "\<bar>sv t\<bar> \<le> \<bar>z\<bar>"
    and f: "\<And>r1. bigint_ok r1 \<Longrightarrow> sv r1 = sv r * sv t \<Longrightarrow> computes_or_large m (f r1) z"
  shows "computes_or_large m (andthen res f) z"
proof (cases "length r + length t > JS_BIGINT_MAX_SIZE")
  case True
  then have "huge \<le> \<bar>sv r\<bar> \<or> huge \<le> \<bar>sv t\<bar>"
    using long_is_huge [OF ok(1)] long_is_huge [OF ok(2)] by linarith
  then show ?thesis using m True z by (auto simp: computes_def computes_or_large_def andthen_def)
next
  case False
  then show ?thesis using m f by (fastforce simp: computes_def computes_or_large_def andthen_def)
qed

lemma div_power_Suc: "e div 2 ^ i = 2 * (e div 2 ^ Suc i) + e div 2 ^ i mod (2 :: nat)"
  by (simp only: power_Suc2 div_mult2_eq mult_div_mod_eq)

lemma pow_loop_value:
  assumes "bigint_ok a" "sv a \<noteq> 0" "0 < unat e div 2 ^ i" "bigint_ok r" "sv r = sv a ^ (unat e div 2 ^ i)"
  shows "computes_or_large m (pow_loop m a e i r) (sv a ^ unat e)"
  using assms(3-5)
proof (induction i arbitrary: r)
  case 0
  then show ?case by (auto simp: computes_or_large_def)
next
  case (Suc i)
  define n j where "n = unat e" and "j = unat e div 2 ^ Suc i"
  have j: "0 < j" "sv r = sv a ^ j" using Suc.prems by (simp_all add: j_def)
  have ji: "unat e div 2 ^ i = 2 * j + of_bool (bit e i)"
  proof -
    have "bit (unat e) i \<longleftrightarrow> bit e i" by (auto simp: bit_unsigned_iff dest: bit_imp_le_length)
    then show ?thesis using div_power_Suc [of "unat e" i] unfolding j_def bit_iff_odd [of "unat e"]
      by (simp only: mod2_eq_if) (cases "even (unat e div 2 ^ i)"; simp)
  qed
  have le: "2 * j \<le> n" "1 \<le> n" "j \<le> n" using ji div_le_dividend [of "unat e" "2 ^ i"] j(1) by (simp_all add: n_def)
  have ne: "a \<noteq> []" "r \<noteq> []" using assms(1) Suc.prems(2) by (auto simp: bigint_ok_def)
  have b: "\<bar>sv a ^ k\<bar> \<le> \<bar>sv a ^ n\<bar>" if "k \<le> n" for k by (rule abs_power_mono [OF assms(2) that])
  show ?case unfolding pow_loop.simps n_def [symmetric]
  proof (rule mul_step [OF bigint_mul_value [OF ne(2,2)] Suc.prems(2,2)])
    fix r1
    assume r1: "bigint_ok r1" "sv r1 = sv r * sv r"
    have v1: "sv r1 = sv a ^ (2 * j)" by (simp add: r1(2) j(2) power_add [symmetric] mult_2)
    have ne1: "r1 \<noteq> []" using r1(1) by (simp add: bigint_ok_def)
    have bt: "drop_bit i e AND 1 \<noteq> 0 \<longleftrightarrow> bit e i"
      by (simp add: and_one_eq bit_iff_odd_drop_bit odd_iff_mod_2_eq_one)
    show "computes_or_large m (if drop_bit i e AND 1 \<noteq> 0
       then andthen (js_bigint_mul (\<lambda>k. m (2 * i + 1)) r1 a) (pow_loop m a e i)
       else pow_loop m a e i r1) (sv a ^ n)"
    proof (cases "bit e i")
      case False
      then show ?thesis using Suc.IH [OF _ r1(1)] v1 ji j(1) by (simp add: bt n_def)
    next
      case True
      have "computes_or_large m (andthen (js_bigint_mul (\<lambda>k. m (2 * i + 1)) r1 a) (pow_loop m a e i)) (sv a ^ n)"
      proof (rule mul_step [OF bigint_mul_value [OF ne1 ne(1)] r1(1) assms(1)])
        show "\<bar>sv r1\<bar> \<le> \<bar>sv a ^ n\<bar>" unfolding v1 by (rule b) (rule le)
        show "\<bar>sv a\<bar> \<le> \<bar>sv a ^ n\<bar>" using b [OF le(2)] by simp
        fix r2
        assume "bigint_ok r2" "sv r2 = sv r1 * sv a"
        then show "computes_or_large m (pow_loop m a e i r2) (sv a ^ n)"
          using Suc.IH [of r2] ji True v1 by (simp add: n_def mult.commute)
      qed
      then show ?thesis using True by (simp only: bt if_True)
    qed
  qed (use b [OF le(3)] in \<open>simp_all add: j(2)\<close>)
qed

text \<open>Exponents that are refused make the power huge.\<close>

lemma refused_is_huge:
  assumes "2 \<le> \<bar>A\<bar>" "2 ^ 31 \<le> n"
  shows "huge \<le> \<bar>A ^ n\<bar>"
proof -
  have "huge \<le> 2 ^ (32 * JS_BIGINT_MAX_SIZE - 1)" by (rule huge_le) simp
  also have "\<dots> \<le> 2 ^ n" using assms(2) by (intro power_increasing) (simp_all add: max_size)
  also have "\<dots> \<le> \<bar>A\<bar> ^ n" using assms(1) by (intro power_mono) simp_all
  finally show ?thesis by (simp add: power_abs)
qed

lemma exponent_limb:
  assumes "bigint_ok b" "\<not> neg b"
  shows "2 \<le> length b \<Longrightarrow> 2 ^ 31 \<le> nat (sv b)" "length b = 1 \<Longrightarrow> sv b = uint (b ! 0)"
proof -
  assume "2 \<le> length b"
  then have "W ^ (length b - 1) \<le> 2 * sv b \<or> 2 * sv b < - (W ^ (length b - 1))" "W ^ 1 \<le> W ^ (length b - 1)"
    using bigint_ok_size [OF assms(1)] by (simp, intro power_increasing) simp_all
  moreover have "0 \<le> sv b" using assms neg_sv [of b] by (simp add: bigint_ok_def)
  ultimately have "W \<le> 2 * sv b" using W_pos(6) [of "length b - 1"] unfolding power_one_right by linarith
  then show "2 ^ 31 \<le> nat (sv b)" by (simp add: W_def nat_le_iff le_nat_iff)
next
  assume "length b = 1"
  then obtain x where "b = [x]" by (cases b) auto
  then show "sv b = uint (b ! 0)" using assms(2) by (simp add: sv_def)
qed

lemma refused_exponent:
  assumes "bigint_ok b" "\<not> neg b" "length b > 1 \<or> b ! 0 > 0x7FFFFFFF"
  shows "2 ^ 31 \<le> nat (sv b)"
proof (cases "length b > 1")
  case False
  have "b \<noteq> []" using assms(1) by (simp add: bigint_ok_def)
  then have "length b = 1" using False by (cases b) auto
  then have "2 ^ 31 \<le> sv b" using exponent_limb(2) [OF assms(1,2)] assms(3) by (simp add: word_less_def)
  then show ?thesis by (simp add: le_nat_iff)
qed (use exponent_limb(1) [OF assms(1,2)] in simp)

lemma pow_general_value:
  assumes a: "bigint_ok a" "2 \<le> \<bar>sv a\<bar>" and b: "bigint_ok b" "\<not> neg b" "sv b \<noteq> 0"
  shows "computes_or_large m (pow_general m a b) (sv a ^ nat (sv b))"
proof (cases "length b > 1 \<or> b ! 0 > 0x7FFFFFFF")
  case True
  have "huge \<le> \<bar>sv a ^ nat (sv b)\<bar>" by (rule refused_is_huge [OF a(2) refused_exponent [OF b(1,2) True]])
  then show ?thesis using True by (auto simp: pow_general_def computes_or_large_def)
next
  case False
  have "b \<noteq> []" using b(1) by (simp add: bigint_ok_def)
  then have l: "length b = 1" using False by (cases b) auto
  define e :: u32 where "e = ucast (b ! 0)"
  have ue: "uint e = uint (b ! 0)" using False by (simp add: e_def unsigned_ucast_eq word_less_def take_bit_int_eq_self not_less)
  then have sb: "sv b = uint e" using exponent_limb(2) [OF b(1,2) l] by simp
  have e: "nat (sv b) = unat e" "e \<noteq> 0" using b(3) unfolding sb unat_eq_nat_uint by auto
  obtain lz where lz: "clz32 e = Some lz" using e(2) by (auto simp: clz32_def)
  note sp = clz32_spec [OF lz]
  have top: "unat e div 2 ^ (31 - lz) = 1"
  proof -
    have "2 ^ (31 - lz) \<le> uint e" "uint e < 2 ^ Suc (31 - lz)"
      by (rule top_bit; use sp in \<open>auto simp: bit_uint_iff\<close>)+
    then have "uint e div 2 ^ (31 - lz) = 1 \<and> uint e mod 2 ^ (31 - lz) = uint e - 2 ^ (31 - lz)"
      by (intro int_div_mod_unique) simp_all
    then have "int (unat e div 2 ^ (31 - lz)) = 1" by (simp add: zdiv_int)
    then show ?thesis by simp
  qed
  have ne: "a \<noteq> []" using a(1) by (simp add: bigint_ok_def)
  have body: "computes_or_large m (pow_loop (\<lambda>k. m (k + 1)) a e (31 - lz) a) (sv a ^ unat e)"
    by (rule computes_or_large_reindex, rule pow_loop_value) (use a top in simp_all)
  have pg: "pow_general m a b = andthen (js_bigint_new (m 0) (length a)) (\<lambda>r. do {
            r1 \<leftarrow> blit r 0 a; pow_loop (\<lambda>k. m (k + 1)) a e (31 - lz) r1 })"
    using False by (simp add: pow_general_def e_def [symmetric] lz)
  show ?thesis
  proof (cases "length a > JS_BIGINT_MAX_SIZE")
    case True
    have "\<bar>sv a ^ 1\<bar> \<le> \<bar>sv a ^ unat e\<bar>" using e(2) a(2) by (intro abs_power_mono) (auto simp: unat_gt_0 Suc_le_eq)
    then show ?thesis using True long_is_huge [OF a(1)] e(1)
      by (simp add: pg js_bigint_new_def andthen_def computes_or_large_def)
  next
    case False
    then show ?thesis using body
      by (cases "m 0") (auto simp: pg js_bigint_new_def js_malloc_def andthen_def computes_or_large_def blit_def e(1))
  qed
qed

section \<open>Powers of powers of two\<close>

lemma odd_limb: "x AND 1 \<noteq> 0 \<longleftrightarrow> odd (unat (x :: limb))" "odd x \<longleftrightarrow> odd (unat x)" "x AND 1 = of_bool (odd x)"
proof -
  show o: "odd x \<longleftrightarrow> odd (unat x)" by (simp add: bit_unsigned_iff flip: bit_0)
  show "x AND 1 = of_bool (odd x)" by (simp add: and_one_eq mod2_eq_if)
  then show "x AND 1 \<noteq> 0 \<longleftrightarrow> odd (unat x)" by (simp add: o)
qed

lemma one_bit:
  assumes "clz64 v = Some lz" "v AND (v - 1) = 0"
  shows "uint v = 2 ^ (63 - lz)"
proof (rule ccontr)
  note sp = clz64_spec [OF assms(1)]
  have b: "2 ^ (63 - lz) \<le> uint v" "uint v < 2 ^ Suc (63 - lz)"
    by (rule top_bit; use sp in \<open>auto simp: bit_uint_iff\<close>)+
  assume "uint v \<noteq> 2 ^ (63 - lz)"
  then have g: "2 ^ (63 - lz) \<le> uint v - 1" "uint v - 1 < 2 * 2 ^ (63 - lz)" using b by simp_all
  then have "uint (v - 1) = uint v - 1" using uint_limb(2) [of v] by (simp add: limb_arith)
  moreover have "(uint v - 1) div 2 ^ (63 - lz) = 1 \<and> (uint v - 1) mod 2 ^ (63 - lz) = uint v - 1 - 2 ^ (63 - lz)"
    using g by (intro int_div_mod_unique) linarith+
  ultimately have "bit (uint (v - 1)) (63 - lz)" by (simp add: bit_iff_odd)
  then have "bit (v AND (v - 1)) (63 - lz)" using sp by (auto simp: bit_and_iff bit_uint_iff)
  then show False by (simp add: assms(2))
qed

lemma sint_push_1: "s < 63 \<Longrightarrow> sint (push_bit s 1 :: limb) = 2 ^ s"
  and sint_push_minus_1: "s < 64 \<Longrightarrow> sint (push_bit s (- 1) :: limb) = - (2 ^ s)"
proof -
  assume s: "s < 63"
  have "(2 :: int) ^ s \<le> 2 ^ 62" using s by (intro power_increasing) simp_all
  moreover have "uint (push_bit s 1 :: limb) = 2 ^ s"
    using s unfolding uint_push [OF order.strict_implies_order [OF less_trans [OF s, of 64, simplified]]] by (simp add: push_bit_eq_mult)
  ultimately show "sint (push_bit s 1 :: limb) = 2 ^ s" using sint_limb [of "push_bit s 1"] by (simp add: W_def)
next
  assume s: "s < 64"
  show "sint (push_bit s (- 1) :: limb) = - (2 ^ s)"
  proof (cases "s = 0")
    case False
    then show ?thesis using sint_shifted_out [of s 0] s by (simp del: push_bit_minus_one)
  qed simp
qed

lemma neg_zeros [simp]: "\<not> neg (replicate q 0)" if "0 < q"
  using that by (simp add: neg_def W_def last_replicate)

lemma two_power_limbs:
  assumes "L = (e + 65 - of_bool ng) div 64"
  shows "\<exists>r. wr (replicate L 0) (e div 64) (push_bit (e mod 64) (1 - 2 * of_bool ng)) = Some r \<and> bigint_ok r
    \<and> sv r = (if ng then - (2 ^ e) else 2 ^ e)"
proof -
  define q t where "q = e div 64" and "t = e mod 64"
  have t: "t < 64" "e = 64 * q + t" by (simp_all add: q_def t_def)
  have e2: "(2 :: int) ^ e = W ^ q * 2 ^ t" unfolding q_def t_def by (rule two_power_W)
  have ok: "bigint_ok (replicate q 0 @ [x])" if "x \<noteq> 0" for x
    using that by (cases "q = 0") (simp add: bigint_ok_def, simp add: bigint_ok_snoc)
  have w: "wr (replicate (q + Suc n) 0) q x = Some (replicate q 0 @ x # replicate n 0)" for n and x :: limb
  proof -
    have "replicate (q + Suc n) (0 :: limb) = replicate q 0 @ 0 # replicate n 0" by (simp only: replicate_add replicate.simps)
    then show ?thesis using list_update_length [of "replicate q 0" 0 "replicate n 0" x]
      by (simp only: wr_def length_append length_replicate length_Cons less_add_same_cancel1 zero_less_Suc if_True)
  qed
  have sv1: "sv (replicate q 0 @ [x]) = W ^ q * sint x" for x by (simp add: sv_snoc lv_zeros)
  show ?thesis unfolding q_def [symmetric] t_def [symmetric]
  proof (cases ng)
    case True
    have L: "L = q + Suc 0" using True assms t by simp
    have "push_bit t (- 1 :: limb) \<noteq> 0" using sint_push_minus_1 [OF t(1)] by (auto simp del: push_bit_minus_one)
    then show "\<exists>r. wr (replicate L 0) q (push_bit t (1 - 2 * of_bool ng)) = Some r \<and> bigint_ok r \<and> sv r = (if ng then - (2 ^ e) else 2 ^ e)"
      using ok w [of 0] sv1 sint_push_minus_1 [OF t(1)] unfolding L by (simp add: True e2 del: push_bit_minus_one)
  next
    case ng: False
    show "\<exists>r. wr (replicate L 0) q (push_bit t (1 - 2 * of_bool ng)) = Some r \<and> bigint_ok r \<and> sv r = (if ng then - (2 ^ e) else 2 ^ e)"
    proof (cases "t = 63")
      case True
      have L: "L = q + Suc 1" using ng True assms t by simp
      have v: "replicate q 0 @ x # [0] = (replicate q 0 @ [x]) @ [0]" for x :: limb by simp
      have "neg (replicate q 0 @ [push_bit 63 1])" by (simp add: neg_def W_def)
      then have "bigint_ok ((replicate q 0 @ [push_bit 63 1]) @ [0])" by (subst bigint_ok_snoc) simp_all
      moreover have "sv ((replicate q 0 @ [push_bit 63 1]) @ [0]) = 2 ^ e"
        unfolding sv_snoc e2 True by (simp add: lv_append lv_zeros)
      ultimately show ?thesis using w [of 1 "push_bit 63 1"] unfolding L by (simp add: ng True)
    next
      case False
      have L: "L = q + Suc 0" using ng False assms t by simp
      have s: "sint (push_bit t 1 :: limb) = 2 ^ t" using sint_push_1 [of t] t(1) False by simp
      then have "push_bit t (1 :: limb) \<noteq> 0" using t(1) by auto
      then show ?thesis using ok w [of 0] sv1 s unfolding L by (simp add: ng e2)
    qed
  qed
qed

lemma pow_of_two_value:
  assumes b: "bigint_ok b" "\<not> neg b" and v: "v AND (v - 1) = 0" "1 < uint v" "\<bar>A\<bar> = uint v" "is_neg \<longleftrightarrow> A < 0"
  shows "computes_or_large m (pow_of_two (m 0) v is_neg b) (A ^ nat (sv b))"
proof -
  obtain lz where lz: "clz64 v = Some lz" "lz < 64" using clz64_value [of v] v(2) by force
  define n where "n = 63 - lz"
  have uv: "uint v = 2 ^ n" unfolding n_def by (rule one_bit [OF lz(1) v(1)])
  have "b \<noteq> []" using b(1) by (simp add: bigint_ok_def)
  show ?thesis
  proof (cases "length b > 1 \<or> b ! 0 > 0x7FFFFFFF")
    case True
    have "huge \<le> \<bar>A ^ nat (sv b)\<bar>"
      by (rule refused_is_huge [OF _ refused_exponent [OF b True]]) (use v in simp)
    then show ?thesis using True
      by (cases "length b > 1") (simp_all add: pow_of_two_def lz(1) computes_or_large_def Let_def)
  next
    case False
    have l: "length b = 1" using False \<open>b \<noteq> []\<close> by (cases b) auto
    define N where "N = unat (b ! 0)"
    have N: "nat (sv b) = N" unfolding exponent_limb(2) [OF b l] N_def unat_eq_nat_uint ..
    define e where "e = N * n"
    have od: "b ! 0 AND 1 \<noteq> 0 \<longleftrightarrow> odd N" unfolding N_def by (rule odd_limb(1))
    define ng where "ng \<longleftrightarrow> is_neg \<and> odd N"
    have A: "A = (if is_neg then - (2 ^ n) else 2 ^ n)" using v(3,4) uv by auto
    have p: "A ^ N = (if ng then - (2 ^ e) else 2 ^ e)"
      by (auto simp: A ng_def e_def power_mult mult.commute [of N])
    then have ap: "\<bar>A ^ N\<bar> = 2 ^ e" by simp
    define L where "L = (e + 65 - of_bool ng) div 64"
    have LJ: "(e + JS_LIMB_BITS + 1 - of_bool ng) div JS_LIMB_BITS = L" by (simp add: L_def JS_LIMB_BITS_def)
    have nJ: "JS_LIMB_BITS - 1 - lz = n" by (simp add: n_def JS_LIMB_BITS_def)
    have pw: "pow_of_two (m 0) v is_neg b =
      (if e > JS_BIGINT_MAX_SIZE * JS_LIMB_BITS then Some (Inl Too_Large)
       else andthen (js_bigint_new (m 0) L) (\<lambda>r. do {
          r1 \<leftarrow> wr (replicate (length r) 0) (e div JS_LIMB_BITS) (push_bit (e mod JS_LIMB_BITS) (1 - 2 * of_bool ng));
          Some (Inr r1) }))"
      using False by (simp only: pow_of_two_def lz(1) bind.bind_lunit Let_def nJ N_def [symmetric] e_def [symmetric] od ng_def [symmetric]
        LJ de_Morgan_disj simp_thms if_False)
    have big: "huge \<le> 2 ^ e" if "JS_BIGINT_MAX_SIZE < L"
      using that by (intro huge_le) (auto simp: L_def max_size split: if_splits)
    show ?thesis
    proof (cases "e > JS_BIGINT_MAX_SIZE * JS_LIMB_BITS")
      case True
      then have "huge \<le> 2 ^ e" by (intro huge_le) (simp add: max_size JS_LIMB_BITS_def)
      then show ?thesis using True by (simp add: pw N ap computes_or_large_def)
    next
      case False
      show ?thesis
      proof (cases "JS_BIGINT_MAX_SIZE < L")
        case True
        then show ?thesis using False big by (simp add: pw N ap computes_or_large_def js_bigint_new_def andthen_def)
      next
        case L: False
        then show ?thesis using False two_power_limbs [OF L_def] unfolding pw N p
          by (cases "m 0") (auto simp: computes_or_large_def js_bigint_new_def js_malloc_def andthen_def JS_LIMB_BITS_def simp del: wr_Some_iff)
      qed
    qed
  qed
qed

lemma limb_magnitude: "uint (if sint x < 0 then - x else x) = \<bar>sint (x :: limb)\<bar>"
proof (cases "sint x < 0")
  case True
  then have s: "sint x = uint x - W" using sint_limb [of x] uint_limb(1) [of x] by (cases "W \<le> 2 * uint x") simp_all
  have "uint (- x) = (- uint x) mod W" using limb_arith(2) [of 0 x] by simp
  also have "\<dots> = W - uint x"
    by (rule conjunct2 [OF int_div_mod_unique [where q = "- 1"]])
      (use True s uint_limb [of x] in \<open>auto simp: sint_limb split: if_splits\<close>)
  finally show ?thesis using True s uint_limb(2) [of x] by simp
next
  case False
  then show ?thesis using sint_limb [of x] uint_limb [of x] by (cases "W \<le> 2 * uint x") simp_all
qed

lemma bigint_pow_value:
  assumes a: "bigint_ok a" and b: "bigint_ok b" "0 \<le> sv b"
  shows "computes_or_large m (js_bigint_pow m a b) (sv a ^ nat (sv b))"
proof -
  have ne: "a \<noteq> []" "b \<noteq> []" using a b by (simp_all add: bigint_ok_def)
  have nb: "\<not> neg b" using neg_sv [OF ne(2)] b(2) by simp
  then have sb: "js_bigint_sign b = 0" by (simp add: js_bigint_sign)
  have new: "computes_or_large m (js_bigint_new_si (m 0) x) z" if "sint x = z" for x z
    using new_si_computes [of m 0 x] that by (intro computes_weaken) auto
  have pw: "js_bigint_pow m a b =
     (if length b = 1 \<and> b ! 0 = 0 then js_bigint_new_si (m 0) 1
      else if length a = 1 \<and> a ! 0 \<le> 1 then js_bigint_new_si (m 0) (a ! 0)
      else if length a = 1 \<and> a ! 0 = - 1 then js_bigint_new_si (m 0) (1 - 2 * (b ! 0 AND 1))
      else let is_neg = sint (a ! 0) < 0; v = (if is_neg then - (a ! 0) else a ! 0) in
        if length a = 1 \<and> v AND (v - 1) = 0 then pow_of_two (m 0) v is_neg b
        else pow_general m a b)"
    by (simp add: js_bigint_pow_def sb)
  show ?thesis
  proof (cases "sv b = 0")
    case True
    then show ?thesis using sv_zero_iff [OF b(1)] new [of 1 1] by (simp add: pw)
  next
    case b0: False
    then have bz: "\<not> (length b = 1 \<and> b ! 0 = 0)" "0 < nat (sv b)" using sv_zero_iff [OF b(1)] b(2) by simp_all
    show ?thesis
    proof (cases "length a = 1")
      case True
      define x where "x = a ! 0"
      have ax: "a = [x]" using True by (cases a) (auto simp: x_def)
      have sx: "sv a = sint x" using sv_snoc [of "[]" x] by (simp add: ax)
      consider "x = 0" | "x = 1" | "x = - 1" | "x \<noteq> 0" "x \<noteq> 1" "x \<noteq> - 1" by blast
      then show ?thesis
      proof cases
        case 1
        then show ?thesis using bz new [of 0 0] True unfolding pw if_not_P [OF bz(1)] by (simp add: sx x_def [symmetric] zero_power)
      next
        case 2
        then show ?thesis using bz new [of 1 1] True by (simp add: pw sx x_def [symmetric])
      next
        case 3
        have od: "odd (b ! 0) \<longleftrightarrow> odd (nat (sv b))"
          using bit_sv [OF ne(2), of 0] ne(2) b(2) by (simp add: even_nat_iff bit_0)
        have "sint (1 - 2 * (b ! 0 AND 1) :: limb) = (- 1) ^ nat (sv b)"
          by (simp add: odd_limb(3) od)
        moreover have "\<not> (- 1 :: limb) \<le> 1" by (simp add: word_le_def uint_minus_1 W_def)
        ultimately show ?thesis using new [of "1 - 2 * (b ! 0 AND 1)"] 3 True unfolding pw if_not_P [OF bz(1)]
          by (simp add: sx x_def [symmetric])
      next
        case 4
        define v where "v = (if sint x < 0 then - x else x)"
        have uv: "uint v = \<bar>sint x\<bar>" unfolding v_def by (rule limb_magnitude)
        have "sint x \<noteq> 0" "sint x \<noteq> 1" "sint x \<noteq> - 1"
          using 4 signed_word_eqI [of x 0] signed_word_eqI [of x 1] signed_word_eqI [of x "- 1"] by auto
        then have v2: "2 \<le> \<bar>sint x\<bar>" by linarith
        have "\<not> x \<le> 1"
        proof
          assume "x \<le> 1"
          then have "uint x = 0 \<or> uint x = 1" using uint_limb(1) [of x] unfolding word_le_def unsigned_1 by linarith
          then show False using 4 by (metis unsigned_0 unsigned_1 word_uint_eqI)
        qed
        then have p: "js_bigint_pow m a b = (if v AND (v - 1) = 0 then pow_of_two (m 0) v (sint x < 0) b else pow_general m a b)"
          using 4 True unfolding pw if_not_P [OF bz(1)] by (simp add: x_def [symmetric] v_def Let_def)
        show ?thesis
        proof (cases "v AND (v - 1) = 0")
          case True
          then show ?thesis using pow_of_two_value [OF b(1) nb True] uv v2 by (simp add: p sx)
        next
          case False
          then show ?thesis using pow_general_value [OF a _ b(1) nb b0] v2 by (simp add: p sx)
        qed
      qed
    next
      case False
      then have l: "2 \<le> length a" using ne(1) by (cases a) (auto simp: Suc_le_eq)
      have "W ^ 1 \<le> W ^ (length a - 1)" using l by (intro power_increasing) simp_all
      then have "2 \<le> \<bar>sv a\<bar>" using bigint_ok_size [OF a l] by (auto simp: W_def)
      then show ?thesis using False pow_general_value [OF a _ b(1) nb b0] unfolding pw if_not_P [OF bz(1)] by (simp add: Let_def)
    qed
  qed
qed

lemma bigint_pow_negative:
  "bigint_ok b \<Longrightarrow> sv b < 0 \<Longrightarrow> js_bigint_pow m a b = Some (Inl Negative_Exponent)"
  using neg_sv [of b] by (auto simp: js_bigint_pow_def js_bigint_sign bigint_ok_def)

end
