(* ===== verification/BigIntProps.thy ===== *)
theory BigIntProps
  imports BigIntPower
begin

text \<open>What the BigInt operations promise: \<open>computes m res z big\<close> says that a call whose
  allocations are \<open>m\<close> never leaves the arrays it works on, and returns a normalised BigInt of value
  \<open>z\<close>, unless an allocation fails or, exactly when \<open>big\<close> holds, the result is refused as too
  large to allocate.\<close>

definition plenty :: "nat \<Rightarrow> alloc" where
  "plenty k = Some (\<lambda>i. of_nat (7 * i + 3))"

lemma computes_plenty: "computes plenty res z False \<Longrightarrow> \<exists>r. res = Some (Inr r) \<and> bigint_ok r \<and> sv r = z"
  by (simp add: computes_def plenty_def)

lemma sv_two: "sv [x, y] = uint x + W * sint y"
  using sv_snoc [of "[x]" y] by simp

lemma sv_one: "sv [x] = sint x"
  using sv_snoc [of "[]" x] by simp

text \<open>C25: Sums, differences, negations and products of BigInts are exact: from normalised operands,
  the limb loops with their carries, their sign limbs and their corrections for negative operands
  return the normalised two's complement array of the integer result, whatever memory the allocator
  hands out, without an access outside an array; the only other outcomes are a failed allocation and
  the range error, which is raised exactly when the array to allocate is longer than the limit.\<close>

theorem bigint_arithmetic:
  assumes "bigint_ok a" "bigint_ok b"
  shows "computes m (js_bigint_add m a b b_neg) (if b_neg then sv a - sv b else sv a + sv b)
      (max (length a) (length b) > JS_BIGINT_MAX_SIZE)
    \<and> computes m (js_bigint_neg m a) (- sv a) (length a > JS_BIGINT_MAX_SIZE)
    \<and> computes m (js_bigint_mul m a b) (sv a * sv b) (length a + length b > JS_BIGINT_MAX_SIZE)"
  using assms bigint_add_value [of a b m b_neg] bigint_neg_value [of a m] bigint_mul_value [of a b m]
  by (simp add: bigint_ok_def)

theorem bigint_arithmetic_witness:
  "\<exists>r. js_bigint_mul plenty [- 1, 0] [- 5] = Some (Inr r) \<and> bigint_ok r \<and> sv r = - 92233720368547758075"
proof -
  have "bigint_ok [- 1, 0]" "bigint_ok [- 5]" by (simp_all add: bigint_ok_def)
  from bigint_arithmetic [OF this, of plenty] have "computes plenty (js_bigint_mul plenty [- 1, 0] [- 5]) (sv [- 1, 0] * sv [- 5]) False"
    by (simp add: JS_BIGINT_MAX_SIZE_def JS_LIMB_BITS_def)
  from computes_plenty [OF this] show ?thesis by (simp add: sv_two sv_one W_def uint_minus_1)
qed

text \<open>C26: Division of BigInts rounds towards zero and the remainder has the sign of the dividend, with
  \<open>a = (a / b) * b + a % b\<close>; a zero divisor is the range error. The schoolbook division underneath,
  on operands shifted until the divisor has its high bit set, with estimated quotient limbs and the
  addition of the divisor back after an estimate that is too large, ends and stays in its arrays.\<close>

theorem bigint_division:
  assumes "bigint_ok a" "bigint_ok b"
  shows "if sv b = 0 then js_bigint_divrem m a b is_rem = Some (Inl Division_By_Zero)
    else computes m (js_bigint_divrem m a b is_rem) (if is_rem then sv a smod sv b else sv a sdiv sv b)
      (length a + 2 > JS_BIGINT_MAX_SIZE) \<and> sv a = (sv a sdiv sv b) * sv b + sv a smod sv b"
proof (cases "sv b = 0")
  case True
  then have "length b = 1 \<and> b ! 0 = 0" using sv_zero_iff [OF assms(2)] by simp
  then show ?thesis using True by (simp add: js_bigint_divrem_def)
next
  case False
  then show ?thesis using bigint_divrem_value [OF assms False] by (simp add: sdiv_mult_smod_eq)
qed

theorem bigint_division_witness:
  "\<exists>r. js_bigint_divrem plenty [0, 7, - 2] [3, 1] True = Some (Inr r) \<and> bigint_ok r
    \<and> sv r = (W * 7 + W * W * - 2) smod (3 + W)"
proof -
  have "bigint_ok [0, 7, - 2]" "bigint_ok [3, 1]" by (simp_all add: bigint_ok_def)
  note d = bigint_division [OF this, of plenty True]
  have "sv [0, 7, - 2] = W * 7 + W * W * - 2" "sv [3, 1] = 3 + W"
    using sv_Cons [of "[7, - 2]" 0] by (simp_all add: sv_two W_def)
  moreover have "3 + W \<noteq> 0" by (simp add: W_def)
  ultimately have "computes plenty (js_bigint_divrem plenty [0, 7, - 2] [3, 1] True) ((W * 7 + W * W * - 2) smod (3 + W)) False"
    using d by (simp add: JS_BIGINT_MAX_SIZE_def JS_LIMB_BITS_def)
  then show ?thesis by (rule computes_plenty)
qed

text \<open>C27: The bitwise operations act on the infinite two's complement of their operands, whatever the
  lengths of the two arrays; a left shift multiplies by a power of two, a right shift divides by one
  and rounds down, also past the end of the array, where the sign is left.\<close>

theorem bigint_bitwise:
  assumes "bigint_ok a" "bigint_ok b"
  shows "computes m (js_bigint_logic m a b OP_or) (sv a OR sv b) (max (length a) (length b) > JS_BIGINT_MAX_SIZE)
    \<and> computes m (js_bigint_logic m a b OP_and) (sv a AND sv b) (max (length a) (length b) > JS_BIGINT_MAX_SIZE)
    \<and> computes m (js_bigint_logic m a b OP_xor) (sv a XOR sv b) (max (length a) (length b) > JS_BIGINT_MAX_SIZE)
    \<and> computes m (js_bigint_not m a) (NOT (sv a)) (length a > JS_BIGINT_MAX_SIZE)
    \<and> computes m (js_bigint_shl m a s) (sv a * 2 ^ unat s) (sv a \<noteq> 0 \<and> length a + unat s div 64 > JS_BIGINT_MAX_SIZE)
    \<and> computes m (js_bigint_shr m a s) (sv a div 2 ^ unat s) (length a > unat s div 64 + JS_BIGINT_MAX_SIZE)"
proof -
  have "a \<noteq> []" "b \<noteq> []" using assms by (simp_all add: bigint_ok_def)
  note l = bigint_logic_value [OF this, of m, unfolded logic_int_def]
  show ?thesis
    using l [of OP_or] l [of OP_and] l [of OP_xor] bigint_not_value [OF assms(1)]
      bigint_shl_value [OF assms(1)] bigint_shr_value [OF assms(1)]
    by (simp add: not_eq_complement)
qed

theorem bigint_bitwise_witness:
  "\<exists>r. js_bigint_logic plenty [5, 0, 1] [- 2] OP_and = Some (Inr r) \<and> bigint_ok r \<and> sv r = (5 + W * W) AND - 2"
proof -
  have "bigint_ok [5, 0, 1]" "bigint_ok [- 2]" by (simp_all add: bigint_ok_def)
  moreover have "sv [5, 0, 1] = 5 + W * W" using sv_Cons [of "[0, 1]" 5] by (simp add: sv_two)
  ultimately have "computes plenty (js_bigint_logic plenty [5, 0, 1] [- 2] OP_and) ((5 + W * W) AND - 2) False"
    using bigint_bitwise [of "[5, 0, 1]" "[- 2]" plenty 0] by (simp add: sv_one JS_BIGINT_MAX_SIZE_def JS_LIMB_BITS_def)
  then show ?thesis by (rule computes_plenty)
qed

text \<open>C28: A power of a BigInt is exact for every exponent that is not negative; a negative exponent is the
  range error. A power is refused as too large only when its magnitude is at least two to the 524287,
  half of the bits the largest BigInt has.\<close>

theorem bigint_power:
  assumes "bigint_ok a" "bigint_ok b"
  shows "if sv b < 0 then js_bigint_pow m a b = Some (Inl Negative_Exponent)
    else computes_or_large m (js_bigint_pow m a b) (sv a ^ nat (sv b))"
  using bigint_pow_value [OF assms] bigint_pow_negative [OF assms(2)] by simp

theorem bigint_power_witness:
  "\<exists>r. js_bigint_pow plenty [- 3] [5] = Some (Inr r) \<and> bigint_ok r \<and> sv r = - 243"
proof -
  have "bigint_ok [- 3]" "bigint_ok [5]" by (simp_all add: bigint_ok_def)
  from bigint_power [OF this, of plenty] have "computes_or_large plenty (js_bigint_pow plenty [- 3] [5]) (- 243)"
    by (simp add: sv_one)
  moreover have "243 < huge"
  proof -
    have "(2 :: int) ^ 8 \<le> huge" unfolding huge_def max_size by (intro power_increasing) simp_all
    then show ?thesis by simp
  qed
  ultimately show ?thesis by (auto simp: computes_or_large_def plenty_def)
qed

text \<open>C29: The comparison of normalised BigInts, by sign, then length, then limbs from the top, is the
  order of their values; in particular two normalised arrays of the same value are equal.\<close>

theorem bigint_order:
  assumes "bigint_ok a" "bigint_ok b"
  shows "js_bigint_cmp a b = Some (sgn (sv a - sv b)) \<and> (js_bigint_cmp a b = Some 0 \<longleftrightarrow> a = b)"
  using bigint_cmp_value [OF assms] sv_inject [OF assms] by (auto simp: sgn_0_0)

theorem bigint_order_witness: "js_bigint_cmp [0, - 1] [- 5] = Some (- 1)"
proof -
  have "bigint_ok [0, - 1]" "bigint_ok [- 5]" by (simp_all add: bigint_ok_def)
  from bigint_order [OF this] show ?thesis by (simp add: sv_one sv_two W_def)
qed

end
