(* ===== verification/IntText.thy ===== *)
theory IntText
  imports CBytes
begin

text \<open>
  The printing of machine integers of \<open>quickjs/dtoa.c\<close>. A buffer is its list of bytes and a
  pointer into it an offset; a write outside gives None. A loop that writes a buffer downwards
  is a recursion on the offset, so that running out of room is None as well. What a local
  buffer holds before it is written is never copied out.
\<close>

section \<open>The loops over digits\<close>

definition dec_char :: "'a::len word \<Rightarrow> u8" where "dec_char d = ucast d + 48"

definition digit_char :: "'a::len word \<Rightarrow> u8" where
  "digit_char d = (if d < 10 then ucast d + 48 else ucast d + (97 - 10))"

text \<open>\<open>do { digit = n % radix; n /= radix; *--q = digit; } while (n != 0)\<close>.\<close>

fun digits_down :: "('a::len word \<Rightarrow> u8) \<Rightarrow> 'a word \<Rightarrow> u8 list \<Rightarrow> nat \<Rightarrow> 'a word \<Rightarrow> (u8 list \<times> nat) option" where
  "digits_down f radix b 0 n = None"
| "digits_down f radix b (Suc q) n =
     (if radix = 0 then None
      else do {
        b1 \<leftarrow> wr b q (f (n mod radix));
        if n div radix \<noteq> 0 then digits_down f radix b1 q (n div radix) else Some (b1, q)
      })"

text \<open>\<open>for(i = len - 1; i >= 0; i--) { digit = n % radix; n /= radix; buf[i] = digit; }\<close>.\<close>

fun digits_len :: "('a::len word \<Rightarrow> u8) \<Rightarrow> 'a word \<Rightarrow> u8 list \<Rightarrow> nat \<Rightarrow> nat \<Rightarrow> 'a word \<Rightarrow> u8 list option" where
  "digits_len f radix b off 0 n = Some b"
| "digits_len f radix b off (Suc i) n =
     (if radix = 0 then None
      else do { b1 \<leftarrow> wr b (off + i) (f (n mod radix)); digits_len f radix b1 off i (n div radix) })"

definition u32toa_len :: "u8 list \<Rightarrow> nat \<Rightarrow> u32 \<Rightarrow> nat \<Rightarrow> u8 list option" where
  "u32toa_len buf off n len = digits_len dec_char 10 buf off len n"

fun u64toa_bin_loop :: "u8 list \<Rightarrow> nat \<Rightarrow> nat \<Rightarrow> nat \<Rightarrow> u64 \<Rightarrow> u8 list option" where
  "u64toa_bin_loop buf off bits 0 n = Some buf"
| "u64toa_bin_loop buf off bits (Suc i) n =
     do {
       b1 \<leftarrow> wr buf (off + i) (digit_char (n AND (push_bit bits 1 - 1)));
       u64toa_bin_loop b1 off bits i (drop_bit bits n)
     }"

definition u64toa_bin_len :: "u8 list \<Rightarrow> nat \<Rightarrow> u64 \<Rightarrow> nat \<Rightarrow> nat \<Rightarrow> u8 list option" where
  "u64toa_bin_len buf off n radix_bits len = u64toa_bin_loop buf off radix_bits len n"

definition limb_to_a32 :: "u8 list \<Rightarrow> nat \<Rightarrow> u32 \<Rightarrow> u32 \<Rightarrow> nat \<Rightarrow> u8 list option" where
  "limb_to_a32 buf off n radix len =
     (if radix = 10 then u32toa_len buf off n len else digits_len digit_char radix buf off len n)"

section \<open>The exported functions\<close>

text \<open>Each takes the buffer and the offset to write at, and returns the buffer and the length.\<close>

definition u32toa :: "u8 list \<Rightarrow> nat \<Rightarrow> u32 \<Rightarrow> (u8 list \<times> nat) option" where
  "u32toa buf off n =
     do {
       (buf1, q) \<leftarrow> digits_down dec_char 10 (replicate 10 0) 10 n;
       b \<leftarrow> blit buf off (drop q buf1);
       Some (b, 10 - q)
     }"

definition i32toa :: "u8 list \<Rightarrow> nat \<Rightarrow> u32 \<Rightarrow> (u8 list \<times> nat) option" where
  "i32toa buf off n =
     (if 0 \<le> sint n then u32toa buf off n
      else do { b \<leftarrow> wr buf off 45; (b1, l) \<leftarrow> u32toa b (off + 1) (- n); Some (b1, l + 1) })"

definition u64toa :: "u8 list \<Rightarrow> nat \<Rightarrow> u64 \<Rightarrow> (u8 list \<times> nat) option" where
  "u64toa buf off n =
     (if n < 0x100000000 then u32toa buf off (ucast n)
      else let n1 = n div 1000000000; n' = n mod 1000000000 in
        if 0x100000000 \<le> n1 then do {
          let n2 = (ucast (n1 div 1000000000) :: u32);
          let n1' = n1 mod 1000000000;
          (b, q, n2') \<leftarrow>
            (if 10 \<le> n2 then do { b \<leftarrow> wr buf off (ucast (n2 div 10) + 48); Some (b, off + 1, n2 mod 10) }
             else Some (buf, off, n2));
          b1 \<leftarrow> wr b q (ucast n2' + 48);
          b2 \<leftarrow> u32toa_len b1 (q + 1) (ucast n1') 9;
          b3 \<leftarrow> u32toa_len b2 (q + 1 + 9) (ucast n') 9;
          Some (b3, q + 1 + 9 + 9 - off)
        }
        else do {
          (b, l) \<leftarrow> u32toa buf off (ucast n1);
          b1 \<leftarrow> u32toa_len b (off + l) (ucast n') 9;
          Some (b1, l + 9)
        })"

definition i64toa :: "u8 list \<Rightarrow> nat \<Rightarrow> u64 \<Rightarrow> (u8 list \<times> nat) option" where
  "i64toa buf off n =
     (if 0 \<le> sint n then u64toa buf off n
      else do { b \<leftarrow> wr buf off 45; (b1, l) \<leftarrow> u64toa b (off + 1) (- n); Some (b1, l + 1) })"

definition u64toa_radix :: "u8 list \<Rightarrow> nat \<Rightarrow> u64 \<Rightarrow> u32 \<Rightarrow> (u8 list \<times> nat) option" where
  "u64toa_radix buf off n radix =
     (if radix = 10 then u64toa buf off n
      else if radix AND (radix - 1) = 0 then do {
        z \<leftarrow> clz32 radix;
        let radix_bits = 31 - z;
        l \<leftarrow> (if n = 0 then Some 1
              else if radix_bits = 0 then None
              else do { z1 \<leftarrow> clz64 n; Some ((64 - z1 + radix_bits - 1) div radix_bits) });
        b \<leftarrow> u64toa_bin_len buf off n radix_bits l;
        Some (b, l)
      }
      else do {
        (buf1, q) \<leftarrow> digits_down digit_char (ucast radix) (replicate 41 0) 41 n;
        b \<leftarrow> blit buf off (drop q buf1);
        Some (b, 41 - q)
      })"

definition i64toa_radix :: "u8 list \<Rightarrow> nat \<Rightarrow> u64 \<Rightarrow> u32 \<Rightarrow> (u8 list \<times> nat) option" where
  "i64toa_radix buf off n radix =
     (if 0 \<le> sint n then u64toa_radix buf off n radix
      else do { b \<leftarrow> wr buf off 45; (b1, l) \<leftarrow> u64toa_radix b (off + 1) (- n) radix; Some (b1, l + 1) })"

section \<open>Digits of a number\<close>

fun repr :: "nat \<Rightarrow> nat \<Rightarrow> nat list" where
  "repr radix n = (if radix < 2 \<or> n < radix then [n] else repr radix (n div radix) @ [n mod radix])"

declare repr.simps [simp del]

fun fixed :: "nat \<Rightarrow> nat \<Rightarrow> nat \<Rightarrow> nat list" where
  "fixed radix 0 n = []"
| "fixed radix (Suc k) n = fixed radix k (n div radix) @ [n mod radix]"

definition dchar :: "nat \<Rightarrow> u8" where
  "dchar d = (if d < 10 then of_nat (d + 48) else of_nat (d + 87))"

definition nat_text :: "nat \<Rightarrow> nat \<Rightarrow> u8 list" where
  "nat_text radix n = map dchar (repr radix n)"

definition int_text :: "nat \<Rightarrow> int \<Rightarrow> u8 list" where
  "int_text radix z = (if z < 0 then 45 # nat_text radix (nat (- z)) else nat_text radix (nat z))"

definition value_of :: "nat \<Rightarrow> nat list \<Rightarrow> nat" where
  "value_of radix ds = foldl (\<lambda>a d. a * radix + d) 0 ds"

lemma value_of_snoc: "value_of radix (ds @ [d]) = value_of radix ds * radix + d"
  by (simp add: value_of_def)

lemma value_of_repr: "value_of radix (repr radix n) = n"
proof (induction radix n rule: repr.induct)
  case (1 radix n)
  then show ?case by (subst repr.simps) (simp add: value_of_snoc, simp add: value_of_def)
qed

lemma length_fixed [simp]: "length (fixed radix k n) = k"
  by (induction k arbitrary: n) simp_all

lemma fixed_append:
  "fixed radix (a + b) n = fixed radix a (n div radix ^ b) @ fixed radix b n"
proof (induction b arbitrary: n)
  case (Suc b)
  have "fixed radix (a + Suc b) n = fixed radix (a + b) (n div radix) @ [n mod radix]" by simp
  also have "\<dots> = fixed radix a (n div radix div radix ^ b) @ fixed radix b (n div radix) @ [n mod radix]"
    using Suc.IH [of "n div radix"] by simp
  finally show ?case by (simp add: div_mult2_eq)
qed simp

lemma repr_fixed:
  assumes "2 \<le> radix" "n < radix ^ k" "k = 1 \<or> radix ^ (k - 1) \<le> n" "1 \<le> k"
  shows "repr radix n = fixed radix k n"
  using assms(2-4)
proof (induction k arbitrary: n)
  case (Suc k)
  show ?case
  proof (cases "k = 0")
    case True
    then show ?thesis using Suc.prems assms(1) by (subst repr.simps) simp
  next
    case False
    then obtain j where k: "k = Suc j" by (cases k) auto
    have "radix ^ k \<le> n" using Suc.prems(2) False by simp
    have "radix * 1 \<le> radix * radix ^ j" using assms(1) by (intro mult_le_mono2) simp
    also have "\<dots> \<le> n" using \<open>radix ^ k \<le> n\<close> k by simp
    finally have "radix \<le> n" by simp
    then have "repr radix n = repr radix (n div radix) @ [n mod radix]" using assms(1) by (subst repr.simps) simp
    moreover have "n div radix < radix ^ k" using Suc.prems(1) assms(1) by (simp add: div_less_iff_less_mult mult.commute)
    moreover have "radix ^ (k - 1) \<le> n div radix"
      using \<open>radix ^ k \<le> n\<close> assms(1) k by (simp add: less_eq_div_iff_mult_less_eq mult.commute)
    ultimately show ?thesis using Suc.IH [of "n div radix"] k by simp
  qed
qed simp

lemma fixed_mod: "0 < radix \<Longrightarrow> fixed radix k (n mod radix ^ k) = fixed radix k n"
proof (induction k arbitrary: n)
  case (Suc k)
  have "n mod radix ^ Suc k div radix = n div radix mod radix ^ k" using Suc.prems by (simp add: mod_mult2_eq)
  moreover have "n mod radix ^ Suc k mod radix = n mod radix" by (simp add: mod_mod_cancel)
  ultimately show ?case using Suc.IH [of "n div radix"] Suc.prems by simp
qed simp

text \<open>A number with a leading part and \<open>k\<close> low digits.\<close>

lemma repr_split:
  assumes "2 \<le> radix" "radix ^ k \<le> n"
  shows "repr radix n = repr radix (n div radix ^ k) @ fixed radix k (n mod radix ^ k)"
proof -
  have "0 < radix" using assms(1) by simp
  show ?thesis unfolding fixed_mod [OF \<open>0 < radix\<close>] using assms(2)
proof (induction k arbitrary: n)
  case (Suc k)
  have p: "1 \<le> radix ^ k" using assms(1) by simp
  then have "radix * 1 \<le> radix * radix ^ k" by (intro mult_le_mono2)
  also have "\<dots> \<le> n" using Suc.prems by simp
  finally have "radix \<le> n" by simp
  then have "repr radix n = repr radix (n div radix) @ [n mod radix]" using assms(1) by (subst repr.simps) simp
  moreover have "radix ^ k \<le> n div radix" using Suc.prems assms(1) by (simp add: less_eq_div_iff_mult_less_eq mult.commute)
  ultimately show ?case using Suc.IH [of "n div radix"] by (simp add: div_mult2_eq)
qed simp
qed

lemma repr_nonempty [simp]: "repr radix n \<noteq> []"
  by (subst repr.simps) simp

lemma repr_digits: "2 \<le> radix \<Longrightarrow> \<forall>d \<in> set (repr radix n). d < radix"
proof (induction radix n rule: repr.induct)
  case (1 radix n)
  then show ?case by (subst repr.simps) auto
qed

section \<open>The loops write the digits\<close>

lemma dchar_dec: "d < 10 \<Longrightarrow> dchar d = of_nat d + 48"
  by (simp add: dchar_def)

lemma dec_char_dchar: "unat d < 10 \<Longrightarrow> dec_char d = dchar (unat d)"
  by (simp add: dec_char_def dchar_def unsigned_ucast_eq word_of_nat_unat)

lemma digit_char_dchar: "digit_char (d :: u32) = dchar (unat d)" "digit_char (e :: u64) = dchar (unat e)"
  by (simp_all add: digit_char_def dchar_def unsigned_ucast_eq word_of_nat_unat word_less_nat_alt)

lemma repr_step: "radix \<le> n \<Longrightarrow> 2 \<le> radix \<Longrightarrow> repr radix n = repr radix (n div radix) @ [n mod radix]"
  by (subst repr.simps) simp

lemma repr_small: "n < radix \<Longrightarrow> repr radix n = [n]"
  by (subst repr.simps) simp

lemma digits_down_ok:
  fixes n radix :: "'a::len word"
  assumes radix: "2 \<le> unat radix" and f: "\<And>d. unat d < unat radix \<Longrightarrow> f d = dchar (unat d)"
    and q: "length (repr (unat radix) (unat n)) \<le> q" "q \<le> length b"
  shows "\<exists>b'. digits_down f radix b q n = Some (b', q - length (repr (unat radix) (unat n)))
    \<and> take q b' = take (q - length (repr (unat radix) (unat n))) b @ nat_text (unat radix) (unat n)
    \<and> drop q b' = drop q b \<and> length b' = length b"
  using q
proof (induction q arbitrary: b n)
  case (Suc q)
  define R N where "R = unat radix" and "N = unat n"
  define b1 where "b1 = b[q := f (n mod radix)]"
  have fd: "f (n mod radix) = dchar (N mod R)" using f [of "n mod radix"] radix by (simp add: R_def N_def unat_mod)
  have r0: "radix \<noteq> 0" using radix by auto
  have w: "wr b q (f (n mod radix)) = Some b1" using Suc.prems by (simp add: b1_def)
  have dv: "unat (n div radix) = N div R" by (simp add: R_def N_def unat_div)
  then have dz: "n div radix \<noteq> 0 \<longleftrightarrow> R \<le> N"
    using radix by (metis R_def div_eq_0_iff linorder_not_less not_numeral_le_zero unat_0 unsigned_word_eqI)
  have tb1: "take (Suc q) b1 = take q b @ [dchar (N mod R)]" "drop (Suc q) b1 = drop (Suc q) b" "length b1 = length b"
    using Suc.prems by (simp_all add: b1_def take_Suc_conv_app_nth fd)
  show ?case
  proof (cases "R \<le> N")
    case True
    have rp: "repr R N = repr R (N div R) @ [N mod R]" using repr_step True radix by (simp add: R_def)
    obtain b' where b': "digits_down f radix b1 q (n div radix) = Some (b', q - length (repr R (N div R)))"
      "take q b' = take (q - length (repr R (N div R))) b1 @ nat_text R (N div R)" "drop q b' = drop q b1" "length b' = length b1"
      using Suc.IH [of "n div radix" b1] Suc.prems rp tb1(3) unfolding dv R_def [symmetric] N_def [symmetric] by auto
    have "take (Suc q) b' = take q b' @ [b1 ! q]"
      using b'(3,4) Suc.prems tb1(3) by (metis Cons_nth_drop_Suc Suc_le_lessD nth_via_drop take_Suc_conv_app_nth)
    moreover have "b1 ! q = dchar (N mod R)" using Suc.prems by (simp add: b1_def fd)
    moreover have "take (q - length (repr R (N div R))) b1 = take (q - length (repr R (N div R))) b" by (simp add: b1_def)
    moreover have "drop (Suc q) b' = drop (Suc q) b" using b'(3) tb1(2) by (metis drop_Suc drop_drop tl_drop add_Suc plus_1_eq_Suc add.commute)
    ultimately show ?thesis
      using b'(1,2,4) tb1(3) r0 w dz True rp unfolding R_def [symmetric] N_def [symmetric]
      by (simp add: nat_text_def del: wr_Some_iff)
  next
    case False
    have rp: "repr R N = [N]" "N mod R = N" using repr_small False by simp_all
    then show ?thesis
      using tb1 r0 w dz False unfolding R_def [symmetric] N_def [symmetric]
      by (simp add: nat_text_def del: wr_Some_iff)
  qed
qed simp

lemma digits_len_ok:
  fixes n radix :: "'a::len word"
  assumes radix: "0 < unat radix" and f: "\<And>d. unat d < unat radix \<Longrightarrow> f d = dchar (unat d)"
    and l: "off + k \<le> length b"
  shows "digits_len f radix b off k n = Some (take off b @ map dchar (fixed (unat radix) k (unat n)) @ drop (off + k) b)"
  using l
proof (induction k arbitrary: b n)
  case (Suc k)
  define b1 where "b1 = b[off + k := f (n mod radix)]"
  have fd: "f (n mod radix) = dchar (unat n mod unat radix)" using f [of "n mod radix"] radix by (simp add: unat_mod)
  have r0: "radix \<noteq> 0" using radix by auto
  have w: "wr b (off + k) (f (n mod radix)) = Some b1" using Suc.prems by (simp add: b1_def)
  have "take off b1 = take off b" by (simp add: b1_def)
  moreover have "drop (off + k) b1 = dchar (unat n mod unat radix) # drop (off + Suc k) b"
    using Suc.prems by (simp add: b1_def fd drop_update_swap flip: Cons_nth_drop_Suc)
  moreover have "length b1 = length b" by (simp add: b1_def)
  ultimately show ?case using Suc.IH [of b1 "n div radix"] Suc.prems r0 w by (simp add: unat_div del: wr_Some_iff)
qed simp

section \<open>Every function writes the text of its number\<close>

text \<open>The text \<open>t\<close> stands at \<open>off\<close>, its length is returned and the rest of the buffer is as before.\<close>

definition written :: "u8 list \<Rightarrow> nat \<Rightarrow> u8 list \<Rightarrow> (u8 list \<times> nat) option \<Rightarrow> bool" where
  "written buf off t res \<longleftrightarrow> res = Some (take off buf @ t @ drop (off + length t) buf, length t)"

lemma length_repr: "2 \<le> radix \<Longrightarrow> 1 \<le> k \<Longrightarrow> n < radix ^ k \<Longrightarrow> length (repr radix n) \<le> k"
proof (induction k arbitrary: n)
  case (Suc k)
  show ?case
  proof (cases "n < radix")
    case False
    then have "k \<noteq> 0" using Suc.prems by (cases k) simp_all
    moreover have "n div radix < radix ^ k" using Suc.prems by (simp add: div_less_iff_less_mult mult.commute)
    ultimately show ?thesis using Suc.IH [of "n div radix"] Suc.prems repr_step [of radix n] False by simp
  qed (use Suc.prems in \<open>simp add: repr_small\<close>)
qed simp

lemma length_nat_text [simp]: "length (nat_text radix n) = length (repr radix n)"
  by (simp add: nat_text_def)

lemma drop_tail_eq: "take q b' = xs @ t \<Longrightarrow> length xs = q - length t \<Longrightarrow> length t \<le> q \<Longrightarrow> q = length b' \<Longrightarrow> drop (q - length t) b' = t"
  by simp

lemma local_buffer:
  assumes "digits_down f radix (replicate q 0) q n = Some (b', q - length (repr R N))
    \<and> take q b' = take (q - length (repr R N)) (replicate q 0) @ nat_text R N
    \<and> drop q b' = drop q (replicate q 0) \<and> length b' = length (replicate q (0 :: u8))"
    and "length (repr R N) \<le> q" "off + length (repr R N) \<le> length buf"
  shows "written buf off (nat_text R N) (do {
       (buf1, q1) \<leftarrow> digits_down f radix (replicate q 0) q n;
       b \<leftarrow> blit buf off (drop q1 buf1);
       Some (b, q - q1) })"
proof -
  have "drop (q - length (nat_text R N)) b' = nat_text R N"
    by (rule drop_tail_eq) (use assms in auto)
  then show ?thesis using assms by (simp add: written_def blit_def)
qed

lemma u32toa_ok:
  assumes "off + length (nat_text 10 (unat n)) \<le> length buf"
  shows "written buf off (nat_text 10 (unat n)) (u32toa buf off n)"
proof -
  have "unat n < 10 ^ 10" using unsigned_less [of n, where 'a = nat] by simp
  then have l: "length (repr 10 (unat n)) \<le> 10" by (intro length_repr) simp_all
  obtain b' where "digits_down dec_char 10 (replicate 10 0) 10 n = Some (b', 10 - length (repr 10 (unat n)))
    \<and> take 10 b' = take (10 - length (repr 10 (unat n))) (replicate 10 0) @ nat_text 10 (unat n)
    \<and> drop 10 b' = drop 10 (replicate 10 0) \<and> length b' = length (replicate 10 (0 :: u8))"
    using digits_down_ok [of "10 :: u32" dec_char n 10 "replicate 10 0"] dec_char_dchar l by auto
  from local_buffer [OF this l, of off buf] show ?thesis using assms by (simp add: u32toa_def)
qed

text \<open>A minus sign in front.\<close>

lemma written_minus:
  assumes "\<And>b. length b = length buf \<Longrightarrow> written b (off + 1) t (g b)" "off + 1 + length t \<le> length buf"
  shows "written buf off (45 # t) (do { b \<leftarrow> wr buf off 45; (b1, l) \<leftarrow> g b; Some (b1, l + 1) })"
proof -
  have "off < length buf" using assms(2) by simp
  then have w: "wr buf off 45 = Some (buf[off := 45])" by simp
  have "take (Suc off) (buf[off := 45]) = take off buf @ [45]" using \<open>off < length buf\<close> by (simp add: take_Suc_conv_app_nth)
  moreover have "drop (Suc (off + length t)) (buf[off := 45]) = drop (Suc (off + length t)) buf" by simp
  ultimately show ?thesis using assms(1) [of "buf[off := 45]"] w
    by (simp add: written_def del: wr_Some_iff)
qed

lemma sint_signs:
  fixes n :: "'a::len word"
  shows "0 \<le> sint n \<Longrightarrow> nat (sint n) = unat n" "sint n < 0 \<Longrightarrow> nat (- sint n) = unat (- n)"
proof -
  define P :: int where "P = 2 ^ LENGTH('a)"
  have P: "0 \<le> uint n" "uint n < P" by (simp_all add: P_def)
  have t: "take_bit LENGTH('a) (uint n) = uint n" using P by (simp add: P_def take_bit_int_eq_self)
  have b: "bit (uint n) (LENGTH('a) - 1) = bit n (LENGTH('a) - 1)" by (simp add: bit_uint_iff)
  have "sint n = take_bit LENGTH('a) (uint n) - 2 ^ LENGTH('a) * of_bool (bit (uint n) (LENGTH('a) - 1))"
  proof -
    have L: "Suc (LENGTH('a) - Suc 0) = LENGTH('a)" by simp
    show ?thesis unfolding sint_uint signed_take_bit_eq_take_bit_minus L One_nat_def ..
  qed
  then have s: "sint n = uint n - P * of_bool (bit n (LENGTH('a) - 1))" unfolding t P_def b .
  then show "0 \<le> sint n \<Longrightarrow> nat (sint n) = unat n"
    unfolding unat_eq_nat_uint using P by (cases "bit n (LENGTH('a) - 1)") simp_all
  assume neg: "sint n < 0"
  then have e: "sint n = uint n - P" using s P by (cases "bit n (LENGTH('a) - 1)") simp_all
  have "uint n \<noteq> 0" using neg by (auto simp: unsigned_eq_0_iff)
  have "uint (- n) = (- uint n) mod P" by (simp add: P_def uint_word_arith_bintrs take_bit_eq_mod)
  also have "\<dots> = P - uint n" using P \<open>uint n \<noteq> 0\<close> by (simp add: zmod_zminus1_eq_if)
  finally show "nat (- sint n) = unat (- n)" unfolding unat_eq_nat_uint e by simp
qed

lemma i32toa_ok:
  assumes "off + length (int_text 10 (sint n)) \<le> length buf"
  shows "written buf off (int_text 10 (sint n)) (i32toa buf off n)"
proof (cases "0 \<le> sint n")
  case True
  then show ?thesis using assms u32toa_ok [of off n buf] sint_signs(1) [of n] by (simp add: i32toa_def int_text_def)
next
  case False
  then have t: "int_text 10 (sint n) = 45 # nat_text 10 (unat (- n))" using sint_signs(2) [of n] by (simp add: int_text_def)
  show ?thesis unfolding t i32toa_def if_not_P [OF False]
    by (rule written_minus, rule u32toa_ok) (use assms t in simp_all)
qed

text \<open>Digits of a fixed length behind a text that has been written.\<close>

lemma written_digits:
  assumes "written buf off s res" "off + length s + k \<le> length buf"
    "0 < unat radix" "\<And>d. unat d < unat radix \<Longrightarrow> f d = dchar (unat d)"
  shows "written buf off (s @ map dchar (fixed (unat radix) k (unat n)))
    (do { (b, l) \<leftarrow> res; b1 \<leftarrow> digits_len f radix b (off + l) k n; Some (b1, l + k) })"
proof -
  define b where "b = take off buf @ s @ drop (off + length s) buf"
  have lb: "length b = length buf" using assms(2) by (simp add: b_def)
  have "digits_len f radix b (off + length s) k n
    = Some (take (off + length s) b @ map dchar (fixed (unat radix) k (unat n)) @ drop (off + length s + k) b)"
    by (rule digits_len_ok [OF assms(3,4)]) (use assms(2) lb in simp_all)
  moreover have "take (off + length s) b = take off buf @ s" using assms(2) by (simp add: b_def)
  moreover have "drop (off + length s + k) b = drop (off + length s + k) buf" using assms(2) by (simp add: b_def add_ac)
  ultimately show ?thesis using assms(1) by (simp add: written_def b_def [symmetric] add_ac)
qed

lemma dec_text_10: "unat d < unat (10 :: u32) \<Longrightarrow> dec_char (d :: u32) = dchar (unat d)"
  by (simp add: dec_char_dchar)

lemma u64toa_ok:
  assumes "off + length (nat_text 10 (unat n)) \<le> length buf"
  shows "written buf off (nat_text 10 (unat n)) (u64toa buf off n)"
proof -
  define N M where "N = unat n" and "M = (1000000000 :: nat)"
  have N: "N < 2 ^ 64" using unsigned_less [of n, where 'a = nat] by (simp add: N_def)
  have M: "M = 10 ^ 9" by (simp add: M_def)
  note wd = written_digits [where f = dec_char and radix = "10 :: u32" and k = 9, OF _ _ _ dec_text_10]
  show ?thesis
  proof (cases "n < 0x100000000")
    case True
    then have "unat (ucast n :: u32) = N" by (simp add: N_def unsigned_ucast_eq word_less_nat_alt take_bit_nat_eq_self)
    then show ?thesis using u32toa_ok [of off "ucast n" buf] True assms by (simp add: u64toa_def N_def)
  next
    case False
    then have NM: "2 ^ 32 \<le> N" by (simp add: N_def word_less_nat_alt)
    then have tn: "nat_text 10 N = nat_text 10 (N div M) @ map dchar (fixed 10 9 (N mod M))"
      using repr_split [of 10 9 N] by (simp add: nat_text_def M)
    then have ln: "length (repr 10 N) = length (repr 10 (N div M)) + 9"
      by (metis length_append length_fixed length_map length_nat_text)
    have d: "unat (n div 1000000000) = N div M" "unat (n mod 1000000000) = N mod M" by (simp_all add: N_def M_def unat_div unat_mod)
    have r: "unat (ucast (n mod 1000000000) :: u32) = N mod M"
      using d(2) by (simp add: unsigned_ucast_eq take_bit_nat_eq_self M_def)
    show ?thesis
    proof (cases "0x100000000 \<le> n div 1000000000")
      case n1: False
      then have lt: "N div M < 2 ^ 32" using d by (simp add: word_le_nat_alt)
      then have c: "unat (ucast (n div 1000000000) :: u32) = N div M" using d(1) by (simp add: unsigned_ucast_eq take_bit_nat_eq_self)
      have w: "written buf off (nat_text 10 (N div M)) (u32toa buf off (ucast (n div 1000000000)))"
        using u32toa_ok [of off "ucast (n div 1000000000)" buf] assms c ln by (simp add: N_def)
      show ?thesis
        using wd [OF w, of "ucast (n mod 1000000000)"] assms False n1 tn r ln
        by (simp add: u64toa_def u32toa_len_def N_def [symmetric])
    next
      case n1: True
      define N1 N2 where "N1 = N div M" and "N2 = N1 div M"
      have b: "2 ^ 32 \<le> N1" "N1 < 20 * M" using n1 d N by (simp_all add: N1_def word_le_nat_alt M_def div_less_iff_less_mult)
      then have N2: "0 < N2" "N2 < 20" by (simp_all add: N2_def M_def div_less_iff_less_mult div_greater_zero_iff)
      have t1: "nat_text 10 N1 = nat_text 10 N2 @ map dchar (fixed 10 9 (N1 mod M))"
        using repr_split [of 10 9 N1] b by (simp add: nat_text_def M N2_def)
      have d2: "unat (n div 1000000000 div 1000000000) = N2" "unat (n div 1000000000 mod 1000000000) = N1 mod M"
        using d by (simp_all add: N1_def N2_def M_def unat_div unat_mod)
      have c2: "unat (ucast (n div 1000000000 div 1000000000) :: u32) = N2"
        "unat (ucast (n div 1000000000 mod 1000000000) :: u32) = N1 mod M"
        using d2 N2 by (simp_all add: unsigned_ucast_eq take_bit_nat_eq_self M_def)
      have l1: "length (repr 10 N1) = length (repr 10 N2) + 9"
        using arg_cong [OF t1, of length] by simp
      define D :: "u32 \<Rightarrow> u8" where "D = (\<lambda>d. ucast d + 48)"
      define m where "m = (ucast (n div 1000000000 div 1000000000) :: u32)"
      have um: "unat m = N2" using c2(1) by (simp add: m_def)
      have D: "D d = dchar (unat d)" if "unat d < 10" for d
        using dec_char_dchar [of d] that by (simp add: D_def dec_char_def)
      have room: "off + length (nat_text 10 N2) + 18 \<le> length buf" using assms ln l1 by (simp add: N_def N1_def)
      have lead: "\<exists>b q m'. (if 10 \<le> m then do { b \<leftarrow> wr buf off (D (m div 10)); Some (b, off + 1, m mod 10) } else Some (buf, off, m)) = Some (b, q, m')
          \<and> wr b q (D m') = Some (take off buf @ nat_text 10 N2 @ drop (off + length (nat_text 10 N2)) buf) \<and> q + 1 = off + length (nat_text 10 N2)"
      proof (cases "N2 < 10")
        case True
        then have "nat_text 10 N2 = [dchar N2]" "\<not> 10 \<le> m" by (simp_all add: nat_text_def repr_small word_le_nat_alt um)
        then show ?thesis using True room D [of m] by (simp add: um upd_conv_take_nth_drop)
      next
        case False
        then have "repr 10 N2 = [N2 div 10, N2 mod 10]" "10 \<le> m" using N2 by (simp_all add: repr_step repr_small word_le_nat_alt um)
        moreover have "N2 div 10 < 10" using N2 by simp
        moreover have "D (m div 10) = dchar (N2 div 10)" "D (m mod 10) = dchar (N2 mod 10)"
          using D [of "m div 10"] D [of "m mod 10"] \<open>N2 div 10 < 10\<close> by (simp_all add: um unat_div unat_mod)
        moreover have "wr buf off x = Some (take off buf @ x # drop (Suc off) buf)" for x
          using room by (simp add: wr_def upd_conv_take_nth_drop)
        moreover have "wr (take off buf @ x # drop (Suc off) buf) (off + 1) y = Some (take off buf @ x # y # drop (off + 2) buf)" for x y
        proof -
          have "drop (Suc off) buf = buf ! Suc off # drop (off + 2) buf" using room calculation(1) by (simp add: Cons_nth_drop_Suc nat_text_def)
          then show ?thesis using room by (simp add: wr_def list_update_append min_def)
        qed
        ultimately show ?thesis by (simp add: nat_text_def del: wr_Some_iff)
      qed
      then obtain b q m' where bq: "(if 10 \<le> m then do { b \<leftarrow> wr buf off (D (m div 10)); Some (b, off + 1, m mod 10) } else Some (buf, off, m)) = Some (b, q, m')"
          "wr b q (D m') = Some (take off buf @ nat_text 10 N2 @ drop (off + length (nat_text 10 N2)) buf)" "q + 1 = off + length (nat_text 10 N2)"
        by blast
      define L where "L = length (nat_text 10 N2)"
      have w0: "written buf off (nat_text 10 N2) (Some (take off buf @ nat_text 10 N2 @ drop (off + L) buf, L))"
        by (simp add: written_def L_def)
      have "written buf off (nat_text 10 N1) (do { (b, l) \<leftarrow> Some (take off buf @ nat_text 10 N2 @ drop (off + L) buf, L);
          b1 \<leftarrow> digits_len dec_char (10 :: u32) b (off + l) 9 (ucast (n div 1000000000 mod 1000000000)); Some (b1, l + 9) })"
        using wd [OF w0, of "ucast (n div 1000000000 mod 1000000000)"] room unfolding t1 c2(2) by simp
      then obtain b2 where b2: "digits_len dec_char (10 :: u32) (take off buf @ nat_text 10 N2 @ drop (off + L) buf) (off + L) 9
          (ucast (n div 1000000000 mod 1000000000)) = Some b2" "written buf off (nat_text 10 N1) (Some (b2, L + 9))"
        by (auto simp: written_def bind_eq_Some_conv)
      have "written buf off (nat_text 10 N) (do { b1 \<leftarrow> digits_len dec_char (10 :: u32) b2 (off + (L + 9)) 9 (ucast (n mod 1000000000)); Some (b1, L + 9 + 9) })"
        using wd [OF b2(2), of "ucast (n mod 1000000000)"] room l1 unfolding tn r N1_def [symmetric] by simp
      moreover have "u64toa buf off n = do {
          (b, q, m') \<leftarrow> (if 10 \<le> m then do { b \<leftarrow> wr buf off (D (m div 10)); Some (b, off + 1, m mod 10) } else Some (buf, off, m));
          b1 \<leftarrow> wr b q (D m');
          b2 \<leftarrow> digits_len dec_char (10 :: u32) b1 (q + 1) 9 (ucast (n div 1000000000 mod 1000000000));
          b3 \<leftarrow> digits_len dec_char (10 :: u32) b2 (q + 1 + 9) 9 (ucast (n mod 1000000000));
          Some (b3, q + 1 + 9 + 9 - off) }"
        using False n1 by (simp only: u64toa_def u32toa_len_def m_def D_def Let_def if_False if_True)
      moreover have "q + 1 = off + L" "off + L + 9 = off + (L + 9)" "off + (L + 9) + 9 - off = L + 9 + 9"
        using bq(3) by (simp_all add: L_def)
      ultimately show ?thesis unfolding N_def [symmetric]
        by (simp only: bq(1) bind.bind_lunit prod.case bq(2) [folded L_def] b2(1))
    qed
  qed
qed

lemma i64toa_ok:
  assumes "off + length (int_text 10 (sint n)) \<le> length buf"
  shows "written buf off (int_text 10 (sint n)) (i64toa buf off n)"
proof (cases "0 \<le> sint n")
  case True
  then show ?thesis using assms u64toa_ok [of off n buf] sint_signs(1) [of n] by (simp add: i64toa_def int_text_def)
next
  case False
  then have t: "int_text 10 (sint n) = 45 # nat_text 10 (unat (- n))" using sint_signs(2) [of n] by (simp add: int_text_def)
  show ?thesis unfolding t i64toa_def if_not_P [OF False]
    by (rule written_minus, rule u64toa_ok) (use assms t in simp_all)
qed

section \<open>Powers of two as radix\<close>

lemma bin_loop_ok:
  assumes "off + k \<le> length b" "bits < 64"
  shows "u64toa_bin_loop b off bits k n = Some (take off b @ map dchar (fixed (2 ^ bits) k (unat n)) @ drop (off + k) b)"
  using assms(1)
proof (induction k arbitrary: b n)
  case (Suc k)
  define b1 where "b1 = b[off + k := digit_char (n AND (push_bit bits 1 - 1))]"
  have "push_bit bits 1 - 1 = (mask bits :: u64)" by (simp add: mask_eq_decr_exp push_bit_eq_mult)
  then have "unat (n AND (push_bit bits 1 - 1)) = unat n mod 2 ^ bits" by (simp only: unat_and_mask)
  then have fd: "digit_char (n AND (push_bit bits 1 - 1)) = dchar (unat n mod 2 ^ bits)" by (simp only: digit_char_dchar)
  have w: "wr b (off + k) (digit_char (n AND (push_bit bits 1 - 1))) = Some b1" using Suc.prems by (simp add: b1_def)
  have "take off b1 = take off b" by (simp add: b1_def)
  moreover have "drop (off + k) b1 = dchar (unat n mod 2 ^ bits) # drop (off + Suc k) b"
    using Suc.prems by (simp only: b1_def fd) (simp add: drop_update_swap flip: Cons_nth_drop_Suc)
  moreover have "length b1 = length b" by (simp add: b1_def)
  moreover have "unat (drop_bit bits n) = unat n div 2 ^ bits" by (rule unat_shr)
  ultimately show ?case using Suc.IH [of b1 "drop_bit bits n"] Suc.prems w by (simp del: wr_Some_iff)
qed simp

lemma radix_cases:
  assumes "2 \<le> unat (radix :: u32)" "unat radix \<le> 36" "radix AND (radix - 1) = 0"
  shows "\<exists>b. 1 \<le> b \<and> b \<le> 5 \<and> clz32 radix = Some (31 - b) \<and> unat radix = 2 ^ b"
proof -
  have "clz32 radix \<noteq> None" using assms(1) by (auto simp: clz32_def)
  then obtain z where z: "clz32 radix = Some z" by blast
  note sp = clz32_spec [OF z]
  have b: "2 ^ (31 - z) \<le> uint radix" "uint radix < 2 ^ Suc (31 - z)"
    by (rule top_bit; use sp in \<open>auto simp: bit_uint_iff\<close>)+
  have u: "uint radix = int (unat radix)" by simp
  have "uint radix = 2 ^ (31 - z)"
  proof (rule ccontr)
    assume "uint radix \<noteq> 2 ^ (31 - z)"
    then have g: "2 ^ (31 - z) \<le> uint radix - 1" "uint radix - 1 < 2 * 2 ^ (31 - z)" using b by simp_all
    have "(0 :: int) < 2 ^ (31 - z)" by simp
    then have "0 \<le> uint radix - 1" "uint radix - 1 < 2 ^ 32" using g uint_lt2p [of radix] by simp_all
    then have "uint (radix - 1) = uint radix - 1" by (simp add: uint_word_ariths)
    moreover have "(uint radix - 1) div 2 ^ (31 - z) = 1"
      by (rule int_div_pos_eq [of _ _ _ "uint radix - 1 - 2 ^ (31 - z)"]) (use g in linarith)+
    ultimately have "bit (uint (radix - 1)) (31 - z)" by (simp add: bit_iff_odd)
    then have "bit (radix AND (radix - 1)) (31 - z)" using sp by (auto simp: bit_and_iff bit_uint_iff)
    then show False by (simp add: assms(3))
  qed
  then have p: "unat radix = 2 ^ (31 - z)" using u by (metis nat_int nat_power_eq nat_numeral zero_le_numeral)
  have "31 - z \<le> 5"
  proof (rule ccontr)
    assume "\<not> 31 - z \<le> 5"
    then have "(2 :: nat) ^ 6 \<le> 2 ^ (31 - z)" by (intro power_increasing) simp_all
    then show False using p assms(2) by simp
  qed
  moreover have "31 - z \<noteq> 0" using p assms(1) by auto
  ultimately show ?thesis using sp z p by (intro exI [of _ "31 - z"]) auto
qed

lemma clz64_bounds:
  assumes "clz64 n = Some z"
  shows "z < 64" "2 ^ (63 - z) \<le> unat n" "unat n < 2 ^ (64 - z)"
proof -
  note sp = clz64_spec [OF assms]
  have "2 ^ (63 - z) \<le> uint n" "uint n < 2 ^ Suc (63 - z)"
    by (rule top_bit; use sp in \<open>auto simp: bit_uint_iff\<close>)+
  moreover have "Suc (63 - z) = 64 - z" using conjunct1 [OF sp] by linarith
  ultimately have "2 ^ (63 - z) \<le> int (unat n)" "int (unat n) < 2 ^ (64 - z)" by simp_all
  then show "2 ^ (63 - z) \<le> unat n" "unat n < 2 ^ (64 - z)" by (metis of_nat_le_iff of_nat_less_iff of_nat_numeral of_nat_power)+
  show "z < 64" using sp by simp
qed

lemma bin_digits:
  assumes "1 \<le> b" "1 \<le> m" "2 ^ (m - 1) \<le> n" "n < 2 ^ m"
  shows "repr (2 ^ b) n = fixed (2 ^ b) ((m + b - 1) div b) n"
proof -
  define k where "k = (m + b - 1) div b"
  have k: "1 \<le> k" "m \<le> b * k" "b * (k - 1) \<le> m - 1"
  proof -
    have d: "b * k + (m + b - 1) mod b = m + b - 1" by (simp add: k_def)
    moreover have "(m + b - 1) mod b < b" using assms(1) by simp
    ultimately show "m \<le> b * k" by linarith
    then show "1 \<le> k" using assms(2) by (cases k) simp_all
    have "b * k \<le> m + b - 1" using d by linarith
    then show "b * (k - 1) \<le> m - 1" by (simp add: right_diff_distrib')
  qed
  have "n < (2 ^ b) ^ k" using assms(4) power_increasing [OF k(2), of "2 :: nat"] by (simp add: power_mult)
  moreover have "(2 ^ b) ^ (k - 1) \<le> n" using assms(3) power_increasing [OF k(3), of "2 :: nat"] by (simp add: power_mult)
  moreover have "2 \<le> (2 :: nat) ^ b" using power_increasing [OF assms(1), of "2 :: nat"] by simp
  ultimately show ?thesis using repr_fixed [of "2 ^ b" n k] k(1) by (simp add: k_def)
qed

lemma u64toa_radix_ok:
  assumes r: "2 \<le> unat radix" "unat radix \<le> 36" and l: "off + length (nat_text (unat radix) (unat n)) \<le> length buf"
  shows "written buf off (nat_text (unat radix) (unat n)) (u64toa_radix buf off n radix)"
proof -
  consider "radix = 10" | "radix \<noteq> 10" "radix AND (radix - 1) = 0" | "radix \<noteq> 10" "radix AND (radix - 1) \<noteq> 0" by blast
  then show ?thesis
  proof cases
    case 1
    then show ?thesis using u64toa_ok l by (simp add: u64toa_radix_def)
  next
    case 2
    obtain b where b: "1 \<le> b" "b \<le> 5" "clz32 radix = Some (31 - b)" "unat radix = 2 ^ b"
      using radix_cases [OF r 2(2)] by blast
    have bits: "31 - (31 - b) = b" using b(2) by simp
    define k where "k = length (repr (2 ^ b) (unat n))"
    have "(if n = 0 then Some 1 else if b = 0 then None else do { z1 \<leftarrow> clz64 n; Some ((64 - z1 + b - 1) div b) }) = Some k
        \<and> repr (2 ^ b) (unat n) = fixed (2 ^ b) k (unat n)"
    proof (cases "n = 0")
      case True
      then show ?thesis by (simp add: k_def repr_small)
    next
      case False
      then obtain z where z: "clz64 n = Some z" by (auto simp: clz64_def)
      note zb = clz64_bounds [OF z]
      have "repr (2 ^ b) (unat n) = fixed (2 ^ b) ((64 - z + b - 1) div b) (unat n)"
        using bin_digits [of b "64 - z" "unat n"] b(1) zb by simp
      then show ?thesis using False b(1) z by (simp add: k_def)
    qed
    then have "u64toa_radix buf off n radix = do { b \<leftarrow> u64toa_bin_loop buf off b k n; Some (b, k) }"
      and rp: "repr (2 ^ b) (unat n) = fixed (2 ^ b) k (unat n)"
      using 2 by (simp_all add: u64toa_radix_def b(3) bits u64toa_bin_len_def)
    then show ?thesis using bin_loop_ok [of off k buf b n] l b(2) unfolding b(4) by (simp add: written_def nat_text_def k_def [symmetric] rp)
  next
    case 3
    define R where "R = unat radix"
    have u: "unat (ucast radix :: u64) = R" using r by (simp add: R_def unsigned_ucast_eq take_bit_nat_eq_self)
    have "R \<noteq> 2"
    proof
      assume "R = 2"
      then have "radix = 2" by (intro unsigned_word_eqI [where 'a = nat]) (simp add: R_def)
      then show False using 3(2) by simp
    qed
    then have R3: "3 \<le> R" using r by (simp add: R_def)
    have "unat n < 2 ^ 64" using unsigned_less [of n, where 'a = nat] by simp
    also have "\<dots> \<le> (3 :: nat) ^ 41" by simp
    also have "\<dots> \<le> R ^ 41" using R3 by (intro power_mono) simp_all
    finally have ll: "length (repr R (unat n)) \<le> 41" using R3 by (intro length_repr) simp_all
    obtain b' where "digits_down digit_char (ucast radix) (replicate 41 0) 41 n = Some (b', 41 - length (repr R (unat n)))
      \<and> take 41 b' = take (41 - length (repr R (unat n))) (replicate 41 0) @ nat_text R (unat n)
      \<and> drop 41 b' = drop 41 (replicate 41 0) \<and> length b' = length (replicate 41 (0 :: u8))"
      using digits_down_ok [of "ucast radix" digit_char n 41 "replicate 41 0"] digit_char_dchar(2) ll R3 unfolding u by auto
    from local_buffer [OF this ll, of off buf] show ?thesis using l 3 by (simp add: u64toa_radix_def R_def)
  qed
qed

lemma i64toa_radix_ok:
  assumes r: "2 \<le> unat radix" "unat radix \<le> 36" and l: "off + length (int_text (unat radix) (sint n)) \<le> length buf"
  shows "written buf off (int_text (unat radix) (sint n)) (i64toa_radix buf off n radix)"
proof (cases "0 \<le> sint n")
  case True
  then show ?thesis using l u64toa_radix_ok [OF r] sint_signs(1) [of n] by (simp add: i64toa_radix_def int_text_def)
next
  case False
  then have t: "int_text (unat radix) (sint n) = 45 # nat_text (unat radix) (unat (- n))"
    using sint_signs(2) [of n] by (simp add: int_text_def)
  show ?thesis unfolding t i64toa_radix_def if_not_P [OF False]
    by (rule written_minus, rule u64toa_radix_ok) (use l r t in simp_all)
qed

text \<open>65 bytes are always enough.\<close>

lemma length_int_text:
  assumes "2 \<le> radix"
  shows "length (int_text radix (sint (n :: u64))) \<le> 65"
proof -
  have "unat m < radix ^ 64" for m :: u64
  proof -
    have "unat m < 2 ^ 64" using unsigned_less [of m, where 'a = nat] by simp
    also have "\<dots> \<le> radix ^ 64" using assms by (intro power_mono) simp_all
    finally show ?thesis .
  qed
  then have "length (repr radix (unat m)) \<le> 64" for m :: u64 using assms by (intro length_repr) simp_all
  from this [of n] this [of "- n"] show ?thesis using sint_signs [of n] by (cases "sint n < 0") (simp_all add: int_text_def)
qed

end
