(* ===== verification/BigIntText.thy ===== *)
theory BigIntText
  imports BigIntPower IntText Engine
begin

text \<open>
  The conversions of BigInts from and to text of \<open>quickjs/quickjs.c\<close>. A C string is the list
  of its bytes before the terminator, and the byte read at the terminator is 0. The text that is
  printed is built backwards in a buffer of the size that was computed for it: a byte too many
  gives None.
\<close>

section \<open>Parsing\<close>

definition to_digit :: "u8 \<Rightarrow> nat" where
  "to_digit c =
     (if 48 \<le> c \<and> c \<le> 57 then unat c - 48
      else if 65 \<le> c \<and> c \<le> 90 then unat c - 65 + 10
      else if 97 \<le> c \<and> c \<le> 122 then unat c - 97 + 10
      else 36)"

definition js_pow_dec :: "limb list" where
  "js_pow_dec =
    [1, 10, 100, 1000, 10000, 100000, 1000000, 10000000, 100000000, 1000000000,
     10000000000, 100000000000, 1000000000000, 10000000000000, 100000000000000,
     1000000000000000, 10000000000000000, 100000000000000000, 1000000000000000000,
     10000000000000000000]"

definition JS_LIMB_DIGITS :: nat where "JS_LIMB_DIGITS = 19"

text \<open>At most \<open>k\<close> digits: their value after \<open>v\<close>, their number and the rest of the string.\<close>

fun limb_digits :: "nat \<Rightarrow> u8 list \<Rightarrow> limb \<Rightarrow> limb \<times> nat \<times> u8 list" where
  "limb_digits 0 p v = (v, 0, p)"
| "limb_digits (Suc k) [] v = (v, 0, [])"
| "limb_digits (Suc k) (c # p) v =
     (if 10 \<le> to_digit c then (v, 0, c # p)
      else let (v', i, p') = limb_digits k p (v * 10 + of_nat (to_digit c)) in (v', Suc i, p'))"

lemma limb_digits_length: "limb_digits k p v = (v', i, p') \<Longrightarrow> length p' + i = length p"
  by (induction k p v arbitrary: v' i rule: limb_digits.induct) (auto split: prod.splits if_splits)

text \<open>The loop over the limbs of a decimal number.\<close>

function dec_loop :: "limb list \<Rightarrow> nat \<Rightarrow> u8 list \<Rightarrow> (limb list \<times> nat) option" where
  "dec_loop tab len p =
     (let (v, i, p') = limb_digits JS_LIMB_DIGITS p 0 in
      if i = 0 then Some (tab, len)
      else do {
        t0 \<leftarrow> rd tab 0;
        if len = 1 \<and> t0 = 0 then do { tab1 \<leftarrow> wr tab 0 v; dec_loop tab1 len p' }
        else do {
          s \<leftarrow> slice tab 0 len;
          b \<leftarrow> rd js_pow_dec i;
          let (s', h) = mp_mul1 s b v;
          tab1 \<leftarrow> blit tab 0 s';
          if h \<noteq> 0 then do { tab2 \<leftarrow> wr tab1 len h; dec_loop tab2 (len + 1) p' } else dec_loop tab1 len p'
        }
      })"
  by pat_completeness auto
termination
  by (relation "measure (\<lambda>(tab, len, p). length p)") (auto dest!: limb_digits_length [OF sym])

declare dec_loop.simps [simp del]

text \<open>The loop over the digits of a number whose radix is a power of two, from the lowest one.\<close>

fun bin_loop :: "limb list \<Rightarrow> u8 list \<Rightarrow> nat \<Rightarrow> nat \<Rightarrow> nat \<Rightarrow> limb list option" where
  "bin_loop tab [] radix log2_radix i = Some tab"
| "bin_loop tab (c # cs) radix log2_radix i =
     (let bit_pos = i * log2_radix; shift = bit_pos mod JS_LIMB_BITS; pos = bit_pos div JS_LIMB_BITS;
          d = of_nat (to_digit c) in
      if radix \<le> to_digit c then None
      else do {
        t \<leftarrow> rd tab pos;
        tab1 \<leftarrow> wr tab pos (t OR push_bit shift d);
        tab2 \<leftarrow> (if JS_LIMB_BITS < shift + log2_radix
                then do { u \<leftarrow> rd tab1 (pos + 1); wr tab1 (pos + 1) (u OR drop_bit (JS_LIMB_BITS - shift) d) }
                else Some tab1);
        bin_loop tab2 cs radix log2_radix (i + 1)
      })"

definition from_string_limbs :: "nat \<Rightarrow> nat \<Rightarrow> nat \<Rightarrow> nat" where
  "from_string_limbs radix log2_radix n_digits =
     max 1 ((if radix = 10 then (n_digits * 27 + 7) div 8 else n_digits * log2_radix) div JS_LIMB_BITS + 1)"

definition js_bigint_from_string :: "(nat \<Rightarrow> alloc) \<Rightarrow> u8 list \<Rightarrow> u32 \<Rightarrow> JSBigInt res" where
  "js_bigint_from_string m str radix =
     (let is_neg = (str \<noteq> [] \<and> hd str = 45);
          p = dropWhile (\<lambda>c. c = 48) (if is_neg then tl str else str);
          n_digits = length p in
      if n_digits > JS_BIGINT_MAX_SIZE * JS_LIMB_BITS then Some (Inl Too_Large_To_Allocate)
      else do {
        z \<leftarrow> clz32 (radix - 1);
        let log2_radix = 32 - z;
        let n_limbs = from_string_limbs (unat radix) log2_radix n_digits;
        andthen (js_bigint_new (m 0) n_limbs) (\<lambda>r.
          andthen
            (if radix = 10 then do {
               r1 \<leftarrow> wr r 0 0;
               (tab, len) \<leftarrow> dec_loop r1 1 p;
               top \<leftarrow> rd tab (len - 1);
               (tab', len') \<leftarrow> (if drop_bit (JS_LIMB_BITS - 1) top \<noteq> 0 then do { t \<leftarrow> wr tab len 0; Some (t, len + 1) }
                               else Some (tab, len));
               js_bigint_normalize (take len' tab')
             }
             else do {
               tab \<leftarrow> bin_loop (replicate (length r) 0) (rev p) (unat radix) log2_radix 0;
               js_bigint_normalize tab
             })
            (\<lambda>r. if is_neg then js_bigint_neg (\<lambda>k. m (k + 1)) r else Some (Inr r)))
      })"

section \<open>Printing\<close>

definition digits :: "u8 list" where
  "digits = map (\<lambda>c. of_char c) ''0123456789abcdefghijklmnopqrstuvwxyz''"

text \<open>\<open>*--q = c\<close> in a buffer of \<open>cap\<close> bytes.\<close>

definition push :: "nat \<Rightarrow> u8 \<Rightarrow> u8 list \<Rightarrow> u8 list option" where
  "push cap c q = (if length q < cap then Some (c # q) else None)"

partial_function (option) js_u64toa :: "nat \<Rightarrow> u8 list \<Rightarrow> u64 \<Rightarrow> u32 \<Rightarrow> u8 list option" where
  "js_u64toa cap q n base =
     (if base = 0 then None
      else do {
        c \<leftarrow> (if base = 10 then Some (48 + ucast (n mod 10)) else rd digits (unat (n mod ucast base)));
        q1 \<leftarrow> push cap c q;
        if n div ucast base \<noteq> 0 then js_u64toa cap q1 (n div ucast base) base else Some q1
      })"

fun limb_to_a :: "nat \<Rightarrow> u8 list \<Rightarrow> limb \<Rightarrow> u32 \<Rightarrow> nat \<Rightarrow> u8 list option" where
  "limb_to_a cap q n radix 0 = Some q"
| "limb_to_a cap q n radix (Suc len) =
     (if radix = 0 then None
      else do {
        c \<leftarrow> (if radix = 10 then Some (ucast (n mod 10) + 48) else rd digits (unat (n mod ucast radix)));
        q1 \<leftarrow> push cap c q;
        limb_to_a cap q1 (n div ucast radix) radix len
      })"

definition digits_per_limb_table :: "nat list" where
  "digits_per_limb_table =
     [64, 40, 32, 27, 24, 22, 21, 20, 19, 18, 17, 17, 16, 16, 16, 15, 15, 15, 14, 14, 14, 14,
      13, 13, 13, 13, 13, 13, 13, 12, 12, 12, 12, 12, 12]"

definition radix_base_table :: "limb list" where
  "radix_base_table =
    [0x0000000000000000, 0xa8b8b452291fe821, 0x0000000000000000, 0x6765c793fa10079d,
     0x41c21cb8e1000000, 0x3642798750226111, 0x8000000000000000, 0xa8b8b452291fe821,
     0x8ac7230489e80000, 0x4d28cb56c33fa539, 0x1eca170c00000000, 0x780c7372621bd74d,
     0x1e39a5057d810000, 0x5b27ac993df97701, 0x0000000000000000, 0x27b95e997e21d9f1,
     0x5da0e1e53c5c8000, 0xd2ae3299c1c4aedb, 0x16bcc41e90000000, 0x2d04b7fdd9c0ef49,
     0x5658597bcaa24000, 0xa0e2073737609371, 0x0c29e98000000000, 0x14adf4b7320334b9,
     0x226ed36478bfa000, 0x383d9170b85ff80b, 0x5a3c23e39c000000, 0x8e65137388122bcd,
     0xdd41bb36d259e000, 0x0aee5720ee830681, 0x1000000000000000, 0x172588ad4f5f0981,
     0x211e44f7d02c1000, 0x2ee56725f06e5c71, 0x41c21cb8e1000000]"

definition js_limb_safe_clz :: "limb \<Rightarrow> nat option" where
  "js_limb_safe_clz a = (if a = 0 then Some JS_LIMB_BITS else clz64 a)"

text \<open>
  The loop for a radix that is not a power of two, which divides by the power of the radix that
  fits a limb. The interrupt counter pays for the length of the number, and every round polls.
\<close>

datatype to_string_error = Conversion_Failed bigint_error | Interrupted

partial_function (option) to_string_loop ::
    "('o js_runtime \<Rightarrow> int \<times> 'o js_runtime) \<Rightarrow> addr \<Rightarrow> u32 \<Rightarrow> limb \<Rightarrow> nat \<Rightarrow> nat \<Rightarrow> limb list \<Rightarrow> nat \<Rightarrow> u8 list \<Rightarrow> 'o js_runtime
      \<Rightarrow> ((to_string_error + u8 list) \<times> 'o js_runtime) option" where
  "to_string_loop poll ctx radix radix_base dpl cap tab len q rt =
     (let rt1 = rt\<lparr>interrupt_counter := (interrupt_counter rt)(ctx := interrupt_counter rt ctx - int (len div 16))\<rparr>;
          (stop, rt2) = poll rt1 in
      if stop \<noteq> 0 then Some (Inl Interrupted, rt2)
      else do {
        len1 \<leftarrow> trim_len tab len;
        v \<leftarrow> rd tab 0;
        if len1 = 1 \<and> v < radix_base then
          (if v \<noteq> 0 then do { q1 \<leftarrow> js_u64toa cap q v radix; Some (Inr q1, rt2) } else Some (Inr q, rt2))
        else if radix_base = 0 then None
        else do {
          s \<leftarrow> slice tab 0 len1;
          let (s', r) = mp_div1 s radix_base 0;
          tab1 \<leftarrow> blit tab 0 s';
          q1 \<leftarrow> limb_to_a cap q r radix dpl;
          to_string_loop poll ctx radix radix_base dpl cap tab1 len1 q1 rt2
        }
      })"

text \<open>The digits of a radix that is a power of two, from the lowest one.\<close>

fun bin_digits_loop :: "nat \<Rightarrow> JSBigInt \<Rightarrow> u32 \<Rightarrow> nat \<Rightarrow> nat \<Rightarrow> nat \<Rightarrow> u8 list \<Rightarrow> u8 list option" where
  "bin_digits_loop cap r radix log2_radix i 0 q = Some q"
| "bin_digits_loop cap r radix log2_radix i (Suc n) q =
     (let bit_pos = i * log2_radix; pos = bit_pos div JS_LIMB_BITS; shift = bit_pos mod JS_LIMB_BITS in
      do {
        t \<leftarrow> rd r pos;
        let c = (ucast (drop_bit shift t) :: u32);
        c1 \<leftarrow> (if JS_LIMB_BITS < shift + log2_radix \<and> pos + 1 < length r
              then do { u \<leftarrow> rd r (pos + 1); Some (c OR ucast (push_bit (JS_LIMB_BITS - shift) u)) }
              else Some c);
        d \<leftarrow> rd digits (unat (c1 AND (radix - 1)));
        q1 \<leftarrow> push cap d q;
        bin_digits_loop cap r radix log2_radix (i + 1) n q1
      })"

text \<open>The digits of \<open>r\<close>, which is not negative, and the sign.\<close>

definition to_string_digits ::
    "('o js_runtime \<Rightarrow> int \<times> 'o js_runtime) \<Rightarrow> addr \<Rightarrow> alloc \<Rightarrow> JSBigInt \<Rightarrow> u32 \<Rightarrow> bool \<Rightarrow> 'o js_runtime
      \<Rightarrow> ((to_string_error + u8 list) \<times> 'o js_runtime) option" where
  "to_string_digits poll ctx al r radix is_neg rt =
     do {
       z \<leftarrow> clz32 radix;
       let log2_radix = 31 - z;
       zt \<leftarrow> js_limb_safe_clz (last r);
       let n_bits = length r * JS_LIMB_BITS - zt;
       if log2_radix = 0 then None else do {
       let n_digits = (n_bits + log2_radix - 1) div log2_radix;
       let cap = n_digits + of_bool is_neg;
       if al = None then Some (Inl (Conversion_Failed Out_Of_Memory), rt)
       else do {
         (res, rt1) \<leftarrow>
           (if radix AND (radix - 1) \<noteq> 0 then do {
              radix_base \<leftarrow> rd radix_base_table (unat radix - 2);
              dpl \<leftarrow> rd digits_per_limb_table (unat radix - 2);
              to_string_loop poll ctx radix radix_base dpl cap r (length r) [] rt
            }
            else do { q \<leftarrow> bin_digits_loop cap r radix log2_radix 0 n_digits []; Some (Inr q, rt) });
         case res of
           Inl e \<Rightarrow> Some (Inl e, rt1)
         | Inr q \<Rightarrow> do { q1 \<leftarrow> (if is_neg then push cap 45 q else Some q); Some (Inr q1, rt1) }
       }}
     }"

text \<open>
  \<open>js_bigint_to_string1\<close> for a BigInt on the heap: the bytes that the string is made of.
\<close>

definition big_to_string ::
    "('o js_runtime \<Rightarrow> int \<times> 'o js_runtime) \<Rightarrow> addr \<Rightarrow> (nat \<Rightarrow> alloc) \<Rightarrow> JSBigInt \<Rightarrow> u32 \<Rightarrow> 'o js_runtime
      \<Rightarrow> ((to_string_error + u8 list) \<times> 'o js_runtime) option" where
  "big_to_string poll ctx m r radix rt =
     (if length r = 1 \<and> r ! 0 = 0 then Some (Inr [48], rt)
      else
        let is_binary_radix = (radix AND (radix - 1) = 0); is_neg = (js_bigint_sign r \<noteq> 0) in
        do {
          tmp \<leftarrow> (if is_neg then js_bigint_neg m r
                 else if \<not> is_binary_radix
                 then andthen (js_bigint_new (m 0) (length r)) (\<lambda>t. do { t1 \<leftarrow> blit t 0 r; Some (Inr t1) })
                 else Some (Inr r));
          case tmp of Inl e \<Rightarrow> Some (Inl (Conversion_Failed e), rt)
          | Inr t \<Rightarrow> to_string_digits poll ctx (m 2) t radix is_neg rt
        })"

text \<open>\<open>js_bigint_to_string1\<close> for both kinds of values.\<close>

datatype bigint_val = Short_Big_Int u64 | Big_Int JSBigInt

definition js_bigint_to_string1 ::
    "('o js_runtime \<Rightarrow> int \<times> 'o js_runtime) \<Rightarrow> addr \<Rightarrow> (nat \<Rightarrow> alloc) \<Rightarrow> bigint_val \<Rightarrow> u32 \<Rightarrow> 'o js_runtime
      \<Rightarrow> ((to_string_error + u8 list) \<times> 'o js_runtime) option" where
  "js_bigint_to_string1 poll ctx m val radix rt =
     (case val of
        Short_Big_Int v \<Rightarrow> do { (buf, len) \<leftarrow> i64toa_radix (replicate 66 0) 0 v radix; Some (Inr (take len buf), rt) }
      | Big_Int r \<Rightarrow> big_to_string poll ctx m r radix rt)"

end
