(* ===== verification/BigIntParse.thy ===== *)
theory BigIntParse
  imports BigIntText
begin

text \<open>The parser of BigInts reads the value of its digits.\<close>

section \<open>Values of digit strings\<close>

definition digits_of :: "nat \<Rightarrow> u8 list \<Rightarrow> bool" where
  "digits_of radix p \<longleftrightarrow> (\<forall>c \<in> set p. to_digit c < radix)"

definition text_value :: "nat \<Rightarrow> u8 list \<Rightarrow> nat" where
  "text_value radix p = value_of radix (map to_digit p)"

lemma value_of_Cons: "value_of radix (d # ds) = d * radix ^ length ds + value_of radix ds"
proof (induction ds rule: rev_induct)
  case (snoc x xs)
  then show ?case unfolding append_Cons [symmetric] value_of_snoc by (simp add: algebra_simps)
qed (simp add: value_of_def)

lemma text_value_Nil [simp]: "text_value radix [] = 0"
  by (simp add: text_value_def value_of_def)

lemma text_value_Cons: "text_value radix (c # p) = to_digit c * radix ^ length p + text_value radix p"
  by (simp add: text_value_def value_of_Cons)

lemma text_value_append: "text_value radix (p @ q) = text_value radix p * radix ^ length q + text_value radix q"
  by (induction p) (simp_all add: text_value_Cons power_add algebra_simps)

lemma text_value_bound:
  assumes "digits_of radix p"
  shows "text_value radix p < radix ^ length p \<or> p = []"
  using assms
proof (induction p)
  case (Cons c p)
  have c: "to_digit c < radix" and p: "digits_of radix p" using Cons.prems by (simp_all add: digits_of_def)
  have b: "text_value radix p < radix ^ length p" using Cons.IH [OF p] by (cases p) auto
  have "(to_digit c + 1) * radix ^ length p \<le> radix * radix ^ length p" using c by (intro mult_right_mono) simp_all
  then show ?case using b by (simp add: text_value_Cons)
qed simp

lemma text_value_less: "digits_of radix p \<Longrightarrow> text_value radix p < radix ^ length p"
  using text_value_bound [of radix p] by auto

section \<open>Decimal numbers\<close>

lemma uint_digit: "d < 36 \<Longrightarrow> uint (of_nat d :: limb) = int d"
  by (simp add: unsigned_of_nat take_bit_nat_eq_self)

lemma limb_digits_value:
  assumes "digits_of 10 p" "k + j \<le> 19" "uint v < 10 ^ j"
  shows "\<exists>v'. limb_digits k p v = (v', min k (length p), drop k p)
    \<and> uint v' = uint v * 10 ^ min k (length p) + int (text_value 10 (take k p))"
  using assms
proof (induction k p v arbitrary: j rule: limb_digits.induct)
  case (3 k c p v)
  define d where "d = to_digit c"
  have c: "d < 10" and p: "digits_of 10 p" using 3(2) by (simp_all add: digits_of_def d_def)
  have "(uint v + 1) * 10 \<le> 10 ^ j * 10" using 3(4) by (intro mult_right_mono) simp_all
  then have b: "uint v * 10 + int d < 10 ^ Suc j" using c by simp
  also have "(10 :: int) ^ Suc j \<le> 10 ^ 19" using 3(3) by (intro power_increasing) simp_all
  finally have "uint v * 10 + int d < W" by (simp add: W_def)
  then have u: "uint (v * 10 + of_nat d) = uint v * 10 + int d"
    using c uint_limb(1) [of v] by (simp add: uint_word_ariths uint_digit W_def)
  obtain v' where v': "limb_digits k p (v * 10 + of_nat d) = (v', min k (length p), drop k p)"
    "uint v' = (uint v * 10 + int d) * 10 ^ min k (length p) + int (text_value 10 (take k p))"
  proof -
    have "\<exists>v'. limb_digits k p (v * 10 + of_nat (to_digit c)) = (v', min k (length p), drop k p)
      \<and> uint v' = uint (v * 10 + of_nat (to_digit c)) * 10 ^ min k (length p) + int (text_value 10 (take k p))"
      by (rule 3(1) [OF _ p, of "Suc j"]) (use c 3(3) b in \<open>simp_all only: u [unfolded d_def] d_def not_le add_Suc_shift\<close>)
    then show ?thesis using that unfolding u [unfolded d_def] d_def by blast
  qed
  have "uint v' = uint v * 10 ^ min (Suc k) (length (c # p)) + int (text_value 10 (take (Suc k) (c # p)))"
    using v'(2) by (simp add: text_value_Cons d_def algebra_simps) (simp add: min.commute)
  then show ?case using v'(1) c by (simp add: d_def Let_def)
qed simp_all

lemma js_pow_dec_value: "i \<le> 19 \<Longrightarrow> \<exists>b. rd js_pow_dec i = Some b \<and> uint b = 10 ^ i"
proof -
  assume "i \<le> 19"
  then have "i \<in> set [0..<20]" by simp
  moreover have "\<forall>i \<in> set [0..<20]. \<exists>b. rd js_pow_dec i = Some b \<and> uint b = 10 ^ i"
    by (simp add: upt_rec js_pow_dec_def)
  ultimately show ?thesis by blast
qed

text \<open>Ten to the number of digits fits the bits that are reserved for them.\<close>

lemma decimal_bits: "(10 :: int) ^ n \<le> 2 ^ ((n * 27 + 7) div 8)"
proof -
  define b where "b = (n * 27 + 7) div 8"
  have "n * 27 \<le> 8 * b" by (simp add: b_def)
  then have "(2 :: int) ^ (n * 27) \<le> 2 ^ (8 * b)" by (intro power_increasing) simp_all
  moreover have "((10 :: int) ^ 8) ^ n \<le> (2 ^ 27) ^ n" by (intro power_mono) simp_all
  ultimately have "(10 ^ n) ^ 8 \<le> (2 ^ b :: int) ^ 8"
    unfolding power_mult [symmetric] by (simp only: mult.commute [of _ 8] mult.commute [of _ 27])
  then show ?thesis unfolding b_def [symmetric] by (rule power_le_imp_le_base [of _ 7, simplified]) simp
qed

lemma power_two_W: "(2 :: int) ^ (64 * n) = W ^ n"
  by (simp add: W_def power_mult)

lemma length_from_value:
  assumes "W ^ len \<le> V" "V < 2 ^ nb"
  shows "len < nb div 64 + 1"
proof (rule ccontr)
  assume "\<not> len < nb div 64 + 1"
  then have "nb div 64 + 1 \<le> len" by simp
  then have "nb \<le> 64 * len" by linarith
  then have "(2 :: int) ^ nb \<le> 2 ^ (64 * len)" by (intro power_increasing) simp_all
  then show False using assms by (simp add: power_two_W)
qed

lemma top_limb_value: "1 \<le> len \<Longrightarrow> len \<le> length tab \<Longrightarrow> tab ! (len - 1) \<noteq> 0 \<Longrightarrow> W ^ (len - 1) \<le> lv (take len tab)"
proof -
  assume l: "1 \<le> len" "len \<le> length tab" "tab ! (len - 1) \<noteq> 0"
  then have ne: "take len tab \<noteq> []" and ln: "length (take len tab) = len" by auto
  have "last (take len tab) = tab ! (len - 1)" unfolding last_conv_nth [OF ne] ln using l(1) by simp
  then have "1 \<le> uint (last (take len tab))" using l(3) uint_limb(1) [of "tab ! (len - 1)"] unfolding word_uint_eq_iff uint_0_eq by linarith
  then have "W ^ (len - 1) * 1 \<le> W ^ (len - 1) * uint (last (take len tab))" by (intro mult_left_mono) simp_all
  then show ?thesis using last_bounds(1) [OF ne] unfolding ln by linarith
qed

lemma dec_loop_value:
  assumes "digits_of 10 p" "1 \<le> len" "len \<le> length tab" "int (length tab) = int (nb div 64) + 1"
    and "lv (take len tab) = V" "V < 10 ^ c" "(10 :: int) ^ (c + length p) \<le> 2 ^ nb"
  shows "\<exists>tab' len'. dec_loop tab len p = Some (tab', len') \<and> length tab' = length tab \<and> 1 \<le> len' \<and> len' \<le> length tab
    \<and> lv (take len' tab') = V * 10 ^ length p + int (text_value 10 p)"
  using assms
proof (induction "length p" arbitrary: tab len p V c rule: less_induct)
  case less
  note A = less.prems
  define i where "i = min 19 (length p)"
  obtain v where v: "limb_digits 19 p 0 = (v, i, drop 19 p)" "uint v = int (text_value 10 (take 19 p))"
    using limb_digits_value [OF A(1), of 19 0 0] by (auto simp: i_def)
  show ?case
  proof (cases "i = 0")
    case True
    then have "p = []" by (simp add: i_def min_def split: if_splits)
    then show ?thesis using A True v(1) by (subst dec_loop.simps) (simp add: JS_LIMB_DIGITS_def)
  next
    case False
    define p' where "p' = drop 19 p"
    have p': "length p' < length p" "digits_of 10 p'" "length p = i + length p'" "length (take 19 p) = i"
      using False A(1) by (auto simp: i_def p'_def digits_of_def dest: in_set_dropD)
    have tv: "text_value 10 p = text_value 10 (take 19 p) * 10 ^ length p' + text_value 10 p'"
      using text_value_append [of 10 "take 19 p" "drop 19 p"] by (simp add: p'_def)
    have vb: "uint v < 10 ^ i"
    proof -
      have "digits_of 10 (take 19 p)" using A(1) by (auto simp: digits_of_def dest: in_set_takeD)
      from text_value_less [OF this] have "int (text_value 10 (take 19 p)) < int (10 ^ i)" unfolding p'(4) by (simp only: of_nat_less_iff)
      then show ?thesis by (simp add: v(2))
    qed
    define V' where "V' = V * 10 ^ i + uint v"
    have "(V + 1) * 10 ^ i \<le> 10 ^ c * 10 ^ i" using A(6) by (intro mult_right_mono) simp_all
    then have V': "V' < 10 ^ (c + i)" using vb by (simp add: V'_def power_add distrib_right)
    have bits: "(10 :: int) ^ (c + i + length p') \<le> 2 ^ nb" using A(7) p'(3) by (simp add: add.assoc)
    have "(10 :: int) ^ (c + i) \<le> 10 ^ (c + i + length p')" by (intro power_increasing) simp_all
    then have V2: "V' < 2 ^ nb" using V' bits by linarith
    have res: "V' * 10 ^ length p' + int (text_value 10 p') = V * 10 ^ length p + int (text_value 10 p)"
      by (simp add: V'_def tv p'(3) v(2) power_add algebra_simps)
    have step: "\<exists>tab' len'. dec_loop tab1 len1 p' = Some (tab', len') \<and> length tab' = length tab \<and> 1 \<le> len' \<and> len' \<le> length tab
      \<and> lv (take len' tab') = V * 10 ^ length p + int (text_value 10 p)"
      if "1 \<le> len1" "len1 \<le> length tab" "length tab1 = length tab" "lv (take len1 tab1) = V'" for tab1 len1
      using less.hyps [OF p'(1,2) that(1), of tab1 V' "c + i"] that A(4) V' bits unfolding res by simp
    have t0: "rd tab 0 = Some (tab ! 0)" using A(2,3) by (cases tab) (simp_all add: rd_def)
    have unf: "dec_loop tab len p = do {
        t0 \<leftarrow> rd tab 0;
        if len = 1 \<and> t0 = 0 then do { tab1 \<leftarrow> wr tab 0 v; dec_loop tab1 len p' }
        else do {
          s \<leftarrow> slice tab 0 len;
          b \<leftarrow> rd js_pow_dec i;
          let (s', h) = mp_mul1 s b v;
          tab1 \<leftarrow> blit tab 0 s';
          if h \<noteq> 0 then do { tab2 \<leftarrow> wr tab1 len h; dec_loop tab2 (len + 1) p' } else dec_loop tab1 len p'
        }
      }"
      unfolding p'_def using False by (subst dec_loop.simps) (simp add: JS_LIMB_DIGITS_def v del: rd_Some_iff wr_Some_iff)
    show ?thesis
    proof (cases "len = 1 \<and> tab ! 0 = 0")
      case True
      then have "V = 0" using A(3,5) by (cases tab) auto
      then have "lv (take len (tab[0 := v])) = V'" using True A(3) by (cases tab) (simp_all add: V'_def)
      moreover have "tab \<noteq> []" using A(2,3) by (cases tab) auto
      ultimately show ?thesis using step [of len "tab[0 := v]"] A unfolding unf t0
        by (simp add: True wr_def del: wr_Some_iff rd_Some_iff)
    next
      case b0: False
      have sl: "slice tab 0 len = Some (take len tab)" using A(3) by (simp add: slice_def)
      obtain b where b: "rd js_pow_dec i = Some b" "uint b = 10 ^ i" using js_pow_dec_value [of i] by (auto simp: i_def)
      have tl: "length (take len tab) = len" using A(3) by simp
      obtain s' h where m: "mp_mul1 (take len tab) b v = (s', h)" "length s' = len" "lv s' + W ^ len * uint h = V'"
        using mp_mul1_value [of "take len tab" b v] A(5) b(2) tl by (auto simp: V'_def)
      define tab1 where "tab1 = s' @ drop len tab"
      have b1: "blit tab 0 s' = Some tab1" "length tab1 = length tab" "take len tab1 = s'"
        using m(2) A(3) by (simp_all add: blit_def tab1_def)
      have unf2: "dec_loop tab len p = (if h \<noteq> 0 then do { tab2 \<leftarrow> wr tab1 len h; dec_loop tab2 (len + 1) p' } else dec_loop tab1 len p')"
        using b0 unfolding unf t0 bind.bind_lunit by (simp only: if_False sl b(1) m(1) b1(1) bind.bind_lunit Let_def prod.case)
      show ?thesis
      proof (cases "h = 0")
        case True
        then show ?thesis using step [of len tab1] A(2,3) b1 m(3) unfolding unf2 by simp
      next
        case h: False
        have "1 \<le> uint h" using h uint_limb(1) [of h] unfolding word_uint_eq_iff uint_0_eq by linarith
        then have "W ^ len * 1 \<le> W ^ len * uint h" by (intro mult_left_mono) simp_all
        then have "W ^ len \<le> V'" using m(3) lv_bounds(1) [of s'] by linarith
        then have "len < nb div 64 + 1" using V2 by (rule length_from_value)
        then have "len < length tab" using A(4) by linarith
        moreover from this have "take (len + 1) (tab1[len := h]) = s' @ [h]"
          using b1 by (simp add: take_Suc_conv_app_nth)
        ultimately show ?thesis using step [of "len + 1" "tab1[len := h]"] b1 h m unfolding unf2
          by (simp add: wr_def lv_append del: wr_Some_iff)
      qed
    qed
  qed
qed

text \<open>A limb is put on top when the highest bit would be read as a sign.\<close>

lemma normalize_nonneg:
  assumes "1 \<le> len" "len \<le> length tab" "\<not> neg (take len tab)"
  shows "\<exists>r. js_bigint_normalize (take len tab) = Some (Inr r) \<and> bigint_ok r \<and> sv r = lv (take len tab) \<and> length r \<le> len"
proof -
  define T where "T = take len tab"
  have T: "1 \<le> length T" "length T = len" "\<not> neg T" using assms by (simp_all add: T_def)
  from normalize_len_ok [OF T(1) order_refl]
  obtain l' where l': "normalize_len T (length T) = Some l'" "l' \<le> length T" "sv (take l' T) = sv T" "bigint_ok (take l' T)"
    by auto
  moreover have "sv T = lv T" using T(3) by (simp add: sv_def)
  ultimately show ?thesis unfolding T_def [symmetric] using T(2) by (auto simp: js_bigint_normalize_def js_bigint_normalize1_def)
qed

lemma decimal_limbs:
  assumes "digits_of 10 p" "length tab = from_string_limbs 10 lg (length p)"
  shows "\<exists>r. do {
       r1 \<leftarrow> wr tab 0 0;
       (tab, len) \<leftarrow> dec_loop r1 1 p;
       top \<leftarrow> rd tab (len - 1);
       (tab', len') \<leftarrow> (if drop_bit (JS_LIMB_BITS - 1) top \<noteq> 0 then do { t \<leftarrow> wr tab len 0; Some (t, len + 1) }
                       else Some (tab, len));
       js_bigint_normalize (take len' tab')
     } = Some (Inr r) \<and> bigint_ok r \<and> sv r = int (text_value 10 p) \<and> length r \<le> length tab"
proof -
  define nb where "nb = (length p * 27 + 7) div 8"
  have lt: "length tab = nb div 64 + 1" using assms(2) by (simp add: from_string_limbs_def nb_def JS_LIMB_BITS_def)
  then have w: "wr tab 0 0 = Some (tab[0 := 0])" by simp
  have "take 1 (tab[0 := 0]) = [0]" using lt by (cases tab) simp_all
  then obtain tab1 len where d: "dec_loop (tab[0 := 0]) 1 p = Some (tab1, len)" "length tab1 = length tab" "1 \<le> len" "len \<le> length tab"
    "lv (take len tab1) = int (text_value 10 p)"
    using dec_loop_value [of p 1 "tab[0 := 0]" nb 0 0] assms(1) lt decimal_bits [of "length p"] by (auto simp: nb_def)
  define t where "t = tab1 ! (len - 1)"
  have rt: "rd tab1 (len - 1) = Some t" using d(2-4) by (simp add: t_def)
  have ne: "take len tab1 \<noteq> []" "length (take len tab1) = len" using d(2-4) by auto
  have la: "last (take len tab1) = t" unfolding last_conv_nth [OF ne(1)] ne(2) t_def using d(3) by simp
  have ng: "neg (take len tab1) \<longleftrightarrow> drop_bit (JS_LIMB_BITS - 1) t \<noteq> 0"
    by (simp add: neg_def la JS_LIMB_BITS_def drop_bit_63)
  show ?thesis
  proof (cases "neg (take len tab1)")
    case False
    then have "drop_bit (JS_LIMB_BITS - 1) t = 0" using ng by simp
    then have nz: "\<not> drop_bit (JS_LIMB_BITS - 1) t \<noteq> 0" by simp
    show ?thesis unfolding w bind.bind_lunit d(1) prod.case rt if_not_P [OF nz]
      using normalize_nonneg [of len tab1] d(2-5) False by auto
  next
    case True
    have "2 * lv (take len tab1) \<ge> W ^ len" using neg_value [OF ne(1)] True unfolding ne(2) by simp
    moreover have "lv (take len tab1) < 2 ^ nb"
    proof -
      have "int (text_value 10 p) < int (10 ^ length p)" using text_value_less [OF assms(1)] by (simp only: of_nat_less_iff)
      then have "int (text_value 10 p) < 10 ^ length p" by simp
      then show ?thesis using decimal_bits [of "length p"] unfolding d(5) nb_def by linarith
    qed
    ultimately have "(2 :: int) ^ (64 * len) < 2 * 2 ^ nb" by (simp add: power_two_W)
    then have "(2 :: int) ^ (64 * len) < 2 ^ Suc nb" by simp
    then have "64 * len < Suc nb" by (rule power_less_imp_less_exp [rotated]) simp
    then have room: "len < length tab" using lt by linarith
    define tab2 where "tab2 = tab1[len := 0]"
    have w2: "wr tab1 len 0 = Some tab2" using room d(2) by (simp add: tab2_def)
    have "take (len + 1) tab2 = take len tab1 @ [0]" using room d(2) by (simp add: tab2_def take_Suc_conv_app_nth)
    then have v2: "lv (take (len + 1) tab2) = lv (take len tab1)" "\<not> neg (take (len + 1) tab2)"
      by (simp_all add: lv_append neg_def W_def)
    have nz: "drop_bit (JS_LIMB_BITS - 1) t \<noteq> 0" using ng True by simp
    have "length tab2 = length tab" using d(2) by (simp add: tab2_def)
    then show ?thesis unfolding w bind.bind_lunit d(1) prod.case rt if_P [OF nz] w2
      using normalize_nonneg [of "len + 1" tab2] d(5) v2 room by auto
  qed
qed

section \<open>Numbers in a radix that is a power of two\<close>

lemma bit_lv: "bit (lv xs) i \<longleftrightarrow> i < 64 * length xs \<and> bit (xs ! (i div 64)) (i mod 64)"
proof (induction xs arbitrary: i)
  case (Cons x xs)
  show ?case using Cons.IH [of "i - 64"] uint_limb [of x]
    by (auto simp: bit_add_high bit_uint_iff nth_Cons' le_div_geq le_mod_geq not_less)
qed simp

text \<open>The digit \<open>d\<close> put at a bit position above everything that is set.\<close>

lemma put_digit:
  assumes V: "lv tab = V" "V < 2 ^ bp" and d: "d < 2 ^ lg" "1 \<le> lg" "lg \<le> 5" and bp: "bp + lg \<le> 64 * length tab"
  defines "shift \<equiv> bp mod 64" and "pos \<equiv> bp div 64"
  shows "\<exists>tab2. do {
        t \<leftarrow> rd tab pos;
        tab1 \<leftarrow> wr tab pos (t OR push_bit shift (of_nat d));
        (if JS_LIMB_BITS < shift + lg
                then do { u \<leftarrow> rd tab1 (pos + 1); wr tab1 (pos + 1) (u OR drop_bit (JS_LIMB_BITS - shift) (of_nat d)) }
                else Some tab1) } = Some tab2 \<and> length tab2 = length tab \<and> lv tab2 = V + int d * 2 ^ bp"
proof -
  define D :: limb where "D = of_nat d"
  have "d < 2 ^ 5" using d(1,3) by (meson less_le_trans one_le_numeral power_increasing)
  then have uD: "uint D = int d" by (simp add: D_def uint_digit)
  have Dlg: "i < lg" if "bit D i" for i
  proof -
    have "take_bit lg (int d) = int d" using d(1) by (simp add: take_bit_int_eq_self)
    moreover have "bit (int d) i" using that uD by (metis bit_uint_iff bit_imp_le_length)
    ultimately have "bit (take_bit lg (int d)) i" by simp
    then show ?thesis by (simp only: bit_take_bit_iff)
  qed
  have low: "i < bp" if "bit V i" for i
  proof -
    have "0 \<le> V" using V(1) lv_bounds(1) [of tab] by simp
    then have "take_bit bp V = V" using V(2) by (simp add: take_bit_int_eq_self)
    then have "bit (take_bit bp V) i" using that by simp
    then show ?thesis by (simp only: bit_take_bit_iff)
  qed
  have b: "bp = 64 * pos + shift" "shift < 64" by (simp_all add: shift_def pos_def)
  have pl: "pos < length tab" using bp d(2) b by linarith
  define tab1 where "tab1 = tab[pos := tab ! pos OR push_bit shift D]"
  define tab2 where "tab2 = (if 64 < shift + lg then tab1[pos + 1 := tab1 ! (pos + 1) OR drop_bit (64 - shift) D] else tab1)"
  have pl1: "pos + 1 < length tab" if "64 < shift + lg" using that bp b by linarith
  have bits: "bit (lv tab2) i \<longleftrightarrow> bit V i \<or> bp \<le> i \<and> bit (int d) (i - bp)" for i
  proof -
    define p s where "p = i div 64" and "s = i mod 64"
    have i: "i = 64 * p + s" "s < 64" by (simp_all add: p_def s_def)
    have "length tab2 = length tab" by (simp add: tab2_def tab1_def)
    then have l2: "bit (lv tab2) i \<longleftrightarrow> i < 64 * length tab \<and> bit (tab2 ! p) s" by (simp add: bit_lv p_def s_def)
    have v: "bit V i \<longleftrightarrow> i < 64 * length tab \<and> bit (tab ! p) s" unfolding V(1) [symmetric] bit_lv p_def s_def ..
    have dd: "bit (int d) j \<longleftrightarrow> bit D j" for j using uD by (metis bit_uint_iff bit_imp_le_length)
    consider "p = pos" | "p = pos + 1" "64 < shift + lg" | "p = pos + 1" "\<not> 64 < shift + lg" | "p \<noteq> pos" "p \<noteq> pos + 1" by blast
    then show ?thesis
    proof cases
      case 1
      then have "tab2 ! p = tab ! pos OR push_bit shift D" using pl by (simp add: tab2_def tab1_def)
      moreover have "i < 64 * length tab" using i 1 pl by linarith
      moreover have "i - bp = s - shift" "bp \<le> i \<longleftrightarrow> shift \<le> s" using i b 1 by linarith+
      ultimately show ?thesis using v l2 1 i(2) unfolding dd by (auto simp: bit_or_iff bit_push_bit_iff)
    next
      case 2
      then have "tab2 ! p = tab ! p OR drop_bit (64 - shift) D" using pl1 by (simp add: tab2_def tab1_def)
      moreover have "i < 64 * length tab" using i 2 pl1 by linarith
      moreover have "i - bp = 64 - shift + s" "bp \<le> i" using i b 2 by linarith+
      ultimately show ?thesis using v l2 unfolding dd by (auto simp: bit_or_iff bit_drop_bit_eq)
    next
      case 3
      then have "tab2 ! p = tab ! p" by (simp add: tab2_def tab1_def)
      moreover have "lg \<le> i - bp" using i b 3 by linarith
      ultimately show ?thesis using v l2 Dlg [of "i - bp"] unfolding dd by auto
    next
      case 4
      then have "tab2 ! p = tab ! p" by (simp add: tab2_def tab1_def)
      moreover have "\<not> (bp \<le> i \<and> bit D (i - bp))"
      proof
        assume h: "bp \<le> i \<and> bit D (i - bp)"
        then have "i - bp < lg" using Dlg by blast
        then show False using h i b 4 d(3) by linarith
      qed
      ultimately show ?thesis using v l2 unfolding dd by auto
    qed
  qed
  have "V AND push_bit bp (int d) = 0" by (rule bit_eqI) (auto simp: bit_and_iff bit_push_bit_iff dest: low)
  then have "V + push_bit bp (int d) = V OR push_bit bp (int d)" by (rule disjunctive_add_eq_or)
  also have "\<dots> = lv tab2" by (rule bit_eqI) (auto simp: bits bit_or_iff bit_push_bit_iff)
  finally have "lv tab2 = V + int d * 2 ^ bp" by (simp add: push_bit_eq_mult)
  moreover have "length tab1 = length tab" "length tab2 = length tab" by (simp_all add: tab2_def tab1_def)
  ultimately show ?thesis using pl pl1 unfolding D_def [symmetric] JS_LIMB_BITS_def
    by (auto simp: rd_def wr_def tab1_def [symmetric] tab2_def)
qed

lemma bin_loop_value:
  assumes "digits_of (2 ^ lg) cs" "1 \<le> lg" "lg \<le> 5" "(i + length cs) * lg \<le> 64 * length tab" "lv tab = V" "V < 2 ^ (i * lg)"
  shows "\<exists>tab'. bin_loop tab cs (2 ^ lg) lg i = Some tab' \<and> length tab' = length tab
    \<and> lv tab' = V + int (text_value (2 ^ lg) (rev cs)) * 2 ^ (i * lg)"
  using assms
proof (induction cs arbitrary: tab V i)
  case (Cons c cs)
  define d where "d = to_digit c"
  have d: "d < 2 ^ lg" and cs: "digits_of (2 ^ lg) cs" using Cons.prems(1) by (simp_all add: digits_of_def d_def)
  have room: "i * lg + lg \<le> 64 * length tab"
  proof -
    have "(i + 1) * lg \<le> (i + length (c # cs)) * lg" by (intro mult_right_mono) simp_all
    then have "(i + 1) * lg \<le> 64 * length tab" using Cons.prems(4) by (rule le_trans)
    then show ?thesis by (simp add: add.commute)
  qed
  obtain tab2 where t2: "do {
        t \<leftarrow> rd tab (i * lg div 64);
        tab1 \<leftarrow> wr tab (i * lg div 64) (t OR push_bit (i * lg mod 64) (of_nat d));
        (if JS_LIMB_BITS < i * lg mod 64 + lg
                then do { u \<leftarrow> rd tab1 (i * lg div 64 + 1); wr tab1 (i * lg div 64 + 1) (u OR drop_bit (JS_LIMB_BITS - i * lg mod 64) (of_nat d)) }
                else Some tab1) } = Some tab2" "length tab2 = length tab" "lv tab2 = V + int d * 2 ^ (i * lg)"
    using put_digit [OF Cons.prems(5,6) d Cons.prems(2,3) room] by blast
  have "V + int d * 2 ^ (i * lg) < 2 ^ ((i + 1) * lg)"
  proof -
    have "int d + 1 \<le> 2 ^ lg" using d by (metis add.commute int_ops(4) of_nat_le_iff of_nat_numeral of_nat_power Suc_leI)
    then have "(int d + 1) * 2 ^ (i * lg) \<le> 2 ^ lg * 2 ^ (i * lg)" by (intro mult_right_mono) simp_all
    then show ?thesis using Cons.prems(6) by (simp add: power_add distrib_right)
  qed
  then obtain tab' where t': "bin_loop tab2 cs (2 ^ lg) lg (i + 1) = Some tab'" "length tab' = length tab"
    "lv tab' = lv tab2 + int (text_value (2 ^ lg) (rev cs)) * 2 ^ ((i + 1) * lg)"
    using Cons.IH [OF cs Cons.prems(2,3), of "i + 1" tab2 "lv tab2"] Cons.prems(4) t2(2,3) by auto
  have "bin_loop tab (c # cs) (2 ^ lg) lg i = bin_loop tab2 cs (2 ^ lg) lg (i + 1)"
    using d arg_cong [OF t2(1) [unfolded d_def], of "\<lambda>x. Option.bind x (\<lambda>tab2. bin_loop tab2 cs (2 ^ lg) lg (i + 1))"]
    by (simp add: d_def Let_def JS_LIMB_BITS_def del: wr_Some_iff rd_Some_iff)
  moreover have "lv tab' = V + int (text_value (2 ^ lg) (rev (c # cs))) * 2 ^ (i * lg)"
    unfolding t'(3) t2(3) by (simp add: text_value_append text_value_Cons d_def power_add algebra_simps)
  ultimately show ?case using t'(1,2) by simp
qed simp

lemma binary_limbs:
  assumes "digits_of (2 ^ lg) p" "1 \<le> lg" "lg \<le> 5" "2 ^ lg \<noteq> (10 :: nat)" "n = from_string_limbs (2 ^ lg) lg (length p)"
  shows "\<exists>r. do { tab \<leftarrow> bin_loop (replicate n 0) (rev p) (2 ^ lg) lg 0; js_bigint_normalize tab }
     = Some (Inr r) \<and> bigint_ok r \<and> sv r = int (text_value (2 ^ lg) p) \<and> length r \<le> n"
proof -
  have n: "n = length p * lg div 64 + 1" using assms(4,5) by (simp add: from_string_limbs_def JS_LIMB_BITS_def)
  then have room: "length p * lg < 64 * n" by linarith
  have "digits_of (2 ^ lg) (rev p)" using assms(1) by (simp add: digits_of_def)
  then obtain tab where t: "bin_loop (replicate n 0) (rev p) (2 ^ lg) lg 0 = Some tab" "length tab = n" "lv tab = int (text_value (2 ^ lg) p)"
    using bin_loop_value [of lg "rev p" 0 "replicate n 0" 0] assms(2,3) room by auto
  have ne: "tab \<noteq> []" using t(2) n by auto
  have "\<not> neg tab"
  proof
    assume "neg tab"
    then have "W ^ n \<le> 2 * lv tab" using neg_value [OF ne] t(2) by simp
    moreover have "lv tab < 2 ^ (length p * lg)"
    proof -
      have "int (text_value (2 ^ lg) p) < int ((2 ^ lg) ^ length p)" using text_value_less [OF assms(1)] by (simp only: of_nat_less_iff)
      then show ?thesis unfolding t(3) by (simp add: power_mult [symmetric] mult.commute)
    qed
    ultimately have "(2 :: int) ^ (64 * n) < 2 ^ Suc (length p * lg)" by (simp add: power_two_W)
    then have "64 * n < Suc (length p * lg)" by (rule power_less_imp_less_exp [rotated]) simp
    then show False using room by simp
  qed
  then show ?thesis using normalize_nonneg [of n tab] t n by auto
qed

section \<open>The whole parser\<close>

definition signed_value :: "nat \<Rightarrow> u8 list \<Rightarrow> int" where
  "signed_value radix str =
     (if str \<noteq> [] \<and> hd str = 45 then - int (text_value radix (tl str)) else int (text_value radix str))"

definition significant :: "u8 list \<Rightarrow> u8 list" where
  "significant str = dropWhile (\<lambda>c. c = 48) (if str \<noteq> [] \<and> hd str = 45 then tl str else str)"

definition radix_log :: "u32 \<Rightarrow> nat" where
  "radix_log radix = (if radix = 2 then 1 else if radix = 8 then 3 else 4)"

lemma text_value_zeros: "text_value radix (dropWhile (\<lambda>c. c = 48) p) = text_value radix p"
  by (induction p) (auto simp: text_value_Cons to_digit_def)

lemma radix_log: "radix \<in> {2, 8, 10, 16} \<Longrightarrow> clz32 (radix - 1) = Some (32 - radix_log radix)"
proof -
  have "clz32 1 = Some 31" "clz32 7 = Some 29" "clz32 9 = Some 28" "clz32 15 = Some 28" by code_simp+
  then show "radix \<in> {2, 8, 10, 16} \<Longrightarrow> clz32 (radix - 1) = Some (32 - radix_log radix)"
    by (auto simp: radix_log_def)
qed

lemma computes_reindex: "computes (\<lambda>k. m (h k)) res z big \<Longrightarrow> computes m res z big"
  by (auto simp: computes_def split: if_splits)

lemma from_string_value:
  assumes r: "radix \<in> {2, 8, 10, 16}" and d: "digits_of (unat radix) (if str \<noteq> [] \<and> hd str = 45 then tl str else str)"
  shows "computes m (js_bigint_from_string m str radix) (signed_value (unat radix) str)
    (length (significant str) > JS_BIGINT_MAX_SIZE * JS_LIMB_BITS
      \<or> from_string_limbs (unat radix) (radix_log radix) (length (significant str)) > JS_BIGINT_MAX_SIZE)"
proof -
  define p L lg where "p = significant str" and "L = from_string_limbs (unat radix) (radix_log radix) (length p)" and "lg = radix_log radix"
  define is_neg where "is_neg \<longleftrightarrow> str \<noteq> [] \<and> hd str = 45"
  define inner where "inner r =
            (if radix = 10 then do {
               r1 \<leftarrow> wr r 0 0;
               (tab, len) \<leftarrow> dec_loop r1 1 p;
               top \<leftarrow> rd tab (len - 1);
               (tab', len') \<leftarrow> (if drop_bit (JS_LIMB_BITS - 1) top \<noteq> 0 then do { t \<leftarrow> wr tab len 0; Some (t, len + 1) }
                               else Some (tab, len));
               js_bigint_normalize (take len' tab')
             }
             else do {
               tab \<leftarrow> bin_loop (replicate (length r) 0) (rev p) (unat radix) lg 0;
               js_bigint_normalize tab
             })" for r
  have fs: "js_bigint_from_string m str radix =
     (if length p > JS_BIGINT_MAX_SIZE * JS_LIMB_BITS then Some (Inl Too_Large_To_Allocate)
      else andthen (js_bigint_new (m 0) L) (\<lambda>r. andthen (inner r)
             (\<lambda>r. if is_neg then js_bigint_neg (\<lambda>k. m (k + 1)) r else Some (Inr r))))"
  proof -
    have z: "32 - (32 - lg) = lg" by (simp add: lg_def radix_log_def)
    have sg: "dropWhile (\<lambda>c. c = 48) (if is_neg then tl str else str) = p" by (simp add: p_def significant_def is_neg_def)
    show ?thesis
      unfolding js_bigint_from_string_def Let_def is_neg_def [symmetric] sg
        radix_log [OF r] bind.bind_lunit lg_def [symmetric] z inner_def L_def ..
  qed
  have dp: "digits_of (unat radix) p" using d by (auto simp: p_def significant_def digits_of_def dest: set_dropWhileD)
  have val: "signed_value (unat radix) str = (if is_neg then - int (text_value (unat radix) p) else int (text_value (unat radix) p))"
    by (simp add: signed_value_def is_neg_def p_def significant_def text_value_zeros)
  have inner: "\<exists>r'. inner r = Some (Inr r') \<and> bigint_ok r' \<and> sv r' = int (text_value (unat radix) p) \<and> length r' \<le> L" if l: "length r = L" for r
  proof (cases "radix = 10")
    case True
    then show ?thesis using decimal_limbs [of p r lg] dp l by (simp add: inner_def L_def lg_def)
  next
    case False
    have u: "unat radix = 2 ^ lg" "1 \<le> lg" "lg \<le> 5" "2 ^ lg \<noteq> (10 :: nat)" using r False by (auto simp: lg_def radix_log_def)
    show ?thesis using binary_limbs [of lg p L] dp False unfolding inner_def u(1) l
      using u(2-4) by (simp add: L_def lg_def [symmetric] u(1))
  qed
  show ?thesis
  proof (cases "length p > JS_BIGINT_MAX_SIZE * JS_LIMB_BITS")
    case True
    then show ?thesis by (simp add: fs p_def computes_def)
  next
    case False
    have big: "(length (significant str) > JS_BIGINT_MAX_SIZE * JS_LIMB_BITS
      \<or> from_string_limbs (unat radix) (radix_log radix) (length (significant str)) > JS_BIGINT_MAX_SIZE) \<longleftrightarrow> L > JS_BIGINT_MAX_SIZE"
      using False by (simp add: p_def L_def)
    show ?thesis unfolding fs if_not_P [OF False] big
    proof (rule computes_new)
      fix c :: "nat \<Rightarrow> limb"
      assume sm: "L \<le> JS_BIGINT_MAX_SIZE"
      obtain r' where r': "inner (map c [0..<L]) = Some (Inr r')" "bigint_ok r'" "sv r' = int (text_value (unat radix) p)" "length r' \<le> L"
        using inner [of "map c [0..<L]"] by auto
      have "computes m (js_bigint_neg (\<lambda>k. m (k + 1)) r') (- sv r') False"
        using bigint_neg_value [of r' "\<lambda>k. m (k + 1)"] r'(2,4) sm by (intro computes_reindex [of m "\<lambda>k. k + 1"]) (simp add: bigint_ok_def)
      then show "computes m (andthen (inner (map c [0..<L])) (\<lambda>r. if is_neg then js_bigint_neg (\<lambda>k. m (k + 1)) r else Some (Inr r)))
          (signed_value (unat radix) str) False"
        using r' by (simp add: val andthen_def computes_def)
    qed
  qed
qed

end
