(* ===== verification/BigIntPrint.thy ===== *)
theory BigIntPrint
  imports BigIntParse
begin

text \<open>The printer of BigInts writes the digits of the value, and the parser reads them back.\<close>

section \<open>Digits of a limb\<close>

lemma rd_digits: "d < 36 \<Longrightarrow> rd digits d = Some (dchar d)"
proof -
  have "\<forall>d \<in> set [0..<36]. rd digits d = Some (dchar d)" by code_simp
  moreover assume "d < 36"
  then have "d \<in> set [0..<36]" by simp
  ultimately show ?thesis by (rule bspec)
qed

lemma digit_of_limb:
  assumes r: "2 \<le> unat (radix :: u32)" "unat radix \<le> 36"
  shows "(if radix = 10 then Some (48 + ucast (n mod 10)) else rd digits (unat (n mod ucast radix))) = Some (dchar (unat (n :: limb) mod unat radix))"
    "unat (n div ucast radix) = unat n div unat radix"
proof -
  have u: "unat (ucast radix :: limb) = unat radix" using r by (simp add: unsigned_ucast_eq take_bit_nat_eq_self)
  then show "unat (n div ucast radix) = unat n div unat radix" by (simp add: unat_div)
  have m: "unat (n mod ucast radix) = unat n mod unat radix" using u by (simp add: unat_mod)
  have lt: "unat n mod unat radix < unat radix" using r by simp
  show "(if radix = 10 then Some (48 + ucast (n mod 10)) else rd digits (unat (n mod ucast radix))) = Some (dchar (unat n mod unat radix))"
  proof (cases "radix = 10")
    case True
    then have "unat (n mod 10) = unat n mod 10" using m by simp
    then have "dec_char (n mod 10) = dchar (unat n mod 10)" using dec_char_dchar [of "n mod 10"] by simp
    moreover have "unat radix = 10" using True by simp
    ultimately show ?thesis using True by (simp only: dec_char_def add.commute if_P)
  next
    case False
    have "unat n mod unat radix < 36" using lt r(2) by simp
    then show ?thesis using False rd_digits by (simp add: m)
  qed
qed

lemma js_u64toa_value:
  assumes r: "2 \<le> unat radix" "unat radix \<le> 36" and q: "length q + length (repr (unat radix) (unat n)) \<le> cap"
  shows "js_u64toa cap q n radix = Some (nat_text (unat radix) (unat n) @ q)"
  using q
proof (induction "unat n" arbitrary: n q rule: less_induct)
  case less
  define R N where "R = unat radix" and "N = unat n"
  note dg = digit_of_limb [OF r, of n, folded R_def N_def]
  have r0: "radix \<noteq> 0" using r by auto
  have "length q < cap" using less.prems by (cases "repr R N") (simp_all add: R_def N_def)
  then have unf: "js_u64toa cap q n radix = (if n div ucast radix \<noteq> 0 then js_u64toa cap (dchar (N mod R) # q) (n div ucast radix) radix
      else Some (dchar (N mod R) # q))"
    using r0 by (subst js_u64toa.simps) (simp add: dg(1) push_def)
  have z: "n div ucast radix = 0 \<longleftrightarrow> N < R"
  proof -
    have "n div ucast radix = 0 \<longleftrightarrow> N div R = 0" using dg(2) by (metis unat_eq_0)
    then show ?thesis using r by (auto simp: R_def div_eq_0_iff)
  qed
  show ?case
  proof (cases "N < R")
    case True
    then show ?thesis unfolding unf using z by (simp add: nat_text_def repr_small R_def [symmetric] N_def [symmetric])
  next
    case False
    then have rp: "repr R N = repr R (N div R) @ [N mod R]" using r by (simp add: R_def repr_step)
    have "N div R < N" using False r by (simp add: R_def)
    then have "js_u64toa cap (dchar (N mod R) # q) (n div ucast radix) radix = Some (nat_text R (N div R) @ dchar (N mod R) # q)"
      using less.hyps [of "n div ucast radix" "dchar (N mod R) # q"] less.prems rp unfolding dg(2) R_def [symmetric] N_def [symmetric] by simp
    then show ?thesis unfolding unf using z False rp by (simp add: nat_text_def R_def [symmetric] N_def [symmetric])
  qed
qed

lemma limb_to_a_value:
  assumes r: "2 \<le> unat radix" "unat radix \<le> 36" and q: "length q + k \<le> cap"
  shows "limb_to_a cap q n radix k = Some (map dchar (fixed (unat radix) k (unat n)) @ q)"
  using q
proof (induction k arbitrary: n q)
  case (Suc k)
  note dg = digit_of_limb [OF r, of n]
  have r0: "radix \<noteq> 0" using r by auto
  have "(if radix = 10 then Some (ucast (n mod 10) + 48) else rd digits (unat (n mod ucast radix))) = Some (dchar (unat n mod unat radix))"
    using dg(1) by (simp only: add.commute)
  then have "limb_to_a cap q n radix (Suc k) = limb_to_a cap (dchar (unat n mod unat radix) # q) (n div ucast radix) radix k"
    using r0 Suc.prems by (simp add: push_def)
  then show ?case using Suc.IH [of "dchar (unat n mod unat radix) # q" "n div ucast radix"] Suc.prems by (simp add: dg(2))
qed simp

section \<open>The tables\<close>

lemma radix_tables:
  assumes r: "2 \<le> unat (radix :: u32)" "unat radix \<le> 36" and nb: "radix AND (radix - 1) \<noteq> 0"
  shows "\<exists>base k. rd radix_base_table (unat radix - 2) = Some base \<and> rd digits_per_limb_table (unat radix - 2) = Some k
    \<and> uint base = int (unat radix ^ k) \<and> 1 \<le> k"
proof -
  have "\<forall>i \<in> set [3, 5, 6, 7, 9, 10, 11, 12, 13, 14, 15, 17, 18, 19, 20, 21, 22, 23, 24, 25, 26, 27, 28, 29, 30, 31, 33, 34, 35, 36].
      uint (radix_base_table ! (i - 2)) = int i ^ (digits_per_limb_table ! (i - 2)) \<and> 1 \<le> digits_per_limb_table ! (i - 2)"
    by (simp add: radix_base_table_def digits_per_limb_table_def)
  moreover have "unat radix \<notin> {2, 4, 8, 16, 32}"
  proof
    assume "unat radix \<in> {2, 4, 8, 16, 32}"
    from imageI [OF this, of "word_of_nat :: nat \<Rightarrow> u32"] have "radix \<in> {2, 4, 8, 16, 32}" by simp
    then show False using nb by auto
  qed
  then have "unat radix \<in> set [3, 5, 6, 7, 9, 10, 11, 12, 13, 14, 15, 17, 18, 19, 20, 21, 22, 23, 24, 25, 26, 27, 28, 29, 30, 31, 33, 34, 35, 36]"
    using r by (simp; presburger)
  ultimately have "uint (radix_base_table ! (unat radix - 2)) = int (unat radix) ^ (digits_per_limb_table ! (unat radix - 2))
      \<and> 1 \<le> digits_per_limb_table ! (unat radix - 2)"
    by (rule bspec)
  moreover have "unat radix - 2 < length radix_base_table" "unat radix - 2 < length digits_per_limb_table"
    using r by (simp_all add: radix_base_table_def digits_per_limb_table_def)
  ultimately show ?thesis by (simp add: rd_def)
qed

section \<open>Division by a power of the radix\<close>

definition printed :: "('o js_runtime \<Rightarrow> int \<times> 'o js_runtime) \<Rightarrow> ((to_string_error + u8 list) \<times> 'o js_runtime) option \<Rightarrow> u8 list \<Rightarrow> bool" where
  "printed poll out t \<longleftrightarrow>
     (\<exists>res rt'. out = Some (res, rt') \<and> (res = Inr t \<or> res = Inl Interrupted \<and> (\<exists>rt. fst (poll rt) \<noteq> 0)))"

lemma to_string_loop_value:
  assumes r: "2 \<le> unat radix" "unat radix \<le> 36" and base: "uint base = int (unat radix ^ dpl)" "1 \<le> dpl"
    and t: "1 \<le> len" "len \<le> length tab" "lv (take len tab) = int N" "1 \<le> N"
    and q: "length q + length (repr (unat radix) N) \<le> cap"
  shows "printed poll (to_string_loop poll ctx radix base dpl cap tab len q rt) (nat_text (unat radix) N @ q)"
  using t q
proof (induction N arbitrary: tab len q rt rule: less_induct)
  case (less N)
  define R where "R = unat radix"
  define rt1 where "rt1 = rt\<lparr>interrupt_counter := (interrupt_counter rt)(ctx := interrupt_counter rt ctx - int (len div 16))\<rparr>"
  obtain stop rt2 where po: "poll rt1 = (stop, rt2)" by fastforce
  note unf = to_string_loop.simps [of poll ctx radix base dpl cap tab len q rt, folded rt1_def, unfolded Let_def po prod.case]
  show ?case
  proof (cases "stop = 0")
    case False
    then have "fst (poll rt1) \<noteq> 0" by (simp add: po)
    then show ?thesis using False unfolding unf printed_def by auto
  next
    case True
    obtain len1 where l1: "trim_len tab len = Some len1" "1 \<le> len1" "len1 \<le> len" "lv (take len1 tab) = int N"
      "len1 = 1 \<or> tab ! (len1 - 1) \<noteq> 0"
      using trim_len_ok [OF less.prems(1,2)] less.prems(3) by auto
    obtain v where v: "rd tab 0 = Some v" "tab ! 0 = v" using less.prems(1,2) by (cases tab) (auto simp: rd_def)
    have b0: "base \<noteq> 0"
    proof
      assume "base = 0"
      then have "int (unat radix ^ dpl) = 0" using base(1) by (simp only: uint_0_eq)
      then have "unat radix ^ dpl = 0" by (simp only: of_nat_eq_0_iff)
      then show False using r by auto
    qed
    have one: "uint v = int N" if "len1 = 1"
      using l1(4) v(2) that less.prems(1,2) by (cases tab) simp_all
    show ?thesis
    proof (cases "len1 = 1 \<and> v < base")
      case fin: True
      then have "int (unat v) = int N" using one by simp
      then have uv: "unat v = N" by (simp only: of_nat_eq_iff)
      then have "v \<noteq> 0" using less.prems(4) by auto
      then have "to_string_loop poll ctx radix base dpl cap tab len q rt = do { q1 \<leftarrow> js_u64toa cap q v radix; Some (Inr q1, rt2) }"
        using True fin b0 unfolding unf by (simp add: v(1) l1(1) del: rd_Some_iff)
      moreover have "js_u64toa cap q v radix = Some (nat_text R N @ q)"
        using js_u64toa_value [OF r, of q v cap] less.prems(5) uv by (simp add: R_def)
      ultimately show ?thesis by (simp add: printed_def R_def)
    next
      case more: False
      have large: "R ^ dpl \<le> N"
      proof (cases "len1 = 1")
        case True
        then have "\<not> uint v < uint base" using more unfolding word_less_def by simp
        then have "uint base \<le> uint v" by linarith
        then have "int (R ^ dpl) \<le> int N" unfolding one [OF True] base(1) R_def .
        then show ?thesis by (simp only: of_nat_le_iff)
      next
        case False
        then have "W ^ (len1 - 1) \<le> int N" using top_limb_value [of len1 tab] l1 less.prems(2) by simp
        moreover have "W ^ 1 \<le> W ^ (len1 - 1)" using l1(2) False by (intro power_increasing) simp_all
        ultimately have "W \<le> int N" by simp
        then have "uint base \<le> int N" using uint_limb(2) [of base] by linarith
        then have "int (R ^ dpl) \<le> int N" unfolding base(1) R_def .
        then show ?thesis by (simp only: of_nat_le_iff)
      qed
      have sl: "slice tab 0 len1 = Some (take len1 tab)" using l1(3) less.prems(2) by (simp add: slice_def)
      have "(0 :: limb) < base" using b0 by (simp add: word_neq_0_conv)
      then obtain s' v1 where d: "mp_div1 (take len1 tab) base 0 = (s', v1)" "length s' = len1" "v1 < base"
        "int N = lv s' * uint base + uint v1"
        using mp_div1_value [of 0 base "take len1 tab"] l1(3,4) less.prems(2) by auto
      have "uint v1 < uint base" using d(3) by (simp add: word_less_def)
      then have "int N div uint base = lv s' \<and> int N mod uint base = uint v1"
        using d(4) by (intro int_div_mod_unique) (simp_all add: mult.commute)
      then have dm: "int (N div R ^ dpl) = lv s'" "int (N mod R ^ dpl) = uint v1"
        unfolding base(1) R_def by (simp_all only: zdiv_int zmod_int)
      have "int (unat v1) = int (N mod R ^ dpl)" using dm(2) by simp
      then have qr: "lv s' = int (N div R ^ dpl)" "unat v1 = N mod R ^ dpl" using dm(1) by (simp_all only: of_nat_eq_iff)
      define tab1 where "tab1 = s' @ drop len1 tab"
      have bl: "blit tab 0 s' = Some tab1" "length tab1 = length tab" "take len1 tab1 = s'"
        using d(2) l1(3) less.prems(2) by (simp_all add: blit_def tab1_def)
      have rp: "repr R N = repr R (N div R ^ dpl) @ fixed R dpl (N mod R ^ dpl)" using r large by (simp add: R_def repr_split)
      have la: "limb_to_a cap q v1 radix dpl = Some (map dchar (fixed R dpl (N mod R ^ dpl)) @ q)"
        using limb_to_a_value [OF r, of q dpl cap v1] less.prems(5) rp unfolding qr(2) R_def [symmetric] by simp
      have "to_string_loop poll ctx radix base dpl cap tab len q rt
          = to_string_loop poll ctx radix base dpl cap tab1 len1 (map dchar (fixed R dpl (N mod R ^ dpl)) @ q) rt2"
        unfolding unf v(1) l1(1) bind.bind_lunit if_not_P [OF more] if_not_P [OF b0] sl d(1) Let_def prod.case bl(1) la
        using True by simp
      moreover have "printed poll (to_string_loop poll ctx radix base dpl cap tab1 len1 (map dchar (fixed R dpl (N mod R ^ dpl)) @ q) rt2)
          (nat_text (unat radix) (N div R ^ dpl) @ map dchar (fixed R dpl (N mod R ^ dpl)) @ q)"
      proof (rule less.IH)
        have "1 < R ^ dpl" using base(2) r unfolding R_def by (intro one_less_power) simp_all
        then show "N div R ^ dpl < N" using less.prems(4) by simp
        show "1 \<le> N div R ^ dpl" using large r by (simp add: R_def div_greater_zero_iff Suc_le_eq)
      qed (use l1 less.prems bl qr rp in \<open>simp_all add: R_def\<close>)
      moreover have "nat_text (unat radix) N @ q = nat_text (unat radix) (N div R ^ dpl) @ map dchar (fixed R dpl (N mod R ^ dpl)) @ q"
        unfolding nat_text_def R_def [symmetric] rp by simp
      ultimately show ?thesis by simp
    qed
  qed
qed

section \<open>Digits of a power of two\<close>

lemma bin_digit_bits:
  fixes tab :: "limb list" and i lg :: nat and x radix :: u32
  defines "pos \<equiv> i * lg div 64" and "shift \<equiv> i * lg mod 64"
  assumes radix: "unat radix = 2 ^ lg" "1 \<le> lg" "lg \<le> 5" and p: "pos < length tab"
    and x: "x = (if 64 < shift + lg \<and> pos + 1 < length tab
       then ucast (drop_bit shift (tab ! pos)) OR ucast (push_bit (64 - shift) (tab ! (pos + 1))) else ucast (drop_bit shift (tab ! pos)))"
  shows "int (unat (x AND (radix - 1))) = lv tab div 2 ^ (i * lg) mod 2 ^ lg"
proof -
  have s: "i * lg = 64 * pos + shift" "shift < 64" by (simp_all add: pos_def shift_def)
  have rm: "radix - 1 = Bit_Operations.mask lg"
  proof -
    have "radix = word_of_nat (unat radix)" by simp
    then have "radix = 2 ^ lg" unfolding radix(1) by simp
    then show ?thesis by (simp add: mask_eq_exp_minus_1)
  qed
  have at: "(i * lg + k) div 64 = pos + (shift + k) div 64" "(i * lg + k) mod 64 = (shift + k) mod 64" for k
    unfolding s(1) add.assoc by simp_all
  have bx: "bit x k \<longleftrightarrow> bit (lv tab) (i * lg + k)" if "k < lg" for k
  proof -
    have k: "k < 5" "k < 32" using that radix(3) by simp_all
    define t u where "t = tab ! pos" and "u = tab ! (pos + 1)"
    have "bit (ucast (push_bit (64 - shift) u) :: u32) k \<longleftrightarrow> 64 - shift \<le> k \<and> bit u (k - (64 - shift))"
      using k(2) by (simp add: bit_unsigned_iff bit_push_bit_iff)
    moreover have "bit (ucast (drop_bit shift t) :: u32) k \<longleftrightarrow> bit t (shift + k)"
      using k(2) by (simp add: bit_unsigned_iff bit_drop_bit_eq)
    ultimately have bits: "bit x k \<longleftrightarrow> bit (tab ! pos) (shift + k)
        \<or> 64 < shift + lg \<and> pos + 1 < length tab \<and> 64 - shift \<le> k \<and> bit (tab ! (pos + 1)) (k - (64 - shift))"
      unfolding x t_def [symmetric] u_def [symmetric] by (auto simp: bit_or_iff)
    show ?thesis
    proof (cases "shift + k < 64")
      case True
      then have d: "i * lg + k < 64 * length tab" "(i * lg + k) div 64 = pos" "(i * lg + k) mod 64 = shift + k" using at [of k] p by auto
      have "\<not> (64 - shift \<le> k)" using True by simp
      then have "bit x k \<longleftrightarrow> bit (tab ! pos) (shift + k)" unfolding bits by simp
      then show ?thesis by (simp add: bit_lv d)
    next
      case False
      then have j: "(shift + k) div 64 = 1" "(shift + k) mod 64 = shift + k - 64" using k(1) s(2) by (simp_all add: le_div_geq le_mod_geq not_less)
      then have d: "i * lg + k < 64 * length tab \<longleftrightarrow> pos + 1 < length tab" "(i * lg + k) div 64 = pos + 1" "(i * lg + k) mod 64 = shift + k - 64"
        using at [of k] p False k s by auto
      have l: "64 < shift + lg" using False that by linarith
      have n: "\<not> bit (tab ! pos) (shift + k)" using False by (auto dest: bit_imp_le_length)
      have e: "64 - shift \<le> k" "k - (64 - shift) = shift + k - 64" using False s(2) by linarith+
      have "bit x k \<longleftrightarrow> pos + 1 < length tab \<and> bit (tab ! (pos + 1)) (shift + k - 64)" using l n e unfolding bits by simp
      then show ?thesis unfolding bit_lv d by simp
    qed
  qed
  have "uint (x AND (radix - 1)) = take_bit lg (drop_bit (i * lg) (lv tab))"
  proof (rule bit_eqI)
    fix k
    show "bit (uint (x AND (radix - 1))) k \<longleftrightarrow> bit (take_bit lg (drop_bit (i * lg) (lv tab))) k"
      using bx [of k] radix(3) unfolding rm bit_uint_iff bit_and_iff bit_take_bit_iff bit_drop_bit_eq
      by (auto simp: bit_mask_iff)
  qed
  then show ?thesis by (simp add: take_bit_eq_mod drop_bit_eq_div)
qed

lemma bin_digits_loop_value:
  assumes radix: "unat radix = 2 ^ lg" "1 \<le> lg" "lg \<le> 5" and N: "lv tab = int N" and n: "(i + n - 1) * lg < 64 * length tab"
    and q: "length q + n \<le> cap"
  shows "bin_digits_loop cap tab radix lg i n q = Some (map dchar (fixed (2 ^ lg) n (N div (2 ^ lg) ^ i)) @ q)"
  using n q
proof (induction n arbitrary: i q)
  case (Suc n)
  define pos shift where "pos = i * lg div 64" and "shift = i * lg mod 64"
  have "i * lg \<le> (i + Suc n - 1) * lg" by (intro mult_right_mono) simp_all
  then have "i * lg < 64 * length tab" using Suc.prems(1) by (rule le_less_trans)
  then have p: "pos < length tab" unfolding pos_def by (simp add: div_less_iff_less_mult mult.commute)
  define x :: u32 where "x = (if 64 < shift + lg \<and> pos + 1 < length tab
       then ucast (drop_bit shift (tab ! pos)) OR ucast (push_bit (64 - shift) (tab ! (pos + 1))) else ucast (drop_bit shift (tab ! pos)))"
  define d where "d = N div (2 ^ lg) ^ i mod 2 ^ lg"
  have "int (unat (x AND (radix - 1))) = int d"
    using bin_digit_bits [OF radix, of i tab x, folded pos_def shift_def, OF p x_def]
    by (simp add: N d_def zdiv_int zmod_int power_mult [symmetric] mult.commute)
  then have xd: "unat (x AND (radix - 1)) = d" by (simp only: of_nat_eq_iff)
  have "d < 2 ^ lg" by (simp add: d_def)
  also have "\<dots> \<le> (2 :: nat) ^ 5" using radix(3) by (intro power_increasing) simp_all
  finally have dg: "rd digits d = Some (dchar d)" by (intro rd_digits) simp
  have xs: "(if JS_LIMB_BITS < shift + lg \<and> pos + 1 < length tab
              then do { u \<leftarrow> rd tab (pos + 1); Some (ucast (drop_bit shift (tab ! pos)) OR ucast (push_bit (JS_LIMB_BITS - shift) u)) }
              else Some (ucast (drop_bit shift (tab ! pos)))) = Some x"
    by (simp add: x_def JS_LIMB_BITS_def rd_def)
  have "bin_digits_loop cap tab radix lg i (Suc n) q = bin_digits_loop cap tab radix lg (i + 1) n (dchar d # q)"
  proof -
    have ps: "i * lg div JS_LIMB_BITS = pos" "i * lg mod JS_LIMB_BITS = shift" by (simp_all add: pos_def shift_def JS_LIMB_BITS_def)
    have rp: "rd tab pos = Some (tab ! pos)" using p by simp
    have pu: "push cap (dchar d) q = Some (dchar d # q)" using Suc.prems(2) by (simp add: push_def)
    show ?thesis unfolding bin_digits_loop.simps(2) Let_def ps rp bind.bind_lunit xs xd dg pu ..
  qed
  also have "\<dots> = Some (map dchar (fixed (2 ^ lg) n (N div (2 ^ lg) ^ (i + 1))) @ dchar d # q)"
    using Suc.prems by (intro Suc.IH) simp_all
  also have "N div (2 ^ lg) ^ (i + 1) = N div (2 ^ lg) ^ i div 2 ^ lg" unfolding power_Suc2 Suc_eq_plus1 [symmetric] by (rule div_mult2_eq)
  finally show ?case unfolding fixed.simps by (simp add: d_def del: bin_digits_loop.simps)
qed simp

section \<open>The whole printer\<close>

lemma clz32_bounds:
  assumes "clz32 n = Some z"
  shows "z < 32" "2 ^ (31 - z) \<le> unat n" "unat n < 2 ^ (32 - z)"
proof -
  note sp = clz32_spec [OF assms]
  have "2 ^ (31 - z) \<le> uint n" "uint n < 2 ^ Suc (31 - z)"
    by (rule top_bit; use sp in \<open>auto simp: bit_uint_iff\<close>)+
  moreover have "Suc (31 - z) = 32 - z" using conjunct1 [OF sp] by linarith
  ultimately have "2 ^ (31 - z) \<le> int (unat n)" "int (unat n) < 2 ^ (32 - z)" by simp_all
  then show "2 ^ (31 - z) \<le> unat n" "unat n < 2 ^ (32 - z)" by (metis of_nat_le_iff of_nat_less_iff of_nat_numeral of_nat_power)+
  show "z < 32" using sp by simp
qed

text \<open>The number of bits that the digit count starts from.\<close>

lemma number_bits:
  assumes "tab \<noteq> []" "lv tab = int N" "1 \<le> N" "last tab \<noteq> 0 \<or> 2 \<le> length tab \<and> W \<le> 2 * uint (tab ! (length tab - 2))"
  shows "\<exists>z m. js_limb_safe_clz (last tab) = Some z \<and> m = length tab * 64 - z \<and> 1 \<le> m \<and> N < 2 ^ m \<and> 2 ^ (m - 1) \<le> N"
proof -
  define t n where "t = last tab" and "n = length tab - 1"
  have l: "length tab = Suc n" using assms(1) by (simp add: n_def)
  have b: "W ^ n * uint t \<le> int N" "int N < W ^ n * (uint t + 1)"
    using last_bounds [OF assms(1)] assms(2) by (simp_all add: t_def n_def)
  show ?thesis
  proof (cases "t = 0")
    case True
    then have "int N < int (2 ^ (64 * n))" using b(2) by (simp add: power_two_W)
    then have up: "N < 2 ^ (64 * n)" by (simp only: of_nat_less_iff)
    have n: "1 \<le> n" and h: "W \<le> 2 * uint (tab ! (n - 1))" using assms(4) True l by (auto simp: t_def)
    have p: "take n tab \<noteq> []" "length (take n tab) = n" using n l by auto
    have la: "last (take n tab) = tab ! (n - 1)" unfolding last_conv_nth [OF p(1)] p(2) using n by simp
    have "lv tab = lv (take n tab)" using lv_take_Suc [of n tab] l True by (simp add: t_def last_conv_nth assms(1))
    then have "W ^ (n - 1) * uint (tab ! (n - 1)) \<le> int N" using last_bounds(1) [OF p(1)] assms(2) unfolding la p(2) by simp
    moreover have "W ^ (n - 1) * W \<le> W ^ (n - 1) * (2 * uint (tab ! (n - 1)))" using h by (intro mult_left_mono) simp_all
    moreover have "W ^ (n - 1) * W = 2 * 2 ^ (64 * n - 1)"
      using n power_two_W [of n] power_minus_mult [of n W] power_minus_mult [of "64 * n" "2 :: int"] by (simp add: power_two_W mult.commute)
    ultimately have "2 * 2 ^ (64 * n - 1) \<le> 2 * int N" by linarith
    then have "int (2 ^ (64 * n - 1)) \<le> int N" by simp
    then have "2 ^ (64 * n - 1) \<le> N" by (simp only: of_nat_le_iff)
    then show ?thesis using True up n by (simp add: js_limb_safe_clz_def JS_LIMB_BITS_def t_def [symmetric] l mult.commute)
  next
    case False
    then obtain z where z: "clz64 t = Some z" by (auto simp: clz64_def)
    note zb = clz64_bounds [OF z]
    have lo: "(2 :: int) ^ (63 - z) \<le> uint t" and hi: "uint t + 1 \<le> (2 :: int) ^ (64 - z)"
    proof -
      have "int (2 ^ (63 - z)) \<le> int (unat t)" "int (unat t) + 1 \<le> int (2 ^ (64 - z))"
        using zb(2,3) by (simp_all only: of_nat_le_iff Suc_le_eq flip: of_nat_Suc)
      then show "(2 :: int) ^ (63 - z) \<le> uint t" "uint t + 1 \<le> (2 :: int) ^ (64 - z)" by simp_all
    qed
    have ex: "length tab * 64 - z = 64 * n + (64 - z)" "64 * n + (64 - z) - 1 = 64 * n + (63 - z)" using zb(1) l by simp_all
    have "int N < W ^ n * 2 ^ (64 - z)" using b(2) mult_left_mono [OF hi, of "W ^ n"] W_pos(6) [of n] by linarith
    also have "\<dots> = int (2 ^ (length tab * 64 - z))" unfolding ex(1) by (simp add: power_add power_two_W)
    finally have up: "N < 2 ^ (length tab * 64 - z)" by (simp only: of_nat_less_iff)
    have "int (2 ^ (length tab * 64 - z - 1)) = W ^ n * 2 ^ (63 - z)" unfolding ex by (simp add: power_add power_two_W)
    also have "\<dots> \<le> int N" using b(1) mult_left_mono [OF lo, of "W ^ n"] W_pos(6) [of n] by linarith
    finally have "2 ^ (length tab * 64 - z - 1) \<le> N" by (simp only: of_nat_le_iff)
    moreover have "js_limb_safe_clz (last tab) = Some z" using False z by (simp add: js_limb_safe_clz_def t_def)
    moreover have "1 \<le> length tab * 64 - z" using zb(1) l by simp
    ultimately show ?thesis using up by blast
  qed
qed

lemma floor_log:
  assumes "2 \<le> unat (radix :: u32)" "unat radix \<le> 36"
  shows "\<exists>z. clz32 radix = Some z \<and> 1 \<le> 31 - z \<and> 2 ^ (31 - z) \<le> unat radix"
proof -
  have "clz32 radix \<noteq> None" using assms(1) by (auto simp: clz32_def)
  then obtain z where z: "clz32 radix = Some z" by blast
  note b = clz32_bounds [OF z]
  have "31 - z \<noteq> 0"
  proof
    assume "31 - z = 0"
    then have "32 - z = 1" using b(1) by linarith
    then show False using b(3) assms(1) by simp
  qed
  then show ?thesis using z b(2) by auto
qed

text \<open>The magnitude, with a minus sign in front of it when the number was negative.\<close>

lemma to_string_digits_value:
  assumes r: "2 \<le> unat radix" "unat radix \<le> 36"
    and t: "tab \<noteq> []" "lv tab = int N" "1 \<le> N" "last tab \<noteq> 0 \<or> 2 \<le> length tab \<and> W \<le> 2 * uint (tab ! (length tab - 2))"
  shows "printed poll (to_string_digits poll ctx (Some c) tab radix is_neg rt)
    (if is_neg then 45 # nat_text (unat radix) N else nat_text (unat radix) N)"
proof -
  obtain z where z: "clz32 radix = Some z" "1 \<le> 31 - z" "2 ^ (31 - z) \<le> unat radix" using floor_log [OF r] by blast
  obtain zt m where zt: "js_limb_safe_clz (last tab) = Some zt" "m = length tab * 64 - zt" "1 \<le> m" "N < 2 ^ m" "2 ^ (m - 1) \<le> N"
    using number_bits [OF t] by blast
  define lg n where "lg = 31 - z" and "n = (m + lg - 1) div lg"
  have lg: "lg \<noteq> 0" using z(2) by (simp add: lg_def)
  define cap where "cap = n + of_bool is_neg"
  have mn: "m \<le> lg * n"
  proof -
    have "lg * n + (m + lg - 1) mod lg = m + lg - 1" by (simp add: n_def)
    moreover have "(m + lg - 1) mod lg < lg" using lg by simp
    ultimately show ?thesis using zt(3) by linarith
  qed
  then have n1: "1 \<le> n" using zt(3) by (cases n) simp_all
  have "(2 :: nat) ^ m \<le> 2 ^ (lg * n)" using mn by (intro power_increasing) simp_all
  also have "\<dots> = (2 ^ lg) ^ n" by (rule power_mult)
  also have "\<dots> \<le> unat radix ^ n" using z(3) by (intro power_mono) (simp_all add: lg_def)
  finally have "N < unat radix ^ n" using zt(4) by simp
  then have len: "length (repr (unat radix) N) \<le> n" using r(1) n1 by (intro length_repr)
  define out where "out =
           (if radix AND (radix - 1) \<noteq> 0 then do {
              radix_base \<leftarrow> rd radix_base_table (unat radix - 2);
              dpl \<leftarrow> rd digits_per_limb_table (unat radix - 2);
              to_string_loop poll ctx radix radix_base dpl cap tab (length tab) [] rt
            }
            else do { q \<leftarrow> bin_digits_loop cap tab radix lg 0 n []; Some (Inr q, rt) })"
  have "printed poll out (nat_text (unat radix) N)"
  proof (cases "radix AND (radix - 1) = 0")
    case True
    obtain b where b: "1 \<le> b" "b \<le> 5" "clz32 radix = Some (31 - b)" "unat radix = 2 ^ b" using radix_cases [OF r True] by blast
    have lb: "lg = b" using z(1) b(1-3) by (simp add: lg_def)
    have "n * lg < m + lg"
    proof -
      have "lg * n \<le> m + lg - 1" by (simp add: n_def)
      then show ?thesis using lg by (simp add: mult.commute)
    qed
    moreover have "m \<le> 64 * length tab" using zt(2) by simp
    ultimately have room: "(0 + n - 1) * lg < 64 * length tab" using n1 zt(3) by (simp add: left_diff_distrib'; linarith)
    have rp: "repr (2 ^ lg) N = fixed (2 ^ lg) n N"
      unfolding n_def using bin_digits [of lg m N] lg zt(3-5) by simp
    have "bin_digits_loop cap tab radix lg 0 n [] = Some (map dchar (fixed (2 ^ lg) n (N div (2 ^ lg) ^ 0)) @ [])"
      using b(1,2,4) lb by (intro bin_digits_loop_value [OF _ _ _ t(2) room]) (simp_all add: cap_def)
    then show ?thesis using True b(4) by (simp add: out_def printed_def nat_text_def rp lb [symmetric])
  next
    case False
    obtain base k where k: "rd radix_base_table (unat radix - 2) = Some base" "rd digits_per_limb_table (unat radix - 2) = Some k"
      "uint base = int (unat radix ^ k)" "1 \<le> k"
      using radix_tables [OF r False] by blast
    have "printed poll (to_string_loop poll ctx radix base k cap tab (length tab) [] rt) (nat_text (unat radix) N @ [])"
      using t(1-3) len by (intro to_string_loop_value [OF r k(3,4)]) (simp_all add: cap_def Suc_le_eq)
    then show ?thesis using False by (simp add: out_def k(1,2) del: rd_Some_iff)
  qed
  moreover have "to_string_digits poll ctx (Some c) tab radix is_neg rt =
    do { (res, rt1) \<leftarrow> out; case res of Inl e \<Rightarrow> Some (Inl e, rt1)
         | Inr q \<Rightarrow> do { q1 \<leftarrow> (if is_neg then push cap 45 q else Some q); Some (Inr q1, rt1) } }"
    unfolding to_string_digits_def Let_def z(1) zt(1) bind.bind_lunit JS_LIMB_BITS_def zt(2) [symmetric] lg_def [symmetric]
      n_def [symmetric] cap_def [symmetric] out_def [symmetric] if_not_P [OF lg] by simp
  ultimately show ?thesis using len by (auto simp: printed_def push_def cap_def nat_text_def)
qed

lemma positive_top:
  assumes "bigint_ok a" "1 \<le> sv a"
  shows "lv a = int (nat (sv a))" "1 \<le> nat (sv a)" "last a \<noteq> 0 \<or> 2 \<le> length a \<and> W \<le> 2 * uint (a ! (length a - 2))"
proof -
  have ne: "a \<noteq> []" using assms(1) by (simp add: bigint_ok_def)
  have "\<not> neg a" using neg_sv [OF ne] assms(2) by simp
  then have "lv a = sv a" by (simp add: sv_def)
  then show "lv a = int (nat (sv a))" "1 \<le> nat (sv a)" using assms(2) by simp_all
  show "last a \<noteq> 0 \<or> 2 \<le> length a \<and> W \<le> 2 * uint (a ! (length a - 2))"
  proof (cases "2 \<le> length a")
    case True
    then show ?thesis using assms(1) by (auto simp: bigint_ok_def drop_bit_63)
  next
    case False
    then have "a = [last a]" using ne by (cases a; cases "tl a") auto
    from arg_cong [OF this, of lv] have "lv a = uint (last a)" by simp
    then show ?thesis using assms(2) \<open>lv a = sv a\<close> by auto
  qed
qed

definition prints :: "(nat \<Rightarrow> alloc) \<Rightarrow> ('o js_runtime \<Rightarrow> int \<times> 'o js_runtime) \<Rightarrow> ((to_string_error + u8 list) \<times> 'o js_runtime) option \<Rightarrow> u8 list \<Rightarrow> bool" where
  "prints m poll out t \<longleftrightarrow> (\<exists>res rt'. out = Some (res, rt') \<and>
     (res = Inr t \<or> res = Inl Interrupted \<and> (\<exists>rt. fst (poll rt) \<noteq> 0)
      \<or> res = Inl (Conversion_Failed Out_Of_Memory) \<and> (\<exists>k. m k = None)))"

lemma printed_prints: "printed poll out t \<Longrightarrow> prints m poll out t"
  by (auto simp: printed_def prints_def)

lemma to_string_digits_prints:
  assumes r: "2 \<le> unat radix" "unat radix \<le> 36" and t: "bigint_ok t" "1 \<le> sv t"
  shows "prints m poll (to_string_digits poll ctx (m k) t radix is_neg rt)
    (if is_neg then 45 # nat_text (unat radix) (nat (sv t)) else nat_text (unat radix) (nat (sv t)))"
proof (cases "m k")
  case (Some c)
  have "t \<noteq> []" using t(1) by (simp add: bigint_ok_def)
  from to_string_digits_value [OF r this positive_top [OF t]] show ?thesis unfolding Some by (rule printed_prints)
next
  case None
  obtain z where z: "clz32 radix = Some z" "1 \<le> 31 - z" using floor_log [OF r] by blast
  have "t \<noteq> []" using t(1) by (simp add: bigint_ok_def)
  then obtain zt where zt: "js_limb_safe_clz (last t) = Some zt" using number_bits [OF _ positive_top [OF t]] by blast
  show ?thesis using z(2) None by (auto simp: to_string_digits_def Let_def z(1) zt prints_def)
qed

text \<open>
  The sum of two numbers of the largest size can have one limb more, and no number has more than that. Such a number
  is printed in place when it is not negative and the radix is a power of two; otherwise the copy that this
  needs is refused.
\<close>

definition print_too_large :: "u32 \<Rightarrow> JSBigInt \<Rightarrow> bool" where
  "print_too_large radix a \<longleftrightarrow> JS_BIGINT_MAX_SIZE < length a \<and> (sv a < 0 \<or> radix AND (radix - 1) \<noteq> 0)"

lemma big_to_string_value:
  assumes r: "2 \<le> unat radix" "unat radix \<le> 36" and a: "bigint_ok a" "\<not> print_too_large radix a"
  shows "prints m poll (big_to_string poll ctx m a radix rt) (int_text (unat radix) (sv a))"
proof -
  have ne: "a \<noteq> []" using a(1) by (simp add: bigint_ok_def)
  show ?thesis
  proof (cases "sv a = 0")
    case True
    then have "big_to_string poll ctx m a radix rt = Some (Inr [48], rt)"
      unfolding big_to_string_def using sv_zero_iff [OF a(1)] by simp
    then show ?thesis using r(1) by (simp add: prints_def True int_text_def nat_text_def repr_small dchar_def)
  next
    case nz: False
    then have z: "\<not> (length a = 1 \<and> a ! 0 = 0)" using sv_zero_iff [OF a(1)] by simp
    have sg: "js_bigint_sign a \<noteq> 0 \<longleftrightarrow> sv a < 0" using neg_sv [OF ne] by (simp add: js_bigint_sign_def neg_def JS_LIMB_BITS_def drop_bit_63)
    show ?thesis
    proof (cases "sv a < 0")
      case True
      then have t: "int_text (unat radix) (sv a) = 45 # nat_text (unat radix) (nat (- sv a))" by (simp add: int_text_def)
      have unf: "big_to_string poll ctx m a radix rt = do { tmp \<leftarrow> js_bigint_neg m a;
          case tmp of Inl e \<Rightarrow> Some (Inl (Conversion_Failed e), rt) | Inr t \<Rightarrow> to_string_digits poll ctx (m 2) t radix True rt }"
        unfolding big_to_string_def Let_def if_not_P [OF z] using sg True by simp
      have "length a \<le> JS_BIGINT_MAX_SIZE" using a(2) True by (simp add: print_too_large_def)
      with bigint_neg_value [OF ne, of m]
      consider b where "js_bigint_neg m a = Some (Inr b)" "bigint_ok b" "sv b = - sv a"
        | "js_bigint_neg m a = Some (Inl Out_Of_Memory)" "\<exists>k. m k = None"
        by (auto simp: computes_def)
      then show ?thesis
      proof cases
        case 1
        then show ?thesis using to_string_digits_prints [OF r 1(2), of m poll ctx 2 True rt] True unfolding unf t by simp
      next
        case 2
        then show ?thesis unfolding unf by (auto simp: prints_def)
      qed
    next
      case False
      then have p: "1 \<le> sv a" using nz by simp
      have t: "int_text (unat radix) (sv a) = nat_text (unat radix) (nat (sv a))" using False by (simp add: int_text_def)
      have fin: "prints m poll (to_string_digits poll ctx (m 2) a radix False rt) (nat_text (unat radix) (nat (sv a)))"
        using to_string_digits_prints [OF r a(1) p, of m poll ctx 2 False rt] by simp
      have unf: "big_to_string poll ctx m a radix rt = do {
           tmp \<leftarrow> (if radix AND (radix - 1) \<noteq> 0
                 then andthen (js_bigint_new (m 0) (length a)) (\<lambda>t. do { t1 \<leftarrow> blit t 0 a; Some (Inr t1) })
                 else Some (Inr a));
          case tmp of Inl e \<Rightarrow> Some (Inl (Conversion_Failed e), rt) | Inr t \<Rightarrow> to_string_digits poll ctx (m 2) t radix False rt }"
        unfolding big_to_string_def Let_def if_not_P [OF z] using sg False by simp
      show ?thesis
      proof (cases "radix AND (radix - 1) = 0")
        case True
        then show ?thesis using fin unfolding unf t by simp
      next
        case nb: False
        then have sz: "length a \<le> JS_BIGINT_MAX_SIZE" using a(2) by (simp add: print_too_large_def)
        have bl: "blit (map c [0..<length a]) 0 a = Some a" for c by (simp add: blit_def)
        show ?thesis
        proof (cases "m 0")
          case None
          then show ?thesis using nb sz unfolding unf by (auto simp: andthen_def js_bigint_new_def js_malloc_def prints_def)
        next
          case (Some c)
          then show ?thesis using nb sz fin unfolding unf t by (simp add: andthen_def js_bigint_new_def js_malloc_def bl)
        qed
      qed
    qed
  qed
qed

lemma big_to_string_large:
  assumes a: "bigint_ok a" "print_too_large radix a"
  shows "big_to_string poll ctx m a radix rt = Some (Inl (Conversion_Failed Too_Large_To_Allocate), rt)"
proof -
  have ne: "a \<noteq> []" and big: "JS_BIGINT_MAX_SIZE < length a" using a by (simp_all add: bigint_ok_def print_too_large_def)
  have z: "\<not> (length a = 1 \<and> a ! 0 = 0)" using big by (simp add: JS_BIGINT_MAX_SIZE_def JS_LIMB_BITS_def)
  have sg: "js_bigint_sign a \<noteq> 0 \<longleftrightarrow> sv a < 0" using neg_sv [OF ne] by (simp add: js_bigint_sign_def neg_def JS_LIMB_BITS_def drop_bit_63)
  have n: "js_bigint_neg m a = Some (Inl Too_Large_To_Allocate)" using bigint_neg_value [OF ne, of m] big by (simp add: computes_def)
  show ?thesis
    using a(2) big n sg unfolding big_to_string_def Let_def if_not_P [OF z] print_too_large_def
    by (auto simp: andthen_def js_bigint_new_def)
qed

section \<open>Reading back\<close>

lemma to_digit_dchar: "d < 36 \<Longrightarrow> to_digit (dchar d) = d"
proof -
  have "\<forall>d \<in> set [0..<36]. to_digit (dchar d) = d" by code_simp
  moreover assume "d < 36"
  then have "d \<in> set [0..<36]" by simp
  ultimately show ?thesis by (rule bspec)
qed

lemma nat_text_digits:
  assumes "2 \<le> radix" "radix \<le> 36"
  shows "digits_of radix (nat_text radix n)" "text_value radix (nat_text radix n) = n"
    "hd (nat_text radix n) \<noteq> 45"
proof -
  have d: "\<forall>d \<in> set (repr radix n). d < radix" using assms(1) by (rule repr_digits)
  then have d36: "\<forall>d \<in> set (repr radix n). to_digit (dchar d) = d" using assms(2) to_digit_dchar by (meson less_le_trans)
  then show "digits_of radix (nat_text radix n)" using d by (auto simp: digits_of_def nat_text_def)
  have "map (to_digit \<circ> dchar) (repr radix n) = map (\<lambda>d. d) (repr radix n)" by (rule map_cong) (use d36 in auto)
  then show "text_value radix (nat_text radix n) = n" by (simp add: text_value_def nat_text_def value_of_repr)
  obtain d ds where c: "repr radix n = d # ds" by (cases "repr radix n") auto
  have "dchar d \<noteq> 45"
  proof
    assume "dchar d = 45"
    moreover have "to_digit (45 :: u8) = 36" by (simp add: to_digit_def)
    ultimately show False using d d36 c assms(2) by auto
  qed
  then show "hd (nat_text radix n) \<noteq> 45" by (simp add: nat_text_def c)
qed

lemma nat_text_nonempty: "nat_text radix n \<noteq> []"
  by (simp add: nat_text_def)

lemma signed_value_text:
  assumes "2 \<le> radix" "radix \<le> 36"
  shows "signed_value radix (int_text radix z) = z"
    "digits_of radix (if int_text radix z \<noteq> [] \<and> hd (int_text radix z) = 45 then tl (int_text radix z) else int_text radix z)"
  using nat_text_digits [OF assms] nat_text_nonempty [of radix "nat z"] by (auto simp: signed_value_def int_text_def)

end
