(* ===== verification/BigIntTextProps.thy ===== *)
theory BigIntTextProps
  imports BigIntProps BigIntPrint
begin

text \<open>Properties of the conversions between numbers and text.\<close>

text \<open>C32: The integer printers of \<open>dtoa.c\<close> write the canonical text of their argument, in radix 10 and
  in every radix from 2 to 36: they return its length, start at the given offset, and leave the rest
  of the buffer alone, for every buffer that has room for the text.\<close>

theorem integer_printing:
  assumes "2 \<le> unat radix" "unat radix \<le> 36"
    and "off + length (nat_text 10 (unat n32)) \<le> length buf" "off + length (int_text 10 (sint n32)) \<le> length buf"
    and "off + length (nat_text (unat radix) (unat n)) \<le> length buf" "off + length (int_text (unat radix) (sint n)) \<le> length buf"
  shows "written buf off (nat_text 10 (unat n32)) (u32toa buf off n32)
    \<and> written buf off (int_text 10 (sint n32)) (i32toa buf off n32)
    \<and> written buf off (nat_text (unat radix) (unat n)) (u64toa_radix buf off n radix)
    \<and> written buf off (int_text (unat radix) (sint n)) (i64toa_radix buf off n radix)"
  using assms u32toa_ok [of off n32 buf] i32toa_ok [of off n32 buf] u64toa_radix_ok [of radix off n buf] i64toa_radix_ok [of radix off n buf]
  by simp

theorem integer_printing_witness:
  "u64toa_radix ([0, 0, 0, 0, 0, 0, 0, 0, 0, 0, 0]) 1 255 16 = Some ([0, 102, 102, 0, 0, 0, 0, 0, 0, 0, 0], 2)
   \<and> i32toa ([0, 0, 0, 0, 0, 0, 0, 0, 0, 0, 0]) 1 (- 10) = Some ([0, 45, 49, 48, 0, 0, 0, 0, 0, 0, 0], 3)"
proof -
  have t: "repr 10 4294967286 = [4, 2, 9, 4, 9, 6, 7, 2, 8, 6]" "int_text 10 (- 10) = [45, 49, 48]"
    "nat_text 16 255 = [102, 102]" "int_text 16 255 = [102, 102]"
    by (simp_all add: nat_text_def int_text_def repr.simps dchar_def)
  show ?thesis using integer_printing [of 16 1 "- 10" "[0, 0, 0, 0, 0, 0, 0, 0, 0, 0, 0]" 255] by (simp add: t written_def)
qed

lemma short_to_string:
  assumes r: "2 \<le> unat radix" "unat radix \<le> 36"
  shows "js_bigint_to_string1 poll ctx m (Short_Big_Int v) radix rt = Some (Inr (int_text (unat radix) (sint v)), rt)"
proof -
  have "\<bar>sint v\<bar> \<le> 2 ^ 63" using sint_ge [of v] sint_lt [of v] by simp
  then have "nat \<bar>sint v\<bar> < 2 ^ 64" by (simp add: nat_less_iff)
  also have "(2 :: nat) ^ 64 \<le> unat radix ^ 64" using r(1) by (intro power_mono) simp_all
  finally have "length (repr (unat radix) (nat \<bar>sint v\<bar>)) \<le> 64" using r(1) by (intro length_repr) simp_all
  then have "0 + length (int_text (unat radix) (sint v)) \<le> length (replicate 66 (0 :: u8))"
    by (auto simp: int_text_def nat_text_def abs_if)
  from i64toa_radix_ok [OF r this] show ?thesis by (simp add: js_bigint_to_string1_def written_def)
qed

text \<open>C30: Printing a BigInt always ends, for short and for allocated ones, in every radix from 2 to 36. The bytes that it ends with are
  the text of the value, built in a buffer whose size was fixed beforehand from the bit length, unless an allocation fails or
  the interrupt handler, polled in each round of the division by a power of the radix, stops it. The one other
  outcome is that of a number one limb beyond the limit of the size, which a sum can have: where printing needs a
  copy of it, for its sign or for a radix that is not a power of two, it is refused as too large, and never
  otherwise.\<close>

theorem bigint_to_string_ends:
  assumes "2 \<le> unat radix" "unat radix \<le> 36" "bigint_ok a"
  shows "js_bigint_to_string1 poll ctx m (Short_Big_Int v) radix rt = Some (Inr (int_text (unat radix) (sint v)), rt)
    \<and> (if JS_BIGINT_MAX_SIZE < length a \<and> (sv a < 0 \<or> radix AND (radix - 1) \<noteq> 0)
       then js_bigint_to_string1 poll ctx m (Big_Int a) radix rt = Some (Inl (Conversion_Failed Too_Large_To_Allocate), rt)
       else \<exists>res rt'. js_bigint_to_string1 poll ctx m (Big_Int a) radix rt = Some (res, rt')
         \<and> (res = Inr (int_text (unat radix) (sv a))
            \<or> res = Inl Interrupted \<and> (\<exists>rt. fst (poll rt) \<noteq> 0)
            \<or> res = Inl (Conversion_Failed Out_Of_Memory) \<and> (\<exists>k. m k = None)))"
  using short_to_string [OF assms(1,2), of poll ctx m v rt] big_to_string_large [OF assms(3), of radix poll ctx m rt] big_to_string_value [OF assms, of m poll ctx rt]
  by (simp add: js_bigint_to_string1_def prints_def print_too_large_def)

theorem bigint_to_string_ends_witness:
  "\<forall>rt :: unit js_runtime. (\<exists>rt'. js_bigint_to_string1 (\<lambda>rt. (0, rt)) 0 plenty (Big_Int [0, - 1]) 10 rt
       = Some (Inr [45, 49, 56, 52, 52, 54, 55, 52, 52, 48, 55, 51, 55, 48, 57, 53, 53, 49, 54, 49, 54], rt'))
     \<and> js_bigint_to_string1 (\<lambda>rt. (0, rt)) 0 plenty (Short_Big_Int (- 7)) 10 rt = Some (Inr [45, 55], rt)"
proof
  fix rt :: "unit js_runtime"
  have "bigint_ok [0, - 1]" by (simp add: bigint_ok_def)
  moreover have "sv [0, - 1] = - 18446744073709551616" by (simp add: sv_two W_def)
  moreover have "int_text 10 (- 18446744073709551616) = [45, 49, 56, 52, 52, 54, 55, 52, 52, 48, 55, 51, 55, 48, 57, 53, 53, 49, 54, 49, 54]"
    "int_text 10 (- 7) = [45, 55]"
    by (simp_all add: nat_text_def int_text_def repr.simps dchar_def)
  ultimately show "(\<exists>rt'. js_bigint_to_string1 (\<lambda>rt. (0, rt)) 0 plenty (Big_Int [0, - 1]) 10 rt
       = Some (Inr [45, 49, 56, 52, 52, 54, 55, 52, 52, 48, 55, 51, 55, 48, 57, 53, 53, 49, 54, 49, 54], rt'))
     \<and> js_bigint_to_string1 (\<lambda>rt. (0, rt)) 0 plenty (Short_Big_Int (- 7)) 10 rt = Some (Inr [45, 55], rt)"
    using bigint_to_string_ends [of 10 "[0, - 1]" "\<lambda>rt. (0, rt)" 0 plenty "- 7" rt]
    by (auto simp: JS_BIGINT_MAX_SIZE_def JS_LIMB_BITS_def plenty_def)
qed

lemma text_limbs:
  assumes "bigint_ok a" "length a \<le> 4000" "radix \<in> {2, 8, 10, 16}"
  shows "\<not> (length (significant (int_text (unat (radix :: u32)) (sv a))) > JS_BIGINT_MAX_SIZE * JS_LIMB_BITS
      \<or> from_string_limbs (unat radix) (radix_log radix) (length (significant (int_text (unat radix) (sv a)))) > JS_BIGINT_MAX_SIZE)"
proof -
  define R n where "R = unat radix" and "n = length (significant (int_text R (sv a)))"
  have ne: "a \<noteq> []" using assms(1) by (simp add: bigint_ok_def)
  have R: "R \<in> {2, 8, 10, 16}" using assms(3) by (auto simp: R_def)
  have "length (dropWhile P xs) \<le> length xs" for P and xs :: "u8 list" by (metis length_dropWhile_le)
  moreover have "length (if int_text R (sv a) \<noteq> [] \<and> hd (int_text R (sv a)) = 45 then tl (int_text R (sv a)) else int_text R (sv a))
      = length (repr R (nat \<bar>sv a\<bar>))"
    using nat_text_digits(3) [of R "nat (sv a)"] nat_text_nonempty [of R "nat (sv a)"] R by (auto simp: int_text_def)
  ultimately have n: "n \<le> length (repr R (nat \<bar>sv a\<bar>))" unfolding n_def significant_def by metis
  have "2 * \<bar>sv a\<bar> \<le> W ^ length a" using sv_bounds [OF ne] by linarith
  then have "int (nat \<bar>sv a\<bar>) < W ^ length a" using W_pos(6) [of "length a"] by linarith
  also have "\<dots> = int (2 ^ (64 * length a))" by (simp add: power_two_W)
  finally have "nat \<bar>sv a\<bar> < 2 ^ (64 * length a)" by (simp only: of_nat_less_iff)
  also have "\<dots> \<le> R ^ (64 * length a)" using R by (intro power_mono) auto
  finally have "length (repr R (nat \<bar>sv a\<bar>)) \<le> 64 * length a" using R ne by (intro length_repr) (auto simp: Suc_le_eq)
  then have n2: "n \<le> 256000" using n assms(2) by linarith
  then have "from_string_limbs R (radix_log radix) n \<le> JS_BIGINT_MAX_SIZE"
    using assms(3) by (auto simp: from_string_limbs_def JS_BIGINT_MAX_SIZE_def JS_LIMB_BITS_def radix_log_def R_def)
  then show ?thesis using n2 by (simp add: n_def [symmetric] R_def [symmetric] JS_BIGINT_MAX_SIZE_def JS_LIMB_BITS_def)
qed

lemma text_read_back:
  assumes r: "radix \<in> {2, 8, 10, 16}" and a: "bigint_ok a" "length a \<le> 4000"
    and m: "\<And>k. m k \<noteq> None" and p: "\<And>rt. fst (poll rt) = 0"
  shows "\<exists>t rt'. js_bigint_to_string1 poll ctx m (Big_Int a) radix rt = Some (Inr t, rt')
    \<and> js_bigint_from_string m t radix = Some (Inr a)"
proof -
  have R: "2 \<le> unat radix" "unat radix \<le> 36" using r by auto
  have sm: "\<not> print_too_large radix a" using a(2) by (simp add: print_too_large_def JS_BIGINT_MAX_SIZE_def JS_LIMB_BITS_def)
  obtain rt' where pr: "big_to_string poll ctx m a radix rt = Some (Inr (int_text (unat radix) (sv a)), rt')"
    using big_to_string_value [OF R a(1) sm, of m poll ctx rt] m p by (auto simp: prints_def)
  have "computes m (js_bigint_from_string m (int_text (unat radix) (sv a)) radix) (signed_value (unat radix) (int_text (unat radix) (sv a))) False"
    using from_string_value [OF r signed_value_text(2) [OF R], of m "sv a"] text_limbs [OF a r] by simp
  then obtain b where b: "js_bigint_from_string m (int_text (unat radix) (sv a)) radix = Some (Inr b)" "bigint_ok b" "sv b = sv a"
    using m unfolding signed_value_text(1) [OF R] by (auto simp: computes_def)
  then show ?thesis using pr sv_inject [OF b(2) a(1) b(3)] by (simp add: js_bigint_to_string1_def)
qed

text \<open>C31: Parsing the digits of a BigInt, with its sign and with any number of leading zeros, in radix 2, 8,
  10 or 16 gives the normalised array of the value that the digits denote; the array whose size is
  estimated from the number of digits has room for it, and only a number of digits beyond the limit
  of the size or a failed allocation is reported. What the printer writes in these radices is read back as the
  very same array, for BigInts of up to 4000 limbs, when allocations succeed and nothing interrupts the printer.\<close>

theorem bigint_text_roundtrip:
  assumes r: "radix \<in> {2, 8, 10, 16}" and str: "digits_of (unat radix) (if str \<noteq> [] \<and> hd str = 45 then tl str else str)"
    and a: "bigint_ok a" "length a \<le> 4000" and m2: "\<And>k. m2 k \<noteq> None" and p: "\<And>rt. fst (poll rt) = 0"
  shows "computes m (js_bigint_from_string m str radix) (signed_value (unat radix) str)
      (length (significant str) > JS_BIGINT_MAX_SIZE * JS_LIMB_BITS
        \<or> from_string_limbs (unat radix) (radix_log radix) (length (significant str)) > JS_BIGINT_MAX_SIZE)
    \<and> (\<exists>t rt'. js_bigint_to_string1 poll ctx m2 (Big_Int a) radix rt = Some (Inr t, rt')
      \<and> js_bigint_from_string m2 t radix = Some (Inr a))"
  using from_string_value [OF r str, of m] text_read_back [OF r a m2 p, where ctx = ctx and rt = rt] by (intro conjI)

theorem bigint_text_roundtrip_witness:
  "\<forall>rt :: unit js_runtime. (\<exists>r. js_bigint_from_string plenty [45, 48, 49, 70] 16 = Some (Inr r) \<and> bigint_ok r \<and> sv r = - 31)
     \<and> (\<exists>t rt'. js_bigint_to_string1 (\<lambda>rt. (0, rt)) 0 plenty (Big_Int [7, - 3]) 16 rt = Some (Inr t, rt')
     \<and> js_bigint_from_string plenty t 16 = Some (Inr [7, - 3]))"
proof
  fix rt :: "unit js_runtime"
  have d: "digits_of (unat (16 :: u32)) (if [45, 48, 49, 70] \<noteq> [] \<and> hd [45, 48, 49, 70 :: u8] = 45 then tl [45, 48, 49, 70] else [45, 48, 49, 70])"
    "signed_value 16 [45, 48, 49, 70] = - 31" "significant [45, 48, 49, 70] = [49, 70]"
    by (simp_all add: digits_of_def to_digit_def signed_value_def text_value_Cons text_value_Nil significant_def)
  have r: "(16 :: u32) \<in> {2, 8, 10, 16}" and a: "bigint_ok [7, - 3]" "length [7, - 3 :: u64] \<le> 4000" by (simp_all add: bigint_ok_def)
  have m: "plenty k \<noteq> None" for k by (simp add: plenty_def)
  have p: "fst ((\<lambda>rt :: unit js_runtime. (0 :: int, rt)) rt) = 0" for rt by simp
  note t = bigint_text_roundtrip [where m = plenty and ?m2.0 = plenty and poll = "\<lambda>rt. (0, rt)" and ctx = 0 and rt = rt, OF r d(1) a m p]
  then have c: "computes plenty (js_bigint_from_string plenty [45, 48, 49, 70] 16) (- 31) False"
    using d(2,3) by (simp add: JS_BIGINT_MAX_SIZE_def JS_LIMB_BITS_def from_string_limbs_def radix_log_def)
  show "(\<exists>r. js_bigint_from_string plenty [45, 48, 49, 70] 16 = Some (Inr r) \<and> bigint_ok r \<and> sv r = - 31)
     \<and> (\<exists>t rt'. js_bigint_to_string1 (\<lambda>rt. (0, rt)) 0 plenty (Big_Int [7, - 3]) 16 rt = Some (Inr t, rt')
     \<and> js_bigint_from_string plenty t 16 = Some (Inr [7, - 3]))"
    by (rule conjI [OF computes_plenty [OF c] conjunct2 [OF t]])
qed

end
