(* ===== verification/GcHeap.thy ===== *)
theory GcHeap
  imports Engine
begin

text \<open>
  The cycle collector and the finalisation of reference counted blocks of \<open>quickjs/quickjs.c\<close>.
  A block is its address; its list node \<open>header.link\<close> is that address too. The heap holds the
  links of the three lists of the runtime, the reference counts, the marks, the bodies of the
  blocks and the blocks handed back to the allocator: using one of those again is None, as is
  a failed assertion. The storage of strings, symbols and BigInts, which refer to no block, is
  left out. What the data of a class holds is the list \<open>class_refs\<close>: the contract of a class is
  that its \<open>gc_mark\<close> enumerates these references and its finalizer releases them.
\<close>

section \<open>Blocks and the references they hold\<close>

datatype gc_ref = Value_Ref addr | Shape_Ref addr | Var_Ref_Ref addr | Async_Ref addr | Context_Ref addr

fun target :: "gc_ref \<Rightarrow> addr" where
  "target (Value_Ref p) = p"
| "target (Shape_Ref p) = p"
| "target (Var_Ref_Ref p) = p"
| "target (Async_Ref p) = p"
| "target (Context_Ref p) = p"

datatype js_property =
    Prop_Value jsval | Prop_Getset "addr option" "addr option" | Prop_Varref addr | Prop_Autoinit addr

datatype gc_body =
    Js_Object (shape: addr) (props: "(bool \<times> js_property) list") (class_of: nat) (class_refs: "gc_ref list") (weakref_count: nat)
  | Function_Bytecode "jsval list" "addr option"
  | Shape "addr option"
  | Var_Ref_Detached jsval
  | Var_Ref_On_Stack "addr option"
  | Async_Function bool jsval jsval "jsval list option" jsval jsval
  | Js_Context "addr list" "jsval list" "addr option list"
  | Module_Def "jsval list" "addr option list" "jsval list" "addr option"

text \<open>
  A property of an object comes with a flag that says whether its slot is in use (an atom other
  than \<open>JS_ATOM_NULL\<close>). A variable reference on the stack names its frame only when that frame
  belongs to an async function; the table \<open>var_refs\<close> of a frame, which does not own its entries, is not part of the
  heap, so that \<open>free_var_ref\<close> has neither the assertion on the entry nor its reset. The stack of an async function is None while it runs. A context
  holds its loaded modules, its values and its five shapes, a module definition the attributes
  of its requests, the variable references of its local exports, its values, and the context
  whose list it is on.
\<close>

datatype gc_obj_type =
    JS_GC_OBJ_TYPE_JS_OBJECT | JS_GC_OBJ_TYPE_FUNCTION_BYTECODE | JS_GC_OBJ_TYPE_SHAPE | JS_GC_OBJ_TYPE_VAR_REF
  | JS_GC_OBJ_TYPE_ASYNC_FUNCTION | JS_GC_OBJ_TYPE_JS_CONTEXT | JS_GC_OBJ_TYPE_MODULE

fun obj_type :: "gc_body \<Rightarrow> gc_obj_type" where
  "obj_type (Js_Object _ _ _ _ _) = JS_GC_OBJ_TYPE_JS_OBJECT"
| "obj_type (Function_Bytecode _ _) = JS_GC_OBJ_TYPE_FUNCTION_BYTECODE"
| "obj_type (Shape _) = JS_GC_OBJ_TYPE_SHAPE"
| "obj_type (Var_Ref_Detached _) = JS_GC_OBJ_TYPE_VAR_REF"
| "obj_type (Var_Ref_On_Stack _) = JS_GC_OBJ_TYPE_VAR_REF"
| "obj_type (Async_Function _ _ _ _ _ _) = JS_GC_OBJ_TYPE_ASYNC_FUNCTION"
| "obj_type (Js_Context _ _ _) = JS_GC_OBJ_TYPE_JS_CONTEXT"
| "obj_type (Module_Def _ _ _ _) = JS_GC_OBJ_TYPE_MODULE"

definition JS_CLASS_OBJECT :: nat where "JS_CLASS_OBJECT = 1"

text \<open>\<open>JS_MarkValue\<close>: the block of a value, when it is one that the collector knows.\<close>

fun JS_MarkValue :: "jsval \<Rightarrow> gc_ref list" where
  "JS_MarkValue (JS_Object p) = [Value_Ref p]"
| "JS_MarkValue (JS_FunctionBytecode p) = [Value_Ref p]"
| "JS_MarkValue (JS_Module p) = [Value_Ref p]"
| "JS_MarkValue _ = []"

definition mark_values :: "jsval list \<Rightarrow> gc_ref list" where
  "mark_values vs = concat (map JS_MarkValue vs)"

definition option_ref :: "(addr \<Rightarrow> gc_ref) \<Rightarrow> addr option \<Rightarrow> gc_ref list" where
  "option_ref f p = (case p of None \<Rightarrow> [] | Some p \<Rightarrow> [f p])"

fun property_refs :: "js_property \<Rightarrow> gc_ref list" where
  "property_refs (Prop_Value v) = JS_MarkValue v"
| "property_refs (Prop_Getset g s) = option_ref Value_Ref g @ option_ref Value_Ref s"
| "property_refs (Prop_Varref p) = [Var_Ref_Ref p]"
| "property_refs (Prop_Autoinit p) = [Context_Ref p]"

fun mark_context :: "addr list \<Rightarrow> jsval list \<Rightarrow> addr option list \<Rightarrow> gc_ref list" where
  "mark_context modules vals shapes = map Value_Ref modules @ mark_values vals @ concat (map (option_ref Shape_Ref) shapes)"

fun js_mark_module_def :: "jsval list \<Rightarrow> addr option list \<Rightarrow> jsval list \<Rightarrow> gc_ref list" where
  "js_mark_module_def attributes exports vals =
     mark_values attributes @ concat (map (option_ref Var_Ref_Ref) exports) @ mark_values vals"

text \<open>The references that \<open>mark_children\<close> visits, in its order.\<close>

fun children :: "gc_body \<Rightarrow> gc_ref list" where
  "children (Js_Object sh prs cid crefs w) =
     Shape_Ref sh # concat (map (\<lambda>(used, pr). if used then property_refs pr else []) prs)
       @ (if cid \<noteq> JS_CLASS_OBJECT then crefs else [])"
| "children (Function_Bytecode cpool ctx) = mark_values cpool @ option_ref Context_Ref ctx"
| "children (Var_Ref_Detached v) = JS_MarkValue v"
| "children (Var_Ref_On_Stack f) = option_ref Async_Ref f"
| "children (Async_Function completed cur_func this_val stack r0 r1) =
     (if completed then [] else JS_MarkValue cur_func @ JS_MarkValue this_val @ (case stack of None \<Rightarrow> [] | Some vs \<Rightarrow> mark_values vs))
       @ JS_MarkValue r0 @ JS_MarkValue r1"
| "children (Shape proto) = option_ref Value_Ref proto"
| "children (Js_Context modules vals shapes) = mark_context modules vals shapes"
| "children (Module_Def attributes exports vals l) = js_mark_module_def attributes exports vals"

section \<open>The heap\<close>

datatype gc_phase = JS_GC_PHASE_NONE | JS_GC_PHASE_DECREF | JS_GC_PHASE_REMOVE_CYCLES

record gc_heap =
  link :: links
  ref_count :: "addr \<Rightarrow> int"
  mark_bit :: "addr \<Rightarrow> nat"
  body :: "addr \<Rightarrow> gc_body"
  phase :: gc_phase
  freed :: "addr list"
  gc_obj_list :: addr
  gc_zero_ref_count_list :: addr
  tmp_obj_list :: addr

definition alive :: "addr \<Rightarrow> gc_heap \<Rightarrow> unit option" where
  "alive p h = (if p \<in> set (freed h) then None else Some ())"

definition js_free_rt :: "addr \<Rightarrow> gc_heap \<Rightarrow> gc_heap option" where
  "js_free_rt p h = do { _ \<leftarrow> alive p h; Some (h\<lparr>freed := p # freed h\<rparr>) }"

definition set_rc :: "addr \<Rightarrow> int \<Rightarrow> gc_heap \<Rightarrow> gc_heap" where
  "set_rc p n h = h\<lparr>ref_count := (ref_count h)(p := n)\<rparr>"

definition set_mark :: "addr \<Rightarrow> nat \<Rightarrow> gc_heap \<Rightarrow> gc_heap" where
  "set_mark p n h = h\<lparr>mark_bit := (mark_bit h)(p := n)\<rparr>"

text \<open>\<open>list_del\<close> followed by an insertion at the head or at the tail of another list.\<close>

definition move_tail :: "addr \<Rightarrow> addr \<Rightarrow> gc_heap \<Rightarrow> gc_heap" where
  "move_tail p head h = h\<lparr>link := list_add_tail p head (list_del p (link h))\<rparr>"

definition move_front :: "addr \<Rightarrow> addr \<Rightarrow> gc_heap \<Rightarrow> gc_heap" where
  "move_front p head h = h\<lparr>link := list_add p head (list_del p (link h))\<rparr>"

definition add_gc_object :: "addr \<Rightarrow> gc_body \<Rightarrow> gc_heap \<Rightarrow> gc_heap" where
  "add_gc_object p b h =
     (let h1 = set_mark p 0 h; h2 = h1\<lparr>body := (body h1)(p := b)\<rparr>
      in h2\<lparr>link := list_add_tail p (gc_obj_list h2) (link h2)\<rparr>)"

definition remove_gc_object :: "addr \<Rightarrow> gc_heap \<Rightarrow> gc_heap" where
  "remove_gc_object p h = h\<lparr>link := list_del p (link h)\<rparr>"

fun each :: "('a \<Rightarrow> 's \<Rightarrow> 's option) \<Rightarrow> 'a list \<Rightarrow> 's \<Rightarrow> 's option" where
  "each f [] s = Some s"
| "each f (x # xs) s = do { s1 \<leftarrow> f x s; each f xs s1 }"

definition mark_children :: "addr \<Rightarrow> (addr \<Rightarrow> gc_heap \<Rightarrow> gc_heap option) \<Rightarrow> gc_heap \<Rightarrow> gc_heap option" where
  "mark_children gp mark_func h = do { _ \<leftarrow> alive gp h; each mark_func (map target (children (body h gp))) h }"

text \<open>The two macros over lists: the safe one reads the next node before the body runs.\<close>

partial_function (option) for_each_safe :: "addr \<Rightarrow> (addr \<Rightarrow> gc_heap \<Rightarrow> gc_heap option) \<Rightarrow> addr \<Rightarrow> gc_heap \<Rightarrow> gc_heap option" where
  "for_each_safe head f el h =
     (if el = head then Some h
      else let el1 = next_of (link h) el in do { h1 \<leftarrow> f el h; for_each_safe head f el1 h1 })"

partial_function (option) for_each :: "addr \<Rightarrow> (addr \<Rightarrow> gc_heap \<Rightarrow> gc_heap option) \<Rightarrow> addr \<Rightarrow> gc_heap \<Rightarrow> gc_heap option" where
  "for_each head f el h =
     (if el = head then Some h
      else do { h1 \<leftarrow> f el h; for_each head f (next_of (link h1) el) h1 })"

section \<open>Trial deletion\<close>

definition gc_decref_child :: "addr \<Rightarrow> gc_heap \<Rightarrow> gc_heap option" where
  "gc_decref_child p h =
     do {
       _ \<leftarrow> alive p h;
       if \<not> ref_count h p > 0 then None
       else let h1 = set_rc p (ref_count h p - 1) h in
         if ref_count h1 p = 0 \<and> mark_bit h1 p = 1 then Some (move_tail p (tmp_obj_list h1) h1) else Some h1
     }"

definition decref_object :: "addr \<Rightarrow> gc_heap \<Rightarrow> gc_heap option" where
  "decref_object p h =
     (if mark_bit h p \<noteq> 0 then None
      else do {
        h1 \<leftarrow> mark_children p gc_decref_child h;
        let h2 = set_mark p 1 h1;
        if ref_count h2 p = 0 then Some (move_tail p (tmp_obj_list h2) h2) else Some h2
      })"

definition gc_decref :: "gc_heap \<Rightarrow> gc_heap option" where
  "gc_decref h =
     (let h1 = h\<lparr>link := init_list_head (tmp_obj_list h) (link h)\<rparr>
      in for_each_safe (gc_obj_list h1) decref_object (next_of (link h1) (gc_obj_list h1)) h1)"

definition gc_scan_incref_child :: "addr \<Rightarrow> gc_heap \<Rightarrow> gc_heap option" where
  "gc_scan_incref_child p h =
     do {
       _ \<leftarrow> alive p h;
       let h1 = set_rc p (ref_count h p + 1) h;
       if ref_count h1 p = 1 then Some (set_mark p 0 (move_tail p (gc_obj_list h1) h1)) else Some h1
     }"

definition gc_scan_incref_child2 :: "addr \<Rightarrow> gc_heap \<Rightarrow> gc_heap option" where
  "gc_scan_incref_child2 p h = do { _ \<leftarrow> alive p h; Some (set_rc p (ref_count h p + 1) h) }"

definition scan_object :: "addr \<Rightarrow> gc_heap \<Rightarrow> gc_heap option" where
  "scan_object p h =
     (if \<not> ref_count h p > 0 then None else mark_children p gc_scan_incref_child (set_mark p 0 h))"

definition restore_object :: "addr \<Rightarrow> gc_heap \<Rightarrow> gc_heap option" where
  "restore_object p h = mark_children p gc_scan_incref_child2 h"

definition gc_scan :: "gc_heap \<Rightarrow> gc_heap option" where
  "gc_scan h =
     do {
       h1 \<leftarrow> for_each (gc_obj_list h) scan_object (next_of (link h) (gc_obj_list h)) h;
       for_each (tmp_obj_list h1) restore_object (next_of (link h1) (tmp_obj_list h1)) h1
     }"

section \<open>Releasing references\<close>

text \<open>
  Inside the freeing phases. \<open>JS_FreeValueRT\<close> on a block: at zero it waits on
  \<open>gc_zero_ref_count_list\<close>, except while cycles are removed, where its turn comes anyway.
\<close>

definition queue_zero :: "addr \<Rightarrow> gc_heap \<Rightarrow> gc_heap" where
  "queue_zero p h =
     (if phase h \<noteq> JS_GC_PHASE_REMOVE_CYCLES then set_mark p 1 (move_front p (gc_zero_ref_count_list h) h) else h)"

definition free_value_ref :: "addr \<Rightarrow> gc_heap \<Rightarrow> gc_heap option" where
  "free_value_ref p h =
     do {
       _ \<leftarrow> alive p h;
       let h1 = set_rc p (ref_count h p - 1) h;
       Some (if ref_count h1 p \<le> 0 then queue_zero p h1 else h1)
     }"

text \<open>The async function that a variable reference keeps; its mark is left alone.\<close>

definition async_func_free :: "addr \<Rightarrow> gc_heap \<Rightarrow> gc_heap option" where
  "async_func_free p h =
     do {
       _ \<leftarrow> alive p h;
       let h1 = set_rc p (ref_count h p - 1) h;
       Some (if ref_count h1 p = 0 \<and> phase h1 \<noteq> JS_GC_PHASE_REMOVE_CYCLES
             then move_front p (gc_zero_ref_count_list h1) h1 else h1)
     }"

text \<open>\<open>JS_FreeValueRT\<close> on the values of a block.\<close>

definition release_value :: "gc_ref \<Rightarrow> gc_heap \<Rightarrow> gc_heap option" where
  "release_value r h = free_value_ref (target r) h"

definition js_free_shape0 :: "addr \<Rightarrow> gc_heap \<Rightarrow> gc_heap option" where
  "js_free_shape0 sh h =
     (if ref_count h sh \<noteq> 0 then None
      else case body h sh of
        Shape proto \<Rightarrow> do {
          h1 \<leftarrow> each release_value (option_ref Value_Ref proto) h;
          js_free_rt sh (remove_gc_object sh h1)
        }
      | _ \<Rightarrow> None)"

definition js_free_shape :: "addr \<Rightarrow> gc_heap \<Rightarrow> gc_heap option" where
  "js_free_shape sh h =
     do {
       _ \<leftarrow> alive sh h;
       let h1 = set_rc sh (ref_count h sh - 1) h;
       if ref_count h1 sh \<le> 0 then js_free_shape0 sh h1 else Some h1
     }"

definition free_var_ref :: "addr \<Rightarrow> gc_heap \<Rightarrow> gc_heap option" where
  "free_var_ref v h =
     do {
       _ \<leftarrow> alive v h;
       if \<not> ref_count h v > 0 then None
       else let h1 = set_rc v (ref_count h v - 1) h in
         if ref_count h1 v = 0
         then do {
           h2 \<leftarrow> (case body h1 v of
                   Var_Ref_Detached x \<Rightarrow> each release_value (JS_MarkValue x) h1
                 | Var_Ref_On_Stack f \<Rightarrow> each (\<lambda>r. async_func_free (target r)) (option_ref Async_Ref f) h1
                 | _ \<Rightarrow> None);
           js_free_rt v (remove_gc_object v h2)
         }
         else Some h1
     }"

text \<open>\<open>JS_FreeContext\<close>: modules are taken off the list of the context before they are released.\<close>

fun js_free_modules :: "addr \<Rightarrow> addr list \<Rightarrow> gc_heap \<Rightarrow> gc_heap option" where
  "js_free_modules ctx [] h = Some h"
| "js_free_modules ctx (m # ms) h =
     (case (body h ctx, body h m) of
        (Js_Context _ vals shapes, Module_Def attributes exports mvals _) \<Rightarrow>
          do {
            h1 \<leftarrow> free_value_ref m (h\<lparr>body := (body h)(ctx := Js_Context ms vals shapes, m := Module_Def attributes exports mvals None)\<rparr>);
            js_free_modules ctx ms h1
          }
      | _ \<Rightarrow> None)"

definition JS_FreeContext :: "addr \<Rightarrow> gc_heap \<Rightarrow> gc_heap option" where
  "JS_FreeContext ctx h =
     do {
       _ \<leftarrow> alive ctx h;
       let h1 = set_rc ctx (ref_count h ctx - 1) h;
       if ref_count h1 ctx > 0 then Some h1
       else if ref_count h1 ctx \<noteq> 0 then None
       else case body h1 ctx of
         Js_Context modules vals shapes \<Rightarrow> do {
           h2 \<leftarrow> js_free_modules ctx modules h1;
           h3 \<leftarrow> each release_value (mark_values vals) h2;
           h4 \<leftarrow> each (\<lambda>r. js_free_shape (target r)) (concat (map (option_ref Shape_Ref) shapes)) h3;
           js_free_rt ctx (remove_gc_object ctx h4)
         }
       | _ \<Rightarrow> None
     }"

text \<open>A reference of any kind, as the field that holds it is released.\<close>

fun release :: "gc_ref \<Rightarrow> gc_heap \<Rightarrow> gc_heap option" where
  "release (Value_Ref p) = free_value_ref p"
| "release (Shape_Ref p) = js_free_shape p"
| "release (Var_Ref_Ref p) = free_var_ref p"
| "release (Async_Ref p) = async_func_free p"
| "release (Context_Ref p) = JS_FreeContext p"

text \<open>\<open>free_property\<close>.\<close>

definition free_property :: "js_property \<Rightarrow> gc_heap \<Rightarrow> gc_heap option" where
  "free_property pr = each release (property_refs pr)"

section \<open>Freeing a block\<close>

text \<open>The structure stays while references to it may be around.\<close>

definition discard :: "addr \<Rightarrow> gc_heap \<Rightarrow> gc_heap option" where
  "discard p h =
     (let h1 = remove_gc_object p h in
      if phase h1 = JS_GC_PHASE_REMOVE_CYCLES \<and> ref_count h1 p \<noteq> 0
      then Some (h1\<lparr>link := list_add_tail p (gc_zero_ref_count_list h1) (link h1)\<rparr>)
      else js_free_rt p h1)"

definition free_object :: "addr \<Rightarrow> gc_heap \<Rightarrow> gc_heap option" where
  "free_object p h =
     (case body h p of
        Js_Object sh prs cid crefs w \<Rightarrow> do {
          h1 \<leftarrow> each (\<lambda>(_, pr). free_property pr) prs h;
          h2 \<leftarrow> js_free_shape sh h1;
          h3 \<leftarrow> each release crefs h2;
          let h4 = h3\<lparr>body := (body h3)(p := Js_Object 0 [] 0 [] w)\<rparr>;
          let h5 = remove_gc_object p h4;
          if phase h5 = JS_GC_PHASE_REMOVE_CYCLES then
            (if ref_count h5 p = 0 \<and> w = 0 then js_free_rt p h5
             else Some (h5\<lparr>link := list_add_tail p (gc_zero_ref_count_list h5) (link h5)\<rparr>))
          else (if w = 0 then js_free_rt p h5 else Some (set_mark p 0 h5))
        }
      | _ \<Rightarrow> None)"

definition free_function_bytecode :: "addr \<Rightarrow> gc_heap \<Rightarrow> gc_heap option" where
  "free_function_bytecode b h =
     (case body h b of
        Function_Bytecode cpool ctx \<Rightarrow> do {
          h1 \<leftarrow> each release_value (mark_values cpool) h;
          h2 \<leftarrow> each (\<lambda>r. JS_FreeContext (target r)) (option_ref Context_Ref ctx) h1;
          discard b h2
        }
      | _ \<Rightarrow> None)"

text \<open>A running async function has no stack to free: the assertion of \<open>async_func_free_frame\<close>.\<close>

definition async_func_free0 :: "addr \<Rightarrow> gc_heap \<Rightarrow> gc_heap option" where
  "async_func_free0 s h =
     (case body h s of
        Async_Function completed cur_func this_val stack r0 r1 \<Rightarrow> do {
          h1 \<leftarrow> (if completed then Some h
                else case stack of None \<Rightarrow> None
                  | Some vs \<Rightarrow> each release_value (mark_values vs @ JS_MarkValue cur_func @ JS_MarkValue this_val) h);
          h2 \<leftarrow> each release_value (JS_MarkValue r0 @ JS_MarkValue r1) h1;
          discard s h2
        }
      | _ \<Rightarrow> None)"

definition js_free_module_def :: "addr \<Rightarrow> gc_heap \<Rightarrow> gc_heap option" where
  "js_free_module_def m h =
     (case body h m of
        Module_Def attributes exports vals _ \<Rightarrow> do {
          h1 \<leftarrow> each release_value (mark_values attributes) h;
          h2 \<leftarrow> each (\<lambda>r. free_var_ref (target r)) (concat (map (option_ref Var_Ref_Ref) exports)) h1;
          h3 \<leftarrow> each release_value (mark_values vals) h2;
          h4 \<leftarrow> (case body h3 m of
             Module_Def _ _ _ (Some ctx) \<Rightarrow> do {
               _ \<leftarrow> alive ctx h3;
               case body h3 ctx of
                 Js_Context ms cvals shapes \<Rightarrow>
                   Some (h3\<lparr>body := (body h3)(ctx := Js_Context (remove1 m ms) cvals shapes, m := Module_Def attributes exports vals None)\<rparr>)
               | _ \<Rightarrow> None
             }
           | _ \<Rightarrow> Some h3);
          discard m h4
        }
      | _ \<Rightarrow> None)"

definition free_gc_object :: "addr \<Rightarrow> gc_heap \<Rightarrow> gc_heap option" where
  "free_gc_object p h =
     do {
       _ \<leftarrow> alive p h;
       case obj_type (body h p) of
         JS_GC_OBJ_TYPE_JS_OBJECT \<Rightarrow> free_object p h
       | JS_GC_OBJ_TYPE_FUNCTION_BYTECODE \<Rightarrow> free_function_bytecode p h
       | JS_GC_OBJ_TYPE_ASYNC_FUNCTION \<Rightarrow> async_func_free0 p h
       | JS_GC_OBJ_TYPE_MODULE \<Rightarrow> js_free_module_def p h
       | _ \<Rightarrow> None
     }"

section \<open>Freeing the queue and the cycles\<close>

partial_function (option) zero_loop :: "gc_heap \<Rightarrow> gc_heap option" where
  "zero_loop h =
     (let el = next_of (link h) (gc_zero_ref_count_list h) in
      if el = gc_zero_ref_count_list h then Some h
      else if ref_count h el \<noteq> 0 then None
      else do { h1 \<leftarrow> free_gc_object el h; zero_loop h1 })"

definition free_zero_refcount :: "gc_heap \<Rightarrow> gc_heap option" where
  "free_zero_refcount h =
     do { h1 \<leftarrow> zero_loop (h\<lparr>phase := JS_GC_PHASE_DECREF\<rparr>); Some (h1\<lparr>phase := JS_GC_PHASE_NONE\<rparr>) }"

text \<open>The entry of the host: the block of a value is released and what it kept alive is freed.\<close>

definition js_free_value_rt :: "addr \<Rightarrow> gc_heap \<Rightarrow> gc_heap option" where
  "js_free_value_rt p h =
     do {
       h1 \<leftarrow> free_value_ref p h;
       if ref_count h1 p \<le> 0 \<and> phase h1 = JS_GC_PHASE_NONE then free_zero_refcount h1 else Some h1
     }"

definition value_type :: "gc_obj_type \<Rightarrow> bool" where
  "value_type t \<longleftrightarrow> t = JS_GC_OBJ_TYPE_JS_OBJECT \<or> t = JS_GC_OBJ_TYPE_FUNCTION_BYTECODE
     \<or> t = JS_GC_OBJ_TYPE_ASYNC_FUNCTION \<or> t = JS_GC_OBJ_TYPE_MODULE"

partial_function (option) cycles_loop :: "gc_heap \<Rightarrow> gc_heap option" where
  "cycles_loop h =
     (let el = next_of (link h) (tmp_obj_list h) in
      if el = tmp_obj_list h then Some h
      else do {
        h1 \<leftarrow> (if value_type (obj_type (body h el)) then free_gc_object el h
              else Some (move_tail el (gc_zero_ref_count_list h) h));
        cycles_loop h1
      })"

definition free_remaining :: "addr \<Rightarrow> gc_heap \<Rightarrow> gc_heap option" where
  "free_remaining p h =
     (if \<not> value_type (obj_type (body h p)) then None
      else if obj_type (body h p) = JS_GC_OBJ_TYPE_JS_OBJECT \<and> weakref_count (body h p) \<noteq> 0
      then Some (set_mark p 0 h)
      else js_free_rt p h)"

definition gc_free_cycles :: "gc_heap \<Rightarrow> gc_heap option" where
  "gc_free_cycles h =
     do {
       h1 \<leftarrow> cycles_loop (h\<lparr>phase := JS_GC_PHASE_REMOVE_CYCLES\<rparr>);
       let h2 = h1\<lparr>phase := JS_GC_PHASE_NONE\<rparr>;
       h3 \<leftarrow> for_each_safe (gc_zero_ref_count_list h2) free_remaining (next_of (link h2) (gc_zero_ref_count_list h2)) h2;
       Some (h3\<lparr>link := init_list_head (gc_zero_ref_count_list h3) (link h3)\<rparr>)
     }"

text \<open>\<open>JS_RunGCInternal\<close> after the weakly referenced objects have been handled.\<close>

definition JS_RunGCInternal :: "gc_heap \<Rightarrow> gc_heap option" where
  "JS_RunGCInternal h = do { h1 \<leftarrow> gc_decref h; h2 \<leftarrow> gc_scan h1; gc_free_cycles h2 }"

end
