(* ===== verification/GcMark.thy ===== *)
theory GcMark
  imports GcHeap
begin

text \<open>
  Trial deletion: after \<open>gc_decref\<close> and \<open>gc_scan\<close> the blocks left on \<open>gc_obj_list\<close> are
  those that a reference from outside the heap reaches, and every count is what it was.
\<close>

section \<open>Lists that share no node\<close>

lemma dlist_frame:
  assumes "dlist h head xs" "\<And>x. x \<in> set (head # xs) \<Longrightarrow> next_of h' x = next_of h x \<and> prev_of h' x = prev_of h x"
  shows "dlist h' head xs"
proof -
  have "successively (linked h') (head # xs @ [head])"
  proof (rule successively_frame)
    show "successively (linked h) (head # xs @ [head])" using assms(1) by (simp add: dlist_def)
  next
    fix a b assume "a \<in> set (butlast (head # xs @ [head]))" "b \<in> set (tl (head # xs @ [head]))" "linked h a b"
    moreover from this(1,2) have "a \<in> set (head # xs)" "b \<in> set (head # xs)" by (auto dest: in_set_butlastD split: if_splits)
    ultimately show "linked h' a b" using assms(2) [of a] assms(2) [of b] by (simp add: linked_def)
  qed
  then show ?thesis using assms(1) by (simp add: dlist_def)
qed

lemma dlist_neighbours:
  assumes "dlist h head xs" "x \<in> set (head # xs)"
  shows "next_of h x \<in> set (head # xs)" "prev_of h x \<in> set (head # xs)"
proof -
  have c: "successively (linked h) ((head # xs) @ [head])" using assms(1) by (simp add: dlist_def)
  obtain ys zs where s: "head # xs = ys @ x # zs" using assms(2) by (meson split_list)
  then have "successively (linked h) (ys @ [x] @ (zs @ [head]))" using c by simp
  then have "linked h x (hd (zs @ [head]))" unfolding successively_append_iff by auto
  then have n: "next_of h x = hd (zs @ [head])" by (simp add: linked_def)
  have "hd (zs @ [head]) \<in> set (head # xs)" unfolding s using s by (cases zs) (auto, cases ys, auto)
  then show "next_of h x \<in> set (head # xs)" by (simp add: n)
  show "prev_of h x \<in> set (head # xs)"
  proof (cases ys)
    case Nil
    then have "x = head" "zs = xs" using s by simp_all
    then show ?thesis using dlist_prev [OF assms(1)] by (cases xs) auto
  next
    case (Cons y ys')
    then have "successively (linked h) (ys @ ([x] @ (zs @ [head])))" using c s by simp
    then have "linked h (last ys) x" unfolding successively_append_iff using Cons by auto
    then show ?thesis using s Cons by (auto simp: linked_def)
  qed
qed

lemma dlist_del_other:
  assumes "dlist h head xs" "el \<in> set xs" "dlist h head' ys" "set (head # xs) \<inter> set (head' # ys) = {}"
  shows "dlist (list_del el h) head' ys"
proof (rule dlist_frame [OF assms(3)])
  fix x assume x: "x \<in> set (head' # ys)"
  have "next_of h el \<in> set (head # xs)" "prev_of h el \<in> set (head # xs)"
    using dlist_neighbours [OF assms(1), of el] assms(2) by auto
  then show "next_of (list_del el h) x = next_of h x \<and> prev_of (list_del el h) x = prev_of h x"
    using x assms(2,4) by (auto simp: disjoint_iff)
qed

lemma dlist_add_tail_other:
  assumes "dlist h head xs" "dlist h head' ys" "set (head # xs) \<inter> set (head' # ys) = {}" "el \<notin> set (head' # ys)"
  shows "dlist (list_add_tail el head h) head' ys"
proof (rule dlist_frame [OF assms(2)])
  fix x assume x: "x \<in> set (head' # ys)"
  have "prev_of h head \<in> set (head # xs)" using dlist_neighbours [OF assms(1), of head] by simp
  then show "next_of (list_add_tail el head h) x = next_of h x \<and> prev_of (list_add_tail el head h) x = prev_of h x"
    using x assms(3,4) by (auto simp: list_add_tail_def disjoint_iff)
qed

lemma dlist_add_other:
  assumes "dlist h head xs" "dlist h head' ys" "set (head # xs) \<inter> set (head' # ys) = {}" "el \<notin> set (head' # ys)"
  shows "dlist (list_add el head h) head' ys"
proof (rule dlist_frame [OF assms(2)])
  fix x assume x: "x \<in> set (head' # ys)"
  have "next_of h head \<in> set (head # xs)" using dlist_neighbours [OF assms(1), of head] by simp
  then show "next_of (list_add el head h) x = next_of h x \<and> prev_of (list_add el head h) x = prev_of h x"
    using x assms(3,4) by (auto simp: list_add_def disjoint_iff)
qed

lemma dlist_init_other: "dlist h head' ys \<Longrightarrow> head \<notin> set (head' # ys) \<Longrightarrow> dlist (init_list_head head h) head' ys"
  by (rule dlist_frame) (auto simp: init_list_head_def)

text \<open>The three lists of the runtime.\<close>

definition lists :: "gc_heap \<Rightarrow> addr list \<Rightarrow> addr list \<Rightarrow> addr list \<Rightarrow> bool" where
  "lists h gs ts zs \<longleftrightarrow>
     dlist (link h) (gc_obj_list h) gs \<and> dlist (link h) (tmp_obj_list h) ts \<and> dlist (link h) (gc_zero_ref_count_list h) zs
     \<and> distinct ((gc_obj_list h # gs) @ (tmp_obj_list h # ts) @ (gc_zero_ref_count_list h # zs))"

lemma dlist_nonzero: "dlist h head xs \<Longrightarrow> x \<in> set xs \<Longrightarrow> x \<noteq> 0"
  by (metis dlist_def list.set_intros(2))

lemma lists_cong:
  assumes "lists h gs ts zs" "link h' = link h" "gc_obj_list h' = gc_obj_list h" "tmp_obj_list h' = tmp_obj_list h"
    "gc_zero_ref_count_list h' = gc_zero_ref_count_list h"
  shows "lists h' gs ts zs"
  using assms by (simp add: lists_def)

lemma move_obj_to_tmp:
  assumes "lists h gs ts zs" "p \<in> set gs"
  shows "lists (move_tail p (tmp_obj_list h) h) (remove1 p gs) (ts @ [p]) zs"
proof -
  have d: "dlist (link h) (gc_obj_list h) gs" "dlist (link h) (tmp_obj_list h) ts" "dlist (link h) (gc_zero_ref_count_list h) zs"
    and x: "distinct ((gc_obj_list h # gs) @ (tmp_obj_list h # ts) @ (gc_zero_ref_count_list h # zs))"
    using assms(1) by (simp_all add: lists_def)
  let ?l = "list_del p (link h)"
  have r: "set (remove1 p gs) = set gs - {p}" using x by simp
  have d1: "dlist ?l (gc_obj_list h) (remove1 p gs)" using d(1) assms(2) by (rule dlist_del)
  have d2: "dlist ?l (tmp_obj_list h) ts" by (rule dlist_del_other [OF d(1) assms(2) d(2)]) (use x in auto)
  have d3: "dlist ?l (gc_zero_ref_count_list h) zs" by (rule dlist_del_other [OF d(1) assms(2) d(3)]) (use x in auto)
  have "dlist (list_add_tail p (tmp_obj_list h) ?l) (tmp_obj_list h) (ts @ [p])"
    by (rule dlist_add_tail [OF d2 dlist_nonzero [OF d(1) assms(2)]]) (use x assms(2) in auto)
  moreover have "dlist (list_add_tail p (tmp_obj_list h) ?l) (gc_obj_list h) (remove1 p gs)"
    by (rule dlist_add_tail_other [OF d2 d1]) (use x r assms(2) in auto)
  moreover have "dlist (list_add_tail p (tmp_obj_list h) ?l) (gc_zero_ref_count_list h) zs"
    by (rule dlist_add_tail_other [OF d2 d3]) (use x assms(2) in auto)
  ultimately show ?thesis using x assms(2) r by (auto simp: lists_def move_tail_def)
qed

lemma move_tmp_to_obj:
  assumes "lists h gs ts zs" "p \<in> set ts"
  shows "lists (move_tail p (gc_obj_list h) h) (gs @ [p]) (remove1 p ts) zs"
proof -
  have d: "dlist (link h) (gc_obj_list h) gs" "dlist (link h) (tmp_obj_list h) ts" "dlist (link h) (gc_zero_ref_count_list h) zs"
    and x: "distinct ((gc_obj_list h # gs) @ (tmp_obj_list h # ts) @ (gc_zero_ref_count_list h # zs))"
    using assms(1) by (simp_all add: lists_def)
  let ?l = "list_del p (link h)"
  have r: "set (remove1 p ts) = set ts - {p}" using x by simp
  have d2: "dlist ?l (tmp_obj_list h) (remove1 p ts)" using d(2) assms(2) by (rule dlist_del)
  have d1: "dlist ?l (gc_obj_list h) gs" by (rule dlist_del_other [OF d(2) assms(2) d(1)]) (use x in auto)
  have d3: "dlist ?l (gc_zero_ref_count_list h) zs" by (rule dlist_del_other [OF d(2) assms(2) d(3)]) (use x in auto)
  have "dlist (list_add_tail p (gc_obj_list h) ?l) (gc_obj_list h) (gs @ [p])"
    by (rule dlist_add_tail [OF d1 dlist_nonzero [OF d(2) assms(2)]]) (use x assms(2) in auto)
  moreover have "dlist (list_add_tail p (gc_obj_list h) ?l) (tmp_obj_list h) (remove1 p ts)"
    by (rule dlist_add_tail_other [OF d1 d2]) (use x r assms(2) in auto)
  moreover have "dlist (list_add_tail p (gc_obj_list h) ?l) (gc_zero_ref_count_list h) zs"
    by (rule dlist_add_tail_other [OF d1 d3]) (use x assms(2) in auto)
  ultimately show ?thesis using x assms(2) r by (auto simp: lists_def move_tail_def)
qed

lemma move_tail_frame [simp]:
  "ref_count (move_tail p q h) = ref_count h" "mark_bit (move_tail p q h) = mark_bit h" "body (move_tail p q h) = body h"
  "phase (move_tail p q h) = phase h" "freed (move_tail p q h) = freed h" "gc_obj_list (move_tail p q h) = gc_obj_list h"
  "tmp_obj_list (move_tail p q h) = tmp_obj_list h" "gc_zero_ref_count_list (move_tail p q h) = gc_zero_ref_count_list h"
  by (simp_all add: move_tail_def)

lemma set_rc_frame [simp]:
  "ref_count (set_rc p n h) = (ref_count h)(p := n)" "mark_bit (set_rc p n h) = mark_bit h" "body (set_rc p n h) = body h"
  "phase (set_rc p n h) = phase h" "freed (set_rc p n h) = freed h" "gc_obj_list (set_rc p n h) = gc_obj_list h" "link (set_rc p n h) = link h"
  "tmp_obj_list (set_rc p n h) = tmp_obj_list h" "gc_zero_ref_count_list (set_rc p n h) = gc_zero_ref_count_list h"
  by (simp_all add: set_rc_def)

lemma set_mark_frame [simp]:
  "ref_count (set_mark p n h) = ref_count h" "mark_bit (set_mark p n h) = (mark_bit h)(p := n)" "body (set_mark p n h) = body h"
  "phase (set_mark p n h) = phase h" "freed (set_mark p n h) = freed h" "gc_obj_list (set_mark p n h) = gc_obj_list h" "link (set_mark p n h) = link h"
  "tmp_obj_list (set_mark p n h) = tmp_obj_list h" "gc_zero_ref_count_list (set_mark p n h) = gc_zero_ref_count_list h"
  by (simp_all add: set_mark_def)

lemma lists_set_rc [simp]: "lists (set_rc p n h) gs ts zs = lists h gs ts zs" by (simp add: lists_def)
lemma lists_set_mark [simp]: "lists (set_mark p n h) gs ts zs = lists h gs ts zs" by (simp add: lists_def)

text \<open>The next node of the list of objects, also at its end.\<close>

lemma lists_next:
  assumes "lists h (ks @ p # rs) ts zs"
  shows "next_of (link h) p = hd (rs @ [gc_obj_list h])"
proof -
  have "successively (linked (link h)) ((gc_obj_list h # ks) @ [p] @ (rs @ [gc_obj_list h]))"
    using assms by (simp add: lists_def dlist_def)
  then have "linked (link h) p (hd (rs @ [gc_obj_list h]))" unfolding successively_append_iff by auto
  then show ?thesis by (simp add: linked_def)
qed

lemma lists_tmp_next:
  assumes "lists h gs (ks @ p # rs) zs"
  shows "next_of (link h) p = hd (rs @ [tmp_obj_list h])"
proof -
  have "successively (linked (link h)) ((tmp_obj_list h # ks) @ [p] @ (rs @ [tmp_obj_list h]))"
    using assms by (simp add: lists_def dlist_def)
  then have "linked (link h) p (hd (rs @ [tmp_obj_list h]))" unfolding successively_append_iff by auto
  then show ?thesis by (simp add: linked_def)
qed

lemma lists_first: "lists h gs ts zs \<Longrightarrow> next_of (link h) (gc_obj_list h) = hd (gs @ [gc_obj_list h])"
  by (simp add: lists_def dlist_next)

lemma lists_tmp_first: "lists h gs ts zs \<Longrightarrow> next_of (link h) (tmp_obj_list h) = hd (ts @ [tmp_obj_list h])"
  by (simp add: lists_def dlist_next)

section \<open>Counting references\<close>

definition count_refs :: "(addr \<Rightarrow> gc_body) \<Rightarrow> addr set \<Rightarrow> addr \<Rightarrow> int" where
  "count_refs b Q p = (\<Sum>q\<in>Q. int (count_list (map target (children (b q))) p))"

lemma count_refs_insert:
  "finite Q \<Longrightarrow> q \<notin> Q \<Longrightarrow> count_refs b (insert q Q) p = int (count_list (map target (children (b q))) p) + count_refs b Q p"
  by (simp add: count_refs_def)

lemma count_refs_nonneg [simp]: "0 \<le> count_refs b Q p"
  by (simp add: count_refs_def sum_nonneg)

lemma count_refs_mono: "finite R \<Longrightarrow> Q \<subseteq> R \<Longrightarrow> count_refs b Q p \<le> count_refs b R p"
  unfolding count_refs_def by (rule sum_mono2) auto

lemma count_list_pos: "0 < count_list xs p \<longleftrightarrow> p \<in> set xs"
  by (metis count_list_0_iff not_gr_zero)

lemma count_refs_pos:
  assumes "finite Q" "q \<in> Q" "p \<in> target ` set (children (b q))"
  shows "1 \<le> count_refs b Q p"
proof -
  have "0 < count_list (map target (children (b q))) p" using assms(3) by (simp add: count_list_pos)
  then have "1 \<le> count_refs b {q} p" by (simp add: count_refs_def)
  also have "\<dots> \<le> count_refs b Q p" using assms(1,2) by (intro count_refs_mono) auto
  finally show ?thesis .
qed

text \<open>What the marking leaves alone.\<close>

definition same_rest :: "gc_heap \<Rightarrow> gc_heap \<Rightarrow> bool" where
  "same_rest h h' \<longleftrightarrow> body h' = body h \<and> freed h' = freed h \<and> phase h' = phase h \<and> gc_obj_list h' = gc_obj_list h
     \<and> tmp_obj_list h' = tmp_obj_list h \<and> gc_zero_ref_count_list h' = gc_zero_ref_count_list h"

lemma same_rest_refl [simp]: "same_rest h h" by (simp add: same_rest_def)
lemma same_rest_trans: "same_rest h h' \<Longrightarrow> same_rest h' h'' \<Longrightarrow> same_rest h h''" by (simp add: same_rest_def)

section \<open>Taking the inner references away\<close>

definition decreffed :: "addr set \<Rightarrow> addr list \<Rightarrow> (addr \<Rightarrow> int) \<Rightarrow> gc_heap \<Rightarrow> bool" where
  "decreffed V rest nr h \<longleftrightarrow> (\<exists>kept ts. lists h (kept @ rest) ts [] \<and> set kept \<union> set ts = V \<and> V \<inter> set rest = {}
     \<and> (\<forall>p. p \<in> set ts \<longleftrightarrow> p \<in> V \<and> nr p = 0)
     \<and> (\<forall>p \<in> V. mark_bit h p = 1) \<and> (\<forall>p \<in> set rest. mark_bit h p = 0)
     \<and> (\<forall>p \<in> V \<union> set rest. ref_count h p = nr p \<and> 0 \<le> nr p \<and> p \<notin> set (freed h)))"

lemma decreffedI:
  assumes "lists h (kept @ rest) ts []" "set kept \<union> set ts = V" "V \<inter> set rest = {}"
    "\<And>p. p \<in> set ts \<longleftrightarrow> p \<in> V \<and> nr p = 0"
    "\<And>p. p \<in> V \<Longrightarrow> mark_bit h p = 1" "\<And>p. p \<in> set rest \<Longrightarrow> mark_bit h p = 0"
    "\<And>p. p \<in> V \<union> set rest \<Longrightarrow> ref_count h p = nr p \<and> 0 \<le> nr p \<and> p \<notin> set (freed h)"
  shows "decreffed V rest nr h"
proof -
  have "\<forall>p. p \<in> set ts \<longleftrightarrow> p \<in> V \<and> nr p = 0" "\<forall>p \<in> V. mark_bit h p = 1" "\<forall>p \<in> set rest. mark_bit h p = 0"
    "\<forall>p \<in> V \<union> set rest. ref_count h p = nr p \<and> 0 \<le> nr p \<and> p \<notin> set (freed h)"
    using assms(4-7) by simp_all
  then show ?thesis unfolding decreffed_def using assms(1-3) by (intro exI [of _ kept] exI [of _ ts] conjI)
qed

lemma decreffedE:
  assumes "decreffed V rest nr h"
  obtains kept ts where "lists h (kept @ rest) ts []" "set kept \<union> set ts = V" "V \<inter> set rest = {}"
    "\<And>p. p \<in> set ts \<longleftrightarrow> p \<in> V \<and> nr p = 0"
    "\<And>p. p \<in> V \<Longrightarrow> mark_bit h p = 1" "\<And>p. p \<in> set rest \<Longrightarrow> mark_bit h p = 0"
    "\<And>p. p \<in> V \<union> set rest \<Longrightarrow> ref_count h p = nr p \<and> 0 \<le> nr p \<and> p \<notin> set (freed h)"
  using assms unfolding decreffed_def by blast

lemma decref_child_step:
  assumes d: "decreffed V rest nr h" and c: "c \<in> V \<union> set rest" "0 < nr c"
  shows "\<exists>h'. gc_decref_child c h = Some h' \<and> decreffed V rest (nr(c := nr c - 1)) h' \<and> same_rest h h'"
proof -
  obtain kept ts where l: "lists h (kept @ rest) ts []" and v: "set kept \<union> set ts = V" "V \<inter> set rest = {}"
    and z: "\<And>p. p \<in> set ts \<longleftrightarrow> p \<in> V \<and> nr p = 0"
    and m: "\<And>p. p \<in> V \<Longrightarrow> mark_bit h p = 1" "\<And>p. p \<in> set rest \<Longrightarrow> mark_bit h p = 0"
    and n: "\<And>p. p \<in> V \<union> set rest \<Longrightarrow> ref_count h p = nr p \<and> 0 \<le> nr p \<and> p \<notin> set (freed h)"
    using d unfolding decreffed_def by blast
  define h1 where "h1 = set_rc c (nr c - 1) h"
  have a: "alive c h = Some ()" "ref_count h c = nr c" using n [OF c(1)] by (simp_all add: alive_def)
  have mb: "mark_bit h c = 1 \<longleftrightarrow> c \<in> V" using m c(1) by auto
  have g: "gc_decref_child c h = (if nr c - 1 = 0 \<and> c \<in> V then Some (move_tail c (tmp_obj_list h1) h1) else Some h1)"
    using c(2) a mb by (simp add: gc_decref_child_def h1_def Let_def)
  show ?thesis
  proof (cases "nr c - 1 = 0 \<and> c \<in> V")
    case True
    then have "c \<notin> set ts" using z by auto
    then have k: "c \<in> set kept" "c \<notin> set rest" using True v by auto
    have "lists h1 (kept @ rest) ts []" using l by (simp add: h1_def)
    then have "lists (move_tail c (tmp_obj_list h1) h1) (remove1 c (kept @ rest)) (ts @ [c]) []"
      by (rule move_obj_to_tmp) (use k in simp)
    then have l': "lists (move_tail c (tmp_obj_list h1) h1) (remove1 c kept @ rest) (ts @ [c]) []"
      using k by (simp add: remove1_append)
    have dk: "distinct kept" using l by (auto simp: lists_def)
    have "decreffed V rest (nr(c := nr c - 1)) (move_tail c (tmp_obj_list h1) h1)"
    proof (rule decreffedI [OF l'])
      show "set (remove1 c kept) \<union> set (ts @ [c]) = V" using v(1) k(1) dk by auto
      show "p \<in> set (ts @ [c]) \<longleftrightarrow> p \<in> V \<and> (nr(c := nr c - 1)) p = 0" for p using z [of p] True by auto
      show "ref_count (move_tail c (tmp_obj_list h1) h1) p = (nr(c := nr c - 1)) p \<and> 0 \<le> (nr(c := nr c - 1)) p
          \<and> p \<notin> set (freed (move_tail c (tmp_obj_list h1) h1))" if "p \<in> V \<union> set rest" for p
        using n [OF that] True by (simp add: h1_def)
    qed (use v(2) m in \<open>simp_all add: h1_def\<close>)
    then show ?thesis using True unfolding g by (simp add: same_rest_def h1_def)
  next
    case False
    have "lists h1 (kept @ rest) ts []" using l by (simp add: h1_def)
    then have "decreffed V rest (nr(c := nr c - 1)) h1"
    proof (rule decreffedI)
      show "p \<in> set ts \<longleftrightarrow> p \<in> V \<and> (nr(c := nr c - 1)) p = 0" for p using z [of p] False c(2) by auto
      show "ref_count h1 p = (nr(c := nr c - 1)) p \<and> 0 \<le> (nr(c := nr c - 1)) p \<and> p \<notin> set (freed h1)" if "p \<in> V \<union> set rest" for p
        using n [OF that] c(2) by (simp add: h1_def)
    qed (use v m in \<open>simp_all add: h1_def\<close>)
    then show ?thesis using False unfolding g by (auto simp: same_rest_def h1_def)
  qed
qed

lemma decref_children:
  assumes "decreffed V rest nr h" "set cs \<subseteq> V \<union> set rest" "\<And>p. int (count_list cs p) \<le> nr p"
  shows "\<exists>h'. each gc_decref_child cs h = Some h' \<and> decreffed V rest (\<lambda>p. nr p - int (count_list cs p)) h' \<and> same_rest h h'"
  using assms
proof (induction cs arbitrary: nr h)
  case (Cons c cs)
  have "0 < nr c" using Cons.prems(3) [of c] by simp
  then obtain h1 where h1: "gc_decref_child c h = Some h1" "decreffed V rest (nr(c := nr c - 1)) h1" "same_rest h h1"
    using decref_child_step [OF Cons.prems(1), of c] Cons.prems(2) by auto
  have "int (count_list cs p) \<le> (nr(c := nr c - 1)) p" for p using Cons.prems(3) [of p] by (auto split: if_splits)
  then obtain h2 where h2: "each gc_decref_child cs h1 = Some h2"
    "decreffed V rest (\<lambda>p. (nr(c := nr c - 1)) p - int (count_list cs p)) h2" "same_rest h1 h2"
    using Cons.IH [OF h1(2)] Cons.prems(2) by auto
  have "(\<lambda>p. (nr(c := nr c - 1)) p - int (count_list cs p)) = (\<lambda>p. nr p - int (count_list (c # cs) p))" by (auto simp: fun_eq_iff)
  then show ?case using h1 h2 by (auto intro: same_rest_trans)
qed auto

lemma decref_object_step:
  assumes d: "decreffed V (el # rest) nr h" and c: "target ` set (children (body h el)) \<subseteq> V \<union> set (el # rest)"
    and r: "\<And>p. int (count_list (map target (children (body h el))) p) \<le> nr p"
  shows "\<exists>h'. decref_object el h = Some h' \<and> same_rest h h'
    \<and> decreffed (insert el V) rest (\<lambda>p. nr p - int (count_list (map target (children (body h el))) p)) h'"
proof -
  define cs where "cs = map target (children (body h el))"
  define nr' where "nr' p = nr p - int (count_list cs p)" for p
  have "mark_bit h el = 0" "el \<notin> set (freed h)" using d unfolding decreffed_def by (meson UnI2 list.set_intros(1))+
  then have a: "alive el h = Some ()" "mark_bit h el = 0" by (simp_all add: alive_def)
  obtain h1 where h1: "each gc_decref_child cs h = Some h1" "decreffed V (el # rest) nr' h1" "same_rest h h1"
    using decref_children [OF d, of cs] c r unfolding cs_def [symmetric] nr'_def by (auto simp: cs_def)
  obtain kept ts where l: "lists h1 (kept @ el # rest) ts []" and v: "set kept \<union> set ts = V" "V \<inter> set (el # rest) = {}"
    and z: "\<And>p. p \<in> set ts \<longleftrightarrow> p \<in> V \<and> nr' p = 0"
    and m: "\<And>p. p \<in> V \<Longrightarrow> mark_bit h1 p = 1" "\<And>p. p \<in> set (el # rest) \<Longrightarrow> mark_bit h1 p = 0"
    and n: "\<And>p. p \<in> V \<union> set (el # rest) \<Longrightarrow> ref_count h1 p = nr' p \<and> 0 \<le> nr' p \<and> p \<notin> set (freed h1)"
    using h1(2) unfolding decreffed_def by blast
  define h2 where "h2 = set_mark el 1 h1"
  have l2: "lists h2 (kept @ el # rest) ts []" using l by (simp add: h2_def)
  have e: "el \<notin> set kept" "el \<notin> set rest" "el \<notin> V" using l v(2) by (auto simp: lists_def)
  have g: "decref_object el h = (if nr' el = 0 then Some (move_tail el (tmp_obj_list h2) h2) else Some h2)"
    using a h1(1) n [of el] by (simp add: decref_object_def mark_children_def cs_def [symmetric] h2_def Let_def)
  have "\<exists>h'. decref_object el h = Some h' \<and> decreffed (insert el V) rest nr' h' \<and> same_rest h h'"
  proof (cases "nr' el = 0")
    case True
    have "lists (move_tail el (tmp_obj_list h2) h2) (remove1 el (kept @ el # rest)) (ts @ [el]) []" by (rule move_obj_to_tmp [OF l2]) simp
    then have l': "lists (move_tail el (tmp_obj_list h2) h2) (kept @ rest) (ts @ [el]) []" using e by (simp add: remove1_append)
    have "decreffed (insert el V) rest nr' (move_tail el (tmp_obj_list h2) h2)"
    proof (rule decreffedI [OF l'])
      show "set kept \<union> set (ts @ [el]) = insert el V" using v(1) by auto
      show "p \<in> set (ts @ [el]) \<longleftrightarrow> p \<in> insert el V \<and> nr' p = 0" for p using z [of p] True by auto
      show "mark_bit (move_tail el (tmp_obj_list h2) h2) p = 0" if "p \<in> set rest" for p using m(2) that e by (auto simp: h2_def)
      show "ref_count (move_tail el (tmp_obj_list h2) h2) p = nr' p \<and> 0 \<le> nr' p \<and> p \<notin> set (freed (move_tail el (tmp_obj_list h2) h2))"
        if "p \<in> insert el V \<union> set rest" for p using n [of p] that by (simp add: h2_def)
    qed (use v(2) m(1) e in \<open>auto simp: h2_def\<close>)
    then show ?thesis using True h1(3) unfolding g by (auto simp: same_rest_def h2_def)
  next
    case False
    have "lists h2 ((kept @ [el]) @ rest) ts []" using l2 by simp
    then have "decreffed (insert el V) rest nr' h2"
    proof (rule decreffedI)
      show "set (kept @ [el]) \<union> set ts = insert el V" using v(1) by auto
      show "p \<in> set ts \<longleftrightarrow> p \<in> insert el V \<and> nr' p = 0" for p using z [of p] False e by auto
      show "mark_bit h2 p = 0" if "p \<in> set rest" for p using m(2) that e by (auto simp: h2_def)
      show "ref_count h2 p = nr' p \<and> 0 \<le> nr' p \<and> p \<notin> set (freed h2)"
        if "p \<in> insert el V \<union> set rest" for p using n [of p] that by (simp add: h2_def)
    qed (use v(2) m(1) e in \<open>auto simp: h2_def\<close>)
    then show ?thesis using False h1(3) unfolding g by (auto simp: same_rest_def h2_def)
  qed
  moreover have "nr' = (\<lambda>p. nr p - int (count_list (map target (children (body h el))) p))" by (simp add: nr'_def cs_def fun_eq_iff)
  ultimately show ?thesis by auto
qed

lemma decref_loop:
  assumes "decreffed V rest nr h" "finite V"
    and "\<And>q. q \<in> set rest \<Longrightarrow> target ` set (children (body h q)) \<subseteq> V \<union> set rest"
    and "\<And>p. count_refs (body h) (set rest) p \<le> nr p"
  shows "\<exists>h'. for_each_safe (gc_obj_list h) decref_object (hd (rest @ [gc_obj_list h])) h = Some h' \<and> same_rest h h'
    \<and> decreffed (V \<union> set rest) [] (\<lambda>p. nr p - count_refs (body h) (set rest) p) h'"
  using assms
proof (induction rest arbitrary: V nr h)
  case Nil
  then show ?case by (subst for_each_safe.simps) (simp add: count_refs_def)
next
  case (Cons el rest)
  obtain kept ts where l: "lists h (kept @ el # rest) ts []" using Cons.prems(1) unfolding decreffed_def by blast
  have e: "el \<noteq> gc_obj_list h" "el \<notin> set rest" using l by (auto simp: lists_def)
  have nx: "next_of (link h) el = hd (rest @ [gc_obj_list h])" using lists_next [OF l] .
  have cr: "count_refs (body h) (set (el # rest)) p = int (count_list (map target (children (body h el))) p) + count_refs (body h) (set rest) p" for p
    using e by (simp add: count_refs_insert)
  have "int (count_list (map target (children (body h el))) p) \<le> nr p" for p
    using Cons.prems(4) [of p] count_refs_nonneg [of "body h" "set rest" p] unfolding cr by linarith
  then obtain h1 where h1: "decref_object el h = Some h1" "same_rest h h1"
    "decreffed (insert el V) rest (\<lambda>p. nr p - int (count_list (map target (children (body h el))) p)) h1"
    using decref_object_step [OF Cons.prems(1)] Cons.prems(3) [of el] by auto
  have b: "body h1 = body h" "gc_obj_list h1 = gc_obj_list h" using h1(2) by (simp_all add: same_rest_def)
  obtain h2 where h2: "for_each_safe (gc_obj_list h1) decref_object (hd (rest @ [gc_obj_list h1])) h1 = Some h2" "same_rest h1 h2"
    "decreffed (insert el V \<union> set rest) [] (\<lambda>p. nr p - int (count_list (map target (children (body h el))) p) - count_refs (body h1) (set rest) p) h2"
    using Cons.IH [OF h1(3)] Cons.prems(2-4) unfolding b cr by (auto simp: algebra_simps)
  have "for_each_safe (gc_obj_list h) decref_object el h = Some h2"
    using e(1) h1(1) h2(1) nx unfolding b by (subst for_each_safe.simps) simp
  moreover have "(\<lambda>p. nr p - int (count_list (map target (children (body h el))) p) - count_refs (body h1) (set rest) p)
      = (\<lambda>p. nr p - count_refs (body h) (set (el # rest)) p)"
    unfolding cr b by (simp add: fun_eq_iff)
  ultimately show ?case using h2(2,3) same_rest_trans [OF h1(2) h2(2)] by auto
qed

section \<open>Putting back what is reachable\<close>

definition scanned :: "addr set \<Rightarrow> addr list \<Rightarrow> addr list \<Rightarrow> (addr \<Rightarrow> int) \<Rightarrow> gc_heap \<Rightarrow> bool" where
  "scanned N dn todo nr h \<longleftrightarrow> (\<exists>ts. lists h (dn @ todo) ts [] \<and> set (dn @ todo) \<union> set ts = N
     \<and> (\<forall>p. p \<in> set ts \<longleftrightarrow> p \<in> N \<and> nr p = 0)
     \<and> (\<forall>p \<in> set dn. mark_bit h p = 0)
     \<and> (\<forall>p \<in> N. ref_count h p = nr p \<and> 0 \<le> nr p \<and> p \<notin> set (freed h)))"

lemma scannedI:
  assumes "lists h (dn @ todo) ts []" "set (dn @ todo) \<union> set ts = N"
    "\<And>p. p \<in> set ts \<longleftrightarrow> p \<in> N \<and> nr p = 0" "\<And>p. p \<in> set dn \<Longrightarrow> mark_bit h p = 0"
    "\<And>p. p \<in> N \<Longrightarrow> ref_count h p = nr p \<and> 0 \<le> nr p \<and> p \<notin> set (freed h)"
  shows "scanned N dn todo nr h"
proof -
  have "\<forall>p. p \<in> set ts \<longleftrightarrow> p \<in> N \<and> nr p = 0" "\<forall>p \<in> set dn. mark_bit h p = 0"
    "\<forall>p \<in> N. ref_count h p = nr p \<and> 0 \<le> nr p \<and> p \<notin> set (freed h)"
    using assms(3-5) by simp_all
  then show ?thesis unfolding scanned_def using assms(1,2) by (intro exI [of _ ts] conjI)
qed

lemma scan_child_step:
  assumes d: "scanned N dn todo nr h" and c: "c \<in> N"
  shows "\<exists>h' more. gc_scan_incref_child c h = Some h' \<and> scanned N dn (todo @ more) (nr(c := nr c + 1)) h' \<and> same_rest h h'
    \<and> set more \<subseteq> {c}"
proof -
  obtain ts where l: "lists h (dn @ todo) ts []" and v: "set (dn @ todo) \<union> set ts = N"
    and z: "\<And>p. p \<in> set ts \<longleftrightarrow> p \<in> N \<and> nr p = 0"
    and m: "\<And>p. p \<in> set dn \<Longrightarrow> mark_bit h p = 0"
    and n: "\<And>p. p \<in> N \<Longrightarrow> ref_count h p = nr p \<and> 0 \<le> nr p \<and> p \<notin> set (freed h)"
    using d unfolding scanned_def by blast
  define h1 where "h1 = set_rc c (nr c + 1) h"
  have a: "alive c h = Some ()" "ref_count h c = nr c" "0 \<le> nr c" using n [OF c] by (simp_all add: alive_def)
  have g: "gc_scan_incref_child c h = (if nr c = 0 then Some (set_mark c 0 (move_tail c (gc_obj_list h1) h1)) else Some h1)"
    using a by (simp add: gc_scan_incref_child_def h1_def Let_def)
  have l1: "lists h1 (dn @ todo) ts []" using l by (simp add: h1_def)
  show ?thesis
  proof (cases "nr c = 0")
    case True
    then have k: "c \<in> set ts" using z c by blast
    have dt: "distinct ts" "c \<notin> set dn" using l k by (auto simp: lists_def)
    define h2 where "h2 = set_mark c 0 (move_tail c (gc_obj_list h1) h1)"
    have "lists h2 (dn @ (todo @ [c])) (remove1 c ts) []" using move_tmp_to_obj [OF l1 k] by (simp add: h2_def)
    then have "scanned N dn (todo @ [c]) (nr(c := nr c + 1)) h2"
    proof (rule scannedI)
      show "set (dn @ todo @ [c]) \<union> set (remove1 c ts) = N" using v k dt by auto
      show "p \<in> set (remove1 c ts) \<longleftrightarrow> p \<in> N \<and> (nr(c := nr c + 1)) p = 0" for p using z [of p] dt True by auto
      show "mark_bit h2 p = 0" if "p \<in> set dn" for p using m [OF that] by (simp add: h2_def h1_def)
      show "ref_count h2 p = (nr(c := nr c + 1)) p \<and> 0 \<le> (nr(c := nr c + 1)) p \<and> p \<notin> set (freed h2)" if "p \<in> N" for p
        using n [OF that] True by (simp add: h2_def h1_def)
    qed
    then show ?thesis using True unfolding g h2_def [symmetric]
      by (intro exI [of _ h2] exI [of _ "[c]"]) (simp add: same_rest_def h2_def h1_def)
  next
    case False
    have "scanned N dn (todo @ []) (nr(c := nr c + 1)) h1"
    proof (rule scannedI)
      show "lists h1 (dn @ todo @ []) ts []" using l1 by simp
      show "p \<in> set ts \<longleftrightarrow> p \<in> N \<and> (nr(c := nr c + 1)) p = 0" for p using z [of p] False a(3) by auto
      show "ref_count h1 p = (nr(c := nr c + 1)) p \<and> 0 \<le> (nr(c := nr c + 1)) p \<and> p \<notin> set (freed h1)" if "p \<in> N" for p
        using n [OF that] a(3) by (simp add: h1_def)
    qed (use v m in \<open>auto simp: h1_def\<close>)
    then show ?thesis using False unfolding g by (intro exI [of _ h1] exI [of _ "[]"]) (simp add: same_rest_def h1_def)
  qed
qed

lemma scan_children:
  assumes "scanned N dn todo nr h" "set cs \<subseteq> N"
  shows "\<exists>h' more. each gc_scan_incref_child cs h = Some h' \<and> scanned N dn (todo @ more) (\<lambda>p. nr p + int (count_list cs p)) h'
    \<and> same_rest h h' \<and> set more \<subseteq> set cs"
  using assms
proof (induction cs arbitrary: nr h todo)
  case Nil
  then show ?case by (auto intro: exI [of _ "[]"])
next
  case (Cons c cs)
  obtain h1 m1 where h1: "gc_scan_incref_child c h = Some h1" "scanned N dn (todo @ m1) (nr(c := nr c + 1)) h1" "same_rest h h1" "set m1 \<subseteq> {c}"
    using scan_child_step [OF Cons.prems(1), of c] Cons.prems(2) by auto
  obtain h2 m2 where h2: "each gc_scan_incref_child cs h1 = Some h2"
    "scanned N dn ((todo @ m1) @ m2) (\<lambda>p. (nr(c := nr c + 1)) p + int (count_list cs p)) h2" "same_rest h1 h2" "set m2 \<subseteq> set cs"
    using Cons.IH [OF h1(2)] Cons.prems(2) by auto
  have "(\<lambda>p. (nr(c := nr c + 1)) p + int (count_list cs p)) = (\<lambda>p. nr p + int (count_list (c # cs) p))" by (auto simp: fun_eq_iff)
  then have "scanned N dn (todo @ m1 @ m2) (\<lambda>p. nr p + int (count_list (c # cs) p)) h2" using h2(2) by simp
  moreover have "each gc_scan_incref_child (c # cs) h = Some h2" using h1(1) h2(1) by simp
  moreover have "set (m1 @ m2) \<subseteq> set (c # cs)" using h1(4) h2(4) by auto
  ultimately show ?case using same_rest_trans [OF h1(3) h2(3)] by (intro exI [of _ h2] exI [of _ "m1 @ m2"]) simp
qed

lemma scan_object_step:
  assumes d: "scanned N dn (el # todo) nr h" and c: "target ` set (children (body h el)) \<subseteq> N"
  shows "\<exists>h' more. scan_object el h = Some h' \<and> same_rest h h' \<and> set more \<subseteq> target ` set (children (body h el))
    \<and> scanned N (dn @ [el]) (todo @ more) (\<lambda>p. nr p + int (count_list (map target (children (body h el))) p)) h'"
proof -
  obtain ts where l: "lists h (dn @ el # todo) ts []" and v: "set (dn @ el # todo) \<union> set ts = N"
    and z: "\<And>p. p \<in> set ts \<longleftrightarrow> p \<in> N \<and> nr p = 0"
    and m: "\<And>p. p \<in> set dn \<Longrightarrow> mark_bit h p = 0"
    and n: "\<And>p. p \<in> N \<Longrightarrow> ref_count h p = nr p \<and> 0 \<le> nr p \<and> p \<notin> set (freed h)"
    using d unfolding scanned_def by blast
  have e: "el \<in> N" "el \<notin> set ts" using v l by (auto simp: lists_def)
  then have "nr el \<noteq> 0" using z by blast
  then have pos: "0 < ref_count h el" "el \<notin> set (freed h)" using n [OF e(1)] by auto
  define h1 where "h1 = set_mark el 0 h"
  have "lists h1 ((dn @ [el]) @ todo) ts []" using l by (simp add: h1_def)
  then have s1: "scanned N (dn @ [el]) todo nr h1"
  proof (rule scannedI)
    show "set ((dn @ [el]) @ todo) \<union> set ts = N" using v by auto
    show "mark_bit h1 p = 0" if "p \<in> set (dn @ [el])" for p using m [of p] that by (auto simp: h1_def)
  qed (use z n in \<open>auto simp: h1_def\<close>)
  have "scan_object el h = each gc_scan_incref_child (map target (children (body h el))) h1"
    using pos by (simp add: scan_object_def mark_children_def alive_def h1_def)
  moreover have "same_rest h h1" by (simp add: same_rest_def h1_def)
  ultimately show ?thesis using scan_children [OF s1, of "map target (children (body h el))"] c by (auto intro: same_rest_trans)
qed

text \<open>The blocks that references from outside reach, with \<open>ext\<close> their number for each block.\<close>

inductive_set reachable :: "(addr \<Rightarrow> gc_body) \<Rightarrow> (addr \<Rightarrow> int) \<Rightarrow> addr set \<Rightarrow> addr set" for b ext N where
  root: "p \<in> N \<Longrightarrow> 0 < ext p \<Longrightarrow> p \<in> reachable b ext N"
| child: "q \<in> reachable b ext N \<Longrightarrow> p \<in> target ` set (children (b q)) \<Longrightarrow> p \<in> reachable b ext N"

lemma scan_loop:
  assumes "scanned N dn todo (\<lambda>p. ext p + count_refs (body h) (set dn) p) h" "finite N"
    and "\<And>q. q \<in> N \<Longrightarrow> target ` set (children (body h q)) \<subseteq> N" "\<And>p. p \<in> N \<Longrightarrow> 0 \<le> ext p"
    and "set dn \<subseteq> reachable (body h) ext N" "set todo \<subseteq> reachable (body h) ext N"
  shows "\<exists>h' gs. for_each (gc_obj_list h) scan_object (hd (todo @ [gc_obj_list h])) h = Some h' \<and> same_rest h h'
    \<and> scanned N gs [] (\<lambda>p. ext p + count_refs (body h) (set gs) p) h' \<and> set gs \<subseteq> reachable (body h) ext N"
  using assms
proof (induction "card N - length dn" arbitrary: dn todo h rule: less_induct)
  case less
  show ?case
  proof (cases todo)
    case Nil
    then show ?thesis using less.prems by (subst for_each.simps) auto
  next
    case (Cons el rest)
    note sc = less.prems(1) [unfolded Cons]
    obtain ts where l: "lists h (dn @ el # rest) ts []" and v: "set (dn @ el # rest) \<union> set ts = N"
      using sc unfolding scanned_def by blast
    have e: "el \<noteq> gc_obj_list h" "el \<notin> set dn" "el \<in> N" and di: "distinct (dn @ [el])" using l v by (auto simp: lists_def)
    define b where "b = body h"
    define cs where "cs = map target (children (b el))"
    obtain h1 more where h1: "scan_object el h = Some h1" "same_rest h h1" "set more \<subseteq> set cs"
      "scanned N (dn @ [el]) (rest @ more) (\<lambda>p. ext p + count_refs b (set dn) p + int (count_list cs p)) h1"
      using scan_object_step [OF sc] less.prems(3) [OF e(3)] unfolding b_def cs_def by auto
    have b: "body h1 = b" "gc_obj_list h1 = gc_obj_list h" using h1(2) by (simp_all add: same_rest_def b_def)
    have "count_refs b (set (dn @ [el])) p = int (count_list cs p) + count_refs b (set dn) p" for p
      using e(2) count_refs_insert [of "set dn" el b p] by (simp add: cs_def)
    then have s1: "scanned N (dn @ [el]) (rest @ more) (\<lambda>p. ext p + count_refs (body h1) (set (dn @ [el])) p) h1"
      using h1(4) unfolding b by (simp add: algebra_simps)
    have "set (dn @ [el]) \<subseteq> N" using v by auto
    then have "length (dn @ [el]) \<le> card N" using distinct_card [OF di] card_mono [OF less.prems(2)] by metis
    then have less1: "card N - length (dn @ [el]) < card N - length dn" by simp
    have er: "el \<in> reachable b ext N" using less.prems(6) Cons by (simp add: b_def)
    have mr: "set more \<subseteq> reachable b ext N"
    proof
      fix p assume "p \<in> set more"
      then have "p \<in> target ` set (children (b el))" using h1(3) by (auto simp: cs_def)
      then show "p \<in> reachable b ext N" by (rule reachable.child [OF er])
    qed
    obtain h' gs where h': "for_each (gc_obj_list h1) scan_object (hd ((rest @ more) @ [gc_obj_list h1])) h1 = Some h'" "same_rest h1 h'"
      "scanned N gs [] (\<lambda>p. ext p + count_refs (body h1) (set gs) p) h'" "set gs \<subseteq> reachable (body h1) ext N"
      using less.hyps [OF less1 s1 less.prems(2)] less.prems(3-6) er mr Cons unfolding b b_def [symmetric] by auto
    obtain ts1 where "lists h1 ((dn @ [el]) @ rest @ more) ts1 []" using s1 unfolding scanned_def by blast
    then have "next_of (link h1) el = hd ((rest @ more) @ [gc_obj_list h1])" using lists_next [of h1 dn el "rest @ more" ts1 "[]"] by simp
    then have "for_each (gc_obj_list h) scan_object el h = Some h'"
      using e(1) h1(1) h'(1) unfolding b by (subst for_each.simps) simp
    then show ?thesis using Cons h'(3,4) same_rest_trans [OF h1(2) h'(2)] unfolding b b_def by auto
  qed
qed

section \<open>Restoring the counts of the others\<close>

lemma restore_children:
  assumes "set cs \<inter> set (freed h) = {}"
  shows "\<exists>h'. each gc_scan_incref_child2 cs h = Some h' \<and> same_rest h h' \<and> link h' = link h \<and> mark_bit h' = mark_bit h
    \<and> ref_count h' = (\<lambda>p. ref_count h p + int (count_list cs p))"
  using assms
proof (induction cs arbitrary: h)
  case (Cons c cs)
  define h1 where "h1 = set_rc c (ref_count h c + 1) h"
  have "gc_scan_incref_child2 c h = Some h1" using Cons.prems by (simp add: gc_scan_incref_child2_def alive_def h1_def)
  moreover obtain h2 where "each gc_scan_incref_child2 cs h1 = Some h2" "same_rest h1 h2" "link h2 = link h1" "mark_bit h2 = mark_bit h1"
    "ref_count h2 = (\<lambda>p. ref_count h1 p + int (count_list cs p))"
    using Cons.IH [of h1] Cons.prems by (auto simp: h1_def)
  ultimately show ?case by (auto simp: h1_def same_rest_def fun_eq_iff)
qed simp

lemma restore_loop:
  assumes "lists h gs (ks @ todo) []" "\<And>q. q \<in> set todo \<Longrightarrow> q \<notin> set (freed h)"
    and "\<And>q. q \<in> set todo \<Longrightarrow> target ` set (children (body h q)) \<inter> set (freed h) = {}"
  shows "\<exists>h'. for_each (tmp_obj_list h) restore_object (hd (todo @ [tmp_obj_list h])) h = Some h' \<and> same_rest h h' \<and> link h' = link h
    \<and> mark_bit h' = mark_bit h \<and> ref_count h' = (\<lambda>p. ref_count h p + count_refs (body h) (set todo) p)"
  using assms
proof (induction todo arbitrary: ks h)
  case Nil
  then show ?case by (subst for_each.simps) (simp add: count_refs_def)
next
  case (Cons el todo)
  have e: "el \<noteq> tmp_obj_list h" "el \<notin> set todo" using Cons.prems(1) by (auto simp: lists_def)
  obtain h1 where h1: "each gc_scan_incref_child2 (map target (children (body h el))) h = Some h1" "same_rest h h1" "link h1 = link h"
    "mark_bit h1 = mark_bit h" "ref_count h1 = (\<lambda>p. ref_count h p + int (count_list (map target (children (body h el))) p))"
    using restore_children [of "map target (children (body h el))" h] Cons.prems(3) [of el] by auto
  have ro: "restore_object el h = Some h1" using h1(1) Cons.prems(2) [of el] by (simp add: restore_object_def mark_children_def alive_def)
  have b: "body h1 = body h" "freed h1 = freed h" "tmp_obj_list h1 = tmp_obj_list h" "gc_obj_list h1 = gc_obj_list h"
    "gc_zero_ref_count_list h1 = gc_zero_ref_count_list h"
    using h1(2) by (simp_all add: same_rest_def)
  have l1: "lists h1 gs ((ks @ [el]) @ todo) []" using lists_cong [OF Cons.prems(1) h1(3) b(4,3,5)] by simp
  obtain h2 where h2: "for_each (tmp_obj_list h1) restore_object (hd (todo @ [tmp_obj_list h1])) h1 = Some h2" "same_rest h1 h2" "link h2 = link h1"
    "mark_bit h2 = mark_bit h1" "ref_count h2 = (\<lambda>p. ref_count h1 p + count_refs (body h1) (set todo) p)"
    using Cons.IH [OF l1] Cons.prems(2,3) unfolding b by auto
  have "next_of (link h1) el = hd (todo @ [tmp_obj_list h])" using lists_tmp_next [OF Cons.prems(1)] h1(3) by simp
  then have "for_each (tmp_obj_list h) restore_object el h = Some h2" using e(1) ro h2(1) unfolding b by (subst for_each.simps) simp
  moreover have "ref_count h2 = (\<lambda>p. ref_count h p + count_refs (body h) (set (el # todo)) p)"
    unfolding h2(5) h1(5) b using e(2) by (simp add: fun_eq_iff count_refs_insert)
  ultimately show ?case using h1 h2(2-4) by (auto intro: same_rest_trans)
qed

section \<open>The two passes together\<close>

text \<open>
  A heap between two collections: all blocks are on \<open>gc_obj_list\<close>, refer to each other only,
  are not marked, and their counts are the references from outside plus those from inside.
\<close>

definition heap_ok :: "gc_heap \<Rightarrow> addr list \<Rightarrow> (addr \<Rightarrow> int) \<Rightarrow> bool" where
  "heap_ok h xs ext \<longleftrightarrow>
     dlist (link h) (gc_obj_list h) xs \<and> dlist (link h) (gc_zero_ref_count_list h) [] \<and> tmp_obj_list h \<noteq> 0
     \<and> distinct ((gc_obj_list h # xs) @ [tmp_obj_list h, gc_zero_ref_count_list h])
     \<and> (\<forall>p \<in> set xs. target ` set (children (body h p)) \<subseteq> set xs \<and> mark_bit h p = 0 \<and> p \<notin> set (freed h)
          \<and> 0 \<le> ext p \<and> ref_count h p = ext p + count_refs (body h) (set xs) p)"

lemma gc_mark_phase:
  assumes "heap_ok h xs ext"
  shows "\<exists>h1 h2 gs ts. gc_decref h = Some h1 \<and> gc_scan h1 = Some h2 \<and> lists h2 gs ts [] \<and> same_rest h h2
    \<and> set gs = reachable (body h) ext (set xs) \<and> set ts = set xs - reachable (body h) ext (set xs)
    \<and> (\<forall>p \<in> set xs. ref_count h2 p = ref_count h p) \<and> (\<forall>p \<in> set gs. mark_bit h2 p = 0)"
proof -
  define b N where "b = body h" and "N = set xs"
  have d: "dlist (link h) (gc_obj_list h) xs" "dlist (link h) (gc_zero_ref_count_list h) []" "tmp_obj_list h \<noteq> 0"
    and x: "distinct ((gc_obj_list h # xs) @ [tmp_obj_list h, gc_zero_ref_count_list h])"
    and ch: "\<And>p. p \<in> N \<Longrightarrow> target ` set (children (b p)) \<subseteq> N" and mk: "\<And>p. p \<in> N \<Longrightarrow> mark_bit h p = 0"
    and fr: "\<And>p. p \<in> N \<Longrightarrow> p \<notin> set (freed h)" and ex: "\<And>p. p \<in> N \<Longrightarrow> 0 \<le> ext p"
    and rc: "\<And>p. p \<in> N \<Longrightarrow> ref_count h p = ext p + count_refs b N p"
    using assms unfolding heap_ok_def b_def N_def by blast+
  define h0 where "h0 = h\<lparr>link := init_list_head (tmp_obj_list h) (link h)\<rparr>"
  have l0: "lists h0 ([] @ xs) [] []"
    using d x dlist_init [OF d(3), of "link h"] dlist_init_other [OF d(1), of "tmp_obj_list h"] dlist_init_other [OF d(2), of "tmp_obj_list h"]
    by (auto simp: lists_def h0_def)
  define nr0 where "nr0 p = (if p \<in> N then ref_count h p else count_refs b N p)" for p
  have d0: "decreffed {} xs nr0 h0"
    by (rule decreffedI [OF l0]) (use mk fr ex rc in \<open>auto simp: h0_def N_def nr0_def\<close>)
  have b0: "body h0 = b" "gc_obj_list h0 = gc_obj_list h" by (simp_all add: h0_def b_def)
  have le: "count_refs b (set xs) p \<le> nr0 p" for p using ex rc by (simp add: nr0_def N_def)
  obtain h1 where h1: "for_each_safe (gc_obj_list h0) decref_object (hd (xs @ [gc_obj_list h0])) h0 = Some h1" "same_rest h0 h1"
    "decreffed N [] (\<lambda>p. nr0 p - count_refs b N p) h1"
    using decref_loop [OF d0] ch le unfolding b0 by (auto simp: N_def)
  have g1: "gc_decref h = Some h1"
    using h1(1) lists_first [OF l0] by (simp add: gc_decref_def h0_def)
  have s1: "same_rest h h1" using h1(2) by (simp add: same_rest_def h0_def)
  then have b1: "body h1 = b" by (simp add: same_rest_def b_def)
  define ext' where "ext' p = nr0 p - count_refs b N p" for p
  have ext': "ext' p = (if p \<in> N then ext p else 0)" for p using rc by (simp add: ext'_def nr0_def)
  have "decreffed N [] ext' h1" using h1(3) by (simp add: ext'_def [abs_def])
  then obtain kept ts where l1: "lists h1 (kept @ []) ts []" and k: "set kept \<union> set ts = N"
    and z: "\<And>p. p \<in> set ts \<longleftrightarrow> p \<in> N \<and> ext' p = 0"
    and n: "\<And>p. p \<in> N \<Longrightarrow> ref_count h1 p = ext' p \<and> 0 \<le> ext' p \<and> p \<notin> set (freed h1)"
    unfolding decreffed_def list.set(1) Un_empty_right by blast
  have "distinct (kept @ ts)" using l1 by (auto simp: lists_def)
  then have kr: "set kept \<subseteq> reachable b ext' N"
  proof (intro subsetI)
    fix p assume p: "p \<in> set kept"
    then have "p \<in> N" "p \<notin> set ts" using k \<open>distinct (kept @ ts)\<close> by auto
    then have "0 < ext' p" using z [of p] n [of p] by auto
    then show "p \<in> reachable b ext' N" using \<open>p \<in> N\<close> by (rule reachable.root [rotated])
  qed
  have "lists h1 ([] @ kept) ts []" using l1 by simp
  then have "scanned N [] kept ext' h1" by (rule scannedI) (use k z n in auto)
  then have "scanned N [] kept (\<lambda>p. ext' p + count_refs (body h1) (set []) p) h1" by (simp add: count_refs_def)
  then obtain h2 gs where h2: "for_each (gc_obj_list h1) scan_object (hd (kept @ [gc_obj_list h1])) h1 = Some h2" "same_rest h1 h2"
    "scanned N gs [] (\<lambda>p. ext' p + count_refs b (set gs) p) h2" "set gs \<subseteq> reachable b ext' N"
    using scan_loop [of N "[]" kept ext' h1] kr ch unfolding b1 by (auto simp: ext' N_def ex)
  obtain us where l2: "lists h2 gs us []" and u: "set gs \<union> set us = N"
    and z2: "\<And>p. p \<in> set us \<longleftrightarrow> p \<in> N \<and> ext' p + count_refs b (set gs) p = 0"
    and m2: "\<And>p. p \<in> set gs \<Longrightarrow> mark_bit h2 p = 0"
    and n2: "\<And>p. p \<in> N \<Longrightarrow> ref_count h2 p = ext' p + count_refs b (set gs) p \<and> p \<notin> set (freed h2)"
    using h2(3) unfolding scanned_def append_Nil2 by blast
  have du: "distinct (gs @ us)" using l2 by (auto simp: lists_def)
  have cl: "p \<in> set gs" if "p \<in> reachable b ext' N" for p
    using that
  proof (induction rule: reachable.induct)
    case (root p)
    then have "p \<notin> set us" using z2 [of p] count_refs_nonneg [of b "set gs" p] by auto
    then show ?case using u root by auto
  next
    case (child q p)
    have "1 \<le> count_refs b (set gs) p" using count_refs_pos [of "set gs" q p b] child by simp
    moreover have "p \<in> N" using ch [of q] child u by auto
    moreover have "0 \<le> ext' p" using ex by (simp add: ext')
    ultimately have "p \<notin> set us" using z2 [of p] by auto
    then show ?case using u \<open>p \<in> N\<close> by auto
  qed
  have "reachable b ext' N = reachable b ext N"
  proof (rule set_eqI)
    have "p \<in> reachable b ext N" if "p \<in> reachable b ext' N" for p
      using that by induction (auto simp: ext' intro: reachable.intros split: if_splits)
    moreover have "p \<in> reachable b ext' N" if "p \<in> reachable b ext N" for p
      using that by induction (auto simp: ext' intro: reachable.intros)
    ultimately show "p \<in> reachable b ext' N \<longleftrightarrow> p \<in> reachable b ext N" for p by blast
  qed
  then have gr: "set gs = reachable b ext N" using cl h2(4) by auto
  have ur: "set us = N - reachable b ext N" using u du gr by auto
  have s2: "same_rest h h2" using s1 h2(2) by (rule same_rest_trans)
  have b2: "body h2 = b" "freed h2 = freed h" using s2 by (simp_all add: same_rest_def b_def)
  obtain h3 where h3: "for_each (tmp_obj_list h2) restore_object (hd (us @ [tmp_obj_list h2])) h2 = Some h3" "same_rest h2 h3" "link h3 = link h2"
    "mark_bit h3 = mark_bit h2" "ref_count h3 = (\<lambda>p. ref_count h2 p + count_refs b (set us) p)"
  proof -
    have "q \<notin> set (freed h2)" "target ` set (children (body h2 q)) \<inter> set (freed h2) = {}" if "q \<in> set us" for q
      using that ur fr ch [of q] unfolding b2 by auto
    then show ?thesis using restore_loop [of h2 gs "[]" us] l2 that unfolding b2 by auto
  qed
  have "next_of (link h1) (gc_obj_list h1) = hd (kept @ [gc_obj_list h1])" using lists_first [OF l1] by simp
  moreover have "next_of (link h2) (tmp_obj_list h2) = hd (us @ [tmp_obj_list h2])" using lists_tmp_first [OF l2] .
  ultimately have g2: "gc_scan h1 = Some h3" using h2(1) h3(1) by (simp add: gc_scan_def)
  have "lists h3 gs us []" using h3(2) by (intro lists_cong [OF l2 h3(3)]) (simp_all add: same_rest_def)
  moreover have "ref_count h3 p = ref_count h p" if p: "p \<in> N" for p
  proof -
    have "count_refs b (set gs \<union> set us) p = count_refs b (set gs) p + count_refs b (set us) p"
      unfolding count_refs_def using du by (intro sum.union_disjoint) auto
    then show ?thesis using n2 [OF p] rc [OF p] p u by (simp add: h3(5) ext')
  qed
  moreover have "mark_bit h3 p = 0" if "p \<in> set gs" for p using m2 [OF that] by (simp add: h3(4))
  ultimately show ?thesis using g1 g2 gr ur same_rest_trans [OF s2 h3(2)] unfolding b_def N_def
    by (intro exI [of _ h1] exI [of _ h3] exI [of _ gs] exI [of _ us]) auto
qed

end
