(* ===== verification/GcFree.thy ===== *)
theory GcFree
  imports GcMark
begin

text \<open>
  Removing the cycles: the blocks left on \<open>tmp_obj_list\<close> are freed one after the other, in any
  order and with references among them, without a use of a block after it was handed back.
\<close>

section \<open>Well-formed blocks\<close>

fun ref_type_ok :: "(addr \<Rightarrow> gc_obj_type) \<Rightarrow> gc_ref \<Rightarrow> bool" where
  "ref_type_ok ty (Value_Ref p) \<longleftrightarrow> value_type (ty p)"
| "ref_type_ok ty (Shape_Ref p) \<longleftrightarrow> ty p = JS_GC_OBJ_TYPE_SHAPE"
| "ref_type_ok ty (Var_Ref_Ref p) \<longleftrightarrow> ty p = JS_GC_OBJ_TYPE_VAR_REF"
| "ref_type_ok ty (Async_Ref p) \<longleftrightarrow> value_type (ty p)"
| "ref_type_ok ty (Context_Ref p) \<longleftrightarrow> ty p = JS_GC_OBJ_TYPE_JS_CONTEXT"

text \<open>A slot that is not in use holds no block, nor does the data of a plain object.\<close>

fun body_ok :: "gc_body \<Rightarrow> bool" where
  "body_ok (Js_Object sh prs cid crefs w) \<longleftrightarrow>
     (\<forall>(used, pr) \<in> set prs. \<not> used \<longrightarrow> property_refs pr = []) \<and> (cid = JS_CLASS_OBJECT \<longrightarrow> crefs = [])"
| "body_ok b \<longleftrightarrow> True"

fun running :: "gc_body \<Rightarrow> bool" where
  "running (Async_Function False _ _ None _ _) \<longleftrightarrow> True"
| "running b \<longleftrightarrow> False"

fun modules_of :: "gc_body \<Rightarrow> addr list" where
  "modules_of (Js_Context ms _ _) = ms"
| "modules_of b = []"

fun context_of :: "gc_body \<Rightarrow> addr option" where
  "context_of (Module_Def _ _ _ c) = c"
| "context_of b = None"

fun weakrefs :: "gc_body \<Rightarrow> nat" where
  "weakrefs (Js_Object _ _ _ _ w) = w"
| "weakrefs b = 0"

fun unlinked :: "gc_body \<Rightarrow> gc_body" where
  "unlinked (Module_Def a e v _) = Module_Def a e v None"
| "unlinked b = b"

section \<open>The invariant\<close>

text \<open>
  Besides the live blocks, their list, the garbage, the outside references and the types, which
  do not change, and the bodies at the start: \<open>C\<close> are the spent blocks, whose references have been released or wait in \<open>pend\<close>,
  and \<open>cur\<close> the spent blocks that are being worked on.
\<close>

record gc_ghost =
  live_list :: "addr list"
  dead :: "addr set"
  ext_refs :: "addr \<Rightarrow> int"
  types :: "addr \<Rightarrow> gc_obj_type"
  first_body :: "addr \<Rightarrow> gc_body"

abbreviation live :: "gc_ghost \<Rightarrow> addr set" where "live g \<equiv> set (live_list g)"
abbreviation blocks :: "gc_ghost \<Rightarrow> addr set" where "blocks g \<equiv> live g \<union> dead g"

definition refs_to :: "gc_ghost \<Rightarrow> (addr \<Rightarrow> gc_body) \<Rightarrow> addr set \<Rightarrow> gc_ref list \<Rightarrow> addr \<Rightarrow> int" where
  "refs_to g b C pend p = count_refs b (blocks g - C) p + int (count_list (map target pend) p)"

definition inv_lists :: "gc_ghost \<Rightarrow> addr set \<Rightarrow> addr set \<Rightarrow> gc_heap \<Rightarrow> bool" where
  "inv_lists g cur C h \<longleftrightarrow>
     (\<exists>ts zs. lists h (live_list g) ts zs \<and> set ts \<union> set zs = dead g - set (freed h)
        \<and> (\<forall>p \<in> dead g. value_type (types g p) \<longrightarrow> (p \<in> set ts \<longleftrightarrow> p \<notin> C \<or> p \<in> cur)))
     \<and> (\<forall>p \<in> dead g. \<not> value_type (types g p) \<longrightarrow> (p \<in> C \<longleftrightarrow> p \<in> set (freed h) \<or> p \<in> cur))
     \<and> (\<forall>p \<in> dead g. p \<in> set (freed h) \<longrightarrow> p \<in> C) \<and> cur \<subseteq> C \<and> C \<subseteq> dead g
     \<and> set (freed h) \<inter> (live g \<union> cur) = {} \<and> phase h = JS_GC_PHASE_REMOVE_CYCLES"

lemma inv_listsI:
  assumes "lists h (live_list g) ts zs" "set ts \<union> set zs = dead g - set (freed h)"
    "\<And>p. p \<in> dead g \<Longrightarrow> value_type (types g p) \<Longrightarrow> p \<in> set ts \<longleftrightarrow> p \<notin> C \<or> p \<in> cur"
    "\<And>p. p \<in> dead g \<Longrightarrow> \<not> value_type (types g p) \<Longrightarrow> p \<in> C \<longleftrightarrow> p \<in> set (freed h) \<or> p \<in> cur"
    "\<And>p. p \<in> dead g \<Longrightarrow> p \<in> set (freed h) \<Longrightarrow> p \<in> C" "cur \<subseteq> C" "C \<subseteq> dead g"
    "set (freed h) \<inter> (live g \<union> cur) = {}" "phase h = JS_GC_PHASE_REMOVE_CYCLES"
  shows "inv_lists g cur C h"
proof -
  have "\<forall>p \<in> dead g. value_type (types g p) \<longrightarrow> (p \<in> set ts \<longleftrightarrow> p \<notin> C \<or> p \<in> cur)"
    "\<forall>p \<in> dead g. \<not> value_type (types g p) \<longrightarrow> (p \<in> C \<longleftrightarrow> p \<in> set (freed h) \<or> p \<in> cur)"
    "\<forall>p \<in> dead g. p \<in> set (freed h) \<longrightarrow> p \<in> C"
    using assms(3-5) by simp_all
  then show ?thesis unfolding inv_lists_def using assms(1,2,6-9) by (intro conjI exI [of _ ts] exI [of _ zs])
qed

lemma inv_listsE:
  assumes "inv_lists g cur C h"
  obtains ts zs where "lists h (live_list g) ts zs" "set ts \<union> set zs = dead g - set (freed h)"
    "\<And>p. p \<in> dead g \<Longrightarrow> value_type (types g p) \<Longrightarrow> p \<in> set ts \<longleftrightarrow> p \<notin> C \<or> p \<in> cur"
  using assms unfolding inv_lists_def by (elim conjE exE) (rule that, assumption, assumption, simp)

lemma inv_listsD:
  assumes "inv_lists g cur C h"
  shows "p \<in> dead g \<Longrightarrow> \<not> value_type (types g p) \<Longrightarrow> p \<in> C \<longleftrightarrow> p \<in> set (freed h) \<or> p \<in> cur"
    "p \<in> dead g \<Longrightarrow> p \<in> set (freed h) \<Longrightarrow> p \<in> C" "cur \<subseteq> C" "C \<subseteq> dead g"
    "set (freed h) \<inter> (live g \<union> cur) = {}" "phase h = JS_GC_PHASE_REMOVE_CYCLES"
  using assms unfolding inv_lists_def by simp_all

definition inv_bodies :: "gc_ghost \<Rightarrow> addr set \<Rightarrow> gc_heap \<Rightarrow> bool" where
  "inv_bodies g C h \<longleftrightarrow>
     finite (dead g) \<and> live g \<inter> dead g = {}
     \<and> (\<forall>p \<in> blocks g. obj_type (body h p) = types g p)
     \<and> (\<forall>q \<in> blocks g - C. body_ok (body h q))
     \<and> (\<forall>q \<in> blocks g - C. \<forall>r \<in> set (children (body h q)). ref_type_ok (types g) r \<and> target r \<in> blocks g)
     \<and> (\<forall>q \<in> live g. target ` set (children (body h q)) \<subseteq> live g)
     \<and> (\<forall>q \<in> dead g - C. \<not> running (body h q))
     \<and> (\<forall>c \<in> blocks g - set (freed h). distinct (modules_of (body h c)))
     \<and> (\<forall>c \<in> blocks g - set (freed h). \<forall>m \<in> set (modules_of (body h c)). m \<in> blocks g \<and> context_of (body h m) = Some c)
     \<and> (\<forall>m \<in> blocks g. \<forall>c. context_of (body h m) = Some c \<longrightarrow> c \<in> blocks g - set (freed h) \<and> m \<in> set (modules_of (body h c)))"

lemma inv_bodiesI:
  assumes "finite (dead g)" "live g \<inter> dead g = {}"
    "\<And>p. p \<in> blocks g \<Longrightarrow> obj_type (body h p) = types g p"
    "\<And>q. q \<in> blocks g \<Longrightarrow> q \<notin> C \<Longrightarrow> body_ok (body h q)"
    "\<And>q r. q \<in> blocks g \<Longrightarrow> q \<notin> C \<Longrightarrow> r \<in> set (children (body h q)) \<Longrightarrow> ref_type_ok (types g) r \<and> target r \<in> blocks g"
    "\<And>q. q \<in> live g \<Longrightarrow> target ` set (children (body h q)) \<subseteq> live g"
    "\<And>q. q \<in> dead g \<Longrightarrow> q \<notin> C \<Longrightarrow> \<not> running (body h q)"
    "\<And>c. c \<in> blocks g \<Longrightarrow> c \<notin> set (freed h) \<Longrightarrow> distinct (modules_of (body h c))"
    "\<And>c m. c \<in> blocks g \<Longrightarrow> c \<notin> set (freed h) \<Longrightarrow> m \<in> set (modules_of (body h c)) \<Longrightarrow> m \<in> blocks g \<and> context_of (body h m) = Some c"
    "\<And>m c. m \<in> blocks g \<Longrightarrow> context_of (body h m) = Some c \<Longrightarrow> c \<in> blocks g \<and> c \<notin> set (freed h) \<and> m \<in> set (modules_of (body h c))"
  shows "inv_bodies g C h"
proof -
  have "\<forall>p \<in> blocks g. obj_type (body h p) = types g p" using assms(3) by blast
  moreover have "\<forall>q \<in> blocks g - C. body_ok (body h q)" using assms(4) by blast
  moreover have "\<forall>q \<in> blocks g - C. \<forall>r \<in> set (children (body h q)). ref_type_ok (types g) r \<and> target r \<in> blocks g"
    using assms(5) by blast
  moreover have "\<forall>q \<in> live g. target ` set (children (body h q)) \<subseteq> live g" using assms(6) by blast
  moreover have "\<forall>q \<in> dead g - C. \<not> running (body h q)" using assms(7) by blast
  moreover have "\<forall>c \<in> blocks g - set (freed h). distinct (modules_of (body h c))" using assms(8) by blast
  moreover have "\<forall>c \<in> blocks g - set (freed h). \<forall>m \<in> set (modules_of (body h c)). m \<in> blocks g \<and> context_of (body h m) = Some c"
    using assms(9) by blast
  moreover have "\<forall>m \<in> blocks g. \<forall>c. context_of (body h m) = Some c \<longrightarrow> c \<in> blocks g - set (freed h) \<and> m \<in> set (modules_of (body h c))"
    using assms(10) by blast
  ultimately show ?thesis unfolding inv_bodies_def using assms(1,2) by (intro conjI)
qed

lemma inv_bodiesD:
  assumes "inv_bodies g C h"
  shows "finite (dead g)" "live g \<inter> dead g = {}"
    "p \<in> blocks g \<Longrightarrow> obj_type (body h p) = types g p"
    "q \<in> blocks g \<Longrightarrow> q \<notin> C \<Longrightarrow> body_ok (body h q)"
    "q \<in> blocks g \<Longrightarrow> q \<notin> C \<Longrightarrow> r \<in> set (children (body h q)) \<Longrightarrow> ref_type_ok (types g) r \<and> target r \<in> blocks g"
    "q \<in> live g \<Longrightarrow> target ` set (children (body h q)) \<subseteq> live g"
    "q \<in> dead g \<Longrightarrow> q \<notin> C \<Longrightarrow> \<not> running (body h q)"
    "c \<in> blocks g \<Longrightarrow> c \<notin> set (freed h) \<Longrightarrow> distinct (modules_of (body h c))"
    "c \<in> blocks g \<Longrightarrow> c \<notin> set (freed h) \<Longrightarrow> m \<in> set (modules_of (body h c)) \<Longrightarrow> m \<in> blocks g \<and> context_of (body h m) = Some c"
    "m \<in> blocks g \<Longrightarrow> context_of (body h m) = Some c \<Longrightarrow> c \<in> blocks g \<and> c \<notin> set (freed h) \<and> m \<in> set (modules_of (body h c))"
  using assms unfolding inv_bodies_def by (elim conjE; (assumption | drule bspec, blast, blast | blast))+

definition inv_counts :: "gc_ghost \<Rightarrow> addr set \<Rightarrow> addr set \<Rightarrow> gc_ref list \<Rightarrow> gc_heap \<Rightarrow> bool" where
  "inv_counts g cur C pend h \<longleftrightarrow>
     (\<forall>r \<in> set pend. ref_type_ok (types g) r \<and> target r \<in> blocks g)
     \<and> (\<forall>p \<in> blocks g - set (freed h). ext_refs g p + refs_to g (body h) C pend p \<le> ref_count h p)
     \<and> (\<forall>p \<in> blocks g - set (freed h). p \<in> live g \<or> \<not> value_type (types g p) \<longrightarrow> ref_count h p = ext_refs g p + refs_to g (body h) C pend p)
     \<and> (\<forall>p \<in> blocks g \<inter> set (freed h). refs_to g (body h) C pend p = 0)
     \<and> (\<forall>p \<in> cur. \<not> value_type (types g p) \<longrightarrow> refs_to g (body h) C pend p = 0)
     \<and> (\<forall>p \<in> dead g - C. \<not> value_type (types g p) \<longrightarrow> 0 < ref_count h p)
     \<and> (\<forall>p \<in> live g. 0 < ext_refs g p + count_refs (body h) (live g) p)
     \<and> (\<forall>p \<in> blocks g. 0 \<le> ext_refs g p)"

lemma inv_countsI:
  assumes "\<And>r. r \<in> set pend \<Longrightarrow> ref_type_ok (types g) r \<and> target r \<in> blocks g"
    "\<And>p. p \<in> blocks g \<Longrightarrow> p \<notin> set (freed h) \<Longrightarrow> ext_refs g p + refs_to g (body h) C pend p \<le> ref_count h p"
    "\<And>p. p \<in> blocks g \<Longrightarrow> p \<notin> set (freed h) \<Longrightarrow> p \<in> live g \<or> \<not> value_type (types g p) \<Longrightarrow> ref_count h p = ext_refs g p + refs_to g (body h) C pend p"
    "\<And>p. p \<in> blocks g \<Longrightarrow> p \<in> set (freed h) \<Longrightarrow> refs_to g (body h) C pend p = 0"
    "\<And>p. p \<in> cur \<Longrightarrow> \<not> value_type (types g p) \<Longrightarrow> refs_to g (body h) C pend p = 0"
    "\<And>p. p \<in> dead g \<Longrightarrow> p \<notin> C \<Longrightarrow> \<not> value_type (types g p) \<Longrightarrow> 0 < ref_count h p"
    "\<And>p. p \<in> live g \<Longrightarrow> 0 < ext_refs g p + count_refs (body h) (live g) p"
    "\<And>p. p \<in> blocks g \<Longrightarrow> 0 \<le> ext_refs g p"
  shows "inv_counts g cur C pend h"
  unfolding inv_counts_def using assms by (intro conjI ballI impI) (blast+)

lemma inv_countsD:
  assumes "inv_counts g cur C pend h"
  shows "r \<in> set pend \<Longrightarrow> ref_type_ok (types g) r \<and> target r \<in> blocks g"
    "p \<in> blocks g \<Longrightarrow> p \<notin> set (freed h) \<Longrightarrow> ext_refs g p + refs_to g (body h) C pend p \<le> ref_count h p"
    "p \<in> blocks g \<Longrightarrow> p \<notin> set (freed h) \<Longrightarrow> p \<in> live g \<or> \<not> value_type (types g p) \<Longrightarrow> ref_count h p = ext_refs g p + refs_to g (body h) C pend p"
    "p \<in> blocks g \<Longrightarrow> p \<in> set (freed h) \<Longrightarrow> refs_to g (body h) C pend p = 0"
    "p \<in> cur \<Longrightarrow> \<not> value_type (types g p) \<Longrightarrow> refs_to g (body h) C pend p = 0"
    "p \<in> dead g \<Longrightarrow> p \<notin> C \<Longrightarrow> \<not> value_type (types g p) \<Longrightarrow> 0 < ref_count h p"
    "p \<in> live g \<Longrightarrow> 0 < ext_refs g p + count_refs (body h) (live g) p"
    "p \<in> blocks g \<Longrightarrow> 0 \<le> ext_refs g p"
  using assms unfolding inv_counts_def by blast+

text \<open>
  The live blocks keep their bodies, up to the context a module is listed on, and a block with
  weak references to it keeps its structure.
\<close>

definition inv_kept :: "gc_ghost \<Rightarrow> gc_heap \<Rightarrow> bool" where
  "inv_kept g h \<longleftrightarrow>
     (\<forall>p \<in> live g. unlinked (body h p) = unlinked (first_body g p) \<and> mark_bit h p = 0)
     \<and> (\<forall>p \<in> blocks g. weakrefs (body h p) = weakrefs (first_body g p))
     \<and> (\<forall>p \<in> dead g \<inter> set (freed h). weakrefs (first_body g p) = 0)"

lemma inv_kept_cong: "inv_kept g h \<Longrightarrow> body h' = body h \<Longrightarrow> freed h' = freed h \<Longrightarrow> mark_bit h' = mark_bit h \<Longrightarrow> inv_kept g h'"
  by (simp add: inv_kept_def)

definition inv :: "gc_ghost \<Rightarrow> addr set \<Rightarrow> addr set \<Rightarrow> gc_ref list \<Rightarrow> gc_heap \<Rightarrow> bool" where
  "inv g cur C pend h \<longleftrightarrow> inv_lists g cur C h \<and> inv_bodies g C h \<and> inv_counts g cur C pend h \<and> inv_kept g h"

text \<open>What the two parts on lists and bodies depend on.\<close>

lemma inv_lists_cong:
  assumes i: "inv_lists g cur C h" and e: "link h' = link h" "gc_obj_list h' = gc_obj_list h" "tmp_obj_list h' = tmp_obj_list h"
    "gc_zero_ref_count_list h' = gc_zero_ref_count_list h" "freed h' = freed h" "phase h' = phase h"
  shows "inv_lists g cur C h'"
proof -
  have "lists h' = lists h" by (simp add: lists_def e fun_eq_iff)
  with i show ?thesis unfolding inv_lists_def e by (elim ssubst)
qed

lemma inv_bodies_cong: "inv_bodies g C h \<Longrightarrow> body h' = body h \<Longrightarrow> freed h' = freed h \<Longrightarrow> inv_bodies g C h'"
  unfolding inv_bodies_def by (elim ssubst)

lemma inv_bodies_mono:
  assumes b: "inv_bodies g C h" and sub: "C \<subseteq> C'"
  shows "inv_bodies g C' h"
proof -
  have "q \<notin> C" if "q \<notin> C'" for q using that sub by blast
  note n = this
  show ?thesis
  proof (rule inv_bodiesI)
    show "body_ok (body h q)" if "q \<in> blocks g" "q \<notin> C'" for q by (rule inv_bodiesD(4) [OF b that(1) n [OF that(2)]])
    show "ref_type_ok (types g) r \<and> target r \<in> blocks g"
      if "q \<in> blocks g" "q \<notin> C'" "r \<in> set (children (body h q))" for q r
      by (rule inv_bodiesD(5) [OF b that(1) n [OF that(2)] that(3)])
    show "\<not> running (body h q)" if "q \<in> dead g" "q \<notin> C'" for q by (rule inv_bodiesD(7) [OF b that(1) n [OF that(2)]])
  qed (fact inv_bodiesD [OF b])+
qed

lemma refs_to_nonneg [simp]: "0 \<le> refs_to g b C pend p" by (simp add: refs_to_def)

lemma refs_to_Cons: "refs_to g b C (r # pend) p = refs_to g b C pend p + of_bool (p = target r)"
  by (simp add: refs_to_def)

lemma refs_to_append: "refs_to g b C (xs @ pend) p = refs_to g b C pend p + int (count_list (map target xs) p)"
  by (simp add: refs_to_def)

text \<open>The order of the pending references does not matter.\<close>

lemma inv_perm: "inv g cur C pend h \<Longrightarrow> mset pend = mset pend' \<Longrightarrow> inv g cur C pend' h"
proof -
  assume i: "inv g cur C pend h" and m: "mset pend = mset pend'"
  have "mset (map target pend) = mset (map target pend')" using m by simp
  then have "count_list (map target pend) p = count_list (map target pend') p" for p by (metis count_mset)
  then have "refs_to g b C' pend = refs_to g b C' pend'" for b C' by (simp add: refs_to_def fun_eq_iff)
  moreover have "set pend = set pend'" using m by (metis set_mset_mset)
  ultimately show ?thesis using i by (simp add: inv_def inv_counts_def)
qed

lemma pending_alive:
  assumes "inv g cur C (r # pend) h"
  shows "alive (target r) h = Some ()" "target r \<in> blocks g" "0 < ref_count h (target r)" "ref_type_ok (types g) r"
    "target r \<notin> set (freed h)"
proof -
  have c: "inv_counts g cur C (r # pend) h" using assms by (simp add: inv_def)
  then show b: "target r \<in> blocks g" and "ref_type_ok (types g) r" using inv_countsD(1) [OF c, of r] by simp_all
  have "refs_to g (body h) C (r # pend) (target r) = refs_to g (body h) C pend (target r) + 1" by (simp add: refs_to_Cons)
  then have p: "0 < refs_to g (body h) C (r # pend) (target r)" using refs_to_nonneg [of g "body h" C pend "target r"] by linarith
  then show nf: "target r \<notin> set (freed h)" using inv_countsD(4) [OF c b] by auto
  then show "alive (target r) h = Some ()" by (simp add: alive_def)
  show "0 < ref_count h (target r)" using p inv_countsD(2) [OF c b nf] inv_countsD(8) [OF c b] by linarith
qed

text \<open>A pending reference is given up: the count goes down, and for a block that is not freed by its type
  alone it must not reach zero.\<close>

lemma inv_drop:
  assumes i: "inv g cur C (r # pend) h" and z: "value_type (types g (target r)) \<or> 1 < ref_count h (target r)"
  shows "inv g cur C pend (set_rc (target r) (ref_count h (target r) - 1) h)"
proof -
  define p h' where "p = target r" and "h' = set_rc p (ref_count h p - 1) h"
  have c: "inv_counts g cur C (r # pend) h" using i by (simp add: inv_def)
  have h': "body h' = body h" "freed h' = freed h" "ref_count h' x = ref_count h x - of_bool (x = target r)" for x
    by (simp_all add: h'_def p_def)
  have rt: "refs_to g (body h) C pend x = refs_to g (body h) C (r # pend) x - of_bool (x = target r)" for x by (simp add: refs_to_Cons)
  have "inv_counts g cur C pend h'"
  proof (rule inv_countsI; (unfold h' rt)?)
    fix x assume x: "x \<in> blocks g" "x \<notin> set (freed h)"
    show "ext_refs g x + (refs_to g (body h) C (r # pend) x - of_bool (x = target r)) \<le> ref_count h x - of_bool (x = target r)"
      using inv_countsD(2) [OF c x] by simp
    assume "x \<in> live g \<or> \<not> value_type (types g x)"
    then show "ref_count h x - of_bool (x = target r) = ext_refs g x + (refs_to g (body h) C (r # pend) x - of_bool (x = target r))"
      using inv_countsD(3) [OF c x] by simp
  next
    fix x assume "x \<in> blocks g" "x \<in> set (freed h)"
    then show "refs_to g (body h) C (r # pend) x - of_bool (x = target r) = 0"
      using inv_countsD(4) [OF c, of x] pending_alive(5) [OF i] by auto
  next
    fix x assume "x \<in> cur" "\<not> value_type (types g x)"
    then have "refs_to g (body h) C (r # pend) x = 0" using inv_countsD(5) [OF c, of x] by simp
    then show "refs_to g (body h) C (r # pend) x - of_bool (x = target r) = 0"
      using refs_to_nonneg [of g "body h" C pend x] unfolding rt [of x] by (cases "x = target r") simp_all
  next
    fix x assume x: "x \<in> dead g" "x \<notin> C" "\<not> value_type (types g x)"
    then show "0 < ref_count h x - of_bool (x = target r)" using inv_countsD(6) [OF c x] z by auto
  next
    fix s assume "s \<in> set pend"
    then show "ref_type_ok (types g) s \<and> target s \<in> blocks g" using inv_countsD(1) [OF c, of s] by simp
  qed (use inv_countsD(7,8) [OF c] in simp_all)
  moreover have "inv_lists g cur C h'"
    by (rule inv_lists_cong [of g cur C h]) (use i in \<open>simp_all add: inv_def h'_def\<close>)
  moreover have "inv_bodies g C h'"
    by (rule inv_bodies_cong [of g C h]) (use i in \<open>simp_all add: inv_def h'_def\<close>)
  moreover have "inv_kept g h'"
    by (rule inv_kept_cong [of g h]) (use i in \<open>simp_all add: inv_def h'_def\<close>)
  ultimately show ?thesis by (simp add: inv_def h'_def p_def)
qed

text \<open>A piece of the sweep goes through: it returns, more blocks may be spent, and \<open>P\<close> holds.\<close>

definition goes :: "gc_ghost \<Rightarrow> addr set \<Rightarrow> addr set \<Rightarrow> gc_ref list \<Rightarrow> (gc_heap \<Rightarrow> bool) \<Rightarrow> gc_heap option \<Rightarrow> bool" where
  "goes g cur C pend P r \<longleftrightarrow> (\<exists>h' C'. r = Some h' \<and> C \<subseteq> C' \<and> inv g cur C' pend h' \<and> P h')"

lemma goesI: "r = Some h' \<Longrightarrow> C \<subseteq> C' \<Longrightarrow> inv g cur C' pend h' \<Longrightarrow> P h' \<Longrightarrow> goes g cur C pend P r"
  unfolding goes_def by blast

lemma goesE:
  assumes "goes g cur C pend P r"
  obtains h' C' where "r = Some h'" "C \<subseteq> C'" "inv g cur C' pend h'" "P h'"
  using assms unfolding goes_def by blast

lemma goes_mono: "goes g cur C' pend P r \<Longrightarrow> C \<subseteq> C' \<Longrightarrow> (\<And>h. P h \<Longrightarrow> Q h) \<Longrightarrow> goes g cur C pend Q r"
  unfolding goes_def by blast

lemma free_value_ref_step:
  assumes i: "inv g cur C (r # pend) h" and v: "value_type (types g (target r))"
  shows "goes g cur C pend (\<lambda>h'. body h' = body h) (free_value_ref (target r) h)"
proof (rule goesI)
  have "phase h = JS_GC_PHASE_REMOVE_CYCLES" using i by (simp add: inv_def inv_lists_def)
  then show "free_value_ref (target r) h = Some (set_rc (target r) (ref_count h (target r) - 1) h)"
    using pending_alive [OF i] by (simp add: free_value_ref_def queue_zero_def Let_def)
qed (use inv_drop [OF i] v in auto)

lemma async_func_free_step:
  assumes i: "inv g cur C (r # pend) h" and v: "value_type (types g (target r))"
  shows "goes g cur C pend (\<lambda>h'. body h' = body h) (async_func_free (target r) h)"
proof (rule goesI)
  have "phase h = JS_GC_PHASE_REMOVE_CYCLES" using i by (simp add: inv_def inv_lists_def)
  then show "async_func_free (target r) h = Some (set_rc (target r) (ref_count h (target r) - 1) h)"
    using pending_alive [OF i] by (simp add: async_func_free_def Let_def)
qed (use inv_drop [OF i] v in auto)

text \<open>A list of references is released by releasing each.\<close>

lemma each_step:
  assumes "inv g cur C (rs @ pend) h" "P h"
    and "\<And>r pend C h. r \<in> set rs \<Longrightarrow> inv g cur C (r # pend) h \<Longrightarrow> P h \<Longrightarrow> goes g cur C pend P (f r h)"
  shows "goes g cur C pend P (each f rs h)"
  using assms
proof (induction rs arbitrary: C h)
  case Nil
  then show ?case by (intro goesI [of _ h C C]) auto
next
  case (Cons r rs)
  obtain h1 C1 where h1: "f r h = Some h1" "C \<subseteq> C1" "inv g cur C1 (rs @ pend) h1" "P h1"
    using Cons.prems(3) [of r C "rs @ pend" h] Cons.prems(1,2) by (auto elim: goesE)
  have "goes g cur C1 pend P (each f rs h1)" using Cons.IH [OF h1(3,4)] Cons.prems(3) by (meson list.set_intros(2))
  then show ?case using h1(1,2) by (auto intro: goes_mono)
qed

lemma release_values:
  assumes "inv g cur C (rs @ pend) h" "\<forall>r \<in> set rs. \<exists>p. r = Value_Ref p"
  shows "goes g cur C pend (\<lambda>h'. body h' = body h) (each release_value rs h)"
proof (rule each_step [OF assms(1) refl])
  fix r pend C h' assume r: "r \<in> set rs" and i: "inv g cur C (r # pend) h'" and b: "body h' = body h"
  obtain p where p: "r = Value_Ref p" using r assms(2) by blast
  then have "value_type (types g (target r))" using pending_alive(4) [OF i] by simp
  from free_value_ref_step [OF i this] b show "goes g cur C pend (\<lambda>h'. body h' = body h) (release_value r h')"
    by (simp add: release_value_def)
qed

lemma mark_values_refs: "r \<in> set (mark_values vs) \<Longrightarrow> \<exists>p. r = Value_Ref p"
proof -
  have "r \<in> set (JS_MarkValue v) \<Longrightarrow> \<exists>p. r = Value_Ref p" for v by (cases v) auto
  then show "r \<in> set (mark_values vs) \<Longrightarrow> \<exists>p. r = Value_Ref p" by (auto simp: mark_values_def)
qed

lemma JS_MarkValue_refs: "r \<in> set (JS_MarkValue v) \<Longrightarrow> \<exists>p. r = Value_Ref p"
  by (cases v) auto

lemma option_ref_set: "r \<in> set (option_ref f x) \<Longrightarrow> \<exists>p. r = f p"
  by (auto simp: option_ref_def split: option.splits)

section \<open>Spending a block\<close>

lemma count_refs_remove:
  assumes "finite Q" "p \<in> Q"
  shows "count_refs b Q x = count_refs b (Q - {p}) x + int (count_list (map target (children (b p))) x)"
  using assms unfolding count_refs_def by (simp add: sum.remove [of Q p])

lemma inv_finite: "inv g cur C pend h \<Longrightarrow> finite (blocks g)"
  by (simp add: inv_def inv_bodies_def)

text \<open>Spending a block turns its references into pending ones.\<close>

lemma refs_to_spend:
  assumes "finite (blocks g)" "p \<in> blocks g" "p \<notin> C"
  shows "refs_to g b (insert p C) (children (b p) @ pend) x = refs_to g b C pend x"
proof -
  have "blocks g - insert p C = (blocks g - C) - {p}" by auto
  then show ?thesis using count_refs_remove [of "blocks g - C" p b x] assms unfolding refs_to_append by (simp add: refs_to_def)
qed

lemma inv_lists_spend:
  assumes l: "inv_lists g cur C h" and p: "p \<in> dead g" "p \<notin> C" "p \<notin> set (freed h)"
  shows "inv_lists g (insert p cur) (insert p C) h"
proof -
  obtain ts zs where t: "lists h (live_list g) ts zs" "set ts \<union> set zs = dead g - set (freed h)"
    "\<And>p. p \<in> dead g \<Longrightarrow> value_type (types g p) \<Longrightarrow> p \<in> set ts \<longleftrightarrow> p \<notin> C \<or> p \<in> cur"
    using inv_listsE [OF l] by blast
  show ?thesis
  proof (rule inv_listsI [OF t(1,2)])
    show "x \<in> set ts \<longleftrightarrow> x \<notin> insert p C \<or> x \<in> insert p cur" if "x \<in> dead g" "value_type (types g x)" for x
      using t(3) [OF that] p(2) by auto
    show "x \<in> insert p C \<longleftrightarrow> x \<in> set (freed h) \<or> x \<in> insert p cur" if "x \<in> dead g" "\<not> value_type (types g x)" for x
      using inv_listsD(1) [OF l that] by auto
    show "x \<in> insert p C" if "x \<in> dead g" "x \<in> set (freed h)" for x using inv_listsD(2) [OF l that] by simp
    show "set (freed h) \<inter> (live g \<union> insert p cur) = {}" using inv_listsD(5) [OF l] p(3) by auto
  qed (use inv_listsD [OF l] p(1) in auto)
qed

lemma inv_spend:
  assumes i: "inv g cur C pend h" and p: "p \<in> dead g" "p \<notin> C" "p \<notin> set (freed h)" and v: "value_type (types g p)"
  shows "inv g (insert p cur) (insert p C) (children (body h p) @ pend) h"
proof -
  have rt: "refs_to g (body h) (insert p C) (children (body h p) @ pend) x = refs_to g (body h) C pend x" for x
    using refs_to_spend [OF inv_finite [OF i] _ p(2)] p(1) by simp
  have b: "inv_bodies g C h" and c: "inv_counts g cur C pend h" using i by (simp_all add: inv_def)
  have "inv_lists g (insert p cur) (insert p C) h" by (rule inv_lists_spend [OF _ p]) (use i in \<open>simp add: inv_def\<close>)
  moreover have "inv_bodies g (insert p C) h" by (rule inv_bodies_mono [OF b]) blast
  moreover have "inv_counts g (insert p cur) (insert p C) (children (body h p) @ pend) h"
  proof (rule inv_countsI; (unfold rt)?)
    show "ref_type_ok (types g) r \<and> target r \<in> blocks g" if "r \<in> set (children (body h p) @ pend)" for r
      using that inv_bodiesD(5) [OF b, of p r] inv_countsD(1) [OF c, of r] p by auto
    show "refs_to g (body h) C pend x = 0" if "x \<in> insert p cur" "\<not> value_type (types g x)" for x
      using that v inv_countsD(5) [OF c, of x] by auto
    show "0 < ref_count h x" if "x \<in> dead g" "x \<notin> insert p C" "\<not> value_type (types g x)" for x
      using that inv_countsD(6) [OF c, of x] by auto
  qed (use inv_countsD [OF c] in simp_all)
  ultimately show ?thesis using i by (simp add: inv_def)
qed

text \<open>The last reference to a block that is freed at once: only a reference among the garbage can be it.\<close>

lemma inv_last:
  assumes i: "inv g cur C (r # pend) h" and v: "\<not> value_type (types g (target r))" and one: "\<not> 1 < ref_count h (target r)"
  defines "p \<equiv> target r"
  shows "ref_count h p = 1" "p \<in> dead g" "p \<notin> C" "p \<notin> cur" "p \<notin> set (freed h)"
    "inv g (insert p cur) (insert p C) (children (body h p) @ pend) (set_rc p 0 h)"
proof -
  have l: "inv_lists g cur C h" and b: "inv_bodies g C h" and c: "inv_counts g cur C (r # pend) h" using i by (simp_all add: inv_def)
  have a: "p \<in> blocks g" "0 < ref_count h p" "p \<notin> set (freed h)" using pending_alive [OF i] by (simp_all add: p_def)
  then show rc: "ref_count h p = 1" and nf: "p \<notin> set (freed h)" using one by (simp_all add: p_def)
  have rr: "refs_to g (body h) C (r # pend) x = refs_to g (body h) C pend x + of_bool (x = p)" for x by (simp add: refs_to_Cons p_def)
  have "1 = ext_refs g p + (refs_to g (body h) C pend p + 1)"
    using inv_countsD(3) [OF c a(1,3)] v rc by (simp add: rr p_def)
  then have z: "ext_refs g p = 0" "refs_to g (body h) C pend p = 0"
    using inv_countsD(8) [OF c a(1)] refs_to_nonneg [of g "body h" C pend p] by linarith+
  have "live g \<subseteq> blocks g - C" using inv_listsD(4) [OF l] inv_bodiesD(2) [OF b] by blast
  then have "count_refs (body h) (live g) p \<le> refs_to g (body h) C pend p"
    using count_refs_mono [of "blocks g - C" "live g" "body h" p] inv_finite [OF i] by (simp add: refs_to_def)
  then have "p \<notin> live g" using inv_countsD(7) [OF c, of p] z by auto
  then show pd: "p \<in> dead g" using a(1) by simp
  show pc: "p \<notin> cur" using inv_countsD(5) [OF c, of p] v z rr [of p] by (auto simp: p_def)
  show pC: "p \<notin> C" using inv_listsD(1) [OF l pd] v nf pc by (auto simp: p_def)
  have rt: "refs_to g (body h) (insert p C) (children (body h p) @ pend) x = refs_to g (body h) C (r # pend) x - of_bool (x = p)" for x
    using refs_to_spend [OF inv_finite [OF i] a(1) pC] by (simp add: rr)
  let ?h = "set_rc p 0 h"
  have "inv_lists g (insert p cur) (insert p C) ?h"
    by (rule inv_lists_cong [OF inv_lists_spend [OF l pd pC nf]]) simp_all
  moreover have "inv_bodies g (insert p C) ?h"
    by (rule inv_bodies_mono [of g C]) (use inv_bodies_cong [OF b, of ?h] in auto)
  moreover have "inv_counts g (insert p cur) (insert p C) (children (body h p) @ pend) ?h"
  proof (rule inv_countsI; (unfold set_rc_frame rt)?)
    show "ref_type_ok (types g) s \<and> target s \<in> blocks g" if "s \<in> set (children (body h p) @ pend)" for s
      using that inv_bodiesD(5) [OF b a(1) pC, of s] inv_countsD(1) [OF c, of s] by auto
    show "ext_refs g x + (refs_to g (body h) C (r # pend) x - of_bool (x = p)) \<le> ((ref_count h)(p := 0)) x"
      if "x \<in> blocks g" "x \<notin> set (freed h)" for x
      using inv_countsD(2) [OF c that] z rr [of p] by simp
    show "((ref_count h)(p := 0)) x = ext_refs g x + (refs_to g (body h) C (r # pend) x - of_bool (x = p))"
      if "x \<in> blocks g" "x \<notin> set (freed h)" "x \<in> live g \<or> \<not> value_type (types g x)" for x
      using inv_countsD(3) [OF c that] z rr [of p] by simp
    show "refs_to g (body h) C (r # pend) x - of_bool (x = p) = 0" if "x \<in> blocks g" "x \<in> set (freed h)" for x
      using inv_countsD(4) [OF c that] nf that by auto
    show "refs_to g (body h) C (r # pend) x - of_bool (x = p) = 0" if "x \<in> insert p cur" "\<not> value_type (types g x)" for x
      using that inv_countsD(5) [OF c, of x] z rr [of p] pc by auto
    show "0 < ((ref_count h)(p := 0)) x" if "x \<in> dead g" "x \<notin> insert p C" "\<not> value_type (types g x)" for x
      using that inv_countsD(6) [OF c, of x] by auto
  qed (fact inv_countsD(7,8) [OF c])+
  moreover have "inv_kept g ?h" by (rule inv_kept_cong [of g h]) (use i in \<open>simp_all add: inv_def\<close>)
  ultimately show "inv g (insert p cur) (insert p C) (children (body h p) @ pend) ?h" by (simp add: inv_def)
qed

section \<open>A block leaves the lists\<close>

lemma lists_remove_tmp:
  assumes "lists h gs ts zs" "p \<in> set ts"
  shows "lists (remove_gc_object p h) gs (remove1 p ts) zs"
proof -
  have d: "dlist (link h) (gc_obj_list h) gs" "dlist (link h) (tmp_obj_list h) ts" "dlist (link h) (gc_zero_ref_count_list h) zs"
    and x: "distinct ((gc_obj_list h # gs) @ (tmp_obj_list h # ts) @ (gc_zero_ref_count_list h # zs))"
    using assms(1) by (simp_all add: lists_def)
  have "dlist (list_del p (link h)) (tmp_obj_list h) (remove1 p ts)" using d(2) assms(2) by (rule dlist_del)
  moreover have "dlist (list_del p (link h)) (gc_obj_list h) gs" by (rule dlist_del_other [OF d(2) assms(2) d(1)]) (use x in auto)
  moreover have "dlist (list_del p (link h)) (gc_zero_ref_count_list h) zs" by (rule dlist_del_other [OF d(2) assms(2) d(3)]) (use x in auto)
  ultimately show ?thesis using x by (auto simp: lists_def remove_gc_object_def)
qed

lemma lists_remove_zero:
  assumes "lists h gs ts zs" "p \<in> set zs"
  shows "lists (remove_gc_object p h) gs ts (remove1 p zs)"
proof -
  have d: "dlist (link h) (gc_obj_list h) gs" "dlist (link h) (tmp_obj_list h) ts" "dlist (link h) (gc_zero_ref_count_list h) zs"
    and x: "distinct ((gc_obj_list h # gs) @ (tmp_obj_list h # ts) @ (gc_zero_ref_count_list h # zs))"
    using assms(1) by (simp_all add: lists_def)
  have "dlist (list_del p (link h)) (gc_zero_ref_count_list h) (remove1 p zs)" using d(3) assms(2) by (rule dlist_del)
  moreover have "dlist (list_del p (link h)) (gc_obj_list h) gs" by (rule dlist_del_other [OF d(3) assms(2) d(1)]) (use x in auto)
  moreover have "dlist (list_del p (link h)) (tmp_obj_list h) ts" by (rule dlist_del_other [OF d(3) assms(2) d(2)]) (use x in auto)
  ultimately show ?thesis using x by (auto simp: lists_def remove_gc_object_def)
qed

lemma remove_gc_object_frame [simp]:
  "ref_count (remove_gc_object p h) = ref_count h" "mark_bit (remove_gc_object p h) = mark_bit h" "body (remove_gc_object p h) = body h"
  "phase (remove_gc_object p h) = phase h" "freed (remove_gc_object p h) = freed h" "gc_obj_list (remove_gc_object p h) = gc_obj_list h"
  "tmp_obj_list (remove_gc_object p h) = tmp_obj_list h" "gc_zero_ref_count_list (remove_gc_object p h) = gc_zero_ref_count_list h"
  by (simp_all add: remove_gc_object_def)

text \<open>A spent block leaves its list.\<close>

lemma lists_remove:
  assumes l: "inv_lists g cur C h" and p: "p \<in> dead g" "p \<notin> set (freed h)"
  obtains ts zs where "lists (remove_gc_object p h) (live_list g) ts zs" "set ts \<union> set zs = dead g - set (freed h) - {p}"
    "\<forall>x \<in> dead g. value_type (types g x) \<longrightarrow> (x \<in> set ts \<longleftrightarrow> (x \<notin> C \<or> x \<in> cur) \<and> x \<noteq> p)" "p \<notin> set ts" "p \<notin> set zs"
proof -
  obtain ts zs where t: "lists h (live_list g) ts zs" "set ts \<union> set zs = dead g - set (freed h)"
    "\<And>p. p \<in> dead g \<Longrightarrow> value_type (types g p) \<Longrightarrow> p \<in> set ts \<longleftrightarrow> p \<notin> C \<or> p \<in> cur"
    using inv_listsE [OF l] by blast
  have d: "distinct ts" "distinct zs" "set ts \<inter> set zs = {}" using t(1) by (auto simp: lists_def)
  consider "p \<in> set ts" "p \<notin> set zs" | "p \<in> set zs" "p \<notin> set ts" using t(2) p d by blast
  then show ?thesis
  proof cases
    case 1
    have s: "set (remove1 p ts) = set ts - {p}" using d by simp
    show ?thesis
    proof (rule that [OF lists_remove_tmp [OF t(1) 1(1)]]; (unfold s)?)
      show "set ts - {p} \<union> set zs = dead g - set (freed h) - {p}" using t(2) 1 by blast
      show "\<forall>x \<in> dead g. value_type (types g x) \<longrightarrow> (x \<in> set ts - {p} \<longleftrightarrow> (x \<notin> C \<or> x \<in> cur) \<and> x \<noteq> p)"
        using t(3) by blast
    qed (use 1 in simp_all)
  next
    case 2
    have s: "set (remove1 p zs) = set zs - {p}" using d by simp
    show ?thesis
    proof (rule that [OF lists_remove_zero [OF t(1) 2(1)]]; (unfold s)?)
      show "set ts \<union> (set zs - {p}) = dead g - set (freed h) - {p}" using t(2) 2 by blast
      show "\<forall>x \<in> dead g. value_type (types g x) \<longrightarrow> (x \<in> set ts \<longleftrightarrow> (x \<notin> C \<or> x \<in> cur) \<and> x \<noteq> p)"
        using t(3) 2(2) by blast
    qed (use 2 in simp_all)
  qed
qed

text \<open>It goes back to the allocator once nothing refers to it.\<close>

lemma inv_finish:
  assumes i: "inv g (insert p cur) C pend h" and p: "p \<notin> cur" "modules_of (body h p) = []"
    and z: "refs_to g (body h) C pend p = 0" "weakrefs (body h p) = 0"
  shows "\<exists>h'. js_free_rt p (remove_gc_object p h) = Some h' \<and> inv g cur C pend h' \<and> body h' = body h"
proof -
  have l: "inv_lists g (insert p cur) C h" and b: "inv_bodies g C h" and c: "inv_counts g (insert p cur) C pend h"
    using i by (simp_all add: inv_def)
  have pd: "p \<in> dead g" "p \<in> C" "p \<notin> set (freed h)" "p \<notin> live g"
    using inv_listsD(3-5) [OF l] inv_bodiesD(2) [OF b] by auto
  define h' where "h' = (remove_gc_object p h)\<lparr>freed := p # freed h\<rparr>"
  have f: "js_free_rt p (remove_gc_object p h) = Some h'" using pd by (simp add: js_free_rt_def alive_def h'_def)
  have h': "body h' = body h" "freed h' = p # freed h" "ref_count h' = ref_count h" "phase h' = phase h" "mark_bit h' = mark_bit h"
    by (simp_all add: h'_def)
  obtain ts zs where t: "lists (remove_gc_object p h) (live_list g) ts zs" "set ts \<union> set zs = dead g - set (freed h) - {p}"
    "\<forall>x \<in> dead g. value_type (types g x) \<longrightarrow> (x \<in> set ts \<longleftrightarrow> (x \<notin> C \<or> x \<in> insert p cur) \<and> x \<noteq> p)"
    "p \<notin> set ts" "p \<notin> set zs"
    by (rule lists_remove [OF l pd(1,3)])
  have l': "lists h' (live_list g) ts zs" by (rule lists_cong [OF t(1)]) (simp_all add: h'_def)
  have "inv_lists g cur C h'"
  proof (rule inv_listsI [OF l']; (unfold h')?)
    show "set ts \<union> set zs = dead g - set (p # freed h)" using t(2) by auto
    show "x \<in> set ts \<longleftrightarrow> x \<notin> C \<or> x \<in> cur" if "x \<in> dead g" "value_type (types g x)" for x
      using t(3) that p pd by auto
    show "x \<in> C \<longleftrightarrow> x \<in> set (p # freed h) \<or> x \<in> cur" if "x \<in> dead g" "\<not> value_type (types g x)" for x
      using inv_listsD(1) [OF l that] by auto
    show "x \<in> C" if "x \<in> dead g" "x \<in> set (p # freed h)" for x using inv_listsD(2) [OF l, of x] that pd by auto
    show "set (p # freed h) \<inter> (live g \<union> cur) = {}" using inv_listsD(5) [OF l] p pd by auto
  qed (use inv_listsD [OF l] in auto)
  moreover have "inv_bodies g C h'"
  proof (rule inv_bodiesI; (unfold h')?)
    fix m k assume m: "m \<in> blocks g" "context_of (body h m) = Some k"
    then have k: "k \<in> blocks g \<and> k \<notin> set (freed h) \<and> m \<in> set (modules_of (body h k))" by (rule inv_bodiesD(10) [OF b])
    then have "k \<noteq> p" using p(2) by auto
    then show "k \<in> blocks g \<and> k \<notin> set (p # freed h) \<and> m \<in> set (modules_of (body h k))" using k by simp
  next
    show "distinct (modules_of (body h c))" if "c \<in> blocks g" "c \<notin> set (p # freed h)" for c
      by (rule inv_bodiesD(8) [OF b that(1)]) (use that(2) in simp)
    show "m \<in> blocks g \<and> context_of (body h m) = Some c"
      if "c \<in> blocks g" "c \<notin> set (p # freed h)" "m \<in> set (modules_of (body h c))" for c m
      by (rule inv_bodiesD(9) [OF b that(1) _ that(3)]) (use that(2) in simp)
  qed (fact inv_bodiesD(1-7) [OF b])+
  moreover have "inv_counts g cur C pend h'"
  proof (rule inv_countsI; (unfold h')?)
    show "refs_to g (body h) C pend x = 0" if "x \<in> blocks g" "x \<in> set (p # freed h)" for x
      using that inv_countsD(4) [OF c, of x] z by auto
  qed (use inv_countsD [OF c] in auto)
  moreover have "inv_kept g h'" using i z(2) pd by (simp add: inv_def inv_kept_def h')
  ultimately show ?thesis using f by (simp add: inv_def h'(1))
qed

end
