(* ===== verification/GcRelease.thy ===== *)
theory GcRelease
  imports GcFree
begin

text \<open>
  Giving up a reference while cycles are removed, for each kind of reference: a shape, a
  variable reference or a context that loses its last reference is freed at once, everything
  else waits for its turn.
\<close>

section \<open>Shapes and variable references\<close>

lemma obj_type_cases:
  "obj_type b = JS_GC_OBJ_TYPE_SHAPE \<Longrightarrow> \<exists>proto. b = Shape proto"
  "obj_type b = JS_GC_OBJ_TYPE_VAR_REF \<Longrightarrow> (\<exists>x. b = Var_Ref_Detached x) \<or> (\<exists>f. b = Var_Ref_On_Stack f)"
  "obj_type b = JS_GC_OBJ_TYPE_JS_CONTEXT \<Longrightarrow> \<exists>ms vals shapes. b = Js_Context ms vals shapes"
  "obj_type b = JS_GC_OBJ_TYPE_JS_OBJECT \<Longrightarrow> \<exists>sh prs cid crefs w. b = Js_Object sh prs cid crefs w"
  "obj_type b = JS_GC_OBJ_TYPE_FUNCTION_BYTECODE \<Longrightarrow> \<exists>cpool ctx. b = Function_Bytecode cpool ctx"
  "obj_type b = JS_GC_OBJ_TYPE_ASYNC_FUNCTION \<Longrightarrow> \<exists>c f t s r0 r1. b = Async_Function c f t s r0 r1"
  "obj_type b = JS_GC_OBJ_TYPE_MODULE \<Longrightarrow> \<exists>a e v l. b = Module_Def a e v l"
  by (cases b; simp)+

lemma not_value_type [simp]:
  "\<not> value_type JS_GC_OBJ_TYPE_SHAPE" "\<not> value_type JS_GC_OBJ_TYPE_VAR_REF" "\<not> value_type JS_GC_OBJ_TYPE_JS_CONTEXT"
  "value_type JS_GC_OBJ_TYPE_JS_OBJECT" "value_type JS_GC_OBJ_TYPE_FUNCTION_BYTECODE"
  "value_type JS_GC_OBJ_TYPE_ASYNC_FUNCTION" "value_type JS_GC_OBJ_TYPE_MODULE"
  by (simp_all add: value_type_def)

lemma inv_type: "inv g cur C pend h \<Longrightarrow> p \<in> blocks g \<Longrightarrow> obj_type (body h p) = types g p"
  unfolding inv_def using inv_bodiesD(3) by blast

lemma inv_phase: "inv g cur C pend h \<Longrightarrow> phase h = JS_GC_PHASE_REMOVE_CYCLES"
  by (simp add: inv_def inv_lists_def)

text \<open>The block itself, once all it held has been released.\<close>

lemma finish_step:
  assumes i: "inv g (insert p cur) C pend h" and p: "p \<notin> cur" and v: "\<not> value_type (types g p)" and m: "modules_of (body h p) = []"
  shows "goes g cur C pend (\<lambda>h'. body h' = body h) (js_free_rt p (remove_gc_object p h))"
proof -
  have "p \<in> dead g" using i inv_listsD(3,4) [of g "insert p cur" C h] by (auto simp: inv_def)
  then have "obj_type (body h p) = types g p" using inv_type [OF i, of p] by simp
  then have w: "weakrefs (body h p) = 0" using v by (cases "body h p") (auto simp: value_type_def)
  have "refs_to g (body h) C pend p = 0"
    using i inv_countsD(5) [of g "insert p cur" C pend h p] v by (simp add: inv_def)
  then obtain h' where "js_free_rt p (remove_gc_object p h) = Some h'" "inv g cur C pend h'" "body h' = body h"
    using inv_finish [OF i p m _ w] by blast
  then show ?thesis by (intro goesI [of _ h' C C]) auto
qed

lemma drop_step:
  assumes "inv g cur C (r # pend) h" "1 < ref_count h (target r)"
  shows "goes g cur C pend (\<lambda>h'. body h' = body h) (Some (set_rc (target r) (ref_count h (target r) - 1) h))"
  by (rule goesI [of _ "set_rc (target r) (ref_count h (target r) - 1) h" C C]) (use inv_drop [OF assms(1)] assms(2) in auto)

lemma js_free_shape_step:
  assumes i: "inv g cur C (r # pend) h" and ty: "types g (target r) = JS_GC_OBJ_TYPE_SHAPE"
  shows "goes g cur C pend (\<lambda>h'. body h' = body h) (js_free_shape (target r) h)"
proof (cases "1 < ref_count h (target r)")
  case True
  then show ?thesis using drop_step [OF i True] pending_alive [OF i] by (simp add: js_free_shape_def Let_def)
next
  case False
  define p h1 where "p = target r" and "h1 = set_rc p 0 h"
  have v: "\<not> value_type (types g (target r))" using ty by simp
  note L = inv_last [OF i v False, folded p_def, folded h1_def]
  obtain proto where b: "body h p = Shape proto"
    using inv_type [OF i pending_alive(2) [OF i]] ty obj_type_cases(1) by (auto simp: p_def)
  have "goes g (insert p cur) (insert p C) pend (\<lambda>h'. body h' = body h1) (each release_value (option_ref Value_Ref proto) h1)"
    by (rule release_values) (use L(6) b option_ref_set in auto)
  then obtain h2 C2 where h2: "each release_value (option_ref Value_Ref proto) h1 = Some h2" "insert p C \<subseteq> C2"
    "inv g (insert p cur) C2 pend h2" "body h2 = body h1" by (rule goesE)
  have "js_free_shape p h = js_free_rt p (remove_gc_object p h2)"
    using pending_alive(1) [OF i] L(1) b h2(1) unfolding p_def [symmetric] by (simp add: js_free_shape_def js_free_shape0_def h1_def Let_def)
  moreover have "goes g cur C2 pend (\<lambda>h'. body h' = body h2) (js_free_rt p (remove_gc_object p h2))"
    by (rule finish_step [OF h2(3) L(4)]) (use v h2(4) b in \<open>simp_all add: p_def h1_def\<close>)
  ultimately show ?thesis unfolding p_def [symmetric] using h2(2,4) by (auto simp: h1_def intro: goes_mono)
qed

lemma free_var_ref_step:
  assumes i: "inv g cur C (r # pend) h" and ty: "types g (target r) = JS_GC_OBJ_TYPE_VAR_REF"
  shows "goes g cur C pend (\<lambda>h'. body h' = body h) (free_var_ref (target r) h)"
proof (cases "1 < ref_count h (target r)")
  case True
  then show ?thesis using drop_step [OF i True] pending_alive [OF i] by (simp add: free_var_ref_def Let_def)
next
  case False
  define p h1 where "p = target r" and "h1 = set_rc p 0 h"
  have v: "\<not> value_type (types g (target r))" using ty by simp
  note L = inv_last [OF i v False, folded p_def, folded h1_def]
  define R where "R = (case body h p of
      Var_Ref_Detached x \<Rightarrow> each release_value (JS_MarkValue x) h1
    | Var_Ref_On_Stack f \<Rightarrow> each (\<lambda>r. async_func_free (target r)) (option_ref Async_Ref f) h1
    | _ \<Rightarrow> None)"
  consider x where "body h p = Var_Ref_Detached x" | f where "body h p = Var_Ref_On_Stack f"
    using inv_type [OF i pending_alive(2) [OF i]] ty obj_type_cases(2) [of "body h p"] by (auto simp: p_def)
  then have "goes g (insert p cur) (insert p C) pend (\<lambda>h'. body h' = body h1) R"
  proof cases
    case 1
    then show ?thesis using release_values [of g "insert p cur" "insert p C" "JS_MarkValue x" pend h1] L(6) JS_MarkValue_refs
      by (simp add: R_def)
  next
    case 2
    have "goes g (insert p cur) (insert p C) pend (\<lambda>h'. body h' = body h1) (each (\<lambda>r. async_func_free (target r)) (option_ref Async_Ref f) h1)"
    proof (rule each_step [OF _ refl])
      show "inv g (insert p cur) (insert p C) (option_ref Async_Ref f @ pend) h1" using L(6) 2 by simp
    next
      fix s pd C' h' assume s: "s \<in> set (option_ref Async_Ref f)" and j: "inv g (insert p cur) C' (s # pd) h'" and b: "body h' = body h1"
      obtain q where "s = Async_Ref q" using option_ref_set [OF s] by blast
      then have "value_type (types g (target s))" using pending_alive(4) [OF j] by simp
      from async_func_free_step [OF j this] b show "goes g (insert p cur) C' pd (\<lambda>h'. body h' = body h1) (async_func_free (target s) h')" by simp
    qed
    then show ?thesis using 2 by (simp add: R_def)
  qed
  then obtain h2 C2 where h2: "R = Some h2" "insert p C \<subseteq> C2" "inv g (insert p cur) C2 pend h2" "body h2 = body h1" by (rule goesE)
  have "free_var_ref p h = js_free_rt p (remove_gc_object p h2)"
    using pending_alive(1) [OF i] L(1) h2(1) [unfolded R_def h1_def] unfolding p_def [symmetric] by (simp add: free_var_ref_def Let_def)
  moreover have "modules_of (body h2 p) = []"
    using inv_type [OF h2(3), of p] L(2) ty obj_type_cases(2) [of "body h2 p"] by (auto simp: p_def)
  then have "goes g cur C2 pend (\<lambda>h'. body h' = body h2) (js_free_rt p (remove_gc_object p h2))"
    using finish_step [OF h2(3) L(4)] v by (simp add: p_def)
  ultimately show ?thesis unfolding p_def [symmetric] using h2(2,4) by (auto simp: h1_def intro: goes_mono)
qed

section \<open>Contexts and their modules\<close>

lemma count_list_remove1: "x \<in> set xs \<Longrightarrow> count_list (remove1 x xs) y + of_bool (y = x) = count_list xs y"
  by (induction xs) auto

text \<open>Taking a module off the list of its context drops the reference of that list.\<close>

lemma inv_module_unlink:
  assumes i: "inv g cur C pend h" and ctx: "ctx \<in> blocks g" "ctx \<notin> set (freed h)" "ctx \<notin> live g"
    and bc: "body h ctx = Js_Context ms vals shapes" and m: "m \<in> set ms" "ctx \<in> C \<or> m \<in> dead g"
    and bm: "body h m = Module_Def a e v (Some ctx)"
  shows "inv g cur C pend (h\<lparr>body := (body h)(ctx := Js_Context (remove1 m ms) vals shapes, m := Module_Def a e v None)\<rparr>)"
proof -
  have b: "inv_bodies g C h" and c: "inv_counts g cur C pend h" using i by (simp_all add: inv_def)
  define b' where "b' = (body h)(ctx := Js_Context (remove1 m ms) vals shapes, m := Module_Def a e v None)"
  define h' where "h' = h\<lparr>body := b'\<rparr>"
  have h': "body h' = b'" "freed h' = freed h" "ref_count h' = ref_count h" "mark_bit h' = mark_bit h" by (simp_all add: h'_def)
  have ne: "m \<noteq> ctx" using bc bm by auto
  have mb: "m \<in> blocks g" using inv_bodiesD(9) [OF b ctx(1,2)] m(1) bc by simp
  have vm: "value_type (types g m)" using inv_type [OF i mb] bm by (simp add: value_type_def)
  have dm: "distinct ms" using inv_bodiesD(8) [OF b ctx(1,2)] bc by simp
  have ot: "obj_type (b' q) = obj_type (body h q)" and ok: "body_ok (b' q) = body_ok (body h q)"
    and rn: "running (b' q) = running (body h q)" and wr: "weakrefs (b' q) = weakrefs (body h q)" for q
    using bc bm by (simp_all add: b'_def)
  have mo: "modules_of (b' q) = (if q = ctx then remove1 m ms else modules_of (body h q))"
    and co: "context_of (b' q) = (if q = m then None else context_of (body h q))" for q
    using bc bm ne by (simp_all add: b'_def)
  have ch: "q \<noteq> ctx \<Longrightarrow> children (b' q) = children (body h q)" for q using bm by (simp add: b'_def)
  have "set (map Value_Ref (remove1 m ms)) \<subseteq> set (map Value_Ref ms)" using set_remove1_subset [of m ms] by auto
  then have sub: "set (children (b' q)) \<subseteq> set (children (body h q))" for q
    using ch [of q] bc ne by (cases "q = ctx") (auto simp: b'_def)
  have cnt: "count_list (map target (children (b' ctx))) x + of_bool (x = m) = count_list (map target (children (body h ctx))) x" for x
    using count_list_remove1 [OF m(1), of x] bc ne by (simp add: b'_def comp_def)
  have leq: "count_list (map target (children (b' q))) x \<le> count_list (map target (children (body h q))) x"
    and leq': "x \<noteq> m \<or> q \<noteq> ctx \<Longrightarrow> count_list (map target (children (b' q))) x = count_list (map target (children (body h q))) x" for q x
    using cnt [of x] ch [of q] by (cases "q = ctx"; simp)+
  have "count_refs b' Q x \<le> count_refs (body h) Q x" for Q x unfolding count_refs_def by (rule sum_mono) (simp add: leq)
  then have rle: "refs_to g b' C pend x \<le> refs_to g (body h) C pend x" for x by (simp add: refs_to_def)
  have ceq: "count_refs b' Q x = count_refs (body h) Q x" if "x \<noteq> m \<or> ctx \<notin> Q" for Q x
    unfolding count_refs_def by (rule sum.cong [OF refl], rule arg_cong [of _ _ int], rule leq') (use that in auto)
  have req: "refs_to g b' C pend x = refs_to g (body h) C pend x" if "x \<noteq> m \<or> ctx \<in> C" for x
    using ceq [of x "blocks g - C"] that by (auto simp: refs_to_def)
  have "inv_lists g cur C h'" by (rule inv_lists_cong [of g cur C h]) (use i in \<open>simp_all add: inv_def h'_def\<close>)
  moreover have "inv_bodies g C h'"
  proof (rule inv_bodiesI; (unfold h' ot ok rn)?)
    show "ref_type_ok (types g) r \<and> target r \<in> blocks g" if "q \<in> blocks g" "q \<notin> C" "r \<in> set (children (b' q))" for q r
      by (rule inv_bodiesD(5) [OF b that(1,2)]) (use that(3) sub in blast)
    show "target ` set (children (b' q)) \<subseteq> live g" if "q \<in> live g" for q
      using inv_bodiesD(6) [OF b that] sub [of q] by blast
    show "distinct (modules_of (b' q))" if "q \<in> blocks g" "q \<notin> set (freed h)" for q
      using inv_bodiesD(8) [OF b that] dm by (simp add: mo)
    show "n \<in> blocks g \<and> context_of (b' n) = Some q" if "q \<in> blocks g" "q \<notin> set (freed h)" "n \<in> set (modules_of (b' q))" for q n
    proof -
      have n: "n \<in> set (modules_of (body h q))" using that(3) bc set_remove1_subset [of m ms] by (auto simp: mo split: if_splits)
      have "context_of (body h n) = Some q" "n \<in> blocks g" using inv_bodiesD(9) [OF b that(1,2) n] by simp_all
      moreover have "n \<noteq> m"
      proof
        assume "n = m"
        then have "q = ctx" using \<open>context_of (body h n) = Some q\<close> bm by simp
        then show False using that(3) dm \<open>n = m\<close> by (simp add: mo)
      qed
      ultimately show ?thesis by (simp add: co)
    qed
    show "k \<in> blocks g \<and> k \<notin> set (freed h) \<and> n \<in> set (modules_of (b' k))" if "n \<in> blocks g" "context_of (b' n) = Some k" for n k
    proof -
      have n: "n \<noteq> m" "context_of (body h n) = Some k" using that(2) by (auto simp: co split: if_splits)
      then show ?thesis using inv_bodiesD(10) [OF b that(1) n(2)] bc by (auto simp: mo)
    qed
  qed (fact inv_bodiesD(1-4,7) [OF b])+
  moreover have "inv_counts g cur C pend h'"
  proof (rule inv_countsI; (unfold h')?)
    fix x assume x: "x \<in> blocks g" "x \<notin> set (freed h)"
    show "ext_refs g x + refs_to g b' C pend x \<le> ref_count h x" using inv_countsD(2) [OF c x] rle [of x] by simp
    assume "x \<in> live g \<or> \<not> value_type (types g x)"
    moreover from this have "x \<noteq> m \<or> ctx \<in> C" using vm m(2) inv_bodiesD(2) [OF b] by auto
    ultimately show "ref_count h x = ext_refs g x + refs_to g b' C pend x" using inv_countsD(3) [OF c x] req by simp
  next
    show "refs_to g b' C pend x = 0" if "x \<in> blocks g" "x \<in> set (freed h)" for x
      using inv_countsD(4) [OF c that] rle [of x] refs_to_nonneg [of g b' C pend x] by simp
    show "refs_to g b' C pend x = 0" if "x \<in> cur" "\<not> value_type (types g x)" for x
      using inv_countsD(5) [OF c that] rle [of x] refs_to_nonneg [of g b' C pend x] by simp
    show "0 < ext_refs g x + count_refs b' (live g) x" if "x \<in> live g" for x
      using inv_countsD(7) [OF c that] ceq [of x "live g"] ctx(3) by simp
  qed (fact inv_countsD(1,6,8) [OF c])+
  moreover have "inv_kept g h'"
  proof -
    have "unlinked (b' q) = unlinked (body h q)" if "q \<in> live g" for q
      using that ctx(3) bm by (auto simp: b'_def)
    then show ?thesis using i by (simp add: inv_def inv_kept_def h' wr)
  qed
  ultimately show ?thesis unfolding inv_def h'_def b'_def by blast
qed

lemma js_free_modules_step:
  assumes "inv g cur C (map Value_Ref ms @ pend) h" "ctx \<in> cur" "body h ctx = Js_Context ms vals shapes"
  shows "goes g cur C pend (\<lambda>h'. body h' ctx = Js_Context [] vals shapes) (js_free_modules ctx ms h)"
  using assms
proof (induction ms arbitrary: C h)
  case Nil
  then show ?case by (intro goesI [of _ h C C]) auto
next
  case (Cons m ms)
  note i = Cons.prems(1)
  have l: "inv_lists g cur C h" and b: "inv_bodies g C h" using i by (simp_all add: inv_def)
  have cx: "ctx \<in> C" "ctx \<in> dead g" "ctx \<notin> set (freed h)" "ctx \<notin> live g"
    using inv_listsD(3-5) [OF l] inv_bodiesD(2) [OF b] Cons.prems(2) by auto
  have "context_of (body h m) = Some ctx" using inv_bodiesD(9) [OF b _ cx(3), of m] cx(2) Cons.prems(3) by simp
  then obtain a e v where bm: "body h m = Module_Def a e v (Some ctx)" by (cases "body h m") auto
  have "m \<noteq> ctx" using bm Cons.prems(3) by auto
  define h1 where "h1 = h\<lparr>body := (body h)(ctx := Js_Context ms vals shapes, m := Module_Def a e v None)\<rparr>"
  have i1: "inv g cur C (Value_Ref m # (map Value_Ref ms @ pend)) h1"
    using inv_module_unlink [OF i _ cx(3,4) Cons.prems(3) _ _ bm] cx by (simp add: h1_def)
  then have "value_type (types g (target (Value_Ref m)))" using pending_alive(4) by fastforce
  from free_value_ref_step [OF i1 this] obtain h2 C2 where
    h2: "free_value_ref m h1 = Some h2" "C \<subseteq> C2" "inv g cur C2 (map Value_Ref ms @ pend) h2" "body h2 = body h1"
    by (auto elim: goesE)
  have "body h2 ctx = Js_Context ms vals shapes" using \<open>m \<noteq> ctx\<close> by (simp add: h2(4) h1_def)
  from Cons.IH [OF h2(3) Cons.prems(2) this]
  have "goes g cur C2 pend (\<lambda>h'. body h' ctx = Js_Context [] vals shapes) (js_free_modules ctx ms h2)" .
  moreover have "js_free_modules ctx (m # ms) h = js_free_modules ctx ms h2"
    using Cons.prems(3) bm h2(1) by (simp add: h1_def)
  ultimately show ?case using goes_mono [OF _ h2(2)] by simp
qed

lemma shapes_step:
  assumes "inv g cur C (concat (map (option_ref Shape_Ref) shapes) @ pend) h"
  shows "goes g cur C pend (\<lambda>h'. body h' = body h) (each (\<lambda>r. js_free_shape (target r)) (concat (map (option_ref Shape_Ref) shapes)) h)"
proof (rule each_step [OF assms refl])
  fix r pd C' h' assume r: "r \<in> set (concat (map (option_ref Shape_Ref) shapes))" and j: "inv g cur C' (r # pd) h'" and b: "body h' = body h"
  obtain q where "r = Shape_Ref q" using r option_ref_set by fastforce
  then have "types g (target r) = JS_GC_OBJ_TYPE_SHAPE" using pending_alive(4) [OF j] by simp
  from js_free_shape_step [OF j this] b show "goes g cur C' pd (\<lambda>h'. body h' = body h) (js_free_shape (target r) h')" by simp
qed

lemma JS_FreeContext_step:
  assumes i: "inv g cur C (r # pend) h" and ty: "types g (target r) = JS_GC_OBJ_TYPE_JS_CONTEXT"
  shows "goes g cur C pend (\<lambda>_. True) (JS_FreeContext (target r) h)"
proof (cases "1 < ref_count h (target r)")
  case True
  then show ?thesis using drop_step [OF i True] pending_alive [OF i] by (auto simp: JS_FreeContext_def Let_def intro: goes_mono)
next
  case False
  define p h1 where "p = target r" and "h1 = set_rc p 0 h"
  have v: "\<not> value_type (types g (target r))" using ty by simp
  note L = inv_last [OF i v False, folded p_def, folded h1_def]
  obtain ms vals shapes where b: "body h p = Js_Context ms vals shapes"
    using inv_type [OF i pending_alive(2) [OF i]] ty obj_type_cases(3) [of "body h p"] by (auto simp: p_def)
  then have b1: "body h1 p = Js_Context ms vals shapes" by (simp add: h1_def)
  define vs ss where "vs = mark_values vals" and "ss = concat (map (option_ref Shape_Ref) shapes)"
  have "inv g (insert p cur) (insert p C) (map Value_Ref ms @ vs @ ss @ pend) h1" using L(6) b by (simp add: vs_def ss_def)
  from js_free_modules_step [OF this _ b1] obtain h2 C2 where
    h2: "js_free_modules p ms h1 = Some h2" "insert p C \<subseteq> C2" "inv g (insert p cur) C2 (vs @ ss @ pend) h2" "body h2 p = Js_Context [] vals shapes"
    by (auto elim: goesE)
  from release_values [OF h2(3)] obtain h3 C3 where
    h3: "each release_value vs h2 = Some h3" "C2 \<subseteq> C3" "inv g (insert p cur) C3 (ss @ pend) h3" "body h3 = body h2"
    using mark_values_refs by (auto simp: vs_def elim!: goesE)
  from shapes_step [of g "insert p cur" C3 shapes pend h3] h3(3) obtain h4 C4 where
    h4: "each (\<lambda>r. js_free_shape (target r)) ss h3 = Some h4" "C3 \<subseteq> C4" "inv g (insert p cur) C4 pend h4" "body h4 = body h3"
    by (auto simp: ss_def elim: goesE)
  have "JS_FreeContext p h = js_free_rt p (remove_gc_object p h4)"
    using pending_alive(1) [OF i] L(1) b h2(1) h3(1) h4(1) unfolding p_def [symmetric]
    by (simp add: JS_FreeContext_def h1_def vs_def ss_def Let_def)
  moreover have "goes g cur C4 pend (\<lambda>h'. body h' = body h4) (js_free_rt p (remove_gc_object p h4))"
    by (rule finish_step [OF h4(3) L(4)]) (use v h4(4) h3(4) h2(4) in \<open>simp_all add: p_def\<close>)
  moreover have "C \<subseteq> C4" using h2(2) h3(2) h4(2) by blast
  ultimately show ?thesis unfolding p_def [symmetric] by (auto intro: goes_mono)
qed

section \<open>Any reference\<close>

lemma release_step:
  assumes i: "inv g cur C (r # pend) h"
  shows "goes g cur C pend (\<lambda>_. True) (release r h)"
proof -
  have t: "ref_type_ok (types g) r" using pending_alive(4) [OF i] .
  show ?thesis
  proof (cases r)
    case (Value_Ref p)
    then show ?thesis using free_value_ref_step [OF i] t by (auto intro: goes_mono)
  next
    case (Shape_Ref p)
    then show ?thesis using js_free_shape_step [OF i] t by (auto intro: goes_mono)
  next
    case (Var_Ref_Ref p)
    then show ?thesis using free_var_ref_step [OF i] t by (auto intro: goes_mono)
  next
    case (Async_Ref p)
    then show ?thesis using async_func_free_step [OF i] t by (auto intro: goes_mono)
  next
    case (Context_Ref p)
    then show ?thesis using JS_FreeContext_step [OF i] t by simp
  qed
qed

lemma release_each: "inv g cur C (rs @ pend) h \<Longrightarrow> goes g cur C pend (\<lambda>_. True) (each release rs h)"
  by (rule each_step) (auto intro: release_step)

end
