(* ===== verification/GcSweep.thy ===== *)
theory GcSweep
  imports GcRelease
begin

text \<open>
  Freeing the garbage block by block: \<open>free_gc_object\<close> on each block of \<open>tmp_obj_list\<close>, the
  rest once nothing refers to it any more.
\<close>

section \<open>To the list of the blocks that wait\<close>

lemma lists_add_zero:
  assumes "lists h gs ts zs" "p \<noteq> 0" "p \<notin> set (gc_obj_list h # gs) \<union> set (tmp_obj_list h # ts) \<union> set (gc_zero_ref_count_list h # zs)"
  shows "lists (h\<lparr>link := list_add_tail p (gc_zero_ref_count_list h) (link h)\<rparr>) gs ts (zs @ [p])"
proof -
  have d: "dlist (link h) (gc_obj_list h) gs" "dlist (link h) (tmp_obj_list h) ts" "dlist (link h) (gc_zero_ref_count_list h) zs"
    and x: "distinct ((gc_obj_list h # gs) @ (tmp_obj_list h # ts) @ (gc_zero_ref_count_list h # zs))"
    using assms(1) by (simp_all add: lists_def)
  let ?l = "list_add_tail p (gc_zero_ref_count_list h) (link h)"
  have "dlist ?l (gc_zero_ref_count_list h) (zs @ [p])" by (rule dlist_add_tail [OF d(3) assms(2)]) (use assms(3) in auto)
  moreover have "dlist ?l (gc_obj_list h) gs" by (rule dlist_add_tail_other [OF d(3) d(1)]) (use x assms(3) in auto)
  moreover have "dlist ?l (tmp_obj_list h) ts" by (rule dlist_add_tail_other [OF d(3) d(2)]) (use x assms(3) in auto)
  ultimately show ?thesis using x assms(3) by (auto simp: lists_def)
qed

lemma lists_fresh:
  assumes "lists h gs ts zs" "p \<in> set ts \<union> set zs"
  shows "p \<noteq> 0" "p \<notin> set gs" "p \<noteq> gc_obj_list h" "p \<noteq> tmp_obj_list h" "p \<noteq> gc_zero_ref_count_list h"
  using assms dlist_nonzero [of "link h" "tmp_obj_list h" ts p] dlist_nonzero [of "link h" "gc_zero_ref_count_list h" zs p]
  unfolding lists_def by auto

lemma inv_to_zero:
  assumes i: "inv g (insert p cur) C pend h" and p: "p \<notin> cur" and v: "value_type (types g p)"
  defines "h5 \<equiv> remove_gc_object p h"
  defines "h6 \<equiv> h5\<lparr>link := list_add_tail p (gc_zero_ref_count_list h5) (link h5)\<rparr>"
  shows "inv g cur C pend h6"
proof -
  have l: "inv_lists g (insert p cur) C h" and b: "inv_bodies g C h" and c: "inv_counts g (insert p cur) C pend h" using i by (simp_all add: inv_def)
  have pd: "p \<in> dead g" "p \<in> C" "p \<notin> set (freed h)" using inv_listsD(3-5) [OF l] by auto
  obtain ts0 zs0 where t0: "lists h (live_list g) ts0 zs0" "set ts0 \<union> set zs0 = dead g - set (freed h)" using inv_listsE [OF l] by metis
  have f: "p \<noteq> 0" "p \<notin> live g" "p \<noteq> gc_obj_list h" "p \<noteq> tmp_obj_list h" "p \<noteq> gc_zero_ref_count_list h"
    using lists_fresh [OF t0(1), of p] t0(2) pd by auto
  obtain ts zs where t: "lists (remove_gc_object p h) (live_list g) ts zs" "set ts \<union> set zs = dead g - set (freed h) - {p}"
    "\<forall>x \<in> dead g. value_type (types g x) \<longrightarrow> (x \<in> set ts \<longleftrightarrow> (x \<notin> C \<or> x \<in> insert p cur) \<and> x \<noteq> p)"
    "p \<notin> set ts" "p \<notin> set zs"
    by (rule lists_remove [OF l pd(1,3)])
  have h6: "body h6 = body h" "freed h6 = freed h" "ref_count h6 = ref_count h" "phase h6 = phase h" "mark_bit h6 = mark_bit h"
    by (simp_all add: h6_def h5_def)
  have "lists h6 (live_list g) ts (zs @ [p])"
    unfolding h6_def h5_def by (rule lists_add_zero [OF t(1)]) (use f t(4,5) in auto)
  then have "inv_lists g cur C h6"
  proof (rule inv_listsI; (unfold h6)?)
    show "set ts \<union> set (zs @ [p]) = dead g - set (freed h)" using t(2) pd by auto
    show "x \<in> set ts \<longleftrightarrow> x \<notin> C \<or> x \<in> cur" if "x \<in> dead g" "value_type (types g x)" for x
      using t(3) that p pd by auto
    show "x \<in> C \<longleftrightarrow> x \<in> set (freed h) \<or> x \<in> cur" if "x \<in> dead g" "\<not> value_type (types g x)" for x
      using inv_listsD(1) [OF l that] that v by auto
    show "x \<in> C" if "x \<in> dead g" "x \<in> set (freed h)" for x using inv_listsD(2) [OF l that] .
  qed (use inv_listsD [OF l] in auto)
  moreover have "inv_bodies g C h6" by (rule inv_bodies_cong [OF b]) (simp_all add: h6)
  moreover have "inv_counts g cur C pend h6"
  proof (rule inv_countsI; (unfold h6)?)
    show "refs_to g (body h) C pend x = 0" if "x \<in> cur" "\<not> value_type (types g x)" for x
      using inv_countsD(5) [OF c, of x] that by simp
  qed (fact inv_countsD [OF c])+
  moreover have "inv_kept g h6" by (rule inv_kept_cong [of g h]) (use i in \<open>simp_all add: inv_def h6\<close>)
  ultimately show ?thesis by (simp add: inv_def)
qed

lemma inv_free_zero:
  assumes i: "inv g (insert p cur) C pend h" and p: "p \<notin> cur" and v: "value_type (types g p)" and z: "ref_count h p = 0"
    and w: "weakrefs (body h p) = 0"
  shows "goes g cur C pend (\<lambda>_. True) (js_free_rt p (remove_gc_object p h))"
proof -
  have l: "inv_lists g (insert p cur) C h" and c: "inv_counts g (insert p cur) C pend h" using i by (simp_all add: inv_def)
  have pd: "p \<in> blocks g" "p \<notin> set (freed h)" using inv_listsD(3-5) [OF l] by auto
  have "modules_of (body h p) = []" using inv_type [OF i pd(1)] v by (cases "body h p") (auto simp: value_type_def)
  moreover have "refs_to g (body h) C pend p = 0"
    using inv_countsD(2) [OF c pd] inv_countsD(8) [OF c pd(1)] z refs_to_nonneg [of g "body h" C pend p] by linarith
  ultimately obtain h' where "js_free_rt p (remove_gc_object p h) = Some h'" "inv g cur C pend h'"
    using inv_finish [OF i p _ _ w] by blast
  then show ?thesis by (intro goesI [of _ h' C C]) auto
qed

lemma discard_step:
  assumes i: "inv g (insert p cur) C pend h" and p: "p \<notin> cur" and v: "value_type (types g p)" and w: "weakrefs (body h p) = 0"
  shows "goes g cur C pend (\<lambda>_. True) (discard p h)"
proof (cases "ref_count h p = 0")
  case True
  then show ?thesis using inv_free_zero [OF i p v True w] by (simp add: discard_def Let_def)
next
  case False
  let ?h = "remove_gc_object p h"
  have "discard p h = Some (?h\<lparr>link := list_add_tail p (gc_zero_ref_count_list ?h) (link ?h)\<rparr>)"
    using False inv_phase [OF i] by (simp add: discard_def Let_def)
  then show ?thesis using inv_to_zero [OF i p v] by (intro goesI [of _ _ C C]) auto
qed

section \<open>Freeing one block\<close>

lemma each_append: "each f (xs @ ys) s = do { s1 \<leftarrow> each f xs s; each f ys s1 }"
  by (induction xs arbitrary: s) (auto split: bind_splits)

lemma each_concat: "each (\<lambda>x. each f (k x)) xs s = each f (concat (map k xs)) s"
  by (induction xs arbitrary: s) (auto simp: each_append split: bind_splits)

text \<open>A spent object is emptied.\<close>

lemma inv_emptied:
  assumes i: "inv g cur C pend h" and p: "p \<in> C" and b: "body h p = Js_Object sh prs cid crefs w"
  shows "inv g cur C pend (h\<lparr>body := (body h)(p := Js_Object sh' prs' cid' crefs' w)\<rparr>)"
proof -
  have l: "inv_lists g cur C h" and bo: "inv_bodies g C h" and c: "inv_counts g cur C pend h" using i by (simp_all add: inv_def)
  have pd: "p \<in> dead g" using inv_listsD(4) [OF l] p by blast
  then have nl: "p \<notin> live g" using inv_bodiesD(2) [OF bo] by blast
  define b' where "b' = (body h)(p := Js_Object sh' prs' cid' crefs' w)"
  define h' where "h' = h\<lparr>body := b'\<rparr>"
  have h': "body h' = b'" "freed h' = freed h" "ref_count h' = ref_count h" "mark_bit h' = mark_bit h" by (simp_all add: h'_def)
  have same: "obj_type (b' q) = obj_type (body h q)" "modules_of (b' q) = modules_of (body h q)" "context_of (b' q) = context_of (body h q)"
    "weakrefs (b' q) = weakrefs (body h q)" for q using b by (simp_all add: b'_def)
  have o: "q \<noteq> p \<Longrightarrow> b' q = body h q" for q by (simp add: b'_def)
  have cr: "count_refs b' Q = count_refs (body h) Q" if "p \<notin> Q" for Q
  proof -
    have "b' q = body h q" if "q \<in> Q" for q using o [of q] that \<open>p \<notin> Q\<close> by metis
    then show ?thesis by (simp add: count_refs_def fun_eq_iff cong: sum.cong)
  qed
  have rt: "refs_to g b' C pend = refs_to g (body h) C pend" using cr [of "blocks g - C"] p by (simp add: refs_to_def fun_eq_iff)
  have "inv_lists g cur C h'" by (rule inv_lists_cong [OF l]) (simp_all add: h'_def)
  moreover have "inv_bodies g C h'"
  proof (rule inv_bodiesI; (unfold h' same)?)
    show "body_ok (b' q)" if "q \<in> blocks g" "q \<notin> C" for q using inv_bodiesD(4) [OF bo that] o [of q] that p by metis
    show "ref_type_ok (types g) r \<and> target r \<in> blocks g" if "q \<in> blocks g" "q \<notin> C" "r \<in> set (children (b' q))" for q r
      by (rule inv_bodiesD(5) [OF bo that(1,2)]) (use that o [of q] p in metis)
    show "target ` set (children (b' q)) \<subseteq> live g" if "q \<in> live g" for q
      using inv_bodiesD(6) [OF bo that] o [of q] that nl by metis
    show "\<not> running (b' q)" if "q \<in> dead g" "q \<notin> C" for q using inv_bodiesD(7) [OF bo that] o [of q] that p by metis
  qed (fact inv_bodiesD(1-3,8-10) [OF bo])+
  moreover have "inv_counts g cur C pend h'"
  proof (rule inv_countsI; (unfold h' rt)?)
    show "0 < ext_refs g x + count_refs b' (live g) x" if "x \<in> live g" for x
      using inv_countsD(7) [OF c that] cr [OF nl] by simp
  qed (fact inv_countsD(1-6,8) [OF c])+
  moreover have "b' q = body h q" if "q \<in> live g" for q using that nl o by metis
  then have "inv_kept g h'" using i by (simp add: inv_def inv_kept_def h' same(4))
  ultimately show ?thesis by (simp add: inv_def h'_def b'_def)
qed

lemma inv_weakrefs: "inv g cur C pend h \<Longrightarrow> p \<in> blocks g \<Longrightarrow> weakrefs (body h p) = weakrefs (first_body g p)"
  unfolding inv_def inv_kept_def by blast

lemma free_object_step:
  assumes i: "inv g {p} C (children (body h p) @ pend) h" and ok: "body_ok (body h p)"
    and ty: "types g p = JS_GC_OBJ_TYPE_JS_OBJECT"
  shows "goes g {} C pend (\<lambda>_. True) (free_object p h)"
proof -
  have p: "p \<in> C" "p \<in> blocks g" using i inv_listsD(3,4) [of g "{p}" C h] by (auto simp: inv_def)
  have v: "value_type (types g p)" using ty by simp
  obtain sh prs cid crefs w where b: "body h p = Js_Object sh prs cid crefs w"
    using inv_type [OF i p(2)] ty obj_type_cases(4) by fastforce
  define ps where "ps = concat (map (\<lambda>(_, pr). property_refs pr) prs)"
  have "(case x of (used, pr) \<Rightarrow> if used then property_refs pr else []) = (case x of (_, pr) \<Rightarrow> property_refs pr)" if "x \<in> set prs" for x
    using ok that by (auto simp: b split: if_splits)
  then have "concat (map (\<lambda>(used, pr). if used then property_refs pr else []) prs) = ps"
    unfolding ps_def by (intro arg_cong [of _ _ concat] map_cong refl)
  moreover have "(if cid \<noteq> JS_CLASS_OBJECT then crefs else []) = crefs" using ok by (simp add: b)
  ultimately have "children (body h p) = Shape_Ref sh # ps @ crefs" by (simp only: b children.simps append_Cons)
  then have i0: "inv g {p} C (ps @ Shape_Ref sh # crefs @ pend) h" by (intro inv_perm [OF i]) simp
  obtain h1 C1 where h1: "each release ps h = Some h1" "C \<subseteq> C1" "inv g {p} C1 (Shape_Ref sh # crefs @ pend) h1"
    using release_each [OF i0] by (auto elim: goesE)
  have "types g (target (Shape_Ref sh)) = JS_GC_OBJ_TYPE_SHAPE" using pending_alive(4) [OF h1(3)] by simp
  from js_free_shape_step [OF h1(3) this] obtain h2 C2 where
    h2: "js_free_shape sh h1 = Some h2" "C1 \<subseteq> C2" "inv g {p} C2 (crefs @ pend) h2" by (auto elim: goesE)
  obtain h3 C3 where h3: "each release crefs h2 = Some h3" "C2 \<subseteq> C3" "inv g {p} C3 pend h3"
    using release_each [OF h2(3)] by (auto elim: goesE)
  have "weakrefs (body h3 p) = w" using inv_weakrefs [OF i p(2)] inv_weakrefs [OF h3(3) p(2)] b by simp
  moreover have "obj_type (body h3 p) = JS_GC_OBJ_TYPE_JS_OBJECT" using inv_type [OF h3(3) p(2)] ty by simp
  ultimately obtain s' pr' c' r' where b3: "body h3 p = Js_Object s' pr' c' r' w" using obj_type_cases(4) by fastforce
  define h4 where "h4 = h3\<lparr>body := (body h3)(p := Js_Object 0 [] 0 [] w)\<rparr>"
  have p3: "p \<in> C3" using p(1) h1(2) h2(2) h3(2) by blast
  have i4: "inv g {p} C3 pend h4" unfolding h4_def by (rule inv_emptied [OF h3(3) p3 b3])
  define h5 where "h5 = remove_gc_object p h4"
  have ph: "phase h5 = JS_GC_PHASE_REMOVE_CYCLES" using inv_phase [OF i4] by (simp add: h5_def)
  have "(\<lambda>(_ :: bool, pr). free_property pr) = (\<lambda>x. each release ((\<lambda>(_, pr). property_refs pr) x))"
    by (auto simp: fun_eq_iff free_property_def)
  then have pr: "each (\<lambda>(_, pr). free_property pr) prs h = Some h1" using h1(1) by (simp only: each_concat ps_def)
  have "free_object p h = (if ref_count h5 p = 0 \<and> w = 0 then js_free_rt p h5
      else Some (h5\<lparr>link := list_add_tail p (gc_zero_ref_count_list h5) (link h5)\<rparr>))"
    using b pr h2(1) h3(1) ph by (simp add: free_object_def Let_def h5_def h4_def)
  moreover have "goes g {} C3 pend (\<lambda>_. True) (js_free_rt p h5)" if "ref_count h5 p = 0" "w = 0"
    unfolding h5_def by (rule inv_free_zero [OF i4 _ v]) (use that in \<open>simp_all add: h5_def h4_def\<close>)
  moreover have "inv g {} C3 pend (h5\<lparr>link := list_add_tail p (gc_zero_ref_count_list h5) (link h5)\<rparr>)"
    unfolding h5_def by (rule inv_to_zero [OF i4 _ v]) simp
  moreover have "C \<subseteq> C3" using h1(2) h2(2) h3(2) by blast
  ultimately show ?thesis by (auto intro: goes_mono goesI)
qed

lemma contexts_step:
  assumes "inv g cur C (option_ref Context_Ref ctx @ pend) h"
  shows "goes g cur C pend (\<lambda>_. True) (each (\<lambda>r. JS_FreeContext (target r)) (option_ref Context_Ref ctx) h)"
proof (rule each_step [OF assms TrueI])
  fix r pd C' h' assume r: "r \<in> set (option_ref Context_Ref ctx)" and j: "inv g cur C' (r # pd) h'"
  obtain q where "r = Context_Ref q" using option_ref_set [OF r] by blast
  then have "types g (target r) = JS_GC_OBJ_TYPE_JS_CONTEXT" using pending_alive(4) [OF j] by simp
  then show "goes g cur C' pd (\<lambda>_. True) (JS_FreeContext (target r) h')" by (rule JS_FreeContext_step [OF j])
qed

lemma var_refs_step:
  assumes "inv g cur C (concat (map (option_ref Var_Ref_Ref) es) @ pend) h"
  shows "goes g cur C pend (\<lambda>h'. body h' = body h) (each (\<lambda>r. free_var_ref (target r)) (concat (map (option_ref Var_Ref_Ref) es)) h)"
proof (rule each_step [OF assms refl])
  fix r pd C' h' assume r: "r \<in> set (concat (map (option_ref Var_Ref_Ref) es))" and j: "inv g cur C' (r # pd) h'" and b: "body h' = body h"
  obtain q where "r = Var_Ref_Ref q" using r option_ref_set by fastforce
  then have "types g (target r) = JS_GC_OBJ_TYPE_VAR_REF" using pending_alive(4) [OF j] by simp
  from free_var_ref_step [OF j this] b show "goes g cur C' pd (\<lambda>h'. body h' = body h) (free_var_ref (target r) h')" by simp
qed

lemma free_function_bytecode_step:
  assumes i: "inv g {p} C (children (body h p) @ pend) h" and ty: "types g p = JS_GC_OBJ_TYPE_FUNCTION_BYTECODE"
  shows "goes g {} C pend (\<lambda>_. True) (free_function_bytecode p h)"
proof -
  have p: "p \<in> blocks g" using i inv_listsD(3,4) [of g "{p}" C h] by (auto simp: inv_def)
  obtain cpool ctx where b: "body h p = Function_Bytecode cpool ctx"
    using inv_type [OF i p] ty obj_type_cases(5) by fastforce
  have i0: "inv g {p} C (mark_values cpool @ option_ref Context_Ref ctx @ pend) h" using i b by simp
  obtain h1 C1 where h1: "each release_value (mark_values cpool) h = Some h1" "C \<subseteq> C1" "inv g {p} C1 (option_ref Context_Ref ctx @ pend) h1"
    using release_values [OF i0] mark_values_refs by (auto elim!: goesE)
  obtain h2 C2 where h2: "each (\<lambda>r. JS_FreeContext (target r)) (option_ref Context_Ref ctx) h1 = Some h2" "C1 \<subseteq> C2" "inv g {p} C2 pend h2"
    using contexts_step [OF h1(3)] by (auto elim: goesE)
  have "weakrefs (body h2 p) = 0" using inv_weakrefs [OF i p] inv_weakrefs [OF h2(3) p] b by simp
  then have "goes g {} C2 pend (\<lambda>_. True) (discard p h2)" using discard_step [OF h2(3)] ty by simp
  moreover have "free_function_bytecode p h = discard p h2" using b h1(1) h2(1) by (simp add: free_function_bytecode_def)
  ultimately show ?thesis using h1(2) h2(2) by (auto intro: goes_mono)
qed

lemma async_func_free0_step:
  assumes i: "inv g {p} C (children (body h p) @ pend) h" and nr: "\<not> running (body h p)"
    and ty: "types g p = JS_GC_OBJ_TYPE_ASYNC_FUNCTION"
  shows "goes g {} C pend (\<lambda>_. True) (async_func_free0 p h)"
proof -
  have p: "p \<in> blocks g" using i inv_listsD(3,4) [of g "{p}" C h] by (auto simp: inv_def)
  obtain d f t s r0 r1 where b: "body h p = Async_Function d f t s r0 r1"
    using inv_type [OF i p] ty obj_type_cases(6) by fastforce
  define xs ys where "xs = (if d then [] else case s of None \<Rightarrow> [] | Some vs \<Rightarrow> mark_values vs @ JS_MarkValue f @ JS_MarkValue t)"
    and "ys = JS_MarkValue r0 @ JS_MarkValue r1"
  have "mset (children (body h p)) = mset (xs @ ys)"
    using nr by (auto simp: b xs_def ys_def split: option.splits)
  then have i0: "inv g {p} C (xs @ ys @ pend) h" by (intro inv_perm [OF i]) (simp add: add.assoc)
  have vx: "\<forall>r \<in> set xs. \<exists>p. r = Value_Ref p" and vy: "\<forall>r \<in> set ys. \<exists>p. r = Value_Ref p"
    using JS_MarkValue_refs mark_values_refs by (auto simp: xs_def ys_def split: option.splits)
  obtain h1 C1 where h1: "each release_value xs h = Some h1" "C \<subseteq> C1" "inv g {p} C1 (ys @ pend) h1"
    using release_values [OF i0 vx] by (auto elim!: goesE)
  obtain h2 C2 where h2: "each release_value ys h1 = Some h2" "C1 \<subseteq> C2" "inv g {p} C2 pend h2"
    using release_values [OF h1(3) vy] by (auto elim!: goesE)
  have "weakrefs (body h2 p) = 0" using inv_weakrefs [OF i p] inv_weakrefs [OF h2(3) p] b by simp
  then have "goes g {} C2 pend (\<lambda>_. True) (discard p h2)" using discard_step [OF h2(3)] ty by simp
  moreover have "async_func_free0 p h = discard p h2"
    using nr h1(1) h2(1) unfolding async_func_free0_def b by (cases d; cases s) (simp_all add: xs_def ys_def)
  ultimately show ?thesis using h1(2) h2(2) by (auto intro: goes_mono)
qed

text \<open>A module also leaves the list of a context that is still there.\<close>

lemma js_free_module_def_step:
  assumes i: "inv g {p} C (children (body h p) @ pend) h" and ty: "types g p = JS_GC_OBJ_TYPE_MODULE"
  shows "goes g {} C pend (\<lambda>_. True) (js_free_module_def p h)"
proof -
  have "p \<in> dead g" using i inv_listsD(3,4) [of g "{p}" C h] by (auto simp: inv_def)
  then have p: "p \<in> dead g" "p \<in> blocks g" by simp_all
  obtain a e v l where b: "body h p = Module_Def a e v l"
    using inv_type [OF i p(2)] ty obj_type_cases(7) by fastforce
  define es where "es = concat (map (option_ref Var_Ref_Ref) e)"
  have i0: "inv g {p} C (mark_values a @ es @ mark_values v @ pend) h" using i b by (simp add: es_def)
  obtain h1 C1 where h1: "each release_value (mark_values a) h = Some h1" "C \<subseteq> C1" "inv g {p} C1 (es @ mark_values v @ pend) h1" "body h1 = body h"
    using release_values [OF i0] mark_values_refs by (auto elim!: goesE)
  obtain h2 C2 where h2: "each (\<lambda>r. free_var_ref (target r)) es h1 = Some h2" "C1 \<subseteq> C2" "inv g {p} C2 (mark_values v @ pend) h2" "body h2 = body h1"
    using var_refs_step [of g "{p}" C1 e "mark_values v @ pend" h1] h1(3) unfolding es_def by (auto elim: goesE)
  obtain h3 C3 where h3: "each release_value (mark_values v) h2 = Some h3" "C2 \<subseteq> C3" "inv g {p} C3 pend h3" "body h3 = body h2"
    using release_values [OF h2(3)] mark_values_refs by (auto elim!: goesE)
  have b3: "body h3 p = Module_Def a e v l" using b h1(4) h2(4) h3(4) by simp
  have w: "weakrefs (first_body g p) = 0" using inv_weakrefs [OF i p(2)] b by simp
  have fin: "goes g {} C3 pend (\<lambda>_. True) (discard p h4)" if "inv g {p} C3 pend h4" for h4
    using discard_step [OF that _ _ ] inv_weakrefs [OF that p(2)] w ty by simp
  have C: "C \<subseteq> C3" using h1(2) h2(2) h3(2) by blast
  show ?thesis
  proof (cases l)
    case None
    then have "js_free_module_def p h = discard p h3"
      using h1(1) h2(1) h3(1) b3 unfolding js_free_module_def_def b es_def by simp
    then show ?thesis using fin [OF h3(3)] C by (auto intro: goes_mono)
  next
    case (Some ctx)
    have bo: "inv_bodies g C3 h3" using h3(3) by (simp add: inv_def)
    have cx: "ctx \<in> blocks g" "ctx \<notin> set (freed h3)" "p \<in> set (modules_of (body h3 ctx))"
      using inv_bodiesD(10) [OF bo p(2), of ctx] b3 Some by simp_all
    then obtain ms vals shapes where bc: "body h3 ctx = Js_Context ms vals shapes" "p \<in> set ms"
      by (cases "body h3 ctx") auto
    have "ctx \<notin> live g"
    proof
      assume "ctx \<in> live g"
      then have "target ` set (children (body h3 ctx)) \<subseteq> live g" by (rule inv_bodiesD(6) [OF bo])
      moreover have "Value_Ref p \<in> set (children (body h3 ctx))" using bc by simp
      ultimately have "p \<in> live g" by (metis imageI subsetD target.simps(1))
      then show False using p(1) inv_bodiesD(2) [OF bo] by blast
    qed
    from inv_module_unlink [OF h3(3) cx(1,2) this bc(1,2)] b3 Some p(1)
    have "inv g {p} C3 pend (h3\<lparr>body := (body h3)(ctx := Js_Context (remove1 p ms) vals shapes, p := Module_Def a e v None)\<rparr>)" by simp
    moreover have "js_free_module_def p h
        = discard p (h3\<lparr>body := (body h3)(ctx := Js_Context (remove1 p ms) vals shapes, p := Module_Def a e v None)\<rparr>)"
      using h1(1) h2(1) h3(1) b3 bc(1) cx(2) Some unfolding js_free_module_def_def b es_def by (simp add: alive_def)
    ultimately show ?thesis using fin C by (auto intro: goes_mono)
  qed
qed

lemma free_gc_object_step:
  assumes i: "inv g {} C pend h" and p: "p \<in> dead g" "p \<notin> C" and v: "value_type (types g p)"
  shows "goes g {} (insert p C) pend (\<lambda>_. True) (free_gc_object p h)"
proof -
  have l: "inv_lists g {} C h" and b: "inv_bodies g C h" using i by (simp_all add: inv_def)
  have nf: "p \<notin> set (freed h)" using inv_listsD(2) [OF l p(1)] p(2) by blast
  have pb: "p \<in> blocks g" using p(1) by simp
  have s: "inv g {p} (insert p C) (children (body h p) @ pend) h" using inv_spend [OF i p nf v] .
  have t: "obj_type (body h p) = types g p" using inv_type [OF i pb] .
  have a: "alive p h = Some ()" using nf by (simp add: alive_def)
  from v consider "types g p = JS_GC_OBJ_TYPE_JS_OBJECT" | "types g p = JS_GC_OBJ_TYPE_FUNCTION_BYTECODE"
    | "types g p = JS_GC_OBJ_TYPE_ASYNC_FUNCTION" | "types g p = JS_GC_OBJ_TYPE_MODULE"
    by (auto simp: value_type_def)
  then show ?thesis
  proof cases
    case 1
    then show ?thesis using free_object_step [OF s inv_bodiesD(4) [OF b pb p(2)] 1] t a by (simp add: free_gc_object_def)
  next
    case 2
    then show ?thesis using free_function_bytecode_step [OF s 2] t a by (simp add: free_gc_object_def)
  next
    case 3
    then show ?thesis using async_func_free0_step [OF s inv_bodiesD(7) [OF b p] 3] t a by (simp add: free_gc_object_def)
  next
    case 4
    then show ?thesis using js_free_module_def_step [OF s 4] t a by (simp add: free_gc_object_def)
  qed
qed

section \<open>All blocks\<close>

lemma cycles_loop_step:
  assumes "inv g {} C [] h"
  shows "goes g {} C [] (\<lambda>h'. next_of (link h') (tmp_obj_list h') = tmp_obj_list h') (cycles_loop h)"
proof -
  obtain ts zs where "lists h (live_list g) ts zs" "set ts \<union> set zs = dead g - set (freed h)"
    "\<forall>p \<in> dead g. value_type (types g p) \<longrightarrow> (p \<in> set ts \<longleftrightarrow> p \<notin> C)"
    using inv_listsE [of g "{}" C h] assms by (metis inv_def empty_iff)
  then show ?thesis using assms
  proof (induction "(card (dead g - C), length ts)" arbitrary: C ts zs h rule: wf_induct [OF wf_lex_prod [OF wf_less_than wf_less_than]])
    case 1
    note l = 1(2) and d = 1(3) and t = 1(4) and i = 1(5)
    note IH = 1(1) [rule_format, OF _ refl]
    have il: "inv_lists g {} C h" and b: "inv_bodies g C h" using i by (simp_all add: inv_def)
    show ?case
    proof (cases ts)
      case Nil
      then have "next_of (link h) (tmp_obj_list h) = tmp_obj_list h" using lists_tmp_first [OF l] by simp
      then show ?thesis using i by (intro goesI [of _ h C C]) (simp_all add: cycles_loop.simps [of h])
    next
      case (Cons p rest)
      then have n: "next_of (link h) (tmp_obj_list h) = p" "p \<noteq> tmp_obj_list h"
        using lists_tmp_first [OF l] l by (auto simp: lists_def)
      have pd: "p \<in> dead g" "p \<notin> set (freed h)" using d Cons by auto
      have ty: "obj_type (body h p) = types g p" using inv_type [OF i, of p] pd by simp
      show ?thesis
      proof (cases "value_type (types g p)")
        case True
        then have pC: "p \<notin> C" using t pd Cons by auto
        obtain h1 C1 where h1: "free_gc_object p h = Some h1" "insert p C \<subseteq> C1" "inv g {} C1 [] h1"
          using free_gc_object_step [OF i pd(1) pC True] by (auto elim: goesE)
        obtain ts1 zs1 where t1: "lists h1 (live_list g) ts1 zs1" "set ts1 \<union> set zs1 = dead g - set (freed h1)"
          "\<forall>p \<in> dead g. value_type (types g p) \<longrightarrow> (p \<in> set ts1 \<longleftrightarrow> p \<notin> C1)"
          using inv_listsE [of g "{}" C1 h1] h1(3) by (metis inv_def empty_iff)
        have "dead g - C1 \<subset> dead g - C" using h1(2) pd(1) pC by blast
        then have "card (dead g - C1) < card (dead g - C)" using inv_bodiesD(1) [OF b] by (intro psubset_card_mono) auto
        then have "goes g {} C1 [] (\<lambda>h'. next_of (link h') (tmp_obj_list h') = tmp_obj_list h') (cycles_loop h1)"
          by (intro IH [OF _ t1(1,2) _ h1(3)]) (use t1(3) in simp_all)
        moreover have "cycles_loop h = cycles_loop h1" using n ty True h1(1) by (simp add: cycles_loop.simps [of h])
        ultimately show ?thesis using h1(2) by (auto intro: goes_mono)
      next
        case False
        define h1 where "h1 = move_tail p (gc_zero_ref_count_list h) h"
        have r: "h1 = (remove_gc_object p h)\<lparr>link := list_add_tail p (gc_zero_ref_count_list (remove_gc_object p h)) (link (remove_gc_object p h))\<rparr>"
          by (simp add: h1_def move_tail_def remove_gc_object_def)
        have f: "p \<noteq> 0" "p \<notin> live g" "p \<noteq> gc_obj_list h" "p \<noteq> tmp_obj_list h" "p \<noteq> gc_zero_ref_count_list h" "p \<notin> set rest" "p \<notin> set zs"
          using lists_fresh [OF l, of p] l Cons by (auto simp: lists_def)
        have "lists (remove_gc_object p h) (live_list g) rest zs" using lists_remove_tmp [OF l, of p] Cons by simp
        then have l1: "lists h1 (live_list g) rest (zs @ [p])" unfolding r by (rule lists_add_zero) (use f in auto)
        have d1: "set rest \<union> set (zs @ [p]) = dead g - set (freed h1)" using d Cons by (auto simp: h1_def)
        have t1: "\<forall>q \<in> dead g. value_type (types g q) \<longrightarrow> (q \<in> set rest \<longleftrightarrow> q \<notin> C)" using t False Cons by auto
        have "inv_lists g {} C h1" by (rule inv_listsI [OF l1 d1]) (use t1 inv_listsD [OF il] in \<open>auto simp: h1_def\<close>)
        moreover have "inv_bodies g C h1" by (rule inv_bodies_cong [OF b]) (simp_all add: h1_def)
        moreover have "inv_counts g {} C [] h1" using i by (simp add: inv_def inv_counts_def h1_def)
        moreover have "inv_kept g h1" by (rule inv_kept_cong [of g h]) (use i in \<open>simp_all add: inv_def h1_def\<close>)
        ultimately have i1: "inv g {} C [] h1" by (simp add: inv_def)
        have "goes g {} C [] (\<lambda>h'. next_of (link h') (tmp_obj_list h') = tmp_obj_list h') (cycles_loop h1)"
          by (rule IH [OF _ l1 d1 _ i1]) (use t1 Cons in simp_all)
        moreover have "cycles_loop h = cycles_loop h1" using n ty False by (simp add: cycles_loop.simps [of h] h1_def)
        ultimately show ?thesis by simp
      qed
    qed
  qed
qed

end
