(* ===== verification/GcProps.thy ===== *)
theory GcProps
  imports GcSweep
begin

text \<open>
  The collection as a whole: \<open>JS_RunGCInternal\<close> keeps what a reference from outside reaches and
  hands everything else back to the allocator.
\<close>

section \<open>After the cycles are broken\<close>

text \<open>No block is left that only another kept alive.\<close>

lemma nonvalue_children:
  assumes "\<not> value_type (obj_type b)" "r \<in> set (children b)" "ref_type_ok ty r"
  shows "value_type (ty (target r)) \<or> obj_type b = JS_GC_OBJ_TYPE_JS_CONTEXT \<and> ty (target r) = JS_GC_OBJ_TYPE_SHAPE"
proof (cases b)
  case (Js_Context ms vals shapes)
  then have "r \<in> Value_Ref ` set ms \<or> r \<in> set (mark_values vals) \<or> (\<exists>s \<in> set shapes. r \<in> set (option_ref Shape_Ref s))"
    using assms(2) by auto
  then consider p where "r = Value_Ref p" | p where "r = Shape_Ref p" using mark_values_refs option_ref_set by blast
  then show ?thesis using Js_Context assms(3) by cases auto
next
  case (Var_Ref_Detached x)
  then show ?thesis using assms JS_MarkValue_refs by fastforce
next
  case (Var_Ref_On_Stack x)
  then show ?thesis using assms option_ref_set by fastforce
next
  case (Shape x)
  then show ?thesis using assms option_ref_set by fastforce
qed (use assms(1) in \<open>simp_all add: value_type_def\<close>)

lemma count_refs_nonzero:
  assumes "count_refs b Q p \<noteq> 0"
  shows "\<exists>q \<in> Q. p \<in> target ` set (children (b q))"
proof (rule ccontr)
  assume "\<not> ?thesis"
  then have "count_list (map target (children (b q))) p = 0" if "q \<in> Q" for q using that by (simp add: count_list_0_iff)
  then show False using assms by (simp add: count_refs_def)
qed

lemma all_spent:
  assumes i: "inv g {} C [] h" and v: "\<And>p. p \<in> dead g \<Longrightarrow> value_type (types g p) \<Longrightarrow> p \<in> C"
    and e: "\<And>p. p \<in> dead g \<Longrightarrow> ext_refs g p = 0"
  shows "C = dead g"
proof -
  have l: "inv_lists g {} C h" and b: "inv_bodies g C h" and c: "inv_counts g {} C [] h" using i by (simp_all add: inv_def)
  have ref: "\<exists>q. q \<in> dead g \<and> q \<notin> C \<and> types g q = JS_GC_OBJ_TYPE_JS_CONTEXT \<and> types g p = JS_GC_OBJ_TYPE_SHAPE"
    if p: "p \<in> dead g" "p \<notin> C" for p
  proof -
    have nv: "\<not> value_type (types g p)" using v p by blast
    have pb: "p \<in> blocks g" using p by simp
    have nf: "p \<notin> set (freed h)" using inv_listsD(2) [OF l p(1)] p(2) by blast
    have "0 < refs_to g (body h) C [] p"
      using inv_countsD(3) [OF c pb nf] inv_countsD(6) [OF c p nv] nv e [OF p(1)] by simp
    then have "count_refs (body h) (blocks g - C) p \<noteq> 0" by (simp add: refs_to_def)
    then obtain q where "q \<in> blocks g - C" "p \<in> target ` set (children (body h q))" using count_refs_nonzero by metis
    then have q: "q \<in> blocks g" "q \<notin> C" "p \<in> target ` set (children (body h q))" by simp_all
    have "q \<notin> live g"
    proof
      assume "q \<in> live g"
      then have "target ` set (children (body h q)) \<subseteq> live g" by (rule inv_bodiesD(6) [OF b])
      then have "p \<in> live g" using q(3) by (rule subsetD)
      then show False using p(1) inv_bodiesD(2) [OF b] by (simp add: disjoint_iff)
    qed
    then have qd: "q \<in> dead g" using q(1) by simp
    have qn: "\<not> value_type (obj_type (body h q))" using v [OF qd] q(2) inv_type [OF i q(1)] by auto
    obtain r where r: "r \<in> set (children (body h q))" "p = target r" using q(3) by (elim imageE)
    have "ref_type_ok (types g) r" using inv_bodiesD(5) [OF b q(1,2) r(1)] by simp
    with nonvalue_children [OF qn r(1) this]
    have "obj_type (body h q) = JS_GC_OBJ_TYPE_JS_CONTEXT" "types g p = JS_GC_OBJ_TYPE_SHAPE" using nv r(2) by simp_all
    then show ?thesis using qd q(2) inv_type [OF i q(1)] by (intro exI [of _ q]) simp
  qed
  have "dead g \<subseteq> C"
  proof (rule ccontr)
    assume "\<not> dead g \<subseteq> C"
    then obtain p where "p \<in> dead g" "p \<notin> C" by blast
    then obtain q where "q \<in> dead g" "q \<notin> C" "types g q = JS_GC_OBJ_TYPE_JS_CONTEXT" using ref by blast
    then show False using ref [of q] by simp
  qed
  then show ?thesis using inv_listsD(4) [OF l] by blast
qed

text \<open>The blocks whose structures had to stay are freed last.\<close>

lemma free_remaining_loop:
  assumes "dlist (link h) (gc_zero_ref_count_list h) (ks @ todo)" "set todo \<inter> set (freed h) = {}"
    and "\<And>p. p \<in> set todo \<Longrightarrow> value_type (obj_type (body h p))"
  shows "\<exists>h'. for_each_safe (gc_zero_ref_count_list h) free_remaining (hd (todo @ [gc_zero_ref_count_list h])) h = Some h'
    \<and> link h' = link h \<and> body h' = body h \<and> ref_count h' = ref_count h \<and> phase h' = phase h \<and> gc_obj_list h' = gc_obj_list h
    \<and> tmp_obj_list h' = tmp_obj_list h \<and> gc_zero_ref_count_list h' = gc_zero_ref_count_list h
    \<and> set (freed h') = set (freed h) \<union> {p \<in> set todo. weakrefs (body h p) = 0} \<and> (\<forall>p. p \<notin> set todo \<longrightarrow> mark_bit h' p = mark_bit h p)"
  using assms
proof (induction todo arbitrary: ks h)
  case Nil
  then show ?case by (subst for_each_safe.simps) simp
next
  case (Cons p todo)
  let ?z = "gc_zero_ref_count_list h"
  have x: "p \<noteq> ?z" "p \<notin> set todo" using Cons.prems(1) by (auto simp: dlist_def)
  have "successively (linked (link h)) ((?z # ks) @ [p] @ (todo @ [?z]))" using Cons.prems(1) by (simp add: dlist_def)
  then have "linked (link h) p (hd (todo @ [?z]))" unfolding successively_append_iff by auto
  then have n: "next_of (link h) p = hd (todo @ [?z])" by (simp add: linked_def)
  have v: "value_type (obj_type (body h p))" using Cons.prems(3) by simp
  have w: "obj_type (body h p) = JS_GC_OBJ_TYPE_JS_OBJECT \<and> weakref_count (body h p) \<noteq> 0 \<longleftrightarrow> weakrefs (body h p) \<noteq> 0"
    by (cases "body h p") auto
  define h1 where "h1 = (if weakrefs (body h p) \<noteq> 0 then set_mark p 0 h else h\<lparr>freed := p # freed h\<rparr>)"
  have f: "free_remaining p h = Some h1"
    using v w Cons.prems(2) unfolding free_remaining_def w by (simp add: h1_def js_free_rt_def alive_def)
  have e: "link h1 = link h" "body h1 = body h" "ref_count h1 = ref_count h" "phase h1 = phase h" "gc_obj_list h1 = gc_obj_list h"
    "tmp_obj_list h1 = tmp_obj_list h" "gc_zero_ref_count_list h1 = ?z"
    "set (freed h1) = set (freed h) \<union> {q \<in> {p}. weakrefs (body h q) = 0}" "\<And>q. q \<noteq> p \<Longrightarrow> mark_bit h1 q = mark_bit h q"
    by (auto simp: h1_def)
  have "set todo \<inter> set (freed h1) = {}" using Cons.prems(2) x(2) unfolding e by auto
  then obtain h' where h': "for_each_safe (gc_zero_ref_count_list h1) free_remaining (hd (todo @ [gc_zero_ref_count_list h1])) h1 = Some h'"
    "link h' = link h1" "body h' = body h1" "ref_count h' = ref_count h1" "phase h' = phase h1" "gc_obj_list h' = gc_obj_list h1"
    "tmp_obj_list h' = tmp_obj_list h1" "gc_zero_ref_count_list h' = gc_zero_ref_count_list h1"
    "set (freed h') = set (freed h1) \<union> {p \<in> set todo. weakrefs (body h1 p) = 0}" "\<forall>p. p \<notin> set todo \<longrightarrow> mark_bit h' p = mark_bit h1 p"
    using Cons.IH [of h1 "ks @ [p]"] Cons.prems(1,3) unfolding e by auto
  have "for_each_safe ?z free_remaining p h = Some h'"
    using x(1) n f h'(1) unfolding e by (subst for_each_safe.simps) (simp add: Let_def)
  moreover have "set (freed h') = set (freed h) \<union> {q \<in> set (p # todo). weakrefs (body h q) = 0}" unfolding h'(9) e by auto
  ultimately show ?case using h' e by simp
qed

section \<open>The collection\<close>

text \<open>The modules of a context and the context of a module name each other.\<close>

definition modules_ok :: "(addr \<Rightarrow> gc_body) \<Rightarrow> addr set \<Rightarrow> bool" where
  "modules_ok b N \<longleftrightarrow>
     (\<forall>c \<in> N. distinct (modules_of (b c)) \<and> (\<forall>m \<in> set (modules_of (b c)). m \<in> N \<and> context_of (b m) = Some c))
     \<and> (\<forall>m \<in> N. \<forall>c. context_of (b m) = Some c \<longrightarrow> c \<in> N \<and> m \<in> set (modules_of (b c)))"

text \<open>
  What a runtime keeps between two collections: a well-formed heap whose references have the
  kind of their blocks, where a running function is held from outside, and where the blocks
  freed with their last reference have one.
\<close>

definition collectable :: "gc_heap \<Rightarrow> addr list \<Rightarrow> (addr \<Rightarrow> int) \<Rightarrow> bool" where
  "collectable h xs ext \<longleftrightarrow> heap_ok h xs ext \<and> modules_ok (body h) (set xs)
     \<and> (\<forall>p \<in> set xs. body_ok (body h p) \<and> (\<forall>r \<in> set (children (body h p)). ref_type_ok (\<lambda>q. obj_type (body h q)) r)
          \<and> (running (body h p) \<longrightarrow> 0 < ext p) \<and> (\<not> value_type (obj_type (body h p)) \<longrightarrow> 0 < ref_count h p))"

lemma modules_okD:
  assumes "modules_ok b N"
  shows "c \<in> N \<Longrightarrow> distinct (modules_of (b c))"
    "c \<in> N \<Longrightarrow> m \<in> set (modules_of (b c)) \<Longrightarrow> m \<in> N \<and> context_of (b m) = Some c"
    "m \<in> N \<Longrightarrow> context_of (b m) = Some c \<Longrightarrow> c \<in> N \<and> m \<in> set (modules_of (b c))"
  using assms unfolding modules_ok_def by blast+

lemma reachable_sub: "p \<in> reachable b ext N \<Longrightarrow> (\<And>q. q \<in> N \<Longrightarrow> target ` set (children (b q)) \<subseteq> N) \<Longrightarrow> p \<in> N"
  by (induction rule: reachable.induct) blast+

lemma inv_start:
  assumes c: "collectable h xs ext" and l: "lists h2 gs ts []" and s: "same_rest h h2"
    and gs: "set gs = reachable (body h) ext (set xs)" and ts: "set ts = set xs - set gs"
    and rc: "\<forall>p \<in> set xs. ref_count h2 p = ref_count h p" and mk: "\<forall>p \<in> set gs. mark_bit h2 p = 0"
  defines "g \<equiv> \<lparr>live_list = gs, dead = set ts, ext_refs = ext, types = (\<lambda>p. obj_type (body h p)), first_body = body h\<rparr>"
  shows "inv g {} {} [] (h2\<lparr>phase := JS_GC_PHASE_REMOVE_CYCLES\<rparr>)"
proof -
  let ?h = "h2\<lparr>phase := JS_GC_PHASE_REMOVE_CYCLES\<rparr>"
  have ok: "heap_ok h xs ext" and mo: "modules_ok (body h) (set xs)" using c by (simp_all add: collectable_def)
  have ch: "target ` set (children (body h p)) \<subseteq> set xs" "p \<notin> set (freed h)" "0 \<le> ext p" "ref_count h p = ext p + count_refs (body h) (set xs) p"
    if "p \<in> set xs" for p using ok that by (simp_all add: heap_ok_def)
  have cp: "body_ok (body h p)" "r \<in> set (children (body h p)) \<Longrightarrow> ref_type_ok (\<lambda>q. obj_type (body h q)) r"
    "running (body h p) \<Longrightarrow> 0 < ext p" "\<not> value_type (obj_type (body h p)) \<Longrightarrow> 0 < ref_count h p"
    if "p \<in> set xs" for p r using c that by (simp_all add: collectable_def)
  have sub: "set gs \<subseteq> set xs" using reachable_sub [of _ "body h" ext "set xs"] ch(1) unfolding gs by blast
  have g: "live_list g = gs" "dead g = set ts" "ext_refs g = ext" "types g = (\<lambda>p. obj_type (body h p))" "first_body g = body h" by (simp_all add: g_def)
  have bl: "set gs \<union> set ts = set xs" using sub ts by auto
  have b: "body ?h = body h" "freed ?h = freed h" "mark_bit ?h = mark_bit h2" "ref_count ?h = ref_count h2" using s by (simp_all add: same_rest_def)
  have l': "lists ?h (live_list g) ts []" by (rule lists_cong [OF l [folded g(1)]]) simp_all
  have fr: "p \<notin> set (freed h)" if "p \<in> set xs" for p using ch(2) [OF that] .
  have tx: "p \<in> set xs" if "p \<in> set ts" for p using that ts by simp
  have "inv_lists g {} {} ?h"
    by (rule inv_listsI [OF l']; (unfold b g)?) (use fr sub tx in auto)
  moreover have "inv_bodies g {} ?h"
  proof (rule inv_bodiesI; (unfold b g bl)?)
    show "set gs \<inter> set ts = {}" using ts by blast
    show "body_ok (body h q)" if "q \<in> set xs" for q using cp(1) [OF that] .
    show "ref_type_ok (\<lambda>p. obj_type (body h p)) r \<and> target r \<in> set xs" if "q \<in> set xs" "r \<in> set (children (body h q))" for q r
      using cp(2) [OF that] ch(1) [OF that(1)] that(2) by blast
    show "target ` set (children (body h q)) \<subseteq> set gs" if "q \<in> set gs" for q
      using that reachable.child [of q "body h" ext "set xs"] unfolding gs by blast
    show "\<not> running (body h q)" if "q \<in> set ts" for q
      using cp(3) [of q] reachable.root [of q "set xs" ext "body h"] that ts unfolding gs by blast
    show "c \<in> set xs \<and> c \<notin> set (freed h) \<and> m \<in> set (modules_of (body h c))" if "m \<in> set xs" "context_of (body h m) = Some c" for m c
      using modules_okD(3) [OF mo that] fr by simp
    show "distinct (modules_of (body h c))" if "c \<in> set xs" for c using modules_okD(1) [OF mo that] .
    show "m \<in> set xs \<and> context_of (body h m) = Some c" if "c \<in> set xs" "m \<in> set (modules_of (body h c))" for c m
      using modules_okD(2) [OF mo that] .
  qed simp_all
  moreover have "inv_counts g {} {} [] ?h"
  proof -
    have rt: "refs_to g (body h) {} [] p = count_refs (body h) (set xs) p" for p using bl by (simp add: refs_to_def g)
    have "0 < ext p + count_refs (body h) (set gs) p" if "p \<in> set gs" for p
      using that [unfolded gs]
    proof cases
      case root
      then show ?thesis using count_refs_nonneg [of "body h" "set gs" p] by linarith
    next
      case (child q)
      then have "q \<in> set gs" "p \<in> target ` set (children (body h q))" by (simp_all only: gs)
      then have "1 \<le> count_refs (body h) (set gs) p" using count_refs_pos [of "set gs" q p "body h"] by simp
      then show ?thesis using ch(3) [of p] that sub by fastforce
    qed
    then show ?thesis
      by (intro inv_countsI; (unfold b g bl rt)?) (use ch(3,4) cp(4) fr rc ts in auto)
  qed
  moreover have "inv_kept g ?h" using mk fr bl by (auto simp: inv_kept_def b g)
  ultimately show ?thesis by (simp add: inv_def)
qed

lemma ref_type_ok_cong: "ty (target r) = ty' (target r) \<Longrightarrow> ref_type_ok ty r = ref_type_ok ty' r"
  by (cases r) simp_all

lemma running_unlinked: "unlinked b = unlinked b' \<Longrightarrow> running b = running b'"
  by (metis (no_types) unlinked.simps running.simps gc_body.exhaust)

text \<open>A swept heap is one that can be collected again.\<close>

lemma inv_end:
  assumes i: "inv g {} (dead g) [] h" and lv: "lists h (live_list g) [] zs" and e: "\<And>p. p \<in> live g \<Longrightarrow> 0 \<le> ext_refs g p"
    and rn: "\<And>p. p \<in> live g \<Longrightarrow> running (first_body g p) \<Longrightarrow> 0 < ext_refs g p"
    and h': "body h' = body h" "ref_count h' = ref_count h" "gc_obj_list h' = gc_obj_list h" "tmp_obj_list h' = tmp_obj_list h"
      "gc_zero_ref_count_list h' = gc_zero_ref_count_list h" "\<And>p. p \<in> live g \<Longrightarrow> mark_bit h' p = mark_bit h p"
      "link h' = init_list_head (gc_zero_ref_count_list h) (link h)" "\<And>p. p \<in> live g \<Longrightarrow> p \<in> set (freed h') \<longleftrightarrow> p \<in> set (freed h)"
  shows "collectable h' (live_list g) (ext_refs g)"
proof -
  have l: "inv_lists g {} (dead g) h" and b: "inv_bodies g (dead g) h" and c: "inv_counts g {} (dead g) [] h" and k: "inv_kept g h"
    using i by (simp_all add: inv_def)
  have nd: "p \<notin> dead g" "p \<notin> set (freed h)" "p \<in> blocks g" if "p \<in> live g" for p
    using that inv_bodiesD(2) [OF b] inv_listsD(5) [OF l] by auto
  have "blocks g - dead g = live g" using inv_bodiesD(2) [OF b] by auto
  then have rt: "refs_to g (body h) (dead g) [] p = count_refs (body h) (live g) p" for p by (simp add: refs_to_def)
  have rc: "ref_count h p = ext_refs g p + count_refs (body h) (live g) p" if "p \<in> live g" for p
    using inv_countsD(3) [OF c nd(3) [OF that] nd(2) [OF that]] that by (simp add: rt)
  have ch: "target ` set (children (body h p)) \<subseteq> live g" if "p \<in> live g" for p using inv_bodiesD(6) [OF b that] .
  have x: "distinct ((gc_obj_list h # live_list g) @ (tmp_obj_list h # []) @ (gc_zero_ref_count_list h # zs))"
    and d: "dlist (link h) (gc_obj_list h) (live_list g)" "dlist (link h) (tmp_obj_list h) []" "dlist (link h) (gc_zero_ref_count_list h) zs"
    using lv by (simp_all add: lists_def)
  have z: "gc_zero_ref_count_list h \<noteq> 0" "tmp_obj_list h \<noteq> 0" using d(2,3) by (simp_all add: dlist_def)
  have mk: "mark_bit h p = 0" "unlinked (body h p) = unlinked (first_body g p)" if "p \<in> live g" for p
    using k that by (simp_all add: inv_kept_def)
  have d': "dlist (link h') (gc_obj_list h') (live_list g)" "dlist (link h') (gc_zero_ref_count_list h') []"
    unfolding h' using dlist_init_other [OF d(1), of "gc_zero_ref_count_list h"] dlist_init [OF z(1), of "link h"] x by auto
  have "heap_ok h' (live_list g) (ext_refs g)"
    unfolding heap_ok_def
  proof (intro conjI ballI)
    show "distinct ((gc_obj_list h' # live_list g) @ [tmp_obj_list h', gc_zero_ref_count_list h'])" using x unfolding h' by auto
    fix p assume p: "p \<in> live g"
    show "target ` set (children (body h' p)) \<subseteq> live g" using ch [OF p] by (simp add: h')
    show "mark_bit h' p = 0" using mk(1) [OF p] h'(6) [OF p] by simp
    show "p \<notin> set (freed h')" using nd(2) [OF p] h'(8) [OF p] by simp
    show "0 \<le> ext_refs g p" using e [OF p] .
    show "ref_count h' p = ext_refs g p + count_refs (body h') (live g) p" using rc [OF p] by (simp add: h')
  qed (use d' z h' in simp_all)
  moreover have "modules_ok (body h') (live g)"
    unfolding modules_ok_def h'
  proof (intro conjI ballI allI impI)
    fix k assume k: "k \<in> live g"
    show "distinct (modules_of (body h k))" by (rule inv_bodiesD(8) [OF b nd(3) [OF k] nd(2) [OF k]])
    fix m assume m: "m \<in> set (modules_of (body h k))"
    show "context_of (body h m) = Some k" using inv_bodiesD(9) [OF b nd(3) [OF k] nd(2) [OF k] m] by simp
    have "Value_Ref m \<in> set (children (body h k))" using m by (cases "body h k") auto
    then show "m \<in> live g" using ch [OF k] by (metis imageI subsetD target.simps(1))
  next
    fix m k assume m: "m \<in> live g" and cm: "context_of (body h m) = Some k"
    have k: "k \<in> blocks g" "k \<notin> set (freed h)" "m \<in> set (modules_of (body h k))"
      using inv_bodiesD(10) [OF b nd(3) [OF m] cm] by simp_all
    then show "m \<in> set (modules_of (body h k))" by simp
    have "\<not> value_type (obj_type (body h k))" using k(3) by (cases "body h k") auto
    then have "\<not> value_type (types g k)" using inv_type [OF i k(1)] by simp
    then show "k \<in> live g" using inv_listsD(1) [OF l, of k] k(1,2) by auto
  qed
  moreover have "body_ok (body h' p)" "running (body h' p) \<Longrightarrow> 0 < ext_refs g p" "\<not> value_type (obj_type (body h' p)) \<Longrightarrow> 0 < ref_count h' p"
    "r \<in> set (children (body h' p)) \<Longrightarrow> ref_type_ok (\<lambda>q. obj_type (body h' q)) r" if p: "p \<in> live g" for p r
    unfolding h'
  proof -
    show "body_ok (body h p)" by (rule inv_bodiesD(4) [OF b nd(3) [OF p] nd(1) [OF p]])
    show "0 < ext_refs g p" if "running (body h p)" using rn [OF p] that running_unlinked [OF mk(2) [OF p]] by simp
    show "0 < ref_count h p" using rc [OF p] inv_countsD(7) [OF c p] by simp
    assume r: "r \<in> set (children (body h p))"
    have "target r \<in> live g" using ch [OF p] r by (metis imageI subsetD)
    then have "obj_type (body h (target r)) = types g (target r)" by (intro inv_type [OF i]) simp
    moreover have "ref_type_ok (types g) r" using inv_bodiesD(5) [OF b nd(3) [OF p] nd(1) [OF p] r] by simp
    ultimately show "ref_type_ok (\<lambda>q. obj_type (body h q)) r" using ref_type_ok_cong [of "\<lambda>q. obj_type (body h q)" r "types g"] by simp
  qed
  ultimately show ?thesis by (simp add: collectable_def)
qed

text \<open>The two phases of the sweep from an invariant heap.\<close>

lemma gc_free_cycles_step:
  assumes i: "inv g {} {} [] (h\<lparr>phase := JS_GC_PHASE_REMOVE_CYCLES\<rparr>)" and e: "\<And>p. p \<in> dead g \<Longrightarrow> ext_refs g p = 0"
    and ne: "\<And>p. p \<in> live g \<Longrightarrow> 0 \<le> ext_refs g p" and rn: "\<And>p. p \<in> live g \<Longrightarrow> running (first_body g p) \<Longrightarrow> 0 < ext_refs g p"
  shows "\<exists>h'. gc_free_cycles h = Some h' \<and> collectable h' (live_list g) (ext_refs g)
    \<and> (\<forall>p \<in> live g. unlinked (body h' p) = unlinked (first_body g p) \<and> p \<notin> set (freed h'))
    \<and> (\<forall>p \<in> dead g. p \<in> set (freed h') \<longleftrightarrow> weakrefs (first_body g p) = 0)"
proof -
  obtain h1 C where h1: "cycles_loop (h\<lparr>phase := JS_GC_PHASE_REMOVE_CYCLES\<rparr>) = Some h1" "inv g {} C [] h1"
    "next_of (link h1) (tmp_obj_list h1) = tmp_obj_list h1"
    using cycles_loop_step [OF i] by (rule goesE)
  have l: "inv_lists g {} C h1" and b: "inv_bodies g C h1" and k: "inv_kept g h1" using h1(2) by (simp_all add: inv_def)
  obtain ts zs where t: "lists h1 (live_list g) ts zs" "set ts \<union> set zs = dead g - set (freed h1)"
    "\<And>p. p \<in> dead g \<Longrightarrow> value_type (types g p) \<Longrightarrow> p \<in> set ts \<longleftrightarrow> p \<notin> C \<or> p \<in> {}"
    using inv_listsE [OF l] by blast
  have n: "ts = []" using lists_tmp_first [OF t(1)] h1(3) t(1) by (cases ts) (auto simp: lists_def)
  have C: "C = dead g" by (rule all_spent [OF h1(2) _ e]) (use t(3) n in auto)
  have zv: "value_type (types g p)" if "p \<in> set zs" for p
    using that t(2) n inv_listsD(1) [OF l, of p] by (auto simp: C)
  have zt: "obj_type (body h1 p) = types g p" if "p \<in> set zs" for p using inv_type [OF h1(2), of p] that t(2) n by auto
  define h2 where "h2 = h1\<lparr>phase := JS_GC_PHASE_NONE\<rparr>"
  have d: "dlist (link h2) (gc_zero_ref_count_list h2) ([] @ zs)" using t(1) by (simp add: lists_def h2_def)
  have "set zs \<inter> set (freed h2) = {}" using t(2) n by (auto simp: h2_def)
  moreover have "value_type (obj_type (body h2 p))" if "p \<in> set zs" for p using zv [OF that] zt [OF that] by (simp add: h2_def)
  ultimately obtain h3 where h3: "for_each_safe (gc_zero_ref_count_list h2) free_remaining (hd (zs @ [gc_zero_ref_count_list h2])) h2 = Some h3"
    "link h3 = link h2" "body h3 = body h2" "ref_count h3 = ref_count h2" "gc_obj_list h3 = gc_obj_list h2"
    "tmp_obj_list h3 = tmp_obj_list h2" "gc_zero_ref_count_list h3 = gc_zero_ref_count_list h2"
    "set (freed h3) = set (freed h2) \<union> {p \<in> set zs. weakrefs (body h2 p) = 0}" "\<And>p. p \<notin> set zs \<Longrightarrow> mark_bit h3 p = mark_bit h2 p"
    using free_remaining_loop [OF d] by blast
  define h4 where "h4 = h3\<lparr>link := init_list_head (gc_zero_ref_count_list h3) (link h3)\<rparr>"
  have "next_of (link h2) (gc_zero_ref_count_list h2) = hd (zs @ [gc_zero_ref_count_list h2])" using dlist_next [OF d] by simp
  then have r: "gc_free_cycles h = Some h4"
    using h1(1) h3(1) by (simp add: gc_free_cycles_def h2_def h4_def Let_def)
  have lz: "p \<notin> set zs" if "p \<in> live g" for p using that t(2) inv_bodiesD(2) [OF b] by auto
  have "collectable h4 (live_list g) (ext_refs g)"
    by (rule inv_end [OF h1(2) [unfolded C] t(1) [unfolded n] ne rn])
      (use h3 lz in \<open>simp_all add: h4_def h2_def\<close>)
  moreover have "unlinked (body h4 p) = unlinked (first_body g p) \<and> p \<notin> set (freed h4)" if "p \<in> live g" for p
    using k that lz [OF that] inv_listsD(5) [OF l] by (auto simp: inv_kept_def h4_def h3 h2_def)
  moreover have "p \<in> set (freed h4) \<longleftrightarrow> weakrefs (first_body g p) = 0" if p: "p \<in> dead g" for p
  proof (cases "p \<in> set (freed h1)")
    case True
    then show ?thesis using k p by (simp add: inv_kept_def h4_def h3 h2_def)
  next
    case False
    then have "p \<in> set zs" using t(2) n p by auto
    then show ?thesis using False inv_weakrefs [OF h1(2), of p] p by (simp add: h4_def h3 h2_def)
  qed
  ultimately show ?thesis using r by blast
qed

section \<open>Property\<close>

text \<open>C2: The cycle collector is sound and complete. On a well-formed heap \<open>JS_RunGCInternal\<close> returns:
  every loop ends, no assertion fails and no block is used or freed after it went back to the
  allocator. Exactly the blocks that a reference from outside does not reach are handed back,
  whatever cycles they form, except that the structure of an object with weak references to it
  stays; the reached blocks keep their bodies (a module may lose the context it was listed on),
  and the heap they form is well-formed again, with exact counts.
\<close>

theorem gc_collects_garbage:
  assumes "collectable h xs ext"
  shows "\<exists>h' ys. JS_RunGCInternal h = Some h' \<and> set ys = reachable (body h) ext (set xs) \<and> collectable h' ys ext
    \<and> (\<forall>p \<in> set ys. unlinked (body h' p) = unlinked (body h p))
    \<and> (\<forall>p \<in> set xs. p \<in> set (freed h') \<longleftrightarrow> p \<notin> set ys \<and> weakrefs (body h p) = 0)"
proof -
  have ok: "heap_ok h xs ext" using assms by (simp add: collectable_def)
  obtain h1 h2 gs ts where m: "gc_decref h = Some h1" "gc_scan h1 = Some h2" "lists h2 gs ts []" "same_rest h h2"
    "set gs = reachable (body h) ext (set xs)" "set ts = set xs - reachable (body h) ext (set xs)"
    "\<forall>p \<in> set xs. ref_count h2 p = ref_count h p" "\<forall>p \<in> set gs. mark_bit h2 p = 0"
    using gc_mark_phase [OF ok] by blast
  define g where "g = \<lparr>live_list = gs, dead = set ts, ext_refs = ext, types = (\<lambda>p. obj_type (body h p)), first_body = body h\<rparr>"
  have g: "live_list g = gs" "dead g = set ts" "ext_refs g = ext" "first_body g = body h" by (simp_all add: g_def)
  have "inv g {} {} [] (h2\<lparr>phase := JS_GC_PHASE_REMOVE_CYCLES\<rparr>)"
    unfolding g_def by (rule inv_start [OF assms m(3,4,5) _ m(7,8)]) (use m(5,6) in simp)
  moreover have x: "0 \<le> ext p" "running (body h p) \<Longrightarrow> 0 < ext p" if "p \<in> set xs" for p
    using assms ok that by (simp_all add: collectable_def heap_ok_def)
  moreover have sub: "set gs \<subseteq> set xs"
    unfolding m(5) using reachable_sub [of _ "body h" ext "set xs"] ok by (force simp: heap_ok_def)
  moreover have "ext p = 0" if "p \<in> set ts" for p
    using that m(6) x(1) [of p] reachable.root [of p "set xs" ext "body h"] by force
  ultimately obtain h' where h': "gc_free_cycles h2 = Some h'" "collectable h' gs ext"
    "\<forall>p \<in> set gs. unlinked (body h' p) = unlinked (body h p) \<and> p \<notin> set (freed h')"
    "\<forall>p \<in> set ts. p \<in> set (freed h') \<longleftrightarrow> weakrefs (body h p) = 0"
    using gc_free_cycles_step [of g h2] unfolding g by blast
  have "JS_RunGCInternal h = Some h'" using m(1,2) h'(1) by (simp add: JS_RunGCInternal_def)
  moreover have "p \<in> set (freed h') \<longleftrightarrow> p \<notin> set gs \<and> weakrefs (body h p) = 0" if "p \<in> set xs" for p
    using that h'(3,4) m(5,6) by blast
  ultimately show ?thesis using m(5) h'(2,3) by (intro exI [of _ h'] exI [of _ gs]) simp
qed

text \<open>An object that holds another, and two garbage objects that hold each other, all of one shape.\<close>

definition gc_example :: gc_heap where
  "gc_example =
     \<lparr>link = fold (\<lambda>p. list_add_tail p 1) [10, 11, 12, 20, 21] (init_list_head 1 (init_list_head 2 \<lparr>prev_of = id, next_of = id\<rparr>)),
      ref_count = (\<lambda>p. if p = 12 then 4 else 1), mark_bit = (\<lambda>_. 0),
      body = (\<lambda>p. if p = 12 then Shape None
                  else if p = 11 then Js_Object 12 [] JS_CLASS_OBJECT [] 0
                  else Js_Object 12 [(True, Prop_Value (JS_Object (if p = 10 then 11 else if p = 20 then 21 else 20)))] JS_CLASS_OBJECT [] 0),
      phase = JS_GC_PHASE_NONE, freed = [], gc_obj_list = 1, gc_zero_ref_count_list = 2, tmp_obj_list = 3\<rparr>"

lemma gc_example_ok: "collectable gc_example [10, 11, 12, 20, 21] (\<lambda>p. of_bool (p = 10))"
  unfolding collectable_def heap_ok_def modules_ok_def
  by (simp add: gc_example_def dlist_def linked_def init_list_head_def list_add_tail_def count_refs_def value_type_def option_ref_def)

lemma gc_example_reachable: "reachable (body gc_example) (\<lambda>p. of_bool (p = 10)) {10, 11, 12, 20, 21} = {10, 11, 12}"
proof
  show "reachable (body gc_example) (\<lambda>p. of_bool (p = 10)) {10, 11, 12, 20, 21} \<subseteq> {10, 11, 12}"
  proof
    fix p assume "p \<in> reachable (body gc_example) (\<lambda>p. of_bool (p = 10)) {10, 11, 12, 20, 21}"
    then show "p \<in> {10, 11, 12}" by induction (auto simp: gc_example_def option_ref_def split: if_splits)
  qed
next
  have r: "10 \<in> reachable (body gc_example) (\<lambda>p. of_bool (p = 10)) {10, 11, 12, 20, 21}" by (rule reachable.root) simp_all
  show "{10, 11, 12} \<subseteq> reachable (body gc_example) (\<lambda>p. of_bool (p = 10)) {10, 11, 12, 20, 21}"
    using r reachable.child [OF r, of 11] reachable.child [OF r, of 12] by (simp add: gc_example_def)
qed

theorem gc_collects_garbage_witness:
  "\<exists>h' ys. JS_RunGCInternal gc_example = Some h' \<and> set ys = {10, 11, 12} \<and> collectable h' ys (\<lambda>p. of_bool (p = 10))
     \<and> 20 \<in> set (freed h') \<and> 21 \<in> set (freed h') \<and> 10 \<notin> set (freed h') \<and> 11 \<notin> set (freed h') \<and> 12 \<notin> set (freed h')"
proof -
  obtain h' ys where h: "JS_RunGCInternal gc_example = Some h'" "set ys = {10, 11, 12}" "collectable h' ys (\<lambda>p. of_bool (p = 10))"
    "\<forall>p \<in> {10, 11, 12, 20, 21}. p \<in> set (freed h') \<longleftrightarrow> p \<notin> set ys \<and> weakrefs (body gc_example p) = 0"
    using gc_collects_garbage [OF gc_example_ok] unfolding list.set gc_example_reachable by blast
  moreover have "weakrefs (body gc_example 20) = 0" "weakrefs (body gc_example 21) = 0" by (simp_all add: gc_example_def)
  ultimately show ?thesis by auto
qed

end
