(* ===== verification/ShapeTable.thy ===== *)
theory ShapeTable
  imports Prelude
begin

text \<open>
  The property table of one shape (\<open>quickjs/quickjs.c\<close>): the properties in the order they were
  added, and a hash table from atoms to chains of property indices. An index of 0 ends a chain,
  property \<open>i\<close> has index \<open>i + 1\<close>; \<open>hash_next\<close> is a bit-field of 26 bits. The entries of
  \<open>prop[]\<close> past \<open>prop_count\<close> are not initialised: reading one is an access outside the list.
\<close>

unbundle bit_operations_syntax

section \<open>Data\<close>

type_synonym atom = u32

record JSShapeProperty =
  hash_next :: nat
  flags :: nat
  prop_atom :: atom

record JSShape =
  is_hashed :: bool
  hash :: u32
  prop_hash_mask :: u32
  prop_size :: nat
  deleted_prop_count :: nat
  shape_hash_next :: addr
  proto :: addr
  hash_table :: "nat list"
  prps :: "JSShapeProperty list"

abbreviation prop_count :: "JSShape \<Rightarrow> nat" where "prop_count sh \<equiv> length (prps sh)"

definition JS_PROP_INITIAL_SIZE :: nat where "JS_PROP_INITIAL_SIZE = 2"
definition JS_PROP_INITIAL_HASH_SIZE :: nat where "JS_PROP_INITIAL_HASH_SIZE = 4"
definition JS_PROP_CONFIGURABLE :: nat where "JS_PROP_CONFIGURABLE = 1"

definition bucket_of :: "u32 \<Rightarrow> atom \<Rightarrow> nat" where "bucket_of msk a = unat (a AND msk)"

section \<open>Lookup\<close>

partial_function (option) find_loop :: "JSShapeProperty list \<Rightarrow> atom \<Rightarrow> nat \<Rightarrow> nat option option" where
  "find_loop prop a h =
     (if h = 0 then Some None
      else do {
        pr \<leftarrow> rd prop (h - 1);
        if prop_atom pr = a then Some (Some (h - 1)) else find_loop prop a (hash_next pr)
      })"

definition find_own_property1 :: "JSShape \<Rightarrow> atom \<Rightarrow> nat option option" where
  "find_own_property1 sh a = do { h \<leftarrow> rd (hash_table sh) (bucket_of (prop_hash_mask sh) a); find_loop (prps sh) a h }"

text \<open>The search of \<open>delete_property\<close> also keeps the entry before the one it finds.\<close>

partial_function (option) find_loop_prev ::
    "JSShapeProperty list \<Rightarrow> atom \<Rightarrow> nat \<Rightarrow> nat option \<Rightarrow> (nat \<times> nat option) option option" where
  "find_loop_prev prop a h lpr =
     (if h = 0 then Some None
      else do {
        pr \<leftarrow> rd prop (h - 1);
        if prop_atom pr = a then Some (Some (h - 1, lpr)) else find_loop_prev prop a (hash_next pr) (Some (h - 1))
      })"

section \<open>Changing the table\<close>

text \<open>Entry \<open>i\<close> becomes the head of the chain of its atom.\<close>

definition hash_link :: "u32 \<Rightarrow> nat \<Rightarrow> JSShapeProperty \<Rightarrow> nat list \<Rightarrow> (JSShapeProperty \<times> nat list) option" where
  "hash_link msk i pr tab =
     do {
       x \<leftarrow> rd tab (bucket_of msk (prop_atom pr));
       tab1 \<leftarrow> wr tab (bucket_of msk (prop_atom pr)) (i + 1);
       Some (pr\<lparr>hash_next := x mod 2 ^ 26\<rparr>, tab1)
     }"

definition new_property :: "atom \<Rightarrow> nat \<Rightarrow> JSShape \<Rightarrow> JSShape option" where
  "new_property a fl sh =
     (if prop_size sh \<le> prop_count sh then None
      else do {
        (pr, tab) \<leftarrow> hash_link (prop_hash_mask sh) (prop_count sh) \<lparr>hash_next = 0, flags = fl mod 2 ^ 6, prop_atom = a\<rparr> (hash_table sh);
        Some (sh\<lparr>hash_table := tab, prps := prps sh @ [pr]\<rparr>)
      })"

fun rehash_loop :: "u32 \<Rightarrow> nat \<Rightarrow> JSShapeProperty list \<Rightarrow> nat list \<Rightarrow> (JSShapeProperty list \<times> nat list) option" where
  "rehash_loop msk i [] tab = Some ([], tab)"
| "rehash_loop msk i (pr # prs) tab =
     (if prop_atom pr \<noteq> 0
      then do {
        (pr1, tab1) \<leftarrow> hash_link msk i pr tab;
        (ps, tab2) \<leftarrow> rehash_loop msk (i + 1) prs tab1;
        Some (pr1 # ps, tab2)
      }
      else do { (ps, tab1) \<leftarrow> rehash_loop msk (i + 1) prs tab; Some (pr # ps, tab1) })"

text \<open>The loop of \<open>compact_properties\<close> also moves the values of the object, \<open>prop[j] = prop[i]\<close>.\<close>

fun compact_loop :: "u32 \<Rightarrow> nat \<Rightarrow> nat \<Rightarrow> JSShapeProperty list \<Rightarrow> nat list \<Rightarrow> 'v list \<Rightarrow> (JSShapeProperty list \<times> nat list \<times> 'v list) option" where
  "compact_loop msk i j [] tab vs = Some ([], tab, vs)"
| "compact_loop msk i j (pr # prs) tab vs =
     (if prop_atom pr \<noteq> 0
      then do {
        (pr1, tab1) \<leftarrow> hash_link msk j pr tab;
        v \<leftarrow> rd vs i;
        vs1 \<leftarrow> wr vs j v;
        (ps, tab2, vs2) \<leftarrow> compact_loop msk (i + 1) (j + 1) prs tab1 vs1;
        Some (pr1 # ps, tab2, vs2)
      }
      else compact_loop msk (i + 1) j prs tab vs)"

definition unlink_property :: "nat \<Rightarrow> nat option \<Rightarrow> nat \<Rightarrow> JSShape \<Rightarrow> JSShape option" where
  "unlink_property i lpr h1 sh =
     do {
       pr \<leftarrow> rd (prps sh) i;
       case lpr of
         Some l \<Rightarrow> do {
           lp \<leftarrow> rd (prps sh) l;
           ps \<leftarrow> wr (prps sh) l (lp\<lparr>hash_next := hash_next pr\<rparr>);
           Some (sh\<lparr>prps := ps\<rparr>)
         }
       | None \<Rightarrow> do { tab \<leftarrow> wr (hash_table sh) h1 (hash_next pr); Some (sh\<lparr>hash_table := tab\<rparr>) }
     }"

text \<open>Default values in a deleted entry; its \<open>hash_next\<close> stays.\<close>

definition clear_property :: "nat \<Rightarrow> JSShape \<Rightarrow> JSShape option" where
  "clear_property i sh =
     do {
       pr \<leftarrow> rd (prps sh) i;
       ps \<leftarrow> wr (prps sh) i (pr\<lparr>flags := 0, prop_atom := 0\<rparr>);
       Some (sh\<lparr>prps := ps\<rparr>)
     }"

partial_function (option) grow_hash_size :: "nat \<Rightarrow> nat \<Rightarrow> nat option" where
  "grow_hash_size hash_size new_size = (if hash_size < new_size then grow_hash_size (2 * hash_size) new_size else Some hash_size)"

partial_function (option) shrink_hash_size :: "nat \<Rightarrow> nat \<Rightarrow> nat option" where
  "shrink_hash_size hash_size new_size = (if hash_size div 2 \<ge> new_size then shrink_hash_size (hash_size div 2) new_size else Some hash_size)"

section \<open>Well-formed tables\<close>

text \<open>\<open>chained ps x js\<close>: following the links from \<open>x\<close> visits exactly the properties \<open>js\<close>.\<close>

fun chained :: "JSShapeProperty list \<Rightarrow> nat \<Rightarrow> nat list \<Rightarrow> bool" where
  "chained ps x [] \<longleftrightarrow> x = 0"
| "chained ps x (j # js) \<longleftrightarrow> x = Suc j \<and> j < length ps \<and> chained ps (hash_next (ps ! j)) js"

text \<open>The properties of a bucket, the latest first.\<close>

definition bucket :: "atom list \<Rightarrow> u32 \<Rightarrow> nat \<Rightarrow> nat list" where
  "bucket ats msk h = rev (filter (\<lambda>i. ats ! i \<noteq> 0 \<and> bucket_of msk (ats ! i) = h) [0..<length ats])"

definition chains_ok :: "u32 \<Rightarrow> JSShapeProperty list \<Rightarrow> nat list \<Rightarrow> bool" where
  "chains_ok msk ps tab \<longleftrightarrow> (\<forall>h < length tab. chained ps (tab ! h) (bucket (map prop_atom ps) msk h))"

definition mask_ok :: "u32 \<Rightarrow> nat \<Rightarrow> bool" where
  "mask_ok msk n \<longleftrightarrow> (\<exists>k. n = 2 ^ k \<and> k < 32) \<and> msk = word_of_nat (n - 1)"

definition table_ok :: "JSShape \<Rightarrow> bool" where
  "table_ok sh \<longleftrightarrow>
     mask_ok (prop_hash_mask sh) (length (hash_table sh)) \<and> chains_ok (prop_hash_mask sh) (prps sh) (hash_table sh)
     \<and> prop_count sh \<le> prop_size sh \<and> JS_PROP_INITIAL_SIZE \<le> prop_size sh \<and> prop_count sh < 2 ^ 26
     \<and> distinct (filter (\<lambda>a. a \<noteq> 0) (map prop_atom (prps sh)))
     \<and> deleted_prop_count sh = count_list (map prop_atom (prps sh)) 0"

lemma bucket_of_less:
  assumes "mask_ok msk n"
  shows "bucket_of msk a < n"
proof -
  obtain k where k: "n = 2 ^ k" "k < 32" "msk = word_of_nat (n - 1)" using assms by (auto simp: mask_ok_def)
  have "(2 :: nat) ^ k \<le> 2 ^ 31" using k(2) by (intro power_increasing) auto
  then have "n - 1 < 2 ^ LENGTH(32)" using k(1) by simp
  then have "unat msk = n - 1" unfolding k(3) by (rule unat_small)
  moreover have "a AND msk \<le> msk" by (rule word_and_le1)
  then have "unat (a AND msk) \<le> unat msk" by (simp add: word_le_nat_alt)
  moreover have "0 < n" using k(1) by simp
  ultimately show ?thesis unfolding bucket_of_def by linarith
qed

lemma bucket_Cons:
  "bucket (ats @ [a]) msk h = (if a \<noteq> 0 \<and> bucket_of msk a = h then length ats # bucket ats msk h else bucket ats msk h)"
proof -
  have "filter (\<lambda>i. (ats @ [a]) ! i \<noteq> 0 \<and> bucket_of msk ((ats @ [a]) ! i) = h) [0..<length ats]
      = filter (\<lambda>i. ats ! i \<noteq> 0 \<and> bucket_of msk (ats ! i) = h) [0..<length ats]"
    by (rule filter_cong) (auto simp: nth_append)
  then show ?thesis by (auto simp: bucket_def)
qed

lemma set_bucket: "set (bucket ats msk h) = {i. i < length ats \<and> ats ! i \<noteq> 0 \<and> bucket_of msk (ats ! i) = h}"
  by (auto simp: bucket_def)

lemma distinct_bucket: "distinct (bucket ats msk h)"
  by (simp add: bucket_def)

lemma chained_cong:
  "chained ps x js \<Longrightarrow> length ps \<le> length ps' \<Longrightarrow> (\<And>j. j \<in> set js \<Longrightarrow> hash_next (ps' ! j) = hash_next (ps ! j)) \<Longrightarrow> chained ps' x js"
  by (induction js arbitrary: x) auto

lemma chained_less: "chained ps x js \<Longrightarrow> j \<in> set js \<Longrightarrow> j < length ps"
  by (induction js arbitrary: x) auto

lemma chained_append: "chained ps x js \<Longrightarrow> chained (ps @ qs) x js"
  by (rule chained_cong) (auto simp: nth_append dest: chained_less)

section \<open>Lookup finds the property\<close>

lemma find_loop_chained: "chained ps x js \<Longrightarrow> find_loop ps a x = Some (find (\<lambda>j. prop_atom (ps ! j) = a) js)"
  by (induction js arbitrary: x) (simp_all add: find_loop.simps [of ps a] rd_def)

lemma find_loop_prev_chained:
  "chained ps x js \<Longrightarrow> find_loop_prev ps a x l = Some (case find (\<lambda>j. prop_atom (ps ! j) = a) js of
     None \<Rightarrow> None
   | Some i \<Rightarrow> Some (i, if hd js = i then l else Some (last (takeWhile (\<lambda>j. j \<noteq> i) js))))"
proof (induction js arbitrary: x l)
  case Nil
  then show ?case by (simp add: find_loop_prev.simps [of ps a])
next
  case (Cons j js)
  show ?case
  proof (cases "prop_atom (ps ! j) = a")
    case True
    then show ?thesis using Cons.prems by (subst find_loop_prev.simps) (simp add: rd_def)
  next
    case False
    have c: "chained ps (hash_next (ps ! j)) js" using Cons.prems by simp
    have f: "find_loop_prev ps a x l = find_loop_prev ps a (hash_next (ps ! j)) (Some j)"
      using Cons.prems False by (subst find_loop_prev.simps) (simp add: rd_def)
    show ?thesis
    proof (cases "find (\<lambda>j. prop_atom (ps ! j) = a) js")
      case None
      then show ?thesis using Cons.IH [OF c] f False by simp
    next
      case (Some i)
      then have "i \<in> set js" "prop_atom (ps ! i) = a" by (auto simp: find_Some_iff)
      then have "i \<noteq> j" "js \<noteq> []" using False by auto
      then show ?thesis using Cons.IH [OF c] f False Some by (cases js) (auto simp: takeWhile_eq_Nil_iff)
    qed
  qed
qed

definition index_of :: "JSShapeProperty list \<Rightarrow> atom \<Rightarrow> nat option" where
  "index_of ps a = find (\<lambda>i. prop_atom (ps ! i) = a) [0..<length ps]"

lemma index_of_None: "index_of ps a = None \<longleftrightarrow> a \<notin> prop_atom ` set ps"
  unfolding index_of_def find_None_iff image_iff by (auto simp: in_set_conv_nth) (metis nth_mem)

lemma index_of_Some: "index_of ps a = Some i \<Longrightarrow> i < length ps \<and> prop_atom (ps ! i) = a"
  by (auto simp: index_of_def find_Some_iff)

text \<open>Live atoms occur once.\<close>

lemma distinct_filter_nth:
  "distinct (filter P xs) \<Longrightarrow> i < j \<Longrightarrow> j < length xs \<Longrightarrow> xs ! i = xs ! j \<Longrightarrow> P (xs ! i) \<Longrightarrow> False"
proof (induction xs arbitrary: i j)
  case (Cons x xs)
  then obtain k where j: "j = Suc k" by (cases j) auto
  show ?case
  proof (cases i)
    case 0
    then have "P x" "x = xs ! k" "k < length xs" using Cons.prems j by auto
    then have "x \<in> set (filter P xs)" by simp
    then show False using Cons.prems(1) \<open>P x\<close> by simp
  next
    case (Suc i')
    then show False using Cons.IH [of i' k] Cons.prems j by (auto split: if_splits)
  qed
qed simp

lemma live_unique:
  assumes "distinct (filter (\<lambda>a. a \<noteq> 0) (map prop_atom ps))" "i < length ps" "j < length ps"
    "prop_atom (ps ! i) = prop_atom (ps ! j)" "prop_atom (ps ! i) \<noteq> 0"
  shows "i = j"
proof (rule ccontr)
  assume "i \<noteq> j"
  then consider "i < j" | "j < i" by linarith
  then show False
    using distinct_filter_nth [OF assms(1), of i j] distinct_filter_nth [OF assms(1), of j i] assms(2-5) by cases simp_all
qed

lemma find_bucket:
  assumes "distinct (filter (\<lambda>a. a \<noteq> 0) (map prop_atom ps))" "a \<noteq> 0"
  shows "find (\<lambda>j. prop_atom (ps ! j) = a) (bucket (map prop_atom ps) msk (bucket_of msk a)) = index_of ps a"
proof (cases "index_of ps a")
  case None
  then have "prop_atom (ps ! j) \<noteq> a" if "j < length ps" for j using that by (auto simp: index_of_None image_iff)
  then show ?thesis unfolding None by (auto simp: find_None_iff set_bucket)
next
  case (Some i)
  then have i: "i < length ps" "prop_atom (ps ! i) = a" by (auto dest: index_of_Some)
  have ib: "i \<in> set (bucket (map prop_atom ps) msk (bucket_of msk a))" using i assms(2) by (simp add: set_bucket)
  then have "find (\<lambda>j. prop_atom (ps ! j) = a) (bucket (map prop_atom ps) msk (bucket_of msk a)) \<noteq> None"
    using i by (auto simp: find_None_iff)
  then obtain j where j: "find (\<lambda>j. prop_atom (ps ! j) = a) (bucket (map prop_atom ps) msk (bucket_of msk a)) = Some j" by blast
  then have "j \<in> set (bucket (map prop_atom ps) msk (bucket_of msk a))" "prop_atom (ps ! j) = a" by (auto simp: find_Some_iff)
  then have "j = i" using live_unique [OF assms(1), of j i] i assms(2) by (simp add: set_bucket)
  then show ?thesis using j Some by simp
qed

lemma find_own_property1_ok:
  assumes "table_ok sh" "a \<noteq> 0"
  shows "find_own_property1 sh a = Some (index_of (prps sh) a)"
proof -
  have b: "bucket_of (prop_hash_mask sh) a < length (hash_table sh)" using assms(1) by (auto simp: table_ok_def intro: bucket_of_less)
  then have "chained (prps sh) (hash_table sh ! bucket_of (prop_hash_mask sh) a) (bucket (map prop_atom (prps sh)) (prop_hash_mask sh) (bucket_of (prop_hash_mask sh) a))"
    using assms(1) by (simp add: table_ok_def chains_ok_def)
  then show ?thesis using b find_bucket [of "prps sh" a] assms
    by (simp add: find_own_property1_def rd_def find_loop_chained table_ok_def)
qed

section \<open>A new property\<close>

lemma hash_link_Some:
  assumes "mask_ok msk (length tab)" "\<forall>h < length tab. tab ! h < 2 ^ 26"
  shows "hash_link msk i pr tab = Some (pr\<lparr>hash_next := tab ! bucket_of msk (prop_atom pr)\<rparr>, tab[bucket_of msk (prop_atom pr) := Suc i])"
  using bucket_of_less [OF assms(1), of "prop_atom pr"] assms(2) by (simp add: hash_link_def rd_def wr_def)

lemma chained_bound: "chained ps x js \<Longrightarrow> x \<le> length ps"
  by (cases js) auto

lemma chains_bound:
  assumes "chains_ok msk ps tab" "length ps < 2 ^ 26"
  shows "\<forall>h < length tab. tab ! h < 2 ^ 26"
  using assms chained_bound unfolding chains_ok_def by (metis le_less_trans)

text \<open>Linking in a live entry at the end keeps the chains.\<close>

lemma chains_link:
  assumes c: "chains_ok msk ps tab" and m: "mask_ok msk (length tab)" and a: "prop_atom pr \<noteq> 0"
    and pr': "pr' = pr\<lparr>hash_next := tab ! bucket_of msk (prop_atom pr)\<rparr>"
  shows "chains_ok msk (ps @ [pr']) (tab[bucket_of msk (prop_atom pr) := Suc (length ps)])"
  unfolding chains_ok_def
proof (intro allI impI)
  let ?h = "bucket_of msk (prop_atom pr)"
  fix h assume "h < length (tab[?h := Suc (length ps)])"
  then have h: "h < length tab" by simp
  have c': "chained (ps @ [pr']) (tab ! g) (bucket (map prop_atom ps) msk g)" if "g < length tab" for g
    using c that by (auto simp: chains_ok_def intro: chained_append)
  have e: "prop_atom pr' = prop_atom pr" "hash_next pr' = tab ! ?h" by (simp_all add: pr')
  show "chained (ps @ [pr']) (tab[?h := Suc (length ps)] ! h) (bucket (map prop_atom (ps @ [pr'])) msk h)"
  proof (cases "h = ?h")
    case True
    then show ?thesis using c' [OF h] h a by (simp add: bucket_Cons e)
  next
    case False
    then show ?thesis using c' [OF h] by (simp add: bucket_Cons e)
  qed
qed

lemma chains_skip:
  assumes "chains_ok msk ps tab" "prop_atom pr = 0"
  shows "chains_ok msk (ps @ [pr]) tab"
  using assms by (auto simp: chains_ok_def bucket_Cons intro: chained_append)

lemma new_property_ok:
  assumes t: "table_ok sh" and a: "a \<noteq> 0" "a \<notin> prop_atom ` set (prps sh)" and s: "prop_count sh < prop_size sh" "prop_count sh + 1 < 2 ^ 26" "fl < 2 ^ 6"
  shows "\<exists>nx tab. new_property a fl sh = Some (sh\<lparr>hash_table := tab, prps := prps sh @ [\<lparr>hash_next = nx, flags = fl, prop_atom = a\<rparr>]\<rparr>)
    \<and> length tab = length (hash_table sh)
    \<and> table_ok (sh\<lparr>hash_table := tab, prps := prps sh @ [\<lparr>hash_next = nx, flags = fl, prop_atom = a\<rparr>]\<rparr>)"
proof -
  have m: "mask_ok (prop_hash_mask sh) (length (hash_table sh))" and c: "chains_ok (prop_hash_mask sh) (prps sh) (hash_table sh)"
    using t by (simp_all add: table_ok_def)
  have b: "\<forall>h < length (hash_table sh). hash_table sh ! h < 2 ^ 26" using chains_bound [OF c] s by simp
  let ?b = "bucket_of (prop_hash_mask sh) a"
  let ?pr = "\<lparr>hash_next = hash_table sh ! ?b, flags = fl, prop_atom = a\<rparr>"
  let ?sh = "sh\<lparr>hash_table := (hash_table sh)[?b := Suc (prop_count sh)], prps := prps sh @ [?pr]\<rparr>"
  have "new_property a fl sh = Some ?sh" using hash_link_Some [OF m b] s by (simp add: new_property_def)
  moreover have "chains_ok (prop_hash_mask sh) (prps sh @ [?pr]) ((hash_table sh)[?b := Suc (prop_count sh)])"
    using chains_link [OF c m, of "\<lparr>hash_next = 0, flags = fl, prop_atom = a\<rparr>" ?pr] a by simp
  then have "table_ok ?sh" using t a s by (auto simp: table_ok_def)
  ultimately show ?thesis by (intro exI [of _ "hash_table sh ! ?b"] exI [of _ "(hash_table sh)[?b := Suc (prop_count sh)]"]) simp
qed

section \<open>A larger or a compacted table\<close>

lemma rehash_loop_ok:
  assumes "chains_ok msk ds tab" "mask_ok msk (length tab)" "length ds + length prs < 2 ^ 26"
  shows "\<exists>ps tab'. rehash_loop msk (length ds) prs tab = Some (ps, tab') \<and> length tab' = length tab \<and> chains_ok msk (ds @ ps) tab'
    \<and> map prop_atom ps = map prop_atom prs \<and> map flags ps = map flags prs"
  using assms
proof (induction prs arbitrary: ds tab)
  case Nil
  then show ?case by simp
next
  case (Cons pr prs)
  show ?case
  proof (cases "prop_atom pr = 0")
    case True
    have "chains_ok msk (ds @ [pr]) tab" using Cons.prems(1) True by (rule chains_skip)
    from Cons.IH [OF this Cons.prems(2)] Cons.prems(3) obtain ps tab' where
      "rehash_loop msk (length (ds @ [pr])) prs tab = Some (ps, tab')" "length tab' = length tab" "chains_ok msk ((ds @ [pr]) @ ps) tab'"
      "map prop_atom ps = map prop_atom prs" "map flags ps = map flags prs" by auto
    then show ?thesis using True by simp
  next
    case False
    let ?b = "bucket_of msk (prop_atom pr)"
    define pr1 where "pr1 = pr\<lparr>hash_next := tab ! ?b\<rparr>"
    have b: "\<forall>h < length tab. tab ! h < 2 ^ 26" using chains_bound [OF Cons.prems(1)] Cons.prems(3) by simp
    have l: "hash_link msk (length ds) pr tab = Some (pr1, tab[?b := Suc (length ds)])"
      using hash_link_Some [OF Cons.prems(2) b] by (simp add: pr1_def)
    have "chains_ok msk (ds @ [pr1]) (tab[?b := Suc (length ds)])" by (rule chains_link [OF Cons.prems(1,2) False pr1_def])
    from Cons.IH [OF this] Cons.prems(2,3) obtain ps tab' where
      "rehash_loop msk (length (ds @ [pr1])) prs (tab[?b := Suc (length ds)]) = Some (ps, tab')" "length tab' = length tab"
      "chains_ok msk ((ds @ [pr1]) @ ps) tab'" "map prop_atom ps = map prop_atom prs" "map flags ps = map flags prs" by auto
    then show ?thesis using False l by (simp add: pr1_def)
  qed
qed

text \<open>The live properties with the values an object has for them.\<close>

fun entries :: "JSShapeProperty list \<Rightarrow> 'v list \<Rightarrow> (atom \<times> nat \<times> 'v) list" where
  "entries (pr # ps) (v # vs) = (if prop_atom pr \<noteq> 0 then (prop_atom pr, flags pr, v) # entries ps vs else entries ps vs)"
| "entries _ _ = []"

lemma entries_Nil [simp]: "entries [] vs = []" "entries ps [] = []"
  by simp (cases ps; simp)

lemma compact_loop_ok:
  assumes "chains_ok msk ds tab" "mask_ok msk (length tab)" "length ds + length prs < 2 ^ 26" "i + length prs \<le> length vs" "length ds \<le> i"
  shows "\<exists>ps tab' vs'. compact_loop msk i (length ds) prs tab vs = Some (ps, tab', vs') \<and> length tab' = length tab \<and> chains_ok msk (ds @ ps) tab'
    \<and> map prop_atom ps = filter (\<lambda>a. a \<noteq> 0) (map prop_atom prs) \<and> length vs' = length vs \<and> take (length ds) vs' = take (length ds) vs
    \<and> entries ps (drop (length ds) vs') = entries prs (drop i vs)"
  using assms
proof (induction prs arbitrary: i ds tab vs)
  case Nil
  then show ?case by simp
next
  case (Cons pr prs)
  have i: "i < length vs" using Cons.prems(4) by simp
  have d: "drop i vs = vs ! i # drop (Suc i) vs" using i by (simp add: Cons_nth_drop_Suc)
  show ?case
  proof (cases "prop_atom pr = 0")
    case True
    obtain ps tab' vs' where r: "compact_loop msk (Suc i) (length ds) prs tab vs = Some (ps, tab', vs')" "length tab' = length tab"
      "chains_ok msk (ds @ ps) tab'" "map prop_atom ps = filter (\<lambda>a. a \<noteq> 0) (map prop_atom prs)" "length vs' = length vs"
      "take (length ds) vs' = take (length ds) vs" "entries ps (drop (length ds) vs') = entries prs (drop (Suc i) vs)"
      using Cons.IH [of ds tab "Suc i" vs] Cons.prems by auto
    then show ?thesis using True by (simp add: d)
  next
    case False
    let ?b = "bucket_of msk (prop_atom pr)"
    define pr1 where "pr1 = pr\<lparr>hash_next := tab ! ?b\<rparr>"
    define vs1 where "vs1 = vs[length ds := vs ! i]"
    have b: "\<forall>h < length tab. tab ! h < 2 ^ 26" using chains_bound [OF Cons.prems(1)] Cons.prems(3) by simp
    have l: "hash_link msk (length ds) pr tab = Some (pr1, tab[?b := Suc (length ds)])"
      using hash_link_Some [OF Cons.prems(2) b] by (simp add: pr1_def)
    have c: "chains_ok msk (ds @ [pr1]) (tab[?b := Suc (length ds)])" by (rule chains_link [OF Cons.prems(1,2) False pr1_def])
    have "\<exists>ps tab' vs'. compact_loop msk (Suc i) (length (ds @ [pr1])) prs (tab[?b := Suc (length ds)]) vs1 = Some (ps, tab', vs')
      \<and> length tab' = length (tab[?b := Suc (length ds)]) \<and> chains_ok msk ((ds @ [pr1]) @ ps) tab'
      \<and> map prop_atom ps = filter (\<lambda>a. a \<noteq> 0) (map prop_atom prs) \<and> length vs' = length vs1
      \<and> take (length (ds @ [pr1])) vs' = take (length (ds @ [pr1])) vs1 \<and> entries ps (drop (length (ds @ [pr1])) vs') = entries prs (drop (Suc i) vs1)"
      by (rule Cons.IH [OF c]) (use Cons.prems in \<open>simp_all add: vs1_def\<close>)
    then obtain ps tab' vs' where r: "compact_loop msk (Suc i) (Suc (length ds)) prs (tab[?b := Suc (length ds)]) vs1 = Some (ps, tab', vs')"
      "length tab' = length tab" "chains_ok msk (ds @ pr1 # ps) tab'" "map prop_atom ps = filter (\<lambda>a. a \<noteq> 0) (map prop_atom prs)"
      "length vs' = length vs" "take (Suc (length ds)) vs' = take (Suc (length ds)) vs1"
      "entries ps (drop (Suc (length ds)) vs') = entries prs (drop (Suc i) vs1)"
      by (auto simp: vs1_def)
    have dl: "length ds < length vs" using i Cons.prems(5) by simp
    have "vs' ! length ds = vs1 ! length ds" using r(6) by (metis lessI nth_take)
    then have "vs' ! length ds = vs ! i" using dl by (simp add: vs1_def)
    moreover have "drop (length ds) vs' = vs' ! length ds # drop (Suc (length ds)) vs'" using dl r(5) by (simp add: Cons_nth_drop_Suc)
    moreover have "drop (Suc i) vs1 = drop (Suc i) vs" using Cons.prems(5) by (simp add: vs1_def drop_update_cancel)
    ultimately have "entries (pr1 # ps) (drop (length ds) vs') = entries (pr # prs) (drop i vs)" using r(7) by (simp add: d pr1_def)
    moreover have "take (length ds) vs' = take (length ds) vs"
      using arg_cong [OF r(6), of "take (length ds)"] by (simp add: vs1_def take_update_cancel)
    moreover have "compact_loop msk i (length ds) (pr # prs) tab vs = Some (pr1 # ps, tab', vs')"
      using False l i dl r(1) by (simp add: rd_def wr_def vs1_def)
    ultimately show ?thesis using r(2,3,4,5) False by (simp add: pr1_def)
  qed
qed

section \<open>A deleted property\<close>

lemma bucket_clear:
  assumes "i < length ats"
  shows "bucket (ats[i := 0]) msk h = filter (\<lambda>j. j \<noteq> i) (bucket ats msk h)"
proof -
  have "filter (\<lambda>k. ats[i := 0] ! k \<noteq> 0 \<and> bucket_of msk (ats[i := 0] ! k) = h) [0..<length ats]
      = filter (\<lambda>j. j \<noteq> i) (filter (\<lambda>k. ats ! k \<noteq> 0 \<and> bucket_of msk (ats ! k) = h) [0..<length ats])"
    unfolding filter_filter by (rule filter_cong) (use assms in \<open>auto simp: nth_list_update\<close>)
  then show ?thesis by (simp add: bucket_def rev_filter)
qed

lemma chained_remove:
  assumes "chained ps x (us @ i # vs)" "us \<noteq> []" "distinct (us @ i # vs)" "length ps \<le> length ps'"
    and "\<And>j. j < length ps \<Longrightarrow> j \<noteq> last us \<Longrightarrow> hash_next (ps' ! j) = hash_next (ps ! j)" "hash_next (ps' ! last us) = hash_next (ps ! i)"
  shows "chained ps' x (us @ vs)"
  using assms
proof (induction us arbitrary: x)
  case (Cons u us)
  show ?case
  proof (cases us)
    case Nil
    then have "chained ps (hash_next (ps ! i)) vs" using Cons.prems(1) by simp
    then have "chained ps' (hash_next (ps ! i)) vs"
      by (rule chained_cong [OF _ Cons.prems(4)], intro Cons.prems(5)) (use chained_less [of ps _ vs] Cons.prems(1,3) Nil in auto)
    then show ?thesis using Cons.prems Nil by auto
  next
    case (Cons w ws)
    have ne: "u \<noteq> last us" using Cons.prems(3) Cons by auto
    have "chained ps' (hash_next (ps ! u)) (us @ vs)"
      by (rule Cons.IH) (use Cons.prems Cons in auto)
    then show ?thesis using Cons.prems ne Cons by auto
  qed
qed simp

lemma find_loop_prev_ok:
  assumes "table_ok sh" "a \<noteq> 0"
  defines "js \<equiv> bucket (map prop_atom (prps sh)) (prop_hash_mask sh) (bucket_of (prop_hash_mask sh) a)"
  shows "\<exists>h. rd (hash_table sh) (bucket_of (prop_hash_mask sh) a) = Some h
    \<and> find_loop_prev (prps sh) a h None = Some (case index_of (prps sh) a of None \<Rightarrow> None
        | Some i \<Rightarrow> Some (i, if hd js = i then None else Some (last (takeWhile (\<lambda>j. j \<noteq> i) js))))"
proof -
  have b: "bucket_of (prop_hash_mask sh) a < length (hash_table sh)" using assms(1) by (auto simp: table_ok_def intro: bucket_of_less)
  then have "chained (prps sh) (hash_table sh ! bucket_of (prop_hash_mask sh) a) js"
    using assms(1) by (simp add: table_ok_def chains_ok_def js_def)
  then show ?thesis using b find_bucket [of "prps sh" a] assms(1,2) unfolding js_def
    by (simp add: rd_def find_loop_prev_chained table_ok_def)
qed

lemma filter_cleared:
  "i < length xs \<Longrightarrow> xs ! i \<noteq> (0 :: 'a :: zero) \<Longrightarrow> distinct (filter (\<lambda>a. a \<noteq> 0) xs) \<Longrightarrow>
     distinct (filter (\<lambda>a. a \<noteq> 0) (xs[i := 0])) \<and> count_list (xs[i := 0]) 0 = Suc (count_list xs 0)"
proof (induction xs arbitrary: i)
  case (Cons x xs)
  have "set (xs[j := 0]) \<subseteq> insert 0 (set xs)" for j by (rule set_update_subset_insert)
  then show ?case using Cons by (cases i) (auto split: if_splits)
qed simp

text \<open>The two writes of \<open>delete_property\<close> to a table.\<close>

lemma delete_entry_ok:
  assumes t: "table_ok sh" and a: "a \<noteq> 0" and i: "index_of (prps sh) a = Some i"
  defines "h1 \<equiv> bucket_of (prop_hash_mask sh) a"
  defines "js \<equiv> bucket (map prop_atom (prps sh)) (prop_hash_mask sh) h1"
  defines "l \<equiv> if hd js = i then None else Some (last (takeWhile (\<lambda>j. j \<noteq> i) js))"
  shows "\<exists>tab ps. do { sh1 \<leftarrow> unlink_property i l h1 sh; clear_property i (sh1\<lparr>deleted_prop_count := Suc (deleted_prop_count sh1)\<rparr>) }
      = Some (sh\<lparr>deleted_prop_count := Suc (deleted_prop_count sh), hash_table := tab, prps := ps\<rparr>)
    \<and> table_ok (sh\<lparr>deleted_prop_count := Suc (deleted_prop_count sh), hash_table := tab, prps := ps\<rparr>)
    \<and> map prop_atom ps = (map prop_atom (prps sh))[i := 0] \<and> (\<forall>j. j \<noteq> i \<longrightarrow> map flags ps ! j = map flags (prps sh) ! j)"
proof -
  let ?ps = "prps sh" and ?tab = "hash_table sh" and ?m = "prop_hash_mask sh"
  have il: "i < length ?ps" "prop_atom (?ps ! i) = a" using index_of_Some [OF i] by simp_all
  have c: "\<And>h. h < length ?tab \<Longrightarrow> chained ?ps (?tab ! h) (bucket (map prop_atom ?ps) ?m h)" using t by (simp add: table_ok_def chains_ok_def)
  have hl: "h1 < length ?tab" using t by (auto simp: table_ok_def h1_def intro: bucket_of_less)
  have ij: "i \<in> set js" using il a by (simp add: js_def h1_def set_bucket)
  obtain us vs where sp: "js = us @ i # vs" and iu: "i \<notin> set us" using split_list_first [OF ij] by blast
  have us_def: "us = takeWhile (\<lambda>j. j \<noteq> i) js" unfolding sp using iu by (subst takeWhile_append2) auto
  have dj: "distinct (us @ i # vs)" unfolding sp [symmetric] js_def by (rule distinct_bucket)
  have ub: "us = [] \<longleftrightarrow> hd js = i" using sp dj by (cases us) auto
  have mem: "j < length ?ps \<and> bucket_of ?m (prop_atom (?ps ! j)) = h1 \<and> prop_atom (?ps ! j) \<noteq> 0" if "j \<in> set js" for j
    using that by (auto simp: js_def set_bucket)
  define ps0 tab where "ps0 = (if us = [] then ?ps else ?ps[last us := (?ps ! last us)\<lparr>hash_next := hash_next (?ps ! i)\<rparr>])"
    and "tab = (if us = [] then ?tab[h1 := hash_next (?ps ! i)] else ?tab)"
  define ps where "ps = ps0[i := (ps0 ! i)\<lparr>flags := 0, prop_atom := 0\<rparr>]"
  have lu: "us \<noteq> [] \<Longrightarrow> last us \<in> set js" "us \<noteq> [] \<Longrightarrow> last us \<noteq> i" using sp dj by auto
  have len: "length ps0 = length ?ps" "length ps = length ?ps" "length tab = length ?tab" by (simp_all add: ps0_def ps_def tab_def)
  have hn: "hash_next (ps ! j) = (if us \<noteq> [] \<and> j = last us then hash_next (?ps ! i) else hash_next (?ps ! j))" if "j < length ?ps" for j
    using that lu mem il(1) by (auto simp: ps_def ps0_def nth_list_update)
  have "map prop_atom ps0 = map prop_atom ?ps" "map flags ps0 = map flags ?ps"
    by (simp_all add: ps0_def map_update list_update_id)
      (metis (no_types) length_map list_update_beyond list_update_id not_less nth_map)+
  then have at: "map prop_atom ps = (map prop_atom ?ps)[i := 0]" and fl: "\<forall>j. j \<noteq> i \<longrightarrow> map flags ps ! j = map flags ?ps ! j"
    by (simp_all add: ps_def map_update)
  have "chained ps (tab ! h) (bucket (map prop_atom ps) ?m h)" if h: "h < length ?tab" for h
  proof -
    have bk: "bucket (map prop_atom ps) ?m h = filter (\<lambda>j. j \<noteq> i) (bucket (map prop_atom ?ps) ?m h)"
      unfolding at using il by (intro bucket_clear) simp
    show ?thesis
    proof (cases "h = h1")
      case True
      have "filter (\<lambda>j. j \<noteq> i) us = us" "filter (\<lambda>j. j \<noteq> i) vs = vs" using dj by (auto intro!: filter_True)
      then have "filter (\<lambda>j. j \<noteq> i) js = us @ vs" unfolding sp by simp
      then have b1: "bucket (map prop_atom ps) ?m h = us @ vs" using bk True by (simp add: js_def)
      have ch: "chained ?ps (?tab ! h1) (us @ i # vs)" using c [OF hl] by (simp add: js_def [symmetric] sp)
      show ?thesis
      proof (cases "us = []")
        case e: True
        then have "chained ?ps (hash_next (?ps ! i)) vs" using ch by simp
        moreover have "hash_next (ps ! j) = hash_next (?ps ! j)" if "j \<in> set vs" for j using hn [of j] mem [of j] sp that e by simp
        ultimately have "chained ps (hash_next (?ps ! i)) vs" using chained_cong [of ?ps _ vs ps] len by simp
        then show ?thesis using b1 True e hl by (simp add: tab_def)
      next
        case ne: False
        have "chained ps (?tab ! h1) (us @ vs)"
        proof (rule chained_remove [OF _ ne dj])
          let ?q = "?ps[last us := (?ps ! last us)\<lparr>hash_next := hash_next (?ps ! i)\<rparr>]"
          show "chained ?ps (?tab ! h1) (us @ i # vs)" by (rule ch)
          show "hash_next (ps ! last us) = hash_next (?ps ! i)" using hn [of "last us"] mem lu ne by simp
          show "hash_next (ps ! j) = hash_next (?ps ! j)" if "j < length ?ps" "j \<noteq> last us" for j using hn [of j] that by simp
        qed (simp add: len)
        then show ?thesis using b1 True ne by (simp add: tab_def)
      qed
    next
      case False
      have nm: "i \<notin> set (bucket (map prop_atom ?ps) ?m h)" using False il by (auto simp: set_bucket h1_def)
      then have b2: "bucket (map prop_atom ps) ?m h = bucket (map prop_atom ?ps) ?m h" 
        unfolding bk using nm by (intro filter_True) auto
      have "chained ps (?tab ! h) (bucket (map prop_atom ?ps) ?m h)"
      proof (rule chained_cong [OF c [OF h]])
        fix j assume j: "j \<in> set (bucket (map prop_atom ?ps) ?m h)"
        then have "j < length ?ps" "bucket_of ?m (prop_atom (?ps ! j)) = h" by (auto simp: set_bucket)
        moreover from this have "\<not> (us \<noteq> [] \<and> j = last us)" using mem [of "last us"] lu False by auto
        ultimately show "hash_next (ps ! j) = hash_next (?ps ! j)" using hn [of j] by (cases "us = []") auto
      qed (simp add: len)
      then show ?thesis using b2 False by (simp add: tab_def nth_list_update)
    qed
  qed
  then have ck: "chains_ok ?m ps tab" by (simp add: chains_ok_def len)
  let ?sh = "sh\<lparr>deleted_prop_count := Suc (deleted_prop_count sh), hash_table := tab, prps := ps\<rparr>"
  have "table_ok ?sh"
    using t ck len filter_cleared [of i "map prop_atom ?ps"] il a by (simp add: table_ok_def at)
  moreover have "do { sh1 \<leftarrow> unlink_property i l h1 sh; clear_property i (sh1\<lparr>deleted_prop_count := Suc (deleted_prop_count sh1)\<rparr>) } = Some ?sh"
  proof (cases "us = []")
    case True
    then have "l = None" using ub by (simp add: l_def)
    then show ?thesis using True il hl by (simp add: unlink_property_def clear_property_def rd_def wr_def ps_def ps0_def tab_def)
  next
    case False
    then have l: "l = Some (last us)" using ub by (simp add: l_def us_def)
    have "last us < length ?ps" using mem lu False by blast
    then show ?thesis using False l il by (simp add: unlink_property_def clear_property_def rd_def wr_def ps_def ps0_def tab_def)
  qed
  ultimately show ?thesis using at fl by (intro exI [of _ tab] exI [of _ ps]) simp
qed

end
