(* ===== verification/Shapes.thy ===== *)
theory Shapes
  imports ShapeTable GcHeap
begin

text \<open>
  Shapes shared between objects (\<open>quickjs/quickjs.c\<close>): the hash table of shapes of the runtime,
  copy on write, and the two operations that change the properties of an object. Every answer
  of the allocator is an argument; a shape that was handed back is no longer in \<open>shapes\<close>, and
  using it is None, as is a failed assertion. The list of all blocks is part of \<open>GcHeap\<close>; here the
  references that shapes hold are counted in \<open>atom_rc\<close> and \<open>proto_rc\<close>, and the values that
  deleted properties give up are collected in \<open>released\<close>.
\<close>

unbundle bit_operations_syntax

section \<open>State\<close>

record shape_obj =
  obj_shape :: addr
  obj_props :: "js_property option list"
  is_std_array_prototype :: bool
  has_immutable_prototype :: bool
  is_global_object :: bool

text \<open>A slot of \<open>p->prop\<close> that was not written yet is None.\<close>

record shape_rt =
  shapes :: "addr \<Rightarrow> JSShape option"
  shape_rc :: "addr \<Rightarrow> int"
  shape_hash_bits :: nat
  shape_hash_count :: int
  shape_tab :: "addr list"
  objs :: "addr \<Rightarrow> shape_obj"
  atom_rc :: "atom \<Rightarrow> int"
  proto_rc :: "addr \<Rightarrow> int"
  context_protos :: "(addr option \<times> addr option) list"
  released :: "js_property list"

abbreviation put_shape :: "addr \<Rightarrow> JSShape \<Rightarrow> shape_rt \<Rightarrow> shape_rt" where
  "put_shape a sh rt \<equiv> rt\<lparr>shapes := (shapes rt)(a \<mapsto> sh)\<rparr>"

abbreviation put_obj :: "addr \<Rightarrow> shape_obj \<Rightarrow> shape_rt \<Rightarrow> shape_rt" where
  "put_obj p ob rt \<equiv> rt\<lparr>objs := (objs rt)(p := ob)\<rparr>"

section \<open>Atoms\<close>

definition JS_ATOM_END :: int where "JS_ATOM_END = 243"

definition JS_AtomIsConst :: "atom \<Rightarrow> bool" where "JS_AtomIsConst a \<longleftrightarrow> sint a < JS_ATOM_END"
definition JS_AtomIsTaggedInt :: "atom \<Rightarrow> bool" where "JS_AtomIsTaggedInt a \<longleftrightarrow> a AND 0x80000000 \<noteq> 0"

definition JS_DupAtom :: "atom \<Rightarrow> shape_rt \<Rightarrow> shape_rt" where
  "JS_DupAtom a rt = (if \<not> JS_AtomIsConst a then rt\<lparr>atom_rc := (atom_rc rt)(a := atom_rc rt a + 1)\<rparr> else rt)"

definition JS_FreeAtom :: "atom \<Rightarrow> shape_rt \<Rightarrow> shape_rt" where
  "JS_FreeAtom a rt = (if \<not> JS_AtomIsConst a then rt\<lparr>atom_rc := (atom_rc rt)(a := atom_rc rt a - 1)\<rparr> else rt)"

definition dup_proto :: "addr \<Rightarrow> shape_rt \<Rightarrow> shape_rt" where
  "dup_proto q rt = (if q \<noteq> 0 then rt\<lparr>proto_rc := (proto_rc rt)(q := proto_rc rt q + 1)\<rparr> else rt)"

definition free_proto :: "addr \<Rightarrow> shape_rt \<Rightarrow> shape_rt" where
  "free_proto q rt = (if q \<noteq> 0 then rt\<lparr>proto_rc := (proto_rc rt)(q := proto_rc rt q - 1)\<rparr> else rt)"

section \<open>The hash table of shapes\<close>

definition shape_hash :: "u32 \<Rightarrow> u32 \<Rightarrow> u32" where
  "shape_hash h v = (h + v) * 0x9e370001"

definition get_shape_hash :: "u32 \<Rightarrow> nat \<Rightarrow> nat" where
  "get_shape_hash h hash_bits = unat (drop_bit (32 - hash_bits) h)"

definition shape_initial_hash :: "addr \<Rightarrow> u32" where
  "shape_initial_hash q = shape_hash (shape_hash 1 (word_of_nat q)) (word_of_nat (q div 2 ^ 32))"

definition js_shape_hash_link :: "addr \<Rightarrow> shape_rt \<Rightarrow> shape_rt option" where
  "js_shape_hash_link a rt =
     do {
       sh \<leftarrow> shapes rt a;
       let h = get_shape_hash (hash sh) (shape_hash_bits rt);
       x \<leftarrow> rd (shape_tab rt) h;
       tab \<leftarrow> wr (shape_tab rt) h a;
       Some ((put_shape a (sh\<lparr>shape_hash_next := x\<rparr>) rt)\<lparr>shape_tab := tab, shape_hash_count := shape_hash_count rt + 1\<rparr>)
     }"

text \<open>The walk along the chain: \<open>b\<close> is the shape whose link is looked at, \<open>nxt\<close> what comes after \<open>a\<close>.\<close>

partial_function (option) unlink_loop :: "addr \<Rightarrow> addr \<Rightarrow> addr \<Rightarrow> (addr \<Rightarrow> JSShape option) \<Rightarrow> (addr \<Rightarrow> JSShape option) option" where
  "unlink_loop a nxt b shs =
     do {
       sh \<leftarrow> shs b;
       if shape_hash_next sh = a then Some (shs(b \<mapsto> sh\<lparr>shape_hash_next := nxt\<rparr>))
       else unlink_loop a nxt (shape_hash_next sh) shs
     }"

definition js_shape_hash_unlink :: "addr \<Rightarrow> shape_rt \<Rightarrow> shape_rt option" where
  "js_shape_hash_unlink a rt =
     do {
       sh \<leftarrow> shapes rt a;
       let h = get_shape_hash (hash sh) (shape_hash_bits rt);
       x \<leftarrow> rd (shape_tab rt) h;
       rt1 \<leftarrow> (if x = a then do { tab \<leftarrow> wr (shape_tab rt) h (shape_hash_next sh); Some (rt\<lparr>shape_tab := tab\<rparr>) }
              else do { shs \<leftarrow> unlink_loop a (shape_hash_next sh) x (shapes rt); Some (rt\<lparr>shapes := shs\<rparr>) });
       Some (rt1\<lparr>shape_hash_count := shape_hash_count rt1 - 1\<rparr>)
     }"

partial_function (option) rehash_chain ::
    "nat \<Rightarrow> addr \<Rightarrow> (addr \<Rightarrow> JSShape option) \<Rightarrow> addr list \<Rightarrow> ((addr \<Rightarrow> JSShape option) \<times> addr list) option" where
  "rehash_chain bits a shs tab =
     (if a = 0 then Some (shs, tab)
      else do {
        sh \<leftarrow> shs a;
        let h = get_shape_hash (hash sh) bits;
        x \<leftarrow> rd tab h;
        tab1 \<leftarrow> wr tab h a;
        rehash_chain bits (shape_hash_next sh) (shs(a \<mapsto> sh\<lparr>shape_hash_next := x\<rparr>)) tab1
      })"

fun rehash_chains ::
    "nat \<Rightarrow> addr list \<Rightarrow> (addr \<Rightarrow> JSShape option) \<Rightarrow> addr list \<Rightarrow> ((addr \<Rightarrow> JSShape option) \<times> addr list) option" where
  "rehash_chains bits [] shs tab = Some (shs, tab)"
| "rehash_chains bits (a # heads) shs tab = do { (shs1, tab1) \<leftarrow> rehash_chain bits a shs tab; rehash_chains bits heads shs1 tab1 }"

definition resize_shape_hash :: "bool \<Rightarrow> nat \<Rightarrow> shape_rt \<Rightarrow> (int \<times> shape_rt) option" where
  "resize_shape_hash ok bits rt =
     (if \<not> ok then Some (-1, rt)
      else do {
        (shs, tab) \<leftarrow> rehash_chains bits (shape_tab rt) (shapes rt) (replicate (2 ^ bits) 0);
        Some (0, rt\<lparr>shapes := shs, shape_tab := tab, shape_hash_bits := bits\<rparr>)
      })"

section \<open>Creating, copying and releasing shapes\<close>

text \<open>\<open>hash\<close> and \<open>shape_hash_next\<close> mean nothing while a shape is not hashed.\<close>

definition js_new_shape_nohash :: "addr option \<Rightarrow> addr \<Rightarrow> nat \<Rightarrow> nat \<Rightarrow> shape_rt \<Rightarrow> addr \<times> shape_rt" where
  "js_new_shape_nohash m q hash_size n rt =
     (case m of
        None \<Rightarrow> (0, rt)
      | Some a \<Rightarrow>
          (a, dup_proto q (put_shape a
             \<lparr>is_hashed = False, hash = 0, prop_hash_mask = word_of_nat (hash_size - 1), prop_size = n, deleted_prop_count = 0,
              shape_hash_next = 0, proto = q, hash_table = replicate hash_size 0, prps = []\<rparr>
             (rt\<lparr>shape_rc := (shape_rc rt)(a := 1)\<rparr>))))"

definition js_new_shape2 :: "bool \<Rightarrow> addr option \<Rightarrow> addr \<Rightarrow> nat \<Rightarrow> nat \<Rightarrow> shape_rt \<Rightarrow> (addr \<times> shape_rt) option" where
  "js_new_shape2 ok m q hash_size n rt =
     do {
       (_, rt1) \<leftarrow> (if 2 * (shape_hash_count rt + 1) > int (length (shape_tab rt)) then resize_shape_hash ok (shape_hash_bits rt + 1) rt else Some (0, rt));
       let (a, rt2) = js_new_shape_nohash m q hash_size n rt1;
       if a = 0 then Some (0, rt2)
       else do {
         sh \<leftarrow> shapes rt2 a;
         rt3 \<leftarrow> js_shape_hash_link a (put_shape a (sh\<lparr>hash := shape_initial_hash q, is_hashed := True\<rparr>) rt2);
         Some (a, rt3)
       }
     }"

definition js_new_shape :: "bool \<Rightarrow> addr option \<Rightarrow> addr \<Rightarrow> shape_rt \<Rightarrow> (addr \<times> shape_rt) option" where
  "js_new_shape ok m q = js_new_shape2 ok m q JS_PROP_INITIAL_HASH_SIZE JS_PROP_INITIAL_SIZE"

definition js_clone_shape :: "addr option \<Rightarrow> addr \<Rightarrow> shape_rt \<Rightarrow> (addr \<times> shape_rt) option" where
  "js_clone_shape m a rt =
     do {
       sh \<leftarrow> shapes rt a;
       Some (case m of
         None \<Rightarrow> (0, rt)
       | Some b \<Rightarrow>
           (b, fold JS_DupAtom (map prop_atom (prps sh))
                (dup_proto (proto sh) (put_shape b (sh\<lparr>is_hashed := False\<rparr>) (rt\<lparr>shape_rc := (shape_rc rt)(b := 1)\<rparr>)))))
     }"

definition js_dup_shape :: "addr \<Rightarrow> shape_rt \<Rightarrow> shape_rt" where
  "js_dup_shape a rt = rt\<lparr>shape_rc := (shape_rc rt)(a := shape_rc rt a + 1)\<rparr>"

definition free_shape0 :: "addr \<Rightarrow> shape_rt \<Rightarrow> shape_rt option" where
  "free_shape0 a rt =
     (if shape_rc rt a \<noteq> 0 then None
      else do {
        sh \<leftarrow> shapes rt a;
        rt1 \<leftarrow> (if is_hashed sh then js_shape_hash_unlink a rt else Some rt);
        let rt2 = fold JS_FreeAtom (map prop_atom (prps sh)) (free_proto (proto sh) rt1);
        Some (rt2\<lparr>shapes := (shapes rt2)(a := None)\<rparr>)
      })"

definition free_shape :: "addr \<Rightarrow> shape_rt \<Rightarrow> shape_rt option" where
  "free_shape a rt =
     do {
       _ \<leftarrow> shapes rt a;
       let rt1 = rt\<lparr>shape_rc := (shape_rc rt)(a := shape_rc rt a - 1)\<rparr>;
       if shape_rc rt1 a \<le> 0 then free_shape0 a rt1 else Some rt1
     }"

section \<open>Searching the hash table\<close>

partial_function (option) find_shape :: "(JSShape \<Rightarrow> bool) \<Rightarrow> addr \<Rightarrow> (addr \<Rightarrow> JSShape option) \<Rightarrow> addr option" where
  "find_shape f a shs =
     (if a = 0 then Some 0 else do { sh \<leftarrow> shs a; if f sh then Some a else find_shape f (shape_hash_next sh) shs })"

definition find_hashed_shape_proto :: "addr \<Rightarrow> shape_rt \<Rightarrow> addr option" where
  "find_hashed_shape_proto q rt =
     (let h = shape_initial_hash q in
      do {
        x \<leftarrow> rd (shape_tab rt) (get_shape_hash h (shape_hash_bits rt));
        find_shape (\<lambda>sh1. hash sh1 = h \<and> proto sh1 = q \<and> prop_count sh1 = 0) x (shapes rt)
      })"

definition same_property :: "JSShapeProperty \<Rightarrow> JSShapeProperty \<Rightarrow> bool" where
  "same_property x y \<longleftrightarrow> prop_atom x = prop_atom y \<and> flags x = flags y"

definition find_hashed_shape_prop :: "addr \<Rightarrow> atom \<Rightarrow> nat \<Rightarrow> shape_rt \<Rightarrow> addr option" where
  "find_hashed_shape_prop a at fl rt =
     do {
       sh \<leftarrow> shapes rt a;
       let h = shape_hash (shape_hash (hash sh) at) (word_of_nat fl);
       x \<leftarrow> rd (shape_tab rt) (get_shape_hash h (shape_hash_bits rt));
       let n = prop_count sh;
       find_shape (\<lambda>sh1. hash sh1 = h \<and> proto sh1 = proto sh \<and> prop_count sh1 = n + 1
         \<and> list_all2 same_property (take n (prps sh1)) (prps sh) \<and> prop_atom (prps sh1 ! n) = at \<and> flags (prps sh1 ! n) = fl) x (shapes rt)
     }"

section \<open>Changing a shape that nothing shares\<close>

text \<open>\<open>js_realloc\<close> of the values of an object to \<open>n\<close> slots.\<close>

definition realloc_props :: "nat \<Rightarrow> 'v option list \<Rightarrow> 'v option list" where
  "realloc_props n vs = take n vs @ replicate (n - length vs) None"

text \<open>
  \<open>p\<close> is the object whose shape it is, if any; \<open>ok\<close> answers for its values and \<open>m\<close> for the new
  shape. The result code comes with the address of the shape afterwards.
\<close>

definition resize_properties :: "bool \<Rightarrow> addr option \<Rightarrow> addr \<Rightarrow> addr option \<Rightarrow> nat \<Rightarrow> shape_rt \<Rightarrow> (int \<times> addr \<times> shape_rt) option" where
  "resize_properties ok m a p n rt =
     do {
       sh \<leftarrow> shapes rt a;
       let new_size = max n (prop_size sh * 3 div 2);
       if p \<noteq> None \<and> \<not> ok then Some (-1, a, rt)
       else do {
         let rt1 = (case p of None \<Rightarrow> rt | Some q \<Rightarrow> put_obj q ((objs rt q)\<lparr>obj_props := realloc_props new_size (obj_props (objs rt q))\<rparr>) rt);
         hash_size \<leftarrow> grow_hash_size (unat (prop_hash_mask sh) + 1) new_size;
         case m of
           None \<Rightarrow> Some (-1, a, rt1)
         | Some b \<Rightarrow> do {
             (ps, tab) \<leftarrow> (if hash_size \<noteq> unat (prop_hash_mask sh) + 1
                then rehash_loop (word_of_nat (hash_size - 1)) 0 (prps sh) (replicate hash_size 0)
                else Some (prps sh, hash_table sh));
             let sh1 = sh\<lparr>prop_hash_mask := word_of_nat (hash_size - 1), prop_size := new_size, hash_table := tab, prps := ps\<rparr>;
             let rt2 = rt1\<lparr>shapes := (shapes rt1)(a := None, b := Some sh1), shape_rc := (shape_rc rt1)(b := 1)\<rparr>;
             Some (0, b, case p of None \<Rightarrow> rt2 | Some q \<Rightarrow> put_obj q ((objs rt2 q)\<lparr>obj_shape := b\<rparr>) rt2)
           }
       }
     }"

definition compact_properties :: "bool \<Rightarrow> addr option \<Rightarrow> addr \<Rightarrow> shape_rt \<Rightarrow> (int \<times> shape_rt) option" where
  "compact_properties ok m p rt =
     do {
       let a = obj_shape (objs rt p);
       sh \<leftarrow> shapes rt a;
       let new_size = max JS_PROP_INITIAL_SIZE (prop_count sh - deleted_prop_count sh);
       if is_hashed sh \<or> prop_size sh < new_size then None
       else do {
         hash_size \<leftarrow> shrink_hash_size (unat (prop_hash_mask sh) + 1) new_size;
         case m of
           None \<Rightarrow> Some (-1, rt)
         | Some b \<Rightarrow> do {
             (ps, tab, vs) \<leftarrow> compact_loop (word_of_nat (hash_size - 1)) 0 0 (prps sh) (replicate hash_size 0) (obj_props (objs rt p));
             if length ps \<noteq> prop_count sh - deleted_prop_count sh then None
             else do {
               let sh1 = sh\<lparr>prop_hash_mask := word_of_nat (hash_size - 1), prop_size := new_size, deleted_prop_count := 0, hash_table := tab, prps := ps\<rparr>;
               let ob = (objs rt p)\<lparr>obj_shape := b, obj_props := (if ok then realloc_props new_size vs else vs)\<rparr>;
               Some (0, put_obj p ob (rt\<lparr>shapes := (shapes rt)(a := None, b := Some sh1), shape_rc := (shape_rc rt)(b := 1)\<rparr>))
             }
           }
       }
     }"

definition add_shape_property ::
    "bool \<Rightarrow> addr option \<Rightarrow> addr \<Rightarrow> addr option \<Rightarrow> atom \<Rightarrow> nat \<Rightarrow> shape_rt \<Rightarrow> (int \<times> addr \<times> shape_rt) option" where
  "add_shape_property ok m a p at fl rt =
     do {
       sh \<leftarrow> shapes rt a;
       rt1 \<leftarrow> (if is_hashed sh then js_shape_hash_unlink a rt else Some rt);
       let new_shape_hash = shape_hash (shape_hash (hash sh) at) (word_of_nat fl);
       (err, b, rt2) \<leftarrow> (if prop_size sh \<le> prop_count sh then resize_properties ok m a p (prop_count sh + 1) rt1 else Some (0, a, rt1));
       if err \<noteq> 0 then do {
         rt3 \<leftarrow> (if is_hashed sh then js_shape_hash_link a rt2 else Some rt2);
         Some (-1, a, rt3)
       }
       else do {
         sh1 \<leftarrow> shapes rt2 b;
         rt3 \<leftarrow> (if is_hashed sh1 then js_shape_hash_link b (put_shape b (sh1\<lparr>hash := new_shape_hash\<rparr>) rt2) else Some rt2);
         sh2 \<leftarrow> shapes rt3 b;
         sh3 \<leftarrow> new_property at fl sh2;
         Some (0, b, JS_DupAtom at (put_shape b sh3 rt3))
       }
     }"

section \<open>The properties of an object\<close>

definition find_own_property :: "addr \<Rightarrow> atom \<Rightarrow> shape_rt \<Rightarrow> (JSShapeProperty \<times> js_property option) option option" where
  "find_own_property p at rt =
     do {
       sh \<leftarrow> shapes rt (obj_shape (objs rt p));
       i \<leftarrow> find_own_property1 sh at;
       case i of
         None \<Rightarrow> Some None
       | Some i \<Rightarrow> do { pr \<leftarrow> rd (prps sh) i; v \<leftarrow> rd (obj_props (objs rt p)) i; Some (Some (pr, v)) }
     }"

text \<open>An index property on a prototype: the fast paths of arrays are switched off.\<close>

definition reset_array_prototype :: "addr \<Rightarrow> shape_rt \<Rightarrow> shape_rt" where
  "reset_array_prototype p rt =
     (if is_std_array_prototype (objs rt p) then put_obj p ((objs rt p)\<lparr>is_std_array_prototype := False\<rparr>) rt
      else if has_immutable_prototype (objs rt p)
      then (case find (\<lambda>(ob, _). ob = Some p) (context_protos rt) of
              Some (_, Some q) \<Rightarrow> put_obj q ((objs rt q)\<lparr>is_std_array_prototype := False\<rparr>) rt
            | _ \<Rightarrow> rt)
      else rt)"

definition add_own_property :: "bool \<Rightarrow> addr option \<Rightarrow> addr \<Rightarrow> atom \<Rightarrow> nat \<Rightarrow> shape_rt \<Rightarrow> (nat option \<times> shape_rt) option" where
  "add_own_property ok m p at fl rt =
     (if shape_rc rt (obj_shape (objs rt p)) \<noteq> 1 then None
      else do {
        (err, b, rt1) \<leftarrow> add_shape_property ok m (obj_shape (objs rt p)) (Some p) at fl rt;
        if err \<noteq> 0 then Some (None, rt1)
        else do { sh \<leftarrow> shapes rt1 (obj_shape (objs rt1 p)); Some (Some (prop_count sh - 1), rt1) }
      })"

text \<open>The index of the new property, or None when memory ran out.\<close>

definition add_property ::
    "(nat \<Rightarrow> bool) \<Rightarrow> (nat \<Rightarrow> addr option) \<Rightarrow> addr \<Rightarrow> atom \<Rightarrow> nat \<Rightarrow> shape_rt \<Rightarrow> (nat option \<times> shape_rt) option" where
  "add_property ok m p at fl rt0 =
     do {
       let rt = (if JS_AtomIsTaggedInt at then reset_array_prototype p rt0 else rt0);
       let a = obj_shape (objs rt p);
       sh \<leftarrow> shapes rt a;
       if is_hashed sh then do {
         b \<leftarrow> find_hashed_shape_prop a at fl rt;
         if b \<noteq> 0 then do {
           sh1 \<leftarrow> shapes rt b;
           if prop_size sh1 \<noteq> prop_size sh \<and> \<not> ok 0 then Some (None, rt)
           else do {
             let vs = (if prop_size sh1 \<noteq> prop_size sh then realloc_props (prop_size sh1) (obj_props (objs rt p)) else obj_props (objs rt p));
             rt1 \<leftarrow> free_shape a (js_dup_shape b (put_obj p ((objs rt p)\<lparr>obj_shape := b, obj_props := vs\<rparr>) rt));
             Some (Some (prop_count sh1 - 1), rt1)
           }
         }
         else if shape_rc rt a \<noteq> 1 then do {
           (c, rt1) \<leftarrow> js_clone_shape (m 0) a rt;
           if c = 0 then Some (None, rt1)
           else do {
             sh1 \<leftarrow> shapes rt1 c;
             rt2 \<leftarrow> js_shape_hash_link c (put_shape c (sh1\<lparr>is_hashed := True\<rparr>) rt1);
             rt3 \<leftarrow> free_shape a rt2;
             add_own_property (ok 1) (m 1) p at fl (put_obj p ((objs rt3 p)\<lparr>obj_shape := c\<rparr>) rt3)
           }
         }
         else add_own_property (ok 1) (m 1) p at fl rt
       }
       else add_own_property (ok 1) (m 1) p at fl rt
     }"

definition js_shape_prepare_update :: "addr option \<Rightarrow> addr \<Rightarrow> shape_rt \<Rightarrow> (int \<times> shape_rt) option" where
  "js_shape_prepare_update m p rt =
     do {
       let a = obj_shape (objs rt p);
       sh \<leftarrow> shapes rt a;
       if is_hashed sh then
         (if shape_rc rt a \<noteq> 1 then do {
            (b, rt1) \<leftarrow> js_clone_shape m a rt;
            if b = 0 then Some (-1, rt1)
            else do { rt2 \<leftarrow> free_shape a rt1; Some (0, put_obj p ((objs rt2 p)\<lparr>obj_shape := b\<rparr>) rt2) }
          }
          else do {
            rt1 \<leftarrow> js_shape_hash_unlink a rt;
            sh1 \<leftarrow> shapes rt1 a;
            Some (0, put_shape a (sh1\<lparr>is_hashed := False\<rparr>) rt1)
          })
       else Some (0, rt)
     }"

definition js_update_property_flags :: "addr option \<Rightarrow> addr \<Rightarrow> nat \<Rightarrow> nat \<Rightarrow> shape_rt \<Rightarrow> (int \<times> shape_rt) option" where
  "js_update_property_flags m p i fl rt =
     do {
       sh \<leftarrow> shapes rt (obj_shape (objs rt p));
       pr \<leftarrow> rd (prps sh) i;
       if fl \<noteq> flags pr then do {
         (err, rt1) \<leftarrow> js_shape_prepare_update m p rt;
         if err \<noteq> 0 then Some (-1, rt1)
         else do {
           sh1 \<leftarrow> shapes rt1 (obj_shape (objs rt1 p));
           pr1 \<leftarrow> rd (prps sh1) i;
           ps \<leftarrow> wr (prps sh1) i (pr1\<lparr>flags := fl mod 2 ^ 6\<rparr>);
           Some (0, put_shape (obj_shape (objs rt1 p)) (sh1\<lparr>prps := ps\<rparr>) rt1)
         }
       }
       else Some (0, rt)
     }"

text \<open>
  \<open>other\<close> answers for an object that has no such property, 1 for plain objects; \<open>remove_global\<close> is
  \<open>remove_global_object_property\<close>, for variable references of the global object.
\<close>

definition delete_property ::
    "(addr \<Rightarrow> atom \<Rightarrow> shape_rt \<Rightarrow> (int \<times> shape_rt) option) \<Rightarrow> (addr \<Rightarrow> nat \<Rightarrow> shape_rt \<Rightarrow> (int \<times> shape_rt) option) \<Rightarrow>
     bool \<Rightarrow> (nat \<Rightarrow> addr option) \<Rightarrow> addr \<Rightarrow> atom \<Rightarrow> shape_rt \<Rightarrow> (int \<times> shape_rt) option" where
  "delete_property other remove_global ok m p at rt =
     do {
       sh \<leftarrow> shapes rt (obj_shape (objs rt p));
       let h1 = bucket_of (prop_hash_mask sh) at;
       h \<leftarrow> rd (hash_table sh) h1;
       found \<leftarrow> find_loop_prev (prps sh) at h None;
       case found of
         None \<Rightarrow> other p at rt
       | Some (i, lpr) \<Rightarrow> do {
           pr \<leftarrow> rd (prps sh) i;
           if flags pr AND JS_PROP_CONFIGURABLE = 0 then Some (0, rt)
           else do {
             (err, rt1) \<leftarrow> js_shape_prepare_update (m 0) p rt;
             if err \<noteq> 0 then Some (-1, rt1)
             else do {
               let a = obj_shape (objs rt1 p);
               sh1 \<leftarrow> shapes rt1 a;
               sh2 \<leftarrow> unlink_property i lpr h1 sh1;
               let rt2 = put_shape a (sh2\<lparr>deleted_prop_count := Suc (deleted_prop_count sh2)\<rparr>) rt1;
               (err2, rt3) \<leftarrow> (if is_global_object (objs rt2 p) \<and> flags pr div 16 mod 4 = 2 then remove_global p i rt2 else Some (0, rt2));
               if err2 \<noteq> 0 then Some (-1, rt3)
               else do {
                 slot \<leftarrow> rd (obj_props (objs rt3 p)) i;
                 v \<leftarrow> slot;
                 sh3 \<leftarrow> shapes rt3 a;
                 sh4 \<leftarrow> clear_property i sh3;
                 vs \<leftarrow> wr (obj_props (objs rt3 p)) i (Some (Prop_Value JS_Undefined));
                 let rt4 = JS_FreeAtom at (put_shape a sh4 (put_obj p ((objs rt3 p)\<lparr>obj_props := vs\<rparr>) (rt3\<lparr>released := v # released rt3\<rparr>)));
                 (_, rt5) \<leftarrow> (if 8 \<le> deleted_prop_count sh4 \<and> prop_count sh4 div 2 \<le> deleted_prop_count sh4
                    then compact_properties ok (m 1) p rt4 else Some (0, rt4));
                 Some (1, rt5)
               }
             }
           }
         }
     }"

text \<open>A new object without properties (\<open>JS_NewObjectProtoClass\<close>), on a shape of its prototype.\<close>

definition object_shape :: "bool \<Rightarrow> addr option \<Rightarrow> addr \<Rightarrow> shape_rt \<Rightarrow> (addr \<times> shape_rt) option" where
  "object_shape ok m q rt =
     do {
       a \<leftarrow> find_hashed_shape_proto q rt;
       if a \<noteq> 0 then Some (a, js_dup_shape a rt) else js_new_shape ok m q rt
     }"

text \<open>
  The object itself (\<open>JS_NewObjectFromShape\<close> for a plain object): \<open>q\<close> is the block of the object
  and \<open>ok\<close> answers for its values, one slot for each entry that the shape has room for.
\<close>

definition object_from_shape :: "addr option \<Rightarrow> bool \<Rightarrow> addr \<Rightarrow> shape_rt \<Rightarrow> (addr option \<times> shape_rt) option" where
  "object_from_shape q ok a rt =
     (case q of
        None \<Rightarrow> do { rt1 \<leftarrow> free_shape a rt; Some (None, rt1) }
      | Some p \<Rightarrow>
          if \<not> ok then do { rt1 \<leftarrow> free_shape a rt; Some (None, rt1) }
          else do {
            sh \<leftarrow> shapes rt a;
            Some (Some p, put_obj p \<lparr>obj_shape = a, obj_props = replicate (prop_size sh) None, is_std_array_prototype = False,
              has_immutable_prototype = False, is_global_object = False\<rparr> rt)
          })"

definition new_object ::
    "bool \<Rightarrow> addr option \<Rightarrow> addr option \<Rightarrow> bool \<Rightarrow> addr \<Rightarrow> shape_rt \<Rightarrow> (addr option \<times> shape_rt) option" where
  "new_object ok m q ok1 proto_obj rt =
     do {
       (a, rt1) \<leftarrow> object_shape ok m proto_obj rt;
       if a = 0 then Some (None, rt1) else object_from_shape q ok1 a rt1
     }"

end
