(* ===== verification/HashChain.thy ===== *)
theory HashChain
  imports Prelude
begin

text \<open>
  Hash tables whose buckets are chains of linked blocks, as the engine uses them for shapes and for the
  records of maps. A block is seen only through the value it is hashed by and its link (\<open>'v hmap\<close>); \<open>hf\<close> is
  the bucket of a value.
\<close>

type_synonym 'v hmap = "addr \<Rightarrow> ('v \<times> addr) option"

fun hpath :: "'v hmap \<Rightarrow> addr \<Rightarrow> addr list \<Rightarrow> bool" where
  "hpath K x [] \<longleftrightarrow> x = 0"
| "hpath K x (a # as) \<longleftrightarrow> x = a \<and> a \<noteq> 0 \<and> (\<exists>v n. K a = Some (v, n) \<and> hpath K n as)"

definition kbucket :: "('v \<Rightarrow> nat) \<Rightarrow> 'v hmap \<Rightarrow> nat \<Rightarrow> addr set" where
  "kbucket hf K h = {a. \<exists>v n. K a = Some (v, n) \<and> hf v = h}"

definition chain_table :: "('v \<Rightarrow> nat) \<Rightarrow> addr list \<Rightarrow> 'v hmap \<Rightarrow> bool" where
  "chain_table hf tab K \<longleftrightarrow> (\<forall>h < length tab. \<exists>as. hpath K (tab ! h) as \<and> distinct as \<and> set as = kbucket hf K h)"

lemma chain_tableD:
  "chain_table hf tab K \<Longrightarrow> h < length tab \<Longrightarrow> \<exists>as. hpath K (tab ! h) as \<and> distinct as \<and> set as = kbucket hf K h"
  by (simp add: chain_table_def)

lemma hpath_cong: "hpath K x as \<Longrightarrow> (\<And>a. a \<in> set as \<Longrightarrow> K' a = K a) \<Longrightarrow> hpath K' x as"
  by (induction as arbitrary: x) auto

lemma hpath_fun_upd: "a \<notin> set as \<Longrightarrow> hpath (K(a := y)) x as = hpath K x as"
  by (induction as arbitrary: x) auto

lemma hpath_nonzero: "hpath K x as \<Longrightarrow> 0 \<notin> set as"
  by (induction as arbitrary: x) auto

lemma hpath_unique: "hpath K x as \<Longrightarrow> hpath K x bs \<Longrightarrow> as = bs"
proof (induction as arbitrary: x bs)
  case Nil
  then show ?case by (cases bs) auto
next
  case (Cons a as)
  then show ?case by (cases bs) auto
qed

lemma hpath_ConsI: "K a = Some (v, n) \<Longrightarrow> a \<noteq> 0 \<Longrightarrow> hpath K n as \<Longrightarrow> hpath K a (a # as)"
  by simp

lemma hpath_remove:
  assumes "hpath K x (us @ l # a # vs)" "distinct (us @ l # a # vs)" "K a = Some (v, n)" "K l = Some (w, m)"
  shows "hpath (K(l := Some (w, n))) x (us @ l # vs)"
  using assms
proof (induction us arbitrary: x)
  case Nil
  then have "hpath K n vs" by auto
  then have "hpath (K(l := Some (w, n))) n vs" using Nil.prems(2) by (simp add: hpath_fun_upd)
  moreover have "x = l" "l \<noteq> 0" using Nil.prems(1) by simp_all
  ultimately show ?case using hpath_ConsI [of "K(l := Some (w, n))" l w n vs] by (simp only: append_Nil fun_upd_same) blast
next
  case (Cons u us)
  obtain w' m' where k: "K u = Some (w', m')" "hpath K m' (us @ l # a # vs)" using Cons.prems(1) by auto
  have "hpath (K(l := Some (w, n))) m' (us @ l # vs)" by (rule Cons.IH [OF k(2) _ Cons.prems(3,4)]) (use Cons.prems(2) in simp)
  moreover have "u \<noteq> l" using Cons.prems(2) by auto
  moreover have "x = u" "u \<noteq> 0" using Cons.prems(1) by simp_all
  ultimately show ?case using hpath_ConsI [of "K(l := Some (w, n))" u w' m' "us @ l # vs"] k(1)
    by (simp only: append_Cons fun_upd_other) blast
qed

section \<open>Linking and unlinking\<close>

lemma kbucket_upd:
  "kbucket hf (K(a := Some (v, n))) h = (if hf v = h then insert a (kbucket hf K h) else kbucket hf K h - {a})"
  by (auto simp: kbucket_def)

lemma kbucket_del: "kbucket hf (K(a := None)) h = kbucket hf K h - {a}"
  by (auto simp: kbucket_def)

lemma chain_link:
  assumes H: "chain_table hf tab (K(a := None))" and a: "a \<noteq> 0"
  shows "chain_table hf (tab[hf v := a]) (K(a := Some (v, tab ! hf v)))"
  unfolding chain_table_def
proof (intro allI impI)
  fix h assume "h < length (tab[hf v := a])"
  then have h: "h < length tab" by simp
  let ?K = "K(a := Some (v, tab ! hf v))"
  obtain as where as: "hpath (K(a := None)) (tab ! h) as" "distinct as" "set as = kbucket hf (K(a := None)) h"
    using chain_tableD [OF H h] by blast
  have na: "a \<notin> set as" using as(3) by (simp add: kbucket_del)
  have p: "hpath ?K (tab ! h) as" using as(1) na by (simp add: hpath_fun_upd)
  show "\<exists>as. hpath ?K (tab[hf v := a] ! h) as \<and> distinct as \<and> set as = kbucket hf ?K h"
  proof (cases "h = hf v")
    case True
    then show ?thesis using p as na a h by (intro exI [of _ "a # as"]) (auto simp: kbucket_upd kbucket_del)
  next
    case False
    then show ?thesis using p as by (intro exI [of _ as]) (auto simp: kbucket_upd kbucket_del)
  qed
qed

text \<open>A change of the blocks of one bucket leaves the other chains alone.\<close>

lemma other_chain:
  assumes H: "chain_table hf tab K" and h: "h < length tab" "h \<noteq> h0" and as: "set as = kbucket hf K h0"
    and K': "\<And>b. b \<notin> set as \<Longrightarrow> K' b = K b" "\<And>b. b \<in> set as \<Longrightarrow> b \<notin> kbucket hf K' h"
  shows "\<exists>bs. hpath K' (tab ! h) bs \<and> distinct bs \<and> set bs = kbucket hf K' h"
proof -
  obtain bs where bs: "hpath K (tab ! h) bs" "distinct bs" "set bs = kbucket hf K h" using chain_tableD [OF H h(1)] by blast
  have nb: "b \<notin> set as" if "b \<in> set bs" for b using that h(2) unfolding bs(3) as by (auto simp: kbucket_def)
  have "hpath K' (tab ! h) bs" by (rule hpath_cong [OF bs(1)]) (simp add: nb K')
  moreover have "kbucket hf K' h = kbucket hf K h"
  proof (rule set_eqI)
    fix b show "b \<in> kbucket hf K' h \<longleftrightarrow> b \<in> kbucket hf K h"
    proof (cases "b \<in> set as")
      case True
      then show ?thesis using K'(2) nb bs(3) by blast
    next
      case False
      then show ?thesis using K'(1) by (simp add: kbucket_def)
    qed
  qed
  ultimately show ?thesis using bs by (intro exI [of _ bs]) simp
qed

lemma chain_unlink_head:
  assumes H: "chain_table hf tab K" and a: "K a = Some (v, n)" "hf v < length tab" "tab ! hf v = a"
  shows "chain_table hf (tab[hf v := n]) (K(a := None))"
  unfolding chain_table_def
proof (intro allI impI)
  fix h assume "h < length (tab[hf v := n])"
  then have h: "h < length tab" by simp
  let ?K = "K(a := None)"
  obtain as where as: "hpath K (tab ! hf v) as" "distinct as" "set as = kbucket hf K (hf v)" using chain_tableD [OF H a(2)] by blast
  have "a \<in> set as" unfolding as(3) using a(1) by (auto simp: kbucket_def)
  then obtain vs where vs: "as = a # vs" "hpath K n vs" using as(1) a(1,3) by (cases as) auto
  show "\<exists>bs. hpath ?K (tab[hf v := n] ! h) bs \<and> distinct bs \<and> set bs = kbucket hf ?K h"
  proof (cases "h = hf v")
    case True
    have "hpath ?K n vs" using vs as(2) by (simp add: hpath_fun_upd)
    then show ?thesis using as(2,3) vs True h by (intro exI [of _ vs]) (auto simp: kbucket_del)
  next
    case False
    have "\<exists>bs. hpath ?K (tab ! h) bs \<and> distinct bs \<and> set bs = kbucket hf ?K h"
      by (rule other_chain [OF H h False as(3)]) (use as(3) False \<open>a \<in> set as\<close> in \<open>auto simp: kbucket_def\<close>)
    then show ?thesis using False by simp
  qed
qed

lemma chain_unlink_inner:
  assumes H: "chain_table hf tab K" and a: "K a = Some (v, n)" "hf v < length tab" and l: "K l = Some (w, m)"
    and as: "hpath K (tab ! hf v) (us @ l # a # vs)"
  shows "chain_table hf tab ((K(l := Some (w, n)))(a := None))"
  unfolding chain_table_def
proof (intro allI impI)
  fix h assume h: "h < length tab"
  let ?as = "us @ l # a # vs" and ?K' = "(K(l := Some (w, n)))(a := None)"
  obtain bs where "hpath K (tab ! hf v) bs" "distinct bs" "set bs = kbucket hf K (hf v)" using chain_tableD [OF H a(2)] by blast
  then have d: "distinct ?as" and s: "set ?as = kbucket hf K (hf v)" using hpath_unique [OF as] by blast+
  have "l \<in> kbucket hf K (hf v)" using s by auto
  then have w: "hf w = hf v" using l by (simp add: kbucket_def)
  have la: "l \<noteq> a" using d by auto
  show "\<exists>bs. hpath ?K' (tab ! h) bs \<and> distinct bs \<and> set bs = kbucket hf ?K' h"
  proof (cases "h = hf v")
    case True
    have "hpath (K(l := Some (w, n))) (tab ! hf v) (us @ l # vs)" by (rule hpath_remove [OF as d a(1) l])
    then have "hpath ?K' (tab ! hf v) (us @ l # vs)" using d by (subst hpath_fun_upd) auto
    moreover have "set (us @ l # vs) = kbucket hf ?K' (hf v)"
      unfolding kbucket_del kbucket_upd using w d s [symmetric] la by auto
    ultimately show ?thesis using True d by (intro exI [of _ "us @ l # vs"]) auto
  next
    case False
    show ?thesis
      by (rule other_chain [OF H h False s]) (use s False w l in \<open>auto simp: kbucket_def\<close>)
  qed
qed

lemma chain_table_cong:
  "chain_table hf tab K \<Longrightarrow> (\<And>v. hf' v = hf v) \<Longrightarrow> chain_table hf' tab K"
  by (simp add: chain_table_def kbucket_def)

lemma chain_table_empty: "chain_table hf (replicate n 0) (\<lambda>_. None)"
  by (auto simp: chain_table_def kbucket_def intro!: exI [of _ "[]"])

end
