(* ===== verification/ShapeHash.thy ===== *)
theory ShapeHash
  imports Shapes HashChain
begin

text \<open>
  The hash table of shapes: every bucket is the head of a chain that visits exactly the hashed
  shapes of that bucket, each once. Linking and unlinking a shape, searching and rehashing keep
  the chains; the proofs see a shape only through its hash value and its link.
\<close>

definition hkeys :: "(addr \<Rightarrow> JSShape option) \<Rightarrow> u32 hmap" where
  "hkeys shs a = (case shs a of None \<Rightarrow> None | Some sh \<Rightarrow> if is_hashed sh then Some (hash sh, shape_hash_next sh) else None)"

definition hbucket :: "nat \<Rightarrow> u32 hmap \<Rightarrow> nat \<Rightarrow> addr set" where
  "hbucket bits K h = {a. \<exists>v n. K a = Some (v, n) \<and> get_shape_hash v bits = h}"

definition hash_ok :: "nat \<Rightarrow> addr list \<Rightarrow> u32 hmap \<Rightarrow> bool" where
  "hash_ok bits tab K \<longleftrightarrow> 1 \<le> bits \<and> bits \<le> 32 \<and> length tab = 2 ^ bits
     \<and> (\<forall>h < length tab. \<exists>as. hpath K (tab ! h) as \<and> distinct as \<and> set as = hbucket bits K h)"

lemma get_shape_hash_less: "bits \<le> 32 \<Longrightarrow> get_shape_hash h bits < 2 ^ bits"
proof -
  assume b: "bits \<le> 32"
  have "unat (drop_bit (32 - bits) h) = drop_bit (32 - bits) (unat h)" by (rule unat_drop_bit_eq)
  then have "unat (drop_bit (32 - bits) h) = unat h div 2 ^ (32 - bits)" by (simp only: drop_bit_eq_div)
  moreover have "unat h < 2 ^ bits * 2 ^ (32 - bits)" using unsigned_less [of h] b by (simp flip: power_add)
  ultimately show ?thesis unfolding get_shape_hash_def by (simp add: less_mult_imp_div_less)
qed

lemma hash_okD:
  assumes "hash_ok bits tab K"
  shows "1 \<le> bits" "bits \<le> 32" "length tab = 2 ^ bits" "get_shape_hash v bits < length tab"
    "\<And>h. h < length tab \<Longrightarrow> \<exists>as. hpath K (tab ! h) as \<and> distinct as \<and> set as = hbucket bits K h"
  using assms get_shape_hash_less [of bits v] by (simp_all add: hash_ok_def)

lemma hbucket_kbucket: "hbucket bits K h = kbucket (\<lambda>v. get_shape_hash v bits) K h"
  by (simp add: hbucket_def kbucket_def)

lemma hash_ok_chain:
  "hash_ok bits tab K \<longleftrightarrow> 1 \<le> bits \<and> bits \<le> 32 \<and> length tab = 2 ^ bits \<and> chain_table (\<lambda>v. get_shape_hash v bits) tab K"
  by (simp add: hash_ok_def chain_table_def hbucket_kbucket)

section \<open>Linking and unlinking\<close>

lemma hash_link_ok:
  assumes "hash_ok bits tab (K(a := None))" and "a \<noteq> 0"
  shows "hash_ok bits (tab[get_shape_hash v bits := a]) (K(a := Some (v, tab ! get_shape_hash v bits)))"
  using assms chain_link [of "\<lambda>v. get_shape_hash v bits"] by (simp add: hash_ok_chain)

lemma hkeys_Some: "hkeys shs a = Some (v, n) \<longleftrightarrow> (\<exists>sh. shs a = Some sh \<and> is_hashed sh \<and> hash sh = v \<and> shape_hash_next sh = n)"
  by (auto simp: hkeys_def split: option.splits)

lemma hkeys_upd: "hkeys (shs(a \<mapsto> sh)) = (hkeys shs)(a := if is_hashed sh then Some (hash sh, shape_hash_next sh) else None)"
  by (auto simp: hkeys_def)

lemma hkeys_del: "hkeys (shs(a := None)) = (hkeys shs)(a := None)"
  by (auto simp: hkeys_def)

lemma unlink_loop_ok:
  assumes "hpath (hkeys shs) x (us @ l # a # vs)" "distinct (us @ l # a # vs)"
  shows "\<exists>sh. shs l = Some sh \<and> is_hashed sh \<and> unlink_loop a n x shs = Some (shs(l \<mapsto> sh\<lparr>shape_hash_next := n\<rparr>))"
  using assms
proof (induction us arbitrary: x)
  case Nil
  then obtain sh where sh: "shs l = Some sh" "is_hashed sh" "shape_hash_next sh = a" "x = l" by (auto simp: hkeys_Some)
  then have "unlink_loop a n x shs = Some (shs(l \<mapsto> sh\<lparr>shape_hash_next := n\<rparr>))" by (subst unlink_loop.simps) simp
  then show ?case using sh by blast
next
  case (Cons u us)
  obtain w m where k: "hkeys shs u = Some (w, m)" "hpath (hkeys shs) m (us @ l # a # vs)" and x: "x = u" using Cons.prems(1) by auto
  obtain sh where sh: "shs u = Some sh" "shape_hash_next sh = m" using k(1) by (auto simp: hkeys_Some)
  have "m \<noteq> a" using k(2) Cons.prems(2) by (cases us) auto
  then have "unlink_loop a n x shs = unlink_loop a n m shs" using sh x by (subst unlink_loop.simps) simp
  then show ?case using Cons.IH [OF k(2)] Cons.prems(2) by simp
qed

text \<open>The shapes up to the links of the hash table.\<close>

definition unlinked :: "(addr \<Rightarrow> JSShape option) \<Rightarrow> addr \<Rightarrow> JSShape option" where
  "unlinked shs a = map_option (shape_hash_next_update (\<lambda>_. 0)) (shs a)"

lemma unlinked_upd [simp]: "shs a = Some sh \<Longrightarrow> unlinked (shs(a \<mapsto> sh\<lparr>shape_hash_next := n\<rparr>)) = unlinked shs"
  by (rule ext) (simp add: unlinked_def)

lemma js_shape_hash_unlink_ok:
  assumes H: "hash_ok (shape_hash_bits rt) (shape_tab rt) (hkeys (shapes rt))" and a: "shapes rt a = Some sh" "is_hashed sh"
  shows "\<exists>shs tab. js_shape_hash_unlink a rt = Some (rt\<lparr>shapes := shs, shape_tab := tab, shape_hash_count := shape_hash_count rt - 1\<rparr>)
    \<and> unlinked shs = unlinked (shapes rt) \<and> shs a = Some sh \<and> hash_ok (shape_hash_bits rt) tab ((hkeys shs)(a := None))"
proof -
  let ?K = "hkeys (shapes rt)" and ?bits = "shape_hash_bits rt" and ?tab = "shape_tab rt"
  let ?hf = "\<lambda>v. get_shape_hash v ?bits"
  define h0 where "h0 = ?hf (hash sh)"
  have ka: "?K a = Some (hash sh, shape_hash_next sh)" using a by (simp add: hkeys_def)
  have hl: "h0 < length ?tab" unfolding h0_def by (rule hash_okD(4) [OF H])
  have H': "chain_table ?hf ?tab ?K" using H by (simp add: hash_ok_chain)
  obtain as where as: "hpath ?K (?tab ! h0) as" "distinct as" "set as = hbucket ?bits ?K h0" using hash_okD(5) [OF H hl] by blast
  have "a \<in> set as" unfolding as(3) using ka by (auto simp: hbucket_def h0_def)
  then obtain us vs where sp: "as = us @ a # vs" by (auto simp: in_set_conv_decomp)
  show ?thesis
  proof (cases "us = []")
    case True
    then have hd: "?tab ! h0 = a" using as(1) sp by simp
    let ?tab' = "?tab[h0 := shape_hash_next sh]"
    have e: "js_shape_hash_unlink a rt = Some (rt\<lparr>shapes := shapes rt, shape_tab := ?tab', shape_hash_count := shape_hash_count rt - 1\<rparr>)"
      using hd hl a by (simp add: js_shape_hash_unlink_def h0_def rd_def wr_def)
    have "hash_ok ?bits ?tab' (?K(a := None))"
      using chain_unlink_head [where hf = ?hf, OF H' ka] hl hd hash_okD(1-3) [OF H] by (simp add: hash_ok_chain h0_def)
    then show ?thesis using e a by (intro exI [of _ "shapes rt"] exI [of _ ?tab']) simp
  next
    case False
    then obtain us' l where us: "us = us' @ [l]" by (cases us rule: rev_cases) auto
    have sp': "as = us' @ l # a # vs" using sp us by simp
    obtain shl where l: "shapes rt l = Some shl" "is_hashed shl"
      "unlink_loop a (shape_hash_next sh) (?tab ! h0) (shapes rt) = Some ((shapes rt)(l \<mapsto> shl\<lparr>shape_hash_next := shape_hash_next sh\<rparr>))"
      using unlink_loop_ok [OF as(1) [unfolded sp'] as(2) [unfolded sp']] by blast
    let ?shs = "(shapes rt)(l \<mapsto> shl\<lparr>shape_hash_next := shape_hash_next sh\<rparr>)"
    have la: "l \<noteq> a" using as(2) sp' by auto
    have hd: "?tab ! h0 \<noteq> a" using as(1,2) sp False by (cases us) auto
    have e: "js_shape_hash_unlink a rt = Some (rt\<lparr>shapes := ?shs, shape_tab := ?tab, shape_hash_count := shape_hash_count rt - 1\<rparr>)"
      using hd hl a l(3) by (simp add: js_shape_hash_unlink_def h0_def [symmetric] rd_def)
    have kl: "?K l = Some (hash shl, shape_hash_next shl)" using l by (simp add: hkeys_def)
    have K': "(hkeys ?shs)(a := None) = (?K(l := Some (hash shl, shape_hash_next sh)))(a := None)" using l(2) by (simp add: hkeys_upd)
    have "hash_ok ?bits ?tab ((hkeys ?shs)(a := None))"
      unfolding K' using chain_unlink_inner [where hf = ?hf, OF H' ka _ kl as(1) [unfolded sp' h0_def]] hl hash_okD(1-3) [OF H]
      by (simp add: hash_ok_chain h0_def)
    then show ?thesis using e a l(1) la by (intro exI [of _ ?shs] exI [of _ ?tab]) simp
  qed
qed

lemma js_shape_hash_link_ok:
  assumes H: "hash_ok (shape_hash_bits rt) (shape_tab rt) ((hkeys (shapes rt))(a := None))" and a: "shapes rt a = Some sh" "is_hashed sh" "a \<noteq> 0"
  shows "\<exists>n tab. js_shape_hash_link a rt =
      Some (rt\<lparr>shapes := (shapes rt)(a \<mapsto> sh\<lparr>shape_hash_next := n\<rparr>), shape_tab := tab, shape_hash_count := shape_hash_count rt + 1\<rparr>)
    \<and> hash_ok (shape_hash_bits rt) tab (hkeys ((shapes rt)(a \<mapsto> sh\<lparr>shape_hash_next := n\<rparr>)))"
proof -
  define h0 where "h0 = get_shape_hash (hash sh) (shape_hash_bits rt)"
  have hl: "h0 < length (shape_tab rt)" unfolding h0_def by (rule hash_okD(4) [OF H])
  let ?n = "shape_tab rt ! h0"
  have "hash_ok (shape_hash_bits rt) ((shape_tab rt)[h0 := a]) (hkeys ((shapes rt)(a \<mapsto> sh\<lparr>shape_hash_next := ?n\<rparr>)))"
    using hash_link_ok [OF H a(3), of "hash sh"] a(2) by (simp add: hkeys_upd h0_def)
  then show ?thesis using hl a
    by (intro exI [of _ ?n] exI [of _ "(shape_tab rt)[h0 := a]"]) (simp add: js_shape_hash_link_def h0_def [symmetric] rd_def wr_def)
qed

section \<open>Searching\<close>

lemma find_shape_ok:
  "hpath (hkeys shs) x as \<Longrightarrow>
     \<exists>b. find_shape f x shs = Some b \<and> (b = 0 \<and> (\<forall>a \<in> set as. \<forall>sh. shs a = Some sh \<longrightarrow> \<not> f sh)
       \<or> b \<noteq> 0 \<and> b \<in> set as \<and> (\<exists>sh. shs b = Some sh \<and> is_hashed sh \<and> f sh))"
proof (induction as arbitrary: x)
  case Nil
  then show ?case by (simp add: find_shape.simps [of f 0])
next
  case (Cons a as)
  obtain v n where k: "hkeys shs a = Some (v, n)" "hpath (hkeys shs) n as" "x = a" "a \<noteq> 0" using Cons.prems by auto
  then obtain sh where sh: "shs a = Some sh" "is_hashed sh" "shape_hash_next sh = n" by (auto simp: hkeys_Some)
  have e: "find_shape f x shs = (if f sh then Some a else find_shape f n shs)"
    using k(3,4) sh by (subst find_shape.simps) simp
  obtain b where "find_shape f n shs = Some b" "b = 0 \<and> (\<forall>a \<in> set as. \<forall>sh. shs a = Some sh \<longrightarrow> \<not> f sh)
       \<or> b \<noteq> 0 \<and> b \<in> set as \<and> (\<exists>sh. shs b = Some sh \<and> is_hashed sh \<and> f sh)" using Cons.IH [OF k(2)] by blast
  then show ?case using e sh k(3,4) by (cases "f sh") auto
qed

lemma find_hashed_ok:
  assumes H: "hash_ok (shape_hash_bits rt) (shape_tab rt) (hkeys (shapes rt))"
  shows "\<exists>b. do { x \<leftarrow> rd (shape_tab rt) (get_shape_hash h (shape_hash_bits rt)); find_shape f x (shapes rt) } = Some b
    \<and> (b \<noteq> 0 \<longrightarrow> (\<exists>sh. shapes rt b = Some sh \<and> is_hashed sh \<and> f sh))"
proof -
  have hl: "get_shape_hash h (shape_hash_bits rt) < length (shape_tab rt)" by (rule hash_okD(4) [OF H])
  obtain as where "hpath (hkeys (shapes rt)) (shape_tab rt ! get_shape_hash h (shape_hash_bits rt)) as" using hash_okD(5) [OF H hl] by blast
  then obtain b where "find_shape f (shape_tab rt ! get_shape_hash h (shape_hash_bits rt)) (shapes rt) = Some b"
    "b = 0 \<or> (\<exists>sh. shapes rt b = Some sh \<and> is_hashed sh \<and> f sh)" using find_shape_ok by blast
  then show ?thesis using hl by (intro exI [of _ b]) (auto simp: rd_def)
qed

end
