(* ===== verification/ShapeEntries.thy ===== *)
theory ShapeEntries
  imports ShapeHash
begin

text \<open>
  The list of the live properties of an object, \<open>entries\<close>, under the operations on its table and
  its values, and the sizes that the two loops over powers of two end with.
\<close>

section \<open>Entries\<close>

lemma entries_cong: "map prop_atom ps' = map prop_atom ps \<Longrightarrow> map flags ps' = map flags ps \<Longrightarrow> entries ps' vs = entries ps vs"
proof (induction ps vs arbitrary: ps' rule: entries.induct)
  case (1 pr ps v vs)
  obtain pr1 ps1 where p: "ps' = pr1 # ps1" using "1.prems"(1) by (cases ps') simp_all
  have e: "prop_atom pr1 = prop_atom pr" "flags pr1 = flags pr" "map prop_atom ps1 = map prop_atom ps" "map flags ps1 = map flags ps"
    using "1.prems" unfolding p by simp_all
  have "entries ps1 vs = entries ps vs" by (cases "prop_atom pr = 0") (use "1.IH" e(3,4) in blast)+
  then show ?case unfolding p by (simp add: e(1,2))
qed simp_all

lemma entries_nth:
  "entries ps vs = map (\<lambda>i. (prop_atom (ps ! i), flags (ps ! i), vs ! i)) (filter (\<lambda>i. prop_atom (ps ! i) \<noteq> 0) [0..<min (length ps) (length vs)])"
proof (induction ps vs rule: entries.induct)
  case (1 pr ps v vs)
  have "[0..<Suc n] = 0 # map Suc [0..<n]" for n by (simp add: map_Suc_upt upt_conv_Cons del: upt_Suc)
  then show ?case using 1 by (simp add: filter_map o_def)
qed simp_all

lemma entries_values: "length ps \<le> length vs \<Longrightarrow> length ps \<le> length vs' \<Longrightarrow> (\<And>i. i < length ps \<Longrightarrow> vs' ! i = vs ! i) \<Longrightarrow> entries ps vs' = entries ps vs"
  unfolding entries_nth by (simp add: min_def cong: map_cong)

lemma length_realloc_props [simp]: "length (realloc_props n vs) = n"
  by (simp add: realloc_props_def)

lemma entries_realloc: "length ps \<le> length vs \<Longrightarrow> length ps \<le> n \<Longrightarrow> entries ps (realloc_props n vs) = entries ps vs"
  by (rule entries_values) (simp_all add: realloc_props_def nth_append)

lemma entries_snoc:
  "length ps < length vs \<Longrightarrow> prop_atom pr \<noteq> 0 \<Longrightarrow> entries (ps @ [pr]) (vs[length ps := v]) = entries ps vs @ [(prop_atom pr, flags pr, v)]"
proof (induction ps arbitrary: vs)
  case Nil
  then show ?case by (cases vs) simp_all
next
  case (Cons q ps)
  then show ?case by (cases vs) simp_all
qed

lemma entries_delete:
  assumes d: "distinct (filter (\<lambda>a. a \<noteq> 0) (map prop_atom ps))" and i: "i < length ps" "prop_atom (ps ! i) = a" "a \<noteq> 0"
    and ps': "map prop_atom ps' = (map prop_atom ps)[i := 0]" "\<forall>j. j \<noteq> i \<longrightarrow> map flags ps' ! j = map flags ps ! j" and l: "length ps \<le> length vs"
  shows "entries ps' (vs[i := v]) = filter (\<lambda>e. fst e \<noteq> a) (entries ps vs)"
proof -
  have len: "length ps' = length ps" using ps'(1) by (metis length_list_update length_map)
  have at: "prop_atom (ps' ! j) = (if j = i then 0 else prop_atom (ps ! j))" if "j < length ps" for j
    using arg_cong [OF ps'(1), of "\<lambda>l. l ! j"] that len by (simp add: nth_list_update split: if_splits)
  have fl: "flags (ps' ! j) = flags (ps ! j)" if "j < length ps" "j \<noteq> i" for j using ps'(2) [rule_format, OF that(2)] that(1) len by simp
  have u: "prop_atom (ps ! j) \<noteq> a" if "j < length ps" "j \<noteq> i" for j using live_unique [OF d that(1) i(1)] that i by auto
  have "filter (\<lambda>j. prop_atom (ps' ! j) \<noteq> 0) [0..<length ps] = filter (\<lambda>j. prop_atom (ps ! j) \<noteq> a) (filter (\<lambda>j. prop_atom (ps ! j) \<noteq> 0) [0..<length ps])"
    unfolding filter_filter by (rule filter_cong) (use at u i in auto)
  then have e: "entries ps' (vs[i := v]) = map (\<lambda>j. (prop_atom (ps' ! j), flags (ps' ! j), vs[i := v] ! j))
      (filter (\<lambda>j. prop_atom (ps ! j) \<noteq> a) (filter (\<lambda>j. prop_atom (ps ! j) \<noteq> 0) [0..<length ps]))"
    unfolding entries_nth using len l by (simp add: min_def)
  have "\<dots> = map (\<lambda>j. (prop_atom (ps ! j), flags (ps ! j), vs ! j)) (filter (\<lambda>j. prop_atom (ps ! j) \<noteq> a) (filter (\<lambda>j. prop_atom (ps ! j) \<noteq> 0) [0..<length ps]))"
    using at fl u i by (intro map_cong refl) auto
  also have "\<dots> = filter (\<lambda>e. fst e \<noteq> a) (entries ps vs)"
    unfolding entries_nth using l by (simp add: min_def filter_map o_def)
  finally show ?thesis using e by simp
qed

lemma entries_lookup:
  assumes d: "distinct (filter (\<lambda>a. a \<noteq> 0) (map prop_atom ps))" and a: "a \<noteq> 0" and l: "length ps \<le> length vs"
  shows "map_of (entries ps vs) a = map_option (\<lambda>i. (flags (ps ! i), vs ! i)) (index_of ps a)"
proof (cases "index_of ps a")
  case None
  then have "a \<notin> prop_atom ` set ps" by (simp add: index_of_None)
  then have "a \<notin> fst ` set (entries ps vs)" unfolding entries_nth using l by (auto simp: min_def)
  then show ?thesis using None by (simp add: map_of_eq_None_iff)
next
  case (Some i)
  then have i: "i < length ps" "prop_atom (ps ! i) = a" by (auto dest: index_of_Some)
  have "map fst (entries ps vs) = map (\<lambda>i. prop_atom (ps ! i)) (filter (\<lambda>i. prop_atom (ps ! i) \<noteq> 0) [0..<length ps])"
    unfolding entries_nth using l by (simp add: min_def o_def)
  also have "\<dots> = filter (\<lambda>a. a \<noteq> 0) (map (\<lambda>i. prop_atom (ps ! i)) [0..<length ps])" by (simp add: filter_map o_def)
  also have "map (\<lambda>i. prop_atom (ps ! i)) [0..<length ps] = map prop_atom ps" by (rule nth_equalityI) simp_all
  finally have "distinct (map fst (entries ps vs))" using d by simp
  moreover have "(a, flags (ps ! i), vs ! i) \<in> set (entries ps vs)" unfolding entries_nth using i a l by (force simp: min_def)
  ultimately show ?thesis using Some by simp
qed

section \<open>Sizes of the hash table of a shape\<close>

lemma grow_hash_size_ok:
  "\<exists>j. grow_hash_size (2 ^ k) n = Some (2 ^ j) \<and> n \<le> 2 ^ j \<and> (j = k \<or> 2 ^ j < 2 * n)"
proof (induction "n - 2 ^ k" arbitrary: k rule: less_induct)
  case less
  show ?case
  proof (cases "2 ^ k < n")
    case True
    have z: "(0 :: nat) < 2 ^ k" by simp
    have "(2 :: nat) ^ Suc k = 2 ^ k + 2 ^ k" by simp
    then have "n - 2 ^ Suc k < n - 2 ^ k" using True z by linarith
    from less [OF this] obtain j where j: "grow_hash_size (2 ^ Suc k) n = Some (2 ^ j)" "n \<le> 2 ^ j" "j = Suc k \<or> 2 ^ j < 2 * n" by blast
    have "grow_hash_size (2 ^ k) n = grow_hash_size (2 ^ Suc k) n" using True by (subst grow_hash_size.simps) simp
    then show ?thesis using j True by (intro exI [of _ j]) auto
  next
    case False
    then show ?thesis by (intro exI [of _ k]) (simp add: grow_hash_size.simps [of "2 ^ k"])
  qed
qed

lemma shrink_hash_size_ok: "1 \<le> n \<Longrightarrow> \<exists>j \<le> k. shrink_hash_size (2 ^ k) n = Some (2 ^ j)"
proof (induction k)
  case 0
  then show ?case by (simp add: shrink_hash_size.simps [of "Suc 0"])
next
  case (Suc k)
  show ?case
  proof (cases "n \<le> 2 ^ k")
    case True
    then have "shrink_hash_size (2 ^ Suc k) n = shrink_hash_size (2 ^ k) n" by (subst shrink_hash_size.simps) simp
    then show ?thesis using Suc by (auto intro: le_SucI)
  next
    case False
    then show ?thesis by (intro exI [of _ "Suc k"]) (simp add: shrink_hash_size.simps [of "2 * 2 ^ k"])
  qed
qed

lemma mask_okI: "k < 32 \<Longrightarrow> mask_ok (word_of_nat (2 ^ k - 1)) (2 ^ k)"
  by (auto simp: mask_ok_def)

lemma mask_okD:
  assumes "mask_ok msk n"
  obtains k where "n = 2 ^ k" "k < 32" "unat msk + 1 = n"
proof -
  obtain k where k: "n = 2 ^ k" "k < 32" "msk = word_of_nat (n - 1)" using assms by (auto simp: mask_ok_def)
  have "(2 :: nat) ^ k \<le> 2 ^ 31" using k(2) by (intro power_increasing) auto
  then have "unat msk = n - 1" unfolding k(3) using k(1) by (intro unat_small) simp
  moreover have "0 < n" using k(1) by simp
  ultimately show ?thesis using that k by simp
qed

end
