(* ===== verification/ShapesCorrect.thy ===== *)
theory ShapesCorrect
  imports ShapeEntries
begin

text \<open>
  The invariant of the shapes of a runtime and the abstraction of an object to the list of its
  properties. \<open>os\<close> are the live objects and \<open>ext\<close> counts the references to a shape from
  elsewhere (\<open>ctx->array_shape\<close> and the like). Every operation keeps the invariant, changes the
  properties of one object and leaves those of every other object as they are, although shapes
  are shared.
\<close>

section \<open>The invariant\<close>

definition holders :: "shape_rt \<Rightarrow> addr set \<Rightarrow> addr \<Rightarrow> addr set" where
  "holders rt os a = {p \<in> os. obj_shape (objs rt p) = a}"

definition shape_ok :: "shape_rt \<Rightarrow> addr set \<Rightarrow> (addr \<Rightarrow> int) \<Rightarrow> addr \<Rightarrow> JSShape \<Rightarrow> bool" where
  "shape_ok rt os ext a sh \<longleftrightarrow> a \<noteq> 0 \<and> table_ok sh \<and> (\<not> is_hashed sh \<longrightarrow> shape_rc rt a = 1) \<and> 0 < shape_rc rt a
     \<and> shape_rc rt a = ext a + int (card (holders rt os a))"

definition core_ok :: "shape_rt \<Rightarrow> addr set \<Rightarrow> (addr \<Rightarrow> int) \<Rightarrow> bool" where
  "core_ok rt os ext \<longleftrightarrow> finite os \<and> (\<forall>a. 0 \<le> ext a) \<and> (\<forall>a. shapes rt a = None \<longrightarrow> ext a = 0)
     \<and> (\<forall>a sh. shapes rt a = Some sh \<longrightarrow> shape_ok rt os ext a sh)
     \<and> (\<forall>p \<in> os. \<exists>sh. shapes rt (obj_shape (objs rt p)) = Some sh \<and> prop_size sh \<le> length (obj_props (objs rt p)))"

abbreviation hash_inv :: "shape_rt \<Rightarrow> u32 hmap \<Rightarrow> bool" where
  "hash_inv rt K \<equiv> hash_ok (shape_hash_bits rt) (shape_tab rt) K"

definition rt_ok :: "shape_rt \<Rightarrow> addr set \<Rightarrow> (addr \<Rightarrow> int) \<Rightarrow> bool" where
  "rt_ok rt os ext \<longleftrightarrow> core_ok rt os ext \<and> hash_inv rt (hkeys (shapes rt))"

definition obj_entries :: "shape_rt \<Rightarrow> addr \<Rightarrow> (atom \<times> nat \<times> js_property option) list" where
  "obj_entries rt p = (case shapes rt (obj_shape (objs rt p)) of None \<Rightarrow> [] | Some sh \<Rightarrow> entries (prps sh) (obj_props (objs rt p)))"

definition others_same :: "shape_rt \<Rightarrow> shape_rt \<Rightarrow> addr set \<Rightarrow> addr \<Rightarrow> bool" where
  "others_same rt rt' os p \<longleftrightarrow> (\<forall>q \<in> os. q \<noteq> p \<longrightarrow> obj_entries rt' q = obj_entries rt q)"

lemma obj_entries_cong:
  assumes "shapes rt' (obj_shape (objs rt' q)) = shapes rt (obj_shape (objs rt q))" "obj_props (objs rt' q) = obj_props (objs rt q)"
  shows "obj_entries rt' q = obj_entries rt q"
  unfolding obj_entries_def assms ..

lemma core_okI:
  assumes "finite os" "\<And>a. 0 \<le> ext a" "\<And>a. shapes rt a = None \<Longrightarrow> ext a = 0" "\<And>a sh. shapes rt a = Some sh \<Longrightarrow> shape_ok rt os ext a sh"
    "\<And>p. p \<in> os \<Longrightarrow> \<exists>sh. shapes rt (obj_shape (objs rt p)) = Some sh \<and> prop_size sh \<le> length (obj_props (objs rt p))"
  shows "core_ok rt os ext"
  using assms unfolding core_ok_def by blast

lemma core_okD:
  assumes "core_ok rt os ext"
  shows "finite os" "0 \<le> ext a" "shapes rt a = None \<Longrightarrow> ext a = 0" "shapes rt a = Some sh \<Longrightarrow> shape_ok rt os ext a sh"
    "p \<in> os \<Longrightarrow> \<exists>sh. shapes rt (obj_shape (objs rt p)) = Some sh \<and> prop_size sh \<le> length (obj_props (objs rt p))"
  using assms unfolding core_ok_def by blast+

lemma shape_okD:
  assumes "shape_ok rt os ext a sh"
  shows "a \<noteq> 0" "table_ok sh" "\<not> is_hashed sh \<Longrightarrow> shape_rc rt a = 1" "0 < shape_rc rt a" "shape_rc rt a = ext a + int (card (holders rt os a))"
  using assms unfolding shape_ok_def by blast+

lemma others_same_refl [simp]: "others_same rt rt os p"
  by (simp add: others_same_def)

lemma others_same_trans: "others_same rt rt' os p \<Longrightarrow> others_same rt' rt'' os p \<Longrightarrow> others_same rt rt'' os p"
  by (simp add: others_same_def)

lemma table_ok_next [simp]: "table_ok (sh\<lparr>shape_hash_next := n\<rparr>) = table_ok sh" "table_ok (sh\<lparr>hash := h\<rparr>) = table_ok sh"
  "table_ok (sh\<lparr>is_hashed := b\<rparr>) = table_ok sh"
  by (simp_all add: table_ok_def)

text \<open>Changing only the links between shapes changes neither the invariant nor the objects.\<close>

lemma unlinked_Some:
  assumes "unlinked shs' = unlinked shs" "shs' a = Some sh'"
  obtains sh where "shs a = Some sh" "sh' = sh\<lparr>shape_hash_next := shape_hash_next sh'\<rparr>"
proof -
  have "unlinked shs a = Some (sh'\<lparr>shape_hash_next := 0\<rparr>)" using fun_cong [OF assms(1), of a] assms(2) by (simp add: unlinked_def)
  then obtain sh where sh: "shs a = Some sh" "sh\<lparr>shape_hash_next := 0\<rparr> = sh'\<lparr>shape_hash_next := 0\<rparr>" by (auto simp: unlinked_def)
  have "sh' = sh'\<lparr>shape_hash_next := 0, shape_hash_next := shape_hash_next sh'\<rparr>" by simp
  also have "\<dots> = sh\<lparr>shape_hash_next := 0, shape_hash_next := shape_hash_next sh'\<rparr>" using sh(2) by simp
  finally show ?thesis using that sh(1) by simp
qed

lemma unlinked_None: "unlinked shs' = unlinked shs \<Longrightarrow> shs' a = None \<longleftrightarrow> shs a = None"
  by (metis (no_types) option.map_disc_iff unlinked_def)

lemma core_ok_links:
  assumes "core_ok rt os ext" "unlinked (shapes rt') = unlinked (shapes rt)" "objs rt' = objs rt" "shape_rc rt' = shape_rc rt"
  shows "core_ok rt' os ext" "obj_entries rt' p = obj_entries rt p" "others_same rt rt' os p"
proof -
  have e: "obj_entries rt' p = obj_entries rt p" for p
  proof (cases "shapes rt' (obj_shape (objs rt p))")
    case None
    moreover from this have "shapes rt (obj_shape (objs rt p)) = None" using unlinked_None [OF assms(2)] by blast
    ultimately show ?thesis using assms(3) by (simp add: obj_entries_def)
  next
    case (Some sh')
    then obtain sh where "shapes rt (obj_shape (objs rt p)) = Some sh" "sh' = sh\<lparr>shape_hash_next := shape_hash_next sh'\<rparr>"
      using unlinked_Some [OF assms(2)] by blast
    moreover from this have "prps sh' = prps sh" by (metis JSShape.select_convs(9) JSShape.surjective JSShape.update_convs(6))
    ultimately show ?thesis using Some assms(3) by (simp add: obj_entries_def)
  qed
  then show "obj_entries rt' p = obj_entries rt p" "others_same rt rt' os p" by (simp_all add: others_same_def)
  show "core_ok rt' os ext"
  proof (rule core_okI)
    show "finite os" "\<And>a. 0 \<le> ext a" using core_okD(1,2) [OF assms(1)] by blast+
    show "ext a = 0" if "shapes rt' a = None" for a using core_okD(3) [OF assms(1)] unlinked_None [OF assms(2)] that by blast
    show "shape_ok rt' os ext a sh'" if s: "shapes rt' a = Some sh'" for a sh'
    proof -
      obtain sh where sh: "shapes rt a = Some sh" "sh' = sh\<lparr>shape_hash_next := shape_hash_next sh'\<rparr>" using unlinked_Some [OF assms(2) s] by blast
      have "shape_ok rt' os ext a (sh\<lparr>shape_hash_next := shape_hash_next sh'\<rparr>)"
        using core_okD(4) [OF assms(1) sh(1)] by (auto simp: shape_ok_def holders_def assms(3,4))
      then show ?thesis using sh(2) by simp
    qed
    show "\<exists>sh. shapes rt' (obj_shape (objs rt' p)) = Some sh \<and> prop_size sh \<le> length (obj_props (objs rt' p))" if p: "p \<in> os" for p
    proof -
      obtain sh where sh: "shapes rt (obj_shape (objs rt p)) = Some sh" "prop_size sh \<le> length (obj_props (objs rt p))" using core_okD(5) [OF assms(1) p] by blast
      then obtain sh' where s: "shapes rt' (obj_shape (objs rt p)) = Some sh'" using unlinked_None [OF assms(2)] by (metis not_Some_eq)
      then have "sh' = sh\<lparr>shape_hash_next := shape_hash_next sh'\<rparr>" using unlinked_Some [OF assms(2)] sh(1) by (metis option.inject)
      then have "prop_size sh' = prop_size sh" by (metis JSShape.select_convs(4) JSShape.surjective JSShape.update_convs(6))
      then show ?thesis using s sh assms(3) by simp
    qed
  qed
qed

section \<open>One object, one shape\<close>

lemma holders_sole:
  assumes c: "core_ok rt os ext" and p: "p \<in> os" "obj_shape (objs rt p) = a" "shape_rc rt a = 1"
  shows "ext a = 0" "holders rt os a = {p}" "\<And>q. q \<in> os \<Longrightarrow> q \<noteq> p \<Longrightarrow> obj_shape (objs rt q) \<noteq> a"
proof -
  obtain sh where sh: "shapes rt a = Some sh" using core_okD(5) [OF c p(1)] p(2) by blast
  have f: "finite (holders rt os a)" using core_okD(1) [OF c] by (simp add: holders_def)
  have m: "p \<in> holders rt os a" using p by (simp add: holders_def)
  have e: "1 = ext a + int (card (holders rt os a))" using shape_okD(5) [OF core_okD(4) [OF c sh]] p(3) by simp
  moreover have "0 < card (holders rt os a)" using f m by (simp add: card_gt_0_iff) blast
  moreover have "0 \<le> ext a" by (rule core_okD(2) [OF c])
  ultimately have x: "ext a = 0" "card (holders rt os a) = 1" by linarith+
  then show "ext a = 0" by simp
  obtain q where "holders rt os a = {q}" using x(2) by (auto simp: card_1_singleton_iff)
  then show h: "holders rt os a = {p}" using m by simp
  show "obj_shape (objs rt q) \<noteq> a" if "q \<in> os" "q \<noteq> p" for q using h that by (auto simp: holders_def)
qed

text \<open>The shape of an object that nothing shares is changed, or moved to a new block.\<close>

lemma core_ok_replace:
  assumes c: "core_ok rt os ext" and p: "p \<in> os" "obj_shape (objs rt p) = a" "shape_rc rt a = 1"
    and b: "b \<noteq> 0" "b = a \<or> shapes rt b = None" and sh: "table_ok sh" "prop_size sh \<le> length vs"
    and rt': "shapes rt' = (shapes rt)(a := None, b := Some sh)" "shape_rc rt' = (shape_rc rt)(b := 1)"
      "objs rt' = (objs rt)(p := ob)" "obj_shape ob = b" "obj_props ob = vs"
  shows "core_ok rt' os ext" "others_same rt rt' os p" "obj_entries rt' p = entries (prps sh) vs"
proof -
  note sole = holders_sole [OF c p]
  have nb: "obj_shape (objs rt q) \<noteq> b" if "q \<in> os" "q \<noteq> p" for q
    using sole(3) [OF that] core_okD(5) [OF c that(1)] b(2) by auto
  have hb: "holders rt' os b = {p}" using nb p(1) by (auto simp: holders_def rt')
  have hx: "holders rt' os x = holders rt os x" if "x \<noteq> a" "x \<noteq> b" for x
    using that p(2) by (auto simp: holders_def rt' split: if_splits)
  have eb: "ext b = 0" using b(2) sole(1) core_okD(3) [OF c] by blast
  have oa: "shapes rt' (obj_shape (objs rt q)) = shapes rt (obj_shape (objs rt q))" if "q \<in> os" "q \<noteq> p" for q
    using nb [OF that] sole(3) [OF that] by (simp add: rt')
  show "core_ok rt' os ext"
  proof (rule core_okI)
    show "finite os" "\<And>a. 0 \<le> ext a" using core_okD(1,2) [OF c] by blast+
    show "ext x = 0" if "shapes rt' x = None" for x
      using that core_okD(3) [OF c, of x] sole(1) by (auto simp: rt' split: if_splits)
    show "shape_ok rt' os ext x s" if s: "shapes rt' x = Some s" for x s
    proof (cases "x = b")
      case True
      then show ?thesis using s sh(1) b(1) hb eb by (simp add: shape_ok_def rt')
    next
      case False
      then have "x \<noteq> a" "shapes rt x = Some s" using s by (auto simp: rt' split: if_splits)
      moreover have "shape_rc rt' x = shape_rc rt x" using False by (simp add: rt')
      ultimately show ?thesis using core_okD(4) [OF c, of x s] hx [of x] False unfolding shape_ok_def by metis
    qed
    show "\<exists>s. shapes rt' (obj_shape (objs rt' q)) = Some s \<and> prop_size s \<le> length (obj_props (objs rt' q))" if q: "q \<in> os" for q
    proof (cases "q = p")
      case True
      then show ?thesis using sh(2) by (simp add: rt')
    next
      case False
      have "shapes rt' (obj_shape (objs rt' q)) = shapes rt (obj_shape (objs rt q))" "obj_props (objs rt' q) = obj_props (objs rt q)"
        using False oa [OF q False] by (simp_all add: rt'(3))
      then show ?thesis using core_okD(5) [OF c q] by simp
    qed
  qed
  show "others_same rt rt' os p"
    unfolding others_same_def
  proof (intro ballI impI)
    fix q assume q: "q \<in> os" "q \<noteq> p"
    then have e: "shapes rt' (obj_shape (objs rt' q)) = shapes rt (obj_shape (objs rt q))" "obj_props (objs rt' q) = obj_props (objs rt q)"
      using oa [OF q] by (simp_all add: rt'(3))
    show "obj_entries rt' q = obj_entries rt q" by (rule obj_entries_cong [OF e])
  qed
  show "obj_entries rt' p = entries (prps sh) vs" by (simp add: obj_entries_def rt')
qed

section \<open>Taking a shape out of the hash table and putting it back\<close>

lemma detach_ok:
  assumes "rt_ok rt os ext" "shapes rt a = Some sh"
  shows "\<exists>rt1. (if is_hashed sh then js_shape_hash_unlink a rt else Some rt) = Some rt1 \<and> core_ok rt1 os ext
    \<and> hash_inv rt1 ((hkeys (shapes rt1))(a := None)) \<and> shapes rt1 a = Some sh \<and> objs rt1 = objs rt \<and> shape_rc rt1 = shape_rc rt
    \<and> unlinked (shapes rt1) = unlinked (shapes rt)"
proof (cases "is_hashed sh")
  case True
  obtain shs tab where r: "js_shape_hash_unlink a rt = Some (rt\<lparr>shapes := shs, shape_tab := tab, shape_hash_count := shape_hash_count rt - 1\<rparr>)"
    "unlinked shs = unlinked (shapes rt)" "shs a = Some sh" "hash_ok (shape_hash_bits rt) tab ((hkeys shs)(a := None))"
    using js_shape_hash_unlink_ok [OF _ assms(2) True] assms(1) unfolding rt_ok_def by blast
  have "core_ok (rt\<lparr>shapes := shs, shape_tab := tab, shape_hash_count := shape_hash_count rt - 1\<rparr>) os ext"
    by (rule core_ok_links(1) [of rt]) (use assms(1) r(2) in \<open>simp_all add: rt_ok_def\<close>)
  then show ?thesis using r True by (intro exI [of _ "rt\<lparr>shapes := shs, shape_tab := tab, shape_hash_count := shape_hash_count rt - 1\<rparr>"]) simp
next
  case False
  then have "(hkeys (shapes rt))(a := None) = hkeys (shapes rt)" using assms(2) by (intro ext) (simp add: hkeys_def)
  then show ?thesis using False assms by (intro exI [of _ rt]) (simp add: rt_ok_def)
qed

lemma attach_ok:
  assumes "core_ok rt os ext" "hash_inv rt ((hkeys (shapes rt))(a := None))" "shapes rt a = Some sh"
  shows "\<exists>rt1 n. (if is_hashed sh then js_shape_hash_link a rt else Some rt) = Some rt1 \<and> rt_ok rt1 os ext
    \<and> shapes rt1 a = Some (sh\<lparr>shape_hash_next := n\<rparr>) \<and> objs rt1 = objs rt \<and> shape_rc rt1 = shape_rc rt
    \<and> unlinked (shapes rt1) = unlinked (shapes rt)"
proof (cases "is_hashed sh")
  case True
  have z: "a \<noteq> 0" by (rule shape_okD(1) [OF core_okD(4) [OF assms(1,3)]])
  obtain n tab where r: "js_shape_hash_link a rt =
      Some (rt\<lparr>shapes := (shapes rt)(a \<mapsto> sh\<lparr>shape_hash_next := n\<rparr>), shape_tab := tab, shape_hash_count := shape_hash_count rt + 1\<rparr>)"
    "hash_ok (shape_hash_bits rt) tab (hkeys ((shapes rt)(a \<mapsto> sh\<lparr>shape_hash_next := n\<rparr>)))"
    using js_shape_hash_link_ok [OF assms(2,3) True z] by blast
  let ?rt = "rt\<lparr>shapes := (shapes rt)(a \<mapsto> sh\<lparr>shape_hash_next := n\<rparr>), shape_tab := tab, shape_hash_count := shape_hash_count rt + 1\<rparr>"
  have u: "unlinked (shapes ?rt) = unlinked (shapes rt)" using assms(3) by simp
  have "core_ok ?rt os ext" by (rule core_ok_links(1) [OF assms(1) u]) simp_all
  then have "rt_ok ?rt os ext" using r(2) by (simp add: rt_ok_def)
  then show ?thesis using r(1) True u by (intro exI [of _ ?rt] exI [of _ n]) simp
next
  case False
  have "(hkeys (shapes rt))(a := None) = hkeys (shapes rt)" using False assms(3) by (intro ext) (simp add: hkeys_def)
  moreover have "sh = sh\<lparr>shape_hash_next := shape_hash_next sh\<rparr>" by simp
  ultimately show ?thesis using False assms by (intro exI [of _ rt] exI [of _ "shape_hash_next sh"]) (simp add: rt_ok_def)
qed

section \<open>More room\<close>

lemma table_ok_resized:
  assumes t: "table_ok sh" and j: "j < 32" and ps: "map prop_atom ps = map prop_atom (prps sh)"
    and n: "prop_count sh \<le> n" "2 \<le> n" and c: "chains_ok (word_of_nat (2 ^ j - 1)) ps tab" "length tab = 2 ^ j"
  shows "table_ok (sh\<lparr>prop_hash_mask := word_of_nat (2 ^ j - 1), prop_size := n, hash_table := tab, prps := ps\<rparr>)"
proof -
  have "length ps = prop_count sh" using ps by (metis length_map)
  then show ?thesis using t mask_okI [OF j] ps n c by (simp add: table_ok_def JS_PROP_INITIAL_SIZE_def)
qed

text \<open>The table that \<open>resize_properties\<close> builds.\<close>

lemma resized_table_ok:
  assumes t: "table_ok sh" and s: "prop_size sh \<le> prop_count sh" "n = max (prop_count sh + 1) (prop_size sh * 3 div 2)"
  shows "\<exists>h ps tab. grow_hash_size (unat (prop_hash_mask sh) + 1) n = Some h
    \<and> (if h \<noteq> unat (prop_hash_mask sh) + 1 then rehash_loop (word_of_nat (h - 1)) 0 (prps sh) (replicate h 0) else Some (prps sh, hash_table sh)) = Some (ps, tab)
    \<and> map prop_atom ps = map prop_atom (prps sh) \<and> map flags ps = map flags (prps sh)
    \<and> table_ok (sh\<lparr>prop_hash_mask := word_of_nat (h - 1), prop_size := n, hash_table := tab, prps := ps\<rparr>)"
proof -
  obtain k where k: "length (hash_table sh) = 2 ^ k" "k < 32" "unat (prop_hash_mask sh) + 1 = length (hash_table sh)"
    using mask_okD [of "prop_hash_mask sh" "length (hash_table sh)"] t by (auto simp: table_ok_def)
  have pc: "prop_count sh < 2 ^ 26" "prop_size sh = prop_count sh" "2 \<le> prop_size sh" using t s by (simp_all add: table_ok_def JS_PROP_INITIAL_SIZE_def)
  have n: "n < 2 ^ 28" "prop_count sh \<le> n" "2 \<le> n" unfolding s(2) using pc by simp_all
  obtain j where j: "grow_hash_size (2 ^ k) n = Some (2 ^ j)" "n \<le> 2 ^ j" "j = k \<or> 2 ^ j < 2 * n" using grow_hash_size_ok by blast
  have "j < 32"
  proof (cases "j = k")
    case False
    then have "(2 :: nat) ^ j < 2 ^ 29" using j(3) n(1) by simp
    then have "j < 29" by (simp only: power_strict_increasing_iff [of 2])
    then show ?thesis by simp
  qed (use k in simp)
  have g: "grow_hash_size (unat (prop_hash_mask sh) + 1) n = Some (2 ^ j)" using j(1) k by simp
  show ?thesis
  proof (cases "j = k")
    case True
    have "prop_hash_mask sh = word_of_nat (2 ^ k - 1)" using t k by (auto simp: table_ok_def mask_ok_def)
    then have "table_ok (sh\<lparr>prop_hash_mask := word_of_nat (2 ^ k - 1), prop_size := n, hash_table := hash_table sh, prps := prps sh\<rparr>)"
      using t k n by (intro table_ok_resized) (simp_all add: table_ok_def)
    then show ?thesis using g k True by (intro exI [of _ "2 ^ j"] exI [of _ "prps sh"] exI [of _ "hash_table sh"]) simp
  next
    case False
    then have ne: "(2 :: nat) ^ j \<noteq> 2 ^ k" by (metis power_inject_exp one_less_numeral_iff semiring_norm(76))
    have e: "chains_ok (word_of_nat (2 ^ j - 1)) [] (replicate (2 ^ j) 0)" by (simp add: chains_ok_def bucket_def)
    obtain ps tab where r: "rehash_loop (word_of_nat (2 ^ j - 1)) 0 (prps sh) (replicate (2 ^ j) 0) = Some (ps, tab)" "length tab = 2 ^ j"
      "chains_ok (word_of_nat (2 ^ j - 1)) ps tab" "map prop_atom ps = map prop_atom (prps sh)" "map flags ps = map flags (prps sh)"
      using rehash_loop_ok [OF e, of "prps sh"] mask_okI [OF \<open>j < 32\<close>] pc(1) by auto
    have "table_ok (sh\<lparr>prop_hash_mask := word_of_nat (2 ^ j - 1), prop_size := n, hash_table := tab, prps := ps\<rparr>)"
      by (rule table_ok_resized [OF t \<open>j < 32\<close> r(4) n(2,3) r(3,2)])
    then show ?thesis using g k ne r by (intro exI [of _ "2 ^ j"] exI [of _ ps] exI [of _ tab]) simp
  qed
qed

text \<open>An object that alone holds its shape, while that shape is outside the hash table.\<close>

definition held :: "shape_rt \<Rightarrow> addr set \<Rightarrow> (addr \<Rightarrow> int) \<Rightarrow> addr \<Rightarrow> addr \<Rightarrow> JSShape \<Rightarrow> bool" where
  "held rt os ext p a sh \<longleftrightarrow> core_ok rt os ext \<and> hash_inv rt ((hkeys (shapes rt))(a := None)) \<and> p \<in> os
     \<and> obj_shape (objs rt p) = a \<and> shape_rc rt a = 1 \<and> shapes rt a = Some sh"

definition fresh :: "shape_rt \<Rightarrow> addr option \<Rightarrow> bool" where
  "fresh rt m \<longleftrightarrow> (\<forall>b. m = Some b \<longrightarrow> b \<noteq> 0 \<and> shapes rt b = None)"

lemma heldD:
  assumes "held rt os ext p a sh"
  shows "core_ok rt os ext" "hash_inv rt ((hkeys (shapes rt))(a := None))" "p \<in> os" "obj_shape (objs rt p) = a" "shape_rc rt a = 1"
    "shapes rt a = Some sh" "table_ok sh" "a \<noteq> 0" "prop_size sh \<le> length (obj_props (objs rt p))" "prop_count sh \<le> length (obj_props (objs rt p))"
    "obj_entries rt p = entries (prps sh) (obj_props (objs rt p))"
proof -
  show c: "core_ok rt os ext" "hash_inv rt ((hkeys (shapes rt))(a := None))" "p \<in> os" "obj_shape (objs rt p) = a" "shape_rc rt a = 1" "shapes rt a = Some sh"
    using assms by (simp_all add: held_def)
  show t: "table_ok sh" "a \<noteq> 0" using shape_okD(1,2) [OF core_okD(4) [OF c(1,6)]] by blast+
  show l: "prop_size sh \<le> length (obj_props (objs rt p))" using core_okD(5) [OF c(1,3)] c(4,6) by simp
  have "prop_count sh \<le> prop_size sh" using t by (simp add: table_ok_def)
  then show "prop_count sh \<le> length (obj_props (objs rt p))" using l by simp
  show "obj_entries rt p = entries (prps sh) (obj_props (objs rt p))" using c by (simp add: obj_entries_def)
qed

text \<open>The shape or the values of such an object are replaced.\<close>

lemma held_replace:
  assumes h: "held rt os ext p a sh" and b: "b \<noteq> 0" "b = a \<or> shapes rt b = None" and sh': "table_ok sh'" "prop_size sh' \<le> length vs"
    and rt': "shapes rt' = (shapes rt)(a := None, b := Some sh')" "shape_rc rt' = (shape_rc rt)(b := 1)"
      "objs rt' = (objs rt)(p := ob)" "obj_shape ob = b" "obj_props ob = vs" "shape_tab rt' = shape_tab rt" "shape_hash_bits rt' = shape_hash_bits rt"
  shows "held rt' os ext p b sh'" "others_same rt rt' os p" "obj_entries rt' p = entries (prps sh') vs"
proof -
  note H = heldD [OF h]
  note R = core_ok_replace [OF H(1,3,4,5) b sh' rt'(1-5)]
  have "(hkeys (shapes rt'))(b := None) = (hkeys (shapes rt))(a := None)"
    using b(2) H(6) unfolding rt'(1) by (intro ext) (auto simp: hkeys_def)
  then show "held rt' os ext p b sh'" using R(1) H(2,3) by (simp add: held_def rt')
  show "others_same rt rt' os p" "obj_entries rt' p = entries (prps sh') vs" by (fact R(2,3))+
qed

lemma resize_ok:
  assumes h: "held rt os ext p a sh" and m: "fresh rt m" and s: "prop_size sh \<le> prop_count sh"
  shows "\<exists>err b rt' sh'. resize_properties ok m a (Some p) (prop_count sh + 1) rt = Some (err, b, rt') \<and> held rt' os ext p b sh'
    \<and> others_same rt rt' os p \<and> obj_entries rt' p = obj_entries rt p \<and> is_hashed sh' = is_hashed sh
    \<and> (err = -1 \<and> b = a \<and> sh' = sh
      \<or> err = 0 \<and> map prop_atom (prps sh') = map prop_atom (prps sh) \<and> prop_count sh' < prop_size sh')"
proof (cases ok)
  case False
  then show ?thesis using h heldD(6) [OF h] by (intro exI [of _ "-1"] exI [of _ a] exI [of _ rt] exI [of _ sh]) (simp add: resize_properties_def)
next
  case True
  note H = heldD [OF h]
  define n where "n = max (prop_count sh + 1) (prop_size sh * 3 div 2)"
  define vs where "vs = realloc_props n (obj_props (objs rt p))"
  define rt1 where "rt1 = put_obj p ((objs rt p)\<lparr>obj_props := vs\<rparr>) rt"
  obtain hs ps tab where g: "grow_hash_size (unat (prop_hash_mask sh) + 1) n = Some hs"
    "(if hs \<noteq> unat (prop_hash_mask sh) + 1 then rehash_loop (word_of_nat (hs - 1)) 0 (prps sh) (replicate hs 0) else Some (prps sh, hash_table sh)) = Some (ps, tab)"
    "map prop_atom ps = map prop_atom (prps sh)" "map flags ps = map flags (prps sh)"
    "table_ok (sh\<lparr>prop_hash_mask := word_of_nat (hs - 1), prop_size := n, hash_table := tab, prps := ps\<rparr>)"
    using resized_table_ok [OF H(7) s n_def] by blast
  have ns: "prop_count sh < n" "prop_size sh \<le> n" unfolding n_def by linarith+
  have len: "length ps = prop_count sh" using g(3) by (metis length_map)
  have ev: "entries (prps sh) vs = obj_entries rt p" unfolding vs_def H(11) using H(10) ns(1) by (intro entries_realloc) simp_all
  show ?thesis
  proof (cases m)
    case None
    have e: "resize_properties ok m a (Some p) (prop_count sh + 1) rt = Some (-1, a, rt1)"
      unfolding resize_properties_def rt1_def vs_def using True None H(6) g(1) by (simp add: n_def Let_def)
    let ?ob = "(objs rt p)\<lparr>obj_props := vs\<rparr>"
    have r: "shapes rt1 = (shapes rt)(a := None, a := Some sh)" "shape_rc rt1 = (shape_rc rt)(a := 1)"
      "objs rt1 = (objs rt)(p := ?ob)" "obj_shape ?ob = a" "obj_props ?ob = vs" "shape_tab rt1 = shape_tab rt" "shape_hash_bits rt1 = shape_hash_bits rt"
      using H(4,5,6) by (auto simp: rt1_def)
    have l: "prop_size sh \<le> length vs" using ns by (simp add: vs_def)
    note R = held_replace [OF h H(8) disjI1 [OF refl] H(7) l r]
    show ?thesis using e ev R by (intro exI [of _ "-1"] exI [of _ a] exI [of _ rt1] exI [of _ sh]) simp
  next
    case (Some b)
    then have b: "b \<noteq> 0" "shapes rt b = None" using m by (auto simp: fresh_def)
    define sh1 where "sh1 = sh\<lparr>prop_hash_mask := word_of_nat (hs - 1), prop_size := n, hash_table := tab, prps := ps\<rparr>"
    define rt2 where "rt2 = rt1\<lparr>shapes := (shapes rt1)(a := None, b := Some sh1), shape_rc := (shape_rc rt1)(b := 1)\<rparr>"
    define rt3 where "rt3 = put_obj p ((objs rt2 p)\<lparr>obj_shape := b\<rparr>) rt2"
    have e: "resize_properties ok m a (Some p) (prop_count sh + 1) rt = Some (0, b, rt3)"
      unfolding resize_properties_def using True Some H(6) g(1,2)
      by (simp add: n_def Let_def rt3_def rt2_def rt1_def vs_def sh1_def)
    have l: "prop_size sh1 \<le> length vs" by (simp add: sh1_def vs_def)
    let ?ob = "(objs rt p)\<lparr>obj_props := vs, obj_shape := b\<rparr>"
    have r: "shapes rt3 = (shapes rt)(a := None, b := Some sh1)" "shape_rc rt3 = (shape_rc rt)(b := 1)"
      "objs rt3 = (objs rt)(p := ?ob)" "obj_shape ?ob = b" "obj_props ?ob = vs" "shape_tab rt3 = shape_tab rt" "shape_hash_bits rt3 = shape_hash_bits rt"
      by (simp_all add: rt3_def rt2_def rt1_def)
    note R = held_replace [OF h b(1) disjI2 [OF b(2)] g(5) [folded sh1_def] l r]
    moreover have "entries (prps sh1) vs = entries (prps sh) vs" using g(3,4) by (intro entries_cong) (simp_all add: sh1_def)
    ultimately show ?thesis using e ev g(3) ns(1) len
      by (intro exI [of _ 0] exI [of _ b] exI [of _ rt3] exI [of _ sh1]) (simp add: sh1_def)
  qed
qed

section \<open>A property is added\<close>

text \<open>The table of a shape that one object holds is changed in place.\<close>

lemma rt_ok_table:
  assumes r: "rt_ok rt os ext" and p: "p \<in> os" "obj_shape (objs rt p) = a" "shape_rc rt a = 1" "shapes rt a = Some sh"
    and sh': "table_ok sh'" "prop_size sh' \<le> length vs" "hkeys ((shapes rt)(a \<mapsto> sh')) = hkeys (shapes rt)"
    and rt': "shapes rt' = (shapes rt)(a \<mapsto> sh')" "shape_rc rt' = shape_rc rt" "objs rt' = (objs rt)(p := ob)" "obj_shape ob = a" "obj_props ob = vs"
      "shape_tab rt' = shape_tab rt" "shape_hash_bits rt' = shape_hash_bits rt"
  shows "rt_ok rt' os ext" "others_same rt rt' os p" "obj_entries rt' p = entries (prps sh') vs"
proof -
  have c: "core_ok rt os ext" and h: "hash_inv rt (hkeys (shapes rt))" using r by (simp_all add: rt_ok_def)
  have z: "a \<noteq> 0" by (rule shape_okD(1) [OF core_okD(4) [OF c p(4)]])
  have e: "shapes rt' = (shapes rt)(a := None, a := Some sh')" "shape_rc rt' = (shape_rc rt)(a := 1)" using rt' p(3) by auto
  note R = core_ok_replace [OF c p(1-3) z disjI1 [OF refl] sh'(1,2) e rt'(3-5)]
  show "rt_ok rt' os ext" using R(1) h sh'(3) by (simp add: rt_ok_def rt')
  show "others_same rt rt' os p" "obj_entries rt' p = entries (prps sh') vs" by (fact R(2,3))+
qed

lemma JS_DupAtom_frame [simp]:
  "shapes (JS_DupAtom x rt) = shapes rt" "objs (JS_DupAtom x rt) = objs rt" "shape_rc (JS_DupAtom x rt) = shape_rc rt"
  "shape_tab (JS_DupAtom x rt) = shape_tab rt" "shape_hash_bits (JS_DupAtom x rt) = shape_hash_bits rt"
  by (simp_all add: JS_DupAtom_def)

lemma JS_FreeAtom_frame [simp]:
  "shapes (JS_FreeAtom x rt) = shapes rt" "objs (JS_FreeAtom x rt) = objs rt" "shape_rc (JS_FreeAtom x rt) = shape_rc rt"
  "shape_tab (JS_FreeAtom x rt) = shape_tab rt" "shape_hash_bits (JS_FreeAtom x rt) = shape_hash_bits rt"
  by (simp_all add: JS_FreeAtom_def)

lemma rt_ok_cong:
  assumes "rt_ok rt os ext" "shapes rt' = shapes rt" "objs rt' = objs rt" "shape_rc rt' = shape_rc rt" "shape_tab rt' = shape_tab rt" "shape_hash_bits rt' = shape_hash_bits rt"
  shows "rt_ok rt' os ext" "others_same rt rt' os p" "obj_entries rt' q = obj_entries rt q"
proof -
  have "core_ok rt os ext" using assms(1) by (simp add: rt_ok_def)
  note R = core_ok_links [OF this _ assms(3,4), unfolded assms(2), OF refl]
  show "rt_ok rt' os ext" using R(1) assms by (simp add: rt_ok_def)
  show "others_same rt rt' os p" "obj_entries rt' q = obj_entries rt q" by (fact R)+
qed

text \<open>The shape goes back into the hash table under its new hash value.\<close>

lemma rehashed_ok:
  assumes h: "held rt os ext p a sh"
  shows "\<exists>rt1 sh1. (if is_hashed sh then js_shape_hash_link a (put_shape a (sh\<lparr>hash := hv\<rparr>) rt) else Some rt) = Some rt1 \<and> rt_ok rt1 os ext
    \<and> shapes rt1 a = Some sh1 \<and> table_ok sh1 \<and> prps sh1 = prps sh \<and> prop_size sh1 = prop_size sh \<and> objs rt1 = objs rt \<and> shape_rc rt1 = shape_rc rt
    \<and> others_same rt rt1 os p \<and> obj_entries rt1 p = obj_entries rt p"
proof (cases "is_hashed sh")
  case True
  note H = heldD [OF h]
  let ?sh = "sh\<lparr>hash := hv\<rparr>" and ?rt = "put_shape a (sh\<lparr>hash := hv\<rparr>) rt"
  have e: "shapes ?rt = (shapes rt)(a := None, a := Some ?sh)" "shape_rc ?rt = (shape_rc rt)(a := 1)" "objs ?rt = (objs rt)(p := objs rt p)"
    "obj_shape (objs rt p) = a" "obj_props (objs rt p) = obj_props (objs rt p)" "shape_tab ?rt = shape_tab rt" "shape_hash_bits ?rt = shape_hash_bits rt"
    using H(4,5) by auto
  have t: "table_ok ?sh" "prop_size ?sh \<le> length (obj_props (objs rt p))" using H(7,9) by simp_all
  note R = held_replace [OF h H(8) disjI1 [OF refl] t e]
  obtain rt1 n where l: "js_shape_hash_link a ?rt = Some rt1" "rt_ok rt1 os ext" "shapes rt1 a = Some (?sh\<lparr>shape_hash_next := n\<rparr>)" "objs rt1 = objs ?rt"
    "shape_rc rt1 = shape_rc ?rt" "unlinked (shapes rt1) = unlinked (shapes ?rt)"
    using attach_ok [OF heldD(1,2,6) [OF R(1)]] True by auto
  note L = core_ok_links [OF heldD(1) [OF R(1)] l(6,4,5)]
  have "others_same rt rt1 os p" by (rule others_same_trans [OF R(2) L(3)])
  moreover have "obj_entries rt1 p = obj_entries rt p" using L(2) R(3) H(11) by simp
  ultimately show ?thesis using True l H(7) by (intro exI [of _ rt1] exI [of _ "?sh\<lparr>shape_hash_next := n\<rparr>"]) simp
next
  case False
  note H = heldD [OF h]
  then have "rt_ok rt os ext" using attach_ok [OF H(1,2,6)] False by auto
  then show ?thesis using False H(6,7) by (intro exI [of _ rt] exI [of _ sh]) simp
qed

lemma held_detached:
  assumes r: "rt_ok rt os ext" and p: "p \<in> os" "obj_shape (objs rt p) = a" "shape_rc rt a = 1" "shapes rt a = Some sh"
  shows "\<exists>rt1. (if is_hashed sh then js_shape_hash_unlink a rt else Some rt) = Some rt1 \<and> held rt1 os ext p a sh
    \<and> (\<forall>m. fresh rt m \<longrightarrow> fresh rt1 m) \<and> others_same rt rt1 os p \<and> obj_entries rt1 p = obj_entries rt p \<and> objs rt1 = objs rt"
proof -
  obtain rt1 where d: "(if is_hashed sh then js_shape_hash_unlink a rt else Some rt) = Some rt1" "core_ok rt1 os ext"
    "hash_inv rt1 ((hkeys (shapes rt1))(a := None))" "shapes rt1 a = Some sh" "objs rt1 = objs rt" "shape_rc rt1 = shape_rc rt"
    "unlinked (shapes rt1) = unlinked (shapes rt)" using detach_ok [OF r p(4)] by blast
  have "core_ok rt os ext" using r by (simp add: rt_ok_def)
  note L = core_ok_links [OF this d(7,5,6)]
  have "held rt1 os ext p a sh" using d p by (simp add: held_def)
  moreover have "fresh rt m \<longrightarrow> fresh rt1 m" for m using unlinked_None [OF d(7)] by (simp add: fresh_def)
  ultimately show ?thesis using d(1,5) L(2,3) by blast
qed

lemma add_shape_property_ok:
  assumes r: "rt_ok rt os ext" and p: "p \<in> os" "obj_shape (objs rt p) = a" "shape_rc rt a = 1" "shapes rt a = Some sh" and m: "fresh rt m"
    and x: "x \<noteq> 0" "x \<notin> prop_atom ` set (prps sh)" "prop_count sh + 1 < 2 ^ 26" "fl < 2 ^ 6"
  shows "\<exists>err b rt'. add_shape_property ok m a (Some p) x fl rt = Some (err, b, rt') \<and> rt_ok rt' os ext \<and> others_same rt rt' os p
    \<and> (err = -1 \<and> obj_entries rt' p = obj_entries rt p
      \<or> err = 0 \<and> (\<exists>sh'. shapes rt' (obj_shape (objs rt' p)) = Some sh' \<and> prop_count sh' = Suc (prop_count sh)
        \<and> prop_count sh < length (obj_props (objs rt' p))
        \<and> (\<forall>v. entries (prps sh') ((obj_props (objs rt' p))[prop_count sh := v]) = obj_entries rt p @ [(x, fl, v)])))"
proof -
  let ?hv = "shape_hash (shape_hash (hash sh) x) (word_of_nat fl)"
  obtain rt1 where d: "(if is_hashed sh then js_shape_hash_unlink a rt else Some rt) = Some rt1" "held rt1 os ext p a sh" "fresh rt1 m"
    "others_same rt rt1 os p" "obj_entries rt1 p = obj_entries rt p" using held_detached [OF r p] m by blast
  obtain err b rt2 sh1 where z: "(if prop_size sh \<le> prop_count sh then resize_properties ok m a (Some p) (prop_count sh + 1) rt1 else Some (0, a, rt1)) = Some (err, b, rt2)"
    "held rt2 os ext p b sh1" "others_same rt1 rt2 os p" "obj_entries rt2 p = obj_entries rt1 p" "is_hashed sh1 = is_hashed sh"
    "err = -1 \<and> b = a \<and> sh1 = sh \<or> err = 0 \<and> map prop_atom (prps sh1) = map prop_atom (prps sh) \<and> prop_count sh1 < prop_size sh1"
  proof (cases "prop_size sh \<le> prop_count sh")
    case True
    then show ?thesis using resize_ok [OF d(2,3) True, of ok] that by fastforce
  next
    case False
    then show ?thesis using that [of 0 a rt1 sh] d(2) by simp
  qed
  have o2: "others_same rt rt2 os p" "obj_entries rt2 p = obj_entries rt p" using others_same_trans [OF d(4) z(3)] z(4) d(5) by simp_all
  show ?thesis
  proof (cases "err = 0")
    case False
    then have e: "err = -1" "b = a" "sh1 = sh" using z(6) by auto
    obtain rt3 n where l: "(if is_hashed sh then js_shape_hash_link a rt2 else Some rt2) = Some rt3" "rt_ok rt3 os ext" "objs rt3 = objs rt2"
      "shape_rc rt3 = shape_rc rt2" "unlinked (shapes rt3) = unlinked (shapes rt2)" using attach_ok [OF heldD(1,2,6) [OF z(2)]] e by blast
    note L = core_ok_links [OF heldD(1) [OF z(2)] l(5,3,4)]
    have "add_shape_property ok m a (Some p) x fl rt = Some (-1, a, rt3)"
      unfolding add_shape_property_def using p(4) d(1) z(1) e(1,2) l(1) by (simp add: Let_def)
    moreover have "others_same rt rt3 os p" by (rule others_same_trans [OF o2(1) L(3)])
    ultimately show ?thesis using l(2) L(2) o2(2) by (intro exI [of _ "-1"] exI [of _ a] exI [of _ rt3]) simp
  next
    case True
    then have e: "map prop_atom (prps sh1) = map prop_atom (prps sh)" "prop_count sh1 < prop_size sh1" using z(6) by auto
    have pc: "prop_count sh1 = prop_count sh" using e(1) by (metis length_map)
    have "prop_atom ` set (prps sh1) = prop_atom ` set (prps sh)" using e(1) by (metis set_map)
    then have x2: "x \<notin> prop_atom ` set (prps sh1)" using x(2) by simp
    note H = heldD [OF z(2)]
    obtain rt3 sh2 where l: "(if is_hashed sh1 then js_shape_hash_link b (put_shape b (sh1\<lparr>hash := ?hv\<rparr>) rt2) else Some rt2) = Some rt3" "rt_ok rt3 os ext"
      "shapes rt3 b = Some sh2" "table_ok sh2" "prps sh2 = prps sh1" "prop_size sh2 = prop_size sh1" "objs rt3 = objs rt2" "shape_rc rt3 = shape_rc rt2"
      "others_same rt2 rt3 os p" "obj_entries rt3 p = obj_entries rt2 p" using rehashed_ok [OF z(2)] by blast
    have a1: "x \<notin> prop_atom ` set (prps sh2)" "prop_count sh2 < prop_size sh2" "prop_count sh2 + 1 < 2 ^ 26"
      using x2 e(2) pc x(3) l(5,6) by simp_all
    obtain nx tab where n: "new_property x fl sh2 = Some (sh2\<lparr>hash_table := tab, prps := prps sh2 @ [\<lparr>hash_next = nx, flags = fl, prop_atom = x\<rparr>]\<rparr>)"
      "table_ok (sh2\<lparr>hash_table := tab, prps := prps sh2 @ [\<lparr>hash_next = nx, flags = fl, prop_atom = x\<rparr>]\<rparr>)"
      using new_property_ok [OF l(4) x(1) a1 x(4)] by blast
    define sh3 where "sh3 = sh2\<lparr>hash_table := tab, prps := prps sh2 @ [\<lparr>hash_next = nx, flags = fl, prop_atom = x\<rparr>]\<rparr>"
    define rt4 where "rt4 = JS_DupAtom x (put_shape b sh3 rt3)"
    let ?vs = "obj_props (objs rt2 p)"
    have q: "obj_shape (objs rt3 p) = b" "shape_rc rt3 b = 1" "prop_size sh3 \<le> length ?vs" "hkeys ((shapes rt3)(b \<mapsto> sh3)) = hkeys (shapes rt3)"
      using H(4,5,9) l by (auto simp: sh3_def hkeys_def intro!: ext split: option.splits)
    have w: "shapes rt4 = (shapes rt3)(b \<mapsto> sh3)" "shape_rc rt4 = shape_rc rt3" "objs rt4 = (objs rt3)(p := objs rt2 p)" "obj_shape (objs rt2 p) = b" "?vs = ?vs"
      "shape_tab rt4 = shape_tab rt3" "shape_hash_bits rt4 = shape_hash_bits rt3" using l(7) H(4) by (auto simp: rt4_def)
    have t3: "table_ok sh3" using n(2) by (simp add: sh3_def)
    note R = rt_ok_table [OF l(2) p(1) q(1,2) l(3) t3 q(3,4) w]
    have "add_shape_property ok m a (Some p) x fl rt = Some (0, b, rt4)"
      unfolding add_shape_property_def using p(4) d(1) z(1) True l(1,3) n(1) H(6) by (simp add: Let_def rt4_def sh3_def)
    moreover have "others_same rt rt4 os p" by (rule others_same_trans [OF others_same_trans [OF o2(1) l(9)] R(2)])
    moreover have "objs rt4 p = objs rt2 p" using w(3) by simp
    moreover have "prop_count sh < length ?vs" using H(9) e(2) pc by simp
    moreover have "entries (prps sh3) (?vs[prop_count sh := v]) = obj_entries rt p @ [(x, fl, v)]" for v
      using entries_snoc [of "prps sh1" ?vs "\<lparr>hash_next = nx, flags = fl, prop_atom = x\<rparr>" v] x(1) l(5) H(11) o2(2) calculation(4) pc by (simp add: sh3_def)
    moreover have "prop_count sh3 = Suc (prop_count sh)" using l(5) pc by (simp add: sh3_def)
    ultimately show ?thesis using R(1) w H(4) by (intro exI [of _ 0] exI [of _ b] exI [of _ rt4]) auto
  qed
qed

end
