(* ===== verification/ShapesAdd.thy ===== *)
theory ShapesAdd
  imports ShapesCorrect
begin

text \<open>
  \<open>add_property\<close> appends one property to one object. The object first gets a shape that it may
  change: an existing shape with the same properties and the new one, a clone of a shared
  shape, or its own shape when nothing shares it.
\<close>

section \<open>An object moves to another shape\<close>

lemma core_ok_move:
  assumes c: "core_ok rt os ext" and p: "p \<in> os" "obj_shape (objs rt p) = a" "shapes rt a = Some sh"
    and b: "b \<noteq> 0" "b \<noteq> a" "shapes rt b = None \<and> n = 1 \<or> shapes rt b = Some shb \<and> is_hashed shb \<and> n = shape_rc rt b + 1"
    and shb: "table_ok shb" "prop_size shb \<le> length vs"
    and rt': "shapes rt' = (if shape_rc rt a = 1 then (shapes rt)(b := Some shb, a := None) else (shapes rt)(b := Some shb))"
      "shape_rc rt' = (shape_rc rt)(b := n, a := shape_rc rt a - 1)" "objs rt' = (objs rt)(p := ob)" "obj_shape ob = b" "obj_props ob = vs"
  shows "core_ok rt' os ext" "others_same rt rt' os p" "obj_entries rt' p = entries (prps shb) vs"
proof -
  have sa: "shape_ok rt os ext a sh" by (rule core_okD(4) [OF c p(3)])
  have sole: "ext a = 0 \<and> holders rt os a = {p} \<and> (\<forall>q. q \<in> os \<longrightarrow> q \<noteq> p \<longrightarrow> obj_shape (objs rt q) \<noteq> a)" if "shape_rc rt a = 1"
    using holders_sole [OF c p(1,2) that] by blast
  have f: "finite (holders rt os x)" for x using core_okD(1) [OF c] by (simp add: holders_def)
  have hb: "holders rt' os b = insert p (holders rt os b)" using p(1) by (auto simp: holders_def rt')
  have ha: "holders rt' os a = holders rt os a - {p}" using b(2) by (auto simp: holders_def rt')
  have hx: "holders rt' os x = holders rt os x" if "x \<noteq> a" "x \<noteq> b" for x using that p(2) by (auto simp: holders_def rt' split: if_splits)
  have pa: "p \<in> holders rt os a" "p \<notin> holders rt os b" using p b(2) by (auto simp: holders_def)
  have ca: "int (card (holders rt' os a)) = int (card (holders rt os a)) - 1"
    using pa(1) f [of a] card_gt_0_iff [of "holders rt os a"] by (auto simp: ha card_Diff_singleton)
  have cb: "int (card (holders rt' os b)) = int (card (holders rt os b)) + 1" using pa(2) f by (simp add: hb)
  have oa: "shapes rt' (obj_shape (objs rt q)) = shapes rt (obj_shape (objs rt q))" if q: "q \<in> os" "q \<noteq> p" for q
    using sole q b(3) core_okD(5) [OF c q(1)] by (auto simp: rt' split: if_splits)
  show "core_ok rt' os ext"
  proof (rule core_okI)
    show "finite os" "\<And>a. 0 \<le> ext a" using core_okD(1,2) [OF c] by blast+
    show "ext x = 0" if "shapes rt' x = None" for x
      using that core_okD(3) [OF c, of x] sole by (auto simp: rt' split: if_splits)
    show "shape_ok rt' os ext x s" if s: "shapes rt' x = Some s" for x s
    proof -
      consider "x = b" | "x = a" "x \<noteq> b" | "x \<noteq> a" "x \<noteq> b" by blast
      then show ?thesis
      proof cases
        case 1
        then have e: "s = shb" using s b(2) by (auto simp: rt' split: if_splits)
        from b(3) show ?thesis
        proof
          assume nb: "shapes rt b = None \<and> n = 1"
          then have "holders rt os b = {}" using core_okD(5) [OF c] by (force simp: holders_def)
          then show ?thesis using 1 e nb shb(1) b(1,2) cb core_okD(3) [OF c, of b] by (simp add: shape_ok_def rt')
        next
          assume nb: "shapes rt b = Some shb \<and> is_hashed shb \<and> n = shape_rc rt b + 1"
          have "shape_ok rt os ext b shb" using core_okD(4) [OF c] nb by blast
          then show ?thesis using 1 e nb b(1,2) cb by (auto simp: shape_ok_def rt')
        qed
      next
        case 2
        then have n1: "shape_rc rt a \<noteq> 1" "s = sh" using s p(3) b(2) by (auto simp: rt' split: if_splits)
        have "is_hashed sh" "2 \<le> shape_rc rt a" using shape_okD(3,4) [OF sa] n1(1) by fastforce+
        then show ?thesis using 2 n1 sa ca by (auto simp: shape_ok_def rt')
      next
        case 3
        then have "shapes rt x = Some s" using s by (auto simp: rt' split: if_splits)
        moreover have "shape_rc rt' x = shape_rc rt x" using 3 by (simp add: rt')
        ultimately show ?thesis using core_okD(4) [OF c, of x s] hx [OF 3] unfolding shape_ok_def by metis
      qed
    qed
    show "\<exists>s. shapes rt' (obj_shape (objs rt' q)) = Some s \<and> prop_size s \<le> length (obj_props (objs rt' q))" if q: "q \<in> os" for q
    proof (cases "q = p")
      case True
      then show ?thesis using shb(2) b(2) by (simp add: rt')
    next
      case False
      have "shapes rt' (obj_shape (objs rt' q)) = shapes rt (obj_shape (objs rt q))" "obj_props (objs rt' q) = obj_props (objs rt q)"
        using False oa [OF q False] by (simp_all add: rt'(3))
      then show ?thesis using core_okD(5) [OF c q] by simp
    qed
  qed
  show "others_same rt rt' os p"
    unfolding others_same_def
  proof (intro ballI impI)
    fix q assume q: "q \<in> os" "q \<noteq> p"
    then have e: "shapes rt' (obj_shape (objs rt' q)) = shapes rt (obj_shape (objs rt q))" "obj_props (objs rt' q) = obj_props (objs rt q)"
      using oa [OF q] by (simp_all add: rt'(3))
    show "obj_entries rt' q = obj_entries rt q" by (rule obj_entries_cong [OF e])
  qed
  show "obj_entries rt' p = entries (prps shb) vs" using b(2) by (simp add: obj_entries_def rt')
qed

section \<open>Frames\<close>

lemma fold_DupAtom_frame [simp]:
  "shapes (fold JS_DupAtom xs rt) = shapes rt" "objs (fold JS_DupAtom xs rt) = objs rt" "shape_rc (fold JS_DupAtom xs rt) = shape_rc rt"
  "shape_tab (fold JS_DupAtom xs rt) = shape_tab rt" "shape_hash_bits (fold JS_DupAtom xs rt) = shape_hash_bits rt"
  by (induction xs arbitrary: rt) simp_all

lemma fold_FreeAtom_frame [simp]:
  "shapes (fold JS_FreeAtom xs rt) = shapes rt" "objs (fold JS_FreeAtom xs rt) = objs rt" "shape_rc (fold JS_FreeAtom xs rt) = shape_rc rt"
  "shape_tab (fold JS_FreeAtom xs rt) = shape_tab rt" "shape_hash_bits (fold JS_FreeAtom xs rt) = shape_hash_bits rt"
  by (induction xs arbitrary: rt) simp_all

lemma proto_frame [simp]:
  "shapes (dup_proto q rt) = shapes rt" "objs (dup_proto q rt) = objs rt" "shape_rc (dup_proto q rt) = shape_rc rt"
  "shape_tab (dup_proto q rt) = shape_tab rt" "shape_hash_bits (dup_proto q rt) = shape_hash_bits rt"
  "shapes (free_proto q rt) = shapes rt" "objs (free_proto q rt) = objs rt" "shape_rc (free_proto q rt) = shape_rc rt"
  "shape_tab (free_proto q rt) = shape_tab rt" "shape_hash_bits (free_proto q rt) = shape_hash_bits rt"
  by (simp_all add: dup_proto_def free_proto_def)

lemma rt_ok_objs:
  assumes r: "rt_ok rt os ext" and o: "\<And>q. obj_shape (f q) = obj_shape (objs rt q)" "\<And>q. obj_props (f q) = obj_props (objs rt q)"
  shows "rt_ok (rt\<lparr>objs := f\<rparr>) os ext" "obj_entries (rt\<lparr>objs := f\<rparr>) q = obj_entries rt q"
proof -
  let ?rt = "rt\<lparr>objs := f\<rparr>"
  have h: "holders ?rt os a = holders rt os a" for a by (simp add: holders_def o)
  have s: "shape_ok ?rt os ext a sh = shape_ok rt os ext a sh" for a sh by (simp add: shape_ok_def h)
  show "rt_ok ?rt os ext" using r by (simp add: rt_ok_def core_ok_def s o)
  have e: "objs ?rt = f" "shapes ?rt = shapes rt" by simp_all
  show "obj_entries ?rt q = obj_entries rt q" unfolding obj_entries_def e o ..
qed

lemma reset_array_prototype_frame:
  "\<exists>f. reset_array_prototype p rt = rt\<lparr>objs := f\<rparr> \<and> (\<forall>q. obj_shape (f q) = obj_shape (objs rt q) \<and> obj_props (f q) = obj_props (objs rt q))"
proof -
  have u: "\<exists>f. put_obj r ((objs rt r)\<lparr>is_std_array_prototype := False\<rparr>) rt = rt\<lparr>objs := f\<rparr>
     \<and> (\<forall>q. obj_shape (f q) = obj_shape (objs rt q) \<and> obj_props (f q) = obj_props (objs rt q))" for r
    by (intro exI [of _ "(objs rt)(r := (objs rt r)\<lparr>is_std_array_prototype := False\<rparr>)"]) simp
  have i: "\<exists>f. rt = rt\<lparr>objs := f\<rparr> \<and> (\<forall>q. obj_shape (f q) = obj_shape (objs rt q) \<and> obj_props (f q) = obj_props (objs rt q))"
    by (intro exI [of _ "objs rt"]) simp
  show ?thesis
  proof (cases "is_std_array_prototype (objs rt p)")
    case True
    then show ?thesis using u [of p] by (simp add: reset_array_prototype_def)
  next
    case False
    show ?thesis
    proof (cases "has_immutable_prototype (objs rt p)")
      case True
      show ?thesis
      proof (cases "find (\<lambda>(ob, _). ob = Some p) (context_protos rt)")
        case None
        then show ?thesis using i False True by (simp add: reset_array_prototype_def)
      next
        case (Some e)
        obtain x y where e: "e = (x, y)" by (cases e)
        show ?thesis
        proof (cases y)
          case None
          then show ?thesis using i False True Some e by (simp add: reset_array_prototype_def)
        next
          case (Some q)
          then show ?thesis using u [of q] False True \<open>find _ _ = Some e\<close> e by (simp add: reset_array_prototype_def)
        qed
      qed
    next
      case imm: False
      then show ?thesis using i False by (simp add: reset_array_prototype_def)
    qed
  qed
qed

section \<open>The new property\<close>

definition set_value :: "addr \<Rightarrow> nat \<Rightarrow> js_property \<Rightarrow> shape_rt \<Rightarrow> shape_rt" where
  "set_value p i v rt = put_obj p ((objs rt p)\<lparr>obj_props := (obj_props (objs rt p))[i := Some v]\<rparr>) rt"

text \<open>The slot that \<open>add_property\<close> returns, once the caller has written the value into it.\<close>

definition added :: "shape_rt \<Rightarrow> addr \<Rightarrow> atom \<Rightarrow> nat \<Rightarrow> nat option \<times> shape_rt \<Rightarrow> bool" where
  "added rt p x fl r \<longleftrightarrow>
     (case fst r of
        None \<Rightarrow> obj_entries (snd r) p = obj_entries rt p
      | Some i \<Rightarrow> i < length (obj_props (objs (snd r) p))
          \<and> (\<forall>v. obj_entries (set_value p i v (snd r)) p = obj_entries rt p @ [(x, fl, Some v)]))"

lemma obj_entries_set_value:
  "shapes rt (obj_shape (objs rt p)) = Some sh \<Longrightarrow> obj_entries (set_value p i v rt) p = entries (prps sh) ((obj_props (objs rt p))[i := Some v])"
  by (simp add: obj_entries_def set_value_def)

lemma add_own_property_ok:
  assumes r: "rt_ok rt os ext" and p: "p \<in> os" "shape_rc rt (obj_shape (objs rt p)) = 1" "shapes rt (obj_shape (objs rt p)) = Some sh" and m: "fresh rt m"
    and x: "x \<noteq> 0" "x \<notin> prop_atom ` set (prps sh)" "prop_count sh + 1 < 2 ^ 26" "fl < 2 ^ 6"
  shows "\<exists>i rt'. add_own_property ok m p x fl rt = Some (i, rt') \<and> rt_ok rt' os ext \<and> others_same rt rt' os p \<and> added rt p x fl (i, rt')"
proof -
  obtain err b rt' where e: "add_shape_property ok m (obj_shape (objs rt p)) (Some p) x fl rt = Some (err, b, rt')" "rt_ok rt' os ext" "others_same rt rt' os p"
    "err = -1 \<and> obj_entries rt' p = obj_entries rt p
      \<or> err = 0 \<and> (\<exists>sh'. shapes rt' (obj_shape (objs rt' p)) = Some sh' \<and> prop_count sh' = Suc (prop_count sh)
        \<and> prop_count sh < length (obj_props (objs rt' p))
        \<and> (\<forall>v. entries (prps sh') ((obj_props (objs rt' p))[prop_count sh := v]) = obj_entries rt p @ [(x, fl, v)]))"
    using add_shape_property_ok [OF r p(1) refl p(2,3) m x] by blast
  from e(4) show ?thesis
  proof
    assume f: "err = -1 \<and> obj_entries rt' p = obj_entries rt p"
    then have "add_own_property ok m p x fl rt = Some (None, rt')" using e(1) p(2) by (simp add: add_own_property_def)
    then show ?thesis using e(2,3) f by (intro exI [of _ None] exI [of _ rt']) (simp add: added_def)
  next
    assume f: "err = 0 \<and> (\<exists>sh'. shapes rt' (obj_shape (objs rt' p)) = Some sh' \<and> prop_count sh' = Suc (prop_count sh)
        \<and> prop_count sh < length (obj_props (objs rt' p))
        \<and> (\<forall>v. entries (prps sh') ((obj_props (objs rt' p))[prop_count sh := v]) = obj_entries rt p @ [(x, fl, v)]))"
    then obtain sh' where s: "shapes rt' (obj_shape (objs rt' p)) = Some sh'" "prop_count sh' = Suc (prop_count sh)" "prop_count sh < length (obj_props (objs rt' p))"
      "\<forall>v. entries (prps sh') ((obj_props (objs rt' p))[prop_count sh := v]) = obj_entries rt p @ [(x, fl, v)]" by blast
    have "add_own_property ok m p x fl rt = Some (Some (prop_count sh), rt')" using e(1) p(2) f s(1,2) by (simp add: add_own_property_def)
    moreover have "added rt p x fl (Some (prop_count sh), rt')" using s(3,4) obj_entries_set_value [OF s(1)] by (simp add: added_def)
    ultimately show ?thesis using e(2,3) by blast
  qed
qed

text \<open>An existing shape with the right properties is found.\<close>

definition extends :: "JSShape \<Rightarrow> atom \<Rightarrow> nat \<Rightarrow> JSShape \<Rightarrow> bool" where
  "extends sh x fl sh1 \<longleftrightarrow> prop_count sh1 = Suc (prop_count sh) \<and> list_all2 same_property (take (prop_count sh) (prps sh1)) (prps sh)
     \<and> prop_atom (prps sh1 ! prop_count sh) = x \<and> flags (prps sh1 ! prop_count sh) = fl"

lemma find_hashed_shape_prop_ok:
  assumes h: "hash_inv rt (hkeys (shapes rt))" and a: "shapes rt a = Some sh"
  shows "\<exists>b. find_hashed_shape_prop a x fl rt = Some b \<and> (b \<noteq> 0 \<longrightarrow> b \<noteq> a \<and> (\<exists>sh1. shapes rt b = Some sh1 \<and> is_hashed sh1 \<and> extends sh x fl sh1))"
proof -
  let ?h = "shape_hash (shape_hash (hash sh) x) (word_of_nat fl)"
  let ?f = "\<lambda>sh1. hash sh1 = ?h \<and> proto sh1 = proto sh \<and> prop_count sh1 = prop_count sh + 1
         \<and> list_all2 same_property (take (prop_count sh) (prps sh1)) (prps sh) \<and> prop_atom (prps sh1 ! prop_count sh) = x \<and> flags (prps sh1 ! prop_count sh) = fl"
  obtain b where b: "do { x \<leftarrow> rd (shape_tab rt) (get_shape_hash ?h (shape_hash_bits rt)); find_shape ?f x (shapes rt) } = Some b"
    "b \<noteq> 0 \<longrightarrow> (\<exists>sh1. shapes rt b = Some sh1 \<and> is_hashed sh1 \<and> ?f sh1)" using find_hashed_ok [OF h, of ?h ?f] by blast
  have "find_hashed_shape_prop a x fl rt = Some b" using a b(1) unfolding find_hashed_shape_prop_def Let_def by simp
  moreover have "b \<noteq> a \<and> (\<exists>sh1. shapes rt b = Some sh1 \<and> is_hashed sh1 \<and> extends sh x fl sh1)" if z: "b \<noteq> 0"
  proof -
    obtain sh1 where s: "shapes rt b = Some sh1" "is_hashed sh1" "?f sh1" using b(2) z by blast
    have n: "prop_count sh1 = prop_count sh + 1" using s(3) by blast
    have "sh1 \<noteq> sh" using n by (metis Suc_eq_plus1 n_not_Suc_n)
    then have "b \<noteq> a" using a s(1) by (metis option.inject)
    moreover have "extends sh x fl sh1" unfolding extends_def using s(3) n by simp
    ultimately show ?thesis using s(1,2) by blast
  qed
  ultimately show ?thesis by blast
qed

lemma extends_entries:
  assumes e: "extends sh x fl sh1" and l: "prop_count sh1 \<le> length vs" and x: "x \<noteq> 0"
  shows "entries (prps sh1) (vs[prop_count sh := v]) = entries (prps sh) vs @ [(x, fl, v)]"
proof -
  let ?n = "prop_count sh"
  have n: "prop_count sh1 = Suc ?n" using e by (simp add: extends_def)
  have s: "prps sh1 = take ?n (prps sh1) @ [prps sh1 ! ?n]" using n by (metis lessI order_refl take_Suc_conv_app_nth take_all)
  have r: "list_all2 same_property (take ?n (prps sh1)) (prps sh)" using e by (simp add: extends_def)
  have "map prop_atom (take ?n (prps sh1)) = map prop_atom (prps sh)" "map flags (take ?n (prps sh1)) = map flags (prps sh)"
    using r by (auto intro!: nth_equalityI simp: list_all2_conv_all_nth same_property_def)
  then have "entries (take ?n (prps sh1)) vs = entries (prps sh) vs" by (rule entries_cong)
  moreover have "entries (take ?n (prps sh1) @ [prps sh1 ! ?n]) (vs[?n := v]) = entries (take ?n (prps sh1)) vs @ [(x, fl, v)]"
    using entries_snoc [of "take ?n (prps sh1)" vs "prps sh1 ! ?n" v] n l x e by (simp add: extends_def)
  ultimately show ?thesis using arg_cong [OF s, of "\<lambda>ps. entries ps (vs[?n := v])"] by (simp only:)
qed

text \<open>The object moves to the shape \<open>b\<close>, and its old shape loses a reference.\<close>

lemma move_found_ok:
  assumes r: "rt_ok rt os ext" and p: "p \<in> os" "obj_shape (objs rt p) = a" "shapes rt a = Some sh" "is_hashed sh"
    and b: "shapes rt b = Some shb" "is_hashed shb" "b \<noteq> a" and l: "prop_size shb \<le> length vs"
  shows "\<exists>rt'. free_shape a (js_dup_shape b (put_obj p ((objs rt p)\<lparr>obj_shape := b, obj_props := vs\<rparr>) rt)) = Some rt' \<and> rt_ok rt' os ext
    \<and> others_same rt rt' os p \<and> (\<exists>s. shapes rt' (obj_shape (objs rt' p)) = Some s \<and> prps s = prps shb) \<and> obj_props (objs rt' p) = vs"
proof -
  have c: "core_ok rt os ext" and h: "hash_inv rt (hkeys (shapes rt))" using r by (simp_all add: rt_ok_def)
  have b0: "b \<noteq> 0" "table_ok shb" using shape_okD(1,2) [OF core_okD(4) [OF c b(1)]] by blast+
  have rca: "0 < shape_rc rt a" by (rule shape_okD(4) [OF core_okD(4) [OF c p(3)]])
  let ?ob = "(objs rt p)\<lparr>obj_shape := b, obj_props := vs\<rparr>"
  define rt1 where "rt1 = js_dup_shape b (put_obj p ?ob rt)"
  define rt2 where "rt2 = rt1\<lparr>shape_rc := (shape_rc rt1)(a := shape_rc rt a - 1)\<rparr>"
  have e2: "shapes rt2 = shapes rt" "objs rt2 = (objs rt)(p := ?ob)" "shape_rc rt2 = (shape_rc rt)(b := shape_rc rt b + 1, a := shape_rc rt a - 1)"
    "shape_tab rt2 = shape_tab rt" "shape_hash_bits rt2 = shape_hash_bits rt" "obj_shape ?ob = b" "obj_props ?ob = vs"
    by (simp_all add: rt2_def rt1_def js_dup_shape_def)
  have f: "free_shape a rt1 = (if shape_rc rt a - 1 \<le> 0 then free_shape0 a rt2 else Some rt2)"
    using p(3) b(3) unfolding rt2_def by (simp add: free_shape_def rt1_def js_dup_shape_def)
  show ?thesis
  proof (cases "shape_rc rt a = 1")
    case False
    have s: "shapes rt2 = (if shape_rc rt a = 1 then (shapes rt)(b := Some shb, a := None) else (shapes rt)(b := Some shb))"
      using False b(1) e2(1) by auto
    note M = core_ok_move [OF c p(1-3) b0(1) b(3) disjI2 b0(2) l s e2(3,2,6,7)]
    have "rt_ok rt2 os ext" using M(1) b(1,2) h e2 by (simp add: rt_ok_def)
    moreover have "free_shape a rt1 = Some rt2" using f False rca by simp
    moreover have "shapes rt2 (obj_shape (objs rt2 p)) = Some shb" "obj_props (objs rt2 p) = vs" using e2 b(1) by simp_all
    ultimately show ?thesis using M(2) b(1,2) unfolding rt1_def by blast
  next
    case True
    obtain shs tab where u: "js_shape_hash_unlink a rt2 = Some (rt2\<lparr>shapes := shs, shape_tab := tab, shape_hash_count := shape_hash_count rt2 - 1\<rparr>)"
      "unlinked shs = unlinked (shapes rt2)" "shs a = Some sh" "hash_ok (shape_hash_bits rt2) tab ((hkeys shs)(a := None))"
      using js_shape_hash_unlink_ok [of rt2 a sh] h e2 p(3,4) by auto
    define rt3 where "rt3 = rt2\<lparr>shapes := shs, shape_tab := tab, shape_hash_count := shape_hash_count rt2 - 1\<rparr>"
    define rt4 where "rt4 = fold JS_FreeAtom (map prop_atom (prps sh)) (free_proto (proto sh) rt3)"
    define rt5 where "rt5 = rt4\<lparr>shapes := (shapes rt4)(a := None)\<rparr>"
    have "shape_rc rt2 a = 0" using True by (simp add: e2)
    then have "free_shape a rt1 = Some rt5" using f True p(3,4) u(1) e2(1)
      by (simp add: free_shape0_def rt5_def rt4_def rt3_def Let_def)
    moreover have e5: "shapes rt5 = shs(a := None)" "objs rt5 = objs rt2" "shape_rc rt5 = shape_rc rt2" "shape_tab rt5 = tab" "shape_hash_bits rt5 = shape_hash_bits rt2"
      by (simp_all add: rt5_def rt4_def rt3_def)
    define rt0 where "rt0 = rt\<lparr>shapes := shs\<rparr>"
    have e0: "shapes rt0 = shs" "objs rt0 = objs rt" "shape_rc rt0 = shape_rc rt" by (simp_all add: rt0_def)
    have u0: "unlinked (shapes rt0) = unlinked (shapes rt)" using u(2) e2(1) e0 by simp
    note L = core_ok_links [OF c u0 e0(2,3)]
    obtain n where n: "shs b = Some (shb\<lparr>shape_hash_next := n\<rparr>)"
    proof -
      obtain s where s: "shs b = Some s" using unlinked_None [OF u0, of b] b(1) e0 by (cases "shs b") simp_all
      then show ?thesis using that unlinked_Some [OF u0, of b s] e0 b(1) by (metis option.inject)
    qed
    let ?shb = "shb\<lparr>shape_hash_next := n\<rparr>"
    have s: "shapes rt5 = (if shape_rc rt0 a = 1 then (shapes rt0)(b := Some ?shb, a := None) else (shapes rt0)(b := Some ?shb))"
      using True e0 e5 n by auto
    have e6: "shape_rc rt5 = (shape_rc rt0)(b := shape_rc rt0 b + 1, a := shape_rc rt0 a - 1)" "objs rt5 = (objs rt0)(p := ?ob)" using e5 e2 e0 by simp_all
    have q: "obj_shape (objs rt0 p) = a" "shapes rt0 a = Some sh" "shapes rt0 b = Some ?shb \<and> is_hashed ?shb \<and> shape_rc rt0 b + 1 = shape_rc rt0 b + 1"
      "table_ok ?shb" "prop_size ?shb \<le> length vs" using p u(3) e0 n b(2) b0(2) l by simp_all
    note M = core_ok_move [OF L(1) p(1) q(1,2) b0(1) b(3) disjI2 [OF q(3)] q(4,5) s e6 e2(6,7)]
    have "rt_ok rt5 os ext" using M(1) u(4) e5 by (simp add: rt_ok_def hkeys_del)
    moreover have "others_same rt rt5 os p" by (rule others_same_trans [OF L(3) M(2)])
    moreover have "shapes rt5 (obj_shape (objs rt5 p)) = Some ?shb" "obj_props (objs rt5 p) = vs" using e5 e2 n b(3) by simp_all
    ultimately show ?thesis unfolding rt1_def by fastforce
  qed
qed

section \<open>A shared shape is cloned\<close>

lemma clone_move_ok:
  assumes r: "rt_ok rt os ext" and p: "p \<in> os" "obj_shape (objs rt p) = a" "shapes rt a = Some sh" "shape_rc rt a \<noteq> 1" and c: "c \<noteq> 0" "shapes rt c = None"
    and rt': "shapes rt' = (shapes rt)(c \<mapsto> sh\<lparr>is_hashed := hs, shape_hash_next := n\<rparr>)" "shape_rc rt' = (shape_rc rt)(c := 1, a := shape_rc rt a - 1)"
      "objs rt' = (objs rt)(p := (objs rt p)\<lparr>obj_shape := c\<rparr>)" "hash_inv rt' (hkeys (shapes rt'))"
  shows "rt_ok rt' os ext" "others_same rt rt' os p" "obj_entries rt' p = obj_entries rt p" "shape_rc rt' c = 1"
proof -
  have k: "core_ok rt os ext" using r by (simp add: rt_ok_def)
  let ?sh = "sh\<lparr>is_hashed := hs, shape_hash_next := n\<rparr>" and ?ob = "(objs rt p)\<lparr>obj_shape := c\<rparr>"
  have ca: "c \<noteq> a" using c(2) p(3) by auto
  have t: "table_ok ?sh" "prop_size ?sh \<le> length (obj_props (objs rt p))"
    using shape_okD(2) [OF core_okD(4) [OF k p(3)]] core_okD(5) [OF k p(1)] p(2,3) by simp_all
  have s: "shapes rt' = (if shape_rc rt a = 1 then (shapes rt)(c := Some ?sh, a := None) else (shapes rt)(c := Some ?sh))" using p(4) rt'(1) by simp
  have o: "obj_shape ?ob = c" "obj_props ?ob = obj_props (objs rt p)" by simp_all
  note M = core_ok_move [OF k p(1-3) c(1) ca disjI1 t s rt'(2,3) o]
  show "rt_ok rt' os ext" using M(1) c(2) rt'(4) by (simp add: rt_ok_def)
  show "others_same rt rt' os p" using M(2) c(2) by simp
  show "obj_entries rt' p = obj_entries rt p" using M(3) c(2) p(2,3) by (simp add: obj_entries_def [of rt])
  show "shape_rc rt' c = 1" using ca by (simp add: rt'(2))
qed

lemma js_clone_shape_Some:
  assumes "shapes rt a = Some sh"
  shows "\<exists>rt1. js_clone_shape (Some c) a rt = Some (c, rt1) \<and> shapes rt1 = (shapes rt)(c \<mapsto> sh\<lparr>is_hashed := False\<rparr>) \<and> objs rt1 = objs rt
    \<and> shape_rc rt1 = (shape_rc rt)(c := 1) \<and> shape_tab rt1 = shape_tab rt \<and> shape_hash_bits rt1 = shape_hash_bits rt"
  using assms by (simp add: js_clone_shape_def)

lemma free_shape_shared:
  "shapes rt a = Some sh \<Longrightarrow> 1 < shape_rc rt a \<Longrightarrow> free_shape a rt = Some (rt\<lparr>shape_rc := (shape_rc rt)(a := shape_rc rt a - 1)\<rparr>)"
  by (simp add: free_shape_def)

lemma rc_shared:
  assumes "rt_ok rt os ext" "shapes rt a = Some sh" "shape_rc rt a \<noteq> 1"
  shows "1 < shape_rc rt a" "is_hashed sh"
  using shape_okD(3,4) [OF core_okD(4)] assms unfolding rt_ok_def by fastforce+

text \<open>The clone of \<open>add_property\<close> is hashed.\<close>

lemma clone_hashed_ok:
  assumes r: "rt_ok rt os ext" and p: "p \<in> os" "obj_shape (objs rt p) = a" "shapes rt a = Some sh" "shape_rc rt a \<noteq> 1" and c: "c \<noteq> 0" "shapes rt c = None"
  shows "\<exists>rt1 sh1 rt2 rt3 sh2. js_clone_shape (Some c) a rt = Some (c, rt1) \<and> shapes rt1 c = Some sh1
    \<and> js_shape_hash_link c (put_shape c (sh1\<lparr>is_hashed := True\<rparr>) rt1) = Some rt2 \<and> free_shape a rt2 = Some rt3
    \<and> (let rt4 = put_obj p ((objs rt3 p)\<lparr>obj_shape := c\<rparr>) rt3 in
       rt_ok rt4 os ext \<and> others_same rt rt4 os p \<and> obj_entries rt4 p = obj_entries rt p \<and> obj_shape (objs rt4 p) = c \<and> shape_rc rt4 c = 1
       \<and> shapes rt4 c = Some sh2 \<and> prps sh2 = prps sh \<and> (\<forall>x. x \<noteq> c \<longrightarrow> shapes rt4 x = shapes rt x))"
proof -
  have h: "hash_inv rt (hkeys (shapes rt))" using r by (simp add: rt_ok_def)
  note sr = rc_shared [OF r p(3,4)]
  have ca: "a \<noteq> c" using c(2) p(3) by auto
  obtain rt1 where k: "js_clone_shape (Some c) a rt = Some (c, rt1)" "shapes rt1 = (shapes rt)(c \<mapsto> sh\<lparr>is_hashed := False\<rparr>)" "objs rt1 = objs rt"
    "shape_rc rt1 = (shape_rc rt)(c := 1)" "shape_tab rt1 = shape_tab rt" "shape_hash_bits rt1 = shape_hash_bits rt" using js_clone_shape_Some [OF p(3)] by blast
  let ?s1 = "sh\<lparr>is_hashed := False\<rparr>" and ?s2 = "sh\<lparr>is_hashed := True\<rparr>"
  define rt1' where "rt1' = put_shape c (?s1\<lparr>is_hashed := True\<rparr>) rt1"
  have "(hkeys (shapes rt1'))(c := None) = hkeys (shapes rt)" using c(2) by (intro ext) (simp add: rt1'_def k(2) hkeys_def)
  then have h1: "hash_ok (shape_hash_bits rt1') (shape_tab rt1') ((hkeys (shapes rt1'))(c := None))" using h k(5,6) by (simp add: rt1'_def)
  have s1: "shapes rt1' c = Some ?s2" "is_hashed ?s2" by (simp_all add: rt1'_def)
  obtain n tab where l: "js_shape_hash_link c rt1' =
      Some (rt1'\<lparr>shapes := (shapes rt1')(c \<mapsto> ?s2\<lparr>shape_hash_next := n\<rparr>), shape_tab := tab, shape_hash_count := shape_hash_count rt1' + 1\<rparr>)"
    "hash_ok (shape_hash_bits rt1') tab (hkeys ((shapes rt1')(c \<mapsto> ?s2\<lparr>shape_hash_next := n\<rparr>)))" using js_shape_hash_link_ok [OF h1 s1 c(1)] by blast
  define rt2 where "rt2 = rt1'\<lparr>shapes := (shapes rt1')(c \<mapsto> ?s2\<lparr>shape_hash_next := n\<rparr>), shape_tab := tab, shape_hash_count := shape_hash_count rt1' + 1\<rparr>"
  have "shapes rt2 a = Some sh" "1 < shape_rc rt2 a" using ca p(3) sr by (simp_all add: rt2_def rt1'_def k)
  note f = free_shape_shared [OF this]
  define rt3 where "rt3 = rt2\<lparr>shape_rc := (shape_rc rt2)(a := shape_rc rt2 a - 1)\<rparr>"
  define rt4 where "rt4 = put_obj p ((objs rt3 p)\<lparr>obj_shape := c\<rparr>) rt3"
  have e4: "shapes rt4 = (shapes rt)(c \<mapsto> sh\<lparr>is_hashed := True, shape_hash_next := n\<rparr>)" "shape_rc rt4 = (shape_rc rt)(c := 1, a := shape_rc rt a - 1)"
    "objs rt4 = (objs rt)(p := (objs rt p)\<lparr>obj_shape := c\<rparr>)" using ca by (auto simp: rt4_def rt3_def rt2_def rt1'_def k)
  have h4: "hash_inv rt4 (hkeys (shapes rt4))" using l(2) by (simp add: rt4_def rt3_def rt2_def rt1'_def k)
  note M = clone_move_ok [OF r p c e4 h4]
  have "rt_ok rt4 os ext \<and> others_same rt rt4 os p \<and> obj_entries rt4 p = obj_entries rt p \<and> obj_shape (objs rt4 p) = c \<and> shape_rc rt4 c = 1
       \<and> shapes rt4 c = Some (sh\<lparr>is_hashed := True, shape_hash_next := n\<rparr>) \<and> prps (sh\<lparr>is_hashed := True, shape_hash_next := n\<rparr>) = prps sh
       \<and> (\<forall>x. x \<noteq> c \<longrightarrow> shapes rt4 x = shapes rt x)"
    using M e4 by simp
  moreover have "shapes rt1 c = Some ?s1" by (simp add: k(2))
  moreover have "js_shape_hash_link c (put_shape c (?s1\<lparr>is_hashed := True\<rparr>) rt1) = Some rt2" using l(1) unfolding rt1'_def rt2_def .
  moreover have "free_shape a rt2 = Some rt3" using f unfolding rt3_def .
  ultimately show ?thesis using k(1) unfolding Let_def rt4_def by blast
qed

section \<open>Adding a property\<close>

definition alloc_ok :: "shape_rt \<Rightarrow> (nat \<Rightarrow> addr option) \<Rightarrow> bool" where
  "alloc_ok rt m \<longleftrightarrow> fresh rt (m 0) \<and> fresh rt (m 1) \<and> (m 0 = None \<or> m 0 \<noteq> m 1)"

lemma absent_atom:
  assumes "shapes rt (obj_shape (objs rt p)) = Some sh" "prop_count sh \<le> length (obj_props (objs rt p))" "x \<noteq> 0"
  shows "x \<in> fst ` set (obj_entries rt p) \<longleftrightarrow> x \<in> prop_atom ` set (prps sh)"
proof -
  have "fst ` set (entries (prps sh) (obj_props (objs rt p))) = {prop_atom (prps sh ! i) | i. i < prop_count sh \<and> prop_atom (prps sh ! i) \<noteq> 0}"
    unfolding entries_nth using assms(2) by (force simp: min_def)
  moreover have "prop_atom ` set (prps sh) = {prop_atom (prps sh ! i) | i. i < prop_count sh}" by (force simp: set_conv_nth)
  ultimately show ?thesis using assms(1,3) by (auto simp: obj_entries_def)
qed

lemma added_cong:
  "obj_entries rt1 p = obj_entries rt p \<Longrightarrow> added rt1 p x fl r = added rt p x fl r"
  unfolding added_def by (simp only:)

lemma add_property_plain:
  assumes r: "rt_ok rt os ext" and p: "p \<in> os" "shapes rt (obj_shape (objs rt p)) = Some sh" and m: "alloc_ok rt m"
    and x: "x \<noteq> 0" "x \<notin> fst ` set (obj_entries rt p)" "prop_count sh + 1 < 2 ^ 26" "fl < 2 ^ 6" 
    and t: "(if JS_AtomIsTaggedInt x then reset_array_prototype p rt0 else rt0) = rt"
  shows "\<exists>i rt'. add_property ok m p x fl rt0 = Some (i, rt') \<and> rt_ok rt' os ext \<and> others_same rt rt' os p \<and> added rt p x fl (i, rt')"
proof -
  define a where "a = obj_shape (objs rt p)"
  have pa: "shapes rt a = Some sh" using p(2) by (simp add: a_def)
  have c: "core_ok rt os ext" and h: "hash_inv rt (hkeys (shapes rt))" using r by (simp_all add: rt_ok_def)
  have ts: "table_ok sh" by (rule shape_okD(2) [OF core_okD(4) [OF c pa]])
  have ps: "prop_size sh \<le> length (obj_props (objs rt p))" using core_okD(5) [OF c p(1)] p(2) by simp
  then have pl: "prop_count sh \<le> length (obj_props (objs rt p))" using ts by (simp add: table_ok_def)
  have ox: "x \<notin> prop_atom ` set (prps sh)" using absent_atom [OF p(2) pl x(1)] x(2) by blast
  have m1: "fresh rt (m 1)" using m by (simp add: alloc_ok_def)
  have own: "\<exists>i rt'. add_own_property (ok 1) (m 1) p x fl rt = Some (i, rt') \<and> rt_ok rt' os ext \<and> others_same rt rt' os p \<and> added rt p x fl (i, rt')"
    if "shape_rc rt a = 1"
    by (rule add_own_property_ok [OF r p(1) that [unfolded a_def] p(2) m1 x(1) ox x(3,4)])
  show ?thesis
  proof (cases "is_hashed sh")
    case False
    then have "shape_rc rt a = 1" using shape_okD(3) [OF core_okD(4) [OF c pa]] by blast
    moreover have "add_property ok m p x fl rt0 = add_own_property (ok 1) (m 1) p x fl rt"
      using t pa False by (simp add: add_property_def a_def [symmetric] Let_def)
    ultimately show ?thesis using own by simp
  next
    case hs: True
    obtain b where b: "find_hashed_shape_prop a x fl rt = Some b" "b \<noteq> 0 \<Longrightarrow> b \<noteq> a"
      "b \<noteq> 0 \<Longrightarrow> \<exists>sh1. shapes rt b = Some sh1 \<and> is_hashed sh1 \<and> extends sh x fl sh1" using find_hashed_shape_prop_ok [OF h pa, of x fl] by blast
    show ?thesis
    proof (cases "b = 0")
      case False
      obtain sh1 where s: "shapes rt b = Some sh1" "is_hashed sh1" "extends sh x fl sh1" using b(3) [OF False] by blast
      have t1: "table_ok sh1" by (rule shape_okD(2) [OF core_okD(4) [OF c s(1)]])
      define vs where "vs = (if prop_size sh1 \<noteq> prop_size sh then realloc_props (prop_size sh1) (obj_props (objs rt p)) else obj_props (objs rt p))"
      have lv: "prop_size sh1 \<le> length vs" using ps by (simp add: vs_def)
      have c1: "prop_count sh1 \<le> length vs" using lv t1 by (simp add: table_ok_def)
      have n1: "prop_count sh1 = Suc (prop_count sh)" using s(3) by (simp add: extends_def)
      show ?thesis
      proof (cases "prop_size sh1 \<noteq> prop_size sh \<and> \<not> ok 0")
        case True
        then have "add_property ok m p x fl rt0 = Some (None, rt)" using t pa hs b(1) False s(1) by (simp add: add_property_def a_def [symmetric] Let_def)
        then show ?thesis using r by (intro exI [of _ None] exI [of _ rt]) (simp add: added_def)
      next
        case go: False
        obtain rt' where f: "free_shape a (js_dup_shape b (put_obj p ((objs rt p)\<lparr>obj_shape := b, obj_props := vs\<rparr>) rt)) = Some rt'" "rt_ok rt' os ext"
          "others_same rt rt' os p" "\<exists>s. shapes rt' (obj_shape (objs rt' p)) = Some s \<and> prps s = prps sh1" "obj_props (objs rt' p) = vs"
          using move_found_ok [OF r p(1) a_def [symmetric] pa hs s(1,2) b(2) [OF False] lv] by blast
        obtain s' where s': "shapes rt' (obj_shape (objs rt' p)) = Some s'" "prps s' = prps sh1" using f(4) by blast
        have "add_property ok m p x fl rt0 = Some (Some (prop_count sh), rt')"
          using t pa hs b(1) False s(1) go f(1) n1 by (simp add: add_property_def a_def [symmetric] Let_def vs_def [symmetric])
        moreover have "added rt p x fl (Some (prop_count sh), rt')"
        proof -
          have ev: "entries (prps sh) vs = obj_entries rt p"
            using pa pl c1 n1 entries_realloc [of "prps sh" "obj_props (objs rt p)" "prop_size sh1"] t1
            by (simp add: obj_entries_def a_def [symmetric] vs_def table_ok_def)
          show ?thesis using extends_entries [OF s(3) c1 x(1)] ev obj_entries_set_value [OF s'(1)] s'(2) f(5) c1 n1 by (simp add: added_def)
        qed
        ultimately show ?thesis using f(2,3) by blast
      qed
    next
      case z: True
      show ?thesis
      proof (cases "shape_rc rt a = 1")
        case True
        then have "add_property ok m p x fl rt0 = add_own_property (ok 1) (m 1) p x fl rt"
          using t pa hs b(1) z by (simp add: add_property_def a_def [symmetric] Let_def)
        then show ?thesis using own [OF True] by simp
      next
        case sr: False
        show ?thesis
        proof (cases "m 0")
          case None
          then have "add_property ok m p x fl rt0 = Some (None, rt)" using t pa hs b(1) z sr by (simp add: add_property_def a_def [symmetric] Let_def js_clone_shape_def)
          then show ?thesis using r by (intro exI [of _ None] exI [of _ rt]) (simp add: added_def)
        next
          case (Some d)
          then have d: "d \<noteq> 0" "shapes rt d = None" using m by (auto simp: alloc_ok_def fresh_def)
          obtain rt1 sh1 rt2 rt3 sh2 where k: "js_clone_shape (Some d) a rt = Some (d, rt1)" "shapes rt1 d = Some sh1"
            "js_shape_hash_link d (put_shape d (sh1\<lparr>is_hashed := True\<rparr>) rt1) = Some rt2" "free_shape a rt2 = Some rt3"
            and k4: "let rt4 = put_obj p ((objs rt3 p)\<lparr>obj_shape := d\<rparr>) rt3 in
       rt_ok rt4 os ext \<and> others_same rt rt4 os p \<and> obj_entries rt4 p = obj_entries rt p \<and> obj_shape (objs rt4 p) = d \<and> shape_rc rt4 d = 1
       \<and> shapes rt4 d = Some sh2 \<and> prps sh2 = prps sh \<and> (\<forall>x. x \<noteq> d \<longrightarrow> shapes rt4 x = shapes rt x)"
            using clone_hashed_ok [OF r p(1) a_def [symmetric] pa sr d] by blast
          define rt4 where "rt4 = put_obj p ((objs rt3 p)\<lparr>obj_shape := d\<rparr>) rt3"
          have q: "rt_ok rt4 os ext" "others_same rt rt4 os p" "obj_entries rt4 p = obj_entries rt p" "obj_shape (objs rt4 p) = d" "shape_rc rt4 d = 1"
            "shapes rt4 d = Some sh2" "prps sh2 = prps sh" "\<And>x. x \<noteq> d \<Longrightarrow> shapes rt4 x = shapes rt x"
            using k4 unfolding rt4_def [symmetric] Let_def by blast+
          have m4: "fresh rt4 (m 1)" using m Some q(8) by (auto simp: alloc_ok_def fresh_def)
          have "shape_rc rt4 (obj_shape (objs rt4 p)) = 1" "shapes rt4 (obj_shape (objs rt4 p)) = Some sh2" "x \<notin> prop_atom ` set (prps sh2)" "prop_count sh2 + 1 < 2 ^ 26"
            using q ox x(3) by simp_all
          then obtain i rt' where g: "add_own_property (ok 1) (m 1) p x fl rt4 = Some (i, rt')" "rt_ok rt' os ext" "others_same rt4 rt' os p" "added rt4 p x fl (i, rt')"
            using add_own_property_ok [OF q(1) p(1) _ _ m4 x(1) _ _ x(4)] by blast
          have "add_property ok m p x fl rt0 = Some (i, rt')"
            using t pa hs b(1) z sr Some k g(1) d(1) by (simp add: add_property_def a_def [symmetric] Let_def rt4_def [symmetric])
          moreover have "others_same rt rt' os p" by (rule others_same_trans [OF q(2) g(3)])
          ultimately show ?thesis using g(2,4) added_cong [OF q(3)] by blast
        qed
      qed
    qed
  qed
qed

lemma add_property_ok:
  assumes r: "rt_ok rt os ext" and p: "p \<in> os" "shapes rt (obj_shape (objs rt p)) = Some sh" and m: "alloc_ok rt m"
    and x: "x \<noteq> 0" "x \<notin> fst ` set (obj_entries rt p)" "prop_count sh + 1 < 2 ^ 26" "fl < 2 ^ 6"
  shows "\<exists>i rt'. add_property ok m p x fl rt = Some (i, rt') \<and> rt_ok rt' os ext \<and> others_same rt rt' os p \<and> added rt p x fl (i, rt')"
proof -
  let ?rt1 = "if JS_AtomIsTaggedInt x then reset_array_prototype p rt else rt"
  obtain f where f: "reset_array_prototype p rt = rt\<lparr>objs := f\<rparr>" "\<And>q. obj_shape (f q) = obj_shape (objs rt q)" "\<And>q. obj_props (f q) = obj_props (objs rt q)"
    using reset_array_prototype_frame by blast
  note R = rt_ok_objs [OF r f(2,3)]
  have e: "rt_ok ?rt1 os ext" "shapes ?rt1 (obj_shape (objs ?rt1 p)) = Some sh" "alloc_ok ?rt1 m" "\<And>q. obj_entries ?rt1 q = obj_entries rt q"
    using r R p(2) m f by (simp_all add: alloc_ok_def fresh_def)
  have x2: "x \<notin> fst ` set (obj_entries ?rt1 p)" using x(2) unfolding e(4) .
  obtain i rt' where g: "add_property ok m p x fl rt = Some (i, rt')" "rt_ok rt' os ext" "others_same ?rt1 rt' os p" "added ?rt1 p x fl (i, rt')"
    using add_property_plain [OF e(1) p(1) e(2,3) x(1) x2 x(3,4) refl, of ok] by blast
  have "others_same rt rt' os p" using g(3) e(4) by (simp add: others_same_def)
  then show ?thesis using g(1,2,4) added_cong [OF e(4)] by blast
qed

end
