(* ===== verification/ShapesDelete.thy ===== *)
theory ShapesDelete
  imports ShapesAdd
begin

text \<open>
  Lookup, flag updates and deletion of own properties. A deleted property leaves a free entry in
  the table; when half of the entries are free the table and the values are compacted.
\<close>

unbundle bit_operations_syntax

lemma released_frame [simp]:
  "released (JS_DupAtom x rt) = released rt" "released (JS_FreeAtom x rt) = released rt" "released (dup_proto q rt) = released rt"
  "released (fold JS_DupAtom xs rt) = released rt"
  by (induction xs arbitrary: rt) (simp_all add: JS_DupAtom_def JS_FreeAtom_def dup_proto_def)

lemma obj_state:
  assumes "rt_ok rt os ext" "p \<in> os"
  obtains sh where "shapes rt (obj_shape (objs rt p)) = Some sh" "table_ok sh" "prop_size sh \<le> length (obj_props (objs rt p))"
    "prop_count sh \<le> length (obj_props (objs rt p))" "obj_entries rt p = entries (prps sh) (obj_props (objs rt p))"
proof -
  have c: "core_ok rt os ext" using assms(1) by (simp add: rt_ok_def)
  obtain sh where s: "shapes rt (obj_shape (objs rt p)) = Some sh" "prop_size sh \<le> length (obj_props (objs rt p))" using core_okD(5) [OF c assms(2)] by blast
  have t: "table_ok sh" by (rule shape_okD(2) [OF core_okD(4) [OF c s(1)]])
  then have "prop_count sh \<le> length (obj_props (objs rt p))" using s(2) by (simp add: table_ok_def)
  then show ?thesis using that s t by (simp add: obj_entries_def)
qed

section \<open>Lookup\<close>

lemma find_own_property_ok:
  assumes "rt_ok rt os ext" "p \<in> os" "x \<noteq> 0"
  shows "\<exists>r. find_own_property p x rt = Some r \<and> map_option (\<lambda>(pr, v). (flags pr, v)) r = map_of (obj_entries rt p) x"
proof -
  obtain sh where s: "shapes rt (obj_shape (objs rt p)) = Some sh" "table_ok sh" "prop_count sh \<le> length (obj_props (objs rt p))"
    "obj_entries rt p = entries (prps sh) (obj_props (objs rt p))" using obj_state [OF assms(1,2)] by blast
  have d: "distinct (filter (\<lambda>a. a \<noteq> 0) (map prop_atom (prps sh)))" using s(2) by (simp add: table_ok_def)
  have l: "map_of (obj_entries rt p) x = map_option (\<lambda>i. (flags (prps sh ! i), obj_props (objs rt p) ! i)) (index_of (prps sh) x)"
    unfolding s(4) by (rule entries_lookup [OF d assms(3) s(3)])
  show ?thesis
  proof (cases "index_of (prps sh) x")
    case None
    then show ?thesis using s(1) find_own_property1_ok [OF s(2) assms(3)] l by (simp add: find_own_property_def)
  next
    case (Some i)
    have "i < prop_count sh" using index_of_Some [OF Some] by simp
    then show ?thesis using s(1,3) find_own_property1_ok [OF s(2) assms(3)] l Some by (simp add: find_own_property_def rd_def)
  qed
qed

section \<open>A shape that may be changed\<close>

lemma held_unhashed:
  assumes "held rt os ext p a sh" "\<not> is_hashed sh"
  shows "rt_ok rt os ext"
proof -
  have "(hkeys (shapes rt))(a := None) = hkeys (shapes rt)" using heldD(6) [OF assms(1)] assms(2) by (intro ext) (simp add: hkeys_def)
  then show ?thesis using heldD(1,2) [OF assms(1)] by (simp add: rt_ok_def)
qed

definition prepared :: "shape_rt \<Rightarrow> addr set \<Rightarrow> (addr \<Rightarrow> int) \<Rightarrow> addr option \<Rightarrow> addr \<Rightarrow> JSShape \<Rightarrow> shape_rt \<Rightarrow> bool" where
  "prepared rt os ext m p sh rt' \<longleftrightarrow> rt_ok rt' os ext \<and> others_same rt rt' os p \<and> obj_entries rt' p = obj_entries rt p
     \<and> obj_props (objs rt' p) = obj_props (objs rt p) \<and> is_global_object (objs rt' p) = is_global_object (objs rt p)
     \<and> shape_rc rt' (obj_shape (objs rt' p)) = 1 \<and> released rt' = released rt
     \<and> (\<exists>n. shapes rt' (obj_shape (objs rt' p)) = Some (sh\<lparr>is_hashed := False, shape_hash_next := n\<rparr>))
     \<and> (\<forall>x. shapes rt x = None \<longrightarrow> m \<noteq> Some x \<longrightarrow> shapes rt' x = None)"

lemma js_shape_prepare_update_ok:
  assumes r: "rt_ok rt os ext" and p: "p \<in> os" "shapes rt (obj_shape (objs rt p)) = Some sh" and m: "fresh rt m"
  shows "\<exists>err rt'. js_shape_prepare_update m p rt = Some (err, rt') \<and> (err = -1 \<and> rt' = rt \<or> err = 0 \<and> prepared rt os ext m p sh rt')"
proof -
  define a where "a = obj_shape (objs rt p)"
  have pa: "shapes rt a = Some sh" using p(2) by (simp add: a_def)
  have c: "core_ok rt os ext" and h: "hash_inv rt (hkeys (shapes rt))" using r by (simp_all add: rt_ok_def)
  show ?thesis
  proof (cases "is_hashed sh")
    case False
    then have "shape_rc rt a = 1" using shape_okD(3) [OF core_okD(4) [OF c pa]] by blast
    moreover have "sh = sh\<lparr>is_hashed := False, shape_hash_next := shape_hash_next sh\<rparr>" using False by simp
    ultimately have "prepared rt os ext m p sh rt" using r pa unfolding prepared_def a_def by (metis others_same_refl)
    then show ?thesis using False pa by (intro exI [of _ 0] exI [of _ rt]) (simp add: js_shape_prepare_update_def a_def [symmetric] Let_def)
  next
    case hs: True
    show ?thesis
    proof (cases "shape_rc rt a = 1")
      case True
      obtain shs tab where u: "js_shape_hash_unlink a rt = Some (rt\<lparr>shapes := shs, shape_tab := tab, shape_hash_count := shape_hash_count rt - 1\<rparr>)"
        "unlinked shs = unlinked (shapes rt)" "shs a = Some sh" "hash_ok (shape_hash_bits rt) tab ((hkeys shs)(a := None))"
        using js_shape_hash_unlink_ok [OF h pa hs] by blast
      define rt1 where "rt1 = rt\<lparr>shapes := shs, shape_tab := tab, shape_hash_count := shape_hash_count rt - 1\<rparr>"
      define rt2 where "rt2 = put_shape a (sh\<lparr>is_hashed := False\<rparr>) rt1"
      have e: "js_shape_prepare_update m p rt = Some (0, rt2)"
        using pa hs True u(1,3) by (simp add: js_shape_prepare_update_def a_def [symmetric] Let_def rt1_def rt2_def)
      have u1: "unlinked (shapes rt1) = unlinked (shapes rt)" "objs rt1 = objs rt" "shape_rc rt1 = shape_rc rt" using u(2) by (simp_all add: rt1_def)
      note L = core_ok_links [OF c u1]
      have held: "held rt1 os ext p a sh" using L(1) p(1) u True by (simp add: held_def rt1_def a_def)
      note H = heldD [OF held]
      let ?sh = "sh\<lparr>is_hashed := False\<rparr>"
      have t: "table_ok ?sh" "prop_size ?sh \<le> length (obj_props (objs rt1 p))" using H(7,9) by simp_all
      have e2: "shapes rt2 = (shapes rt1)(a := None, a := Some ?sh)" "shape_rc rt2 = (shape_rc rt1)(a := 1)" "objs rt2 = (objs rt1)(p := objs rt1 p)"
        "obj_shape (objs rt1 p) = a" "obj_props (objs rt1 p) = obj_props (objs rt1 p)" "shape_tab rt2 = shape_tab rt1" "shape_hash_bits rt2 = shape_hash_bits rt1"
        using H(4,5) by (auto simp: rt2_def)
      note R = held_replace [OF held H(8) disjI1 [OF refl] t e2]
      have "rt_ok rt2 os ext" by (rule held_unhashed [OF R(1)]) simp
      moreover have "others_same rt rt2 os p" by (rule others_same_trans [OF L(3) R(2)])
      moreover have "obj_entries rt2 p = obj_entries rt p" using R(3) H(11) L(2) by simp
      moreover have "obj_props (objs rt2 p) = obj_props (objs rt p)" "is_global_object (objs rt2 p) = is_global_object (objs rt p)"
        "shape_rc rt2 (obj_shape (objs rt2 p)) = 1" "released rt2 = released rt" using True by (simp_all add: rt2_def rt1_def a_def)
      moreover have "shapes rt2 (obj_shape (objs rt2 p)) = Some (sh\<lparr>is_hashed := False, shape_hash_next := shape_hash_next sh\<rparr>)"
        by (simp add: rt2_def rt1_def a_def)
      moreover have "shapes rt2 x = None" if "shapes rt x = None" for x
        using that pa unlinked_None [OF u1(1), of x] by (auto simp: rt2_def)
      ultimately have "prepared rt os ext m p sh rt2" unfolding prepared_def by blast
      then show ?thesis using e by blast
    next
      case sr: False
      show ?thesis
      proof (cases m)
        case None
        then show ?thesis using pa hs sr
          by (intro exI [of _ "-1"] exI [of _ rt]) (simp add: js_shape_prepare_update_def a_def [symmetric] Let_def js_clone_shape_def)
      next
        case (Some d)
        then have d: "d \<noteq> 0" "shapes rt d = None" using m by (auto simp: fresh_def)
        have da: "d \<noteq> a" using d pa by auto
        obtain rt1 where k: "js_clone_shape (Some d) a rt = Some (d, rt1)" "shapes rt1 = (shapes rt)(d \<mapsto> sh\<lparr>is_hashed := False\<rparr>)" "objs rt1 = objs rt"
          "shape_rc rt1 = (shape_rc rt)(d := 1)" "shape_tab rt1 = shape_tab rt" "shape_hash_bits rt1 = shape_hash_bits rt" using js_clone_shape_Some [OF pa] by blast
        have kr: "released rt1 = released rt" using k(1) pa by (auto simp: js_clone_shape_def)
        have "shapes rt1 a = Some sh" "1 < shape_rc rt1 a" using da pa rc_shared [OF r pa sr] by (simp_all add: k)
        note f = free_shape_shared [OF this]
        define rt2 where "rt2 = rt1\<lparr>shape_rc := (shape_rc rt1)(a := shape_rc rt1 a - 1)\<rparr>"
        define rt3 where "rt3 = put_obj p ((objs rt2 p)\<lparr>obj_shape := d\<rparr>) rt2"
        have e: "js_shape_prepare_update m p rt = Some (0, rt3)"
          using pa hs sr Some k(1) d(1) f by (simp add: js_shape_prepare_update_def a_def [symmetric] Let_def rt2_def rt3_def)
        have e3: "shapes rt3 = (shapes rt)(d \<mapsto> sh\<lparr>is_hashed := False, shape_hash_next := shape_hash_next sh\<rparr>)" "shape_rc rt3 = (shape_rc rt)(d := 1, a := shape_rc rt a - 1)"
          "objs rt3 = (objs rt)(p := (objs rt p)\<lparr>obj_shape := d\<rparr>)" using da by (auto simp: rt3_def rt2_def k)
        have "hkeys (shapes rt3) = hkeys (shapes rt)" using d(2) by (intro ext) (simp add: e3 hkeys_def)
        then have h3: "hash_inv rt3 (hkeys (shapes rt3))" using h by (simp add: rt3_def rt2_def k)
        note M = clone_move_ok [OF r p(1) a_def [symmetric] pa sr d e3 h3]
        have "obj_props (objs rt3 p) = obj_props (objs rt p)" "is_global_object (objs rt3 p) = is_global_object (objs rt p)"
          "shape_rc rt3 (obj_shape (objs rt3 p)) = 1" using M(4) by (simp_all add: e3)
        moreover have "released rt3 = released rt" using kr by (simp add: rt3_def rt2_def)
        moreover have "shapes rt3 (obj_shape (objs rt3 p)) = Some (sh\<lparr>is_hashed := False, shape_hash_next := shape_hash_next sh\<rparr>)"
          by (simp add: e3)
        moreover have "shapes rt3 x = None" if "shapes rt x = None" "m \<noteq> Some x" for x using that Some by (simp add: e3)
        ultimately have "prepared rt os ext m p sh rt3" using M(1-3) unfolding prepared_def by blast
        then show ?thesis using e by blast
      qed
    qed
  qed
qed

section \<open>Compaction\<close>

lemma count_filter: "length (filter (\<lambda>a. a \<noteq> y) xs) = length xs - count_list xs y"
proof (induction xs)
  case (Cons x xs)
  have "count_list xs y \<le> length xs" by (rule count_le_length)
  then show ?case using Cons by auto
qed simp

lemma compact_properties_ok:
  assumes h: "held rt os ext p a sh" and u: "\<not> is_hashed sh" and m: "fresh rt m"
  shows "\<exists>r rt'. compact_properties ok m p rt = Some (r, rt') \<and> rt_ok rt' os ext \<and> others_same rt rt' os p \<and> obj_entries rt' p = obj_entries rt p
    \<and> released rt' = released rt"
proof -
  note H = heldD [OF h]
  define n where "n = max JS_PROP_INITIAL_SIZE (prop_count sh - deleted_prop_count sh)"
  have t: "mask_ok (prop_hash_mask sh) (length (hash_table sh))" "prop_count sh \<le> prop_size sh" "2 \<le> prop_size sh" "prop_count sh < 2 ^ 26"
    "distinct (filter (\<lambda>a. a \<noteq> 0) (map prop_atom (prps sh)))" "deleted_prop_count sh = count_list (map prop_atom (prps sh)) 0"
    using H(7) by (simp_all add: table_ok_def JS_PROP_INITIAL_SIZE_def)
  obtain k where k: "length (hash_table sh) = 2 ^ k" "k < 32" "unat (prop_hash_mask sh) + 1 = length (hash_table sh)" using mask_okD [OF t(1)] by blast
  have n: "n \<le> prop_size sh" "1 \<le> n" "2 \<le> n" using t by (simp_all add: n_def JS_PROP_INITIAL_SIZE_def)
  obtain j where j: "j \<le> k" "shrink_hash_size (2 ^ k) n = Some (2 ^ j)" using shrink_hash_size_ok [OF n(2)] by blast
  have j32: "j < 32" using j(1) k(2) by simp
  have e: "chains_ok (word_of_nat (2 ^ j - 1)) [] (replicate (2 ^ j) 0)" by (simp add: chains_ok_def bucket_def)
  obtain ps tab vs where c: "compact_loop (word_of_nat (2 ^ j - 1)) 0 0 (prps sh) (replicate (2 ^ j) 0) (obj_props (objs rt p)) = Some (ps, tab, vs)"
    "length tab = 2 ^ j" "chains_ok (word_of_nat (2 ^ j - 1)) ps tab" "map prop_atom ps = filter (\<lambda>a. a \<noteq> 0) (map prop_atom (prps sh))"
    "length vs = length (obj_props (objs rt p))" "entries ps vs = entries (prps sh) (obj_props (objs rt p))"
    using compact_loop_ok [OF e, of "prps sh" 0 "obj_props (objs rt p)"] mask_okI [OF j32] t(4) H(10) by auto
  have "length ps = length (filter (\<lambda>a. a \<noteq> 0) (map prop_atom (prps sh)))" using c(4) by (metis length_map)
  then have len: "length ps = prop_count sh - deleted_prop_count sh" by (simp add: count_filter t(6))
  have sz: "\<not> prop_size sh < n" using n(1) by simp
  show ?thesis
  proof (cases m)
    case None
    have "compact_properties ok m p rt = Some (-1, rt)"
      unfolding compact_properties_def H(4) using H(6) u sz j(2) k None by (simp add: n_def [symmetric] Let_def)
    then show ?thesis using held_unhashed [OF h u] by (intro exI [of _ "-1"] exI [of _ rt]) simp
  next
    case (Some b)
    then have b: "b \<noteq> 0" "shapes rt b = None" using m by (auto simp: fresh_def)
    define sh1 where "sh1 = sh\<lparr>prop_hash_mask := word_of_nat (2 ^ j - 1), prop_size := n, deleted_prop_count := 0, hash_table := tab, prps := ps\<rparr>"
    define vs1 where "vs1 = (if ok then realloc_props n vs else vs)"
    define ob where "ob = (objs rt p)\<lparr>obj_shape := b, obj_props := vs1\<rparr>"
    define rt1 where "rt1 = put_obj p ob (rt\<lparr>shapes := (shapes rt)(a := None, b := Some sh1), shape_rc := (shape_rc rt)(b := 1)\<rparr>)"
    have ex: "compact_properties ok m p rt = Some (0, rt1)"
      unfolding compact_properties_def H(4) using H(6) u sz j(2) k Some c(1) len
      by (simp add: n_def [symmetric] Let_def rt1_def ob_def sh1_def vs1_def)
    have "distinct (filter (\<lambda>a. a \<noteq> 0) (map prop_atom ps))" "count_list (map prop_atom ps) 0 = 0"
      unfolding c(4) using t(5) by (simp_all add: count_list_0_iff)
    then have t1: "table_ok sh1" using c(2,3) mask_okI [OF j32] len n t(4) by (simp add: table_ok_def sh1_def n_def)
    have pn: "length ps \<le> n" unfolding len n_def by simp
    have l1: "prop_size sh1 \<le> length vs1" using n(1) H(9) c(5) by (simp add: sh1_def vs1_def)
    have e1: "shapes rt1 = (shapes rt)(a := None, b := Some sh1)" "shape_rc rt1 = (shape_rc rt)(b := 1)" "objs rt1 = (objs rt)(p := ob)"
      "obj_shape ob = b" "obj_props ob = vs1" "shape_tab rt1 = shape_tab rt" "shape_hash_bits rt1 = shape_hash_bits rt"
      by (simp_all add: rt1_def ob_def)
    note R = held_replace [OF h b(1) disjI2 [OF b(2)] t1 l1 e1]
    have "rt_ok rt1 os ext" by (rule held_unhashed [OF R(1)]) (simp add: sh1_def u)
    moreover have "entries ps vs1 = entries ps vs" using entries_realloc [of ps vs n] pn c(5) H(9) n(1) by (simp add: vs1_def)
    then have "obj_entries rt1 p = obj_entries rt p" using R(3) c(6) H(11) by (simp add: sh1_def)
    moreover have "released rt1 = released rt" by (simp add: rt1_def)
    ultimately show ?thesis using ex R(2) by blast
  qed
qed

section \<open>Deletion\<close>

lemma prepared_fresh: "prepared rt os ext m p sh rt' \<Longrightarrow> fresh rt m' \<Longrightarrow> m = None \<or> m \<noteq> m' \<Longrightarrow> fresh rt' m'"
  by (auto simp: prepared_def fresh_def)

text \<open>The writes to the table and to the values once the shape may be changed.\<close>

lemma delete_writes_ok:
  assumes r: "prepared rt os ext m p sh rt1" and p: "p \<in> os" and t: "table_ok sh" and x: "x \<noteq> 0" "index_of (prps sh) x = Some i"
    and s: "obj_props (objs rt p) ! i = Some v" "prop_count sh \<le> length (obj_props (objs rt p))"
  defines "h1 \<equiv> bucket_of (prop_hash_mask sh) x"
  defines "js \<equiv> bucket (map prop_atom (prps sh)) (prop_hash_mask sh) h1"
  defines "l \<equiv> if hd js = i then None else Some (last (takeWhile (\<lambda>j. j \<noteq> i) js))"
  shows "\<exists>sh1 sh2 sh3 rt2. shapes rt1 (obj_shape (objs rt1 p)) = Some sh1 \<and> unlink_property i l h1 sh1 = Some sh2
    \<and> clear_property i (sh2\<lparr>deleted_prop_count := Suc (deleted_prop_count sh2)\<rparr>) = Some sh3
    \<and> rt2 = JS_FreeAtom x (put_shape (obj_shape (objs rt1 p)) sh3
        (put_obj p ((objs rt1 p)\<lparr>obj_props := (obj_props (objs rt1 p))[i := Some (Prop_Value JS_Undefined)]\<rparr>)
          (rt1\<lparr>shapes := (shapes rt1)(obj_shape (objs rt1 p) \<mapsto> sh2\<lparr>deleted_prop_count := Suc (deleted_prop_count sh2)\<rparr>), released := v # released rt1\<rparr>)))
    \<and> held rt2 os ext p (obj_shape (objs rt1 p)) sh3 \<and> \<not> is_hashed sh3 \<and> others_same rt rt2 os p
    \<and> obj_entries rt2 p = filter (\<lambda>e. fst e \<noteq> x) (obj_entries rt p) \<and> released rt2 = v # released rt
    \<and> (\<forall>m. fresh rt1 m \<longrightarrow> fresh rt2 m)"
proof -
  define a where "a = obj_shape (objs rt1 p)"
  obtain n where s1: "shapes rt1 a = Some (sh\<lparr>is_hashed := False, shape_hash_next := n\<rparr>)" using r by (auto simp: prepared_def a_def)
  define sh1 where "sh1 = sh\<lparr>is_hashed := False, shape_hash_next := n\<rparr>"
  have r1: "rt_ok rt1 os ext" "others_same rt rt1 os p" "obj_entries rt1 p = obj_entries rt p" "obj_props (objs rt1 p) = obj_props (objs rt p)"
    "shape_rc rt1 a = 1" "released rt1 = released rt" using r by (simp_all add: prepared_def a_def)
  have e1: "prps sh1 = prps sh" "prop_hash_mask sh1 = prop_hash_mask sh" "\<not> is_hashed sh1" and t1: "table_ok sh1" using t by (simp_all add: sh1_def)
  obtain tab ps where d: "do { sh1' \<leftarrow> unlink_property i l h1 sh1; clear_property i (sh1'\<lparr>deleted_prop_count := Suc (deleted_prop_count sh1')\<rparr>) }
      = Some (sh1\<lparr>deleted_prop_count := Suc (deleted_prop_count sh1), hash_table := tab, prps := ps\<rparr>)"
    "table_ok (sh1\<lparr>deleted_prop_count := Suc (deleted_prop_count sh1), hash_table := tab, prps := ps\<rparr>)"
    "map prop_atom ps = (map prop_atom (prps sh1))[i := 0]" "\<forall>j. j \<noteq> i \<longrightarrow> map flags ps ! j = map flags (prps sh1) ! j"
    using delete_entry_ok [OF t1 x(1), of i] x(2) unfolding e1 h1_def js_def l_def by blast
  define sh3 where "sh3 = sh1\<lparr>deleted_prop_count := Suc (deleted_prop_count sh1), hash_table := tab, prps := ps\<rparr>"
  obtain sh2 where c: "unlink_property i l h1 sh1 = Some sh2" "clear_property i (sh2\<lparr>deleted_prop_count := Suc (deleted_prop_count sh2)\<rparr>) = Some sh3"
    using d(1) unfolding sh3_def by (auto simp: bind_eq_Some_conv)
  define vs where "vs = (obj_props (objs rt1 p))[i := Some (Prop_Value JS_Undefined)]"
  define ob where "ob = (objs rt1 p)\<lparr>obj_props := vs\<rparr>"
  define rt2 where "rt2 = JS_FreeAtom x (put_shape a sh3 (put_obj p ob
     (rt1\<lparr>shapes := (shapes rt1)(a \<mapsto> sh2\<lparr>deleted_prop_count := Suc (deleted_prop_count sh2)\<rparr>), released := v # released rt1\<rparr>)))"
  have i: "i < prop_count sh" "prop_atom (prps sh ! i) = x" using index_of_Some [OF x(2)] by simp_all
  have t3: "table_ok sh3" "\<not> is_hashed sh3" using d(2) e1(3) by (simp_all add: sh3_def)
  obtain sh' where o: "shapes rt1 (obj_shape (objs rt1 p)) = Some sh'" "prop_size sh' \<le> length (obj_props (objs rt1 p))" using obj_state [OF r1(1) p] by blast
  then have l3: "prop_size sh3 \<le> length vs" using s1 by (simp add: sh3_def sh1_def vs_def a_def)
  have hk: "hkeys ((shapes rt1)(a \<mapsto> sh3)) = hkeys (shapes rt1)" using s1 t3(2) by (intro ext) (simp add: hkeys_def)
  have e2: "shapes rt2 = (shapes rt1)(a \<mapsto> sh3)" "shape_rc rt2 = shape_rc rt1" "objs rt2 = (objs rt1)(p := ob)" "obj_shape ob = a" "obj_props ob = vs"
    "shape_tab rt2 = shape_tab rt1" "shape_hash_bits rt2 = shape_hash_bits rt1" by (simp_all add: rt2_def ob_def a_def)
  note R = rt_ok_table [OF r1(1) p a_def [symmetric] r1(5) s1 t3(1) l3 hk e2]
  have "(hkeys (shapes rt2))(a := None) = hkeys (shapes rt2)" using t3(2) by (intro ext) (simp add: e2 hkeys_def)
  then have "held rt2 os ext p a sh3" using R(1) p r1(5) by (simp add: held_def rt_ok_def e2)
  moreover have "others_same rt rt2 os p" by (rule others_same_trans [OF r1(2) R(2)])
  moreover have "obj_entries rt2 p = filter (\<lambda>e. fst e \<noteq> x) (obj_entries rt p)"
  proof -
    have dl: "distinct (filter (\<lambda>a. a \<noteq> 0) (map prop_atom (prps sh)))" using t by (simp add: table_ok_def)
    have "entries ps vs = filter (\<lambda>e. fst e \<noteq> x) (entries (prps sh) (obj_props (objs rt1 p)))"
      unfolding vs_def using d(3,4) e1(1) s(2) r1(4) by (intro entries_delete [OF dl i x(1)]) simp_all
    moreover have "obj_entries rt1 p = entries (prps sh) (obj_props (objs rt1 p))" using s1 by (simp add: obj_entries_def a_def)
    ultimately show ?thesis using R(3) r1(3) by (simp add: sh3_def)
  qed
  moreover have "released rt2 = v # released rt" using r1(6) by (simp add: rt2_def)
  moreover have "fresh rt1 m \<longrightarrow> fresh rt2 m" for m using s1 by (auto simp: fresh_def e2)
  moreover have "shapes rt1 a = Some sh1" using s1 by (simp add: sh1_def)
  ultimately show ?thesis using c t3(2) rt2_def unfolding ob_def vs_def a_def by blast
qed

lemma delete_property_ok:
  assumes r: "rt_ok rt os ext" and p: "p \<in> os" "\<not> is_global_object (objs rt p)" and m: "alloc_ok rt m" and x: "x \<noteq> 0"
    and e: "map_of (obj_entries rt p) x = Some (fl, Some v)" "fl AND JS_PROP_CONFIGURABLE \<noteq> 0"
  shows "\<exists>r rt'. delete_property other rg ok m p x rt = Some (r, rt') \<and> rt_ok rt' os ext \<and> others_same rt rt' os p
    \<and> (r = -1 \<and> rt' = rt
      \<or> r = 1 \<and> obj_entries rt' p = filter (\<lambda>e. fst e \<noteq> x) (obj_entries rt p) \<and> released rt' = v # released rt)"
proof -
  obtain sh where s: "shapes rt (obj_shape (objs rt p)) = Some sh" "table_ok sh" "prop_count sh \<le> length (obj_props (objs rt p))"
    "obj_entries rt p = entries (prps sh) (obj_props (objs rt p))" using obj_state [OF r p(1)] by blast
  have d: "distinct (filter (\<lambda>a. a \<noteq> 0) (map prop_atom (prps sh)))" using s(2) by (simp add: table_ok_def)
  obtain i where i: "index_of (prps sh) x = Some i" "flags (prps sh ! i) = fl" "obj_props (objs rt p) ! i = Some v"
    using e(1) unfolding s(4) entries_lookup [OF d x s(3)] by (auto simp: map_option_eq_Some)
  have il: "i < prop_count sh" using index_of_Some [OF i(1)] by simp
  define h1 where "h1 = bucket_of (prop_hash_mask sh) x"
  define js where "js = bucket (map prop_atom (prps sh)) (prop_hash_mask sh) h1"
  define l where "l = (if hd js = i then None else Some (last (takeWhile (\<lambda>j. j \<noteq> i) js)))"
  obtain h where h: "rd (hash_table sh) h1 = Some h" "find_loop_prev (prps sh) x h None = Some (Some (i, l))"
    using find_loop_prev_ok [OF s(2) x] i(1) unfolding l_def js_def h1_def by auto
  have m0: "fresh rt (m 0)" "fresh rt (m 1)" "m 0 = None \<or> m 0 \<noteq> m 1" using m by (simp_all add: alloc_ok_def)
  obtain err rt1 where u: "js_shape_prepare_update (m 0) p rt = Some (err, rt1)" "err = -1 \<and> rt1 = rt \<or> err = 0 \<and> prepared rt os ext (m 0) p sh rt1"
    using js_shape_prepare_update_ok [OF r p(1) s(1) m0(1)] by blast
  have ri: "rd (prps sh) i = Some (prps sh ! i)" using il by (simp add: rd_def)
  have c: "\<not> (flags (prps sh ! i) AND JS_PROP_CONFIGURABLE = 0)" using e(2) i(2) by simp
  show ?thesis
  proof (cases "err = 0")
    case False
    then have "err = -1" "rt1 = rt" using u(2) by auto
    moreover from this have "delete_property other rg ok m p x rt = Some (-1, rt)"
      using s(1) h ri c u(1) unfolding delete_property_def by (simp add: Let_def h1_def [symmetric] del: rd_Some_iff)
    ultimately show ?thesis using r by (intro exI [of _ "-1"] exI [of _ rt]) simp
  next
    case True
    then have P: "prepared rt os ext (m 0) p sh rt1" using u(2) by auto
    obtain sh1 sh2 sh3 rt2 where w: "shapes rt1 (obj_shape (objs rt1 p)) = Some sh1" "unlink_property i l h1 sh1 = Some sh2"
      "clear_property i (sh2\<lparr>deleted_prop_count := Suc (deleted_prop_count sh2)\<rparr>) = Some sh3"
      and rt2: "rt2 = JS_FreeAtom x (put_shape (obj_shape (objs rt1 p)) sh3
        (put_obj p ((objs rt1 p)\<lparr>obj_props := (obj_props (objs rt1 p))[i := Some (Prop_Value JS_Undefined)]\<rparr>)
          (rt1\<lparr>shapes := (shapes rt1)(obj_shape (objs rt1 p) \<mapsto> sh2\<lparr>deleted_prop_count := Suc (deleted_prop_count sh2)\<rparr>), released := v # released rt1\<rparr>)))"
      and w2: "held rt2 os ext p (obj_shape (objs rt1 p)) sh3" "\<not> is_hashed sh3" "others_same rt rt2 os p"
      "obj_entries rt2 p = filter (\<lambda>e. fst e \<noteq> x) (obj_entries rt p)" "released rt2 = v # released rt" "\<And>m. fresh rt1 m \<Longrightarrow> fresh rt2 m"
      using delete_writes_ok [OF P p(1) s(2) x i(1,3) s(3)] unfolding h1_def js_def l_def by blast
    have q: "\<not> is_global_object (objs rt1 p)" "obj_props (objs rt1 p) = obj_props (objs rt p)" using P p(2) by (simp_all add: prepared_def)
    have il2: "i < length (obj_props (objs rt p))" using il s(3) by simp
    define cpt where "cpt \<longleftrightarrow> 8 \<le> deleted_prop_count sh3 \<and> prop_count sh3 div 2 \<le> deleted_prop_count sh3"
    have ro: "rd (obj_props (objs rt p)) i = Some (Some v)"
      "wr (obj_props (objs rt p)) i (Some (Prop_Value JS_Undefined)) = Some ((obj_props (objs rt p))[i := Some (Prop_Value JS_Undefined)])"
      using il2 i(3) by simp_all
    have e: "delete_property other rg ok m p x rt = do { (_, rt5) \<leftarrow> (if cpt then compact_properties ok (m 1) p rt2 else Some (0, rt2)); Some (1, rt5) }"
      unfolding delete_property_def using s(1) h ri c u(1) True w q ro
      by (simp add: Let_def h1_def [symmetric] rt2 cpt_def del: rd_Some_iff wr_Some_iff)
    have "fresh rt2 (m 1)" using prepared_fresh [OF P m0(2,3)] w2(6) by blast
    then obtain r5 rt5 where k: "compact_properties ok (m 1) p rt2 = Some (r5, rt5)" "rt_ok rt5 os ext" "others_same rt2 rt5 os p" "obj_entries rt5 p = obj_entries rt2 p"
      "released rt5 = released rt2" using compact_properties_ok [OF w2(1,2)] by blast
    show ?thesis
    proof (cases cpt)
      case True
      have "others_same rt rt5 os p" by (rule others_same_trans [OF w2(3) k(3)])
      then show ?thesis using e True k w2(4,5) by (intro exI [of _ 1] exI [of _ rt5]) simp
    next
      case False
      then show ?thesis using e held_unhashed [OF w2(1,2)] w2(3,4,5) by (intro exI [of _ 1] exI [of _ rt2]) simp
    qed
  qed
qed

lemma delete_property_absent:
  assumes "rt_ok rt os ext" "p \<in> os" "x \<noteq> 0" "map_of (obj_entries rt p) x = None"
  shows "delete_property other rg ok m p x rt = other p x rt"
proof -
  obtain sh where s: "shapes rt (obj_shape (objs rt p)) = Some sh" "table_ok sh" "prop_count sh \<le> length (obj_props (objs rt p))"
    "obj_entries rt p = entries (prps sh) (obj_props (objs rt p))" using obj_state [OF assms(1,2)] by blast
  have d: "distinct (filter (\<lambda>a. a \<noteq> 0) (map prop_atom (prps sh)))" using s(2) by (simp add: table_ok_def)
  have "index_of (prps sh) x = None" using assms(4) unfolding s(4) entries_lookup [OF d assms(3) s(3)] by simp
  then show ?thesis using find_loop_prev_ok [OF s(2) assms(3)] s(1) by (auto simp: delete_property_def Let_def simp del: rd_Some_iff)
qed

lemma delete_property_refused:
  assumes "rt_ok rt os ext" "p \<in> os" "x \<noteq> 0" "map_of (obj_entries rt p) x = Some (fl, slot)" "fl AND JS_PROP_CONFIGURABLE = 0"
  shows "delete_property other rg ok m p x rt = Some (0, rt)"
proof -
  obtain sh where s: "shapes rt (obj_shape (objs rt p)) = Some sh" "table_ok sh" "prop_count sh \<le> length (obj_props (objs rt p))"
    "obj_entries rt p = entries (prps sh) (obj_props (objs rt p))" using obj_state [OF assms(1,2)] by blast
  have d: "distinct (filter (\<lambda>a. a \<noteq> 0) (map prop_atom (prps sh)))" using s(2) by (simp add: table_ok_def)
  obtain i where i: "index_of (prps sh) x = Some i" "flags (prps sh ! i) = fl"
    using assms(4) unfolding s(4) entries_lookup [OF d assms(3) s(3)] by (auto simp: map_option_eq_Some)
  have "rd (prps sh) i = Some (prps sh ! i)" using index_of_Some [OF i(1)] by simp
  then show ?thesis using find_loop_prev_ok [OF s(2) assms(3)] s(1) i assms(5) by (auto simp: delete_property_def Let_def simp del: rd_Some_iff)
qed

section \<open>Flags\<close>

lemma table_ok_flags:
  assumes "table_ok sh" "i < prop_count sh"
  shows "table_ok (sh\<lparr>prps := (prps sh)[i := (prps sh ! i)\<lparr>flags := fl\<rparr>]\<rparr>)"
proof -
  let ?ps = "(prps sh)[i := (prps sh ! i)\<lparr>flags := fl\<rparr>]"
  have at: "map prop_atom ?ps = map prop_atom (prps sh)" using assms(2) by (simp add: map_update list_update_same_conv)
  have hn: "hash_next (?ps ! j) = hash_next (prps sh ! j)" for j using assms(2) by (cases "j = i") simp_all
  have "chains_ok (prop_hash_mask sh) ?ps (hash_table sh)"
    unfolding chains_ok_def at
  proof (intro allI impI)
    fix h assume "h < length (hash_table sh)"
    then have "chained (prps sh) (hash_table sh ! h) (bucket (map prop_atom (prps sh)) (prop_hash_mask sh) h)"
      using assms(1) by (simp add: table_ok_def chains_ok_def)
    then show "chained ?ps (hash_table sh ! h) (bucket (map prop_atom (prps sh)) (prop_hash_mask sh) h)"
      by (rule chained_cong) (simp_all add: hn)
  qed
  then show ?thesis using assms(1) at by (simp add: table_ok_def)
qed

lemma entries_flags:
  assumes "i < length ps" "length ps \<le> length vs" "\<And>j. j < length ps \<Longrightarrow> j \<noteq> i \<Longrightarrow> prop_atom (ps ! j) \<noteq> prop_atom (ps ! i)"
  shows "entries (ps[i := (ps ! i)\<lparr>flags := fl\<rparr>]) vs = map (\<lambda>(a, f, v). if a = prop_atom (ps ! i) then (a, fl, v) else (a, f, v)) (entries ps vs)"
proof -
  let ?ps = "ps[i := (ps ! i)\<lparr>flags := fl\<rparr>]"
  have at: "prop_atom (?ps ! j) = prop_atom (ps ! j)" for j using assms(1) by (cases "j = i") simp_all
  have fl: "flags (?ps ! j) = (if j = i then fl else flags (ps ! j))" if "j < length ps" for j using that by simp
  have e: "entries ?ps vs = map (\<lambda>j. (prop_atom (ps ! j), flags (?ps ! j), vs ! j)) (filter (\<lambda>j. prop_atom (ps ! j) \<noteq> 0) [0..<length ps])"
    unfolding entries_nth at using assms(2) by (simp add: min_def)
  show ?thesis
    unfolding e unfolding entries_nth using assms by (auto simp: min_def fl)
qed

lemma js_update_property_flags_ok:
  assumes r: "rt_ok rt os ext" and p: "p \<in> os" "shapes rt (obj_shape (objs rt p)) = Some sh" and m: "fresh rt m" and x: "x \<noteq> 0" "index_of (prps sh) x = Some i" "fl < 2 ^ 6"
  shows "\<exists>err rt'. js_update_property_flags m p i fl rt = Some (err, rt') \<and> rt_ok rt' os ext \<and> others_same rt rt' os p
    \<and> (err = -1 \<and> rt' = rt \<or> err = 0 \<and> obj_entries rt' p = map (\<lambda>(a, f, v). if a = x then (a, fl, v) else (a, f, v)) (obj_entries rt p))"
proof -
  have i: "i < prop_count sh" "prop_atom (prps sh ! i) = x" using index_of_Some [OF x(2)] by simp_all
  obtain s: "table_ok sh" "prop_count sh \<le> length (obj_props (objs rt p))" "obj_entries rt p = entries (prps sh) (obj_props (objs rt p))"
    using obj_state [OF r p(1)] p(2) by (metis option.inject)
  have d: "distinct (filter (\<lambda>a. a \<noteq> 0) (map prop_atom (prps sh)))" using s(1) by (simp add: table_ok_def)
  have u: "prop_atom (prps sh ! j) \<noteq> prop_atom (prps sh ! i)" if "j < prop_count sh" "j \<noteq> i" for j
    using live_unique [OF d that(1) i(1)] that i(2) x(1) by auto
  note E = entries_flags [OF i(1) s(2) u, unfolded i(2)]
  have ri: "rd (prps sh) i = Some (prps sh ! i)" using i(1) by simp
  show ?thesis
  proof (cases "fl = flags (prps sh ! i)")
    case True
    have "(prps sh)[i := (prps sh ! i)\<lparr>flags := fl\<rparr>] = prps sh" using True by (simp add: list_update_same_conv i(1))
    then have "obj_entries rt p = map (\<lambda>(a, f, v). if a = x then (a, fl, v) else (a, f, v)) (obj_entries rt p)" using E [of fl] s(3) by simp
    moreover have "js_update_property_flags m p i fl rt = Some (0, rt)" using True p(2) ri by (simp add: js_update_property_flags_def del: rd_Some_iff)
    ultimately show ?thesis using r by (intro exI [of _ 0] exI [of _ rt]) simp
  next
    case False
    obtain err rt1 where q: "js_shape_prepare_update m p rt = Some (err, rt1)" "err = -1 \<and> rt1 = rt \<or> err = 0 \<and> prepared rt os ext m p sh rt1"
      using js_shape_prepare_update_ok [OF r p m] by blast
    show ?thesis
    proof (cases "err = 0")
      case nz: False
      then have "js_update_property_flags m p i fl rt = Some (-1, rt)" using q p(2) ri False by (simp add: js_update_property_flags_def del: rd_Some_iff)
      then show ?thesis using r by (intro exI [of _ "-1"] exI [of _ rt]) simp
    next
      case True
      then have P: "prepared rt os ext m p sh rt1" using q(2) by auto
      define a where "a = obj_shape (objs rt1 p)"
      obtain n where s1: "shapes rt1 a = Some (sh\<lparr>is_hashed := False, shape_hash_next := n\<rparr>)" using P by (auto simp: prepared_def a_def)
      define sh1 where "sh1 = sh\<lparr>is_hashed := False, shape_hash_next := n\<rparr>"
      have r1: "rt_ok rt1 os ext" "others_same rt rt1 os p" "obj_entries rt1 p = obj_entries rt p" "obj_props (objs rt1 p) = obj_props (objs rt p)" "shape_rc rt1 a = 1"
        using P by (simp_all add: prepared_def a_def)
      define ps where "ps = (prps sh)[i := (prps sh ! i)\<lparr>flags := fl\<rparr>]"
      define sh2 where "sh2 = sh1\<lparr>prps := ps\<rparr>"
      define rt2 where "rt2 = put_shape a sh2 rt1"
      have t2: "table_ok sh2" using table_ok_flags [of sh1 i fl] s(1) i(1) by (simp add: sh2_def sh1_def ps_def)
      obtain sh' where o: "shapes rt1 (obj_shape (objs rt1 p)) = Some sh'" "prop_size sh' \<le> length (obj_props (objs rt1 p))" using obj_state [OF r1(1) p(1)] by blast
      then have l2: "prop_size sh2 \<le> length (obj_props (objs rt1 p))" using s1 by (simp add: sh2_def sh1_def a_def)
      have hk: "hkeys ((shapes rt1)(a \<mapsto> sh2)) = hkeys (shapes rt1)" using s1 by (intro ext) (simp add: hkeys_def sh2_def sh1_def)
      have e2: "shapes rt2 = (shapes rt1)(a \<mapsto> sh2)" "shape_rc rt2 = shape_rc rt1" "objs rt2 = (objs rt1)(p := objs rt1 p)" "obj_shape (objs rt1 p) = a"
        "obj_props (objs rt1 p) = obj_props (objs rt1 p)" "shape_tab rt2 = shape_tab rt1" "shape_hash_bits rt2 = shape_hash_bits rt1"
        by (simp_all add: rt2_def a_def)
      note R = rt_ok_table [OF r1(1) p(1) a_def [symmetric] r1(5) s1 t2 l2 hk e2]
      have "fl mod 64 = fl" using x(3) by simp
      then have "js_update_property_flags m p i fl rt = Some (0, rt2)"
        using q(1) True p(2) ri False s1 i(1)
        by (simp add: js_update_property_flags_def a_def [symmetric] rt2_def sh2_def sh1_def ps_def rd_def wr_def)
      moreover have "others_same rt rt2 os p" by (rule others_same_trans [OF r1(2) R(2)])
      moreover have "obj_entries rt2 p = map (\<lambda>(a, f, v). if a = x then (a, fl, v) else (a, f, v)) (obj_entries rt p)"
        using R(3) E [of fl] s(3) r1(4) by (simp add: sh2_def ps_def)
      ultimately show ?thesis using R(1) by blast
    qed
  qed
qed

end
