(* ===== verification/ShapesNew.thy ===== *)
theory ShapesNew
  imports ShapesDelete
begin

text \<open>
  New objects: the hash table of shapes grows, a shape without properties is found or created,
  and the object starts with no property. When an allocation fails the shape is given back.
\<close>

section \<open>A larger hash table\<close>

lemma restrict_upd_other: "a \<notin> D \<Longrightarrow> (hkeys (shs(a \<mapsto> sh))) |` D = (hkeys shs) |` D"
  by (intro ext) (auto simp: restrict_map_def hkeys_def)

lemma rehash_chain_ok:
  assumes "hpath (hkeys shs) a as" "distinct as" "hash_ok bits tab ((hkeys shs) |` D)" "set as \<inter> D = {}"
  shows "\<exists>shs' tab'. rehash_chain bits a shs tab = Some (shs', tab') \<and> unlinked shs' = unlinked shs \<and> (\<forall>b. b \<notin> set as \<longrightarrow> shs' b = shs b)
    \<and> hash_ok bits tab' ((hkeys shs') |` (D \<union> set as))"
  using assms
proof (induction as arbitrary: a shs tab D)
  case Nil
  then show ?case by (simp add: rehash_chain.simps [of bits 0])
next
  case (Cons b bs)
  obtain v n where k: "hkeys shs b = Some (v, n)" "hpath (hkeys shs) n bs" and ab: "a = b" "b \<noteq> 0" using Cons.prems(1) by auto
  obtain sh where sh: "shs b = Some sh" "is_hashed sh" "hash sh = v" "shape_hash_next sh = n" using k(1) by (auto simp: hkeys_Some)
  define h where "h = get_shape_hash v bits"
  have hl: "h < length tab" unfolding h_def by (rule hash_okD(4) [OF Cons.prems(3)])
  define shs1 where "shs1 = shs(b \<mapsto> sh\<lparr>shape_hash_next := tab ! h\<rparr>)"
  have bD: "b \<notin> D" "b \<notin> set bs" using Cons.prems(2,4) by auto
  have "((hkeys shs) |` D)(b := None) = (hkeys shs) |` D" using bD(1) by (intro ext) (simp add: restrict_map_def)
  then have "hash_ok bits (tab[h := b]) (((hkeys shs) |` D)(b := Some (v, tab ! h)))"
    using hash_link_ok [of bits tab "(hkeys shs) |` D" b v] Cons.prems(3) ab(2) by (simp add: h_def)
  moreover have "((hkeys shs) |` D)(b := Some (v, tab ! h)) = (hkeys shs1) |` (insert b D)"
    using sh bD(1) by (intro ext) (simp add: shs1_def hkeys_upd restrict_map_def)
  ultimately have H: "hash_ok bits (tab[h := b]) ((hkeys shs1) |` (insert b D))" by simp
  have P: "hpath (hkeys shs1) n bs" using k(2) by (rule hpath_cong) (use bD(2) in \<open>auto simp: shs1_def hkeys_def\<close>)
  have "set bs \<inter> insert b D = {}" using Cons.prems(2,4) by auto
  with Cons.IH [OF P _ H] Cons.prems(2) obtain shs' tab' where r: "rehash_chain bits n shs1 (tab[h := b]) = Some (shs', tab')"
    "unlinked shs' = unlinked shs1" "\<forall>c. c \<notin> set bs \<longrightarrow> shs' c = shs1 c" "hash_ok bits tab' ((hkeys shs') |` (insert b D \<union> set bs))" by auto
  have "rehash_chain bits a shs tab = Some (shs', tab')"
    using ab sh hl r(1) by (subst rehash_chain.simps) (simp add: Let_def h_def shs1_def rd_def wr_def)
  moreover have "unlinked shs' = unlinked shs" using r(2) sh(1) by (simp add: shs1_def)
  moreover have "shs' c = shs c" if "c \<notin> set (b # bs)" for c using r(3) that by (simp add: shs1_def)
  moreover have "insert b D \<union> set bs = D \<union> set (b # bs)" by auto
  ultimately show ?case using r(4) by metis
qed

lemma rehash_chains_ok:
  assumes "list_all2 (hpath (hkeys shs)) heads ass" "distinct (concat ass)" "hash_ok bits tab ((hkeys shs) |` D)" "set (concat ass) \<inter> D = {}"
  shows "\<exists>shs' tab'. rehash_chains bits heads shs tab = Some (shs', tab') \<and> unlinked shs' = unlinked shs
    \<and> hash_ok bits tab' ((hkeys shs') |` (D \<union> set (concat ass)))"
  using assms
proof (induction heads arbitrary: ass shs tab D)
  case Nil
  then show ?case by simp
next
  case (Cons a heads)
  obtain as ass' where e: "ass = as # ass'" "hpath (hkeys shs) a as" "list_all2 (hpath (hkeys shs)) heads ass'" using Cons.prems(1) by (auto simp: list_all2_Cons1)
  have d: "distinct as" "distinct (concat ass')" "set as \<inter> set (concat ass') = {}" "set as \<inter> D = {}" "set (concat ass') \<inter> D = {}" using Cons.prems(2,4) e(1) by auto
  obtain shs1 tab1 where r: "rehash_chain bits a shs tab = Some (shs1, tab1)" "unlinked shs1 = unlinked shs" "\<forall>b. b \<notin> set as \<longrightarrow> shs1 b = shs b"
    "hash_ok bits tab1 ((hkeys shs1) |` (D \<union> set as))" using rehash_chain_ok [OF e(2) d(1) Cons.prems(3) d(4)] by blast
  have "list_all2 (hpath (hkeys shs1)) heads ass'"
  proof (rule list_all2_all_nthI)
    show "length heads = length ass'" by (rule list_all2_lengthD [OF e(3)])
    fix i assume i: "i < length heads"
    have l: "i < length ass'" using i list_all2_lengthD [OF e(3)] by simp
    show "hpath (hkeys shs1) (heads ! i) (ass' ! i)"
    proof (rule hpath_cong [OF list_all2_nthD [OF e(3) i]])
      fix b assume "b \<in> set (ass' ! i)"
      then have "b \<in> set (concat ass')" using nth_mem [OF l] by auto
      then have "b \<notin> set as" using d(3) by blast
      then show "hkeys shs1 b = hkeys shs b" using r(3) by (simp add: hkeys_def)
    qed
  qed
  moreover have "set (concat ass') \<inter> (D \<union> set as) = {}" using d(3,5) by blast
  ultimately obtain shs' tab' where q: "rehash_chains bits heads shs1 tab1 = Some (shs', tab')" "unlinked shs' = unlinked shs1"
    "hash_ok bits tab' ((hkeys shs') |` (D \<union> set as \<union> set (concat ass')))" using Cons.IH [OF _ d(2) r(4)] by blast
  have "D \<union> set as \<union> set (concat ass') = D \<union> set (concat ass)" using e(1) by auto
  then show ?case using r(1,2) q by simp
qed

lemma hash_ok_empty: "1 \<le> bits \<Longrightarrow> bits \<le> 32 \<Longrightarrow> hash_ok bits (replicate (2 ^ bits) 0) (K |` {})"
  unfolding hash_ok_def by (auto intro!: exI [of _ "[]"] simp: hbucket_def restrict_map_def)

lemma resize_shape_hash_ok:
  assumes c: "core_ok rt os ext" and h: "hash_inv rt (hkeys (shapes rt))" and b: "1 \<le> bits" "bits \<le> 32"
  shows "\<exists>r rt'. resize_shape_hash ok bits rt = Some (r, rt') \<and> rt_ok rt' os ext \<and> (\<forall>q. obj_entries rt' q = obj_entries rt q)
    \<and> unlinked (shapes rt') = unlinked (shapes rt)"
proof (cases ok)
  case False
  then show ?thesis using c h by (simp add: resize_shape_hash_def rt_ok_def)
next
  case True
  let ?K = "hkeys (shapes rt)" and ?tab = "shape_tab rt" and ?bt = "shape_hash_bits rt"
  obtain f where f: "\<forall>i < length ?tab. hpath ?K (?tab ! i) (f i) \<and> distinct (f i) \<and> set (f i) = hbucket ?bt ?K i"
    using hash_okD(5) [OF h] by metis
  define ass where "ass = map f [0..<length ?tab]"
  have l2: "list_all2 (hpath ?K) ?tab ass" using f by (simp add: ass_def list_all2_conv_all_nth)
  have s: "set (concat ass) = dom ?K"
  proof (intro subset_antisym subsetI)
    fix a assume "a \<in> set (concat ass)"
    then obtain i where "i < length ?tab" "a \<in> set (f i)" by (auto simp: ass_def)
    then show "a \<in> dom ?K" using f by (auto simp: hbucket_def)
  next
    fix a assume "a \<in> dom ?K"
    then obtain v n where k: "?K a = Some (v, n)" by auto
    have i: "get_shape_hash v ?bt < length ?tab" by (rule hash_okD(4) [OF h])
    then have "a \<in> set (f (get_shape_hash v ?bt))" using f k by (auto simp: hbucket_def)
    then show "a \<in> set (concat ass)" using i by (auto simp: ass_def)
  qed
  have dd: "set (f i) \<inter> set (f j) = {}" if "i < length ?tab" "j < length ?tab" "i \<noteq> j" for i j
    using f that by (auto simp: hbucket_def)
  have "distinct (concat (map f [0..<n]))" if "n \<le> length ?tab" for n
    using that
  proof (induction n)
    case (Suc n)
    have "set (f i) \<inter> set (f n) = {}" if "i < n" for i using dd [of i n] Suc.prems that by simp
    then have "set (concat (map f [0..<n])) \<inter> set (f n) = {}" by fastforce
    moreover have "distinct (f n)" using f Suc.prems by simp
    ultimately show ?case using Suc by simp
  qed simp
  then have d: "distinct (concat ass)" by (simp add: ass_def)
  obtain shs tab where r: "rehash_chains bits ?tab (shapes rt) (replicate (2 ^ bits) 0) = Some (shs, tab)" "unlinked shs = unlinked (shapes rt)"
    "hash_ok bits tab ((hkeys shs) |` ({} \<union> set (concat ass)))" using rehash_chains_ok [OF l2 d hash_ok_empty [OF b]] by blast
  have "dom (hkeys shs) = dom ?K"
  proof (rule set_eqI)
    fix a
    show "a \<in> dom (hkeys shs) \<longleftrightarrow> a \<in> dom ?K" using fun_cong [OF r(2), of a]
      by (cases "shs a"; cases "shapes rt a") (auto simp: unlinked_def hkeys_def dest: arg_cong [of _ _ is_hashed])
  qed
  then have se: "set (concat ass) = dom (hkeys shs)" using s by simp
  have "((hkeys shs) |` dom (hkeys shs)) x = hkeys shs x" for x by (cases "hkeys shs x") (simp_all add: restrict_map_def domIff)
  then have "(hkeys shs) |` ({} \<union> set (concat ass)) = hkeys shs" unfolding se by auto
  then have ho: "hash_ok bits tab (hkeys shs)" using r(3) by simp
  define rt1 where "rt1 = rt\<lparr>shapes := shs, shape_tab := tab, shape_hash_bits := bits\<rparr>"
  have u1: "unlinked (shapes rt1) = unlinked (shapes rt)" "objs rt1 = objs rt" "shape_rc rt1 = shape_rc rt" using r(2) by (simp_all add: rt1_def)
  note L = core_ok_links [OF c u1]
  have "rt_ok rt1 os ext" using L(1) ho by (simp add: rt_ok_def rt1_def)
  moreover have "resize_shape_hash ok bits rt = Some (0, rt1)" using True r(1) by (simp add: resize_shape_hash_def rt1_def)
  ultimately show ?thesis using core_ok_links(2) [OF c u1] u1(1) by blast
qed

section \<open>A new shape\<close>

lemma new_table_ok:
  "table_ok \<lparr>is_hashed = hs, hash = h, prop_hash_mask = word_of_nat (JS_PROP_INITIAL_HASH_SIZE - 1), prop_size = JS_PROP_INITIAL_SIZE, deleted_prop_count = 0,
     shape_hash_next = n, proto = q, hash_table = replicate JS_PROP_INITIAL_HASH_SIZE 0, prps = []\<rparr>"
proof -
  have "mask_ok (word_of_nat (2 ^ 2 - 1)) (2 ^ 2)" by (rule mask_okI) simp
  then show ?thesis by (simp add: table_ok_def chains_ok_def bucket_def JS_PROP_INITIAL_HASH_SIZE_def)
qed

lemma core_ok_new:
  assumes c: "core_ok rt os ext" and a: "a \<noteq> 0" "shapes rt a = None" and sh: "table_ok sh"
    and rt': "shapes rt' = (shapes rt)(a \<mapsto> sh)" "shape_rc rt' = (shape_rc rt)(a := 1)" "objs rt' = objs rt"
  shows "core_ok rt' os (ext(a := 1))" "q \<in> os \<Longrightarrow> obj_entries rt' q = obj_entries rt q"
proof -
  have na: "obj_shape (objs rt q) \<noteq> a" if "q \<in> os" for q using core_okD(5) [OF c that] a(2) by auto
  have hx: "holders rt' os x = holders rt os x" for x by (simp add: holders_def rt')
  have ha: "holders rt os a = {}" using na by (auto simp: holders_def)
  show "core_ok rt' os (ext(a := 1))"
  proof (rule core_okI)
    show "finite os" "\<And>x. 0 \<le> (ext(a := 1)) x" using core_okD(1,2) [OF c] by auto
    show "(ext(a := 1)) x = 0" if "shapes rt' x = None" for x using core_okD(3) [OF c] that by (auto simp: rt' split: if_splits)
    show "shape_ok rt' os (ext(a := 1)) x s" if s: "shapes rt' x = Some s" for x s
    proof (cases "x = a")
      case True
      then show ?thesis using s sh a(1) ha by (simp add: shape_ok_def rt' hx)
    next
      case False
      then have "shape_ok rt os ext x s" using core_okD(4) [OF c] s by (simp add: rt')
      then show ?thesis using False by (auto simp: shape_ok_def rt' hx)
    qed
    show "\<exists>s. shapes rt' (obj_shape (objs rt' q)) = Some s \<and> prop_size s \<le> length (obj_props (objs rt' q))" if q: "q \<in> os" for q
      using core_okD(5) [OF c q] na [OF q] by (simp add: rt')
  qed
  show "q \<in> os \<Longrightarrow> obj_entries rt' q = obj_entries rt q" using na by (intro obj_entries_cong) (simp_all add: rt')
qed

lemma js_new_shape_ok:
  assumes r: "rt_ok rt os ext" and m: "fresh rt m" and b: "shape_hash_bits rt < 32"
  shows "\<exists>a rt'. js_new_shape ok m pr rt = Some (a, rt') \<and> (\<forall>q \<in> os. obj_entries rt' q = obj_entries rt q)
    \<and> (a = 0 \<and> rt_ok rt' os ext
      \<or> ext a = 0 \<and> rt_ok rt' os (ext(a := 1)) \<and> (\<exists>sh. shapes rt' a = Some sh \<and> prps sh = []))"
proof -
  have c: "core_ok rt os ext" and h: "hash_inv rt (hkeys (shapes rt))" using r by (simp_all add: rt_ok_def)
  define big where "big \<longleftrightarrow> 2 * (shape_hash_count rt + 1) > int (length (shape_tab rt))"
  obtain e1 rt1 where z: "(if big then resize_shape_hash ok (shape_hash_bits rt + 1) rt else Some (0, rt)) = Some (e1, rt1)" "rt_ok rt1 os ext"
    "\<forall>q. obj_entries rt1 q = obj_entries rt q" "unlinked (shapes rt1) = unlinked (shapes rt)"
  proof (cases big)
    case True
    obtain e1 rt1 where "resize_shape_hash ok (shape_hash_bits rt + 1) rt = Some (e1, rt1) \<and> rt_ok rt1 os ext \<and> (\<forall>q. obj_entries rt1 q = obj_entries rt q)
      \<and> unlinked (shapes rt1) = unlinked (shapes rt)" using resize_shape_hash_ok [OF c h, of "shape_hash_bits rt + 1" ok] b by auto
    then show ?thesis using that True by simp
  next
    case False
    then show ?thesis using that [of 0 rt] r by simp
  qed
  show ?thesis
  proof (cases m)
    case None
    then have "js_new_shape ok m pr rt = Some (0, rt1)"
      using z(1) by (simp add: js_new_shape_def js_new_shape2_def big_def js_new_shape_nohash_def)
    then show ?thesis using z(2,3) by blast
  next
    case (Some a)
    then have a: "a \<noteq> 0" "shapes rt1 a = None" using m unlinked_None [OF z(4)] by (auto simp: fresh_def)
    have c1: "core_ok rt1 os ext" and h1: "hash_inv rt1 (hkeys (shapes rt1))" using z(2) by (simp_all add: rt_ok_def)
    define sh0 where "sh0 = \<lparr>is_hashed = False, hash = 0, prop_hash_mask = word_of_nat (JS_PROP_INITIAL_HASH_SIZE - 1), prop_size = JS_PROP_INITIAL_SIZE,
      deleted_prop_count = 0, shape_hash_next = 0, proto = pr, hash_table = replicate JS_PROP_INITIAL_HASH_SIZE 0, prps = []\<rparr>"
    define rt2 where "rt2 = dup_proto pr (put_shape a sh0 (rt1\<lparr>shape_rc := (shape_rc rt1)(a := 1)\<rparr>))"
    have n: "js_new_shape_nohash m pr JS_PROP_INITIAL_HASH_SIZE JS_PROP_INITIAL_SIZE rt1 = (a, rt2)"
      using Some by (simp add: js_new_shape_nohash_def rt2_def sh0_def)
    define sh1 where "sh1 = sh0\<lparr>hash := shape_initial_hash pr, is_hashed := True\<rparr>"
    define rt3 where "rt3 = put_shape a sh1 rt2"
    have t1: "table_ok sh1" using new_table_ok by (simp add: sh1_def sh0_def)
    have e3: "shapes rt3 = (shapes rt1)(a \<mapsto> sh1)" "shape_rc rt3 = (shape_rc rt1)(a := 1)" "objs rt3 = objs rt1" by (simp_all add: rt3_def rt2_def)
    note C = core_ok_new [OF c1 a t1 e3]
    have "(hkeys (shapes rt3))(a := None) = hkeys (shapes rt1)" using a(2) by (intro ext) (simp add: e3 hkeys_def)
    then have h3: "hash_inv rt3 ((hkeys (shapes rt3))(a := None))" using h1 by (simp add: rt3_def rt2_def)
    have s3: "shapes rt3 a = Some sh1" by (simp add: e3)
    have hs: "is_hashed sh1" by (simp add: sh1_def)
    obtain rt4 k where l: "js_shape_hash_link a rt3 = Some rt4" "rt_ok rt4 os (ext(a := 1))" "shapes rt4 a = Some (sh1\<lparr>shape_hash_next := k\<rparr>)"
      "objs rt4 = objs rt3" "shape_rc rt4 = shape_rc rt3" "unlinked (shapes rt4) = unlinked (shapes rt3)" using attach_ok [OF C(1) h3 s3] hs by auto
    have "shapes rt2 a = Some sh0" by (simp add: rt2_def)
    then have ex: "js_new_shape ok m pr rt = Some (a, rt4)"
      using z(1) n a(1) l(1) unfolding js_new_shape_def js_new_shape2_def big_def [symmetric]
      by (simp add: rt3_def sh1_def)
    note L = core_ok_links(2) [OF C(1) l(6,4,5)]
    have "\<forall>q \<in> os. obj_entries rt4 q = obj_entries rt q" using L C(2) z(3) by simp
    moreover have "ext a = 0" by (rule core_okD(3) [OF c1 a(2)])
    moreover have "prps (sh1\<lparr>shape_hash_next := k\<rparr>) = []" by (simp add: sh1_def sh0_def)
    ultimately show ?thesis using ex l(2,3) by blast
  qed
qed

section \<open>References to shapes\<close>

lemma core_ok_ext:
  assumes c: "core_ok rt os ext" and a: "shapes rt a = Some sh" "is_hashed sh" "0 \<le> ext a + d" "0 < shape_rc rt a + d"
    and rt': "shapes rt' = shapes rt" "shape_rc rt' = (shape_rc rt)(a := shape_rc rt a + d)" "objs rt' = objs rt"
  shows "core_ok rt' os (ext(a := ext a + d))" "obj_entries rt' q = obj_entries rt q"
proof -
  have hx: "holders rt' os x = holders rt os x" for x by (simp add: holders_def rt')
  show "core_ok rt' os (ext(a := ext a + d))"
  proof (rule core_okI)
    show "finite os" "\<And>x. 0 \<le> (ext(a := ext a + d)) x" using core_okD(1,2) [OF c] a(3) by auto
    show "(ext(a := ext a + d)) x = 0" if "shapes rt' x = None" for x using core_okD(3) [OF c] that a(1) by (auto simp: rt')
    show "shape_ok rt' os (ext(a := ext a + d)) x s" if s: "shapes rt' x = Some s" for x s
    proof -
      have "shape_ok rt os ext x s" using core_okD(4) [OF c] s by (simp add: rt')
      then show ?thesis using a s by (auto simp: shape_ok_def rt' hx)
    qed
    show "\<exists>s. shapes rt' (obj_shape (objs rt' q)) = Some s \<and> prop_size s \<le> length (obj_props (objs rt' q))" if q: "q \<in> os" for q
      using core_okD(5) [OF c q] by (simp add: rt')
  qed
  show "obj_entries rt' q = obj_entries rt q" by (rule obj_entries_cong) (simp_all add: rt')
qed

lemma free_shape_ok:
  assumes r: "rt_ok rt os ext" and a: "shapes rt a = Some sh" "0 < ext a"
  shows "\<exists>rt'. free_shape a rt = Some rt' \<and> rt_ok rt' os (ext(a := ext a - 1)) \<and> (\<forall>q \<in> os. obj_entries rt' q = obj_entries rt q)"
proof -
  have c: "core_ok rt os ext" and h: "hash_inv rt (hkeys (shapes rt))" using r by (simp_all add: rt_ok_def)
  have sa: "shape_ok rt os ext a sh" by (rule core_okD(4) [OF c a(1)])
  show ?thesis
  proof (cases "shape_rc rt a = 1")
    case False
    note sr = rc_shared [OF r a(1) False]
    define rt1 where "rt1 = rt\<lparr>shape_rc := (shape_rc rt)(a := shape_rc rt a - 1)\<rparr>"
    have e: "shapes rt1 = shapes rt" "shape_rc rt1 = (shape_rc rt)(a := shape_rc rt a + (-1))" "objs rt1 = objs rt" by (simp_all add: rt1_def)
    have d: "0 \<le> ext a + (-1)" "0 < shape_rc rt a + (-1)" using a(2) sr(1) by simp_all
    note E = core_ok_ext [OF c a(1) sr(2) d e]
    have "rt_ok rt1 os (ext(a := ext a - 1))" using E(1) h by (simp add: rt_ok_def rt1_def)
    then show ?thesis using free_shape_shared [OF a(1) sr(1)] E(2) unfolding rt1_def by blast
  next
    case True
    have x: "ext a = 1" "card (holders rt os a) = 0" using shape_okD(5) [OF sa] a(2) True by linarith+
    have "finite (holders rt os a)" using core_okD(1) [OF c] by (simp add: holders_def)
    then have he: "holders rt os a = {}" using x(2) by simp
    define rt1 where "rt1 = rt\<lparr>shape_rc := (shape_rc rt)(a := 0)\<rparr>"
    have h1: "hash_ok (shape_hash_bits rt1) (shape_tab rt1) (hkeys (shapes rt1))" and s1: "shapes rt1 a = Some sh" using h a(1) by (simp_all add: rt1_def)
    obtain rt2 where u: "(if is_hashed sh then js_shape_hash_unlink a rt1 else Some rt1) = Some rt2" "unlinked (shapes rt2) = unlinked (shapes rt)"
      "objs rt2 = objs rt" "shape_rc rt2 = (shape_rc rt)(a := 0)" "hash_inv rt2 ((hkeys (shapes rt2))(a := None))"
    proof (cases "is_hashed sh")
      case True
      obtain shs tab where "js_shape_hash_unlink a rt1 = Some (rt1\<lparr>shapes := shs, shape_tab := tab, shape_hash_count := shape_hash_count rt1 - 1\<rparr>)"
        "unlinked shs = unlinked (shapes rt1)" "hash_ok (shape_hash_bits rt1) tab ((hkeys shs)(a := None))"
        using js_shape_hash_unlink_ok [OF h1 s1 True] by blast
      then show ?thesis using that True by (simp add: rt1_def)
    next
      case False
      have "(hkeys (shapes rt))(a := None) = hkeys (shapes rt)" using False a(1) by (intro ext) (simp add: hkeys_def)
      then show ?thesis using that [of rt1] False h by (simp add: rt1_def)
    qed
    define rt3 where "rt3 = fold JS_FreeAtom (map prop_atom (prps sh)) (free_proto (proto sh) rt2)"
    define rt4 where "rt4 = rt3\<lparr>shapes := (shapes rt3)(a := None)\<rparr>"
    have ex: "free_shape a rt = Some rt4"
      using True a(1) u(1) s1 by (simp add: free_shape_def free_shape0_def rt1_def [symmetric] rt3_def rt4_def Let_def) (simp add: rt1_def)
    have e4: "shapes rt4 = (shapes rt2)(a := None)" "objs rt4 = objs rt" "shape_rc rt4 = (shape_rc rt)(a := 0)" "shape_tab rt4 = shape_tab rt2"
      "shape_hash_bits rt4 = shape_hash_bits rt2" by (simp_all add: rt4_def rt3_def u)
    define rt0 where "rt0 = rt\<lparr>shapes := shapes rt2\<rparr>"
    have e0: "shapes rt0 = shapes rt2" "objs rt0 = objs rt" "shape_rc rt0 = shape_rc rt" by (simp_all add: rt0_def)
    note L = core_ok_links [OF c u(2) [folded e0(1)] e0(2,3)]
    have na: "obj_shape (objs rt q) \<noteq> a" if "q \<in> os" for q using he that by (auto simp: holders_def)
    have hx: "holders rt4 os x = holders rt0 os x" for x by (simp add: holders_def e4 e0)
    have "core_ok rt4 os (ext(a := ext a - 1))"
    proof (rule core_okI)
      show "finite os" "\<And>y. 0 \<le> (ext(a := ext a - 1)) y" using core_okD(1,2) [OF c] x(1) by auto
      show "(ext(a := ext a - 1)) y = 0" if "shapes rt4 y = None" for y
        using core_okD(3) [OF L(1), of y] that x(1) by (auto simp: e4 e0 split: if_splits)
      show "shape_ok rt4 os (ext(a := ext a - 1)) y s" if s: "shapes rt4 y = Some s" for y s
      proof -
        have ya: "y \<noteq> a" "shapes rt0 y = Some s" using s by (auto simp: e4 e0 split: if_splits)
        then show ?thesis using core_okD(4) [OF L(1) ya(2)] by (auto simp: shape_ok_def e4 e0 hx)
      qed
      show "\<exists>s. shapes rt4 (obj_shape (objs rt4 q)) = Some s \<and> prop_size s \<le> length (obj_props (objs rt4 q))" if q: "q \<in> os" for q
        using core_okD(5) [OF L(1) q] na [OF q] by (simp add: e4 e0)
    qed
    then have "rt_ok rt4 os (ext(a := ext a - 1))" using u(5) by (simp add: rt_ok_def e4 hkeys_del)
    moreover have "obj_entries rt4 q = obj_entries rt q" if "q \<in> os" for q
    proof -
      have "obj_entries rt4 q = obj_entries rt0 q" by (rule obj_entries_cong) (simp_all add: e4 e0 na [OF that])
      then show ?thesis using L(2) [of q] by simp
    qed
    ultimately show ?thesis using ex by blast
  qed
qed

section \<open>A new object\<close>

lemma holders_insert:
  assumes "p \<notin> os" "obj_shape ob = a"
  shows "{q \<in> insert p os. obj_shape (((objs rt)(p := ob)) q) = x} = (if x = a then insert p (holders rt os x) else holders rt os x)"
  using assms by (auto simp: holders_def)

lemma core_ok_object:
  assumes c: "core_ok rt os ext" and p: "p \<notin> os" and a: "shapes rt a = Some sh" "0 < ext a" "prps sh = []"
    and ob: "obj_shape ob = a" "prop_size sh \<le> length (obj_props ob)"
  shows "core_ok (put_obj p ob rt) (insert p os) (ext(a := ext a - 1))" "obj_entries (put_obj p ob rt) p = []"
    "q \<in> os \<Longrightarrow> obj_entries (put_obj p ob rt) q = obj_entries rt q"
proof -
  let ?rt = "put_obj p ob rt"
  have f: "finite (holders rt os x)" for x using core_okD(1) [OF c] by (simp add: holders_def)
  have hx: "holders ?rt (insert p os) x = (if x = a then insert p (holders rt os x) else holders rt os x)" for x
    using holders_insert [OF p ob(1), of rt x] by (simp add: holders_def [of "put_obj p ob rt"])
  have pn: "p \<notin> holders rt os x" for x using p by (simp add: holders_def)
  show "core_ok ?rt (insert p os) (ext(a := ext a - 1))"
  proof (rule core_okI)
    show "finite (insert p os)" "\<And>x. 0 \<le> (ext(a := ext a - 1)) x" using core_okD(1,2) [OF c] a(2) by auto
    show "(ext(a := ext a - 1)) x = 0" if "shapes ?rt x = None" for x using core_okD(3) [OF c] that a(1) by auto
    show "shape_ok ?rt (insert p os) (ext(a := ext a - 1)) x s" if s: "shapes ?rt x = Some s" for x s
    proof -
      have "shape_ok rt os ext x s" using core_okD(4) [OF c] s by simp
      moreover have "int (card (insert p (holders rt os a))) = int (card (holders rt os a)) + 1" using f pn by simp
      ultimately show ?thesis by (auto simp: shape_ok_def hx)
    qed
    show "\<exists>s. shapes ?rt (obj_shape (objs ?rt q)) = Some s \<and> prop_size s \<le> length (obj_props (objs ?rt q))" if "q \<in> insert p os" for q
      using core_okD(5) [OF c, of q] that p a(1) ob by auto
  qed
  show "obj_entries ?rt p = []" using a(1,3) ob(1) by (simp add: obj_entries_def)
  show "q \<in> os \<Longrightarrow> obj_entries ?rt q = obj_entries rt q" using p by (intro obj_entries_cong) auto
qed

text \<open>The empty shape of a prototype that \<open>object_shape\<close> gives out holds one more reference.\<close>

lemma object_shape_ok:
  assumes r: "rt_ok rt os ext" and m: "fresh rt m" and b: "shape_hash_bits rt < 32"
  shows "\<exists>a rt'. object_shape ok m pr rt = Some (a, rt') \<and> (\<forall>q \<in> os. obj_entries rt' q = obj_entries rt q)
    \<and> (if a = 0 then rt_ok rt' os ext else rt_ok rt' os (ext(a := ext a + 1)) \<and> (\<exists>sh. shapes rt' a = Some sh \<and> prps sh = []))"
proof -
  have c: "core_ok rt os ext" and h: "hash_inv rt (hkeys (shapes rt))" using r by (simp_all add: rt_ok_def)
  let ?f = "\<lambda>sh1. hash sh1 = shape_initial_hash pr \<and> proto sh1 = pr \<and> prop_count sh1 = 0"
  obtain a where f: "find_hashed_shape_proto pr rt = Some a" "a \<noteq> 0 \<Longrightarrow> \<exists>sh. shapes rt a = Some sh \<and> is_hashed sh \<and> ?f sh"
    using find_hashed_ok [OF h, of "shape_initial_hash pr" ?f] unfolding find_hashed_shape_proto_def Let_def by blast
  show ?thesis
  proof (cases "a = 0")
    case False
    obtain sh where s: "shapes rt a = Some sh" "is_hashed sh" "prps sh = []" using f(2) [OF False] by auto
    have e: "shapes (js_dup_shape a rt) = shapes rt" "shape_rc (js_dup_shape a rt) = (shape_rc rt)(a := shape_rc rt a + 1)" "objs (js_dup_shape a rt) = objs rt"
      by (simp_all add: js_dup_shape_def)
    have d: "0 \<le> ext a + 1" "0 < shape_rc rt a + 1" using core_okD(2) [OF c, of a] shape_okD(4) [OF core_okD(4) [OF c s(1)]] by simp_all
    note E = core_ok_ext [OF c s(1,2) d e]
    have "rt_ok (js_dup_shape a rt) os (ext(a := ext a + 1))" using E(1) h by (simp add: rt_ok_def js_dup_shape_def)
    moreover have "object_shape ok m pr rt = Some (a, js_dup_shape a rt)" using f(1) False by (simp add: object_shape_def)
    ultimately show ?thesis using E(2) False s(1,3) e(1) by (intro exI [of _ a] exI [of _ "js_dup_shape a rt"]) simp
  next
    case True
    obtain a' rt' where n: "js_new_shape ok m pr rt = Some (a', rt')" "\<forall>q \<in> os. obj_entries rt' q = obj_entries rt q"
      "a' = 0 \<and> rt_ok rt' os ext \<or> ext a' = 0 \<and> rt_ok rt' os (ext(a' := 1)) \<and> (\<exists>sh. shapes rt' a' = Some sh \<and> prps sh = [])"
      using js_new_shape_ok [OF r m b, of ok pr] by (elim exE conjE)
    have ex: "object_shape ok m pr rt = Some (a', rt')" using f(1) True n(1) by (simp add: object_shape_def)
    from n(3) show ?thesis
    proof
      assume "a' = 0 \<and> rt_ok rt' os ext"
      then show ?thesis using ex n(2) by (intro exI [of _ a'] exI [of _ rt']) simp
    next
      assume z: "ext a' = 0 \<and> rt_ok rt' os (ext(a' := 1)) \<and> (\<exists>sh. shapes rt' a' = Some sh \<and> prps sh = [])"
      then obtain sh where s: "shapes rt' a' = Some sh" by blast
      have "core_ok rt' os (ext(a' := 1))" using z by (simp add: rt_ok_def)
      then have "a' \<noteq> 0" using shape_okD(1) [OF core_okD(4) [OF _ s]] by blast
      moreover have "ext(a' := ext a' + 1) = ext(a' := 1)" using z by simp
      ultimately show ?thesis using ex n(2) z by (intro exI [of _ a'] exI [of _ rt']) simp
    qed
  qed
qed

lemma new_object_ok:
  assumes r: "rt_ok rt os ext" and m: "fresh rt m" and b: "shape_hash_bits rt < 32" and q: "q = None \<or> q = Some p" "p \<notin> os"
  shows "\<exists>res rt'. new_object ok m q ok1 pr rt = Some (res, rt') \<and> (\<forall>q \<in> os. obj_entries rt' q = obj_entries rt q)
    \<and> (res = None \<and> rt_ok rt' os ext \<or> res = Some p \<and> rt_ok rt' (insert p os) ext \<and> obj_entries rt' p = [])"
proof -
  obtain a rt1 where n: "object_shape ok m pr rt = Some (a, rt1)" "\<forall>q \<in> os. obj_entries rt1 q = obj_entries rt q"
    "if a = 0 then rt_ok rt1 os ext else rt_ok rt1 os (ext(a := ext a + 1)) \<and> (\<exists>sh. shapes rt1 a = Some sh \<and> prps sh = [])"
    using object_shape_ok [OF r m b, of ok pr] by (elim exE conjE)
  show ?thesis
  proof (cases "a = 0")
    case True
    then show ?thesis using n by (intro exI [of _ None] exI [of _ rt1]) (simp add: new_object_def)
  next
    case False
    then obtain sh where s: "rt_ok rt1 os (ext(a := ext a + 1))" "shapes rt1 a = Some sh" "prps sh = []" using n(3) by auto
    have c: "core_ok rt1 os (ext(a := ext a + 1))" and h: "hash_inv rt1 (hkeys (shapes rt1))" using s(1) by (simp_all add: rt_ok_def)
    have ea: "0 \<le> ext a" using core_okD(2) r unfolding rt_ok_def by blast
    then have e0: "0 < (ext(a := ext a + 1)) a" by simp
    have eb: "(ext(a := ext a + 1))(a := (ext(a := ext a + 1)) a - 1) = ext" by simp
    show ?thesis
    proof (cases "q = None \<or> \<not> ok1")
      case True
      obtain rt' where f: "free_shape a rt1 = Some rt'" "rt_ok rt' os ext" "\<forall>q \<in> os. obj_entries rt' q = obj_entries rt1 q"
        using free_shape_ok [OF s(1,2) e0] unfolding eb by blast
      have "new_object ok m q ok1 pr rt = Some (None, rt')" using n(1) False f(1) True q(1) by (auto simp: new_object_def object_from_shape_def)
      then show ?thesis using f(2,3) n(2) by (intro exI [of _ None] exI [of _ rt']) simp
    next
      case go: False
      define ob where "ob = \<lparr>obj_shape = a, obj_props = replicate (prop_size sh) None, is_std_array_prototype = False,
              has_immutable_prototype = False, is_global_object = False\<rparr>"
      have ob: "obj_shape ob = a" "prop_size sh \<le> length (obj_props ob)" by (simp_all add: ob_def)
      note C = core_ok_object [OF c q(2) s(2) e0 s(3) ob, unfolded eb]
      have "rt_ok (put_obj p ob rt1) (insert p os) ext" using C(1) h by (simp add: rt_ok_def)
      moreover have "new_object ok m q ok1 pr rt = Some (Some p, put_obj p ob rt1)"
        using n(1) False go q(1) s(2) by (auto simp: new_object_def object_from_shape_def ob_def)
      ultimately show ?thesis using C(2,3) n(2) by (intro exI [of _ "Some p"] exI [of _ "put_obj p ob rt1"]) simp
    qed
  qed
qed

end
