(* ===== verification/ShapesProps.thy ===== *)
theory ShapesProps
  imports ShapesNew
begin

text \<open>
  What shapes promise to the objects that use them: an object behaves as a list of properties of
  its own, although its shape is shared, cloned, moved and compacted behind it.
\<close>

unbundle bit_operations_syntax

section \<open>An example\<close>

text \<open>Two objects that share one hashed shape with one configurable property.\<close>

definition example_shape :: JSShape where
  "example_shape = \<lparr>is_hashed = True, hash = 0, prop_hash_mask = 3, prop_size = 2, deleted_prop_count = 0, shape_hash_next = 0, proto = 0,
     hash_table = [1, 0, 0, 0], prps = [\<lparr>hash_next = 0, flags = 7, prop_atom = 300\<rparr>]\<rparr>"

definition example_object :: "u32 \<Rightarrow> shape_obj" where
  "example_object v = \<lparr>obj_shape = 10, obj_props = [Some (Prop_Value (JS_Int v)), None], is_std_array_prototype = False,
     has_immutable_prototype = False, is_global_object = False\<rparr>"

definition example_rt :: shape_rt where
  "example_rt = \<lparr>shapes = (\<lambda>a. if a = 10 then Some example_shape else None), shape_rc = (\<lambda>_. 2), shape_hash_bits = 1, shape_hash_count = 1,
     shape_tab = [10, 0], objs = (\<lambda>p. example_object (word_of_nat p)), atom_rc = (\<lambda>_. 1), proto_rc = (\<lambda>_. 0), context_protos = [], released = []\<rparr>"

definition example_alloc :: "nat \<Rightarrow> addr option" where
  "example_alloc i = Some (20 + i)"

lemma example_alloc_ok: "alloc_ok example_rt example_alloc"
  by (simp add: alloc_ok_def fresh_def example_alloc_def example_rt_def)

lemma example_table_ok: "table_ok example_shape"
proof -
  have m: "mask_ok 3 (length [1 :: nat, 0, 0, 0])" using mask_okI [of 2] by (simp add: numeral_eq_Suc)
  have "bucket [300] 3 h = (if h = 0 then [0] else [])" for h by (simp add: bucket_def bucket_of_def)
  then have "chains_ok 3 [\<lparr>hash_next = 0, flags = 7, prop_atom = 300\<rparr>] [1, 0, 0, 0]" by (auto simp: chains_ok_def nth_Cons split: nat.splits)
  then show ?thesis using m by (simp add: table_ok_def example_shape_def JS_PROP_INITIAL_SIZE_def)
qed

lemma example_rt_ok: "rt_ok example_rt {100, 101} (\<lambda>_. 0)"
proof -
  have h: "holders example_rt {100, 101} 10 = {100, 101}" by (auto simp: holders_def example_rt_def example_object_def)
  have "core_ok example_rt {100, 101} (\<lambda>_. 0)"
  proof (rule core_okI)
    show "shape_ok example_rt {100, 101} (\<lambda>_. 0) a sh" if "shapes example_rt a = Some sh" for a sh
      using that h example_table_ok by (auto simp: shape_ok_def example_rt_def example_shape_def split: if_splits)
    show "\<exists>sh. shapes example_rt (obj_shape (objs example_rt p)) = Some sh \<and> prop_size sh \<le> length (obj_props (objs example_rt p))" for p
      by (simp add: example_rt_def example_object_def example_shape_def)
  qed simp_all
  moreover have "hash_inv example_rt (hkeys (shapes example_rt))"
  proof -
    have k: "hkeys (shapes example_rt) = [10 \<mapsto> (0, 0)]" by (intro ext) (simp add: hkeys_def example_rt_def example_shape_def)
    have "hbucket 1 [10 \<mapsto> (0, 0)] h = (if h = 0 then {10} else {})" for h by (auto simp: hbucket_def get_shape_hash_def)
    then have "\<exists>as. hpath [10 \<mapsto> (0 :: u32, 0)] ([10, 0] ! h) as \<and> distinct as \<and> set as = hbucket 1 [10 \<mapsto> (0, 0)] h" if "h < 2" for h
      using that by (cases "h = 0") (auto intro: exI [of _ "[10]"] exI [of _ "[]"])
    then show ?thesis unfolding k by (simp add: hash_ok_def example_rt_def)
  qed
  ultimately show ?thesis by (simp add: rt_ok_def)
qed

lemma example_entries: "obj_entries example_rt p = [(300, 7, Some (Prop_Value (JS_Int (word_of_nat p))))]"
  by (simp add: obj_entries_def example_rt_def example_object_def example_shape_def)

lemma example_get_shape: "shapes example_rt (obj_shape (objs example_rt p)) = Some example_shape"
  by (simp add: example_rt_def example_object_def)

section \<open>Properties\<close>

text \<open>C5: Lookup finds exactly the own properties: the walk along the hash chain of the atom stays
  inside the table, ends, and its answer is the entry of the atom in the list of properties of
  the object, with its flags and its value, or none when there is no such entry.\<close>

theorem own_property_lookup:
  assumes "rt_ok rt os ext" "p \<in> os" "x \<noteq> 0"
  shows "\<exists>r. find_own_property p x rt = Some r \<and> map_option (\<lambda>(pr, v). (flags pr, v)) r = map_of (obj_entries rt p) x"
  using assms by (rule find_own_property_ok)

lemma own_property_lookup_witness:
  "\<exists>r. find_own_property 100 300 example_rt = Some r \<and> map_option (\<lambda>(pr, v). (flags pr, v)) r = Some (7, Some (Prop_Value (JS_Int 100)))"
  using own_property_lookup [OF example_rt_ok, of 100 300] by (simp add: example_entries)

text \<open>C3: \<open>add_property\<close> of an atom that the object does not have: whatever the allocator answers,
  no assertion fails and no access leaves its object; either memory ran out and the object has
  the properties it had, or the returned slot, once written, is the value of one more property
  at the end of its list. The reference counts, tables and hash chains of all shapes are again
  well-formed, and every other object keeps its properties, shared shape or not.\<close>

theorem add_property_appends:
  assumes "rt_ok rt os ext" "p \<in> os" "shapes rt (obj_shape (objs rt p)) = Some sh" "alloc_ok rt m"
    and "x \<noteq> 0" "x \<notin> fst ` set (obj_entries rt p)" "prop_count sh + 1 < 2 ^ 26" "fl < 2 ^ 6"
  shows "\<exists>i rt'. add_property ok m p x fl rt = Some (i, rt') \<and> rt_ok rt' os ext
    \<and> (\<forall>q \<in> os. q \<noteq> p \<longrightarrow> obj_entries rt' q = obj_entries rt q)
    \<and> (case i of
         None \<Rightarrow> obj_entries rt' p = obj_entries rt p
       | Some i \<Rightarrow> i < length (obj_props (objs rt' p)) \<and> (\<forall>v. obj_entries (set_value p i v rt') p = obj_entries rt p @ [(x, fl, Some v)]))"
proof -
  obtain i rt' where "add_property ok m p x fl rt = Some (i, rt')" "rt_ok rt' os ext" "others_same rt rt' os p" "added rt p x fl (i, rt')"
    using add_property_ok [OF assms, of ok] by blast
  then show ?thesis by (intro exI [of _ i] exI [of _ rt']) (cases i; simp add: others_same_def added_def)
qed

lemma add_property_appends_witness:
  "\<exists>i rt'. add_property (\<lambda>_. True) example_alloc 100 301 7 example_rt = Some (i, rt') \<and> rt_ok rt' {100, 101} (\<lambda>_. 0)
    \<and> obj_entries rt' 101 = [(300, 7, Some (Prop_Value (JS_Int 101)))]"
proof -
  have "\<exists>i rt'. add_property (\<lambda>_. True) example_alloc 100 301 7 example_rt = Some (i, rt') \<and> rt_ok rt' {100, 101} (\<lambda>_. 0)
    \<and> (\<forall>q \<in> {100, 101}. q \<noteq> 100 \<longrightarrow> obj_entries rt' q = obj_entries example_rt q)
    \<and> (case i of
         None \<Rightarrow> obj_entries rt' 100 = obj_entries example_rt 100
       | Some i \<Rightarrow> i < length (obj_props (objs rt' 100)) \<and> (\<forall>v. obj_entries (set_value 100 i v rt') 100 = obj_entries example_rt 100 @ [(301, 7, Some v)]))"
    by (rule add_property_appends [OF example_rt_ok _ example_get_shape example_alloc_ok])
      (simp_all add: example_entries, simp add: example_shape_def)
  then show ?thesis by (auto simp: example_entries)
qed

text \<open>C4: \<open>delete_property\<close> on a plain object: an atom that is not a property is left to the
  code for exotic objects; a property that is not configurable stays and the answer is 0;
  otherwise the answer is -1 with nothing changed when the shape could not be cloned, or 1 and
  exactly this property is gone, its value is released, and the invariant holds again, also
  after the table was compacted. Every other object keeps its properties.\<close>

theorem delete_property_removes:
  assumes "rt_ok rt os ext" "p \<in> os" "\<not> is_global_object (objs rt p)" "alloc_ok rt m" "x \<noteq> 0"
    and "\<forall>e \<in> set (obj_entries rt p). snd (snd e) \<noteq> None"
  shows "case map_of (obj_entries rt p) x of
      None \<Rightarrow> delete_property other rg ok m p x rt = other p x rt
    | Some (fl, slot) \<Rightarrow>
        if fl AND JS_PROP_CONFIGURABLE = 0 then delete_property other rg ok m p x rt = Some (0, rt)
        else \<exists>r rt'. delete_property other rg ok m p x rt = Some (r, rt') \<and> rt_ok rt' os ext
          \<and> (\<forall>q \<in> os. q \<noteq> p \<longrightarrow> obj_entries rt' q = obj_entries rt q)
          \<and> (r = -1 \<and> rt' = rt
            \<or> r = 1 \<and> obj_entries rt' p = filter (\<lambda>e. fst e \<noteq> x) (obj_entries rt p) \<and> released rt' = the slot # released rt)"
proof (cases "map_of (obj_entries rt p) x")
  case None
  then show ?thesis using delete_property_absent [OF assms(1,2,5)] by simp
next
  case (Some e)
  obtain fl slot where e: "e = (fl, slot)" by (cases e)
  have "(x, fl, slot) \<in> set (obj_entries rt p)" using Some e by (auto dest: map_of_SomeD)
  then obtain v where v: "slot = Some v" using assms(6) by force
  show ?thesis
  proof (cases "fl AND JS_PROP_CONFIGURABLE = 0")
    case True
    then show ?thesis using delete_property_refused [OF assms(1,2,5)] Some e by simp
  next
    case False
    obtain r rt' where "delete_property other rg ok m p x rt = Some (r, rt')" "rt_ok rt' os ext" "others_same rt rt' os p"
      "r = -1 \<and> rt' = rt \<or> r = 1 \<and> obj_entries rt' p = filter (\<lambda>e. fst e \<noteq> x) (obj_entries rt p) \<and> released rt' = v # released rt"
      using delete_property_ok [OF assms(1-5) _ False] Some e v by blast
    then show ?thesis using Some e v False by (simp add: others_same_def)
  qed
qed

lemma delete_property_removes_witness:
  "\<exists>r rt'. delete_property (\<lambda>_ _ rt. Some (1, rt)) (\<lambda>_ _ rt. Some (0, rt)) True example_alloc 100 300 example_rt = Some (r, rt')
    \<and> rt_ok rt' {100, 101} (\<lambda>_. 0) \<and> obj_entries rt' 101 = [(300, 7, Some (Prop_Value (JS_Int 101)))] \<and> (r = -1 \<or> r = 1 \<and> obj_entries rt' 100 = [])"
  using delete_property_removes [OF example_rt_ok _ _ example_alloc_ok, of 100 300 "\<lambda>_ _ rt. Some (1, rt)" "\<lambda>_ _ rt. Some (0, rt)" True]
  by (auto simp: example_entries JS_PROP_CONFIGURABLE_def) (auto simp: example_rt_def example_object_def)

text \<open>C6: A new plain object of a prototype: it gets the empty hashed shape of the prototype or a
  new one, the hash table of shapes growing first when it is half full; the result has no own
  properties, so that no lookup finds any, its shape is counted, and the other objects are as
  they were. When an allocation fails the reference to the shape is given back.\<close>

theorem new_object_is_empty:
  assumes "rt_ok rt os ext" "fresh rt m" "shape_hash_bits rt < 32" "q = None \<or> q = Some p" "p \<notin> os"
  shows "\<exists>res rt'. new_object ok m q ok1 pr rt = Some (res, rt') \<and> (\<forall>q \<in> os. obj_entries rt' q = obj_entries rt q)
    \<and> (res = None \<and> rt_ok rt' os ext
      \<or> res = Some p \<and> rt_ok rt' (insert p os) ext \<and> obj_entries rt' p = [] \<and> (\<forall>x. x \<noteq> 0 \<longrightarrow> find_own_property p x rt' = Some None))"
proof -
  obtain res rt' where n: "new_object ok m q ok1 pr rt = Some (res, rt')" "\<forall>q \<in> os. obj_entries rt' q = obj_entries rt q"
    "res = None \<and> rt_ok rt' os ext \<or> res = Some p \<and> rt_ok rt' (insert p os) ext \<and> obj_entries rt' p = []"
    using new_object_ok [OF assms, of ok ok1 pr] by (elim exE conjE)
  have "find_own_property p x rt' = Some None" if "rt_ok rt' (insert p os) ext" "obj_entries rt' p = []" "x \<noteq> 0" for x
    using find_own_property_ok [OF that(1) _ that(3), of p] that(2) by auto
  then show ?thesis using n by (intro exI [of _ res] exI [of _ rt']) auto
qed

lemma new_object_is_empty_witness:
  "\<exists>res rt'. new_object True (Some 30) (Some 102) True 0 example_rt = Some (res, rt') \<and> obj_entries rt' 100 = [(300, 7, Some (Prop_Value (JS_Int 100)))]
    \<and> (res = None \<or> res = Some 102 \<and> find_own_property 102 300 rt' = Some None)"
proof -
  have f: "fresh example_rt (Some 30)" "shape_hash_bits example_rt < 32" by (simp_all add: fresh_def example_rt_def)
  obtain res rt' where "new_object True (Some 30) (Some 102) True 0 example_rt = Some (res, rt')" "\<forall>q \<in> {100, 101}. obj_entries rt' q = obj_entries example_rt q"
    "res = None \<and> rt_ok rt' {100, 101} (\<lambda>_. 0)
      \<or> res = Some 102 \<and> rt_ok rt' (insert 102 {100, 101}) (\<lambda>_. 0) \<and> obj_entries rt' 102 = [] \<and> (\<forall>x. x \<noteq> 0 \<longrightarrow> find_own_property 102 x rt' = Some None)"
    using new_object_is_empty [OF example_rt_ok f disjI2 [OF refl], of 102 True True 0] by auto
  then show ?thesis by (intro exI [of _ res] exI [of _ rt']) (auto simp: example_entries)
qed

end
