(* ===== verification/Promise.thy ===== *)
theory Promise
  imports JobQueue
begin

text \<open>
  Promises (\<open>quickjs/quickjs.c\<close>): their state, the reactions that wait for it, the pair of functions
  that resolves one, the jobs that run reactions, and the rejection tracker of the host. \<open>base\<close> is
  the runtime of \<open>Engine\<close> with its job queue; a block that was freed is None. \<open>JS_FreeValue\<close> counts references
  only: the finalizers of promises and of their functions are operations of their own. Guest code and the
  host enter through arguments that may change the whole state: calls of functions, the getter
  of \<open>then\<close>, the rejection tracker. The links of the reactions are lists (see \<open>ListH\<close>).
\<close>

section \<open>State\<close>

datatype JSPromiseStateEnum = JS_PROMISE_PENDING | JS_PROMISE_FULFILLED | JS_PROMISE_REJECTED

record JSPromiseReactionData =
  resolving_funcs :: "jsval \<times> jsval"
  handler :: jsval

text \<open>\<open>promise_reactions\<close> has an index that is 0 for fulfilment and 1 for rejection: here it is \<open>is_reject\<close>.\<close>

record JSPromiseData =
  promise_state :: JSPromiseStateEnum
  promise_reactions :: "bool \<Rightarrow> JSPromiseReactionData list"
  is_handled :: bool
  promise_result :: jsval

record JSPromiseFunctionDataResolved =
  sr_ref_count :: int
  already_resolved :: bool

text \<open>\<open>rejects\<close> stands for the class of the function, \<open>JS_CLASS_PROMISE_RESOLVE_FUNCTION\<close> or the one after it.\<close>

record JSPromiseFunctionData =
  rejects :: bool
  promise :: jsval
  presolved :: addr

record 'o promise_rt =
  base :: "'o js_runtime"
  promise_at :: "addr \<Rightarrow> JSPromiseData option"
  function_at :: "addr \<Rightarrow> JSPromiseFunctionData option"
  resolved_at :: "addr \<Rightarrow> JSPromiseFunctionDataResolved option"

abbreviation on_base :: "('o js_runtime \<Rightarrow> 'o js_runtime) \<Rightarrow> 'o promise_rt \<Rightarrow> 'o promise_rt" where
  "on_base f st \<equiv> st\<lparr>base := f (base st)\<rparr>"

abbreviation put_promise :: "addr \<Rightarrow> JSPromiseData \<Rightarrow> 'o promise_rt \<Rightarrow> 'o promise_rt" where
  "put_promise a s st \<equiv> st\<lparr>promise_at := (promise_at st)(a \<mapsto> s)\<rparr>"

text \<open>\<open>JS_GetOpaque\<close> of the class of promises.\<close>

fun promise_block :: "jsval \<Rightarrow> addr" where
  "promise_block (JS_Object a) = a"
| "promise_block _ = 0"

definition promise_of :: "jsval \<Rightarrow> 'o promise_rt \<Rightarrow> JSPromiseData option" where
  "promise_of v st = (case v of JS_Object a \<Rightarrow> promise_at st a | _ \<Rightarrow> None)"

definition JS_PromiseState :: "jsval \<Rightarrow> 'o promise_rt \<Rightarrow> JSPromiseStateEnum option" where
  "JS_PromiseState v st = map_option promise_state (promise_of v st)"

definition JS_PromiseResult :: "jsval \<Rightarrow> 'o promise_rt \<Rightarrow> jsval \<times> 'o promise_rt" where
  "JS_PromiseResult v st =
     (case promise_of v st of
        None \<Rightarrow> (JS_Undefined, st)
      | Some s \<Rightarrow> (promise_result s, on_base (\<lambda>rt. snd (JS_DupValue (promise_result s) rt)) st))"

text \<open>The job functions, as C pointers.\<close>

definition PROMISE_REACTION_JOB :: cptr where "PROMISE_REACTION_JOB = 21"
definition RESOLVE_THENABLE_JOB :: cptr where "RESOLVE_THENABLE_JOB = 22"

section \<open>Settling a promise\<close>

definition promise_reaction_data_free :: "JSPromiseReactionData \<Rightarrow> 'o js_runtime \<Rightarrow> 'o js_runtime" where
  "promise_reaction_data_free d = free_values [fst (resolving_funcs d), snd (resolving_funcs d), handler d]"

definition reaction_args :: "JSPromiseReactionData \<Rightarrow> bool \<Rightarrow> jsval \<Rightarrow> jsval list" where
  "reaction_args d is_reject v = [fst (resolving_funcs d), snd (resolving_funcs d), handler d, JS_Bool is_reject, v]"

text \<open>\<open>es\<close> are the answers of the allocator for the entries of the job queue; a job that gets none is dropped.\<close>

fun enqueue_reactions ::
    "('o js_runtime \<Rightarrow> 'o js_runtime) \<Rightarrow> addr \<Rightarrow> bool \<Rightarrow> jsval \<Rightarrow> addr list \<Rightarrow> JSPromiseReactionData list \<Rightarrow> 'o js_runtime \<Rightarrow> 'o js_runtime" where
  "enqueue_reactions oom ctx is_reject v es [] rt = rt"
| "enqueue_reactions oom ctx is_reject v es (d # ds) rt =
     enqueue_reactions oom ctx is_reject v (tl es) ds
       (promise_reaction_data_free d
          (snd (JS_EnqueueJob oom (case es of [] \<Rightarrow> 0 | e # _ \<Rightarrow> e) ctx PROMISE_REACTION_JOB (reaction_args d is_reject v) rt)))"

fun free_reactions :: "JSPromiseReactionData list \<Rightarrow> 'o js_runtime \<Rightarrow> 'o js_runtime" where
  "free_reactions [] rt = rt"
| "free_reactions (d # ds) rt = free_reactions ds (promise_reaction_data_free d rt)"

text \<open>
  \<open>track ctx v reason is_handled\<close> is the call of \<open>host_promise_rejection_tracker\<close>, made for a promise that is
  rejected and not handled when there is a tracker.
\<close>

definition tell_tracker ::
    "(addr \<Rightarrow> jsval \<Rightarrow> jsval \<Rightarrow> bool \<Rightarrow> 'o promise_rt \<Rightarrow> 'o promise_rt) \<Rightarrow> addr \<Rightarrow> jsval \<Rightarrow> JSPromiseData \<Rightarrow> bool \<Rightarrow> 'o promise_rt \<Rightarrow> 'o promise_rt" where
  "tell_tracker track ctx p s handled st =
     (if promise_state s = JS_PROMISE_REJECTED \<and> \<not> is_handled s \<and> rejection_tracker (base st) \<noteq> 0
      then track ctx p (promise_result s) handled st else st)"

definition settled_data :: "jsval \<Rightarrow> bool \<Rightarrow> JSPromiseData \<Rightarrow> JSPromiseData" where
  "settled_data v is_reject s =
     s\<lparr>promise_result := v, promise_state := if is_reject then JS_PROMISE_REJECTED else JS_PROMISE_FULFILLED\<rparr>"

definition fulfill_or_reject_promise ::
    "('o js_runtime \<Rightarrow> 'o js_runtime) \<Rightarrow> (addr \<Rightarrow> jsval \<Rightarrow> jsval \<Rightarrow> bool \<Rightarrow> 'o promise_rt \<Rightarrow> 'o promise_rt) \<Rightarrow> addr list \<Rightarrow>
     addr \<Rightarrow> jsval \<Rightarrow> jsval \<Rightarrow> bool \<Rightarrow> 'o promise_rt \<Rightarrow> 'o promise_rt option" where
  "fulfill_or_reject_promise oom track es ctx p v is_reject st =
     (case promise_of p st of
        None \<Rightarrow> Some st
      | Some s \<Rightarrow>
          if promise_state s \<noteq> JS_PROMISE_PENDING then Some st
          else let
            a = promise_block p;
            s1 = settled_data v is_reject s;
            st1 = put_promise a s1 (on_base (\<lambda>rt. JS_FreeValue (promise_result s) (snd (JS_DupValue v rt))) st);
            st2 = tell_tracker track ctx p s1 False st1
          in do {
            s2 \<leftarrow> promise_at st2 a;
            Some (put_promise a (s2\<lparr>promise_reactions := (\<lambda>_. [])\<rparr>)
              (on_base (\<lambda>rt. free_reactions (promise_reactions s2 (\<not> is_reject))
                 (enqueue_reactions oom ctx is_reject v es (promise_reactions s2 is_reject) rt)) st2))
          })"

abbreviation reject_promise where
  "reject_promise oom track es ctx p v \<equiv> fulfill_or_reject_promise oom track es ctx p v True"

section \<open>Reactions\<close>

text \<open>
  \<open>ok0\<close>, \<open>ok1\<close>: the two records; \<open>is_fun\<close> is \<open>JS_IsFunction\<close>. \<open>resolve_reject\<close> are the two handlers and
  \<open>caps\<close> the two resolving functions of the promise that \<open>then\<close> returns.
\<close>

definition reaction_data :: "(jsval \<Rightarrow> bool) \<Rightarrow> jsval \<Rightarrow> jsval \<times> jsval \<Rightarrow> 'o js_runtime \<Rightarrow> JSPromiseReactionData \<times> 'o js_runtime" where
  "reaction_data is_fun h caps rt =
     (let h1 = (if is_fun h then h else JS_Undefined)
      in (\<lparr>resolving_funcs = caps, handler = h1\<rparr>, dup_values [fst caps, snd caps, h1] rt))"

definition perform_promise_then ::
    "('o js_runtime \<Rightarrow> 'o js_runtime) \<Rightarrow> (addr \<Rightarrow> jsval \<Rightarrow> jsval \<Rightarrow> bool \<Rightarrow> 'o promise_rt \<Rightarrow> 'o promise_rt) \<Rightarrow> (jsval \<Rightarrow> bool) \<Rightarrow> bool \<Rightarrow> bool \<Rightarrow> addr \<Rightarrow>
     addr \<Rightarrow> jsval \<Rightarrow> jsval \<times> jsval \<Rightarrow> jsval \<times> jsval \<Rightarrow> 'o promise_rt \<Rightarrow> (int \<times> 'o promise_rt) option" where
  "perform_promise_then oom track is_fun ok0 ok1 e ctx p resolve_reject caps st =
     (if \<not> ok0 then Some (-1, on_base oom st)
      else let (d0, rt0) = reaction_data is_fun (fst resolve_reject) caps (base st) in
      if \<not> ok1 then Some (-1, st\<lparr>base := promise_reaction_data_free d0 (oom rt0)\<rparr>)
      else let
        (d1, rt1) = reaction_data is_fun (snd resolve_reject) caps rt0;
        st1 = st\<lparr>base := rt1\<rparr>;
        a = promise_block p
      in do {
        s \<leftarrow> promise_of p st1;
        st3 \<leftarrow> (if promise_state s = JS_PROMISE_PENDING
          then Some (put_promise a (s\<lparr>promise_reactions := (\<lambda>r. promise_reactions s r @ [if r then d1 else d0])\<rparr>) st1)
          else let
            st2 = tell_tracker track ctx p s True st1
          in do {
            s2 \<leftarrow> promise_at st2 a;
            let r = (promise_state s2 = JS_PROMISE_REJECTED);
            let d = (if r then d1 else d0);
            Some (on_base (\<lambda>rt. promise_reaction_data_free d1 (promise_reaction_data_free d0
              (snd (JS_EnqueueJob oom e ctx PROMISE_REACTION_JOB (reaction_args d r (promise_result s2)) rt)))) st2)
          });
        s3 \<leftarrow> promise_at st3 a;
        Some (0, put_promise a (s3\<lparr>is_handled := True\<rparr>) st3)
      })"

text \<open>
  \<open>js_call f this args\<close> is \<open>JS_Call\<close>. A reaction is the result of its handler, then the exception taken from it,
  then the call of the resolving function; the flag comes from \<open>reaction_args\<close>, so that it is a boolean.
\<close>

definition handler_result ::
    "(jsval \<Rightarrow> jsval \<Rightarrow> jsval list \<Rightarrow> 'o promise_rt \<Rightarrow> jsval \<times> 'o promise_rt) \<Rightarrow> jsval \<Rightarrow> bool \<Rightarrow> jsval \<Rightarrow> 'o promise_rt \<Rightarrow> jsval \<times> 'o promise_rt" where
  "handler_result js_call h is_reject arg st =
     (if h = JS_Undefined
      then let rt = snd (JS_DupValue arg (base st))
           in if is_reject then (let (x, rt1) = JS_Throw arg rt in (x, st\<lparr>base := rt1\<rparr>)) else (arg, st\<lparr>base := rt\<rparr>)
      else js_call h JS_Undefined [arg] st)"

definition taken_exception :: "jsval \<Rightarrow> 'o promise_rt \<Rightarrow> jsval \<times> 'o promise_rt" where
  "taken_exception res st =
     (if JS_IsException res then (let (x, rt1) = JS_GetException (base st) in (x, st\<lparr>base := rt1\<rparr>)) else (res, st))"

definition call_capability ::
    "(jsval \<Rightarrow> jsval \<Rightarrow> jsval list \<Rightarrow> 'o promise_rt \<Rightarrow> jsval \<times> 'o promise_rt) \<Rightarrow> jsval \<Rightarrow> jsval \<Rightarrow> 'o promise_rt \<Rightarrow> jsval \<times> 'o promise_rt" where
  "call_capability js_call func arg st = (if func \<noteq> JS_Undefined then js_call func JS_Undefined [arg] st else (JS_Undefined, st))"

definition promise_reaction_job ::
    "(jsval \<Rightarrow> jsval \<Rightarrow> jsval list \<Rightarrow> 'o promise_rt \<Rightarrow> jsval \<times> 'o promise_rt) \<Rightarrow> jsval list \<Rightarrow> 'o promise_rt \<Rightarrow> (jsval \<times> 'o promise_rt) option" where
  "promise_reaction_job js_call argv st =
     (if length argv \<noteq> 5 then None
      else let
        (res, st1) = handler_result js_call (argv ! 2) (argv ! 3 = JS_Bool True) (argv ! 4) st;
        (res1, st2) = taken_exception res st1;
        (res2, st3) = call_capability js_call (argv ! (if JS_IsException res then 1 else 0)) res1 st2
      in Some (res2, on_base (JS_FreeValue res1) st3))"

section \<open>Resolving functions\<close>

definition free_resolved :: "addr \<Rightarrow> 'o promise_rt \<Rightarrow> 'o promise_rt option" where
  "free_resolved sr st =
     do {
       r \<leftarrow> resolved_at st sr;
       Some (st\<lparr>resolved_at := (resolved_at st)(sr := if sr_ref_count r - 1 = 0 then None else Some (r\<lparr>sr_ref_count := sr_ref_count r - 1\<rparr>))\<rparr>)
     }"

text \<open>
  \<open>sr\<close> is the shared block, \<open>fs\<close> the two function objects (0 when \<open>JS_NewObjectProtoClass\<close> failed), \<open>oks\<close>
  the answers for their data. The length and the name of a function are not part of this state.
\<close>

definition js_new_resolving_function :: "bool \<Rightarrow> jsval \<Rightarrow> addr \<Rightarrow> addr \<Rightarrow> bool \<Rightarrow> 'o promise_rt \<Rightarrow> (bool \<times> 'o promise_rt) option" where
  "js_new_resolving_function i p sr f ok st =
     (if f = 0 then Some (False, st)
      else if \<not> ok then Some (False, on_base (JS_FreeValue (JS_Object f)) st)
      else do {
        r \<leftarrow> resolved_at st sr;
        Some (True, (on_base (\<lambda>rt. snd (JS_DupValue p rt)) st)
          \<lparr>resolved_at := (resolved_at st)(sr \<mapsto> r\<lparr>sr_ref_count := sr_ref_count r + 1\<rparr>),
           function_at := (function_at st)(f \<mapsto> \<lparr>rejects = i, promise = p, presolved = sr\<rparr>)\<rparr>)
      })"

definition js_create_resolving_functions ::
    "('o js_runtime \<Rightarrow> 'o js_runtime) \<Rightarrow> addr \<Rightarrow> addr \<times> addr \<Rightarrow> bool \<times> bool \<Rightarrow> jsval \<Rightarrow> 'o promise_rt \<Rightarrow> (int \<times> (jsval \<times> jsval) \<times> 'o promise_rt) option" where
  "js_create_resolving_functions oom sr fs oks p st =
     (if sr = 0 then Some (-1, (JS_Undefined, JS_Undefined), on_base oom st)
      else do {
        let st0 = st\<lparr>resolved_at := (resolved_at st)(sr \<mapsto> \<lparr>sr_ref_count = 1, already_resolved = False\<rparr>)\<rparr>;
        (b0, st1) \<leftarrow> js_new_resolving_function False p sr (fst fs) (fst oks) st0;
        if \<not> b0 then do { st2 \<leftarrow> free_resolved sr st1; Some (-1, (JS_Undefined, JS_Undefined), st2) }
        else do {
          (b1, st2) \<leftarrow> js_new_resolving_function True p sr (snd fs) (snd oks) st1;
          if \<not> b1 then do { st3 \<leftarrow> free_resolved sr (on_base (JS_FreeValue (JS_Object (fst fs))) st2); Some (-1, (JS_Undefined, JS_Undefined), st3) }
          else do { st3 \<leftarrow> free_resolved sr st2; Some (0, (JS_Object (fst fs), JS_Object (snd fs)), st3) }
        }
      })"

definition js_promise_resolve_function_finalizer :: "addr \<Rightarrow> 'o promise_rt \<Rightarrow> 'o promise_rt option" where
  "js_promise_resolve_function_finalizer f st =
     (case function_at st f of
        None \<Rightarrow> Some st
      | Some s \<Rightarrow> do {
          st1 \<leftarrow> free_resolved (presolved s) st;
          Some ((on_base (JS_FreeValue (promise s)) st1)\<lparr>function_at := (function_at st1)(f := None)\<rparr>)
        })"

definition js_promise_finalizer :: "addr \<Rightarrow> 'o promise_rt \<Rightarrow> 'o promise_rt" where
  "js_promise_finalizer a st =
     (case promise_at st a of
        None \<Rightarrow> st
      | Some s \<Rightarrow> (on_base (\<lambda>rt. JS_FreeValue (promise_result s) (free_reactions (promise_reactions s True) (free_reactions (promise_reactions s False) rt))) st)
          \<lparr>promise_at := (promise_at st)(a := None)\<rparr>)"

definition js_promise_mark :: "addr \<Rightarrow> 'o promise_rt \<Rightarrow> jsval list" where
  "js_promise_mark a st =
     (case promise_at st a of
        None \<Rightarrow> []
      | Some s \<Rightarrow> concat (map (\<lambda>d. [fst (resolving_funcs d), snd (resolving_funcs d), handler d]) (promise_reactions s False @ promise_reactions s True)) @ [promise_result s])"

definition js_promise_resolve_function_mark :: "addr \<Rightarrow> 'o promise_rt \<Rightarrow> jsval list" where
  "js_promise_resolve_function_mark f st = (case function_at st f of None \<Rightarrow> [] | Some s \<Rightarrow> [promise s])"

text \<open>
  \<open>get_then v\<close> is \<open>JS_GetProperty(ctx, v, JS_ATOM_then)\<close>, \<open>err\<close> the error object of \<open>JS_ThrowTypeError\<close>, \<open>e\<close> the
  entry for the job of a thenable. The getter of \<open>then\<close> is guest code, after which the code reads the data of
  the function again: when the getter freed it, the result is None.
\<close>

definition fail_reject ::
    "('o js_runtime \<Rightarrow> 'o js_runtime) \<Rightarrow> (addr \<Rightarrow> jsval \<Rightarrow> jsval \<Rightarrow> bool \<Rightarrow> 'o promise_rt \<Rightarrow> 'o promise_rt) \<Rightarrow> addr list \<Rightarrow>
     addr \<Rightarrow> jsval \<Rightarrow> 'o promise_rt \<Rightarrow> (jsval \<times> 'o promise_rt) option" where
  "fail_reject oom track es ctx p st =
     do {
       let (error, rt1) = JS_GetException (base st);
       st1 \<leftarrow> reject_promise oom track es ctx p error (st\<lparr>base := rt1\<rparr>);
       Some (JS_Undefined, on_base (JS_FreeValue error) st1)
     }"

definition js_promise_resolve_function_call ::
    "('o js_runtime \<Rightarrow> 'o js_runtime) \<Rightarrow> (addr \<Rightarrow> jsval \<Rightarrow> jsval \<Rightarrow> bool \<Rightarrow> 'o promise_rt \<Rightarrow> 'o promise_rt) \<Rightarrow> (jsval \<Rightarrow> bool) \<Rightarrow>
     (jsval \<Rightarrow> 'o promise_rt \<Rightarrow> jsval \<times> 'o promise_rt) \<Rightarrow> jsval \<Rightarrow> addr list \<Rightarrow> addr \<Rightarrow>
     addr \<Rightarrow> addr \<Rightarrow> jsval list \<Rightarrow> 'o promise_rt \<Rightarrow> (jsval \<times> 'o promise_rt) option" where
  "js_promise_resolve_function_call oom track is_fun get_then err es e ctx f argv st =
     (case function_at st f of
        None \<Rightarrow> Some (JS_Undefined, st)
      | Some s \<Rightarrow> do {
          r \<leftarrow> resolved_at st (presolved s);
          if already_resolved r then Some (JS_Undefined, st)
          else do {
            let st1 = st\<lparr>resolved_at := (resolved_at st)(presolved s \<mapsto> r\<lparr>already_resolved := True\<rparr>)\<rparr>;
            let resolution = (case argv of [] \<Rightarrow> JS_Undefined | v # _ \<Rightarrow> v);
            if rejects s \<or> js_tag resolution \<noteq> -1
            then do { st2 \<leftarrow> fulfill_or_reject_promise oom track es ctx (promise s) resolution (rejects s) st1; Some (JS_Undefined, st2) }
            else if resolution = promise s then fail_reject oom track es ctx (promise s) (on_base (\<lambda>rt. snd (JS_Throw err rt)) st1)
            else let (thn, st2) = get_then resolution st1 in
              do {
                s2 \<leftarrow> function_at st2 f;
                if JS_IsException thn then fail_reject oom track es ctx (promise s2) st2
                else if \<not> is_fun thn
                then do {
                  st3 \<leftarrow> fulfill_or_reject_promise oom track es ctx (promise s2) resolution False (on_base (JS_FreeValue thn) st2);
                  Some (JS_Undefined, st3)
                }
                else Some (JS_Undefined, on_base (\<lambda>rt. JS_FreeValue thn (snd (JS_EnqueueJob oom e ctx RESOLVE_THENABLE_JOB [promise s2, resolution, thn] rt))) st2)
              }
          }
        })"

text \<open>When a call failed, the promise is rejected with the exception it left.\<close>

definition rejected_with ::
    "(jsval \<Rightarrow> jsval \<Rightarrow> jsval list \<Rightarrow> 'o promise_rt \<Rightarrow> jsval \<times> 'o promise_rt) \<Rightarrow> jsval \<Rightarrow> jsval \<Rightarrow> 'o promise_rt \<Rightarrow> jsval \<times> 'o promise_rt" where
  "rejected_with js_call reject res st =
     (if JS_IsException res
      then let (error, st1) = taken_exception res st;
               (res2, st2) = js_call reject JS_Undefined [error] st1
           in (res2, on_base (JS_FreeValue error) st2)
      else (res, st))"

definition js_promise_resolve_thenable_job ::
    "('o js_runtime \<Rightarrow> 'o js_runtime) \<Rightarrow> (jsval \<Rightarrow> jsval \<Rightarrow> jsval list \<Rightarrow> 'o promise_rt \<Rightarrow> jsval \<times> 'o promise_rt) \<Rightarrow> addr \<Rightarrow> addr \<times> addr \<Rightarrow> bool \<times> bool \<Rightarrow>
     jsval list \<Rightarrow> 'o promise_rt \<Rightarrow> (jsval \<times> 'o promise_rt) option" where
  "js_promise_resolve_thenable_job oom js_call sr fs oks argv st =
     (if length argv \<noteq> 3 then None
      else do {
        (err, args, st1) \<leftarrow> js_create_resolving_functions oom sr fs oks (argv ! 0) st;
        if err < 0 then Some (JS_Exception, st1)
        else let
          (res, st2) = js_call (argv ! 2) (argv ! 1) [fst args, snd args] st1;
          (res1, st3) = rejected_with js_call (snd args) res st2
        in Some (res1, on_base (\<lambda>rt. JS_FreeValue (snd args) (JS_FreeValue (fst args) rt)) st3)
      })"

text \<open>
  \<open>new Promise(executor)\<close>: \<open>create\<close> is \<open>JS_CreateFromConstructor\<close>, \<open>ok\<close> answers for the data of the promise,
  and \<open>not_fun\<close> is the error of \<open>check_function\<close>.
\<close>

definition new_promise_data :: JSPromiseData where
  "new_promise_data = \<lparr>promise_state = JS_PROMISE_PENDING, promise_reactions = (\<lambda>_. []), is_handled = False, promise_result = JS_Undefined\<rparr>"

definition js_promise_constructor ::
    "('o js_runtime \<Rightarrow> 'o js_runtime) \<Rightarrow> (jsval \<Rightarrow> bool) \<Rightarrow> ('o promise_rt \<Rightarrow> jsval \<times> 'o promise_rt) \<Rightarrow>
     (jsval \<Rightarrow> jsval \<Rightarrow> jsval list \<Rightarrow> 'o promise_rt \<Rightarrow> jsval \<times> 'o promise_rt) \<Rightarrow> jsval \<Rightarrow> bool \<Rightarrow> addr \<Rightarrow> addr \<times> addr \<Rightarrow> bool \<times> bool \<Rightarrow>
     jsval \<Rightarrow> 'o promise_rt \<Rightarrow> (jsval \<times> 'o promise_rt) option" where
  "js_promise_constructor oom is_fun create js_call not_fun ok sr fs oks executor st =
     (if \<not> is_fun executor then Some (JS_Exception, on_base (\<lambda>rt. snd (JS_Throw not_fun rt)) st)
      else let (obj, st1) = create st in
      if JS_IsException obj then Some (JS_Exception, st1)
      else if \<not> ok then Some (JS_Exception, on_base (\<lambda>rt. JS_FreeValue obj (oom rt)) st1)
      else do {
        let st2 = put_promise (promise_block obj) new_promise_data st1;
        (err, args, st3) \<leftarrow> js_create_resolving_functions oom sr fs oks obj st2;
        if err \<noteq> 0 then Some (JS_Exception, on_base (JS_FreeValue obj) st3)
        else let
          (ret, st4) = js_call executor JS_Undefined [fst args, snd args] st3;
          (ret2, st5) = rejected_with js_call (snd args) ret st4;
          st6 = (if JS_IsException ret2 then st5 else on_base (JS_FreeValue ret2) st5);
          st7 = on_base (\<lambda>rt. JS_FreeValue (snd args) (JS_FreeValue (fst args) rt)) st6
        in Some (if JS_IsException ret2 then (JS_Exception, on_base (JS_FreeValue obj) st7) else (obj, st7))
      })"

end
