(* ===== verification/PromiseRun.thy ===== *)
theory PromiseRun
  imports Promise
begin

text \<open>
  What the operations of \<open>Promise\<close> can do to the blocks of promises and resolving functions,
  as a relation between states: \<open>promise_run H st st'\<close> is any sequence of changes of which the operations
  consist, with \<open>H\<close> the objects that somebody holds, so that they are not finalised. Guest code is such a
  sequence, and the operations that call it are shown to be one too (\<open>PromiseProps\<close>). The invariants of the
  relation are below: what is settled stays, nothing waits for a settled promise, and the blocks that
  pairs of functions share are counted exactly.
\<close>

text \<open>Settling a promise calls the tracker of the host before it takes the reactions off: \<open>settles\<close> holds a run.\<close>

inductive promise_run :: "addr set \<Rightarrow> 'o promise_rt \<Rightarrow> 'o promise_rt \<Rightarrow> bool" where
  stays: "promise_run H st st"
| follows: "promise_run H st st1 \<Longrightarrow> promise_run H st1 st2 \<Longrightarrow> promise_run H st st2"
| engine: "promise_run H st (st\<lparr>base := rt\<rparr>)"
| creates: "promise_at st a = None \<Longrightarrow> promise_run H st (put_promise a new_promise_data st)"
| waits: "promise_at st a = Some s \<Longrightarrow> promise_state s = JS_PROMISE_PENDING \<Longrightarrow>
    promise_run H st (put_promise a (s\<lparr>promise_reactions := ds\<rparr>) st)"
| handles: "promise_at st a = Some s \<Longrightarrow> promise_run H st (put_promise a (s\<lparr>is_handled := True\<rparr>) st)"
| settles: "promise_at st a = Some s \<Longrightarrow> promise_state s = JS_PROMISE_PENDING \<Longrightarrow> x \<noteq> JS_PROMISE_PENDING \<Longrightarrow>
    promise_run (insert a H) (put_promise a (s\<lparr>promise_result := v, promise_state := x\<rparr>) st) st1 \<Longrightarrow> promise_at st1 a = Some s1 \<Longrightarrow>
    promise_run H st (put_promise a (s1\<lparr>promise_reactions := (\<lambda>_. [])\<rparr>) st1)"
| finalises: "a \<notin> H \<Longrightarrow> promise_run H st (st\<lparr>promise_at := (promise_at st)(a := None)\<rparr>)"
| pairs: "resolved_at st sr = None \<Longrightarrow> finite F \<Longrightarrow> F \<noteq> {} \<Longrightarrow> (\<forall>f\<in>F. function_at st f = None \<and> (\<exists>i. fn f = Some \<lparr>rejects = i, promise = p, presolved = sr\<rparr>)) \<Longrightarrow>
    promise_run H st (st\<lparr>function_at := (\<lambda>f. if f \<in> F then fn f else function_at st f),
      resolved_at := (resolved_at st)(sr \<mapsto> \<lparr>sr_ref_count = int (card F), already_resolved = False\<rparr>)\<rparr>)"
| resolves: "resolved_at st sr = Some r \<Longrightarrow> promise_run H st (st\<lparr>resolved_at := (resolved_at st)(sr \<mapsto> r\<lparr>already_resolved := True\<rparr>)\<rparr>)"
| drops: "f \<notin> H \<Longrightarrow> function_at st f = Some s \<Longrightarrow> free_resolved (presolved s) st = Some st1 \<Longrightarrow>
    promise_run H st (st1\<lparr>function_at := (function_at st1)(f := None)\<rparr>)"

lemma promise_run_mono: "promise_run H st st' \<Longrightarrow> H' \<subseteq> H \<Longrightarrow> promise_run H' st st'"
proof (induction arbitrary: H' rule: promise_run.induct)
  case (follows H st st1 st2)
  show ?case by (rule promise_run.follows [OF follows.IH(1) [OF follows.prems] follows.IH(2) [OF follows.prems]])
next
  case (settles st a s x H v st1 s1)
  have "promise_run (insert a H') (put_promise a (s\<lparr>promise_result := v, promise_state := x\<rparr>) st) st1"
    using settles.prems by (intro settles.IH) blast
  then show ?case by (rule promise_run.settles [OF settles.hyps(1-3) _ settles.hyps(5)])
next
  case (finalises a H st)
  then show ?case by (intro promise_run.finalises) blast
next
  case (drops f H st s st1)
  show ?case using drops.prems drops.hyps(1) by (intro promise_run.drops [OF _ drops.hyps(2,3)]) blast
qed (rule promise_run.intros; assumption)+

lemma free_resolved_promise_at: "free_resolved sr st = Some st1 \<Longrightarrow> promise_at st1 = promise_at st"
  by (cases "resolved_at st sr") (auto simp: free_resolved_def)

lemma promise_run_base: "promise_run H st (on_base f st)"
  using promise_run.engine [of H st "f (base st)"] by simp

section \<open>Promises\<close>

text \<open>A promise that is held is not lost; when it is settled it keeps its state, its result and its reactions.\<close>

lemma promise_run_keeps:
  assumes "promise_run H st st'" and "b \<in> H" and "promise_at st b = Some t"
  shows "\<exists>t'. promise_at st' b = Some t' \<and> (is_handled t \<longrightarrow> is_handled t') \<and>
     (promise_state t \<noteq> JS_PROMISE_PENDING \<longrightarrow> promise_state t' = promise_state t \<and> promise_result t' = promise_result t \<and>
       promise_reactions t' = promise_reactions t)"
  using assms
proof (induction arbitrary: t rule: promise_run.induct)
  case (follows H st st1 st2)
  obtain t1 where "promise_at st1 b = Some t1" "is_handled t \<longrightarrow> is_handled t1"
    "promise_state t \<noteq> JS_PROMISE_PENDING \<longrightarrow> promise_state t1 = promise_state t \<and> promise_result t1 = promise_result t \<and> promise_reactions t1 = promise_reactions t"
    using follows by blast
  then show ?case using follows.IH(2) follows.prems(1) by fastforce
next
  case (settles st a s x H v st1 s1)
  let ?st = "put_promise a (s\<lparr>promise_result := v, promise_state := x\<rparr>) st"
  show ?case
  proof (cases "b = a")
    case True
    have "\<exists>t'. promise_at st1 b = Some t' \<and> (is_handled (s\<lparr>promise_result := v, promise_state := x\<rparr>) \<longrightarrow> is_handled t')"
      using settles.IH [of "s\<lparr>promise_result := v, promise_state := x\<rparr>"] True by auto
    then show ?thesis using settles True by auto
  next
    case False
    then show ?thesis using settles.IH [of t] settles.prems by auto
  qed
qed (auto dest: free_resolved_promise_at)

text \<open>Only a settled promise that had waiting reactions before has some after.\<close>

definition stale :: "'o promise_rt \<Rightarrow> addr \<Rightarrow> bool" where
  "stale st a \<longleftrightarrow> (\<exists>s. promise_at st a = Some s \<and> promise_state s \<noteq> JS_PROMISE_PENDING \<and> promise_reactions s \<noteq> (\<lambda>_. []))"

lemma promise_run_stale: "promise_run H st st' \<Longrightarrow> stale st' b \<Longrightarrow> stale st b"
proof (induction rule: promise_run.induct)
  case (settles st a s x H v st1 s1)
  show ?case
  proof (cases "b = a")
    case True
    then show ?thesis using settles.prems by (simp add: stale_def)
  next
    case False
    then have "stale st1 b" using settles.prems by (simp add: stale_def)
    then show ?thesis using settles.IH False by (simp add: stale_def)
  qed
qed (auto simp: stale_def new_promise_data_def dest: free_resolved_promise_at split: if_splits)

section \<open>Resolving functions\<close>

definition users :: "'o promise_rt \<Rightarrow> addr \<Rightarrow> addr set" where
  "users st sr = {f. \<exists>s. function_at st f = Some s \<and> presolved s = sr}"

text \<open>The block that a pair shares exists as long as a function of it does, and counts those functions.\<close>

definition shared_ok :: "addr set \<Rightarrow> JSPromiseFunctionDataResolved option \<Rightarrow> bool" where
  "shared_ok U x \<longleftrightarrow> finite U \<and>
     (case x of None \<Rightarrow> U = {} | Some r \<Rightarrow> U \<noteq> {} \<and> sr_ref_count r = int (card U))"

definition promise_functions_ok :: "'o promise_rt \<Rightarrow> bool" where
  "promise_functions_ok st \<longleftrightarrow> (\<forall>sr. shared_ok (users st sr) (resolved_at st sr))"

lemma users_frame: "function_at st' = function_at st \<Longrightarrow> users st' = users st"
  by (simp add: users_def fun_eq_iff)

lemma functions_ok_frame [simp]:
  "promise_functions_ok (st\<lparr>base := rt\<rparr>) = promise_functions_ok st"
  "promise_functions_ok (st\<lparr>promise_at := m\<rparr>) = promise_functions_ok st"
  by (simp_all add: promise_functions_ok_def users_def)

lemma shared_okD: "promise_functions_ok st \<Longrightarrow> shared_ok (users st sr) (resolved_at st sr)"
  by (simp add: promise_functions_ok_def)

lemma functions_okD:
  assumes "promise_functions_ok st" and "function_at st f = Some s"
  shows "\<exists>r. resolved_at st (presolved s) = Some r \<and> sr_ref_count r = int (card (users st (presolved s))) \<and> finite (users st (presolved s)) \<and> f \<in> users st (presolved s)"
proof -
  have "f \<in> users st (presolved s)" using assms(2) by (simp add: users_def)
  then show ?thesis using shared_okD [OF assms(1), of "presolved s"]
    by (cases "resolved_at st (presolved s)") (auto simp: shared_ok_def)
qed

lemma pairs_ok:
  assumes ok: "promise_functions_ok st" and sr: "resolved_at st sr = None" and fin: "finite F" "F \<noteq> {}"
    and F: "\<forall>f\<in>F. function_at st f = None \<and> (\<exists>i. fn f = Some \<lparr>rejects = i, promise = p, presolved = sr\<rparr>)"
  shows "promise_functions_ok (st\<lparr>function_at := (\<lambda>f. if f \<in> F then fn f else function_at st f),
      resolved_at := (resolved_at st)(sr \<mapsto> \<lparr>sr_ref_count = int (card F), already_resolved = x\<rparr>)\<rparr>)" (is "promise_functions_ok ?st")
  unfolding promise_functions_ok_def
proof
  fix sr'
  have none: "users st sr = {}" using shared_okD [OF ok, of sr] sr by (simp add: shared_ok_def)
  have new: "f \<in> users ?st sr' \<longleftrightarrow> (if f \<in> F then sr' = sr else f \<in> users st sr')" for f
  proof (cases "f \<in> F")
    case True
    then obtain i where "fn f = Some \<lparr>rejects = i, promise = p, presolved = sr\<rparr>" using F by blast
    then show ?thesis using True by (auto simp: users_def)
  qed (simp add: users_def)
  have old: "f \<notin> users st sr'" if "f \<in> F" for f using F that by (simp add: users_def)
  show "shared_ok (users ?st sr') (resolved_at ?st sr')"
  proof (cases "sr' = sr")
    case True
    have "f \<in> users ?st sr' \<longleftrightarrow> f \<in> F" for f unfolding new using none True by simp
    then have "users ?st sr' = F" by blast
    then show ?thesis using fin True by (simp add: shared_ok_def)
  next
    case False
    have "f \<in> users ?st sr' \<longleftrightarrow> f \<in> users st sr'" for f unfolding new using old False by simp
    then have "users ?st sr' = users st sr'" by blast
    then show ?thesis using shared_okD [OF ok, of sr'] False by simp
  qed
qed

lemma shared_ok_drop:
  assumes "shared_ok U (Some r)" and "f \<in> U"
  shows "shared_ok (U - {f}) (if sr_ref_count r - 1 = 0 then None else Some (r\<lparr>sr_ref_count := sr_ref_count r - 1\<rparr>))"
proof -
  have U: "finite U" "sr_ref_count r = int (card U)" using assms(1) by (simp_all add: shared_ok_def)
  have card: "card U = Suc (card (U - {f}))" by (rule card.remove [OF U(1) assms(2)])
  show ?thesis
  proof (cases "sr_ref_count r - 1 = 0")
    case True
    then have "card (U - {f}) = 0" using U(2) card by simp
    then have "U - {f} = {}" using U(1) by (simp only: card_0_eq finite_Diff)
    then show ?thesis using True U(1) by (simp add: shared_ok_def)
  next
    case False
    then have "card (U - {f}) \<noteq> 0" using U(2) card by simp
    then have "U - {f} \<noteq> {}" using card.empty by metis
    then show ?thesis using False U card by (simp add: shared_ok_def)
  qed
qed

lemma drops_ok:
  assumes ok: "promise_functions_ok st" and f: "function_at st f = Some s" and "free_resolved (presolved s) st = Some st1"
  shows "promise_functions_ok (st1\<lparr>function_at := (function_at st1)(f := None)\<rparr>)" (is "promise_functions_ok ?st")
  unfolding promise_functions_ok_def
proof
  fix sr
  let ?sr = "presolved s"
  obtain r where r: "resolved_at st ?sr = Some r" "f \<in> users st ?sr" using functions_okD [OF ok f] by blast
  have st1: "st1 = st\<lparr>resolved_at := (resolved_at st)(?sr := if sr_ref_count r - 1 = 0 then None else Some (r\<lparr>sr_ref_count := sr_ref_count r - 1\<rparr>))\<rparr>"
    using assms(3) r(1) by (simp add: free_resolved_def)
  have u: "users ?st sr' = users st sr' - {f}" for sr' by (auto simp: users_def st1)
  show "shared_ok (users ?st sr) (resolved_at ?st sr)"
  proof (cases "sr = ?sr")
    case True
    have "shared_ok (users st ?sr) (Some r)" using shared_okD [OF ok, of ?sr] r(1) by simp
    note drop = shared_ok_drop [OF this r(2)]
    have res: "resolved_at ?st ?sr = (if sr_ref_count r - 1 = 0 then None else Some (r\<lparr>sr_ref_count := sr_ref_count r - 1\<rparr>))"
      by (simp add: st1)
    show ?thesis unfolding True u res by (rule drop)
  next
    case False
    then have "users st sr - {f} = users st sr" using f by (auto simp: users_def)
    then have us: "users ?st sr = users st sr" unfolding u .
    have res: "resolved_at ?st sr = resolved_at st sr" using False by (simp add: st1)
    show ?thesis unfolding us res by (rule shared_okD [OF ok])
  qed
qed

lemma resolves_ok:
  assumes ok: "promise_functions_ok st" and r: "resolved_at st sr = Some r"
  shows "promise_functions_ok (st\<lparr>resolved_at := (resolved_at st)(sr \<mapsto> r\<lparr>already_resolved := True\<rparr>)\<rparr>)" (is "promise_functions_ok ?st")
  unfolding promise_functions_ok_def
proof
  fix sr'
  have "users ?st = users st" by (rule users_frame) simp
  then show "shared_ok (users ?st sr') (resolved_at ?st sr')"
    using shared_okD [OF ok, of sr'] r by (cases "sr' = sr") (simp_all add: shared_ok_def)
qed

lemma promise_run_functions_ok: "promise_run H st st' \<Longrightarrow> promise_functions_ok st \<Longrightarrow> promise_functions_ok st'"
proof (induction rule: promise_run.induct)
  case (pairs st sr F fn p H)
  show ?case by (rule pairs_ok [OF pairs.prems pairs.hyps])
next
  case (resolves st sr r H)
  show ?case by (rule resolves_ok [OF resolves.prems resolves.hyps])
next
  case (drops f H st s st1)
  show ?case by (rule drops_ok [OF drops.prems drops.hyps(2,3)])
qed simp_all

lemma promise_run_function: "promise_run H st st' \<Longrightarrow> g \<in> H \<Longrightarrow> function_at st g = Some t \<Longrightarrow> function_at st' g = Some t"
proof (induction rule: promise_run.induct)
  case (drops f H st s st1)
  have "function_at st1 = function_at st"
    using drops.hyps(3) by (cases "resolved_at st (presolved s)") (auto simp: free_resolved_def)
  then show ?case using drops.hyps(1) drops.prems by auto
qed auto

text \<open>A held function keeps its data, and once its pair was used it stays used.\<close>

lemma promise_run_functions_keep:
  assumes "promise_run H st st'" and "promise_functions_ok st" and "g \<in> H" and "function_at st g = Some t"
  shows "function_at st' g = Some t \<and> (\<forall>r. resolved_at st (presolved t) = Some r \<longrightarrow> already_resolved r \<longrightarrow>
    (\<exists>r'. resolved_at st' (presolved t) = Some r' \<and> already_resolved r'))"
  using assms
proof (induction rule: promise_run.induct)
  case (follows H st st1 st2)
  have "promise_functions_ok st1" using follows.hyps(1) follows.prems(1) by (rule promise_run_functions_ok)
  then show ?case using follows.IH follows.prems by blast
next
  case (settles st a s x H v st1 s1)
  then show ?case by simp
next
  case (pairs st sr F fn p H)
  have "presolved t \<noteq> sr" using functions_okD [OF pairs.prems(1,3)] pairs.hyps(1) by auto
  then show ?case using pairs by auto
next
  case (drops f H st s st1)
  have "g \<noteq> f" using drops.hyps(1) drops.prems(2) by blast
  obtain r where r: "resolved_at st (presolved s) = Some r" "sr_ref_count r = int (card (users st (presolved s)))" "finite (users st (presolved s))"
    "f \<in> users st (presolved s)" using functions_okD [OF drops.prems(1) drops.hyps(2)] by blast
  have "sr_ref_count r \<noteq> 1" if "presolved t = presolved s"
  proof -
    have "{f, g} \<subseteq> users st (presolved s)" using r(4) drops.prems(3) that by (simp add: users_def)
    then have "2 \<le> card (users st (presolved s))" using \<open>g \<noteq> f\<close> card_mono [OF r(3), of "{f, g}"] by simp
    then show ?thesis using r(2) by simp
  qed
  then show ?case using drops.hyps(3) drops.prems(3) \<open>g \<noteq> f\<close> r(1) by (auto simp: free_resolved_def)
qed auto

end
