(* ===== verification/PromiseOps.thy ===== *)
theory PromiseOps
  imports PromiseRun
begin

text \<open>
  Every operation of \<open>Promise\<close> returns, whatever fails to be allocated and whatever the guest code
  does that it calls, and changes promises and resolving functions only as \<open>promise_run\<close> allows,
  provided that the guest code changes them in the same way only.
\<close>

definition guest_run :: "addr set \<Rightarrow> ('o promise_rt \<Rightarrow> 'o promise_rt) \<Rightarrow> bool" where
  "guest_run H g \<longleftrightarrow> (\<forall>st. promise_run H st (g st))"

definition tracker_run :: "addr set \<Rightarrow> jsval \<Rightarrow> (addr \<Rightarrow> jsval \<Rightarrow> jsval \<Rightarrow> bool \<Rightarrow> 'o promise_rt \<Rightarrow> 'o promise_rt) \<Rightarrow> bool" where
  "tracker_run H p track \<longleftrightarrow> (\<forall>ctx v b. guest_run (insert (promise_block p) H) (track ctx p v b))"

definition getter_run :: "addr set \<Rightarrow> jsval \<Rightarrow> (jsval \<Rightarrow> 'o promise_rt \<Rightarrow> jsval \<times> 'o promise_rt) \<Rightarrow> bool" where
  "getter_run H p get_then \<longleftrightarrow> (\<forall>v. guest_run (insert (promise_block p) H) (\<lambda>st. snd (get_then v st)))"

text \<open>What an allocator returns: 0, or a block that is not in use.\<close>

definition fresh_blocks :: "addr \<Rightarrow> addr \<times> addr \<Rightarrow> 'o promise_rt \<Rightarrow> bool" where
  "fresh_blocks sr fs st \<longleftrightarrow>
     (sr \<noteq> 0 \<longrightarrow> resolved_at st sr = None) \<and>
     (fst fs \<noteq> 0 \<longrightarrow> function_at st (fst fs) = None \<and> fst fs \<noteq> snd fs) \<and>
     (snd fs \<noteq> 0 \<longrightarrow> function_at st (snd fs) = None)"

lemma guest_runD: "guest_run H g \<Longrightarrow> promise_run H st (g st)"
  by (simp add: guest_run_def)

lemma tracker_runD: "tracker_run H p track \<Longrightarrow> promise_run (insert (promise_block p) H) st (track ctx p v b st)"
  by (simp add: tracker_run_def guest_run_def)

lemma promise_of_block: "promise_of p st = Some s \<Longrightarrow> promise_at st (promise_block p) = Some s"
  by (cases p) (simp_all add: promise_of_def)

lemma promise_run_alive: "promise_run H st st' \<Longrightarrow> a \<in> H \<Longrightarrow> promise_at st a = Some s \<Longrightarrow> \<exists>s'. promise_at st' a = Some s'"
  using promise_run_keeps by fast

lemma promise_run_put: "promise_run H st st1 \<Longrightarrow> promise_run H st (st1\<lparr>base := rt\<rparr>)"
  by (erule promise_run.follows) (rule promise_run.engine)

lemma base_promise_swap: "st\<lparr>base := rt, promise_at := m\<rparr> = st\<lparr>promise_at := m, base := rt\<rparr>"
  by simp

lemma tell_tracker_run: "tracker_run H p track \<Longrightarrow> promise_run (insert (promise_block p) H) st (tell_tracker track ctx p s b st)"
  using tracker_runD promise_run.stays by (auto simp: tell_tracker_def)

section \<open>Settling\<close>

lemma fulfill_eq:
  assumes "promise_of p st = Some s" and "promise_state s = JS_PROMISE_PENDING"
    and "st2 = tell_tracker track ctx p (settled_data v b s) False
      (put_promise (promise_block p) (settled_data v b s) (on_base (\<lambda>rt. JS_FreeValue (promise_result s) (snd (JS_DupValue v rt))) st))"
    and "promise_at st2 (promise_block p) = Some s2"
  shows "fulfill_or_reject_promise oom track es ctx p v b st =
    Some (put_promise (promise_block p) (s2\<lparr>promise_reactions := (\<lambda>_. [])\<rparr>)
      (on_base (\<lambda>rt. free_reactions (promise_reactions s2 (\<not> b)) (enqueue_reactions oom ctx b v es (promise_reactions s2 b) rt)) st2))"
  using assms by (simp add: fulfill_or_reject_promise_def Let_def)

lemma fulfill_run:
  assumes track: "tracker_run H p track"
  shows "\<exists>st'. fulfill_or_reject_promise oom track es ctx p v is_reject st = Some st' \<and> promise_run H st st'"
proof (cases "promise_of p st")
  case None
  then show ?thesis using promise_run.stays by (simp add: fulfill_or_reject_promise_def)
next
  case (Some s)
  let ?a = "promise_block p"
  have s: "promise_at st ?a = Some s" using Some by (rule promise_of_block)
  show ?thesis
  proof (cases "promise_state s = JS_PROMISE_PENDING")
    case True
    let ?s = "settled_data v is_reject s"
    let ?st1 = "put_promise ?a ?s (on_base (\<lambda>rt. JS_FreeValue (promise_result s) (snd (JS_DupValue v rt))) st)"
    define st2 where "st2 = tell_tracker track ctx p ?s False ?st1"
    have "promise_run (insert ?a H) (put_promise ?a ?s st) ?st1"
      unfolding base_promise_swap using promise_run.engine [of "insert ?a H" "put_promise ?a ?s st"] by simp
    moreover have "promise_run (insert ?a H) ?st1 st2"
      unfolding st2_def by (rule tell_tracker_run [OF track])
    ultimately have run: "promise_run (insert ?a H) (put_promise ?a ?s st) st2" by (rule promise_run.follows)
    obtain s2 where s2: "promise_at st2 ?a = Some s2" using promise_run_alive [OF run, of ?a ?s] by auto
    have "promise_run H st (put_promise ?a (s2\<lparr>promise_reactions := (\<lambda>_. [])\<rparr>) st2)"
      using promise_run.settles [OF s True _ run [unfolded settled_data_def] s2] by simp
    note settled = promise_run_put [OF this]
    have "fulfill_or_reject_promise oom track es ctx p v is_reject st =
        Some (put_promise ?a (s2\<lparr>promise_reactions := (\<lambda>_. [])\<rparr>)
          (on_base (\<lambda>rt. free_reactions (promise_reactions s2 (\<not> is_reject)) (enqueue_reactions oom ctx is_reject v es (promise_reactions s2 is_reject) rt)) st2))"
      by (rule fulfill_eq [OF Some True st2_def s2])
    then show ?thesis using settled [folded base_promise_swap] by auto
  next
    case False
    then show ?thesis using Some promise_run.stays by (simp add: fulfill_or_reject_promise_def)
  qed
qed

section \<open>Then\<close>

lemma then_run:
  assumes track: "tracker_run H p track"
    and p: "promise_of p st = Some s"
  shows "\<exists>n st'. perform_promise_then oom track is_fun ok0 ok1 e ctx p hs caps st = Some (n, st') \<and> promise_run H st st'"
proof (cases "ok0 \<and> ok1")
  case False
  then show ?thesis using promise_run.engine [of H st]
    by (cases ok0) (auto simp: perform_promise_then_def case_prod_beta Let_def)
next
  case True
  let ?a = "promise_block p"
  obtain d0 rt0 where d0: "reaction_data is_fun (fst hs) caps (base st) = (d0, rt0)" by fastforce
  obtain d1 rt1 where d1: "reaction_data is_fun (snd hs) caps rt0 = (d1, rt1)" by fastforce
  let ?st1 = "st\<lparr>base := rt1\<rparr>"
  have p1: "promise_of p ?st1 = Some s" using p by (simp add: promise_of_def split: jsval.splits)
  have s: "promise_at ?st1 ?a = Some s" using p1 by (rule promise_of_block)
  have run1: "promise_run H' st ?st1" for H' by (rule promise_run.engine)
  show ?thesis
  proof (cases "promise_state s = JS_PROMISE_PENDING")
    case pending: True
    let ?s = "s\<lparr>promise_reactions := (\<lambda>r. promise_reactions s r @ [if r then d1 else d0])\<rparr>"
    have "promise_run H ?st1 (put_promise ?a ?s ?st1)" by (rule promise_run.waits [OF s pending])
    moreover have "promise_run H (put_promise ?a ?s ?st1) (put_promise ?a (?s\<lparr>is_handled := True\<rparr>) (put_promise ?a ?s ?st1))"
      by (rule promise_run.handles) simp
    ultimately have "promise_run H st (put_promise ?a (?s\<lparr>is_handled := True\<rparr>) (put_promise ?a ?s ?st1))"
      by (rule promise_run.follows [OF run1 promise_run.follows])
    then show ?thesis using True pending p1 d0 d1 by (simp add: perform_promise_then_def Let_def)
  next
    case settled: False
    define st2 where "st2 = tell_tracker track ctx p s True ?st1"
    have run2: "promise_run (insert ?a H) ?st1 st2"
      unfolding st2_def by (rule tell_tracker_run [OF track])
    obtain s2 where s2: "promise_at st2 ?a = Some s2" using promise_run_alive [OF run2 _ s] by auto
    have run3: "promise_run H st2 (st2\<lparr>base := rt\<rparr>)" for rt by (rule promise_run.engine)
    have run4: "promise_run H (st2\<lparr>base := rt\<rparr>) (put_promise ?a (s2\<lparr>is_handled := True\<rparr>) (st2\<lparr>base := rt\<rparr>))" for rt
      by (rule promise_run.handles) (simp add: s2)
    have "promise_run H ?st1 st2" using promise_run_mono [OF run2] by blast
    then have "promise_run H st (put_promise ?a (s2\<lparr>is_handled := True\<rparr>) (st2\<lparr>base := rt\<rparr>))" for rt
      by (rule promise_run.follows [OF run1 promise_run.follows [OF _ promise_run.follows [OF run3 run4]]])
    moreover have "\<exists>rt. perform_promise_then oom track is_fun ok0 ok1 e ctx p hs caps st =
        Some (0, put_promise ?a (s2\<lparr>is_handled := True\<rparr>) (st2\<lparr>base := rt\<rparr>))"
      using True settled p1 d0 d1 s2 by (auto simp: perform_promise_then_def st2_def Let_def)
    ultimately show ?thesis by blast
  qed
qed

section \<open>Resolving functions\<close>

lemma one_run:
  assumes "resolved_at st sr = None" and "function_at st f = None"
  shows "promise_run H st (st\<lparr>function_at := (function_at st)(f \<mapsto> \<lparr>rejects = i, promise = p, presolved = sr\<rparr>),
    resolved_at := (resolved_at st)(sr \<mapsto> \<lparr>sr_ref_count = 1, already_resolved = False\<rparr>)\<rparr>)"
proof -
  let ?fn = "(function_at st)(f \<mapsto> \<lparr>rejects = i, promise = p, presolved = sr\<rparr>)"
  have fn: "(\<lambda>g. if g \<in> {f} then ?fn g else function_at st g) = ?fn" by auto
  show ?thesis using promise_run.pairs [of st sr "{f}" ?fn p H] assms unfolding fn by simp
qed

lemma two_run:
  assumes "resolved_at st sr = None" and "function_at st f = None" "function_at st g = None" "f \<noteq> g"
  shows "promise_run H st (st\<lparr>function_at := (function_at st)(f \<mapsto> \<lparr>rejects = i, promise = p, presolved = sr\<rparr>, g \<mapsto> \<lparr>rejects = j, promise = p, presolved = sr\<rparr>),
    resolved_at := (resolved_at st)(sr \<mapsto> \<lparr>sr_ref_count = 2, already_resolved = False\<rparr>)\<rparr>)"
proof -
  let ?fn = "(function_at st)(f \<mapsto> \<lparr>rejects = i, promise = p, presolved = sr\<rparr>, g \<mapsto> \<lparr>rejects = j, promise = p, presolved = sr\<rparr>)"
  have fn: "(\<lambda>h. if h \<in> {f, g} then ?fn h else function_at st h) = ?fn" by auto
  show ?thesis using promise_run.pairs [of st sr "{f, g}" ?fn p H] assms unfolding fn by simp
qed

text \<open>The outcomes: no function, the first one only, or both.\<close>

definition created :: "addr \<Rightarrow> addr \<times> addr \<Rightarrow> jsval \<Rightarrow> int \<Rightarrow> jsval \<times> jsval \<Rightarrow> 'o promise_rt \<Rightarrow> 'o promise_rt \<Rightarrow> bool" where
  "created sr fs p err args st st' \<longleftrightarrow> promise_at st' = promise_at st \<and>
     (err = -1 \<and> function_at st' = function_at st \<and> resolved_at st' = resolved_at st
      \<or> err = -1 \<and> sr \<noteq> 0 \<and> fst fs \<noteq> 0 \<and> function_at st' = (function_at st)(fst fs \<mapsto> \<lparr>rejects = False, promise = p, presolved = sr\<rparr>)
          \<and> resolved_at st' = (resolved_at st)(sr \<mapsto> \<lparr>sr_ref_count = 1, already_resolved = False\<rparr>)
      \<or> err = 0 \<and> sr \<noteq> 0 \<and> fst fs \<noteq> 0 \<and> snd fs \<noteq> 0 \<and> args = (JS_Object (fst fs), JS_Object (snd fs)) \<and>
          function_at st' = (function_at st)(fst fs \<mapsto> \<lparr>rejects = False, promise = p, presolved = sr\<rparr>, snd fs \<mapsto> \<lparr>rejects = True, promise = p, presolved = sr\<rparr>)
          \<and> resolved_at st' = (resolved_at st)(sr \<mapsto> \<lparr>sr_ref_count = 2, already_resolved = False\<rparr>))"

lemma create_created:
  assumes fresh: "fresh_blocks sr fs st"
  shows "\<exists>err args st'. js_create_resolving_functions oom sr fs oks p st = Some (err, args, st') \<and> created sr fs p err args st st'"
proof -
  have none: "sr \<noteq> 0 \<Longrightarrow> (resolved_at st)(sr := None) = resolved_at st" using fresh by (auto simp: fresh_blocks_def)
  show ?thesis
    using none
    by (cases "sr = 0"; cases "fst fs = 0"; cases "fst oks"; cases "snd fs = 0"; cases "snd oks")
      (simp_all add: js_create_resolving_functions_def js_new_resolving_function_def free_resolved_def created_def Let_def)
qed

lemma promise_run_cong:
  assumes "promise_run H st st1" and "promise_at st2 = promise_at st1" "function_at st2 = function_at st1" "resolved_at st2 = resolved_at st1"
  shows "promise_run H st st2"
proof -
  have "st2 = st1\<lparr>base := base st2\<rparr>" using assms(2-4) by (intro promise_rt.equality) simp_all
  then show ?thesis using promise_run_put [OF assms(1)] by metis
qed

lemma created_run:
  assumes fresh: "fresh_blocks sr fs st" and c: "created sr fs p err args st st'"
  shows "promise_run H st st'"
proof -
  have f: "sr \<noteq> 0 \<Longrightarrow> resolved_at st sr = None" "fst fs \<noteq> 0 \<Longrightarrow> function_at st (fst fs) = None"
    "snd fs \<noteq> 0 \<Longrightarrow> function_at st (snd fs) = None" "fst fs \<noteq> 0 \<Longrightarrow> fst fs \<noteq> snd fs"
    using fresh by (simp_all add: fresh_blocks_def)
  show ?thesis using c unfolding created_def
  proof (elim conjE disjE)
    assume "promise_at st' = promise_at st" "function_at st' = function_at st" "resolved_at st' = resolved_at st"
    then show ?thesis by (rule promise_run_cong [OF promise_run.stays])
  qed (rule promise_run_cong [OF one_run [OF f(1,2)]] promise_run_cong [OF two_run [OF f]]; simp)+
qed

lemma fail_reject_run:
  assumes track: "tracker_run H p track"
  shows "\<exists>x st'. fail_reject oom track es ctx p st = Some (x, st') \<and> promise_run H st st'"
proof -
  obtain err rt1 where e: "JS_GetException (base st) = (err, rt1)" by fastforce
  obtain st1 where st1: "reject_promise oom track es ctx p err (st\<lparr>base := rt1\<rparr>) = Some st1" "promise_run H (st\<lparr>base := rt1\<rparr>) st1"
    using fulfill_run [OF track] by blast
  have "promise_run H st st1" using promise_run.engine st1(2) by (rule promise_run.follows)
  then show ?thesis using promise_run_put by (simp add: fail_reject_def e st1(1))
qed

text \<open>The first call of a pair marks it before any guest code runs.\<close>

lemma resolve_first_run:
  assumes f: "function_at st f = Some s" and r: "resolved_at st (presolved s) = Some r" "\<not> already_resolved r"
    and track: "tracker_run H (promise s) track" and get: "getter_run (insert f H) (promise s) get_then"
  shows "\<exists>x st'. js_promise_resolve_function_call oom track is_fun get_then err es e ctx f argv st = Some (x, st') \<and>
    promise_run H (st\<lparr>resolved_at := (resolved_at st)(presolved s \<mapsto> r\<lparr>already_resolved := True\<rparr>)\<rparr>) st'"
proof -
  let ?st1 = "st\<lparr>resolved_at := (resolved_at st)(presolved s \<mapsto> r\<lparr>already_resolved := True\<rparr>)\<rparr>"
  let ?v = "case argv of [] \<Rightarrow> JS_Undefined | v # _ \<Rightarrow> v"
  obtain thn st2 where g: "get_then ?v ?st1 = (thn, st2)" by fastforce
  have run: "promise_run (insert (promise_block (promise s)) (insert f H)) ?st1 st2"
    using guest_runD [of _ "\<lambda>st. snd (get_then ?v st)" ?st1] get g by (simp add: getter_run_def)
  have f2: "function_at st2 f = Some s" using promise_run_function [OF run, of f s] f by simp
  have run2: "promise_run H ?st1 st2" using run by (rule promise_run_mono) blast
  have fulfill: "\<exists>st'. fulfill_or_reject_promise oom track es ctx (promise s) v b st1 = Some st' \<and> promise_run H st1 st'" for v b st1
    by (rule fulfill_run [OF track])
  have fail: "\<exists>x st'. fail_reject oom track es ctx (promise s) st1 = Some (x, st') \<and> promise_run H st1 st'" for st1
    by (rule fail_reject_run [OF track])
  consider "rejects s \<or> js_tag ?v \<noteq> -1"
    | "\<not> (rejects s \<or> js_tag ?v \<noteq> -1)" "?v = promise s"
    | "\<not> (rejects s \<or> js_tag ?v \<noteq> -1)" "?v \<noteq> promise s" by blast
  then show ?thesis
  proof cases
    case 1
    obtain st' where "fulfill_or_reject_promise oom track es ctx (promise s) ?v (rejects s) ?st1 = Some st'" "promise_run H ?st1 st'"
      using fulfill by blast
    then show ?thesis using f r 1 by (simp add: js_promise_resolve_function_call_def)
  next
    case 2
    let ?st2 = "on_base (\<lambda>rt. snd (JS_Throw err rt)) ?st1"
    obtain x st' where "fail_reject oom track es ctx (promise s) ?st2 = Some (x, st')" "promise_run H ?st2 st'"
      using fail by blast
    then show ?thesis using f r 2 promise_run.follows [OF promise_run.engine]
      by (simp add: js_promise_resolve_function_call_def)
  next
    case 3
    have v: "js_tag ?v = -1" "\<not> rejects s" "?v \<noteq> promise s" using 3 by simp_all
    consider "thn = JS_Exception" | "thn \<noteq> JS_Exception" "\<not> is_fun thn" | "thn \<noteq> JS_Exception" "is_fun thn" by blast
    then show ?thesis
    proof cases
      case a: 1
      obtain x st' where "fail_reject oom track es ctx (promise s) st2 = Some (x, st')" "promise_run H st2 st'"
        using fail by blast
      then show ?thesis using f r v g a f2 promise_run.follows [OF run2] by (simp add: js_promise_resolve_function_call_def)
    next
      case a: 2
      let ?st3 = "on_base (JS_FreeValue thn) st2"
      obtain st' where "fulfill_or_reject_promise oom track es ctx (promise s) ?v False ?st3 = Some st'" "promise_run H ?st3 st'"
        using fulfill by blast
      then show ?thesis using f r v g a f2 promise_run.follows [OF promise_run_put [OF run2]]
        by (simp add: js_promise_resolve_function_call_def)
    next
      case a: 3
      then show ?thesis using f r v g f2 promise_run_put [OF run2] by (simp add: js_promise_resolve_function_call_def)
    qed
  qed
qed

lemma resolve_again:
  "function_at st f = Some s \<Longrightarrow> resolved_at st (presolved s) = Some r \<Longrightarrow> already_resolved r \<Longrightarrow>
   js_promise_resolve_function_call oom track is_fun get_then err es e ctx f argv st = Some (JS_Undefined, st)"
  by (simp add: js_promise_resolve_function_call_def)

lemma resolve_run:
  assumes ok: "\<And>s. function_at st f = Some s \<Longrightarrow> resolved_at st (presolved s) \<noteq> None"
    and guests: "\<And>s. function_at st f = Some s \<Longrightarrow> tracker_run H (promise s) track \<and> getter_run (insert f H) (promise s) get_then"
  shows "\<exists>x st'. js_promise_resolve_function_call oom track is_fun get_then err es e ctx f argv st = Some (x, st') \<and> promise_run H st st'"
proof (cases "function_at st f")
  case None
  then show ?thesis using promise_run.stays by (simp add: js_promise_resolve_function_call_def)
next
  case (Some s)
  obtain r where r: "resolved_at st (presolved s) = Some r" using ok [OF Some] by blast
  show ?thesis
  proof (cases "already_resolved r")
    case True
    show ?thesis using resolve_again [OF Some r True] promise_run.stays by blast
  next
    case False
    have g: "tracker_run H (promise s) track" "getter_run (insert f H) (promise s) get_then" using guests [OF Some] by blast+
    show ?thesis
      using resolve_first_run [OF Some r False g, of oom is_fun err es e ctx argv] promise_run.follows [OF promise_run.resolves [OF r]] by blast
  qed
qed

section \<open>Jobs and the constructor\<close>

text \<open>\<open>js_call\<close> is guest code as well, which may do anything to the engine but not free what is held.\<close>

definition call_run :: "addr set \<Rightarrow> (jsval \<Rightarrow> jsval \<Rightarrow> jsval list \<Rightarrow> 'o promise_rt \<Rightarrow> jsval \<times> 'o promise_rt) \<Rightarrow> bool" where
  "call_run H js_call \<longleftrightarrow> (\<forall>f t args. guest_run H (\<lambda>st. snd (js_call f t args st)))"

lemma call_runD: "call_run H js_call \<Longrightarrow> js_call f t args st = (x, st') \<Longrightarrow> promise_run H st st'"
  by (metis call_run_def guest_run_def snd_conv)

lemma handler_result_run: "call_run H js_call \<Longrightarrow> handler_result js_call h b arg st = (x, st') \<Longrightarrow> promise_run H st st'"
  using call_runD promise_run.engine by (auto simp: handler_result_def Let_def JS_Throw_def split: if_splits)

lemma taken_exception_run: "taken_exception res st = (x, st') \<Longrightarrow> promise_run H st st'"
  using promise_run.engine promise_run.stays by (auto simp: taken_exception_def JS_GetException_def split: if_splits)

lemma call_capability_run: "call_run H js_call \<Longrightarrow> call_capability js_call f v st = (x, st') \<Longrightarrow> promise_run H st st'"
  using call_runD promise_run.stays by (auto simp: call_capability_def split: if_splits)

lemma rejected_with_run:
  assumes "call_run H js_call" and "rejected_with js_call f res st = (x, st')"
  shows "promise_run H st st'"
proof (cases "res = JS_Exception")
  case True
  obtain err st1 where t: "taken_exception res st = (err, st1)" by fastforce
  obtain res2 st2 where c: "js_call f JS_Undefined [err] st1 = (res2, st2)" by fastforce
  have "st' = on_base (JS_FreeValue err) st2" using assms(2) t c True by (simp add: rejected_with_def)
  then show ?thesis
    using promise_run_put [OF promise_run.follows [OF taken_exception_run [OF t] call_runD [OF assms(1) c]]] by simp
qed (use assms(2) promise_run.stays in \<open>simp add: rejected_with_def\<close>)

lemma reaction_job_run:
  assumes c: "call_run H js_call" and "length argv = 5"
  shows "\<exists>x st'. promise_reaction_job js_call argv st = Some (x, st') \<and> promise_run H st st'"
proof -
  obtain res st1 where r1: "handler_result js_call (argv ! 2) (argv ! 3 = JS_Bool True) (argv ! 4) st = (res, st1)" by fastforce
  obtain res1 st2 where r2: "taken_exception res st1 = (res1, st2)" by fastforce
  obtain res2 st3 where r3: "call_capability js_call (argv ! (if JS_IsException res then 1 else 0)) res1 st2 = (res2, st3)" by fastforce
  have "promise_run H st (on_base (JS_FreeValue res1) st3)"
    by (rule promise_run_put [OF promise_run.follows [OF promise_run.follows
      [OF handler_result_run [OF c r1] taken_exception_run [OF r2]] call_capability_run [OF c r3]]])
  then show ?thesis using assms(2) r1 r2 r3 by (simp add: promise_reaction_job_def)
qed

lemma thenable_job_run:
  assumes c: "call_run H js_call" and fresh: "fresh_blocks sr fs st" and "length argv = 3"
  shows "\<exists>x st'. js_promise_resolve_thenable_job oom js_call sr fs oks argv st = Some (x, st') \<and> promise_run H st st'"
proof -
  obtain err args st1 where r1: "js_create_resolving_functions oom sr fs oks (argv ! 0) st = Some (err, args, st1)"
    and "created sr fs (argv ! 0) err args st st1" using create_created [OF fresh] by blast
  then have run1: "promise_run H st st1" using created_run [OF fresh] by blast
  obtain res st2 where r2: "js_call (argv ! 2) (argv ! 1) [fst args, snd args] st1 = (res, st2)" by fastforce
  obtain res1 st3 where r3: "rejected_with js_call (snd args) res st2 = (res1, st3)" by fastforce
  have run3: "promise_run H st st3"
    by (rule promise_run.follows [OF promise_run.follows [OF run1 call_runD [OF c r2]] rejected_with_run [OF c r3]])
  show ?thesis using assms(3) r1 r2 r3 run1 promise_run_put [OF run3]
    by (simp add: js_promise_resolve_thenable_job_def)
qed

lemma promise_constructor_run:
  assumes c: "\<And>a. obj = JS_Object a \<Longrightarrow> call_run (insert a H) js_call" and run: "promise_run H st st1"
    and create: "create st = (obj, st1)" "obj \<noteq> JS_Exception \<Longrightarrow> (\<exists>a. obj = JS_Object a \<and> promise_at st1 a = None) \<and> fresh_blocks sr fs st1"
  shows "\<exists>x st'. js_promise_constructor oom is_fun create js_call not_fun ok sr fs oks executor st = Some (x, st') \<and> promise_run H st st'"
proof (cases "is_fun executor \<and> obj \<noteq> JS_Exception \<and> ok")
  case False
  then show ?thesis using create(1) run promise_run_put [OF run] promise_run.engine [of H st]
    by (auto simp: js_promise_constructor_def)
next
  case True
  obtain a where a: "obj = JS_Object a" "promise_at st1 a = None" and fresh: "fresh_blocks sr fs st1" using create(2) True by blast
  let ?st2 = "put_promise a new_promise_data st1"
  have run2: "promise_run H st ?st2" by (rule promise_run.follows [OF run promise_run.creates [where st = st1, OF a(2)]])
  have fresh2: "fresh_blocks sr fs ?st2" using fresh by (simp add: fresh_blocks_def)
  obtain err args st3 where r3: "js_create_resolving_functions oom sr fs oks obj ?st2 = Some (err, args, st3)"
    and "created sr fs obj err args ?st2 st3" using create_created [OF fresh2] by blast
  then have run3: "promise_run H st st3" using created_run [OF fresh2] promise_run.follows [OF run2] by blast
  obtain ret st4 where r4: "js_call executor JS_Undefined [fst args, snd args] st3 = (ret, st4)" by fastforce
  obtain ret2 st5 where r5: "rejected_with js_call (snd args) ret st4 = (ret2, st5)" by fastforce
  have c: "call_run (insert a H) js_call" using c [OF a(1)] .
  have "promise_run (insert a H) st3 st5" by (rule promise_run.follows [OF call_runD [OF c r4] rejected_with_run [OF c r5]])
  then have "promise_run H st3 st5" by (rule promise_run_mono) blast
  note run5 = promise_run.follows [OF run3 this]
  show ?thesis using True create(1) a(1) r3 r4 r5 promise_run_put [OF run3] promise_run_put [OF run5]
    by (auto simp: js_promise_constructor_def Let_def)
qed

lemma function_finalizer_run:
  assumes ok: "\<And>s. function_at st f = Some s \<Longrightarrow> resolved_at st (presolved s) \<noteq> None" and "f \<notin> H"
  shows "\<exists>st'. js_promise_resolve_function_finalizer f st = Some st' \<and> promise_run H st st'"
proof (cases "function_at st f")
  case None
  then show ?thesis by (simp add: js_promise_resolve_function_finalizer_def promise_run.stays)
next
  case (Some s)
  obtain r where "resolved_at st (presolved s) = Some r" using ok [OF Some] by blast
  then obtain st1 where st1: "free_resolved (presolved s) st = Some st1" by (simp add: free_resolved_def)
  have "promise_run H st ((on_base (JS_FreeValue (promise s)) st1)\<lparr>function_at := (function_at st1)(f := None)\<rparr>)"
    by (rule promise_run_cong [OF promise_run.drops [OF assms(2) Some st1]]) simp_all
  then show ?thesis using Some st1 by (simp add: js_promise_resolve_function_finalizer_def)
qed

lemma promise_finalizer_run: "a \<notin> H \<Longrightarrow> promise_run H st (js_promise_finalizer a st)"
  using promise_run.stays
  by (cases "promise_at st a") (auto simp: js_promise_finalizer_def intro!: promise_run_cong [OF promise_run.finalises])

end
