(* ===== verification/PromiseProgram.thy ===== *)
theory PromiseProgram
  imports PromiseOps
begin

text \<open>
  Programs: any sequence of the operations of \<open>Promise\<close>, in which the guest code that an operation
  calls is a program again. \<open>H\<close> are the objects that are held and so not finalised meanwhile; an
  operation holds the promise it works on, and the caller of a function holds the function. A program is a \<open>promise_run\<close>, so that it keeps what those keep.
\<close>

inductive promise_program :: "addr set \<Rightarrow> 'o promise_rt \<Rightarrow> 'o promise_rt \<Rightarrow> bool" where
  stop: "promise_program H st st"
| seq: "promise_program H st st1 \<Longrightarrow> promise_program H st1 st2 \<Longrightarrow> promise_program H st st2"
| engine: "promise_program H st (st\<lparr>base := rt\<rparr>)"
| constructor: "create st = (obj, st1) \<Longrightarrow> promise_program H st st1 \<Longrightarrow>
    (obj \<noteq> JS_Exception \<longrightarrow> (\<exists>a. obj = JS_Object a \<and> promise_at st1 a = None) \<and> fresh_blocks sr fs st1) \<Longrightarrow>
    (\<forall>a. obj = JS_Object a \<longrightarrow> (\<forall>f t args s. promise_program (insert a H) s (snd (js_call f t args s)))) \<Longrightarrow>
    js_promise_constructor oom is_fun create js_call not_fun ok sr fs oks executor st = Some (x, st') \<Longrightarrow> promise_program H st st'"
| then_call: "promise_of p st = Some d \<Longrightarrow> (\<forall>c v b s. promise_program (insert (promise_block p) H) s (track c p v b s)) \<Longrightarrow>
    perform_promise_then oom track is_fun ok0 ok1 e ctx p hs caps st = Some (n, st') \<Longrightarrow> promise_program H st st'"
| resolve: "function_at st f = Some d \<Longrightarrow> (\<forall>c v b s. promise_program (insert (promise_block (promise d)) H) s (track c (promise d) v b s)) \<Longrightarrow>
    (\<forall>v s. promise_program (insert (promise_block (promise d)) (insert f H)) s (snd (get_then v s))) \<Longrightarrow>
    js_promise_resolve_function_call oom track is_fun get_then err es e ctx f argv st = Some (x, st') \<Longrightarrow> promise_program H st st'"
| reaction: "(\<forall>f t args s. promise_program H s (snd (js_call f t args s))) \<Longrightarrow>
    promise_reaction_job js_call argv st = Some (x, st') \<Longrightarrow> promise_program H st st'"
| thenable: "fresh_blocks sr fs st \<Longrightarrow> (\<forall>f t args s. promise_program H s (snd (js_call f t args s))) \<Longrightarrow>
    js_promise_resolve_thenable_job oom js_call sr fs oks argv st = Some (x, st') \<Longrightarrow> promise_program H st st'"
| function_finalizer: "f \<notin> H \<Longrightarrow> js_promise_resolve_function_finalizer f st = Some st' \<Longrightarrow> promise_program H st st'"
| promise_finalizer: "a \<notin> H \<Longrightarrow> promise_program H st (js_promise_finalizer a st)"

lemma promise_program_run: "promise_program H st st' \<Longrightarrow> promise_run H st st'"
proof (induction rule: promise_program.induct)
  case (stop H st)
  show ?case by (rule promise_run.stays)
next
  case (seq H st st1 st2)
  show ?case by (rule promise_run.follows [OF seq.IH])
next
  case (engine H st rt)
  show ?case by (rule promise_run.engine)
next
  case (constructor create st obj st1 H sr fs js_call oom is_fun not_fun ok oks executor x st')
  have c: "call_run (insert a H) js_call" if "obj = JS_Object a" for a using constructor.IH(2) that by (simp add: call_run_def guest_run_def)
  have new: "obj \<noteq> JS_Exception \<Longrightarrow> (\<exists>a. obj = JS_Object a \<and> promise_at st1 a = None) \<and> fresh_blocks sr fs st1"
    using constructor.hyps by blast
  have "\<exists>x st'. js_promise_constructor oom is_fun create js_call not_fun ok sr fs oks executor st = Some (x, st') \<and> promise_run H st st'"
    using c constructor.IH(1) constructor.hyps(1) new
    by (intro promise_constructor_run [where create = create and st = st and obj = obj and ?st1.0 = st1]) simp_all
  then show ?case using constructor.hyps(4) by auto
next
  case (then_call p st d H track oom is_fun ok0 ok1 e ctx hs caps n st')
  have "tracker_run H p track" using then_call.IH by (simp add: tracker_run_def guest_run_def)
  from then_run [OF this then_call.hyps(1), of oom is_fun ok0 ok1 e ctx hs caps] show ?case using then_call.hyps by auto
next
  case (resolve st f d H track get_then oom is_fun err es e ctx argv x st')
  have g: "tracker_run H (promise d) track" "getter_run (insert f H) (promise d) get_then"
    using resolve.IH by (simp_all add: tracker_run_def getter_run_def guest_run_def)
  have "resolved_at st (presolved d) \<noteq> None"
    using resolve.hyps by (cases "resolved_at st (presolved d)") (simp_all add: js_promise_resolve_function_call_def)
  then have "\<exists>x st'. js_promise_resolve_function_call oom track is_fun get_then err es e ctx f argv st = Some (x, st') \<and> promise_run H st st'"
    using resolve.hyps(1) g by (intro resolve_run) simp_all
  then show ?case using resolve.hyps by auto
next
  case (reaction H js_call argv st x st')
  have c: "call_run H js_call" using reaction.IH by (simp add: call_run_def guest_run_def)
  have "length argv = 5" using reaction.hyps by (simp add: promise_reaction_job_def split: if_splits)
  from reaction_job_run [OF c this, of st] show ?case using reaction.hyps by auto
next
  case (thenable sr fs st H js_call oom oks argv x st')
  have c: "call_run H js_call" using thenable.IH by (simp add: call_run_def guest_run_def)
  have "length argv = 3" using thenable.hyps by (simp add: js_promise_resolve_thenable_job_def split: if_splits)
  from thenable_job_run [OF c thenable.hyps(1) this, of oom oks] show ?case using thenable.hyps by auto
next
  case (function_finalizer f H st st')
  have "resolved_at st (presolved s) \<noteq> None" if "function_at st f = Some s" for s
    using function_finalizer.hyps(2) that
    by (cases "resolved_at st (presolved s)") (simp_all add: js_promise_resolve_function_finalizer_def free_resolved_def)
  from function_finalizer_run [OF this function_finalizer.hyps(1)] show ?case using function_finalizer.hyps(2) by auto
next
  case (promise_finalizer a H st)
  show ?case by (rule promise_finalizer_run [OF promise_finalizer.hyps])
qed

section \<open>What programs keep\<close>

text \<open>Nothing waits for a settled promise.\<close>

definition settled_clean :: "'o promise_rt \<Rightarrow> bool" where
  "settled_clean st \<longleftrightarrow> (\<forall>a. \<not> stale st a)"

definition promises_ok :: "'o promise_rt \<Rightarrow> bool" where
  "promises_ok st \<longleftrightarrow> promise_functions_ok st \<and> settled_clean st"

lemma promise_run_ok: "promise_run H st st' \<Longrightarrow> promises_ok st \<Longrightarrow> promises_ok st'"
  using promise_run_functions_ok promise_run_stale by (fastforce simp: promises_ok_def settled_clean_def)

end
