(* ===== verification/PromiseJobs.thy ===== *)
theory PromiseJobs
  imports PromiseProgram
begin

text \<open>
  The jobs and the reference counts that settling a promise and attaching a reaction leave behind.
  \<open>refs vs a\<close> is how many of the values \<open>vs\<close> refer to the block \<open>a\<close>.
\<close>

fun refs :: "jsval list \<Rightarrow> addr \<Rightarrow> int" where
  "refs [] a = 0"
| "refs (v # vs) a = (if JS_VALUE_HAS_REF_COUNT v \<and> js_ptr v = a then 1 else 0) + refs vs a"

lemma rc_JS_FreeValue: "rc (JS_FreeValue v rt) a = rc rt a - refs [v] a"
  by (simp add: JS_FreeValue_def Let_def)

lemma rc_JS_DupValue: "rc (snd (JS_DupValue v rt)) a = rc rt a + refs [v] a"
  by (simp add: JS_DupValue_def)

lemma rc_free_values: "rc (free_values vs rt) a = rc rt a - refs vs a"
  by (induction vs arbitrary: rt) (simp_all add: rc_JS_FreeValue)

lemma rc_dup_values: "rc (dup_values vs rt) a = rc rt a + refs vs a"
  by (induction vs arbitrary: rt) (simp_all add: rc_JS_DupValue)

lemma rc_JS_EnqueueJob:
  "e \<noteq> 0 \<Longrightarrow> rc (snd (JS_EnqueueJob oom e ctx f args rt)) a = rc rt a + refs args a + (if a = ctx then 1 else 0)"
  by (simp add: JS_EnqueueJob_def JS_EnqueueJob2_def JS_DupContext_def rc_dup_values Let_def)

text \<open>What a reaction holds.\<close>

abbreviation held :: "JSPromiseReactionData \<Rightarrow> jsval list" where
  "held d \<equiv> [fst (resolving_funcs d), snd (resolving_funcs d), handler d]"

text \<open>The record of one side that \<open>perform_promise_then\<close> makes of the handlers \<open>hs\<close> and the resolving functions \<open>caps\<close>.\<close>

definition then_data :: "(jsval \<Rightarrow> bool) \<Rightarrow> jsval \<times> jsval \<Rightarrow> jsval \<times> jsval \<Rightarrow> bool \<Rightarrow> JSPromiseReactionData" where
  "then_data is_fun hs caps b =
     \<lparr>resolving_funcs = caps, handler = (let h = (if b then snd hs else fst hs) in if is_fun h then h else JS_Undefined)\<rparr>"

lemma reaction_data_then:
  "reaction_data is_fun (if b then snd hs else fst hs) caps rt =
     (then_data is_fun hs caps b, dup_values (held (then_data is_fun hs caps b)) rt)"
  by (simp add: reaction_data_def then_data_def Let_def)

lemma promise_reaction_data_free_frame [simp]:
  "links_of (promise_reaction_data_free d rt) = links_of rt"
  "job_list (promise_reaction_data_free d rt) = job_list rt"
  "job_at (promise_reaction_data_free d rt) = job_at rt"
  by (simp_all add: promise_reaction_data_free_def)

lemma rc_promise_reaction_data_free: "rc (promise_reaction_data_free d rt) a = rc rt a - refs (held d) a"
  by (simp add: promise_reaction_data_free_def rc_JS_FreeValue)

lemma free_reactions_frame [simp]:
  "links_of (free_reactions ds rt) = links_of rt"
  "job_list (free_reactions ds rt) = job_list rt"
  "job_at (free_reactions ds rt) = job_at rt"
  by (induction ds arbitrary: rt) simp_all

lemma rc_free_reactions: "rc (free_reactions ds rt) a = rc rt a - sum_list (map (\<lambda>d. refs (held d) a) ds)"
  by (induction ds arbitrary: rt) (simp_all add: rc_promise_reaction_data_free)

lemma refs_reaction_args: "refs (reaction_args d b v) a = refs (held d) a + refs [v] a"
  by (simp add: reaction_args_def has_ref_count_iff)

section \<open>The jobs\<close>

definition quiet :: "('o js_runtime \<Rightarrow> 'o js_runtime) \<Rightarrow> bool" where
  "quiet f \<longleftrightarrow> (\<forall>rt. links_of (f rt) = links_of rt \<and> job_list (f rt) = job_list rt \<and> job_at (f rt) = job_at rt)"

definition has_job :: "'o js_runtime \<Rightarrow> addr \<Rightarrow> addr \<Rightarrow> jsval list \<Rightarrow> bool" where
  "has_job rt ctx e args \<longleftrightarrow> e \<noteq> 0 \<longrightarrow> job_at rt e = \<lparr>realm = ctx, job_func = PROMISE_REACTION_JOB, job_argv = args\<rparr>"

lemma JS_EnqueueJob_queued:
  assumes "quiet oom" and "queued rt qs" and "e \<noteq> 0 \<Longrightarrow> e \<notin> set (job_list rt # qs)"
  shows "queued (snd (JS_EnqueueJob oom e ctx f args rt)) (qs @ (if e = 0 then [] else [e]))"
    and "job_list (snd (JS_EnqueueJob oom e ctx f args rt)) = job_list rt"
    and "job_at (snd (JS_EnqueueJob oom e ctx f args rt)) =
      (if e = 0 then job_at rt else (job_at rt)(e := \<lparr>realm = ctx, job_func = f, job_argv = args\<rparr>))"
  using assms JS_EnqueueJob2_queued [OF assms(2), of e ctx f args]
  by (auto simp: JS_EnqueueJob_def JS_EnqueueJob2_job_at JS_EnqueueJob2_def quiet_def queued_def)

lemma enqueue_reactions_queued:
  assumes "quiet oom" and "queued rt qs" and "length es = length ds" and "distinct (job_list rt # qs @ filter (\<lambda>e. e \<noteq> 0) es)"
  shows "queued (enqueue_reactions oom ctx b v es ds rt) (qs @ filter (\<lambda>e. e \<noteq> 0) es)
    \<and> (\<forall>a. a \<notin> set es \<longrightarrow> job_at (enqueue_reactions oom ctx b v es ds rt) a = job_at rt a)
    \<and> list_all2 (\<lambda>e d. has_job (enqueue_reactions oom ctx b v es ds rt) ctx e (reaction_args d b v)) es ds"
  using assms(2-4)
proof (induction ds arbitrary: rt qs es)
  case Nil
  then show ?case by simp
next
  case (Cons d ds)
  obtain e es' where es: "es = e # es'" using Cons.prems(2) by (cases es) auto
  let ?rt = "promise_reaction_data_free d (snd (JS_EnqueueJob oom e ctx PROMISE_REACTION_JOB (reaction_args d b v) rt))"
  have e: "e \<noteq> 0 \<Longrightarrow> e \<notin> set (job_list rt # qs)" using Cons.prems(3) es by auto
  note q = JS_EnqueueJob_queued [OF assms(1) Cons.prems(1) e, where f = PROMISE_REACTION_JOB and ctx = ctx and args = "reaction_args d b v"]
  have q1: "queued ?rt (qs @ (if e = 0 then [] else [e]))" using q(1) by (simp add: queued_def)
  have dis: "distinct (job_list ?rt # (qs @ (if e = 0 then [] else [e])) @ filter (\<lambda>e. e \<noteq> 0) es')"
    using Cons.prems(3) es q(2) by auto
  have IH: "queued (enqueue_reactions oom ctx b v es' ds ?rt) ((qs @ (if e = 0 then [] else [e])) @ filter (\<lambda>e. e \<noteq> 0) es')
    \<and> (\<forall>a. a \<notin> set es' \<longrightarrow> job_at (enqueue_reactions oom ctx b v es' ds ?rt) a = job_at ?rt a)
    \<and> list_all2 (\<lambda>e d. has_job (enqueue_reactions oom ctx b v es' ds ?rt) ctx e (reaction_args d b v)) es' ds"
    by (rule Cons.IH [OF q1 _ dis]) (use Cons.prems(2) es in simp)
  have eq: "enqueue_reactions oom ctx b v es (d # ds) rt = enqueue_reactions oom ctx b v es' ds ?rt"
    by (simp add: es)
  have "e \<noteq> 0 \<Longrightarrow> e \<notin> set es'" using Cons.prems(3) es by auto
  then have "has_job (enqueue_reactions oom ctx b v es' ds ?rt) ctx e (reaction_args d b v)"
    using IH q(3) by (simp add: has_job_def)
  then show ?case using IH q(3) unfolding eq by (auto simp: es)
qed

lemma rc_enqueue_reactions:
  "length es = length ds \<Longrightarrow> 0 \<notin> set es \<Longrightarrow>
   rc (enqueue_reactions oom ctx b v es ds rt) a = rc rt a + int (length es) * (refs [v] a + (if a = ctx then 1 else 0))"
proof (induction ds arbitrary: rt es)
  case (Cons d ds)
  obtain e es' where es: "es = e # es'" using Cons.prems(1) by (cases es) auto
  have "e \<noteq> 0" using Cons.prems(2) es by auto
  then show ?case using Cons es
    by (simp add: rc_promise_reaction_data_free rc_JS_EnqueueJob refs_reaction_args algebra_simps del: refs.simps)
qed simp

section \<open>Marking\<close>

text \<open>The cycle collector sees exactly the references that finalisation gives back.\<close>

lemma refs_append: "refs (vs @ ws) a = refs vs a + refs ws a"
  by (induction vs) simp_all

lemma refs_reactions: "refs (concat (map held ds)) a = sum_list (map (\<lambda>d. refs (held d) a) ds)"
  by (induction ds) (simp_all add: refs_append)

lemma promise_mark_is_finalized: "rc (base (js_promise_finalizer a st)) x = rc (base st) x - refs (js_promise_mark a st) x"
  by (cases "promise_at st a")
    (simp_all add: js_promise_finalizer_def js_promise_mark_def rc_JS_FreeValue rc_free_reactions refs_append refs_reactions del: refs.simps(2))

lemma function_mark_is_finalized:
  "js_promise_resolve_function_finalizer f st = Some st' \<Longrightarrow> rc (base st') x = rc (base st) x - refs (js_promise_resolve_function_mark f st) x"
  by (auto simp: js_promise_resolve_function_finalizer_def js_promise_resolve_function_mark_def rc_JS_FreeValue free_resolved_def
      simp del: refs.simps(2) split: option.splits bind_splits)

end
