(* ===== verification/PromiseProps.thy ===== *)
theory PromiseProps
  imports PromiseJobs
begin

text \<open>
  Properties of promises. Guest code and the tracker of the host are programs (\<open>PromiseProgram\<close>) that
  hold the promise they are called for; the three predicates below say so.
\<close>

definition tracker_ok :: "addr set \<Rightarrow> jsval \<Rightarrow> (addr \<Rightarrow> jsval \<Rightarrow> jsval \<Rightarrow> bool \<Rightarrow> 'o promise_rt \<Rightarrow> 'o promise_rt) \<Rightarrow> bool" where
  "tracker_ok H p track \<longleftrightarrow> (\<forall>ctx v b st. promise_program (insert (promise_block p) H) st (track ctx p v b st))"

definition getter_ok :: "addr set \<Rightarrow> jsval \<Rightarrow> (jsval \<Rightarrow> 'o promise_rt \<Rightarrow> jsval \<times> 'o promise_rt) \<Rightarrow> bool" where
  "getter_ok H p get_then \<longleftrightarrow> (\<forall>v st. promise_program (insert (promise_block p) H) st (snd (get_then v st)))"

definition calls_ok :: "addr set \<Rightarrow> (jsval \<Rightarrow> jsval \<Rightarrow> jsval list \<Rightarrow> 'o promise_rt \<Rightarrow> jsval \<times> 'o promise_rt) \<Rightarrow> bool" where
  "calls_ok H js_call \<longleftrightarrow> (\<forall>f t args st. promise_program H st (snd (js_call f t args st)))"

lemma tracker_okD: "tracker_ok H p track \<Longrightarrow> tracker_run H p track"
  by (auto intro: promise_program_run simp: tracker_ok_def tracker_run_def guest_run_def)

lemma getter_okD: "getter_ok H p get_then \<Longrightarrow> getter_run H p get_then"
  by (auto intro: promise_program_run simp: getter_ok_def getter_run_def guest_run_def)

lemma calls_okD: "calls_ok H js_call \<Longrightarrow> call_run H js_call"
  by (auto intro: promise_program_run simp: calls_ok_def call_run_def guest_run_def)

lemma promise_program_ok: "promise_program H st st' \<Longrightarrow> promises_ok st \<Longrightarrow> promises_ok st'"
  using promise_run_ok promise_program_run by blast

section \<open>A sample state\<close>

text \<open>
  A pending promise at 10 with one reaction on each side, its pair of functions at 20 and 21, and a second promise at 99
  that the tracker of the host finalises.
\<close>

definition sample_reaction :: "addr \<Rightarrow> JSPromiseReactionData" where
  "sample_reaction h = \<lparr>resolving_funcs = (JS_Undefined, JS_Undefined), handler = JS_Object h\<rparr>"

definition sample_promise :: JSPromiseData where
  "sample_promise = \<lparr>promise_state = JS_PROMISE_PENDING, promise_reactions = (\<lambda>b. [sample_reaction (if b then 31 else 30)]),
     is_handled = False, promise_result = JS_Undefined\<rparr>"

definition sample_base :: "unit js_runtime" where
  "sample_base =
     \<lparr>rc = (\<lambda>_. 5), released = [], objects = (\<lambda>_. \<lparr>obj_class_id = 1, opaque = 0\<rparr>), current_exception = JS_Uninitialized,
      current_exception_is_uncatchable = False, interrupt_handler = 0, interrupt_opaque = (), context_list = [50],
      interrupt_counter = (\<lambda>_. 10000), class_proto = (\<lambda>_. []), class_array = [],
      links_of = init_list_head 1 \<lparr>prev_of = (\<lambda>_. 0), next_of = (\<lambda>_. 0)\<rparr>, job_list = 1,
      job_at = (\<lambda>_. \<lparr>realm = 0, job_func = 0, job_argv = []\<rparr>), module_normalize_func = 0, module_loader_has_attr = False, module_loader_func = 0,
      module_check_attrs = 0, module_loader_opaque = 0, rejection_tracker = 7, rejection_tracker_opaque = 0\<rparr>"

definition sample_promises :: "unit promise_rt" where
  "sample_promises =
     \<lparr>base = sample_base, promise_at = [10 \<mapsto> sample_promise, 99 \<mapsto> new_promise_data],
      function_at = [20 \<mapsto> \<lparr>rejects = False, promise = JS_Object 10, presolved = 40\<rparr>, 21 \<mapsto> \<lparr>rejects = True, promise = JS_Object 10, presolved = 40\<rparr>],
      resolved_at = [40 \<mapsto> \<lparr>sr_ref_count = 2, already_resolved = False\<rparr>]\<rparr>"

abbreviation sample_tracker :: "addr \<Rightarrow> jsval \<Rightarrow> jsval \<Rightarrow> bool \<Rightarrow> unit promise_rt \<Rightarrow> unit promise_rt" where
  "sample_tracker \<equiv> \<lambda>_ _ _ _. js_promise_finalizer 99"

lemma sample_queue: "queued sample_base []"
  by (simp add: queued_def sample_base_def dlist_init)

lemma sample_tracker_ok: "99 \<notin> insert a H \<Longrightarrow> tracker_ok H (JS_Object a) sample_tracker"
  by (simp add: tracker_ok_def promise_program.promise_finalizer)

lemma sample_users: "users sample_promises sr = (if sr = 40 then {20, 21} else {})"
  by (auto simp: users_def sample_promises_def split: if_splits)

lemma sample_ok: "promises_ok sample_promises"
proof -
  have "promise_functions_ok sample_promises"
    by (simp add: promise_functions_ok_def shared_ok_def sample_users) (simp add: sample_promises_def)
  moreover have "settled_clean sample_promises"
    by (simp add: settled_clean_def stale_def) (simp add: sample_promises_def sample_promise_def new_promise_data_def)
  ultimately show ?thesis by (simp add: promises_ok_def)
qed

section \<open>Properties\<close>

definition promise_safe :: "(jsval \<times> 'o promise_rt) option \<Rightarrow> bool" where
  "promise_safe res \<longleftrightarrow> (\<exists>x st'. res = Some (x, st') \<and> promises_ok st')"

lemma promise_safeI: "promises_ok st \<Longrightarrow> \<exists>x st'. res = Some (x, st') \<and> promise_run H st st' \<Longrightarrow> promise_safe res"
  using promise_run_ok by (fastforce simp: promise_safe_def)

text \<open>C8: Started in a state where the blocks that pairs of resolving functions share are counted
  exactly and nothing waits for a settled promise, every operation on promises returns without
  touching a freed block and leaves such a state. Any allocation may fail, of entries, data and
  objects alike, and the guest code and the host may perform any operations on promises
  meanwhile that do not free what is held: the promise, and the resolving function while it runs.
\<close>

theorem promise_operations_safe:
  assumes ok: "promises_ok st" and alive: "promise_of p st \<noteq> None"
    and guests: "tracker_ok H p track" "getter_ok (insert f H) p get_then" "calls_ok H js_call" "calls_ok (insert b H) js_call"
    and f: "\<forall>d. function_at st f = Some d \<longrightarrow> promise d = p"
    and fresh: "fresh_blocks sr fs st" "create st = (obj, st1)" "promise_program H st st1"
      "obj = JS_Exception \<or> obj = JS_Object b \<and> promise_at st1 b = None" "fresh_blocks sr fs st1"
    and args: "length args3 = 3" "length args5 = 5"
  shows "promise_safe (js_promise_resolve_function_call oom track is_fun get_then err es e ctx f argv st)
    \<and> (\<exists>n st'. perform_promise_then oom track is_fun ok0 ok1 e ctx p hs caps st = Some (n, st') \<and> promises_ok st')
    \<and> promise_safe (promise_reaction_job js_call args5 st)
    \<and> promise_safe (js_promise_resolve_thenable_job oom js_call sr fs oks args3 st)
    \<and> promise_safe (js_promise_constructor oom is_fun create js_call not_fun ok sr fs oks executor st)
    \<and> (\<exists>st'. js_promise_resolve_function_finalizer g st = Some st' \<and> promises_ok st')
    \<and> promises_ok (js_promise_finalizer a st)"
proof (intro conjI)
  note track = tracker_okD [OF guests(1)] and get = getter_okD [OF guests(2)] and c = calls_okD [OF guests(3)] and cb = calls_okD [OF guests(4)]
  have block: "resolved_at st (presolved s) \<noteq> None" if "function_at st h = Some s" for h s
    using functions_okD [of st h s] ok that by (auto simp: promises_ok_def)
  show "promise_safe (js_promise_resolve_function_call oom track is_fun get_then err es e ctx f argv st)"
    by (rule promise_safeI [OF ok resolve_run]) (use block f track get in auto)
  obtain d where d: "promise_of p st = Some d" using alive by blast
  show "\<exists>n st'. perform_promise_then oom track is_fun ok0 ok1 e ctx p hs caps st = Some (n, st') \<and> promises_ok st'"
    using then_run [OF track d, of oom is_fun ok0 ok1 e ctx hs caps] promise_run_ok [OF _ ok] by blast
  show "promise_safe (promise_reaction_job js_call args5 st)"
    by (rule promise_safeI [OF ok reaction_job_run [OF c args(2)]])
  show "promise_safe (js_promise_resolve_thenable_job oom js_call sr fs oks args3 st)"
    by (rule promise_safeI [OF ok thenable_job_run [OF c fresh(1) args(1)]])
  show "promise_safe (js_promise_constructor oom is_fun create js_call not_fun ok sr fs oks executor st)"
    by (rule promise_safeI [OF ok promise_constructor_run [where create = create and obj = obj and ?st1.0 = st1 and H = H]])
      (use cb fresh promise_program_run in auto)
  show "\<exists>st'. js_promise_resolve_function_finalizer g st = Some st' \<and> promises_ok st'"
    using function_finalizer_run [of st g "{}"] block promise_run_ok [OF _ ok] by blast
  show "promises_ok (js_promise_finalizer a st)"
    using promise_run_ok [OF promise_finalizer_run [of a "{}"] ok] by simp
qed

text \<open>The getter drops the other function of the pair, which nobody holds; the second function object cannot be created.\<close>

definition dropping_getter :: "jsval \<Rightarrow> unit promise_rt \<Rightarrow> jsval \<times> unit promise_rt" where
  "dropping_getter v st = (JS_Undefined, case js_promise_resolve_function_finalizer 21 st of None \<Rightarrow> st | Some st' \<Rightarrow> st')"

lemma dropping_getter_ok: "21 \<notin> insert a H \<Longrightarrow> getter_ok H (JS_Object a) dropping_getter"
  by (auto simp: getter_ok_def dropping_getter_def split: option.split intro: promise_program.stop promise_program.function_finalizer [of 21])

lemma promise_operations_safe_witness:
  "promise_safe (js_promise_resolve_function_call id sample_tracker (\<lambda>_. True) dropping_getter JS_Undefined [200] 0 50 20 [JS_Object 11] sample_promises)
    \<and> promise_safe (js_promise_constructor id (\<lambda>_. True) (Pair (JS_Object 12)) (\<lambda>f t args st. (JS_Undefined, st\<lparr>base := sample_base\<rparr>)) JS_Undefined True 41 (22, 0) (True, True) (JS_Object 13) sample_promises)"
proof -
  have calls: "calls_ok H (\<lambda>f t args st :: unit promise_rt. (JS_Undefined, st\<lparr>base := sample_base\<rparr>))" for H
    by (simp add: calls_ok_def promise_program.engine)
  have get: "getter_ok {20} (JS_Object 10) dropping_getter" by (rule dropping_getter_ok) simp
  have p: "promise_of (JS_Object 10) sample_promises \<noteq> None" "\<forall>d. function_at sample_promises 20 = Some d \<longrightarrow> promise d = JS_Object 10"
    "fresh_blocks 41 (22, 0) sample_promises" "JS_Object 12 = JS_Exception \<or> JS_Object 12 = JS_Object 12 \<and> promise_at sample_promises 12 = None"
    by (auto simp: promise_of_def sample_promises_def fresh_blocks_def)
  have create: "(Pair (JS_Object 12)) sample_promises = (JS_Object 12, sample_promises)" by simp
  have track: "tracker_ok {} (JS_Object 10) sample_tracker" by (rule sample_tracker_ok) simp
  have args: "length [JS_Object 10, JS_Object 11, JS_Object 14] = 3" "length (reaction_args (sample_reaction 30) False JS_Null) = 5"
    by (simp_all add: reaction_args_def)
  show ?thesis
    using promise_operations_safe [where create = "Pair (JS_Object 12)" and obj = "JS_Object 12" and ?args3.0 = "[JS_Object 10, JS_Object 11, JS_Object 14]",
      OF sample_ok p(1) track get calls calls p(2,3) create promise_program.stop p(4,3) args] by blast
qed

text \<open>C7: A settled promise is final: whatever operations follow, in any order and nested through guest code,
  a promise that is still held keeps its state and its result, stays handled once it was, and has no
  reactions waiting.
\<close>

theorem settled_promise_is_final:
  assumes "promises_ok st" and "promise_at st a = Some s" and "promise_state s \<noteq> JS_PROMISE_PENDING"
    and "promise_program H st st'" and "a \<in> H"
  shows "\<exists>s'. promise_at st' a = Some s' \<and> promise_state s' = promise_state s \<and> promise_result s' = promise_result s
    \<and> promise_reactions s' = (\<lambda>_. []) \<and> (is_handled s \<longrightarrow> is_handled s')"
proof -
  have "promise_reactions s = (\<lambda>_. [])"
    using assms(1-3) by (auto simp: promises_ok_def settled_clean_def stale_def)
  then show ?thesis using promise_run_keeps [OF promise_program_run [OF assms(4)] assms(5,2)] assms(3) by auto
qed

lemma settled_promise_is_final_witness:
  "\<exists>s'. promise_at (js_promise_finalizer 99 (sample_promises\<lparr>promise_at := [10 \<mapsto> sample_promise\<lparr>promise_state := JS_PROMISE_REJECTED,
     promise_reactions := (\<lambda>_. []), promise_result := JS_Null\<rparr>, 99 \<mapsto> new_promise_data]\<rparr>)) 10 = Some s' \<and> promise_result s' = JS_Null"
proof -
  let ?s = "sample_promise\<lparr>promise_state := JS_PROMISE_REJECTED, promise_reactions := (\<lambda>_. []), promise_result := JS_Null\<rparr>"
  let ?st = "sample_promises\<lparr>promise_at := [10 \<mapsto> ?s, 99 \<mapsto> new_promise_data]\<rparr>"
  have ok: "promises_ok ?st"
    using sample_ok by (simp add: promises_ok_def settled_clean_def stale_def new_promise_data_def)
  have p: "promise_at ?st 10 = Some ?s" "promise_state ?s \<noteq> JS_PROMISE_PENDING" by simp_all
  have run: "promise_program {10} ?st (js_promise_finalizer 99 ?st)" by (rule promise_program.promise_finalizer) simp
  show ?thesis using settled_promise_is_final [OF ok p run] by auto
qed

text \<open>C9: Of the two functions that resolve a promise, the first call wins: after it returned, and after any
  further program, calling either of them again changes nothing, as long as both functions are held.
\<close>

theorem resolving_pair_used_once:
  assumes ok: "promises_ok st" and f: "function_at st f = Some s" and g: "function_at st g = Some t" and pair: "presolved t = presolved s"
    and held: "f \<in> H" "g \<in> H" and guests: "tracker_ok H (promise s) track" "getter_ok H (promise s) get_then"
    and first: "js_promise_resolve_function_call oom track is_fun get_then err es e ctx f argv st = Some (x, st1)"
    and after: "promise_program H st1 st2"
  shows "js_promise_resolve_function_call oom2 track2 is_fun2 get_then2 err2 es2 e2 ctx2 g argv2 st2 = Some (JS_Undefined, st2)"
proof -
  have fok: "promise_functions_ok st" using ok by (simp add: promises_ok_def)
  obtain r where r: "resolved_at st (presolved s) = Some r" using functions_okD [OF fok f] by blast
  define m where "m = st\<lparr>resolved_at := (resolved_at st)(presolved s \<mapsto> r\<lparr>already_resolved := True\<rparr>)\<rparr>"
  have mok: "promise_functions_ok m" unfolding m_def by (rule resolves_ok [OF fok r])
  have "promise_run H m st1"
  proof (cases "already_resolved r")
    case True
    have "st1 = st" using first resolve_again [OF f r True, of oom track is_fun get_then err es e ctx argv] by simp
    moreover have "r\<lparr>already_resolved := True\<rparr> = r" using True by simp
    then have "m = st" using r by (simp add: m_def fun_upd_idem)
    ultimately show ?thesis using promise_run.stays by blast
  next
    case False
    have get: "getter_ok (insert f H) (promise s) get_then" using guests(2) held(1) by (simp add: insert_absorb)
    show ?thesis
      using resolve_first_run [OF f r False tracker_okD [OF guests(1)] getter_okD [OF get], of oom is_fun err es e ctx argv] first
      by (simp add: m_def)
  qed
  then have run: "promise_run H m st2" by (rule promise_run.follows) (rule promise_program_run [OF after])
  have "function_at m g = Some t" "resolved_at m (presolved t) = Some (r\<lparr>already_resolved := True\<rparr>)"
    using g pair by (simp_all add: m_def)
  then obtain r' where "function_at st2 g = Some t" "resolved_at st2 (presolved t) = Some r'" "already_resolved r'"
    using promise_run_functions_keep [OF run mok held(2)] by fastforce
  then show ?thesis by (rule resolve_again)
qed

lemma resolving_pair_used_once_witness:
  "\<exists>x st1. js_promise_resolve_function_call id sample_tracker (\<lambda>_. True) (\<lambda>v st. (JS_Undefined, st)) JS_Undefined [200] 0 50 20 [JS_Object 11] sample_promises = Some (x, st1)
     \<and> js_promise_resolve_function_call id sample_tracker (\<lambda>_. True) (\<lambda>v st. (JS_Undefined, st)) JS_Undefined [210] 0 50 21 [JS_Null] (js_promise_finalizer 99 st1)
       = Some (JS_Undefined, js_promise_finalizer 99 st1)"
proof -
  let ?get = "\<lambda>v st :: unit promise_rt. (JS_Undefined, st)"
  let ?s = "\<lparr>rejects = False, promise = JS_Object 10, presolved = 40\<rparr>"
  have track: "tracker_ok {20, 21} (promise ?s) sample_tracker" by (simp add: sample_tracker_ok)
  have get: "getter_ok {20, 21} (promise ?s) ?get" by (simp add: getter_ok_def promise_program.stop)
  have f: "function_at sample_promises 20 = Some ?s" "function_at sample_promises 21 = Some \<lparr>rejects = True, promise = JS_Object 10, presolved = 40\<rparr>"
    by (simp_all add: sample_promises_def)
  have "resolved_at sample_promises (presolved ?s) = Some \<lparr>sr_ref_count = 2, already_resolved = False\<rparr>" by (simp add: sample_promises_def)
  then obtain x st1 where first: "js_promise_resolve_function_call id sample_tracker (\<lambda>_. True) ?get JS_Undefined [200] 0 50 20 [JS_Object 11] sample_promises = Some (x, st1)"
    using resolve_first_run [OF f(1) _ _ tracker_okD [OF track], where get_then = ?get] getter_okD [OF get] by fastforce
  have run: "promise_program {20, 21} st1 (js_promise_finalizer 99 st1)" by (rule promise_program.promise_finalizer) simp
  have "js_promise_resolve_function_call id sample_tracker (\<lambda>_. True) ?get JS_Undefined [210] 0 50 21 [JS_Null] (js_promise_finalizer 99 st1)
       = Some (JS_Undefined, js_promise_finalizer 99 st1)"
    by (rule resolving_pair_used_once [OF sample_ok f _ _ _ track get first run]) simp_all
  then show ?thesis using first by blast
qed

text \<open>C10: Settling a pending promise tells the tracker of the host when it is a rejection that nobody handles, then moves
  the waiting reactions of the one side to the job queue in the order in which they were attached, each with
  its resolving functions, its handler, the side and the value, and drops those of the other side. The promise
  has the state and the value and no reactions; a reaction whose entry cannot be allocated is
  lost. When none is, every reference is accounted for: a job holds the value and its
  realm in addition, and what the dropped reactions held is released.
\<close>

theorem settling_queues_reactions:
  assumes p: "promise_at st a = Some s" "promise_state s = JS_PROMISE_PENDING" and track: "tracker_ok H (JS_Object a) track"
    and st2: "st2 = tell_tracker track ctx (JS_Object a) (settled_data v b s) False
      (put_promise a (settled_data v b s) (on_base (\<lambda>rt. JS_FreeValue (promise_result s) (snd (JS_DupValue v rt))) st))"
    and q: "queued (base st2) qs" "length es = length (promise_reactions s b)" "distinct (job_list (base st2) # qs @ filter (\<lambda>e. e \<noteq> 0) es)"
    and oom: "quiet oom"
  shows "\<exists>st' h. fulfill_or_reject_promise oom track es ctx (JS_Object a) v b st = Some st'
    \<and> promise_at st' = (promise_at st2)(a \<mapsto> \<lparr>promise_state = if b then JS_PROMISE_REJECTED else JS_PROMISE_FULFILLED,
        promise_reactions = (\<lambda>_. []), is_handled = h, promise_result = v\<rparr>)
    \<and> queued (base st') (qs @ filter (\<lambda>e. e \<noteq> 0) es)
    \<and> list_all2 (\<lambda>e d. has_job (base st') ctx e (reaction_args d b v)) es (promise_reactions s b)
    \<and> (0 \<notin> set es \<longrightarrow> (\<forall>x. rc (base st') x = rc (base st2) x + int (length es) * (refs [v] x + (if x = ctx then 1 else 0))
        - sum_list (map (\<lambda>d. refs (held d) x) (promise_reactions s (\<not> b)))))"
proof -
  let ?s = "settled_data v b s"
  let ?st1 = "put_promise a ?s (on_base (\<lambda>rt. JS_FreeValue (promise_result s) (snd (JS_DupValue v rt))) st)"
  have run: "promise_run (insert a H) ?st1 st2"
    unfolding st2 using tell_tracker_run [OF tracker_okD [OF track]] by simp
  obtain s2 where s2: "promise_at st2 a = Some s2" "promise_state s2 = promise_state ?s" "promise_result s2 = v" "promise_reactions s2 = promise_reactions s"
    using promise_run_keeps [OF run, of a ?s] by (auto simp: settled_data_def split: if_splits)
  let ?rt = "enqueue_reactions oom ctx b v es (promise_reactions s b) (base st2)"
  let ?st' = "put_promise a (s2\<lparr>promise_reactions := (\<lambda>_. [])\<rparr>) (on_base (\<lambda>rt. free_reactions (promise_reactions s (\<not> b)) ?rt) st2)"
  have "fulfill_or_reject_promise oom track es ctx (JS_Object a) v b st = Some ?st'"
    using fulfill_eq [of "JS_Object a" st s st2 track ctx v b s2 oom es] p st2 s2(1,4) by (simp add: promise_of_def)
  moreover have "promise_at ?st' = (promise_at st2)(a \<mapsto> \<lparr>promise_state = if b then JS_PROMISE_REJECTED else JS_PROMISE_FULFILLED,
        promise_reactions = (\<lambda>_. []), is_handled = is_handled s2, promise_result = v\<rparr>)"
    using s2(2,3) by (cases s2) (simp add: settled_data_def)
  moreover have "queued (base ?st') (qs @ filter (\<lambda>e. e \<noteq> 0) es) \<and>
      list_all2 (\<lambda>e d. has_job (base ?st') ctx e (reaction_args d b v)) es (promise_reactions s b)"
    using enqueue_reactions_queued [OF oom q, of ctx b v] by (simp add: queued_def has_job_def)
  moreover have "rc (base ?st') x = rc (base st2) x + int (length es) * (refs [v] x + (if x = ctx then 1 else 0))
        - sum_list (map (\<lambda>d. refs (held d) x) (promise_reactions s (\<not> b)))" if "0 \<notin> set es" for x
    using rc_enqueue_reactions [OF q(2) that, of oom ctx b v "base st2" x] by (simp add: rc_free_reactions del: refs.simps)
  ultimately show ?thesis by blast
qed

lemma settling_queues_reactions_witness:
  "\<exists>st'. fulfill_or_reject_promise id sample_tracker [200] 50 (JS_Object 10) (JS_Object 12) True sample_promises = Some st'
     \<and> queued (base st') [200] \<and> job_argv (job_at (base st') 200) = [JS_Undefined, JS_Undefined, JS_Object 31, JS_Bool True, JS_Object 12]
     \<and> promise_at st' 99 = None \<and> rc (base st') 12 = 7 \<and> rc (base st') 31 = 5 \<and> rc (base st') 30 = 4"
proof -
  let ?s = "settled_data (JS_Object 12) True sample_promise"
  let ?st1 = "put_promise 10 ?s (on_base (\<lambda>rt. JS_FreeValue (promise_result sample_promise) (snd (JS_DupValue (JS_Object 12) rt))) sample_promises)"
  define st2 where "st2 = tell_tracker sample_tracker 50 (JS_Object 10) ?s False ?st1"
  have p: "promise_at sample_promises 10 = Some sample_promise" "promise_state sample_promise = JS_PROMISE_PENDING"
    by (simp_all add: sample_promises_def sample_promise_def)
  have track: "tracker_ok {} (JS_Object 10) sample_tracker" by (rule sample_tracker_ok) simp
  have st2: "base st2 = snd (JS_DupValue (JS_Object 12) sample_base)" "promise_at st2 = [10 \<mapsto> ?s]"
    by (auto simp: st2_def tell_tracker_def settled_data_def sample_promise_def sample_promises_def sample_base_def js_promise_finalizer_def
      new_promise_data_def JS_FreeValue_def JS_DupValue_def has_ref_count_iff)
  have q: "queued (base st2) []" "length [200] = length (promise_reactions sample_promise True)"
    "distinct (job_list (base st2) # [] @ filter (\<lambda>e. e \<noteq> 0) [200])"
    using sample_queue by (simp_all add: st2 queued_def sample_promise_def sample_base_def)
  have oom: "quiet id" by (simp add: quiet_def)
  show ?thesis
    using settling_queues_reactions [OF p track st2_def q oom]
    by (auto simp: st2 has_job_def reaction_args_def sample_promise_def sample_reaction_def rc_JS_DupValue has_ref_count_iff sample_base_def)
qed

text \<open>C11: Attaching reactions to a promise: when a record cannot be allocated the promise is as before. A pending
  promise keeps both records at the end of its two lists. A settled one queues one job at once, for the side it was settled
  to and with its result, after the tracker of the host heard that a rejection is handled after all; nothing waits on it.
  The promise counts as handled from then on, and the references of the records end up in the promise or in the job.
\<close>

theorem then_waits_or_queues:
  assumes p: "promise_at st a = Some s" and track: "tracker_ok H (JS_Object a) track" and oom: "quiet oom"
    and d: "d = then_data is_fun hs caps"
    and st2: "st2 = tell_tracker track ctx (JS_Object a) s True (on_base (\<lambda>rt. dup_values (held (d True)) (dup_values (held (d False)) rt)) st)"
    and q: "queued (base st2) qs" "e \<noteq> 0" "e \<notin> set (job_list (base st2) # qs)"
  shows "\<exists>n st'. perform_promise_then oom track is_fun ok0 ok1 e ctx (JS_Object a) hs caps st = Some (n, st') \<and>
    (if \<not> ok0 \<or> \<not> ok1 then n = -1 \<and> promise_at st' = promise_at st
     else n = 0 \<and>
      (if promise_state s = JS_PROMISE_PENDING
       then promise_at st' = (promise_at st)(a \<mapsto> s\<lparr>promise_reactions := (\<lambda>b. promise_reactions s b @ [d b]), is_handled := True\<rparr>)
          \<and> links_of (base st') = links_of (base st) \<and> job_at (base st') = job_at (base st)
          \<and> (\<forall>x. rc (base st') x = rc (base st) x + refs (held (d False)) x + refs (held (d True)) x)
       else let r = (promise_state s = JS_PROMISE_REJECTED) in
          promise_at st' = (promise_at st2)(a \<mapsto> s\<lparr>is_handled := True\<rparr>)
          \<and> queued (base st') (qs @ [e]) \<and> has_job (base st') ctx e (reaction_args (d r) r (promise_result s))
          \<and> (\<forall>x. rc (base st') x = rc (base st2) x + refs [promise_result s] x - refs (held (d (\<not> r))) x + (if x = ctx then 1 else 0))))"
proof (cases "ok0 \<and> ok1")
  case False
  then show ?thesis by (cases ok0) (auto simp: perform_promise_then_def reaction_data_def Let_def case_prod_beta)
next
  case ok: True
  let ?st1 = "on_base (\<lambda>rt. dup_values (held (d True)) (dup_values (held (d False)) rt)) st"
  have d0: "reaction_data is_fun (fst hs) caps rt = (d False, dup_values (held (d False)) rt)" for rt
    using reaction_data_then [of is_fun False] by (simp add: d del: dup_values.simps)
  have d1: "reaction_data is_fun (snd hs) caps rt = (d True, dup_values (held (d True)) rt)" for rt
    using reaction_data_then [of is_fun True] by (simp add: d del: dup_values.simps)
  have s: "promise_of (JS_Object a) ?st1 = Some s" using p by (simp add: promise_of_def)
  show ?thesis
  proof (cases "promise_state s = JS_PROMISE_PENDING")
    case True
    have "perform_promise_then oom track is_fun ok0 ok1 e ctx (JS_Object a) hs caps st =
      Some (0, put_promise a (s\<lparr>promise_reactions := (\<lambda>b. promise_reactions s b @ [d b]), is_handled := True\<rparr>) ?st1)"
      using ok True s unfolding perform_promise_then_def d0 d1 Let_def prod.case
      by (simp add: fun_eq_iff if_distrib [of d] cong: if_cong)
    then show ?thesis using ok True by (simp add: rc_dup_values del: refs.simps dup_values.simps)
  next
    case False
    have run: "promise_run (insert a H) ?st1 st2"
      unfolding st2 using tell_tracker_run [OF tracker_okD [OF track]] by simp
    obtain s2 where s2: "promise_at st2 a = Some s2" "promise_state s2 = promise_state s" "promise_result s2 = promise_result s" "promise_reactions s2 = promise_reactions s"
      using promise_run_keeps [OF run, of a s] p False by auto
    have handled: "s2\<lparr>is_handled := True\<rparr> = s\<lparr>is_handled := True\<rparr>" using s2(2-4) by (cases s; cases s2) simp
    let ?r = "promise_state s = JS_PROMISE_REJECTED"
    have side: "(if ?r then d True else d False) = d ?r" by simp
    let ?rt = "snd (JS_EnqueueJob oom e ctx PROMISE_REACTION_JOB (reaction_args (d ?r) ?r (promise_result s)) (base st2))"
    let ?st' = "put_promise a (s\<lparr>is_handled := True\<rparr>) (on_base (\<lambda>rt. promise_reaction_data_free (d True) (promise_reaction_data_free (d False) ?rt)) st2)"
    have eq: "perform_promise_then oom track is_fun ok0 ok1 e ctx (JS_Object a) hs caps st = Some (0, ?st')"
      using ok False s s2(1-3) unfolding perform_promise_then_def d0 d1 Let_def prod.case
      by (simp add: side handled st2)
    have e: "e \<noteq> 0 \<Longrightarrow> e \<notin> set (job_list (base st2) # qs)" using q(3) .
    note job = JS_EnqueueJob_queued [OF oom q(1) e, of ctx PROMISE_REACTION_JOB "reaction_args (d ?r) ?r (promise_result s)"]
    have "queued (base ?st') (qs @ [e]) \<and> has_job (base ?st') ctx e (reaction_args (d ?r) ?r (promise_result s))"
      using job q(2) by (simp add: queued_def has_job_def)
    moreover have "rc (base ?st') x = rc (base st2) x + refs [promise_result s] x - refs (held (d (\<not> ?r))) x + (if x = ctx then 1 else 0)" for x
      by (cases ?r) (simp_all add: rc_promise_reaction_data_free rc_JS_EnqueueJob [OF q(2)] refs_reaction_args del: refs.simps)
    ultimately show ?thesis using ok False eq by (simp add: Let_def)
  qed
qed

lemma then_waits_or_queues_witness:
  "\<exists>st'. perform_promise_then id sample_tracker (\<lambda>_. True) True True 200 50 (JS_Object 10) (JS_Object 32, JS_Object 33) (JS_Undefined, JS_Undefined) sample_promises = Some (0, st')
     \<and> map handler (promise_reactions (the (promise_at st' 10)) True) = [JS_Object 31, JS_Object 33] \<and> rc (base st') 33 = 6"
proof -
  define d where "d = then_data (\<lambda>_. True) (JS_Object 32, JS_Object 33) (JS_Undefined, JS_Undefined)"
  let ?st2 = "tell_tracker sample_tracker 50 (JS_Object 10) sample_promise True (on_base (\<lambda>rt. dup_values (held (d True)) (dup_values (held (d False)) rt)) sample_promises)"
  have p: "promise_at sample_promises 10 = Some sample_promise" by (simp add: sample_promises_def)
  have track: "tracker_ok {} (JS_Object 10) sample_tracker" by (rule sample_tracker_ok) simp
  have q: "queued (base ?st2) []" "(200 :: nat) \<noteq> 0" "200 \<notin> set (job_list (base ?st2) # [])"
    using sample_queue by (simp_all add: tell_tracker_def sample_promise_def sample_promises_def queued_def sample_base_def)
  have oom: "quiet id" by (simp add: quiet_def)
  show ?thesis
    using then_waits_or_queues [OF p track oom d_def refl q, of True True]
    by (auto simp: d_def then_data_def sample_promise_def sample_reaction_def has_ref_count_iff sample_promises_def sample_base_def)
qed

end
