(* ===== verification/Spec2Isabelle.thy ===== *)
theory Spec2Isabelle
  imports BridgeProps Utf8 DynBuf Exchange CharRangeCorrect CharFoldCorrect PropLookupCorrect BigIntTextProps GcProps ShapesProps PromiseProps
begin

text \<open>
  A verification library for quickjs-bun: the C bridge \<open>src/native/quickjs_bridge.c\<close>, which runs
  JavaScript guests for a Bun host, and the parts of the QuickJS engine under \<open>quickjs/\<close> that it is
  compiled with. Definitions translate the C code, under the names it has there; machine integers
  are words of their width, fixed-size objects are lists that are read and written with a bounds
  check (\<open>rd\<close>, \<open>wr\<close>: None is an access outside the object, the use of a freed block or a failed
  assertion), and what the code gets from outside (answers of the allocator, the clock, guest
  code, the C library) is an argument. So \<open>= Some r\<close> in a theorem says that the code returns, stays
  inside its objects and fails no assertion.

  \<^bold>\<open>How the parts fit together.\<close> A host creates runtimes and contexts through the bridge, which keeps
  a deadline, a registry of default timeouts and a table of finalizers behind the interrupt
  handler of the runtime. Every guest call enters a scope, runs the engine, whose interpreter polls
  the interrupt handler, and leaves the scope; the engine queues jobs, registers classes and
  throws errors for it. The values of guests live in reference counted blocks that the cycle
  collector frees; objects keep their properties in shapes; numbers beyond 2 ^ 53 are BigInts over
  limb arrays; text goes through UTF-8, case conversion and the character sets of regular
  expressions, and those sort with \<open>rqsort\<close>.

  \<^bold>\<open>The theories.\<close>

  \<^item> \<^bold>\<open>Prelude\<close>: memory cells, little-endian bytes and the lemmas that the components share.

  \<^item> \<^bold>\<open>Lists\<close> (\<open>list.h\<close>). \<open>ListH\<close>: a node is an address, the heap a pair of link functions; the locale
    \<open>node_queue\<close> is the interface of a queue and is interpreted on the list primitives.

  \<^item> \<^bold>\<open>Engine state\<close> (\<open>quickjs.h\<close>, \<open>quickjs.c\<close>). \<open>Engine\<close>: values, reference counts, the pending
    exception, host callbacks and the interrupt poll. \<open>ClassTable\<close>: class ids and classes.
    \<open>JobQueue\<close>: the queue of pending jobs, and the history of a queue that jobs add to and poll while they run.

  \<^item> \<^bold>\<open>The bridge\<close> (\<open>src/native/quickjs_bridge.c\<close>). \<open>Deadline\<close>: \<open>qjs_bun_enter\<close>, \<open>qjs_bun_leave\<close>,
    timeouts and the guest macros; \<open>TimeLimit\<close>: nested guests under their deadlines, over the locale
    \<open>error_reporting\<close>, and what the host reads off the error of a timeout, over the locale \<open>error_values\<close>. \<open>Bridge\<close>: runtimes, contexts, classes, jobs. \<open>BridgeOps\<close>, \<open>BridgeData\<close>: host
    functions with the release of their slot, evaluation, buffers, property keys, the prototype walk (locale \<open>property_access\<close>).
    \<open>BridgeProps\<close>: their properties.

  \<^item> \<^bold>\<open>Garbage\<close> (\<open>quickjs.c\<close>, \<open>JS_RunGCInternal\<close> and the functions that free blocks). \<open>GcHeap\<close>: blocks,
    the three lists, the three phases. \<open>GcMark\<close>: trial deletion finds the unreachable blocks;
    \<open>GcFree\<close>, \<open>GcRelease\<close>, \<open>GcSweep\<close>: freeing them one after the other; \<open>GcProps\<close>: the collection.

  \<^item> \<^bold>\<open>Objects and shapes\<close> (\<open>quickjs.c\<close>, \<open>JSShape\<close>). \<open>ShapeTable\<close>: the property table of one shape;
    \<open>Shapes\<close>: the hash table of shapes, cloning, adding, deleting and compacting properties.
    \<open>HashChain\<close> and \<open>ShapeHash\<close>: the chains of the hash table; \<open>ShapeEntries\<close>: an object as a list of properties;
    \<open>ShapesCorrect\<close>, \<open>ShapesAdd\<close>, \<open>ShapesDelete\<close>, \<open>ShapesNew\<close>: every operation keeps the invariant
    \<open>rt_ok\<close> and acts on one object only; \<open>ShapesProps\<close>: the properties.

  \<^item> \<^bold>\<open>Promises\<close> (\<open>quickjs.c\<close>, \<open>JSPromiseData\<close>). \<open>Promise\<close>: reactions, resolving functions, jobs.
    \<open>PromiseRun\<close>: the changes an operation may make, and what they keep; \<open>PromiseOps\<close>: every operation
    returns and makes only such changes; \<open>PromiseProgram\<close>: programs of operations that call each other through guest
    code; \<open>PromiseJobs\<close>: queued jobs and references; \<open>PromiseProps\<close>: the properties.

  \<^item> \<^bold>\<open>BigInts\<close> (\<open>quickjs.c\<close>, \<open>js_bigint_*\<close>, \<open>mp_*\<close>). \<open>Limbs\<close>, \<open>LimbsCorrect\<close>, \<open>LimbsDivide\<close>: limb
    arrays; \<open>BigInt\<close>: the operations; \<open>BigIntValue\<close>: the integer of a BigInt and its normal form;
    \<open>BigIntCorrect\<close>, \<open>BigIntDivide\<close>, \<open>BigIntBits\<close>, \<open>BigIntOrder\<close>, \<open>BigIntPower\<close>: each operation
    computes the operation on integers; \<open>BigIntProps\<close>. \<open>BigIntText\<close>, \<open>BigIntParse\<close>, \<open>BigIntPrint\<close>,
    \<open>BigIntTextProps\<close>: conversion from and to text.

  \<^item> \<^bold>\<open>Numbers and bytes\<close>. \<open>IntText\<close> (\<open>dtoa.c\<close>): printing of machine integers. \<open>CBytes\<close> (\<open>cutils.h\<close>): bit
    scans, unaligned access, half floats. \<open>Utf8\<close>, \<open>DynBuf\<close>, \<open>Rqsort\<close>, \<open>RqsortCorrect\<close>, \<open>Exchange\<close>
    (\<open>cutils.c\<close>): UTF-8, growing buffers (locale \<open>reallocator\<close>), sorting (locale \<open>comparison\<close>) and its
    element swaps.

  \<^item> \<^bold>\<open>Characters\<close> (\<open>libunicode.c\<close>). \<open>CharRange\<close>, \<open>CharRangeCorrect\<close>: sets of characters (locale
    \<open>point_reallocator\<close>). \<open>CaseTables\<close>, \<open>CaseConv\<close>, \<open>CaseConvCorrect\<close>, \<open>CharFold\<close>, \<open>CharFoldCorrect\<close>:
    case conversion and case folding of sets. \<open>PropTables\<close>, \<open>PropLookup\<close>, \<open>PropCheck\<close>,
    \<open>PropLookupCorrect\<close>: character properties. The tables are those of the source, entry for entry.

  \<^bold>\<open>What is shown.\<close> For the bridge: deadlines nest and are restored, a guest past its deadline is
  interrupted and reported, registries and finalizer tables stay consistent, buffers decode to what
  they encode. For the engine: a collection frees exactly the garbage; shapes implement objects as
  lists of properties, whatever is shared; a promise is settled once, for good, and runs exactly the
  reactions that waited for it; jobs run in order; BigInt operations compute integer
  arithmetic exactly, within the largest size, or fail with an exception. For the libraries: they
  sort, encode and decode, and compute the sets and conversions they name, inside their tables.
  One theorem states two defects of the code instead (failed class registrations that change the
  finalizer table); others are listed as findings of the manifest.

  \<^bold>\<open>Bounds and fuel.\<close> Two definitions run on fuel: \<open>list_walk\<close>, the macros that walk a list, which need one unit
  more than the list is long (\<open>list_primitives\<close>), and \<open>data_walk\<close>, the walk up a prototype chain, where
  every amount from some number on gives the same result for a finite chain (\<open>data_property_read\<close>). The other
  loops are structural or have a termination proof, or are \<open>partial_function (option)\<close>, where a theorem
  \<open>= Some r\<close> proves that they end. Sizes that the code assumes without checking are hypotheses: fewer than 2 ^ 26 entries in a
  shape (\<open>hash_next\<close> is a bit-field of 26 bits), fewer than 32 bits for the hash table of shapes,
  lengths of buffers below the width of their \<open>size_t\<close>.

  \<^bold>\<open>Not modelled.\<close> The byte code compiler, the interpreter loop and the built-in library of
  \<open>quickjs.c\<close>, and the opcode and atom lists it includes: guest code appears as the steps it may
  take. Of promises, capabilities and the methods above \<open>perform_promise_then\<close>. Strings, ropes and the atom table (atoms are numbers whose references are counted). The
  compiler and the matcher of regular expressions (\<open>libregexp.c\<close>). Conversion of floating point numbers
  (\<open>dtoa.c\<close> and the BigInt conversions that go through doubles). Normalisation, general categories,
  scripts and emoji sequences of \<open>libunicode.c\<close> with their generated tables. The exported bridge
  functions that are one call to the engine, and memory dumps. The TypeScript of the host side is
  outside the C code.
\<close>

end
